(* ===== verification/Prelude.thy ===== *)
theory Prelude
  imports Main "HOL-Library.Word" "HOL-Library.List_Lexorder" "HOL-Library.Char_ord"
    "HOL-Library.AList" "HOL-Library.Product_Lexorder"
begin

text \<open>
  Shared vocabulary of the development: the machine integers of the Rust source, fixed-width
  big- and little-endian byte codecs, the \<^verbatim>\<open>Result\<close> type with mitiflow's error enum
  (\<^verbatim>\<open>mitiflow/src/error.rs\<close>), the string operations the key-expression code uses, and the
  generic lemmas on them.  Strings are UTF-8 byte sequences (a \<^typ>\<open>char\<close> is one byte), as
  Rust's \<^verbatim>\<open>str\<close> indices count them.  Machine arithmetic wraps, as the release profile does.
\<close>

named_theorems codec_simps "round trips and lengths of byte codecs"
named_theorems str_simps "string search and parsing facts"

section \<open>Machine integers\<close>

type_synonym u8 = "8 word"
type_synonym u16 = "16 word"
type_synonym u32 = "32 word"
type_synonym u64 = "64 word"
type_synonym u128 = "128 word"
type_synonym bytes = "u8 list"

text \<open>
  \<^verbatim>\<open>PublisherId\<close> and \<^verbatim>\<open>EventId\<close> (\<^verbatim>\<open>mitiflow/src/types.rs\<close>) wrap a UUID, a
  128-bit number whose byte form is big-endian.  A \<^verbatim>\<open>DateTime<Utc>\<close> is a count of
  nanoseconds since the epoch, an \<^verbatim>\<open>Instant\<close> and a \<^verbatim>\<open>Duration\<close> are counts of
  nanoseconds; all are unbounded here and narrowed where the source narrows them.
\<close>

type_synonym PublisherId = u128
type_synonym EventId = u128
type_synonym DateTime = int
type_synonym Instant = nat
type_synonym Duration = nat

abbreviation u64_MAX :: u64 where "u64_MAX \<equiv> - 1"
abbreviation u32_MAX :: u32 where "u32_MAX \<equiv> - 1"
abbreviation u16_MAX :: u16 where "u16_MAX \<equiv> - 1"

text \<open>\<^verbatim>\<open>Duration::MAX\<close> in nanoseconds.\<close>

definition DURATION_MAX :: Duration where
  "DURATION_MAX = 18446744073709551615999999999"

definition saturating_sub :: "'a::len word \<Rightarrow> 'a word \<Rightarrow> 'a word" where
  "saturating_sub a b = (if a < b then 0 else a - b)"

definition word_range :: "'a::len word \<Rightarrow> 'a word \<Rightarrow> 'a word list" where
  "word_range lo hi = map word_of_nat [unat lo..<unat hi]"

lemma unat_saturating_sub [simp]: "unat (saturating_sub a b) = unat a - unat b"
  by (auto simp: saturating_sub_def word_less_nat_alt unat_sub_if')

lemma unat_word_of_nat_less [simp]:
  "n < unat (w :: 'a::len word) \<Longrightarrow> unat (word_of_nat n :: 'a word) = n"
  using unsigned_less[of w] by (simp add: unat_of_nat less_trans)

lemma set_word_range [simp]: "set (word_range lo hi) = {lo..<hi}"
proof (intro set_eqI iffI)
  fix w assume "w \<in> set (word_range lo hi)"
  then obtain n where n: "w = word_of_nat n" "unat lo \<le> n" "n < unat hi"
    by (auto simp: word_range_def)
  then have "unat w = n" by simp
  with n show "w \<in> {lo..<hi}" by (simp add: word_le_nat_alt word_less_nat_alt)
next
  fix w assume "w \<in> {lo..<hi}"
  then have "unat w \<in> {unat lo..<unat hi}" by (simp add: word_le_nat_alt word_less_nat_alt)
  then show "w \<in> set (word_range lo hi)"
    by (auto simp: word_range_def image_iff intro!: bexI[where x = "unat w"])
qed

lemma unsigned_word_of_nat_le: "unat (word_of_nat n :: 'a::len word) \<le> n"
  by (simp add: unat_of_nat)

lemma sorted_word_range: "sorted_wrt (<) (word_range lo (hi :: 'a::len word))"
proof -
  have "sorted_wrt (\<lambda>x y. (word_of_nat x :: 'a word) < word_of_nat y) [unat lo..<unat hi]"
    by (rule sorted_wrt_mono_rel[of _ "(<)"])
      (auto simp: word_less_nat_alt intro: le_less_trans[OF unsigned_word_of_nat_le])
  then show ?thesis by (simp add: word_range_def sorted_wrt_map)
qed

lemma fold_insert_set [simp]: "fold insert xs A = A \<union> set xs"
  by (induction xs arbitrary: A) auto

lemma word_succ_unat': "w \<noteq> - 1 \<Longrightarrow> unat (w + 1) = Suc (unat (w :: 'a::len word))"
  using unatSuc[of w] by (metis add.commute add.inverse_unique minus_equation_iff)

lemma word_succ_unat: "w < h \<Longrightarrow> unat (w + 1) = Suc (unat (w :: 'a::len word))"
  using word_succ_unat'[of w] by (metis word_n1_ge linorder_not_le)

lemma word_less_succ: "w < h \<Longrightarrow> (w :: 'a::len word) < w + 1"
  using word_succ_unat[of w h] by (simp add: word_less_nat_alt)

lemma word_succ_le: "w < h \<Longrightarrow> (w :: 'a::len word) + 1 \<le> h"
  using word_succ_unat[of w h] by (simp add: word_less_nat_alt word_le_nat_alt)

lemma word_less_succ_iff: "w \<noteq> - 1 \<Longrightarrow> (v < w + 1) = (v \<le> (w :: 'a::len word))"
  using word_succ_unat'[of w] by (simp add: word_less_nat_alt word_le_nat_alt less_Suc_eq_le)

lemma word_succ_le_iff: "w \<noteq> - 1 \<Longrightarrow> (w + 1 \<le> v) = ((w :: 'a::len word) < v)"
  using word_succ_unat'[of w] by (simp add: word_less_nat_alt word_le_nat_alt Suc_le_eq)

lemma word_less_not_max: "w < h \<Longrightarrow> (w :: 'a::len word) \<noteq> - 1"
  by (metis word_n1_ge linorder_not_le)

lemma word_atMost_succ:
  assumes "w < (h :: 'a::len word)"
  shows "{v. a \<le> v \<and> v \<le> w + 1} \<subseteq> insert (w + 1) {v. a \<le> v \<and> v \<le> w}"
  using word_less_succ_iff[OF word_less_not_max[OF assms]] by (auto simp: order_le_less)

lemma word_one_le_succ: "w < (h :: 'a::len word) \<Longrightarrow> 1 \<le> w + 1"
  using word_succ_unat[of w h] by (simp add: word_le_nat_alt)

lemma word_interval_split:
  assumes "s \<noteq> - 1" and "e \<le> s" and "s + 1 \<le> (h :: 'a::len word)"
  shows "{e..<s} \<union> insert s {s + 1..<h} = {e..<h}"
proof -
  have "s < h" using assms by (simp add: word_succ_le_iff)
  then show ?thesis
    using assms(2) word_succ_le_iff[OF assms(1)] by (auto intro: order_less_trans)
qed

section \<open>Results and errors\<close>

text \<open>
  The variants of \<^verbatim>\<open>Error\<close> that the modelled code constructs.  Free-form message strings
  of the wrapped library errors are kept as an opaque \<^typ>\<open>string\<close>.
\<close>

datatype DomainError = DomainInvalid string | EmptyEndpoints string

datatype error =
    Zenoh string
  | Serialization string
  | GapRecoveryFailed u128 u64 u64
  | DurabilityTimeout u64
  | CheckpointError string
  | StoreError string
  | ChannelClosed
  | InvalidAttachment string
  | InvalidConfig string
  | StaleFencedCommit string u64 u64
  | InvalidKey string
  | OffloadFailed string
  | TopicSchemaNotFound string
  | TopicSchemaMismatch string string string
  | EndOfReplay
  | OffsetNotFound string
  | DomainE DomainError

type_synonym 'a result = "error + 'a"

abbreviation Ok :: "'a \<Rightarrow> 'e + 'a" where "Ok \<equiv> Inr"
abbreviation Err :: "'e \<Rightarrow> 'e + 'a" where "Err \<equiv> Inl"

fun rbind :: "'e + 'a \<Rightarrow> ('a \<Rightarrow> 'e + 'b) \<Rightarrow> 'e + 'b" where
  "rbind (Err e) f = Err e"
| "rbind (Ok x) f = f x"

lemma rbind_Ok_iff [simp]: "(rbind r f = Ok y) = (\<exists>x. r = Ok x \<and> f x = Ok y)"
  by (cases r) auto

lemma rbind_Err_iff: "(rbind r f = Err e) = (r = Err e \<or> (\<exists>x. r = Ok x \<and> f x = Err e))"
  by (cases r) auto

text \<open>The kind of a sample received from Zenoh.\<close>

datatype SampleKind = Put | Delete

section \<open>Hash maps\<close>

text \<open>
  A \<^verbatim>\<open>HashMap\<close> is an association list without repeated keys; the list order stands for the
  unspecified iteration order.
\<close>

type_synonym ('k, 'v) hmap = "('k \<times> 'v) list"

abbreviation hm_get :: "('k, 'v) hmap \<Rightarrow> 'k \<Rightarrow> 'v option" where "hm_get \<equiv> map_of"
abbreviation hm_insert :: "'k \<Rightarrow> 'v \<Rightarrow> ('k, 'v) hmap \<Rightarrow> ('k, 'v) hmap" where "hm_insert \<equiv> AList.update"
abbreviation hm_remove :: "'k \<Rightarrow> ('k, 'v) hmap \<Rightarrow> ('k, 'v) hmap" where "hm_remove \<equiv> AList.delete"
abbreviation hm_wf :: "('k, 'v) hmap \<Rightarrow> bool" where "hm_wf m \<equiv> distinct (map fst m)"

lemma hm_get_insert [simp]: "hm_get (hm_insert k v m) = (hm_get m)(k \<mapsto> v)"
  by (rule update_conv')

lemma hm_get_remove [simp]: "hm_get (hm_remove k m) = (hm_get m)(k := None)"
  by (rule delete_conv')

lemma hm_wf_insert [simp]: "hm_wf m \<Longrightarrow> hm_wf (hm_insert k v m)"
  by (rule distinct_update)

lemma hm_wf_remove [simp]: "hm_wf m \<Longrightarrow> hm_wf (hm_remove k m)"
  by (rule distinct_delete)

lemma hm_get_filter [simp]:
  "hm_wf m \<Longrightarrow> hm_get (filter P m) k = (case hm_get m k of Some v \<Rightarrow> if P (k, v) then Some v else None | None \<Rightarrow> None)"
proof (induction m)
  case Nil
  then show ?case by simp
next
  case (Cons x m)
  then show ?case
    by (cases x; cases "fst x = k") (auto split: option.splits simp: map_of_eq_None_iff[symmetric])
qed

lemma fold_hm_remove_get:
  "hm_get (fold hm_remove ks m) k = (if k \<in> set ks then None else hm_get m k)"
  by (induction ks arbitrary: m) auto

section \<open>Byte codecs\<close>

fun nat_be :: "nat \<Rightarrow> nat \<Rightarrow> bytes" where
  "nat_be 0 x = []"
| "nat_be (Suc n) x = nat_be n (x div 256) @ [word_of_nat (x mod 256)]"

fun be_nat_acc :: "nat \<Rightarrow> bytes \<Rightarrow> nat" where
  "be_nat_acc a [] = a"
| "be_nat_acc a (b # bs) = be_nat_acc (a * 256 + unat b) bs"

definition to_be_bytes :: "'a::len word \<Rightarrow> bytes" where
  "to_be_bytes w = nat_be (LENGTH('a) div 8) (unat w)"

definition from_be_bytes :: "bytes \<Rightarrow> 'a::len word" where
  "from_be_bytes bs = word_of_nat (be_nat_acc 0 bs)"

definition to_le_bytes :: "'a::len word \<Rightarrow> bytes" where
  "to_le_bytes w = rev (to_be_bytes w)"

definition from_le_bytes :: "bytes \<Rightarrow> 'a::len word" where
  "from_le_bytes bs = from_be_bytes (rev bs)"

lemma length_nat_be [simp]: "length (nat_be n x) = n"
  by (induction n arbitrary: x) auto

lemma be_nat_acc_append: "be_nat_acc a (xs @ ys) = be_nat_acc (be_nat_acc a xs) ys"
  by (induction xs arbitrary: a) auto

lemma be_nat_nat_be: "be_nat_acc 0 (nat_be n x) = x mod 256 ^ n"
proof (induction n arbitrary: x)
  case 0
  then show ?case by simp
next
  case (Suc n)
  have "unat (word_of_nat (x mod 256) :: u8) = x mod 256"
    by (simp add: unat_of_nat)
  then show ?case
    using mod_mult2_eq[of x 256 "256 ^ n"] by (simp add: be_nat_acc_append Suc mult.commute)
qed

lemma nat_be_mod: "nat_be n (x mod 256 ^ n) = nat_be n x"
proof (induction n arbitrary: x)
  case 0
  then show ?case by simp
next
  case (Suc n)
  have "(x mod (256 * 256 ^ n)) div 256 = (x div 256) mod 256 ^ n"
    by (simp add: mod_mult2_eq)
  moreover have "(x mod (256 * 256 ^ n)) mod 256 = x mod 256"
    by (simp add: mod_mod_cancel)
  ultimately show ?case using Suc[of "x div 256"] by simp
qed

lemma nat_be_be_nat: "length bs = n \<Longrightarrow> nat_be n (be_nat_acc 0 bs) = bs"
proof (induction n arbitrary: bs)
  case 0
  then show ?case by simp
next
  case (Suc n)
  then obtain xs b where bs: "bs = xs @ [b]" and "length xs = n"
    by (metis length_Suc_conv_rev)
  moreover have "unat b < 256" using unsigned_less[of b] by simp
  ultimately show ?case using Suc.IH[of xs] by (simp add: be_nat_acc_append)
qed

lemma nat_be_inject:
  "x < 256 ^ n \<Longrightarrow> y < 256 ^ n \<Longrightarrow> nat_be n x = nat_be n y \<Longrightarrow> x = y"
  by (metis be_nat_nat_be mod_less)

lemma length_to_be_bytes [codec_simps, simp]:
  "length (to_be_bytes (w :: 'a::len word)) = LENGTH('a) div 8"
  by (simp add: to_be_bytes_def)

lemma length_to_le_bytes [codec_simps, simp]:
  "length (to_le_bytes (w :: 'a::len word)) = LENGTH('a) div 8"
  by (simp add: to_le_bytes_def)

lemma pow256: "(256 :: nat) ^ n = 2 ^ (8 * n)"
  by (simp add: power_mult)

lemma from_to_be_bytes:
  assumes "8 dvd LENGTH('a::len)"
  shows "from_be_bytes (to_be_bytes (w :: 'a word)) = w"
  using assms by (simp add: from_be_bytes_def to_be_bytes_def be_nat_nat_be pow256)

lemma from_to_be_64 [codec_simps, simp]: "from_be_bytes (to_be_bytes (w :: u64)) = w"
  by (rule from_to_be_bytes) simp

lemma from_to_be_32 [codec_simps, simp]: "from_be_bytes (to_be_bytes (w :: u32)) = w"
  by (rule from_to_be_bytes) simp

lemma from_to_be_16 [codec_simps, simp]: "from_be_bytes (to_be_bytes (w :: u16)) = w"
  by (rule from_to_be_bytes) simp

lemma from_to_be_128 [codec_simps, simp]: "from_be_bytes (to_be_bytes (w :: u128)) = w"
  by (rule from_to_be_bytes) simp

lemma from_to_le_64 [codec_simps, simp]: "from_le_bytes (to_le_bytes (w :: u64)) = w"
  by (simp add: from_le_bytes_def to_le_bytes_def)

lemma from_to_le_32 [codec_simps, simp]: "from_le_bytes (to_le_bytes (w :: u32)) = w"
  by (simp add: from_le_bytes_def to_le_bytes_def)

lemma be_nat_acc_bound: "be_nat_acc 0 bs < 256 ^ length bs"
  by (metis be_nat_nat_be mod_less_divisor nat_be_be_nat zero_less_numeral zero_less_power)

lemma to_from_be_bytes:
  assumes "8 * length bs = LENGTH('a::len)"
  shows "to_be_bytes (from_be_bytes bs :: 'a word) = bs"
proof -
  have "be_nat_acc 0 bs < 2 ^ LENGTH('a)"
    using be_nat_acc_bound[of bs] assms by (simp add: pow256)
  then have "unat (from_be_bytes bs :: 'a word) = be_nat_acc 0 bs"
    by (simp add: from_be_bytes_def unat_of_nat)
  moreover have "LENGTH('a) div 8 = length bs" using assms by simp
  ultimately show ?thesis by (simp add: to_be_bytes_def nat_be_be_nat)
qed

text \<open>Big-endian encoding turns the numeric order into the lexicographic order of bytes.\<close>

lemma list_less_append_same:
  "length xs = length ys \<Longrightarrow>
   (xs @ us < ys @ vs) = (xs < ys \<or> xs = ys \<and> us < (vs :: 'a::order list))"
proof (induction xs ys rule: list_induct2)
  case Nil
  then show ?case by simp
next
  case (Cons x xs y ys)
  then show ?case by auto
qed

lemma div_mod_less:
  "(x < y) = (x div m < y div m \<or> x div m = y div m \<and> x mod m < (y mod m :: nat))"
proof -
  have "x div m < y div m \<Longrightarrow> x < y"
    using div_le_mono linorder_not_le by blast
  moreover have "y div m < x div m \<Longrightarrow> \<not> x < y"
    using div_le_mono linorder_not_le less_imp_le by metis
  moreover have "x div m = y div m \<Longrightarrow> (x < y) = (x mod m < y mod m)"
    by (metis div_mult_mod_eq nat_add_left_cancel_less)
  ultimately show ?thesis by (meson linorder_cases)
qed

lemma nat_be_less:
  "x < 256 ^ n \<Longrightarrow> y < 256 ^ n \<Longrightarrow> (nat_be n x < nat_be n y) = (x < y)"
proof (induction n arbitrary: x y)
  case 0
  then show ?case by simp
next
  case (Suc n)
  have b: "x div 256 < 256 ^ n" "y div 256 < 256 ^ n"
    using Suc.prems by (simp_all add: less_mult_imp_div_less mult.commute)
  have eq: "(nat_be n (x div 256) = nat_be n (y div 256)) = (x div 256 = y div 256)"
    using b by (metis nat_be_inject)
  have last: "(word_of_nat (x mod 256) < (word_of_nat (y mod 256) :: u8)) = (x mod 256 < y mod 256)"
    by (simp add: word_less_nat_alt unat_of_nat)
  have "(nat_be (Suc n) x < nat_be (Suc n) y)
      = (x div 256 < y div 256 \<or> x div 256 = y div 256 \<and> x mod 256 < y mod 256)"
    by (simp add: list_less_append_same Suc.IH[OF b] eq last)
  also have "\<dots> = (x < y)"
    by (metis div_mod_less)
  finally show ?case .
qed

lemma to_be_bytes_less:
  assumes "8 dvd LENGTH('a::len)"
  shows "to_be_bytes (v :: 'a word) < to_be_bytes w \<longleftrightarrow> v < w"
proof -
  have "(256 :: nat) ^ (LENGTH('a) div 8) = 2 ^ LENGTH('a)" using assms by (simp add: pow256)
  then show ?thesis
    using nat_be_less[of "unat v" "LENGTH('a) div 8" "unat w"]
    by (simp add: to_be_bytes_def word_less_nat_alt)
qed

lemma to_be_bytes_less_64 [simp]: "to_be_bytes (v :: u64) < to_be_bytes w \<longleftrightarrow> v < w"
  by (rule to_be_bytes_less) simp

lemma to_be_bytes_less_32 [simp]: "to_be_bytes (v :: u32) < to_be_bytes w \<longleftrightarrow> v < w"
  by (rule to_be_bytes_less) simp

lemma to_be_bytes_less_128 [simp]: "to_be_bytes (v :: u128) < to_be_bytes w \<longleftrightarrow> v < w"
  by (rule to_be_bytes_less) simp

lemma to_be_bytes_eq_64 [simp]: "to_be_bytes (v :: u64) = to_be_bytes w \<longleftrightarrow> v = w"
  by (metis from_to_be_64)

lemma to_be_bytes_eq_32 [simp]: "to_be_bytes (v :: u32) = to_be_bytes w \<longleftrightarrow> v = w"
  by (metis from_to_be_32)

section \<open>Strings\<close>

text \<open>The bytes of a string (\<^verbatim>\<open>str::as_bytes\<close>).\<close>

definition as_bytes :: "string \<Rightarrow> bytes" where
  "as_bytes s = map (\<lambda>c. word_of_nat (of_char c)) s"

lemma as_bytes_inj: "as_bytes s = as_bytes t \<longleftrightarrow> s = t"
proof -
  have "inj (\<lambda>c. word_of_nat (of_char c) :: u8)"
  proof (rule injI)
    fix c d :: char
    assume eq: "(word_of_nat (of_char c) :: u8) = word_of_nat (of_char d)"
    have "unat (word_of_nat (of_char x) :: u8) = of_char x" for x :: char
      using of_char_mod_256[of x] by (simp add: unat_of_nat)
    with eq have "(of_char c :: nat) = of_char d" by metis
    then show "c = d" by simp
  qed
  then show ?thesis by (simp add: as_bytes_def inj_map_eq_map)
qed

fun starts_with :: "string \<Rightarrow> string \<Rightarrow> bool" where
  "starts_with [] s = True"
| "starts_with (p # ps) [] = False"
| "starts_with (p # ps) (c # cs) = (p = c \<and> starts_with ps cs)"

fun str_find :: "string \<Rightarrow> string \<Rightarrow> nat option" where
  "str_find pat [] = (if pat = [] then Some 0 else None)"
| "str_find pat (c # cs) =
     (if starts_with pat (c # cs) then Some 0 else map_option Suc (str_find pat cs))"

definition str_contains :: "string \<Rightarrow> string \<Rightarrow> bool" where
  "str_contains pat s = (str_find pat s \<noteq> None)"

fun find_char :: "char \<Rightarrow> string \<Rightarrow> nat option" where
  "find_char c [] = None"
| "find_char c (x # xs) = (if x = c then Some 0 else map_option Suc (find_char c xs))"

definition rfind_char :: "char \<Rightarrow> string \<Rightarrow> nat option" where
  "rfind_char c s = map_option (\<lambda>i. length s - Suc i) (find_char c (rev s))"

definition split_once :: "char \<Rightarrow> string \<Rightarrow> (string \<times> string) option" where
  "split_once c s = map_option (\<lambda>i. (take i s, drop (Suc i) s)) (find_char c s)"

fun split_on :: "(char \<Rightarrow> bool) \<Rightarrow> string \<Rightarrow> string list" where
  "split_on P [] = [[]]"
| "split_on P (c # cs) =
     (if P c then [] # split_on P cs
      else (case split_on P cs of [] \<Rightarrow> [[c]] | w # ws \<Rightarrow> (c # w) # ws))"

definition is_space :: "char \<Rightarrow> bool" where
  "is_space c = (c = CHR '' '' \<or> (9 \<le> (of_char c :: nat) \<and> of_char c \<le> (13 :: nat)))"

definition trim :: "string \<Rightarrow> string" where
  "trim s = rev (dropWhile is_space (rev (dropWhile is_space s)))"

definition strip_prefix :: "string \<Rightarrow> string \<Rightarrow> string option" where
  "strip_prefix p s = (if starts_with p s then Some (drop (length p) s) else None)"

definition digit_char :: "nat \<Rightarrow> char" where
  "digit_char d = char_of (48 + d)"

fun show_nat :: "nat \<Rightarrow> string" where
  "show_nat n = (if n < 10 then [digit_char n] else show_nat (n div 10) @ [digit_char (n mod 10)])"

declare show_nat.simps [simp del]

fun parse_digits :: "nat \<Rightarrow> string \<Rightarrow> nat option" where
  "parse_digits a [] = Some a"
| "parse_digits a (c # cs) =
     (if 48 \<le> (of_char c :: nat) \<and> of_char c \<le> (57 :: nat)
      then parse_digits (a * 10 + (of_char c - 48)) cs else None)"

text \<open>
  \<^verbatim>\<open>str::parse\<close> for an unsigned type with values below \<open>bound\<close>: an optional \<open>+\<close>, at least
  one digit, no overflow.
\<close>

definition parse_uint :: "nat \<Rightarrow> string \<Rightarrow> nat option" where
  "parse_uint bound s =
     (let ds = (case s of [] \<Rightarrow> [] | c # cs \<Rightarrow> if c = CHR ''+'' then cs else s)
      in if ds = [] then None
         else (case parse_digits 0 ds of
                 None \<Rightarrow> None
               | Some n \<Rightarrow> if n < bound then Some n else None))"

definition parse_u64 :: "string \<Rightarrow> u64 option" where
  "parse_u64 s = map_option word_of_nat (parse_uint (2 ^ 64) s)"

definition parse_u32 :: "string \<Rightarrow> u32 option" where
  "parse_u32 s = map_option word_of_nat (parse_uint (2 ^ 32) s)"

definition show_word :: "'a::len word \<Rightarrow> string" where
  "show_word w = show_nat (unat w)"

subsection \<open>Searching\<close>

lemma starts_with_iff: "starts_with p s = (\<exists>t. s = p @ t)"
  by (induction p s rule: starts_with.induct) auto

lemma starts_with_append [str_simps, simp]: "starts_with p (p @ t)"
  by (auto simp: starts_with_iff)

lemma starts_with_take:
  "length p \<le> length a \<Longrightarrow> starts_with p (a @ b) = starts_with p a"
  by (induction p a rule: starts_with.induct) auto

lemma str_find_append:
  assumes "pat \<noteq> []" and "\<not> str_contains pat (pre @ butlast pat)"
  shows "str_find pat (pre @ pat @ rest) = Some (length pre)"
  using assms(2)
proof (induction pre)
  case Nil
  from assms(1) obtain c cs where "pat = c # cs" by (cases pat) auto
  then show ?case using starts_with_append[of pat rest] by simp
next
  case (Cons c pre)
  have no: "\<not> starts_with pat (c # pre @ butlast pat)"
    using Cons.prems by (auto simp: str_contains_def split: if_splits)
  have "pat = butlast pat @ [last pat]" using assms(1) by simp
  then have "c # pre @ pat @ rest = (c # pre @ butlast pat) @ last pat # rest"
    by (metis append.assoc append_Cons append_Nil)
  moreover have "length pat \<le> length (c # pre @ butlast pat)"
    by (simp add: Suc_leI)
  ultimately have "\<not> starts_with pat (c # pre @ pat @ rest)"
    using no starts_with_take by metis
  moreover have "str_find pat (pre @ pat @ rest) = Some (length pre)"
    using Cons no by (auto simp: str_contains_def)
  ultimately show ?case by simp
qed

lemma find_char_None [simp]: "(find_char c s = None) = (c \<notin> set s)"
  by (induction s) auto

lemma find_char_append [str_simps, simp]:
  "c \<notin> set xs \<Longrightarrow> find_char c (xs @ c # ys) = Some (length xs)"
  by (induction xs) auto

lemma rfind_char_append [str_simps, simp]:
  "c \<notin> set ys \<Longrightarrow> rfind_char c (xs @ c # ys) = Some (length xs)"
  by (simp add: rfind_char_def)

lemma split_once_append [str_simps, simp]:
  "c \<notin> set xs \<Longrightarrow> split_once c (xs @ c # ys) = Some (xs, ys)"
  by (simp add: split_once_def)

lemma strip_prefix_append [str_simps, simp]: "strip_prefix p (p @ t) = Some t"
  by (simp add: strip_prefix_def)

subsection \<open>Decimal numerals\<close>

lemma of_digit_char [simp]: "d < 10 \<Longrightarrow> of_char (digit_char d) = 48 + d"
  by (simp add: digit_char_def)

lemma parse_digits_append:
  "parse_digits a (xs @ ys) = Option.bind (parse_digits a xs) (\<lambda>b. parse_digits b ys)"
  by (induction xs arbitrary: a) auto

lemma parse_digits_show: "parse_digits 0 (show_nat n) = Some n"
proof (induction n rule: show_nat.induct)
  case (1 n)
  show ?case
  proof (cases "n < 10")
    case True
    then show ?thesis by (subst show_nat.simps) simp
  next
    case False
    then have "parse_digits 0 (show_nat (n div 10)) = Some (n div 10)" by (rule 1)
    with False show ?thesis by (subst show_nat.simps) (simp add: parse_digits_append)
  qed
qed

lemma show_nat_digits: "c \<in> set (show_nat n) \<Longrightarrow> \<exists>d < 10. c = digit_char d"
proof (induction n rule: show_nat.induct)
  case (1 n)
  show ?case
  proof (cases "n < 10")
    case True
    with 1 show ?thesis by (subst (asm) show_nat.simps) auto
  next
    case False
    with 1 show ?thesis
      by (subst (asm) (2) show_nat.simps) (auto intro: exI[of _ "n mod 10"])
  qed
qed

lemma show_nat_range: "c \<in> set (show_nat n) \<Longrightarrow> (48 :: nat) \<le> of_char c \<and> of_char c \<le> (57 :: nat)"
  using show_nat_digits by fastforce

lemma show_nat_notin:
  assumes "of_char c < (48 :: nat) \<or> (57 :: nat) < of_char c"
  shows "c \<notin> set (show_nat n)"
proof
  assume "c \<in> set (show_nat n)"
  then obtain d where d: "d < 10" "c = digit_char d" using show_nat_digits by blast
  then have "(of_char c :: nat) = 48 + d" by simp
  with d assms show False by linarith
qed

lemma show_nat_nonempty [simp]: "show_nat n \<noteq> []"
  by (subst show_nat.simps) simp

lemma parse_uint_show [str_simps, simp]:
  assumes "n < bound"
  shows "parse_uint bound (show_nat n) = Some n"
proof -
  obtain c cs where s: "show_nat n = c # cs" by (cases "show_nat n") auto
  have "CHR ''+'' \<notin> set (show_nat n)" by (rule show_nat_notin) simp
  with s have "c \<noteq> CHR ''+''" by auto
  with s have "parse_uint bound (show_nat n) =
      (case parse_digits 0 (show_nat n) of None \<Rightarrow> None | Some m \<Rightarrow> if m < bound then Some m else None)"
    by (simp add: parse_uint_def del: parse_digits.simps)
  with assms show ?thesis by (simp add: parse_digits_show)
qed

lemma parse_show_u64 [str_simps, simp]: "parse_u64 (show_word w) = Some w"
proof -
  have "unat w < 2 ^ 64" using unsigned_less[of w] by simp
  then show ?thesis by (simp add: parse_u64_def show_word_def)
qed

lemma parse_show_u32 [str_simps, simp]: "parse_u32 (show_word w) = Some w"
proof -
  have "unat w < 2 ^ 32" using unsigned_less[of w] by simp
  then show ?thesis by (simp add: parse_u32_def show_word_def)
qed

lemma slash_notin_show [str_simps, simp]: "CHR ''/'' \<notin> set (show_word w)"
  unfolding show_word_def by (rule show_nat_notin) simp

lemma show_word_nonempty [simp]: "show_word w \<noteq> []"
  by (simp add: show_word_def)

end
