(* ===== verification/Attachment.thy ===== *)
theory Attachment
  imports Prelude
begin

text \<open>
  \<^verbatim>\<open>mitiflow/src/types.rs\<close> and \<^verbatim>\<open>mitiflow/src/attachment.rs\<close>: identifiers, the fixed
  50-byte metadata attachment every event carries (62 bytes in store replies), and the functions
  that read the partition and the application key out of a key expression.
\<close>

section \<open>Identifiers\<close>

definition id_to_bytes :: "u128 \<Rightarrow> bytes" where
  "id_to_bytes i = to_be_bytes i"

definition id_from_bytes :: "bytes \<Rightarrow> u128" where
  "id_from_bytes bs = from_be_bytes bs"

section \<open>Metadata attachments\<close>

definition ATTACHMENT_SIZE :: nat where
  "ATTACHMENT_SIZE = 8 + 16 + 16 + 8 + 2"

definition EXTENDED_ATTACHMENT_SIZE :: nat where
  "EXTENDED_ATTACHMENT_SIZE = ATTACHMENT_SIZE + 12"

definition NO_URGENCY :: u16 where
  "NO_URGENCY = u16_MAX"

record EventMeta =
  em_seq :: u64
  em_pub_id :: PublisherId
  em_event_id :: EventId
  em_timestamp :: DateTime
  em_urgency_ms :: u16
  em_hlc_physical_ns :: "u64 option"
  em_hlc_logical :: "u32 option"

text \<open>
  \<^verbatim>\<open>DateTime::timestamp_nanos_opt\<close>: the nanosecond count when it fits an \<^verbatim>\<open>i64\<close>.
\<close>

definition timestamp_nanos_opt :: "DateTime \<Rightarrow> int option" where
  "timestamp_nanos_opt t = (if - (2 ^ 63) \<le> t \<and> t < 2 ^ 63 then Some t else None)"

definition nanos_or :: "int \<Rightarrow> DateTime \<Rightarrow> int" where
  "nanos_or d t = (case timestamp_nanos_opt t of Some n \<Rightarrow> n | None \<Rightarrow> d)"

definition encode_metadata ::
    "PublisherId \<Rightarrow> u64 \<Rightarrow> EventId \<Rightarrow> DateTime \<Rightarrow> u16 \<Rightarrow> bytes" where
  "encode_metadata pub_id seq event_id timestamp urgency_ms =
     to_be_bytes seq @ id_to_bytes pub_id @ id_to_bytes event_id
     @ to_be_bytes (word_of_int (nanos_or 0 timestamp) :: u64)
     @ to_be_bytes urgency_ms"

definition encode_metadata_with_hlc ::
    "PublisherId \<Rightarrow> u64 \<Rightarrow> EventId \<Rightarrow> DateTime \<Rightarrow> u16 \<Rightarrow> u64 \<Rightarrow> u32 \<Rightarrow> bytes" where
  "encode_metadata_with_hlc pub_id seq event_id timestamp urgency_ms hlc_physical_ns hlc_logical =
     to_be_bytes seq @ id_to_bytes pub_id @ id_to_bytes event_id
     @ to_be_bytes (word_of_int (nanos_or 0 timestamp) :: u64)
     @ to_be_bytes urgency_ms
     @ to_be_bytes hlc_physical_ns @ to_be_bytes hlc_logical"

text \<open>
  A slice of the wrong length cannot be converted to an array; the length test of
  \<open>decode_metadata\<close> makes every slice it takes full.
\<close>

definition read_array :: "bytes \<Rightarrow> nat \<Rightarrow> nat \<Rightarrow> string \<Rightarrow> bytes result" where
  "read_array bs offset n field =
     (let slice = take n (drop offset bs)
      in if length slice = n then Ok slice else Err (InvalidAttachment (field @ '' decode'')))"

definition read_u64 :: "bytes \<Rightarrow> nat \<Rightarrow> string \<Rightarrow> u64 result" where
  "read_u64 bs offset field = rbind (read_array bs offset 8 field) (\<lambda>a. Ok (from_be_bytes a))"

definition read_uuid_bytes :: "bytes \<Rightarrow> nat \<Rightarrow> string \<Rightarrow> bytes result" where
  "read_uuid_bytes bs offset field = read_array bs offset 16 field"

definition decode_metadata :: "bytes \<Rightarrow> EventMeta result" where
  "decode_metadata bs =
     (if length bs \<noteq> ATTACHMENT_SIZE \<and> length bs \<noteq> EXTENDED_ATTACHMENT_SIZE
      then Err (InvalidAttachment
             (''expected '' @ show_nat ATTACHMENT_SIZE @ '' or ''
              @ show_nat EXTENDED_ATTACHMENT_SIZE @ '' bytes, got '' @ show_nat (length bs)))
      else rbind (read_u64 bs 0 ''seq'') (\<lambda>seq.
           rbind (read_uuid_bytes bs 8 ''pub_id'') (\<lambda>pub_id_bytes.
           rbind (read_uuid_bytes bs 24 ''event_id'') (\<lambda>event_id_bytes.
           rbind (read_u64 bs 40 ''timestamp'') (\<lambda>timestamp_ns.
           rbind (read_array bs 48 2 ''urgency_ms'') (\<lambda>urgency_bytes.
           rbind (if length bs = EXTENDED_ATTACHMENT_SIZE
                  then rbind (read_u64 bs 50 ''hlc_physical_ns'') (\<lambda>phys.
                       rbind (read_array bs 58 4 ''hlc_logical'') (\<lambda>log_bytes.
                       Ok (Some phys, Some (from_be_bytes log_bytes))))
                  else Ok (None, None)) (\<lambda>(hlc_physical_ns, hlc_logical).
           Ok \<lparr>em_seq = seq,
               em_pub_id = id_from_bytes pub_id_bytes,
               em_event_id = id_from_bytes event_id_bytes,
               em_timestamp = sint timestamp_ns,
               em_urgency_ms = from_be_bytes urgency_bytes,
               em_hlc_physical_ns = hlc_physical_ns,
               em_hlc_logical = hlc_logical\<rparr>)))))))"

section \<open>Key expressions\<close>

definition extract_partition :: "string \<Rightarrow> u32" where
  "extract_partition key =
     (case str_find ''/p/'' key of
        Some idx \<Rightarrow>
          (let rest = drop (idx + 3) key
           in case find_char (CHR ''/'') rest of
                Some e \<Rightarrow> (case parse_u32 (take e rest) of Some p \<Rightarrow> p | None \<Rightarrow> 0)
              | None \<Rightarrow> (case parse_u32 rest of Some p \<Rightarrow> p | None \<Rightarrow> 0))
      | None \<Rightarrow> 0)"

definition validate_key :: "string \<Rightarrow> unit result" where
  "validate_key key =
     (if key = [] then Err (InvalidKey ''key must not be empty'')
      else if CHR ''*'' \<in> set key \<or> CHR ''$'' \<in> set key
      then Err (InvalidKey ''key must not contain * or $'')
      else Ok ())"

definition extract_key :: "string \<Rightarrow> string option" where
  "extract_key key_expr =
     (case str_find ''/k/'' key_expr of
        None \<Rightarrow> None
      | Some k_pos \<Rightarrow>
          (let after_k = drop (k_pos + 3) key_expr
           in case rfind_char (CHR ''/'') after_k of
                None \<Rightarrow> None
              | Some last_slash \<Rightarrow>
                  if last_slash = 0 then None else Some (take last_slash after_k)))"

text \<open>
  A topic prefix may be used with the single-letter marker \<open>c\<close> when no segment of it is \<open>c\<close>.
\<close>

definition prefix_free :: "char \<Rightarrow> string \<Rightarrow> bool" where
  "prefix_free c prefix = (\<not> str_contains [CHR ''/'', c, CHR ''/''] (prefix @ ''/''))"

section \<open>Round trips\<close>

lemma id_from_to_bytes [codec_simps, simp]: "id_from_bytes (id_to_bytes i) = i"
  by (simp add: id_from_bytes_def id_to_bytes_def)

lemma length_id_to_bytes [codec_simps, simp]: "length (id_to_bytes i) = 16"
  by (simp add: id_to_bytes_def)

lemma id_to_from_bytes: "length bs = 16 \<Longrightarrow> id_to_bytes (id_from_bytes bs) = bs"
  by (simp add: id_from_bytes_def id_to_bytes_def to_from_be_bytes)

lemma nanos_or_range: "- (2 ^ 63) \<le> d \<Longrightarrow> d < 2 ^ 63 \<Longrightarrow> - (2 ^ 63) \<le> nanos_or d t \<and> nanos_or d t < 2 ^ 63"
  by (auto simp: nanos_or_def timestamp_nanos_opt_def)

lemma sint_nanos [simp]: "sint (word_of_int (nanos_or 0 t) :: u64) = nanos_or 0 t"
  using nanos_or_range[of 0 t] by (simp add: sint_sbintrunc' signed_take_bit_int_eq_self)

lemma read_array_append [codec_simps, simp]:
  "length pre = off \<Longrightarrow> length a = n \<Longrightarrow> read_array (pre @ a @ post) off n f = Ok a"
  by (simp add: read_array_def)

lemma read_array_Ok: "off + n \<le> length bs \<Longrightarrow> read_array bs off n f = Ok (take n (drop off bs))"
  by (simp add: read_array_def)

lemmas attachment_defs =
  encode_metadata_def encode_metadata_with_hlc_def decode_metadata_def read_u64_def
  read_uuid_bytes_def ATTACHMENT_SIZE_def EXTENDED_ATTACHMENT_SIZE_def

lemma length_encode_metadata [codec_simps, simp]: "length (encode_metadata p s e t u) = 50"
  by (simp add: attachment_defs)

lemma length_encode_metadata_with_hlc [codec_simps, simp]:
  "length (encode_metadata_with_hlc p s e t u ph lo) = 62"
  by (simp add: attachment_defs)

lemma decode_encode_metadata [simp]:
  "decode_metadata (encode_metadata p s e t u) =
     Ok \<lparr>em_seq = s, em_pub_id = p, em_event_id = e, em_timestamp = nanos_or 0 t,
         em_urgency_ms = u, em_hlc_physical_ns = None, em_hlc_logical = None\<rparr>"
  by (simp add: attachment_defs read_array_def)

lemma decode_encode_metadata_hlc [simp]:
  "decode_metadata (encode_metadata_with_hlc p s e t u ph lo) =
     Ok \<lparr>em_seq = s, em_pub_id = p, em_event_id = e, em_timestamp = nanos_or 0 t,
         em_urgency_ms = u, em_hlc_physical_ns = Some ph, em_hlc_logical = Some lo\<rparr>"
  by (simp add: attachment_defs read_array_def)

text \<open>
  Decoding an encoded attachment gives back every field: the 50-byte form without an HLC, the
  62-byte form with it.  The timestamp survives when it fits the signed 64-bit nanosecond range and
  is replaced by the epoch otherwise.
\<close>

theorem metadata_roundtrip:
  "decode_metadata (encode_metadata p s e t u) =
     Ok \<lparr>em_seq = s, em_pub_id = p, em_event_id = e, em_timestamp = nanos_or 0 t,
         em_urgency_ms = u, em_hlc_physical_ns = None, em_hlc_logical = None\<rparr>
   \<and> decode_metadata (encode_metadata_with_hlc p s e t u ph lo) =
     Ok \<lparr>em_seq = s, em_pub_id = p, em_event_id = e, em_timestamp = nanos_or 0 t,
         em_urgency_ms = u, em_hlc_physical_ns = Some ph, em_hlc_logical = Some lo\<rparr>"
  by (simp add: attachment_defs read_array_def)

lemma take_drop_parts:
  "length bs = 50 \<Longrightarrow>
   take 8 bs @ take 16 (drop 8 bs) @ take 16 (drop 24 bs) @ take 8 (drop 40 bs) @ drop 48 bs = bs"
  by (rule nth_equalityI) (auto simp: nth_append)

lemma take_drop_parts_hlc:
  "length bs = 62 \<Longrightarrow>
   take 8 bs @ take 16 (drop 8 bs) @ take 16 (drop 24 bs) @ take 8 (drop 40 bs) @ take 2 (drop 48 bs)
   @ take 8 (drop 50 bs) @ drop 58 bs = bs"
  by (rule nth_equalityI) (auto simp: nth_append)

lemma nanos_or_sint [simp]: "nanos_or 0 (sint (w :: u64)) = sint w"
  using sint_lt[of w] sint_ge[of w] by (simp add: nanos_or_def timestamp_nanos_opt_def)

text \<open>
  Decoding is total and loses nothing: a buffer is accepted exactly when it has 50 or 62 bytes,
  and re-encoding what was decoded (with the HLC in the 62-byte form) gives the same bytes back, so
  a store that decodes and re-encodes an attachment does not change it.
\<close>

theorem metadata_decode_exact:
  "(length bs \<notin> {50, 62} \<longrightarrow> (\<exists>msg. decode_metadata bs = Err (InvalidAttachment msg)))
   \<and> (length bs = 50 \<longrightarrow> (\<exists>m. decode_metadata bs = Ok m \<and> em_hlc_physical_ns m = None \<and>
        em_hlc_logical m = None \<and>
        encode_metadata (em_pub_id m) (em_seq m) (em_event_id m) (em_timestamp m) (em_urgency_ms m) = bs))
   \<and> (length bs = 62 \<longrightarrow> (\<exists>m ph lo. decode_metadata bs = Ok m \<and> em_hlc_physical_ns m = Some ph \<and>
        em_hlc_logical m = Some lo \<and>
        encode_metadata_with_hlc (em_pub_id m) (em_seq m) (em_event_id m) (em_timestamp m)
          (em_urgency_ms m) ph lo = bs))"
  by (simp add: attachment_defs read_array_Ok id_to_from_bytes to_from_be_bytes
      take_drop_parts take_drop_parts_hlc)

theorem metadata_decode_exact_witness:
  "(\<exists>msg. decode_metadata (replicate 49 7) = Err (InvalidAttachment msg))
   \<and> (\<exists>m. decode_metadata (replicate 50 7) = Ok m \<and>
        encode_metadata (em_pub_id m) (em_seq m) (em_event_id m) (em_timestamp m) (em_urgency_ms m)
        = replicate 50 7)
   \<and> (\<exists>m ph lo. decode_metadata (replicate 62 7) = Ok m \<and> em_hlc_physical_ns m = Some ph \<and>
        encode_metadata_with_hlc (em_pub_id m) (em_seq m) (em_event_id m) (em_timestamp m)
          (em_urgency_ms m) ph lo = replicate 62 7)"
  using metadata_decode_exact[of "replicate 49 7"] metadata_decode_exact[of "replicate 50 7"]
    metadata_decode_exact[of "replicate 62 7"]
  by simp blast

section \<open>Reading key expressions\<close>

lemma not_contains_slash_join:
  assumes "c \<noteq> CHR ''/''"
    and "\<not> str_contains [CHR ''/'', c, CHR ''/''] (a @ [CHR ''/''])"
    and "\<not> str_contains [CHR ''/'', c, CHR ''/''] (CHR ''/'' # b)"
  shows "\<not> str_contains [CHR ''/'', c, CHR ''/''] (a @ CHR ''/'' # b)"
  using assms(2)
proof (induction a)
  case Nil
  then show ?case using assms(3) by simp
next
  case (Cons x a)
  have "\<not> starts_with [CHR ''/'', c, CHR ''/''] (x # a @ CHR ''/'' # b)"
    using Cons.prems assms(1)
    by (cases a; cases "tl a") (auto simp: str_contains_def split: if_splits)
  moreover have "\<not> str_contains [CHR ''/'', c, CHR ''/''] (a @ CHR ''/'' # b)"
    using Cons by (auto simp: str_contains_def split: if_splits)
  ultimately show ?case by (auto simp: str_contains_def)
qed

lemma not_contains_no_slash:
  "CHR ''/'' \<notin> set s \<Longrightarrow> \<not> str_contains (CHR ''/'' # pat) s"
  by (induction s) (auto simp: str_contains_def)

lemma str_find_marker:
  assumes "c \<noteq> CHR ''/''" and "prefix_free c prefix"
  shows "str_find [CHR ''/'', c, CHR ''/''] (prefix @ [CHR ''/'', c, CHR ''/''] @ rest) = Some (length prefix)"
proof -
  have "\<not> str_contains [CHR ''/'', c, CHR ''/''] (prefix @ [CHR ''/'', c])"
    using not_contains_slash_join[OF assms(1), of prefix "[c]"] assms
    by (simp add: prefix_free_def str_contains_def)
  then show ?thesis
    using str_find_append[of "[CHR ''/'', c, CHR ''/'']" prefix rest] by simp
qed

lemma prefix_free_partition:
  assumes "c \<noteq> CHR ''/''" "c \<noteq> CHR ''p''" "prefix_free c prefix"
    and "CHR ''/'' \<notin> set s" "s \<noteq> [c]"
  shows "prefix_free c (prefix @ ''/p/'' @ s)"
proof -
  have "\<not> str_contains [CHR ''/'', c, CHR ''/''] (''/'' @ s @ ''/'')"
  proof -
    have "\<not> starts_with [CHR ''/'', c, CHR ''/''] (CHR ''/'' # s @ ''/'')"
      using assms(1,4,5) by (cases s; cases "tl s") auto
    moreover have "\<not> str_contains [CHR ''/'', c, CHR ''/''] (s @ ''/'')"
      using assms(4) by (induction s) (auto simp: str_contains_def)
    ultimately show ?thesis by (auto simp: str_contains_def)
  qed
  then have "\<not> str_contains [CHR ''/'', c, CHR ''/''] (''/p'' @ CHR ''/'' # s @ ''/'')"
    using assms(2) by (auto simp: str_contains_def)
  then show ?thesis
    using not_contains_slash_join[OF assms(1), of prefix "''p/'' @ s @ ''/''"] assms(3)
    by (simp add: prefix_free_def)
qed

lemma extract_partition_layout:
  assumes "prefix_free (CHR ''p'') prefix"
  shows "extract_partition (prefix @ ''/p/'' @ show_word p @ CHR ''/'' # tail) = p"
  using str_find_marker[OF _ assms, of "show_word p @ CHR ''/'' # tail"]
  by (simp add: extract_partition_def)

lemma show_word_not_letter: "show_word w \<noteq> [CHR ''k'']"
proof
  assume "show_word w = [CHR ''k'']"
  then have "CHR ''k'' \<in> set (show_nat (unat w))" by (simp add: show_word_def)
  moreover have "CHR ''k'' \<notin> set (show_nat (unat w))" by (rule show_nat_notin) simp
  ultimately show False by simp
qed

lemma extract_key_at:
  assumes "str_find ''/k/'' (pre @ ''/k/'' @ key @ CHR ''/'' # s) = Some (length pre)"
    and "key \<noteq> []" and "CHR ''/'' \<notin> set s"
  shows "extract_key (pre @ ''/k/'' @ key @ CHR ''/'' # s) = Some key"
  using assms by (simp add: extract_key_def)

lemma extract_key_keyed:
  assumes "prefix_free (CHR ''k'') prefix" and "key \<noteq> []"
  shows "extract_key (prefix @ ''/p/'' @ show_word p @ ''/k/'' @ key @ CHR ''/'' # show_word s) = Some key"
proof -
  have "prefix_free (CHR ''k'') (prefix @ ''/p/'' @ show_word p)"
    using assms(1) prefix_free_partition[of "CHR ''k''" prefix "show_word p"] show_word_not_letter[of p]
    by simp
  from str_find_marker[OF _ this, of "key @ CHR ''/'' # show_word s"] assms(2)
    extract_key_at[of "prefix @ ''/p/'' @ show_word p" key "show_word s"]
  show ?thesis by simp
qed

lemma str_find_none: "(str_find p s = None) = (\<not> str_contains p s)"
  by (simp add: str_contains_def)

lemma extract_key_unkeyed:
  assumes "prefix_free (CHR ''k'') prefix"
  shows "extract_key (prefix @ ''/p/'' @ show_word p @ CHR ''/'' # show_word s) = None"
proof -
  have "prefix_free (CHR ''k'') (prefix @ ''/p/'' @ show_word p)"
    using assms(1) prefix_free_partition[of "CHR ''k''" prefix "show_word p"] show_word_not_letter[of p]
    by simp
  moreover have "\<not> str_contains ''/k/'' (CHR ''/'' # show_word s)"
  proof -
    have "CHR ''/'' \<notin> set (tl (show_word s))"
      using slash_notin_show[of s] by (metis list.set_sel(2) show_word_nonempty)
    then have "\<not> starts_with ''/k/'' (CHR ''/'' # show_word s)"
      by (cases "show_word s"; cases "tl (show_word s)") auto
    then show ?thesis
      using not_contains_no_slash[OF slash_notin_show[of s], of "''k/''"] by (auto simp: str_contains_def)
  qed
  ultimately have "\<not> str_contains ''/k/'' ((prefix @ ''/p/'' @ show_word p) @ CHR ''/'' # show_word s)"
    using not_contains_slash_join[of "CHR ''k''" "prefix @ ''/p/'' @ show_word p" "show_word s"]
    by (simp add: prefix_free_def)
  then show ?thesis by (simp add: extract_key_def str_find_none[symmetric])
qed

end
