(* ===== verification/Gap_Detector.thy ===== *)
theory Gap_Detector
  imports Prelude
begin

text \<open>
  \<^verbatim>\<open>mitiflow/src/subscriber/gap_detector.rs\<close>: per-(publisher, partition) sequence tracking.  The
  trait \<^verbatim>\<open>SequenceTracker\<close> is the locale \<open>seq_tracker\<close>; its client lemmas on whole runs of
  samples are proved once there and the in-memory \<^verbatim>\<open>GapDetector\<close> interprets it.
\<close>

section \<open>Data and operations\<close>

type_synonym stream = "PublisherId \<times> u32"

text \<open>The half-open \<^verbatim>\<open>Range<u64>\<close> is the pair of its bounds.\<close>

record MissInfo =
  mi_source :: PublisherId
  mi_partition :: u32
  mi_missed :: "u64 \<times> u64"

datatype SampleResult = Deliver | Duplicate | Gap MissInfo

record GapDetector =
  gd_last_seen :: "(stream, u64) hmap"
  gd_last_activity :: "(stream, Instant) hmap"

definition gd_new :: GapDetector where
  "gd_new = \<lparr>gd_last_seen = [], gd_last_activity = []\<rparr>"

definition with_checkpoints :: "(stream, u64) hmap \<Rightarrow> GapDetector" where
  "with_checkpoints checkpoints = \<lparr>gd_last_seen = checkpoints, gd_last_activity = []\<rparr>"

definition evict_older_than :: "Instant \<Rightarrow> Duration \<Rightarrow> GapDetector \<Rightarrow> GapDetector \<times> nat" where
  "evict_older_than now age gd =
     (let stale = map fst (filter (\<lambda>(_, t). now - t > age) (gd_last_activity gd));
          count = length stale
      in (gd\<lparr>gd_last_seen := fold hm_remove stale (gd_last_seen gd),
             gd_last_activity := fold hm_remove stale (gd_last_activity gd)\<rparr>, count))"

text \<open>The next sequence number: one past the last seen (\<^verbatim>\<open>u64\<close> addition), zero at first.\<close>

definition expected_seq :: "u64 option \<Rightarrow> u64" where
  "expected_seq l = (case l of Some x \<Rightarrow> x + 1 | None \<Rightarrow> 0)"

definition on_sample ::
    "GapDetector \<Rightarrow> Instant \<Rightarrow> PublisherId \<Rightarrow> u32 \<Rightarrow> u64 \<Rightarrow> GapDetector \<times> SampleResult" where
  "on_sample gd now pub_id part seq =
     (let key = (pub_id, part);
          expected = expected_seq (hm_get (gd_last_seen gd) key);
          gd = gd\<lparr>gd_last_activity := hm_insert key now (gd_last_activity gd)\<rparr>
      in if seq = expected
         then (gd\<lparr>gd_last_seen := hm_insert key seq (gd_last_seen gd)\<rparr>, Deliver)
         else if seq > expected
         then (gd\<lparr>gd_last_seen := hm_insert key seq (gd_last_seen gd)\<rparr>,
               Gap \<lparr>mi_source = pub_id, mi_partition = part, mi_missed = (expected, seq)\<rparr>)
         else (gd, Duplicate))"

fun on_heartbeat ::
    "GapDetector \<Rightarrow> Instant \<Rightarrow> PublisherId \<Rightarrow> (u32, u64) hmap \<Rightarrow> GapDetector \<times> MissInfo list" where
  "on_heartbeat gd now pub_id [] = (gd, [])"
| "on_heartbeat gd now pub_id ((part, current_seq) # rest) =
     (let key = (pub_id, part);
          expected = expected_seq (hm_get (gd_last_seen gd) key);
          gd = gd\<lparr>gd_last_activity := hm_insert key now (gd_last_activity gd)\<rparr>;
          next = current_seq + 1;
          miss = (if current_seq \<ge> expected \<and> expected < next
                  then [\<lparr>mi_source = pub_id, mi_partition = part, mi_missed = (expected, next)\<rparr>]
                  else []);
          (gd, misses) = on_heartbeat gd now pub_id rest
      in (gd, miss @ misses))"

definition last_seen :: "GapDetector \<Rightarrow> PublisherId \<Rightarrow> u32 \<Rightarrow> u64 option" where
  "last_seen gd pub_id part = hm_get (gd_last_seen gd) (pub_id, part)"

definition snapshot_cursors :: "GapDetector \<Rightarrow> (stream, u64) hmap" where
  "snapshot_cursors gd = gd_last_seen gd"

section \<open>Runs of samples\<close>

text \<open>
  A run presents samples (arrival time, publisher, partition, sequence) one after another and logs
  each verdict.  \<open>accepted\<close> lists the sequences of one stream that were not duplicates in the order
  they arrived, \<open>missed\<close> the sequences of all gap reports of the stream.
\<close>

type_synonym verdict = "stream \<times> u64 \<times> SampleResult"

fun track :: "('t \<Rightarrow> Instant \<Rightarrow> PublisherId \<Rightarrow> u32 \<Rightarrow> u64 \<Rightarrow> 't \<times> SampleResult)
    \<Rightarrow> 't \<Rightarrow> (Instant \<times> PublisherId \<times> u32 \<times> u64) list \<Rightarrow> 't \<times> verdict list" where
  "track os t [] = (t, [])"
| "track os t ((now, p, q, s) # xs) =
     (let (t', r) = os t now p q s; (t'', out) = track os t' xs in (t'', ((p, q), s, r) # out))"

definition accepted :: "stream \<Rightarrow> verdict list \<Rightarrow> u64 list" where
  "accepted k out = map (fst \<circ> snd) (filter (\<lambda>(k', s, r). k' = k \<and> r \<noteq> Duplicate) out)"

definition missed :: "stream \<Rightarrow> verdict list \<Rightarrow> u64 list" where
  "missed k out = concat (map (\<lambda>(k', s, r). case r of
       Gap mi \<Rightarrow> if k' = k then word_range (fst (mi_missed mi)) (snd (mi_missed mi)) else []
     | _ \<Rightarrow> []) out)"

section \<open>The tracker interface\<close>

locale seq_tracker =
  fixes sample :: "'t \<Rightarrow> Instant \<Rightarrow> PublisherId \<Rightarrow> u32 \<Rightarrow> u64 \<Rightarrow> 't \<times> SampleResult"
    and cursor :: "'t \<Rightarrow> stream \<Rightarrow> u64 option"
  assumes sample_cursor:
    "cursor (fst (sample t now p q s)) =
       (if expected_seq (cursor t (p, q)) \<le> s then (cursor t)((p, q) \<mapsto> s) else cursor t)"
    and sample_verdict:
    "snd (sample t now p q s) =
       (if s = expected_seq (cursor t (p, q)) then Deliver
        else if expected_seq (cursor t (p, q)) < s
        then Gap \<lparr>mi_source = p, mi_partition = q, mi_missed = (expected_seq (cursor t (p, q)), s)\<rparr>
        else Duplicate)"
begin

text \<open>Sequence numbers of the stream not yet passed.\<close>

lemma expected_upto:
  "l \<noteq> Some u64_MAX \<Longrightarrow> {..<expected_seq l} = (case l of None \<Rightarrow> {} | Some x \<Rightarrow> {..x})"
  by (auto simp: expected_seq_def word_less_succ_iff split: option.splits)

lemma expected_step:
  assumes "s \<noteq> u64_MAX" and "expected_seq (cursor t (p, q)) \<le> s"
  shows "expected_seq (cursor t (p, q)) < s + 1"
  using assms by (simp add: word_less_succ_iff)

lemma track_mono:
  assumes "\<forall>(now, p, q, s) \<in> set xs. s \<noteq> u64_MAX"
  shows "expected_seq (cursor t k) \<le> expected_seq (cursor (fst (track sample t xs)) k)"
  using assms
proof (induction xs arbitrary: t)
  case Nil
  then show ?case by simp
next
  case (Cons x xs)
  obtain now p q s where x: "x = (now, p, q, s)" by (cases x)
  have "expected_seq (cursor t k) \<le> expected_seq (cursor (fst (sample t now p q s)) k)"
    using expected_step[of s t p q] Cons.prems x
    by (auto simp: sample_cursor expected_seq_def[of "Some s"])
  also have "\<dots> \<le> expected_seq (cursor (fst (track sample t (x # xs))) k)"
    using Cons.IH[of "fst (sample t now p q s)"] Cons.prems x by (auto simp: split_beta)
  finally show ?case .
qed

text \<open>
  Accounting: the accepted and the missed sequences of a run split the interval the cursor moved
  over, each accepted sequence is above every earlier one, and no sequence is reported missed twice.
\<close>

lemma track_accounting:
  assumes "\<forall>(now, p, q, s) \<in> set xs. s \<noteq> u64_MAX"
    and "track sample t xs = (t', out)"
  shows "set (accepted k out) \<union> set (missed k out) = {expected_seq (cursor t k)..<expected_seq (cursor t' k)}
    \<and> set (accepted k out) \<inter> set (missed k out) = {}
    \<and> sorted_wrt (<) (accepted k out) \<and> sorted_wrt (<) (missed k out)"
  using assms
proof (induction xs arbitrary: t out)
  case Nil
  then show ?case by (simp add: accepted_def missed_def)
next
  case (Cons x xs)
  obtain now p q s where x: "x = (now, p, q, s)" by (cases x)
  obtain t1 r where st: "sample t now p q s = (t1, r)" by (cases "sample t now p q s")
  obtain out1 where tr: "track sample t1 xs = (t', out1)" and out: "out = ((p, q), s, r) # out1"
    using Cons.prems(2) x st by (auto simp: split_beta prod_eq_iff)
  have c1: "cursor t1 = (if expected_seq (cursor t (p, q)) \<le> s then (cursor t)((p, q) \<mapsto> s) else cursor t)"
    and r: "r = snd (sample t now p q s)"
    using sample_cursor[of t now p q s] st by simp_all
  have smax: "s \<noteq> u64_MAX" and rest: "\<forall>(now, p, q, s) \<in> set xs. s \<noteq> u64_MAX"
    using Cons.prems(1) x by auto
  note IH = Cons.IH[OF rest tr]
  show ?case
  proof (cases "k = (p, q) \<and> expected_seq (cursor t (p, q)) \<le> s")
    case False
    then have "cursor t1 k = cursor t k" using c1 by auto
    moreover have "k = (p, q) \<Longrightarrow> r = Duplicate" using False r by (auto simp: sample_verdict)
    ultimately show ?thesis
      using IH out by (cases "k = (p, q)") (auto simp: accepted_def missed_def split: SampleResult.splits)
  next
    case True
    let ?e = "expected_seq (cursor t k)"
    have e1: "expected_seq (cursor t1 k) = s + 1" using True c1 by (simp add: expected_seq_def)
    have le: "s + 1 \<le> expected_seq (cursor t' k)" using track_mono[OF rest, of t1 k] tr e1 by simp
    have acc: "accepted k out = s # accepted k out1"
      using True out r by (auto simp: accepted_def sample_verdict)
    have mis: "missed k out = word_range ?e s @ missed k out1"
      using True out r by (auto simp: missed_def sample_verdict word_range_def)
    have IH1: "set (accepted k out1) \<union> set (missed k out1) = {s + 1..<expected_seq (cursor t' k)}"
      using IH e1 by simp
    then have above: "s < v" if "v \<in> set (accepted k out1) \<union> set (missed k out1)" for v
      using that smax by (auto simp: word_succ_le_iff)
    have "{?e..<s} \<union> insert s {s + 1..<expected_seq (cursor t' k)} = {?e..<expected_seq (cursor t' k)}"
      using True le smax by (intro word_interval_split) simp_all
    then have "set (accepted k out) \<union> set (missed k out) = {?e..<expected_seq (cursor t' k)}"
      using IH1 acc mis by auto
    moreover have "set (accepted k out) \<inter> set (missed k out) = {}"
    proof -
      have "s \<notin> set (missed k out1)" "\<And>v. v \<in> set (accepted k out1) \<Longrightarrow> \<not> v < s"
        using above by (blast dest: less_asym)+
      then show ?thesis using IH acc mis by auto
    qed
    moreover have "sorted_wrt (<) (accepted k out)"
    proof -
      have "\<forall>v \<in> set (accepted k out1). s < v" using above by blast
      moreover have "sorted_wrt (<) (accepted k out1)" using IH by blast
      ultimately show ?thesis using acc by simp
    qed
    moreover have "sorted_wrt (<) (missed k out)"
    proof -
      have "\<forall>v \<in> set (missed k out1). s < v" using above by blast
      moreover have "sorted_wrt (<) (missed k out1)" using IH by blast
      ultimately show ?thesis
        using mis by (auto simp: sorted_wrt_append sorted_word_range intro: less_trans)
    qed
    ultimately show ?thesis by blast
  qed
qed

end

interpretation gd: seq_tracker on_sample "\<lambda>t. hm_get (gd_last_seen t)"
  by unfold_locales (auto simp: on_sample_def Let_def)

lemma gd_wf_preserved:
  "hm_wf (gd_last_seen gd) \<and> hm_wf (gd_last_activity gd) \<Longrightarrow>
   hm_wf (gd_last_seen (fst (on_sample gd now p q s))) \<and> hm_wf (gd_last_activity (fst (on_sample gd now p q s)))"
  by (simp add: on_sample_def Let_def)

text \<open>
  C3. Gap accounting over any run of samples presented to a fresh or checkpoint-seeded detector: for
  every (publisher, partition) stream, the delivered sequences and the reported missing ones split
  exactly the interval between the first expected sequence and the final cursor.  Nothing is skipped
  silently, no sequence is both delivered and reported missing, deliveries are strictly increasing
  (so never repeated), and no sequence is reported missing twice.
\<close>

theorem gap_detector_accounting:
  assumes "\<forall>(now, p, q, s) \<in> set xs. s \<noteq> u64_MAX"
    and "track on_sample (with_checkpoints cps) xs = (gd', out)"
  shows "set (accepted (p, q) out) \<union> set (missed (p, q) out)
       = {expected_seq (hm_get cps (p, q))..<expected_seq (last_seen gd' p q)}
    \<and> set (accepted (p, q) out) \<inter> set (missed (p, q) out) = {}
    \<and> sorted_wrt (<) (accepted (p, q) out) \<and> sorted_wrt (<) (missed (p, q) out)"
  using gd.track_accounting[OF assms, of "(p, q)"] by (simp add: with_checkpoints_def last_seen_def)

theorem gap_detector_accounting_witness:
  "set (accepted (1, 0) (snd (track on_sample (with_checkpoints [((1, 0), 4)])
        [(0, 1, 0, 3), (1, 1, 0, 5), (2, 1, 0, 8), (3, 1, 0, 7)])))
   \<union> set (missed (1, 0) (snd (track on_sample (with_checkpoints [((1, 0), 4)])
        [(0, 1, 0, 3), (1, 1, 0, 5), (2, 1, 0, 8), (3, 1, 0, 7)]))) = {5..<9}"
  using gap_detector_accounting[of "[(0, 1, 0, 3), (1, 1, 0, 5), (2, 1, 0, 8), (3, 1, 0, 7)]"
      "[((1, 0), 4)]" _ _ 1 0, OF _ prod.collapse[symmetric]]
  by (simp add: on_sample_def with_checkpoints_def expected_seq_def last_seen_def Let_def)

lemma on_heartbeat_state:
  "gd_last_seen (fst (on_heartbeat gd now p qs)) = gd_last_seen gd"
  by (induction qs arbitrary: gd) (auto simp: Let_def split_beta)

lemma last_seen_activity [simp]: "last_seen (gd\<lparr>gd_last_activity := a\<rparr>) = last_seen gd"
  by (simp add: last_seen_def fun_eq_iff)

lemma on_heartbeat_misses:
  "snd (on_heartbeat gd now p qs) = concat (map (\<lambda>(q, c).
     if expected_seq (last_seen gd p q) \<le> c \<and> c \<noteq> u64_MAX
     then [\<lparr>mi_source = p, mi_partition = q, mi_missed = (expected_seq (last_seen gd p q), c + 1)\<rparr>]
     else []) qs)"
proof (induction qs arbitrary: gd)
  case Nil
  then show ?case by simp
next
  case (Cons x qs)
  obtain q c where x: "x = (q, c)" by (cases x)
  have "(e \<le> c \<and> e < c + 1) = (e \<le> c \<and> c \<noteq> u64_MAX)" for e :: u64
    by (cases "c = u64_MAX") (auto simp: word_less_succ_iff)
  then show ?case
    using Cons x by (simp add: Let_def split_beta last_seen_def[symmetric] cong: if_cong)
qed

text \<open>
  A heartbeat reports, for every partition it advertises, exactly the tail of the stream that has
  not been seen: the sequences from the expected one up to and including the advertised one, and
  nothing when the cursor is not behind.  It moves no cursor, so it reports the same tail again until
  a sample passes it.
\<close>

theorem heartbeat_reports_tail:
  assumes "hm_wf qs" and "\<forall>(q, c) \<in> set qs. c \<noteq> u64_MAX" and "on_heartbeat gd now p qs = (gd', misses)"
  shows "((\<exists>mi \<in> set misses. mi_source mi = p' \<and> mi_partition mi = q
            \<and> fst (mi_missed mi) \<le> s \<and> s < snd (mi_missed mi))
       = (p' = p \<and> (\<exists>c. hm_get qs q = Some c \<and> expected_seq (last_seen gd p q) \<le> s \<and> s \<le> c)))
     \<and> last_seen gd' = last_seen gd \<and> snd (on_heartbeat gd' now' p qs) = misses"
proof -
  have ls: "last_seen gd' = last_seen gd"
    using on_heartbeat_state[of gd now p qs] assms(3) by (simp add: last_seen_def fun_eq_iff)
  have m: "misses = snd (on_heartbeat gd now p qs)" using assms(3) by simp
  have mem: "mi \<in> set misses \<longleftrightarrow> (\<exists>q c. hm_get qs q = Some c \<and> expected_seq (last_seen gd p q) \<le> c \<and>
      mi = \<lparr>mi_source = p, mi_partition = q, mi_missed = (expected_seq (last_seen gd p q), c + 1)\<rparr>)" for mi
    using assms(1,2) unfolding m on_heartbeat_misses by (fastforce dest: map_of_SomeD split: if_splits)
  have "c \<noteq> u64_MAX" if "hm_get qs q = Some c" for c
    using assms(2) that by (fastforce dest: map_of_SomeD)
  then have "expected_seq (last_seen gd p q) \<le> c \<and> expected_seq (last_seen gd p q) \<le> s \<and> s < c + 1
      \<longleftrightarrow> expected_seq (last_seen gd p q) \<le> s \<and> s \<le> c" if "hm_get qs q = Some c" for c
    using that by (auto simp: word_less_succ_iff)
  moreover have "(\<exists>mi \<in> set misses. mi_source mi = p' \<and> mi_partition mi = q
            \<and> fst (mi_missed mi) \<le> s \<and> s < snd (mi_missed mi))
       = (p' = p \<and> (\<exists>c. hm_get qs q = Some c \<and> expected_seq (last_seen gd p q) \<le> c \<and>
            expected_seq (last_seen gd p q) \<le> s \<and> s < c + 1))"
    unfolding Bex_def mem by force
  ultimately have "(\<exists>mi \<in> set misses. mi_source mi = p' \<and> mi_partition mi = q
            \<and> fst (mi_missed mi) \<le> s \<and> s < snd (mi_missed mi))
       = (p' = p \<and> (\<exists>c. hm_get qs q = Some c \<and> expected_seq (last_seen gd p q) \<le> s \<and> s \<le> c))"
    by meson
  moreover have "snd (on_heartbeat gd' now' p qs) = misses"
    unfolding m on_heartbeat_misses ls ..
  ultimately show ?thesis using ls by blast
qed

theorem heartbeat_reports_tail_witness:
  "(\<exists>mi \<in> set (snd (on_heartbeat gd_new 0 7 [(0, 3), (2, 9)])). mi_source mi = 7 \<and> mi_partition mi = 2
      \<and> fst (mi_missed mi) \<le> 9 \<and> 9 < snd (mi_missed mi))"
  using heartbeat_reports_tail[of "[(0, 3), (2, 9)]" gd_new 0 7 _ _ 7 2 9, OF _ _ prod.collapse[symmetric]]
  by (simp add: gd_new_def last_seen_def expected_seq_def)

end
