(* ===== verification/Event_Dedup.thy ===== *)
theory Event_Dedup
  imports Prelude
begin

text \<open>
  \<^verbatim>\<open>mitiflow/src/subscriber/event_id_dedup.rs\<close>: the bounded deduplication set of key-filtered
  subscribers, and its meaning over a whole run as a sliding window of accepted event ids.
\<close>

section \<open>Data and operations\<close>

record EventIdDedup =
  ed_order :: "EventId list"
  ed_seen :: "EventId set"
  ed_capacity :: nat

text \<open>A zero capacity panics (\<^const>\<open>None\<close>).\<close>

definition dedup_new :: "nat \<Rightarrow> EventIdDedup option" where
  "dedup_new capacity =
     (if capacity > 0 then Some \<lparr>ed_order = [], ed_seen = {}, ed_capacity = capacity\<rparr> else None)"

definition is_new :: "EventIdDedup \<Rightarrow> EventId \<Rightarrow> EventIdDedup \<times> bool" where
  "is_new d i =
     (if i \<in> ed_seen d then (d, False)
      else let d = (if length (ed_order d) \<ge> ed_capacity d
                    then (case ed_order d of
                            [] \<Rightarrow> d
                          | oldest # rest \<Rightarrow>
                              d\<lparr>ed_order := rest, ed_seen := ed_seen d - {oldest}\<rparr>)
                    else d)
           in (d\<lparr>ed_order := ed_order d @ [i], ed_seen := insert i (ed_seen d)\<rparr>, True))"

definition dedup_len :: "EventIdDedup \<Rightarrow> nat" where
  "dedup_len d = card (ed_seen d)"

definition dedup_is_empty :: "EventIdDedup \<Rightarrow> bool" where
  "dedup_is_empty d = (ed_seen d = {})"

text \<open>A run offers ids one after another; the accepted ones are logged in order.\<close>

fun offer_all :: "EventIdDedup \<Rightarrow> EventId list \<Rightarrow> EventIdDedup \<times> EventId list" where
  "offer_all d [] = (d, [])"
| "offer_all d (i # is) =
     (let (d', new) = is_new d i; (d'', log) = offer_all d' is in (d'', if new then i # log else log))"

section \<open>The window\<close>

definition last_n :: "nat \<Rightarrow> 'a list \<Rightarrow> 'a list" where
  "last_n n xs = drop (length xs - n) xs"

definition dedup_inv :: "EventIdDedup \<Rightarrow> EventId list \<Rightarrow> bool" where
  "dedup_inv d log \<longleftrightarrow> 0 < ed_capacity d \<and> distinct (ed_order d) \<and> ed_seen d = set (ed_order d)
     \<and> ed_order d = last_n (ed_capacity d) log"

lemma last_n_snoc:
  "0 < n \<Longrightarrow> last_n n (xs @ [x]) = (if n \<le> length xs then tl (last_n n xs) else last_n n xs) @ [x]"
  by (auto simp: last_n_def tl_drop drop_Suc[symmetric] Suc_diff_le)

lemma length_last_n: "length (last_n n xs) = min n (length xs)"
  by (simp add: last_n_def)

lemma is_new_capacity [simp]: "ed_capacity (fst (is_new d i)) = ed_capacity d"
  by (simp add: is_new_def Let_def split: list.splits)

lemma is_new_iff: "dedup_inv d log \<Longrightarrow> snd (is_new d i) = (i \<notin> set (last_n (ed_capacity d) log))"
  by (simp add: is_new_def dedup_inv_def Let_def)

lemma is_new_inv:
  assumes "dedup_inv d log"
  shows "dedup_inv (fst (is_new d i)) (if snd (is_new d i) then log @ [i] else log)"
proof (cases "i \<in> ed_seen d")
  case True
  with assms show ?thesis by (simp add: is_new_def)
next
  case False
  have len: "length (ed_order d) \<ge> ed_capacity d \<longleftrightarrow> ed_capacity d \<le> length log"
    using assms by (auto simp: dedup_inv_def length_last_n)
  have inv: "0 < ed_capacity d" "distinct (ed_order d)" "ed_seen d = set (ed_order d)"
    and win: "last_n (ed_capacity d) log = ed_order d"
    using assms unfolding dedup_inv_def by metis+
  show ?thesis
  proof (cases "length (ed_order d) \<ge> ed_capacity d")
    case True
    with inv obtain oldest rest where o: "ed_order d = oldest # rest" by (cases "ed_order d") auto
    with inv False True len win show ?thesis
      by (simp add: is_new_def dedup_inv_def Let_def last_n_snoc)
  next
    case not_full: False
    with inv False len win show ?thesis
      by (simp add: is_new_def dedup_inv_def Let_def last_n_snoc)
  qed
qed

lemma offer_all_capacity: "ed_capacity (fst (offer_all d is)) = ed_capacity d"
  by (induction "is" arbitrary: d) (simp_all add: Let_def split_beta)

lemma offer_all_inv:
  "dedup_inv d log \<Longrightarrow> dedup_inv (fst (offer_all d is)) (log @ snd (offer_all d is))"
proof (induction "is" arbitrary: d log)
  case Nil
  then show ?case by simp
next
  case (Cons i "is")
  from is_new_inv[OF Cons.prems, of i] Cons.IH[OF is_new_inv[OF Cons.prems, of i]]
  show ?case by (simp add: Let_def split_beta split: if_splits)
qed

text \<open>Repetitions in a log whose entries each avoid the window before them.\<close>

definition spaced :: "nat \<Rightarrow> 'a list \<Rightarrow> bool" where
  "spaced n xs \<longleftrightarrow> (\<forall>j < length xs. xs ! j \<notin> set (last_n n (take j xs)))"

lemma spaced_snoc: "spaced n (xs @ [x]) = (spaced n xs \<and> x \<notin> set (last_n n xs))"
  by (auto simp: spaced_def nth_append less_Suc_eq)

lemma spacedD:
  assumes "spaced n xs" "i < j" "j < length xs" "xs ! i = xs ! j"
  shows "n < j - i"
proof (rule ccontr)
  assume "\<not> n < j - i"
  then have "i \<ge> j - n" by linarith
  with assms have "xs ! i \<in> set (last_n n (take j xs))"
    by (auto simp: last_n_def in_set_conv_nth intro!: exI[of _ "i - (j - n)"])
  with assms show False by (auto simp: spaced_def)
qed

lemma offer_all_spaced:
  "dedup_inv d log \<Longrightarrow> spaced (ed_capacity d) log \<Longrightarrow> spaced (ed_capacity d) (log @ snd (offer_all d is))"
proof (induction "is" arbitrary: d log)
  case Nil
  then show ?case by simp
next
  case (Cons i "is")
  have "spaced (ed_capacity d) (if snd (is_new d i) then log @ [i] else log)"
    using Cons.prems is_new_iff[OF Cons.prems(1), of i] by (simp add: spaced_snoc)
  with Cons.IH[OF is_new_inv[OF Cons.prems(1), of i]] show ?case
    by (simp add: Let_def split_beta split: if_splits)
qed

text \<open>
  Deduplication by event id is a sliding window: after any run from an empty set of capacity
  \<open>c\<close>, the remembered ids are exactly the last \<open>c\<close> accepted ones (so memory is bounded by \<open>c\<close>), a
  further id is accepted exactly when it is not among them, and two acceptances of the same id have
  at least \<open>c\<close> other acceptances between them.
\<close>

theorem dedup_window:
  assumes "dedup_new c = Some d" and "offer_all d is = (d', log)"
  shows "ed_order d' = last_n c log \<and> ed_seen d' = set (last_n c log) \<and> dedup_len d' = min c (length log)
    \<and> snd (is_new d' i) = (i \<notin> set (last_n c log))
    \<and> (\<forall>j k. j < k \<and> k < length log \<and> log ! j = log ! k \<longrightarrow> c < k - j)"
proof -
  have d: "0 < c" "d = \<lparr>ed_order = [], ed_seen = {}, ed_capacity = c\<rparr>"
    using assms(1) by (auto simp: dedup_new_def split: if_splits)
  then have inv0: "dedup_inv d []" by (simp add: dedup_inv_def last_n_def)
  have cap: "ed_capacity d' = c" using offer_all_capacity[of d "is"] assms(2) d by simp
  have inv: "dedup_inv d' log" using offer_all_inv[OF inv0, of "is"] assms(2) by simp
  then have "dedup_len d' = min c (length log)"
    using cap by (metis dedup_inv_def dedup_len_def distinct_card length_last_n)
  moreover have "spaced c log"
    using offer_all_spaced[OF inv0, of "is"] assms(2) d by (simp add: spaced_def)
  ultimately show ?thesis
    using inv cap is_new_iff[OF inv, of i] spacedD[of c log] by (auto simp: dedup_inv_def)
qed

theorem dedup_window_witness:
  "ed_order (fst (offer_all \<lparr>ed_order = [], ed_seen = {}, ed_capacity = 2\<rparr> [7, 8, 7, 9, 7])) = [9, 7]"
  using dedup_window[of 2 "\<lparr>ed_order = [], ed_seen = {}, ed_capacity = 2\<rparr>" "[7, 8, 7, 9, 7]",
      OF _ prod.collapse[symmetric]]
  by (simp add: dedup_new_def is_new_def last_n_def)

end
