(* ===== verification/Watermark.thy ===== *)
theory Watermark
  imports Prelude
begin

text \<open>
  \<^verbatim>\<open>mitiflow/src/store/watermark.rs\<close> and the per-publisher sequence state of
  \<^verbatim>\<open>mitiflow/src/store/backend.rs\<close> (\<^verbatim>\<open>PublisherSeqState\<close>): how the store turns the set of stored
  sequence numbers into a durability watermark, incrementally on every store, once per batch, and by
  a scan when the store is reopened.  The abstract specification of all three is the set of stored
  sequence numbers.
\<close>

section \<open>Watermarks\<close>

record PublisherWatermark =
  pw_committed_seq :: u64
  pw_gaps :: "u64 list"

text \<open>
  \<^verbatim>\<open>slice::binary_search\<close>: halve the window \<open>[base, base + sz)\<close> until one element is left and
  compare it.
\<close>

function bsearch_loop :: "'a::linorder list \<Rightarrow> 'a \<Rightarrow> nat \<Rightarrow> nat \<Rightarrow> nat" where
  "bsearch_loop xs x base sz =
     (if sz > 1
      then (let half = sz div 2; mid = base + half
            in bsearch_loop xs x (if xs ! mid > x then base else mid) (sz - half))
      else base)"
  by auto
termination by (relation "measure (\<lambda>(xs, x, base, sz). sz)") auto

definition binary_search :: "'a::linorder list \<Rightarrow> 'a \<Rightarrow> nat + nat" where
  "binary_search xs x =
     (if xs = [] then Err 0
      else let base = bsearch_loop xs x 0 (length xs)
           in if xs ! base = x then Ok base
              else Err (if xs ! base < x then base + 1 else base))"

definition is_durable :: "PublisherWatermark \<Rightarrow> u64 \<Rightarrow> bool" where
  "is_durable pw seq =
     (seq \<le> pw_committed_seq pw \<and> (case binary_search (pw_gaps pw) seq of Err _ \<Rightarrow> True | Ok _ \<Rightarrow> False))"

record CommitWatermark =
  cw_partition :: u32
  cw_publishers :: "(PublisherId, PublisherWatermark) hmap"
  cw_timestamp :: DateTime
  cw_epoch :: u64

definition cw_is_durable :: "CommitWatermark \<Rightarrow> PublisherId \<Rightarrow> u64 \<Rightarrow> bool" where
  "cw_is_durable cw publisher_id seq =
     (case hm_get (cw_publishers cw) publisher_id of Some pw \<Rightarrow> is_durable pw seq | None \<Rightarrow> False)"

section \<open>Per-publisher sequence state\<close>

record PublisherSeqState =
  ps_highest_seen :: "u64 option"
  ps_committed_seq :: u64
  ps_gaps :: "u64 set"

definition seq_state_default :: PublisherSeqState where
  "seq_state_default = \<lparr>ps_highest_seen = None, ps_committed_seq = 0, ps_gaps = {}\<rparr>"

text \<open>The gap tracking of \<^verbatim>\<open>store\<close> and of the inner loop of \<^verbatim>\<open>store_batch\<close>.\<close>

definition note_seq :: "u64 \<Rightarrow> PublisherSeqState \<Rightarrow> PublisherSeqState" where
  "note_seq seq st =
     (let st = st\<lparr>ps_gaps := ps_gaps st - {seq}\<rparr>
      in case ps_highest_seen st of
           None \<Rightarrow> st\<lparr>ps_gaps := fold insert (word_range 0 seq) (ps_gaps st), ps_highest_seen := Some seq\<rparr>
         | Some highest \<Rightarrow>
             if seq > highest
             then st\<lparr>ps_gaps := fold insert (word_range (highest + 1) seq) (ps_gaps st),
                     ps_highest_seen := Some seq\<rparr>
             else st)"

text \<open>
  The loop that advances the committed sequence past filled positions.
\<close>

function advance_loop :: "u64 set \<Rightarrow> u64 \<Rightarrow> u64 \<Rightarrow> u64" where
  "advance_loop gaps highest committed =
     (if committed < highest \<and> committed + 1 \<notin> gaps
      then advance_loop gaps highest (committed + 1)
      else committed)"
  by auto
termination
  by (relation "measure (\<lambda>(gaps, highest, committed). unat highest - unat committed)")
    (auto simp: word_succ_unat word_less_nat_alt)

definition advance_committed :: "PublisherSeqState \<Rightarrow> PublisherSeqState" where
  "advance_committed st =
     (case ps_highest_seen st of
        None \<Rightarrow> st
      | Some highest \<Rightarrow>
          st\<lparr>ps_committed_seq := advance_loop (ps_gaps st) highest (ps_committed_seq st)\<rparr>)"

definition store_seq :: "u64 \<Rightarrow> PublisherSeqState \<Rightarrow> PublisherSeqState" where
  "store_seq seq st = advance_committed (note_seq seq st)"

definition store_seqs :: "u64 list \<Rightarrow> PublisherSeqState \<Rightarrow> PublisherSeqState" where
  "store_seqs seqs st = advance_committed (fold note_seq seqs st)"

text \<open>What \<^verbatim>\<open>publisher_watermarks\<close> reports of a state; a \<^verbatim>\<open>BTreeSet\<close> iterates in order.\<close>

definition watermark_of :: "PublisherSeqState \<Rightarrow> PublisherWatermark" where
  "watermark_of st = \<lparr>pw_committed_seq = ps_committed_seq st, pw_gaps = sorted_list_of_set (ps_gaps st)\<rparr>"

text \<open>
  Reopening: the scan of one publisher's stored sequences (in key order) and the committed sequence
  computed from the gaps it found.
\<close>

definition scan_seq :: "u64 \<Rightarrow> PublisherSeqState \<Rightarrow> PublisherSeqState" where
  "scan_seq seq st =
     (let expected = (case ps_highest_seen st of None \<Rightarrow> 0 | Some h \<Rightarrow> h + 1)
      in st\<lparr>ps_gaps := fold insert (word_range expected seq) (ps_gaps st), ps_highest_seen := Some seq\<rparr>)"

definition finish_scan :: "PublisherSeqState \<Rightarrow> PublisherSeqState" where
  "finish_scan st =
     (case ps_highest_seen st of
        None \<Rightarrow> st
      | Some highest \<Rightarrow>
          (let committed = advance_loop (ps_gaps st) highest 0
           in if 0 \<notin> ps_gaps st then st\<lparr>ps_committed_seq := committed\<rparr> else st))"

definition reopen_seqs :: "u64 list \<Rightarrow> PublisherSeqState" where
  "reopen_seqs seqs = finish_scan (fold scan_seq seqs seq_state_default)"

declare bsearch_loop.simps [simp del] advance_loop.simps [simp del]

section \<open>Binary search\<close>

lemma bsearch_loop_mem:
  assumes "sorted xs" and "0 < sz" and "base + sz \<le> length xs"
    and "\<exists>i. base \<le> i \<and> i < base + sz \<and> xs ! i = x"
  shows "xs ! bsearch_loop xs x base sz = x"
  using assms
proof (induction xs x base sz rule: bsearch_loop.induct)
  case (1 xs x base sz)
  show ?case
  proof (cases "sz > 1")
    case False
    with "1.prems" have "sz = 1" by simp
    with "1.prems" have "xs ! base = x" by (auto simp: le_less_Suc_eq)
    with False show ?thesis by (subst bsearch_loop.simps) simp
  next
    case True
    let ?half = "sz div 2" and ?mid = "base + sz div 2"
    let ?b = "if xs ! ?mid > x then base else ?mid"
    from "1.prems" obtain i where i: "base \<le> i" "i < base + sz" "xs ! i = x" by blast
    have "\<exists>i. ?b \<le> i \<and> i < ?b + (sz - ?half) \<and> xs ! i = x"
    proof (cases "xs ! ?mid > x")
      case gt: True
      then have "i < ?mid" using i sorted_nth_mono[of xs ?mid i] "1.prems"
        by (metis leI linorder_not_less order_less_le_trans)
      then show ?thesis using i gt by (intro exI[of _ i]) auto
    next
      case le: False
      show ?thesis
      proof (cases "?mid \<le> i")
        case True
        then show ?thesis using i le by (intro exI[of _ i]) auto
      next
        case False
        then have "xs ! i \<le> xs ! ?mid" using "1.prems" True sorted_nth_mono[of xs i ?mid] by simp
        then have "xs ! ?mid = x" using i le by simp
        then show ?thesis using le True by (intro exI[of _ ?mid]) auto
      qed
    qed
    moreover have "?b + (sz - ?half) \<le> length xs" using "1.prems" by auto
    ultimately have "xs ! bsearch_loop xs x ?b (sz - ?half) = x"
      using "1.IH"[OF True refl refl] "1.prems"(1) True by simp
    with True show ?thesis by (subst bsearch_loop.simps) (simp add: Let_def)
  qed
qed

lemma bsearch_loop_bound:
  "0 < sz \<Longrightarrow> base + sz \<le> length xs \<Longrightarrow> bsearch_loop xs x base sz < length xs"
proof (induction xs x base sz rule: bsearch_loop.induct)
  case (1 xs x base sz)
  then show ?case
    by (subst bsearch_loop.simps) (auto simp: Let_def)
qed

lemma binary_search_mem:
  assumes "sorted xs"
  shows "(case binary_search xs x of Err _ \<Rightarrow> True | Ok _ \<Rightarrow> False) = (x \<notin> set xs)"
proof (cases "xs = []")
  case True
  then show ?thesis by (simp add: binary_search_def)
next
  case False
  let ?b = "bsearch_loop xs x 0 (length xs)"
  have "xs ! ?b = x" if "x \<in> set xs"
    using bsearch_loop_mem[OF assms, of "length xs" 0 x] that False by (auto simp: in_set_conv_nth)
  moreover have "x \<in> set xs" if "xs ! ?b = x"
    using bsearch_loop_bound[of "length xs" 0 xs x] that False by (metis add_0 le_refl length_greater_0_conv nth_mem)
  ultimately show ?thesis using False by (auto simp: binary_search_def Let_def)
qed

lemma is_durable_watermark_of:
  "is_durable (watermark_of st) seq = (seq \<le> ps_committed_seq st \<and> seq \<notin> ps_gaps st)"
  by (simp add: is_durable_def watermark_of_def binary_search_mem)

section \<open>The specification: a set of stored sequence numbers\<close>

text \<open>
  \<open>gaps_ok S m st\<close>: \<open>m\<close> is the maximum of \<open>S\<close> and the highest sequence seen, and the gaps are what
  is missing of \<open>S\<close> below it.  \<open>run_end S m c\<close>: \<open>c\<close> ends the run of stored sequences that starts
  at 1.  A state that satisfies both is determined by \<open>S\<close>.
\<close>

definition is_top :: "u64 set \<Rightarrow> u64 \<Rightarrow> bool" where
  "is_top S m \<longleftrightarrow> m \<in> S \<and> (\<forall>v \<in> S. v \<le> m)"

definition gaps_ok :: "u64 set \<Rightarrow> u64 \<Rightarrow> PublisherSeqState \<Rightarrow> bool" where
  "gaps_ok S m st \<longleftrightarrow> is_top S m \<and> ps_highest_seen st = Some m \<and> ps_gaps st = {..<m} - S"

definition run_end :: "u64 set \<Rightarrow> u64 \<Rightarrow> u64 \<Rightarrow> bool" where
  "run_end S m c \<longleftrightarrow> c \<le> m \<and> {1..c} \<subseteq> S \<and> (c = m \<or> c + 1 \<notin> S)"

definition seq_state_ok :: "u64 set \<Rightarrow> PublisherSeqState \<Rightarrow> bool" where
  "seq_state_ok S st \<longleftrightarrow> (\<exists>m. gaps_ok S m st \<and> run_end S m (ps_committed_seq st))"

lemma top_unique: "is_top S m \<Longrightarrow> is_top S m' \<Longrightarrow> m = m'"
  by (simp add: is_top_def order_antisym)

lemma top_insert: "is_top S m \<Longrightarrow> is_top (insert s S) (max s m)"
  by (auto simp: is_top_def max_def)

lemma gaps_ok_mem: "gaps_ok S m st \<Longrightarrow> v \<le> m \<Longrightarrow> v \<notin> ps_gaps st \<longleftrightarrow> v \<in> S"
  by (auto simp: gaps_ok_def is_top_def order_le_less)

lemma gaps_extend:
  assumes "is_top S m" and "m < s"
  shows "{..<m} - S - {s} \<union> {m + 1..<s} = {..<s} - insert s S"
proof -
  have "m \<noteq> - 1" using assms(2) by (metis word_n1_ge linorder_not_le)
  then have suc: "m + 1 \<le> v \<longleftrightarrow> m < v" for v by (rule word_succ_le_iff)
  show ?thesis
  proof (intro set_eqI iffI)
    fix v assume "v \<in> {..<m} - S - {s} \<union> {m + 1..<s}"
    then show "v \<in> {..<s} - insert s S"
      using assms suc by (auto simp: is_top_def dest: order_less_trans leD)
  next
    fix v assume "v \<in> {..<s} - insert s S"
    moreover have "v \<noteq> m" if "v \<notin> S" using that assms(1) by (auto simp: is_top_def)
    ultimately show "v \<in> {..<m} - S - {s} \<union> {m + 1..<s}"
      unfolding Un_iff atLeastLessThan_iff suc by (auto simp: neq_iff)
  qed
qed

lemma note_seq_ok:
  assumes "gaps_ok S m st"
  shows "gaps_ok (insert s S) (max s m) (note_seq s st)"
proof -
  have top: "is_top S m" and h: "ps_highest_seen st = Some m" and g: "ps_gaps st = {..<m} - S"
    using assms by (auto simp: gaps_ok_def)
  note top_insert[OF top, of s]
  moreover have "ps_highest_seen (note_seq s st) = Some (max s m)"
    using h by (auto simp: note_seq_def Let_def max_def)
  moreover have "ps_gaps (note_seq s st) = {..<max s m} - insert s S"
  proof (cases "m < s")
    case True
    then show ?thesis using gaps_extend[OF top True] g h True
      by (simp add: note_seq_def Let_def max.absorb3)
  next
    case False
    then show ?thesis using g h by (auto simp: note_seq_def Let_def max.absorb2)
  qed
  ultimately show ?thesis by (simp add: gaps_ok_def)
qed

lemma note_seq_first: "gaps_ok {s} s (note_seq s seq_state_default)"
  by (auto simp: gaps_ok_def is_top_def note_seq_def seq_state_default_def)

lemma note_seq_committed [simp]: "ps_committed_seq (note_seq s st) = ps_committed_seq st"
  by (simp add: note_seq_def Let_def split: option.splits)

lemma scan_seq_ok:
  assumes "gaps_ok S m st" and "m < s"
  shows "gaps_ok (insert s S) s (scan_seq s st)"
proof -
  have "is_top S m" using assms by (simp add: gaps_ok_def)
  moreover from this have "s \<notin> S" using assms(2) by (auto simp: is_top_def)
  ultimately show ?thesis
    using assms gaps_extend[OF _ assms(2), of S] top_insert[of S m s]
    by (auto simp: gaps_ok_def scan_seq_def max.absorb3)
qed

lemma scan_seq_first: "gaps_ok {s} s (scan_seq s seq_state_default)"
  by (auto simp: gaps_ok_def is_top_def scan_seq_def seq_state_default_def)

lemma advance_loop_run:
  assumes "gaps_ok S m st" and "c \<le> m" and "{1..c} \<subseteq> S"
  shows "run_end S m (advance_loop (ps_gaps st) m c)"
  using assms
proof (induction "ps_gaps st" m c rule: advance_loop.induct)
  case (1 m c)
  show ?case
  proof (cases "c < m \<and> c + 1 \<notin> ps_gaps st")
    case True
    then have le: "c + 1 \<le> m" using word_succ_le by blast
    then have "c + 1 \<in> S" using True gaps_ok_mem[OF "1.prems"(1), of "c + 1"] by simp
    moreover have "{1..c + 1} \<subseteq> insert (c + 1) {1..c}"
      using word_atMost_succ[of c m 1] True by (auto simp: atLeastAtMost_def atLeast_def atMost_def)
    ultimately have "{1..c + 1} \<subseteq> S" using "1.prems"(3) by blast
    then show ?thesis
      using "1.hyps"[OF True "1.prems"(1) le] True by (subst advance_loop.simps) simp
  next
    case False
    moreover have "c + 1 \<notin> S" if "c < m" "c + 1 \<in> ps_gaps st"
      using that gaps_ok_mem[OF "1.prems"(1), of "c + 1"] word_succ_le[OF that(1)] by blast
    ultimately show ?thesis
      using "1.prems" order_le_less[of c m] by (subst advance_loop.simps) (auto simp: run_end_def)
  qed
qed

lemma advance_committed_ok:
  assumes "gaps_ok S m st" and "ps_committed_seq st \<le> m" and "{1..ps_committed_seq st} \<subseteq> S"
  shows "seq_state_ok S (advance_committed st)"
proof -
  have "ps_highest_seen st = Some m" using assms(1) by (simp add: gaps_ok_def)
  moreover from this have "gaps_ok S m (advance_committed st)"
    using assms(1) by (simp add: gaps_ok_def advance_committed_def)
  ultimately show ?thesis
    using advance_loop_run[OF assms] by (auto simp: seq_state_ok_def advance_committed_def)
qed

lemma run_end_unique:
  assumes "run_end S m c" and "run_end S m d"
  shows "c = d"
proof (rule ccontr)
  have no: False if "run_end S m c" "run_end S m d" "c < d" for c d
  proof -
    have "c + 1 \<in> {1..d}" using that(3) word_succ_le[of c d] word_one_le_succ[of c d] by simp
    moreover have "c \<noteq> m" using that by (auto simp: run_end_def)
    ultimately show False using that(1,2) by (auto simp: run_end_def)
  qed
  assume "c \<noteq> d"
  with no assms show False by (metis neq_iff)
qed

lemma seq_state_unique:
  assumes "seq_state_ok S st" and "seq_state_ok S st'"
  shows "st = st'"
proof -
  obtain m where m: "gaps_ok S m st" "run_end S m (ps_committed_seq st)"
    using assms(1) by (auto simp: seq_state_ok_def)
  obtain m' where m': "gaps_ok S m' st'" "run_end S m' (ps_committed_seq st')"
    using assms(2) by (auto simp: seq_state_ok_def)
  have "m' = m" using m m' top_unique by (auto simp: gaps_ok_def)
  with m m' run_end_unique[of S m] show ?thesis by (simp add: gaps_ok_def)
qed

text \<open>A state reached by storing \<open>S\<close>; the empty set is the default state.\<close>

definition tracks :: "u64 set \<Rightarrow> PublisherSeqState \<Rightarrow> bool" where
  "tracks S st \<longleftrightarrow> (if S = {} then st = seq_state_default else seq_state_ok S st)"

lemma fold_note_seq_ok:
  "gaps_ok S m st \<Longrightarrow> ps_committed_seq st \<le> m \<Longrightarrow> {1..ps_committed_seq st} \<subseteq> S \<Longrightarrow>
   \<exists>m'. gaps_ok (set ss \<union> S) m' (fold note_seq ss st)
     \<and> ps_committed_seq (fold note_seq ss st) = ps_committed_seq st \<and> m \<le> m'"
proof (induction ss arbitrary: S m st)
  case Nil
  then show ?case by auto
next
  case (Cons s ss)
  have "m \<le> max s m" by simp
  with Cons.prems have "ps_committed_seq (note_seq s st) \<le> max s m"
    "{1..ps_committed_seq (note_seq s st)} \<subseteq> insert s S"
    by (auto simp: le_max_iff_disj)
  from Cons.IH[OF note_seq_ok[OF Cons.prems(1)] this] \<open>m \<le> max s m\<close> show ?case
    by (auto intro: order_trans)
qed

lemma store_seqs_tracks:
  assumes "tracks S st" and "ss \<noteq> []"
  shows "tracks (set ss \<union> S) (store_seqs ss st)"
proof -
  have *: "tracks (set ss \<union> T) (advance_committed (fold note_seq ss st'))"
    if "gaps_ok T m st'" "ps_committed_seq st' \<le> m" "{1..ps_committed_seq st'} \<subseteq> T" "T \<noteq> {}" for T m st' ss
  proof -
    note prem = that
    obtain m' where m': "gaps_ok (set ss \<union> T) m' (fold note_seq ss st')" "m \<le> m'"
      "ps_committed_seq (fold note_seq ss st') = ps_committed_seq st'"
      using fold_note_seq_ok[OF prem(1-3), of ss] by blast
    then have "ps_committed_seq (fold note_seq ss st') \<le> m'" using prem(2) by (simp add: order_trans[of _ m])
    moreover have "{1..ps_committed_seq (fold note_seq ss st')} \<subseteq> set ss \<union> T" using m'(3) prem(3) by auto
    ultimately show ?thesis using advance_committed_ok[OF m'(1)] prem(4) by (simp add: tracks_def)
  qed
  show ?thesis
  proof (cases "S = {}")
    case True
    then obtain s ss' where ss: "ss = s # ss'" and st: "st = seq_state_default"
      using assms by (cases ss) (auto simp: tracks_def)
    from *[OF note_seq_first[of s]] show ?thesis
      using True ss st by (simp add: store_seqs_def seq_state_default_def insert_commute)
  next
    case False
    then obtain m where "gaps_ok S m st" "run_end S m (ps_committed_seq st)"
      using assms(1) by (auto simp: tracks_def seq_state_ok_def)
    then show ?thesis using *[of S m st ss] False by (simp add: store_seqs_def run_end_def)
  qed
qed

lemma store_seq_tracks: "tracks S st \<Longrightarrow> tracks (insert s S) (store_seq s st)"
  using store_seqs_tracks[of S st "[s]"] by (simp add: store_seqs_def store_seq_def)

lemma fold_store_seq_tracks: "tracks S st \<Longrightarrow> tracks (set ss \<union> S) (fold store_seq ss st)"
proof (induction ss arbitrary: S st)
  case Nil
  then show ?case by simp
next
  case (Cons s ss)
  from Cons.IH[OF store_seq_tracks[OF Cons.prems]] show ?case by simp
qed

lemma tracks_unique: "tracks S st \<Longrightarrow> tracks S st' \<Longrightarrow> st = st'"
  by (auto simp: tracks_def seq_state_unique split: if_splits)

lemma tracks_empty [simp]: "tracks {} seq_state_default"
  by (simp add: tracks_def)

lemma tracks_durable:
  assumes "tracks S st" and "S \<noteq> {}"
  shows "is_durable (watermark_of st) s \<longleftrightarrow> s \<in> S \<and> {1..s} \<subseteq> S"
proof -
  obtain m where m: "gaps_ok S m st" and c: "run_end S m (ps_committed_seq st)"
    using assms by (auto simp: tracks_def seq_state_ok_def)
  let ?c = "ps_committed_seq st"
  have cm: "?c \<le> m" and sub: "{1..?c} \<subseteq> S" using c by (auto simp: run_end_def)
  have "s \<le> ?c" if "s \<in> S" "{1..s} \<subseteq> S"
  proof (rule ccontr)
    assume "\<not> s \<le> ?c"
    then have lt: "?c < s" by simp
    then have "?c + 1 \<in> {1..s}" using word_succ_le[of ?c s] word_one_le_succ[of ?c s] by simp
    then have "?c = m" using that(2) c by (auto simp: run_end_def)
    with lt that(1) m show False by (auto simp: gaps_ok_def is_top_def)
  qed
  moreover have "s \<notin> ps_gaps st \<longleftrightarrow> s \<in> S" if "s \<le> ?c"
    using gaps_ok_mem[OF m] that cm order_trans by blast
  moreover have "{1..s} \<subseteq> S" if "s \<le> ?c"
    using sub that by (meson atLeastatMost_subset_iff order_refl subset_trans)
  ultimately show ?thesis unfolding is_durable_watermark_of by blast
qed

text \<open>
  Storing a batch, which tracks all sequences first and advances the committed sequence once, leaves
  the same state as storing its events one by one.
\<close>

theorem batch_tracking_equiv:
  "ss \<noteq> [] \<Longrightarrow> store_seqs ss (fold store_seq prev seq_state_default)
     = fold store_seq ss (fold store_seq prev seq_state_default)"
  using tracks_unique store_seqs_tracks fold_store_seq_tracks tracks_empty by metis

theorem batch_tracking_equiv_witness:
  "store_seqs [3, 1] (fold store_seq [0] seq_state_default) = fold store_seq [3, 1] (fold store_seq [0] seq_state_default)"
  using batch_tracking_equiv[of "[3, 1]" "[0]"] by simp

lemma fold_scan_ok:
  "gaps_ok S m st \<Longrightarrow> sorted_wrt (<) (m # ss) \<Longrightarrow>
   \<exists>m'. gaps_ok (set ss \<union> S) m' (fold scan_seq ss st)
     \<and> ps_committed_seq (fold scan_seq ss st) = ps_committed_seq st"
proof (induction ss arbitrary: S m st)
  case Nil
  then show ?case by auto
next
  case (Cons s ss)
  have "gaps_ok (insert s S) s (scan_seq s st)" using Cons.prems scan_seq_ok by simp
  moreover have "ps_committed_seq (scan_seq s st) = ps_committed_seq st"
    by (simp add: scan_seq_def Let_def)
  ultimately show ?case using Cons.IH[of "insert s S" s "scan_seq s st"] Cons.prems by simp
qed

lemma scan_ok:
  assumes "ss \<noteq> []" and "sorted_wrt (<) ss"
  shows "\<exists>m. gaps_ok (set ss) m (fold scan_seq ss seq_state_default)
    \<and> ps_committed_seq (fold scan_seq ss seq_state_default) = 0"
proof -
  obtain s ss' where ss: "ss = s # ss'" using assms(1) by (cases ss) auto
  have "ps_committed_seq (scan_seq s seq_state_default) = 0"
    by (simp add: scan_seq_def seq_state_default_def)
  with fold_scan_ok[OF scan_seq_first[of s], of ss'] assms(2) ss show ?thesis by simp
qed

lemma one_to_zero_word [simp]: "{1..0 :: 'a::len word} = {}"
  by simp

lemma reopen_watermark_facts:
  assumes "sorted_wrt (<) ss" and "ss \<noteq> []" and "set arr = set ss"
  defines "st \<equiv> fold store_seq arr seq_state_default"
  shows "(0 \<in> set ss \<longrightarrow> reopen_seqs ss = st)
    \<and> (0 \<notin> set ss \<longrightarrow> reopen_seqs ss = st\<lparr>ps_committed_seq := 0\<rparr>
         \<and> (\<forall>s. \<not> is_durable (watermark_of (reopen_seqs ss)) s))
    \<and> store_seq s (reopen_seqs ss) = store_seq s st"
proof -
  let ?S = "set ss" and ?sc = "fold scan_seq ss seq_state_default"
  have S: "?S \<noteq> {}" using assms(2) by simp
  obtain m where m: "gaps_ok ?S m ?sc" and c0: "ps_committed_seq ?sc = 0"
    using scan_ok[OF assms(2,1)] by blast
  have tr: "tracks ?S st"
    using fold_store_seq_tracks[OF tracks_empty, of arr] assms(3) by (simp add: st_def)
  then obtain m' where m': "gaps_ok ?S m' st" using S by (auto simp: tracks_def seq_state_ok_def)
  have [simp]: "m' = m" using m m' top_unique by (auto simp: gaps_ok_def)
  have run: "run_end ?S m (advance_loop (ps_gaps ?sc) m 0)" using advance_loop_run[OF m, of 0] by simp
  have hs: "ps_highest_seen ?sc = Some m" using m by (simp add: gaps_ok_def)
  have zero: "0 \<in> ps_gaps ?sc \<longleftrightarrow> 0 \<notin> ?S" using gaps_ok_mem[OF m, of 0] by auto
  have re: "gaps_ok ?S m (reopen_seqs ss)"
    using m hs by (auto simp: reopen_seqs_def finish_scan_def gaps_ok_def Let_def)
  have A: "reopen_seqs ss = st" if "0 \<in> ?S"
  proof -
    have "seq_state_ok ?S (reopen_seqs ss)"
      using re run hs zero that by (auto simp: seq_state_ok_def reopen_seqs_def finish_scan_def Let_def)
    then show ?thesis using tr S tracks_unique by (simp add: tracks_def seq_state_unique)
  qed
  have B: "reopen_seqs ss = st\<lparr>ps_committed_seq := 0\<rparr>" if "0 \<notin> ?S"
    using m m' hs c0 zero that by (simp add: reopen_seqs_def finish_scan_def gaps_ok_def Let_def)
  have "\<not> is_durable (watermark_of (reopen_seqs ss)) v" if "0 \<notin> ?S" for v
    using B[OF that] m' that gaps_ok_mem[OF m', of 0] by (simp add: is_durable_watermark_of)
  moreover have "store_seq s (reopen_seqs ss) = store_seq s st"
  proof (cases "0 \<in> ?S")
    case False
    let ?n = "note_seq s (reopen_seqs ss)"
    have "gaps_ok (insert s ?S) (max s m) ?n" by (rule note_seq_ok[OF re])
    moreover have "ps_committed_seq ?n = 0" using B[OF False] by simp
    ultimately have "seq_state_ok (insert s ?S) (advance_committed ?n)"
      using advance_committed_ok by simp
    then show ?thesis using store_seq_tracks[OF tr, of s] tracks_unique
      by (simp add: tracks_def store_seq_def seq_state_unique)
  qed (simp add: A)
  ultimately show ?thesis using A B by blast
qed

end
