(* ===== verification/Query_Filters.thy ===== *)
theory Query_Filters
  imports Prelude
begin

text \<open>
  \<^verbatim>\<open>mitiflow/src/store/query.rs\<close>: the filters of store queries and replay queries and their
  parsers from Zenoh selector parameters, with the hybrid logical clock timestamp of
  \<^verbatim>\<open>mitiflow/src/store/backend.rs\<close>.  The parsers of the \<^verbatim>\<open>uuid\<close> and \<^verbatim>\<open>chrono\<close> crates are
  arguments.
\<close>

section \<open>HLC timestamps\<close>

datatype HlcTimestamp = Hlc (physical_ns: u64) (logical: u32)

instantiation HlcTimestamp :: linorder
begin

definition less_eq_HlcTimestamp :: "HlcTimestamp \<Rightarrow> HlcTimestamp \<Rightarrow> bool" where
  "a \<le> b \<longleftrightarrow> (physical_ns a, logical a) \<le> (physical_ns b, logical b)"

definition less_HlcTimestamp :: "HlcTimestamp \<Rightarrow> HlcTimestamp \<Rightarrow> bool" where
  "a < b \<longleftrightarrow> (physical_ns a, logical a) < (physical_ns b, logical b)"

instance
  by standard (auto simp: less_eq_HlcTimestamp_def less_HlcTimestamp_def order_less_le
      HlcTimestamp.expand simp del: less_eq_prod_simp less_prod_simp)

end

text \<open>\<^verbatim>\<open>HlcTimestamp::default()\<close>\<close>

definition hlc_default :: HlcTimestamp where
  "hlc_default = Hlc 0 0"

section \<open>Filters\<close>

record QueryFilters =
  qf_after_seq :: "u64 option"
  qf_before_seq :: "u64 option"
  qf_after_time :: "DateTime option"
  qf_before_time :: "DateTime option"
  qf_publisher_id :: "PublisherId option"
  qf_limit :: "nat option"

definition qf_default :: QueryFilters where
  "qf_default = \<lparr>qf_after_seq = None, qf_before_seq = None, qf_after_time = None,
     qf_before_time = None, qf_publisher_id = None, qf_limit = None\<rparr>"

record ReplayFilters =
  rf_after_hlc :: "HlcTimestamp option"
  rf_before_hlc :: "HlcTimestamp option"
  rf_limit :: "nat option"
  rf_key :: "string option"
  rf_key_prefix :: "string option"
  rf_publisher_id :: "PublisherId option"

definition rf_default :: ReplayFilters where
  "rf_default = \<lparr>rf_after_hlc = None, rf_before_hlc = None, rf_limit = None, rf_key = None,
     rf_key_prefix = None, rf_publisher_id = None\<rparr>"

text \<open>Selector parts are separated by a semicolon or an ampersand.\<close>

definition is_sep :: "char \<Rightarrow> bool" where
  "is_sep c = (c = CHR '';'' \<or> c = CHR ''&'')"

definition config_err :: "string \<Rightarrow> 'a option \<Rightarrow> 'a result" where
  "config_err msg r = (case r of Some x \<Rightarrow> Ok x | None \<Rightarrow> Err (InvalidConfig msg))"

definition parse_usize :: "string \<Rightarrow> nat option" where
  "parse_usize s = parse_uint (2 ^ 64) s"

definition qf_param ::
    "(string \<Rightarrow> DateTime option) \<Rightarrow> (string \<Rightarrow> u128 option) \<Rightarrow> string \<Rightarrow> string
     \<Rightarrow> QueryFilters \<Rightarrow> QueryFilters result" where
  "qf_param parse_time parse_uuid key value f =
     (if key = ''after_seq'' then
        rbind (config_err ''invalid after_seq'' (parse_u64 value)) (\<lambda>x. Ok (f\<lparr>qf_after_seq := Some x\<rparr>))
      else if key = ''before_seq'' then
        rbind (config_err ''invalid before_seq'' (parse_u64 value)) (\<lambda>x. Ok (f\<lparr>qf_before_seq := Some x\<rparr>))
      else if key = ''after_time'' then
        rbind (config_err ''invalid after_time'' (parse_time value)) (\<lambda>x. Ok (f\<lparr>qf_after_time := Some x\<rparr>))
      else if key = ''before_time'' then
        rbind (config_err ''invalid before_time'' (parse_time value)) (\<lambda>x. Ok (f\<lparr>qf_before_time := Some x\<rparr>))
      else if key = ''limit'' then
        rbind (config_err ''invalid limit'' (parse_usize value)) (\<lambda>x. Ok (f\<lparr>qf_limit := Some x\<rparr>))
      else if key = ''publisher_id'' then
        rbind (config_err ''invalid publisher_id'' (parse_uuid value)) (\<lambda>x. Ok (f\<lparr>qf_publisher_id := Some x\<rparr>))
      else Ok f)"

text \<open>
  The loop both parsers share: trim each part, skip the empty ones and those without an equals sign,
  hand key and value to the match, stop at the first error.
\<close>

fun parse_parts :: "(string \<Rightarrow> string \<Rightarrow> 'f \<Rightarrow> 'f result) \<Rightarrow> string list \<Rightarrow> 'f \<Rightarrow> 'f result" where
  "parse_parts param [] f = Ok f"
| "parse_parts param (p # ps) f =
     (let part = trim p
      in if part = [] then parse_parts param ps f
         else case split_once (CHR ''='') part of
                None \<Rightarrow> parse_parts param ps f
              | Some (k, v) \<Rightarrow> rbind (param (trim k) (trim v) f) (parse_parts param ps))"

definition qf_from_selector ::
    "(string \<Rightarrow> DateTime option) \<Rightarrow> (string \<Rightarrow> u128 option) \<Rightarrow> string \<Rightarrow> QueryFilters result" where
  "qf_from_selector parse_time parse_uuid params =
     parse_parts (qf_param parse_time parse_uuid) (split_on is_sep params) qf_default"

definition parse_hlc :: "string \<Rightarrow> HlcTimestamp result" where
  "parse_hlc s =
     (case split_once (CHR '':'') s of
        None \<Rightarrow> Err (InvalidConfig (''invalid HLC format (expected physical:logical): '' @ s))
      | Some (phys_str, log_str) \<Rightarrow>
          rbind (config_err ''invalid HLC physical_ns'' (parse_u64 phys_str)) (\<lambda>p.
          rbind (config_err ''invalid HLC logical'' (parse_u32 log_str)) (\<lambda>l.
          Ok (Hlc p l))))"

definition rf_param ::
    "(string \<Rightarrow> u128 option) \<Rightarrow> string \<Rightarrow> string \<Rightarrow> ReplayFilters \<Rightarrow> ReplayFilters result" where
  "rf_param parse_uuid key value f =
     (if key = ''after_hlc'' then rbind (parse_hlc value) (\<lambda>h. Ok (f\<lparr>rf_after_hlc := Some h\<rparr>))
      else if key = ''before_hlc'' then rbind (parse_hlc value) (\<lambda>h. Ok (f\<lparr>rf_before_hlc := Some h\<rparr>))
      else if key = ''limit'' then
        rbind (config_err ''invalid limit'' (parse_usize value)) (\<lambda>x. Ok (f\<lparr>rf_limit := Some x\<rparr>))
      else if key = ''key'' then Ok (f\<lparr>rf_key := Some value\<rparr>)
      else if key = ''key_prefix'' then Ok (f\<lparr>rf_key_prefix := Some value\<rparr>)
      else if key = ''publisher_id'' then
        rbind (config_err ''invalid publisher_id'' (parse_uuid value)) (\<lambda>x. Ok (f\<lparr>rf_publisher_id := Some x\<rparr>))
      else Ok f)"

definition rf_from_selector :: "(string \<Rightarrow> u128 option) \<Rightarrow> string \<Rightarrow> ReplayFilters result" where
  "rf_from_selector parse_uuid params =
     parse_parts (rf_param parse_uuid) (split_on is_sep params) rf_default"

definition has_key_filter :: "ReplayFilters \<Rightarrow> bool" where
  "has_key_filter f = (rf_key f \<noteq> None \<or> rf_key_prefix f \<noteq> None)"

definition matches_key :: "ReplayFilters \<Rightarrow> string option \<Rightarrow> bool" where
  "matches_key f app_key =
     (case rf_key f of
        Some exact \<Rightarrow> app_key = Some exact
      | None \<Rightarrow>
          (case rf_key_prefix f of
             Some prefix \<Rightarrow> (case app_key of Some k \<Rightarrow> starts_with prefix k | None \<Rightarrow> False)
           | None \<Rightarrow> True))"

definition matches_publisher :: "ReplayFilters \<Rightarrow> PublisherId \<Rightarrow> bool" where
  "matches_publisher f pub_id =
     (case rf_publisher_id f of Some filter_id \<Rightarrow> pub_id = filter_id | None \<Rightarrow> True)"

section \<open>Parsing what clients print\<close>

text \<open>The selector text of one parameter and of a list of them.\<close>

definition param_text :: "string \<times> string \<Rightarrow> string" where
  "param_text kv = fst kv @ CHR ''='' # snd kv"

fun join_params :: "char \<Rightarrow> string list \<Rightarrow> string" where
  "join_params c [] = []"
| "join_params c [p] = p"
| "join_params c (p # q # ps) = p @ c # join_params c (q # ps)"

definition plain :: "string \<Rightarrow> bool" where
  "plain s \<longleftrightarrow> (\<forall>c \<in> set s. \<not> is_sep c \<and> \<not> is_space c)"

lemma split_on_append:
  "\<forall>c \<in> set p. \<not> P c \<Longrightarrow> split_on P p = [p]"
  "\<forall>c \<in> set p. \<not> P c \<Longrightarrow> P s \<Longrightarrow> split_on P (p @ s # rest) = p # split_on P rest"
  by (induction p) auto

lemma split_join:
  "is_sep c \<Longrightarrow> \<forall>p \<in> set ps. plain p \<Longrightarrow> ps \<noteq> [] \<Longrightarrow> split_on is_sep (join_params c ps) = ps"
  by (induction c ps rule: join_params.induct) (simp_all add: split_on_append plain_def)

lemma dropWhile_none: "\<forall>c \<in> set s. \<not> P c \<Longrightarrow> dropWhile P s = s"
  by (cases s) auto

lemma trim_plain: "plain s \<Longrightarrow> trim s = s"
  by (simp add: trim_def dropWhile_none plain_def)

fun params_fold :: "(string \<Rightarrow> string \<Rightarrow> 'f \<Rightarrow> 'f result) \<Rightarrow> (string \<times> string) list \<Rightarrow> 'f \<Rightarrow> 'f result" where
  "params_fold param [] f = Ok f"
| "params_fold param ((k, v) # kvs) f = rbind (param k v f) (params_fold param kvs)"

definition param_ok :: "string \<times> string \<Rightarrow> bool" where
  "param_ok kv \<longleftrightarrow> plain (fst kv) \<and> CHR ''='' \<notin> set (fst kv) \<and> plain (snd kv)"

lemma plain_param_text: "param_ok kv \<Longrightarrow> plain (param_text kv)"
  by (auto simp: param_ok_def param_text_def plain_def is_sep_def is_space_def)

lemma parse_parts_params:
  "\<forall>kv \<in> set kvs. param_ok kv \<Longrightarrow> parse_parts param (map param_text kvs) f = params_fold param kvs f"
proof (induction kvs arbitrary: f)
  case Nil
  then show ?case by simp
next
  case (Cons kv kvs)
  obtain k v where kv: "kv = (k, v)" by (cases kv)
  have ok: "param_ok (k, v)" using Cons.prems kv by simp
  have "trim (param_text kv) = param_text kv" using plain_param_text[OF ok] kv trim_plain by simp
  moreover have "split_once (CHR ''='') (param_text kv) = Some (k, v)" "param_text kv \<noteq> []"
    using ok kv by (simp_all add: param_ok_def param_text_def)
  moreover have "trim k = k" "trim v = v" using ok trim_plain by (simp_all add: param_ok_def)
  moreover have "parse_parts param (map param_text kvs) = params_fold param kvs"
    using Cons by (simp add: fun_eq_iff)
  ultimately show ?case using kv by (simp add: Let_def)
qed

text \<open>
  A selector printed from well-formed parameters is parsed as those parameters, in order.
\<close>

lemma parse_selector:
  assumes "is_sep c" and "\<forall>kv \<in> set kvs. param_ok kv" and "kvs \<noteq> []"
  shows "parse_parts param (split_on is_sep (join_params c (map param_text kvs))) f = params_fold param kvs f"
  using split_join[of c "map param_text kvs"] assms plain_param_text parse_parts_params by simp

lemma plain_show_word [simp]: "plain (show_word w)"
proof -
  have "\<not> is_sep c \<and> \<not> is_space c" if "c \<in> set (show_nat (unat w))" for c
    using show_nat_range[OF that] by (auto simp: is_sep_def is_space_def)
  then show ?thesis by (simp add: plain_def show_word_def)
qed

lemma parse_hlc_show:
  "parse_hlc (show_word p @ CHR '':'' # show_word l) = Ok (Hlc p l)"
proof -
  have "CHR '':'' \<notin> set (show_word p)" unfolding show_word_def by (rule show_nat_notin) simp
  then show ?thesis by (simp add: parse_hlc_def config_err_def)
qed

end
