(* ===== verification/Fjall.thy ===== *)
theory Fjall
  imports Prelude "HOL-Library.Sublist"
begin

text \<open>
  The storage engine the repository calls (the \<^verbatim>\<open>fjall\<close> crate, not part of it): a database of
  named keyspaces with point reads, ordered scans and atomic batches.  Its operations are a record of
  functions that every definition of the store takes as an argument; \<open>fjall_ok\<close> states the
  documented behaviour the code relies on, over the key-value view of a database.  Any operation may
  fail.  The in-memory database at the end satisfies \<open>fjall_ok\<close>.
\<close>

section \<open>Operations\<close>

datatype keyspace = Events | Metadata | Keys | Replay | Offsets | Checkpoints | Schemas | Topics

datatype batch_op = BInsert keyspace bytes bytes | BRemove keyspace bytes

type_synonym 'a scan = "(string + 'a) list"

record 'd fjall_ops =
  kv_get :: "'d \<Rightarrow> keyspace \<Rightarrow> bytes \<Rightarrow> string + bytes option"
  kv_iter :: "'d \<Rightarrow> keyspace \<Rightarrow> (bytes \<times> bytes) scan"
  kv_range :: "'d \<Rightarrow> keyspace \<Rightarrow> bytes \<Rightarrow> bytes \<Rightarrow> (bytes \<times> bytes) scan"
  kv_prefix :: "'d \<Rightarrow> keyspace \<Rightarrow> bytes \<Rightarrow> (bytes \<times> bytes) scan"
  kv_commit :: "'d \<Rightarrow> batch_op list \<Rightarrow> 'd \<times> (string + unit)"

text \<open>\<^verbatim>\<open>Keyspace::insert\<close> and \<^verbatim>\<open>Keyspace::remove\<close> are batches of one operation.\<close>

definition kv_insert :: "'d fjall_ops \<Rightarrow> 'd \<Rightarrow> keyspace \<Rightarrow> bytes \<Rightarrow> bytes \<Rightarrow> 'd \<times> (string + unit)" where
  "kv_insert ops d ks k v = kv_commit ops d [BInsert ks k v]"

definition kv_remove :: "'d fjall_ops \<Rightarrow> 'd \<Rightarrow> keyspace \<Rightarrow> bytes \<Rightarrow> 'd \<times> (string + unit)" where
  "kv_remove ops d ks k = kv_commit ops d [BRemove ks k]"

section \<open>Documented behaviour\<close>

type_synonym view = "keyspace \<Rightarrow> bytes \<rightharpoonup> bytes"

fun apply_op :: "batch_op \<Rightarrow> view \<Rightarrow> view" where
  "apply_op (BInsert ks k v) w = w(ks := (w ks)(k \<mapsto> v))"
| "apply_op (BRemove ks k) w = w(ks := (w ks)(k := None))"

definition entries :: "(bytes \<rightharpoonup> bytes) \<Rightarrow> (bytes \<times> bytes) list" where
  "entries m = map (\<lambda>k. (k, the (m k))) (sorted_list_of_set (dom m))"

text \<open>A scan yields the entries in order; it may break off with an error.\<close>

definition scan_of :: "'a scan \<Rightarrow> 'a list \<Rightarrow> bool" where
  "scan_of xs es \<longleftrightarrow> xs = map Inr es \<or> (\<exists>pre e post. prefix pre es \<and> xs = map Inr pre @ Inl e # post)"

definition fjall_ok :: "'d fjall_ops \<Rightarrow> ('d \<Rightarrow> view) \<Rightarrow> bool" where
  "fjall_ok ops vw \<longleftrightarrow>
     (\<forall>d ks. finite (dom (vw d ks)))
   \<and> (\<forall>d ks k v. kv_get ops d ks k = Ok v \<longrightarrow> v = vw d ks k)
   \<and> (\<forall>d ks. scan_of (kv_iter ops d ks) (entries (vw d ks)))
   \<and> (\<forall>d ks lo hi. scan_of (kv_range ops d ks lo hi)
        (filter (\<lambda>(k, _). lo \<le> k \<and> k \<le> hi) (entries (vw d ks))))
   \<and> (\<forall>d ks p. scan_of (kv_prefix ops d ks p) (filter (\<lambda>(k, _). prefix p k) (entries (vw d ks))))
   \<and> (\<forall>d b d'. kv_commit ops d b = (d', Ok ()) \<longrightarrow> vw d' = fold apply_op b (vw d))
   \<and> (\<forall>d b d' e. kv_commit ops d b = (d', Err e) \<longrightarrow> vw d' = vw d \<or> vw d' = fold apply_op b (vw d))"

section \<open>An in-memory database\<close>

text \<open>
  Association lists per keyspace.  \<open>mem_failing\<close> makes every commit fail without effect.
\<close>

record mem_db =
  mem_data :: "keyspace \<Rightarrow> (bytes, bytes) hmap"
  mem_failing :: bool

fun mem_apply :: "batch_op \<Rightarrow> (keyspace \<Rightarrow> (bytes, bytes) hmap) \<Rightarrow> keyspace \<Rightarrow> (bytes, bytes) hmap" where
  "mem_apply (BInsert ks k v) w = w(ks := hm_insert k v (w ks))"
| "mem_apply (BRemove ks k) w = w(ks := hm_remove k (w ks))"

definition mem_entries :: "mem_db \<Rightarrow> keyspace \<Rightarrow> (bytes \<times> bytes) list" where
  "mem_entries d ks =
     map (\<lambda>k. (k, the (hm_get (mem_data d ks) k))) (sort (remdups (map fst (mem_data d ks))))"

definition mem_ops :: "mem_db fjall_ops" where
  "mem_ops = \<lparr>
     kv_get = (\<lambda>d ks k. Ok (hm_get (mem_data d ks) k)),
     kv_iter = (\<lambda>d ks. map Inr (mem_entries d ks)),
     kv_range = (\<lambda>d ks lo hi. map Inr (filter (\<lambda>(k, _). lo \<le> k \<and> k \<le> hi) (mem_entries d ks))),
     kv_prefix = (\<lambda>d ks p. map Inr (filter (\<lambda>(k, _). prefix p k) (mem_entries d ks))),
     kv_commit = (\<lambda>d b. if mem_failing d then (d, Err ''io error'')
                        else (d\<lparr>mem_data := fold mem_apply b (mem_data d)\<rparr>, Ok ()))\<rparr>"

definition mem_view :: "mem_db \<Rightarrow> view" where
  "mem_view d = (\<lambda>ks. hm_get (mem_data d ks))"

definition mem_empty :: mem_db where
  "mem_empty = \<lparr>mem_data = (\<lambda>_. []), mem_failing = False\<rparr>"

section \<open>Scans\<close>

lemma entries_keys: "finite (dom m) \<Longrightarrow> set (map fst (entries m)) = dom m"
  by (simp add: entries_def comp_def)

lemma entries_mem: "finite (dom m) \<Longrightarrow> (k, v) \<in> set (entries m) \<longleftrightarrow> m k = Some v"
  by (auto simp: entries_def)

lemma entries_sorted: "sorted_wrt (<) (map fst (entries m))"
  by (simp add: entries_def comp_def)

lemma entries_distinct: "distinct (map fst (entries m))"
  using entries_sorted strict_sorted_iff by blast

lemma map_of_entries: "finite (dom m) \<Longrightarrow> map_of (entries m) = m"
  by (rule ext) (metis entries_mem entries_distinct map_of_eq_Some_iff not_None_eq)

lemma mem_entries: "mem_entries d ks = entries (mem_view d ks)"
proof -
  have "sort (remdups (map fst (mem_data d ks))) = sorted_list_of_set (dom (mem_view d ks))"
    by (simp add: mem_view_def dom_map_of_conv_image_fst sorted_list_of_set_sort_remdups[symmetric])
  then show ?thesis by (simp add: mem_entries_def entries_def mem_view_def)
qed

lemma mem_apply_view:
  "(\<lambda>ks. hm_get (fold mem_apply b w ks)) = fold apply_op b (\<lambda>ks. hm_get (w ks))"
proof (induction b arbitrary: w)
  case Nil
  then show ?case by simp
next
  case (Cons x b)
  have "(\<lambda>ks. hm_get (mem_apply x w ks)) = apply_op x (\<lambda>ks. hm_get (w ks))"
    by (cases x) (auto simp: fun_eq_iff)
  with Cons show ?case by simp
qed

lemma mem_fjall_ok: "fjall_ok mem_ops mem_view"
  using mem_apply_view
  by (auto simp: fjall_ok_def mem_ops_def scan_of_def mem_entries mem_view_def fun_eq_iff finite_dom_map_of
      split: if_splits)

lemma fjall_get: "fjall_ok ops vw \<Longrightarrow> kv_get ops d ks k = Ok v \<Longrightarrow> v = vw d ks k"
  by (simp add: fjall_ok_def)

lemma fjall_finite: "fjall_ok ops vw \<Longrightarrow> finite (dom (vw d ks))"
  by (simp add: fjall_ok_def)

lemma fjall_iter: "fjall_ok ops vw \<Longrightarrow> scan_of (kv_iter ops d ks) (entries (vw d ks))"
  by (simp add: fjall_ok_def)

lemma fjall_range: "fjall_ok ops vw \<Longrightarrow>
  scan_of (kv_range ops d ks lo hi) (filter (\<lambda>(k, _). lo \<le> k \<and> k \<le> hi) (entries (vw d ks)))"
  by (simp add: fjall_ok_def)

lemma fjall_prefix: "fjall_ok ops vw \<Longrightarrow>
  scan_of (kv_prefix ops d ks p) (filter (\<lambda>(k, _). prefix p k) (entries (vw d ks)))"
  by (simp add: fjall_ok_def)

lemma fjall_commit: "fjall_ok ops vw \<Longrightarrow> kv_commit ops d b = (d', Ok ()) \<Longrightarrow> vw d' = fold apply_op b (vw d)"
  by (simp add: fjall_ok_def)

end
