(* ===== verification/Checkpoint.thy ===== *)
theory Checkpoint
  imports Attachment Gap_Detector Fjall
begin

text \<open>
  \<^verbatim>\<open>mitiflow/src/subscriber/checkpoint.rs\<close>: acknowledged sequence numbers persisted per
  (publisher, partition), restored into a gap detector after a restart.
\<close>

section \<open>Operations\<close>

definition checkpoint_key :: "PublisherId \<Rightarrow> u32 \<Rightarrow> bytes" where
  "checkpoint_key pub_id part = id_to_bytes pub_id @ to_be_bytes part"

text \<open>Opening the database and its keyspace, with the outcome of each call.\<close>

definition checkpoint_open :: "string + 'd \<Rightarrow> string + unit \<Rightarrow> 'd result" where
  "checkpoint_open db keyspace =
     (case db of
        Err e \<Rightarrow> Err (CheckpointError (''failed to open checkpoint db: '' @ e))
      | Ok d \<Rightarrow>
          (case keyspace of
             Err e \<Rightarrow> Err (CheckpointError (''failed to open keyspace: '' @ e))
           | Ok _ \<Rightarrow> Ok d))"

definition last_checkpoint :: "'d fjall_ops \<Rightarrow> 'd \<Rightarrow> PublisherId \<Rightarrow> u32 \<Rightarrow> u64 option result" where
  "last_checkpoint ops d pub_id part =
     (case kv_get ops d Checkpoints (checkpoint_key pub_id part) of
        Err e \<Rightarrow> Err (CheckpointError (''get failed: '' @ e))
      | Ok None \<Rightarrow> Ok None
      | Ok (Some bs) \<Rightarrow>
          if length bs = 8 then Ok (Some (from_be_bytes bs))
          else Err (CheckpointError ''invalid seq bytes''))"

definition ack :: "'d fjall_ops \<Rightarrow> 'd \<Rightarrow> PublisherId \<Rightarrow> u32 \<Rightarrow> u64 \<Rightarrow> 'd \<times> unit result" where
  "ack ops d pub_id part seq =
     (case last_checkpoint ops d pub_id part of
        Err e \<Rightarrow> (d, Err e)
      | Ok current \<Rightarrow>
          if (case current of Some current_seq \<Rightarrow> seq \<le> current_seq | None \<Rightarrow> False)
          then (d, Ok ())
          else (case kv_insert ops d Checkpoints (checkpoint_key pub_id part) (to_be_bytes seq) of
                  (d', Err e) \<Rightarrow> (d', Err (CheckpointError (''insert failed: '' @ e)))
                | (d', Ok _) \<Rightarrow> (d', Ok ())))"

fun restore_loop :: "(bytes \<times> bytes) scan \<Rightarrow> (stream, u64) hmap \<Rightarrow> (stream, u64) hmap result" where
  "restore_loop [] m = Ok m"
| "restore_loop (Inl e # _) m = Err (CheckpointError (''iter failed: '' @ e))"
| "restore_loop (Inr (k, v) # rest) m =
     (if length k < 20 then restore_loop rest m
      else if length v \<noteq> 8 then Err (CheckpointError ''invalid seq bytes in checkpoint'')
      else restore_loop rest
             (hm_insert (id_from_bytes (take 16 k), from_be_bytes (take 4 (drop 16 k))) (from_be_bytes v) m))"

definition restore :: "'d fjall_ops \<Rightarrow> 'd \<Rightarrow> (stream, u64) hmap result" where
  "restore ops d = restore_loop (kv_iter ops d Checkpoints) []"

definition checkpoint_remove :: "'d fjall_ops \<Rightarrow> 'd \<Rightarrow> PublisherId \<Rightarrow> u32 \<Rightarrow> 'd \<times> unit result" where
  "checkpoint_remove ops d pub_id part =
     (case kv_remove ops d Checkpoints (checkpoint_key pub_id part) of
        (d', Err e) \<Rightarrow> (d', Err (CheckpointError (''remove failed: '' @ e)))
      | (d', Ok _) \<Rightarrow> (d', Ok ()))"

text \<open>A run of acknowledgements, given up at the first failure.\<close>

fun ack_all :: "('s \<Rightarrow> PublisherId \<Rightarrow> u32 \<Rightarrow> u64 \<Rightarrow> 's \<times> unit result) \<Rightarrow> 's
    \<Rightarrow> (PublisherId \<times> u32 \<times> u64) list \<Rightarrow> 's option" where
  "ack_all a d [] = Some d"
| "ack_all a d ((p, q, s) # xs) =
     (case a d p q s of (d', Ok _) \<Rightarrow> ack_all a d' xs | (d', Err _) \<Rightarrow> None)"

section \<open>The abstract checkpoint map\<close>

definition checkpoint_of :: "view \<Rightarrow> stream \<rightharpoonup> u64" where
  "checkpoint_of w k = map_option from_be_bytes (w Checkpoints (checkpoint_key (fst k) (snd k)))"

definition checkpoint_inv :: "view \<Rightarrow> bool" where
  "checkpoint_inv w \<longleftrightarrow>
     (\<forall>k v. w Checkpoints k = Some v \<longrightarrow> length k = 20 \<and> length v = 8)"

lemma checkpoint_key_inj [simp]:
  "checkpoint_key p q = checkpoint_key p' q' \<longleftrightarrow> p = p' \<and> q = q'"
proof
  assume "checkpoint_key p q = checkpoint_key p' q'"
  then have "id_to_bytes p = id_to_bytes p'" "to_be_bytes q = to_be_bytes q'"
    by (simp_all add: checkpoint_key_def)
  then show "p = p' \<and> q = q'" by (metis from_to_be_32 id_from_to_bytes)
qed simp

lemma length_checkpoint_key [simp]: "length (checkpoint_key p q) = 20"
  by (simp add: checkpoint_key_def)

lemma checkpoint_key_decode:
  "length k = 20 \<Longrightarrow> checkpoint_key (id_from_bytes (take 16 k)) (from_be_bytes (take 4 (drop 16 k))) = k"
  by (simp add: checkpoint_key_def id_to_from_bytes to_from_be_bytes)

lemma checkpoint_insert:
  "checkpoint_of (w(Checkpoints := (w Checkpoints)(checkpoint_key p q \<mapsto> to_be_bytes s))) = (checkpoint_of w)((p, q) \<mapsto> s)"
  by (auto simp: checkpoint_of_def fun_eq_iff)

lemma last_checkpoint_abs:
  assumes "fjall_ok ops vw" and "last_checkpoint ops d p q = Ok c"
  shows "c = checkpoint_of (vw d) (p, q)"
  using assms fjall_get[OF assms(1)]
  by (auto simp: last_checkpoint_def checkpoint_of_def split: sum.splits option.splits if_splits)

lemma ack_abs:
  assumes "fjall_ok ops vw" and "checkpoint_inv (vw d)" and "ack ops d p q s = (d', Ok ())"
  shows "checkpoint_inv (vw d') \<and> checkpoint_of (vw d') = (checkpoint_of (vw d))
     ((p, q) \<mapsto> (case checkpoint_of (vw d) (p, q) of None \<Rightarrow> s | Some c \<Rightarrow> max c s))"
proof -
  obtain cur where cur: "last_checkpoint ops d p q = Ok cur"
    using assms(3) by (cases "last_checkpoint ops d p q") (auto simp: ack_def)
  note c = last_checkpoint_abs[OF assms(1) cur]
  show ?thesis
  proof (cases "\<exists>c. cur = Some c \<and> s \<le> c")
    case True
    then show ?thesis using assms(2,3) cur c
      by (auto simp: ack_def max_def fun_eq_iff) 
  next
    case False
    then have "kv_commit ops d [BInsert Checkpoints (checkpoint_key p q) (to_be_bytes s)] = (d', Ok ())"
      using assms(3) cur by (auto simp: ack_def kv_insert_def split: option.splits prod.splits sum.splits)
    then have "vw d' = (vw d)(Checkpoints := (vw d Checkpoints)(checkpoint_key p q \<mapsto> to_be_bytes s))"
      using fjall_commit[OF assms(1)] by fastforce
    then show ?thesis
      using assms(2) c False checkpoint_insert[of "vw d" p q s]
      by (auto simp: checkpoint_inv_def max_def split: option.splits)
  qed
qed

lemma restore_loop_append:
  "restore_loop (map Inr pre @ Inl e # post) m \<noteq> Ok r"
  by (induction pre arbitrary: m) (auto split: if_splits)

lemma restore_loop_get:
  "restore_loop (map Inr es) m = Ok r \<Longrightarrow> distinct (map fst es) \<Longrightarrow>
   \<forall>(k, v) \<in> set es. length k = 20 \<Longrightarrow>
   hm_get r (p, q) = (case map_of es (checkpoint_key p q) of Some v \<Rightarrow> Some (from_be_bytes v) | None \<Rightarrow> hm_get m (p, q))"
proof (induction es arbitrary: m)
  case Nil
  then show ?case by simp
next
  case (Cons x es)
  obtain k v where x: "x = (k, v)" by (cases x)
  let ?pq = "(id_from_bytes (take 16 k), from_be_bytes (take 4 (drop 16 k)) :: u32)"
  have k: "checkpoint_key (fst ?pq) (snd ?pq) = k"
    using Cons.prems(3) x checkpoint_key_decode by auto
  then have "map_of es k = None" using Cons.prems(2) x by (simp add: map_of_eq_None_iff)
  moreover have "(p, q) = ?pq \<longleftrightarrow> checkpoint_key p q = k" using k by (metis checkpoint_key_inj fst_conv snd_conv)
  ultimately show ?case
    using Cons.IH[of "hm_insert ?pq (from_be_bytes v) m"] Cons.prems x
    by (auto split: if_splits option.splits)
qed

lemma restore_abs:
  assumes "fjall_ok ops vw" and "checkpoint_inv (vw d)" and "restore ops d = Ok m"
  shows "hm_get m = checkpoint_of (vw d)"
proof -
  let ?es = "entries (vw d Checkpoints)"
  have fin: "finite (dom (vw d Checkpoints))" using fjall_finite[OF assms(1)] .
  have it: "kv_iter ops d Checkpoints = map Inr ?es"
    using fjall_iter[OF assms(1), of d Checkpoints] assms(3) restore_loop_append
    by (auto simp: scan_of_def restore_def)
  have "\<forall>(k, v) \<in> set ?es. length k = 20"
    using assms(2) entries_mem[OF fin] by (auto simp: checkpoint_inv_def)
  then show ?thesis
    using restore_loop_get[of ?es "[]" m] assms(3) it entries_distinct map_of_entries[OF fin]
    by (auto simp: restore_def checkpoint_of_def fun_eq_iff split: option.splits)
qed

section \<open>The checkpoint interface\<close>

locale checkpoint_store =
  fixes ack_op :: "'s \<Rightarrow> PublisherId \<Rightarrow> u32 \<Rightarrow> u64 \<Rightarrow> 's \<times> unit result"
    and restore_op :: "'s \<Rightarrow> (stream, u64) hmap result"
    and cps :: "'s \<Rightarrow> stream \<rightharpoonup> u64"
    and inv :: "'s \<Rightarrow> bool"
  assumes ack_law: "inv d \<Longrightarrow> ack_op d p q s = (d', Ok ()) \<Longrightarrow> inv d' \<and>
      cps d' = (cps d)((p, q) \<mapsto> (case cps d (p, q) of None \<Rightarrow> s | Some c \<Rightarrow> max c s))"
    and restore_law: "inv d \<Longrightarrow> restore_op d = Ok m \<Longrightarrow> hm_get m = cps d"
begin

lemma ack_all_cps:
  "inv d \<Longrightarrow> ack_all ack_op d xs = Some d' \<Longrightarrow> inv d' \<and>
   ((\<exists>c. cps d' k = Some c \<and> v \<le> c) \<longleftrightarrow>
      (\<exists>c. cps d k = Some c \<and> v \<le> c) \<or> (\<exists>s. (fst k, snd k, s) \<in> set xs \<and> v \<le> s))"
proof (induction xs arbitrary: d)
  case Nil
  then show ?case by simp
next
  case (Cons x xs)
  obtain p q s where x: "x = (p, q, s)" by (cases x)
  then obtain d1 where d1: "ack_op d p q s = (d1, Ok ())" and rest: "ack_all ack_op d1 xs = Some d'"
    using Cons.prems(2) by (auto split: prod.splits sum.splits)
  note law = ack_law[OF Cons.prems(1) d1]
  have "(\<exists>c. cps d1 k = Some c \<and> v \<le> c) \<longleftrightarrow>
      (\<exists>c. cps d k = Some c \<and> v \<le> c) \<or> (k = (p, q) \<and> v \<le> s)"
    using law by (auto simp: le_max_iff_disj split: option.splits)
  moreover have "(\<exists>s'. (fst k, snd k, s') \<in> set (x # xs) \<and> v \<le> s') \<longleftrightarrow>
      (k = (p, q) \<and> v \<le> s) \<or> (\<exists>s'. (fst k, snd k, s') \<in> set xs \<and> v \<le> s')"
    using x by (cases k) auto
  ultimately show ?case using Cons.IH[of d1, OF _ rest] law by blast
qed

lemma ack_all_origin:
  "inv d \<Longrightarrow> ack_all ack_op d xs = Some d' \<Longrightarrow> cps d' k = Some c \<Longrightarrow>
   cps d k = Some c \<or> (fst k, snd k, c) \<in> set xs"
proof (induction xs arbitrary: d)
  case Nil
  then show ?case by simp
next
  case (Cons x xs)
  obtain p q s where x: "x = (p, q, s)" by (cases x)
  then obtain d1 where d1: "ack_op d p q s = (d1, Ok ())" and rest: "ack_all ack_op d1 xs = Some d'"
    using Cons.prems(2) by (auto split: prod.splits sum.splits)
  note law = ack_law[OF Cons.prems(1) d1]
  have "cps d1 k = Some c \<Longrightarrow> cps d k = Some c \<or> (k = (p, q) \<and> c = s)"
    using law by (auto simp: max_def split: option.splits if_splits)
  then show ?case using Cons.IH[of d1] Cons.prems(3) law rest x by (cases k) auto
qed

text \<open>
  After a restart, a tracker seeded from the restored map drops a sample exactly when its
  sequence number does not exceed an acknowledged one.
\<close>

lemma resume_exact:
  assumes "inv d" and "cps d (p, q) = None" and "ack_all ack_op d xs = Some d'" and "restore_op d' = Ok m"
    and "(p, q, u64_MAX) \<notin> set xs"
  shows "snd (on_sample (with_checkpoints m) now p q v) = Duplicate
     \<longleftrightarrow> (\<exists>s. (p, q, s) \<in> set xs \<and> v \<le> s)"
proof -
  have cps: "inv d'" "(\<exists>c. cps d' (p, q) = Some c \<and> v \<le> c) \<longleftrightarrow> (\<exists>s. (p, q, s) \<in> set xs \<and> v \<le> s)"
    using ack_all_cps[OF assms(1,3), of "(p, q)" v] assms(2) by auto
  have m: "hm_get m = cps d'" using restore_law[OF cps(1) assms(4)] .
  have "c \<noteq> u64_MAX" if "cps d' (p, q) = Some c" for c
    using ack_all_origin[OF assms(1,3) that] assms(2,5) by auto
  then have "snd (on_sample (with_checkpoints m) now p q v) = Duplicate \<longleftrightarrow> (\<exists>c. cps d' (p, q) = Some c \<and> v \<le> c)"
    using m by (cases "cps d' (p, q)")
      (auto simp: gd.sample_verdict with_checkpoints_def expected_seq_def word_less_succ_iff[symmetric] not_less
        dest: leD)
  with cps show ?thesis by simp
qed

end

interpretation ck: checkpoint_store "ack ops" "restore ops" "\<lambda>d. checkpoint_of (vw d)"
    "\<lambda>d. fjall_ok ops vw \<and> checkpoint_inv (vw d)" for ops vw
proof unfold_locales
  fix d p q s d'
  assume "fjall_ok ops vw \<and> checkpoint_inv (vw d)" and "ack ops d p q s = (d', Ok ())"
  then show "(fjall_ok ops vw \<and> checkpoint_inv (vw d')) \<and> checkpoint_of (vw d') = (checkpoint_of (vw d))
      ((p, q) \<mapsto> (case checkpoint_of (vw d) (p, q) of None \<Rightarrow> s | Some c \<Rightarrow> max c s))"
    using ack_abs[of ops vw d p q s d'] by simp
next
  fix d m
  assume "fjall_ok ops vw \<and> checkpoint_inv (vw d)" and "restore ops d = Ok m"
  then show "hm_get m = checkpoint_of (vw d)" using restore_abs[of ops vw d m] by simp
qed

text \<open>
  C12. Restart without loss or repetition: acknowledge any sequence of events against a checkpoint
  database that holds nothing for the stream, restart, restore the checkpoints into a gap detector.
  A redelivered event is then dropped as a duplicate exactly when its sequence number is at most an
  acknowledged one of the same publisher and partition, in whatever order the acknowledgements came.
\<close>

theorem checkpoint_resume_exact:
  assumes "fjall_ok ops vw" and "checkpoint_inv (vw d)" and "checkpoint_of (vw d) (p, q) = None"
    and "ack_all (ack ops) d xs = Some d'" and "restore ops d' = Ok m" and "(p, q, u64_MAX) \<notin> set xs"
  shows "snd (on_sample (with_checkpoints m) now p q v) = Duplicate
     \<longleftrightarrow> (\<exists>s. (p, q, s) \<in> set xs \<and> v \<le> s)"
  using ck.resume_exact[of ops vw d p q xs d' m now v] assms by simp

theorem checkpoint_resume_exact_witness:
  "\<exists>d' m. ack_all (ack mem_ops) mem_empty [(1, 0, 5), (1, 0, 3), (2, 0, 9)] = Some d' \<and>
     restore mem_ops d' = Ok m \<and>
     snd (on_sample (with_checkpoints m) 0 1 0 5) = Duplicate \<and>
     snd (on_sample (with_checkpoints m) 0 1 0 6) \<noteq> Duplicate"
proof -
  let ?xs = "[(1, 0, 5), (1, 0, 3), (2, 0, 9)] :: (PublisherId \<times> u32 \<times> u64) list"
  have "case ack_all (ack mem_ops) mem_empty ?xs of None \<Rightarrow> False
      | Some d' \<Rightarrow> (case restore mem_ops d' of Err _ \<Rightarrow> False | Ok _ \<Rightarrow> True)"
    by code_simp
  then obtain d' m where d: "ack_all (ack mem_ops) mem_empty ?xs = Some d'" "restore mem_ops d' = Ok m"
    by (auto split: option.splits sum.splits)
  have 0: "checkpoint_inv (mem_view mem_empty)" "checkpoint_of (mem_view mem_empty) (1, 0) = None"
    by (simp_all add: checkpoint_inv_def checkpoint_of_def mem_view_def mem_empty_def)
  show ?thesis
    using checkpoint_resume_exact[OF mem_fjall_ok 0 d, of 0 5] checkpoint_resume_exact[OF mem_fjall_ok 0 d, of 0 6] d
    by auto
qed

end
