(* ===== verification/Backend_Codec.thy ===== *)
theory Backend_Codec
  imports Attachment Query_Filters Fjall
begin

text \<open>
  The data and the byte layouts of \<^verbatim>\<open>mitiflow/src/store/backend.rs\<close> and
  \<^verbatim>\<open>mitiflow/src/store/offset.rs\<close>: event metadata and stored events, primary and replay keys, the
  event value, consumer-group offset keys and values, and the FNV-1a hashes they use.  The
  \<^verbatim>\<open>serde_json\<close> codec of the metadata is an argument with its round trip as the hypothesis
  \<open>json_ok\<close>.
\<close>

unbundle bit_operations_syntax

section \<open>Data\<close>

record EventMetadata =
  md_seq :: u64
  md_publisher_id :: PublisherId
  md_event_id :: EventId
  md_timestamp :: DateTime
  md_key_expr :: string
  md_key :: "string option"
  md_hlc_timestamp :: "HlcTimestamp option"

record StoredEvent =
  se_key :: string
  se_payload :: bytes
  se_metadata :: EventMetadata

record CompactionStats =
  cs_removed :: nat
  cs_retained :: nat

record OffsetCommit =
  oc_group_id :: string
  oc_member_id :: string
  oc_partition :: u32
  oc_offsets :: "(PublisherId, u64) hmap"
  oc_generation :: u64
  oc_timestamp :: DateTime

datatype KeyFilter = Exact string | Prefix string

record KeyedOffsetCommit =
  kc_group_id :: string
  kc_member_id :: string
  kc_key_filter :: KeyFilter
  kc_last_hlc :: HlcTimestamp
  kc_generation :: u64
  kc_timestamp :: DateTime

record json_codec =
  js_enc :: "EventMetadata \<Rightarrow> bytes"
  js_dec :: "bytes \<Rightarrow> string + EventMetadata"

definition json_ok :: "json_codec \<Rightarrow> bool" where
  "json_ok js \<longleftrightarrow> (\<forall>m. js_dec js (js_enc js m) = Ok m)"

section \<open>Keys and values\<close>

definition encode_event_key :: "PublisherId \<Rightarrow> u64 \<Rightarrow> bytes" where
  "encode_event_key publisher_id seq = id_to_bytes publisher_id @ to_be_bytes seq"

definition decode_event_key :: "bytes \<Rightarrow> (PublisherId \<times> u64) option" where
  "decode_event_key key =
     (if length key < 24 then None
      else Some (id_from_bytes (take 16 key), from_be_bytes (take 8 (drop 16 key))))"

definition encode_replay_key :: "HlcTimestamp \<Rightarrow> PublisherId \<Rightarrow> u64 \<Rightarrow> bytes" where
  "encode_replay_key hlc publisher_id seq =
     to_be_bytes (physical_ns hlc) @ to_be_bytes (logical hlc) @ id_to_bytes publisher_id @ to_be_bytes seq"

definition decode_replay_key :: "bytes \<Rightarrow> (HlcTimestamp \<times> PublisherId \<times> u64) option" where
  "decode_replay_key key =
     (if length key < 36 then None
      else Some (Hlc (from_be_bytes (take 8 key)) (from_be_bytes (take 4 (drop 8 key))),
                 id_from_bytes (take 16 (drop 12 key)),
                 from_be_bytes (take 8 (drop 28 key))))"

text \<open>The length field is the metadata length truncated to 32 bits.\<close>

definition encode_event_value :: "json_codec \<Rightarrow> EventMetadata \<Rightarrow> bytes \<Rightarrow> bytes" where
  "encode_event_value js meta payload =
     (let meta_bytes = js_enc js meta
      in to_le_bytes (word_of_nat (length meta_bytes) :: u32) @ meta_bytes @ payload)"

definition decode_event_value :: "json_codec \<Rightarrow> bytes \<Rightarrow> (EventMetadata \<times> bytes) result" where
  "decode_event_value js value =
     (if length value < 4 then Err (StoreError ''corrupted event value: too short'')
      else let meta_len = unat (from_le_bytes (take 4 value) :: u32)
           in if length value < 4 + meta_len
              then Err (StoreError ''corrupted event value: metadata truncated'')
              else (case js_dec js (take meta_len (drop 4 value)) of
                      Err e \<Rightarrow> Err (StoreError (''invalid metadata JSON: '' @ e))
                    | Ok meta \<Rightarrow> Ok (meta, drop (4 + meta_len) value)))"

definition committed_seq_key :: "PublisherId \<Rightarrow> bytes" where
  "committed_seq_key pub_id = 99 # id_to_bytes pub_id"

section \<open>Consumer-group offsets\<close>

definition fnv_step :: "u64 \<Rightarrow> u8 \<Rightarrow> u64" where
  "fnv_step h b = (h XOR ucast b) * 0x100000001b3"

definition xxhash_group :: "string \<Rightarrow> u64" where
  "xxhash_group group_id = foldl fnv_step 0xcbf29ce484222325 (as_bytes group_id)"

definition key_filter_hash :: "KeyFilter \<Rightarrow> u64" where
  "key_filter_hash f =
     (let inp = (case f of Exact k \<Rightarrow> ''exact:'' @ k | Prefix p \<Rightarrow> ''prefix:'' @ p)
      in foldl fnv_step 0xcbf29ce484222325 (as_bytes inp))"

definition offset_key :: "string \<Rightarrow> PublisherId \<Rightarrow> bytes" where
  "offset_key group_id pub_id = to_be_bytes (xxhash_group group_id) @ id_to_bytes pub_id"

text \<open>\<^verbatim>\<open>timestamp_millis() as u64\<close>\<close>

definition timestamp_millis :: "DateTime \<Rightarrow> u64" where
  "timestamp_millis t = word_of_int (t div 1000000)"

definition encode_offset_value :: "u64 \<Rightarrow> u64 \<Rightarrow> DateTime \<Rightarrow> bytes" where
  "encode_offset_value seq generation timestamp =
     to_be_bytes seq @ to_be_bytes generation @ to_be_bytes (timestamp_millis timestamp)"

definition decode_offset_value :: "bytes \<Rightarrow> (u64 \<times> u64) option" where
  "decode_offset_value value =
     (if length value < 16 then None
      else Some (from_be_bytes (take 8 value), from_be_bytes (take 8 (drop 8 value))))"

definition keyed_offset_key :: "string \<Rightarrow> u64 \<Rightarrow> bytes" where
  "keyed_offset_key group_id filter_hash =
     to_be_bytes filter_hash @ to_be_bytes (xxhash_group group_id)"

definition encode_keyed_offset_value :: "HlcTimestamp \<Rightarrow> u64 \<Rightarrow> DateTime \<Rightarrow> bytes" where
  "encode_keyed_offset_value hlc generation timestamp =
     to_be_bytes (physical_ns hlc) @ to_be_bytes (logical hlc) @ to_be_bytes generation
     @ to_be_bytes (timestamp_millis timestamp)"

definition decode_keyed_offset_value :: "bytes \<Rightarrow> (HlcTimestamp \<times> u64) option" where
  "decode_keyed_offset_value value =
     (if length value < 20 then None
      else Some (Hlc (from_be_bytes (take 8 value)) (from_be_bytes (take 4 (drop 8 value))),
                 from_be_bytes (take 8 (drop 12 value))))"

section \<open>Round trips and order\<close>

lemma length_event_key [simp]: "length (encode_event_key p s) = 24"
  by (simp add: encode_event_key_def)

lemma decode_encode_event_key [codec_simps, simp]: "decode_event_key (encode_event_key p s) = Some (p, s)"
  by (simp add: decode_event_key_def encode_event_key_def)

lemma encode_event_key_inj [simp]: "encode_event_key p s = encode_event_key p' s' \<longleftrightarrow> p = p' \<and> s = s'"
  by (metis decode_encode_event_key option.inject prod.inject)

lemma encode_decode_event_key:
  "length k = 24 \<Longrightarrow> decode_event_key k = Some (p, s) \<Longrightarrow> encode_event_key p s = k"
  by (auto simp: decode_event_key_def encode_event_key_def id_to_from_bytes to_from_be_bytes)

lemma length_replay_key [simp]: "length (encode_replay_key h p s) = 36"
  by (simp add: encode_replay_key_def)

lemma decode_encode_replay_key [codec_simps, simp]:
  "decode_replay_key (encode_replay_key h p s) = Some (h, p, s)"
  by (simp add: decode_replay_key_def encode_replay_key_def)

lemma encode_replay_key_inj [simp]:
  "encode_replay_key h p s = encode_replay_key h' p' s' \<longleftrightarrow> h = h' \<and> p = p' \<and> s = s'"
  by (metis decode_encode_replay_key option.inject prod.inject)

lemma decode_encode_event_value [codec_simps]:
  assumes "json_ok js" and "length (js_enc js m) < 2 ^ 32"
  shows "decode_event_value js (encode_event_value js m payload) = Ok (m, payload)"
proof -
  have "unat (word_of_nat (length (js_enc js m)) :: u32) = length (js_enc js m)"
    using assms(2) by (simp add: unat_of_nat)
  moreover have "from_le_bytes (to_le_bytes (w :: u32)) = w" for w by simp
  ultimately show ?thesis
    using assms(1) by (simp add: decode_event_value_def encode_event_value_def Let_def json_ok_def)
qed

lemma decode_encode_offset_value [codec_simps, simp]:
  "decode_offset_value (encode_offset_value s g t) = Some (s, g)"
  by (simp add: decode_offset_value_def encode_offset_value_def)

lemma decode_encode_keyed_offset_value [codec_simps, simp]:
  "decode_keyed_offset_value (encode_keyed_offset_value h g t) = Some (h, g)"
  by (simp add: decode_keyed_offset_value_def encode_keyed_offset_value_def)

lemma id_to_bytes_less [simp]: "id_to_bytes p < id_to_bytes q \<longleftrightarrow> p < q"
  by (simp add: id_to_bytes_def)

lemma id_to_bytes_eq [simp]: "id_to_bytes p = id_to_bytes q \<longleftrightarrow> p = q"
  by (metis id_from_to_bytes)

lemma event_key_less: "encode_event_key p s < encode_event_key p' s' \<longleftrightarrow> (p, s) < (p', s')"
  by (auto simp: encode_event_key_def list_less_append_same)

text \<open>
  Replay order: the byte order of replay-index keys is the order of (HLC timestamp, publisher,
  sequence), and the byte order of primary keys is that of (publisher, sequence).  Scans of the two
  indexes therefore yield events in the order the replay and query paths promise, the same on
  every replica.
\<close>

theorem key_order_faithful:
  "(encode_replay_key h p s < encode_replay_key h' p' s' \<longleftrightarrow> (h, p, s) < (h', p', s'))
   \<and> (encode_event_key p s < encode_event_key p' s' \<longleftrightarrow> (p, s) < (p', s'))"
proof
  show "encode_replay_key h p s < encode_replay_key h' p' s' \<longleftrightarrow> (h, p, s) < (h', p', s')"
    by (cases h; cases h')
      (auto simp: encode_replay_key_def list_less_append_same less_HlcTimestamp_def
        less_eq_HlcTimestamp_def)
qed (rule event_key_less)

section \<open>A metadata codec\<close>

text \<open>
  A unary, length-prefixed encoding that satisfies \<open>json_ok\<close>, for concrete runs.
\<close>

fun put_nat :: "nat \<Rightarrow> bytes" where
  "put_nat 0 = [0]"
| "put_nat (Suc n) = 1 # put_nat n"

fun get_nat :: "bytes \<Rightarrow> nat \<times> bytes" where
  "get_nat [] = (0, [])"
| "get_nat (b # bs) = (if b = 0 then (0, bs) else (case get_nat bs of (n, r) \<Rightarrow> (Suc n, r)))"

definition put_int :: "int \<Rightarrow> bytes" where
  "put_int i = put_nat (if i < 0 then 1 else 0) @ put_nat (nat \<bar>i\<bar>)"

definition put_str :: "string \<Rightarrow> bytes" where
  "put_str s = put_nat (length s) @ as_bytes s"

definition from_bytes_str :: "bytes \<Rightarrow> string" where
  "from_bytes_str bs = map (\<lambda>b. char_of (unat b)) bs"

definition unary_enc :: "EventMetadata \<Rightarrow> bytes" where
  "unary_enc m = put_nat (unat (md_seq m)) @ put_nat (unat (md_publisher_id m))
     @ put_nat (unat (md_event_id m)) @ put_int (md_timestamp m) @ put_str (md_key_expr m)
     @ (case md_key m of None \<Rightarrow> put_nat 0 | Some k \<Rightarrow> put_nat 1 @ put_str k)
     @ (case md_hlc_timestamp m of None \<Rightarrow> put_nat 0
        | Some h \<Rightarrow> put_nat 1 @ put_nat (unat (physical_ns h)) @ put_nat (unat (logical h)))"

definition get_int :: "bytes \<Rightarrow> int \<times> bytes" where
  "get_int bs = (case get_nat bs of (s, bs) \<Rightarrow> case get_nat bs of (n, bs) \<Rightarrow>
     (if s = 1 then - int n else int n, bs))"

definition get_str :: "bytes \<Rightarrow> string \<times> bytes" where
  "get_str bs = (case get_nat bs of (n, bs) \<Rightarrow> (from_bytes_str (take n bs), drop n bs))"

definition unary_dec :: "bytes \<Rightarrow> string + EventMetadata" where
  "unary_dec bs =
     (case get_nat bs of (s, bs) \<Rightarrow> case get_nat bs of (p, bs) \<Rightarrow> case get_nat bs of (e, bs) \<Rightarrow>
      case get_int bs of (t, bs) \<Rightarrow> case get_str bs of (ke, bs) \<Rightarrow> case get_nat bs of (kt, bs) \<Rightarrow>
      case (if kt = 0 then (None, bs) else (case get_str bs of (k, bs) \<Rightarrow> (Some k, bs))) of (k, bs) \<Rightarrow>
      case get_nat bs of (ht, bs) \<Rightarrow>
      Ok \<lparr>md_seq = word_of_nat s, md_publisher_id = word_of_nat p, md_event_id = word_of_nat e,
          md_timestamp = t, md_key_expr = ke, md_key = k,
          md_hlc_timestamp = (if ht = 0 then None
            else (case get_nat bs of (ph, bs) \<Rightarrow> Some (Hlc (word_of_nat ph) (word_of_nat (fst (get_nat bs))))))\<rparr>)"

definition unary_json :: json_codec where
  "unary_json = \<lparr>js_enc = unary_enc, js_dec = unary_dec\<rparr>"

lemma get_put_nat [simp]: "get_nat (put_nat n @ r) = (n, r)"
  by (induction n) auto

lemma get_put_nat' [simp]: "get_nat (put_nat n) = (n, [])"
  using get_put_nat[of n "[]"] by simp

lemma get_put_int [simp]: "get_int (put_int i @ r) = (i, r)"
  by (simp add: get_int_def put_int_def)

lemma from_as_bytes [simp]: "from_bytes_str (as_bytes s) = s"
proof -
  have "char_of (unat (word_of_nat (of_char c) :: u8)) = c" for c :: char
    using of_char_mod_256[of c] by (simp add: unat_of_nat)
  then show ?thesis by (simp add: from_bytes_str_def as_bytes_def map_idI)
qed

lemma get_put_str [simp]: "get_str (put_str s @ r) = (s, r)"
  by (simp add: get_str_def put_str_def as_bytes_def[of s] from_as_bytes[unfolded as_bytes_def])

lemma unary_json_ok: "json_ok unary_json"
  unfolding json_ok_def
proof
  fix m :: EventMetadata
  show "js_dec unary_json (js_enc unary_json m) = Ok m"
    by (cases m) (simp add: unary_json_def unary_dec_def unary_enc_def split: option.splits)
qed

end
