(* ===== verification/Backend.thy ===== *)
theory Backend
  imports Backend_Codec Watermark
begin

text \<open>
  \<^verbatim>\<open>mitiflow/src/store/backend.rs\<close>: the trait \<^verbatim>\<open>StorageBackend\<close> (locale \<open>storage_backend\<close>) and
  \<^verbatim>\<open>FjallBackend\<close>, its implementation over five keyspaces with an in-memory map of per-publisher
  sequence states.  One value of \<open>FjallBackend\<close> is one partition.  Methods take the storage engine
  and the JSON codec as arguments and return the updated backend with their result.
\<close>

section \<open>State\<close>

record 'd FjallBackend =
  fb_db :: 'd
  fb_partition :: u32
  fb_publisher_states :: "(PublisherId, PublisherSeqState) hmap"

definition store_err :: "string \<Rightarrow> string + 'a \<Rightarrow> 'a result" where
  "store_err msg r = (case r of Err e \<Rightarrow> Err (StoreError (msg @ e)) | Ok x \<Rightarrow> Ok x)"

definition state_or_default :: "(PublisherId, PublisherSeqState) hmap \<Rightarrow> PublisherId \<Rightarrow> PublisherSeqState" where
  "state_or_default sts p = (case hm_get sts p of Some st \<Rightarrow> st | None \<Rightarrow> seq_state_default)"

section \<open>Opening\<close>

text \<open>The rebuilding scan stops silently at the first read error.\<close>

fun rebuild_states ::
    "(bytes \<times> bytes) scan \<Rightarrow> (PublisherId, PublisherSeqState) hmap \<Rightarrow> (PublisherId, PublisherSeqState) hmap" where
  "rebuild_states [] sts = sts"
| "rebuild_states (Inl _ # _) sts = sts"
| "rebuild_states (Inr (k, v) # rest) sts =
     (case decode_event_key k of
        Some (pub_id, seq) \<Rightarrow>
          rebuild_states rest (hm_insert pub_id (scan_seq seq (state_or_default sts pub_id)) sts)
      | None \<Rightarrow> rebuild_states rest sts)"

definition open_backend ::
    "'d fjall_ops \<Rightarrow> string + 'd \<Rightarrow> (keyspace \<Rightarrow> string + unit) \<Rightarrow> u32 \<Rightarrow> 'd FjallBackend result" where
  "open_backend ops db keyspace part =
     rbind (store_err ''failed to open fjall database: '' db) (\<lambda>d.
     rbind (store_err ''failed to open events keyspace: '' (keyspace Events)) (\<lambda>_.
     rbind (store_err ''failed to open metadata keyspace: '' (keyspace Metadata)) (\<lambda>_.
     rbind (store_err ''failed to open keys keyspace: '' (keyspace Keys)) (\<lambda>_.
     rbind (store_err ''failed to open replay keyspace: '' (keyspace Replay)) (\<lambda>_.
     rbind (store_err ''failed to open offsets keyspace: '' (keyspace Offsets)) (\<lambda>_.
     let states = map (\<lambda>(p, st). (p, finish_scan st)) (rebuild_states (kv_iter ops d Events) [])
     in Ok \<lparr>fb_db = d, fb_partition = part, fb_publisher_states = states\<rparr>))))))"

section \<open>Storing\<close>

text \<open>The three index entries of one event.\<close>

definition event_batch :: "json_codec \<Rightarrow> string \<Rightarrow> bytes \<Rightarrow> EventMetadata \<Rightarrow> batch_op list" where
  "event_batch js key event md =
     (let event_key = encode_event_key (md_publisher_id md) (md_seq md)
      in [BInsert Events event_key (encode_event_value js md event), BInsert Keys (as_bytes key) event_key]
         @ (case md_hlc_timestamp md of
              Some hlc \<Rightarrow> [BInsert Replay (encode_replay_key hlc (md_publisher_id md) (md_seq md)) event_key]
            | None \<Rightarrow> []))"

definition committed_op :: "PublisherId \<Rightarrow> PublisherSeqState \<Rightarrow> batch_op" where
  "committed_op p st = BInsert Metadata (committed_seq_key p) (to_le_bytes (ps_committed_seq st))"

text \<open>
  The sequence state is updated before the batch is committed; a failed commit leaves it updated.
\<close>

definition store :: "'d fjall_ops \<Rightarrow> json_codec \<Rightarrow> string \<Rightarrow> bytes \<Rightarrow> EventMetadata
    \<Rightarrow> 'd FjallBackend \<Rightarrow> 'd FjallBackend \<times> unit result" where
  "store ops js key event md b =
     (let seq = md_seq md;
          pub_id = md_publisher_id md;
          batch = event_batch js key event md;
          state = store_seq seq (state_or_default (fb_publisher_states b) pub_id);
          b = b\<lparr>fb_publisher_states := hm_insert pub_id state (fb_publisher_states b)\<rparr>;
          (d, r) = kv_commit ops (fb_db b) (batch @ [committed_op pub_id state])
      in (b\<lparr>fb_db := d\<rparr>, store_err ''batch commit failed: '' r))"

text \<open>Grouping by publisher keeps the order of each publisher's sequences.\<close>

fun group_seqs :: "EventMetadata list \<Rightarrow> (PublisherId, u64 list) hmap \<Rightarrow> (PublisherId, u64 list) hmap" where
  "group_seqs [] m = m"
| "group_seqs (md # mds) m =
     group_seqs mds (hm_insert (md_publisher_id md)
       ((case hm_get m (md_publisher_id md) of Some l \<Rightarrow> l | None \<Rightarrow> []) @ [md_seq md]) m)"

fun track_groups :: "(PublisherId, u64 list) hmap \<Rightarrow> (PublisherId, PublisherSeqState) hmap
    \<Rightarrow> (PublisherId, PublisherSeqState) hmap \<times> batch_op list" where
  "track_groups [] sts = (sts, [])"
| "track_groups ((p, seqs) # gs) sts =
     (let state = store_seqs seqs (state_or_default sts p);
          (sts', rest) = track_groups gs (hm_insert p state sts)
      in (sts', committed_op p state # rest))"

definition store_batch :: "'d fjall_ops \<Rightarrow> json_codec \<Rightarrow> (string \<times> bytes \<times> EventMetadata) list
    \<Rightarrow> 'd FjallBackend \<Rightarrow> 'd FjallBackend \<times> unit result" where
  "store_batch ops js events b =
     (if events = [] then (b, Ok ())
      else let batch = concat (map (\<lambda>(key, payload, md). event_batch js key payload md) events);
               by_publisher = group_seqs (map (snd \<circ> snd) events) [];
               (sts, metas) = track_groups by_publisher (fb_publisher_states b);
               (d, r) = kv_commit ops (fb_db b) (batch @ metas)
           in (b\<lparr>fb_publisher_states := sts, fb_db := d\<rparr>, store_err ''batch commit failed: '' r))"

definition publisher_watermarks :: "'d FjallBackend \<Rightarrow> (PublisherId, PublisherWatermark) hmap" where
  "publisher_watermarks b = map (\<lambda>(p, st). (p, watermark_of st)) (fb_publisher_states b)"

section \<open>Querying\<close>

definition stored_event :: "EventMetadata \<Rightarrow> bytes \<Rightarrow> StoredEvent" where
  "stored_event meta payload = \<lparr>se_key = md_key_expr meta, se_payload = payload, se_metadata = meta\<rparr>"

definition reached :: "nat option \<Rightarrow> 'a list \<Rightarrow> bool" where
  "reached limit results = (case limit of Some n \<Rightarrow> length results \<ge> n | None \<Rightarrow> False)"

definition le_opt :: "'a::linorder \<Rightarrow> 'a option \<Rightarrow> bool" where
  "le_opt x y = (case y of Some v \<Rightarrow> x \<le> v | None \<Rightarrow> False)"

definition ge_opt :: "'a::linorder \<Rightarrow> 'a option \<Rightarrow> bool" where
  "ge_opt x y = (case y of Some v \<Rightarrow> x \<ge> v | None \<Rightarrow> False)"

fun query_loop :: "json_codec \<Rightarrow> QueryFilters \<Rightarrow> (bytes \<times> bytes) scan \<Rightarrow> StoredEvent list
    \<Rightarrow> StoredEvent list result" where
  "query_loop js f [] results = Ok results"
| "query_loop js f (Inl e # _) results = Err (StoreError (''scan error: '' @ e))"
| "query_loop js f (Inr (k, v) # rest) results =
     (case decode_event_key k of
        None \<Rightarrow> query_loop js f rest results
      | Some (_, seq) \<Rightarrow>
          if qf_publisher_id f = None \<and> (le_opt seq (qf_after_seq f) \<or> ge_opt seq (qf_before_seq f))
          then query_loop js f rest results
          else (case decode_event_value js v of
                  Err e \<Rightarrow> Err e
                | Ok (meta, payload) \<Rightarrow>
                    if le_opt (md_timestamp meta) (qf_after_time f) \<or> ge_opt (md_timestamp meta) (qf_before_time f)
                    then query_loop js f rest results
                    else let results = results @ [stored_event meta payload]
                         in if reached (qf_limit f) results then Ok results
                            else query_loop js f rest results))"

text \<open>
  With a publisher filter the sequence bounds become a key range: the start is one past
  \<^verbatim>\<open>after_seq\<close> (wrapping), the inclusive end is \<^verbatim>\<open>before_seq\<close> minus one, saturating at zero.
\<close>

definition query :: "'d fjall_ops \<Rightarrow> json_codec \<Rightarrow> QueryFilters \<Rightarrow> 'd FjallBackend \<Rightarrow> StoredEvent list result" where
  "query ops js f b =
     query_loop js f
       (case qf_publisher_id f of
          Some pub_id \<Rightarrow>
            (let start_seq = (case qf_after_seq f of Some s \<Rightarrow> s + 1 | None \<Rightarrow> 0);
                 end_seq = (case qf_before_seq f of Some s \<Rightarrow> saturating_sub s 1 | None \<Rightarrow> u64_MAX)
             in kv_range ops (fb_db b) Events (encode_event_key pub_id start_seq) (encode_event_key pub_id end_seq))
        | None \<Rightarrow> kv_iter ops (fb_db b) Events)
       []"

fun replay_loop :: "'d fjall_ops \<Rightarrow> json_codec \<Rightarrow> 'd \<Rightarrow> ReplayFilters \<Rightarrow> (bytes \<times> bytes) scan
    \<Rightarrow> StoredEvent list \<Rightarrow> StoredEvent list result" where
  "replay_loop ops js d f [] results = Ok results"
| "replay_loop ops js d f (Inl e # _) results = Err (StoreError (''replay scan error: '' @ e))"
| "replay_loop ops js d f (Inr (k, ek) # rest) results =
     (case decode_replay_key k of
        None \<Rightarrow> replay_loop ops js d f rest results
      | Some (hlc, pub_id, _) \<Rightarrow>
          if le_opt hlc (rf_after_hlc f) then replay_loop ops js d f rest results
          else if ge_opt hlc (rf_before_hlc f) then Ok results
          else if \<not> matches_publisher f pub_id then replay_loop ops js d f rest results
          else (case kv_get ops d Events ek of
                  Err e \<Rightarrow> Err (StoreError (''replay lookup error: '' @ e))
                | Ok None \<Rightarrow> replay_loop ops js d f rest results
                | Ok (Some event_value) \<Rightarrow>
                    (case decode_event_value js event_value of
                       Err e \<Rightarrow> Err e
                     | Ok (meta, payload) \<Rightarrow>
                         if has_key_filter f \<and> \<not> matches_key f (md_key meta)
                         then replay_loop ops js d f rest results
                         else let results = results @ [stored_event meta payload]
                              in if reached (rf_limit f) results then Ok results
                                 else replay_loop ops js d f rest results)))"

definition query_replay :: "'d fjall_ops \<Rightarrow> json_codec \<Rightarrow> ReplayFilters \<Rightarrow> 'd FjallBackend
    \<Rightarrow> StoredEvent list result" where
  "query_replay ops js f b = replay_loop ops js (fb_db b) f (kv_iter ops (fb_db b) Replay) []"

fun by_key_loop :: "json_codec \<Rightarrow> string \<Rightarrow> nat option \<Rightarrow> (bytes \<times> bytes) scan \<Rightarrow> StoredEvent list
    \<Rightarrow> StoredEvent list result" where
  "by_key_loop js key limit [] results = Ok results"
| "by_key_loop js key limit (Inl e # _) results = Err (StoreError (''key query scan error: '' @ e))"
| "by_key_loop js key limit (Inr (_, v) # rest) results =
     rbind (decode_event_value js v) (\<lambda>(meta, payload).
       if md_key meta = Some key
       then let results = results @ [stored_event meta payload]
            in if reached limit results then Ok results else by_key_loop js key limit rest results
       else by_key_loop js key limit rest results)"

definition query_by_key :: "'d fjall_ops \<Rightarrow> json_codec \<Rightarrow> string \<Rightarrow> nat option \<Rightarrow> 'd FjallBackend
    \<Rightarrow> StoredEvent list result" where
  "query_by_key ops js key limit b = by_key_loop js key limit (kv_iter ops (fb_db b) Events) []"

fun latest_loop :: "json_codec \<Rightarrow> string list \<Rightarrow> (bytes \<times> bytes) scan \<Rightarrow> (string, StoredEvent) hmap
    \<Rightarrow> (string, StoredEvent) hmap result" where
  "latest_loop js keys [] latest = Ok latest"
| "latest_loop js keys (Inl e # _) latest = Err (StoreError (''query_latest scan error: '' @ e))"
| "latest_loop js keys (Inr (_, v) # rest) latest =
     rbind (decode_event_value js v) (\<lambda>(meta, payload).
       case md_key meta of
         None \<Rightarrow> latest_loop js keys rest latest
       | Some app_key \<Rightarrow>
           if app_key \<in> set keys
           then latest_loop js keys rest
                  (case hm_get latest app_key of
                     None \<Rightarrow> hm_insert app_key (stored_event meta payload) latest
                   | Some old \<Rightarrow>
                       if md_seq meta > md_seq (se_metadata old)
                       then hm_insert app_key (stored_event meta payload) latest else latest)
           else latest_loop js keys rest latest)"

definition query_latest_by_keys :: "'d fjall_ops \<Rightarrow> json_codec \<Rightarrow> string list \<Rightarrow> 'd FjallBackend
    \<Rightarrow> StoredEvent list result" where
  "query_latest_by_keys ops js keys b =
     rbind (latest_loop js keys (kv_iter ops (fb_db b) Events) []) (\<lambda>latest. Ok (map snd latest))"

section \<open>Garbage collection and compaction\<close>

fun gc_scan :: "json_codec \<Rightarrow> DateTime \<Rightarrow> (bytes \<times> bytes) scan
    \<Rightarrow> (bytes \<times> string \<times> HlcTimestamp option) list result" where
  "gc_scan js older_than [] = Ok []"
| "gc_scan js older_than (Inl e # _) = Err (StoreError (''scan error: '' @ e))"
| "gc_scan js older_than (Inr (k, v) # rest) =
     rbind (decode_event_value js v) (\<lambda>(meta, _).
     rbind (gc_scan js older_than rest) (\<lambda>tail.
     Ok (if md_timestamp meta < older_than
         then (k, md_key_expr meta, md_hlc_timestamp meta) # tail else tail)))"

definition remove_replay :: "HlcTimestamp option \<Rightarrow> bytes \<Rightarrow> batch_op list" where
  "remove_replay hlc_ts event_key =
     (case (hlc_ts, decode_event_key event_key) of
        (Some hlc, Some (pub_id, seq)) \<Rightarrow> [BRemove Replay (encode_replay_key hlc pub_id seq)]
      | _ \<Rightarrow> [])"

definition gc_ops :: "(bytes \<times> string \<times> HlcTimestamp option) list \<Rightarrow> batch_op list" where
  "gc_ops to_remove = concat (map (\<lambda>(event_key, key_expr, hlc_ts).
     [BRemove Events event_key, BRemove Keys (as_bytes key_expr)] @ remove_replay hlc_ts event_key) to_remove)"

definition gc :: "'d fjall_ops \<Rightarrow> json_codec \<Rightarrow> DateTime \<Rightarrow> 'd FjallBackend \<Rightarrow> 'd FjallBackend \<times> nat result" where
  "gc ops js older_than b =
     (case gc_scan js older_than (kv_iter ops (fb_db b) Events) of
        Err e \<Rightarrow> (b, Err e)
      | Ok to_remove \<Rightarrow>
          (let (d, r) = kv_commit ops (fb_db b) (gc_ops to_remove)
           in (b\<lparr>fb_db := d\<rparr>, rbind (store_err ''gc batch commit failed: '' r) (\<lambda>_. Ok (length to_remove)))))"

text \<open>
  Both compactions collect the entries with their group (key expression, or application key) and the
  highest-sequence entry per group; an equal sequence does not replace the first one found.
\<close>

definition newer :: "string \<Rightarrow> bytes \<Rightarrow> u64 \<Rightarrow> (string, bytes \<times> u64) hmap \<Rightarrow> (string, bytes \<times> u64) hmap" where
  "newer g event_key seq latest =
     (case hm_get latest g of
        None \<Rightarrow> hm_insert g (event_key, seq) latest
      | Some (_, s) \<Rightarrow> if seq > s then hm_insert g (event_key, seq) latest else latest)"

fun compact_scan :: "json_codec \<Rightarrow> string \<Rightarrow> (EventMetadata \<Rightarrow> string option) \<Rightarrow> (bytes \<times> bytes) scan
    \<Rightarrow> (string, bytes \<times> u64) hmap \<Rightarrow> (bytes \<times> string) list
    \<Rightarrow> ((string, bytes \<times> u64) hmap \<times> (bytes \<times> string) list) result" where
  "compact_scan js msg grp [] latest all = Ok (latest, all)"
| "compact_scan js msg grp (Inl e # _) latest all = Err (StoreError (msg @ e))"
| "compact_scan js msg grp (Inr (k, v) # rest) latest all =
     (case decode_event_key k of
        None \<Rightarrow> compact_scan js msg grp rest latest all
      | Some (_, seq) \<Rightarrow>
          rbind (decode_event_value js v) (\<lambda>(meta, _).
            case grp meta of
              None \<Rightarrow> compact_scan js msg grp rest latest all
            | Some g \<Rightarrow> compact_scan js msg grp rest (newer g k seq latest) (all @ [(k, g)])))"

fun compact_plan :: "(string, bytes \<times> u64) hmap \<Rightarrow> (bytes \<times> string) list \<Rightarrow> batch_op list \<times> nat \<times> nat" where
  "compact_plan latest [] = ([], 0, 0)"
| "compact_plan latest ((k, g) # rest) =
     (case (compact_plan latest rest, hm_get latest g) of
        ((ops, removed, retained), Some (latest_key, _)) \<Rightarrow>
          if k \<noteq> latest_key then (BRemove Events k # ops, removed + 1, retained)
          else (ops, removed, retained + 1)
      | (r, None) \<Rightarrow> r)"

definition compact :: "'d fjall_ops \<Rightarrow> json_codec \<Rightarrow> 'd FjallBackend \<Rightarrow> 'd FjallBackend \<times> CompactionStats result" where
  "compact ops js b =
     (case compact_scan js ''compact scan error: '' (\<lambda>m. Some (md_key_expr m)) (kv_iter ops (fb_db b) Events) [] [] of
        Err e \<Rightarrow> (b, Err e)
      | Ok (latest, all) \<Rightarrow>
          (let (bops, removed, retained) = compact_plan latest all;
               (d, r) = kv_commit ops (fb_db b) bops
           in (b\<lparr>fb_db := d\<rparr>, rbind (store_err ''compact batch commit failed: '' r)
                (\<lambda>_. Ok \<lparr>cs_removed = removed, cs_retained = retained\<rparr>))))"

fun compact_keyed_plan :: "'d fjall_ops \<Rightarrow> json_codec \<Rightarrow> 'd \<Rightarrow> (string, bytes \<times> u64) hmap
    \<Rightarrow> (bytes \<times> string) list \<Rightarrow> (batch_op list \<times> nat \<times> nat) result" where
  "compact_keyed_plan ops js d latest [] = Ok ([], 0, 0)"
| "compact_keyed_plan ops js d latest ((k, g) # rest) =
     (case hm_get latest g of
        None \<Rightarrow> compact_keyed_plan ops js d latest rest
      | Some (latest_key, _) \<Rightarrow>
          if k \<noteq> latest_key
          then rbind (store_err ''compact_keyed lookup error: '' (kv_get ops d Events k)) (\<lambda>value.
               rbind (case value of
                        None \<Rightarrow> Ok []
                      | Some v \<Rightarrow> rbind (decode_event_value js v) (\<lambda>(meta, _).
                                   Ok (remove_replay (md_hlc_timestamp meta) k))) (\<lambda>rops.
               rbind (compact_keyed_plan ops js d latest rest) (\<lambda>(bops, removed, retained).
               Ok (rops @ [BRemove Events k, BRemove Keys k] @ bops, removed + 1, retained))))
          else rbind (compact_keyed_plan ops js d latest rest) (\<lambda>(bops, removed, retained).
               Ok (bops, removed, retained + 1)))"

definition compact_keyed :: "'d fjall_ops \<Rightarrow> json_codec \<Rightarrow> 'd FjallBackend
    \<Rightarrow> 'd FjallBackend \<times> CompactionStats result" where
  "compact_keyed ops js b =
     (case rbind (compact_scan js ''compact_keyed scan error: '' md_key (kv_iter ops (fb_db b) Events) [] [])
             (\<lambda>(latest, all). compact_keyed_plan ops js (fb_db b) latest all) of
        Err e \<Rightarrow> (b, Err e)
      | Ok (bops, removed, retained) \<Rightarrow>
          (let (d, r) = kv_commit ops (fb_db b) bops
           in (b\<lparr>fb_db := d\<rparr>, rbind (store_err ''compact_keyed batch commit failed: '' r)
                (\<lambda>_. Ok \<lparr>cs_removed = removed, cs_retained = retained\<rparr>))))"

section \<open>Consumer-group offsets\<close>

fun offset_batch :: "'d fjall_ops \<Rightarrow> 'd \<Rightarrow> OffsetCommit \<Rightarrow> (PublisherId, u64) hmap \<Rightarrow> batch_op list result" where
  "offset_batch ops d commit [] = Ok []"
| "offset_batch ops d commit ((pub_id, seq) # rest) =
     (let key = offset_key (oc_group_id commit) pub_id
      in case kv_get ops d Offsets key of
           Err e \<Rightarrow> Err (StoreError (''offset read failed: '' @ e))
         | Ok existing \<Rightarrow>
             (case Option.bind existing decode_offset_value of
                Some (_, stored_gen) \<Rightarrow>
                  if oc_generation commit < stored_gen
                  then Err (StaleFencedCommit (oc_group_id commit) (oc_generation commit) stored_gen)
                  else rbind (offset_batch ops d commit rest) (\<lambda>bs.
                       Ok (BInsert Offsets key
                             (encode_offset_value seq (oc_generation commit) (oc_timestamp commit)) # bs))
              | None \<Rightarrow> rbind (offset_batch ops d commit rest) (\<lambda>bs.
                       Ok (BInsert Offsets key
                             (encode_offset_value seq (oc_generation commit) (oc_timestamp commit)) # bs))))"

definition commit_offsets :: "'d fjall_ops \<Rightarrow> OffsetCommit \<Rightarrow> 'd FjallBackend \<Rightarrow> 'd FjallBackend \<times> unit result" where
  "commit_offsets ops commit b =
     (case offset_batch ops (fb_db b) commit (oc_offsets commit) of
        Err e \<Rightarrow> (b, Err e)
      | Ok batch \<Rightarrow>
          (let (d, r) = kv_commit ops (fb_db b) batch
           in (b\<lparr>fb_db := d\<rparr>, store_err ''offset commit failed: '' r)))"

fun fetch_loop :: "(bytes \<times> bytes) scan \<Rightarrow> (PublisherId, u64) hmap \<Rightarrow> (PublisherId, u64) hmap result" where
  "fetch_loop [] m = Ok m"
| "fetch_loop (Inl e # _) m = Err (StoreError (''offset scan failed: '' @ e))"
| "fetch_loop (Inr (k, v) # rest) m =
     (if length k < 24 then fetch_loop rest m
      else case decode_offset_value v of
             Some (seq, _) \<Rightarrow> fetch_loop rest (hm_insert (id_from_bytes (take 16 (drop 8 k))) seq m)
           | None \<Rightarrow> fetch_loop rest m)"

definition fetch_offsets :: "'d fjall_ops \<Rightarrow> string \<Rightarrow> 'd FjallBackend \<Rightarrow> (PublisherId, u64) hmap result" where
  "fetch_offsets ops group_id b =
     fetch_loop (kv_prefix ops (fb_db b) Offsets (to_be_bytes (xxhash_group group_id))) []"

definition commit_keyed_offset :: "'d fjall_ops \<Rightarrow> KeyedOffsetCommit \<Rightarrow> 'd FjallBackend
    \<Rightarrow> 'd FjallBackend \<times> unit result" where
  "commit_keyed_offset ops commit b =
     (let key = keyed_offset_key (kc_group_id commit) (key_filter_hash (kc_key_filter commit))
      in case kv_get ops (fb_db b) Offsets key of
           Err e \<Rightarrow> (b, Err (StoreError (''keyed offset read failed: '' @ e)))
         | Ok existing \<Rightarrow>
             (case Option.bind existing decode_keyed_offset_value of
                Some (_, stored_gen) \<Rightarrow>
                  if kc_generation commit < stored_gen
                  then (b, Err (StaleFencedCommit (kc_group_id commit) (kc_generation commit) stored_gen))
                  else (let (d, r) = kv_insert ops (fb_db b) Offsets key
                              (encode_keyed_offset_value (kc_last_hlc commit) (kc_generation commit) (kc_timestamp commit))
                        in (b\<lparr>fb_db := d\<rparr>, store_err ''keyed offset commit failed: '' r))
              | None \<Rightarrow>
                  (let (d, r) = kv_insert ops (fb_db b) Offsets key
                              (encode_keyed_offset_value (kc_last_hlc commit) (kc_generation commit) (kc_timestamp commit))
                   in (b\<lparr>fb_db := d\<rparr>, store_err ''keyed offset commit failed: '' r))))"

definition fetch_keyed_offset :: "'d fjall_ops \<Rightarrow> string \<Rightarrow> u64 \<Rightarrow> 'd FjallBackend \<Rightarrow> HlcTimestamp option result" where
  "fetch_keyed_offset ops group_id filter_hash b =
     rbind (store_err ''keyed offset read failed: '' (kv_get ops (fb_db b) Offsets (keyed_offset_key group_id filter_hash)))
       (\<lambda>val. Ok (map_option fst (Option.bind val decode_keyed_offset_value)))"

end
