(* ===== verification/Backend_Store.thy ===== *)
theory Backend_Store
  imports Backend
begin

text \<open>
  Durability of \<^verbatim>\<open>FjallBackend\<close>: what \<^verbatim>\<open>store\<close>, \<^verbatim>\<open>store_batch\<close> and \<^verbatim>\<open>open\<close> do to the stored
  events and the watermarks.  The contract of the trait \<^verbatim>\<open>StorageBackend\<close> that the store's worker
  and the recovery path rely on is the locale \<open>storage_backend\<close>, interpreted by the fjall backend.
\<close>

section \<open>Abstraction\<close>

definition stored_seqs :: "view \<Rightarrow> PublisherId \<Rightarrow> u64 set" where
  "stored_seqs w p = {s. w Events (encode_event_key p s) \<noteq> None}"

text \<open>The in-memory states describe the sets \<open>T\<close>.\<close>

definition states_track :: "(PublisherId \<Rightarrow> u64 set) \<Rightarrow> (PublisherId, PublisherSeqState) hmap \<Rightarrow> bool" where
  "states_track T sts \<longleftrightarrow> hm_wf sts
     \<and> (\<forall>p. tracks (T p) (state_or_default sts p) \<and> (hm_get sts p = None \<longleftrightarrow> T p = {}))"

definition backend_inv :: "('d \<Rightarrow> view) \<Rightarrow> 'd FjallBackend \<Rightarrow> bool" where
  "backend_inv vw b \<longleftrightarrow>
     (\<forall>k v. vw (fb_db b) Events k = Some v \<longrightarrow> length k = 24)
     \<and> states_track (stored_seqs (vw (fb_db b))) (fb_publisher_states b)"

definition event_seqs :: "(string \<times> bytes \<times> EventMetadata) list \<Rightarrow> PublisherId \<Rightarrow> u64 set" where
  "event_seqs evs p = set (map md_seq (filter (\<lambda>md. md_publisher_id md = p) (map (snd \<circ> snd) evs)))"

text \<open>The primary index after one event.\<close>

definition put_event :: "json_codec \<Rightarrow> string \<times> bytes \<times> EventMetadata \<Rightarrow> (bytes \<rightharpoonup> bytes) \<Rightarrow> bytes \<rightharpoonup> bytes" where
  "put_event js ev m = m(encode_event_key (md_publisher_id (snd (snd ev))) (md_seq (snd (snd ev)))
      \<mapsto> encode_event_value js (snd (snd ev)) (fst (snd ev)))"

text \<open>The commands a store worker issues, run until the first failure.\<close>

datatype store_cmd = Store string bytes EventMetadata | StoreBatch "(string \<times> bytes \<times> EventMetadata) list"

fun run_writes :: "(string \<Rightarrow> bytes \<Rightarrow> EventMetadata \<Rightarrow> 'b \<Rightarrow> 'b \<times> unit result)
    \<Rightarrow> ((string \<times> bytes \<times> EventMetadata) list \<Rightarrow> 'b \<Rightarrow> 'b \<times> unit result) \<Rightarrow> store_cmd list \<Rightarrow> 'b \<Rightarrow> 'b option" where
  "run_writes st sb [] b = Some b"
| "run_writes st sb (Store k e md # ws) b =
     (case st k e md b of (b', Ok _) \<Rightarrow> run_writes st sb ws b' | (_, Err _) \<Rightarrow> None)"
| "run_writes st sb (StoreBatch evs # ws) b =
     (case sb evs b of (b', Ok _) \<Rightarrow> run_writes st sb ws b' | (_, Err _) \<Rightarrow> None)"

fun write_events :: "store_cmd list \<Rightarrow> (string \<times> bytes \<times> EventMetadata) list" where
  "write_events [] = []"
| "write_events (Store k e md # ws) = (k, e, md) # write_events ws"
| "write_events (StoreBatch evs # ws) = evs @ write_events ws"

section \<open>The interface\<close>

lemma event_seqs_append: "event_seqs (xs @ ys) = (\<lambda>p. event_seqs xs p \<union> event_seqs ys p)"
  by (simp add: event_seqs_def fun_eq_iff image_Un)

lemma event_seqs_Cons: "event_seqs (x # xs) = (\<lambda>p. event_seqs [x] p \<union> event_seqs xs p)"
  using event_seqs_append[of "[x]" xs] by simp

locale storage_backend =
  fixes store_op :: "string \<Rightarrow> bytes \<Rightarrow> EventMetadata \<Rightarrow> 'b \<Rightarrow> 'b \<times> unit result"
    and batch_op :: "(string \<times> bytes \<times> EventMetadata) list \<Rightarrow> 'b \<Rightarrow> 'b \<times> unit result"
    and watermarks :: "'b \<Rightarrow> (PublisherId, PublisherWatermark) hmap"
    and held :: "'b \<Rightarrow> PublisherId \<Rightarrow> u64 set"
    and inv :: "'b \<Rightarrow> bool"
  assumes store_law: "inv b \<Longrightarrow> store_op k e md b = (b', Ok ()) \<Longrightarrow>
      inv b' \<and> held b' = (\<lambda>p. held b p \<union> event_seqs [(k, e, md)] p)"
    and batch_law: "inv b \<Longrightarrow> batch_op evs b = (b', Ok ()) \<Longrightarrow>
      inv b' \<and> held b' = (\<lambda>p. held b p \<union> event_seqs evs p)"
    and watermark_law: "inv b \<Longrightarrow>
      (case hm_get (watermarks b) p of None \<Rightarrow> False | Some pw \<Rightarrow> is_durable pw s)
        \<longleftrightarrow> s \<in> held b p \<and> {1..s} \<subseteq> held b p"
begin

lemma run_writes_held:
  "inv b \<Longrightarrow> run_writes store_op batch_op ws b = Some b' \<Longrightarrow>
   inv b' \<and> held b' = (\<lambda>p. held b p \<union> event_seqs (write_events ws) p)"
proof (induction ws arbitrary: b)
  case Nil
  then show ?case by (simp add: event_seqs_def)
next
  case (Cons w ws)
  show ?case
  proof (cases w)
    case (Store k e md)
    then obtain b1 where b1: "store_op k e md b = (b1, Ok ())" and rest: "run_writes store_op batch_op ws b1 = Some b'"
      using Cons.prems(2) by (auto split: prod.splits sum.splits)
    from Cons.IH[OF _ rest] store_law[OF Cons.prems(1) b1] event_seqs_Cons[of "(k, e, md)" "write_events ws"]
    show ?thesis by (simp add: Store Un_assoc)
  next
    case (StoreBatch evs)
    then obtain b1 where b1: "batch_op evs b = (b1, Ok ())" and rest: "run_writes store_op batch_op ws b1 = Some b'"
      using Cons.prems(2) by (auto split: prod.splits sum.splits)
    from Cons.IH[OF _ rest] batch_law[OF Cons.prems(1) b1] event_seqs_append[of evs "write_events ws"]
    show ?thesis by (simp add: StoreBatch Un_assoc)
  qed
qed

lemma run_writes_durable:
  assumes "inv b" and "run_writes store_op batch_op ws b = Some b'"
  shows "cw_is_durable \<lparr>cw_partition = part, cw_publishers = watermarks b', cw_timestamp = t, cw_epoch = ep\<rparr> p s
    \<longleftrightarrow> s \<in> held b p \<union> event_seqs (write_events ws) p \<and> {1..s} \<subseteq> held b p \<union> event_seqs (write_events ws) p"
  using run_writes_held[OF assms] watermark_law[of b' s p] by (simp add: cw_is_durable_def)

end

section \<open>The fjall backend\<close>

lemma event_batch_events:
  "fold apply_op (event_batch js key ev md) w Events = put_event js (key, ev, md) (w Events)"
  by (simp add: event_batch_def Let_def put_event_def split: option.splits)

lemma committed_op_events [simp]: "apply_op (committed_op p st) w Events = w Events"
  by (simp add: committed_op_def)

lemma state_or_default_insert [simp]:
  "state_or_default (hm_insert p st sts) p' = (if p' = p then st else state_or_default sts p')"
  by (simp add: state_or_default_def)

lemma states_track_update:
  assumes "states_track T sts" and "tracks (T' p) st" and "T' p \<noteq> {}" and "\<And>p'. p' \<noteq> p \<Longrightarrow> T' p' = T p'"
  shows "states_track T' (hm_insert p st sts)"
  using assms by (auto simp: states_track_def)

lemma store_inv:
  assumes ok: "fjall_ok ops vw" and inv: "backend_inv vw b" and st: "store ops js key ev md b = (b', Ok ())"
  shows "backend_inv vw b' \<and>
    stored_seqs (vw (fb_db b')) = (\<lambda>p. stored_seqs (vw (fb_db b)) p \<union> event_seqs [(key, ev, md)] p)
    \<and> vw (fb_db b') Events = put_event js (key, ev, md) (vw (fb_db b) Events)"
proof -
  let ?p = "md_publisher_id md" and ?s = "md_seq md" and ?w = "vw (fb_db b)"
  let ?state = "store_seq ?s (state_or_default (fb_publisher_states b) ?p)"
  obtain d where d: "kv_commit ops (fb_db b) (event_batch js key ev md @ [committed_op ?p ?state]) = (d, Ok ())"
    and b': "b' = b\<lparr>fb_publisher_states := hm_insert ?p ?state (fb_publisher_states b), fb_db := d\<rparr>"
    using st by (auto simp: store_def store_err_def Let_def split: prod.splits sum.splits)
  have ev: "vw d Events = put_event js (key, ev, md) (?w Events)"
    using fjall_commit[OF ok d] by (simp add: event_batch_events)
  have ss: "stored_seqs (vw d) = (\<lambda>p. stored_seqs ?w p \<union> event_seqs [(key, ev, md)] p)"
    using ev by (auto simp: fun_eq_iff event_seqs_def stored_seqs_def put_event_def)
  have one: "event_seqs [(key, ev, md)] p = (if p = ?p then {?s} else {})" for p
    by (auto simp: event_seqs_def)
  have "states_track (stored_seqs (vw d)) (hm_insert ?p ?state (fb_publisher_states b))"
    using inv store_seq_tracks[of "stored_seqs ?w ?p" _ ?s]
    by (intro states_track_update[of "stored_seqs ?w"]) (auto simp: backend_inv_def states_track_def ss one)
  moreover have "\<forall>k v. vw d Events k = Some v \<longrightarrow> length k = 24"
    using inv ev by (auto simp: backend_inv_def put_event_def split: if_splits)
  ultimately show ?thesis using b' ev ss by (simp add: backend_inv_def)
qed

lemma group_seqs_get:
  "hm_get (group_seqs mds m) p =
     (let l = map md_seq (filter (\<lambda>md. md_publisher_id md = p) mds)
      in if l = [] then hm_get m p else Some ((case hm_get m p of Some k \<Rightarrow> k | None \<Rightarrow> []) @ l))"
  by (induction mds arbitrary: m) (auto simp: Let_def split: option.splits if_splits)

lemma group_seqs_wf: "hm_wf m \<Longrightarrow> hm_wf (group_seqs mds m)"
  by (induction mds arbitrary: m) auto

lemma track_groups_get:
  "hm_wf gs \<Longrightarrow> hm_get (fst (track_groups gs sts)) p =
     (case hm_get gs p of None \<Rightarrow> hm_get sts p | Some l \<Rightarrow> Some (store_seqs l (state_or_default sts p)))"
proof (induction gs arbitrary: sts)
  case Nil
  then show ?case by simp
next
  case (Cons g gs)
  obtain q l where g: "g = (q, l)" by (cases g)
  have "hm_get gs q = None" using Cons.prems g by (simp add: map_of_eq_None_iff)
  then show ?case using Cons g by (auto simp: Let_def split_beta split: option.splits)
qed

lemma track_groups_wf: "hm_wf sts \<Longrightarrow> hm_wf (fst (track_groups gs sts))"
  by (induction gs sts rule: track_groups.induct) (auto simp: Let_def split_beta)

lemma track_groups_ops: "fold apply_op (snd (track_groups gs sts)) w Events = w Events"
  by (induction gs sts arbitrary: w rule: track_groups.induct) (auto simp: Let_def split_beta)

lemma batch_events:
  "fold apply_op (concat (map (\<lambda>(key, payload, md). event_batch js key payload md) evs)) w Events =
     fold (put_event js) evs (w Events)"
  by (induction evs arbitrary: w) (auto simp: event_batch_events)

lemma fold_stored:
  "fold (put_event js) evs m (encode_event_key p s) \<noteq> None
     \<longleftrightarrow> m (encode_event_key p s) \<noteq> None \<or> s \<in> event_seqs evs p"
proof (induction evs arbitrary: m)
  case Nil
  then show ?case by (simp add: event_seqs_def)
next
  case (Cons x evs)
  have "put_event js x m (encode_event_key p s) \<noteq> None
      \<longleftrightarrow> m (encode_event_key p s) \<noteq> None \<or> s \<in> event_seqs [x] p"
    by (auto simp: put_event_def event_seqs_def)
  then show ?case using Cons[of "put_event js x m"] event_seqs_Cons[of x evs] by simp
qed

lemma fold_keys24:
  "\<forall>k. m k \<noteq> None \<longrightarrow> length k = 24 \<Longrightarrow> fold (put_event js) evs m k \<noteq> None \<Longrightarrow> length k = 24"
proof (induction evs arbitrary: m)
  case Nil
  then show ?case by simp
next
  case (Cons x evs)
  have "\<forall>k. put_event js x m k \<noteq> None \<longrightarrow> length k = 24"
    using Cons.prems(1) by (simp add: put_event_def)
  then show ?case using Cons.IH[of "put_event js x m"] Cons.prems(2) by simp
qed

lemma store_batch_inv:
  assumes ok: "fjall_ok ops vw" and inv: "backend_inv vw b" and st: "store_batch ops js evs b = (b', Ok ())"
  shows "backend_inv vw b' \<and>
    stored_seqs (vw (fb_db b')) = (\<lambda>p. stored_seqs (vw (fb_db b)) p \<union> event_seqs evs p)"
proof (cases "evs = []")
  case True
  with st inv show ?thesis by (simp add: store_batch_def event_seqs_def)
next
  case False
  let ?w = "vw (fb_db b)" and ?sts = "fb_publisher_states b"
  let ?gs = "group_seqs (map (snd \<circ> snd) evs) []"
  let ?ops = "concat (map (\<lambda>(key, payload, md). event_batch js key payload md) evs) @ snd (track_groups ?gs ?sts)"
  obtain d where d: "kv_commit ops (fb_db b) ?ops = (d, Ok ())"
    and b': "b' = b\<lparr>fb_publisher_states := fst (track_groups ?gs ?sts), fb_db := d\<rparr>"
    using st False by (auto simp: store_batch_def store_err_def Let_def split: prod.splits sum.splits)
  have ev: "vw d Events = fold (put_event js) evs (?w Events)"
    using fjall_commit[OF ok d] by (simp add: track_groups_ops batch_events)
  have ss: "stored_seqs (vw d) = (\<lambda>p. stored_seqs ?w p \<union> event_seqs evs p)"
    using fold_stored[of js evs "?w Events"] ev by (auto simp: fun_eq_iff stored_seqs_def)
  have gs: "hm_get ?gs p = (if event_seqs evs p = {} then None
      else Some (map md_seq (filter (\<lambda>md. md_publisher_id md = p) (map (snd \<circ> snd) evs))))" for p
    by (simp add: group_seqs_get Let_def event_seqs_def filter_empty_conv)
  have "states_track (stored_seqs (vw d)) (fst (track_groups ?gs ?sts))"
    unfolding states_track_def
  proof (intro conjI allI)
    show "hm_wf (fst (track_groups ?gs ?sts))"
      using inv track_groups_wf by (simp add: backend_inv_def states_track_def)
  next
    fix p
    let ?l = "map md_seq (filter (\<lambda>md. md_publisher_id md = p) (map (snd \<circ> snd) evs))"
    have get: "hm_get (fst (track_groups ?gs ?sts)) p =
        (if event_seqs evs p = {} then hm_get ?sts p else Some (store_seqs ?l (state_or_default ?sts p)))"
      using track_groups_get[OF group_seqs_wf[of "[]"], of "map (snd \<circ> snd) evs" ?sts p] gs[of p] by simp
    have tr: "tracks (stored_seqs ?w p) (state_or_default ?sts p)" "hm_get ?sts p = None \<longleftrightarrow> stored_seqs ?w p = {}"
      using inv by (auto simp: backend_inv_def states_track_def)
    have l: "set ?l = event_seqs evs p" by (simp add: event_seqs_def)
    show "tracks (stored_seqs (vw d) p) (state_or_default (fst (track_groups ?gs ?sts)) p)"
    proof (cases "event_seqs evs p = {}")
      case True
      then show ?thesis using tr get ss by (simp add: state_or_default_def)
    next
      case False
      then have "?l \<noteq> []" using l by force
      from store_seqs_tracks[OF tr(1) this] show ?thesis
        using False get ss l by (simp add: state_or_default_def Un_commute)
    qed
    show "hm_get (fst (track_groups ?gs ?sts)) p = None \<longleftrightarrow> stored_seqs (vw d) p = {}"
      using get tr ss by simp
  qed
  moreover have "\<forall>k v. vw d Events k = Some v \<longrightarrow> length k = 24"
    using inv ev fold_keys24[of "?w Events" js evs] by (auto simp: backend_inv_def)
  ultimately show ?thesis using b' ss by (simp add: backend_inv_def)
qed

lemma publisher_watermarks_get:
  "hm_get (publisher_watermarks b) p = map_option watermark_of (hm_get (fb_publisher_states b) p)"
  by (simp add: publisher_watermarks_def map_of_map)

lemma backend_watermark:
  assumes "backend_inv vw b"
  shows "(case hm_get (publisher_watermarks b) p of None \<Rightarrow> False | Some pw \<Rightarrow> is_durable pw s)
    \<longleftrightarrow> s \<in> stored_seqs (vw (fb_db b)) p \<and> {1..s} \<subseteq> stored_seqs (vw (fb_db b)) p"
proof -
  let ?S = "stored_seqs (vw (fb_db b)) p"
  have tr: "tracks ?S (state_or_default (fb_publisher_states b) p)"
    "hm_get (fb_publisher_states b) p = None \<longleftrightarrow> ?S = {}"
    using assms by (auto simp: backend_inv_def states_track_def)
  then show ?thesis
    using tracks_durable[of ?S _ s]
    by (cases "hm_get (fb_publisher_states b) p") (auto simp: publisher_watermarks_get state_or_default_def)
qed

interpretation fb: storage_backend "store ops js" "store_batch ops js" publisher_watermarks
    "\<lambda>b. stored_seqs (vw (fb_db b))" "\<lambda>b. fjall_ok ops vw \<and> backend_inv vw b" for ops js vw
proof unfold_locales
  fix b k e md b'
  assume "fjall_ok ops vw \<and> backend_inv vw b" "store ops js k e md b = (b', Ok ())"
  then show "(fjall_ok ops vw \<and> backend_inv vw b') \<and> stored_seqs (vw (fb_db b'))
      = (\<lambda>p. stored_seqs (vw (fb_db b)) p \<union> event_seqs [(k, e, md)] p)"
    using store_inv by blast
next
  fix b evs b'
  assume "fjall_ok ops vw \<and> backend_inv vw b" "store_batch ops js evs b = (b', Ok ())"
  then show "(fjall_ok ops vw \<and> backend_inv vw b') \<and> stored_seqs (vw (fb_db b'))
      = (\<lambda>p. stored_seqs (vw (fb_db b)) p \<union> event_seqs evs p)"
    using store_batch_inv by blast
next
  fix b p s
  assume "fjall_ok ops vw \<and> backend_inv vw b"
  then show "(case hm_get (publisher_watermarks b) p of None \<Rightarrow> False | Some pw \<Rightarrow> is_durable pw s)
    \<longleftrightarrow> s \<in> stored_seqs (vw (fb_db b)) p \<and> {1..s} \<subseteq> stored_seqs (vw (fb_db b)) p"
    using backend_watermark by blast
qed

section \<open>Reopening\<close>

definition scanned_seqs :: "PublisherId \<Rightarrow> (bytes \<times> bytes) list \<Rightarrow> u64 list" where
  "scanned_seqs p es = map snd (filter (\<lambda>ps. fst ps = p) (List.map_filter (decode_event_key \<circ> fst) es))"

lemma rebuild_states_get:
  "hm_get (rebuild_states (map Inr es) sts) p =
     (if scanned_seqs p es = [] then hm_get sts p
      else Some (fold scan_seq (scanned_seqs p es) (state_or_default sts p)))"
proof (induction es arbitrary: sts)
  case Nil
  then show ?case by (simp add: scanned_seqs_def)
next
  case (Cons x es)
  obtain k v where x: "x = (k, v)" by (cases x)
  show ?case
  proof (cases "decode_event_key k")
    case None
    then show ?thesis using Cons x by (simp add: scanned_seqs_def)
  next
    case (Some ps)
    then obtain q s where "decode_event_key k = Some (q, s)" by (cases ps) auto
    then show ?thesis using Cons x by (simp add: scanned_seqs_def state_or_default_def)
  qed
qed

lemma scanned_seqs_set:
  assumes "finite (dom m)" and "\<forall>k v. m k = Some v \<longrightarrow> length k = 24"
  shows "set (scanned_seqs p (entries m)) = {s. m (encode_event_key p s) \<noteq> None}"
proof (intro set_eqI iffI)
  fix s assume "s \<in> set (scanned_seqs p (entries m))"
  then obtain k v where kv: "(k, v) \<in> set (entries m)" "decode_event_key k = Some (p, s)"
    by (auto simp: scanned_seqs_def List.map_filter_def)
  then have "m k = Some v" using entries_mem[OF assms(1)] by simp
  with kv assms(2) encode_decode_event_key[of k p s] show "s \<in> {s. m (encode_event_key p s) \<noteq> None}" by auto
next
  fix s assume "s \<in> {s. m (encode_event_key p s) \<noteq> None}"
  then obtain v where "(encode_event_key p s, v) \<in> set (entries m)" using entries_mem[OF assms(1)] by auto
  then show "s \<in> set (scanned_seqs p (entries m))"
    by (force simp: scanned_seqs_def List.map_filter_def image_iff)
qed

lemma scanned_seqs_sorted:
  assumes "sorted_wrt (<) (map fst es)" and "\<forall>kv \<in> set es. length (fst kv) = 24"
  shows "sorted_wrt (<) (scanned_seqs p es)"
  using assms
proof (induction es)
  case Nil
  then show ?case by (simp add: scanned_seqs_def)
next
  case (Cons x es)
  have IH: "sorted_wrt (<) (scanned_seqs p es)" using Cons by simp
  obtain q s where d: "decode_event_key (fst x) = Some (q, s)"
    using Cons.prems(2) by (simp add: decode_event_key_def)
  then have k: "fst x = encode_event_key q s"
    using Cons.prems(2) by (intro encode_decode_event_key[symmetric]) simp_all
  show ?case
  proof (cases "q = p")
    case False
    then show ?thesis using IH d by (simp add: scanned_seqs_def)
  next
    case True
    have "s < t" if t: "t \<in> set (scanned_seqs p es)" for t
    proof -
      obtain y where y: "y \<in> set es" "decode_event_key (fst y) = Some (p, t)"
        using t by (force simp: scanned_seqs_def List.map_filter_def)
      then have "fst y = encode_event_key p t"
        using Cons.prems(2) by (intro encode_decode_event_key[symmetric]) simp_all
      moreover have "fst x < fst y" using Cons.prems(1) y(1) by simp
      ultimately show ?thesis using k True event_key_less[of p s p t] by simp
    qed
    then show ?thesis using IH d True by (simp add: scanned_seqs_def)
  qed
qed

lemma open_states:
  assumes ok: "fjall_ok ops vw" and k24: "\<forall>k v. vw d Events k = Some v \<longrightarrow> length k = 24"
    and it: "kv_iter ops d Events = map Inr es" and op: "open_backend ops (Ok d) ks part = Ok b"
  shows "\<exists>ss. sorted_wrt (<) ss \<and> set ss = stored_seqs (vw d) p \<and> fb_db b = d \<and>
     hm_get (fb_publisher_states b) p = (if ss = [] then None else Some (reopen_seqs ss))"
proof -
  have fin: "finite (dom (vw d Events))" using fjall_finite[OF ok] .
  have es: "es = entries (vw d Events)"
    using fjall_iter[OF ok, of d Events] it
    by (auto simp: scan_of_def inj_map_eq_map map_eq_append_conv)
  let ?ss = "scanned_seqs p es"
  have b: "b = \<lparr>fb_db = d, fb_partition = part,
      fb_publisher_states = map (\<lambda>(p, st). (p, finish_scan st)) (rebuild_states (map Inr es) [])\<rparr>"
    using op it by (auto simp: open_backend_def store_err_def Let_def)
  have "hm_get (fb_publisher_states b) p = (if ?ss = [] then None else Some (reopen_seqs ?ss))"
    using b rebuild_states_get[of es "[]" p] by (simp add: map_of_map reopen_seqs_def state_or_default_def)
  moreover have "sorted_wrt (<) ?ss"
  proof (rule scanned_seqs_sorted)
    show "sorted_wrt (<) (map fst es)" using es entries_sorted by simp
    show "\<forall>kv \<in> set es. length (fst kv) = 24" using k24 es entries_mem[OF fin] by (metis prod.collapse)
  qed
  moreover have "set ?ss = stored_seqs (vw d) p"
    using scanned_seqs_set[OF fin k24] es by (simp add: stored_seqs_def)
  ultimately show ?thesis using b by auto
qed

section \<open>Properties\<close>

definition backend_empty :: "'d \<Rightarrow> u32 \<Rightarrow> 'd FjallBackend" where
  "backend_empty d part = \<lparr>fb_db = d, fb_partition = part, fb_publisher_states = []\<rparr>"

definition demo_md :: "PublisherId \<Rightarrow> u64 \<Rightarrow> EventMetadata" where
  "demo_md p s = \<lparr>md_seq = s, md_publisher_id = p, md_event_id = 0, md_timestamp = 0,
     md_key_expr = ''a'', md_key = None, md_hlc_timestamp = Some (Hlc 3 0)\<rparr>"

lemma mem_backend_inv: "backend_inv mem_view (backend_empty mem_empty part)"
  by (simp add: backend_inv_def backend_empty_def mem_view_def mem_empty_def states_track_def
      stored_seqs_def state_or_default_def tracks_def)

text \<open>
  C2. Durability watermark of the event store.  Start from a backend whose state agrees with its
  database and run any mix of single stores and batches that the storage engine accepts.  The commit
  watermark built from the result reports an event durable exactly when that event and every event of
  its publisher with a smaller positive sequence are in the database.
\<close>

theorem store_watermark_exact:
  assumes "fjall_ok ops vw" and "backend_inv vw b"
    and "run_writes (store ops js) (store_batch ops js) ws b = Some b'"
  shows "(cw_is_durable \<lparr>cw_partition = fb_partition b', cw_publishers = publisher_watermarks b',
             cw_timestamp = t, cw_epoch = ep\<rparr> p s
           \<longleftrightarrow> s \<in> stored_seqs (vw (fb_db b')) p \<and> {1..s} \<subseteq> stored_seqs (vw (fb_db b')) p)
     \<and> stored_seqs (vw (fb_db b')) p = stored_seqs (vw (fb_db b)) p \<union> event_seqs (write_events ws) p"
  using fb.run_writes_durable[of ops vw b js ws b' "fb_partition b'" t ep p s]
    fb.run_writes_held[of ops vw b js ws b'] assms by simp

theorem store_watermark_exact_witness:
  "\<exists>b'. run_writes (store mem_ops unary_json) (store_batch mem_ops unary_json)
       [Store ''a'' [7] (demo_md 1 0), StoreBatch [(''a'', [8], demo_md 1 3), (''a'', [9], demo_md 1 1)]]
       (backend_empty mem_empty 0) = Some b' \<and>
     cw_is_durable \<lparr>cw_partition = fb_partition b', cw_publishers = publisher_watermarks b',
        cw_timestamp = 0, cw_epoch = 0\<rparr> 1 1 \<and>
     \<not> cw_is_durable \<lparr>cw_partition = fb_partition b', cw_publishers = publisher_watermarks b',
        cw_timestamp = 0, cw_epoch = 0\<rparr> 1 3"
proof -
  let ?ws = "[Store ''a'' [7] (demo_md 1 0), StoreBatch [(''a'', [8], demo_md 1 3), (''a'', [9], demo_md 1 1)]]"
  have "run_writes (store mem_ops unary_json) (store_batch mem_ops unary_json) ?ws (backend_empty mem_empty 0) \<noteq> None"
    by code_simp
  then obtain b' where b': "run_writes (store mem_ops unary_json) (store_batch mem_ops unary_json) ?ws
      (backend_empty mem_empty 0) = Some b'" by blast
  note ex = store_watermark_exact[OF mem_fjall_ok mem_backend_inv b']
  have S: "stored_seqs (mem_view (fb_db b')) 1 = {0, 3, 1}"
    using ex[of 0 0 1 0] by (simp add: stored_seqs_def backend_empty_def mem_view_def mem_empty_def
        event_seqs_def demo_md_def)
  have "2 \<in> {1..3 :: u64}" "2 \<notin> {0, 3, 1 :: u64}" by simp_all
  then have "\<not> {1..3} \<subseteq> {0, 3, 1 :: u64}" by blast
  then show ?thesis
    using conjunct1[OF ex[of 0 0 1 1], unfolded S] conjunct1[OF ex[of 0 0 1 3], unfolded S] b'
    by (intro exI[of _ b'] conjI) simp_all
qed



text \<open>
  A commit that fails leaves the watermark ahead of the database: when the storage engine rejects
  the batch of the next event in order, the store returns an error and yet its watermark reports that
  event durable although it is not in the database.
\<close>

theorem failed_commit_reported_durable:
  assumes "backend_inv vw b" and "store ops js key ev md b = (b', Err e)"
    and "vw (fb_db b') = vw (fb_db b)"
    and "md_seq md \<notin> stored_seqs (vw (fb_db b)) (md_publisher_id md)"
    and "{1..md_seq md} \<subseteq> insert (md_seq md) (stored_seqs (vw (fb_db b)) (md_publisher_id md))"
  shows "cw_is_durable \<lparr>cw_partition = fb_partition b', cw_publishers = publisher_watermarks b',
            cw_timestamp = t, cw_epoch = ep\<rparr> (md_publisher_id md) (md_seq md)
     \<and> md_seq md \<notin> stored_seqs (vw (fb_db b')) (md_publisher_id md)"
proof -
  let ?p = "md_publisher_id md" and ?s = "md_seq md"
  let ?S = "stored_seqs (vw (fb_db b)) ?p"
  have "tracks ?S (state_or_default (fb_publisher_states b) ?p)"
    using assms(1) by (simp add: backend_inv_def states_track_def)
  note tr = store_seq_tracks[OF this, of ?s]
  have "hm_get (fb_publisher_states b') ?p = Some (store_seq ?s (state_or_default (fb_publisher_states b) ?p))"
    using assms(2) by (auto simp: store_def Let_def split: prod.splits)
  with tracks_durable[OF tr] assms(3-5) show ?thesis
    by (simp add: cw_is_durable_def publisher_watermarks_get)
qed

theorem failed_commit_reported_durable_witness:
  "cw_is_durable \<lparr>cw_partition = 0, cw_publishers = publisher_watermarks
        (fst (store mem_ops unary_json ''a'' [7] (demo_md 1 0) (backend_empty (mem_empty\<lparr>mem_failing := True\<rparr>) 0))),
        cw_timestamp = 0, cw_epoch = 0\<rparr> 1 0"
proof -
  let ?b = "backend_empty (mem_empty\<lparr>mem_failing := True\<rparr>) 0"
  have inv: "backend_inv mem_view ?b"
    by (simp add: backend_inv_def backend_empty_def mem_view_def mem_empty_def states_track_def
        stored_seqs_def state_or_default_def tracks_def)
  obtain b' e where st: "store mem_ops unary_json ''a'' [7] (demo_md 1 0) ?b = (b', Err e)"
    and d: "fb_db b' = fb_db ?b" and part: "fb_partition b' = 0"
    by (simp add: store_def mem_ops_def backend_empty_def mem_empty_def Let_def store_err_def)
  have none: "stored_seqs (mem_view (fb_db ?b)) p = {}" for p
    by (simp add: stored_seqs_def mem_view_def backend_empty_def mem_empty_def)
  have "md_seq (demo_md 1 0) = 0" "md_publisher_id (demo_md 1 0) = 1" by (simp_all add: demo_md_def)
  then show ?thesis
    using failed_commit_reported_durable[OF inv st, of 0 0] d none part st by simp
qed

end
