(* ===== verification/Backend_Query.thy ===== *)
theory Backend_Query
  imports Backend_Store
begin

text \<open>
  What the read operations of \<^verbatim>\<open>FjallBackend\<close> return.  Every read is a scan with a per-entry decision,
  a result limit and an early stop on the first error; \<open>scan_loop\<close> is that scheme, each loop of the
  source is an instance of it, and its soundness and totality are proved once.
\<close>

section \<open>Filtered scans\<close>

fun scan_loop :: "('a \<Rightarrow> 'e option result) \<Rightarrow> string \<Rightarrow> nat option \<Rightarrow> 'a scan \<Rightarrow> 'e list \<Rightarrow> 'e list result" where
  "scan_loop step msg limit [] results = Ok results"
| "scan_loop step msg limit (Inl e # _) results = Err (StoreError (msg @ e))"
| "scan_loop step msg limit (Inr x # rest) results =
     (case step x of
        Err e \<Rightarrow> Err e
      | Ok None \<Rightarrow> scan_loop step msg limit rest results
      | Ok (Some ev) \<Rightarrow>
          (let results = results @ [ev]
           in if reached limit results then Ok results else scan_loop step msg limit rest results))"

text \<open>
  The limit is tested after a result is added: a limit of zero still lets one result through.
\<close>

definition room :: "nat option \<Rightarrow> nat \<Rightarrow> 'e list \<Rightarrow> 'e list" where
  "room limit n ys = (case limit of None \<Rightarrow> ys | Some l \<Rightarrow> take (max 1 (l - n)) ys)"

definition upto :: "nat option \<Rightarrow> 'e list \<Rightarrow> 'e list" where
  "upto limit ys = room limit 0 ys"

lemma room_Nil [simp]: "room limit n [] = []"
  by (simp add: room_def split: option.splits)

lemma room_Cons:
  "room limit (length acc) (y # ys) =
     (if reached limit (acc @ [y]) then [y] else y # room limit (Suc (length acc)) ys)"
  by (auto simp: room_def reached_def take_Cons' max_def split: option.splits)

lemma scan_of_Cons_cases:
  assumes "scan_of xs (x # es)"
  obtains xs' where "xs = Inr x # xs'" "scan_of xs' es" | e post where "xs = Inl e # post"
proof -
  from assms consider "xs = Inr x # map Inr es"
    | pre e post where "prefix pre (x # es)" "xs = map Inr pre @ Inl e # post"
    by (auto simp: scan_of_def)
  then show thesis
  proof cases
    case 1
    then show thesis using that(1)[of "map Inr es"] by (simp add: scan_of_def)
  next
    case 2
    then show thesis
    proof (cases pre)
      case Nil
      then show thesis using 2 that(2) by simp
    next
      case (Cons y pre')
      then have "y = x" "prefix pre' es" "xs = Inr x # (map Inr pre' @ Inl e # post)" using 2 by simp_all
      then show thesis using that(1)[of "map Inr pre' @ Inl e # post"] unfolding scan_of_def by blast
    qed
  qed
qed

lemma scan_of_Inl [simp]: "scan_of (Inl e # post) es"
  by (auto simp: scan_of_def intro: exI[of _ "[]"])

lemma scan_of_Nil [simp]: "scan_of [] []"
  by (simp add: scan_of_def)

lemma scan_of_Inr:
  assumes "scan_of xs es"
  shows "scan_of (Inr x # xs) (x # es)"
proof -
  from assms consider "xs = map Inr es" | pre e post where "prefix pre es" "xs = map Inr pre @ Inl e # post"
    by (auto simp: scan_of_def)
  then show ?thesis
  proof cases
    case 1
    then show ?thesis by (simp add: scan_of_def)
  next
    case 2
    then have "prefix (x # pre) (x # es)" "Inr x # xs = map Inr (x # pre) @ Inl e # post" by simp_all
    then show ?thesis unfolding scan_of_def by blast
  qed
qed

lemma scan_loop_sound:
  assumes "scan_of xs es" and "\<forall>x \<in> set es. \<forall>y. step x = Ok y \<longrightarrow> y = g x"
    and "scan_loop step msg limit xs acc = Ok rs"
  shows "rs = acc @ room limit (length acc) (List.map_filter g es)"
  using assms
proof (induction es arbitrary: xs acc)
  case Nil
  then show ?case by (auto simp: scan_of_def)
next
  case (Cons x es)
  from Cons.prems(1) show ?case
  proof (cases rule: scan_of_Cons_cases)
    case (1 xs')
    then obtain y where y: "step x = Ok y" using Cons.prems(3) by (cases "step x") auto
    with Cons.prems(2) have g: "g x = y" by simp
    show ?thesis
    proof (cases y)
      case None
      then show ?thesis using Cons.IH[OF 1(2)] Cons.prems 1 y g by simp
    next
      case (Some ev)
      show ?thesis
      proof (cases "reached limit (acc @ [ev])")
        case True
        then show ?thesis using Cons.prems(3) 1 y g Some room_Cons[of limit acc ev] by simp
      next
        case False
        have "step x = Ok (Some ev)" using y Some by simp
        then have "scan_loop step msg limit xs' (acc @ [ev]) = Ok rs"
          using Cons.prems(3) 1(1) False by (simp add: Let_def)
        then have "rs = (acc @ [ev]) @ room limit (length (acc @ [ev])) (List.map_filter g es)"
          using Cons.IH[OF 1(2), of "acc @ [ev]"] Cons.prems(2) by simp
        then show ?thesis using False g Some room_Cons[of limit acc ev] by simp
      qed
    qed
  next
    case (2 e post)
    then show ?thesis using Cons.prems(3) by simp
  qed
qed

lemma scan_loop_total:
  "\<forall>x \<in> set es. \<exists>y. step x = Ok y \<Longrightarrow> \<exists>rs. scan_loop step msg limit (map Inr es) acc = Ok rs"
proof (induction es arbitrary: acc)
  case Nil
  then show ?case by simp
next
  case (Cons x es)
  then obtain y where "step x = Ok y" by auto
  with Cons show ?case by (cases y) (auto simp: Let_def)
qed

section \<open>Stored events\<close>

definition events_ok :: "json_codec \<Rightarrow> view \<Rightarrow> bool" where
  "events_ok js w \<longleftrightarrow> (\<forall>k v. w Events k = Some v \<longrightarrow>
     (\<exists>md pl. decode_event_value js v = Ok (md, pl) \<and> k = encode_event_key (md_publisher_id md) (md_seq md)))"

definition stored_events :: "json_codec \<Rightarrow> view \<Rightarrow> StoredEvent set" where
  "stored_events js w = {stored_event md pl | k v md pl. w Events k = Some v \<and> decode_event_value js v = Ok (md, pl)}"

definition event_pos :: "StoredEvent \<Rightarrow> PublisherId \<times> u64" where
  "event_pos ev = (md_publisher_id (se_metadata ev), md_seq (se_metadata ev))"

definition query_match :: "QueryFilters \<Rightarrow> StoredEvent \<Rightarrow> bool" where
  "query_match f ev =
     (let md = se_metadata ev
      in (case qf_publisher_id f of Some p \<Rightarrow> md_publisher_id md = p | None \<Rightarrow> True)
       \<and> (case qf_after_seq f of Some a \<Rightarrow> a < md_seq md | None \<Rightarrow> True)
       \<and> (case qf_before_seq f of Some b \<Rightarrow> md_seq md < b | None \<Rightarrow> True)
       \<and> (case qf_after_time f of Some a \<Rightarrow> a < md_timestamp md | None \<Rightarrow> True)
       \<and> (case qf_before_time f of Some b \<Rightarrow> md_timestamp md < b | None \<Rightarrow> True))"

definition query_step :: "json_codec \<Rightarrow> QueryFilters \<Rightarrow> bytes \<times> bytes \<Rightarrow> StoredEvent option result" where
  "query_step js f kv =
     (case decode_event_key (fst kv) of
        None \<Rightarrow> Ok None
      | Some (_, seq) \<Rightarrow>
          if qf_publisher_id f = None \<and> (le_opt seq (qf_after_seq f) \<or> ge_opt seq (qf_before_seq f))
          then Ok None
          else rbind (decode_event_value js (snd kv)) (\<lambda>(meta, payload).
            if le_opt (md_timestamp meta) (qf_after_time f) \<or> ge_opt (md_timestamp meta) (qf_before_time f)
            then Ok None else Ok (Some (stored_event meta payload))))"

lemma query_loop_scan:
  "query_loop js f xs acc = scan_loop (query_step js f) ''scan error: '' (qf_limit f) xs acc"
  by (induction js f xs acc rule: query_loop.induct)
    (auto simp: query_step_def Let_def split: option.splits sum.splits prod.splits)

text \<open>The pure decision on an entry of a well-formed primary index.\<close>

definition entry_event :: "json_codec \<Rightarrow> bytes \<times> bytes \<Rightarrow> StoredEvent option" where
  "entry_event js kv = (case decode_event_value js (snd kv) of Ok (md, pl) \<Rightarrow> Some (stored_event md pl) | Err _ \<Rightarrow> None)"

definition keep :: "('a \<Rightarrow> bool) \<Rightarrow> 'a option \<Rightarrow> 'a option" where
  "keep P x = (case x of Some y \<Rightarrow> if P y then Some y else None | None \<Rightarrow> None)"

definition events_list :: "json_codec \<Rightarrow> view \<Rightarrow> StoredEvent list" where
  "events_list js w = List.map_filter (entry_event js) (entries (w Events))"

lemma set_map_filter: "set (List.map_filter g xs) = {y. \<exists>x \<in> set xs. g x = Some y}"
  by (induction xs) (auto simp: List.map_filter_def split: option.splits)

lemma map_filter_keep: "List.map_filter (\<lambda>x. keep P (g x)) xs = filter P (List.map_filter g xs)"
  by (induction xs) (auto simp: List.map_filter_def keep_def split: option.splits)

lemma events_list_set:
  assumes "finite (dom (w Events))"
  shows "set (events_list js w) = stored_events js w"
proof -
  have "set (events_list js w) = {e. \<exists>k v. w Events k = Some v \<and> entry_event js (k, v) = Some e}"
    using entries_mem[OF assms] by (auto simp: events_list_def set_map_filter) 
  moreover have "entry_event js (k, v) = Some e \<longleftrightarrow>
      (\<exists>md pl. decode_event_value js v = Ok (md, pl) \<and> e = stored_event md pl)" for k v e
    by (auto simp: entry_event_def split: sum.splits)
  ultimately show ?thesis by (auto simp: stored_events_def)
qed

lemma events_list_sorted:
  assumes "events_ok js w" and "finite (dom (w Events))"
  shows "sorted_wrt (\<lambda>a b. event_pos a < event_pos b) (events_list js w)"
proof -
  have "sorted_wrt (\<lambda>a b. event_pos a < event_pos b) (List.map_filter (entry_event js) es)"
    if "sorted_wrt (<) (map fst es)" "\<forall>(k, v) \<in> set es. w Events k = Some v" for es
    using that
  proof (induction es)
    case Nil
    then show ?case by simp
  next
    case (Cons x es)
    have pos: "\<exists>md pl. entry_event js y = Some (stored_event md pl) \<and> fst y = encode_event_key (md_publisher_id md) (md_seq md)"
      if "y \<in> set (x # es)" for y
    proof -
      have "w Events (fst y) = Some (snd y)" using Cons.prems(2) that by (cases y) auto
      with assms(1) show ?thesis by (fastforce simp: events_ok_def entry_event_def)
    qed
    from pos[of x] obtain md pl where x: "entry_event js x = Some (stored_event md pl)"
      "fst x = encode_event_key (md_publisher_id md) (md_seq md)" by auto
    have "event_pos (stored_event md pl) < event_pos e" if e: "e \<in> set (List.map_filter (entry_event js) es)" for e
    proof -
      obtain y where y: "y \<in> set es" "entry_event js y = Some e"
        using e by (force simp: List.map_filter_def)
      with pos[of y] obtain md' pl' where m': "e = stored_event md' pl'"
        "fst y = encode_event_key (md_publisher_id md') (md_seq md')" by auto
      have "fst x < fst y" using Cons.prems(1) y(1) by simp
      then show ?thesis using x(2) m' event_key_less by (simp add: event_pos_def stored_event_def)
    qed
    then show ?case using Cons x(1) by simp
  qed
  then show ?thesis using entries_sorted entries_mem[OF assms(2)] by (auto simp: events_list_def)
qed

section \<open>Queries\<close>

text \<open>
  The two corner cases of the key-range path: an exclusive upper bound of zero and an exclusive lower
  bound of the largest sequence number.
\<close>

definition range_safe :: "QueryFilters \<Rightarrow> bool" where
  "range_safe f \<longleftrightarrow> (qf_publisher_id f \<noteq> None \<longrightarrow> qf_before_seq f \<noteq> Some 0 \<and> qf_after_seq f \<noteq> Some u64_MAX)"

definition start_seq :: "QueryFilters \<Rightarrow> u64" where
  "start_seq f = (case qf_after_seq f of Some s \<Rightarrow> s + 1 | None \<Rightarrow> 0)"

definition end_seq :: "QueryFilters \<Rightarrow> u64" where
  "end_seq f = (case qf_before_seq f of Some s \<Rightarrow> saturating_sub s 1 | None \<Rightarrow> u64_MAX)"

lemma in_key_range:
  "encode_event_key q a \<le> encode_event_key p s \<and> encode_event_key p s \<le> encode_event_key q b
     \<longleftrightarrow> p = q \<and> a \<le> s \<and> s \<le> b"
proof -
  have "encode_event_key p s \<le> encode_event_key p' s' \<longleftrightarrow> (p, s) \<le> (p', s')" for p s p' s'
    using event_key_less[of p s p' s'] encode_event_key_inj[of p s p' s']
    by (auto simp: order_le_less simp del: less_eq_prod_simp less_prod_simp)
  then show ?thesis by (auto simp: order_le_less dest: less_asym)
qed

lemma seq_range:
  assumes "range_safe f" and "qf_publisher_id f = Some q"
  shows "start_seq f \<le> s \<and> s \<le> end_seq f \<longleftrightarrow>
    (case qf_after_seq f of Some a \<Rightarrow> a < s | None \<Rightarrow> True) \<and> (case qf_before_seq f of Some b \<Rightarrow> s < b | None \<Rightarrow> True)"
proof -
  have "s \<le> saturating_sub b 1 \<longleftrightarrow> s < b" if "b \<noteq> 0" for b :: u64
  proof -
    have "0 < unat b" using that by (simp add: unat_gt_0)
    then show ?thesis by (simp add: word_le_nat_alt word_less_nat_alt) arith
  qed
  then show ?thesis
    using assms by (auto simp: range_safe_def start_seq_def end_seq_def word_succ_le_iff split: option.splits)
qed

lemma map_filter_filter:
  "\<forall>x \<in> set xs. \<not> P x \<longrightarrow> g x = None \<Longrightarrow> List.map_filter g (filter P xs) = List.map_filter g xs"
  by (induction xs) (auto simp: List.map_filter_def)

lemma distinct_filter_key:
  "distinct (map fst xs) \<Longrightarrow> map_of xs k = Some v \<Longrightarrow> filter (\<lambda>x. fst x = k) xs = [(k, v)]"
proof (induction xs)
  case Nil
  then show ?case by simp
next
  case (Cons x xs)
  show ?case
  proof (cases "fst x = k")
    case True
    then have "filter (\<lambda>x. fst x = k) xs = []" using Cons.prems(1) by (auto simp: filter_empty_conv image_iff)
    then show ?thesis using True Cons.prems(2) by (cases x) auto
  next
    case False
    then show ?thesis using Cons by (cases x) auto
  qed
qed

lemma query_step_entry:
  assumes "decode_event_value js v = Ok (md, pl)" and "k = encode_event_key (md_publisher_id md) (md_seq md)"
    and "case qf_publisher_id f of None \<Rightarrow> True | Some q \<Rightarrow>
      md_publisher_id md = q \<and> (case qf_after_seq f of Some a \<Rightarrow> a < md_seq md | None \<Rightarrow> True)
      \<and> (case qf_before_seq f of Some b \<Rightarrow> md_seq md < b | None \<Rightarrow> True)"
  shows "query_step js f (k, v) = Ok (keep (query_match f) (entry_event js (k, v)))"
  using assms
  by (auto simp: query_step_def keep_def entry_event_def query_match_def le_opt_def ge_opt_def stored_event_def
      Let_def not_le split: option.splits)

lemma query_entries:
  assumes ok: "fjall_ok ops vw" and ev: "events_ok js (vw (fb_db b))" and safe: "range_safe f"
  obtains es where
    "\<exists>xs. query ops js f b = scan_loop (query_step js f) ''scan error: '' (qf_limit f) xs [] \<and> scan_of xs es"
    "\<forall>x \<in> set es. query_step js f x = Ok (keep (query_match f) (entry_event js x))"
    "List.map_filter (\<lambda>x. keep (query_match f) (entry_event js x)) es = filter (query_match f) (events_list js (vw (fb_db b)))"
proof (cases "qf_publisher_id f")
  case None
  let ?es = "entries (vw (fb_db b) Events)"
  have "\<forall>x \<in> set ?es. query_step js f x = Ok (keep (query_match f) (entry_event js x))"
    using ev entries_mem[OF fjall_finite[OF ok]] query_step_entry None by (fastforce simp: events_ok_def)
  moreover have "query ops js f b
      = scan_loop (query_step js f) ''scan error: '' (qf_limit f) (kv_iter ops (fb_db b) Events) []"
    using None by (simp add: query_def query_loop_scan)
  ultimately show thesis
    using that[of ?es] fjall_iter[OF ok] by (auto simp: map_filter_keep events_list_def)
next
  case (Some q)
  let ?all = "entries (vw (fb_db b) Events)"
  let ?in = "\<lambda>(k, v :: bytes). encode_event_key q (start_seq f) \<le> k \<and> k \<le> encode_event_key q (end_seq f)"
  let ?g = "\<lambda>x. keep (query_match f) (entry_event js x)"
  have ent: "\<exists>md pl. decode_event_value js v = Ok (md, pl) \<and> k = encode_event_key (md_publisher_id md) (md_seq md)"
    if "(k, v) \<in> set ?all" for k v
    using ev entries_mem[OF fjall_finite[OF ok]] that by (auto simp: events_ok_def)
  have A: "query_step js f x = Ok (?g x)" if mem: "x \<in> set (filter ?in ?all)" for x
  proof -
    obtain k v where x: "x = (k, v)" by (cases x)
    with mem have "(k, v) \<in> set ?all" by simp
    from ent[OF this] obtain md pl where m: "decode_event_value js v = Ok (md, pl)"
      "k = encode_event_key (md_publisher_id md) (md_seq md)" by blast
    with mem x in_key_range[of q "start_seq f" "md_publisher_id md" "md_seq md" "end_seq f"]
      seq_range[OF safe Some, of "md_seq md"]
    show ?thesis using query_step_entry[OF m] x Some by simp
  qed
  have B: "\<forall>x \<in> set ?all. \<not> ?in x \<longrightarrow> ?g x = None"
  proof (intro ballI impI)
    fix x assume x: "x \<in> set ?all" "\<not> ?in x"
    obtain k v where kv: "x = (k, v)" by (cases x)
    with x have "(k, v) \<in> set ?all" by simp
    from ent[OF this] obtain md pl where m: "decode_event_value js v = Ok (md, pl)"
      "k = encode_event_key (md_publisher_id md) (md_seq md)" by blast
    with x(2) kv in_key_range[of q "start_seq f" "md_publisher_id md" "md_seq md" "end_seq f"]
      seq_range[OF safe Some, of "md_seq md"]
    have "\<not> query_match f (stored_event md pl)"
      using Some by (auto simp: query_match_def stored_event_def Let_def)
    then show "?g x = None" using m kv by (simp add: keep_def entry_event_def)
  qed
  have C: "query ops js f b = scan_loop (query_step js f) ''scan error: '' (qf_limit f)
      (kv_range ops (fb_db b) Events (encode_event_key q (start_seq f)) (encode_event_key q (end_seq f))) []"
    using Some by (simp add: query_def query_loop_scan start_seq_def end_seq_def Let_def)
  show thesis
  proof (rule that[of "filter ?in ?all"])
    show "\<exists>xs. query ops js f b = scan_loop (query_step js f) ''scan error: '' (qf_limit f) xs [] \<and>
        scan_of xs (filter ?in ?all)"
      using C fjall_range[OF ok] by blast
    show "\<forall>x \<in> set (filter ?in ?all). query_step js f x = Ok (?g x)" using A by blast
    show "List.map_filter ?g (filter ?in ?all) = filter (query_match f) (events_list js (vw (fb_db b)))"
      unfolding map_filter_filter[OF B] by (simp add: map_filter_keep events_list_def)
  qed
qed

lemma query_result:
  assumes ok: "fjall_ok ops vw" and ev: "events_ok js (vw (fb_db b))" and safe: "range_safe f"
    and q: "query ops js f b = Ok rs"
  shows "rs = upto (qf_limit f) (filter (query_match f) (events_list js (vw (fb_db b))))"
proof -
  obtain es where es: "\<exists>xs. query ops js f b = scan_loop (query_step js f) ''scan error: '' (qf_limit f) xs [] \<and> scan_of xs es"
    "\<forall>x \<in> set es. query_step js f x = Ok (keep (query_match f) (entry_event js x))"
    "List.map_filter (\<lambda>x. keep (query_match f) (entry_event js x)) es = filter (query_match f) (events_list js (vw (fb_db b)))"
    by (rule query_entries[OF ok ev safe])
  then obtain xs where xs: "scan_loop (query_step js f) ''scan error: '' (qf_limit f) xs [] = Ok rs" "scan_of xs es"
    using q by auto
  show ?thesis
    using scan_loop_sound[OF xs(2) _ xs(1), of "\<lambda>x. keep (query_match f) (entry_event js x)"] es(2,3)
    by (simp add: upto_def)
qed

lemma sorted_filter_pos:
  "sorted_wrt R xs \<Longrightarrow> sorted_wrt R (filter P xs)"
  by (induction xs) auto

section \<open>Stores seen by reads\<close>

definition fits :: "json_codec \<Rightarrow> EventMetadata \<Rightarrow> bool" where
  "fits js md \<longleftrightarrow> length (js_enc js md) < 2 ^ 32"

lemma stored_events_pos:
  assumes "events_ok js w" and "w Events k = Some v" and "decode_event_value js v = Ok (md, pl)"
  shows "k = encode_event_key (md_publisher_id md) (md_seq md)"
  using assms by (fastforce simp: events_ok_def)

lemma put_event_events:
  assumes "json_ok js" and "fits js md" and "events_ok js w"
    and "w' Events = put_event js (key, ev, md) (w Events)"
  shows "events_ok js w' \<and> stored_events js w' =
    insert (stored_event md ev) {e \<in> stored_events js w. event_pos e \<noteq> (md_publisher_id md, md_seq md)}"
proof
  let ?k = "encode_event_key (md_publisher_id md) (md_seq md)" and ?v = "encode_event_value js md ev"
  have dec: "decode_event_value js ?v = Ok (md, ev)"
    using assms(1,2) by (simp add: decode_encode_event_value fits_def)
  have w': "w' Events = (w Events)(?k \<mapsto> ?v)" using assms(4) by (simp add: put_event_def)
  show "events_ok js w'" using assms(3) w' dec by (auto simp: events_ok_def)
  have "event_pos (stored_event m p) \<noteq> (md_publisher_id md, md_seq md) \<longleftrightarrow> k \<noteq> ?k"
    if "w Events k = Some v" "decode_event_value js v = Ok (m, p)" for k v m p
    using stored_events_pos[OF assms(3) that] by (auto simp: event_pos_def stored_event_def)
  then show "stored_events js w' =
    insert (stored_event md ev) {e \<in> stored_events js w. event_pos e \<noteq> (md_publisher_id md, md_seq md)}"
    unfolding stored_events_def w' using dec by (auto split: if_splits)
qed

text \<open>
  Store and look up: after a store that succeeds, the events in the store are the previous ones
  with the entry of the same publisher and sequence replaced by the new event, metadata and payload
  intact; the invariant that every entry decodes under its own key is kept.
\<close>

theorem store_then_lookup:
  assumes "fjall_ok ops vw" and "json_ok js" and "fits js md" and "backend_inv vw b"
    and "events_ok js (vw (fb_db b))" and "store ops js key ev md b = (b', Ok ())"
  shows "events_ok js (vw (fb_db b')) \<and> stored_events js (vw (fb_db b')) =
    insert (stored_event md ev)
      {e \<in> stored_events js (vw (fb_db b)). event_pos e \<noteq> (md_publisher_id md, md_seq md)}"
  using put_event_events[OF assms(2,3,5)] store_inv[OF assms(1,4,6)] by blast

lemma length_put_nat [simp]: "length (put_nat n) = Suc n"
  by (induction n) auto

lemma fits_demo: "fits unary_json (demo_md 1 0)"
  by (simp add: fits_def unary_json_def unary_enc_def demo_md_def put_str_def as_bytes_def put_int_def)

lemma mem_events_ok: "events_ok js (mem_view mem_empty)" "stored_events js (mem_view mem_empty) = {}"
  by (simp_all add: events_ok_def stored_events_def mem_view_def mem_empty_def)

lemma mem_store_ok: "\<exists>b'. store mem_ops js key ev md (backend_empty mem_empty 0) = (b', Ok ())"
  by (simp add: store_def mem_ops_def Let_def backend_empty_def mem_empty_def store_err_def)

theorem store_then_lookup_witness:
  "\<exists>b'. store mem_ops unary_json ''a'' [7] (demo_md 1 0) (backend_empty mem_empty 0) = (b', Ok ()) \<and>
     stored_events unary_json (mem_view (fb_db b')) = {stored_event (demo_md 1 0) [7]}"
proof -
  obtain b' where b': "store mem_ops unary_json ''a'' [7] (demo_md 1 0) (backend_empty mem_empty 0) = (b', Ok ())"
    using mem_store_ok by blast
  have "events_ok unary_json (mem_view (fb_db (backend_empty mem_empty 0)))"
    by (simp add: backend_empty_def mem_events_ok)
  from store_then_lookup[OF mem_fjall_ok unary_json_ok fits_demo mem_backend_inv this b'] b' show ?thesis
    by (auto simp: backend_empty_def mem_events_ok)
qed

text \<open>One event in an in-memory store, for the witnesses below.\<close>

definition demo_held :: "mem_db FjallBackend \<Rightarrow> bool" where
  "demo_held b \<longleftrightarrow> events_ok unary_json (mem_view (fb_db b))
     \<and> stored_events unary_json (mem_view (fb_db b)) = {stored_event (demo_md 1 0) [7]}
     \<and> mem_view (fb_db b) Events (encode_event_key 1 0) = Some (encode_event_value unary_json (demo_md 1 0) [7])"

lemma demo_backend: "\<exists>b. demo_held b"
proof -
  let ?b0 = "backend_empty mem_empty 0"
  obtain b where b: "store mem_ops unary_json ''a'' [7] (demo_md 1 0) ?b0 = (b, Ok ())"
    using mem_store_ok by blast
  have put: "mem_view (fb_db b) Events = put_event unary_json (''a'', [7], demo_md 1 0) (mem_view (fb_db ?b0) Events)"
    using store_inv[OF mem_fjall_ok mem_backend_inv b] by blast
  have ok0: "events_ok unary_json (mem_view (fb_db ?b0))" "stored_events unary_json (mem_view (fb_db ?b0)) = {}"
    by (simp_all add: backend_empty_def mem_events_ok)
  note put_event_events[OF unary_json_ok fits_demo ok0(1), where w' = "mem_view (fb_db b)", OF put]
  moreover have "mem_view (fb_db b) Events (encode_event_key 1 0)
      = Some (encode_event_value unary_json (demo_md 1 0) [7])"
    unfolding put by (simp add: put_event_def demo_md_def)
  ultimately show ?thesis unfolding demo_held_def using ok0(2) by (intro exI[of _ b]) simp
qed

text \<open>
  The filters a query applies.  With a publisher filter, the bound \<^verbatim>\<open>before_seq = 0\<close> acts as
  \<^verbatim>\<open>before_seq = 1\<close> and \<^verbatim>\<open>after_seq = u64::MAX\<close> as no bound; all other filters are applied as given.
\<close>

definition applied_filters :: "QueryFilters \<Rightarrow> QueryFilters" where
  "applied_filters f = (if qf_publisher_id f = None then f
     else f\<lparr>qf_before_seq := (if qf_before_seq f = Some 0 then Some 1 else qf_before_seq f),
            qf_after_seq := (if qf_after_seq f = Some u64_MAX then None else qf_after_seq f)\<rparr>)"

lemma applied_filters_frame [simp]:
  "qf_publisher_id (applied_filters f) = qf_publisher_id f" "qf_limit (applied_filters f) = qf_limit f"
  "qf_after_time (applied_filters f) = qf_after_time f" "qf_before_time (applied_filters f) = qf_before_time f"
  by (simp_all add: applied_filters_def)

lemma applied_filters_safe: "range_safe (applied_filters f)"
  by (simp add: range_safe_def applied_filters_def)

lemma applied_filters_given: "range_safe f \<Longrightarrow> applied_filters f = f"
  by (simp add: range_safe_def applied_filters_def)

lemma query_loop_applied: "query_loop js (applied_filters f) xs rs = query_loop js f xs rs"
proof (cases "qf_publisher_id f = None")
  case False
  show ?thesis
  proof (induction xs arbitrary: rs)
    case (Cons x xs)
    then show ?case using False by (cases x) (auto simp: Let_def split: option.split sum.split)
  qed simp
qed (simp add: applied_filters_def)

lemma query_applied: "query ops js (applied_filters f) b = query ops js f b"
proof (cases "qf_publisher_id f = None")
  case False
  have "start_seq (applied_filters f) = start_seq f" "end_seq (applied_filters f) = end_seq f"
    using False by (auto simp: start_seq_def end_seq_def applied_filters_def saturating_sub_def split: option.splits)
  then show ?thesis using False by (auto simp: query_def query_loop_applied start_seq_def end_seq_def)
qed (simp add: applied_filters_def)

text \<open>
  A query that succeeds returns exactly the stored events that match the filters it applies, in
  (publisher, sequence) order, cut to the limit, where a limit of zero counts as one.
\<close>

theorem query_returns_applied:
  assumes "fjall_ok ops vw" and "events_ok js (vw (fb_db b))" and "query ops js f b = Ok rs"
  defines "full \<equiv> filter (query_match (applied_filters f)) (events_list js (vw (fb_db b)))"
  shows "set full = {e \<in> stored_events js (vw (fb_db b)). query_match (applied_filters f) e}"
    and "sorted_wrt (\<lambda>x y. event_pos x < event_pos y) full"
    and "rs = (case qf_limit f of None \<Rightarrow> full | Some n \<Rightarrow> take (max 1 n) full)"
proof -
  have fin: "finite (dom (vw (fb_db b) Events))" using fjall_finite[OF assms(1)] .
  have q: "query ops js (applied_filters f) b = Ok rs" using assms(3) by (simp add: query_applied)
  show "rs = (case qf_limit f of None \<Rightarrow> full | Some n \<Rightarrow> take (max 1 n) full)"
    using query_result[OF assms(1,2) applied_filters_safe q] by (simp add: full_def upto_def room_def split: option.splits)
  show "sorted_wrt (\<lambda>x y. event_pos x < event_pos y) full"
    unfolding full_def using sorted_filter_pos events_list_sorted[OF assms(2) fin] by blast
  show "set full = {e \<in> stored_events js (vw (fb_db b)). query_match (applied_filters f) e}"
    unfolding full_def using events_list_set[where w = "vw (fb_db b)", OF fin] by auto
qed

text \<open>A limit of zero returns one event, although the limit is documented as the maximum number of results.\<close>

theorem query_limit_zero_returns_one:
  assumes "fjall_ok ops vw" and "events_ok js (vw (fb_db b))" and "query ops js f b = Ok rs" and "qf_limit f = Some 0"
    and "e \<in> stored_events js (vw (fb_db b))" and "query_match (applied_filters f) e"
  shows "length rs = 1"
proof -
  note q = query_returns_applied[OF assms(1-3)]
  have "filter (query_match (applied_filters f)) (events_list js (vw (fb_db b))) \<noteq> []" using q(1) assms(5,6) by force
  then show ?thesis using q(3) assms(4) by (simp add: Suc_le_eq)
qed

text \<open>
  C4. A query that succeeds returns exactly the stored events that match its filters, in (publisher,
  sequence) order, cut to the limit, whether it scans the range of one publisher or everything.  The limit is
  not zero, and a query with a publisher has neither \<^verbatim>\<open>before_seq = 0\<close> nor \<^verbatim>\<open>after_seq = u64::MAX\<close>: there the code
  returns one event more than asked for, respectively applies the bounds as said above.
\<close>

theorem query_exact:
  assumes "fjall_ok ops vw" and "events_ok js (vw (fb_db b))" and "query ops js f b = Ok rs"
    and "qf_limit f \<noteq> Some 0" and "qf_publisher_id f \<noteq> None \<Longrightarrow> qf_before_seq f \<noteq> Some 0 \<and> qf_after_seq f \<noteq> Some u64_MAX"
  shows "\<exists>full. set full = {e \<in> stored_events js (vw (fb_db b)). query_match f e}
       \<and> sorted_wrt (\<lambda>x y. event_pos x < event_pos y) full
       \<and> rs = (case qf_limit f of None \<Rightarrow> full | Some n \<Rightarrow> take n full)"
proof -
  have given: "applied_filters f = f" using assms(5) by (auto intro!: applied_filters_given simp: range_safe_def)
  note q = query_returns_applied[OF assms(1-3), unfolded given]
  have "rs = (case qf_limit f of None \<Rightarrow> filter (query_match f) (events_list js (vw (fb_db b)))
      | Some n \<Rightarrow> take n (filter (query_match f) (events_list js (vw (fb_db b)))))"
  proof (cases "qf_limit f")
    case (Some n)
    then have "max 1 n = n" using assms(4) by simp
    then show ?thesis using q(3) Some by simp
  qed (use q(3) in simp)
  then show ?thesis using q(1,2) by blast
qed

lemma mem_query_total:
  assumes "events_ok js (mem_view (fb_db b))"
  shows "\<exists>rs. query mem_ops js f b = Ok rs"
proof -
  have "\<exists>xs. query mem_ops js f b = scan_loop (query_step js f) ''scan error: '' (qf_limit f) (map Inr xs) []
      \<and> set xs \<subseteq> set (mem_entries (fb_db b) Events)"
    by (cases "qf_publisher_id f") (auto simp: query_def query_loop_scan mem_ops_def Let_def)
  then obtain xs where xs: "query mem_ops js f b = scan_loop (query_step js f) ''scan error: '' (qf_limit f) (map Inr xs) []"
    "set xs \<subseteq> set (mem_entries (fb_db b) Events)" by blast
  have "\<exists>y. query_step js f x = Ok y" if "x \<in> set xs" for x
  proof -
    have "(fst x, snd x) \<in> set (entries (mem_view (fb_db b) Events))"
      using that xs(2) by (auto simp: mem_entries)
    then have "mem_view (fb_db b) Events (fst x) = Some (snd x)"
      using entries_mem[OF fjall_finite[OF mem_fjall_ok]] by blast
    then show ?thesis using assms by (fastforce simp: events_ok_def query_step_def)
  qed
  then show ?thesis using scan_loop_total[of xs] xs(1) by metis
qed

theorem query_exact_witness:
  "\<exists>b rs. query mem_ops unary_json (qf_default\<lparr>qf_publisher_id := Some 1, qf_limit := Some 5\<rparr>) b = Ok rs \<and>
     set rs = {stored_event (demo_md 1 0) [7]}"
proof -
  let ?f = "qf_default\<lparr>qf_publisher_id := Some 1, qf_limit := Some 5\<rparr>"
  obtain b :: "mem_db FjallBackend" where b: "events_ok unary_json (mem_view (fb_db b))"
    "stored_events unary_json (mem_view (fb_db b)) = {stored_event (demo_md 1 0) [7]}"
    using demo_backend by (auto simp: demo_held_def)
  obtain rs where rs: "query mem_ops unary_json ?f b = Ok rs" using mem_query_total[OF b(1)] by blast
  obtain full where full: "set full = {e \<in> stored_events unary_json (mem_view (fb_db b)). query_match ?f e}"
    "sorted_wrt (\<lambda>x y. event_pos x < event_pos y) full" "rs = take 5 full"
    using query_exact[OF mem_fjall_ok b(1) rs] by (auto simp: qf_default_def)
  have m: "query_match ?f (stored_event (demo_md 1 0) [7])"
    by (simp add: query_match_def qf_default_def stored_event_def demo_md_def)
  then have one: "set full = {stored_event (demo_md 1 0) [7]}" using full(1) b(2) by auto
  moreover have "length full \<le> 1"
  proof (rule ccontr)
    assume "\<not> length full \<le> 1"
    then have "event_pos (full ! 0) < event_pos (full ! 1)" using full(2) by (simp add: sorted_wrt_iff_nth_less)
    moreover have "full ! 0 = full ! 1"
      using one \<open>\<not> length full \<le> 1\<close> nth_mem[of 0 full] nth_mem[of 1 full] by force
    ultimately show False by simp
  qed
  ultimately show ?thesis using rs full(3) by auto
qed

text \<open>
  The upper bound zero: with a publisher filter, a query for sequences below 0 returns the stored
  event 0 of that publisher (when the time filters and the limit admit it), although no sequence
  number is below 0.
\<close>

theorem query_before_zero_returns_zero:
  assumes "fjall_ok ops vw" and "events_ok js (vw (fb_db b))"
    and "vw (fb_db b) Events (encode_event_key p 0) = Some v" and "decode_event_value js v = Ok (md, pl)"
    and "query ops js (qf_default\<lparr>qf_publisher_id := Some p, qf_before_seq := Some 0\<rparr>) b = Ok rs"
  shows "rs = [stored_event md pl]"
proof -
  let ?f = "qf_default\<lparr>qf_publisher_id := Some p, qf_before_seq := Some 0\<rparr>"
  let ?all = "entries (vw (fb_db b) Events)"
  let ?in = "\<lambda>(k, v :: bytes). encode_event_key p 0 \<le> k \<and> k \<le> encode_event_key p 0"
  have fin: "finite (dom (vw (fb_db b) Events))" using fjall_finite[OF assms(1)] .
  have k: "decode_event_key k = Some (q, s)" if "k = encode_event_key q s" for k q s using that by simp
  have in_eq: "?in x \<longleftrightarrow> fst x = encode_event_key p 0" for x by (cases x) auto
  have "map_of ?all (encode_event_key p 0) = Some v" using map_of_entries[OF fin] assms(3) by simp
  then have "filter (\<lambda>x. fst x = encode_event_key p 0) ?all = [(encode_event_key p 0, v)]"
    using distinct_filter_key[OF entries_distinct] by blast
  moreover have "filter ?in ?all = filter (\<lambda>x. fst x = encode_event_key p 0) ?all"
    by (rule filter_cong[OF refl in_eq])
  ultimately have only: "filter ?in ?all = [(encode_event_key p 0, v)]" by simp
  have "query ops js ?f b = scan_loop (query_step js ?f) ''scan error: '' None
      (kv_range ops (fb_db b) Events (encode_event_key p 0) (encode_event_key p 0)) []"
    by (simp add: query_def query_loop_scan qf_default_def saturating_sub_def)
  then have loop: "scan_loop (query_step js ?f) ''scan error: '' None
      (kv_range ops (fb_db b) Events (encode_event_key p 0) (encode_event_key p 0)) [] = Ok rs"
    using assms(5) by simp
  have "query_step js ?f (encode_event_key p 0, v) = Ok (Some (stored_event md pl))"
    using assms(4) by (simp add: query_step_def qf_default_def le_opt_def ge_opt_def)
  then have st: "\<forall>x \<in> set (filter ?in ?all). \<forall>y. query_step js ?f x = Ok y \<longrightarrow> y = Some (stored_event md pl)"
    unfolding only by simp
  from scan_loop_sound[OF fjall_range[OF assms(1)] st loop] show ?thesis
    unfolding only by (simp add: room_def)
qed

theorem query_before_zero_returns_zero_witness:
  "\<exists>b. query mem_ops unary_json (qf_default\<lparr>qf_publisher_id := Some 1, qf_before_seq := Some 0\<rparr>) b
     = Ok [stored_event (demo_md 1 0) [7]]"
proof -
  let ?f = "qf_default\<lparr>qf_publisher_id := Some 1, qf_before_seq := Some 0\<rparr>"
  obtain b :: "mem_db FjallBackend" where b: "events_ok unary_json (mem_view (fb_db b))"
    "mem_view (fb_db b) Events (encode_event_key 1 0) = Some (encode_event_value unary_json (demo_md 1 0) [7])"
    using demo_backend by (auto simp: demo_held_def)
  have dec: "decode_event_value unary_json (encode_event_value unary_json (demo_md 1 0) [7]) = Ok (demo_md 1 0, [7])"
    using unary_json_ok fits_demo by (simp add: decode_encode_event_value fits_def)
  have "\<exists>rs. query mem_ops unary_json ?f b = Ok rs" using mem_query_total[OF b(1)] .
  then obtain rs where rs: "query mem_ops unary_json ?f b = Ok rs" by blast
  show ?thesis using query_before_zero_returns_zero[OF mem_fjall_ok b dec rs] rs by blast
qed

end
