(* ===== verification/Backend_Replay.thy ===== *)
theory Backend_Replay
  imports Backend_Query
begin

text \<open>
  The replay index of \<^verbatim>\<open>FjallBackend\<close>: \<^verbatim>\<open>query_replay\<close> returns the events with an HLC timestamp in
  (HLC, publisher, sequence) order, the same on every replica; \<^verbatim>\<open>store\<close> and \<^verbatim>\<open>gc\<close> keep the index
  in step with the primary data.
\<close>

section \<open>The index invariant\<close>

definition hlc_pos :: "StoredEvent \<Rightarrow> HlcTimestamp \<times> PublisherId \<times> u64" where
  "hlc_pos ev = (case md_hlc_timestamp (se_metadata ev) of Some h \<Rightarrow> h | None \<Rightarrow> hlc_default, event_pos ev)"

definition has_hlc :: "StoredEvent \<Rightarrow> bool" where
  "has_hlc ev \<longleftrightarrow> md_hlc_timestamp (se_metadata ev) \<noteq> None"

definition replay_key_of :: "EventMetadata \<Rightarrow> bytes option" where
  "replay_key_of md = map_option (\<lambda>h. encode_replay_key h (md_publisher_id md) (md_seq md)) (md_hlc_timestamp md)"

text \<open>Every stored event with an HLC has its replay entry, and every entry leads to such an event.\<close>

definition replay_ok :: "json_codec \<Rightarrow> view \<Rightarrow> bool" where
  "replay_ok js w \<longleftrightarrow> (\<forall>rk ek. w Replay rk = Some ek \<longleftrightarrow>
     (\<exists>v md pl. w Events ek = Some v \<and> decode_event_value js v = Ok (md, pl) \<and> replay_key_of md = Some rk
        \<and> ek = encode_event_key (md_publisher_id md) (md_seq md)))"

definition replay_match :: "ReplayFilters \<Rightarrow> StoredEvent \<Rightarrow> bool" where
  "replay_match f ev =
     (case md_hlc_timestamp (se_metadata ev) of
        None \<Rightarrow> False
      | Some h \<Rightarrow> (case rf_after_hlc f of Some a \<Rightarrow> a < h | None \<Rightarrow> True)
          \<and> (case rf_before_hlc f of Some b \<Rightarrow> h < b | None \<Rightarrow> True)
          \<and> matches_publisher f (md_publisher_id (se_metadata ev))
          \<and> matches_key f (md_key (se_metadata ev)))"

section \<open>The scan\<close>

definition replay_step :: "'d fjall_ops \<Rightarrow> json_codec \<Rightarrow> 'd \<Rightarrow> ReplayFilters \<Rightarrow> bytes \<times> bytes
    \<Rightarrow> StoredEvent option result" where
  "replay_step ops js d f kv =
     (case decode_replay_key (fst kv) of
        None \<Rightarrow> Ok None
      | Some (hlc, pub_id, _) \<Rightarrow>
          if le_opt hlc (rf_after_hlc f) \<or> \<not> matches_publisher f pub_id then Ok None
          else rbind (store_err ''replay lookup error: '' (kv_get ops d Events (snd kv))) (\<lambda>value.
            case value of
              None \<Rightarrow> Ok None
            | Some v \<Rightarrow> rbind (decode_event_value js v) (\<lambda>(meta, payload).
                if has_key_filter f \<and> \<not> matches_key f (md_key meta) then Ok None
                else Ok (Some (stored_event meta payload)))))"

text \<open>Entries at or past the upper bound end the scan (unless the lower bound skips them).\<close>

definition replay_stops :: "ReplayFilters \<Rightarrow> bytes \<times> bytes \<Rightarrow> bool" where
  "replay_stops f kv =
     (case decode_replay_key (fst kv) of
        None \<Rightarrow> False
      | Some (hlc, _, _) \<Rightarrow> \<not> le_opt hlc (rf_after_hlc f) \<and> ge_opt hlc (rf_before_hlc f))"

fun cut_scan :: "('a \<Rightarrow> bool) \<Rightarrow> 'a scan \<Rightarrow> 'a scan" where
  "cut_scan P [] = []"
| "cut_scan P (Inl e # xs) = Inl e # xs"
| "cut_scan P (Inr x # xs) = (if P x then [] else Inr x # cut_scan P xs)"

lemma replay_loop_scan:
  "replay_loop ops js d f xs acc
     = scan_loop (replay_step ops js d f) ''replay scan error: '' (rf_limit f) (cut_scan (replay_stops f) xs) acc"
proof (induction xs arbitrary: acc)
  case Nil
  then show ?case by simp
next
  case (Cons x xs)
  show ?case
  proof (cases x)
    case (Inl e)
    then show ?thesis by simp
  next
    case (Inr kv)
    obtain k ek where kv: "kv = (k, ek)" by (cases kv)
    note x = Inr kv
    show ?thesis
    proof (cases "decode_replay_key k")
      case None
      then show ?thesis using x Cons by (simp add: replay_step_def replay_stops_def)
    next
      case (Some hps)
      then obtain h p s where k: "decode_replay_key k = Some (h, p, s)" by (cases hps) auto
      show ?thesis
      proof (cases "le_opt h (rf_after_hlc f) \<or> ge_opt h (rf_before_hlc f) \<or> \<not> matches_publisher f p")
        case True
        then show ?thesis using x k Cons by (auto simp: replay_step_def replay_stops_def)
      next
        case False
        let ?get = "kv_get ops d Events ek"
        have st: "replay_step ops js d f (k, ek) = rbind (store_err ''replay lookup error: '' ?get) (\<lambda>value.
            case value of None \<Rightarrow> Ok None
            | Some v \<Rightarrow> rbind (decode_event_value js v) (\<lambda>(meta, payload).
                if has_key_filter f \<and> \<not> matches_key f (md_key meta) then Ok None
                else Ok (Some (stored_event meta payload))))"
          using False k by (simp add: replay_step_def)
        have ns: "\<not> replay_stops f (k, ek)" using False k by (simp add: replay_stops_def)
        consider e where "?get = Err e" | "?get = Ok None"
          | v e where "?get = Ok (Some v)" "decode_event_value js v = Err e"
          | v md pl where "?get = Ok (Some v)" "decode_event_value js v = Ok (md, pl)"
          by (metis old.prod.exhaust option.exhaust sum.exhaust)
        then show ?thesis
          using ns x k False Cons st by cases (simp_all add: store_err_def Let_def)
      qed
    qed
  qed
qed

lemma cut_scan_of: "scan_of xs es \<Longrightarrow> scan_of (cut_scan P xs) (takeWhile (\<lambda>x. \<not> P x) es)"
proof (induction es arbitrary: xs)
  case Nil
  then show ?case by (auto simp: scan_of_def)
next
  case (Cons x es)
  from Cons.prems show ?case
  proof (cases rule: scan_of_Cons_cases)
    case (1 xs')
    then show ?thesis using Cons.IH[OF 1(2)] by (auto intro: scan_of_Inr)
  next
    case (2 e post)
    then show ?thesis by simp
  qed
qed

section \<open>Replay order\<close>

definition replay_entry :: "json_codec \<Rightarrow> view \<Rightarrow> bytes \<times> bytes \<Rightarrow> StoredEvent option" where
  "replay_entry js w kv = Option.bind (w Events (snd kv)) (\<lambda>v. entry_event js (snd kv, v))"

definition replay_list :: "json_codec \<Rightarrow> view \<Rightarrow> StoredEvent list" where
  "replay_list js w = List.map_filter (replay_entry js w) (entries (w Replay))"

lemma replay_entry_ok:
  assumes "replay_ok js w" and "w Replay rk = Some ek"
  shows "\<exists>v md pl h. w Events ek = Some v \<and> decode_event_value js v = Ok (md, pl) \<and>
    md_hlc_timestamp md = Some h \<and> rk = encode_replay_key h (md_publisher_id md) (md_seq md) \<and>
    replay_entry js w (rk, ek) = Some (stored_event md pl)"
proof -
  obtain v md pl where m: "w Events ek = Some v" "decode_event_value js v = Ok (md, pl)" "replay_key_of md = Some rk"
    using assms unfolding replay_ok_def by blast
  then obtain h where "md_hlc_timestamp md = Some h" "rk = encode_replay_key h (md_publisher_id md) (md_seq md)"
    by (auto simp: replay_key_of_def)
  with m show ?thesis by (auto simp: replay_entry_def entry_event_def)
qed

lemma map_filter_append: "List.map_filter g (xs @ ys) = List.map_filter g xs @ List.map_filter g ys"
  by (simp add: List.map_filter_def)

lemma map_filter_Nil: "(\<And>x. x \<in> set xs \<Longrightarrow> g x = None) \<Longrightarrow> List.map_filter g xs = []"
  by (simp add: List.map_filter_def)

lemma sorted_wrt_key_unique:
  fixes k :: "'a \<Rightarrow> 'b::linorder"
  assumes "sorted_wrt (\<lambda>x y. k x < k y) xs" and "sorted_wrt (\<lambda>x y. k x < k y) ys" and "set xs = set ys"
  shows "xs = ys"
  using assms
proof (induction xs arbitrary: ys)
  case Nil
  then show ?case by simp
next
  case (Cons x xs)
  then obtain y ys' where ys: "ys = y # ys'" by (cases ys) auto
  have "x = y"
  proof (rule ccontr)
    assume "x \<noteq> y"
    then have "x \<in> set ys'" "y \<in> set xs" using Cons.prems(3) ys by auto
    then have "k y < k x" "k x < k y" using Cons.prems(1,2) ys by auto
    then show False by simp
  qed
  moreover have "x \<notin> set xs" "y \<notin> set ys'" using Cons.prems(1,2) ys by auto
  ultimately have "set xs = set ys'" using Cons.prems(3) ys by auto
  then show ?case using Cons ys \<open>x = y\<close> by simp
qed

lemma replay_key_less:
  "encode_replay_key h p s < encode_replay_key h' p' s' \<longleftrightarrow> (h, p, s) < (h', p', s')"
  by (cases h; cases h')
    (auto simp: encode_replay_key_def list_less_append_same less_HlcTimestamp_def less_eq_HlcTimestamp_def)

lemma replay_list_set:
  assumes "replay_ok js w" and "events_ok js w" and "finite (dom (w Replay))"
  shows "set (replay_list js w) = {e \<in> stored_events js w. has_hlc e}"
proof (intro set_eqI iffI)
  fix e assume "e \<in> set (replay_list js w)"
  then obtain rk ek where m: "w Replay rk = Some ek" "replay_entry js w (rk, ek) = Some e"
    using entries_mem[OF assms(3)] by (auto simp: replay_list_def set_map_filter)
  then obtain v md pl h where v: "w Events ek = Some v" "decode_event_value js v = Ok (md, pl)"
    "md_hlc_timestamp md = Some h" "e = stored_event md pl"
    using replay_entry_ok[OF assms(1) m(1)] by auto
  then have "e \<in> stored_events js w" unfolding stored_events_def by blast
  with v show "e \<in> {e \<in> stored_events js w. has_hlc e}" by (simp add: has_hlc_def stored_event_def)
next
  fix e assume "e \<in> {e \<in> stored_events js w. has_hlc e}"
  then obtain k v md pl h where e: "e = stored_event md pl" "w Events k = Some v"
    "decode_event_value js v = Ok (md, pl)" "md_hlc_timestamp md = Some h"
    by (auto simp: stored_events_def has_hlc_def stored_event_def)
  let ?rk = "encode_replay_key h (md_publisher_id md) (md_seq md)"
  have "k = encode_event_key (md_publisher_id md) (md_seq md)" using stored_events_pos[OF assms(2) e(2,3)] .
  then have "w Replay ?rk = Some k"
    using assms(1) e unfolding replay_ok_def replay_key_of_def by (metis option.simps(9))
  moreover have "replay_entry js w (?rk, k) = Some e" using e by (simp add: replay_entry_def entry_event_def)
  ultimately show "e \<in> set (replay_list js w)"
    using entries_mem[OF assms(3)] by (auto simp: replay_list_def set_map_filter)
qed

lemma replay_entries_sorted:
  assumes "replay_ok js w" and "sorted_wrt (<) (map fst es)" and "\<forall>kv \<in> set es. w Replay (fst kv) = Some (snd kv)"
  shows "sorted_wrt (\<lambda>a b. hlc_pos a < hlc_pos b) (List.map_filter (replay_entry js w) es)"
  using assms(2,3)
proof (induction es)
  case Nil
  then show ?case by simp
next
  case (Cons x es)
  have pos: "\<exists>e. replay_entry js w y = Some e \<and>
      fst y = encode_replay_key (fst (hlc_pos e)) (fst (snd (hlc_pos e))) (snd (snd (hlc_pos e)))"
    if "y \<in> set (x # es)" for y
  proof -
    have "w Replay (fst y) = Some (snd y)" using Cons.prems(2) that by auto
    then obtain md pl h where "md_hlc_timestamp md = Some h" "fst y = encode_replay_key h (md_publisher_id md) (md_seq md)"
      "replay_entry js w y = Some (stored_event md pl)"
      using replay_entry_ok[OF assms(1), of "fst y" "snd y"] by auto
    then show ?thesis by (simp add: hlc_pos_def event_pos_def stored_event_def)
  qed
  obtain e where x: "replay_entry js w x = Some e"
    "fst x = encode_replay_key (fst (hlc_pos e)) (fst (snd (hlc_pos e))) (snd (snd (hlc_pos e)))"
    using pos[of x] by auto
  have "hlc_pos e < hlc_pos e'" if e': "e' \<in> set (List.map_filter (replay_entry js w) es)" for e'
  proof -
    obtain y where y: "y \<in> set es" "replay_entry js w y = Some e'" using e' by (auto simp: set_map_filter)
    with pos[of y] have "fst y = encode_replay_key (fst (hlc_pos e')) (fst (snd (hlc_pos e'))) (snd (snd (hlc_pos e')))"
      by auto
    moreover have "fst x < fst y" using Cons.prems(1) y(1) by simp
    ultimately show ?thesis using x(2) replay_key_less by (metis prod.collapse)
  qed
  then show ?case using Cons x(1) by simp
qed

lemma replay_list_sorted:
  assumes "replay_ok js w" and "finite (dom (w Replay))"
  shows "sorted_wrt (\<lambda>a b. hlc_pos a < hlc_pos b) (replay_list js w)"
  unfolding replay_list_def
proof (rule replay_entries_sorted[OF assms(1) entries_sorted])
  show "\<forall>kv \<in> set (entries (w Replay)). w Replay (fst kv) = Some (snd kv)"
    using entries_mem[OF assms(2)] by auto
qed

lemma replay_step_entry:
  assumes ok: "fjall_ok ops vw" and rep: "replay_ok js (vw d)" and x: "vw d Replay (fst x) = Some (snd x)"
    and ns: "\<not> replay_stops f x" and st: "replay_step ops js d f x = Ok y"
  shows "y = keep (replay_match f) (replay_entry js (vw d) x)"
proof -
  obtain v md pl h where m: "vw d Events (snd x) = Some v" "decode_event_value js v = Ok (md, pl)"
    "md_hlc_timestamp md = Some h" "fst x = encode_replay_key h (md_publisher_id md) (md_seq md)"
    "replay_entry js (vw d) x = Some (stored_event md pl)"
    using replay_entry_ok[OF rep x] by auto
  show ?thesis
  proof (cases "le_opt h (rf_after_hlc f) \<or> \<not> matches_publisher f (md_publisher_id md)")
    case True
    moreover have "\<not> replay_match f (stored_event md pl)"
      using True m(3) by (auto simp: replay_match_def stored_event_def le_opt_def split: option.splits)
    ultimately show ?thesis using st m by (simp add: replay_step_def keep_def)
  next
    case False
    have before: "case rf_before_hlc f of Some b \<Rightarrow> h < b | None \<Rightarrow> True"
      using ns False m(4) by (auto simp: replay_stops_def ge_opt_def split: option.splits)
    obtain val where val: "kv_get ops d Events (snd x) = Ok val"
      using st False m(4) by (cases "kv_get ops d Events (snd x)") (auto simp: replay_step_def store_err_def)
    then have "val = Some v" using fjall_get[OF ok val] m(1) by simp
    then have y: "y = (if has_key_filter f \<and> \<not> matches_key f (md_key md) then None else Some (stored_event md pl))"
      using st False m val by (auto simp: replay_step_def store_err_def split: if_splits)
    have "has_key_filter f \<and> \<not> matches_key f (md_key md) \<longleftrightarrow> \<not> matches_key f (md_key md)"
      by (auto simp: has_key_filter_def matches_key_def split: option.splits)
    moreover have "replay_match f (stored_event md pl) = matches_key f (md_key md)"
      using False before m(3) by (auto simp: replay_match_def stored_event_def le_opt_def not_le split: option.splits)
    ultimately show ?thesis using y m(5) by (simp add: keep_def)
  qed
qed

lemma dropWhile_from:
  "sorted_wrt (<) (map fst es) \<Longrightarrow> y \<in> set (dropWhile P es) \<Longrightarrow>
   \<exists>x \<in> set es. \<not> P x \<and> fst x \<le> (fst y :: bytes)"
proof (induction es)
  case Nil
  then show ?case by simp
next
  case (Cons x es)
  show ?case
  proof (cases "P x")
    case True
    then show ?thesis using Cons by auto
  next
    case False
    then have "y = x \<or> y \<in> set es" using Cons.prems(2) by simp
    then show ?thesis using Cons.prems(1) False by (auto intro: less_imp_le)
  qed
qed

lemma past_bound_no_match:
  assumes rep: "replay_ok js w" and fin: "finite (dom (w Replay))"
    and y: "y \<in> set (dropWhile (\<lambda>x. \<not> replay_stops f x) (entries (w Replay)))"
  shows "keep (replay_match f) (replay_entry js w y) = None"
proof -
  let ?es = "entries (w Replay)"
  obtain x where x: "x \<in> set ?es" "replay_stops f x" "fst x \<le> fst y"
    using dropWhile_from[OF entries_sorted y] by auto
  have wx: "w Replay (fst x) = Some (snd x)" using x(1) entries_mem[OF fin] by (metis prod.collapse)
  have wy: "w Replay (fst y) = Some (snd y)"
    using y entries_mem[OF fin] by (metis prod.collapse set_dropWhileD)
  obtain mx :: EventMetadata and h where hx: "fst x = encode_replay_key h (md_publisher_id mx) (md_seq mx)"
    using replay_entry_ok[OF rep wx] by auto
  obtain md pl h' where hy: "md_hlc_timestamp md = Some h'" "fst y = encode_replay_key h' (md_publisher_id md) (md_seq md)"
    "replay_entry js w y = Some (stored_event md pl)"
    using replay_entry_ok[OF rep wy] by auto
  have "\<not> fst y < fst x" using x(3) by simp
  then have "h \<le> h'" using hx hy(2) replay_key_less
    by (metis less_prod_simp linorder_not_le)
  moreover obtain b where "rf_before_hlc f = Some b" "b \<le> h"
    using x(2) hx by (auto simp: replay_stops_def ge_opt_def split: option.splits)
  ultimately have "\<not> replay_match f (stored_event md pl)"
    using hy(1) by (auto simp: replay_match_def stored_event_def not_less split: option.splits)
  then show ?thesis using hy(3) by (simp add: keep_def)
qed

lemma replay_result:
  assumes ok: "fjall_ok ops vw" and rep: "replay_ok js (vw (fb_db b))" and q: "query_replay ops js f b = Ok rs"
  shows "rs = upto (rf_limit f) (filter (replay_match f) (replay_list js (vw (fb_db b))))"
proof -
  let ?w = "vw (fb_db b)"
  let ?es = "entries (?w Replay)" and ?g = "\<lambda>x. keep (replay_match f) (replay_entry js ?w x)"
  let ?tw = "takeWhile (\<lambda>x. \<not> replay_stops f x) ?es" and ?dw = "dropWhile (\<lambda>x. \<not> replay_stops f x) ?es"
  have fin: "finite (dom (?w Replay))" using fjall_finite[OF ok] .
  have loop: "scan_loop (replay_step ops js (fb_db b) f) ''replay scan error: '' (rf_limit f)
      (cut_scan (replay_stops f) (kv_iter ops (fb_db b) Replay)) [] = Ok rs"
    using q by (simp add: query_replay_def replay_loop_scan)
  have sc: "scan_of (cut_scan (replay_stops f) (kv_iter ops (fb_db b) Replay)) ?tw"
    by (rule cut_scan_of[OF fjall_iter[OF ok]])
  have "\<forall>x \<in> set ?tw. \<forall>y. replay_step ops js (fb_db b) f x = Ok y \<longrightarrow> y = ?g x"
  proof (intro ballI allI impI)
    fix x y assume x: "x \<in> set ?tw" and st: "replay_step ops js (fb_db b) f x = Ok y"
    have "?w Replay (fst x) = Some (snd x)"
      using set_takeWhileD[OF x] entries_mem[OF fin] by (metis prod.collapse)
    then show "y = ?g x" using replay_step_entry[OF ok rep _ _ st] set_takeWhileD[OF x] by simp
  qed
  from scan_loop_sound[OF sc this loop] have "rs = upto (rf_limit f) (List.map_filter ?g ?tw)"
    by (simp add: upto_def)
  moreover have "List.map_filter ?g ?es = List.map_filter ?g ?tw @ List.map_filter ?g ?dw"
    by (metis map_filter_append takeWhile_dropWhile_id)
  moreover have "List.map_filter ?g ?dw = []"
    using past_bound_no_match[OF rep fin] by (simp add: map_filter_Nil)
  ultimately show ?thesis by (simp add: replay_list_def map_filter_keep)
qed

lemma replay_full:
  assumes ok: "fjall_ok ops vw" and ev: "events_ok js (vw (fb_db b))" and rep: "replay_ok js (vw (fb_db b))"
    and q: "query_replay ops js f b = Ok rs"
  defines "full \<equiv> filter (replay_match f) (replay_list js (vw (fb_db b)))"
  shows "set full = {e \<in> stored_events js (vw (fb_db b)). replay_match f e}"
    and "sorted_wrt (\<lambda>x y. hlc_pos x < hlc_pos y) full"
    and "rs = (case rf_limit f of None \<Rightarrow> full | Some n \<Rightarrow> take (max 1 n) full)"
proof -
  note fin = fjall_finite[OF ok, of "fb_db b" Replay]
  have "has_hlc e" if "replay_match f e" for e
    using that by (auto simp: replay_match_def has_hlc_def split: option.splits)
  then show "set full = {e \<in> stored_events js (vw (fb_db b)). replay_match f e}"
    using replay_list_set[OF rep ev fin] by (auto simp: full_def)
  show "sorted_wrt (\<lambda>x y. hlc_pos x < hlc_pos y) full"
    unfolding full_def using sorted_filter_pos replay_list_sorted[OF rep fin] by blast
  show "rs = (case rf_limit f of None \<Rightarrow> full | Some n \<Rightarrow> take (max 1 n) full)"
    using replay_result[OF ok rep q] by (simp add: upto_def room_def full_def split: option.splits)
qed

text \<open>
  Events without an HLC timestamp have no entry in the replay index and are never returned, whatever the filters;
  the documentation of the trait promises them in the order of their timestamps instead.
\<close>

theorem replay_omits_events_without_hlc:
  assumes "fjall_ok ops vw" and "events_ok js (vw (fb_db b))" and "replay_ok js (vw (fb_db b))"
    and "query_replay ops js f b = Ok rs" and "\<not> has_hlc e"
  shows "e \<notin> set rs"
proof
  note full = replay_full[OF assms(1-4)]
  assume "e \<in> set rs"
  then have "e \<in> set (filter (replay_match f) (replay_list js (vw (fb_db b))))"
    unfolding full(3) by (cases "rf_limit f") (auto dest: in_set_takeD)
  then have "replay_match f e" by simp
  then show False using assms(5) by (cases "md_hlc_timestamp (se_metadata e)") (simp_all add: replay_match_def has_hlc_def)
qed

text \<open>
  C5. Deterministic replay.  On a store whose replay index agrees with its events, all of which carry an HLC timestamp,
  a replay query with a limit other than zero that succeeds returns exactly the stored events that pass the HLC
  bounds, the publisher filter and the key filter, in (HLC, publisher, sequence) order, cut to the limit.  The result depends on the
  set of stored events alone: two such stores that hold the same events, however they came by them, answer a
  replay query identically.  (Events without an HLC timestamp are the case of the theorem above.)
\<close>

theorem replay_deterministic:
  assumes "fjall_ok ops vw" and "events_ok js (vw (fb_db b))" and "replay_ok js (vw (fb_db b))"
    and "\<forall>e \<in> stored_events js (vw (fb_db b)). has_hlc e" and "rf_limit f \<noteq> Some 0"
    and "query_replay ops js f b = Ok rs"
  shows "(\<exists>full. set full = {e \<in> stored_events js (vw (fb_db b)). replay_match f e}
       \<and> sorted_wrt (\<lambda>x y. hlc_pos x < hlc_pos y) full
       \<and> rs = (case rf_limit f of None \<Rightarrow> full | Some n \<Rightarrow> take n full))
    \<and> (\<forall>b' rs'. events_ok js (vw (fb_db b')) \<and> replay_ok js (vw (fb_db b'))
         \<and> stored_events js (vw (fb_db b')) = stored_events js (vw (fb_db b))
         \<and> query_replay ops js f b' = Ok rs' \<longrightarrow> rs' = rs)"
proof (intro conjI allI impI)
  note full = replay_full[OF assms(1-3,6)]
  have "rs = (case rf_limit f of None \<Rightarrow> filter (replay_match f) (replay_list js (vw (fb_db b)))
      | Some n \<Rightarrow> take n (filter (replay_match f) (replay_list js (vw (fb_db b)))))"
  proof (cases "rf_limit f")
    case (Some n)
    then have "max 1 n = n" using assms(5) by simp
    then show ?thesis using full(3) Some by simp
  qed (use full(3) in simp)
  then show "\<exists>full. set full = {e \<in> stored_events js (vw (fb_db b)). replay_match f e}
       \<and> sorted_wrt (\<lambda>x y. hlc_pos x < hlc_pos y) full
       \<and> rs = (case rf_limit f of None \<Rightarrow> full | Some n \<Rightarrow> take n full)"
    using full(1,2) by blast
  fix b' rs'
  assume b': "events_ok js (vw (fb_db b')) \<and> replay_ok js (vw (fb_db b'))
         \<and> stored_events js (vw (fb_db b')) = stored_events js (vw (fb_db b)) \<and> query_replay ops js f b' = Ok rs'"
  then have full': "set (filter (replay_match f) (replay_list js (vw (fb_db b'))))
      = set (filter (replay_match f) (replay_list js (vw (fb_db b))))"
    using replay_full(1)[OF assms(1), of js b' f rs'] full(1) by simp
  have eq: "filter (replay_match f) (replay_list js (vw (fb_db b'))) = filter (replay_match f) (replay_list js (vw (fb_db b)))"
    by (rule sorted_wrt_key_unique[OF _ full(2) full']) (use replay_full(2)[OF assms(1), of js b' f rs'] b' in blast)
  have rs': "rs' = (case rf_limit f of None \<Rightarrow> filter (replay_match f) (replay_list js (vw (fb_db b')))
      | Some n \<Rightarrow> take (max 1 n) (filter (replay_match f) (replay_list js (vw (fb_db b')))))"
    using replay_full(3)[OF assms(1), of js b' f rs'] b' by blast
  show "rs' = rs" unfolding rs' full(3) eq ..
qed

section \<open>Keeping the index in step\<close>

lemma event_batch_replay:
  "fold apply_op (event_batch js key ev md) w Replay =
     (case replay_key_of md of None \<Rightarrow> w Replay
      | Some rk \<Rightarrow> (w Replay)(rk \<mapsto> encode_event_key (md_publisher_id md) (md_seq md)))"
  by (simp add: event_batch_def Let_def replay_key_of_def split: option.splits)

lemma replay_key_of_pos:
  "replay_key_of md = Some rk \<Longrightarrow> replay_key_of md' = Some rk \<Longrightarrow>
   md_publisher_id md = md_publisher_id md' \<and> md_seq md = md_seq md'"
  by (auto simp: replay_key_of_def)

lemma put_event_replay:
  assumes js: "json_ok js" "fits js md" and ev: "events_ok js w" and rep: "replay_ok js w"
    and w': "w' Events = put_event js (key, pl, md) (w Events)"
      "w' Replay = (case replay_key_of md of None \<Rightarrow> w Replay
        | Some rk \<Rightarrow> (w Replay)(rk \<mapsto> encode_event_key (md_publisher_id md) (md_seq md)))"
    and same: "\<And>v m p. w Events (encode_event_key (md_publisher_id md) (md_seq md)) = Some v \<Longrightarrow>
      decode_event_value js v = Ok (m, p) \<Longrightarrow> replay_key_of m = replay_key_of md"
  shows "replay_ok js w'"
  unfolding replay_ok_def
proof (intro allI)
  fix rk ek
  let ?k = "encode_event_key (md_publisher_id md) (md_seq md)"
  let ?R = "\<lambda>w. \<exists>v m p. w Events ek = Some v \<and> decode_event_value js v = Ok (m, p) \<and> replay_key_of m = Some rk
        \<and> ek = encode_event_key (md_publisher_id m) (md_seq m)"
  have dec: "decode_event_value js (encode_event_value js md pl) = Ok (md, pl)"
    using js by (simp add: decode_encode_event_value fits_def)
  have old: "w Replay rk = Some ek \<longleftrightarrow> ?R w" using rep unfolding replay_ok_def by blast
  show "w' Replay rk = Some ek \<longleftrightarrow> ?R w'"
  proof (cases "ek = ?k")
    case True
    have "?R w' \<longleftrightarrow> replay_key_of md = Some rk" using True dec by (auto simp: w'(1) put_event_def)
    moreover have "w Replay rk = Some ek \<Longrightarrow> replay_key_of md = Some rk" using old True same by metis
    ultimately show ?thesis using True by (auto simp: w'(2) split: option.splits)
  next
    case False
    then have "?R w' \<longleftrightarrow> ?R w" by (simp add: w'(1) put_event_def)
    moreover have "w Replay rk \<noteq> Some ek" if "replay_key_of md = Some rk"
    proof
      assume "w Replay rk = Some ek"
      then obtain m where "replay_key_of m = Some rk" "ek = encode_event_key (md_publisher_id m) (md_seq m)"
        using old by blast
      with False replay_key_of_pos[OF that] show False by simp
    qed
    ultimately show ?thesis using old False by (auto simp: w'(2) split: option.splits)
  qed
qed

lemma store_replay_ok:
  assumes ok: "fjall_ok ops vw" and js: "json_ok js" "fits js md"
    and ev: "events_ok js (vw (fb_db b))" and rep: "replay_ok js (vw (fb_db b))"
    and st: "store ops js key pl md b = (b', Ok ())"
    and same: "\<And>v m p. vw (fb_db b) Events (encode_event_key (md_publisher_id md) (md_seq md)) = Some v \<Longrightarrow>
      decode_event_value js v = Ok (m, p) \<Longrightarrow> replay_key_of m = replay_key_of md"
  shows "replay_ok js (vw (fb_db b'))"
proof -
  obtain d st' where d: "kv_commit ops (fb_db b) (event_batch js key pl md @ [committed_op (md_publisher_id md) st']) = (d, Ok ())"
    and b': "fb_db b' = d"
    using st by (auto simp: store_def store_err_def Let_def split: prod.splits sum.splits)
  have e: "vw d Events = put_event js (key, pl, md) (vw (fb_db b) Events)"
    using fjall_commit[OF ok d] by (simp add: event_batch_events)
  have r: "vw d Replay = (case replay_key_of md of None \<Rightarrow> vw (fb_db b) Replay
        | Some rk \<Rightarrow> (vw (fb_db b) Replay)(rk \<mapsto> encode_event_key (md_publisher_id md) (md_seq md)))"
    using fjall_commit[OF ok d] by (simp add: event_batch_replay committed_op_def)
  show ?thesis unfolding b' by (rule put_event_replay[OF js ev rep e r same])
qed

text \<open>The one-event store of the query witnesses also has its replay entry.\<close>

definition demo_b :: "mem_db FjallBackend" where
  "demo_b = fst (store mem_ops unary_json ''a'' [7] (demo_md 1 0) (backend_empty mem_empty 0))"

lemma demo_replay:
  "events_ok unary_json (mem_view (fb_db demo_b))" "replay_ok unary_json (mem_view (fb_db demo_b))"
  "stored_events unary_json (mem_view (fb_db demo_b)) = {stored_event (demo_md 1 0) [7]}"
  "query_replay mem_ops unary_json rf_default demo_b = Ok [stored_event (demo_md 1 0) [7]]"
proof -
  let ?b0 = "backend_empty mem_empty 0"
  have b: "store mem_ops unary_json ''a'' [7] (demo_md 1 0) ?b0 = (demo_b, Ok ())"
    using mem_store_ok[of unary_json "''a''" "[7]" "demo_md 1 0"] by (auto simp: demo_b_def)
  have ok0: "events_ok unary_json (mem_view (fb_db ?b0))" "stored_events unary_json (mem_view (fb_db ?b0)) = {}"
    "replay_ok unary_json (mem_view (fb_db ?b0))"
    by (simp_all add: backend_empty_def mem_events_ok replay_ok_def) (simp_all add: mem_view_def mem_empty_def)
  have none: "mem_view (fb_db ?b0) Events k = None" for k by (simp add: mem_view_def mem_empty_def backend_empty_def)
  have "mem_view (fb_db demo_b) Events = put_event unary_json (''a'', [7], demo_md 1 0) (mem_view (fb_db ?b0) Events)"
    using store_inv[OF mem_fjall_ok mem_backend_inv b] by blast
  note ev = put_event_events[OF unary_json_ok fits_demo ok0(1), where w' = "mem_view (fb_db demo_b)", OF this]
  then show "events_ok unary_json (mem_view (fb_db demo_b))"
    "stored_events unary_json (mem_view (fb_db demo_b)) = {stored_event (demo_md 1 0) [7]}"
    using ok0(2) by auto
  show "replay_ok unary_json (mem_view (fb_db demo_b))"
    using store_replay_ok[OF mem_fjall_ok unary_json_ok fits_demo ok0(1,3) b] none by simp
  show "query_replay mem_ops unary_json rf_default demo_b = Ok [stored_event (demo_md 1 0) [7]]"
    by code_simp
qed

theorem replay_deterministic_witness:
  "\<exists>rs. query_replay mem_ops unary_json rf_default demo_b = Ok rs
     \<and> set rs = {e \<in> stored_events unary_json (mem_view (fb_db demo_b)). replay_match rf_default e}
     \<and> rs = [stored_event (demo_md 1 0) [7]]"
proof -
  have "\<forall>e \<in> stored_events unary_json (mem_view (fb_db demo_b)). has_hlc e"
    using demo_replay(3) by (simp add: has_hlc_def stored_event_def demo_md_def)
  then have "set [stored_event (demo_md 1 0) [7]] = {e \<in> stored_events unary_json (mem_view (fb_db demo_b)). replay_match rf_default e}"
    using replay_deterministic[OF mem_fjall_ok demo_replay(1,2) _ _ demo_replay(4)] by (auto simp: rf_default_def)
  then show ?thesis using demo_replay(4) by blast
qed

end
