(* ===== verification/Backend_Gc.thy ===== *)
theory Backend_Gc
  imports Backend_Replay
begin

text \<open>
  Garbage collection of \<^verbatim>\<open>FjallBackend\<close>: exactly the events older than the bound leave the store,
  with their replay entries; watermarks do not change.
\<close>

definition removal :: "batch_op \<Rightarrow> bool" where
  "removal x = (case x of BRemove _ _ \<Rightarrow> True | BInsert _ _ _ \<Rightarrow> False)"

definition gc_entry :: "json_codec \<Rightarrow> DateTime \<Rightarrow> bytes \<times> bytes \<Rightarrow> (bytes \<times> string \<times> HlcTimestamp option) option" where
  "gc_entry js t kv =
     (case decode_event_value js (snd kv) of
        Ok (md, _) \<Rightarrow> if md_timestamp md < t then Some (fst kv, md_key_expr md, md_hlc_timestamp md) else None
      | Err _ \<Rightarrow> None)"

definition expired :: "DateTime \<Rightarrow> StoredEvent \<Rightarrow> bool" where
  "expired t e \<longleftrightarrow> md_timestamp (se_metadata e) < t"

lemma fold_removals:
  "\<forall>x \<in> set xs. removal x \<Longrightarrow> fold apply_op xs w ks k = (if BRemove ks k \<in> set xs then None else w ks k)"
proof (induction xs arbitrary: w)
  case Nil
  then show ?case by simp
next
  case (Cons x xs)
  then obtain ks' k' where "x = BRemove ks' k'" by (cases x) (auto simp: removal_def)
  with Cons show ?case by auto
qed

lemma gc_scan_Ok:
  "gc_scan js t xs = Ok l \<Longrightarrow> \<exists>es. xs = map Inr es \<and> l = List.map_filter (gc_entry js t) es"
proof (induction xs arbitrary: l)
  case Nil
  then show ?case by simp
next
  case (Cons x xs)
  then obtain k v where x: "x = Inr (k, v)" by (cases x) auto
  then obtain md pl tail where d: "decode_event_value js v = Ok (md, pl)" "gc_scan js t xs = Ok tail"
    "l = (if md_timestamp md < t then (k, md_key_expr md, md_hlc_timestamp md) # tail else tail)"
    using Cons.prems by auto
  then obtain es where "xs = map Inr es" "tail = List.map_filter (gc_entry js t) es" using Cons.IH by blast
  then have "x # xs = map Inr ((k, v) # es)" "l = List.map_filter (gc_entry js t) ((k, v) # es)"
    using x d by (simp_all add: gc_entry_def)
  then show ?case by (intro exI[of _ "(k, v) # es"] conjI)
qed

lemma gc_entry_iff:
  "gc_entry js t (k, v) = Some (k', ke, h) \<longleftrightarrow> k' = k \<and> (\<exists>md pl. decode_event_value js v = Ok (md, pl)
      \<and> md_timestamp md < t \<and> ke = md_key_expr md \<and> h = md_hlc_timestamp md)"
  by (auto simp: gc_entry_def split: sum.splits if_splits)

lemma gc_removals: "\<forall>x \<in> set (gc_ops l). removal x"
  by (auto simp: gc_ops_def removal_def remove_replay_def split: option.splits)

lemma gc_ops_events: "BRemove Events k \<in> set (gc_ops l) \<longleftrightarrow> k \<in> fst ` set l"
  by (force simp: gc_ops_def remove_replay_def split: option.splits)

lemma gc_ops_replay: "BRemove Replay rk \<in> set (gc_ops l) \<longleftrightarrow>
   (\<exists>k ke h p s. (k, ke, Some h) \<in> set l \<and> decode_event_key k = Some (p, s) \<and> rk = encode_replay_key h p s)"
  by (force simp: gc_ops_def remove_replay_def split: option.splits)

lemma sorted_pos_distinct:
  fixes k :: "'a \<Rightarrow> 'b::linorder"
  shows "sorted_wrt (\<lambda>x y. k x < k y) xs \<Longrightarrow> distinct xs"
  by (induction xs) auto

lemma gc_length:
  assumes "\<forall>x \<in> set es. \<exists>md pl. decode_event_value js (snd x) = Ok (md, pl)"
  shows "length (List.map_filter (gc_entry js t) es) = length (filter (expired t) (List.map_filter (entry_event js) es))"
  using assms
proof (induction es)
  case Nil
  then show ?case by simp
next
  case (Cons x es)
  then obtain md pl where "decode_event_value js (snd x) = Ok (md, pl)" by auto
  then show ?case using Cons by (simp add: gc_entry_def entry_event_def expired_def stored_event_def)
qed

text \<open>
  Garbage collection removes exactly the events with a timestamp before the bound and reports
  their number; events and replay index stay consistent.  The watermarks do not move, so a collected
  event is still reported durable.
\<close>

theorem gc_exact:
  assumes ok: "fjall_ok ops vw" and ev: "events_ok js (vw (fb_db b))" and rep: "replay_ok js (vw (fb_db b))"
    and gc: "gc ops js t b = (b', Ok n)"
  shows "stored_events js (vw (fb_db b')) = {e \<in> stored_events js (vw (fb_db b)). \<not> expired t e}
    \<and> n = card {e \<in> stored_events js (vw (fb_db b)). expired t e}
    \<and> events_ok js (vw (fb_db b')) \<and> replay_ok js (vw (fb_db b'))
    \<and> publisher_watermarks b' = publisher_watermarks b"
proof -
  let ?w = "vw (fb_db b)" and ?es = "entries (vw (fb_db b) Events)"
  have fin: "finite (dom (?w Events))" using fjall_finite[OF ok] .
  obtain l d where l: "gc_scan js t (kv_iter ops (fb_db b) Events) = Ok l"
    and d: "kv_commit ops (fb_db b) (gc_ops l) = (d, Ok ())" and n: "n = length l"
    and b': "b' = b\<lparr>fb_db := d\<rparr>"
    using gc by (auto simp: gc_def store_err_def Let_def split: sum.splits prod.splits)
  obtain es where es: "kv_iter ops (fb_db b) Events = map Inr es" "l = List.map_filter (gc_entry js t) es"
    using gc_scan_Ok[OF l] by blast
  have ees: "es = ?es"
    using fjall_iter[OF ok, of "fb_db b" Events] es(1)
    by (auto simp: scan_of_def inj_map_eq_map map_eq_append_conv)
  have w': "vw d ks k = (if BRemove ks k \<in> set (gc_ops l) then None else ?w ks k)" for ks k
    using fjall_commit[OF ok d] fold_removals[OF gc_removals] by simp
  have lset: "(k, ke, h) \<in> set l \<longleftrightarrow> (\<exists>v md pl. ?w Events k = Some v \<and> decode_event_value js v = Ok (md, pl)
      \<and> md_timestamp md < t \<and> ke = md_key_expr md \<and> h = md_hlc_timestamp md)" for k ke h
  proof -
    have "(k, ke, h) \<in> set l \<longleftrightarrow> (\<exists>k' v. (k', v) \<in> set ?es \<and> gc_entry js t (k', v) = Some (k, ke, h))"
      unfolding es(2) ees set_map_filter by auto
    then show ?thesis unfolding gc_entry_iff entries_mem[OF fin] by blast
  qed
  have evs: "vw d Events k = Some v \<longleftrightarrow> ?w Events k = Some v \<and> (\<forall>md pl. decode_event_value js v = Ok (md, pl) \<longrightarrow> \<not> md_timestamp md < t)" for k v
    unfolding w' gc_ops_events using lset by (force simp: image_iff)
  have S: "stored_events js (vw d) = {e \<in> stored_events js ?w. \<not> expired t e}"
    unfolding stored_events_def evs by (auto simp: expired_def stored_event_def) fastforce
  have E: "events_ok js (vw d)" using ev unfolding events_ok_def evs by blast
  have R: "replay_ok js (vw d)"
    unfolding replay_ok_def
  proof (intro allI)
    fix rk ek
    let ?Q = "\<lambda>v md pl. ?w Events ek = Some v \<and> decode_event_value js v = Ok (md, pl) \<and> replay_key_of md = Some rk
        \<and> ek = encode_event_key (md_publisher_id md) (md_seq md)"
    have old: "?w Replay rk = Some ek \<longleftrightarrow> (\<exists>v md pl. ?Q v md pl)" using rep unfolding replay_ok_def by blast
    have rem: "BRemove Replay rk \<in> set (gc_ops l) \<longleftrightarrow> md_timestamp md < t" if q: "?Q v md pl" for v md pl
    proof
      assume "BRemove Replay rk \<in> set (gc_ops l)"
      then obtain k ke h p s v' md' pl' where k: "decode_event_key k = Some (p, s)" "rk = encode_replay_key h p s"
        "?w Events k = Some v'" "decode_event_value js v' = Ok (md', pl')" "md_timestamp md' < t"
        unfolding gc_ops_replay lset by auto
      then have "k = encode_event_key (md_publisher_id md') (md_seq md')" using stored_events_pos[OF ev] by blast
      with k have "(md_publisher_id md', md_seq md') = (md_publisher_id md, md_seq md)"
        using q by (auto simp: replay_key_of_def)
      with k q \<open>k = _\<close> show "md_timestamp md < t" by auto
    next
      assume "md_timestamp md < t"
      then show "BRemove Replay rk \<in> set (gc_ops l)"
        unfolding gc_ops_replay lset using q by (fastforce simp: replay_key_of_def)
    qed
    show "vw d Replay rk = Some ek \<longleftrightarrow> (\<exists>v md pl. vw d Events ek = Some v \<and> decode_event_value js v = Ok (md, pl)
        \<and> replay_key_of md = Some rk \<and> ek = encode_event_key (md_publisher_id md) (md_seq md))"
    proof (cases "\<exists>v md pl. ?Q v md pl")
      case False
      then show ?thesis unfolding w'[of Replay] evs using old by (metis option.distinct(1))
    next
      case True
      then obtain v md pl where q: "?Q v md pl" by blast
      then have "?w Replay rk = Some ek" using old by blast
      then have "vw d Replay rk = Some ek \<longleftrightarrow> \<not> md_timestamp md < t" unfolding w' using rem[OF q] by simp
      moreover have "vw d Events ek = Some v' \<longleftrightarrow> v' = v \<and> \<not> md_timestamp md < t" for v'
        unfolding evs using q by auto
      ultimately show ?thesis using q by auto
    qed
  qed
  have "\<forall>x \<in> set es. \<exists>md pl. decode_event_value js (snd x) = Ok (md, pl)"
    using ev entries_mem[OF fin] unfolding ees by (auto simp: events_ok_def) blast
  then have "n = length (filter (expired t) (events_list js ?w))"
    using n es(2) ees gc_length by (simp add: events_list_def)
  also have "\<dots> = card {e \<in> stored_events js ?w. expired t e}"
  proof -
    have "distinct (filter (expired t) (events_list js ?w))"
      using sorted_pos_distinct[OF events_list_sorted[OF ev fin]] by simp
    then show ?thesis using distinct_card events_list_set[where w = ?w, OF fin] by fastforce
  qed
  finally show ?thesis using S E R b' by (simp add: publisher_watermarks_def)
qed

theorem gc_exact_witness:
  "stored_events unary_json (mem_view (fb_db (fst (gc mem_ops unary_json 1 demo_b)))) = {}
   \<and> stored_events unary_json (mem_view (fb_db demo_b)) \<noteq> {}"
proof -
  have "snd (gc mem_ops unary_json 1 demo_b) = Ok 1" by code_simp
  then have g: "gc mem_ops unary_json 1 demo_b = (fst (gc mem_ops unary_json 1 demo_b), Ok 1)"
    by (metis prod.collapse)
  have "expired 1 (stored_event (demo_md 1 0) [7])" by (simp add: expired_def stored_event_def demo_md_def)
  then show ?thesis using gc_exact[OF mem_fjall_ok demo_replay(1,2) g] demo_replay(3) by auto
qed

end
