(* ===== verification/Backend_Offsets.thy ===== *)
theory Backend_Offsets
  imports Backend_Store
begin

text \<open>
  Consumer-group offsets of \<^verbatim>\<open>FjallBackend\<close>: a commit is all-or-nothing, is fenced by generation,
  and is what a later fetch returns.
\<close>

section \<open>Abstraction\<close>

definition offset_of :: "view \<Rightarrow> string \<Rightarrow> PublisherId \<Rightarrow> (u64 \<times> u64) option" where
  "offset_of w g p = Option.bind (w Offsets (offset_key g p)) decode_offset_value"

definition stale :: "view \<Rightarrow> OffsetCommit \<Rightarrow> PublisherId \<Rightarrow> bool" where
  "stale w c p = (case offset_of w (oc_group_id c) p of Some (_, g) \<Rightarrow> oc_generation c < g | None \<Rightarrow> False)"

definition offset_op :: "OffsetCommit \<Rightarrow> PublisherId \<times> u64 \<Rightarrow> batch_op" where
  "offset_op c ps = BInsert Offsets (offset_key (oc_group_id c) (fst ps))
     (encode_offset_value (snd ps) (oc_generation c) (oc_timestamp c))"

text \<open>Keys of the offsets keyspace: 24 bytes for sequence offsets, 16 for keyed offsets.\<close>

definition offsets_ok :: "view \<Rightarrow> bool" where
  "offsets_ok w \<longleftrightarrow> (\<forall>k v. w Offsets k = Some v \<longrightarrow> length k = 24 \<or> length k = 16)"

lemma length_offset_key [simp]: "length (offset_key g p) = 24"
  by (simp add: offset_key_def)

lemma offset_key_pub [simp]: "offset_key g p = offset_key g p' \<longleftrightarrow> p = p'"
  by (simp add: offset_key_def)

lemma offset_key_decode:
  assumes "length k = 24" and "prefix (to_be_bytes (xxhash_group g)) k"
  shows "k = offset_key g (id_from_bytes (take 16 (drop 8 k)))"
proof -
  obtain r where r: "k = to_be_bytes (xxhash_group g) @ r" using assms(2) by (auto simp: prefix_def)
  then have "length r = 16" using assms(1) by simp
  then show ?thesis using r by (simp add: offset_key_def id_to_from_bytes)
qed

section \<open>Committing\<close>

lemma offset_batch_Ok:
  assumes "fjall_ok ops vw"
  shows "offset_batch ops d c ps = Ok bs \<Longrightarrow>
     bs = map (offset_op c) ps \<and> (\<forall>(p, s) \<in> set ps. \<not> stale (vw d) c p)"
proof (induction ps arbitrary: bs)
  case Nil
  then show ?case by simp
next
  case (Cons x ps)
  obtain p s where x: "x = (p, s)" by (cases x)
  let ?get = "kv_get ops d Offsets (offset_key (oc_group_id c) p)"
  obtain e where e: "?get = Ok e" using Cons.prems x by (cases ?get) (auto simp: Let_def)
  have ev: "e = vw d Offsets (offset_key (oc_group_id c) p)" using fjall_get[OF assms e] .
  obtain bs' where bs': "offset_batch ops d c ps = Ok bs'" "bs = offset_op c x # bs'" "\<not> stale (vw d) c p"
    using Cons.prems x e ev
    by (cases "Option.bind e decode_offset_value") (auto simp: Let_def stale_def offset_of_def offset_op_def split: if_splits)
  then show ?case using Cons.IH x by auto
qed

lemma offset_batch_stale:
  assumes "fjall_ok ops vw" and "(p, s) \<in> set ps" and "stale (vw d) c p"
  shows "\<exists>e. offset_batch ops d c ps = Err e"
proof (cases "offset_batch ops d c ps")
  case (Inr bs)
  then show ?thesis using offset_batch_Ok[OF assms(1) Inr] assms(2,3) by auto
qed simp

lemma fold_offset_ops:
  "fold apply_op (map (offset_op c) ps) w ks = (if ks = Offsets then
     (\<lambda>k. case map_of (rev (map (\<lambda>(p, s). (offset_key (oc_group_id c) p,
        encode_offset_value s (oc_generation c) (oc_timestamp c))) ps)) k of Some v \<Rightarrow> Some v | None \<Rightarrow> w Offsets k)
     else w ks)"
proof (induction ps arbitrary: w)
  case Nil
  then show ?case by simp
next
  case (Cons x ps)
  then show ?case
    by (cases x) (auto simp: offset_op_def map_add_def fun_eq_iff split: option.splits)
qed

lemma map_of_offset_keys:
  "hm_wf ps \<Longrightarrow> map_of (rev (map (\<lambda>(p, s). (offset_key g p, encode_offset_value s gen t)) ps)) (offset_key g p)
     = map_option (\<lambda>s. encode_offset_value s gen t) (hm_get ps p)"
proof (induction ps)
  case Nil
  then show ?case by simp
next
  case (Cons x ps)
  have "hm_get ps (fst x) = None" using Cons.prems by (simp add: map_of_eq_None_iff)
  then show ?case
    using Cons by (cases x) (auto simp: map_add_def split: option.splits)
qed

lemma commit_offsets_view:
  assumes ok: "fjall_ok ops vw" and wf: "hm_wf (oc_offsets c)" and co: "commit_offsets ops c b = (b', Ok ())"
  shows "offset_of (vw (fb_db b')) (oc_group_id c) p =
      (case hm_get (oc_offsets c) p of Some s \<Rightarrow> Some (s, oc_generation c)
       | None \<Rightarrow> offset_of (vw (fb_db b)) (oc_group_id c) p)"
    and "\<forall>(p, s) \<in> set (oc_offsets c). \<not> stale (vw (fb_db b)) c p"
    and "offsets_ok (vw (fb_db b)) \<Longrightarrow> offsets_ok (vw (fb_db b'))"
proof -
  obtain bs d where bs: "offset_batch ops (fb_db b) c (oc_offsets c) = Ok bs"
    and d: "kv_commit ops (fb_db b) bs = (d, Ok ())" and b': "fb_db b' = d"
    using co by (auto simp: commit_offsets_def store_err_def Let_def split: sum.splits prod.splits)
  note B = offset_batch_Ok[OF ok bs]
  show "\<forall>(p, s) \<in> set (oc_offsets c). \<not> stale (vw (fb_db b)) c p" using B by blast
  have w: "vw d Offsets k = (case map_of (rev (map (\<lambda>(p, s). (offset_key (oc_group_id c) p,
      encode_offset_value s (oc_generation c) (oc_timestamp c))) (oc_offsets c))) k of
      Some v \<Rightarrow> Some v | None \<Rightarrow> vw (fb_db b) Offsets k)" for k
    using fjall_commit[OF ok d] B fold_offset_ops[of c "oc_offsets c" "vw (fb_db b)" Offsets] by simp
  show "offset_of (vw (fb_db b')) (oc_group_id c) p =
      (case hm_get (oc_offsets c) p of Some s \<Rightarrow> Some (s, oc_generation c)
       | None \<Rightarrow> offset_of (vw (fb_db b)) (oc_group_id c) p)"
    unfolding b' offset_of_def w map_of_offset_keys[OF wf] by (simp split: option.splits)
  show "offsets_ok (vw (fb_db b'))" if "offsets_ok (vw (fb_db b))"
    using that unfolding b' offsets_ok_def w by (auto split: option.splits dest!: map_of_SomeD)
qed

section \<open>Fetching\<close>

lemma fetch_loop_Err: "fetch_loop (map Inr pre @ Inl e # post) m \<noteq> Ok r"
  by (induction pre arbitrary: m) (auto split: option.splits if_splits)

lemma fetch_loop_get:
  "fetch_loop (map Inr es) m = Ok r \<Longrightarrow> distinct (map fst es) \<Longrightarrow>
   \<forall>(k, v) \<in> set es. (length k = 24 \<or> length k = 16) \<and> prefix (to_be_bytes (xxhash_group g)) k \<Longrightarrow>
   hm_get r p = (case Option.bind (map_of es (offset_key g p)) decode_offset_value of
      Some (s, _) \<Rightarrow> Some s | None \<Rightarrow> hm_get m p)"
proof (induction es arbitrary: m)
  case Nil
  then show ?case by simp
next
  case (Cons x es)
  obtain k v where x: "x = (k, v)" by (cases x)
  show ?case
  proof (cases "length k < 24")
    case True
    then have "k \<noteq> offset_key g p" by auto
    then show ?thesis using Cons True x by simp
  next
    case False
    then have k: "k = offset_key g (id_from_bytes (take 16 (drop 8 k)))"
      using Cons.prems(3) x offset_key_decode by auto
    let ?q = "id_from_bytes (take 16 (drop 8 k))"
    have none: "map_of es k = None" using Cons.prems(2) x by (simp add: map_of_eq_None_iff)
    have eq: "offset_key g p = k \<longleftrightarrow> p = ?q" using k by (metis offset_key_pub)
    show ?thesis
    proof (cases "decode_offset_value v")
      case None
      then show ?thesis using Cons False x eq none by (auto split: option.splits)
    next
      case (Some sg)
      then show ?thesis
        using Cons.IH[of "hm_insert ?q (fst sg) m"] Cons.prems False x eq none
        by (cases sg) (auto split: option.splits)
    qed
  qed
qed

lemma fetch_offsets_abs:
  assumes ok: "fjall_ok ops vw" and inv: "offsets_ok (vw (fb_db b))" and fe: "fetch_offsets ops g b = Ok m"
  shows "hm_get m p = map_option fst (offset_of (vw (fb_db b)) g p)"
proof -
  let ?w = "vw (fb_db b) Offsets" and ?h = "to_be_bytes (xxhash_group g)"
  let ?es = "filter (\<lambda>(k, _). prefix ?h k) (entries ?w)"
  have fin: "finite (dom ?w)" using fjall_finite[OF ok] .
  have it: "kv_prefix ops (fb_db b) Offsets ?h = map Inr ?es"
    using fjall_prefix[OF ok, of "fb_db b" Offsets ?h] fe fetch_loop_Err by (auto simp: scan_of_def fetch_offsets_def)
  have ds: "distinct (map fst ?es)" using entries_distinct[of ?w] by (rule distinct_map_filter)
  have "\<forall>(k, v) \<in> set ?es. (length k = 24 \<or> length k = 16) \<and> prefix ?h k"
    using inv entries_mem[OF fin] by (auto simp: offsets_ok_def)
  note get = fetch_loop_get[OF _ ds this]
  have "map_of ?es (offset_key g p) = ?w (offset_key g p)"
    using hm_get_filter[OF entries_distinct[of ?w]] map_of_entries[OF fin]
    by (auto simp: offset_key_def split: option.splits)
  with get[of "[]" m p] fe it show ?thesis
    by (auto simp: fetch_offsets_def offset_of_def split: option.splits)
qed

text \<open>
  C20. Offset commits are fenced and all-or-nothing.  A successful commit stores exactly its sequences
  under its generation, leaves every other publisher's offset of the group, and is returned by the
  next fetch; it can only succeed when no committed publisher has an offset from a newer generation.
  When some publisher of the commit does have one, the commit fails and the database is untouched.
\<close>

theorem offset_commit_fenced:
  assumes "fjall_ok ops vw" and "hm_wf (oc_offsets c)" and "offsets_ok (vw (fb_db b))"
    and "commit_offsets ops c b = (b', r)"
  shows "(r = Ok () \<longrightarrow>
       (\<forall>p. \<not> (p \<in> dom (hm_get (oc_offsets c)) \<and> stale (vw (fb_db b)) c p))
       \<and> (\<forall>m p. fetch_offsets ops (oc_group_id c) b' = Ok m \<longrightarrow>
            hm_get m p = (case hm_get (oc_offsets c) p of Some s \<Rightarrow> Some s
              | None \<Rightarrow> map_option fst (offset_of (vw (fb_db b)) (oc_group_id c) p))))
     \<and> (\<forall>p. p \<in> dom (hm_get (oc_offsets c)) \<and> stale (vw (fb_db b)) c p \<longrightarrow> b' = b \<and> r \<noteq> Ok ())"
proof (intro conjI impI allI)
  assume "r = Ok ()"
  then have co: "commit_offsets ops c b = (b', Ok ())" using assms(4) by simp
  note V = commit_offsets_view[OF assms(1,2) co]
  show "\<not> (p \<in> dom (hm_get (oc_offsets c)) \<and> stale (vw (fb_db b)) c p)" for p
    using V(2) by (fastforce dest: map_of_SomeD)
  show "hm_get m p = (case hm_get (oc_offsets c) p of Some s \<Rightarrow> Some s
      | None \<Rightarrow> map_option fst (offset_of (vw (fb_db b)) (oc_group_id c) p))"
    if "fetch_offsets ops (oc_group_id c) b' = Ok m" for m p
    using fetch_offsets_abs[OF assms(1) V(3)[OF assms(3)] that] V(1) by (simp split: option.splits)
next
  fix p assume p: "p \<in> dom (hm_get (oc_offsets c)) \<and> stale (vw (fb_db b)) c p"
  then obtain s where "(p, s) \<in> set (oc_offsets c)" by (auto dest: map_of_SomeD)
  then obtain e where "offset_batch ops (fb_db b) c (oc_offsets c) = Err e"
    using offset_batch_stale[OF assms(1)] p by blast
  then show "b' = b" "r \<noteq> Ok ()" using assms(4) by (auto simp: commit_offsets_def)
qed

definition demo_commit :: "u64 \<Rightarrow> u64 \<Rightarrow> OffsetCommit" where
  "demo_commit gen s = \<lparr>oc_group_id = ''g'', oc_member_id = ''m'', oc_partition = 0, oc_offsets = [(1, s)],
     oc_generation = gen, oc_timestamp = 0\<rparr>"

theorem offset_commit_fenced_witness:
  "let b1 = fst (commit_offsets mem_ops (demo_commit 5 10) (backend_empty mem_empty 0))
   in snd (commit_offsets mem_ops (demo_commit 5 10) (backend_empty mem_empty 0)) = Ok ()
    \<and> commit_offsets mem_ops (demo_commit 4 99) b1 = (b1, Err (StaleFencedCommit ''g'' 4 5))"
proof -
  obtain b1 where b1: "commit_offsets mem_ops (demo_commit 5 10) (backend_empty mem_empty 0) = (b1, Ok ())"
  proof -
    have "snd (commit_offsets mem_ops (demo_commit 5 10) (backend_empty mem_empty 0)) = Ok ()"
      by (simp add: commit_offsets_def mem_ops_def backend_empty_def mem_empty_def demo_commit_def store_err_def)
    then show thesis using that by (metis prod.collapse)
  qed
  have ok0: "offsets_ok (mem_view (fb_db (backend_empty mem_empty 0)))"
    by (simp add: offsets_ok_def mem_view_def backend_empty_def mem_empty_def)
  have wf: "hm_wf (oc_offsets (demo_commit g s))" for g s by (simp add: demo_commit_def)
  note V = commit_offsets_view[OF mem_fjall_ok wf b1]
  have st: "stale (mem_view (fb_db b1)) (demo_commit 4 99) 1" "1 \<in> dom (hm_get (oc_offsets (demo_commit 4 99)))"
    using V(1)[of 1] by (simp_all add: stale_def demo_commit_def)
  obtain b2 r where r: "commit_offsets mem_ops (demo_commit 4 99) b1 = (b2, r)" by (cases "commit_offsets mem_ops (demo_commit 4 99) b1")
  then have "b2 = b1" "r \<noteq> Ok ()"
    using offset_commit_fenced[OF mem_fjall_ok wf V(3)[OF ok0] r] st by blast+
  moreover have "snd (commit_offsets mem_ops (demo_commit 4 99)
      (fst (commit_offsets mem_ops (demo_commit 5 10) (backend_empty mem_empty 0)))) = Err (StaleFencedCommit ''g'' 4 5)"
    by (simp add: commit_offsets_def mem_ops_def backend_empty_def mem_empty_def demo_commit_def store_err_def)
  ultimately show ?thesis using b1 r by (simp add: Let_def)
qed

end
