(* ===== verification/Lifecycle.thy ===== *)
theory Lifecycle
  imports Prelude
begin

text \<open>
  \<^verbatim>\<open>mitiflow/src/store/lifecycle.rs\<close>: the lifecycle of a publisher in the store (active, suspected,
  draining, archived).  Every handler reads the clock; the clock value is an argument.  Runs are the
  inductive predicate \<open>lc_reach\<close> over handler calls with a non-decreasing clock.
\<close>

section \<open>State and handlers\<close>

datatype PublisherState = Active | Suspected | Draining | Archived

record PublisherLiveness =
  pl_state :: PublisherState
  pl_last_activity :: Instant
  pl_liveliness_live :: bool
  pl_suspicion_deadline :: "Instant option"
  pl_drain_deadline :: "Instant option"

definition new_active :: "Instant \<Rightarrow> PublisherLiveness" where
  "new_active now = \<lparr>pl_state = Active, pl_last_activity = now, pl_liveliness_live = True,
     pl_suspicion_deadline = None, pl_drain_deadline = None\<rparr>"

record LifecycleConfig =
  lc_inactivity_timeout :: Duration
  lc_drain_grace_period :: Duration

definition lifecycle_config_default :: LifecycleConfig where
  "lifecycle_config_default = \<lparr>lc_inactivity_timeout = 300 * 10 ^ 9, lc_drain_grace_period = 120 * 10 ^ 9\<rparr>"

record LifecycleManager =
  lm_publishers :: "(PublisherId, PublisherLiveness) hmap"
  lm_config :: LifecycleConfig
  lm_epoch :: u64

definition lm_new :: "LifecycleConfig \<Rightarrow> LifecycleManager" where
  "lm_new config = \<lparr>lm_publishers = [], lm_config = config, lm_epoch = 0\<rparr>"

definition reactivate :: "PublisherLiveness \<Rightarrow> PublisherLiveness" where
  "reactivate e = e\<lparr>pl_state := Active, pl_suspicion_deadline := None, pl_drain_deadline := None\<rparr>"

definition on_activity :: "Instant \<Rightarrow> PublisherId \<Rightarrow> LifecycleManager \<Rightarrow> LifecycleManager" where
  "on_activity now pub_id m =
     (let (e, epoch) = (case hm_get (lm_publishers m) pub_id of
                          Some e \<Rightarrow> (e, lm_epoch m)
                        | None \<Rightarrow> (new_active now, lm_epoch m + 1));
          e = e\<lparr>pl_last_activity := now\<rparr>;
          (e, epoch) = (case pl_state e of
                          Suspected \<Rightarrow> (reactivate e, epoch + 1)
                        | Draining \<Rightarrow> (reactivate e, epoch + 1)
                        | Archived \<Rightarrow> (reactivate e, epoch + 1)
                        | Active \<Rightarrow> (e, epoch))
      in m\<lparr>lm_publishers := hm_insert pub_id e (lm_publishers m), lm_epoch := epoch\<rparr>)"

definition on_liveliness_revoked :: "Instant \<Rightarrow> PublisherId \<Rightarrow> LifecycleManager \<Rightarrow> LifecycleManager" where
  "on_liveliness_revoked now pub_id m =
     (case hm_get (lm_publishers m) pub_id of
        None \<Rightarrow> m
      | Some e \<Rightarrow>
          (let e = e\<lparr>pl_liveliness_live := False\<rparr>
           in if pl_state e = Active
              then m\<lparr>lm_publishers := hm_insert pub_id
                       (e\<lparr>pl_state := Suspected,
                          pl_suspicion_deadline := Some (now + lc_inactivity_timeout (lm_config m))\<rparr>)
                       (lm_publishers m),
                     lm_epoch := lm_epoch m + 1\<rparr>
              else m\<lparr>lm_publishers := hm_insert pub_id e (lm_publishers m)\<rparr>))"

definition on_liveliness_restored :: "PublisherId \<Rightarrow> LifecycleManager \<Rightarrow> LifecycleManager" where
  "on_liveliness_restored pub_id m =
     (case hm_get (lm_publishers m) pub_id of
        None \<Rightarrow> m
      | Some e \<Rightarrow>
          (let e = e\<lparr>pl_liveliness_live := True\<rparr>
           in if pl_state e = Suspected
              then m\<lparr>lm_publishers := hm_insert pub_id
                       (e\<lparr>pl_state := Active, pl_suspicion_deadline := None\<rparr>) (lm_publishers m),
                     lm_epoch := lm_epoch m + 1\<rparr>
              else m\<lparr>lm_publishers := hm_insert pub_id e (lm_publishers m)\<rparr>))"

text \<open>One entry at a tick: the entry afterwards and whether it changed state.\<close>

definition tick_entry :: "LifecycleConfig \<Rightarrow> Instant \<Rightarrow> PublisherLiveness \<Rightarrow> PublisherLiveness" where
  "tick_entry c now e =
     (case pl_state e of
        Active \<Rightarrow>
          if \<not> pl_liveliness_live e \<and> now - pl_last_activity e > lc_inactivity_timeout c
          then e\<lparr>pl_state := Draining, pl_drain_deadline := Some (now + lc_drain_grace_period c)\<rparr>
          else e
      | Suspected \<Rightarrow>
          (case pl_suspicion_deadline e of
             Some deadline \<Rightarrow>
               if now \<ge> deadline
               then e\<lparr>pl_state := Draining, pl_drain_deadline := Some (now + lc_drain_grace_period c),
                      pl_suspicion_deadline := None\<rparr>
               else e
           | None \<Rightarrow> e)
      | Draining \<Rightarrow>
          (case pl_drain_deadline e of
             Some deadline \<Rightarrow>
               if now \<ge> deadline then e\<lparr>pl_state := Archived, pl_drain_deadline := None\<rparr> else e
           | None \<Rightarrow> e)
      | Archived \<Rightarrow> e)"

fun tick_loop :: "LifecycleConfig \<Rightarrow> Instant \<Rightarrow> (PublisherId, PublisherLiveness) hmap
    \<Rightarrow> (PublisherId, PublisherLiveness) hmap \<times> u64 \<times> PublisherId list" where
  "tick_loop c now [] = ([], 0, [])"
| "tick_loop c now ((p, e) # rest) =
     (let e' = tick_entry c now e;
          (rest', bumps, arch) = tick_loop c now rest
      in ((p, e') # rest',
          (if pl_state e' \<noteq> pl_state e then bumps + 1 else bumps),
          (if pl_state e' = Archived \<and> pl_state e \<noteq> Archived then p # arch else arch)))"

definition tick :: "Instant \<Rightarrow> LifecycleManager \<Rightarrow> LifecycleManager \<times> PublisherId list" where
  "tick now m =
     (let (ps, bumps, arch) = tick_loop (lm_config m) now (lm_publishers m)
      in (m\<lparr>lm_publishers := ps, lm_epoch := lm_epoch m + bumps\<rparr>, arch))"

definition counts_in_watermark :: "PublisherState \<Rightarrow> bool" where
  "counts_in_watermark s = (s = Active \<or> s = Suspected \<or> s = Draining)"

definition active_publishers :: "LifecycleManager \<Rightarrow> PublisherId list" where
  "active_publishers m = map fst (filter (\<lambda>(_, e). counts_in_watermark (pl_state e)) (lm_publishers m))"

definition is_watermark_active :: "LifecycleManager \<Rightarrow> PublisherId \<Rightarrow> bool" where
  "is_watermark_active m pub_id =
     (case hm_get (lm_publishers m) pub_id of Some e \<Rightarrow> counts_in_watermark (pl_state e) | None \<Rightarrow> False)"

definition lm_state :: "LifecycleManager \<Rightarrow> PublisherId \<Rightarrow> PublisherState option" where
  "lm_state m pub_id = map_option pl_state (hm_get (lm_publishers m) pub_id)"

definition gc_archived :: "LifecycleManager \<Rightarrow> LifecycleManager \<times> nat" where
  "gc_archived m =
     (let ps = filter (\<lambda>(_, e). pl_state e \<noteq> Archived) (lm_publishers m)
      in (m\<lparr>lm_publishers := ps\<rparr>, length (lm_publishers m) - length ps))"

section \<open>Runs\<close>

datatype lc_event = Activity PublisherId | Revoked PublisherId | Restored PublisherId | Tick | GcArchived

fun lc_apply :: "Instant \<Rightarrow> lc_event \<Rightarrow> LifecycleManager \<Rightarrow> LifecycleManager" where
  "lc_apply now (Activity p) m = on_activity now p m"
| "lc_apply now (Revoked p) m = on_liveliness_revoked now p m"
| "lc_apply now (Restored p) m = on_liveliness_restored p m"
| "lc_apply now Tick m = fst (tick now m)"
| "lc_apply now GcArchived m = fst (gc_archived m)"

inductive lc_reach :: "LifecycleConfig \<Rightarrow> Instant \<Rightarrow> LifecycleManager \<Rightarrow> bool" for c where
  init: "lc_reach c t (lm_new c)"
| step: "lc_reach c t m \<Longrightarrow> t \<le> t' \<Longrightarrow> lc_reach c t' (lc_apply t' ev m)"

text \<open>
  The deadlines of an entry are never earlier than its last activity plus the configured waits.
\<close>

definition entry_inv :: "LifecycleConfig \<Rightarrow> Instant \<Rightarrow> PublisherLiveness \<Rightarrow> bool" where
  "entry_inv c now e \<longleftrightarrow> pl_last_activity e \<le> now \<and>
     (case pl_state e of
        Active \<Rightarrow> True
      | Suspected \<Rightarrow> (\<exists>d. pl_suspicion_deadline e = Some d \<and> pl_last_activity e + lc_inactivity_timeout c \<le> d)
      | Draining \<Rightarrow> (\<exists>d. pl_drain_deadline e = Some d \<and>
          pl_last_activity e + lc_inactivity_timeout c + lc_drain_grace_period c \<le> d)
      | Archived \<Rightarrow> pl_last_activity e + lc_inactivity_timeout c + lc_drain_grace_period c \<le> now)"

definition lc_inv :: "LifecycleConfig \<Rightarrow> Instant \<Rightarrow> LifecycleManager \<Rightarrow> bool" where
  "lc_inv c now m \<longleftrightarrow> lm_config m = c \<and> hm_wf (lm_publishers m)
     \<and> (\<forall>p e. hm_get (lm_publishers m) p = Some e \<longrightarrow> entry_inv c now e)"

lemma tick_loop_map: "fst (tick_loop c now ps) = map (\<lambda>(p, e). (p, tick_entry c now e)) ps"
  by (induction c now ps rule: tick_loop.induct) (auto simp: Let_def split_beta)

lemma tick_publishers: "lm_publishers (fst (tick now m)) = map (\<lambda>(p, e). (p, tick_entry (lm_config m) now e)) (lm_publishers m)"
  by (simp add: tick_def Let_def split_beta tick_loop_map)

lemma tick_config [simp]: "lm_config (fst (tick now m)) = lm_config m"
  by (simp add: tick_def Let_def split_beta)

lemma tick_get: "hm_get (lm_publishers (fst (tick now m))) p
    = map_option (tick_entry (lm_config m) now) (hm_get (lm_publishers m) p)"
  by (simp add: tick_publishers map_of_map)

lemma tick_entry_inv: "entry_inv c t e \<Longrightarrow> t \<le> now \<Longrightarrow> entry_inv c now (tick_entry c now e)"
  by (auto simp: entry_inv_def tick_entry_def split: PublisherState.splits option.splits)

lemma entry_inv_later: "entry_inv c t e \<Longrightarrow> t \<le> now \<Longrightarrow> entry_inv c now e"
  by (auto simp: entry_inv_def split: PublisherState.splits)

lemma lc_inv_insert:
  assumes inv: "lc_inv c t m" and le: "t \<le> now" and e: "entry_inv c now e" and cfg: "lm_config m' = lm_config m"
    and ps: "lm_publishers m' = hm_insert p e (lm_publishers m)"
  shows "lc_inv c now m'"
proof -
  have "entry_inv c now e'" if "((hm_get (lm_publishers m))(p \<mapsto> e)) q = Some e'" for q e'
    using that e inv entry_inv_later[OF _ le] unfolding lc_inv_def by (metis fun_upd_apply option.inject)
  then show ?thesis using inv unfolding lc_inv_def cfg ps hm_get_insert by (metis hm_wf_insert)
qed

definition activity_entry :: "Instant \<Rightarrow> PublisherLiveness option \<Rightarrow> PublisherLiveness" where
  "activity_entry now eo =
     (let e = (case eo of Some e \<Rightarrow> e | None \<Rightarrow> new_active now)\<lparr>pl_last_activity := now\<rparr>
      in if pl_state e = Active then e else reactivate e)"

lemma on_activity_publishers:
  "lm_publishers (on_activity now p m) = hm_insert p (activity_entry now (hm_get (lm_publishers m) p)) (lm_publishers m)"
  by (simp add: on_activity_def activity_entry_def new_active_def Let_def split: option.splits PublisherState.splits)

lemma on_activity_config [simp]: "lm_config (on_activity now p m) = lm_config m"
  by (simp add: on_activity_def Let_def split_beta)

lemma activity_entry_active [simp]: "pl_state (activity_entry now eo) = Active"
  by (simp add: activity_entry_def Let_def reactivate_def)

lemma activity_entry_inv: "entry_inv c now (activity_entry now eo)"
  by (auto simp: entry_inv_def activity_entry_def Let_def reactivate_def split: PublisherState.splits)

lemma revoked_inv:
  assumes "lc_inv c t m" and "t \<le> now"
  shows "lc_inv c now (on_liveliness_revoked now p m)"
proof (cases "hm_get (lm_publishers m) p")
  case None
  then show ?thesis
    using assms entry_inv_later unfolding on_liveliness_revoked_def lc_inv_def by (metis option.simps(4))
next
  case (Some e)
  then have inv: "entry_inv c t e" and cfg: "lm_config m = c" using assms(1) unfolding lc_inv_def by blast+
  let ?e = "if pl_state e = Active then e\<lparr>pl_liveliness_live := False, pl_state := Suspected,
      pl_suspicion_deadline := Some (now + lc_inactivity_timeout c)\<rparr> else e\<lparr>pl_liveliness_live := False\<rparr>"
  have "entry_inv c now ?e"
    using inv assms(2) by (auto simp: entry_inv_def split: PublisherState.splits)
  then show ?thesis
    by (rule lc_inv_insert[OF assms]) (use Some cfg in \<open>auto simp: on_liveliness_revoked_def Let_def\<close>)
qed

lemma restored_inv:
  assumes "lc_inv c t m" and "t \<le> now"
  shows "lc_inv c now (on_liveliness_restored p m)"
proof (cases "hm_get (lm_publishers m) p")
  case None
  then show ?thesis
    using assms entry_inv_later unfolding on_liveliness_restored_def lc_inv_def by (metis option.simps(4))
next
  case (Some e)
  then have inv: "entry_inv c t e" using assms(1) unfolding lc_inv_def by blast
  let ?e = "if pl_state e = Suspected then e\<lparr>pl_liveliness_live := True, pl_state := Active,
      pl_suspicion_deadline := None\<rparr> else e\<lparr>pl_liveliness_live := True\<rparr>"
  have "entry_inv c now ?e"
    using inv assms(2) by (auto simp: entry_inv_def split: PublisherState.splits)
  then show ?thesis
    by (rule lc_inv_insert[OF assms]) (use Some in \<open>auto simp: on_liveliness_restored_def Let_def\<close>)
qed

lemma tick_inv:
  assumes "lc_inv c t m" and "t \<le> now"
  shows "lc_inv c now (fst (tick now m))"
  using assms tick_entry_inv[OF _ assms(2)] unfolding lc_inv_def tick_get
  by (auto simp del: map_of_eq_Some_iff simp: tick_publishers comp_def split_beta)

lemma gc_inv:
  assumes "lc_inv c t m" and "t \<le> now"
  shows "lc_inv c now (fst (gc_archived m))"
proof -
  have "entry_inv c now e" if get: "hm_get (filter (\<lambda>(_, e). pl_state e \<noteq> Archived) (lm_publishers m)) p = Some e" for p e
  proof -
    have "hm_wf (lm_publishers m)" using assms(1) unfolding lc_inv_def by blast
    note hm_get_filter[OF this, of "\<lambda>(_, e). pl_state e \<noteq> Archived" p]
    then have "hm_get (lm_publishers m) p = Some e"
      using get by (cases "hm_get (lm_publishers m) p") (auto split: if_splits)
    then show ?thesis using assms(1) entry_inv_later[OF _ assms(2)] unfolding lc_inv_def by blast
  qed
  moreover have "hm_wf (filter (\<lambda>(_, e). pl_state e \<noteq> Archived) (lm_publishers m))"
    using assms(1) by (simp add: lc_inv_def distinct_map_filter)
  ultimately show ?thesis using assms(1) unfolding lc_inv_def by (simp add: gc_archived_def Let_def)
qed

lemma lc_reach_inv: "lc_reach c t m \<Longrightarrow> lc_inv c t m"
proof (induction rule: lc_reach.induct)
  case (init t)
  then show ?case by (simp add: lc_inv_def lm_new_def)
next
  case (step t m t' ev)
  then show ?case
    by (cases ev) (auto intro: lc_inv_insert[OF _ _ activity_entry_inv on_activity_config on_activity_publishers]
        revoked_inv restored_inv tick_inv gc_inv)
qed

section \<open>Properties\<close>

lemma tick_loop_arch:
  "set (snd (snd (tick_loop c now ps))) =
     {p. \<exists>e. (p, e) \<in> set ps \<and> pl_state (tick_entry c now e) = Archived \<and> pl_state e \<noteq> Archived}"
  by (induction c now ps rule: tick_loop.induct) (auto simp: Let_def split_beta)

lemma tick_loop_bumps:
  "fst (snd (tick_loop c now ps)) = word_of_nat (length (filter (\<lambda>(p, e). pl_state (tick_entry c now e) \<noteq> pl_state e) ps))"
  by (induction c now ps rule: tick_loop.induct) (auto simp: Let_def split_beta add.commute)

lemma card_changed:
  "hm_wf ps \<Longrightarrow> card {p. map_option f (map_of ps p) \<noteq> map_option g (map_of ps p)} = length (filter (\<lambda>(p, e). f e \<noteq> g e) ps)"
proof -
  assume wf: "hm_wf ps"
  have A: "{p. map_option f (map_of ps p) \<noteq> map_option g (map_of ps p)} = set (map fst (filter (\<lambda>(p, e). f e \<noteq> g e) ps))"
  proof (intro set_eqI)
    fix p
    have "p \<in> {p. map_option f (map_of ps p) \<noteq> map_option g (map_of ps p)} \<longleftrightarrow> (\<exists>e. map_of ps p = Some e \<and> f e \<noteq> g e)"
      by (cases "map_of ps p") auto
    also have "\<dots> \<longleftrightarrow> p \<in> set (map fst (filter (\<lambda>(p, e). f e \<noteq> g e) ps))"
      unfolding map_of_eq_Some_iff[OF wf] by (auto simp: image_iff)
    finally show "p \<in> {p. map_option f (map_of ps p) \<noteq> map_option g (map_of ps p)}
        \<longleftrightarrow> p \<in> set (map fst (filter (\<lambda>(p, e). f e \<noteq> g e) ps))" .
  qed
  have D: "distinct (map fst (filter (\<lambda>(p, e). f e \<noteq> g e) ps))" using wf by (rule distinct_map_filter)
  show ?thesis unfolding A distinct_card[OF D] by simp
qed

text \<open>
  No live publisher is archived: in every run with a non-decreasing clock, a tick archives a
  publisher only when its last event or heartbeat is at least the inactivity timeout plus the drain
  grace period old.
\<close>

theorem archived_only_after_silence:
  assumes "lc_reach c t m" and "t \<le> now" and "p \<in> set (snd (tick now m))"
  shows "\<exists>e. hm_get (lm_publishers m) p = Some e \<and>
    pl_last_activity e + lc_inactivity_timeout c + lc_drain_grace_period c \<le> now"
proof -
  have inv: "lc_inv c t m" using lc_reach_inv[OF assms(1)] .
  then have cfg: "lm_config m = c" and wf: "hm_wf (lm_publishers m)" unfolding lc_inv_def by blast+
  obtain e where e: "(p, e) \<in> set (lm_publishers m)" "pl_state (tick_entry c now e) = Archived" "pl_state e \<noteq> Archived"
    using assms(3) tick_loop_arch[of c now "lm_publishers m"] cfg by (auto simp: tick_def Let_def split_beta)
  have get: "hm_get (lm_publishers m) p = Some e" using e(1) wf by simp
  then have "entry_inv c t e" using inv unfolding lc_inv_def by blast
  then have "pl_last_activity e + lc_inactivity_timeout c + lc_drain_grace_period c \<le> now"
    using e(2,3) by (auto simp: entry_inv_def tick_entry_def split: PublisherState.splits option.splits if_splits)
  with get show ?thesis by blast
qed

theorem archived_only_after_silence_witness:
  "\<exists>e. hm_get (lm_publishers (fst (tick 60 (on_liveliness_revoked 20
          7 (on_activity 10 7 (lm_new \<lparr>lc_inactivity_timeout = 30, lc_drain_grace_period = 5\<rparr>)))))) 7 = Some e
     \<and> pl_last_activity e + 30 + 5 \<le> 65"
proof -
  let ?c = "\<lparr>lc_inactivity_timeout = 30, lc_drain_grace_period = 5\<rparr>"
  let ?m1 = "lc_apply 10 (Activity 7) (lm_new ?c)"
  let ?m3 = "lc_apply 60 Tick (lc_apply 20 (Revoked 7) ?m1)"
  have "lc_reach ?c 10 ?m1" by (rule lc_reach.step[OF lc_reach.init[of _ 0]]) simp
  then have "lc_reach ?c 20 (lc_apply 20 (Revoked 7) ?m1)" by (rule lc_reach.step) simp
  then have r: "lc_reach ?c 60 ?m3" by (rule lc_reach.step) simp
  have "7 \<in> set (snd (tick 65 ?m3))"
    by (simp add: tick_def on_liveliness_revoked_def on_activity_def lm_new_def new_active_def tick_entry_def Let_def)
  from archived_only_after_silence[OF r _ this] show ?thesis by simp
qed

text \<open>
  The epoch counts state transitions: every handler adds to it exactly the number of publishers
  whose lifecycle state it changed (a newly seen publisher counts once), so an unchanged epoch means
  an unchanged publisher set.  Only the collection of archived entries changes the set silently.
\<close>

theorem epoch_counts_transitions:
  assumes "lc_reach c t m" and "ev \<noteq> GcArchived"
  shows "lm_epoch (lc_apply now ev m) = lm_epoch m
     + word_of_nat (card {p. lm_state (lc_apply now ev m) p \<noteq> lm_state m p})"
proof -
  have wf: "hm_wf (lm_publishers m)" using lc_reach_inv[OF assms(1)] unfolding lc_inv_def by blast
  have one: "card {q. (if q = p then a else f q) \<noteq> f q} = (if a = f p then 0 else 1)" for p a and f :: "PublisherId \<Rightarrow> PublisherState option"
  proof -
    have "{q. (if q = p then a else f q) \<noteq> f q} = (if a = f p then {} else {p})" by auto
    then show ?thesis by simp
  qed
  show ?thesis
  proof (cases ev)
    case (Activity p)
    have st: "lm_state (on_activity now p m) q = (if q = p then Some Active else lm_state m q)" for q
      by (simp add: lm_state_def on_activity_publishers)
    show ?thesis
      by (simp add: Activity st one)
        (auto simp: on_activity_def lm_state_def new_active_def Let_def split: option.splits PublisherState.splits)
  next
    case (Revoked p)
    have st: "lm_state (on_liveliness_revoked now p m) q
        = (if q = p then (if lm_state m p = Some Active then Some Suspected else lm_state m p) else lm_state m q)" for q
      by (auto simp: lm_state_def on_liveliness_revoked_def Let_def split: option.splits)
    show ?thesis
      by (simp add: Revoked st one)
        (auto simp: on_liveliness_revoked_def lm_state_def Let_def split: option.splits)
  next
    case (Restored p)
    have st: "lm_state (on_liveliness_restored p m) q
        = (if q = p then (if lm_state m p = Some Suspected then Some Active else lm_state m p) else lm_state m q)" for q
      by (auto simp: lm_state_def on_liveliness_restored_def Let_def split: option.splits)
    show ?thesis
      by (simp add: Restored st one)
        (auto simp: on_liveliness_restored_def lm_state_def Let_def split: option.splits)
  next
    case Tick
    have "lm_state (fst (tick now m)) p = map_option (\<lambda>e. pl_state (tick_entry (lm_config m) now e)) (hm_get (lm_publishers m) p)" for p
      by (simp add: lm_state_def tick_get option.map_comp comp_def)
    then have "card {p. lm_state (fst (tick now m)) p \<noteq> lm_state m p}
        = length (filter (\<lambda>(p, e). pl_state (tick_entry (lm_config m) now e) \<noteq> pl_state e) (lm_publishers m))"
      unfolding lm_state_def using card_changed[OF wf] by simp
    moreover have "lm_epoch (fst (tick now m)) = lm_epoch m + fst (snd (tick_loop (lm_config m) now (lm_publishers m)))"
      by (simp add: tick_def Let_def split_beta)
    ultimately show ?thesis using Tick tick_loop_bumps by simp
  qed (use assms(2) in simp)
qed

theorem epoch_counts_transitions_witness:
  "lm_epoch (on_activity 10 7 (lm_new lifecycle_config_default)) = 0
     + word_of_nat (card {p. lm_state (on_activity 10 7 (lm_new lifecycle_config_default)) p
         \<noteq> lm_state (lm_new lifecycle_config_default) p})"
  using epoch_counts_transitions[OF lc_reach.init[of lifecycle_config_default 0], of "Activity 7" 10]
  by (simp add: lm_new_def)

end
