(* ===== verification/Events.thy ===== *)
theory Events
  imports Attachment
begin

text \<open>
  The event envelope and the received raw event (\<^verbatim>\<open>mitiflow/src/event.rs\<close>).  The payload
  codec (JSON, MessagePack or postcard, \<^verbatim>\<open>mitiflow/src/codec.rs\<close>) is a wrapper of serde
  libraries: its \<^verbatim>\<open>encode\<close> and \<^verbatim>\<open>decode\<close> are function arguments.
\<close>

record 't Event =
  ev_id :: EventId
  ev_timestamp :: DateTime
  ev_seq :: "u64 option"
  ev_payload :: 't
  ev_key_expr :: "string option"

record RawEvent =
  re_id :: EventId
  re_seq :: u64
  re_publisher_id :: PublisherId
  re_key_expr :: string
  re_payload :: bytes
  re_timestamp :: DateTime

text \<open>The id generator and the clock are the arguments of \<^verbatim>\<open>event_new\<close>.\<close>

definition event_new :: "EventId \<Rightarrow> DateTime \<Rightarrow> 't \<Rightarrow> 't Event" where
  "event_new i now x = \<lparr>ev_id = i, ev_timestamp = now, ev_seq = None, ev_payload = x, ev_key_expr = None\<rparr>"

definition raw_key :: "RawEvent \<Rightarrow> string option" where
  "raw_key e = extract_key (re_key_expr e)"

definition deserialize_with :: "(bytes \<Rightarrow> 't result) \<Rightarrow> RawEvent \<Rightarrow> 't Event result" where
  "deserialize_with decode e = rbind (decode (re_payload e)) (\<lambda>x.
     Ok \<lparr>ev_id = re_id e, ev_timestamp = re_timestamp e, ev_seq = Some (re_seq e),
         ev_payload = x, ev_key_expr = Some (re_key_expr e)\<rparr>)"

end
