(* ===== verification/Dlq.thy ===== *)
theory Dlq
  imports Events
begin

text \<open>
  The dead letter queue (\<^verbatim>\<open>mitiflow/src/dlq.rs\<close>): retry counters per event, backoff delays
  and the hand-over of exhausted events.  The Zenoh \<^verbatim>\<open>put\<close> is a function argument from
  key and payload to a result, the textual form of an event id another one; what was put is part
  of the step's result.  A \<^verbatim>\<open>Duration\<close> saturates at \<^verbatim>\<open>u64::MAX\<close> seconds and
  999,999,999 nanoseconds.
\<close>

section \<open>Backoff\<close>

datatype BackoffStrategy = Fixed Duration | Exponential Duration Duration

definition dur_saturating_mul :: "Duration \<Rightarrow> u32 \<Rightarrow> Duration" where
  "dur_saturating_mul d k = min (d * unat k) DURATION_MAX"

definition saturating_pow2 :: "u32 \<Rightarrow> u64" where
  "saturating_pow2 e = (if unat e < 64 then 2 ^ unat e else u64_MAX)"

fun delay_for :: "BackoffStrategy \<Rightarrow> u32 \<Rightarrow> Duration" where
  "delay_for (Fixed d) attempt = d"
| "delay_for (Exponential base cap) attempt =
     (let multiplier = saturating_pow2 attempt;
          delay = dur_saturating_mul base (ucast multiplier) in
      if delay > cap then cap else delay)"

section \<open>The queue\<close>

record DlqConfig =
  max_retries :: u32
  dlq_key_prefix :: string
  retry_backoff :: BackoffStrategy

definition dlq_config_new :: "string \<Rightarrow> u32 \<Rightarrow> DlqConfig" where
  "dlq_config_new p n = \<lparr>max_retries = n, dlq_key_prefix = p,
     retry_backoff = Exponential 100000000 30000000000\<rparr>"

record DeadLetterQueue =
  dlq_config :: DlqConfig
  retries :: "(EventId, u32) hmap"

datatype RetryOutcome = Retry u32 Duration | SentToDlq u32

definition dlq_new :: "DlqConfig \<Rightarrow> DeadLetterQueue" where
  "dlq_new c = \<lparr>dlq_config = c, retries = []\<rparr>"

definition attempt_count :: "DeadLetterQueue \<Rightarrow> EventId \<Rightarrow> u32" where
  "attempt_count q i = (case hm_get (retries q) i of Some n \<Rightarrow> n | None \<Rightarrow> 0)"

definition dlq_ack :: "DeadLetterQueue \<Rightarrow> EventId \<Rightarrow> DeadLetterQueue" where
  "dlq_ack q i = q\<lparr>retries := hm_remove i (retries q)\<rparr>"

definition pending_count :: "DeadLetterQueue \<Rightarrow> nat" where
  "pending_count q = length (retries q)"

definition dlq_key :: "(EventId \<Rightarrow> string) \<Rightarrow> DeadLetterQueue \<Rightarrow> RawEvent \<Rightarrow> string" where
  "dlq_key show_id q e = dlq_key_prefix (dlq_config q) @ ''/'' @ show_id (re_id e)"

definition send_to_dlq ::
  "(EventId \<Rightarrow> string) \<Rightarrow> (string \<Rightarrow> bytes \<Rightarrow> unit result) \<Rightarrow> DeadLetterQueue \<Rightarrow> RawEvent
    \<Rightarrow> unit result \<times> (string \<times> bytes) list"
where
  "send_to_dlq show_id put q e =
     (case put (dlq_key show_id q e) (re_payload e) of
        Err x \<Rightarrow> (Err x, [])
      | Ok _ \<Rightarrow> (Ok (), [(dlq_key show_id q e, re_payload e)]))"

definition on_failure ::
  "(EventId \<Rightarrow> string) \<Rightarrow> (string \<Rightarrow> bytes \<Rightarrow> unit result) \<Rightarrow> DeadLetterQueue \<Rightarrow> RawEvent
    \<Rightarrow> DeadLetterQueue \<times> RetryOutcome result \<times> (string \<times> bytes) list"
where
  "on_failure show_id put q e =
     (let attempt = attempt_count q (re_id e) + 1;
          q1 = q\<lparr>retries := hm_insert (re_id e) attempt (retries q)\<rparr> in
      if attempt \<ge> max_retries (dlq_config q) then
        (case send_to_dlq show_id put q1 e of
           (Err x, puts) \<Rightarrow> (q1, Err x, puts)
         | (Ok _, puts) \<Rightarrow> (q1\<lparr>retries := hm_remove (re_id e) (retries q1)\<rparr>, Ok (SentToDlq attempt), puts))
      else (q1, Ok (Retry attempt (delay_for (retry_backoff (dlq_config q)) (attempt - 1))), []))"

text \<open>The same event failing \<^term>\<open>k\<close> times in a row.\<close>

fun fail_times ::
  "(EventId \<Rightarrow> string) \<Rightarrow> (string \<Rightarrow> bytes \<Rightarrow> unit result) \<Rightarrow> nat \<Rightarrow> DeadLetterQueue \<Rightarrow> RawEvent
    \<Rightarrow> DeadLetterQueue \<times> RetryOutcome result list \<times> (string \<times> bytes) list"
where
  "fail_times show_id put 0 q e = (q, [], [])"
| "fail_times show_id put (Suc k) q e =
     (let (q1, r, ps) = on_failure show_id put q e; (q2, rs, qs) = fail_times show_id put k q1 e in
      (q2, r # rs, ps @ qs))"

section \<open>Backoff properties\<close>

lemma ucast_pow2_mod: "n < 64 \<Longrightarrow> unat (ucast (2 ^ n :: u64) :: u32) = 2 ^ n mod 2 ^ 32"
proof -
  assume n: "n < 64"
  have "unat (2 ^ n :: u64) = unat (word_of_nat (2 ^ n) :: u64)" by simp
  also have "\<dots> = 2 ^ n mod 2 ^ 64" by (simp add: unat_of_nat del: of_nat_power)
  also have "\<dots> = 2 ^ n" using power_strict_increasing[OF n, of "2 :: nat"] by simp
  finally show ?thesis by (simp add: unsigned_ucast_eq take_bit_eq_mod)
qed

lemma ucast_pow2: "n < 32 \<Longrightarrow> unat (ucast (2 ^ n :: u64) :: u32) = 2 ^ n"
  using ucast_pow2_mod[of n] power_strict_increasing[of n 32 "2 :: nat"] by simp

lemma ucast_pow2_high: "32 \<le> n \<Longrightarrow> n < 64 \<Longrightarrow> (ucast (2 ^ n :: u64) :: u32) = 0"
proof -
  assume "32 \<le> n" "n < 64"
  moreover have "(2 :: nat) ^ n = 2 ^ 32 * 2 ^ (n - 32)" using \<open>32 \<le> n\<close> by (simp add: power_add[symmetric] del: power_numeral)
  ultimately have "unat (ucast (2 ^ n :: u64) :: u32) = 0" using ucast_pow2_mod[of n] by simp
  then show ?thesis by (simp only: unat_eq_zero)
qed

text \<open>
  Exponential backoff doubles from the base and is capped: for attempts below 32 the
  delay is the base times a power of two, cut at \<^verbatim>\<open>max\<close>, so it never decreases there and
  never exceeds \<^verbatim>\<open>max\<close>.
\<close>

theorem backoff_doubles:
  assumes "unat a < 32" and "cap \<le> DURATION_MAX"
  shows "delay_for (Exponential base cap) a = min cap (base * 2 ^ unat a)"
  using assms by (auto simp: Let_def saturating_pow2_def dur_saturating_mul_def ucast_pow2 min_def)

theorem backoff_doubles_witness:
  "delay_for (Exponential 100 3000) 4 = min 3000 (100 * 2 ^ unat (4 :: u32))"
  by (rule backoff_doubles) (simp_all add: DURATION_MAX_def)

text \<open>
  From attempt 32 to attempt 63 the exponential delay is zero, whatever the base: the
  multiplier \<^verbatim>\<open>2^attempt\<close> is truncated to 32 bits.  (The strategy is documented to double
  the delay each time.)
\<close>

theorem backoff_collapses:
  assumes "32 \<le> unat a" and "unat a < 64"
  shows "delay_for (Exponential base cap) a = 0"
  using assms by (simp add: Let_def saturating_pow2_def dur_saturating_mul_def ucast_pow2_high)

theorem backoff_collapses_witness:
  "delay_for (retry_backoff (dlq_config_new ''dlq'' 100)) 32 = 0"
  using backoff_collapses[of 32] by (simp add: dlq_config_new_def)

section \<open>Retry accounting\<close>

lemma attempt_count_simps [simp]:
  "attempt_count (q\<lparr>retries := hm_insert i n m\<rparr>) j = (if j = i then n else attempt_count (q\<lparr>retries := m\<rparr>) j)"
  "attempt_count (q\<lparr>retries := hm_remove i m\<rparr>) j = (if j = i then 0 else attempt_count (q\<lparr>retries := m\<rparr>) j)"
  by (auto simp: attempt_count_def)

lemma on_failure_retry:
  assumes "attempt_count q (re_id e) + 1 < max_retries (dlq_config q)"
  shows "\<exists>q1. on_failure show_id put q e =
      (q1, Ok (Retry (attempt_count q (re_id e) + 1) (delay_for (retry_backoff (dlq_config q)) (attempt_count q (re_id e)))), [])
    \<and> dlq_config q1 = dlq_config q
    \<and> (\<forall>i. attempt_count q1 i = (if i = re_id e then attempt_count q i + 1 else attempt_count q i))"
  using assms by (auto simp: on_failure_def Let_def)

lemma on_failure_exhausted:
  assumes "max_retries (dlq_config q) \<le> attempt_count q (re_id e) + 1"
    and "put (dlq_key show_id q e) (re_payload e) = Ok ()"
  shows "\<exists>q1. on_failure show_id put q e =
      (q1, Ok (SentToDlq (attempt_count q (re_id e) + 1)), [(dlq_key show_id q e, re_payload e)])
    \<and> dlq_config q1 = dlq_config q
    \<and> (\<forall>i. attempt_count q1 i = (if i = re_id e then 0 else attempt_count q i))"
  using assms by (auto simp: on_failure_def Let_def send_to_dlq_def dlq_key_def)

text \<open>
  The outcomes the remaining failures of an event must have when \<^term>\<open>k\<close> of its
  \<^term>\<open>m\<close> attempts are left.
\<close>

definition expected_outcomes :: "BackoffStrategy \<Rightarrow> u32 \<Rightarrow> nat \<Rightarrow> RetryOutcome result list" where
  "expected_outcomes b m k =
     map (\<lambda>a. Ok (Retry (word_of_nat (Suc a)) (delay_for b (word_of_nat a)))) [unat m - k ..< unat m - 1]
     @ [Ok (SentToDlq m)]"

lemma fail_times_run:
  assumes "unat (attempt_count q (re_id e)) + Suc k = unat (max_retries (dlq_config q))"
    and "put (dlq_key show_id q e) (re_payload e) = Ok ()"
  shows "\<exists>q'. fail_times show_id put (Suc k) q e =
      (q', expected_outcomes (retry_backoff (dlq_config q)) (max_retries (dlq_config q)) (Suc k),
       [(dlq_key show_id q e, re_payload e)])
    \<and> (\<forall>i. attempt_count q' i = (if i = re_id e then 0 else attempt_count q i))"
  using assms
proof (induction k arbitrary: q)
  case 0
  let ?m = "max_retries (dlq_config q)" and ?a = "attempt_count q (re_id e)"
  have a: "?a + 1 = ?m"
    using 0(1) word_succ_unat[of ?a ?m] by (simp add: word_unat_eq_iff word_less_nat_alt)
  from on_failure_exhausted[of q e put show_id] a 0(2) obtain q1 where
    "on_failure show_id put q e = (q1, Ok (SentToDlq ?m), [(dlq_key show_id q e, re_payload e)])"
    "\<forall>i. attempt_count q1 i = (if i = re_id e then 0 else attempt_count q i)" by auto
  then show ?case by (simp add: expected_outcomes_def)
next
  case (Suc k)
  let ?m = "max_retries (dlq_config q)" and ?a = "attempt_count q (re_id e)"
  have lt: "?a < ?m" using Suc.prems(1) by (simp add: word_less_nat_alt)
  have ua: "unat (?a + 1) = Suc (unat ?a)" by (rule word_succ_unat[OF lt])
  have "?a + 1 < ?m" using Suc.prems(1) ua by (simp add: word_less_nat_alt)
  then obtain q1 where q1: "on_failure show_id put q e = (q1, Ok (Retry (?a + 1) (delay_for (retry_backoff (dlq_config q)) ?a)), [])"
    "dlq_config q1 = dlq_config q"
    "\<forall>i. attempt_count q1 i = (if i = re_id e then attempt_count q i + 1 else attempt_count q i)"
    using on_failure_retry[of q e show_id put] by auto
  have key: "dlq_key show_id q1 e = dlq_key show_id q e" using q1(2) by (simp add: dlq_key_def)
  have c1: "unat (attempt_count q1 (re_id e)) + Suc k = unat (max_retries (dlq_config q1))"
    using Suc.prems(1) q1(2,3) ua by simp
  obtain q' where q': "fail_times show_id put (Suc k) q1 e =
      (q', expected_outcomes (retry_backoff (dlq_config q)) ?m (Suc k), [(dlq_key show_id q e, re_payload e)])"
    "\<forall>i. attempt_count q' i = (if i = re_id e then 0 else attempt_count q1 i)"
    using Suc.IH[OF c1] Suc.prems(2) key q1(2) by auto
  have "expected_outcomes b ?m (Suc (Suc k)) = Ok (Retry (?a + 1) (delay_for b ?a)) # expected_outcomes b ?m (Suc k)" for b
  proof -
    have "unat ?m - Suc (Suc k) = unat ?a" "unat ?m - Suc k = Suc (unat ?a)" "unat ?a < unat ?m - 1"
      using Suc.prems(1) by auto
    then show ?thesis by (simp add: expected_outcomes_def upt_conv_Cons add.commute)
  qed
  then show ?case using q1 q' by (auto simp: Let_def)
qed

text \<open>
  An event that keeps failing is retried \<^verbatim>\<open>max_retries - 1\<close> times, with attempt
  numbers 1, 2, ... and the configured delays, and its \<^verbatim>\<open>max_retries\<close>-th failure puts its
  payload on the DLQ key exactly once; its counter is then cleared and no other event's counter has
  changed.
\<close>

theorem poison_event_isolated:
  assumes "attempt_count q (re_id e) = 0" and "0 < max_retries (dlq_config q)"
    and "put (dlq_key show_id q e) (re_payload e) = Ok ()"
  shows "\<exists>q'. fail_times show_id put (unat (max_retries (dlq_config q))) q e =
      (q', expected_outcomes (retry_backoff (dlq_config q)) (max_retries (dlq_config q)) (unat (max_retries (dlq_config q))),
       [(dlq_key show_id q e, re_payload e)])
    \<and> (\<forall>i. attempt_count q' i = (if i = re_id e then 0 else attempt_count q i))"
proof -
  obtain k where k: "unat (max_retries (dlq_config q)) = Suc k"
    using assms(2) by (metis gr0_implies_Suc word_less_nat_alt unat_0)
  show ?thesis using fail_times_run[of q e k put show_id] assms(1,3) k by simp
qed

definition demo_raw :: RawEvent where
  "demo_raw = \<lparr>re_id = 5, re_seq = 0, re_publisher_id = 1, re_key_expr = ''t/p/0/0'', re_payload = [1], re_timestamp = 0\<rparr>"

definition demo_dlq :: DeadLetterQueue where
  "demo_dlq = dlq_new \<lparr>max_retries = 3, dlq_key_prefix = ''d'', retry_backoff = Fixed 7\<rparr>"

theorem poison_event_isolated_witness:
  "\<exists>q'. fail_times (\<lambda>_. ''x'') (\<lambda>_ _. Ok ()) (unat (max_retries (dlq_config demo_dlq))) demo_dlq demo_raw =
      (q', [Ok (Retry 1 7), Ok (Retry 2 7), Ok (SentToDlq 3)], [(''d/x'', [1])])
    \<and> attempt_count q' (re_id demo_raw) = 0"
proof -
  have "expected_outcomes (retry_backoff (dlq_config demo_dlq)) (max_retries (dlq_config demo_dlq)) (unat (max_retries (dlq_config demo_dlq)))
     = [Ok (Retry 1 7), Ok (Retry 2 7), Ok (SentToDlq 3)]" by code_simp
  moreover have "dlq_key (\<lambda>_. ''x'') demo_dlq demo_raw = ''d/x''" "re_payload demo_raw = [1]"
    "attempt_count demo_dlq (re_id demo_raw) = 0" "0 < max_retries (dlq_config demo_dlq)" by code_simp+
  ultimately show ?thesis
    using poison_event_isolated[of demo_dlq demo_raw "\<lambda>_ _. Ok ()" "\<lambda>_. ''x''"] by fastforce
qed

end
