(* ===== verification/Hash_Ring.thy ===== *)
theory Hash_Ring
  imports Prelude
begin

text \<open>
  Rendezvous hashing of partitions onto workers and storage nodes
  (\<^verbatim>\<open>mitiflow/src/partition/hash_ring.rs\<close>).  The algorithm behind
  \<^verbatim>\<open>DefaultHasher\<close> is unspecified by the standard library, so a hasher is a function
  argument \<^term>\<open>H\<close> from the sequence of hashed values to 64 bits; the weighted score is
  an \<^verbatim>\<open>f64\<close> compared by \<^verbatim>\<open>total_cmp\<close>, so the floating-point arithmetic is a
  function argument \<^term>\<open>F\<close> from the weight and the 64-bit hash into a linear order.  The
  theorems hold for every such pair of functions.
\<close>

section \<open>Data\<close>

datatype hash_input = HStr string | HU32 u32

record NodeDescriptor =
  node_id :: string
  capacity :: u32
  labels :: "(string, string) hmap"

definition node_new :: "string \<Rightarrow> NodeDescriptor" where
  "node_new i = \<lparr>node_id = i, capacity = 100, labels = []\<rparr>"

definition node_with_capacity :: "string \<Rightarrow> u32 \<Rightarrow> NodeDescriptor" where
  "node_with_capacity i c = \<lparr>node_id = i, capacity = c, labels = []\<rparr>"

definition with_labels :: "NodeDescriptor \<Rightarrow> (string, string) hmap \<Rightarrow> NodeDescriptor" where
  "with_labels n ls = n\<lparr>labels := ls\<rparr>"

section \<open>Operations\<close>

text \<open>
  \<^verbatim>\<open>Iterator::max_by_key\<close> keeps the last of several equally maximal elements;
  \<^verbatim>\<open>sort_by\<close> is a stable sort, here with the comparison reversed.
\<close>

definition max_by_key :: "('a \<Rightarrow> 'k::linorder) \<Rightarrow> 'a list \<Rightarrow> 'a option" where
  "max_by_key f xs = (case xs of [] \<Rightarrow> None
     | x # ys \<Rightarrow> Some (foldl (\<lambda>m y. if f m > f y then m else y) x ys))"

definition sort_desc :: "('a \<Rightarrow> 'k::linorder) \<Rightarrow> 'a list \<Rightarrow> 'a list" where
  "sort_desc f xs = rev (sort_key f (rev xs))"

text \<open>A remainder by zero panics; \<^const>\<open>None\<close> is the panic.\<close>

definition partition_for :: "(hash_input list \<Rightarrow> u64) \<Rightarrow> string \<Rightarrow> u32 \<Rightarrow> u32 option" where
  "partition_for H key num_partitions =
     (if num_partitions = 0 then None else Some (ucast (H [HStr key] mod ucast num_partitions)))"

definition hrw_score :: "(hash_input list \<Rightarrow> u64) \<Rightarrow> string \<Rightarrow> u32 \<Rightarrow> u64" where
  "hrw_score H worker p = H [HStr worker, HU32 p]"

definition worker_for :: "(hash_input list \<Rightarrow> u64) \<Rightarrow> u32 \<Rightarrow> string list \<Rightarrow> string option" where
  "worker_for H p workers = max_by_key (\<lambda>w. hrw_score H w p) workers"

text \<open>
  \<^verbatim>\<open>push_owner\<close> is the body of the loop of \<^verbatim>\<open>assignments\<close>.  Its
  \<^verbatim>\<open>get_mut(w).unwrap()\<close> panics on a missing entry; the assignment is
  \<^const>\<open>None\<close> then.
\<close>

fun push_owner ::
  "(hash_input list \<Rightarrow> u64) \<Rightarrow> string list \<Rightarrow> u32 list \<Rightarrow> (string, u32 list) hmap \<Rightarrow> (string, u32 list) hmap option"
where
  "push_owner H workers [] m = Some m"
| "push_owner H workers (p # ps) m =
     (case worker_for H p workers of
        None \<Rightarrow> push_owner H workers ps m
      | Some w \<Rightarrow> (case hm_get m w of
            None \<Rightarrow> None
          | Some parts \<Rightarrow> push_owner H workers ps (hm_insert w (parts @ [p]) m)))"

definition assignments ::
  "(hash_input list \<Rightarrow> u64) \<Rightarrow> string list \<Rightarrow> u32 \<Rightarrow> (string, u32 list) hmap option"
where
  "assignments H workers num_partitions =
     (case push_owner H workers (word_range 0 num_partitions) (fold (\<lambda>w. hm_insert w []) workers []) of
        None \<Rightarrow> None
      | Some m \<Rightarrow> Some (map (\<lambda>(w, parts). (w, sort parts)) m))"

definition weighted_hrw_score ::
  "(hash_input list \<Rightarrow> u64) \<Rightarrow> (u32 \<Rightarrow> u64 \<Rightarrow> 'f) \<Rightarrow> string \<Rightarrow> u32 \<Rightarrow> u32 \<Rightarrow> u32 \<Rightarrow> 'f"
where
  "weighted_hrw_score H F nid p replica weight =
     (let hash_val = H [HStr nid, HU32 p, HU32 replica] in F weight hash_val)"

definition scored ::
  "(hash_input list \<Rightarrow> u64) \<Rightarrow> (u32 \<Rightarrow> u64 \<Rightarrow> 'f::linorder) \<Rightarrow> u32 \<Rightarrow> NodeDescriptor list \<Rightarrow> NodeDescriptor list"
where
  "scored H F p nodes = sort_desc (\<lambda>n. weighted_hrw_score H F (node_id n) p 0 (capacity n)) nodes"

definition assign_replicas ::
  "(hash_input list \<Rightarrow> u64) \<Rightarrow> (u32 \<Rightarrow> u64 \<Rightarrow> 'f::linorder) \<Rightarrow> u32 \<Rightarrow> u32 \<Rightarrow> NodeDescriptor list \<Rightarrow> string list"
where
  "assign_replicas H F p rf nodes = map node_id (take (unat rf) (scored H F p nodes))"

definition node_rack :: "NodeDescriptor \<Rightarrow> string" where
  "node_rack n = (case hm_get (labels n) ''rack'' of Some r \<Rightarrow> r | None \<Rightarrow> [])"

fun rack_pass :: "nat \<Rightarrow> NodeDescriptor list \<Rightarrow> string list \<Rightarrow> string set \<Rightarrow> string list" where
  "rack_pass rf [] selected used_racks = selected"
| "rack_pass rf (n # ns) selected used_racks =
     (if length selected \<ge> rf then selected
      else if node_rack n \<in> used_racks then rack_pass rf ns selected used_racks
      else rack_pass rf ns (selected @ [node_id n]) (insert (node_rack n) used_racks))"

fun fill_pass :: "nat \<Rightarrow> NodeDescriptor list \<Rightarrow> string list \<Rightarrow> string list" where
  "fill_pass rf [] selected = selected"
| "fill_pass rf (n # ns) selected =
     (if length selected \<ge> rf then selected
      else if node_id n \<in> set selected then fill_pass rf ns selected
      else fill_pass rf ns (selected @ [node_id n]))"

definition assign_replicas_rack_aware ::
  "(hash_input list \<Rightarrow> u64) \<Rightarrow> (u32 \<Rightarrow> u64 \<Rightarrow> 'f::linorder) \<Rightarrow> u32 \<Rightarrow> u32 \<Rightarrow> NodeDescriptor list \<Rightarrow> string list"
where
  "assign_replicas_rack_aware H F p rf nodes =
     (let s = scored H F p nodes; selected = rack_pass (unat rf) s [] {} in
      if length selected < unat rf then fill_pass (unat rf) s selected else selected)"

definition assignments_replicated ::
  "(hash_input list \<Rightarrow> u64) \<Rightarrow> (u32 \<Rightarrow> u64 \<Rightarrow> 'f::linorder) \<Rightarrow> NodeDescriptor list \<Rightarrow> u32 \<Rightarrow> u32
    \<Rightarrow> (u32, string list) hmap"
where
  "assignments_replicated H F nodes num_partitions rf =
     map (\<lambda>p. (p, assign_replicas H F p rf nodes)) (word_range 0 num_partitions)"

section \<open>The contract of a placement function\<close>

text \<open>
  What the consumer-group and the storage code rely on: an owner exists when anybody is there, it
  is a member, and the departure of someone else does not move anything.  Stability under a join
  and under a simultaneous departure of several members follow.
\<close>

locale placement =
  fixes owner :: "'p \<Rightarrow> 'w list \<Rightarrow> 'w option"
  assumes owner_None: "owner p ws = None \<longleftrightarrow> ws = []"
    and owner_in: "owner p ws = Some w \<Longrightarrow> w \<in> set ws"
    and owner_leave: "owner p ws = Some w \<Longrightarrow> w \<noteq> g \<Longrightarrow> owner p (filter (\<lambda>x. x \<noteq> g) ws) = Some w"
begin

lemma owner_exists: "ws \<noteq> [] \<Longrightarrow> \<exists>w \<in> set ws. owner p ws = Some w"
  using owner_None[of p ws] owner_in[of p ws] by (cases "owner p ws") auto

lemma owner_leave_many:
  "owner p ws = Some w \<Longrightarrow> w \<notin> set gs \<Longrightarrow> owner p (filter (\<lambda>x. x \<notin> set gs) ws) = Some w"
proof (induction gs)
  case Nil
  then show ?case by simp
next
  case (Cons g gs)
  have "owner p (filter (\<lambda>x. x \<noteq> g) (filter (\<lambda>x. x \<notin> set gs) ws)) = Some w"
    using Cons by (intro owner_leave) auto
  then show ?case by (simp add: conj_commute)
qed

lemma owner_join:
  assumes "filter (\<lambda>x. x \<noteq> g) ws' = ws" and "g \<in> set ws'" and "ws \<noteq> []"
  shows "owner p ws' = Some g \<or> owner p ws' = owner p ws"
proof -
  have "ws' \<noteq> []" using assms(2) by auto
  then obtain w where w: "owner p ws' = Some w" using owner_exists[of ws' p] by blast
  show ?thesis
  proof (cases "w = g")
    case False
    then show ?thesis using owner_leave[OF w False] w assms(1) by simp
  qed (simp add: w)
qed

end

section \<open>The last maximum and the stable sort\<close>

lemma max_by_key_None [simp]: "max_by_key f xs = None \<longleftrightarrow> xs = []"
  by (simp add: max_by_key_def split: list.splits)

lemma max_by_key_single [simp]: "max_by_key f [y] = Some y"
  by (simp add: max_by_key_def)

lemma max_by_key_snoc:
  "max_by_key f (xs @ [y]) =
     (case max_by_key f xs of None \<Rightarrow> Some y | Some m \<Rightarrow> Some (if f m > f y then m else y))"
  by (cases xs) (auto simp: max_by_key_def)

lemma max_by_key_greatest:
  "max_by_key f xs = Some m \<Longrightarrow> m \<in> set xs \<and> (\<forall>x \<in> set xs. f x \<le> f m)"
proof (induction xs arbitrary: m rule: rev_induct)
  case Nil
  then show ?case by (simp add: max_by_key_def)
next
  case (snoc y xs)
  show ?case
  proof (cases "max_by_key f xs")
    case None
    then show ?thesis using snoc.prems by simp
  next
    case (Some k)
    then have k: "k \<in> set xs" "\<forall>x \<in> set xs. f x \<le> f k" using snoc.IH by auto
    have m: "m = (if f k > f y then k else y)" using snoc.prems Some by (simp add: max_by_key_snoc)
    show ?thesis
    proof (cases "f k > f y")
      case True
      then show ?thesis using k m by auto
    next
      case False
      then show ?thesis using k m by (auto intro: order_trans)
    qed
  qed
qed

lemma max_by_key_filter:
  "max_by_key f xs = Some m \<Longrightarrow> P m \<Longrightarrow> max_by_key f (filter P xs) = Some m"
proof (induction xs arbitrary: m rule: rev_induct)
  case Nil
  then show ?case by simp
next
  case (snoc y xs)
  show ?case
  proof (cases "max_by_key f xs")
    case None
    then show ?thesis using snoc.prems by simp
  next
    case (Some k)
    show ?thesis
    proof (cases "f k > f y")
      case True
      then have "max_by_key f (filter P xs) = Some k" "m = k"
        using snoc.IH[of k] snoc.prems Some by (auto simp: max_by_key_snoc)
      then show ?thesis using True by (simp add: max_by_key_snoc)
    next
      case False
      then have m: "m = y" using snoc.prems Some by (simp add: max_by_key_snoc)
      have "f z \<le> f y" if "max_by_key f (filter P xs) = Some z" for z
        using max_by_key_greatest[OF that] max_by_key_greatest[OF Some] False
        by (auto intro: order_trans[of _ "f k"])
      then show ?thesis
        using m snoc.prems(2) by (auto simp: max_by_key_snoc split: option.splits dest: leD)
    qed
  qed
qed

lemma sort_desc_set [simp]: "set (sort_desc f xs) = set xs"
  by (simp add: sort_desc_def)

lemma sort_desc_length [simp]: "length (sort_desc f xs) = length xs"
  by (simp add: sort_desc_def)

lemma sort_desc_distinct_map [simp]: "distinct (map g (sort_desc f xs)) = distinct (map g xs)"
  by (simp add: sort_desc_def distinct_map)

lemma sort_desc_sorted: "sorted_wrt (\<lambda>x y. f y \<le> f x) (sort_desc f xs)"
  using sorted_sort_key[of f "rev xs"]
  by (simp add: sort_desc_def sorted_wrt_rev sorted_wrt_map)

lemma sort_desc_filter: "filter P (sort_desc f xs) = sort_desc f (filter P xs)"
  by (simp add: sort_desc_def rev_filter[symmetric] filter_sort)

section \<open>Assignment of partitions to workers\<close>

lemma ring_placement: "placement (\<lambda>p ws. worker_for H p ws)"
  unfolding worker_for_def
  by unfold_locales (auto dest: max_by_key_greatest intro: max_by_key_filter)

interpretation hr: placement "\<lambda>p ws. worker_for H p ws" for H
  by (rule ring_placement)

definition owned :: "(hash_input list \<Rightarrow> u64) \<Rightarrow> string list \<Rightarrow> u32 \<Rightarrow> string \<Rightarrow> u32 list" where
  "owned H workers n w = filter (\<lambda>p. worker_for H p workers = Some w) (word_range 0 n)"

lemma init_map_get:
  "hm_get (fold (\<lambda>w. hm_insert w []) ws m) w = (if w \<in> set ws then Some [] else hm_get m w)"
  by (induction ws arbitrary: m) auto

lemma hm_keys_insert: "fst ` set (hm_insert k v m) = insert k (fst ` set m)"
  by (metis dom_map_of_conv_image_fst dom_fun_upd hm_get_insert option.distinct(1))

lemma init_map_keys: "fst ` set (fold (\<lambda>w. hm_insert w []) ws m) = set ws \<union> fst ` set m"
  by (induction ws arbitrary: m) (auto simp: hm_keys_insert)

lemma push_owner_exact:
  assumes "\<And>w. w \<in> set workers \<Longrightarrow> hm_get m w \<noteq> None"
  shows "\<exists>m'. push_owner H workers ps m = Some m' \<and>
     (\<forall>w. hm_get m' w = map_option (\<lambda>parts. parts @ filter (\<lambda>p. worker_for H p workers = Some w) ps) (hm_get m w))"
  using assms
proof (induction ps arbitrary: m)
  case Nil
  then show ?case by (simp add: option.map_ident)
next
  case (Cons p ps)
  show ?case
  proof (cases "worker_for H p workers")
    case None
    then show ?thesis using Cons by simp
  next
    case (Some o')
    then have "hm_get m o' \<noteq> None" using Cons.prems hr.owner_in by blast
    then obtain parts where parts: "hm_get m o' = Some parts" by blast
    let ?m = "hm_insert o' (parts @ [p]) m"
    have "hm_get ?m w \<noteq> None" if "w \<in> set workers" for w using Cons.prems[OF that] by simp
    then obtain m' where m': "push_owner H workers ps ?m = Some m'"
      "\<And>w. hm_get m' w = map_option (\<lambda>parts. parts @ filter (\<lambda>p. worker_for H p workers = Some w) ps) (hm_get ?m w)"
      using Cons.IH[of ?m] by blast
    then show ?thesis using Some parts by (auto simp: option.map_comp comp_def)
  qed
qed

lemma hm_get_map_values: "hm_get (map (\<lambda>(w, v). (w, f v)) m) k = map_option f (hm_get m k)"
  by (induction m) auto

lemma sort_owned [simp]: "sort (owned H workers n w) = owned H workers n w"
proof (rule sorted_sort_id)
  have "sorted_wrt (<) (owned H workers n w)"
    unfolding owned_def by (rule sorted_wrt_filter[OF sorted_word_range])
  then show "sorted (owned H workers n w)" by (simp add: strict_sorted_iff)
qed

lemma assignments_total:
  "\<exists>m. assignments H workers n = Some m \<and>
     (\<forall>w. hm_get m w = (if w \<in> set workers then Some (owned H workers n w) else None))"
proof -
  let ?init = "fold (\<lambda>w. hm_insert w []) workers []"
  obtain m where m: "push_owner H workers (word_range 0 n) ?init = Some m"
    "\<And>w. hm_get m w = map_option (\<lambda>parts. parts @ owned H workers n w) (hm_get ?init w)"
    using push_owner_exact[of workers ?init H "word_range 0 n"]
    by (auto simp: init_map_get owned_def)
  then show ?thesis by (simp add: assignments_def hm_get_map_values init_map_get)
qed

lemma owned_iff: "p \<in> set (owned H ws n w) \<longleftrightarrow> p < n \<and> worker_for H p ws = Some w"
  by (auto simp: owned_def word_coorder.extremum)

lemma assignments_get:
  "assignments H ws n = Some m \<Longrightarrow> hm_get m w = (if w \<in> set ws then Some (owned H ws n w) else None)"
  using assignments_total[of H ws n] by auto

text \<open>
  With at least one worker, \<^verbatim>\<open>assignments\<close> never hits the \<^verbatim>\<open>unwrap\<close> on
  a missing worker, and it gives every partition below \<^verbatim>\<open>num_partitions\<close>, and nothing
  else, to exactly one worker, listing each worker's partitions in strictly increasing order.
\<close>

theorem assignments_exclusive:
  assumes "ws \<noteq> []"
  shows "\<exists>m. assignments H ws n = Some m
     \<and> (\<forall>p. (\<exists>!w. \<exists>ps. hm_get m w = Some ps \<and> p \<in> set ps) \<longleftrightarrow> p < n)
     \<and> (\<forall>w ps. hm_get m w = Some ps \<longrightarrow> w \<in> set ws \<and> sorted_wrt (<) ps \<and> (\<forall>p \<in> set ps. p < n))"
proof -
  obtain m where m: "assignments H ws n = Some m"
    "\<And>w. hm_get m w = (if w \<in> set ws then Some (owned H ws n w) else None)"
    using assignments_total by blast
  have "(\<exists>!w. \<exists>ps. hm_get m w = Some ps \<and> p \<in> set ps) \<longleftrightarrow> p < n" for p
    using hr.owner_exists[OF assms, of H p] by (auto simp: m owned_iff)
  moreover have "sorted_wrt (<) (owned H ws n w)" for w
    unfolding owned_def by (rule sorted_wrt_filter[OF sorted_word_range])
  ultimately show ?thesis using m by (auto simp: owned_iff split: if_splits)
qed

theorem assignments_exclusive_witness:
  "\<exists>m. assignments (\<lambda>_. 7) [''a'', ''b''] 4 = Some m
     \<and> (\<forall>p. (\<exists>!w. \<exists>ps. hm_get m w = Some ps \<and> p \<in> set ps) \<longleftrightarrow> p < 4)"
  using assignments_exclusive[of "[''a'', ''b'']" "\<lambda>_. 7" 4] by blast

text \<open>
  Minimal disruption, in both directions.  Let one worker \<^term>\<open>g\<close> be the difference
  between two worker lists.  When \<^term>\<open>g\<close> joins, every other worker keeps a part of what
  it had and what it gives up goes to \<^term>\<open>g\<close> alone; when \<^term>\<open>g\<close> leaves, every
  other worker keeps all it had and gains only partitions of \<^term>\<open>g\<close>.
\<close>

theorem membership_change_minimal:
  assumes "assignments H with_g n = Some m1"
    and "assignments H (filter (\<lambda>x. x \<noteq> g) with_g) n = Some m0"
    and "g \<in> set with_g" and "w \<in> set with_g" and "w \<noteq> g"
  shows "\<exists>ps1 ps0 gs. hm_get m1 w = Some ps1 \<and> hm_get m0 w = Some ps0 \<and> hm_get m1 g = Some gs \<and>
    set ps1 \<subseteq> set ps0 \<and> set ps0 - set ps1 \<subseteq> set gs"
proof -
  let ?ws = "filter (\<lambda>x. x \<noteq> g) with_g"
  have ne: "?ws \<noteq> []" using assms by (auto simp: filter_empty_conv)
  have "set (owned H with_g n w) \<subseteq> set (owned H ?ws n w)"
    using hr.owner_leave assms(5) by (auto simp: owned_iff)
  moreover have "set (owned H ?ws n w) - set (owned H with_g n w) \<subseteq> set (owned H with_g n g)"
    using hr.owner_join[OF refl assms(3) ne] by (fastforce simp: owned_iff)
  ultimately show ?thesis
    using assms(3-5) assignments_get[OF assms(1)] assignments_get[OF assms(2)] by simp
qed

definition demo_hash :: "hash_input list \<Rightarrow> u64" where
  "demo_hash xs = (case xs of HStr s # HU32 p # _ \<Rightarrow> (if (s = ''b'') = (p < 2) then 9 else 4) | _ \<Rightarrow> 0)"

theorem membership_change_minimal_witness:
  "assignments demo_hash [''a'', ''b''] 3 = Some [(''a'', [2]), (''b'', [0, 1])]
   \<and> assignments demo_hash [''a''] 3 = Some [(''a'', [0, 1, 2])]
   \<and> set [2::u32] \<subseteq> set [0, 1, 2] \<and> set [0, 1, 2] - set [2::u32] \<subseteq> set [0, 1]"
proof -
  have a: "assignments demo_hash [''a'', ''b''] 3 = Some [(''a'', [2]), (''b'', [0, 1])]"
    and b: "assignments demo_hash [''a''] 3 = Some [(''a'', [0, 1, 2])]"
    by code_simp+
  show ?thesis
    using membership_change_minimal[OF a, of "''b''" _ "''a''"] a b by simp
qed

section \<open>Replica placement\<close>

abbreviation score_of where
  "score_of H F p n \<equiv> weighted_hrw_score H F (node_id n) p 0 (capacity n)"

lemma scored_simps [simp]:
  "set (scored H F p nodes) = set nodes"
  "length (scored H F p nodes) = length nodes"
  "distinct (map g (scored H F p nodes)) = distinct (map g nodes)"
  by (simp_all add: scored_def)

lemma scored_filter: "scored H F p (filter P nodes) = filter P (scored H F p nodes)"
  by (simp add: scored_def sort_desc_filter)

lemma scored_sorted: "sorted_wrt (\<lambda>x y. score_of H F p y \<le> score_of H F p x) (scored H F p nodes)"
  unfolding scored_def by (rule sort_desc_sorted)

lemma replica_placement:
  "placement (\<lambda>p nodes. case scored H F p nodes of [] \<Rightarrow> None | n # _ \<Rightarrow> Some n)"
proof (unfold_locales, goal_cases)
  case (1 p ws)
  have "scored H F p ws = [] \<longleftrightarrow> ws = []" by (metis length_0_conv scored_simps(2))
  then show ?case by (auto split: list.splits)
next
  case (2 p ws w)
  then obtain xs where "scored H F p ws = w # xs" by (auto split: list.splits)
  then show ?case using scored_simps(1)[of H F p ws] by auto
next
  case (3 p ws w g)
  then show ?case by (auto simp: scored_filter split: list.splits)
qed

interpretation rp: placement "\<lambda>p nodes. case scored H F p nodes of [] \<Rightarrow> None | n # _ \<Rightarrow> Some n" for H F
  by (rule replica_placement)

text \<open>
  \<^verbatim>\<open>assign_replicas\<close> returns \<^verbatim>\<open>min replication_factor nodes.len()\<close>
  distinct nodes, in descending order of score, and no node left out scores above one taken.
\<close>

theorem assign_replicas_top:
  assumes "distinct (map node_id nodes)"
  shows "\<exists>sel. assign_replicas H F p rf nodes = map node_id sel \<and> set sel \<subseteq> set nodes
     \<and> distinct (map node_id sel) \<and> length sel = min (unat rf) (length nodes)
     \<and> sorted_wrt (\<lambda>x y. score_of H F p y \<le> score_of H F p x) sel
     \<and> (\<forall>x \<in> set sel. \<forall>y \<in> set nodes - set sel. score_of H F p y \<le> score_of H F p x)"
proof -
  let ?s = "scored H F p nodes" and ?k = "unat rf"
  define A where "A = take ?k ?s"
  define B where "B = drop ?k ?s"
  have AB: "?s = A @ B" by (simp add: A_def B_def)
  have sorted: "sorted_wrt (\<lambda>x y. score_of H F p y \<le> score_of H F p x) (A @ B)"
    using scored_sorted[of H F p nodes] unfolding AB .
  have nodes: "set nodes = set A \<union> set B" using scored_simps(1)[of H F p nodes] unfolding AB by simp
  have "distinct (map node_id A)" using assms by (simp add: A_def take_map[symmetric])
  moreover have "length A = min ?k (length nodes)" by (simp add: A_def)
  moreover have "\<forall>x \<in> set A. \<forall>y \<in> set nodes - set A. score_of H F p y \<le> score_of H F p x"
    using sorted nodes by (auto simp: sorted_wrt_append)
  moreover have "assign_replicas H F p rf nodes = map node_id A"
    by (simp add: assign_replicas_def A_def)
  ultimately show ?thesis using sorted nodes by (intro exI[of _ A]) (simp add: sorted_wrt_append)
qed

definition demo_nodes :: "NodeDescriptor list" where
  "demo_nodes = [node_new ''a'', node_new ''b'', with_labels (node_with_capacity ''c'' 300) [(''rack'', ''r1'')]]"

lemma demo_nodes_distinct: "distinct (map node_id demo_nodes)"
  by (simp add: demo_nodes_def node_new_def node_with_capacity_def with_labels_def)

theorem assign_replicas_top_witness:
  "\<exists>sel. assign_replicas demo_hash (\<lambda>w h. h) 0 2 demo_nodes = map node_id sel
     \<and> set sel \<subseteq> set demo_nodes \<and> distinct (map node_id sel) \<and> length sel = min (unat (2::u32)) (length demo_nodes)"
  using assign_replicas_top[OF demo_nodes_distinct, of demo_hash "\<lambda>w h. h" 0 2] by blast

text \<open>
  When a node leaves, the replica set of a partition changes by that node alone: the
  surviving replicas stay in their order, at most one new node is appended, and none when the node
  held no replica.
\<close>

theorem replicas_minimal_disruption:
  assumes "distinct (map node_id nodes)"
  shows "\<exists>xs. assign_replicas H F p rf (filter (\<lambda>n. node_id n \<noteq> g) nodes)
      = filter (\<lambda>i. i \<noteq> g) (assign_replicas H F p rf nodes) @ xs
    \<and> length xs \<le> (if g \<in> set (assign_replicas H F p rf nodes) then 1 else 0)"
proof -
  let ?k = "unat rf" and ?P = "\<lambda>n. node_id n \<noteq> g"
  define A where "A = take ?k (scored H F p nodes)"
  define B where "B = drop ?k (scored H F p nodes)"
  have AB: "scored H F p nodes = A @ B" by (simp add: A_def B_def)
  have lenA: "length A = ?k \<or> B = []" by (auto simp: A_def B_def min_def)
  let ?xs = "map node_id (take (?k - length (filter ?P A)) (filter ?P B))"
  have le: "length (filter ?P A) \<le> ?k" using length_filter_le[of ?P A] by (simp add: A_def)
  have eq: "assign_replicas H F p rf (filter ?P nodes) = filter (\<lambda>i. i \<noteq> g) (assign_replicas H F p rf nodes) @ ?xs"
  proof -
    have "take ?k (filter ?P (A @ B)) = filter ?P A @ take (?k - length (filter ?P A)) (filter ?P B)"
      using le by simp
    then show ?thesis
      unfolding assign_replicas_def scored_filter A_def[symmetric] by (simp add: AB filter_map comp_def)
  qed
  have ids: "set (assign_replicas H F p rf nodes) = node_id ` set A"
    by (simp add: assign_replicas_def A_def)
  have "distinct (map node_id A)"
    using assms by (simp add: A_def take_map[symmetric])
  then have "length A \<le> length (filter ?P A) + (if g \<in> node_id ` set A then 1 else 0)"
    by (induction A) (auto split: if_splits)
  then have "length ?xs \<le> (if g \<in> node_id ` set A then 1 else 0)"
    using lenA by (auto split: if_splits)
  then show ?thesis using eq ids by auto
qed

theorem replicas_minimal_disruption_witness:
  "\<exists>xs. assign_replicas demo_hash (\<lambda>w h. h) 0 2 (filter (\<lambda>n. node_id n \<noteq> ''b'') demo_nodes)
      = filter (\<lambda>i. i \<noteq> ''b'') (assign_replicas demo_hash (\<lambda>w h. h) 0 2 demo_nodes) @ xs
    \<and> length xs \<le> (if ''b'' \<in> set (assign_replicas demo_hash (\<lambda>w h. h) 0 2 demo_nodes) then 1 else 0)"
  by (rule replicas_minimal_disruption[OF demo_nodes_distinct])

subsection \<open>Rack diversity\<close>

lemma rack_pass_picks:
  "length sel \<le> rf \<Longrightarrow> \<exists>picked. rack_pass rf ns sel used = sel @ map node_id picked
     \<and> set picked \<subseteq> set ns \<and> (distinct (map node_id ns) \<longrightarrow> distinct (map node_id picked))
     \<and> distinct (map node_rack picked) \<and> node_rack ` set picked \<inter> used = {}
     \<and> length sel + length picked \<le> rf
     \<and> (length sel + length picked < rf \<longrightarrow> node_rack ` set ns \<subseteq> used \<union> node_rack ` set picked)"
proof (induction ns arbitrary: sel used)
  case Nil
  then show ?case by simp
next
  case (Cons n ns)
  consider (full) "rf \<le> length sel" | (seen) "length sel < rf" "node_rack n \<in> used"
    | (fresh) "length sel < rf" "node_rack n \<notin> used" by linarith
  then show ?case
  proof cases
    case full
    then show ?thesis using Cons.prems by (intro exI[of _ "[]"]) simp
  next
    case seen
    obtain picked where "rack_pass rf ns sel used = sel @ map node_id picked"
      "set picked \<subseteq> set ns" "distinct (map node_id ns) \<longrightarrow> distinct (map node_id picked)"
      "distinct (map node_rack picked)" "node_rack ` set picked \<inter> used = {}" "length sel + length picked \<le> rf"
      "length sel + length picked < rf \<longrightarrow> node_rack ` set ns \<subseteq> used \<union> node_rack ` set picked"
      using Cons.IH[of sel used] Cons.prems by blast
    then show ?thesis using seen by (intro exI[of _ picked]) auto
  next
    case fresh
    obtain picked where
      "rack_pass rf ns (sel @ [node_id n]) (insert (node_rack n) used) = (sel @ [node_id n]) @ map node_id picked"
      "set picked \<subseteq> set ns" "distinct (map node_id ns) \<longrightarrow> distinct (map node_id picked)" "distinct (map node_rack picked)"
      "node_rack ` set picked \<inter> insert (node_rack n) used = {}" "length (sel @ [node_id n]) + length picked \<le> rf"
      "length (sel @ [node_id n]) + length picked < rf
        \<longrightarrow> node_rack ` set ns \<subseteq> insert (node_rack n) used \<union> node_rack ` set picked"
      using Cons.IH[of "sel @ [node_id n]" "insert (node_rack n) used"] fresh by fastforce
    then show ?thesis using fresh by (intro exI[of _ "n # picked"]) auto
  qed
qed

lemma fill_pass_fills:
  "length sel \<le> rf \<Longrightarrow> distinct sel \<Longrightarrow> distinct (fill_pass rf ns sel)
     \<and> set sel \<subseteq> set (fill_pass rf ns sel) \<and> set (fill_pass rf ns sel) \<subseteq> set sel \<union> node_id ` set ns
     \<and> length (fill_pass rf ns sel) \<le> rf
     \<and> (length (fill_pass rf ns sel) < rf \<longrightarrow> node_id ` set ns \<subseteq> set (fill_pass rf ns sel))"
proof (induction ns arbitrary: sel)
  case Nil
  then show ?case by simp
next
  case (Cons n ns)
  consider (full) "rf \<le> length sel" | (seen) "length sel < rf" "node_id n \<in> set sel"
    | (fresh) "length sel < rf" "node_id n \<notin> set sel" by linarith
  then show ?case
  proof cases
    case full
    then show ?thesis using Cons.prems by auto
  next
    case seen
    then show ?thesis using Cons.IH[OF Cons.prems] by auto
  next
    case fresh
    then show ?thesis using Cons.IH[of "sel @ [node_id n]"] Cons.prems by auto
  qed
qed

text \<open>The two passes together, in the terms of the first pass's picks.\<close>

lemma rack_aware_shape:
  fixes H F p rf nodes
  assumes "distinct (map node_id nodes)"
  defines "res \<equiv> assign_replicas_rack_aware H F p rf nodes"
  obtains picked where "set picked \<subseteq> set nodes" "distinct (map node_rack picked)" "node_id ` set picked \<subseteq> set res"
    "length picked \<le> unat rf" "length picked < unat rf \<longrightarrow> node_rack ` set nodes \<subseteq> node_rack ` set picked"
    "distinct res" "set res \<subseteq> node_id ` set nodes" "length res \<le> unat rf"
    "length res < unat rf \<longrightarrow> node_id ` set nodes \<subseteq> set res"
proof -
  let ?s = "scored H F p nodes" and ?k = "unat rf"
  obtain picked where p: "rack_pass ?k ?s [] {} = map node_id picked"
    "set picked \<subseteq> set ?s" "distinct (map node_id ?s) \<longrightarrow> distinct (map node_id picked)"
    "distinct (map node_rack picked)" "length picked \<le> ?k"
    "length picked < ?k \<longrightarrow> node_rack ` set ?s \<subseteq> node_rack ` set picked"
    using rack_pass_picks[of "[]" ?k ?s "{}"] by auto
  have sub: "set picked \<subseteq> set nodes" using p(2) by simp
  have d: "distinct (map node_id picked)" using p(3) assms(1) by simp
  let ?f = "fill_pass ?k ?s (map node_id picked)"
  have "distinct ?f \<and> set (map node_id picked) \<subseteq> set ?f \<and> set ?f \<subseteq> set (map node_id picked) \<union> node_id ` set ?s
    \<and> length ?f \<le> ?k \<and> (length ?f < ?k \<longrightarrow> node_id ` set ?s \<subseteq> set ?f)"
    using fill_pass_fills[of "map node_id picked" ?k ?s] d p(5) by simp
  then have fp: "distinct ?f" "node_id ` set picked \<subseteq> set ?f" "set ?f \<subseteq> node_id ` set nodes" "length ?f \<le> ?k"
    "length ?f < ?k \<longrightarrow> node_id ` set nodes \<subseteq> set ?f"
    using image_mono[OF sub, of node_id] by simp_all blast
  have res: "res = (if length picked < ?k then fill_pass ?k ?s (map node_id picked) else map node_id picked)"
    by (simp add: res_def assign_replicas_rack_aware_def p(1) Let_def)
  show thesis
  proof (rule that[OF sub p(4)])
    show "node_id ` set picked \<subseteq> set res" using fp(2) by (simp add: res)
    show "length picked < ?k \<longrightarrow> node_rack ` set nodes \<subseteq> node_rack ` set picked" using p(6) by simp
    show "distinct res" using d fp(1) by (simp add: res)
    show "set res \<subseteq> node_id ` set nodes" using fp(3) sub by (auto simp: res)
    show "length res < ?k \<longrightarrow> node_id ` set nodes \<subseteq> set res" using fp(5) by (simp add: res)
  qed (use p(5) fp(4) in \<open>auto simp: res\<close>)
qed

lemma card_image_ids:
  "distinct (map node_id nodes) \<Longrightarrow> card (node_id ` set nodes) = length nodes"
  by (metis distinct_card length_map list.set_map)

lemma rack_aware_picks:
  fixes H F p rf nodes
  assumes "distinct (map node_id nodes)"
  defines "res \<equiv> assign_replicas_rack_aware H F p rf nodes"
  shows "distinct res \<and> set res \<subseteq> node_id ` set nodes \<and> length res = min (unat rf) (length nodes)"
proof -
  have r: "distinct res" "set res \<subseteq> node_id ` set nodes" "length res \<le> unat rf" "length res < unat rf \<longrightarrow> node_id ` set nodes \<subseteq> set res"
    using rack_aware_shape[OF assms(1), of H F p rf] unfolding res_def by blast+
  have len: "length res = card (set res)" using r(1) by (simp add: distinct_card)
  then have "length res \<le> length nodes"
    using card_mono[OF _ r(2)] card_image_ids[OF assms(1)] by simp
  moreover have "length res = length nodes" if "length res < unat rf"
    using that r(2,4) len card_image_ids[OF assms(1)] by (metis subset_antisym)
  ultimately show ?thesis using r by linarith
qed

text \<open>
  Rack-aware placement still returns \<^verbatim>\<open>min replication_factor nodes.len()\<close> distinct
  nodes, and it is as diverse as possible: the racks of the chosen nodes are
  \<^verbatim>\<open>min replication_factor (number of racks)\<close> many.
\<close>

theorem rack_aware_diversity:
  fixes H F p rf nodes
  assumes "distinct (map node_id nodes)"
  defines "res \<equiv> assign_replicas_rack_aware H F p rf nodes"
  shows "distinct res \<and> set res \<subseteq> node_id ` set nodes \<and> length res = min (unat rf) (length nodes)
    \<and> card (node_rack ` {n \<in> set nodes. node_id n \<in> set res}) = min (unat rf) (card (node_rack ` set nodes))"
proof -
  obtain picked where p: "set picked \<subseteq> set nodes" "distinct (map node_rack picked)" "node_id ` set picked \<subseteq> set res"
    "length picked \<le> unat rf" "length picked < unat rf \<longrightarrow> node_rack ` set nodes \<subseteq> node_rack ` set picked"
    and r: "distinct res" "set res \<subseteq> node_id ` set nodes" "length res \<le> unat rf"
    "length res < unat rf \<longrightarrow> node_id ` set nodes \<subseteq> set res"
    using rack_aware_shape[OF assms(1), of H F p rf] unfolding res_def by blast
  have len: "length res = card (set res)" using r(1) by (simp add: distinct_card)
  have l: "length res = min (unat rf) (length nodes)" using rack_aware_picks[OF assms(1), of H F p rf] by (simp add: res_def)
  let ?C = "{n \<in> set nodes. node_id n \<in> set res}"
  have inj: "inj_on node_id ?C"
    using assms(1) by (auto simp: distinct_map intro: inj_on_subset)
  have sub: "set picked \<subseteq> ?C" using p by auto
  have "card (node_rack ` ?C) \<le> card ?C" by (rule card_image_le) simp
  also have "\<dots> \<le> card (set res)" using inj by (rule card_inj_on_le) auto
  finally have up1: "card (node_rack ` ?C) \<le> unat rf" using len r(3) by simp
  have up2: "card (node_rack ` ?C) \<le> card (node_rack ` set nodes)" by (rule card_mono) auto
  have "length picked = card (node_rack ` set picked)" using distinct_card[OF p(2)] by simp
  also have "\<dots> \<le> card (node_rack ` ?C)" using sub by (intro card_mono) auto
  finally have low: "length picked \<le> card (node_rack ` ?C)" .
  have "card (node_rack ` ?C) = card (node_rack ` set nodes)" if "length picked < unat rf"
  proof -
    have "node_rack ` ?C = node_rack ` set nodes" using that p(5) sub by blast
    then show ?thesis by simp
  qed
  then have "card (node_rack ` ?C) = min (unat rf) (card (node_rack ` set nodes))"
    using up1 up2 low p(4) by linarith
  then show ?thesis using l r by simp
qed

theorem rack_aware_diversity_witness:
  "distinct (assign_replicas_rack_aware demo_hash (\<lambda>w h. h) 0 2 demo_nodes)
   \<and> card (node_rack ` {n \<in> set demo_nodes. node_id n \<in> set (assign_replicas_rack_aware demo_hash (\<lambda>w h. h) 0 2 demo_nodes)})
     = min (unat (2::u32)) (card (node_rack ` set demo_nodes))"
  using rack_aware_diversity[OF demo_nodes_distinct, of demo_hash "\<lambda>w h. h" 0 2] by blast

end
