(* ===== verification/Publisher.thy ===== *)
theory Publisher
  imports Events Watermark Hash_Ring
begin

text \<open>
  The event publisher (\<^verbatim>\<open>mitiflow/src/publisher/mod.rs\<close>): partition choice, per-partition
  sequence counters, the bounded recovery cache and the queries it answers, heartbeat beacons, the
  wait for a durability watermark, and all eleven publish operations.  The Zenoh \<^verbatim>\<open>put\<close>,
  the payload codec, the id generator and the clock are the fields of an environment passed to each
  operation; a run may use a different environment at every call.  An operation returns the new
  publisher, its result and the messages it put on the network.  The counters and the cache are
  shared between tasks behind atomics and a lock; calls are modelled one after another.
\<close>

section \<open>State\<close>

record CachedSample =
  cs_seq :: u64
  cs_key_expr :: string
  cs_payload :: bytes
  cs_attachment :: bytes

record HeartbeatBeacon =
  hb_pub_id :: PublisherId
  hb_partition_seqs :: "(u32, u64) hmap"
  hb_timestamp :: DateTime

record PublishReceipt =
  rc_event_id :: EventId
  rc_seq :: u64
  rc_publisher_id :: PublisherId
  rc_partition :: u32
  rc_timestamp :: DateTime

record PublisherConfig =
  pc_key_prefix :: string
  pc_cache_size :: nat
  pc_num_partitions :: u32
  pc_durable_urgency :: Duration

record EventPublisher =
  pub_cache :: "CachedSample list"
  pub_partition_seqs :: "(u32, u64) hmap"
  pub_round_robin :: u64
  pub_publisher_id :: PublisherId
  pub_config :: PublisherConfig
  pub_has_watermark_tx :: bool

text \<open>A message on the network: key expression, payload, attachment.\<close>

type_synonym wire = "string \<times> bytes \<times> bytes"

text \<open>
  One receive on the watermark broadcast channel.  A run of receives that ends without success is
  cut off by \<^verbatim>\<open>durable_timeout\<close>.
\<close>

datatype wm_recv = WmReceived CommitWatermark | WmLagged | WmClosed

record 't pub_env =
  env_put :: "wire \<Rightarrow> unit result"
  env_encode :: "'t \<Rightarrow> bytes result"
  env_new_id :: EventId
  env_now :: DateTime
  env_watermarks :: "wm_recv list"

section \<open>Building blocks\<close>

text \<open>
  The state \<^verbatim>\<open>EventPublisher::new\<close> starts from once its Zenoh declarations have succeeded.
\<close>

definition publisher_new :: "PublisherId \<Rightarrow> PublisherConfig \<Rightarrow> EventPublisher" where
  "publisher_new i c = \<lparr>pub_cache = [], pub_partition_seqs = [], pub_round_robin = 0, pub_publisher_id = i,
     pub_config = c, pub_has_watermark_tx = True\<rparr>"

definition assign_partition :: "EventPublisher \<Rightarrow> u32 \<times> EventPublisher" where
  "assign_partition pub =
     (let n = max (pc_num_partitions (pub_config pub)) 1 in
      (ucast (pub_round_robin pub mod ucast n), pub\<lparr>pub_round_robin := pub_round_robin pub + 1\<rparr>))"

definition next_seq_for :: "EventPublisher \<Rightarrow> u32 \<Rightarrow> u64 \<times> EventPublisher" where
  "next_seq_for pub p =
     (case hm_get (pub_partition_seqs pub) p of
        Some seq \<Rightarrow> (seq, pub\<lparr>pub_partition_seqs := hm_insert p (seq + 1) (pub_partition_seqs pub)\<rparr>)
      | None \<Rightarrow> (0, pub\<lparr>pub_partition_seqs := hm_insert p 1 (pub_partition_seqs pub)\<rparr>))"

definition current_seq_for :: "EventPublisher \<Rightarrow> u32 \<Rightarrow> u64" where
  "current_seq_for pub p = (case hm_get (pub_partition_seqs pub) p of Some s \<Rightarrow> s | None \<Rightarrow> 0)"

definition current_seq :: "EventPublisher \<Rightarrow> u64" where
  "current_seq pub = current_seq_for pub 0"

definition urgency_ms :: "EventPublisher \<Rightarrow> u16" where
  "urgency_ms pub = word_of_nat (min (pc_durable_urgency (pub_config pub) div 1000000) (unat (NO_URGENCY - 1)))"

definition publish_receipt :: "EventPublisher \<Rightarrow> EventId \<Rightarrow> u64 \<Rightarrow> u32 \<Rightarrow> DateTime \<Rightarrow> PublishReceipt" where
  "publish_receipt pub i seq p ts = \<lparr>rc_event_id = i, rc_seq = seq, rc_publisher_id = pub_publisher_id pub,
     rc_partition = p, rc_timestamp = ts\<rparr>"

definition cache_push :: "nat \<Rightarrow> CachedSample \<Rightarrow> CachedSample list \<Rightarrow> CachedSample list" where
  "cache_push cap x cache =
     (if cap > 0 then (if length cache \<ge> cap then tl cache else cache) @ [x] else cache)"

definition put_payload ::
  "'t pub_env \<Rightarrow> EventPublisher \<Rightarrow> string \<Rightarrow> bytes \<Rightarrow> u64 \<Rightarrow> EventId \<Rightarrow> DateTime \<Rightarrow> u16
    \<Rightarrow> EventPublisher \<times> unit result \<times> wire list"
where
  "put_payload env pub key payload seq event_id ts urgency =
     (let attachment = encode_metadata (pub_publisher_id pub) seq event_id ts urgency;
          sample = \<lparr>cs_seq = seq, cs_key_expr = key, cs_payload = payload, cs_attachment = attachment\<rparr>;
          pub1 = pub\<lparr>pub_cache := cache_push (pc_cache_size (pub_config pub)) sample (pub_cache pub)\<rparr> in
      case env_put env (key, payload, attachment) of
        Err e \<Rightarrow> (pub1, Err e, [])
      | Ok _ \<Rightarrow> (pub1, Ok (), [(key, payload, attachment)]))"

definition publish_inner ::
  "'t pub_env \<Rightarrow> EventPublisher \<Rightarrow> string \<Rightarrow> 't Event \<Rightarrow> u64 \<Rightarrow> u16 \<Rightarrow> EventPublisher \<times> unit result \<times> wire list"
where
  "publish_inner env pub key event seq urgency =
     (case env_encode env (ev_payload event) of
        Err e \<Rightarrow> (pub, Err e, [])
      | Ok payload \<Rightarrow> put_payload env pub key payload seq (ev_id event) (ev_timestamp event) urgency)"

fun wait_loop :: "PublisherId \<Rightarrow> u32 \<Rightarrow> u64 \<Rightarrow> wm_recv list \<Rightarrow> unit result" where
  "wait_loop my_id p seq [] = Err (DurabilityTimeout seq)"
| "wait_loop my_id p seq (WmReceived wm # rest) =
     (if cw_partition wm = p \<and> cw_is_durable wm my_id seq then Ok () else wait_loop my_id p seq rest)"
| "wait_loop my_id p seq (WmClosed # rest) = Err ChannelClosed"
| "wait_loop my_id p seq (WmLagged # rest) = wait_loop my_id p seq rest"

definition wait_for_watermark :: "'t pub_env \<Rightarrow> EventPublisher \<Rightarrow> u32 \<Rightarrow> u64 \<Rightarrow> unit result" where
  "wait_for_watermark env pub p seq =
     (if pub_has_watermark_tx pub then wait_loop (pub_publisher_id pub) p seq (env_watermarks env)
      else Err (InvalidConfig ''watermark subscriber not initialized''))"

text \<open>
  \<^verbatim>\<open>?\<close> after a sending step, then the receipt, with or without the durability wait.
\<close>

definition finish ::
  "EventPublisher \<times> unit result \<times> wire list \<Rightarrow> EventId \<Rightarrow> u64 \<Rightarrow> u32 \<Rightarrow> DateTime
    \<Rightarrow> EventPublisher \<times> PublishReceipt result \<times> wire list"
where
  "finish step i seq p ts =
     (case step of (pub, r, sent) \<Rightarrow> (pub, rbind r (\<lambda>_. Ok (publish_receipt pub i seq p ts)), sent))"

definition finish_durable ::
  "'t pub_env \<Rightarrow> EventPublisher \<times> unit result \<times> wire list \<Rightarrow> EventId \<Rightarrow> u64 \<Rightarrow> u32 \<Rightarrow> DateTime
    \<Rightarrow> EventPublisher \<times> PublishReceipt result \<times> wire list"
where
  "finish_durable env step i seq p ts =
     (case step of (pub, r, sent) \<Rightarrow>
        (pub, rbind r (\<lambda>_. rbind (wait_for_watermark env pub p seq) (\<lambda>_. Ok (publish_receipt pub i seq p ts))), sent))"

definition unkeyed_expr :: "EventPublisher \<Rightarrow> u32 \<Rightarrow> u64 \<Rightarrow> string" where
  "unkeyed_expr pub p seq = pc_key_prefix (pub_config pub) @ ''/p/'' @ show_word p @ ''/'' @ show_word seq"

definition keyed_expr :: "EventPublisher \<Rightarrow> u32 \<Rightarrow> string \<Rightarrow> u64 \<Rightarrow> string" where
  "keyed_expr pub p key seq =
     pc_key_prefix (pub_config pub) @ ''/p/'' @ show_word p @ ''/k/'' @ key @ ''/'' @ show_word seq"

section \<open>The publish operations\<close>

type_synonym pub_step = "EventPublisher \<times> PublishReceipt result \<times> wire list"

definition publish_bytes :: "'t pub_env \<Rightarrow> EventPublisher \<Rightarrow> bytes \<Rightarrow> pub_step" where
  "publish_bytes env pub bs =
     (let (p, pub1) = assign_partition pub; (seq, pub2) = next_seq_for pub1 p in
      finish (put_payload env pub2 (unkeyed_expr pub p seq) bs seq (env_new_id env) (env_now env) NO_URGENCY)
        (env_new_id env) seq p (env_now env))"

definition publish_bytes_to :: "'t pub_env \<Rightarrow> EventPublisher \<Rightarrow> string \<Rightarrow> bytes \<Rightarrow> pub_step" where
  "publish_bytes_to env pub key bs =
     (let p = extract_partition key; (seq, pub1) = next_seq_for pub p in
      finish (put_payload env pub1 key bs seq (env_new_id env) (env_now env) NO_URGENCY)
        (env_new_id env) seq p (env_now env))"

definition publish_bytes_durable :: "'t pub_env \<Rightarrow> EventPublisher \<Rightarrow> bytes \<Rightarrow> pub_step" where
  "publish_bytes_durable env pub bs =
     (let urgency = urgency_ms pub; (p, pub1) = assign_partition pub; (seq, pub2) = next_seq_for pub1 p in
      finish_durable env
        (put_payload env pub2 (unkeyed_expr pub p seq) bs seq (env_new_id env) (env_now env) urgency)
        (env_new_id env) seq p (env_now env))"

definition publish_bytes_durable_to :: "'t pub_env \<Rightarrow> EventPublisher \<Rightarrow> string \<Rightarrow> bytes \<Rightarrow> pub_step" where
  "publish_bytes_durable_to env pub key bs =
     (let urgency = urgency_ms pub; p = extract_partition key; (seq, pub1) = next_seq_for pub p in
      finish_durable env (put_payload env pub1 key bs seq (env_new_id env) (env_now env) urgency)
        (env_new_id env) seq p (env_now env))"

text \<open>
  The keyed operations hash the key; with \<^verbatim>\<open>num_partitions == 0\<close> the remainder panics
  (\<^const>\<open>None\<close>).
\<close>

definition publish_keyed ::
  "(hash_input list \<Rightarrow> u64) \<Rightarrow> 't pub_env \<Rightarrow> EventPublisher \<Rightarrow> string \<Rightarrow> 't Event \<Rightarrow> pub_step option"
where
  "publish_keyed H env pub key event =
     (case validate_key key of
        Err e \<Rightarrow> Some (pub, Err e, [])
      | Ok _ \<Rightarrow> (case partition_for H key (pc_num_partitions (pub_config pub)) of
           None \<Rightarrow> None
         | Some p \<Rightarrow>
             let (seq, pub1) = next_seq_for pub p in
             Some (finish (publish_inner env pub1 (keyed_expr pub p key seq) event seq NO_URGENCY)
               (ev_id event) seq p (ev_timestamp event))))"

definition publish_bytes_keyed ::
  "(hash_input list \<Rightarrow> u64) \<Rightarrow> 't pub_env \<Rightarrow> EventPublisher \<Rightarrow> string \<Rightarrow> bytes \<Rightarrow> pub_step option"
where
  "publish_bytes_keyed H env pub key bs =
     (case validate_key key of
        Err e \<Rightarrow> Some (pub, Err e, [])
      | Ok _ \<Rightarrow> (case partition_for H key (pc_num_partitions (pub_config pub)) of
           None \<Rightarrow> None
         | Some p \<Rightarrow>
             let (seq, pub1) = next_seq_for pub p in
             Some (finish
               (put_payload env pub1 (keyed_expr pub p key seq) bs seq (env_new_id env) (env_now env) NO_URGENCY)
               (env_new_id env) seq p (env_now env))))"

definition publish_keyed_durable ::
  "(hash_input list \<Rightarrow> u64) \<Rightarrow> 't pub_env \<Rightarrow> EventPublisher \<Rightarrow> string \<Rightarrow> 't Event \<Rightarrow> pub_step option"
where
  "publish_keyed_durable H env pub key event =
     (case validate_key key of
        Err e \<Rightarrow> Some (pub, Err e, [])
      | Ok _ \<Rightarrow>
          let urgency = urgency_ms pub in
          (case partition_for H key (pc_num_partitions (pub_config pub)) of
             None \<Rightarrow> None
           | Some p \<Rightarrow>
               let (seq, pub1) = next_seq_for pub p in
               Some (finish_durable env (publish_inner env pub1 (keyed_expr pub p key seq) event seq urgency)
                 (ev_id event) seq p (ev_timestamp event))))"

definition publish_bytes_keyed_durable ::
  "(hash_input list \<Rightarrow> u64) \<Rightarrow> 't pub_env \<Rightarrow> EventPublisher \<Rightarrow> string \<Rightarrow> bytes \<Rightarrow> pub_step option"
where
  "publish_bytes_keyed_durable H env pub key bs =
     (case validate_key key of
        Err e \<Rightarrow> Some (pub, Err e, [])
      | Ok _ \<Rightarrow>
          let urgency = urgency_ms pub in
          (case partition_for H key (pc_num_partitions (pub_config pub)) of
             None \<Rightarrow> None
           | Some p \<Rightarrow>
               let (seq, pub1) = next_seq_for pub p in
               Some (finish_durable env
                 (put_payload env pub1 (keyed_expr pub p key seq) bs seq (env_new_id env) (env_now env) urgency)
                 (env_new_id env) seq p (env_now env))))"

definition publish :: "'t pub_env \<Rightarrow> EventPublisher \<Rightarrow> 't Event \<Rightarrow> pub_step" where
  "publish env pub event =
     (let (p, pub1) = assign_partition pub; (seq, pub2) = next_seq_for pub1 p in
      finish (publish_inner env pub2 (unkeyed_expr pub p seq) event seq NO_URGENCY)
        (ev_id event) seq p (ev_timestamp event))"

definition publish_to :: "'t pub_env \<Rightarrow> EventPublisher \<Rightarrow> string \<Rightarrow> 't Event \<Rightarrow> pub_step" where
  "publish_to env pub key event =
     (let p = extract_partition key; (seq, pub1) = next_seq_for pub p in
      finish (publish_inner env pub1 key event seq NO_URGENCY) (ev_id event) seq p (ev_timestamp event))"

definition publish_durable :: "'t pub_env \<Rightarrow> EventPublisher \<Rightarrow> 't Event \<Rightarrow> pub_step" where
  "publish_durable env pub event =
     (let urgency = urgency_ms pub; (p, pub1) = assign_partition pub; (seq, pub2) = next_seq_for pub1 p in
      finish_durable env (publish_inner env pub2 (unkeyed_expr pub p seq) event seq urgency)
        (ev_id event) seq p (ev_timestamp event))"

section \<open>Background tasks\<close>

text \<open>One tick of \<^verbatim>\<open>run_heartbeat_task\<close>: the beacon it builds.\<close>

definition heartbeat_beacon :: "EventPublisher \<Rightarrow> DateTime \<Rightarrow> HeartbeatBeacon" where
  "heartbeat_beacon pub now = \<lparr>hb_pub_id = pub_publisher_id pub,
     hb_partition_seqs = map (\<lambda>(p, s). (p, saturating_sub s 1)) (pub_partition_seqs pub), hb_timestamp = now\<rparr>"

text \<open>
  One query of \<^verbatim>\<open>run_cache_queryable_task\<close>: the replies, from the query's parameter lookup.
\<close>

definition param_u64 :: "(string \<Rightarrow> string option) \<Rightarrow> string \<Rightarrow> u64 \<Rightarrow> u64" where
  "param_u64 params name d =
     (case params name of None \<Rightarrow> d | Some v \<Rightarrow> (case parse_u64 v of Some n \<Rightarrow> n | None \<Rightarrow> d))"

definition cache_query :: "EventPublisher \<Rightarrow> (string \<Rightarrow> string option) \<Rightarrow> wire list" where
  "cache_query pub params =
     (let after_seq = param_u64 params ''after_seq'' 0; before_seq = param_u64 params ''before_seq'' u64_MAX;
          snapshot = filter (\<lambda>s. cs_seq s \<ge> after_seq \<and> cs_seq s < before_seq) (pub_cache pub) in
      map (\<lambda>s. (cs_key_expr s, cs_payload s, cs_attachment s)) snapshot)"

section \<open>Runs of a publisher\<close>

datatype 't pub_op =
    OpBytes bytes | OpBytesTo string bytes | OpBytesDurable bytes | OpBytesDurableTo string bytes
  | OpKeyed string "'t Event" | OpBytesKeyed string bytes | OpKeyedDurable string "'t Event"
  | OpBytesKeyedDurable string bytes | OpPublish "'t Event" | OpTo string "'t Event" | OpDurable "'t Event"

fun pub_call ::
  "(hash_input list \<Rightarrow> u64) \<Rightarrow> 't pub_env \<Rightarrow> EventPublisher \<Rightarrow> 't pub_op \<Rightarrow> pub_step option"
where
  "pub_call H env pub (OpBytes bs) = Some (publish_bytes env pub bs)"
| "pub_call H env pub (OpBytesTo k bs) = Some (publish_bytes_to env pub k bs)"
| "pub_call H env pub (OpBytesDurable bs) = Some (publish_bytes_durable env pub bs)"
| "pub_call H env pub (OpBytesDurableTo k bs) = Some (publish_bytes_durable_to env pub k bs)"
| "pub_call H env pub (OpKeyed k e) = publish_keyed H env pub k e"
| "pub_call H env pub (OpBytesKeyed k bs) = publish_bytes_keyed H env pub k bs"
| "pub_call H env pub (OpKeyedDurable k e) = publish_keyed_durable H env pub k e"
| "pub_call H env pub (OpBytesKeyedDurable k bs) = publish_bytes_keyed_durable H env pub k bs"
| "pub_call H env pub (OpPublish e) = Some (publish env pub e)"
| "pub_call H env pub (OpTo k e) = Some (publish_to env pub k e)"
| "pub_call H env pub (OpDurable e) = Some (publish_durable env pub e)"

fun pub_run ::
  "(hash_input list \<Rightarrow> u64) \<Rightarrow> EventPublisher \<Rightarrow> ('t pub_env \<times> 't pub_op) list
    \<Rightarrow> (EventPublisher \<times> PublishReceipt result list \<times> wire list) option"
where
  "pub_run H pub [] = Some (pub, [], [])"
| "pub_run H pub ((env, op) # ops) =
     (case pub_call H env pub op of None \<Rightarrow> None
      | Some (pub1, r, ws) \<Rightarrow> (case pub_run H pub1 ops of None \<Rightarrow> None
          | Some (pub2, rs, ws') \<Rightarrow> Some (pub2, r # rs, ws @ ws')))"

fun wire_seq :: "wire \<Rightarrow> u64" where
  "wire_seq (key, payload, attachment) = (case decode_metadata attachment of Ok m \<Rightarrow> em_seq m | Err _ \<Rightarrow> 0)"

fun wire_partition :: "wire \<Rightarrow> u32" where
  "wire_partition (key, payload, attachment) = extract_partition key"

declare wire_seq.simps [simp del] wire_partition.simps [simp del]
lemmas wire_simps = wire_seq.simps wire_partition.simps

definition is_ok :: "'a result \<Rightarrow> bool" where
  "is_ok r = (case r of Ok _ \<Rightarrow> True | Err _ \<Rightarrow> False)"

definition wire_sample :: "wire \<Rightarrow> CachedSample" where
  "wire_sample w = \<lparr>cs_seq = wire_seq w, cs_key_expr = fst w, cs_payload = fst (snd w), cs_attachment = snd (snd w)\<rparr>"

text \<open>
  What one call does: either it is rejected before a sequence is taken, or it takes the next
  sequence of one partition, puts at most one message carrying it, and puts it when it succeeds.
\<close>

definition message_for :: "EventPublisher \<Rightarrow> u32 \<Rightarrow> u64 \<Rightarrow> wire \<Rightarrow> bool" where
  "message_for pub p seq w \<longleftrightarrow> wire_seq w = seq \<and> wire_partition w = p
     \<and> (\<exists>m. decode_metadata (snd (snd w)) = Ok m \<and> em_pub_id m = pub_publisher_id pub)"

definition call_takes ::
  "EventPublisher \<Rightarrow> EventPublisher \<Rightarrow> PublishReceipt result \<Rightarrow> wire list \<Rightarrow> u32 \<Rightarrow> bool"
where
  "call_takes pub pub' r ws p \<longleftrightarrow>
     pub_config pub' = pub_config pub \<and> pub_publisher_id pub' = pub_publisher_id pub
     \<and> (\<forall>q. current_seq_for pub' q = current_seq_for pub q + (if q = p then 1 else 0))
     \<and> (ws = [] \<or> (\<exists>w. ws = [w] \<and> message_for pub p (current_seq_for pub p) w
          \<and> pub_cache pub' = cache_push (pc_cache_size (pub_config pub)) (wire_sample w) (pub_cache pub)))
     \<and> (\<forall>rc. r = Ok rc \<longrightarrow> ws \<noteq> [] \<and> rc_seq rc = current_seq_for pub p \<and> rc_partition rc = p
          \<and> rc_publisher_id rc = pub_publisher_id pub)"

lemma next_seq_for_eq:
  "next_seq_for pub p = (current_seq_for pub p,
     pub\<lparr>pub_partition_seqs := hm_insert p (current_seq_for pub p + 1) (pub_partition_seqs pub)\<rparr>)"
  by (simp add: next_seq_for_def current_seq_for_def split: option.splits)

lemma current_seq_for_insert [simp]:
  "current_seq_for (pub\<lparr>pub_partition_seqs := hm_insert p v m\<rparr>) q
     = (if q = p then v else current_seq_for (pub\<lparr>pub_partition_seqs := m\<rparr>) q)"
  by (simp add: current_seq_for_def)

lemma current_seq_for_frame [simp]:
  "current_seq_for (pub\<lparr>pub_cache := c\<rparr>) q = current_seq_for pub q"
  "current_seq_for (pub\<lparr>pub_round_robin := n\<rparr>) q = current_seq_for pub q"
  by (simp_all add: current_seq_for_def)

lemma message_for_put:
  "extract_partition key = p \<Longrightarrow> message_for pub p seq (key, payload, encode_metadata (pub_publisher_id pub) seq i ts u)"
  by (simp add: message_for_def wire_simps)

text \<open>The sending part of a call, once its sequence has been taken.\<close>

definition sends :: "EventPublisher \<Rightarrow> u32 \<Rightarrow> EventPublisher \<times> unit result \<times> wire list \<Rightarrow> bool" where
  "sends pub p step \<longleftrightarrow> (case step of (pub', r, ws) \<Rightarrow>
     pub_config pub' = pub_config pub \<and> pub_publisher_id pub' = pub_publisher_id pub
     \<and> (\<forall>q. current_seq_for pub' q = current_seq_for pub q + (if q = p then 1 else 0))
     \<and> ((\<exists>e. r = Err e \<and> ws = []) \<or>
        (\<exists>w. r = Ok () \<and> ws = [w] \<and> message_for pub p (current_seq_for pub p) w
          \<and> pub_cache pub' = cache_push (pc_cache_size (pub_config pub)) (wire_sample w) (pub_cache pub))))"

lemma sends_finish:
  assumes "sends pub p step" and "seq = current_seq_for pub p"
  shows "finish step i seq p ts = (pub', r, ws) \<Longrightarrow> call_takes pub pub' r ws p"
    and "finish_durable env step i seq p ts = (pub', r, ws) \<Longrightarrow> call_takes pub pub' r ws p"
  using assms
  by (auto simp: sends_def call_takes_def finish_def finish_durable_def publish_receipt_def split: prod.splits)

text \<open>The publishers a call passes to \<^const>\<open>next_seq_for\<close>.\<close>

definition same_but_rr :: "EventPublisher \<Rightarrow> EventPublisher \<Rightarrow> bool" where
  "same_but_rr pub pub1 \<longleftrightarrow> pub_partition_seqs pub1 = pub_partition_seqs pub \<and> pub_cache pub1 = pub_cache pub
     \<and> pub_config pub1 = pub_config pub \<and> pub_publisher_id pub1 = pub_publisher_id pub"

lemma put_payload_sends:
  assumes "same_but_rr pub pub1" and "next_seq_for pub1 p = (seq, pub2)" and "extract_partition key = p"
  shows "sends pub p (put_payload env pub2 key payload seq i ts u)"
proof -
  have seqs: "current_seq_for pub1 = current_seq_for pub"
    using assms(1) by (auto simp: same_but_rr_def current_seq_for_def)
  have pub2: "pub2 = pub1\<lparr>pub_partition_seqs := hm_insert p (seq + 1) (pub_partition_seqs pub1)\<rparr>"
    and seq: "seq = current_seq_for pub p"
    using assms(2) seqs by (auto simp: next_seq_for_eq)
  have cs: "current_seq_for pub2 q = current_seq_for pub q + (if q = p then 1 else 0)" for q
    using seqs seq by (simp add: pub2)
  have w: "wire_sample (key, payload, encode_metadata j seq i ts u) =
      \<lparr>cs_seq = seq, cs_key_expr = key, cs_payload = payload, cs_attachment = encode_metadata j seq i ts u\<rparr>" for j seq
    by (simp add: wire_sample_def wire_simps)
  have frame: "pub_cache pub2 = pub_cache pub" "pub_config pub2 = pub_config pub"
    "pub_publisher_id pub2 = pub_publisher_id pub"
    using assms(1) by (auto simp: pub2 same_but_rr_def)
  show ?thesis
    using assms(3) message_for_put[of key p pub seq payload i ts u] seq
    by (cases "env_put env (key, payload, encode_metadata (pub_publisher_id pub) seq i ts u)")
      (auto simp: put_payload_def Let_def sends_def cs frame w)
qed

lemma publish_inner_sends:
  assumes "same_but_rr pub pub1" and "next_seq_for pub1 p = (seq, pub2)" and "extract_partition key = p"
  shows "sends pub p (publish_inner env pub2 key event seq u)"
proof (cases "env_encode env (ev_payload event)")
  case (Inl e)
  have "current_seq_for pub1 = current_seq_for pub" "pub_publisher_id pub1 = pub_publisher_id pub"
    "pub_config pub1 = pub_config pub"
    using assms(1) by (auto simp: same_but_rr_def current_seq_for_def)
  moreover have "pub2 = pub1\<lparr>pub_partition_seqs := hm_insert p (current_seq_for pub1 p + 1) (pub_partition_seqs pub1)\<rparr>"
    using assms(2) by (auto simp: next_seq_for_eq)
  ultimately show ?thesis using Inl by (auto simp: publish_inner_def sends_def)
next
  case (Inr payload)
  then show ?thesis using put_payload_sends[OF assms] by (simp add: publish_inner_def)
qed

lemma next_seq_same: "same_but_rr pub pub1 \<Longrightarrow> next_seq_for pub1 p = (seq, pub2) \<Longrightarrow> seq = current_seq_for pub p"
  by (simp add: next_seq_for_eq same_but_rr_def current_seq_for_def)

lemma same_but_rr_refl [simp]: "same_but_rr pub pub"
  by (simp add: same_but_rr_def)

lemma assign_partition_same: "assign_partition pub = (p, pub1) \<Longrightarrow> same_but_rr pub pub1"
  by (auto simp: assign_partition_def same_but_rr_def Let_def)

lemma exprs_partition:
  assumes "prefix_free (CHR ''p'') (pc_key_prefix (pub_config pub))"
  shows "extract_partition (unkeyed_expr pub p seq) = p" "extract_partition (keyed_expr pub p key seq) = p"
  using extract_partition_layout[OF assms, of p "show_word seq"]
    extract_partition_layout[OF assms, of p "''k/'' @ key @ ''/'' @ show_word seq"]
  by (simp_all add: unkeyed_expr_def keyed_expr_def)

lemmas call_facts = put_payload_sends publish_inner_sends next_seq_same assign_partition_same
lemmas publish_defs = publish_bytes_def publish_bytes_to_def publish_bytes_durable_def publish_bytes_durable_to_def
  publish_keyed_def publish_bytes_keyed_def publish_keyed_durable_def publish_bytes_keyed_durable_def
  publish_def publish_to_def publish_durable_def

text \<open>The four ways a call that takes a sequence ends.\<close>

lemma call_takes_shapes:
  assumes "same_but_rr pub pub1" and "next_seq_for pub1 p = (seq, pub2)" and "extract_partition key = p"
  shows "finish (put_payload env pub2 key bs seq i ts u) i' seq p ts' = (pub', r, ws) \<Longrightarrow> call_takes pub pub' r ws p"
    "finish_durable env (put_payload env pub2 key bs seq i ts u) i' seq p ts' = (pub', r, ws) \<Longrightarrow> call_takes pub pub' r ws p"
    "finish (publish_inner env pub2 key e seq u) i' seq p ts' = (pub', r, ws) \<Longrightarrow> call_takes pub pub' r ws p"
    "finish_durable env (publish_inner env pub2 key e seq u) i' seq p ts' = (pub', r, ws) \<Longrightarrow> call_takes pub pub' r ws p"
  by (erule sends_finish[OF put_payload_sends[OF assms] next_seq_same[OF assms(1,2)]]
        sends_finish[OF publish_inner_sends[OF assms] next_seq_same[OF assms(1,2)]])+

definition call_effect :: "EventPublisher \<Rightarrow> EventPublisher \<Rightarrow> PublishReceipt result \<Rightarrow> wire list \<Rightarrow> bool" where
  "call_effect pub pub' r ws \<longleftrightarrow> (pub' = pub \<and> ws = [] \<and> (\<exists>e. r = Err e)) \<or> (\<exists>p. call_takes pub pub' r ws p)"

lemma call_effect_rejected [simp]: "call_effect pub pub (Err e) []"
  by (simp add: call_effect_def)

lemma call_effectI: "call_takes pub pub' r ws p \<Longrightarrow> call_effect pub pub' r ws"
  by (auto simp: call_effect_def)

lemmas call_effect_shapes =
  call_takes_shapes(1)[THEN call_effectI, rotated 3] call_takes_shapes(2)[THEN call_effectI, rotated 3]
  call_takes_shapes(3)[THEN call_effectI, rotated 3] call_takes_shapes(4)[THEN call_effectI, rotated 3]

lemma pub_call_effect:
  assumes pf: "prefix_free (CHR ''p'') (pc_key_prefix (pub_config pub))"
    and call: "pub_call H env pub op = Some (pub', r, ws)"
  shows "call_effect pub pub' r ws"
  using call
  by (cases op)
    (auto simp: publish_defs Let_def split: prod.splits sum.splits option.splits
       intro: exprs_partition[OF pf] assign_partition_same elim!: call_effect_shapes)

section \<open>Sequence numbers of a run\<close>

abbreviation seqs_on :: "u32 \<Rightarrow> wire list \<Rightarrow> u64 list" where
  "seqs_on p ws \<equiv> map wire_seq (filter (\<lambda>w. wire_partition w = p) ws)"

lemma word_range_empty [simp]: "hi \<le> lo \<Longrightarrow> word_range lo hi = []"
  by (simp add: word_range_def word_le_nat_alt)

lemma word_range_Cons: "lo < hi \<Longrightarrow> word_range lo hi = lo # word_range (lo + 1) (hi :: 'a::len word)"
  by (simp add: word_range_def word_less_nat_alt upt_conv_Cons word_succ_unat[of lo hi])

lemma seqs_extend:
  fixes c c1 c' :: u64
  assumes "c < c1" "c1 = c + 1" "S1 = [] \<or> S1 = [c]" "ok1 \<Longrightarrow> S1 = [c]"
    and "c1 \<le> c' \<and> sorted_wrt (<) S2 \<and> set S2 \<subseteq> {c1..<c'} \<and> (ok2 \<longrightarrow> S2 = word_range c1 c')"
  shows "c \<le> c' \<and> sorted_wrt (<) (S1 @ S2) \<and> set (S1 @ S2) \<subseteq> {c..<c'} \<and> (ok1 \<and> ok2 \<longrightarrow> S1 @ S2 = word_range c c')"
proof -
  have lt: "c < c'" using assms(1,5) by (auto intro: less_le_trans)
  have "\<forall>x \<in> set S2. c < x \<and> x < c'" using assms(1,5) by fastforce
  moreover have "word_range c c' = c # word_range c1 c'" using word_range_Cons[OF lt] assms(2) by simp
  ultimately show ?thesis using lt assms(3-5) by auto
qed

lemma pub_run_seqs:
  assumes "prefix_free (CHR ''p'') (pc_key_prefix (pub_config pub))"
    and "pub_run H pub ops = Some (pub', rs, ws)"
    and "\<forall>q. unat (current_seq_for pub q) + length ops < 2 ^ 64"
  shows "current_seq_for pub p \<le> current_seq_for pub' p \<and> sorted_wrt (<) (seqs_on p ws)
    \<and> set (seqs_on p ws) \<subseteq> {current_seq_for pub p..<current_seq_for pub' p}
    \<and> (list_all is_ok rs \<longrightarrow> seqs_on p ws = word_range (current_seq_for pub p) (current_seq_for pub' p))"
  using assms
proof (induction ops arbitrary: pub rs ws)
  case Nil
  then show ?case by simp
next
  case (Cons eo ops)
  obtain env op where eo: "eo = (env, op)" by (cases eo)
  obtain pub1 r ws1 rs2 ws2 where call: "pub_call H env pub op = Some (pub1, r, ws1)"
    and run: "pub_run H pub1 ops = Some (pub', rs2, ws2)" and rs: "rs = r # rs2" "ws = ws1 @ ws2"
    using Cons.prems(2) by (auto simp: eo split: option.splits)
  from pub_call_effect[OF Cons.prems(1) call] consider
      (rejected) e where "pub1 = pub" "ws1 = []" "r = Err e"
    | (taken) p0 where "call_takes pub pub1 r ws1 p0"
    by (auto simp: call_effect_def)
  then show ?case
  proof cases
    case rejected
    have "unat (current_seq_for pub q) + length ops < 2 ^ 64" for q
      using Cons.prems(3)[rule_format, of q] by simp
    then show ?thesis using Cons.IH[of pub rs2 ws2] run rejected rs Cons.prems(1) by (simp add: is_ok_def)
  next
    case taken
    let ?c = "current_seq_for pub" and ?c1 = "current_seq_for pub1"
    have cfg: "pub_config pub1 = pub_config pub" and c1: "\<And>q. ?c1 q = ?c q + (if q = p0 then 1 else 0)"
      using taken by (auto simp: call_takes_def)
    have u1: "unat (?c p0 + 1) = Suc (unat (?c p0))"
      using Cons.prems(3)[rule_format, of p0] by (simp add: unat_word_ariths)
    have b1: "unat (?c1 q) + length ops < 2 ^ 64" for q
      using Cons.prems(3)[rule_format, of q] u1 by (cases "q = p0") (simp_all add: c1)
    have IH: "?c1 p \<le> current_seq_for pub' p \<and> sorted_wrt (<) (seqs_on p ws2)
      \<and> set (seqs_on p ws2) \<subseteq> {?c1 p..<current_seq_for pub' p}
      \<and> (list_all is_ok rs2 \<longrightarrow> seqs_on p ws2 = word_range (?c1 p) (current_seq_for pub' p))"
      using Cons.IH[of pub1 rs2 ws2] Cons.prems(1) cfg run b1 by simp
    show ?thesis
    proof (cases "p = p0")
      case False
      then have "seqs_on p ws1 = []" using taken by (auto simp: call_takes_def message_for_def)
      then show ?thesis using IH False c1 rs by simp
    next
      case True
      have lt: "?c p < ?c1 p" using u1 True by (simp add: c1 word_less_nat_alt)
      have sent: "ws1 = [] \<or> (\<exists>w. ws1 = [w] \<and> wire_seq w = ?c p \<and> wire_partition w = p)"
        and "is_ok r \<Longrightarrow> ws1 \<noteq> []"
        using taken True by (cases r; auto simp: call_takes_def message_for_def is_ok_def)+
      then have "seqs_on p ws1 = [] \<or> seqs_on p ws1 = [?c p]" "is_ok r \<Longrightarrow> seqs_on p ws1 = [?c p]"
        by (auto)
      then show ?thesis
        using seqs_extend[OF lt, of "seqs_on p ws1" "is_ok r" "current_seq_for pub' p" "seqs_on p ws2" "list_all is_ok rs2"] IH True
        by (simp add: rs c1)
    qed
  qed
qed

text \<open>
  C13. Whatever mix of the eleven publish operations is called and whatever fails on the way, the
  messages a publisher puts on one partition carry strictly increasing sequence numbers drawn from
  the range its counter moved over; when every call succeeds they are exactly that range, without a
  gap.  (The topic prefix has no segment \<^verbatim>\<open>p\<close> and the 64-bit counters do not wrap.)
\<close>

theorem published_sequences:
  assumes "prefix_free (CHR ''p'') (pc_key_prefix (pub_config pub))"
    and "pub_run H pub ops = Some (pub', rs, ws)"
    and "\<forall>q. unat (current_seq_for pub q) + length ops < 2 ^ 64"
  shows "sorted_wrt (<) (seqs_on p ws)
    \<and> set (seqs_on p ws) \<subseteq> {current_seq_for pub p..<current_seq_for pub' p}
    \<and> (list_all is_ok rs \<longrightarrow> seqs_on p ws = word_range (current_seq_for pub p) (current_seq_for pub' p))"
  using pub_run_seqs[OF assms] by blast

definition demo_env :: "bytes pub_env" where
  "demo_env = \<lparr>env_put = (\<lambda>_. Ok ()), env_encode = Ok, env_new_id = 9, env_now = 1000, env_watermarks = []\<rparr>"

definition demo_pub :: EventPublisher where
  "demo_pub = publisher_new 7 \<lparr>pc_key_prefix = ''t'', pc_cache_size = 2, pc_num_partitions = 1, pc_durable_urgency = 0\<rparr>"

definition demo_ops :: "(bytes pub_env \<times> bytes pub_op) list" where
  "demo_ops = [(demo_env, OpBytes [1]), (demo_env, OpBytes [2]), (demo_env, OpBytesKeyed ''a'' [3])]"

definition demo_run :: "(EventPublisher \<times> PublishReceipt result list \<times> wire list) option" where
  "demo_run = pub_run (\<lambda>_. 2) demo_pub demo_ops"

lemma demo_run_ok:
  "demo_run \<noteq> None \<and> list_all is_ok (fst (snd (the demo_run))) \<and> current_seq_for (fst (the demo_run)) 0 = 3"
  by (simp add: demo_run_def demo_ops_def demo_env_def demo_pub_def publisher_new_def publish_bytes_def
      publish_bytes_keyed_def validate_key_def partition_for_def assign_partition_def next_seq_for_def
      put_payload_def finish_def is_ok_def current_seq_for_def Let_def)

lemma demo_run_result:
  "pub_run (\<lambda>_. 2) demo_pub demo_ops = Some (fst (the demo_run), fst (snd (the demo_run)), snd (snd (the demo_run)))"
  using demo_run_ok by (auto simp: demo_run_def)

lemma demo_prefix: "prefix_free (CHR ''p'') (pc_key_prefix (pub_config demo_pub))"
  by code_simp

theorem published_sequences_witness:
  "seqs_on 0 (snd (snd (the demo_run))) = [0, 1, 2]"
proof -
  have b: "\<forall>q. unat (current_seq_for demo_pub q) + length demo_ops < 2 ^ 64"
    by (simp add: demo_pub_def publisher_new_def current_seq_for_def demo_ops_def)
  have "word_range 0 (3 :: u64) = [0, 1, 2]" "current_seq_for demo_pub 0 = 0" by code_simp+
  then show ?thesis using published_sequences[OF demo_prefix demo_run_result b, of 0] demo_run_ok by simp
qed

section \<open>The recovery cache\<close>

definition lastn :: "nat \<Rightarrow> 'a list \<Rightarrow> 'a list" where
  "lastn n xs = drop (length xs - n) xs"

lemma cache_push_lastn: "0 < n \<Longrightarrow> length c \<le> n \<Longrightarrow> cache_push n x c = lastn n (c @ [x])"
  by (cases c) (auto simp: cache_push_def lastn_def)

lemma length_lastn [simp]: "length (lastn n xs) = min n (length xs)"
  by (auto simp: lastn_def)

lemma lastn_lastn: "lastn n (lastn n xs @ ys) = lastn n (xs @ ys)"
  by (cases "length xs \<le> n") (auto simp: lastn_def add.commute)

lemma pub_run_cache:
  assumes "prefix_free (CHR ''p'') (pc_key_prefix (pub_config pub))"
    and "pub_run H pub ops = Some (pub', rs, ws)" and "list_all is_ok rs"
    and "0 < pc_cache_size (pub_config pub)" and "length (pub_cache pub) \<le> pc_cache_size (pub_config pub)"
  shows "pub_cache pub' = lastn (pc_cache_size (pub_config pub)) (pub_cache pub @ map wire_sample ws)"
  using assms
proof (induction ops arbitrary: pub rs ws)
  case Nil
  then show ?case by (simp add: lastn_def)
next
  case (Cons eo ops)
  obtain env op where eo: "eo = (env, op)" by (cases eo)
  obtain pub1 r ws1 rs2 ws2 where call: "pub_call H env pub op = Some (pub1, r, ws1)"
    and run: "pub_run H pub1 ops = Some (pub', rs2, ws2)" and rs: "rs = r # rs2" "ws = ws1 @ ws2"
    using Cons.prems(2) by (auto simp: eo split: option.splits)
  obtain p rc where t: "call_takes pub pub1 r ws1 p" and r: "r = Ok rc"
    using pub_call_effect[OF Cons.prems(1) call] Cons.prems(3) rs
    by (auto simp: call_effect_def is_ok_def split: sum.splits)
  let ?n = "pc_cache_size (pub_config pub)"
  obtain w where w: "ws1 = [w]" "pub_cache pub1 = cache_push ?n (wire_sample w) (pub_cache pub)"
    "pub_config pub1 = pub_config pub"
    using t r by (auto simp: call_takes_def)
  then have c1: "pub_cache pub1 = lastn ?n (pub_cache pub @ [wire_sample w])"
    using cache_push_lastn Cons.prems(4,5) by simp
  have "pub_cache pub' = lastn ?n (pub_cache pub1 @ map wire_sample ws2)"
    using Cons.IH[of pub1 rs2 ws2] Cons.prems(1,3,4) rs run w(3) c1 by simp
  then show ?case using c1 rs w(1) by (simp add: lastn_lastn)
qed

lemma cache_query_recent:
  assumes "prefix_free (CHR ''p'') (pc_key_prefix c)" and "0 < pc_cache_size c"
    and "pub_run H (publisher_new i c) ops = Some (pub', rs, ws)" and "list_all is_ok rs"
    and "params ''after_seq'' = Some (show_word a)" and "params ''before_seq'' = Some (show_word b)"
  shows "cache_query pub' params
    = filter (\<lambda>w. a \<le> wire_seq w \<and> wire_seq w < b) (lastn (pc_cache_size c) ws)"
proof -
  have "pub_cache pub' = lastn (pc_cache_size c) (map wire_sample ws)"
    using pub_run_cache[of "publisher_new i c" H ops pub' rs ws] assms by (simp add: publisher_new_def)
  also have "\<dots> = map wire_sample (lastn (pc_cache_size c) ws)" by (simp add: lastn_def drop_map)
  finally show ?thesis
    using assms(5,6) by (simp add: cache_query_def param_u64_def filter_map comp_def wire_sample_def)
qed

text \<open>
  The recovery cache holds the last \<^verbatim>\<open>cache_size\<close> messages: after any run of
  successful calls of a fresh publisher, a cache query with bounds \<^term>\<open>a\<close> and
  \<^term>\<open>b\<close> is answered with exactly those of the last \<^verbatim>\<open>cache_size\<close> messages whose
  sequence number is at least \<^term>\<open>a\<close> and below \<^term>\<open>b\<close>, unchanged and in order.
\<close>

theorem cache_serves_recent:
  assumes "prefix_free (CHR ''p'') (pc_key_prefix c)" and "0 < pc_cache_size c"
    and "pub_run H (publisher_new i c) ops = Some (pub', rs, ws)" and "list_all is_ok rs"
    and "params ''after_seq'' = Some (show_word a)" and "params ''before_seq'' = Some (show_word b)"
  shows "cache_query pub' params
    = filter (\<lambda>w. a \<le> wire_seq w \<and> wire_seq w < b) (lastn (pc_cache_size c) ws)"
  using assms by (rule cache_query_recent)

definition demo_params :: "string \<Rightarrow> string option" where
  "demo_params name = (if name = ''after_seq'' then Some (show_word (0::u64))
     else if name = ''before_seq'' then Some (show_word (2::u64)) else None)"

theorem cache_serves_recent_witness:
  "cache_query (fst (the demo_run)) demo_params
     = filter (\<lambda>w. 0 \<le> wire_seq w \<and> wire_seq w < 2) (lastn 2 (snd (snd (the demo_run))))"
  using cache_serves_recent[of "pub_config demo_pub", OF demo_prefix, of "\<lambda>_. 2" 7 demo_ops
      "fst (the demo_run)" "fst (snd (the demo_run))" "snd (snd (the demo_run))" demo_params 0 2]
    demo_run_result demo_run_ok
  by (simp add: demo_pub_def publisher_new_def demo_params_def)

section \<open>Receipts, durability, heartbeats\<close>

text \<open>
  Every successful call puts exactly one message, and receipt and message agree: the message
  decodes to the receipt's sequence number and publisher, its key expression names the receipt's
  partition, and the sequence number is the one the partition's counter stood at.
\<close>

theorem receipt_matches_message:
  assumes "prefix_free (CHR ''p'') (pc_key_prefix (pub_config pub))"
    and "pub_call H env pub op = Some (pub', Ok rc, ws)"
  shows "\<exists>w m. ws = [w] \<and> decode_metadata (snd (snd w)) = Ok m \<and> em_seq m = rc_seq rc
     \<and> em_pub_id m = rc_publisher_id rc \<and> rc_publisher_id rc = pub_publisher_id pub
     \<and> extract_partition (fst w) = rc_partition rc
     \<and> rc_seq rc = current_seq_for pub (rc_partition rc)
     \<and> current_seq_for pub' (rc_partition rc) = rc_seq rc + 1"
proof -
  obtain p where t: "call_takes pub pub' (Ok rc) ws p"
    using pub_call_effect[OF assms] by (auto simp: call_effect_def)
  then obtain w where w: "ws = [w]" "message_for pub p (current_seq_for pub p) w"
    "rc_seq rc = current_seq_for pub p" "rc_partition rc = p" "rc_publisher_id rc = pub_publisher_id pub"
    "current_seq_for pub' p = current_seq_for pub p + 1"
    by (auto simp: call_takes_def)
  then show ?thesis by (cases w) (auto simp: message_for_def wire_simps)
qed

theorem receipt_matches_message_witness:
  "\<exists>rc w m. snd (publish_bytes demo_env demo_pub [1]) = (Ok rc, [w]) \<and> decode_metadata (snd (snd w)) = Ok m \<and> em_seq m = rc_seq rc"
proof -
  obtain rc pub' ws where "publish_bytes demo_env demo_pub [1] = (pub', Ok rc, ws)"
    by (simp add: demo_env_def demo_pub_def publisher_new_def publish_bytes_def assign_partition_def next_seq_for_def
      put_payload_def finish_def Let_def)
  then show ?thesis
    using receipt_matches_message[OF demo_prefix, of "\<lambda>_. 2" demo_env "OpBytes [1]" pub' rc ws] by fastforce
qed

text \<open>
  Waiting for durability succeeds exactly when, before the channel closes and before the
  timeout, a watermark for the event's partition arrives that covers the event's sequence number
  for this publisher.
\<close>

theorem durable_wait_exact:
  assumes "pub_has_watermark_tx pub"
  shows "wait_for_watermark env pub p seq = Ok () \<longleftrightarrow>
    (\<exists>wm. WmReceived wm \<in> set (takeWhile (\<lambda>x. x \<noteq> WmClosed) (env_watermarks env))
       \<and> cw_partition wm = p \<and> cw_is_durable wm (pub_publisher_id pub) seq)"
proof -
  have "wait_loop i p seq xs = Ok () \<longleftrightarrow>
    (\<exists>wm. WmReceived wm \<in> set (takeWhile (\<lambda>x. x \<noteq> WmClosed) xs) \<and> cw_partition wm = p \<and> cw_is_durable wm i seq)" for i xs
    by (induction i p seq xs rule: wait_loop.induct) auto
  then show ?thesis using assms by (simp add: wait_for_watermark_def)
qed

definition demo_wm :: CommitWatermark where
  "demo_wm = \<lparr>cw_partition = 3, cw_publishers = [(7, \<lparr>pw_committed_seq = 2, pw_gaps = []\<rparr>)], cw_timestamp = 0, cw_epoch = 0\<rparr>"

theorem durable_wait_exact_witness:
  "wait_for_watermark (demo_env\<lparr>env_watermarks := [WmLagged, WmReceived demo_wm]\<rparr>) demo_pub 3 1 = Ok ()"
proof -
  have "cw_partition demo_wm = 3 \<and> cw_is_durable demo_wm (pub_publisher_id demo_pub) 1" by code_simp
  moreover have "pub_has_watermark_tx demo_pub" by (simp add: demo_pub_def publisher_new_def)
  ultimately show ?thesis by (simp add: durable_wait_exact)
qed

text \<open>
  A payload that the codec rejects still uses up a sequence number: the call fails, nothing is
  put on the network or kept in the recovery cache, and the next event of the partition carries the
  following number, so subscribers and the store see a gap that no tier can ever fill.
\<close>

theorem encode_failure_leaves_hole:
  assumes "env_encode env (ev_payload e) = Err x"
    and "publish env pub e = (pub', r, ws)" and "fst (assign_partition pub) = p"
  shows "r = Err x \<and> ws = [] \<and> pub_cache pub' = pub_cache pub
    \<and> current_seq_for pub' p = current_seq_for pub p + 1"
  using assms
  by (auto simp: publish_def publish_inner_def finish_def assign_partition_def next_seq_for_eq Let_def)

theorem encode_failure_leaves_hole_witness:
  "\<exists>pub'. publish (demo_env\<lparr>env_encode := (\<lambda>_. Err (Serialization ''x''))\<rparr>) demo_pub (event_new 1 0 [1]) = (pub', Err (Serialization ''x''), [])
     \<and> pub_cache pub' = [] \<and> current_seq_for pub' 0 = 1"
proof -
  let ?env = "demo_env\<lparr>env_encode := (\<lambda>_. Err (Serialization ''x''))\<rparr>" and ?e = "event_new 1 0 [1 :: u8]"
  obtain pub' r ws where r: "publish ?env demo_pub ?e = (pub', r, ws)" by (metis prod_cases3)
  have "fst (assign_partition demo_pub) = 0" "pub_cache demo_pub = []" "current_seq_for demo_pub 0 = 0" by code_simp+
  then show ?thesis using encode_failure_leaves_hole[OF _ r] r by fastforce
qed

end
