(* ===== verification/Recovery.thy ===== *)
theory Recovery
  imports Events Gap_Detector
begin

text \<open>
  Tiered gap recovery of a subscriber (\<^verbatim>\<open>mitiflow/src/subscriber/recovery.rs\<close>): event store,
  publisher cache, then store retries with backoff.  \<^verbatim>\<open>session.get\<close> is a function argument
  from the number of the query and its selector to the replies, so the network may answer
  differently every time; the delivery channel is a function argument that says, for the events
  offered so far and the next one, what \<^verbatim>\<open>try_send\<close> returns.  The result of a run carries
  the events offered to the channel with these answers, and the sleeps.  A multiplication of a
  \<^verbatim>\<open>Duration\<close> that overflows panics (\<^const>\<open>None\<close>); \<^verbatim>\<open>2u32.pow\<close> wraps.
\<close>

section \<open>State\<close>

record RecoveryConfig =
  rec_key_prefix :: string
  rec_store_key_prefix :: "string option"
  rec_recovery_delay :: Duration
  rec_max_recovery_attempts :: u32

record RecoveryTracker =
  tr_expected :: "u64 \<times> u64"
  tr_recovered :: "u64 set"

datatype try_send = Sent | Full | Disconnected

type_synonym event_tx = "RawEvent list \<Rightarrow> RawEvent \<Rightarrow> try_send"
type_synonym offer_log = "(RawEvent \<times> try_send) list"

text \<open>A reply of a query: an error, or a sample with its key, payload and attachment.\<close>

datatype query_reply = ReplyErr | ReplySample string bytes "bytes option"

type_synonym session_get = "nat \<Rightarrow> string \<Rightarrow> query_reply list result"

record rec_state =
  rs_tracker :: RecoveryTracker
  rs_log :: offer_log
  rs_queries :: nat
  rs_sleeps :: "Duration list"

section \<open>Operations\<close>

definition tracker_new :: "u64 \<times> u64 \<Rightarrow> RecoveryTracker" where
  "tracker_new r = \<lparr>tr_expected = r, tr_recovered = {}\<rparr>"

definition in_range :: "u64 \<times> u64 \<Rightarrow> u64 \<Rightarrow> bool" where
  "in_range r s \<longleftrightarrow> fst r \<le> s \<and> s < snd r"

definition record_seq :: "u64 \<Rightarrow> RecoveryTracker \<Rightarrow> RecoveryTracker" where
  "record_seq seq t = (if in_range (tr_expected t) seq then t\<lparr>tr_recovered := insert seq (tr_recovered t)\<rparr> else t)"

definition is_complete :: "RecoveryTracker \<Rightarrow> bool" where
  "is_complete t \<longleftrightarrow> (word_of_nat (card (tr_recovered t)) :: u64) = snd (tr_expected t) - fst (tr_expected t)"

definition remaining :: "RecoveryTracker \<Rightarrow> u64 list" where
  "remaining t = filter (\<lambda>s. s \<notin> tr_recovered t) (word_range (fst (tr_expected t)) (snd (tr_expected t)))"

definition deliver_event ::
  "event_tx \<Rightarrow> PublisherId \<Rightarrow> u64 \<Rightarrow> string \<Rightarrow> bytes \<Rightarrow> EventId \<Rightarrow> DateTime \<Rightarrow> offer_log \<Rightarrow> offer_log"
where
  "deliver_event tx pub_id seq key payload event_id timestamp log =
     (let raw = \<lparr>re_id = event_id, re_seq = seq, re_publisher_id = pub_id, re_key_expr = key,
                 re_payload = payload, re_timestamp = timestamp\<rparr> in
      log @ [(raw, tx (map fst log) raw)])"

definition store_recovery_selector :: "(PublisherId \<Rightarrow> string) \<Rightarrow> string \<Rightarrow> MissInfo \<Rightarrow> string" where
  "store_recovery_selector show_id store_prefix miss =
     store_prefix @ ''/'' @ show_word (mi_partition miss) @ ''?publisher_id='' @ show_id (mi_source miss)
     @ ''&after_seq='' @ show_word (saturating_sub (fst (mi_missed miss)) 1)
     @ ''&before_seq='' @ show_word (snd (mi_missed miss))"

definition cache_selector :: "(PublisherId \<Rightarrow> string) \<Rightarrow> RecoveryConfig \<Rightarrow> MissInfo \<Rightarrow> string" where
  "cache_selector show_id c miss =
     rec_key_prefix c @ ''/_cache/'' @ show_id (mi_source miss)
     @ ''?after_seq='' @ show_word (fst (mi_missed miss)) @ ''&before_seq='' @ show_word (snd (mi_missed miss))"

definition handle_reply :: "event_tx \<Rightarrow> query_reply \<Rightarrow> rec_state \<Rightarrow> rec_state" where
  "handle_reply tx reply st =
     (case reply of
        ReplyErr \<Rightarrow> st
      | ReplySample key payload attachment \<Rightarrow>
          (case (case attachment of None \<Rightarrow> None
                 | Some a \<Rightarrow> (case decode_metadata a of Ok m \<Rightarrow> Some m | Err _ \<Rightarrow> None)) of
             None \<Rightarrow> st
           | Some meta \<Rightarrow>
               if in_range (tr_expected (rs_tracker st)) (em_seq meta) then
                 if em_seq meta \<in> tr_recovered (rs_tracker st) then st
                 else st\<lparr>rs_log := deliver_event tx (em_pub_id meta) (em_seq meta) key payload (em_event_id meta)
                            (em_timestamp meta) (rs_log st),
                         rs_tracker := record_seq (em_seq meta) (rs_tracker st)\<rparr>
               else st))"

definition query_and_deliver :: "session_get \<Rightarrow> event_tx \<Rightarrow> string \<Rightarrow> rec_state \<Rightarrow> rec_state" where
  "query_and_deliver get tx selector st =
     (let st1 = st\<lparr>rs_queries := rs_queries st + 1\<rparr> in
      case get (rs_queries st) selector of
        Err _ \<Rightarrow> st1
      | Ok replies \<Rightarrow> fold (handle_reply tx) replies st1)"

definition rec_sleep :: "Duration \<Rightarrow> rec_state \<Rightarrow> rec_state" where
  "rec_sleep d st = st\<lparr>rs_sleeps := rs_sleeps st @ [d]\<rparr>"

definition retry_backoff_for :: "RecoveryConfig \<Rightarrow> u32 \<Rightarrow> Duration option" where
  "retry_backoff_for c attempt =
     (let d = rec_recovery_delay c * unat ((2 :: u32) ^ unat attempt) in
      if d \<le> DURATION_MAX then Some d else None)"

text \<open>
  Step 3, over the remaining attempt numbers: \<^const>\<open>True\<close> in the result is the early return.
\<close>

fun retry_loop ::
  "(PublisherId \<Rightarrow> string) \<Rightarrow> session_get \<Rightarrow> event_tx \<Rightarrow> RecoveryConfig \<Rightarrow> string \<Rightarrow> MissInfo \<Rightarrow> u32 list \<Rightarrow> rec_state
    \<Rightarrow> (bool \<times> rec_state) option"
where
  "retry_loop show_id get tx c store_prefix miss [] st = Some (False, st)"
| "retry_loop show_id get tx c store_prefix miss (attempt # attempts) st =
     (case retry_backoff_for c attempt of
        None \<Rightarrow> None
      | Some backoff \<Rightarrow>
          let st1 = query_and_deliver get tx (store_recovery_selector show_id store_prefix miss) (rec_sleep backoff st) in
          if is_complete (rs_tracker st1) then Some (True, st1)
          else retry_loop show_id get tx c store_prefix miss attempts st1)"

definition recover_gap ::
  "(PublisherId \<Rightarrow> string) \<Rightarrow> session_get \<Rightarrow> event_tx \<Rightarrow> RecoveryConfig \<Rightarrow> MissInfo \<Rightarrow> (unit result \<times> rec_state) option"
where
  "recover_gap show_id get tx c miss =
     (let st0 = \<lparr>rs_tracker = tracker_new (mi_missed miss), rs_log = [], rs_queries = 0, rs_sleeps = []\<rparr>;
          st1 = (case rec_store_key_prefix c of None \<Rightarrow> st0
                 | Some store_prefix \<Rightarrow>
                     query_and_deliver get tx (store_recovery_selector show_id store_prefix miss)
                       (rec_sleep (rec_recovery_delay c) st0)) in
      if rec_store_key_prefix c \<noteq> None \<and> is_complete (rs_tracker st1) then Some (Ok (), st1)
      else
        let st2 = query_and_deliver get tx (cache_selector show_id c miss) st1 in
        if is_complete (rs_tracker st2) then Some (Ok (), st2)
        else
          (case (case rec_store_key_prefix c of None \<Rightarrow> Some (False, st2)
                 | Some store_prefix \<Rightarrow>
                     retry_loop show_id get tx c store_prefix miss (word_range 1 (rec_max_recovery_attempts c)) st2) of
             None \<Rightarrow> None
           | Some (True, st3) \<Rightarrow> Some (Ok (), st3)
           | Some (False, st3) \<Rightarrow>
               Some (Err (GapRecoveryFailed (mi_source miss) (fst (mi_missed miss)) (snd (mi_missed miss))), st3)))"

section \<open>Tracking\<close>

text \<open>
  The invariant of a recovery: the events offered so far carry distinct sequence numbers, exactly
  the recovered ones, all inside the gap, each with the answer of the channel.
\<close>

definition rec_inv :: "event_tx \<Rightarrow> u64 \<times> u64 \<Rightarrow> rec_state \<Rightarrow> bool" where
  "rec_inv tx r st \<longleftrightarrow> tr_expected (rs_tracker st) = r
     \<and> distinct (map (re_seq \<circ> fst) (rs_log st))
     \<and> set (map (re_seq \<circ> fst) (rs_log st)) = tr_recovered (rs_tracker st)
     \<and> tr_recovered (rs_tracker st) \<subseteq> {fst r..<snd r}
     \<and> (\<forall>e \<in> set (rs_log st). \<exists>before. snd e = tx before (fst e))"

lemma handle_reply_inv: "rec_inv tx r st \<Longrightarrow> rec_inv tx r (handle_reply tx reply st)"
  by (auto simp: rec_inv_def handle_reply_def deliver_event_def record_seq_def in_range_def Let_def
      split: query_reply.splits option.splits sum.splits)

lemma fold_handle_reply_inv: "rec_inv tx r st \<Longrightarrow> rec_inv tx r (fold (handle_reply tx) replies st)"
  by (induction replies arbitrary: st) (auto simp: handle_reply_inv)

lemma rec_inv_queries [simp]: "rec_inv tx r (st\<lparr>rs_queries := n\<rparr>) = rec_inv tx r st"
  by (simp add: rec_inv_def)

lemma query_and_deliver_inv: "rec_inv tx r st \<Longrightarrow> rec_inv tx r (query_and_deliver get tx sel st)"
  by (simp add: query_and_deliver_def Let_def fold_handle_reply_inv split: sum.splits)

lemma rec_sleep_inv [simp]: "rec_inv tx r (rec_sleep d st) = rec_inv tx r st"
  by (simp add: rec_inv_def rec_sleep_def)

lemma card_word_range: "card {lo..<hi :: u64} = unat hi - unat lo"
proof -
  have "distinct (word_range lo hi)" using sorted_word_range[of lo hi] by (simp add: strict_sorted_iff)
  then have "card (set (word_range lo hi)) = length (word_range lo hi)" by (rule distinct_card)
  moreover have "length (word_range lo hi) = unat hi - unat lo" by (simp add: word_range_def)
  ultimately show ?thesis by simp
qed

lemma is_complete_iff:
  assumes "rec_inv tx r st" and "fst r \<le> snd r"
  shows "is_complete (rs_tracker st) \<longleftrightarrow> tr_recovered (rs_tracker st) = {fst r..<snd r}"
proof -
  let ?R = "tr_recovered (rs_tracker st)" and ?I = "{fst r..<snd r}"
  have sub: "?R \<subseteq> ?I" and r: "tr_expected (rs_tracker st) = r" using assms(1) by (auto simp: rec_inv_def)
  have d: "unat (snd r - fst r) = card ?I" using assms(2) by (simp add: card_word_range unat_sub_if' word_le_nat_alt)
  have "card ?R \<le> card ?I" using sub by (rule card_mono[rotated]) simp
  moreover have "unat (snd r - fst r) < 2 ^ LENGTH(64)" by (rule unsigned_less)
  ultimately have "card ?R < 2 ^ 64" using d by simp
  then have u: "unat (word_of_nat (card ?R) :: u64) = card ?R" by (simp add: unat_of_nat)
  have "is_complete (rs_tracker st) \<longleftrightarrow> card ?R = card ?I"
    unfolding is_complete_def r using u d by (metis word_unat_eq_iff)
  also have "\<dots> \<longleftrightarrow> ?R = ?I" using sub card_subset_eq[of ?I ?R] by auto
  finally show ?thesis .
qed

lemma retry_loop_inv:
  "rec_inv tx r st \<Longrightarrow> retry_loop show_id get tx c sp miss atts st = Some (b, st') \<Longrightarrow>
     rec_inv tx r st' \<and> (b \<longrightarrow> is_complete (rs_tracker st')) \<and> (\<not> b \<longrightarrow> atts = [] \<and> st' = st \<or> \<not> is_complete (rs_tracker st'))"
proof (induction atts arbitrary: st)
  case Nil
  then show ?case by simp
next
  case (Cons a atts)
  obtain d where d: "retry_backoff_for c a = Some d" using Cons.prems(2) by (auto split: option.splits)
  let ?st1 = "query_and_deliver get tx (store_recovery_selector show_id sp miss) (rec_sleep d st)"
  have inv: "rec_inv tx r ?st1" using Cons.prems(1) by (intro query_and_deliver_inv) simp
  show ?case
  proof (cases "is_complete (rs_tracker ?st1)")
    case True
    then show ?thesis using Cons.prems(2) d inv by (simp add: Let_def)
  next
    case False
    then have "retry_loop show_id get tx c sp miss atts ?st1 = Some (b, st')"
      using Cons.prems(2) d by (simp add: Let_def)
    from Cons.IH[OF inv this] False show ?thesis by auto
  qed
qed

text \<open>Every way \<^const>\<open>recover_gap\<close> ends.\<close>

lemma recover_gap_ends:
  assumes "recover_gap show_id get tx c miss = Some (res, st)"
  shows "rec_inv tx (mi_missed miss) st \<and>
    (res = Ok () \<and> is_complete (rs_tracker st) \<or>
     res = Err (GapRecoveryFailed (mi_source miss) (fst (mi_missed miss)) (snd (mi_missed miss)))
       \<and> \<not> is_complete (rs_tracker st))"
proof -
  let ?r = "mi_missed miss"
  define st0 where "st0 = \<lparr>rs_tracker = tracker_new ?r, rs_log = [], rs_queries = 0, rs_sleeps = []\<rparr>"
  have i0: "rec_inv tx ?r st0" by (simp add: st0_def rec_inv_def tracker_new_def)
  define st1 where "st1 = (case rec_store_key_prefix c of None \<Rightarrow> st0
     | Some store_prefix \<Rightarrow> query_and_deliver get tx (store_recovery_selector show_id store_prefix miss)
         (rec_sleep (rec_recovery_delay c) st0))"
  have i1: "rec_inv tx ?r st1" using i0 by (auto simp: st1_def intro: query_and_deliver_inv split: option.splits)
  define st2 where "st2 = query_and_deliver get tx (cache_selector show_id c miss) st1"
  have i2: "rec_inv tx ?r st2" using i1 by (simp add: st2_def query_and_deliver_inv)
  note run = assms[unfolded recover_gap_def Let_def, folded st0_def, folded st1_def, folded st2_def]
  show ?thesis
  proof (cases "rec_store_key_prefix c \<noteq> None \<and> is_complete (rs_tracker st1)")
    case True
    then show ?thesis using run i1 by simp
  next
    case no_store: False
    show ?thesis
    proof (cases "is_complete (rs_tracker st2)")
      case True
      then show ?thesis using run no_store i2 by auto
    next
      case incomplete: False
      show ?thesis
      proof (cases "rec_store_key_prefix c")
        case None
        then show ?thesis using run incomplete i2 by simp
      next
        case (Some sp)
        let ?loop = "retry_loop show_id get tx c sp miss (word_range 1 (rec_max_recovery_attempts c)) st2"
        obtain b s3 where loop: "?loop = Some (b, s3)"
          using run no_store incomplete Some by (cases ?loop) auto
        then have b: "?loop = Some (b, st)"
          "res = (if b then Ok () else Err (GapRecoveryFailed (mi_source miss) (fst ?r) (snd ?r)))"
          using run no_store incomplete Some by (cases b; simp)+
        then show ?thesis using retry_loop_inv[OF i2 b(1)] incomplete by auto
      qed
    qed
  qed
qed

section \<open>Where offered events come from\<close>

text \<open>An event a query was answered with: key, payload and the metadata of the attachment of one reply.\<close>

definition answered_with :: "session_get \<Rightarrow> RawEvent \<Rightarrow> bool" where
  "answered_with get e \<longleftrightarrow> (\<exists>n sel replies key payload a meta. get n sel = Ok replies \<and> ReplySample key payload (Some a) \<in> set replies
     \<and> decode_metadata a = Ok meta
     \<and> e = \<lparr>re_id = em_event_id meta, re_seq = em_seq meta, re_publisher_id = em_pub_id meta, re_key_expr = key,
            re_payload = payload, re_timestamp = em_timestamp meta\<rparr>)"

abbreviation all_answered :: "session_get \<Rightarrow> rec_state \<Rightarrow> bool" where
  "all_answered get st \<equiv> (\<forall>e \<in> set (rs_log st). answered_with get (fst e))"

lemma handle_reply_answered:
  assumes "get n sel = Ok replies" and "reply \<in> set replies" and "all_answered get st"
  shows "all_answered get (handle_reply tx reply st)"
proof (cases reply)
  case (ReplySample key payload attachment)
  show ?thesis
  proof (cases "Option.bind attachment (\<lambda>a. case decode_metadata a of Ok m \<Rightarrow> Some m | Err _ \<Rightarrow> None)")
    case None
    then show ?thesis using assms(3) by (auto simp: ReplySample handle_reply_def split: option.splits sum.splits)
  next
    case (Some meta)
    then obtain a where a: "attachment = Some a" "decode_metadata a = Ok meta"
      by (cases attachment; cases "decode_metadata (the attachment)") auto
    have "answered_with get \<lparr>re_id = em_event_id meta, re_seq = em_seq meta, re_publisher_id = em_pub_id meta, re_key_expr = key,
        re_payload = payload, re_timestamp = em_timestamp meta\<rparr>"
      unfolding answered_with_def using assms(1,2) a ReplySample by blast
    then show ?thesis using assms(3) a by (simp add: ReplySample handle_reply_def deliver_event_def Let_def)
  qed
qed (use assms(3) in \<open>simp add: handle_reply_def\<close>)

lemma fold_replies_answered:
  assumes "get n sel = Ok all"
  shows "set replies \<subseteq> set all \<Longrightarrow> all_answered get st \<Longrightarrow> all_answered get (fold (handle_reply tx) replies st)"
proof (induction replies arbitrary: st)
  case (Cons reply replies)
  have "all_answered get (handle_reply tx reply st)" by (rule handle_reply_answered[OF assms _ Cons.prems(2)]) (use Cons.prems(1) in simp)
  from Cons.IH[OF _ this] show ?case using Cons.prems(1) by simp
qed simp

lemma query_and_deliver_answered:
  assumes "all_answered get st"
  shows "all_answered get (query_and_deliver get tx sel st)"
proof (cases "get (rs_queries st) sel")
  case (Inr replies)
  have "all_answered get (st\<lparr>rs_queries := rs_queries st + 1\<rparr>)" using assms by simp
  from fold_replies_answered[OF Inr subset_refl this] show ?thesis by (simp add: query_and_deliver_def Inr)
qed (use assms in \<open>simp add: query_and_deliver_def\<close>)

lemma retry_loop_answered:
  "all_answered get st \<Longrightarrow> retry_loop show_id get tx c sp miss atts st = Some (b, st') \<Longrightarrow> all_answered get st'"
proof (induction atts arbitrary: st)
  case (Cons a atts)
  obtain d where d: "retry_backoff_for c a = Some d" using Cons.prems(2) by (auto split: option.splits)
  let ?st1 = "query_and_deliver get tx (store_recovery_selector show_id sp miss) (rec_sleep d st)"
  have "all_answered get (rec_sleep d st)" using Cons.prems(1) by (simp add: rec_sleep_def)
  then have "all_answered get ?st1" by (rule query_and_deliver_answered)
  then show ?case using Cons.IH[of ?st1] Cons.prems(2) d by (auto simp: Let_def split: if_splits)
qed simp

lemma recover_gap_answered:
  assumes "recover_gap show_id get tx c miss = Some (res, st)"
  shows "all_answered get st"
proof -
  define st0 where "st0 = \<lparr>rs_tracker = tracker_new (mi_missed miss), rs_log = [], rs_queries = 0, rs_sleeps = []\<rparr>"
  define st1 where "st1 = (case rec_store_key_prefix c of None \<Rightarrow> st0
     | Some store_prefix \<Rightarrow> query_and_deliver get tx (store_recovery_selector show_id store_prefix miss)
         (rec_sleep (rec_recovery_delay c) st0))"
  have "all_answered get (rec_sleep (rec_recovery_delay c) st0)" by (simp add: st0_def rec_sleep_def)
  from query_and_deliver_answered[OF this] have 1: "all_answered get st1" by (cases "rec_store_key_prefix c") (simp_all add: st1_def st0_def)
  define st2 where "st2 = query_and_deliver get tx (cache_selector show_id c miss) st1"
  have 2: "all_answered get st2" using query_and_deliver_answered[OF 1] by (simp add: st2_def)
  note run = assms[unfolded recover_gap_def Let_def, folded st0_def, folded st1_def, folded st2_def]
  show ?thesis
    using run 1 2 retry_loop_answered[OF 2] by (auto split: if_splits option.splits bool.splits prod.splits)
qed

text \<open>
  C14. A gap recovery offers only events it was answered with, unchanged, whose sequence number lies in the gap,
  and each such number at most once, over all the sources it asks and however often they repeat an answer; it reports
  success exactly when every missing sequence number has been offered, and otherwise it reports the
  gap it could not close.  Only the number decides: an answer of another partition with a number in the gap
  counts as well.
\<close>

theorem recovery_exact:
  assumes "recover_gap show_id get tx c miss = Some (res, st)"
    and "fst (mi_missed miss) \<le> snd (mi_missed miss)"
  shows "distinct (map (re_seq \<circ> fst) (rs_log st))
    \<and> (\<forall>e \<in> set (rs_log st). answered_with get (fst e))
    \<and> set (map (re_seq \<circ> fst) (rs_log st)) \<subseteq> {fst (mi_missed miss)..<snd (mi_missed miss)}
    \<and> (res = Ok () \<longleftrightarrow> set (map (re_seq \<circ> fst) (rs_log st)) = {fst (mi_missed miss)..<snd (mi_missed miss)})
    \<and> (res \<noteq> Ok () \<longrightarrow> res = Err (GapRecoveryFailed (mi_source miss) (fst (mi_missed miss)) (snd (mi_missed miss))))"
proof -
  have inv: "rec_inv tx (mi_missed miss) st" using recover_gap_ends[OF assms(1)] by simp
  note iff = is_complete_iff[OF inv assms(2)]
  have l: "distinct (map (re_seq \<circ> fst) (rs_log st))"
    "set (map (re_seq \<circ> fst) (rs_log st)) = tr_recovered (rs_tracker st)"
    "tr_recovered (rs_tracker st) \<subseteq> {fst (mi_missed miss)..<snd (mi_missed miss)}"
    using inv by (auto simp: rec_inv_def)
  show ?thesis using recover_gap_ends[OF assms(1)] iff l recover_gap_answered[OF assms(1)] by (simp only: l(2)) auto
qed

section \<open>Progress\<close>

definition reply_seq :: "query_reply \<Rightarrow> u64 option" where
  "reply_seq reply = (case reply of ReplySample key payload (Some a) \<Rightarrow>
     (case decode_metadata a of Ok m \<Rightarrow> Some (em_seq m) | Err _ \<Rightarrow> None) | _ \<Rightarrow> None)"

definition covers :: "u64 \<times> u64 \<Rightarrow> query_reply list \<Rightarrow> bool" where
  "covers r replies \<longleftrightarrow> (\<forall>s \<in> {fst r..<snd r}. Some s \<in> reply_seq ` set replies)"

lemma handle_reply_frame [simp]:
  "rs_queries (handle_reply tx reply st) = rs_queries st"
  "tr_expected (rs_tracker (handle_reply tx reply st)) = tr_expected (rs_tracker st)"
  by (auto simp: handle_reply_def record_seq_def split: query_reply.splits option.splits sum.splits)

lemma fold_handle_reply_frame [simp]:
  "rs_queries (fold (handle_reply tx) replies st) = rs_queries st"
  "tr_expected (rs_tracker (fold (handle_reply tx) replies st)) = tr_expected (rs_tracker st)"
  by (induction replies arbitrary: st) auto

lemma query_and_deliver_queries [simp]: "rs_queries (query_and_deliver get tx sel st) = Suc (rs_queries st)"
  by (simp add: query_and_deliver_def Let_def split: sum.splits)

lemma rec_sleep_frame [simp]: "rs_queries (rec_sleep d st) = rs_queries st" "rs_tracker (rec_sleep d st) = rs_tracker st"
  by (simp_all add: rec_sleep_def)

lemma handle_reply_mono: "tr_recovered (rs_tracker st) \<subseteq> tr_recovered (rs_tracker (handle_reply tx reply st))"
  by (auto simp: handle_reply_def record_seq_def split: query_reply.splits option.splits sum.splits)

lemma fold_handle_reply_mono:
  "tr_recovered (rs_tracker st) \<subseteq> tr_recovered (rs_tracker (fold (handle_reply tx) replies st))"
proof (induction replies arbitrary: st)
  case (Cons x xs)
  then show ?case using handle_reply_mono[of st tx x] by (simp add: subset_trans)
qed simp

lemma handle_reply_recovers:
  assumes "reply_seq reply = Some s" and "in_range (tr_expected (rs_tracker st)) s"
  shows "s \<in> tr_recovered (rs_tracker (handle_reply tx reply st))"
  using assms
  by (auto simp: reply_seq_def handle_reply_def record_seq_def split: query_reply.splits option.splits sum.splits)

lemma fold_handle_reply_recovers:
  assumes "Some s \<in> reply_seq ` set replies" and "in_range (tr_expected (rs_tracker st)) s"
  shows "s \<in> tr_recovered (rs_tracker (fold (handle_reply tx) replies st))"
  using assms
proof (induction replies arbitrary: st)
  case (Cons x xs)
  show ?case
  proof (cases "reply_seq x = Some s")
    case True
    then show ?thesis
      using handle_reply_recovers[OF True Cons.prems(2)] fold_handle_reply_mono by fastforce
  next
    case False
    then show ?thesis using Cons.IH[of "handle_reply tx x st"] Cons.prems by auto
  qed
qed simp

lemma covering_query_completes:
  assumes "rec_inv tx r st" and "fst r \<le> snd r" and "get (rs_queries st) sel = Ok replies" and "covers r replies"
  shows "is_complete (rs_tracker (query_and_deliver get tx sel st))"
proof -
  let ?st = "query_and_deliver get tx sel st"
  have inv: "rec_inv tx r ?st" by (rule query_and_deliver_inv[OF assms(1)])
  have "{fst r..<snd r} \<subseteq> tr_recovered (rs_tracker ?st)"
  proof
    fix s assume s: "s \<in> {fst r..<snd r}"
    then have "Some s \<in> reply_seq ` set replies" using assms(4) by (simp add: covers_def)
    then show "s \<in> tr_recovered (rs_tracker ?st)"
      using fold_handle_reply_recovers[of s replies "st\<lparr>rs_queries := rs_queries st + 1\<rparr>" tx] assms(1,3) s
      by (auto simp: query_and_deliver_def rec_inv_def in_range_def)
  qed
  then show ?thesis using is_complete_iff[OF inv assms(2)] inv by (auto simp: rec_inv_def)
qed

lemma unat_pow2_u32: "unat ((2 :: u32) ^ n) \<le> 2 ^ 31"
proof -
  have "unat ((2 :: u32) ^ n) = unat (word_of_nat (2 ^ n) :: u32)" by simp
  also have "\<dots> = 2 ^ n mod 2 ^ 32" by (simp add: unat_of_nat del: of_nat_power)
  also have "\<dots> \<le> 2 ^ 31"
  proof (cases "n < 32")
    case True
    then have "(2 :: nat) ^ n \<le> 2 ^ 31" by (intro power_increasing) auto
    then show ?thesis using mod_less_eq_dividend le_trans by blast
  next
    case False
    then have "(2 :: nat) ^ n = 2 ^ 32 * 2 ^ (n - 32)" by (simp add: power_add[symmetric] del: power_numeral)
    then show ?thesis by simp
  qed
  finally show ?thesis .
qed

lemma retry_backoff_ok:
  assumes "rec_recovery_delay c * 2 ^ 31 \<le> DURATION_MAX"
  shows "\<exists>d. retry_backoff_for c a = Some d"
proof -
  have "rec_recovery_delay c * unat ((2 :: u32) ^ unat a) \<le> rec_recovery_delay c * 2 ^ 31"
    using unat_pow2_u32 by (rule mult_le_mono2)
  then have "rec_recovery_delay c * unat ((2 :: u32) ^ unat a) \<le> DURATION_MAX" using assms by (rule le_trans)
  then show ?thesis by (simp add: retry_backoff_for_def Let_def)
qed

lemma retry_loop_answers:
  assumes "rec_inv tx r st" and "fst r \<le> snd r" and "rec_recovery_delay c * 2 ^ 31 \<le> DURATION_MAX"
    and "rs_queries st \<le> k" and "k < rs_queries st + length atts"
    and "\<forall>sel. \<exists>replies. get k sel = Ok replies \<and> covers r replies"
  shows "\<exists>st'. retry_loop show_id get tx c sp miss atts st = Some (True, st') \<and> rs_queries st' \<le> Suc k"
  using assms(1,4,5)
proof (induction atts arbitrary: st)
  case Nil
  then show ?case by simp
next
  case (Cons a atts)
  obtain d where d: "retry_backoff_for c a = Some d" using retry_backoff_ok[OF assms(3)] by blast
  let ?sel = "store_recovery_selector show_id sp miss"
  let ?st1 = "query_and_deliver get tx ?sel (rec_sleep d st)"
  have inv: "rec_inv tx r ?st1" using Cons.prems(1) by (intro query_and_deliver_inv) simp
  show ?case
  proof (cases "is_complete (rs_tracker ?st1)")
    case True
    then show ?thesis using d Cons.prems(2) by (simp add: Let_def)
  next
    case False
    have "rs_queries st \<noteq> k"
    proof
      assume "rs_queries st = k"
      then obtain replies where "get (rs_queries (rec_sleep d st)) ?sel = Ok replies" "covers r replies"
        using assms(6) by auto
      then show False using covering_query_completes[of tx r "rec_sleep d st"] Cons.prems(1) assms(2) False by simp
    qed
    then show ?thesis using Cons.IH[OF inv] Cons.prems(2,3) d False by (simp add: Let_def)
  qed
qed

lemma recover_gap_succeeds:
  assumes "rec_store_key_prefix c = Some sp" and "fst (mi_missed miss) \<le> snd (mi_missed miss)"
    and "rec_recovery_delay c * 2 ^ 31 \<le> DURATION_MAX"
    and "k \<le> max 1 (unat (rec_max_recovery_attempts c))"
    and "\<forall>sel. \<exists>replies. get k sel = Ok replies \<and> covers (mi_missed miss) replies"
  shows "\<exists>st. recover_gap show_id get tx c miss = Some (Ok (), st) \<and> rs_queries st \<le> Suc k"
proof -
  let ?r = "mi_missed miss"
  define st0 where "st0 = \<lparr>rs_tracker = tracker_new ?r, rs_log = [], rs_queries = 0, rs_sleeps = []\<rparr>"
  define s0 where "s0 = rec_sleep (rec_recovery_delay c) st0"
  have i0: "rec_inv tx ?r s0" "rs_queries s0 = 0" by (simp_all add: s0_def st0_def rec_inv_def tracker_new_def rec_sleep_def)
  define st1 where "st1 = query_and_deliver get tx (store_recovery_selector show_id sp miss) s0"
  have i1: "rec_inv tx ?r st1" "rs_queries st1 = 1" using i0 by (simp_all add: st1_def query_and_deliver_inv)
  define st2 where "st2 = query_and_deliver get tx (cache_selector show_id c miss) st1"
  have i2: "rec_inv tx ?r st2" "rs_queries st2 = 2" using i1 by (simp_all add: st2_def query_and_deliver_inv)
  have run: "recover_gap show_id get tx c miss =
    (if is_complete (rs_tracker st1) then Some (Ok (), st1)
     else if is_complete (rs_tracker st2) then Some (Ok (), st2)
     else case retry_loop show_id get tx c sp miss (word_range 1 (rec_max_recovery_attempts c)) st2 of
        None \<Rightarrow> None | Some (True, st3) \<Rightarrow> Some (Ok (), st3)
      | Some (False, st3) \<Rightarrow> Some (Err (GapRecoveryFailed (mi_source miss) (fst ?r) (snd ?r)), st3))"
    unfolding recover_gap_def Let_def assms(1) by (simp add: st0_def[symmetric] s0_def[symmetric] st1_def[symmetric] st2_def[symmetric])
  have c1: "k = 0 \<Longrightarrow> is_complete (rs_tracker st1)"
    unfolding st1_def using covering_query_completes[OF i0(1) assms(2)] assms(5) i0(2) by metis
  have c2: "k = 1 \<Longrightarrow> is_complete (rs_tracker st2)"
    unfolding st2_def using covering_query_completes[OF i1(1) assms(2)] assms(5) i1(2) by metis
  have "\<exists>st3. retry_loop show_id get tx c sp miss (word_range 1 (rec_max_recovery_attempts c)) st2 = Some (True, st3)
      \<and> rs_queries st3 \<le> Suc k" if "2 \<le> k"
    using assms(4) that i2(2)
    by (intro retry_loop_answers[of tx ?r st2 c k, OF i2(1) assms(2,3)] assms(5)) (simp_all add: word_range_def)
  then show ?thesis using run c1 c2 i1(2) i2(2) by (cases "k = 0"; cases "k = 1") (auto split: if_splits)
qed

text \<open>
  Recovery succeeds as soon as one source answers: queries are numbered 0 (store), 1
  (publisher cache) and 2 up to \<^verbatim>\<open>max_recovery_attempts\<close> (store retries); if the query of
  some such number returns a sample for every missing sequence number, the recovery returns success
  after that query at the latest, whatever the other queries returned.  (The hypothesis on the
  delay excludes the overflow panic of the backoff.)
\<close>

theorem recovery_succeeds_once_answered:
  assumes "rec_store_key_prefix c = Some sp" and "fst (mi_missed miss) \<le> snd (mi_missed miss)"
    and "rec_recovery_delay c * 2 ^ 31 \<le> DURATION_MAX"
    and "k \<le> max 1 (unat (rec_max_recovery_attempts c))"
    and "\<forall>sel. \<exists>replies. get k sel = Ok replies \<and> covers (mi_missed miss) replies"
  shows "\<exists>st. recover_gap show_id get tx c miss = Some (Ok (), st) \<and> rs_queries st \<le> Suc k"
  using assms by (rule recover_gap_succeeds)

subsection \<open>Concrete runs\<close>

definition demo_miss :: MissInfo where
  "demo_miss = \<lparr>mi_source = 7, mi_partition = 0, mi_missed = (1, 3)\<rparr>"

definition demo_rec_config :: RecoveryConfig where
  "demo_rec_config = \<lparr>rec_key_prefix = ''t'', rec_store_key_prefix = Some ''t/_store'', rec_recovery_delay = 5,
     rec_max_recovery_attempts = 3\<rparr>"

definition demo_reply :: "u64 \<Rightarrow> query_reply" where
  "demo_reply s = ReplySample ''t/p/0/x'' [1] (Some (encode_metadata 7 s 9 0 0))"

text \<open>The store fails at first, the cache knows half of the gap, the first retry has it all.\<close>

definition demo_get :: session_get where
  "demo_get n sel = (if n = 0 then Err (Zenoh ''down'') else if n = 1 then Ok [demo_reply 2, demo_reply 2]
     else Ok [demo_reply 1, demo_reply 2, demo_reply 3])"

lemma range_1_3: "{1..<3 :: u64} = {1, 2}"
proof -
  have "{1..<3 :: u64} = set (word_range 1 3)" by (rule set_word_range[symmetric])
  also have "word_range 1 3 = [1, 2 :: u64]" by code_simp
  finally show ?thesis by simp
qed

lemma demo_covers: "covers (mi_missed demo_miss) [demo_reply 1, demo_reply 2, demo_reply 3]"
  by (simp add: covers_def demo_miss_def demo_reply_def reply_seq_def range_1_3)

theorem recovery_succeeds_once_answered_witness:
  "\<exists>st. recover_gap (\<lambda>_. ''x'') demo_get (\<lambda>_ _. Sent) demo_rec_config demo_miss = Some (Ok (), st) \<and> rs_queries st \<le> 3"
proof -
  have "\<exists>st. recover_gap (\<lambda>_. ''x'') demo_get (\<lambda>_ _. Sent) demo_rec_config demo_miss = Some (Ok (), st) \<and> rs_queries st \<le> Suc 2"
  proof (rule recovery_succeeds_once_answered)
    show "\<forall>sel. \<exists>replies. demo_get 2 sel = Ok replies \<and> covers (mi_missed demo_miss) replies"
      using demo_covers by (simp add: demo_get_def)
    show "rec_store_key_prefix demo_rec_config = Some ''t/_store''" by (simp add: demo_rec_config_def)
  qed (simp_all add: demo_rec_config_def demo_miss_def DURATION_MAX_def)
  then show ?thesis by (simp add: numeral_3_eq_3)
qed

lemma demo_run_recovers:
  "\<exists>st. recover_gap (\<lambda>_. ''x'') demo_get (\<lambda>_ _. Sent) demo_rec_config demo_miss = Some (Ok (), st) \<and> rs_queries st \<le> Suc 2"
proof (rule recover_gap_succeeds)
  show "\<forall>sel. \<exists>replies. demo_get 2 sel = Ok replies \<and> covers (mi_missed demo_miss) replies"
    using demo_covers by (simp add: demo_get_def)
  show "rec_store_key_prefix demo_rec_config = Some ''t/_store''" by (simp add: demo_rec_config_def)
qed (simp_all add: demo_rec_config_def demo_miss_def DURATION_MAX_def)

theorem recovery_exact_witness:
  "\<exists>st. recover_gap (\<lambda>_. ''x'') demo_get (\<lambda>_ _. Sent) demo_rec_config demo_miss = Some (Ok (), st)
     \<and> distinct (map (re_seq \<circ> fst) (rs_log st)) \<and> set (map (re_seq \<circ> fst) (rs_log st)) = {1, 2}
     \<and> (\<forall>e \<in> set (rs_log st). answered_with demo_get (fst e))"
proof -
  obtain st where st: "recover_gap (\<lambda>_. ''x'') demo_get (\<lambda>_ _. Sent) demo_rec_config demo_miss = Some (Ok (), st)"
    using demo_run_recovers by blast
  moreover have "mi_missed demo_miss = (1, 3)" by (simp add: demo_miss_def)
  ultimately show ?thesis using recovery_exact[OF st] range_1_3 by auto
qed

text \<open>
  An event that does not fit the delivery channel still counts as recovered: with a channel that
  is full throughout, a recovery whose store has the whole gap drops every event of it and reports
  success.  (The comment on \<^verbatim>\<open>deliver_event\<close> says that dropped events are recovered later;
  no further gap is reported for them.)
\<close>

theorem full_channel_counts_as_recovered:
  assumes "rec_store_key_prefix c = Some sp" and "fst (mi_missed miss) \<le> snd (mi_missed miss)"
    and "rec_recovery_delay c * 2 ^ 31 \<le> DURATION_MAX"
    and "\<forall>sel. \<exists>replies. get 0 sel = Ok replies \<and> covers (mi_missed miss) replies"
  shows "\<exists>st. recover_gap show_id get (\<lambda>_ _. Full) c miss = Some (Ok (), st)
     \<and> set (map (re_seq \<circ> fst) (rs_log st)) = {fst (mi_missed miss)..<snd (mi_missed miss)}
     \<and> (\<forall>e \<in> set (rs_log st). snd e = Full)"
proof -
  obtain st where st: "recover_gap show_id get (\<lambda>_ _. Full) c miss = Some (Ok (), st)"
    using recover_gap_succeeds[OF assms(1-3), of 0 get show_id "\<lambda>_ _. Full"] assms(4) by auto
  note e = recover_gap_ends[OF st]
  then have "tr_recovered (rs_tracker st) = {fst (mi_missed miss)..<snd (mi_missed miss)}"
    using is_complete_iff[OF conjunct1[OF e] assms(2)] by simp
  then show ?thesis using st e by (auto simp: rec_inv_def)
qed

section \<open>Termination\<close>

lemma query_and_deliver_sleeps [simp]: "rs_sleeps (query_and_deliver get tx sel st) = rs_sleeps st"
proof -
  have "rs_sleeps (handle_reply tx reply st) = rs_sleeps st" for reply st
    by (auto simp: handle_reply_def split: query_reply.splits option.splits sum.splits)
  then have "rs_sleeps (fold (handle_reply tx) replies st) = rs_sleeps st" for replies st
    by (induction replies arbitrary: st) auto
  then show ?thesis by (simp add: query_and_deliver_def Let_def split: sum.splits)
qed

lemma retry_loop_total:
  assumes "rec_recovery_delay c * 2 ^ 31 \<le> DURATION_MAX"
  shows "\<exists>b st'. retry_loop show_id get tx c sp miss atts st = Some (b, st')
    \<and> rs_queries st' \<le> rs_queries st + length atts \<and> length (rs_sleeps st') \<le> length (rs_sleeps st) + length atts"
proof (induction atts arbitrary: st)
  case (Cons a atts)
  obtain d where "retry_backoff_for c a = Some d" using retry_backoff_ok[OF assms] by blast
  moreover have "length (rs_sleeps (rec_sleep d st)) = Suc (length (rs_sleeps st))" by (simp add: rec_sleep_def)
  ultimately show ?case
    using Cons.IH[of "query_and_deliver get tx (store_recovery_selector show_id sp miss) (rec_sleep d st)"]
    by (auto simp: Let_def)
qed auto

text \<open>
  C16. Every recovery returns, whatever the network answers: it asks at most
  \<^verbatim>\<open>max_recovery_attempts + 1\<close> queries (at least two) and waits at most
  \<^verbatim>\<open>max_recovery_attempts\<close> times (at least once) before it reports success or the gap.
\<close>

theorem recovery_terminates:
  assumes "rec_recovery_delay c * 2 ^ 31 \<le> DURATION_MAX"
  shows "\<exists>res st. recover_gap show_id get tx c miss = Some (res, st)
    \<and> rs_queries st \<le> Suc (max 1 (unat (rec_max_recovery_attempts c)))
    \<and> length (rs_sleeps st) \<le> max 1 (unat (rec_max_recovery_attempts c))"
proof (cases "rec_store_key_prefix c")
  case None
  then show ?thesis by (simp add: recover_gap_def Let_def)
next
  case (Some sp)
  define st0 where "st0 = \<lparr>rs_tracker = tracker_new (mi_missed miss), rs_log = [], rs_queries = 0, rs_sleeps = []\<rparr>"
  define st1 where "st1 = query_and_deliver get tx (store_recovery_selector show_id sp miss) (rec_sleep (rec_recovery_delay c) st0)"
  define st2 where "st2 = query_and_deliver get tx (cache_selector show_id c miss) st1"
  have st: "rs_queries st1 = 1" "length (rs_sleeps st1) = 1" "rs_queries st2 = 2" "length (rs_sleeps st2) = 1"
    by (simp_all add: st2_def st1_def st0_def rec_sleep_def)
  let ?atts = "word_range 1 (rec_max_recovery_attempts c)"
  obtain b st3 where l: "retry_loop show_id get tx c sp miss ?atts st2 = Some (b, st3)"
    "rs_queries st3 \<le> 2 + length ?atts" "length (rs_sleeps st3) \<le> 1 + length ?atts"
    using retry_loop_total[OF assms, of show_id get tx sp miss ?atts st2] st by auto
  have n: "length ?atts = unat (rec_max_recovery_attempts c) - 1" by (simp add: word_range_def)
  have run: "recover_gap show_id get tx c miss =
    (if is_complete (rs_tracker st1) then Some (Ok (), st1)
     else if is_complete (rs_tracker st2) then Some (Ok (), st2)
     else case Some (b, st3) of None \<Rightarrow> None | Some (True, st3) \<Rightarrow> Some (Ok (), st3)
      | Some (False, st3) \<Rightarrow> Some (Err (GapRecoveryFailed (mi_source miss) (fst (mi_missed miss)) (snd (mi_missed miss))), st3))"
    unfolding recover_gap_def Let_def Some l(1)[symmetric]
    by (simp add: st0_def[symmetric] st1_def[symmetric] st2_def[symmetric])
  show ?thesis using st l(2,3) n by (cases b) (auto simp: run)
qed

theorem recovery_terminates_witness:
  "\<exists>res st. recover_gap (\<lambda>_. ''x'') (\<lambda>_ _. Err ChannelClosed) (\<lambda>_ _. Sent) demo_rec_config demo_miss = Some (res, st) \<and> rs_queries st \<le> 4"
  using recovery_terminates[of demo_rec_config "\<lambda>_. ''x''" "\<lambda>_ _. Err ChannelClosed" "\<lambda>_ _. Sent" demo_miss]
  by (auto simp: demo_rec_config_def DURATION_MAX_def)

end
