(* ===== verification/Offload.thy ===== *)
theory Offload
  imports Recovery
begin

text \<open>
  Slow-consumer offload (\<^verbatim>\<open>mitiflow/src/subscriber/offload.rs\<close>, the configuration in
  \<^verbatim>\<open>mitiflow/src/config.rs\<close>): the debounced lag detector, the catch-up reader with its
  cursors and adaptive batch size, and the offload cycle that drains, replays from the store and
  resumes.  The channel fullness is an \<^verbatim>\<open>f64\<close> quotient: the quotient is a function argument
  into a linear order.  \<^verbatim>\<open>session.get\<close> is a function of the number of the query and the
  selector, as in the recovery; the clock, the length of the event channel and the outcome of a
  blocking send are observations handed to each iteration of the loop.
\<close>

section \<open>Configuration and lag detection\<close>

record 'f OffloadConfig =
  of_enabled :: bool
  of_channel_fullness_threshold :: 'f
  of_seq_lag_threshold :: u64
  of_debounce_window :: Duration
  of_catch_up_batch_size :: nat
  of_min_batch_size :: nat
  of_max_batch_size :: nat
  of_target_batch_duration :: Duration
  of_re_subscribe_threshold :: u64
  of_drain_quiet_period :: Duration

definition offload_config_default :: "'f \<Rightarrow> 'f OffloadConfig" where
  "offload_config_default threshold_0_8 = \<lparr>of_enabled = True, of_channel_fullness_threshold = threshold_0_8,
     of_seq_lag_threshold = 10000, of_debounce_window = 2000000000, of_catch_up_batch_size = 500,
     of_min_batch_size = 1000, of_max_batch_size = 100000, of_target_batch_duration = 100000000,
     of_re_subscribe_threshold = 1000, of_drain_quiet_period = 50000000\<rparr>"

record 'f LagDetector =
  ld_channel_len :: nat
  ld_channel_capacity :: nat
  ld_heartbeat_lag :: "(stream, u64) hmap"
  ld_config :: "'f OffloadConfig"
  ld_sustained_since :: "Instant option"

definition lag_new :: "nat \<Rightarrow> 'f OffloadConfig \<Rightarrow> 'f LagDetector" where
  "lag_new cap c = \<lparr>ld_channel_len = 0, ld_channel_capacity = cap, ld_heartbeat_lag = [], ld_config = c,
     ld_sustained_since = None\<rparr>"

definition update_channel_len :: "nat \<Rightarrow> 'f LagDetector \<Rightarrow> 'f LagDetector" where
  "update_channel_len n ld = ld\<lparr>ld_channel_len := n\<rparr>"

definition update_heartbeat_lag :: "PublisherId \<Rightarrow> u32 \<Rightarrow> u64 \<Rightarrow> 'f LagDetector \<Rightarrow> 'f LagDetector" where
  "update_heartbeat_lag pub_id p lag ld = ld\<lparr>ld_heartbeat_lag := hm_insert (pub_id, p) lag (ld_heartbeat_lag ld)\<rparr>"

definition channel_fullness :: "(nat \<Rightarrow> nat \<Rightarrow> 'f::{zero,linorder}) \<Rightarrow> 'f LagDetector \<Rightarrow> 'f" where
  "channel_fullness quot ld =
     (if ld_channel_capacity ld = 0 then 0 else quot (ld_channel_len ld) (ld_channel_capacity ld))"

definition max_seq_lag :: "'f LagDetector \<Rightarrow> u64" where
  "max_seq_lag ld = fold max (map snd (ld_heartbeat_lag ld)) 0"

definition over_threshold :: "(nat \<Rightarrow> nat \<Rightarrow> 'f::{zero,linorder}) \<Rightarrow> 'f LagDetector \<Rightarrow> bool" where
  "over_threshold quot ld \<longleftrightarrow> channel_fullness quot ld > of_channel_fullness_threshold (ld_config ld)
     \<or> max_seq_lag ld > of_seq_lag_threshold (ld_config ld)"

definition is_lagging :: "(nat \<Rightarrow> nat \<Rightarrow> 'f::{zero,linorder}) \<Rightarrow> Instant \<Rightarrow> 'f LagDetector \<Rightarrow> bool \<times> 'f LagDetector" where
  "is_lagging quot now ld =
     (if \<not> of_enabled (ld_config ld) then (False, ld)
      else case (over_threshold quot ld, ld_sustained_since ld) of
          (True, None) \<Rightarrow> (False, ld\<lparr>ld_sustained_since := Some now\<rparr>)
        | (True, Some since) \<Rightarrow> (now - since > of_debounce_window (ld_config ld), ld)
        | (False, _) \<Rightarrow> (False, ld\<lparr>ld_sustained_since := None\<rparr>))"

definition lag_reset :: "'f LagDetector \<Rightarrow> 'f LagDetector" where
  "lag_reset ld = ld\<lparr>ld_sustained_since := None, ld_heartbeat_lag := []\<rparr>"

section \<open>The catch-up reader\<close>

record 'f CatchUpReader =
  cr_store_key_prefix :: string
  cr_cursors :: "(stream, u64) hmap"
  cr_batch_size :: nat
  cr_config :: "'f OffloadConfig"
  cr_partitions :: "u32 list"
  cr_queries :: nat

definition reader_new :: "string \<Rightarrow> (stream, u64) hmap \<Rightarrow> 'f OffloadConfig \<Rightarrow> u32 list \<Rightarrow> 'f CatchUpReader" where
  "reader_new store_prefix cursors c parts = \<lparr>cr_store_key_prefix = store_prefix, cr_cursors = cursors,
     cr_batch_size = of_catch_up_batch_size c, cr_config = c, cr_partitions = parts, cr_queries = 0\<rparr>"

definition catch_up_selector :: "(PublisherId \<Rightarrow> string) \<Rightarrow> 'f CatchUpReader \<Rightarrow> u32 \<Rightarrow> PublisherId option \<Rightarrow> u64 \<Rightarrow> string" where
  "catch_up_selector show_id rd p pub_id after_seq =
     (case pub_id of
        Some pid \<Rightarrow> cr_store_key_prefix rd @ ''/'' @ show_word p @ ''?publisher_id='' @ show_id pid
          @ ''&after_seq='' @ show_word after_seq @ ''&limit='' @ show_nat (cr_batch_size rd)
      | None \<Rightarrow> cr_store_key_prefix rd @ ''/'' @ show_word p
          @ ''?after_seq='' @ show_word after_seq @ ''&limit='' @ show_nat (cr_batch_size rd))"

definition catch_up_reply :: "query_reply \<Rightarrow> 'f CatchUpReader \<times> RawEvent list \<Rightarrow> 'f CatchUpReader \<times> RawEvent list" where
  "catch_up_reply reply st =
     (case reply of
        ReplyErr \<Rightarrow> st
      | ReplySample key_expr payload attachment \<Rightarrow>
          (case (case attachment of None \<Rightarrow> None
                 | Some a \<Rightarrow> (case decode_metadata a of Ok m \<Rightarrow> Some m | Err _ \<Rightarrow> None)) of
             None \<Rightarrow> st
           | Some meta \<Rightarrow>
               let (rd, out) = st;
                   key = (em_pub_id meta, extract_partition key_expr) in
               if (case hm_get (cr_cursors rd) key of Some cursor_seq \<Rightarrow> em_seq meta \<le> cursor_seq | None \<Rightarrow> False) then st
               else
                 let raw = \<lparr>re_id = em_event_id meta, re_seq = em_seq meta, re_publisher_id = em_pub_id meta,
                            re_key_expr = key_expr, re_payload = payload, re_timestamp = em_timestamp meta\<rparr>;
                     entry = (case hm_get (cr_cursors rd) key of Some c \<Rightarrow> c | None \<Rightarrow> 0) in
                 (rd\<lparr>cr_cursors := hm_insert key (max entry (em_seq meta)) (cr_cursors rd)\<rparr>, out @ [raw])))"

definition query_partition ::
  "(PublisherId \<Rightarrow> string) \<Rightarrow> session_get \<Rightarrow> u32 \<Rightarrow> PublisherId option \<Rightarrow> u64 \<Rightarrow> 'f CatchUpReader \<times> RawEvent list
    \<Rightarrow> 'f CatchUpReader \<times> RawEvent list"
where
  "query_partition show_id get p pub_id after_seq st =
     (let (rd, out) = st; st1 = (rd\<lparr>cr_queries := cr_queries rd + 1\<rparr>, out) in
      case get (cr_queries rd) (catch_up_selector show_id rd p pub_id after_seq) of
        Err _ \<Rightarrow> st1
      | Ok replies \<Rightarrow> fold catch_up_reply replies st1)"

definition collect_batch ::
  "(PublisherId \<Rightarrow> string) \<Rightarrow> session_get \<Rightarrow> 'f CatchUpReader \<Rightarrow> 'f CatchUpReader \<times> RawEvent list"
where
  "collect_batch show_id get rd =
     (if cr_cursors rd = [] then
        (if cr_partitions rd = [] then (rd, [])
         else fold (\<lambda>p. query_partition show_id get p None 0) (cr_partitions rd) (rd, []))
      else fold (\<lambda>((pub_id, p), after_seq). query_partition show_id get p (Some pub_id) after_seq) (cr_cursors rd) (rd, []))"

definition next_batch ::
  "(PublisherId \<Rightarrow> string) \<Rightarrow> session_get \<Rightarrow> 'f CatchUpReader \<Rightarrow> 'f CatchUpReader \<times> RawEvent list result"
where
  "next_batch show_id get rd =
     (let (rd1, all_events) = collect_batch show_id get rd in (rd1, Ok (sort_key re_seq all_events)))"

definition adjust_batch_size_adaptive :: "nat \<Rightarrow> Duration \<Rightarrow> 'f OffloadConfig \<Rightarrow> nat" where
  "adjust_batch_size_adaptive batch_size batch_duration c =
     (if batch_duration < of_target_batch_duration c div 2 then min (batch_size * 2) (of_max_batch_size c)
      else if batch_duration > of_target_batch_duration c * 2 then max (batch_size div 2) (of_min_batch_size c)
      else batch_size)"

definition adjust_batch_size :: "Duration \<Rightarrow> 'f CatchUpReader \<Rightarrow> 'f CatchUpReader" where
  "adjust_batch_size d rd = rd\<lparr>cr_batch_size := adjust_batch_size_adaptive (cr_batch_size rd) d (cr_config rd)\<rparr>"

definition is_caught_up_check :: "(stream, u64) hmap \<Rightarrow> (stream, u64) hmap \<Rightarrow> u64 \<Rightarrow> bool" where
  "is_caught_up_check cursors watermark_seqs threshold =
     list_all (\<lambda>(k, wm_seq). \<not> wm_seq > (case hm_get cursors k of Some c \<Rightarrow> c | None \<Rightarrow> 0) + threshold) watermark_seqs"

definition is_caught_up :: "'f CatchUpReader \<Rightarrow> (stream, u64) hmap \<Rightarrow> bool" where
  "is_caught_up rd watermark_seqs = is_caught_up_check (cr_cursors rd) watermark_seqs (of_re_subscribe_threshold (cr_config rd))"

section \<open>The offload cycle\<close>

datatype ConsumerState = Live | Draining | CatchingUp

datatype 'f OffloadEvent =
    LagDetected 'f u64
  | DrainingEv nat
  | CatchingUpEv u64
  | CaughtUp Duration u64
  | Resumed
  | OffloadFailedEv string

datatype forwarder_cmd = Pause | Resume

record 'f OffloadManager =
  om_config :: "'f OffloadConfig"
  om_store_key_prefix :: string
  om_state :: ConsumerState
  om_lag :: "'f LagDetector"
  om_partitions :: "u32 list"
  om_emitted :: "'f OffloadEvent list"
  om_forwarder :: "forwarder_cmd list"

definition offload_new :: "'f OffloadConfig \<Rightarrow> string \<Rightarrow> u32 list \<Rightarrow> nat \<Rightarrow> 'f OffloadManager" where
  "offload_new c store_prefix parts cap = \<lparr>om_config = c, om_store_key_prefix = store_prefix, om_state = Live,
     om_lag = lag_new cap c, om_partitions = parts, om_emitted = [], om_forwarder = []\<rparr>"

definition emit :: "'f OffloadEvent \<Rightarrow> 'f OffloadManager \<Rightarrow> 'f OffloadManager" where
  "emit e m = m\<lparr>om_emitted := om_emitted m @ [e]\<rparr>"

definition control :: "forwarder_cmd \<Rightarrow> 'f OffloadManager \<Rightarrow> 'f OffloadManager" where
  "control c m = m\<lparr>om_forwarder := om_forwarder m @ [c]\<rparr>"

definition update_lag :: "nat \<Rightarrow> (PublisherId \<times> u32 \<times> u64) option \<Rightarrow> 'f OffloadManager \<Rightarrow> 'f OffloadManager" where
  "update_lag channel_len heartbeat_lag m =
     (let ld = update_channel_len channel_len (om_lag m) in
      m\<lparr>om_lag := (case heartbeat_lag of None \<Rightarrow> ld | Some (pub_id, p, lag) \<Rightarrow> update_heartbeat_lag pub_id p lag ld)\<rparr>)"

definition check_and_trigger ::
  "(nat \<Rightarrow> nat \<Rightarrow> 'f::{zero,linorder}) \<Rightarrow> Instant \<Rightarrow> 'f OffloadManager \<Rightarrow> bool \<times> 'f OffloadManager"
where
  "check_and_trigger quot now m =
     (if om_state m \<noteq> Live then (False, m)
      else case is_lagging quot now (om_lag m) of
          (True, ld) \<Rightarrow>
            (True, emit (LagDetected (channel_fullness quot ld) (max_seq_lag ld)) (m\<lparr>om_lag := ld, om_state := Draining\<rparr>))
        | (False, ld) \<Rightarrow> (False, m\<lparr>om_lag := ld\<rparr>))"

type_synonym DecodedSample = "EventMeta \<times> string \<times> bytes"

fun drain_sample_cursors :: "Instant \<Rightarrow> DecodedSample list \<Rightarrow> GapDetector \<Rightarrow> GapDetector" where
  "drain_sample_cursors now [] gd = gd"
| "drain_sample_cursors now ((meta, key, payload) # rest) gd =
     drain_sample_cursors now rest (fst (on_sample gd now (em_pub_id meta) (extract_partition key) (em_seq meta)))"

text \<open>
  Delivery of one batch: \<^verbatim>\<open>dropped_after\<close> bounds how many blocking sends succeed before the receiver
  is dropped.  The result says whether the receiver is still there.
\<close>

fun replay_batch :: "Instant \<Rightarrow> nat option \<Rightarrow> RawEvent list \<Rightarrow> GapDetector \<Rightarrow> RawEvent list \<Rightarrow> bool \<times> GapDetector \<times> RawEvent list" where
  "replay_batch now dropped_after [] gd delivered = (True, gd, delivered)"
| "replay_batch now dropped_after (raw # batch) gd delivered =
     (let gd1 = fst (on_sample gd now (re_publisher_id raw) (extract_partition (re_key_expr raw)) (re_seq raw)) in
      case dropped_after of
        Some 0 \<Rightarrow> (False, gd1, delivered)
      | _ \<Rightarrow> replay_batch now (map_option (\<lambda>n. n - 1) dropped_after) batch gd1 (delivered @ [raw]))"

text \<open>What one iteration of the catch-up loop observes.\<close>

record iteration =
  it_now :: Instant
  it_duration :: Duration
  it_channel_len :: nat
  it_dropped_after :: "nat option"

datatype cycle_end = CycleDone | ReceiverDropped | StillCatchingUp

fun catch_up_loop ::
  "(PublisherId \<Rightarrow> string) \<Rightarrow> session_get \<Rightarrow> nat \<Rightarrow> iteration list \<Rightarrow> 'f CatchUpReader \<Rightarrow> GapDetector \<Rightarrow> RawEvent list
    \<Rightarrow> cycle_end result \<times> 'f CatchUpReader \<times> GapDetector \<times> RawEvent list"
where
  "catch_up_loop show_id get resume_at [] rd gd delivered = (Ok StillCatchingUp, rd, gd, delivered)"
| "catch_up_loop show_id get resume_at (it # its) rd gd delivered =
     (case next_batch show_id get rd of
        (rd1, Err e) \<Rightarrow> (Err e, rd1, gd, delivered)
      | (rd1, Ok batch) \<Rightarrow>
          let rd2 = adjust_batch_size (it_duration it) rd1 in
          if batch = [] then
            (if it_channel_len it \<le> resume_at then (Ok CycleDone, rd2, gd, delivered)
             else catch_up_loop show_id get resume_at its rd2 gd delivered)
          else case replay_batch (it_now it) (it_dropped_after it) batch gd delivered of
              (False, gd1, delivered1) \<Rightarrow> (Ok ReceiverDropped, rd2, gd1, delivered1)
            | (True, gd1, delivered1) \<Rightarrow> catch_up_loop show_id get resume_at its rd2 gd1 delivered1)"

text \<open>
  The cycle from the state after the trigger.  The events delivered to the event channel are the
  last component; the \<^verbatim>\<open>Display\<close> of an error is an argument; \<^const>\<open>None\<close> is a cycle that is still waiting when the observations end.
\<close>

definition run_offload_cycle_inner ::
  "(error \<Rightarrow> string) \<Rightarrow> (PublisherId \<Rightarrow> string) \<Rightarrow> session_get \<Rightarrow> Instant \<Rightarrow> Duration \<Rightarrow> iteration list \<Rightarrow> DecodedSample list \<Rightarrow> nat
    \<Rightarrow> 'f OffloadManager \<Rightarrow> GapDetector \<Rightarrow> (unit result \<times> 'f OffloadManager \<times> GapDetector \<times> RawEvent list) option"
where
  "run_offload_cycle_inner display show_id get now elapsed its buffered_samples buffered m gd =
     (let m1 = control Pause (emit (DrainingEv buffered) m);
          gd1 = drain_sample_cursors now buffered_samples gd;
          cursors = snapshot_cursors gd1;
          behind_by = sum_list (map snd cursors);
          m2 = emit (CatchingUpEv behind_by) (m1\<lparr>om_state := CatchingUp\<rparr>);
          rd = reader_new (om_store_key_prefix m) cursors (om_config m) (om_partitions m);
          resume_at = ld_channel_capacity (om_lag m) div 4 in
      case catch_up_loop show_id get resume_at its rd gd1 [] of
        (Err e, rd', gd', delivered) \<Rightarrow>
          Some (Err (OffloadFailed (display e)),
            emit (OffloadFailedEv (display e)) (m2\<lparr>om_state := Live, om_lag := lag_reset (om_lag m2)\<rparr>), gd', delivered)
      | (Ok StillCatchingUp, _) \<Rightarrow> None
      | (Ok ReceiverDropped, rd', gd', delivered) \<Rightarrow> Some (Ok (), m2, gd', delivered)
      | (Ok CycleDone, rd', gd', delivered) \<Rightarrow>
          let m3 = (control Resume m2)\<lparr>om_state := Live\<rparr>;
              m4 = emit Resumed (emit (CaughtUp elapsed (word_of_nat (length delivered))) m3) in
          Some (Ok (), m4\<lparr>om_lag := lag_reset (om_lag m4)\<rparr>, gd', delivered))"

definition run_offload_cycle ::
  "(error \<Rightarrow> string) \<Rightarrow> (PublisherId \<Rightarrow> string) \<Rightarrow> session_get \<Rightarrow> Instant \<Rightarrow> Duration \<Rightarrow> iteration list \<Rightarrow> DecodedSample list \<Rightarrow> nat
    \<Rightarrow> 'f OffloadManager \<Rightarrow> GapDetector \<Rightarrow> (unit result \<times> 'f OffloadManager \<times> GapDetector \<times> RawEvent list) option"
where
  "run_offload_cycle display show_id get now elapsed its buffered_samples buffered m gd =
     map_option (\<lambda>(r, m', rest). (r, control Resume m', rest))
       (run_offload_cycle_inner display show_id get now elapsed its buffered_samples buffered m gd)"

section \<open>Reader invariants\<close>

definition stream_of :: "RawEvent \<Rightarrow> stream" where
  "stream_of e = (re_publisher_id e, extract_partition (re_key_expr e))"

definition seqs_of :: "stream \<Rightarrow> RawEvent list \<Rightarrow> u64 list" where
  "seqs_of k es = map re_seq (filter (\<lambda>e. stream_of e = k) es)"

lemma seqs_of_append [simp]: "seqs_of k (xs @ ys) = seqs_of k xs @ seqs_of k ys"
  by (simp add: seqs_of_def)

lemma seqs_of_simps [simp]:
  "seqs_of k [] = []" "seqs_of k (e # es) = (if stream_of e = k then re_seq e # seqs_of k es else seqs_of k es)"
  by (simp_all add: seqs_of_def)

definition beyond :: "u64 option \<Rightarrow> u64 \<Rightarrow> bool" where
  "beyond c s = (case c of None \<Rightarrow> True | Some x \<Rightarrow> x < s)"

text \<open>
  Events \<^term>\<open>es\<close> move the cursors \<^term>\<open>c\<close> to \<^term>\<open>c'\<close>: per stream they are
  strictly increasing and above the old cursor, and the new cursor is the last of them.
\<close>

definition advances :: "(stream \<Rightarrow> u64 option) \<Rightarrow> RawEvent list \<Rightarrow> (stream \<Rightarrow> u64 option) \<Rightarrow> bool" where
  "advances c es c' \<longleftrightarrow> (\<forall>k. sorted_wrt (<) (seqs_of k es) \<and> (\<forall>s \<in> set (seqs_of k es). beyond (c k) s)
     \<and> c' k = (if seqs_of k es = [] then c k else Some (last (seqs_of k es))))"

lemma advancesD:
  assumes "advances c es c'"
  shows "sorted_wrt (<) (seqs_of k es)" "s \<in> set (seqs_of k es) \<Longrightarrow> beyond (c k) s"
    "c' k = (if seqs_of k es = [] then c k else Some (last (seqs_of k es)))"
  using assms unfolding advances_def by blast+

lemma advances_Nil [simp]: "advances c [] c' \<longleftrightarrow> c' = c"
  by (auto simp: advances_def)

lemma sorted_last_ge: "sorted_wrt (<) xs \<Longrightarrow> x \<in> set xs \<Longrightarrow> x \<le> (last xs :: u64)"
  by (induction xs) (auto simp: less_imp_le)

lemma advances_trans:
  assumes "advances c xs c1" and "advances c1 ys c2"
  shows "advances c (xs @ ys) c2"
  unfolding advances_def
proof
  fix k
  let ?x = "seqs_of k xs" and ?y = "seqs_of k ys"
  have x: "sorted_wrt (<) ?x" "\<forall>s \<in> set ?x. beyond (c k) s" "c1 k = (if ?x = [] then c k else Some (last ?x))"
    and y: "sorted_wrt (<) ?y" "\<forall>s \<in> set ?y. beyond (c1 k) s" "c2 k = (if ?y = [] then c1 k else Some (last ?y))"
    using assms[unfolded advances_def] by blast+
  have lt: "a < b" if "a \<in> set ?x" "b \<in> set ?y" for a b
  proof -
    have "c1 k = Some (last ?x)" using that(1) x(3) by auto
    then have "last ?x < b" using y(2) that(2) by (simp add: beyond_def)
    then show ?thesis using sorted_last_ge[OF x(1) that(1)] by (rule le_less_trans[rotated])
  qed
  have "beyond (c k) s" if "s \<in> set ?y" for s
  proof (cases "?x = []")
    case True
    then show ?thesis using that x(3) y(2) by simp
  next
    case False
    then have "beyond (c k) (last ?x)" "last ?x < s" using x(2) lt that by auto
    then show ?thesis by (auto simp: beyond_def split: option.splits)
  qed
  then show "sorted_wrt (<) (seqs_of k (xs @ ys)) \<and> (\<forall>s \<in> set (seqs_of k (xs @ ys)). beyond (c k) s) \<and>
      c2 k = (if seqs_of k (xs @ ys) = [] then c k else Some (last (seqs_of k (xs @ ys))))"
    using x y lt by (auto simp: sorted_wrt_append)
qed

lemma advances_one:
  "beyond (c k) s \<Longrightarrow> stream_of e = k \<Longrightarrow> re_seq e = s \<Longrightarrow> advances c [e] (c(k \<mapsto> s))"
  by (auto simp: advances_def)

lemma catch_up_reply_advances:
  assumes "catch_up_reply reply (rd, out) = (rd', out')"
  shows "\<exists>es. out' = out @ es \<and> advances (hm_get (cr_cursors rd)) es (hm_get (cr_cursors rd'))"
proof (cases reply)
  case (ReplySample key payload att)
  show ?thesis
  proof (cases "\<exists>a m. att = Some a \<and> decode_metadata a = Ok m")
    case False
    then have "catch_up_reply reply (rd, out) = (rd, out)"
      using ReplySample by (auto simp: catch_up_reply_def split: option.splits sum.splits)
    then show ?thesis using assms by simp
  next
    case True
    then obtain a m where m: "att = Some a" "decode_metadata a = Ok m" by blast
    let ?k = "(em_pub_id m, extract_partition key)" and ?c = "hm_get (cr_cursors rd)"
    show ?thesis
    proof (cases "beyond (?c ?k) (em_seq m)")
      case False
      then obtain x where "?c ?k = Some x" "em_seq m \<le> x" by (auto simp: beyond_def split: option.splits)
      then show ?thesis using assms ReplySample m by (simp add: catch_up_reply_def Let_def)
    next
      case True
      define raw where "raw = \<lparr>re_id = em_event_id m, re_seq = em_seq m, re_publisher_id = em_pub_id m,
        re_key_expr = key, re_payload = payload, re_timestamp = em_timestamp m\<rparr>"
      have mx: "max (case ?c ?k of Some c \<Rightarrow> c | None \<Rightarrow> 0) (em_seq m) = em_seq m"
        and new: "\<not> (case ?c ?k of Some c \<Rightarrow> em_seq m \<le> c | None \<Rightarrow> False)"
        using True by (auto simp: beyond_def max_def not_le split: option.splits)
      have "(rd', out') = (rd\<lparr>cr_cursors := hm_insert ?k (em_seq m) (cr_cursors rd)\<rparr>, out @ [raw])"
        using assms ReplySample m new mx by (simp only: catch_up_reply_def query_reply.case option.case sum.case prod.case Let_def if_False raw_def)
      then have "out' = out @ [raw]" "hm_get (cr_cursors rd') = ?c(?k \<mapsto> em_seq m)"
        by simp_all
      moreover have "advances ?c [raw] (?c(?k \<mapsto> em_seq m))"
        using True by (intro advances_one) (auto simp: raw_def stream_of_def)
      ultimately show ?thesis by auto
    qed
  qed
qed (use assms in \<open>simp add: catch_up_reply_def\<close>)

lemma fold_catch_up_advances:
  "fold catch_up_reply replies (rd, out) = (rd', out') \<Longrightarrow>
     \<exists>es. out' = out @ es \<and> advances (hm_get (cr_cursors rd)) es (hm_get (cr_cursors rd'))"
proof (induction replies arbitrary: rd out)
  case Nil
  then show ?case by simp
next
  case (Cons r rs)
  obtain rd1 out1 where s: "catch_up_reply r (rd, out) = (rd1, out1)" by fastforce
  obtain es1 where 1: "out1 = out @ es1" "advances (hm_get (cr_cursors rd)) es1 (hm_get (cr_cursors rd1))"
    using catch_up_reply_advances[OF s] by blast
  obtain es2 where 2: "out' = out1 @ es2" "advances (hm_get (cr_cursors rd1)) es2 (hm_get (cr_cursors rd'))"
    using Cons.IH[of rd1 out1] Cons.prems s by auto
  show ?case using 1 2 advances_trans by fastforce
qed

lemma query_partition_advances:
  assumes "query_partition show_id get p i a (rd, out) = (rd', out')"
  shows "\<exists>es. out' = out @ es \<and> advances (hm_get (cr_cursors rd)) es (hm_get (cr_cursors rd'))"
  using assms fold_catch_up_advances[of _ "rd\<lparr>cr_queries := cr_queries rd + 1\<rparr>" out rd' out']
  by (auto simp: query_partition_def Let_def split: sum.splits)

lemma fold_query_advances:
  assumes "\<And>x rd out rd' out'. q x (rd, out) = (rd', out') \<Longrightarrow>
      \<exists>es. out' = out @ es \<and> advances (hm_get (cr_cursors rd)) es (hm_get (cr_cursors rd'))"
  shows "fold q xs (rd, out) = (rd', out') \<Longrightarrow>
      \<exists>es. out' = out @ es \<and> advances (hm_get (cr_cursors rd)) es (hm_get (cr_cursors rd'))"
proof (induction xs arbitrary: rd out)
  case Nil
  then show ?case by simp
next
  case (Cons x xs)
  obtain rd1 out1 where s: "q x (rd, out) = (rd1, out1)" by fastforce
  obtain es1 where 1: "out1 = out @ es1" "advances (hm_get (cr_cursors rd)) es1 (hm_get (cr_cursors rd1))"
    using assms[OF s] by blast
  obtain es2 where 2: "out' = out1 @ es2" "advances (hm_get (cr_cursors rd1)) es2 (hm_get (cr_cursors rd'))"
    using Cons.IH[of rd1 out1] Cons.prems s by auto
  show ?case using 1 2 advances_trans by fastforce
qed

lemma collect_batch_advances:
  assumes "collect_batch show_id get rd = (rd', out)"
  shows "advances (hm_get (cr_cursors rd)) out (hm_get (cr_cursors rd'))"
proof -
  let ?q1 = "\<lambda>p. query_partition show_id get p None 0"
  let ?q2 = "\<lambda>((pub_id, p), after_seq). query_partition show_id get p (Some pub_id) after_seq"
  have q1: "\<exists>es. out' = out @ es \<and> advances (hm_get (cr_cursors rd)) es (hm_get (cr_cursors rd'))"
    if "?q1 x (rd, out) = (rd', out')" for x and rd rd' :: "'a CatchUpReader" and out out'
    by (rule query_partition_advances[OF that])
  have q2: "\<exists>es. out' = out @ es \<and> advances (hm_get (cr_cursors rd)) es (hm_get (cr_cursors rd'))"
    if "?q2 x (rd, out) = (rd', out')" for x and rd rd' :: "'a CatchUpReader" and out out'
    using that by (cases x) (auto dest: query_partition_advances)
  show ?thesis
    using assms fold_query_advances[of ?q1 "cr_partitions rd" rd "[]" rd' out, OF q1]
      fold_query_advances[of ?q2 "cr_cursors rd" rd "[]" rd' out, OF q2]
    by (auto simp: collect_batch_def split: if_splits)
qed

lemma seqs_of_sort:
  assumes "sorted_wrt (<) (seqs_of k es)"
  shows "seqs_of k (sort_key re_seq es) = seqs_of k es"
proof -
  have "sorted (map re_seq (filter (\<lambda>e. stream_of e = k) es))"
    using assms by (simp add: seqs_of_def strict_sorted_iff)
  then show ?thesis unfolding seqs_of_def by (simp add: filter_sort sort_key_id_if_sorted)
qed

lemma next_batch_advances:
  assumes "next_batch show_id get rd = (rd', r)"
  shows "\<exists>batch. r = Ok batch \<and> advances (hm_get (cr_cursors rd)) batch (hm_get (cr_cursors rd'))"
proof -
  obtain out where out: "collect_batch show_id get rd = (rd', out)" "r = Ok (sort_key re_seq out)"
    using assms by (auto simp: next_batch_def split: prod.splits)
  have a: "advances (hm_get (cr_cursors rd)) out (hm_get (cr_cursors rd'))"
    by (rule collect_batch_advances[OF out(1)])
  then have "seqs_of k (sort_key re_seq out) = seqs_of k out" for k
    by (rule seqs_of_sort[OF advancesD(1)])
  then show ?thesis using a out(2) by (simp add: advances_def)
qed

section \<open>The cycle\<close>

lemma on_sample_advance:
  assumes "beyond (hm_get (gd_last_seen gd) (i, p)) s"
  shows "hm_get (gd_last_seen (fst (on_sample gd now i p s))) = (hm_get (gd_last_seen gd))((i, p) \<mapsto> s)"
proof -
  have "expected_seq (hm_get (gd_last_seen gd) (i, p)) \<le> s"
    using assms by (auto simp: expected_seq_def beyond_def word_succ_le split: option.splits)
  then show ?thesis by (auto simp: on_sample_def Let_def)
qed

lemma on_sample_duplicate:
  "s < expected_seq (hm_get (gd_last_seen gd) (i, p)) \<Longrightarrow> snd (on_sample gd now i p s) = Duplicate"
  by (auto simp: on_sample_def Let_def dest: leD less_imp_le)

lemma advances_Cons:
  assumes "advances c (e # es) c'"
  shows "beyond (c (stream_of e)) (re_seq e)" and "advances (c(stream_of e \<mapsto> re_seq e)) es c'"
proof -
  show "beyond (c (stream_of e)) (re_seq e)" using advancesD(2)[OF assms, of "re_seq e" "stream_of e"] by simp
  show "advances (c(stream_of e \<mapsto> re_seq e)) es c'"
    unfolding advances_def
  proof
    fix k
    note a = advancesD(1,3)[OF assms, of k] advancesD(2)[OF assms, of _ k]
    show "sorted_wrt (<) (seqs_of k es) \<and> (\<forall>s \<in> set (seqs_of k es). beyond ((c(stream_of e \<mapsto> re_seq e)) k) s)
      \<and> c' k = (if seqs_of k es = [] then (c(stream_of e \<mapsto> re_seq e)) k else Some (last (seqs_of k es)))"
      using a by (cases "stream_of e = k") (simp_all add: beyond_def)
  qed
qed

lemma advances_prefix:
  assumes "advances c (es @ rest) c'"
  shows "\<exists>c''. advances c es c''"
proof
  let ?c = "\<lambda>k. if seqs_of k es = [] then c k else Some (last (seqs_of k es))"
  have "sorted_wrt (<) (seqs_of k es)" "\<forall>s \<in> set (seqs_of k es). beyond (c k) s" for k
    using advancesD(2)[OF assms, of _ k] advancesD(1)[OF assms, of k] by (auto simp: sorted_wrt_append)
  then show "advances c es ?c" unfolding advances_def by blast
qed

lemma replay_batch_advances:
  assumes "advances (hm_get (gd_last_seen gd)) batch c'" and "replay_batch now n batch gd delivered = (b, gd', delivered')"
  shows "\<exists>es rest. delivered' = delivered @ es \<and> batch = es @ rest \<and> (b \<longrightarrow> rest = [] \<and> hm_get (gd_last_seen gd') = c')"
  using assms
proof (induction batch arbitrary: gd delivered n)
  case Nil
  then show ?case by simp
next
  case (Cons e batch)
  let ?gd1 = "fst (on_sample gd now (re_publisher_id e) (extract_partition (re_key_expr e)) (re_seq e))"
  have gd1: "hm_get (gd_last_seen ?gd1) = (hm_get (gd_last_seen gd))(stream_of e \<mapsto> re_seq e)"
    using advances_Cons(1)[OF Cons.prems(1)] by (simp add: on_sample_advance stream_of_def)
  have adv: "advances (hm_get (gd_last_seen ?gd1)) batch c'" using advances_Cons(2)[OF Cons.prems(1)] gd1 by simp
  show ?case
  proof (cases "n = Some 0")
    case True
    then have "b = False" "delivered' = delivered" using Cons.prems(2) by (auto simp: Let_def)
    then show ?thesis by (intro exI[of _ "[]"] exI[of _ "e # batch"]) simp
  next
    case False
    then have "replay_batch now (map_option (\<lambda>n. n - 1) n) batch ?gd1 (delivered @ [e]) = (b, gd', delivered')"
      using Cons.prems(2) by (auto simp: Let_def split: option.splits nat.splits)
    from Cons.IH[OF adv this] obtain es rest where "delivered' = delivered @ e # es" "batch = es @ rest"
      "b \<longrightarrow> rest = [] \<and> hm_get (gd_last_seen gd') = c'" by auto
    then show ?thesis by (intro exI[of _ "e # es"] exI[of _ rest]) simp
  qed
qed

lemma replay_batch_None: "replay_batch now None batch gd delivered = (b, gd', delivered') \<Longrightarrow> b"
  by (induction batch arbitrary: gd delivered) (auto simp: Let_def)

lemma adjust_batch_size_cursors [simp]: "cr_cursors (adjust_batch_size d rd) = cr_cursors rd"
  by (simp add: adjust_batch_size_def)

lemma catch_up_loop_advances:
  assumes "catch_up_loop show_id get resume_at its rd gd delivered = (r, rd', gd', delivered')"
    and "hm_get (cr_cursors rd) = hm_get (gd_last_seen gd)"
  shows "\<exists>es c'. delivered' = delivered @ es \<and> advances (hm_get (gd_last_seen gd)) es c' \<and> (\<exists>x. r = Ok x)
    \<and> (r \<noteq> Ok ReceiverDropped \<longrightarrow> hm_get (gd_last_seen gd') = c')
    \<and> (r = Ok StillCatchingUp \<longrightarrow> (\<forall>it \<in> set its. it_channel_len it \<le> resume_at) \<longrightarrow> length its \<le> length es)
    \<and> (r = Ok ReceiverDropped \<longrightarrow> (\<exists>it \<in> set its. it_dropped_after it \<noteq> None))"
  using assms
proof (induction its arbitrary: rd gd delivered)
  case Nil
  then show ?case by (intro exI[of _ "[]"]) auto
next
  case (Cons it its)
  obtain rd1 batch where nb: "next_batch show_id get rd = (rd1, Ok batch)"
    and adv: "advances (hm_get (cr_cursors rd)) batch (hm_get (cr_cursors rd1))"
    using next_batch_advances by (metis surj_pair)
  show ?case
  proof (cases "batch = []")
    case True
    then have cur: "hm_get (cr_cursors rd1) = hm_get (gd_last_seen gd)" using adv Cons.prems(2) by simp
    show ?thesis
    proof (cases "it_channel_len it \<le> resume_at")
      case True
      then show ?thesis using Cons.prems nb \<open>batch = []\<close> by (intro exI[of _ "[]"]) (auto simp: Let_def)
    next
      case False
      then have run: "catch_up_loop show_id get resume_at its (adjust_batch_size (it_duration it) rd1) gd delivered = (r, rd', gd', delivered')"
        using Cons.prems(1) nb \<open>batch = []\<close> by (simp add: Let_def)
      obtain es c' where "delivered' = delivered @ es" "advances (hm_get (gd_last_seen gd)) es c'" "\<exists>x. r = Ok x"
        "r \<noteq> Ok ReceiverDropped \<longrightarrow> hm_get (gd_last_seen gd') = c'"
        "r = Ok ReceiverDropped \<longrightarrow> (\<exists>it \<in> set its. it_dropped_after it \<noteq> None)"
        using Cons.IH[OF run, simplified adjust_batch_size_cursors, OF cur] by blast
      then show ?thesis using False by (intro exI[of _ es] exI[of _ c']) auto
    qed
  next
    case False
    obtain b gd1 delivered1 where rb: "replay_batch (it_now it) (it_dropped_after it) batch gd delivered = (b, gd1, delivered1)"
      by (metis prod_cases3)
    have adv': "advances (hm_get (gd_last_seen gd)) batch (hm_get (cr_cursors rd1))" using adv Cons.prems(2) by simp
    obtain es rest where es: "delivered1 = delivered @ es" "batch = es @ rest"
      "b \<longrightarrow> rest = [] \<and> hm_get (gd_last_seen gd1) = hm_get (cr_cursors rd1)"
      using replay_batch_advances[OF adv' rb] by blast
    show ?thesis
    proof (cases b)
      case True
      then have run: "catch_up_loop show_id get resume_at its (adjust_batch_size (it_duration it) rd1) gd1 delivered1 = (r, rd', gd', delivered')"
        using Cons.prems(1) nb rb False by (simp add: Let_def)
      obtain es2 c' where es2: "delivered' = delivered1 @ es2" "advances (hm_get (gd_last_seen gd1)) es2 c'" "\<exists>x. r = Ok x"
        "r \<noteq> Ok ReceiverDropped \<longrightarrow> hm_get (gd_last_seen gd') = c'"
        "r = Ok StillCatchingUp \<longrightarrow> (\<forall>it \<in> set its. it_channel_len it \<le> resume_at) \<longrightarrow> length its \<le> length es2"
        "r = Ok ReceiverDropped \<longrightarrow> (\<exists>it \<in> set its. it_dropped_after it \<noteq> None)"
        using Cons.IH[OF run] es(3)[rule_format, OF True] unfolding adjust_batch_size_cursors by (metis (no_types, lifting))
      have "advances (hm_get (gd_last_seen gd)) (batch @ es2) c'"
        using advances_trans[OF adv'] es2(2) es(3) True by simp
      moreover have "es = batch" "0 < length batch" using es True False by auto
      moreover have "Suc n \<le> length (batch @ es2)" if "n \<le> length es2" for n
        using that False by (cases batch) auto
      ultimately show ?thesis using es2 es(1)
        by (intro exI[of _ "batch @ es2"] exI[of _ c']) (auto simp del: length_append)
    next
      case f: False
      then have "r = Ok ReceiverDropped" "delivered' = delivered1"
        using Cons.prems(1) nb rb False by (auto simp: Let_def)
      moreover obtain c'' where "advances (hm_get (gd_last_seen gd)) es c''"
        using advances_prefix adv' es(2) by blast
      moreover have "it_dropped_after it \<noteq> None"
        using rb f replay_batch_None[of "it_now it" batch gd delivered] by metis
      ultimately show ?thesis using es(1) by (intro exI[of _ es] exI[of _ c'']) auto
    qed
  qed
qed

text \<open>A run of the whole cycle, reduced to its catch-up loop.\<close>

lemma cycle_loop:
  fixes m m' :: "'f OffloadManager"
  assumes "run_offload_cycle display show_id get now elapsed its samples buffered m gd = Some (res, m', gd', delivered)"
  shows "\<exists>r (rd :: 'f CatchUpReader) rd'. catch_up_loop show_id get (ld_channel_capacity (om_lag m) div 4) its rd (drain_sample_cursors now samples gd) []
        = (Ok r, rd', gd', delivered)
      \<and> hm_get (cr_cursors rd) = hm_get (gd_last_seen (drain_sample_cursors now samples gd))
      \<and> res = Ok () \<and> r \<noteq> StillCatchingUp \<and> (r = CycleDone \<longleftrightarrow> om_state m' = Live) \<and> last (om_forwarder m') = Resume"
proof -
  let ?gd1 = "drain_sample_cursors now samples gd"
  define rd where "rd = reader_new (om_store_key_prefix m) (snapshot_cursors ?gd1) (om_config m) (om_partitions m)"
  have cur: "hm_get (cr_cursors rd) = hm_get (gd_last_seen ?gd1)"
    by (simp add: rd_def reader_new_def snapshot_cursors_def)
  obtain r rd' gd2 delivered2 where loop:
    "catch_up_loop show_id get (ld_channel_capacity (om_lag m) div 4) its rd ?gd1 [] = (r, rd', gd2, delivered2)"
    by (metis prod_cases4)
  then obtain x where x: "r = Ok x" using catch_up_loop_advances[OF loop cur] by blast
  show ?thesis
    using assms loop cur unfolding x run_offload_cycle_def run_offload_cycle_inner_def Let_def
    by (intro exI[of _ x] exI[of _ rd] exI[of _ rd']) (cases x, auto simp: rd_def[symmetric] control_def emit_def)
qed

lemma cycle_advances:
  assumes "run_offload_cycle display show_id get now elapsed its samples buffered m gd = Some (res, m', gd', delivered)"
  shows "\<exists>c'. advances (hm_get (gd_last_seen (drain_sample_cursors now samples gd))) delivered c'
      \<and> (om_state m' = Live \<longrightarrow> hm_get (gd_last_seen gd') = c')"
  using cycle_loop[OF assms] catch_up_loop_advances by fastforce

text \<open>
  C17. The catch-up of an offload cycle replays every stream in strictly increasing order, starting
  above the switchover cursor, whatever the store answers (repeated, reordered or stale replies
  included); and once the cycle has resumed, the gap detector drops every replayed event that
  arrives again from the live stream as a duplicate.
\<close>

theorem offload_replays_once:
  assumes "run_offload_cycle display show_id get now elapsed its samples buffered m gd = Some (res, m', gd', delivered)"
    and "\<forall>e \<in> set delivered. re_seq e \<noteq> u64_MAX"
  shows "sorted_wrt (<) (seqs_of k delivered)
    \<and> (\<forall>s \<in> set (seqs_of k delivered). beyond (hm_get (gd_last_seen (drain_sample_cursors now samples gd)) k) s)
    \<and> (om_state m' = Live \<longrightarrow> (\<forall>e \<in> set delivered.
          snd (on_sample gd' now' (re_publisher_id e) (extract_partition (re_key_expr e)) (re_seq e)) = Duplicate))"
proof -
  obtain c' where adv: "advances (hm_get (gd_last_seen (drain_sample_cursors now samples gd))) delivered c'"
    and live: "om_state m' = Live \<Longrightarrow> hm_get (gd_last_seen gd') = c'"
    using cycle_advances[OF assms(1)] by blast
  have "snd (on_sample gd' now' (re_publisher_id e) (extract_partition (re_key_expr e)) (re_seq e)) = Duplicate"
    if e: "e \<in> set delivered" and l: "om_state m' = Live" for e
  proof -
    let ?k = "stream_of e" and ?l = "last (seqs_of (stream_of e) delivered)"
    have mem: "re_seq e \<in> set (seqs_of ?k delivered)" using e by (auto simp: seqs_of_def)
    then have cur: "hm_get (gd_last_seen gd') ?k = Some ?l" using live[OF l] advancesD(3)[OF adv, of ?k] by auto
    have "?l \<in> set (seqs_of ?k delivered)" using mem by (intro last_in_set) auto
    then have "?l \<noteq> u64_MAX" using assms(2) by (auto simp: seqs_of_def)
    moreover have "re_seq e \<le> ?l" by (rule sorted_last_ge[OF advancesD(1)[OF adv] mem])
    ultimately have "re_seq e < ?l + 1" by (simp add: word_less_succ_iff)
    then show ?thesis using cur by (intro on_sample_duplicate) (simp add: expected_seq_def stream_of_def)
  qed
  then show ?thesis using advancesD(1,2)[OF adv] by blast
qed

text \<open>
  Draining: every drained sample ends at or below the cursor of its stream.
\<close>

lemma on_sample_cursor_mono:
  assumes "hm_get (gd_last_seen gd) k = Some c" and "c \<noteq> u64_MAX"
  shows "\<exists>c'. hm_get (gd_last_seen (fst (on_sample gd now i p s))) k = Some c' \<and> c \<le> c'"
proof -
  have "c < c + 1" using word_less_succ_iff[OF assms(2), of c] by simp
  then show ?thesis
    using assms by (auto simp: on_sample_def Let_def expected_seq_def less_imp_le intro: order_trans[of c "c + 1"])
qed

lemma on_sample_cursor_ge:
  assumes "\<forall>k. hm_get (gd_last_seen gd) k \<noteq> Some u64_MAX"
  shows "\<exists>c. hm_get (gd_last_seen (fst (on_sample gd now i p s))) (i, p) = Some c \<and> s \<le> c"
proof (cases "hm_get (gd_last_seen gd) (i, p)")
  case None
  then show ?thesis by (auto simp: on_sample_def Let_def expected_seq_def word_gt_0)
next
  case (Some c)
  then have "c \<noteq> u64_MAX" using assms by auto
  then have iff: "s < c + 1 \<longleftrightarrow> s \<le> c" by (rule word_less_succ_iff)
  show ?thesis
  proof (cases "s < c + 1")
    case True
    then have "\<not> c + 1 < s" "s \<noteq> c + 1" by auto
    then show ?thesis using Some iff True by (simp add: on_sample_def Let_def expected_seq_def)
  next
    case False
    then show ?thesis using Some by (auto simp: on_sample_def Let_def expected_seq_def not_less)
  qed
qed

lemma drain_keeps:
  assumes "\<forall>(meta, key, payload) \<in> set samples. em_seq meta \<noteq> u64_MAX"
    and "\<forall>k. hm_get (gd_last_seen gd) k \<noteq> Some u64_MAX"
    and "hm_get (gd_last_seen gd) k = Some c"
  shows "\<exists>c'. hm_get (gd_last_seen (drain_sample_cursors now samples gd)) k = Some c' \<and> c \<le> c'"
  using assms
proof (induction samples arbitrary: gd c)
  case Nil
  then show ?case by simp
next
  case (Cons x xs)
  obtain meta key payload where x: "x = (meta, key, payload)" by (cases x)
  let ?gd = "fst (on_sample gd now (em_pub_id meta) (extract_partition key) (em_seq meta))"
  have "\<forall>k. hm_get (gd_last_seen ?gd) k \<noteq> Some u64_MAX"
    using Cons.prems(1,2) x by (auto simp: on_sample_def Let_def)
  moreover obtain c1 where "hm_get (gd_last_seen ?gd) k = Some c1" "c \<le> c1"
    using on_sample_cursor_mono[OF Cons.prems(3)] Cons.prems(2,3) by metis
  ultimately show ?case using Cons.IH[of ?gd c1] Cons.prems(1) x by (auto intro: order_trans)
qed

lemma drain_covers:
  assumes "\<forall>(meta, key, payload) \<in> set samples. em_seq meta \<noteq> u64_MAX"
    and "\<forall>k. hm_get (gd_last_seen gd) k \<noteq> Some u64_MAX"
    and "(meta, key, payload) \<in> set samples"
  shows "\<exists>c. hm_get (gd_last_seen (drain_sample_cursors now samples gd)) (em_pub_id meta, extract_partition key) = Some c
    \<and> em_seq meta \<le> c"
  using assms
proof (induction samples arbitrary: gd)
  case Nil
  then show ?case by simp
next
  case (Cons x xs)
  obtain meta1 key1 payload1 where x: "x = (meta1, key1, payload1)" by (cases x)
  let ?gd = "fst (on_sample gd now (em_pub_id meta1) (extract_partition key1) (em_seq meta1))"
  have gd: "\<forall>k. hm_get (gd_last_seen ?gd) k \<noteq> Some u64_MAX"
    using Cons.prems(1,2) x by (auto simp: on_sample_def Let_def)
  show ?case
  proof (cases "x = (meta, key, payload)")
    case True
    obtain c where c: "hm_get (gd_last_seen ?gd) (em_pub_id meta, extract_partition key) = Some c" "em_seq meta \<le> c"
      using on_sample_cursor_ge[OF Cons.prems(2)] x True by blast
    have xs: "\<forall>(meta, key, payload) \<in> set xs. em_seq meta \<noteq> u64_MAX" using Cons.prems(1) by auto
    obtain c' where "hm_get (gd_last_seen (drain_sample_cursors now xs ?gd)) (em_pub_id meta, extract_partition key) = Some c'" "c \<le> c'"
      using drain_keeps[OF xs gd c(1)] by blast
    then show ?thesis using c(2) x by (auto intro: order_trans)
  next
    case False
    then show ?thesis using Cons.IH[OF _ gd] Cons.prems(1,3) x by auto
  qed
qed

text \<open>
  Every sample waiting in the sample channel when the offload cycle starts is lost: the
  cycle delivers no event of its stream at or below its sequence number, and after the switch to the
  store and back the gap detector treats it as a duplicate.  (The comments of the drain step say that
  these events are replayed from the store during the catch-up.)
\<close>

theorem offload_loses_buffered:
  assumes "run_offload_cycle display show_id get now elapsed its samples buffered m gd = Some (res, m', gd', delivered)"
    and "\<forall>(meta, key, payload) \<in> set samples. em_seq meta \<noteq> u64_MAX"
    and "\<forall>k. hm_get (gd_last_seen gd) k \<noteq> Some u64_MAX"
    and "(meta, key, payload) \<in> set samples" and "e \<in> set delivered"
  shows "\<not> (re_publisher_id e = em_pub_id meta \<and> extract_partition (re_key_expr e) = extract_partition key
    \<and> re_seq e \<le> em_seq meta)"
proof -
  obtain c' where adv: "advances (hm_get (gd_last_seen (drain_sample_cursors now samples gd))) delivered c'"
    using cycle_advances[OF assms(1)] by blast
  obtain c where c: "hm_get (gd_last_seen (drain_sample_cursors now samples gd)) (em_pub_id meta, extract_partition key) = Some c"
    "em_seq meta \<le> c" using drain_covers[OF assms(2-4)] by blast
  have "re_seq e \<in> set (seqs_of (stream_of e) delivered)" using assms(5) by (auto simp: seqs_of_def)
  from advancesD(2)[OF adv this] c show ?thesis by (auto simp: stream_of_def beyond_def)
qed

section \<open>Progress of the cycle\<close>

definition reply_raw :: "query_reply \<Rightarrow> RawEvent option" where
  "reply_raw reply = (case reply of ReplySample key payload (Some a) \<Rightarrow>
     (case decode_metadata a of Ok m \<Rightarrow> Some \<lparr>re_id = em_event_id m, re_seq = em_seq m, re_publisher_id = em_pub_id m,
         re_key_expr = key, re_payload = payload, re_timestamp = em_timestamp m\<rparr> | Err _ \<Rightarrow> None) | _ \<Rightarrow> None)"

definition raws :: "query_reply set \<Rightarrow> RawEvent set" where
  "raws S = {e. \<exists>r \<in> S. reply_raw r = Some e}"

lemma catch_up_reply_new:
  "set (snd (catch_up_reply r st)) \<subseteq> set (snd st) \<union> set_option (reply_raw r)"
  by (cases st; cases r)
    (auto simp: catch_up_reply_def reply_raw_def Let_def split: option.splits sum.splits if_splits)

lemma catch_up_reply_raws:
  assumes "r \<in> S" and "set (snd st) \<subseteq> raws S"
  shows "set (snd (catch_up_reply r st)) \<subseteq> raws S"
  using catch_up_reply_new[of r st] assms by (auto simp: raws_def)

lemma fold_catch_up_raws:
  "set replies \<subseteq> S \<Longrightarrow> set (snd st) \<subseteq> raws S \<Longrightarrow> set (snd (fold catch_up_reply replies st)) \<subseteq> raws S"
  by (induction replies arbitrary: st) (simp_all add: catch_up_reply_raws)

lemma query_partition_raws:
  assumes "\<And>n sel replies. get n sel = Ok replies \<Longrightarrow> set replies \<subseteq> S" and "set (snd st) \<subseteq> raws S"
  shows "set (snd (query_partition show_id get p i a st)) \<subseteq> raws S"
proof -
  obtain rd out where st: "st = (rd, out)" by (cases st)
  show ?thesis
  proof (cases "get (cr_queries rd) (catch_up_selector show_id rd p i a)")
    case (Inl e)
    then show ?thesis using assms(2) by (simp add: query_partition_def st Let_def)
  next
    case (Inr replies)
    then show ?thesis
      using assms(2) fold_catch_up_raws[OF assms(1)[OF Inr], of "(rd\<lparr>cr_queries := cr_queries rd + 1\<rparr>, out)"]
      by (simp add: query_partition_def st Let_def)
  qed
qed

lemma fold_raws:
  "(\<And>x st. set (snd st) \<subseteq> R \<Longrightarrow> set (snd (q x st)) \<subseteq> R) \<Longrightarrow> set (snd st) \<subseteq> R \<Longrightarrow> set (snd (fold q xs st)) \<subseteq> R"
  by (induction xs arbitrary: st) simp_all

lemma next_batch_raws:
  fixes rd :: "'f CatchUpReader"
  assumes "\<And>n sel replies. get n sel = Ok replies \<Longrightarrow> set replies \<subseteq> S" and "next_batch show_id get rd = (rd', Ok batch)"
  shows "set batch \<subseteq> raws S"
proof -
  have "set (snd (collect_batch show_id get rd)) \<subseteq> raws S"
  proof -
    have "set (snd (fold (\<lambda>p. query_partition show_id get p None 0) (cr_partitions rd) (rd, []))) \<subseteq> raws S"
      by (rule fold_raws) (simp_all add: query_partition_raws[OF assms(1)])
    moreover have "set (snd (fold (\<lambda>((pub_id, p), after_seq). query_partition show_id get p (Some pub_id) after_seq)
        (cr_cursors rd) (rd, []))) \<subseteq> raws S"
    proof (rule fold_raws)
      fix x :: "(128 word \<times> 32 word) \<times> 64 word" and st :: "'f CatchUpReader \<times> RawEvent list"
      assume st: "set (snd st) \<subseteq> raws S"
      obtain pub_id p a where x: "x = ((pub_id, p), a)" by (metis surj_pair)
      show "set (snd ((\<lambda>((pub_id, p), after_seq). query_partition show_id get p (Some pub_id) after_seq) x st)) \<subseteq> raws S"
        unfolding x prod.case using assms(1) st by (rule query_partition_raws)
    qed simp
    ultimately show ?thesis by (simp add: collect_batch_def)
  qed
  then show ?thesis using assms(2) by (auto simp: next_batch_def split: prod.splits)
qed

lemma replay_batch_subset:
  "replay_batch now n batch gd delivered = (b, gd', delivered') \<Longrightarrow> set delivered' \<subseteq> set delivered \<union> set batch"
proof (induction batch arbitrary: gd delivered n)
  case (Cons e batch)
  let ?gd1 = "fst (on_sample gd now (re_publisher_id e) (extract_partition (re_key_expr e)) (re_seq e))"
  show ?case
  proof (cases "n = Some 0")
    case True
    then show ?thesis using Cons.prems by (auto simp: Let_def)
  next
    case False
    then have "replay_batch now (map_option (\<lambda>n. n - 1) n) batch ?gd1 (delivered @ [e]) = (b, gd', delivered')"
      using Cons.prems by (auto simp: Let_def split: option.splits nat.splits)
    from Cons.IH[OF this] show ?thesis by auto
  qed
qed simp

lemma catch_up_loop_raws:
  assumes "\<And>n sel replies. get n sel = Ok replies \<Longrightarrow> set replies \<subseteq> S"
    and "catch_up_loop show_id get resume_at its rd gd delivered = (r, rd', gd', delivered')" and "set delivered \<subseteq> raws S"
  shows "set delivered' \<subseteq> raws S"
  using assms(2,3)
proof (induction its arbitrary: rd gd delivered)
  case (Cons it its)
  obtain rd1 batch where nb: "next_batch show_id get rd = (rd1, Ok batch)" using next_batch_advances by (metis surj_pair)
  have sub: "set batch \<subseteq> raws S" by (rule next_batch_raws[OF assms(1) nb])
  obtain b gd1 delivered1 where rb: "replay_batch (it_now it) (it_dropped_after it) batch gd delivered = (b, gd1, delivered1)"
    by (metis prod_cases3)
  have "set delivered1 \<subseteq> raws S" using replay_batch_subset[OF rb] sub Cons.prems(2) by blast
  then show ?case using Cons nb rb by (auto simp: Let_def split: if_splits bool.splits)
qed simp

lemma advances_distinct:
  assumes "advances c es c'"
  shows "distinct es"
proof -
  have "distinct (seqs_of k es)" for k using advancesD(1)[OF assms, of k] by (simp add: strict_sorted_iff)
  then show ?thesis
  proof (induction es)
    case (Cons e es)
    have "distinct (seqs_of k es)" for k using Cons.prems[of k] by (simp split: if_splits)
    moreover have "e \<notin> set es" using Cons.prems[of "stream_of e"] by (auto simp: seqs_of_def)
    ultimately show ?case using Cons.IH by simp
  qed simp
qed

lemma cycle_ends:
  assumes "finite S" and "\<forall>n sel replies. get n sel = Ok replies \<longrightarrow> set replies \<subseteq> S"
    and "\<forall>it \<in> set its. it_channel_len it \<le> ld_channel_capacity (om_lag m) div 4 \<and> it_dropped_after it = None"
    and "card S < length its"
  shows "\<exists>m' gd' delivered. run_offload_cycle display show_id get now elapsed its samples buffered m gd = Some (Ok (), m', gd', delivered)
    \<and> om_state m' = Live \<and> last (om_forwarder m') = Resume"
proof -
  let ?gd1 = "drain_sample_cursors now samples gd" and ?at = "ld_channel_capacity (om_lag m) div 4"
  define rd where "rd = reader_new (om_store_key_prefix m) (snapshot_cursors ?gd1) (om_config m) (om_partitions m)"
  have cur: "hm_get (cr_cursors rd) = hm_get (gd_last_seen ?gd1)"
    by (simp add: rd_def reader_new_def snapshot_cursors_def)
  obtain r rd' gd2 delivered where loop: "catch_up_loop show_id get ?at its rd ?gd1 [] = (r, rd', gd2, delivered)"
    by (metis prod_cases4)
  obtain c' where adv: "advances (hm_get (gd_last_seen ?gd1)) delivered c'" and ok: "\<exists>x. r = Ok x"
    and still: "r = Ok StillCatchingUp \<longrightarrow> length its \<le> length delivered" and nd: "r \<noteq> Ok ReceiverDropped"
    using catch_up_loop_advances[OF loop cur] assms(3) by auto
  have sub: "set delivered \<subseteq> raws S" by (rule catch_up_loop_raws[OF _ loop]) (use assms(2) in auto)
  have "raws S \<subseteq> the ` reply_raw ` S" by (force simp: raws_def)
  then have "card (set delivered) \<le> card (the ` reply_raw ` S)" using sub assms(1) by (intro card_mono) auto
  also have "\<dots> \<le> card (reply_raw ` S)" using assms(1) by (intro card_image_le) simp
  also have "\<dots> \<le> card S" using assms(1) by (intro card_image_le)
  finally have "length delivered \<le> card S" using distinct_card[OF advances_distinct[OF adv]] by simp
  then have "r \<noteq> Ok StillCatchingUp" using still assms(4) by auto
  then have "r = Ok CycleDone" using ok nd by (metis cycle_end.exhaust)
  then show ?thesis
    using loop unfolding run_offload_cycle_def run_offload_cycle_inner_def Let_def rd_def
    by (simp add: control_def emit_def)
qed

text \<open>
  C18. The offload cycle ends: when the samples the store can answer with are finitely many, the
  consumer keeps the event channel below the resume mark and stays connected, then after more
  iterations than there are samples the cycle has returned successfully, the consumer is live again
  and the last command to the forwarders was to resume.
\<close>

theorem offload_cycle_ends:
  assumes "finite S" and "\<forall>n sel replies. get n sel = Ok replies \<longrightarrow> set replies \<subseteq> S"
    and "\<forall>it \<in> set its. it_channel_len it \<le> ld_channel_capacity (om_lag m) div 4 \<and> it_dropped_after it = None"
    and "card S < length its"
  shows "\<exists>m' gd' delivered. run_offload_cycle display show_id get now elapsed its samples buffered m gd = Some (Ok (), m', gd', delivered)
    \<and> om_state m' = Live \<and> last (om_forwarder m') = Resume"
  using assms by (rule cycle_ends)

lemma cycle_raws:
  assumes "run_offload_cycle display show_id get now elapsed its samples buffered m gd = Some (res, m', gd', delivered)"
    and "\<forall>n sel replies. get n sel = Ok replies \<longrightarrow> set replies \<subseteq> S"
  shows "set delivered \<subseteq> raws S"
  using cycle_loop[OF assms(1)] catch_up_loop_raws[of get S] assms(2) by fastforce

subsection \<open>A concrete cycle\<close>

definition demo_manager :: "nat OffloadManager" where
  "demo_manager = offload_new (offload_config_default 1) ''t/_store'' [] 8"

definition demo_its :: "iteration list" where
  "demo_its = replicate 4 \<lparr>it_now = 0, it_duration = 0, it_channel_len = 0, it_dropped_after = None\<rparr>"

definition demo_store_get :: session_get where
  "demo_store_get n sel = Ok [demo_reply 3, demo_reply 4, demo_reply 3]"

definition demo_gd :: GapDetector where
  "demo_gd = with_checkpoints [((7, 0), 1)]"

definition demo_buffered :: "DecodedSample list" where
  "demo_buffered = [(\<lparr>em_seq = 2, em_pub_id = 7, em_event_id = 9, em_timestamp = 0, em_urgency_ms = 0,
     em_hlc_physical_ns = None, em_hlc_logical = None\<rparr>, ''t/p/0/2'', [1])]"

abbreviation demo_cycle where
  "demo_cycle \<equiv> run_offload_cycle (\<lambda>_. ''e'') (\<lambda>_. ''x'') demo_store_get 0 0 demo_its demo_buffered 1 demo_manager demo_gd"

lemma demo_cycle_hyps:
  "finite {demo_reply 3, demo_reply 4}"
  "\<forall>n sel replies. demo_store_get n sel = Ok replies \<longrightarrow> set replies \<subseteq> {demo_reply 3, demo_reply 4}"
  "\<forall>it \<in> set demo_its. it_channel_len it \<le> ld_channel_capacity (om_lag demo_manager) div 4 \<and> it_dropped_after it = None"
  "card {demo_reply 3, demo_reply 4} < length demo_its"
  using card_insert_le_m1[of 2 "{demo_reply 4}" "demo_reply 3"]
  by (auto simp: demo_store_get_def demo_its_def)

theorem offload_cycle_ends_witness:
  "\<exists>m' gd' delivered. demo_cycle = Some (Ok (), m', gd', delivered) \<and> om_state m' = Live \<and> last (om_forwarder m') = Resume"
  by (rule offload_cycle_ends[OF demo_cycle_hyps])

lemma demo_cycle_seqs:
  "demo_cycle = Some (r, m', gd', delivered) \<Longrightarrow> e \<in> set delivered \<Longrightarrow> re_seq e \<noteq> u64_MAX"
  using cycle_raws[OF _ demo_cycle_hyps(2)] by (fastforce simp: raws_def reply_raw_def demo_reply_def)

theorem offload_replays_once_witness:
  "\<exists>m' gd' delivered. demo_cycle = Some (Ok (), m', gd', delivered) \<and> sorted_wrt (<) (seqs_of (7, 0) delivered)
     \<and> (\<forall>e \<in> set delivered. snd (on_sample gd' 0 (re_publisher_id e) (extract_partition (re_key_expr e)) (re_seq e)) = Duplicate)"
proof -
  obtain m' gd' delivered where run: "demo_cycle = Some (Ok (), m', gd', delivered)" "om_state m' = Live"
    using cycle_ends[OF demo_cycle_hyps] by blast
  then show ?thesis
    using offload_replays_once[OF run(1), of "(7, 0)" 0] demo_cycle_seqs[OF run(1)] by blast
qed

theorem offload_loses_buffered_witness:
  "\<exists>m' gd' delivered. demo_cycle = Some (Ok (), m', gd', delivered)
     \<and> (\<forall>e \<in> set delivered. \<not> (re_publisher_id e = 7 \<and> extract_partition (re_key_expr e) = extract_partition ''t/p/0/2'' \<and> re_seq e \<le> 2))"
proof -
  obtain m' gd' delivered where run: "demo_cycle = Some (Ok (), m', gd', delivered)"
    using cycle_ends[OF demo_cycle_hyps] by blast
  have b: "\<forall>(meta, key, payload) \<in> set demo_buffered. em_seq meta \<noteq> u64_MAX"
    and g: "\<forall>k. hm_get (gd_last_seen demo_gd) k \<noteq> Some u64_MAX"
    by (auto simp: demo_buffered_def demo_gd_def with_checkpoints_def)
  obtain meta where m: "(meta, ''t/p/0/2'', [1]) \<in> set demo_buffered" "em_pub_id meta = 7" "em_seq meta = 2"
    by (auto simp: demo_buffered_def)
  show ?thesis using run offload_loses_buffered[OF run b g m(1)] m(2,3) by auto
qed

section \<open>Debounce and batch size\<close>

text \<open>A run of lag checks, each with its time and the channel length seen.\<close>

fun lag_run :: "(nat \<Rightarrow> nat \<Rightarrow> 'f::{zero,linorder}) \<Rightarrow> 'f LagDetector \<Rightarrow> (Instant \<times> nat) list \<Rightarrow> bool list \<times> 'f LagDetector" where
  "lag_run quot ld [] = ([], ld)"
| "lag_run quot ld ((now, len) # checks) =
     (let (b, ld1) = is_lagging quot now (update_channel_len len ld); (bs, ld2) = lag_run quot ld1 checks in (b # bs, ld2))"

lemma lag_run_append:
  "lag_run quot ld (xs @ ys) = (let (bs, ld1) = lag_run quot ld xs; (cs, ld2) = lag_run quot ld1 ys in (bs @ cs, ld2))"
  by (induction xs arbitrary: ld) (auto simp: Let_def split: prod.splits)

definition lag_over :: "(nat \<Rightarrow> nat \<Rightarrow> 'f::{zero,linorder}) \<Rightarrow> 'f LagDetector \<Rightarrow> nat \<Rightarrow> bool" where
  "lag_over quot ld len = over_threshold quot (update_channel_len len ld)"

lemma over_threshold_cong:
  "ld_channel_len a = ld_channel_len b \<Longrightarrow> ld_channel_capacity a = ld_channel_capacity b \<Longrightarrow>
   ld_heartbeat_lag a = ld_heartbeat_lag b \<Longrightarrow> ld_config a = ld_config b \<Longrightarrow> over_threshold quot a = over_threshold quot b"
  by (simp add: over_threshold_def channel_fullness_def max_seq_lag_def)

lemma is_lagging_frame:
  assumes "is_lagging quot now (update_channel_len len ld) = (b, ld1)"
  shows "ld_channel_capacity ld1 = ld_channel_capacity ld" "ld_heartbeat_lag ld1 = ld_heartbeat_lag ld" "ld_config ld1 = ld_config ld"
  using assms by (auto simp: is_lagging_def update_channel_len_def split: if_splits bool.splits option.splits)

lemma lag_run_frame:
  "lag_run quot ld checks = (bs, ld') \<Longrightarrow>
     ld_channel_capacity ld' = ld_channel_capacity ld \<and> ld_heartbeat_lag ld' = ld_heartbeat_lag ld \<and> ld_config ld' = ld_config ld"
proof (induction checks arbitrary: ld bs)
  case (Cons c checks)
  obtain now len where c: "c = (now, len)" by (cases c)
  obtain b ld1 where s: "is_lagging quot now (update_channel_len len ld) = (b, ld1)" by (cases "is_lagging quot now (update_channel_len len ld)")
  obtain bs2 where r: "lag_run quot ld1 checks = (bs2, ld')" using Cons.prems s c by (auto simp: Let_def split: prod.splits)
  show ?case using Cons.IH[OF r] is_lagging_frame[OF s] by simp
qed simp

lemma sustained_inv:
  assumes "lag_run quot ld checks = (bs, ld')" and "ld_sustained_since ld' = Some t"
    and "ld_sustained_since ld = None" and "of_enabled (ld_config ld)"
  shows "\<exists>pre len post. checks = pre @ (t, len) # post \<and> (\<forall>(_, l) \<in> set ((t, len) # post). lag_over quot ld l)"
  using assms(1,2)
proof (induction checks arbitrary: bs ld' rule: rev_induct)
  case Nil
  then show ?case using assms(3) by simp
next
  case (snoc c checks)
  obtain now len where c: "c = (now, len)" by (cases c)
  obtain bs1 ld1 where r1: "lag_run quot ld checks = (bs1, ld1)" by (cases "lag_run quot ld checks")
  obtain b where s: "is_lagging quot now (update_channel_len len ld1) = (b, ld')"
    using snoc.prems(1) r1 c by (auto simp: lag_run_append Let_def split: prod.splits)
  have over: "over_threshold quot (update_channel_len len ld1) = lag_over quot ld len"
    unfolding lag_over_def using lag_run_frame[OF r1] by (intro over_threshold_cong) (simp_all add: update_channel_len_def)
  have en: "of_enabled (ld_config (update_channel_len len ld1))"
    using assms(4) lag_run_frame[OF r1] by (simp add: update_channel_len_def)
  show ?case
  proof (cases "lag_over quot ld len")
    case False
    then show ?thesis using s snoc.prems(2) en over by (auto simp: is_lagging_def)
  next
    case True
    show ?thesis
    proof (cases "ld_sustained_since ld1")
      case None
      then have "t = now" using s snoc.prems(2) en over True by (auto simp: is_lagging_def update_channel_len_def)
      then show ?thesis using True c by (intro exI[of _ checks] exI[of _ len] exI[of _ "[]"]) simp
    next
      case (Some t1)
      then have "t1 = t" using s snoc.prems(2) en over True by (auto simp: is_lagging_def update_channel_len_def)
      then obtain pre l post where "checks = pre @ (t, l) # post" "\<forall>(_, l) \<in> set ((t, l) # post). lag_over quot ld l"
        using snoc.IH[OF r1] Some by blast
      then show ?thesis using True c by (intro exI[of _ pre] exI[of _ l] exI[of _ "post @ [(now, len)]"]) simp
    qed
  qed
qed

text \<open>
  The lag detector is debounced: when a check reports lag, some earlier check lies more than
  the debounce window back and that check and all checks since then, the reporting one included,
  were over the threshold.
\<close>

theorem lag_is_sustained:
  assumes "lag_run quot ld (checks @ [(now, len)]) = (bs, ld')" and "last bs"
    and "ld_sustained_since ld = None" and "of_enabled (ld_config ld)"
  shows "\<exists>pre t l post. checks = pre @ (t, l) # post \<and> now - t > of_debounce_window (ld_config ld)
    \<and> (\<forall>(_, l) \<in> set ((t, l) # post @ [(now, len)]). lag_over quot ld l)"
proof -
  obtain bs1 ld1 where r1: "lag_run quot ld checks = (bs1, ld1)" by (cases "lag_run quot ld checks")
  obtain b where s: "is_lagging quot now (update_channel_len len ld1) = (b, ld')" and b
    using assms(1,2) r1 by (auto simp: lag_run_append Let_def split: prod.splits)
  note fr = lag_run_frame[OF r1]
  have over: "over_threshold quot (update_channel_len len ld1) = lag_over quot ld len"
    unfolding lag_over_def using fr by (intro over_threshold_cong) (simp_all add: update_channel_len_def)
  have en: "of_enabled (ld_config (update_channel_len len ld1))" using assms(4) fr by (simp add: update_channel_len_def)
  obtain t where t: "ld_sustained_since ld1 = Some t" "lag_over quot ld len" "now - t > of_debounce_window (ld_config ld)"
    using s \<open>b\<close> en over fr by (auto simp: is_lagging_def update_channel_len_def split: bool.splits option.splits)
  obtain pre l post where p: "checks = pre @ (t, l) # post" "\<forall>(_, l) \<in> set ((t, l) # post). lag_over quot ld l"
    using sustained_inv[OF r1 t(1) assms(3,4)] by blast
  show ?thesis using p t by (intro exI[of _ pre] exI[of _ t] exI[of _ l] exI[of _ post]) auto
qed

definition demo_lag :: "nat LagDetector" where
  "demo_lag = lag_new 10 ((offload_config_default 5)\<lparr>of_debounce_window := 2\<rparr>)"

theorem lag_is_sustained_witness:
  "\<exists>pre t l post. [(1, 3), (2, 8), (4, 9)] = pre @ (t, l) # post \<and> 5 - t > (2::nat)
    \<and> (\<forall>(_, l) \<in> set ((t, l) # post @ [(5, 9)]). lag_over (\<lambda>a b. a * 10 div b) demo_lag l)"
proof -
  obtain bs ld' where r: "lag_run (\<lambda>a b. a * 10 div b) demo_lag ([(1, 3), (2, 8), (4, 9)] @ [(5, 9)]) = (bs, ld')" and "last bs"
    by (simp add: demo_lag_def lag_new_def is_lagging_def update_channel_len_def over_threshold_def channel_fullness_def
        max_seq_lag_def offload_config_default_def)
  then show ?thesis using lag_is_sustained[OF r] by (simp add: demo_lag_def lag_new_def offload_config_default_def)
qed

text \<open>
  The adaptive batch size stays between its bounds once it is there.  With the default
  configuration it starts below them: the first slow query then raises it instead of halving it.
\<close>

lemma batch_size_bounds:
  assumes "of_min_batch_size c \<le> n" and "n \<le> of_max_batch_size c"
  shows "of_min_batch_size c \<le> adjust_batch_size_adaptive n d c \<and> adjust_batch_size_adaptive n d c \<le> of_max_batch_size c"
  using assms by (auto simp: adjust_batch_size_adaptive_def min_def max_def)

theorem default_batch_grows_when_slow:
  "adjust_batch_size_adaptive (of_catch_up_batch_size (offload_config_default x)) 300000000 (offload_config_default x) = 1000"
  by (simp add: adjust_batch_size_adaptive_def offload_config_default_def)

end
