(* ===== verification/Forwarder.thy ===== *)
theory Forwarder
  imports Offload Publisher
begin

text \<open>
  The forwarder tasks of a subscriber (\<^verbatim>\<open>mitiflow/src/subscriber/forwarder.rs\<close>): decoding
  of data samples and heartbeats, and the task that owns one Zenoh subscription, drops it while the
  offload is active and declares it again afterwards.  The task is a step function on the inputs its
  two \<^verbatim>\<open>select!\<close> loops wait for; the state it reads is a watch channel (current value and
  an unseen-change flag), written by the offload manager.
\<close>

section \<open>Decoding\<close>

record zenoh_sample =
  zs_kind :: SampleKind
  zs_key_expr :: string
  zs_payload :: bytes
  zs_attachment :: "bytes option"

definition decode_sample :: "zenoh_sample \<Rightarrow> DecodedSample option" where
  "decode_sample s =
     (if zs_kind s \<noteq> Put then None
      else if str_contains ''/_'' (zs_key_expr s) then None
      else case zs_attachment s of
          None \<Rightarrow> None
        | Some attachment \<Rightarrow>
            (case decode_metadata attachment of
               Err _ \<Rightarrow> None
             | Ok meta \<Rightarrow> Some (meta, zs_key_expr s, zs_payload s)))"

definition decode_heartbeat :: "(bytes \<Rightarrow> HeartbeatBeacon result) \<Rightarrow> zenoh_sample \<Rightarrow> HeartbeatBeacon option" where
  "decode_heartbeat from_slice s = (case from_slice (zs_payload s) of Ok b \<Rightarrow> Some b | Err _ \<Rightarrow> None)"

section \<open>The forwarder task\<close>

datatype ForwarderState = Active | Paused

datatype fw_task = FwReceiving | FwWaiting | FwStopped

datatype fw_input = FwCancelled | FwChanged | FwSenderDropped | FwSample zenoh_sample | FwSubClosed

text \<open>The check at the top of the loop; a paused task drops its subscription and waits.\<close>

definition fw_top :: "ForwarderState \<Rightarrow> fw_task" where
  "fw_top state = (if state = Paused then FwWaiting else FwReceiving)"

definition fw_start :: "bool \<Rightarrow> ForwarderState \<Rightarrow> fw_task" where
  "fw_start declared state = (if declared then fw_top state else FwStopped)"

text \<open>
  One turn of a loop: \<^verbatim>\<open>state\<close> is the value borrowed from the watch channel during the
  turn, \<^verbatim>\<open>declared\<close> the outcome of declaring the subscription again.  A task that waits
  owns no subscription and receives no sample.
\<close>

fun fw_step :: "ForwarderState \<Rightarrow> bool \<Rightarrow> fw_input \<Rightarrow> fw_task \<Rightarrow> fw_task \<times> DecodedSample list" where
  "fw_step state declared inp FwStopped = (FwStopped, [])"
| "fw_step state declared FwCancelled FwWaiting = (FwStopped, [])"
| "fw_step state declared FwSenderDropped FwWaiting = (FwStopped, [])"
| "fw_step state declared FwChanged FwWaiting =
     (if state = Active then (if declared then FwReceiving else FwStopped) else FwWaiting, [])"
| "fw_step state declared (FwSample s) FwWaiting = (FwWaiting, [])"
| "fw_step state declared FwSubClosed FwWaiting = (FwWaiting, [])"
| "fw_step state declared FwCancelled FwReceiving = (FwStopped, [])"
| "fw_step state declared FwSenderDropped FwReceiving = (FwStopped, [])"
| "fw_step state declared FwChanged FwReceiving = (fw_top state, [])"
| "fw_step state declared (FwSample s) FwReceiving =
     (fw_top state, case decode_sample s of Some decoded \<Rightarrow> [decoded] | None \<Rightarrow> [])"
| "fw_step state declared FwSubClosed FwReceiving = (FwStopped, [])"

text \<open>
  The task beside its control handle: \<^verbatim>\<open>pause\<close> and \<^verbatim>\<open>resume\<close> write the watch
  channel, which marks it changed; the task sees a change at most once, and only the latest value.
\<close>

record forwarder =
  fw_state :: ForwarderState
  fw_changed :: bool
  fw_task :: fw_task
  fw_sent :: "DecodedSample list"

definition forwarder_new :: "bool \<Rightarrow> forwarder" where
  "forwarder_new declared = \<lparr>fw_state = Active, fw_changed = False, fw_task = fw_start declared Active, fw_sent = []\<rparr>"

definition fw_pause :: "forwarder \<Rightarrow> forwarder" where
  "fw_pause f = f\<lparr>fw_state := Paused, fw_changed := True\<rparr>"

definition fw_resume :: "forwarder \<Rightarrow> forwarder" where
  "fw_resume f = f\<lparr>fw_state := Active, fw_changed := True\<rparr>"

definition fw_turn :: "bool \<Rightarrow> fw_input \<Rightarrow> forwarder \<Rightarrow> forwarder" where
  "fw_turn declared inp f =
     (let (t, out) = fw_step (fw_state f) declared inp (fw_task f) in
      f\<lparr>fw_task := t, fw_sent := fw_sent f @ out, fw_changed := (if inp = FwChanged then False else fw_changed f)\<rparr>)"

inductive fw_reach :: "forwarder \<Rightarrow> bool" where
  fw_init: "fw_reach (forwarder_new declared)"
| fw_paused: "fw_reach f \<Longrightarrow> fw_reach (fw_pause f)"
| fw_resumed: "fw_reach f \<Longrightarrow> fw_reach (fw_resume f)"
| fw_turned: "fw_reach f \<Longrightarrow> inp = FwChanged \<longrightarrow> fw_changed f \<Longrightarrow> fw_reach (fw_turn declared inp f)"

section \<open>No lost resume\<close>

text \<open>
  A task that disagrees with the watch channel always has an unseen change to react to.
\<close>

definition fw_inv :: "forwarder \<Rightarrow> bool" where
  "fw_inv f \<longleftrightarrow> (fw_task f = FwWaiting \<and> fw_state f = Active \<longrightarrow> fw_changed f)
     \<and> (fw_task f = FwReceiving \<and> fw_state f = Paused \<longrightarrow> fw_changed f)"

lemma fw_reach_inv: "fw_reach f \<Longrightarrow> fw_inv f"
proof (induction rule: fw_reach.induct)
  case (fw_turned f inp declared)
  then show ?case
    by (cases "fw_task f"; cases inp; cases "fw_state f")
      (auto simp: fw_inv_def fw_turn_def fw_top_def)
qed (auto simp: fw_inv_def forwarder_new_def fw_start_def fw_top_def fw_pause_def fw_resume_def)

lemma fw_turn_waiting:
  "fw_task f = FwWaiting \<Longrightarrow> fw_sent (fw_turn declared inp f) = fw_sent f"
  by (cases inp) (simp_all add: fw_turn_def)

text \<open>
  A forwarder is never stuck and never lags behind its control: in every reachable state where
  the last command was to resume, a task that has not stopped is receiving, or an unseen change is
  pending and reacting to it (with a successful declaration) makes it receive; where the last
  command was to pause, reacting to the pending change drops the subscription; and while it waits no
  input makes it forward a sample.
\<close>

theorem forwarder_follows_control:
  assumes "fw_reach f" and "fw_task f \<noteq> FwStopped"
  shows "(fw_state f = Active \<longrightarrow> fw_task f = FwReceiving \<or> fw_changed f \<and> fw_task (fw_turn True FwChanged f) = FwReceiving)
    \<and> (fw_state f = Paused \<longrightarrow> fw_task f = FwWaiting \<or> fw_changed f \<and> fw_task (fw_turn d FwChanged f) = FwWaiting)
    \<and> (fw_task f = FwWaiting \<longrightarrow> fw_sent (fw_turn d inp f) = fw_sent f)"
  using fw_reach_inv[OF assms(1)] assms(2) fw_turn_waiting[of f d inp]
  by (cases "fw_task f"; cases "fw_state f") (auto simp: fw_inv_def fw_turn_def fw_top_def)

theorem forwarder_follows_control_witness:
  "fw_task (fw_turn True FwChanged (fw_resume (fw_turn False FwChanged (fw_pause (forwarder_new True))))) = FwReceiving"
proof -
  let ?f = "fw_resume (fw_turn False FwChanged (fw_pause (forwarder_new True)))"
  have "fw_reach ?f"
    by (intro fw_reach.intros) (simp add: fw_pause_def)
  moreover have "fw_task ?f = FwWaiting" "fw_state ?f = Active"
    by (simp_all add: fw_resume_def fw_pause_def fw_turn_def forwarder_new_def fw_start_def fw_top_def)
  ultimately show ?thesis using forwarder_follows_control[of ?f] by simp
qed

end
