(* ===== verification/Runner.thy ===== *)
theory Runner
  imports Forwarder Backend_Gc Backend_Offsets
begin

text \<open>
  The event store runner (\<^verbatim>\<open>mitiflow/src/store/runner.rs\<close>): the backend worker with its
  message protocol, the subscribe task that turns samples into store batches, the queryable that
  answers replay and recovery queries, the watermark task with its urgency deadline, garbage
  collection, and the offset tasks.  The storage backend is a record of operations (the trait
  object), instantiated by the fjall backend.  A worker processes the messages of a queue; what it
  answers is the list of replies.  The clock, the JSON codecs of offset commits, the chrono and uuid
  parsers are arguments.
\<close>

section \<open>Messages\<close>

record 'b StorageBackend =
  bo_partition :: "'b \<Rightarrow> u32"
  bo_store_batch :: "(string \<times> bytes \<times> EventMetadata) list \<Rightarrow> 'b \<Rightarrow> 'b \<times> unit result"
  bo_query :: "QueryFilters \<Rightarrow> 'b \<Rightarrow> StoredEvent list result"
  bo_query_replay :: "ReplayFilters \<Rightarrow> 'b \<Rightarrow> StoredEvent list result"
  bo_publisher_watermarks :: "'b \<Rightarrow> (PublisherId, PublisherWatermark) hmap"
  bo_gc :: "DateTime \<Rightarrow> 'b \<Rightarrow> 'b \<times> nat result"
  bo_compact :: "'b \<Rightarrow> 'b \<times> CompactionStats result"
  bo_commit_offsets :: "OffsetCommit \<Rightarrow> 'b \<Rightarrow> 'b \<times> unit result"
  bo_fetch_offsets :: "string \<Rightarrow> 'b \<Rightarrow> (PublisherId, u64) hmap result"
  bo_commit_keyed_offset :: "KeyedOffsetCommit \<Rightarrow> 'b \<Rightarrow> 'b \<times> unit result"
  bo_fetch_keyed_offset :: "string \<Rightarrow> u64 \<Rightarrow> 'b \<Rightarrow> HlcTimestamp option result"

definition fjall_backend :: "'d fjall_ops \<Rightarrow> json_codec \<Rightarrow> 'd FjallBackend StorageBackend" where
  "fjall_backend ops js = \<lparr>bo_partition = fb_partition, bo_store_batch = store_batch ops js, bo_query = query ops js,
     bo_query_replay = query_replay ops js, bo_publisher_watermarks = publisher_watermarks, bo_gc = gc ops js,
     bo_compact = compact ops js, bo_commit_offsets = commit_offsets ops, bo_fetch_offsets = fetch_offsets ops,
     bo_commit_keyed_offset = commit_keyed_offset ops, bo_fetch_keyed_offset = fetch_keyed_offset ops\<rparr>"

record StoreRequest =
  sr_key :: string
  sr_payload :: bytes
  sr_metadata :: EventMetadata

datatype BackendRequest =
    RqQuery QueryFilters | RqQueryReplay ReplayFilters | RqPublisherWatermarks | RqGc DateTime | RqCompact
  | RqCommitOffsets OffsetCommit | RqFetchOffsets string | RqCommitKeyedOffset KeyedOffsetCommit
  | RqFetchKeyedOffset string u64

datatype BackendReply =
    RpEvents "StoredEvent list result" | RpWatermarks "(PublisherId, PublisherWatermark) hmap" | RpRemoved "nat result"
  | RpStats "CompactionStats result" | RpCommitted "unit result" | RpOffsets "(PublisherId, u64) hmap result"
  | RpHlc "HlcTimestamp option result"

datatype BackendMsg = MsgStoreBatch "StoreRequest list" | MsgRequest BackendRequest | MsgShutdown

section \<open>The backend worker\<close>

definition flush_batch :: "'b StorageBackend \<Rightarrow> StoreRequest list \<Rightarrow> 'b \<Rightarrow> 'b" where
  "flush_batch bo batch b =
     (if batch = [] then b
      else fst (bo_store_batch bo (map (\<lambda>r. (sr_key r, sr_payload r, sr_metadata r)) batch) b))"

fun dispatch_request :: "'b StorageBackend \<Rightarrow> BackendRequest \<Rightarrow> 'b \<Rightarrow> 'b \<times> BackendReply" where
  "dispatch_request bo (RqQuery filters) b = (b, RpEvents (bo_query bo filters b))"
| "dispatch_request bo (RqQueryReplay filters) b = (b, RpEvents (bo_query_replay bo filters b))"
| "dispatch_request bo RqPublisherWatermarks b = (b, RpWatermarks (bo_publisher_watermarks bo b))"
| "dispatch_request bo (RqGc older_than) b = (let (b', r) = bo_gc bo older_than b in (b', RpRemoved r))"
| "dispatch_request bo RqCompact b = (let (b', r) = bo_compact bo b in (b', RpStats r))"
| "dispatch_request bo (RqCommitOffsets commit) b = (let (b', r) = bo_commit_offsets bo commit b in (b', RpCommitted r))"
| "dispatch_request bo (RqFetchOffsets group_id) b = (b, RpOffsets (bo_fetch_offsets bo group_id b))"
| "dispatch_request bo (RqCommitKeyedOffset commit) b =
     (let (b', r) = bo_commit_keyed_offset bo commit b in (b', RpCommitted r))"
| "dispatch_request bo (RqFetchKeyedOffset group_id h) b = (b, RpHlc (bo_fetch_keyed_offset bo group_id h b))"

text \<open>
  \<^verbatim>\<open>drain_and_flush\<close> takes messages while the channel has some: the messages left behind,
  the backend and the replies sent.
\<close>

fun drain_and_flush ::
  "'b StorageBackend \<Rightarrow> BackendMsg list \<Rightarrow> StoreRequest list \<Rightarrow> 'b \<Rightarrow> BackendMsg list \<times> 'b \<times> BackendReply list"
where
  "drain_and_flush bo [] batch b = ([], flush_batch bo batch b, [])"
| "drain_and_flush bo (MsgStoreBatch reqs # rx) batch b = drain_and_flush bo rx (batch @ reqs) b"
| "drain_and_flush bo (MsgShutdown # rx) batch b = (rx, flush_batch bo batch b, [])"
| "drain_and_flush bo (MsgRequest request # rx) batch b =
     (let (b1, reply) = dispatch_request bo request (flush_batch bo batch b);
          (rx', b2, replies) = drain_and_flush bo rx [] b1
      in (rx', b2, reply # replies))"

lemma drain_shorter: "length (fst (drain_and_flush bo rx batch b)) \<le> length rx"
proof (induction rx arbitrary: batch b)
  case (Cons m rx)
  show ?case
  proof (cases m)
    case (MsgRequest r)
    then show ?thesis
      using Cons.IH[of "[]" "fst (dispatch_request bo r (flush_batch bo batch b))"] by (simp add: split_beta Let_def)
  qed (use Cons.IH in \<open>simp_all add: le_SucI\<close>)
qed simp

text \<open>
  One worker on the messages of its channel: it stops on a shutdown message, otherwise it ends up
  waiting for more (\<^const>\<open>False\<close>).
\<close>

function run_backend_worker ::
  "'b StorageBackend \<Rightarrow> BackendMsg list \<Rightarrow> 'b \<Rightarrow> bool \<times> BackendMsg list \<times> 'b \<times> BackendReply list"
where
  "run_backend_worker bo [] b = (False, [], b, [])"
| "run_backend_worker bo (MsgShutdown # rx) b = (True, rx, b, [])"
| "run_backend_worker bo (MsgStoreBatch reqs # rx) b =
     (let (rx1, b1, replies1) = drain_and_flush bo rx reqs b;
          (stopped, rx2, b2, replies2) = run_backend_worker bo rx1 b1
      in (stopped, rx2, b2, replies1 @ replies2))"
| "run_backend_worker bo (MsgRequest request # rx) b =
     (let (b1, reply) = dispatch_request bo request b;
          (stopped, rx2, b2, replies) = run_backend_worker bo rx b1
      in (stopped, rx2, b2, reply # replies))"
  by pat_completeness auto
termination
  by (relation "measure (\<lambda>(bo, rx, b). length rx)") (auto, metis drain_shorter fst_conv le_imp_less_Suc)

section \<open>The handle\<close>

text \<open>Requests through the handle; \<^verbatim>\<open>alive\<close> says whether workers still receive.\<close>

definition ask :: "bool \<Rightarrow> 'a result \<Rightarrow> 'a result" where
  "ask alive r = (if alive then r else Err (StoreError ''backend workers shut down''))"

definition ask_mut :: "bool \<Rightarrow> 'b \<Rightarrow> 'b \<times> 'a result \<Rightarrow> 'b \<times> 'a result" where
  "ask_mut alive b r = (if alive then r else (b, Err (StoreError ''backend workers shut down'')))"

definition send_batch :: "bool \<Rightarrow> StoreRequest list \<Rightarrow> BackendMsg list \<Rightarrow> unit result \<times> BackendMsg list" where
  "send_batch alive batch tx =
     (if batch = [] then (Ok (), tx)
      else if alive then (Ok (), tx @ [MsgStoreBatch batch])
      else (Err (StoreError ''backend workers shut down''), tx))"

definition handle_query :: "'b StorageBackend \<Rightarrow> bool \<Rightarrow> QueryFilters \<Rightarrow> 'b \<Rightarrow> StoredEvent list result" where
  "handle_query bo alive filters b = ask alive (bo_query bo filters b)"

definition handle_query_replay :: "'b StorageBackend \<Rightarrow> bool \<Rightarrow> ReplayFilters \<Rightarrow> 'b \<Rightarrow> StoredEvent list result" where
  "handle_query_replay bo alive filters b = ask alive (bo_query_replay bo filters b)"

definition handle_publisher_watermarks :: "'b StorageBackend \<Rightarrow> bool \<Rightarrow> 'b \<Rightarrow> (PublisherId, PublisherWatermark) hmap result" where
  "handle_publisher_watermarks bo alive b = ask alive (Ok (bo_publisher_watermarks bo b))"

definition handle_gc :: "'b StorageBackend \<Rightarrow> bool \<Rightarrow> DateTime \<Rightarrow> 'b \<Rightarrow> 'b \<times> nat result" where
  "handle_gc bo alive older_than b = ask_mut alive b (bo_gc bo older_than b)"

definition handle_compact :: "'b StorageBackend \<Rightarrow> bool \<Rightarrow> 'b \<Rightarrow> 'b \<times> CompactionStats result" where
  "handle_compact bo alive b = ask_mut alive b (bo_compact bo b)"

definition handle_commit_offsets :: "'b StorageBackend \<Rightarrow> bool \<Rightarrow> OffsetCommit \<Rightarrow> 'b \<Rightarrow> 'b \<times> unit result" where
  "handle_commit_offsets bo alive commit b = ask_mut alive b (bo_commit_offsets bo commit b)"

definition handle_fetch_offsets :: "'b StorageBackend \<Rightarrow> bool \<Rightarrow> string \<Rightarrow> 'b \<Rightarrow> (PublisherId, u64) hmap result" where
  "handle_fetch_offsets bo alive group_id b = ask alive (bo_fetch_offsets bo group_id b)"

definition handle_commit_keyed_offset :: "'b StorageBackend \<Rightarrow> bool \<Rightarrow> KeyedOffsetCommit \<Rightarrow> 'b \<Rightarrow> 'b \<times> unit result" where
  "handle_commit_keyed_offset bo alive commit b = ask_mut alive b (bo_commit_keyed_offset bo commit b)"

definition handle_fetch_keyed_offset :: "'b StorageBackend \<Rightarrow> bool \<Rightarrow> string \<Rightarrow> u64 \<Rightarrow> 'b \<Rightarrow> HlcTimestamp option result" where
  "handle_fetch_keyed_offset bo alive group_id h b = ask alive (bo_fetch_keyed_offset bo group_id h b)"

section \<open>The tasks\<close>

record StoreSample =
  ds_request :: StoreRequest
  ds_urgency_ms :: u16
  ds_timestamp_nanos :: int

text \<open>
  Decoding of a sample for the store; the first argument is the Zenoh timestamp of the sample in
  nanoseconds, when it has one.
\<close>

definition store_decode_sample :: "u64 option \<Rightarrow> zenoh_sample \<Rightarrow> StoreSample option" where
  "store_decode_sample ts s =
     (if zs_kind s \<noteq> Put then None
      else if str_contains ''/_'' (zs_key_expr s) then None
      else case (case zs_attachment s of None \<Rightarrow> None
                 | Some a \<Rightarrow> (case decode_metadata a of Ok m \<Rightarrow> Some m | Err _ \<Rightarrow> None)) of
          None \<Rightarrow> None
        | Some meta \<Rightarrow>
            Some \<lparr>ds_request = \<lparr>sr_key = zs_key_expr s, sr_payload = zs_payload s,
                     sr_metadata = \<lparr>md_seq = em_seq meta, md_publisher_id = em_pub_id meta, md_event_id = em_event_id meta,
                       md_timestamp = em_timestamp meta, md_key_expr = zs_key_expr s, md_key = extract_key (zs_key_expr s),
                       md_hlc_timestamp = map_option (\<lambda>ns. Hlc ns 0) ts\<rparr>\<rparr>,
                   ds_urgency_ms = em_urgency_ms meta,
                   ds_timestamp_nanos = nanos_or (2 ^ 63 - 1) (em_timestamp meta)\<rparr>)"

definition NO_DEADLINE :: int where
  "NO_DEADLINE = 2 ^ 63 - 1"

definition i64_saturating_add :: "int \<Rightarrow> int \<Rightarrow> int" where
  "i64_saturating_add a b = max (- (2 ^ 63)) (min (2 ^ 63 - 1) (a + b))"

text \<open>The earliest deadline afterwards, and whether the watermark task is woken.\<close>

definition maybe_update_urgency :: "StoreSample \<Rightarrow> int \<Rightarrow> int \<times> bool" where
  "maybe_update_urgency ds earliest_deadline =
     (if ds_urgency_ms ds = NO_URGENCY then (earliest_deadline, False)
      else let deadline_ns = i64_saturating_add (ds_timestamp_nanos ds) (uint (ds_urgency_ms ds) * 1000000) in
           (if deadline_ns < earliest_deadline then deadline_ns else earliest_deadline, True))"

fun subscribe_batch :: "(u64 option \<times> zenoh_sample) list \<Rightarrow> int \<Rightarrow> StoreRequest list \<times> int" where
  "subscribe_batch [] deadline = ([], deadline)"
| "subscribe_batch ((ts, s) # samples) deadline =
     (case store_decode_sample ts s of
        None \<Rightarrow> subscribe_batch samples deadline
      | Some ds \<Rightarrow>
          let (batch, deadline') = subscribe_batch samples (fst (maybe_update_urgency ds deadline))
          in (ds_request ds # batch, deadline'))"

text \<open>One turn of the subscribe task on the samples that are ready; an error ends the task.\<close>

definition subscribe_turn :: "bool \<Rightarrow> (u64 option \<times> zenoh_sample) list \<Rightarrow> BackendMsg list \<times> int \<Rightarrow> unit result \<times> BackendMsg list \<times> int" where
  "subscribe_turn alive samples st =
     (let (tx, deadline) = st; (batch, deadline') = subscribe_batch samples deadline; (r, tx') = send_batch alive batch tx
      in (r, tx', deadline'))"

definition event_reply :: "StoredEvent \<Rightarrow> wire" where
  "event_reply ev =
     (let md = se_metadata ev in
      (se_key ev, se_payload ev,
       case md_hlc_timestamp md of
         Some hlc \<Rightarrow> encode_metadata_with_hlc (md_publisher_id md) (md_seq md) (md_event_id md) (md_timestamp md) NO_URGENCY
             (physical_ns hlc) (logical hlc)
       | None \<Rightarrow> encode_metadata (md_publisher_id md) (md_seq md) (md_event_id md) (md_timestamp md) NO_URGENCY))"

text \<open>The replies to one query with the given parameters; invalid filters and failures give none.\<close>

definition store_query ::
  "'b StorageBackend \<Rightarrow> (string \<Rightarrow> DateTime option) \<Rightarrow> (string \<Rightarrow> u128 option) \<Rightarrow> bool \<Rightarrow> string \<Rightarrow> 'b \<Rightarrow> wire list"
where
  "store_query bo parse_time parse_uuid alive params b =
     (let events =
        (if str_contains ''key='' params \<or> str_contains ''key_prefix='' params
            \<or> str_contains ''after_hlc'' params \<or> str_contains ''publisher_id'' params
         then rbind (rf_from_selector parse_uuid params) (\<lambda>f. handle_query_replay bo alive f b)
         else rbind (qf_from_selector parse_time parse_uuid params) (\<lambda>f. handle_query bo alive f b)) in
      case events of Err _ \<Rightarrow> [] | Ok es \<Rightarrow> map event_reply es)"

definition watermark_wait :: "int \<Rightarrow> int \<Rightarrow> Duration option" where
  "watermark_wait deadline_ns now_nanos =
     (if deadline_ns = NO_DEADLINE then None else Some (nat (max 0 (deadline_ns - now_nanos))))"

definition watermark_tick :: "'b StorageBackend \<Rightarrow> bool \<Rightarrow> DateTime \<Rightarrow> 'b \<Rightarrow> CommitWatermark option" where
  "watermark_tick bo alive now b =
     (case handle_publisher_watermarks bo alive b of
        Err _ \<Rightarrow> None
      | Ok publishers \<Rightarrow>
          if publishers = [] then None
          else Some \<lparr>cw_partition = bo_partition bo b, cw_publishers = publishers, cw_timestamp = now, cw_epoch = 0\<rparr>)"

definition gc_tick :: "'b StorageBackend \<Rightarrow> bool \<Rightarrow> DateTime \<Rightarrow> 'b \<Rightarrow> 'b \<times> nat result" where
  "gc_tick bo alive now b = handle_gc bo alive (now - 3600 * 1000000000) b"

section \<open>Offset tasks\<close>

fun extract_param_in :: "string list \<Rightarrow> string \<Rightarrow> string option" where
  "extract_param_in [] key = None"
| "extract_param_in (pair # pairs) key =
     (case split_once (CHR ''='') pair of
        Some (k, v) \<Rightarrow> if k = key then Some v else extract_param_in pairs key
      | None \<Rightarrow> extract_param_in pairs key)"

definition extract_param :: "string \<Rightarrow> string \<Rightarrow> string option" where
  "extract_param params key = extract_param_in (split_on (\<lambda>c. c = CHR ''&'') params) key"

text \<open>JSON of the commit types, as bytes, and the \<^verbatim>\<open>Display\<close> of errors.\<close>

record 'c commit_codec =
  cc_to_vec :: "'c \<Rightarrow> bytes result"
  cc_from_slice :: "bytes \<Rightarrow> 'c result"

definition commit_reply :: "(error \<Rightarrow> string) \<Rightarrow> unit result \<Rightarrow> bytes" where
  "commit_reply display r = (case r of Ok _ \<Rightarrow> as_bytes ''ok'' | Err e \<Rightarrow> as_bytes (''error:'' @ display e))"

definition offset_query ::
  "'b StorageBackend \<Rightarrow> OffsetCommit commit_codec \<Rightarrow> (error \<Rightarrow> string) \<Rightarrow> bool \<Rightarrow> DateTime \<Rightarrow> string \<Rightarrow> bytes option \<Rightarrow> 'b \<Rightarrow> 'b \<times> bytes option"
where
  "offset_query bo codec display alive now params payload b =
     (if str_contains ''fetch=true'' params then
        let group_id = (case extract_param params ''group_id'' of Some g \<Rightarrow> g | None \<Rightarrow> []) in
        (b, case handle_fetch_offsets bo alive group_id b of
              Err _ \<Rightarrow> None
            | Ok offsets \<Rightarrow>
                (case cc_to_vec codec \<lparr>oc_group_id = group_id, oc_member_id = [], oc_partition = bo_partition bo b,
                        oc_offsets = offsets, oc_generation = 0, oc_timestamp = now\<rparr> of
                   Ok bs \<Rightarrow> Some bs | Err _ \<Rightarrow> None))
      else
        (case cc_from_slice codec (case payload of Some p \<Rightarrow> p | None \<Rightarrow> []) of
           Ok commit \<Rightarrow> (let (b', r) = handle_commit_offsets bo alive commit b in (b', Some (commit_reply display r)))
         | Err e \<Rightarrow> (b, Some (commit_reply display (Err e)))))"

definition offset_put :: "'b StorageBackend \<Rightarrow> OffsetCommit commit_codec \<Rightarrow> bool \<Rightarrow> zenoh_sample \<Rightarrow> 'b \<Rightarrow> 'b" where
  "offset_put bo codec alive s b =
     (if zs_kind s \<noteq> Put then b
      else case cc_from_slice codec (zs_payload s) of
          Ok commit \<Rightarrow> fst (handle_commit_offsets bo alive commit b)
        | Err _ \<Rightarrow> b)"

definition rsplit_once :: "string \<Rightarrow> string \<Rightarrow> (string \<times> string) option" where
  "rsplit_once pat s = map_option (\<lambda>i. (take (length s - i - length pat) s, drop (length s - i) s)) (str_find (rev pat) (rev s))"

definition extract_replay_group_id :: "string \<Rightarrow> string option" where
  "extract_replay_group_id key = map_option snd (rsplit_once ''/_replay_offsets/'' key)"

definition replay_offset_query :: "(string, bytes) hmap \<Rightarrow> string \<Rightarrow> bytes option" where
  "replay_offset_query offsets key = Option.bind (extract_replay_group_id key) (hm_get offsets)"

definition replay_offset_put :: "zenoh_sample \<Rightarrow> (string, bytes) hmap \<Rightarrow> (string, bytes) hmap" where
  "replay_offset_put s offsets =
     (if zs_kind s \<noteq> Put then offsets
      else case extract_replay_group_id (zs_key_expr s) of
          Some group_id \<Rightarrow> hm_insert group_id (zs_payload s) offsets
        | None \<Rightarrow> offsets)"

definition keyed_offset_query ::
  "'b StorageBackend \<Rightarrow> KeyedOffsetCommit commit_codec \<Rightarrow> (HlcTimestamp option \<Rightarrow> bytes result) \<Rightarrow> (error \<Rightarrow> string) \<Rightarrow> bool
    \<Rightarrow> string \<Rightarrow> bytes option \<Rightarrow> 'b \<Rightarrow> 'b \<times> bytes option"
where
  "keyed_offset_query bo codec hlc_to_vec display alive params payload b =
     (if str_contains ''fetch=true'' params then
        let group_id = (case extract_param params ''group_id'' of Some g \<Rightarrow> g | None \<Rightarrow> []);
            h = (case Option.bind (extract_param params ''key_filter_hash'') parse_u64 of Some n \<Rightarrow> n | None \<Rightarrow> 0) in
        (b, case handle_fetch_keyed_offset bo alive group_id h b of
              Err _ \<Rightarrow> None
            | Ok hlc \<Rightarrow> Some (case hlc_to_vec hlc of Ok bs \<Rightarrow> bs | Err _ \<Rightarrow> as_bytes ''null''))
      else
        (case cc_from_slice codec (case payload of Some p \<Rightarrow> p | None \<Rightarrow> []) of
           Ok commit \<Rightarrow> (let (b', r) = handle_commit_keyed_offset bo alive commit b in (b', Some (commit_reply display r)))
         | Err e \<Rightarrow> (b, Some (commit_reply display (Err e)))))"

definition keyed_offset_put :: "'b StorageBackend \<Rightarrow> KeyedOffsetCommit commit_codec \<Rightarrow> bool \<Rightarrow> zenoh_sample \<Rightarrow> 'b \<Rightarrow> 'b" where
  "keyed_offset_put bo codec alive s b =
     (if zs_kind s \<noteq> Put then b
      else case cc_from_slice codec (zs_payload s) of
          Ok commit \<Rightarrow> fst (handle_commit_keyed_offset bo alive commit b)
        | Err _ \<Rightarrow> b)"

section \<open>Order of processing\<close>

text \<open>
  The calls a worker makes on the backend, and the single operations behind messages and calls.
\<close>

datatype backend_call = CallStore "StoreRequest list" | CallRequest BackendRequest

datatype backend_item = ItemStore StoreRequest | ItemRequest BackendRequest

fun run_calls :: "'b StorageBackend \<Rightarrow> backend_call list \<Rightarrow> 'b \<Rightarrow> 'b \<times> BackendReply list" where
  "run_calls bo [] b = (b, [])"
| "run_calls bo (CallStore batch # calls) b = run_calls bo calls (flush_batch bo batch b)"
| "run_calls bo (CallRequest r # calls) b =
     (let (b1, reply) = dispatch_request bo r b; (b2, replies) = run_calls bo calls b1 in (b2, reply # replies))"

fun call_items :: "backend_call \<Rightarrow> backend_item list" where
  "call_items (CallStore batch) = map ItemStore batch"
| "call_items (CallRequest r) = [ItemRequest r]"

fun msg_items :: "BackendMsg \<Rightarrow> backend_item list" where
  "msg_items (MsgStoreBatch reqs) = map ItemStore reqs"
| "msg_items (MsgRequest r) = [ItemRequest r]"
| "msg_items MsgShutdown = []"

abbreviation calls_items :: "backend_call list \<Rightarrow> backend_item list" where
  "calls_items calls \<equiv> concat (map call_items calls)"

abbreviation msgs_items :: "BackendMsg list \<Rightarrow> backend_item list" where
  "msgs_items rx \<equiv> concat (map msg_items rx)"

lemma run_calls_append:
  "run_calls bo (xs @ ys) b =
     (let (b1, r1) = run_calls bo xs b; (b2, r2) = run_calls bo ys b1 in (b2, r1 @ r2))"
proof (induction xs arbitrary: b)
  case (Cons c xs)
  then show ?case by (cases c) (simp_all add: split_beta Let_def)
qed (simp add: split_beta)

lemma drain_calls:
  "drain_and_flush bo rx batch b = (rx', b', replies) \<Longrightarrow>
   \<exists>calls. run_calls bo calls b = (b', replies) \<and> calls_items calls @ msgs_items rx' = map ItemStore batch @ msgs_items rx"
proof (induction rx arbitrary: batch b replies)
  case Nil
  then show ?case by (intro exI[of _ "[CallStore batch]"]) auto
next
  case (Cons m rx)
  show ?case
  proof (cases m)
    case (MsgStoreBatch reqs)
    then show ?thesis using Cons.IH[of "batch @ reqs" b replies] Cons.prems by simp
  next
    case MsgShutdown
    then show ?thesis using Cons.prems by (intro exI[of _ "[CallStore batch]"]) auto
  next
    case (MsgRequest r)
    obtain b1 reply where d: "dispatch_request bo r (flush_batch bo batch b) = (b1, reply)"
      by (cases "dispatch_request bo r (flush_batch bo batch b)")
    obtain rs where rest: "drain_and_flush bo rx [] b1 = (rx', b', rs)" and r: "replies = reply # rs"
      using Cons.prems MsgRequest d by (auto split: prod.splits)
    obtain calls where "run_calls bo calls b1 = (b', rs)" "calls_items calls @ msgs_items rx' = msgs_items rx"
      using Cons.IH[OF rest] by auto
    then show ?thesis using d r MsgRequest
      by (intro exI[of _ "CallStore batch # CallRequest r # calls"]) simp
  qed
qed

lemma worker_calls:
  "run_backend_worker bo rx b = (stopped, rx', b', replies) \<Longrightarrow>
   \<exists>calls. run_calls bo calls b = (b', replies) \<and> calls_items calls @ msgs_items rx' = msgs_items rx"
proof (induction "length rx" arbitrary: rx b replies rule: less_induct)
  case less
  show ?case
  proof (cases rx)
    case Nil
    then show ?thesis using less.prems by (intro exI[of _ "[]"]) simp
  next
    case (Cons m q)
    show ?thesis
    proof (cases m)
      case MsgShutdown
      then show ?thesis using less.prems Cons by (intro exI[of _ "[]"]) simp
    next
      case (MsgRequest r)
      obtain b1 reply where d: "dispatch_request bo r b = (b1, reply)" by (cases "dispatch_request bo r b")
      obtain rs where rest: "run_backend_worker bo q b1 = (stopped, rx', b', rs)" and r: "replies = reply # rs"
        using less.prems Cons MsgRequest d by (auto split: prod.splits)
      obtain calls where "run_calls bo calls b1 = (b', rs)" "calls_items calls @ msgs_items rx' = msgs_items q"
        using less.hyps[of q, OF _ rest] Cons by auto
      then show ?thesis using d r Cons MsgRequest by (intro exI[of _ "CallRequest r # calls"]) simp
    next
      case (MsgStoreBatch reqs)
      obtain rx1 b1 r1 where dr: "drain_and_flush bo q reqs b = (rx1, b1, r1)" by (metis prod_cases3)
      obtain r2 where rest: "run_backend_worker bo rx1 b1 = (stopped, rx', b', r2)" and r: "replies = r1 @ r2"
        using less.prems Cons MsgStoreBatch dr by (auto split: prod.splits)
      have "length rx1 < length rx" using drain_shorter[of bo q reqs b] dr Cons by simp
      then obtain calls2 where 2: "run_calls bo calls2 b1 = (b', r2)" "calls_items calls2 @ msgs_items rx' = msgs_items rx1"
        using less.hyps[of rx1, OF _ rest] by blast
      obtain calls1 where 1: "run_calls bo calls1 b = (b1, r1)"
        "calls_items calls1 @ msgs_items rx1 = map ItemStore reqs @ msgs_items q"
        using drain_calls[OF dr] by blast
      have "calls_items (calls1 @ calls2) @ msgs_items rx' = msgs_items rx"
        using 1(2) 2(2) Cons MsgStoreBatch by simp
      moreover have "run_calls bo (calls1 @ calls2) b = (b', replies)" using 1(1) 2(1) r by (simp add: run_calls_append)
      ultimately show ?thesis by blast
    qed
  qed
qed

text \<open>
  A backend worker processes its queue in order however it merges batches: the calls it makes on
  the backend perform exactly the queued store and query operations up to the messages it leaves, in
  the order they were queued, each once.  So a query is answered from a backend that has been handed
  every event queued before it.
\<close>

theorem worker_keeps_order:
  assumes "run_backend_worker bo rx b = (stopped, rx', b', replies)"
  shows "\<exists>calls. run_calls bo calls b = (b', replies) \<and> calls_items calls @ msgs_items rx' = msgs_items rx"
  using assms by (rule worker_calls)

lemma drain_to_shutdown:
  "MsgShutdown \<notin> set rx \<Longrightarrow> fst (drain_and_flush bo (rx @ [MsgShutdown]) batch b) = []"
proof (induction rx arbitrary: batch b)
  case (Cons m rx)
  then show ?case by (cases m) (auto simp: split_beta Let_def)
qed simp

text \<open>
  A lone worker can miss its shutdown: with one worker thread, whose queue ends with the one
  shutdown message that \<^verbatim>\<open>EventStore::shutdown\<close> sends, the worker stops exactly when no store
  batch is queued before it.  Otherwise the drain loop swallows the message and the worker waits for
  ever, while dropping the store waits for the worker.
\<close>

theorem shutdown_swallowed_by_drain:
  assumes "MsgShutdown \<notin> set rx"
  shows "fst (run_backend_worker bo (rx @ [MsgShutdown]) b) \<longleftrightarrow> (\<forall>reqs. MsgStoreBatch reqs \<notin> set rx)"
  using assms
proof (induction rx arbitrary: b)
  case (Cons m rx)
  show ?case
  proof (cases m)
    case (MsgStoreBatch reqs)
    have "fst (drain_and_flush bo (rx @ [MsgShutdown]) reqs b) = []" using drain_to_shutdown[of rx bo reqs b] Cons.prems by simp
    then show ?thesis using MsgStoreBatch by (auto simp: split_beta Let_def)
  qed (use Cons in \<open>simp_all add: split_beta Let_def\<close>)
qed simp

definition demo_request :: StoreRequest where
  "demo_request = \<lparr>sr_key = ''a'', sr_payload = [7], sr_metadata = demo_md 1 0\<rparr>"

theorem worker_keeps_order_witness:
  "\<exists>stopped rx' b' replies calls.
     run_backend_worker (fjall_backend mem_ops unary_json) [MsgStoreBatch [demo_request], MsgRequest RqPublisherWatermarks] (backend_empty mem_empty 0)
       = (stopped, rx', b', replies)
     \<and> run_calls (fjall_backend mem_ops unary_json) calls (backend_empty mem_empty 0) = (b', replies)
     \<and> calls_items calls @ msgs_items rx' = [ItemStore demo_request, ItemRequest RqPublisherWatermarks]"
proof -
  obtain stopped rx' b' replies where r: "run_backend_worker (fjall_backend mem_ops unary_json)
      [MsgStoreBatch [demo_request], MsgRequest RqPublisherWatermarks] (backend_empty mem_empty 0) = (stopped, rx', b', replies)"
    by (metis prod_cases4)
  then show ?thesis using worker_keeps_order[OF r] by auto
qed

theorem shutdown_swallowed_by_drain_witness:
  "\<not> fst (run_backend_worker (fjall_backend mem_ops unary_json) ([MsgStoreBatch [demo_request]] @ [MsgShutdown]) (backend_empty mem_empty 0))"
  by (subst shutdown_swallowed_by_drain) auto

end
