(* ===== verification/Pipeline.thy ===== *)
theory Pipeline
  imports Forwarder Event_Dedup
begin

text \<open>
  The event processing pipeline of a subscriber (\<^verbatim>\<open>mitiflow/src/subscriber/pipeline.rs\<close>):
  gap detection, delivery, recovery spawning, heartbeats, offload and eviction, in the single-shard
  worker and in the multi-shard dispatcher with its shard workers.  A worker is a step function on
  the inputs its \<^verbatim>\<open>select!\<close> waits for.  Spawned recovery tasks are logged (the tasks are
  modelled in Recovery); shard queues are unbounded lists.  A step whose offload cycle has not
  ended within the observations it is given has no result (\<^const>\<open>None\<close>).
\<close>

section \<open>State\<close>

datatype HeartbeatMode = Periodic Duration | Sporadic Duration | Disabled

datatype RecoveryMode = Heartbeat | PeriodicQuery Duration | Both

record pipe_config =
  pp_key_filtered :: bool
  pp_recovery_mode :: RecoveryMode
  pp_heartbeat :: HeartbeatMode
  pp_publisher_ttl :: "Duration option"
  pp_num_shards :: nat
  pp_dedup_capacity :: nat

datatype ShardMsg = ShardDeliver EventMeta string bytes

record 'f pipeline =
  pl_gd :: GapDetector
  pl_dedup :: EventIdDedup
  pl_sample_count :: u64
  pl_offload :: "'f OffloadManager option"
  pl_log :: offer_log
  pl_spawned :: "MissInfo list"
  pl_shards :: "ShardMsg list list"

text \<open>
  What a step observes of its surroundings: the clock, the length of the event channel, the
  quotient of the channel fullness, and for an offload cycle the samples waiting in the sample
  channel, the store behind the session and the iterations of the catch-up loop.
\<close>

record 'f pipe_env =
  pe_now :: Instant
  pe_tx :: event_tx
  pe_channel_len :: nat
  pe_quot :: "nat \<Rightarrow> nat \<Rightarrow> 'f"
  pe_display :: "error \<Rightarrow> string"
  pe_show_id :: "PublisherId \<Rightarrow> string"
  pe_get :: session_get
  pe_elapsed :: Duration
  pe_iterations :: "iteration list"
  pe_waiting :: "DecodedSample list"
  pe_buffered :: nat

section \<open>Operations\<close>

text \<open>\<^verbatim>\<open>num_shards\<close> is at least one (the configuration builder clamps it).\<close>

definition shard_for :: "PublisherId \<Rightarrow> nat \<Rightarrow> nat" where
  "shard_for pub_id num_shards = unat (from_le_bytes (id_to_bytes pub_id) :: u128) mod num_shards"

definition offer :: "event_tx \<Rightarrow> EventMeta \<Rightarrow> string \<Rightarrow> bytes \<Rightarrow> 'f pipeline \<Rightarrow> 'f pipeline" where
  "offer tx meta key payload pl =
     pl\<lparr>pl_log := deliver_event tx (em_pub_id meta) (em_seq meta) key payload (em_event_id meta) (em_timestamp meta) (pl_log pl)\<rparr>"

definition spawn_recovery :: "MissInfo \<Rightarrow> 'f pipeline \<Rightarrow> 'f pipeline" where
  "spawn_recovery miss pl = pl\<lparr>pl_spawned := pl_spawned pl @ [miss]\<rparr>"

definition handle_sample_result ::
  "event_tx \<Rightarrow> SampleResult \<Rightarrow> EventMeta \<Rightarrow> string \<Rightarrow> bytes \<Rightarrow> 'f pipeline \<Rightarrow> 'f pipeline"
where
  "handle_sample_result tx result meta key payload pl =
     (case result of
        Deliver \<Rightarrow> offer tx meta key payload pl
      | Duplicate \<Rightarrow> pl
      | Gap miss \<Rightarrow> spawn_recovery miss (offer tx meta key payload pl))"

definition handle_heartbeat_gaps :: "MissInfo list \<Rightarrow> 'f pipeline \<Rightarrow> 'f pipeline" where
  "handle_heartbeat_gaps misses pl = fold spawn_recovery misses pl"

definition maybe_evict :: "Instant \<Rightarrow> u64 \<Rightarrow> Duration option \<Rightarrow> GapDetector \<Rightarrow> GapDetector" where
  "maybe_evict now sample_count publisher_ttl gd =
     (case publisher_ttl of
        Some ttl \<Rightarrow> if sample_count mod 10000 = 0 then fst (evict_older_than now ttl gd) else gd
      | None \<Rightarrow> gd)"

definition to_shard :: "nat \<Rightarrow> EventMeta \<Rightarrow> string \<Rightarrow> bytes \<Rightarrow> 'f pipeline \<Rightarrow> 'f pipeline" where
  "to_shard num_shards meta key payload pl =
     (let i = shard_for (em_pub_id meta) num_shards in
      pl\<lparr>pl_shards := (pl_shards pl)[i := pl_shards pl ! i @ [ShardDeliver meta key payload]]\<rparr>)"

definition dispatch_sample_result ::
  "nat \<Rightarrow> SampleResult \<Rightarrow> EventMeta \<Rightarrow> string \<Rightarrow> bytes \<Rightarrow> 'f pipeline \<Rightarrow> 'f pipeline"
where
  "dispatch_sample_result num_shards result meta key payload pl =
     (case result of
        Deliver \<Rightarrow> to_shard num_shards meta key payload pl
      | Duplicate \<Rightarrow> pl
      | Gap miss \<Rightarrow> spawn_recovery miss (to_shard num_shards meta key payload pl))"

text \<open>
  The body of the sample branch of both workers: \<^verbatim>\<open>pass\<close> delivers in key-filtered mode,
  \<^verbatim>\<open>handle\<close> acts on the verdict of the gap detector.
\<close>

definition run_cycle :: "'f::{zero,linorder} pipe_env \<Rightarrow> 'f OffloadManager \<Rightarrow> 'f pipeline \<Rightarrow> 'f pipeline option" where
  "run_cycle env mgr pl =
     (case run_offload_cycle (pe_display env) (pe_show_id env) (pe_get env) (pe_now env) (pe_elapsed env)
             (pe_iterations env) (pe_waiting env) (pe_buffered env) mgr (pl_gd pl) of
        None \<Rightarrow> None
      | Some (_, mgr', gd', replayed) \<Rightarrow>
          Some (pl\<lparr>pl_offload := Some mgr', pl_gd := gd', pl_log := pl_log pl @ map (\<lambda>e. (e, Sent)) replayed\<rparr>))"

definition sample_branch ::
  "pipe_config \<Rightarrow> 'f::{zero,linorder} pipe_env \<Rightarrow> (EventMeta \<Rightarrow> string \<Rightarrow> bytes \<Rightarrow> 'f pipeline \<Rightarrow> 'f pipeline)
    \<Rightarrow> (SampleResult \<Rightarrow> EventMeta \<Rightarrow> string \<Rightarrow> bytes \<Rightarrow> 'f pipeline \<Rightarrow> 'f pipeline)
    \<Rightarrow> DecodedSample \<Rightarrow> 'f pipeline \<Rightarrow> 'f pipeline option"
where
  "sample_branch c env pass handle sample pl =
     (case sample of (meta, key, payload) \<Rightarrow>
        if pp_key_filtered c then
          (case is_new (pl_dedup pl) (em_event_id meta) of
             (dedup, new) \<Rightarrow>
               let pl1 = pl\<lparr>pl_dedup := dedup\<rparr> in Some (if new then pass meta key payload pl1 else pl1))
        else
          (case on_sample (pl_gd pl) (pe_now env) (em_pub_id meta) (extract_partition key) (em_seq meta) of
             (gd, result) \<Rightarrow>
               let finish = (\<lambda>pl1. let n = pl_sample_count pl1 + 1 in
                     pl1\<lparr>pl_sample_count := n, pl_gd := maybe_evict (pe_now env) n (pp_publisher_ttl c) (pl_gd pl1)\<rparr>) in
               (case pl_offload pl of
                  None \<Rightarrow> Some (finish (handle result meta key payload (pl\<lparr>pl_gd := gd\<rparr>)))
                | Some mgr \<Rightarrow>
                    (case check_and_trigger (pe_quot env) (pe_now env) (update_lag (pe_channel_len env) None mgr) of
                       (True, mgr1) \<Rightarrow>
                         let pl1 = handle result meta key payload (pl\<lparr>pl_gd := gd, pl_offload := Some mgr1\<rparr>) in
                         run_cycle env mgr1 (pl1\<lparr>pl_sample_count := pl_sample_count pl1 + 1\<rparr>)
                     | (False, mgr1) \<Rightarrow>
                         Some (finish (handle result meta key payload (pl\<lparr>pl_gd := gd, pl_offload := Some mgr1\<rparr>)))))))"

definition heartbeat_lag :: "nat \<Rightarrow> GapDetector \<Rightarrow> HeartbeatBeacon \<Rightarrow> 'f OffloadManager \<Rightarrow> 'f OffloadManager" where
  "heartbeat_lag len gd beacon mgr =
     fold (\<lambda>(p, pub_seq) m. case last_seen gd (hb_pub_id beacon) p of
         Some our_seq \<Rightarrow> if pub_seq > our_seq then update_lag len (Some (hb_pub_id beacon, p, pub_seq - our_seq)) m else m
       | None \<Rightarrow> m) (hb_partition_seqs beacon) mgr"

definition recovery_enabled :: "RecoveryMode \<Rightarrow> bool" where
  "recovery_enabled mode = (case mode of Heartbeat \<Rightarrow> True | Both \<Rightarrow> True | PeriodicQuery _ \<Rightarrow> False)"

definition heartbeat_branch ::
  "pipe_config \<Rightarrow> (bytes \<Rightarrow> HeartbeatBeacon result) \<Rightarrow> 'f pipe_env \<Rightarrow> zenoh_sample \<Rightarrow> 'f pipeline \<Rightarrow> 'f pipeline"
where
  "heartbeat_branch c from_slice env s pl =
     (if pp_heartbeat c = Disabled \<or> pp_key_filtered c then pl
      else case decode_heartbeat from_slice s of
          None \<Rightarrow> pl
        | Some beacon \<Rightarrow>
            let pl1 = (if recovery_enabled (pp_recovery_mode c)
                       then case on_heartbeat (pl_gd pl) (pe_now env) (hb_pub_id beacon) (hb_partition_seqs beacon) of
                              (gd, misses) \<Rightarrow> handle_heartbeat_gaps misses (pl\<lparr>pl_gd := gd\<rparr>)
                       else pl) in
            pl1\<lparr>pl_offload := map_option (heartbeat_lag (pe_channel_len env) (pl_gd pl1) beacon) (pl_offload pl1)\<rparr>)"

section \<open>The workers\<close>

definition pipeline_new :: "pipe_config \<Rightarrow> 'f OffloadManager option \<Rightarrow> 'f pipeline option" where
  "pipeline_new c offload_mgr =
     map_option (\<lambda>dedup. \<lparr>pl_gd = gd_new, pl_dedup = dedup, pl_sample_count = 0, pl_offload = offload_mgr, pl_log = [],
       pl_spawned = [], pl_shards = replicate (pp_num_shards c) []\<rparr>) (dedup_new (pp_dedup_capacity c))"

datatype pipe_input = InSample DecodedSample | InHeartbeat zenoh_sample

fun single_shard_step ::
  "pipe_config \<Rightarrow> (bytes \<Rightarrow> HeartbeatBeacon result) \<Rightarrow> 'f::{zero,linorder} pipe_env \<Rightarrow> pipe_input \<Rightarrow> 'f pipeline \<Rightarrow> 'f pipeline option"
where
  "single_shard_step c from_slice env (InSample s) pl =
     sample_branch c env (offer (pe_tx env)) (handle_sample_result (pe_tx env)) s pl"
| "single_shard_step c from_slice env (InHeartbeat s) pl = Some (heartbeat_branch c from_slice env s pl)"

fun dispatcher_step ::
  "pipe_config \<Rightarrow> (bytes \<Rightarrow> HeartbeatBeacon result) \<Rightarrow> 'f::{zero,linorder} pipe_env \<Rightarrow> pipe_input \<Rightarrow> 'f pipeline \<Rightarrow> 'f pipeline option"
where
  "dispatcher_step c from_slice env (InSample s) pl =
     sample_branch c env (to_shard (pp_num_shards c)) (dispatch_sample_result (pp_num_shards c)) s pl"
| "dispatcher_step c from_slice env (InHeartbeat s) pl = Some (heartbeat_branch c from_slice env s pl)"

text \<open>One message of the queue of shard worker \<^verbatim>\<open>i\<close>.\<close>

definition shard_worker_step :: "event_tx \<Rightarrow> nat \<Rightarrow> 'f pipeline \<Rightarrow> 'f pipeline" where
  "shard_worker_step tx i pl =
     (if i < length (pl_shards pl) then
        case pl_shards pl ! i of
          [] \<Rightarrow> pl
        | ShardDeliver meta key payload # rest \<Rightarrow> offer tx meta key payload (pl\<lparr>pl_shards := (pl_shards pl)[i := rest]\<rparr>)
      else pl)"

fun single_run ::
  "pipe_config \<Rightarrow> (bytes \<Rightarrow> HeartbeatBeacon result) \<Rightarrow> ('f::{zero,linorder} pipe_env \<times> pipe_input) list \<Rightarrow> 'f pipeline \<Rightarrow> 'f pipeline option"
where
  "single_run c from_slice [] pl = Some pl"
| "single_run c from_slice ((env, i) # ins) pl =
     (case single_shard_step c from_slice env i pl of None \<Rightarrow> None | Some pl1 \<Rightarrow> single_run c from_slice ins pl1)"

text \<open>A schedule of the multi-shard tasks: the dispatcher takes an input, or a shard worker a message.\<close>

datatype 'f multi_step = Dispatch "'f pipe_env" pipe_input | ShardWork event_tx nat

fun multi_run ::
  "pipe_config \<Rightarrow> (bytes \<Rightarrow> HeartbeatBeacon result) \<Rightarrow> 'f::{zero,linorder} multi_step list \<Rightarrow> 'f pipeline \<Rightarrow> 'f pipeline option"
where
  "multi_run c from_slice [] pl = Some pl"
| "multi_run c from_slice (Dispatch env i # steps) pl =
     (case dispatcher_step c from_slice env i pl of None \<Rightarrow> None | Some pl1 \<Rightarrow> multi_run c from_slice steps pl1)"
| "multi_run c from_slice (ShardWork tx k # steps) pl = multi_run c from_slice steps (shard_worker_step tx k pl)"

fun inputs_of :: "'f multi_step list \<Rightarrow> ('f pipe_env \<times> pipe_input) list" where
  "inputs_of [] = []"
| "inputs_of (Dispatch env i # steps) = (env, i) # inputs_of steps"
| "inputs_of (ShardWork tx k # steps) = inputs_of steps"

section \<open>Sharding refines the single worker\<close>

definition raw_of :: "EventMeta \<Rightarrow> string \<Rightarrow> bytes \<Rightarrow> RawEvent" where
  "raw_of meta key payload = \<lparr>re_id = em_event_id meta, re_seq = em_seq meta, re_publisher_id = em_pub_id meta,
     re_key_expr = key, re_payload = payload, re_timestamp = em_timestamp meta\<rparr>"

fun msg_raw :: "ShardMsg \<Rightarrow> RawEvent" where
  "msg_raw (ShardDeliver meta key payload) = raw_of meta key payload"

lemma raw_of_simps [simp]:
  "re_publisher_id (raw_of meta key payload) = em_pub_id meta"
  "re_seq (raw_of meta key payload) = em_seq meta"
  "re_key_expr (raw_of meta key payload) = key"
  by (simp_all add: raw_of_def)

text \<open>Events of one publisher that were offered to the consumer, and that still wait in a shard queue.\<close>

definition offered_by :: "PublisherId \<Rightarrow> 'f pipeline \<Rightarrow> RawEvent list" where
  "offered_by p pl = filter (\<lambda>e. re_publisher_id e = p) (map fst (pl_log pl))"

definition pending_by :: "PublisherId \<Rightarrow> 'f pipeline \<Rightarrow> RawEvent list" where
  "pending_by p pl = filter (\<lambda>e. re_publisher_id e = p)
     (map msg_raw (pl_shards pl ! shard_for p (length (pl_shards pl))))"

definition shard_sim :: "nat \<Rightarrow> 'f pipeline \<Rightarrow> 'f pipeline \<Rightarrow> bool" where
  "shard_sim n pls plm \<longleftrightarrow> pl_gd plm = pl_gd pls \<and> pl_dedup plm = pl_dedup pls
     \<and> pl_sample_count plm = pl_sample_count pls \<and> pl_spawned plm = pl_spawned pls
     \<and> pl_offload pls = None \<and> pl_offload plm = None \<and> length (pl_shards plm) = n
     \<and> (\<forall>i < n. \<forall>m \<in> set (pl_shards plm ! i). shard_for (re_publisher_id (msg_raw m)) n = i)
     \<and> (\<forall>p. offered_by p plm @ pending_by p plm = offered_by p pls)"

lemma shard_for_less: "0 < n \<Longrightarrow> shard_for p n < n"
  by (simp add: shard_for_def)

lemma offer_frame [simp]:
  "pl_gd (offer tx meta key payload pl) = pl_gd pl" "pl_dedup (offer tx meta key payload pl) = pl_dedup pl"
  "pl_sample_count (offer tx meta key payload pl) = pl_sample_count pl"
  "pl_spawned (offer tx meta key payload pl) = pl_spawned pl" "pl_offload (offer tx meta key payload pl) = pl_offload pl"
  "pl_shards (offer tx meta key payload pl) = pl_shards pl"
  "map fst (pl_log (offer tx meta key payload pl)) = map fst (pl_log pl) @ [raw_of meta key payload]"
  by (simp_all add: offer_def deliver_event_def raw_of_def Let_def)

lemma to_shard_frame [simp]:
  "pl_gd (to_shard n meta key payload pl) = pl_gd pl" "pl_dedup (to_shard n meta key payload pl) = pl_dedup pl"
  "pl_sample_count (to_shard n meta key payload pl) = pl_sample_count pl"
  "pl_spawned (to_shard n meta key payload pl) = pl_spawned pl" "pl_offload (to_shard n meta key payload pl) = pl_offload pl"
  "pl_log (to_shard n meta key payload pl) = pl_log pl" "length (pl_shards (to_shard n meta key payload pl)) = length (pl_shards pl)"
  by (simp_all add: to_shard_def Let_def)

lemma spawn_frame [simp]:
  "pl_gd (spawn_recovery miss pl) = pl_gd pl" "pl_dedup (spawn_recovery miss pl) = pl_dedup pl"
  "pl_sample_count (spawn_recovery miss pl) = pl_sample_count pl"
  "pl_spawned (spawn_recovery miss pl) = pl_spawned pl @ [miss]" "pl_offload (spawn_recovery miss pl) = pl_offload pl"
  "pl_log (spawn_recovery miss pl) = pl_log pl" "pl_shards (spawn_recovery miss pl) = pl_shards pl"
  by (simp_all add: spawn_recovery_def)

lemma heartbeat_gaps_frame [simp]:
  "pl_gd (handle_heartbeat_gaps misses pl) = pl_gd pl" "pl_dedup (handle_heartbeat_gaps misses pl) = pl_dedup pl"
  "pl_sample_count (handle_heartbeat_gaps misses pl) = pl_sample_count pl"
  "pl_spawned (handle_heartbeat_gaps misses pl) = pl_spawned pl @ misses"
  "pl_offload (handle_heartbeat_gaps misses pl) = pl_offload pl"
  "pl_log (handle_heartbeat_gaps misses pl) = pl_log pl" "pl_shards (handle_heartbeat_gaps misses pl) = pl_shards pl"
  unfolding handle_heartbeat_gaps_def by (induction misses arbitrary: pl) simp_all

lemma offered_offer [simp]:
  "offered_by p (offer tx meta key payload pl) =
     offered_by p pl @ (if em_pub_id meta = p then [raw_of meta key payload] else [])"
  by (simp add: offered_by_def)

lemma by_cong:
  "pl_log pl' = pl_log pl \<Longrightarrow> offered_by p pl' = offered_by p pl"
  "pl_shards pl' = pl_shards pl \<Longrightarrow> pending_by p pl' = pending_by p pl"
  by (simp_all add: offered_by_def pending_by_def)

lemma offered_to_shard [simp]: "offered_by p (to_shard n meta key payload pl) = offered_by p pl"
  by (rule by_cong) simp

lemma nth_to_shard:
  assumes "0 < n" and "n = length (pl_shards pl)" and "j < n"
  shows "pl_shards (to_shard n meta key payload pl) ! j =
     pl_shards pl ! j @ (if j = shard_for (em_pub_id meta) n then [ShardDeliver meta key payload] else [])"
  using assms by (cases "j = shard_for (em_pub_id meta) n") (simp_all add: to_shard_def Let_def)

lemma pending_to_shard:
  assumes "0 < n" and "n = length (pl_shards pl)"
  shows "pending_by p (to_shard n meta key payload pl) =
     pending_by p pl @ (if em_pub_id meta = p then [raw_of meta key payload] else [])"
  using assms(2) nth_to_shard[OF assms shard_for_less[OF assms(1), of p], of meta key payload]
  by (auto simp: pending_by_def)

lemma shard_sim_deliver:
  assumes "shard_sim n pls plm" and "0 < n"
  shows "shard_sim n (offer tx meta key payload pls) (to_shard n meta key payload plm)"
proof -
  have "shard_for (re_publisher_id (msg_raw m)) n = i"
    if "i < n" "m \<in> set (pl_shards (to_shard n meta key payload plm) ! i)" for i m
  proof -
    have len: "n = length (pl_shards plm)"
      and route: "m \<in> set (pl_shards plm ! i) \<Longrightarrow> shard_for (re_publisher_id (msg_raw m)) n = i"
      using assms(1) that(1) by (simp_all add: shard_sim_def)
    from that(2) show ?thesis
      unfolding nth_to_shard[OF assms(2) len that(1)] using route by (auto split: if_splits)
  qed
  moreover have "offered_by p (to_shard n meta key payload plm) @ pending_by p (to_shard n meta key payload plm)
      = offered_by p (offer tx meta key payload pls)" for p
  proof -
    have "offered_by p plm @ pending_by p plm = offered_by p pls" using assms(1) by (simp add: shard_sim_def)
    moreover have "n = length (pl_shards plm)" using assms(1) by (simp add: shard_sim_def)
    ultimately show ?thesis using pending_to_shard[OF assms(2), of plm p meta key payload]
      by simp
  qed
  ultimately show ?thesis using assms unfolding shard_sim_def by simp
qed

lemma shard_sim_update:
  assumes "shard_sim n pls plm"
    and "pl_log pls' = pl_log pls" "pl_log plm' = pl_log plm" "pl_shards plm' = pl_shards plm"
    and "pl_gd plm' = pl_gd pls'" "pl_dedup plm' = pl_dedup pls'" "pl_sample_count plm' = pl_sample_count pls'"
      "pl_spawned plm' = pl_spawned pls'" "pl_offload pls' = None" "pl_offload plm' = None"
  shows "shard_sim n pls' plm'"
proof -
  note c = by_cong(1)[OF assms(2)] by_cong(1)[OF assms(3)] by_cong(2)[OF assms(4)]
  show ?thesis using assms(1,4-) unfolding shard_sim_def c by simp
qed

lemma shard_sim_eqs:
  assumes "shard_sim n pls plm"
  shows "pl_gd plm = pl_gd pls" "pl_dedup plm = pl_dedup pls" "pl_sample_count plm = pl_sample_count pls"
    "pl_spawned plm = pl_spawned pls" "pl_offload pls = None" "pl_offload plm = None" "length (pl_shards plm) = n"
    "offered_by p plm @ pending_by p plm = offered_by p pls"
  using assms by (simp_all add: shard_sim_def)

lemma shard_sim_handle:
  assumes "shard_sim n pls plm" and "0 < n"
  shows "shard_sim n (handle_sample_result tx r meta key payload pls) (dispatch_sample_result n r meta key payload plm)"
proof (cases r)
  case (Gap miss)
  have "shard_sim n (offer tx meta key payload pls) (to_shard n meta key payload plm)"
    using assms by (rule shard_sim_deliver)
  then have "shard_sim n (spawn_recovery miss (offer tx meta key payload pls)) (spawn_recovery miss (to_shard n meta key payload plm))"
    by (rule shard_sim_update) (use shard_sim_eqs[OF assms(1)] in simp_all)
  then show ?thesis by (simp add: Gap handle_sample_result_def dispatch_sample_result_def)
qed (use assms shard_sim_deliver in \<open>simp_all add: handle_sample_result_def dispatch_sample_result_def\<close>)

lemma shard_sim_sample:
  assumes "shard_sim n pls plm" and "0 < n" and "n = pp_num_shards c"
  shows "\<exists>pls' plm'. single_shard_step c from_slice env (InSample s) pls = Some pls'
    \<and> dispatcher_step c from_slice env (InSample s) plm = Some plm' \<and> shard_sim n pls' plm'"
proof -
  obtain meta key payload where s: "s = (meta, key, payload)" by (cases s)
  note eqs = shard_sim_eqs[OF assms(1)]
  show ?thesis
  proof (cases "pp_key_filtered c")
    case True
    obtain dedup new where d: "is_new (pl_dedup pls) (em_event_id meta) = (dedup, new)"
      by (cases "is_new (pl_dedup pls) (em_event_id meta)")
    have u: "shard_sim n (pls\<lparr>pl_dedup := dedup\<rparr>) (plm\<lparr>pl_dedup := dedup\<rparr>)"
      by (rule shard_sim_update[OF assms(1)]) (simp_all add: eqs)
    show ?thesis using True d eqs u shard_sim_deliver[OF u assms(2)]
      by (simp add: s sample_branch_def assms(3)[symmetric] Let_def)
  next
    case False
    obtain gd r where g: "on_sample (pl_gd pls) (pe_now env) (em_pub_id meta) (extract_partition key) (em_seq meta) = (gd, r)"
      by (cases "on_sample (pl_gd pls) (pe_now env) (em_pub_id meta) (extract_partition key) (em_seq meta)")
    have "shard_sim n (pls\<lparr>pl_gd := gd\<rparr>) (plm\<lparr>pl_gd := gd\<rparr>)"
      by (rule shard_sim_update[OF assms(1)]) (simp_all add: eqs)
    note h = shard_sim_handle[OF this assms(2), of "pe_tx env" r meta key payload]
    show ?thesis
      using False g eqs
      by (simp add: s sample_branch_def assms(3)[symmetric] Let_def)
        (rule shard_sim_update[OF h], simp_all add: shard_sim_eqs[OF h])
  qed
qed

lemma shard_sim_heartbeat:
  assumes "shard_sim n pls plm"
  shows "shard_sim n (heartbeat_branch c from_slice env s pls) (heartbeat_branch c from_slice env s plm)"
proof -
  note eqs = shard_sim_eqs[OF assms(1)]
  show ?thesis
    by (rule shard_sim_update[OF assms])
      (simp_all add: heartbeat_branch_def eqs Let_def split: option.split prod.split)
qed

lemma shard_sim_work:
  assumes "shard_sim n pls plm" and "0 < n"
  shows "shard_sim n pls (shard_worker_step tx i plm)"
proof (cases "i < n \<and> pl_shards plm ! i \<noteq> []")
  case False
  then show ?thesis using assms by (auto simp: shard_worker_step_def shard_sim_def)
next
  case True
  then obtain meta key payload rest where q: "pl_shards plm ! i = ShardDeliver meta key payload # rest"
    by (metis ShardMsg.exhaust neq_Nil_conv)
  note eqs = shard_sim_eqs[OF assms(1)]
  let ?plm = "offer tx meta key payload (plm\<lparr>pl_shards := (pl_shards plm)[i := rest]\<rparr>)"
  have route: "\<forall>j < n. \<forall>m \<in> set (pl_shards plm ! j). shard_for (re_publisher_id (msg_raw m)) n = j"
    using assms(1) by (simp add: shard_sim_def)
  then have i: "shard_for (em_pub_id meta) n = i" using True q by fastforce
  have "offered_by p ?plm @ pending_by p ?plm = offered_by p plm @ pending_by p plm" for p
  proof (cases "shard_for p n = i")
    case True
    then show ?thesis using q eqs(7) \<open>i < n \<and> _\<close>
      by (simp add: pending_by_def by_cong(1)[of "plm\<lparr>pl_shards := (pl_shards plm)[i := rest]\<rparr>" plm])
  next
    case False
    then have "em_pub_id meta \<noteq> p" using i by auto
    then show ?thesis using False eqs(7)
      by (simp add: pending_by_def by_cong(1)[of "plm\<lparr>pl_shards := (pl_shards plm)[i := rest]\<rparr>" plm])
  qed
  moreover have "shard_for (re_publisher_id (msg_raw m)) n = j"
    if "j < n" "m \<in> set (pl_shards ?plm ! j)" for j m
    using that route q eqs(7) by (cases "j = i") (fastforce simp: nth_list_update)+
  ultimately have "shard_sim n pls ?plm"
    using assms(1) unfolding shard_sim_def by simp
  then show ?thesis using True q eqs(7) by (simp add: shard_worker_step_def)
qed

lemma shard_sim_run:
  assumes "shard_sim n pls plm" and "0 < n" and "n = pp_num_shards c"
  shows "\<exists>pls' plm'. single_run c from_slice (inputs_of steps) pls = Some pls' \<and> multi_run c from_slice steps plm = Some plm'
    \<and> shard_sim n pls' plm'"
  using assms(1)
proof (induction steps arbitrary: pls plm)
  case (Cons st steps)
  show ?case
  proof (cases st)
    case (ShardWork tx k)
    then show ?thesis using Cons.IH[OF shard_sim_work[OF Cons.prems assms(2)]] by simp
  next
    case (Dispatch env i)
    then show ?thesis
    proof (cases i)
      case (InSample s)
      then show ?thesis
        using shard_sim_sample[OF Cons.prems assms(2,3), of from_slice env s] Cons.IH by (fastforce simp: Dispatch)
    next
      case (InHeartbeat s)
      then show ?thesis using Cons.IH[OF shard_sim_heartbeat[OF Cons.prems]] by (simp add: Dispatch)
    qed
  qed
qed simp

text \<open>
  C11. Without offload, multi-shard processing refines the single-shard worker: for every interleaving of the
  dispatcher and the shard workers, both process every input, end with the
  same gap detector, deduplication window and recovery tasks, and for each publisher the events
  offered to the consumer so far, followed by those still queued in its shard, are exactly what the
  single-shard worker offers, in the same order.
\<close>

theorem multi_shard_refines_single:
  assumes "0 < pp_num_shards c" and "pipeline_new c None = Some pl"
  shows "\<exists>pls plm. single_run c from_slice (inputs_of steps) pl = Some pls \<and> multi_run c from_slice steps pl = Some plm
    \<and> pl_gd plm = pl_gd pls \<and> pl_dedup plm = pl_dedup pls \<and> pl_spawned plm = pl_spawned pls
    \<and> (\<forall>p. offered_by p plm @ pending_by p plm = offered_by p pls)"
proof -
  have "shard_sim (pp_num_shards c) pl pl"
    using assms shard_for_less by (fastforce simp: pipeline_new_def shard_sim_def offered_by_def pending_by_def)
  from shard_sim_run[OF this assms(1) refl, of from_slice steps] show ?thesis
    unfolding shard_sim_def by blast
qed

section \<open>No event is lost silently\<close>

definition offered_on :: "stream \<Rightarrow> 'f pipeline \<Rightarrow> u64 list" where
  "offered_on k pl = seqs_of k (map fst (pl_log pl))"

definition accounted :: "stream \<Rightarrow> u64 \<Rightarrow> 'f pipeline \<Rightarrow> bool" where
  "accounted k s pl \<longleftrightarrow> s \<in> set (offered_on k pl)
     \<or> (\<exists>m \<in> set (pl_spawned pl). (mi_source m, mi_partition m) = k \<and> fst (mi_missed m) \<le> s \<and> s < snd (mi_missed m))"

definition pipe_inv :: "'f pipeline \<Rightarrow> bool" where
  "pipe_inv pl \<longleftrightarrow> pl_offload pl = None \<and> (\<forall>k. sorted_wrt (<) (offered_on k pl)
     \<and> (\<forall>s \<in> set (offered_on k pl). s < expected_seq (hm_get (gd_last_seen (pl_gd pl)) k))
     \<and> (\<forall>s < expected_seq (hm_get (gd_last_seen (pl_gd pl)) k). accounted k s pl))"

text \<open>The sequence numbers an input tells the pipeline about.\<close>

fun announced :: "pipe_config \<Rightarrow> (bytes \<Rightarrow> HeartbeatBeacon result) \<Rightarrow> pipe_input \<Rightarrow> stream \<Rightarrow> u64 \<Rightarrow> bool" where
  "announced c from_slice (InSample (meta, key, payload)) k s \<longleftrightarrow>
     k = (em_pub_id meta, extract_partition key) \<and> s \<le> em_seq meta"
| "announced c from_slice (InHeartbeat z) k s \<longleftrightarrow>
     pp_heartbeat c \<noteq> Disabled \<and> recovery_enabled (pp_recovery_mode c)
     \<and> (case decode_heartbeat from_slice z of None \<Rightarrow> False
        | Some b \<Rightarrow> fst k = hb_pub_id b \<and> (\<exists>cur. (snd k, cur) \<in> set (hb_partition_seqs b) \<and> s \<le> cur))"

text \<open>Sequence counters stay below the largest 64-bit number.\<close>

fun in_bounds :: "(bytes \<Rightarrow> HeartbeatBeacon result) \<Rightarrow> pipe_input \<Rightarrow> bool" where
  "in_bounds from_slice (InSample (meta, key, payload)) \<longleftrightarrow> em_seq meta \<noteq> u64_MAX"
| "in_bounds from_slice (InHeartbeat z) \<longleftrightarrow>
     (case decode_heartbeat from_slice z of None \<Rightarrow> True | Some b \<Rightarrow> list_all (\<lambda>(q, cur). cur \<noteq> u64_MAX) (hb_partition_seqs b))"

lemma offered_on_offer:
  "offered_on k (offer tx meta key payload pl) =
     offered_on k pl @ (if (em_pub_id meta, extract_partition key) = k then [em_seq meta] else [])"
  by (simp add: offered_on_def seqs_of_def stream_of_def)

lemma accounted_mono:
  fixes pl pl' :: "'f pipeline"
  assumes "accounted k s pl" and "set (map fst (pl_log pl)) \<subseteq> set (map fst (pl_log pl'))"
    and "set (pl_spawned pl) \<subseteq> set (pl_spawned pl')"
  shows "accounted k s pl'"
proof -
  have o: "set (offered_on k pl) = re_seq ` {e \<in> set (map fst (pl_log pl)). stream_of e = k}" for pl :: "'f pipeline"
    by (simp add: offered_on_def seqs_of_def)
  have "set (offered_on k pl) \<subseteq> set (offered_on k pl')" unfolding o using assms(2) by (intro image_mono) blast
  then show ?thesis using assms(1,3) by (auto simp: accounted_def)
qed

text \<open>
  What one sample does to the pipeline: it advances its own stream past its sequence number,
  offering it and handing the skipped range to a recovery; or it is a duplicate.
\<close>

lemma sample_step:
  assumes "\<not> pp_key_filtered c" and "pp_publisher_ttl c = None" and "pl_offload pl = None"
    and "e = expected_seq (hm_get (gd_last_seen (pl_gd pl)) (em_pub_id meta, extract_partition key))"
  shows "\<exists>pl'. single_shard_step c from_slice env (InSample (meta, key, payload)) pl = Some pl' \<and> pl_offload pl' = None
    \<and> (if em_seq meta < e then map fst (pl_log pl') = map fst (pl_log pl) \<and> pl_spawned pl' = pl_spawned pl
           \<and> hm_get (gd_last_seen (pl_gd pl')) = hm_get (gd_last_seen (pl_gd pl))
       else map fst (pl_log pl') = map fst (pl_log pl) @ [raw_of meta key payload]
         \<and> pl_spawned pl' = pl_spawned pl @ (if em_seq meta = e then []
             else [\<lparr>mi_source = em_pub_id meta, mi_partition = extract_partition key, mi_missed = (e, em_seq meta)\<rparr>])
         \<and> hm_get (gd_last_seen (pl_gd pl')) = (hm_get (gd_last_seen (pl_gd pl)))((em_pub_id meta, extract_partition key) \<mapsto> em_seq meta))"
proof -
  let ?r = "on_sample (pl_gd pl) (pe_now env) (em_pub_id meta) (extract_partition key) (em_seq meta)"
  obtain gd r where g: "?r = (gd, r)" by (cases ?r)
  have gd: "hm_get (gd_last_seen gd) = (if e \<le> em_seq meta
      then (hm_get (gd_last_seen (pl_gd pl)))((em_pub_id meta, extract_partition key) \<mapsto> em_seq meta)
      else hm_get (gd_last_seen (pl_gd pl)))"
    using gd.sample_cursor[of "pl_gd pl" "pe_now env" "em_pub_id meta" "extract_partition key" "em_seq meta"] g assms(4) by simp
  have r: "r = (if em_seq meta = e then Deliver else if e < em_seq meta
      then Gap \<lparr>mi_source = em_pub_id meta, mi_partition = extract_partition key, mi_missed = (e, em_seq meta)\<rparr> else Duplicate)"
    using gd.sample_verdict[of "pl_gd pl" "pe_now env" "em_pub_id meta" "extract_partition key" "em_seq meta"] g assms(4) by simp
  let ?pl1 = "handle_sample_result (pe_tx env) r meta key payload (pl\<lparr>pl_gd := gd\<rparr>)"
  have step: "single_shard_step c from_slice env (InSample (meta, key, payload)) pl
      = Some (?pl1\<lparr>pl_sample_count := pl_sample_count ?pl1 + 1, pl_gd := pl_gd ?pl1\<rparr>)"
    by (simp add: sample_branch_def assms(1-3) g Let_def maybe_evict_def)
  consider "em_seq meta < e" "\<not> e < em_seq meta" "em_seq meta \<noteq> e" "\<not> e \<le> em_seq meta"
    | "em_seq meta = e" | "e < em_seq meta" "\<not> em_seq meta < e" "em_seq meta \<noteq> e" "e \<le> em_seq meta" by fastforce
  then show ?thesis
    unfolding step by cases (simp_all add: handle_sample_result_def gd r assms(3))
qed

lemma pipe_inv_sample:
  fixes pl :: "'f::{zero,linorder} pipeline"
  assumes "pipe_inv pl" and "\<not> pp_key_filtered c" and "pp_publisher_ttl c = None" and "em_seq meta \<noteq> u64_MAX"
  shows "\<exists>pl'. single_shard_step c from_slice env (InSample (meta, key, payload)) pl = Some pl' \<and> pipe_inv pl'
    \<and> (\<forall>k s. accounted k s pl \<longrightarrow> accounted k s pl')
    \<and> (\<forall>s \<le> em_seq meta. accounted (em_pub_id meta, extract_partition key) s pl')"
proof -
  let ?k = "(em_pub_id meta, extract_partition key)" and ?cur = "\<lambda>pl :: 'f pipeline. hm_get (gd_last_seen (pl_gd pl))"
  let ?e = "expected_seq (?cur pl ?k)"
  have inv: "pl_offload pl = None" "\<And>k. sorted_wrt (<) (offered_on k pl)"
    "\<And>k s. s \<in> set (offered_on k pl) \<Longrightarrow> s < expected_seq (?cur pl k)"
    "\<And>k s. s < expected_seq (?cur pl k) \<Longrightarrow> accounted k s pl"
    using assms(1) by (auto simp: pipe_inv_def)
  obtain pl' where step: "single_shard_step c from_slice env (InSample (meta, key, payload)) pl = Some pl'" "pl_offload pl' = None"
    and dup: "em_seq meta < ?e \<Longrightarrow> map fst (pl_log pl') = map fst (pl_log pl) \<and> pl_spawned pl' = pl_spawned pl \<and> ?cur pl' = ?cur pl"
    and new: "\<not> em_seq meta < ?e \<Longrightarrow> map fst (pl_log pl') = map fst (pl_log pl) @ [raw_of meta key payload]
         \<and> pl_spawned pl' = pl_spawned pl @ (if em_seq meta = ?e then []
             else [\<lparr>mi_source = em_pub_id meta, mi_partition = extract_partition key, mi_missed = (?e, em_seq meta)\<rparr>])
         \<and> ?cur pl' = (?cur pl)(?k \<mapsto> em_seq meta)"
    using sample_step[OF assms(2,3) inv(1) refl, of from_slice env meta key payload] by (auto split: if_splits)
  have mono: "accounted k s pl'" if "accounted k s pl" for k s
    using that by (rule accounted_mono) (use dup new in \<open>cases "em_seq meta < ?e"; force\<close>)+
  show ?thesis
  proof (cases "em_seq meta < ?e")
    case True
    then have eq: "offered_on k pl' = offered_on k pl" "?cur pl' = ?cur pl" for k
      using dup by (simp_all add: offered_on_def)
    have "pipe_inv pl'" using inv mono step(2) by (simp add: pipe_inv_def eq)
    moreover have "accounted ?k s pl'" if "s \<le> em_seq meta" for s using inv(4) mono True that by force
    ultimately show ?thesis using step mono by blast
  next
    case False
    have off: "offered_on k pl' = offered_on k pl @ (if k = ?k then [em_seq meta] else [])" for k
      using new False by (auto simp: offered_on_def seqs_of_def stream_of_def)
    have here: "accounted ?k s pl'" if "s \<le> em_seq meta" for s
    proof (cases "s < ?e")
      case True
      then show ?thesis using inv(4) mono by blast
    next
      case ge: False
      show ?thesis
      proof (cases "s = em_seq meta")
        case True
        then show ?thesis using off by (simp add: accounted_def)
      next
        case ne: False
        then have "?e \<le> s" "s < em_seq meta" "em_seq meta \<noteq> ?e" using ge that by auto
        then show ?thesis using new False by (simp add: accounted_def)
      qed
    qed
    have "pipe_inv pl'"
      unfolding pipe_inv_def
    proof (intro conjI allI ballI impI)
      fix k
      show "pl_offload pl' = None" by (rule step(2))
      show "sorted_wrt (<) (offered_on k pl')"
        using inv(2)[of k] inv(3)[where k = k] False by (fastforce simp: off sorted_wrt_append)
      show "s < expected_seq (?cur pl' k)" if "s \<in> set (offered_on k pl')" for s
        using that inv(3)[of s k] new False assms(4)
        by (cases "k = ?k") (auto simp: off expected_seq_def[of "Some _"] word_less_succ_iff)
      show "accounted k s pl'" if "s < expected_seq (?cur pl' k)" for s
        using that new False here[of s] mono[of k s] inv(4)[of s k] assms(4)
        by (cases "k = ?k") (auto simp: expected_seq_def[of "Some _"] word_less_succ_iff)
    qed
    then show ?thesis using step mono here by blast
  qed
qed

lemma heartbeat_step:
  assumes "pl_offload pl = None"
  shows "pl_log (heartbeat_branch c from_slice env z pl) = pl_log pl \<and> pl_offload (heartbeat_branch c from_slice env z pl) = None
    \<and> gd_last_seen (pl_gd (heartbeat_branch c from_slice env z pl)) = gd_last_seen (pl_gd pl)
    \<and> pl_spawned (heartbeat_branch c from_slice env z pl) = pl_spawned pl @
        (if pp_heartbeat c = Disabled \<or> pp_key_filtered c \<or> \<not> recovery_enabled (pp_recovery_mode c) then []
         else case decode_heartbeat from_slice z of None \<Rightarrow> []
           | Some b \<Rightarrow> snd (on_heartbeat (pl_gd pl) (pe_now env) (hb_pub_id b) (hb_partition_seqs b)))"
  using assms on_heartbeat_state
  by (auto simp: heartbeat_branch_def Let_def split: option.split prod.split) (metis fst_conv)

lemma pipe_inv_heartbeat:
  assumes "pipe_inv pl" and "\<not> pp_key_filtered c" and "in_bounds from_slice (InHeartbeat z)"
  shows "pipe_inv (heartbeat_branch c from_slice env z pl)
    \<and> (\<forall>k s. accounted k s pl \<longrightarrow> accounted k s (heartbeat_branch c from_slice env z pl))
    \<and> (\<forall>k s. announced c from_slice (InHeartbeat z) k s \<longrightarrow> accounted k s (heartbeat_branch c from_slice env z pl))"
proof -
  let ?pl' = "heartbeat_branch c from_slice env z pl"
  have off: "pl_offload pl = None" using assms(1) by (simp add: pipe_inv_def)
  note st = heartbeat_step[OF off, of c from_slice env z]
  have mono: "accounted k s ?pl'" if "accounted k s pl" for k s
    using that by (rule accounted_mono) (use st in auto)
  have on: "offered_on k ?pl' = offered_on k pl" for k using st by (simp add: offered_on_def)
  have inv: "pipe_inv ?pl'" using assms(1) st mono by (simp add: pipe_inv_def on)
  have "accounted (p, q) s ?pl'" if ann: "announced c from_slice (InHeartbeat z) (p, q) s" for p q s
  proof -
    obtain b cur where b: "decode_heartbeat from_slice z = Some b" "p = hb_pub_id b" "(q, cur) \<in> set (hb_partition_seqs b)" "s \<le> cur"
      and en: "pp_heartbeat c \<noteq> Disabled" "recovery_enabled (pp_recovery_mode c)"
      using ann by (auto split: option.splits)
    have cur: "cur \<noteq> u64_MAX" using assms(3) b by (auto simp: list_all_iff)
    let ?e = "expected_seq (last_seen (pl_gd pl) p q)"
    show ?thesis
    proof (cases "s < ?e")
      case True
      then show ?thesis using assms(1) mono by (auto simp: pipe_inv_def last_seen_def)
    next
      case False
      then have "\<lparr>mi_source = p, mi_partition = q, mi_missed = (?e, cur + 1)\<rparr> \<in> set (pl_spawned ?pl')"
        using st b en cur assms(2) by (force simp: on_heartbeat_misses)
      moreover have "?e \<le> s" "s < cur + 1" using False b(4) cur by (simp_all add: word_less_succ_iff)
      ultimately show ?thesis by (force simp: accounted_def)
    qed
  qed
  then have "accounted k s ?pl'" if "announced c from_slice (InHeartbeat z) k s" for k s
    using that by (metis surj_pair)
  then show ?thesis using inv mono by blast
qed

lemma pipe_inv_step:
  assumes "pipe_inv pl" and "\<not> pp_key_filtered c" and "pp_publisher_ttl c = None" and "in_bounds from_slice i"
  shows "\<exists>pl'. single_shard_step c from_slice env i pl = Some pl' \<and> pipe_inv pl' \<and> (\<forall>k s. accounted k s pl \<longrightarrow> accounted k s pl')
    \<and> (\<forall>k s. announced c from_slice i k s \<longrightarrow> accounted k s pl')"
proof (cases i)
  case (InSample x)
  obtain meta key payload where x: "x = (meta, key, payload)" by (cases x)
  then have "em_seq meta \<noteq> u64_MAX" using assms(4) InSample by simp
  from pipe_inv_sample[OF assms(1-3) this, of from_slice env key payload] show ?thesis
    by (auto simp: InSample x simp del: single_shard_step.simps)
next
  case (InHeartbeat z)
  then show ?thesis using pipe_inv_heartbeat[OF assms(1,2), of from_slice z env] assms(4)
    by (simp del: announced.simps in_bounds.simps)
qed

lemma pipe_inv_run:
  assumes "pipe_inv pl" and "\<not> pp_key_filtered c" and "pp_publisher_ttl c = None" and "\<forall>(env, i) \<in> set ins. in_bounds from_slice i"
  shows "\<exists>pl'. single_run c from_slice ins pl = Some pl' \<and> pipe_inv pl' \<and> (\<forall>k s. accounted k s pl \<longrightarrow> accounted k s pl')
    \<and> (\<forall>(env, i) \<in> set ins. \<forall>k s. announced c from_slice i k s \<longrightarrow> accounted k s pl')"
  using assms(1,4)
proof (induction ins arbitrary: pl)
  case (Cons x ins)
  obtain env i where x: "x = (env, i)" by (cases x)
  have b: "in_bounds from_slice i" using Cons.prems(2) x by auto
  obtain pl1 where 1: "single_shard_step c from_slice env i pl = Some pl1" "pipe_inv pl1"
    "\<And>k s. accounted k s pl \<Longrightarrow> accounted k s pl1" "\<And>k s. announced c from_slice i k s \<Longrightarrow> accounted k s pl1"
    using pipe_inv_step[OF Cons.prems(1) assms(2,3) b, of env] by blast
  obtain pl2 where 2: "single_run c from_slice ins pl1 = Some pl2" "pipe_inv pl2"
    "\<And>k s. accounted k s pl1 \<Longrightarrow> accounted k s pl2"
    "\<forall>(env, i) \<in> set ins. \<forall>k s. announced c from_slice i k s \<longrightarrow> accounted k s pl2"
    using Cons.IH[OF 1(2)] Cons.prems(2) by auto
  have "single_run c from_slice (x # ins) pl = Some pl2" using 1(1) 2(1) by (simp add: x)
  then show ?case using 1(3,4) 2 x by auto
qed simp

lemma pipe_inv_new: "pipeline_new c None = Some pl \<Longrightarrow> pipe_inv pl"
  by (auto simp: pipeline_new_def pipe_inv_def offered_on_def seqs_of_def gd_new_def expected_seq_def)


section \<open>A concrete pipeline\<close>

definition demo_pipe :: pipe_config where
  "demo_pipe = \<lparr>pp_key_filtered = False, pp_recovery_mode = Both, pp_heartbeat = Periodic 1, pp_publisher_ttl = None,
     pp_num_shards = 2, pp_dedup_capacity = 4\<rparr>"

definition demo_pipe_env :: "nat pipe_env" where
  "demo_pipe_env = \<lparr>pe_now = 0, pe_tx = (\<lambda>_ _. Sent), pe_channel_len = 0, pe_quot = (\<lambda>a b. a div b), pe_display = (\<lambda>_. []),
     pe_show_id = (\<lambda>_. []), pe_get = (\<lambda>_ _. Ok []), pe_elapsed = 0, pe_iterations = [], pe_waiting = [], pe_buffered = 0\<rparr>"

definition demo_sample :: "PublisherId \<Rightarrow> u64 \<Rightarrow> pipe_input" where
  "demo_sample p s = InSample (\<lparr>em_seq = s, em_pub_id = p, em_event_id = 9, em_timestamp = 0, em_urgency_ms = 0, em_hlc_physical_ns = None, em_hlc_logical = None\<rparr>, ''t/p/0/1'', [])"

definition demo_pl :: "nat pipeline" where
  "demo_pl = \<lparr>pl_gd = gd_new, pl_dedup = \<lparr>ed_order = [], ed_seen = {}, ed_capacity = 4\<rparr>, pl_sample_count = 0, pl_offload = None,
     pl_log = [], pl_spawned = [], pl_shards = [[], []]\<rparr>"

lemma demo_pl_new: "pipeline_new demo_pipe None = Some demo_pl"
  by (simp add: pipeline_new_def demo_pipe_def demo_pl_def dedup_new_def numeral_2_eq_2)

theorem multi_shard_refines_single_witness:
  "\<exists>pls plm. single_run demo_pipe (\<lambda>_. Err ChannelClosed) [(demo_pipe_env, demo_sample 1 0), (demo_pipe_env, demo_sample 2 0)] demo_pl = Some pls
    \<and> multi_run demo_pipe (\<lambda>_. Err ChannelClosed)
        [Dispatch demo_pipe_env (demo_sample 1 0), Dispatch demo_pipe_env (demo_sample 2 0), ShardWork (\<lambda>_ _. Sent) 1] demo_pl = Some plm
    \<and> (\<forall>p. offered_by p plm @ pending_by p plm = offered_by p pls)"
  using multi_shard_refines_single[of demo_pipe demo_pl "\<lambda>_. Err ChannelClosed"
      "[Dispatch demo_pipe_env (demo_sample 1 0), Dispatch demo_pipe_env (demo_sample 2 0), ShardWork (\<lambda>_ _. Sent) 1]"]
    demo_pl_new by (auto simp: demo_pipe_def)


end
