(* ===== verification/Delivery.thy ===== *)
theory Delivery
  imports Pipeline
begin

text \<open>
  The way of an event from publisher to consumer, across components: publish operation, attachment,
  network, decoding in the forwarder, gap detection and offer to the consumer; and the recovery of
  lost messages from the publisher's cache.  The network is the list of messages that arrive.
\<close>

definition put_sample :: "wire \<Rightarrow> zenoh_sample" where
  "put_sample w = \<lparr>zs_kind = Put, zs_key_expr = fst w, zs_payload = fst (snd w), zs_attachment = Some (snd (snd w))\<rparr>"

definition wire_meta :: "wire \<Rightarrow> EventMeta" where
  "wire_meta w = projr (decode_metadata (snd (snd w)))"

definition wire_raw :: "wire \<Rightarrow> RawEvent" where
  "wire_raw w = raw_of (wire_meta w) (fst w) (fst (snd w))"

definition arrives :: "wire \<Rightarrow> pipe_input" where
  "arrives w = InSample (the (decode_sample (put_sample w)))"

section \<open>Lossless delivery\<close>

lemma publisher_new_fresh [simp]:
  "pub_config (publisher_new i pc) = pc" "current_seq_for (publisher_new i pc) q = 0"
  by (simp_all add: publisher_new_def current_seq_for_def)

lemma message_decodes:
  assumes "message_for pub p s w"
  shows "decode_metadata (snd (snd w)) = Ok (wire_meta w)" "em_seq (wire_meta w) = s"
    "em_pub_id (wire_meta w) = pub_publisher_id pub" "extract_partition (fst w) = p"
proof -
  obtain key payload att where w: "w = (key, payload, att)" by (cases w)
  obtain m where m: "decode_metadata att = Ok m" "em_pub_id m = pub_publisher_id pub"
    using assms by (auto simp: message_for_def w)
  have "em_seq m = s" "extract_partition key = p" using assms m(1) by (simp_all add: message_for_def w wire_simps)
  then show "decode_metadata (snd (snd w)) = Ok (wire_meta w)" "em_seq (wire_meta w) = s"
    "em_pub_id (wire_meta w) = pub_publisher_id pub" "extract_partition (fst w) = p"
    using m by (simp_all add: w wire_meta_def)
qed

lemma arrives_message:
  assumes "message_for pub p s w" and "\<not> str_contains ''/_'' (fst w)"
  shows "arrives w = InSample (wire_meta w, fst w, fst (snd w))"
  using message_decodes(1)[OF assms(1)] assms(2) by (simp add: arrives_def decode_sample_def put_sample_def)

text \<open>
  A step of the publisher beside a step of the subscriber: the cursor of the subscriber follows the
  counter of the publisher.
\<close>

definition in_step :: "EventPublisher \<Rightarrow> 'f pipeline \<Rightarrow> bool" where
  "in_step pub pl \<longleftrightarrow> pl_offload pl = None
     \<and> (\<forall>q. expected_seq (hm_get (gd_last_seen (pl_gd pl)) (pub_publisher_id pub, q)) = current_seq_for pub q)"

lemma in_step_call:
  assumes "in_step pub pl" and "call_takes pub pub' (Ok rc) ws p" and "\<forall>w \<in> set ws. \<not> str_contains ''/_'' (fst w)"
    and "\<not> pp_key_filtered c" and "pp_publisher_ttl c = None"
  shows "\<exists>w pl'. ws = [w] \<and> single_shard_step c from_slice env (arrives w) pl = Some pl' \<and> in_step pub' pl'
    \<and> map fst (pl_log pl') = map fst (pl_log pl) @ [wire_raw w] \<and> pl_spawned pl' = pl_spawned pl"
proof -
  have cur: "\<And>q. current_seq_for pub' q = current_seq_for pub q + (if q = p then 1 else 0)"
    and id: "pub_publisher_id pub' = pub_publisher_id pub" using assms(2) by (auto simp: call_takes_def)
  obtain w where w: "ws = [w]" and m: "message_for pub p (current_seq_for pub p) w"
    using assms(2) by (auto simp: call_takes_def)
  note d = message_decodes[OF m]
  have a: "arrives w = InSample (wire_meta w, fst w, fst (snd w))" using arrives_message[OF m] assms(3) w by simp
  have e: "em_seq (wire_meta w) = expected_seq (hm_get (gd_last_seen (pl_gd pl)) (em_pub_id (wire_meta w), extract_partition (fst w)))"
    using assms(1) d by (simp add: in_step_def)
  obtain pl' where pl': "single_shard_step c from_slice env (arrives w) pl = Some pl'" "pl_offload pl' = None"
    "map fst (pl_log pl') = map fst (pl_log pl) @ [wire_raw w]" "pl_spawned pl' = pl_spawned pl"
    "hm_get (gd_last_seen (pl_gd pl')) = (hm_get (gd_last_seen (pl_gd pl)))((pub_publisher_id pub, p) \<mapsto> current_seq_for pub p)"
    using sample_step[OF assms(4,5) _ e, of from_slice env "fst (snd w)"] assms(1) d a
    by (auto simp: in_step_def wire_raw_def)
  have "in_step pub' pl'"
    unfolding in_step_def
  proof (intro conjI allI)
    show "pl_offload pl' = None" by (rule pl'(2))
    fix q
    show "expected_seq (hm_get (gd_last_seen (pl_gd pl')) (pub_publisher_id pub', q)) = current_seq_for pub' q"
      using assms(1) by (cases "q = p") (simp_all add: in_step_def pl'(5) id cur expected_seq_def[of "Some _"])
  qed
  then show ?thesis using pl' w by blast
qed

lemma in_step_run:
  assumes "prefix_free (CHR ''p'') (pc_key_prefix (pub_config pub))"
    and "pub_run H pub ops = Some (pub', rs, ws)" and "list_all is_ok rs"
    and "in_step pub pl" and "\<forall>w \<in> set ws. \<not> str_contains ''/_'' (fst w)"
    and "\<not> pp_key_filtered c" and "pp_publisher_ttl c = None" and "map snd ins = map arrives ws"
  shows "\<exists>pl'. single_run c from_slice ins pl = Some pl' \<and> in_step pub' pl'
    \<and> map fst (pl_log pl') = map fst (pl_log pl) @ map wire_raw ws \<and> pl_spawned pl' = pl_spawned pl"
  using assms(1-5,8)
proof (induction ops arbitrary: pub pl rs ws ins)
  case (Cons eo ops)
  obtain env op where eo: "eo = (env, op)" by (cases eo)
  obtain pub1 r ws1 rs2 ws2 where call: "pub_call H env pub op = Some (pub1, r, ws1)"
    and run: "pub_run H pub1 ops = Some (pub', rs2, ws2)" and rs: "rs = r # rs2" "ws = ws1 @ ws2"
    using Cons.prems(2) by (auto simp: eo split: option.splits)
  obtain rc where r: "r = Ok rc" using Cons.prems(3) rs by (auto simp: is_ok_def split: sum.splits)
  obtain p0 where taken: "call_takes pub pub1 (Ok rc) ws1 p0"
    using pub_call_effect[OF Cons.prems(1) call] r by (auto simp: call_effect_def)
  have "\<forall>w \<in> set ws1. \<not> str_contains ''/_'' (fst w)" using Cons.prems(5) rs by simp
  note step = in_step_call[OF Cons.prems(4) taken this assms(6,7)]
  then obtain w where w: "ws1 = [w]" by blast
  obtain env1 ins2 where ins: "ins = (env1, arrives w) # ins2" "map snd ins2 = map arrives ws2"
    using Cons.prems(6) by (auto simp: rs w)
  obtain pl1 where 1: "single_shard_step c from_slice env1 (arrives w) pl = Some pl1" "in_step pub1 pl1"
    "map fst (pl_log pl1) = map fst (pl_log pl) @ [wire_raw w]" "pl_spawned pl1 = pl_spawned pl"
    using step[of from_slice env1] w by auto
  have "pub_config pub1 = pub_config pub" using taken by (simp add: call_takes_def)
  then obtain pl2 where "single_run c from_slice ins2 pl1 = Some pl2" "in_step pub' pl2"
    "map fst (pl_log pl2) = map fst (pl_log pl1) @ map wire_raw ws2" "pl_spawned pl2 = pl_spawned pl1"
    using Cons.IH[of pub1 rs2 ws2 pl1 ins2] Cons.prems(1,3,5) run 1(2) ins(2) rs by auto
  then show ?case using 1 ins(1) by (simp add: rs w)
qed auto

subsection \<open>What the caller published\<close>

text \<open>
  The event a call publishes, from its arguments and its receipt alone: identity and time are those of the event,
  or for bare bytes those drawn by the call; the payload is the given bytes, or what the codec makes of the
  event; the key expression is the given one or follows the layout of the topic.  A time outside the range of
  64-bit nanoseconds counts as the epoch.
\<close>

fun given_event :: "'t pub_env \<Rightarrow> 't pub_op \<Rightarrow> EventId \<times> DateTime \<times> bytes result" where
  "given_event env (OpBytes bs) = (env_new_id env, env_now env, Ok bs)"
| "given_event env (OpBytesTo k bs) = (env_new_id env, env_now env, Ok bs)"
| "given_event env (OpBytesDurable bs) = (env_new_id env, env_now env, Ok bs)"
| "given_event env (OpBytesDurableTo k bs) = (env_new_id env, env_now env, Ok bs)"
| "given_event env (OpBytesKeyed k bs) = (env_new_id env, env_now env, Ok bs)"
| "given_event env (OpBytesKeyedDurable k bs) = (env_new_id env, env_now env, Ok bs)"
| "given_event env (OpKeyed k e) = (ev_id e, ev_timestamp e, env_encode env (ev_payload e))"
| "given_event env (OpKeyedDurable k e) = (ev_id e, ev_timestamp e, env_encode env (ev_payload e))"
| "given_event env (OpPublish e) = (ev_id e, ev_timestamp e, env_encode env (ev_payload e))"
| "given_event env (OpTo k e) = (ev_id e, ev_timestamp e, env_encode env (ev_payload e))"
| "given_event env (OpDurable e) = (ev_id e, ev_timestamp e, env_encode env (ev_payload e))"

fun given_expr :: "string \<Rightarrow> 't pub_op \<Rightarrow> u32 \<Rightarrow> u64 \<Rightarrow> string" where
  "given_expr kp (OpBytesTo k bs) p s = k"
| "given_expr kp (OpBytesDurableTo k bs) p s = k"
| "given_expr kp (OpTo k e) p s = k"
| "given_expr kp (OpKeyed k e) p s = kp @ ''/p/'' @ show_word p @ ''/k/'' @ k @ ''/'' @ show_word s"
| "given_expr kp (OpBytesKeyed k bs) p s = kp @ ''/p/'' @ show_word p @ ''/k/'' @ k @ ''/'' @ show_word s"
| "given_expr kp (OpKeyedDurable k e) p s = kp @ ''/p/'' @ show_word p @ ''/k/'' @ k @ ''/'' @ show_word s"
| "given_expr kp (OpBytesKeyedDurable k bs) p s = kp @ ''/p/'' @ show_word p @ ''/k/'' @ k @ ''/'' @ show_word s"
| "given_expr kp (OpBytes bs) p s = kp @ ''/p/'' @ show_word p @ ''/'' @ show_word s"
| "given_expr kp (OpBytesDurable bs) p s = kp @ ''/p/'' @ show_word p @ ''/'' @ show_word s"
| "given_expr kp (OpPublish e) p s = kp @ ''/p/'' @ show_word p @ ''/'' @ show_word s"
| "given_expr kp (OpDurable e) p s = kp @ ''/p/'' @ show_word p @ ''/'' @ show_word s"

definition published :: "PublisherId \<Rightarrow> string \<Rightarrow> 't pub_env \<times> 't pub_op \<Rightarrow> PublishReceipt result \<Rightarrow> RawEvent" where
  "published i kp eo r =
     (case given_event (fst eo) (snd eo) of (event_id, time, payload) \<Rightarrow>
        \<lparr>re_id = event_id, re_seq = rc_seq (projr r), re_publisher_id = i,
         re_key_expr = given_expr kp (snd eo) (rc_partition (projr r)) (rc_seq (projr r)),
         re_payload = projr payload, re_timestamp = nanos_or 0 time\<rparr>)"

lemma put_payload_raw:
  assumes "put_payload env pub key payload seq i t u = (pub', Ok (), ws)"
  shows "map wire_raw ws = [\<lparr>re_id = i, re_seq = seq, re_publisher_id = pub_publisher_id pub, re_key_expr = key, re_payload = payload,
      re_timestamp = nanos_or 0 t\<rparr>] \<and> pub_publisher_id pub' = pub_publisher_id pub"
  using assms by (auto simp: put_payload_def Let_def wire_raw_def wire_meta_def raw_of_def split: sum.splits)

lemma publish_inner_raw:
  assumes "publish_inner env pub key e seq u = (pub', Ok (), ws)"
  shows "map wire_raw ws = [\<lparr>re_id = ev_id e, re_seq = seq, re_publisher_id = pub_publisher_id pub, re_key_expr = key,
      re_payload = projr (env_encode env (ev_payload e)), re_timestamp = nanos_or 0 (ev_timestamp e)\<rparr>]
    \<and> pub_publisher_id pub' = pub_publisher_id pub"
  using assms by (auto simp: publish_inner_def dest: put_payload_raw split: sum.splits)

lemma finish_ok:
  "finish step i seq p t = (pub', Ok rc, ws) \<longleftrightarrow> step = (pub', Ok (), ws) \<and> rc = publish_receipt pub' i seq p t"
  "finish_durable env step i seq p t = (pub', Ok rc, ws) \<longleftrightarrow>
     step = (pub', Ok (), ws) \<and> wait_for_watermark env pub' p seq = Ok () \<and> rc = publish_receipt pub' i seq p t"
  by (auto simp: finish_def finish_durable_def split: prod.splits)

lemma next_seq_frame: "next_seq_for pub p = (seq, pub1) \<Longrightarrow> pub_publisher_id pub1 = pub_publisher_id pub"
  by (auto simp: next_seq_for_eq)

lemma assign_partition_frame: "assign_partition pub = (p, pub1) \<Longrightarrow> pub_publisher_id pub1 = pub_publisher_id pub"
  by (auto simp: assign_partition_def Let_def)

lemma call_published:
  assumes "pub_call H env pub op = Some (pub', Ok rc, ws)"
  shows "map wire_raw ws = [published (pub_publisher_id pub) (pc_key_prefix (pub_config pub)) (env, op) (Ok rc)]"
  using assms
  by (cases op)
    (auto simp: publish_defs Let_def finish_ok published_def publish_receipt_def unkeyed_expr_def keyed_expr_def
      split: prod.splits sum.splits option.splits
      dest!: put_payload_raw publish_inner_raw next_seq_frame assign_partition_frame)

lemma run_published:
  assumes "prefix_free (CHR ''p'') (pc_key_prefix (pub_config pub))"
    and "pub_run H pub ops = Some (pub', rs, ws)" and "list_all is_ok rs"
  shows "map wire_raw ws = map2 (published (pub_publisher_id pub) (pc_key_prefix (pub_config pub))) ops rs"
  using assms
proof (induction ops arbitrary: pub rs ws)
  case (Cons eo ops)
  obtain env op where eo: "eo = (env, op)" by (cases eo)
  obtain pub1 r ws1 rs2 ws2 where call: "pub_call H env pub op = Some (pub1, r, ws1)"
    and run: "pub_run H pub1 ops = Some (pub', rs2, ws2)" and rs: "rs = r # rs2" "ws = ws1 @ ws2"
    using Cons.prems(2) by (auto simp: eo split: option.splits)
  obtain rc where r: "r = Ok rc" using Cons.prems(3) rs by (auto simp: is_ok_def split: sum.splits)
  have "pub_config pub1 = pub_config pub" "pub_publisher_id pub1 = pub_publisher_id pub"
    using pub_call_effect[OF Cons.prems(1) call] r by (auto simp: call_effect_def call_takes_def)
  then show ?case using Cons.IH[of pub1 rs2 ws2] Cons.prems(1,3) run rs call_published[OF call[unfolded r]] r by (simp add: eo)
qed simp

subsection \<open>What the channel took\<close>

text \<open>A consumer channel with room for every event takes every offer.\<close>

lemma taken_step:
  assumes "\<not> pp_key_filtered c" and "pp_publisher_ttl c = None" and "pl_offload pl = None"
    and "single_shard_step c from_slice env (InSample d) pl = Some pl'" and "\<And>sent e. pe_tx env sent e = Sent"
    and "\<forall>x \<in> set (pl_log pl). snd x = Sent"
  shows "pl_offload pl' = None \<and> (\<forall>x \<in> set (pl_log pl'). snd x = Sent)"
proof -
  obtain meta key payload where d: "d = (meta, key, payload)" by (cases d)
  obtain gd r where g: "on_sample (pl_gd pl) (pe_now env) (em_pub_id meta) (extract_partition key) (em_seq meta) = (gd, r)"
    by (cases "on_sample (pl_gd pl) (pe_now env) (em_pub_id meta) (extract_partition key) (em_seq meta)")
  let ?pl1 = "handle_sample_result (pe_tx env) r meta key payload (pl\<lparr>pl_gd := gd\<rparr>)"
  have "pl_offload ?pl1 = None" using assms(3) by (cases r) (simp_all add: handle_sample_result_def)
  moreover from this have "pl' = ?pl1\<lparr>pl_sample_count := pl_sample_count ?pl1 + 1\<rparr>"
    using assms(4) by (simp add: d sample_branch_def assms(1-3) g Let_def maybe_evict_def)
  moreover have "\<forall>x \<in> set (pl_log ?pl1). snd x = Sent"
    using assms(5,6) by (cases r) (simp_all add: handle_sample_result_def offer_def deliver_event_def spawn_recovery_def Let_def)
  ultimately show ?thesis by simp
qed

lemma taken_run:
  assumes "\<not> pp_key_filtered c" and "pp_publisher_ttl c = None"
  shows "single_run c from_slice ins pl = Some pl' \<Longrightarrow> pl_offload pl = None \<Longrightarrow> \<forall>(env, i) \<in> set ins. (\<exists>d. i = InSample d) \<and> (\<forall>sent e. pe_tx env sent e = Sent)
    \<Longrightarrow> \<forall>x \<in> set (pl_log pl). snd x = Sent \<Longrightarrow> \<forall>x \<in> set (pl_log pl'). snd x = Sent"
proof (induction ins arbitrary: pl)
  case (Cons x ins)
  obtain env d where x: "x = (env, InSample d)" "\<And>sent e. pe_tx env sent e = Sent" using Cons.prems(3) by (cases x) auto
  obtain pl1 where s: "single_shard_step c from_slice env (InSample d) pl = Some pl1" "single_run c from_slice ins pl1 = Some pl'"
    using Cons.prems(1) by (auto simp: x(1) split: option.splits)
  from taken_step[OF assms Cons.prems(2) s(1) x(2) Cons.prems(4)] show ?case
    using Cons.IH[OF s(2)] Cons.prems(3) by auto
qed auto

lemma in_set_map_snd: "(a, b) \<in> set xs \<Longrightarrow> b \<in> set (map snd xs)"
  by (induction xs) auto

lemma arrives_sample: "x \<in> set (map arrives ws) \<Longrightarrow> \<exists>d. x = InSample d"
  by (induction ws) (auto simp: arrives_def simp del: split_paired_Ex)

lemma all_sent: "\<forall>x \<in> set xs. snd x = Sent \<Longrightarrow> xs = map (\<lambda>e. (e, Sent)) (map fst xs)"
  by (induction xs) auto

text \<open>
  C8. End to end, without loss on the network: whatever mix of publish operations a fresh publisher
  performs successfully, a fresh subscriber that receives its messages in the order they were put
  offers exactly the published events to its consumer, in that order, each with the payload, identity,
  time, key expression, sequence number and publisher of the call that published it, and starts no recovery; when
  the channel of the consumer takes every offer, each of them is in the channel.  The subscriber runs without
  offload, publisher eviction and key filter; the topic prefix has no segment \<^verbatim>\<open>p\<close> and no key holds the
  reserved \<^verbatim>\<open>/_\<close>.
\<close>

theorem published_events_are_delivered:
  assumes "prefix_free (CHR ''p'') (pc_key_prefix pc)"
    and "pub_run H (publisher_new i pc) ops = Some (pub', rs, ws)" and "list_all is_ok rs"
    and "\<forall>w \<in> set ws. \<not> str_contains ''/_'' (fst w)"
    and "\<not> pp_key_filtered c" and "pp_publisher_ttl c = None" and "pipeline_new c None = Some pl"
    and "map snd ins = map arrives ws"
  shows "\<exists>pl'. single_run c from_slice ins pl = Some pl' \<and> pl_spawned pl' = []
    \<and> map fst (pl_log pl') = map2 (published i (pc_key_prefix pc)) ops rs
    \<and> ((\<forall>(env, _) \<in> set ins. \<forall>sent e. pe_tx env sent e = Sent)
       \<longrightarrow> pl_log pl' = map (\<lambda>e. (e, Sent)) (map2 (published i (pc_key_prefix pc)) ops rs))"
proof -
  have start: "in_step (publisher_new i pc) pl" "pl_log pl = []" "pl_spawned pl = []" "pl_offload pl = None"
    using assms(7) by (auto simp: in_step_def pipeline_new_def publisher_new_def current_seq_for_def gd_new_def expected_seq_def)
  obtain pl' where run: "single_run c from_slice ins pl = Some pl'" "map fst (pl_log pl') = map wire_raw ws" "pl_spawned pl' = []"
    using in_step_run[OF _ assms(2,3) start(1) assms(4-6,8), of from_slice] assms(1) unfolding start(2,3) publisher_new_fresh by auto
  have raws: "map wire_raw ws = map2 (published i (pc_key_prefix pc)) ops rs"
    using run_published[OF _ assms(2,3)] assms(1) by (simp add: publisher_new_def)
  have ins: "\<exists>d. x = InSample d" if "(env, x) \<in> set ins" for env x
  proof -
    have "x \<in> set (map snd ins)" using that by (rule in_set_map_snd)
    then have "x \<in> set (map arrives ws)" unfolding assms(8) .
    then show ?thesis by (rule arrives_sample)
  qed
  have "pl_log pl' = map (\<lambda>e. (e, Sent)) (map fst (pl_log pl'))" if sent: "\<forall>(env, _) \<in> set ins. \<forall>sent e. pe_tx env sent e = Sent"
  proof -
    have "(\<exists>d. snd y = InSample d) \<and> (\<forall>sent e. pe_tx (fst y) sent e = Sent)" if "y \<in> set ins" for y
      using ins[of "fst y" "snd y"] bspec[OF sent that] that by (simp add: split_beta)
    then have "\<forall>(env, x) \<in> set ins. (\<exists>d. x = InSample d) \<and> (\<forall>sent e. pe_tx env sent e = Sent)" unfolding split_beta by (rule ballI)
    then have "\<forall>x \<in> set (pl_log pl'). snd x = Sent" by (rule taken_run[OF assms(5,6) run(1) start(4)]) (simp add: start(2))
    then show ?thesis by (rule all_sent)
  qed
  then show ?thesis unfolding run(2) raws by (intro exI[of _ pl'] conjI impI run(1,3) run(2)[unfolded raws])
qed

lemma small_numbers: "show_nat 0 = ''0''" "show_nat (Suc 0) = ''1''" "show_nat 2 = ''2''"
  by code_simp+

lemma demo_messages:
  "\<forall>w \<in> set (snd (snd (the demo_run))). \<not> str_contains ''/_'' (fst w)"
  by (simp add: demo_run_def demo_ops_def demo_env_def demo_pub_def publisher_new_def publish_bytes_def
      publish_bytes_keyed_def validate_key_def partition_for_def assign_partition_def next_seq_for_def
      put_payload_def finish_def unkeyed_expr_def keyed_expr_def str_contains_def show_word_def small_numbers Let_def)

theorem published_events_are_delivered_witness:
  "\<exists>pl'. single_run demo_pipe (\<lambda>_. Err ChannelClosed) (map (\<lambda>w. (demo_pipe_env, arrives w)) (snd (snd (the demo_run)))) demo_pl = Some pl'
    \<and> map (re_payload \<circ> fst) (pl_log pl') = [[1], [2], [3]] \<and> map snd (pl_log pl') = [Sent, Sent, Sent] \<and> pl_spawned pl' = []"
proof -
  have len: "length (fst (snd (the demo_run))) = 3"
    by (simp add: demo_run_def demo_ops_def demo_env_def demo_pub_def publisher_new_def publish_bytes_def
      publish_bytes_keyed_def validate_key_def partition_for_def assign_partition_def next_seq_for_def
      put_payload_def finish_def Let_def)
  then obtain r1 r2 r3 where rs: "fst (snd (the demo_run)) = [r1, r2, r3]"
    by (auto simp: numeral_3_eq_3 length_Suc_conv)
  show ?thesis
    using published_events_are_delivered[of "pub_config demo_pub", OF demo_prefix, of "\<lambda>_. 2" 7 demo_ops
        "fst (the demo_run)" "fst (snd (the demo_run))" "snd (snd (the demo_run))" demo_pipe demo_pl
        "map (\<lambda>w. (demo_pipe_env, arrives w)) (snd (snd (the demo_run)))" "\<lambda>_. Err ChannelClosed"]
      demo_run_result demo_run_ok demo_messages demo_pl_new
    by (auto simp: demo_pub_def publisher_new_def demo_pipe_def demo_pipe_env_def comp_def rs demo_ops_def published_def)
qed

section \<open>Recovery from the publisher cache\<close>

definition wire_reply :: "wire \<Rightarrow> query_reply" where
  "wire_reply w = ReplySample (fst w) (fst (snd w)) (Some (snd (snd w)))"

lemma run_messages:
  assumes "prefix_free (CHR ''p'') (pc_key_prefix (pub_config pub))"
    and "pub_run H pub ops = Some (pub', rs, ws)" and "w \<in> set ws"
  shows "\<exists>p. message_for pub p (wire_seq w) w"
  using assms
proof (induction ops arbitrary: pub rs ws)
  case (Cons eo ops)
  obtain env op where eo: "eo = (env, op)" by (cases eo)
  obtain pub1 r ws1 rs2 ws2 where call: "pub_call H env pub op = Some (pub1, r, ws1)"
    and run: "pub_run H pub1 ops = Some (pub', rs2, ws2)" and rs: "rs = r # rs2" "ws = ws1 @ ws2"
    using Cons.prems(2) by (auto simp: eo split: option.splits)
  have eff: "pub_config pub1 = pub_config pub" "pub_publisher_id pub1 = pub_publisher_id pub"
    "w \<in> set ws1 \<Longrightarrow> \<exists>p. message_for pub p (wire_seq w) w"
    using pub_call_effect[OF Cons.prems(1) call] by (auto simp: call_effect_def call_takes_def message_for_def)
  show ?case
  proof (cases "w \<in> set ws1")
    case False
    then have "w \<in> set ws2" using Cons.prems(3) rs by simp
    then obtain p where "message_for pub1 p (wire_seq w) w" using Cons.IH[of pub1 rs2 ws2] Cons.prems(1) eff(1) run by auto
    then show ?thesis using eff(2) by (auto simp: message_for_def)
  qed (use eff in blast)
qed simp

text \<open>Replies in range are offered one by one, in order; the others are ignored.\<close>

lemma fold_ranged_replies:
  assumes "\<forall>w \<in> set ws. decode_metadata (snd (snd w)) = Ok (wire_meta w)"
    and "distinct (map (em_seq \<circ> wire_meta) (filter (\<lambda>w. in_range r (em_seq (wire_meta w))) ws))"
    and "\<forall>w \<in> set ws. in_range r (em_seq (wire_meta w)) \<longrightarrow> em_seq (wire_meta w) \<notin> tr_recovered (rs_tracker st)"
    and "tr_expected (rs_tracker st) = r"
  shows "map fst (rs_log (fold (handle_reply tx) (map wire_reply ws) st))
    = map fst (rs_log st) @ map wire_raw (filter (\<lambda>w. in_range r (em_seq (wire_meta w))) ws)"
  using assms
proof (induction ws arbitrary: st)
  case (Cons w ws)
  let ?st = "handle_reply tx (wire_reply w) st"
  show ?case
  proof (cases "in_range r (em_seq (wire_meta w))")
    case False
    then have "?st = st" using Cons.prems(1,4) by (simp add: handle_reply_def wire_reply_def)
    then show ?thesis using Cons False by simp
  next
    case True
    have st: "tr_expected (rs_tracker ?st) = r"
      "tr_recovered (rs_tracker ?st) = insert (em_seq (wire_meta w)) (tr_recovered (rs_tracker st))"
      "map fst (rs_log ?st) = map fst (rs_log st) @ [wire_raw w]"
      using Cons.prems True
      by (simp_all add: handle_reply_def wire_reply_def record_seq_def deliver_event_def wire_raw_def raw_of_def Let_def)
    have "(em_seq \<circ> wire_meta) w \<notin> (em_seq \<circ> wire_meta) ` {v \<in> set ws. in_range r (em_seq (wire_meta v))}"
      using Cons.prems(2) True by simp
    then have "\<forall>v \<in> set ws. in_range r (em_seq (wire_meta v)) \<longrightarrow> em_seq (wire_meta v) \<noteq> em_seq (wire_meta w)"
      unfolding comp_def by (metis (mono_tags, lifting) image_eqI mem_Collect_eq)
    then show ?thesis using Cons.IH[of ?st] Cons.prems st True by simp
  qed
qed simp

text \<open>The messages of a one-partition run in a range of sequence numbers.\<close>

lemma range_messages:
  assumes "prefix_free (CHR ''p'') (pc_key_prefix pc)"
    and "pub_run H (publisher_new i pc) ops = Some (pub', rs, ws)" and "list_all is_ok rs"
    and "length ops < 2 ^ 64" and "\<forall>w \<in> set ws. wire_partition w = p" and "b \<le> current_seq_for pub' p"
  shows "distinct (map wire_seq ws) \<and> wire_seq ` {w \<in> set ws. a \<le> wire_seq w \<and> wire_seq w < b} = {a..<b}"
proof -
  have "seqs_on p ws = word_range 0 (current_seq_for pub' p)"
    using pub_run_seqs[of "publisher_new i pc" H ops pub' rs ws p] assms by simp
  then have "map wire_seq ws = word_range 0 (current_seq_for pub' p)" using assms(5) by (simp cong: filter_cong)
  then have d: "distinct (map wire_seq ws)" "wire_seq ` set ws = {0..<current_seq_for pub' p}"
    using sorted_word_range strict_sorted_iff by (metis, metis set_map set_word_range)
  have "wire_seq ` {w \<in> set ws. a \<le> wire_seq w \<and> wire_seq w < b} = {s \<in> wire_seq ` set ws. a \<le> s \<and> s < b}" by blast
  also have "\<dots> = {a..<b}" unfolding d(2) using assms(6) by auto
  finally show ?thesis using d(1) by blast
qed

text \<open>
  A gap is closed from the publisher's cache: a subscriber that missed messages
  \<^term>\<open>a\<close> up to \<^term>\<open>b\<close> of a one-partition publisher, all still in the cache,
  and whose store answers nothing, recovers from the cache query exactly the missed events, as they
  were published and in order, and reports success.
\<close>

theorem cache_closes_gap:
  assumes "prefix_free (CHR ''p'') (pc_key_prefix pc)"
    and "pub_run H (publisher_new i pc) ops = Some (pub', rs, ws)" and "list_all is_ok rs"
    and "length ops < 2 ^ 64" and "\<forall>w \<in> set ws. wire_partition w = p" and "b \<le> current_seq_for pub' p"
    and "0 < pc_cache_size pc" and "length ws \<le> pc_cache_size pc"
    and "mi_missed miss = (a, b)" and "a < b" and "rec_store_key_prefix c = Some sp"
    and "get 0 (store_recovery_selector show_id sp miss) = Ok []"
    and "get 1 (cache_selector show_id c miss) = Ok (map wire_reply (cache_query pub' params))"
    and "params ''after_seq'' = Some (show_word a)" and "params ''before_seq'' = Some (show_word b)"
  shows "\<exists>st. recover_gap show_id get tx c miss = Some (Ok (), st)
    \<and> map fst (rs_log st) = map wire_raw (filter (\<lambda>w. a \<le> wire_seq w \<and> wire_seq w < b) ws)"
proof -
  let ?ws = "filter (\<lambda>w. a \<le> wire_seq w \<and> wire_seq w < b) ws"
  have "lastn (pc_cache_size pc) ws = ws" using assms(8) by (simp add: lastn_def)
  then have q: "cache_query pub' params = ?ws"
    using cache_query_recent[OF assms(1,7,2,3,14,15)] by simp
  note rg = range_messages[OF assms(1-6), of a]
  have dec: "decode_metadata (snd (snd w)) = Ok (wire_meta w)" "em_seq (wire_meta w) = wire_seq w" if w: "w \<in> set ws" for w
  proof -
    obtain p' where "message_for (publisher_new i pc) p' (wire_seq w) w"
      using run_messages[of "publisher_new i pc" H ops pub' rs ws w] assms(1,2) w by auto
    from message_decodes(1,2)[OF this] show "decode_metadata (snd (snd w)) = Ok (wire_meta w)" "em_seq (wire_meta w) = wire_seq w"
      by simp_all
  qed
  define st0 where "st0 = \<lparr>rs_tracker = tracker_new (a, b), rs_log = [], rs_queries = 0, rs_sleeps = []\<rparr>"
  define st1 where "st1 = query_and_deliver get tx (store_recovery_selector show_id sp miss) (rec_sleep (rec_recovery_delay c) st0)"
  have st1: "rs_tracker st1 = tracker_new (a, b)" "rs_log st1 = []" "rs_queries st1 = 1"
    using assms(12) by (simp_all add: st1_def st0_def query_and_deliver_def rec_sleep_def)
  have inv1: "rec_inv tx (a, b) st1" using st1 by (simp add: rec_inv_def tracker_new_def)
  have nc: "\<not> is_complete (rs_tracker st1)"
    using is_complete_iff[OF inv1] assms(10) st1 by (auto simp: tracker_new_def)
  define st2 where "st2 = query_and_deliver get tx (cache_selector show_id c miss) st1"
  have "covers (a, b) (map wire_reply ?ws)"
    unfolding covers_def
  proof
    fix s assume "s \<in> {fst (a, b)..<snd (a, b)}"
    then have "s \<in> wire_seq ` {w \<in> set ws. a \<le> wire_seq w \<and> wire_seq w < b}" using rg by simp
    then obtain w where w: "w \<in> set ws" "a \<le> wire_seq w" "wire_seq w < b" "wire_seq w = s" by blast
    then have "reply_seq (wire_reply w) = Some s" using dec by (simp add: reply_seq_def wire_reply_def)
    then show "Some s \<in> reply_seq ` set (map wire_reply ?ws)" using w by force
  qed
  then have "is_complete (rs_tracker st2)"
    unfolding st2_def using covering_query_completes[OF inv1, of get "cache_selector show_id c miss"] assms(10,13) st1(3) q by simp
  moreover have "map fst (rs_log st2) = map wire_raw ?ws"
  proof -
    have "st2 = fold (handle_reply tx) (map wire_reply ?ws) (st1\<lparr>rs_queries := 2\<rparr>)"
      using assms(13) st1(3) by (simp add: st2_def query_and_deliver_def q numeral_2_eq_2)
    moreover have "distinct (map (em_seq \<circ> wire_meta) ?ws)"
      using rg dec(2) by (simp add: distinct_map inj_on_def)
    moreover have "filter (\<lambda>w. in_range (a, b) (em_seq (wire_meta w))) ?ws = ?ws"
    proof (rule filter_True, rule ballI)
      fix w assume "w \<in> set ?ws"
      then show "in_range (a, b) (em_seq (wire_meta w))" using dec(2)[of w] by (simp add: in_range_def)
    qed
    ultimately show ?thesis
      using fold_ranged_replies[of ?ws "(a, b)" "st1\<lparr>rs_queries := 2\<rparr>" tx] dec st1 by (simp add: tracker_new_def)
  qed
  ultimately show ?thesis
    using nc assms(9,11) by (simp add: recover_gap_def Let_def st0_def[symmetric] st1_def[symmetric] st2_def[symmetric])
qed

text \<open>The three messages of the example run, with room for all of them in the cache.\<close>

definition roomy_pub :: EventPublisher where
  "roomy_pub = publisher_new 7 \<lparr>pc_key_prefix = ''t'', pc_cache_size = 8, pc_num_partitions = 1, pc_durable_urgency = 0\<rparr>"

definition roomy_run :: "(EventPublisher \<times> PublishReceipt result list \<times> wire list) option" where
  "roomy_run = pub_run (\<lambda>_. 2) roomy_pub demo_ops"

lemma roomy_run_ok:
  "roomy_run \<noteq> None \<and> list_all is_ok (fst (snd (the roomy_run))) \<and> current_seq_for (fst (the roomy_run)) 0 = 3
    \<and> length (snd (snd (the roomy_run))) = 3"
  by (simp add: roomy_run_def demo_ops_def demo_env_def roomy_pub_def publisher_new_def publish_bytes_def
      publish_bytes_keyed_def validate_key_def partition_for_def assign_partition_def next_seq_for_def
      put_payload_def finish_def is_ok_def current_seq_for_def Let_def)

lemma roomy_run_result:
  "pub_run (\<lambda>_. 2) roomy_pub demo_ops = Some (fst (the roomy_run), fst (snd (the roomy_run)), snd (snd (the roomy_run)))"
  using roomy_run_ok by (auto simp: roomy_run_def)

lemma roomy_one_partition: "\<forall>w \<in> set (snd (snd (the roomy_run))). wire_partition w = 0"
proof -
  have "prefix_free (CHR ''p'') ''t''" by code_simp
  then show ?thesis
    by (simp add: exprs_partition roomy_run_def demo_ops_def demo_env_def roomy_pub_def publisher_new_def publish_bytes_def
        publish_bytes_keyed_def validate_key_def partition_for_def assign_partition_def next_seq_for_def
        put_payload_def finish_def wire_simps Let_def)
qed

definition cache_get :: "EventPublisher \<Rightarrow> (string \<Rightarrow> string option) \<Rightarrow> session_get" where
  "cache_get pub params n sel = (if n = 1 then Ok (map wire_reply (cache_query pub params)) else Ok [])"

theorem cache_closes_gap_witness:
  "\<exists>st. recover_gap (\<lambda>_. ''x'') (cache_get (fst (the roomy_run)) demo_params) (\<lambda>_ _. Sent) demo_rec_config
      \<lparr>mi_source = 7, mi_partition = 0, mi_missed = (0, 2)\<rparr> = Some (Ok (), st)
    \<and> map fst (rs_log st) = map wire_raw (filter (\<lambda>w. 0 \<le> wire_seq w \<and> wire_seq w < 2) (snd (snd (the roomy_run))))"
proof -
  have pf: "prefix_free (CHR ''p'') ''t''" by code_simp
  obtain sp where sp: "rec_store_key_prefix demo_rec_config = Some sp" by (simp add: demo_rec_config_def)
  show ?thesis
    using cache_closes_gap[of "pub_config roomy_pub" "\<lambda>_. 2" 7 demo_ops "fst (the roomy_run)" "fst (snd (the roomy_run))"
        "snd (snd (the roomy_run))" 0 2 "\<lparr>mi_source = 7, mi_partition = 0, mi_missed = (0, 2)\<rparr>" 0 demo_rec_config sp
        "cache_get (fst (the roomy_run)) demo_params" "\<lambda>_. ''x''" demo_params "\<lambda>_ _. Sent"]
      roomy_run_result roomy_run_ok roomy_one_partition pf sp
    by (simp add: roomy_pub_def demo_params_def cache_get_def demo_ops_def)
qed

definition range_params :: "u64 \<Rightarrow> u64 \<Rightarrow> string \<Rightarrow> string option" where
  "range_params a b name = (if name = ''after_seq'' then Some (show_word a)
     else if name = ''before_seq'' then Some (show_word b) else None)"

text \<open>
  The cache query does not name the partition: when two messages of one publisher, on partitions
  0 and 1, carry the same sequence number 0, a subscriber that missed the one on partition 1 and asks
  the cache is handed the one on partition 0, counts the gap as recovered and never gets the missing
  event.
\<close>

theorem cache_recovery_mixes_partitions:
  "\<exists>pub' rs ws0 ws1 st. pub_run H (publisher_new i \<lparr>pc_key_prefix = ''t'', pc_cache_size = 8, pc_num_partitions = 2, pc_durable_urgency = 0\<rparr>)
      [(demo_env, OpBytes a), (demo_env, OpBytes b)] = Some (pub', rs, [ws0, ws1]) \<and> list_all is_ok rs
    \<and> (wire_partition ws0, wire_seq ws0) = (0, 0) \<and> (wire_partition ws1, wire_seq ws1) = (1, 0)
    \<and> recover_gap show_id (cache_get pub' (range_params 0 1)) (\<lambda>_ _. Sent) demo_rec_config
        \<lparr>mi_source = i, mi_partition = 1, mi_missed = (0, 1)\<rparr> = Some (Ok (), st)
    \<and> map fst (rs_log st) = [wire_raw ws0]"
proof -
  have pf: "prefix_free (CHR ''p'') ''t''" by code_simp
  let ?pc = "\<lparr>pc_key_prefix = ''t'', pc_cache_size = 8, pc_num_partitions = 2 :: u32, pc_durable_urgency = 0\<rparr>"
  let ?m = "\<lambda>bs p. (unkeyed_expr (publisher_new i ?pc) p 0, bs, encode_metadata i 0 9 1000 NO_URGENCY)"
  obtain pub' rs where r: "pub_run H (publisher_new i ?pc) [(demo_env, OpBytes a), (demo_env, OpBytes b)] = Some (pub', rs, [?m a 0, ?m b 1])"
    and ok: "list_all is_ok rs"
    and cache: "map (\<lambda>s. (cs_key_expr s, cs_payload s, cs_attachment s)) (pub_cache pub') = [?m a 0, ?m b 1]" "map cs_seq (pub_cache pub') = [0, 0]"
    by (simp add: demo_env_def publisher_new_def publish_bytes_def assign_partition_def next_seq_for_def put_payload_def
        finish_def is_ok_def cache_push_def unkeyed_expr_def Let_def)
  obtain x y where xy: "pub_cache pub' = [x, y]" using cache(2) by (auto simp: map_eq_Cons_conv)
  have q: "cache_query pub' (range_params 0 1) = [?m a 0, ?m b 1]"
    using cache unfolding xy by (simp add: cache_query_def xy param_u64_def range_params_def)
  have dec: "wire_meta (?m bs p) = projr (decode_metadata (encode_metadata i 0 9 1000 NO_URGENCY))" for bs p
    by (simp add: wire_meta_def)
  obtain st where st: "recover_gap show_id (cache_get pub' (range_params 0 1)) (\<lambda>_ _. Sent) demo_rec_config
        \<lparr>mi_source = i, mi_partition = 1, mi_missed = (0, 1)\<rparr> = Some (Ok (), st)" "map fst (rs_log st) = [wire_raw (?m a 0)]"
    by (simp add: recover_gap_def demo_rec_config_def query_and_deliver_def cache_get_def q handle_reply_def wire_reply_def
        rec_sleep_def tracker_new_def is_complete_def in_range_def record_seq_def deliver_event_def wire_raw_def raw_of_def dec Let_def)
  have p01: "(wire_partition (?m a 0), wire_seq (?m a 0)) = (0, 0)" "(wire_partition (?m b 1), wire_seq (?m b 1)) = (1, 0)"
    using pf by (simp_all add: exprs_partition wire_simps)
  show ?thesis by (intro exI conjI, rule r, rule ok, rule p01(1), rule p01(2), rule st(1), rule st(2))
qed

end
