(* ===== verification/Durability.thy ===== *)
theory Durability
  imports Runner Delivery
begin

text \<open>
  Properties across publisher, store and subscriber: what a successful durable publish means for
  the database of the store, what a recovery gets from the store, and how the store answers the
  queries of a catching-up consumer.
\<close>

section \<open>Durable publishing\<close>

fun durable_op :: "'t pub_op \<Rightarrow> bool" where
  "durable_op (OpBytesDurable bs) = True"
| "durable_op (OpBytesDurableTo k bs) = True"
| "durable_op (OpKeyedDurable k e) = True"
| "durable_op (OpBytesKeyedDurable k bs) = True"
| "durable_op (OpDurable e) = True"
| "durable_op _ = False"

lemma finish_durable_Ok:
  assumes "finish_durable env step i seq p ts = (pub', Ok rc, ws)"
  shows "wait_for_watermark env pub' (rc_partition rc) (rc_seq rc) = Ok () \<and> rc_publisher_id rc = pub_publisher_id pub'"
  using assms by (cases step) (auto simp: finish_durable_def publish_receipt_def)

lemma durable_call_waits:
  assumes "pub_call H env pub op = Some (pub', Ok rc, ws)" and "durable_op op"
  shows "wait_for_watermark env pub' (rc_partition rc) (rc_seq rc) = Ok () \<and> rc_publisher_id rc = pub_publisher_id pub'"
  using assms
  by (cases op) (auto simp: publish_defs Let_def split: prod.splits sum.splits option.splits dest: finish_durable_Ok)

lemma wait_loop_Ok:
  "wait_loop i p seq xs = Ok () \<Longrightarrow> \<exists>wm. WmReceived wm \<in> set xs \<and> cw_partition wm = p \<and> cw_is_durable wm i seq"
  by (induction i p seq xs rule: wait_loop.induct) (auto split: if_splits)


section \<open>Recovery from the store\<close>

definition recovery_params :: "(PublisherId \<Rightarrow> string) \<Rightarrow> MissInfo \<Rightarrow> string" where
  "recovery_params show_id miss = join_params (CHR ''&'') (map param_text
     [(''publisher_id'', show_id (mi_source miss)), (''after_seq'', show_word (saturating_sub (fst (mi_missed miss)) 1)),
      (''before_seq'', show_word (snd (mi_missed miss)))])"

lemma recovery_selector_params:
  "store_recovery_selector show_id sp miss = sp @ ''/'' @ show_word (mi_partition miss) @ ''?'' @ recovery_params show_id miss"
  by (simp add: store_recovery_selector_def recovery_params_def param_text_def)

lemma str_contains_prefix: "str_contains p (p @ s)"
  using starts_with_append[of p s] by (cases "p @ s") (auto simp: str_contains_def simp del: starts_with_append)

lemma plain_names: "plain ''publisher_id''" "plain ''after_seq''" "plain ''before_seq''" "plain ''limit''"
  by (simp_all add: plain_def is_sep_def is_space_def)

text \<open>Selectors with a publisher go to the replay filters, which know no sequence bounds.\<close>

lemma publisher_selector_filters:
  assumes "plain (show_id i)" and "parse_uuid (show_id i) = Some i"
    and "\<forall>kv \<in> set kvs. param_ok kv" and "\<forall>kv \<in> set kvs. fst kv \<in> {''after_seq'', ''before_seq''}"
  shows "rf_from_selector parse_uuid (join_params (CHR ''&'') (map param_text ((''publisher_id'', show_id i) # kvs)))
    = Ok (rf_default\<lparr>rf_publisher_id := Some i\<rparr>)"
proof -
  have ignored: "params_fold (rf_param parse_uuid) kvs f = Ok f" for f
    using assms(4) by (induction kvs arbitrary: f) (auto simp: rf_param_def)
  have "\<forall>kv \<in> set ((''publisher_id'', show_id i) # kvs). param_ok kv"
    using assms(1,3) by (auto simp: param_ok_def plain_names)
  from parse_selector[OF _ this, of "CHR ''&''" "rf_param parse_uuid" rf_default] show ?thesis
    using assms(2) ignored by (simp add: rf_from_selector_def is_sep_def rf_param_def config_err_def)
qed

lemma event_reply_decodes:
  "decode_metadata (snd (snd (event_reply e))) = Ok (wire_meta (event_reply e))"
  "em_seq (wire_meta (event_reply e)) = md_seq (se_metadata e)"
  "em_pub_id (wire_meta (event_reply e)) = md_publisher_id (se_metadata e)"
  by (cases "md_hlc_timestamp (se_metadata e)"; simp add: event_reply_def wire_meta_def Let_def)+

lemma replay_pos_unique:
  assumes "events_ok js w" and "x \<in> stored_events js w" and "y \<in> stored_events js w" and "event_pos x = event_pos y"
  shows "x = y"
proof -
  obtain k v md pl where x: "x = stored_event md pl" "w Events k = Some v" "decode_event_value js v = Ok (md, pl)"
    using assms(2) by (auto simp: stored_events_def)
  obtain k' v' md' pl' where y: "y = stored_event md' pl'" "w Events k' = Some v'" "decode_event_value js v' = Ok (md', pl')"
    using assms(3) by (auto simp: stored_events_def)
  have "k = k'"
    using stored_events_pos[OF assms(1) x(2,3)] stored_events_pos[OF assms(1) y(2,3)] assms(4)
    by (simp add: x(1) y(1) event_pos_def stored_event_def)
  then show ?thesis using x y by simp
qed

lemma recovery_query_answer:
  assumes "plain (show_id (mi_source miss))" and "parse_uuid (show_id (mi_source miss)) = Some (mi_source miss)"
    and "query_replay ops js (rf_default\<lparr>rf_publisher_id := Some (mi_source miss)\<rparr>) b = Ok rs"
  shows "store_query (fjall_backend ops js) parse_time parse_uuid True (recovery_params show_id miss) b = map event_reply rs"
proof -
  have sel: "rf_from_selector parse_uuid (recovery_params show_id miss) = Ok (rf_default\<lparr>rf_publisher_id := Some (mi_source miss)\<rparr>)"
    unfolding recovery_params_def
    by (rule publisher_selector_filters[of show_id "mi_source miss" parse_uuid])
      (use assms(1,2) in \<open>simp_all add: param_ok_def plain_names\<close>)
  have "str_contains ''publisher_id'' (recovery_params show_id miss)"
    using str_contains_prefix[of "''publisher_id''"] by (simp add: recovery_params_def param_text_def)
  then show ?thesis
    by (simp add: store_query_def sel handle_query_replay_def ask_def fjall_backend_def assms(3))
qed

text \<open>
  Without HLC timestamps the store has nothing to offer to a recovery: the query of a recovery names
  a publisher, is answered from the replay index, and that index holds only events with a timestamp.
\<close>

lemma store_recovery_needs_hlc:
  assumes "fjall_ok ops vw" and "events_ok js (vw (fb_db b))" and "replay_ok js (vw (fb_db b))"
    and "plain (show_id (mi_source miss))" and "parse_uuid (show_id (mi_source miss)) = Some (mi_source miss)"
    and "query_replay ops js (rf_default\<lparr>rf_publisher_id := Some (mi_source miss)\<rparr>) b = Ok rs"
    and "\<forall>e \<in> stored_events js (vw (fb_db b)). \<not> has_hlc e"
  shows "store_query (fjall_backend ops js) parse_time parse_uuid True (recovery_params show_id miss) b = []"
proof -
  let ?f = "rf_default\<lparr>rf_publisher_id := Some (mi_source miss)\<rparr>"
  have "\<not> replay_match ?f e" if "\<not> has_hlc e" for e
    using that by (auto simp: replay_match_def has_hlc_def split: option.splits)
  moreover have "rf_limit ?f = None" by (simp add: rf_default_def)
  ultimately have "set rs = {}"
    using replay_full(1,3)[OF assms(1-3,6)] assms(7) by (metis (mono_tags, lifting) Collect_empty_eq option.simps(4))
  then show ?thesis using recovery_query_answer[of show_id miss parse_uuid ops js b rs parse_time] assms(4-6) by simp
qed

text \<open>
  C15. A gap is closed from the store: when the store holds every missed event with an HLC timestamp
  and its engine answers, the first query of a recovery succeeds, and the events offered to the
  consumer are exactly the stored events of the missing range, as stored, in HLC order.
\<close>

theorem store_closes_gap:
  assumes "fjall_ok ops vw" and "events_ok js (vw (fb_db b))" and "replay_ok js (vw (fb_db b))"
    and "plain (show_id (mi_source miss))" and "parse_uuid (show_id (mi_source miss)) = Some (mi_source miss)"
    and "query_replay ops js (rf_default\<lparr>rf_publisher_id := Some (mi_source miss)\<rparr>) b = Ok rs"
    and "mi_missed miss = (lo, hi)" and "lo \<le> hi"
    and "\<forall>s \<in> {lo..<hi}. \<exists>e \<in> stored_events js (vw (fb_db b)). event_pos e = (mi_source miss, s) \<and> has_hlc e"
    and "rec_store_key_prefix c = Some sp"
    and "get 0 (store_recovery_selector show_id sp miss)
      = Ok (map wire_reply (store_query (fjall_backend ops js) parse_time parse_uuid True (recovery_params show_id miss) b))"
  shows "\<exists>st es. recover_gap show_id get tx c miss = Some (Ok (), st) \<and> map fst (rs_log st) = map (wire_raw \<circ> event_reply) es
    \<and> set es = {e \<in> stored_events js (vw (fb_db b)). has_hlc e \<and> (\<exists>s. event_pos e = (mi_source miss, s) \<and> lo \<le> s \<and> s < hi)}
    \<and> sorted_wrt (\<lambda>x y. hlc_pos x < hlc_pos y) es"
proof -
  let ?i = "mi_source miss" and ?f = "rf_default\<lparr>rf_publisher_id := Some (mi_source miss)\<rparr>"
  let ?in = "\<lambda>e. lo \<le> md_seq (se_metadata e) \<and> md_seq (se_metadata e) < hi"
  define es where "es = filter ?in rs"
  have match: "replay_match ?f e \<longleftrightarrow> has_hlc e \<and> md_publisher_id (se_metadata e) = ?i" for e
    by (auto simp: replay_match_def has_hlc_def matches_publisher_def matches_key_def rf_default_def split: option.splits)
  have "rf_limit ?f = None" by (simp add: rf_default_def)
  then have "rs = filter (replay_match ?f) (replay_list js (vw (fb_db b)))" using replay_full(3)[OF assms(1-3,6)] by simp
  then have rs: "set rs = {e \<in> stored_events js (vw (fb_db b)). has_hlc e \<and> md_publisher_id (se_metadata e) = ?i}"
    "sorted_wrt (\<lambda>x y. hlc_pos x < hlc_pos y) rs"
    using replay_full(1,2)[OF assms(1-3,6)] unfolding match by simp_all
  have q: "store_query (fjall_backend ops js) parse_time parse_uuid True (recovery_params show_id miss) b = map event_reply rs"
    using assms(4-6) by (rule recovery_query_answer)
  define st0 where "st0 = rec_sleep (rec_recovery_delay c) \<lparr>rs_tracker = tracker_new (lo, hi), rs_log = [], rs_queries = 0, rs_sleeps = []\<rparr>"
  define st1 where "st1 = query_and_deliver get tx (store_recovery_selector show_id sp miss) st0"
  have st0: "rs_tracker st0 = tracker_new (lo, hi)" "rs_log st0 = []" "rs_queries st0 = 0" by (simp_all add: st0_def rec_sleep_def)
  have inv0: "rec_inv tx (lo, hi) st0" using st0 by (simp add: rec_inv_def tracker_new_def)
  have "covers (lo, hi) (map wire_reply (map event_reply rs))"
    unfolding covers_def
  proof
    fix s assume "s \<in> {fst (lo, hi)..<snd (lo, hi)}"
    then obtain e where e: "e \<in> set rs" "md_seq (se_metadata e) = s" using assms(9) rs(1) by (force simp: event_pos_def)
    then have "reply_seq (wire_reply (event_reply e)) = Some s"
      using event_reply_decodes[of e] by (simp add: reply_seq_def wire_reply_def)
    then show "Some s \<in> reply_seq ` set (map wire_reply (map event_reply rs))" using e(1) by force
  qed
  then have done1: "is_complete (rs_tracker st1)"
    unfolding st1_def using covering_query_completes[OF inv0, of get "store_recovery_selector show_id sp miss"] assms(8,11) st0(3) q
    by simp
  have "inj_on (md_seq \<circ> se_metadata) (set rs)"
    using rs(1) replay_pos_unique[OF assms(2)] by (fastforce simp: inj_on_def event_pos_def)
  moreover have "distinct rs" using rs(2) by (auto simp: distinct_conv_nth sorted_wrt_iff_nth_less) (metis less_irrefl linorder_neqE_nat)
  ultimately have "distinct (map (md_seq \<circ> se_metadata) rs)" by (simp add: distinct_map)
  then have d: "distinct (map (md_seq \<circ> se_metadata) es)" unfolding es_def by (rule distinct_map_filter)
  have "map fst (rs_log st1) = map (wire_raw \<circ> event_reply) es"
  proof -
    have "st1 = fold (handle_reply tx) (map wire_reply (map event_reply rs)) (st0\<lparr>rs_queries := 1\<rparr>)"
      using assms(11) st0(3) by (simp add: st1_def query_and_deliver_def q)
    moreover have "filter (\<lambda>w. in_range (lo, hi) (em_seq (wire_meta w))) (map event_reply rs) = map event_reply es"
      by (simp add: es_def filter_map comp_def event_reply_decodes in_range_def)
    ultimately show ?thesis
      using fold_ranged_replies[of "map event_reply rs" "(lo, hi)" "st0\<lparr>rs_queries := 1\<rparr>" tx] d st0
      by (simp add: event_reply_decodes tracker_new_def comp_def)
  qed
  moreover have "recover_gap show_id get tx c miss = Some (Ok (), st1)"
    using done1 assms(7,10) by (simp add: recover_gap_def Let_def st0_def[symmetric] st1_def[symmetric])
  moreover have "set es = {e \<in> stored_events js (vw (fb_db b)). has_hlc e \<and> (\<exists>s. event_pos e = (?i, s) \<and> lo \<le> s \<and> s < hi)}"
    by (auto simp: es_def rs(1) event_pos_def)
  moreover have "sorted_wrt (\<lambda>x y. hlc_pos x < hlc_pos y) es" unfolding es_def using rs(2) by (rule sorted_wrt_filter)
  ultimately show ?thesis by blast
qed

section \<open>Catch-up queries\<close>

text \<open>
  The parameters of a catch-up query of the offload reader for one publisher.
\<close>

definition catch_up_params :: "(PublisherId \<Rightarrow> string) \<Rightarrow> PublisherId \<Rightarrow> u64 \<Rightarrow> nat \<Rightarrow> string" where
  "catch_up_params show_id i after_seq limit = join_params (CHR ''&'') (map param_text
     [(''publisher_id'', show_id i), (''after_seq'', show_word after_seq), (''limit'', show_nat limit)])"

lemma catch_up_selector_params:
  "catch_up_selector show_id rd p (Some i) after_seq
    = cr_store_key_prefix rd @ ''/'' @ show_word p @ ''?'' @ catch_up_params show_id i after_seq (cr_batch_size rd)"
  by (simp add: catch_up_selector_def catch_up_params_def param_text_def)

lemma plain_show_nat [simp]: "plain (show_nat n)"
proof -
  have "\<not> is_sep c \<and> \<not> is_space c" if "c \<in> set (show_nat n)" for c
    using show_nat_range[OF that] by (auto simp: is_sep_def is_space_def)
  then show ?thesis by (simp add: plain_def)
qed

lemma catch_up_query_answer:
  assumes "plain (show_id i)" and "parse_uuid (show_id i) = Some i" and "n < 2 ^ 64"
  shows "store_query bo parse_time parse_uuid alive (catch_up_params show_id i a n) b
    = (case handle_query_replay bo alive (rf_default\<lparr>rf_publisher_id := Some i, rf_limit := Some n\<rparr>) b of
         Err _ \<Rightarrow> [] | Ok es \<Rightarrow> map event_reply es)"
proof -
  have "\<forall>kv \<in> set [(''publisher_id'', show_id i), (''after_seq'', show_word a), (''limit'', show_nat n)]. param_ok kv"
    using assms(1) by (auto simp: param_ok_def plain_names)
  from parse_selector[OF _ this, of "CHR ''&''" "rf_param parse_uuid" rf_default]
  have "rf_from_selector parse_uuid (catch_up_params show_id i a n) = Ok (rf_default\<lparr>rf_publisher_id := Some i, rf_limit := Some n\<rparr>)"
    using assms(2,3) by (simp add: rf_from_selector_def catch_up_params_def is_sep_def rf_param_def config_err_def parse_usize_def)
  moreover have "str_contains ''publisher_id'' (catch_up_params show_id i a n)"
    using str_contains_prefix[of "''publisher_id''"] by (simp add: catch_up_params_def param_text_def)
  ultimately show ?thesis by (simp add: store_query_def)
qed

text \<open>A reader that gets the same replies again finds nothing new in them.\<close>

definition passed :: "'f CatchUpReader \<Rightarrow> query_reply \<Rightarrow> bool" where
  "passed rd r \<longleftrightarrow> (\<forall>raw. reply_raw r = Some raw \<longrightarrow> (\<exists>c. hm_get (cr_cursors rd) (stream_of raw) = Some c \<and> re_seq raw \<le> c))"

lemma passed_after: "passed (fst (catch_up_reply r st)) r"
  by (cases st; cases r)
    (auto simp: passed_def catch_up_reply_def reply_raw_def stream_of_def Let_def split: option.splits sum.splits if_splits)

lemma passed_skips: "passed (fst st) r \<Longrightarrow> catch_up_reply r st = st"
  by (cases st; cases r)
    (auto simp: passed_def catch_up_reply_def reply_raw_def stream_of_def Let_def split: option.splits sum.splits if_splits)

lemma passed_mono:
  assumes "passed (fst st) r"
  shows "passed (fst (catch_up_reply r' st)) r"
proof -
  have "\<exists>c'. hm_get (cr_cursors (fst (catch_up_reply r' st))) k = Some c' \<and> s \<le> c'"
    if "hm_get (cr_cursors (fst st)) k = Some c" "s \<le> c" for k c s
    using that by (cases st; cases r')
      (auto simp: catch_up_reply_def Let_def intro: max.coboundedI1 split: option.splits sum.splits if_splits)
  then show ?thesis using assms unfolding passed_def by blast
qed

lemma passed_fold:
  "passed (fst st) r \<Longrightarrow> passed (fst (fold catch_up_reply rs st)) r"
  by (induction rs arbitrary: st) (simp_all add: passed_mono)

lemma passed_all: "r \<in> set rs \<Longrightarrow> passed (fst (fold catch_up_reply rs st)) r"
proof (induction rs arbitrary: st)
  case (Cons x rs)
  show ?case
  proof (cases "r = x")
    case True
    have "passed (fst (catch_up_reply r st)) r" by (rule passed_after)
    then show ?thesis using passed_fold True by simp
  qed (use Cons in simp)
qed simp

lemma passed_replies_skip: "\<forall>r \<in> set rs. passed (fst st) r \<Longrightarrow> fold catch_up_reply rs st = st"
  by (induction rs) (simp_all add: passed_skips)

lemma fold_catch_up_frame:
  "cr_batch_size (fst (fold catch_up_reply rs st)) = cr_batch_size (fst st)
   \<and> cr_store_key_prefix (fst (fold catch_up_reply rs st)) = cr_store_key_prefix (fst st)
   \<and> length (snd (fold catch_up_reply rs st)) \<le> length (snd st) + length rs"
proof (induction rs arbitrary: st)
  case (Cons r rs)
  have "cr_batch_size (fst (catch_up_reply r st)) = cr_batch_size (fst st)
     \<and> cr_store_key_prefix (fst (catch_up_reply r st)) = cr_store_key_prefix (fst st)
     \<and> length (snd (catch_up_reply r st)) \<le> Suc (length (snd st))"
    by (cases st; cases r) (auto simp: catch_up_reply_def Let_def split: option.splits sum.splits)
  then show ?case using Cons.IH[of "catch_up_reply r st"] by simp
qed simp

text \<open>
  A catching-up consumer gets at most one batch per publisher from the store: the store routes
  its queries to the replay filters, which ignore the cursor, so as long as the stored events do not
  change every query is answered with the same first batch; the first query replays at most
  \<^verbatim>\<open>batch_size\<close> events and every later one, at whatever cursor, replays nothing.
\<close>

theorem catch_up_stalls_after_one_batch:
  assumes "plain (show_id i)" and "parse_uuid (show_id i) = Some i" and "cr_batch_size rd < 2 ^ 64"
    and "fjall_ok ops vw" and "events_ok js (vw (fb_db b))" and "replay_ok js (vw (fb_db b))"
    and "query_replay ops js (rf_default\<lparr>rf_publisher_id := Some i, rf_limit := Some (cr_batch_size rd)\<rparr>) b = Ok rs"
    and "\<forall>n a. get n (cr_store_key_prefix rd @ ''/'' @ show_word p @ ''?'' @ catch_up_params show_id i a (cr_batch_size rd))
      = Ok (map wire_reply (store_query (fjall_backend ops js) parse_time parse_uuid True (catch_up_params show_id i a (cr_batch_size rd)) b))"
    and "query_partition show_id get p (Some i) a (rd, []) = (rd1, out)"
  shows "length out \<le> max 1 (cr_batch_size rd) \<and> snd (query_partition show_id get p (Some i) a' (rd1, [])) = []"
proof -
  let ?replies = "map wire_reply (map event_reply rs)"
  have bo: "bo_query_replay (fjall_backend ops js) = query_replay ops js" by (simp add: fjall_backend_def)
  have sq: "store_query (fjall_backend ops js) parse_time parse_uuid True (catch_up_params show_id i x (cr_batch_size rd)) b
      = map event_reply rs" for x
    unfolding catch_up_query_answer[of show_id i parse_uuid, OF assms(1-3)]
    by (simp add: handle_query_replay_def ask_def bo assms(7))
  have ans: "get n (catch_up_selector show_id r p (Some i) x) = Ok ?replies"
    if "cr_store_key_prefix r = cr_store_key_prefix rd" "cr_batch_size r = cr_batch_size rd" for n x r
    unfolding catch_up_selector_params that using assms(8) unfolding sq by blast
  have run: "query_partition show_id get p (Some i) x (r, out0) = fold catch_up_reply ?replies (r\<lparr>cr_queries := cr_queries r + 1\<rparr>, out0)"
    if "cr_store_key_prefix r = cr_store_key_prefix rd" "cr_batch_size r = cr_batch_size rd" for x r out0
    using ans[OF that] by (simp add: query_partition_def Let_def)
  have first: "fold catch_up_reply ?replies (rd\<lparr>cr_queries := cr_queries rd + 1\<rparr>, []) = (rd1, out)"
    using run[of rd a "[]"] assms(9) by simp
  note fr = fold_catch_up_frame[of ?replies "(rd\<lparr>cr_queries := cr_queries rd + 1\<rparr>, [])", unfolded first]
  have "\<forall>r \<in> set ?replies. passed rd1 r"
    using passed_all[of _ ?replies "(rd\<lparr>cr_queries := cr_queries rd + 1\<rparr>, [])"] first by (metis fst_conv)
  then have "\<forall>r \<in> set ?replies. passed (fst (rd1\<lparr>cr_queries := cr_queries rd1 + 1\<rparr>, [])) r" by (simp add: passed_def)
  from passed_replies_skip[OF this] have "snd (query_partition show_id get p (Some i) a' (rd1, [])) = []"
    using run[of rd1 a' "[]"] fr by simp
  moreover have "length rs \<le> max 1 (cr_batch_size rd)"
    using replay_full(3)[OF assms(4-7)] by simp
  ultimately show ?thesis using fr by simp
qed

section \<open>Concrete runs\<close>

definition demo_store_wm :: CommitWatermark where
  "demo_store_wm = \<lparr>cw_partition = 0, cw_publishers = publisher_watermarks demo_b, cw_timestamp = 5, cw_epoch = 0\<rparr>"

lemma demo_store_tick: "watermark_tick (fjall_backend mem_ops unary_json) True 5 demo_b = Some demo_store_wm"
proof -
  have "publisher_watermarks demo_b \<noteq> []" "fb_partition demo_b = 0" by code_simp+
  then show ?thesis
    by (simp add: watermark_tick_def handle_publisher_watermarks_def ask_def fjall_backend_def demo_store_wm_def)
qed


definition demo_store_miss :: MissInfo where
  "demo_store_miss = \<lparr>mi_source = 1, mi_partition = 0, mi_missed = (0, 1)\<rparr>"

definition demo_answers :: session_get where
  "demo_answers n sel = Ok (map wire_reply (store_query (fjall_backend mem_ops unary_json) (\<lambda>_. None) (\<lambda>_. Some 1) True
     (recovery_params (\<lambda>_. ''x'') demo_store_miss) demo_b))"

lemma plain_x: "plain ''x''"
  by (simp add: plain_def is_sep_def is_space_def)

theorem store_closes_gap_witness:
  "\<exists>st es. recover_gap (\<lambda>_. ''x'') demo_answers (\<lambda>_ _. Sent) demo_rec_config demo_store_miss = Some (Ok (), st)
    \<and> map fst (rs_log st) = map (wire_raw \<circ> event_reply) es \<and> set es = {stored_event (demo_md 1 0) [7]}"
proof -
  have q: "query_replay mem_ops unary_json (rf_default\<lparr>rf_publisher_id := Some 1\<rparr>) demo_b = Ok [stored_event (demo_md 1 0) [7]]"
    by code_simp
  have pos: "event_pos (stored_event (demo_md 1 0) [7]) = (1, 0)" "has_hlc (stored_event (demo_md 1 0) [7])"
    by (simp_all add: event_pos_def has_hlc_def stored_event_def demo_md_def)
  have seqs: "s = 0" if "s < (1 :: u64)" for s using that by (simp add: word_less_1)
  have "\<exists>st es. recover_gap (\<lambda>_. ''x'') demo_answers (\<lambda>_ _. Sent) demo_rec_config demo_store_miss = Some (Ok (), st)
    \<and> map fst (rs_log st) = map (wire_raw \<circ> event_reply) es
    \<and> set es = {e \<in> stored_events unary_json (mem_view (fb_db demo_b)). has_hlc e
        \<and> (\<exists>s. event_pos e = (mi_source demo_store_miss, s) \<and> 0 \<le> s \<and> s < 1)}
    \<and> sorted_wrt (\<lambda>x y. hlc_pos x < hlc_pos y) es"
    by (rule store_closes_gap[where parse_uuid = "\<lambda>_. Some 1" and parse_time = "\<lambda>_. None" and sp = "''t/_store''", OF mem_fjall_ok demo_replay(1,2)])
      (use q pos seqs plain_x in \<open>auto simp: demo_replay(3) demo_store_miss_def demo_rec_config_def demo_answers_def\<close>)
  then show ?thesis using pos by (auto simp: demo_replay(3) demo_store_miss_def)
qed

definition demo_reader :: "nat CatchUpReader" where
  "demo_reader = (reader_new ''t/_store'' [] (offload_config_default 0) [0])\<lparr>cr_batch_size := 1\<rparr>"

theorem catch_up_stalls_after_one_batch_witness:
  "\<exists>get rd1 out. query_partition (\<lambda>_. ''x'') get 0 (Some 1) 0 (demo_reader, []) = (rd1, out)
    \<and> length out \<le> 1 \<and> snd (query_partition (\<lambda>_. ''x'') get 0 (Some 1) 1 (rd1, [])) = []"
proof -
  have q: "query_replay mem_ops unary_json (rf_default\<lparr>rf_publisher_id := Some 1, rf_limit := Some 1\<rparr>) demo_b = Ok [stored_event (demo_md 1 0) [7]]"
    by code_simp
  define get :: session_get where "get n sel = Ok (map wire_reply (store_query (fjall_backend mem_ops unary_json) (\<lambda>_. None) (\<lambda>_. Some 1) True
     (catch_up_params (\<lambda>_. ''x'') 1 0 1) demo_b))" for n sel
  have one: "1 < (2 :: nat) ^ 64" by simp
  note same = catch_up_query_answer[of "\<lambda>_. ''x''" 1 "\<lambda>_. Some 1" 1, OF plain_x refl one]
  obtain rd1 out where f: "query_partition (\<lambda>_. ''x'') get 0 (Some 1) 0 (demo_reader, []) = (rd1, out)" by (metis surj_pair)
  have "length out \<le> max 1 (cr_batch_size demo_reader) \<and> snd (query_partition (\<lambda>_. ''x'') get 0 (Some 1) 1 (rd1, [])) = []"
    by (rule catch_up_stalls_after_one_batch[where parse_uuid = "\<lambda>_. Some 1" and parse_time = "\<lambda>_. None" and ops = mem_ops
        and js = unary_json and b = demo_b and vw = mem_view and rs = "[stored_event (demo_md 1 0) [7]]", OF _ _ _ mem_fjall_ok demo_replay(1,2) _ _ f])
      (use q plain_x in \<open>simp_all add: demo_reader_def get_def same[simplified]\<close>)
  then show ?thesis using f by (auto simp: demo_reader_def)
qed

end
