(* ===== verification/Session_Io.thy ===== *)
theory Session_Io
  imports Durability
begin

text \<open>
  The stores of a topic as the consumers see them through the Zenoh session: queries and puts on the
  offset keys of \<^verbatim>\<open>EventStore::run\<close> (\<^verbatim>\<open>mitiflow/src/store/runner.rs\<close>) reach
  the offset task of the partition, the keyed offset task and the replay offset task of every running
  store.  Keys are concrete (no wildcard chunks).  A session is a pair of operations on the state
  behind it; the consumers are written against it, and \<open>store_io\<close> is the session whose
  other end are running stores.
\<close>

section \<open>Error messages\<close>

text \<open>
  \<^verbatim>\<open>Display\<close> of the error type (\<^verbatim>\<open>mitiflow/src/error.rs\<close>); the argument
  prints a publisher id.
\<close>

definition error_display :: "(PublisherId \<Rightarrow> string) \<Rightarrow> error \<Rightarrow> string" where
  "error_display show_id e = (case e of
     Zenoh s \<Rightarrow> ''zenoh error: '' @ s
   | Serialization s \<Rightarrow> ''serialization error: '' @ s
   | GapRecoveryFailed p lo hi \<Rightarrow> ''gap recovery failed for publisher '' @ show_id p @ '', missed sequences '' @ show_word lo @ ''..'' @ show_word hi
   | DurabilityTimeout s \<Rightarrow> ''durability timeout: watermark did not cover seq '' @ show_word s
   | CheckpointError s \<Rightarrow> ''checkpoint error: '' @ s
   | StoreError s \<Rightarrow> ''store error: '' @ s
   | ChannelClosed \<Rightarrow> ''internal channel closed''
   | InvalidAttachment s \<Rightarrow> ''invalid attachment: '' @ s
   | InvalidConfig s \<Rightarrow> ''invalid config: '' @ s
   | StaleFencedCommit g c st \<Rightarrow> ''stale fenced commit for group '' @ g @ '': commit gen '' @ show_word c @ '' < stored gen '' @ show_word st
   | InvalidKey s \<Rightarrow> ''invalid key: '' @ s
   | OffloadFailed s \<Rightarrow> ''offload failed: '' @ s
   | TopicSchemaNotFound k \<Rightarrow> ''topic schema not found for '' @ [CHR 0x27] @ k @ [CHR 0x27] @ '' (no storage agents or orchestrator responded)''
   | TopicSchemaMismatch f l r \<Rightarrow> ''topic schema mismatch on field '' @ [CHR 0x27] @ f @ [CHR 0x27] @ '': local='' @ l @ '', registered='' @ r
   | EndOfReplay \<Rightarrow> ''end of replay''
   | OffsetNotFound g \<Rightarrow> ''no committed replay offset for group '' @ [CHR 0x27] @ g @ [CHR 0x27]
   | DomainE (DomainInvalid s) \<Rightarrow> ''domain error: invalid domain value: '' @ s
   | DomainE (EmptyEndpoints p) \<Rightarrow>
       ''domain error: transport profile '' @ [CHR 0x27] @ p @ [CHR 0x27] @ '' requires at least one endpoint'')"

text \<open>\<^verbatim>\<open>std::str::from_utf8\<close>: the well-formed byte sequences of UTF-8.\<close>

definition utf8_cont :: "u8 \<Rightarrow> bool" where
  "utf8_cont b \<longleftrightarrow> 0x80 \<le> b \<and> b \<le> 0xBF"

text \<open>The second byte of a three- or four-byte sequence, given the first.\<close>

definition utf8_second :: "u8 \<Rightarrow> u8 \<Rightarrow> bool" where
  "utf8_second a b =
     (if a = 0xE0 then 0xA0 \<le> b \<and> b \<le> 0xBF else if a = 0xED then 0x80 \<le> b \<and> b \<le> 0x9F
      else if a = 0xF0 then 0x90 \<le> b \<and> b \<le> 0xBF else if a = 0xF4 then 0x80 \<le> b \<and> b \<le> 0x8F else utf8_cont b)"

fun utf8_valid :: "bytes \<Rightarrow> bool" where
  "utf8_valid [] = True"
| "utf8_valid (a # bs) =
     (if a < 0x80 then utf8_valid bs
      else case bs of [] \<Rightarrow> False | b # cs \<Rightarrow>
        if 0xC2 \<le> a \<and> a \<le> 0xDF then utf8_cont b \<and> utf8_valid cs
        else case cs of [] \<Rightarrow> False | c # ds \<Rightarrow>
          if 0xE0 \<le> a \<and> a \<le> 0xEF then utf8_second a b \<and> utf8_cont c \<and> utf8_valid ds
          else case ds of [] \<Rightarrow> False | d # es \<Rightarrow>
            0xF0 \<le> a \<and> a \<le> 0xF4 \<and> utf8_second a b \<and> utf8_cont c \<and> utf8_cont d \<and> utf8_valid es)"

definition from_utf8 :: "bytes \<Rightarrow> string option" where
  "from_utf8 bs = (if utf8_valid bs then Some (from_bytes_str bs) else None)"

abbreviation utf8 :: "string \<Rightarrow> bool" where
  "utf8 s \<equiv> utf8_valid (as_bytes s)"

lemmas utf8_valid_Cons = utf8_valid.simps(2)
declare utf8_valid_Cons [simp del]

lemma utf8_append: "utf8_valid xs \<Longrightarrow> utf8_valid (xs @ ys) = utf8_valid ys"
proof (induction xs rule: utf8_valid.induct)
  case (2 a bs)
  have v: "utf8_valid (a # bs)" by (rule 2(5))
  show ?case
  proof (cases "a < 0x80")
    case True
    then show ?thesis using 2(1) v by (simp add: utf8_valid_Cons[of a])
  next
    case a: False
    then obtain b cs where bs: "bs = b # cs" using v by (cases bs) (simp_all add: utf8_valid_Cons[of a])
    show ?thesis
    proof (cases "0xC2 \<le> a \<and> a \<le> 0xDF")
      case True
      then show ?thesis using 2(2)[OF a bs True] v a bs by (simp add: utf8_valid_Cons[of a])
    next
      case a2: False
      then obtain c ds where cs: "cs = c # ds" using v a bs by (cases cs) (simp_all add: utf8_valid_Cons[of a] split: if_splits)
      show ?thesis
      proof (cases "0xE0 \<le> a \<and> a \<le> 0xEF")
        case True
        then show ?thesis using 2(3)[OF a bs a2 cs True] v a a2 bs cs by (auto simp: utf8_valid_Cons[of a])
      next
        case a3: False
        then obtain d es where ds: "ds = d # es" using v a a2 bs cs by (cases ds) (simp_all add: utf8_valid_Cons[of a] split: if_splits)
        then show ?thesis using 2(4)[OF a bs a2 cs a3 ds] v a a2 a3 bs cs by (auto simp: utf8_valid_Cons[of a])
      qed
    qed
  qed
qed simp

lemma as_bytes_append [simp]: "as_bytes (s @ t) = as_bytes s @ as_bytes t"
  by (simp add: as_bytes_def)

lemma utf8_append_str: "utf8 s \<Longrightarrow> utf8 (s @ t) = utf8 t"
  by (simp add: utf8_append)

lemma utf8_ascii: "\<forall>c \<in> set s. (of_char c :: nat) < 128 \<Longrightarrow> utf8 s"
  by (induction s) (simp_all add: as_bytes_def word_less_nat_alt unat_of_nat utf8_valid_Cons)

lemma utf8_show_word [simp]: "utf8 (show_word w)"
  unfolding show_word_def by (rule utf8_ascii) (use show_nat_range in fastforce)

section \<open>Sessions\<close>

text \<open>
  A query carries its selector and an optional payload; each reply is the payload of an \<^verbatim>\<open>Ok\<close>
  sample, or \<^const>\<open>None\<close> for an error reply.
\<close>

record 's session_io =
  io_get :: "string \<Rightarrow> bytes option \<Rightarrow> 's \<Rightarrow> 's \<times> bytes option list result"
  io_put :: "string \<Rightarrow> bytes \<Rightarrow> 's \<Rightarrow> 's \<times> unit result"

text \<open>A selector is a key expression and the parameters after the first question mark.\<close>

definition selector_parts :: "string \<Rightarrow> string \<times> string" where
  "selector_parts s = (case split_once (CHR ''?'') s of Some kp \<Rightarrow> kp | None \<Rightarrow> (s, []))"

text \<open>Whether \<open>base/**\<close> matches a concrete key.\<close>

definition below :: "string \<Rightarrow> string \<Rightarrow> bool" where
  "below base key \<longleftrightarrow> key = base \<or> starts_with (base @ ''/'') key"

definition offset_base :: "string \<Rightarrow> u32 \<Rightarrow> string" where
  "offset_base key_prefix part = key_prefix @ ''/_offsets/'' @ show_word part"

definition keyed_offset_base :: "string \<Rightarrow> string" where
  "keyed_offset_base key_prefix = key_prefix @ ''/_offsets/key''"

definition replay_offset_base :: "string \<Rightarrow> string" where
  "replay_offset_base key_prefix = key_prefix @ ''/_replay_offsets''"

section \<open>Running stores\<close>

record 'b store_node =
  sn_backend :: 'b
  sn_replay_offsets :: "(string, bytes) hmap"

text \<open>A JSON codec that reads back what it wrote.\<close>

definition codec_ok :: "'c commit_codec \<Rightarrow> bool" where
  "codec_ok codec \<longleftrightarrow> (\<forall>c bs. cc_to_vec codec c = Ok bs \<longrightarrow> cc_from_slice codec bs = Ok c)"

record store_env =
  sv_key_prefix :: string
  sv_offset_codec :: "OffsetCommit commit_codec"
  sv_keyed_codec :: "KeyedOffsetCommit commit_codec"
  sv_hlc_to_vec :: "HlcTimestamp option \<Rightarrow> bytes result"
  sv_display :: "error \<Rightarrow> string"
  sv_now :: DateTime

text \<open>The tasks of one store that answer a query; a task that does not answer contributes nothing.\<close>

definition node_get ::
  "'b StorageBackend \<Rightarrow> store_env \<Rightarrow> string \<Rightarrow> bytes option \<Rightarrow> 'b store_node \<Rightarrow> 'b store_node \<times> bytes option list"
where
  "node_get bo sv selector payload node =
     (let (key, params) = selector_parts selector; b = sn_backend node;
          (b1, r1) = (if below (offset_base (sv_key_prefix sv) (bo_partition bo b)) key
                      then offset_query bo (sv_offset_codec sv) (sv_display sv) True (sv_now sv) params payload b else (b, None));
          (b2, r2) = (if below (keyed_offset_base (sv_key_prefix sv)) key
                      then keyed_offset_query bo (sv_keyed_codec sv) (sv_hlc_to_vec sv) (sv_display sv) True params payload b1
                      else (b1, None));
          r3 = (if below (replay_offset_base (sv_key_prefix sv)) key
                then replay_offset_query (sn_replay_offsets node) key else None)
      in (node\<lparr>sn_backend := b2\<rparr>, filter (\<lambda>r. r \<noteq> None) [r1, r2, r3]))"

definition node_put :: "'b StorageBackend \<Rightarrow> store_env \<Rightarrow> string \<Rightarrow> bytes \<Rightarrow> 'b store_node \<Rightarrow> 'b store_node" where
  "node_put bo sv key payload node =
     (let s = \<lparr>zs_kind = Put, zs_key_expr = key, zs_payload = payload, zs_attachment = None\<rparr>; b = sn_backend node;
          b1 = (if below (offset_base (sv_key_prefix sv) (bo_partition bo b)) key
                then offset_put bo (sv_offset_codec sv) True s b else b);
          b2 = (if below (keyed_offset_base (sv_key_prefix sv)) key then keyed_offset_put bo (sv_keyed_codec sv) True s b1 else b1)
      in node\<lparr>sn_backend := b2,
              sn_replay_offsets := (if below (replay_offset_base (sv_key_prefix sv)) key
                 then replay_offset_put s (sn_replay_offsets node) else sn_replay_offsets node)\<rparr>)"

fun nodes_get ::
  "'b StorageBackend \<Rightarrow> store_env \<Rightarrow> string \<Rightarrow> bytes option \<Rightarrow> 'b store_node list \<Rightarrow> 'b store_node list \<times> bytes option list"
where
  "nodes_get bo sv selector payload [] = ([], [])"
| "nodes_get bo sv selector payload (node # nodes) =
     (let (node', rs) = node_get bo sv selector payload node; (nodes', rs') = nodes_get bo sv selector payload nodes
      in (node' # nodes', rs @ rs'))"

definition store_io :: "'b StorageBackend \<Rightarrow> store_env \<Rightarrow> 'b store_node list session_io" where
  "store_io bo sv =
     \<lparr>io_get = \<lambda>selector payload nodes. (case nodes_get bo sv selector payload nodes of (nodes', rs) \<Rightarrow> (nodes', Ok rs)),
      io_put = \<lambda>key payload nodes. (map (node_put bo sv key payload) nodes, Ok ())\<rparr>"

end
