(* ===== verification/Partition_Manager.thy ===== *)
theory Partition_Manager
  imports Hash_Ring
begin

text \<open>
  The membership view of one consumer-group worker
  (\<^verbatim>\<open>mitiflow/src/partition/mod.rs\<close>, \<^verbatim>\<open>mitiflow/src/partition/rebalance.rs\<close>):
  construction from the liveliness query, one step of the membership watcher per liveliness
  sample, and the rebalance it triggers.  Declaring the token and querying liveliness are calls of
  the Zenoh session; their results are arguments.  The watcher task is the only writer of the
  shared state, so its run is a sequence of steps.
\<close>

section \<open>State\<close>

record PartitionManager =
  pm_worker_id :: string
  pm_num_partitions :: u32
  my_partitions :: "u32 list"
  known_workers :: "string list"
  has_rebalance_cb :: bool
  generation :: u64

section \<open>Operations\<close>

definition push_worker :: "string \<Rightarrow> string option \<Rightarrow> string list \<Rightarrow> string list" where
  "push_worker liveliness_prefix reply workers =
     (case reply of None \<Rightarrow> workers
      | Some key \<Rightarrow> (case strip_prefix (liveliness_prefix @ ''/'') key of
           None \<Rightarrow> workers
         | Some wid \<Rightarrow> if wid \<in> set workers then workers else workers @ [wid]))"

text \<open>\<^verbatim>\<open>assignment.get(&worker_id).cloned().unwrap_or_default()\<close>.\<close>

definition parts_of :: "(hash_input list \<Rightarrow> u64) \<Rightarrow> string list \<Rightarrow> u32 \<Rightarrow> string \<Rightarrow> u32 list" where
  "parts_of H workers n wid =
     (case assignments H workers n of
        None \<Rightarrow> []
      | Some m \<Rightarrow> (case hm_get m wid of None \<Rightarrow> [] | Some ps \<Rightarrow> ps))"

definition pm_new ::
  "(hash_input list \<Rightarrow> u64) \<Rightarrow> string option \<Rightarrow> u32 \<Rightarrow> string \<Rightarrow> unit result \<Rightarrow> string option list result
    \<Rightarrow> PartitionManager result"
where
  "pm_new H config_worker_id num_partitions liveliness_prefix token liveliness_get =
     (case config_worker_id of
        None \<Rightarrow> Err (InvalidConfig ''worker_id is required for PartitionManager'')
      | Some worker_id \<Rightarrow> rbind token (\<lambda>_. rbind liveliness_get (\<lambda>replies.
          let initial_workers = sort (fold (push_worker liveliness_prefix) replies [worker_id]) in
          Ok \<lparr>pm_worker_id = worker_id, pm_num_partitions = num_partitions,
              my_partitions = parts_of H initial_workers num_partitions worker_id,
              known_workers = initial_workers, has_rebalance_cb = False, generation = 1\<rparr>)))"

definition pm_partition_for :: "(hash_input list \<Rightarrow> u64) \<Rightarrow> PartitionManager \<Rightarrow> string \<Rightarrow> u32 option" where
  "pm_partition_for H pm key = partition_for H key (pm_num_partitions pm)"

definition on_rebalance :: "PartitionManager \<Rightarrow> PartitionManager" where
  "on_rebalance pm = pm\<lparr>has_rebalance_cb := True\<rparr>"

definition subscription_key_exprs :: "PartitionManager \<Rightarrow> string \<Rightarrow> string list" where
  "subscription_key_exprs pm key_prefix =
     (if my_partitions pm = [] then [key_prefix @ ''/_none'']
      else map (\<lambda>p. key_prefix @ ''/p/'' @ show_word p @ ''/**'') (my_partitions pm))"

text \<open>The second component of a step is the call of the rebalance callback, if it is made.\<close>

definition rebalance ::
  "(hash_input list \<Rightarrow> u64) \<Rightarrow> string list \<Rightarrow> PartitionManager \<Rightarrow> PartitionManager \<times> (u32 list \<times> u32 list) option"
where
  "rebalance H workers pm =
     (let new_parts = parts_of H workers (pm_num_partitions pm) (pm_worker_id pm);
          old_parts = my_partitions pm;
          gained = filter (\<lambda>p. p \<notin> set old_parts) new_parts;
          lost = filter (\<lambda>p. p \<notin> set new_parts) old_parts in
      if gained = [] \<and> lost = [] then (pm, None)
      else (pm\<lparr>generation := generation pm + 1, my_partitions := new_parts\<rparr>,
            if has_rebalance_cb pm then Some (gained, lost) else None))"

definition membership_step ::
  "(hash_input list \<Rightarrow> u64) \<Rightarrow> string \<Rightarrow> PartitionManager \<Rightarrow> string \<times> SampleKind
    \<Rightarrow> PartitionManager \<times> (u32 list \<times> u32 list) option"
where
  "membership_step H liveliness_prefix pm sample =
     (case strip_prefix (liveliness_prefix @ ''/'') (fst sample) of
        None \<Rightarrow> (pm, None)
      | Some worker_id \<Rightarrow>
          let wkrs = known_workers pm;
              new_workers = (if snd sample = Put
                 then (if worker_id \<in> set wkrs then wkrs else sort (wkrs @ [worker_id]))
                 else filter (\<lambda>w. w \<noteq> worker_id) wkrs) in
          rebalance H new_workers (pm\<lparr>known_workers := new_workers\<rparr>))"

section \<open>Reachable states\<close>

inductive pm_reach :: "(hash_input list \<Rightarrow> u64) \<Rightarrow> string \<Rightarrow> PartitionManager \<Rightarrow> bool" for H prefix where
  Start: "pm_new H (Some wid) n prefix (Ok ()) (Ok replies) = Ok pm \<Longrightarrow> pm_reach H prefix pm"
| Register: "pm_reach H prefix pm \<Longrightarrow> pm_reach H prefix (on_rebalance pm)"
| Sample: "pm_reach H prefix pm \<Longrightarrow> pm_reach H prefix (fst (membership_step H prefix pm sample))"

definition pm_inv :: "(hash_input list \<Rightarrow> u64) \<Rightarrow> PartitionManager \<Rightarrow> bool" where
  "pm_inv H pm \<longleftrightarrow> sorted_wrt (<) (known_workers pm)
     \<and> my_partitions pm = (if pm_worker_id pm \<in> set (known_workers pm)
          then owned H (known_workers pm) (pm_num_partitions pm) (pm_worker_id pm) else [])"

lemma parts_of_eq: "parts_of H ws n w = (if w \<in> set ws then owned H ws n w else [])"
  using assignments_total[of H ws n] by (auto simp: parts_of_def)

lemma push_worker_distinct: "distinct ws \<Longrightarrow> distinct (push_worker p r ws)"
  by (auto simp: push_worker_def split: option.splits)

lemma fold_push_worker_distinct: "distinct ws \<Longrightarrow> distinct (fold (push_worker p) rs ws)"
  by (induction rs arbitrary: ws) (auto simp: push_worker_distinct)

lemma pm_new_inv: "pm_new H (Some wid) n prefix (Ok ()) (Ok replies) = Ok pm \<Longrightarrow> pm_inv H pm"
  by (auto simp: pm_new_def pm_inv_def Let_def parts_of_eq strict_sorted_iff fold_push_worker_distinct)

lemma equal_parts:
  assumes "filter (\<lambda>p. p \<notin> set old) new = []" and "filter (\<lambda>p. p \<notin> set new) old = []"
    and "sorted_wrt (<) new" and "sorted_wrt (<) (old :: 'a::linorder list)"
  shows "old = new"
  using assms by (intro strict_sorted_equal) (auto simp: filter_empty_conv)

lemma owned_sorted: "sorted_wrt (<) (owned H ws n w)"
  unfolding owned_def by (rule sorted_wrt_filter[OF sorted_word_range])

lemma parts_of_sorted: "sorted_wrt (<) (parts_of H ws n w)"
  by (simp add: parts_of_eq owned_sorted)

lemma rebalance_parts:
  assumes "sorted_wrt (<) (my_partitions pm)"
  shows "my_partitions (fst (rebalance H ws pm)) = parts_of H ws (pm_num_partitions pm) (pm_worker_id pm)"
  using equal_parts[OF _ _ parts_of_sorted assms] by (auto simp: rebalance_def Let_def)

lemma rebalance_frame [simp]:
  "known_workers (fst (rebalance H ws pm)) = known_workers pm"
  "pm_worker_id (fst (rebalance H ws pm)) = pm_worker_id pm"
  "pm_num_partitions (fst (rebalance H ws pm)) = pm_num_partitions pm"
  by (auto simp: rebalance_def Let_def)

lemma membership_step_inv:
  assumes "pm_inv H pm"
  shows "pm_inv H (fst (membership_step H prefix pm sample))"
proof (cases "strip_prefix (prefix @ ''/'') (fst sample)")
  case None
  then show ?thesis using assms by (simp add: membership_step_def)
next
  case (Some wid)
  let ?ws = "if snd sample = Put
     then (if wid \<in> set (known_workers pm) then known_workers pm else sort (known_workers pm @ [wid]))
     else filter (\<lambda>w. w \<noteq> wid) (known_workers pm)"
  have step: "membership_step H prefix pm sample = rebalance H ?ws (pm\<lparr>known_workers := ?ws\<rparr>)"
    using Some by (simp add: membership_step_def Let_def)
  have "sorted_wrt (<) ?ws"
    using assms by (auto simp: pm_inv_def strict_sorted_iff sorted_wrt_filter sorted_filter)
  moreover have "sorted_wrt (<) (my_partitions pm)" using assms by (auto simp: pm_inv_def owned_sorted)
  ultimately show ?thesis
    unfolding step pm_inv_def by (simp only: rebalance_parts rebalance_frame PartitionManager.simps parts_of_eq)
      (simp add: rebalance_parts parts_of_eq)
qed

lemma pm_reach_inv: "pm_reach H prefix pm \<Longrightarrow> pm_inv H pm"
proof (induction rule: pm_reach.induct)
  case (Register pm)
  then show ?case by (simp add: pm_inv_def on_rebalance_def)
qed (auto intro: pm_new_inv membership_step_inv)

section \<open>Properties\<close>

text \<open>
  C19. Once every member of a consumer group has the group's membership in view, the group owns
  every partition exactly once: for each partition below \<^verbatim>\<open>num_partitions\<close>, and for no
  other, there is exactly one member whose \<^verbatim>\<open>my_partitions\<close> contains it, whatever
  sequence of joins, leaves and initial queries led each member there.
\<close>

theorem converged_group_owns_once:
  assumes "\<forall>pm \<in> set G. pm_reach H lp pm \<and> pm_num_partitions pm = n
      \<and> set (known_workers pm) = pm_worker_id ` set G"
    and "distinct (map pm_worker_id G)" and "G \<noteq> []"
  shows "(\<exists>!pm. pm \<in> set G \<and> p \<in> set (my_partitions pm)) \<longleftrightarrow> p < n"
proof -
  define ws where "ws = sorted_list_of_set (pm_worker_id ` set G)"
  have view: "known_workers pm = ws \<and> set (my_partitions pm) = {p. p < n \<and> worker_for H p ws = Some (pm_worker_id pm)}"
    if "pm \<in> set G" for pm
  proof -
    have inv: "pm_inv H pm" and n: "pm_num_partitions pm = n" and k: "set (known_workers pm) = pm_worker_id ` set G"
      using assms(1) that pm_reach_inv by auto
    have "known_workers pm = ws"
      using inv k by (intro strict_sorted_equal) (auto simp: pm_inv_def ws_def)
    then show ?thesis using inv n k that by (auto simp: pm_inv_def owned_iff)
  qed
  have "ws \<noteq> []" using assms(3) by (simp add: ws_def)
  then obtain w where w: "w \<in> set ws" "worker_for H p ws = Some w" using hr.owner_exists by blast
  then obtain pm where pm: "pm \<in> set G" "pm_worker_id pm = w" by (auto simp: ws_def)
  have uniq: "pm' = pm" if "pm' \<in> set G" "pm_worker_id pm' = w" for pm'
    using assms(2) that pm by (auto simp: distinct_map inj_on_def)
  have owns: "(pm' \<in> set G \<and> p \<in> set (my_partitions pm')) \<longleftrightarrow> p < n \<and> pm' = pm" for pm'
    using view[of pm'] uniq[of pm'] pm w(2) by fastforce
  show ?thesis unfolding owns by blast
qed

text \<open>
  In every reachable state a liveliness sample bumps the generation exactly when it changes
  this worker's partitions, and the callback, if registered, is then called once with exactly the
  partitions gained and the partitions lost.
\<close>

theorem rebalance_callback_exact:
  assumes "pm_reach H lp pm" and "membership_step H lp pm sample = (pm', cb)"
  shows "generation pm' = generation pm + (if my_partitions pm' = my_partitions pm then 0 else 1)
    \<and> (cb \<noteq> None \<longleftrightarrow> has_rebalance_cb pm \<and> my_partitions pm' \<noteq> my_partitions pm)
    \<and> (\<forall>gained lost. cb = Some (gained, lost) \<longrightarrow>
         set gained = set (my_partitions pm') - set (my_partitions pm)
       \<and> set lost = set (my_partitions pm) - set (my_partitions pm'))"
proof -
  have srt: "sorted_wrt (<) (my_partitions pm)"
    using pm_reach_inv[OF assms(1)] by (auto simp: pm_inv_def owned_sorted)
  show ?thesis
  proof (cases "strip_prefix (lp @ ''/'') (fst sample)")
    case None
    then show ?thesis using assms(2) by (auto simp: membership_step_def)
  next
    case (Some wid)
    then obtain ws where step: "rebalance H ws (pm\<lparr>known_workers := ws\<rparr>) = (pm', cb)"
      using assms(2) by (auto simp: membership_step_def Let_def)
    let ?new = "parts_of H ws (pm_num_partitions pm) (pm_worker_id pm)"
    have eq: "?new = my_partitions pm" if "filter (\<lambda>p. p \<notin> set (my_partitions pm)) ?new = []"
      "filter (\<lambda>p. p \<notin> set ?new) (my_partitions pm) = []"
      using equal_parts[OF that parts_of_sorted srt] by simp
    show ?thesis using step eq
      by (auto simp: rebalance_def Let_def split: if_splits)
  qed
qed

definition demo_pm :: PartitionManager where
  "demo_pm = \<lparr>pm_worker_id = ''b'', pm_num_partitions = 1, my_partitions = [0], known_workers = [''b''],
     has_rebalance_cb = False, generation = 1\<rparr>"

lemma demo_pm_reach: "pm_reach demo_hash ''w'' demo_pm"
  by (rule pm_reach.Start[of _ "''b''" 1 _ "[]"]) code_simp

theorem converged_group_owns_once_witness:
  "(\<exists>!pm. pm \<in> set [demo_pm] \<and> 0 \<in> set (my_partitions pm)) \<longleftrightarrow> (0::u32) < 1"
  by (rule converged_group_owns_once[of "[demo_pm]" demo_hash "''w''" 1 0])
    (auto simp: demo_pm_reach, auto simp: demo_pm_def)

definition demo_pm_left :: PartitionManager where
  "demo_pm_left = demo_pm\<lparr>has_rebalance_cb := True, generation := 2, my_partitions := [], known_workers := []\<rparr>"

theorem rebalance_callback_exact_witness:
  "membership_step demo_hash ''w'' (on_rebalance demo_pm) (''w/b'', Delete) = (demo_pm_left, Some ([], [0]))
     \<and> generation demo_pm_left = generation (on_rebalance demo_pm) + 1
     \<and> set [0] = set (my_partitions (on_rebalance demo_pm)) - set (my_partitions demo_pm_left)"
proof -
  have e: "membership_step demo_hash ''w'' (on_rebalance demo_pm) (''w/b'', Delete) = (demo_pm_left, Some ([], [0]))"
    by code_simp
  show ?thesis
    using rebalance_callback_exact[OF pm_reach.Register[OF demo_pm_reach] e] e
    by (auto simp: demo_pm_left_def demo_pm_def on_rebalance_def)
qed

text \<open>
  The generation counter does not count membership changes: a worker joining can leave it
  where it was.  (The field's and the accessor's documentation say that it increments on every
  membership change.)
\<close>

theorem generation_misses_join:
  "\<exists>pm. pm_reach demo_hash ''w'' pm
     \<and> set (known_workers (fst (membership_step demo_hash ''w'' pm (''w/a'', Put)))) = insert ''a'' (set (known_workers pm))
     \<and> ''a'' \<notin> set (known_workers pm)
     \<and> generation (fst (membership_step demo_hash ''w'' pm (''w/a'', Put))) = generation pm"
proof (intro exI[of _ demo_pm] conjI)
  show "set (known_workers (fst (membership_step demo_hash ''w'' demo_pm (''w/a'', Put)))) = insert ''a'' (set (known_workers demo_pm))"
    by code_simp
  show "generation (fst (membership_step demo_hash ''w'' demo_pm (''w/a'', Put))) = generation demo_pm"
    by code_simp
qed (simp_all add: demo_pm_reach, simp add: demo_pm_def)

end
