(* ===== verification/Consumer_Group.thy ===== *)
theory Consumer_Group
  imports Session_Io Partition_Manager
begin

text \<open>
  Consumer groups (\<^verbatim>\<open>mitiflow/src/subscriber/consumer_group.rs\<close>): joining through the
  partition manager, the gap-detection task that records positions, offset commits in their
  synchronous, asynchronous and automatic form, the rebalance callback, and shutdown.  The session is
  a record of operations on the state behind it (\<open>Session_Io\<close>); the JSON codec of commits, the clock
  and the outcome of declarations are arguments.  The part of the pipeline state that
  \<^verbatim>\<open>handle_sample_result\<close> works on (channel log, spawned recoveries) is kept together with the
  gap detector of the task.
\<close>

section \<open>State\<close>

datatype CommitMode = Manual | Auto Duration

record consumer_group =
  cg_key_prefix :: string
  cg_group_id :: string
  cg_member_id :: string
  cg_commit_mode :: CommitMode
  cg_generation :: u64
  cg_assigned :: "u32 list"
  cg_positions :: "(stream, u64) hmap"
  cg_pipe :: "nat pipeline"
  cg_key_exprs :: "string list"
  cg_cancelled :: bool

definition bare_pipeline :: "GapDetector \<Rightarrow> nat pipeline" where
  "bare_pipeline gd = \<lparr>pl_gd = gd, pl_dedup = \<lparr>ed_order = [], ed_seen = {}, ed_capacity = 0\<rparr>, pl_sample_count = 0,
     pl_offload = None, pl_log = [], pl_spawned = [], pl_shards = []\<rparr>"

section \<open>Offsets in the store\<close>

definition commit_key :: "string \<Rightarrow> u32 \<Rightarrow> string \<Rightarrow> string" where
  "commit_key key_prefix part group_id = key_prefix @ ''/_offsets/'' @ show_word part @ ''/'' @ group_id"

definition fetch_selector :: "string \<Rightarrow> u32 \<Rightarrow> string \<Rightarrow> string" where
  "fetch_selector key_prefix part group_id =
     key_prefix @ ''/_offsets/'' @ show_word part @ ''/'' @ group_id @ ''?fetch=true&group_id='' @ group_id"

definition merge_offsets :: "OffsetCommit commit_codec \<Rightarrow> bytes option \<Rightarrow> (PublisherId, u64) hmap \<Rightarrow> (PublisherId, u64) hmap" where
  "merge_offsets codec reply m =
     (case reply of None \<Rightarrow> m
      | Some bs \<Rightarrow> (case cc_from_slice codec bs of
          Ok commit \<Rightarrow> fold (\<lambda>(pub_id, seq). hm_insert pub_id seq) (oc_offsets commit) m
        | Err _ \<Rightarrow> m))"

definition fetch_offsets_from_store ::
  "'s session_io \<Rightarrow> OffsetCommit commit_codec \<Rightarrow> string \<Rightarrow> u32 \<Rightarrow> string \<Rightarrow> 's \<Rightarrow> 's \<times> (PublisherId, u64) hmap"
where
  "fetch_offsets_from_store io codec key_prefix part group_id st =
     (case io_get io (fetch_selector key_prefix part group_id) None st of
        (st', Err _) \<Rightarrow> (st', [])
      | (st', Ok replies) \<Rightarrow> (st', fold (merge_offsets codec) replies []))"

text \<open>Fetching for a list of partitions, into the checkpoints or the positions.\<close>

fun load_offsets_for ::
  "'s session_io \<Rightarrow> OffsetCommit commit_codec \<Rightarrow> string \<Rightarrow> string \<Rightarrow> u32 list \<Rightarrow> 's \<Rightarrow> (stream, u64) hmap
    \<Rightarrow> 's \<times> (stream, u64) hmap"
where
  "load_offsets_for io codec key_prefix group_id [] st m = (st, m)"
| "load_offsets_for io codec key_prefix group_id (q # qs) st m =
     (let (st1, offsets) = fetch_offsets_from_store io codec key_prefix q group_id st
      in load_offsets_for io codec key_prefix group_id qs st1 (fold (\<lambda>(pub_id, seq). hm_insert (pub_id, q) seq) offsets m))"

section \<open>Joining\<close>

definition group_liveliness :: "string \<Rightarrow> string \<Rightarrow> string" where
  "group_liveliness key_prefix group_id = key_prefix @ ''/_workers/'' @ group_id"

definition group_key_exprs :: "string \<Rightarrow> u32 list \<Rightarrow> string list" where
  "group_key_exprs key_prefix my_parts =
     (if my_parts = [] then [key_prefix @ ''/_none'']
      else map (\<lambda>p. key_prefix @ ''/p/'' @ show_word p @ ''/**'') my_parts)"

fun declare_all :: "(string \<Rightarrow> unit result) \<Rightarrow> string list \<Rightarrow> unit result" where
  "declare_all decl [] = Ok ()"
| "declare_all decl (ke # kes) = rbind (decl ke) (\<lambda>_. declare_all decl kes)"

text \<open>
  Joining with the partition manager \<open>pm\<close> obtained after the settle time; \<open>decl\<close> is the outcome of
  declaring a subscription.
\<close>

definition cg_join ::
  "'s session_io \<Rightarrow> OffsetCommit commit_codec \<Rightarrow> (string \<Rightarrow> unit result) \<Rightarrow> string \<Rightarrow> string \<Rightarrow> string \<Rightarrow> CommitMode
    \<Rightarrow> PartitionManager \<Rightarrow> 's \<Rightarrow> 's \<times> consumer_group result"
where
  "cg_join io codec decl key_prefix group_id member_id mode pm st =
     (let my_parts = my_partitions pm;
          (st1, checkpoints) = load_offsets_for io codec key_prefix group_id my_parts st [];
          kes = group_key_exprs key_prefix my_parts
      in (st1, rbind (declare_all decl kes) (\<lambda>_. Ok
           \<lparr>cg_key_prefix = key_prefix, cg_group_id = group_id, cg_member_id = member_id, cg_commit_mode = mode,
            cg_generation = generation pm, cg_assigned = my_parts, cg_positions = checkpoints,
            cg_pipe = bare_pipeline (with_checkpoints checkpoints), cg_key_exprs = kes, cg_cancelled = False\<rparr>)))"

text \<open>
  \<^verbatim>\<open>ConsumerGroupSubscriber::new\<close> once the topic schema is resolved: the partition manager is
  built, then sees the membership samples of the settle time.
\<close>

definition cg_new ::
  "'s session_io \<Rightarrow> OffsetCommit commit_codec \<Rightarrow> (hash_input list \<Rightarrow> u64) \<Rightarrow> (string \<Rightarrow> unit result) \<Rightarrow> unit result
    \<Rightarrow> string option list result \<Rightarrow> (string \<times> SampleKind) list \<Rightarrow> string \<Rightarrow> u32 \<Rightarrow> string \<Rightarrow> string \<Rightarrow> CommitMode
    \<Rightarrow> 's \<Rightarrow> 's \<times> (consumer_group \<times> PartitionManager) result"
where
  "cg_new io codec H decl token liveliness_get settle key_prefix num_partitions group_id member_id mode st =
     (let lp = group_liveliness key_prefix group_id in
      case pm_new H (Some member_id) num_partitions lp token liveliness_get of
        Err e \<Rightarrow> (st, Err e)
      | Ok pm0 \<Rightarrow>
          let pm = fold (\<lambda>s pm. fst (membership_step H lp pm s)) settle pm0;
              (st1, r) = cg_join io codec decl key_prefix group_id member_id mode pm st
          in (st1, rbind r (\<lambda>cg. Ok (cg, on_rebalance pm))))"

section \<open>Consuming\<close>

definition track_position :: "stream \<Rightarrow> u64 \<Rightarrow> (stream, u64) hmap \<Rightarrow> (stream, u64) hmap" where
  "track_position k seq pos =
     (let entry = (case hm_get pos k of Some v \<Rightarrow> v | None \<Rightarrow> 0) in hm_insert k (if seq > entry then seq else entry) pos)"

definition cg_sample :: "event_tx \<Rightarrow> Instant \<Rightarrow> DecodedSample \<Rightarrow> consumer_group \<Rightarrow> consumer_group" where
  "cg_sample tx now sample cg =
     (case sample of (meta, key, payload) \<Rightarrow>
        let q = extract_partition key;
            (gd, result) = on_sample (pl_gd (cg_pipe cg)) now (em_pub_id meta) q (em_seq meta) in
        cg\<lparr>cg_pipe := handle_sample_result tx result meta key payload ((cg_pipe cg)\<lparr>pl_gd := gd\<rparr>),
           cg_positions := track_position (em_pub_id meta, q) (em_seq meta) (cg_positions cg)\<rparr>)"

definition cg_receive :: "event_tx \<Rightarrow> Instant \<Rightarrow> zenoh_sample \<Rightarrow> consumer_group \<Rightarrow> consumer_group" where
  "cg_receive tx now s cg =
     (if cg_cancelled cg then cg
      else case decode_sample s of Some d \<Rightarrow> cg_sample tx now d cg | None \<Rightarrow> cg)"

text \<open>Receiving from the event channel; \<^const>\<open>None\<close> while it is empty but open.\<close>

definition cg_recv_raw :: "bool \<Rightarrow> RawEvent list \<Rightarrow> RawEvent result option \<times> RawEvent list" where
  "cg_recv_raw closed queue =
     (case queue of e # rest \<Rightarrow> (Some (Ok e), rest) | [] \<Rightarrow> (if closed then Some (Err ChannelClosed) else None, []))"

section \<open>Committing\<close>

definition partition_offsets :: "u32 \<Rightarrow> (stream, u64) hmap \<Rightarrow> (PublisherId, u64) hmap" where
  "partition_offsets part pos = map (\<lambda>((pub_id, _), seq). (pub_id, seq)) (filter (\<lambda>((_, p), _). p = part) pos)"

definition commit_of :: "DateTime \<Rightarrow> u32 \<Rightarrow> consumer_group \<Rightarrow> OffsetCommit" where
  "commit_of now part cg = \<lparr>oc_group_id = cg_group_id cg, oc_member_id = cg_member_id cg, oc_partition = part,
     oc_offsets = partition_offsets part (cg_positions cg), oc_generation = cg_generation cg, oc_timestamp = now\<rparr>"

fun ack_replies :: "string \<Rightarrow> u64 \<Rightarrow> bytes option list \<Rightarrow> unit result" where
  "ack_replies grp gen [] = Ok ()"
| "ack_replies grp gen (None # rs) = ack_replies grp gen rs"
| "ack_replies grp gen (Some body # rs) =
     (case strip_prefix ''error:'' (case from_utf8 body of Some s \<Rightarrow> s | None \<Rightarrow> []) of
        None \<Rightarrow> ack_replies grp gen rs
      | Some msg \<Rightarrow> if str_contains ''stale fenced commit'' msg then Err (StaleFencedCommit grp gen 0) else Err (StoreError msg))"

definition commit_partition_sync ::
  "'s session_io \<Rightarrow> OffsetCommit commit_codec \<Rightarrow> DateTime \<Rightarrow> consumer_group \<Rightarrow> u32 \<Rightarrow> 's \<Rightarrow> 's \<times> unit result"
where
  "commit_partition_sync io codec now cg part st =
     (let commit = commit_of now part cg in
      if oc_offsets commit = [] then (st, Ok ())
      else case cc_to_vec codec commit of
          Err e \<Rightarrow> (st, Err e)
        | Ok payload \<Rightarrow>
            (case io_get io (commit_key (cg_key_prefix cg) part (cg_group_id cg)) (Some payload) st of
               (st', Err e) \<Rightarrow> (st', Err e)
             | (st', Ok replies) \<Rightarrow> (st', ack_replies (cg_group_id cg) (oc_generation commit) replies)))"

definition commit_partition_async ::
  "'s session_io \<Rightarrow> OffsetCommit commit_codec \<Rightarrow> DateTime \<Rightarrow> consumer_group \<Rightarrow> u32 \<Rightarrow> 's \<Rightarrow> 's \<times> unit result"
where
  "commit_partition_async io codec now cg part st =
     (let commit = commit_of now part cg in
      if oc_offsets commit = [] then (st, Ok ())
      else case cc_to_vec codec commit of
          Err e \<Rightarrow> (st, Err e)
        | Ok payload \<Rightarrow> io_put io (commit_key (cg_key_prefix cg) part (cg_group_id cg)) payload st)"

text \<open>A loop over partitions that returns at the first error.\<close>

fun each_partition :: "(u32 \<Rightarrow> 's \<Rightarrow> 's \<times> unit result) \<Rightarrow> u32 list \<Rightarrow> 's \<Rightarrow> 's \<times> unit result" where
  "each_partition f [] st = (st, Ok ())"
| "each_partition f (q # qs) st = (case f q st of (st', Ok _) \<Rightarrow> each_partition f qs st' | (st', Err e) \<Rightarrow> (st', Err e))"

definition commit_sync ::
  "'s session_io \<Rightarrow> OffsetCommit commit_codec \<Rightarrow> DateTime \<Rightarrow> consumer_group \<Rightarrow> 's \<Rightarrow> 's \<times> unit result"
where
  "commit_sync io codec now cg st = each_partition (commit_partition_sync io codec now cg) (cg_assigned cg) st"

definition commit_async ::
  "'s session_io \<Rightarrow> OffsetCommit commit_codec \<Rightarrow> DateTime \<Rightarrow> consumer_group \<Rightarrow> 's \<Rightarrow> 's \<times> unit result"
where
  "commit_async io codec now cg st = each_partition (commit_partition_async io codec now cg) (cg_assigned cg) st"

definition load_offsets ::
  "'s session_io \<Rightarrow> OffsetCommit commit_codec \<Rightarrow> consumer_group \<Rightarrow> u32 \<Rightarrow> 's \<Rightarrow> 's \<times> (PublisherId, u64) hmap result"
where
  "load_offsets io codec cg part st =
     (let (st', m) = fetch_offsets_from_store io codec (cg_key_prefix cg) part (cg_group_id cg) st in (st', Ok m))"

text \<open>The commit of the automatic mode goes on after a failure.\<close>

definition do_commit_async ::
  "'s session_io \<Rightarrow> OffsetCommit commit_codec \<Rightarrow> DateTime \<Rightarrow> consumer_group \<Rightarrow> 's \<Rightarrow> 's"
where
  "do_commit_async io codec now cg st =
     fold (\<lambda>q st. fst (commit_partition_async io codec now cg q st)) (cg_assigned cg) st"

datatype auto_input = AutoTick | AutoCancelled

definition auto_commit_turn ::
  "'s session_io \<Rightarrow> OffsetCommit commit_codec \<Rightarrow> DateTime \<Rightarrow> consumer_group \<Rightarrow> auto_input \<Rightarrow> bool \<times> 's \<Rightarrow> bool \<times> 's"
where
  "auto_commit_turn io codec now cg inp run =
     (case run of (running, st) \<Rightarrow>
        if \<not> running then (False, st) else (inp = AutoTick, do_commit_async io codec now cg st))"

definition cg_shutdown ::
  "'s session_io \<Rightarrow> OffsetCommit commit_codec \<Rightarrow> DateTime \<Rightarrow> consumer_group \<Rightarrow> 's \<Rightarrow> 's \<times> consumer_group"
where
  "cg_shutdown io codec now cg st =
     (let st1 = fst (commit_async io codec now cg st);
          st2 = (case cg_commit_mode cg of Auto _ \<Rightarrow> snd (auto_commit_turn io codec now cg AutoCancelled (True, st1)) | Manual \<Rightarrow> st1)
      in (st2, cg\<lparr>cg_cancelled := True\<rparr>))"

section \<open>Rebalancing\<close>

text \<open>
  The callback runs in two parts: the generation is bumped at once, the rest is a spawned task that
  has captured the generation.
\<close>

definition rebalance_bump :: "consumer_group \<Rightarrow> consumer_group" where
  "rebalance_bump cg = cg\<lparr>cg_generation := cg_generation cg + 1\<rparr>"

definition commit_lost ::
  "'s session_io \<Rightarrow> OffsetCommit commit_codec \<Rightarrow> DateTime \<Rightarrow> u64 \<Rightarrow> consumer_group \<Rightarrow> u32 \<Rightarrow> 's \<Rightarrow> 's"
where
  "commit_lost io codec now current_gen cg part st =
     (let commit = (commit_of now part cg)\<lparr>oc_generation := current_gen\<rparr> in
      if oc_offsets commit = [] then st
      else case cc_to_vec codec commit of
          Err _ \<Rightarrow> st
        | Ok bs \<Rightarrow> fst (io_put io (commit_key (cg_key_prefix cg) part (cg_group_id cg)) bs st))"

definition update_assigned :: "u32 list \<Rightarrow> u32 list \<Rightarrow> u32 list \<Rightarrow> u32 list" where
  "update_assigned gained lost assigned =
     fold (\<lambda>p ps. if p \<in> set ps then ps else ps @ [p]) gained (filter (\<lambda>p. p \<notin> set lost) assigned)"

definition rebalance_task ::
  "'s session_io \<Rightarrow> OffsetCommit commit_codec \<Rightarrow> DateTime \<Rightarrow> u64 \<Rightarrow> u32 list \<Rightarrow> u32 list \<Rightarrow> consumer_group \<Rightarrow> 's
    \<Rightarrow> 's \<times> consumer_group"
where
  "rebalance_task io codec now current_gen gained lost cg st =
     (let st1 = fold (commit_lost io codec now current_gen cg) lost st;
          (st2, pos) = load_offsets_for io codec (cg_key_prefix cg) (cg_group_id cg) gained st1 (cg_positions cg)
      in (st2, cg\<lparr>cg_positions := pos, cg_assigned := update_assigned gained lost (cg_assigned cg)\<rparr>))"

definition cg_on_rebalance ::
  "'s session_io \<Rightarrow> OffsetCommit commit_codec \<Rightarrow> DateTime \<Rightarrow> u32 list \<Rightarrow> u32 list \<Rightarrow> consumer_group \<Rightarrow> 's \<Rightarrow> 's \<times> consumer_group"
where
  "cg_on_rebalance io codec now gained lost cg st =
     (let cg1 = rebalance_bump cg in rebalance_task io codec now (cg_generation cg1) gained lost cg1 st)"

section \<open>Positions\<close>

lemma partition_offsets_get [simp]: "hm_get (partition_offsets q pos) p = hm_get pos (p, q)"
  by (induction pos) (auto simp: partition_offsets_def)

lemma partition_offsets_wf [simp]: "hm_wf pos \<Longrightarrow> hm_wf (partition_offsets q pos)"
proof (induction pos)
  case (Cons x pos)
  have "fst (fst x) \<notin> fst ` set (partition_offsets q pos)" if "snd (fst x) = q"
  proof -
    have "(fst (fst x), q) = fst x" using that by auto
    then have "hm_get pos (fst (fst x), q) = None" using Cons.prems by (simp add: map_of_eq_None_iff)
    then have "hm_get (partition_offsets q pos) (fst (fst x)) = None" by simp
    then show ?thesis by (simp only: map_of_eq_None_iff not_False_eq_True)
  qed
  moreover have "partition_offsets q (x # pos) =
      (if snd (fst x) = q then (fst (fst x), snd x) # partition_offsets q pos else partition_offsets q pos)"
    by (simp add: partition_offsets_def split_beta)
  ultimately show ?case using Cons by simp
qed (simp add: partition_offsets_def)

lemma fold_insert_get:
  "hm_wf offs \<Longrightarrow> hm_get (fold (\<lambda>(p, s). hm_insert p s) offs m) p = (case hm_get offs p of Some s \<Rightarrow> Some s | None \<Rightarrow> hm_get m p)"
proof (induction offs arbitrary: m)
  case (Cons x offs)
  have "hm_get offs (fst x) = None" using Cons.prems by (simp add: map_of_eq_None_iff)
  then show ?case using Cons by (cases x) (auto split: option.splits)
qed simp

lemma fold_insert_stream_get:
  "hm_wf offs \<Longrightarrow> hm_get (fold (\<lambda>(p, s). hm_insert (p, q) s) offs m) (p, q')
     = (case hm_get offs p of Some s \<Rightarrow> if q' = q then Some s else hm_get m (p, q') | None \<Rightarrow> hm_get m (p, q'))"
proof (induction offs arbitrary: m)
  case (Cons x offs)
  have "hm_get offs (fst x) = None" using Cons.prems by (simp add: map_of_eq_None_iff)
  then show ?case using Cons by (cases x) (auto split: option.splits)
qed simp

lemma fold_insert_wf: "hm_wf m \<Longrightarrow> hm_wf (fold (\<lambda>(p, s). hm_insert (f p) s) offs m)"
  by (induction offs arbitrary: m) (simp_all add: split_beta)

lemma utf8_error: "utf8 (''error:'' @ s) = utf8 s"
  by (subst utf8_append_str) (simp_all add: utf8_ascii)

lemma ack_single:
  assumes "\<And>x. utf8 (display x)"
  shows "ack_replies grp gen [Some (commit_reply display r)] = Ok () \<longleftrightarrow> r = Ok ()"
proof (cases r)
  case (Inl x)
  have "from_utf8 (as_bytes (''error:'' @ display x)) = Some (''error:'' @ display x)"
    using assms[of x] utf8_error[of "display x"] from_as_bytes[of "''error:'' @ display x"]
    by (simp only: from_utf8_def if_True)
  then show ?thesis using Inl by (simp add: commit_reply_def del: append.simps as_bytes_append)
next
  case (Inr u)
  have "from_utf8 (as_bytes ''ok'') = Some ''ok''"
    using utf8_ascii[of "''ok''"] by (simp only: from_utf8_def from_as_bytes) simp
  then show ?thesis using Inr by (simp add: commit_reply_def strip_prefix_def)
qed

section \<open>The offset service\<close>

text \<open>
  What a group member relies on: a commit query to a partition that is served gets one reply; when it
  is not an error, the offsets of the commit are the committed ones with its generation and all other
  offsets are kept; it is an error, and nothing changes, when a publisher of the commit has an offset
  of a newer generation.  A fetch that is answered returns the committed offsets.
\<close>

definition fenced :: "(PublisherId \<Rightarrow> (u64 \<times> u64) option) \<Rightarrow> OffsetCommit \<Rightarrow> bool" where
  "fenced old c \<longleftrightarrow> (\<exists>p s s' g. hm_get (oc_offsets c) p = Some s \<and> old p = Some (s', g) \<and> oc_generation c < g)"

locale offset_service =
  fixes io :: "'e \<Rightarrow> 's session_io"
    and codec :: "'e \<Rightarrow> OffsetCommit commit_codec"
    and key_prefix :: "'e \<Rightarrow> string"
    and display :: "'e \<Rightarrow> error \<Rightarrow> string"
    and committed :: "'e \<Rightarrow> 's \<Rightarrow> u32 \<Rightarrow> string \<Rightarrow> PublisherId \<Rightarrow> (u64 \<times> u64) option"
    and serves :: "'e \<Rightarrow> 's \<Rightarrow> u32 \<Rightarrow> bool"
    and valid :: "'e \<Rightarrow> 's \<Rightarrow> bool"
    and ok_group :: "string \<Rightarrow> bool"
  assumes commit_law:
    "valid e st \<Longrightarrow> serves e st q \<Longrightarrow> ok_group (oc_group_id c) \<Longrightarrow> hm_wf (oc_offsets c) \<Longrightarrow> cc_to_vec (codec e) c = Ok bs \<Longrightarrow>
     io_get (io e) (commit_key (key_prefix e) q (oc_group_id c)) (Some bs) st = (st', Ok rs) \<Longrightarrow>
     valid e st' \<and> serves e st' = serves e st \<and> (\<forall>q'. q' \<noteq> q \<longrightarrow> committed e st' q' = committed e st q')
     \<and> (\<exists>r. rs = [Some (commit_reply (display e) r)]
        \<and> (r = Ok () \<longrightarrow> committed e st' q (oc_group_id c) = (\<lambda>p. case hm_get (oc_offsets c) p of
              Some s \<Rightarrow> Some (s, oc_generation c) | None \<Rightarrow> committed e st q (oc_group_id c) p))
        \<and> (fenced (committed e st q (oc_group_id c)) c \<longrightarrow> st' = st \<and> r \<noteq> Ok ()))"
    and fetch_law:
    "valid e st \<Longrightarrow> serves e st q \<Longrightarrow> ok_group g \<Longrightarrow> io_get (io e) (fetch_selector (key_prefix e) q g) None st = (st', Ok rs) \<Longrightarrow>
     st' = st \<and> (rs = [] \<or> (\<exists>bs c. rs = [Some bs] \<and> cc_from_slice (codec e) bs = Ok c \<and> hm_wf (oc_offsets c)
        \<and> (\<forall>p. hm_get (oc_offsets c) p = map_option fst (committed e st q g p))))"
    and display_utf8: "valid e st \<Longrightarrow> utf8 (display e x)"
begin

text \<open>Members of a group on this service.\<close>

definition member :: "'e \<Rightarrow> consumer_group \<Rightarrow> bool" where
  "member e cg \<longleftrightarrow> cg_key_prefix cg = key_prefix e \<and> ok_group (cg_group_id cg) \<and> hm_wf (cg_positions cg)"

definition holds :: "'e \<Rightarrow> consumer_group \<Rightarrow> 's \<Rightarrow> u32 \<Rightarrow> bool" where
  "holds e cg st q \<longleftrightarrow> (\<forall>p s. hm_get (cg_positions cg) (p, q) = Some s \<longrightarrow>
     committed e st q (cg_group_id cg) p = Some (s, cg_generation cg))"

definition answered :: "'e \<Rightarrow> 's \<Rightarrow> string \<Rightarrow> u32 \<Rightarrow> bool" where
  "answered e st g q \<longleftrightarrow> (\<exists>r. snd (io_get (io e) (fetch_selector (key_prefix e) q g) None st) = Ok [r])"

lemma commit_partition_holds:
  assumes "valid e st" and "serves e st q" and "member e cg"
    and "commit_partition_sync (io e) (codec e) now cg q st = (st', Ok ())"
  shows "valid e st' \<and> serves e st' = serves e st \<and> holds e cg st' q
    \<and> (\<forall>q'. q' \<noteq> q \<longrightarrow> committed e st' q' = committed e st q')"
proof (cases "partition_offsets q (cg_positions cg) = []")
  case True
  then have "hm_get (cg_positions cg) (p, q) = None" for p by (metis partition_offsets_get map_of.simps(1))
  then show ?thesis using assms True by (simp add: commit_partition_sync_def commit_of_def holds_def)
next
  case False
  let ?c = "commit_of now q cg" and ?get = "\<lambda>bs. io_get (io e) (commit_key (cg_key_prefix cg) q (cg_group_id cg)) (Some bs) st"
  have ne: "oc_offsets ?c \<noteq> []" using False by (simp add: commit_of_def)
  obtain bs where bs: "cc_to_vec (codec e) ?c = Ok bs"
    using assms(4) ne by (cases "cc_to_vec (codec e) ?c") (auto simp: commit_partition_sync_def Let_def)
  obtain rs where rs: "?get bs = (st', Ok rs)" and ack: "ack_replies (cg_group_id cg) (oc_generation ?c) rs = Ok ()"
    using assms(4) ne bs
    by (cases "?get bs"; cases "snd (?get bs)") (auto simp: commit_partition_sync_def Let_def)
  have k: "cg_key_prefix cg = key_prefix e" "ok_group (oc_group_id ?c)" "hm_wf (oc_offsets ?c)" "oc_group_id ?c = cg_group_id cg"
    using assms(3) by (simp_all add: member_def commit_of_def)
  note law = commit_law[OF assms(1,2) k(2,3) bs, of st' rs]
  obtain r where r: "rs = [Some (commit_reply (display e) r)]"
    "r = Ok () \<longrightarrow> committed e st' q (oc_group_id ?c) = (\<lambda>p. case hm_get (oc_offsets ?c) p of
       Some s \<Rightarrow> Some (s, oc_generation ?c) | None \<Rightarrow> committed e st q (oc_group_id ?c) p)"
    using law rs k by auto
  have "r = Ok ()" using ack r(1) ack_single[of "display e"] display_utf8[OF assms(1)] by simp
  then have "holds e cg st' q" using r(2) by (simp add: holds_def commit_of_def)
  then show ?thesis using law rs k by auto
qed

lemma commit_all_hold:
  assumes "member e cg"
  shows "valid e st \<Longrightarrow> \<forall>q \<in> set qs. serves e st q \<Longrightarrow> each_partition (commit_partition_sync (io e) (codec e) now cg) qs st = (st', Ok ()) \<Longrightarrow>
    valid e st' \<and> serves e st' = serves e st \<and> (\<forall>q. q \<in> set qs \<or> holds e cg st q \<longrightarrow> holds e cg st' q)"
proof (induction qs arbitrary: st)
  case (Cons q qs)
  obtain st1 where st1: "commit_partition_sync (io e) (codec e) now cg q st = (st1, Ok ())"
    and rest: "each_partition (commit_partition_sync (io e) (codec e) now cg) qs st1 = (st', Ok ())"
    using Cons.prems(3) by (auto split: prod.splits sum.splits)
  note one = commit_partition_holds[OF Cons.prems(1) _ assms st1]
  have "\<forall>q'. q' = q \<or> holds e cg st q' \<longrightarrow> holds e cg st1 q'"
  proof (intro allI impI)
    fix q' assume "q' = q \<or> holds e cg st q'"
    then show "holds e cg st1 q'" using one Cons.prems(2) by (cases "q' = q") (auto simp: holds_def)
  qed
  then show ?case using Cons.IH[OF _ _ rest] one Cons.prems(2) by auto
qed simp

lemma fetch_answered:
  assumes "valid e st" and "serves e st q" and "ok_group g" and "answered e st g q"
  shows "\<exists>m. fetch_offsets_from_store (io e) (codec e) (key_prefix e) q g st = (st, m) \<and> hm_wf m
    \<and> (\<forall>p. hm_get m p = map_option fst (committed e st q g p))"
proof -
  let ?get = "io_get (io e) (fetch_selector (key_prefix e) q g) None st"
  obtain st' r where g: "?get = (st', Ok [r])" using assms(4) by (cases ?get) (auto simp: answered_def)
  obtain bs c where c: "st' = st" "r = Some bs" "cc_from_slice (codec e) bs = Ok c" "hm_wf (oc_offsets c)"
    "\<forall>p. hm_get (oc_offsets c) p = map_option fst (committed e st q g p)"
    using fetch_law[OF assms(1,2,3) g] by auto
  then show ?thesis
    using g fold_insert_get[OF c(4), of "[]"] fold_insert_wf[of "[]" "\<lambda>p. p" "oc_offsets c"]
    by (auto simp: fetch_offsets_from_store_def merge_offsets_def split: option.splits)
qed

lemma load_answered:
  assumes "valid e st" and "ok_group g" and "\<forall>q \<in> set qs. serves e st q \<and> answered e st g q"
  shows "\<exists>m'. load_offsets_for (io e) (codec e) (key_prefix e) g qs st m = (st, m')
    \<and> (\<forall>p q. hm_get m' (p, q) = (case committed e st q g p of
         Some sg \<Rightarrow> if q \<in> set qs then Some (fst sg) else hm_get m (p, q) | None \<Rightarrow> hm_get m (p, q)))"
  using assms(3)
proof (induction qs arbitrary: m)
  case (Cons q qs)
  obtain offs where offs: "fetch_offsets_from_store (io e) (codec e) (key_prefix e) q g st = (st, offs)" "hm_wf offs"
    "\<forall>p. hm_get offs p = map_option fst (committed e st q g p)"
    using fetch_answered[OF assms(1) _ assms(2), of q] Cons.prems by auto
  let ?m = "fold (\<lambda>(p, s). hm_insert (p, q) s) offs m"
  obtain m' where m': "load_offsets_for (io e) (codec e) (key_prefix e) g qs st ?m = (st, m')"
    "\<forall>p q. hm_get m' (p, q) = (case committed e st q g p of
         Some sg \<Rightarrow> if q \<in> set qs then Some (fst sg) else hm_get ?m (p, q) | None \<Rightarrow> hm_get ?m (p, q))"
    using Cons.IH[of ?m] Cons.prems by auto
  have "hm_get m' (p, q') = (case committed e st q' g p of
      Some sg \<Rightarrow> if q' \<in> set (q # qs) then Some (fst sg) else hm_get m (p, q') | None \<Rightarrow> hm_get m (p, q'))" for p q'
    using m'(2) fold_insert_stream_get[OF offs(2), of q m p q'] offs(3) by (cases "q' = q") (auto split: option.splits)
  then show ?case using offs(1) m'(1) by simp
qed (simp split: option.splits)

lemma join_starts_at_committed:
  assumes "valid e st" and "ok_group g" and "\<forall>q \<in> set (my_partitions pm). serves e st q \<and> answered e st g q"
    and "cg_join (io e) (codec e) decl (key_prefix e) g m mode pm st = (st', Ok cg)"
  shows "hm_get (gd_last_seen (pl_gd (cg_pipe cg))) (p, q) =
      (if q \<in> set (my_partitions pm) then map_option fst (committed e st q g p) else None)"
    and "cg_positions cg = gd_last_seen (pl_gd (cg_pipe cg))"
    and "pl_log (cg_pipe cg) = []" and "cg_generation cg = generation pm" and "st' = st"
proof -
  obtain cps where cps: "load_offsets_for (io e) (codec e) (key_prefix e) g (my_partitions pm) st [] = (st, cps)"
    "\<forall>p q. hm_get cps (p, q) = (case committed e st q g p of
         Some sg \<Rightarrow> if q \<in> set (my_partitions pm) then Some (fst sg) else hm_get [] (p, q) | None \<Rightarrow> hm_get [] (p, q))"
    using load_answered[OF assms(1-3), of "[]"] by blast
  have cg: "cg_pipe cg = bare_pipeline (with_checkpoints cps)" "cg_positions cg = cps" "cg_generation cg = generation pm" "st' = st"
    using assms(4) cps(1) by (auto simp: cg_join_def Let_def)
  show "hm_get (gd_last_seen (pl_gd (cg_pipe cg))) (p, q) =
      (if q \<in> set (my_partitions pm) then map_option fst (committed e st q g p) else None)"
    using cg cps(2) by (simp add: bare_pipeline_def with_checkpoints_def split: option.splits)
  show "cg_positions cg = gd_last_seen (pl_gd (cg_pipe cg))" "pl_log (cg_pipe cg) = []" "cg_generation cg = generation pm" "st' = st"
    using cg by (simp_all add: bare_pipeline_def with_checkpoints_def)
qed

lemma fenced_commit_refused:
  assumes "valid e st" and "serves e st q" and "member e cg" and "hm_get (cg_positions cg) (p, q) = Some s"
    and "committed e st q (cg_group_id cg) p = Some (s', g)" and "cg_generation cg < g"
    and "commit_partition_sync (io e) (codec e) now cg q st = (st', r)"
    and "cc_to_vec (codec e) (commit_of now q cg) = Ok bs"
    and "io_get (io e) (commit_key (cg_key_prefix cg) q (cg_group_id cg)) (Some bs) st = (st1, Ok rs)"
  shows "st' = st \<and> r \<noteq> Ok ()"
proof -
  let ?c = "commit_of now q cg"
  have "hm_get (partition_offsets q (cg_positions cg)) p = Some s" using assms(4) by simp
  then have ne: "oc_offsets ?c \<noteq> []" by (auto simp: commit_of_def simp del: partition_offsets_get)
  have k: "cg_key_prefix cg = key_prefix e" "ok_group (oc_group_id ?c)" "hm_wf (oc_offsets ?c)" "oc_group_id ?c = cg_group_id cg"
    using assms(3) by (simp_all add: member_def commit_of_def)
  have "fenced (committed e st q (oc_group_id ?c)) ?c"
    using assms(4-6) by (auto simp: fenced_def commit_of_def)
  then obtain x where x: "rs = [Some (commit_reply (display e) x)]" "st1 = st" "x \<noteq> Ok ()"
    using commit_law[OF assms(1,2) k(2,3) assms(8), of st1 rs] assms(9) k by auto
  have "(st', r) = (st, ack_replies (cg_group_id cg) (oc_generation ?c) rs)"
    using assms(7-9) ne x(2) by (simp add: commit_partition_sync_def Let_def)
  then show ?thesis using ack_single[of "display e"] display_utf8[OF assms(1)] x by simp
qed

end

section \<open>Running stores provide the service\<close>

type_synonym 'd stores_env = "'d fjall_ops \<times> ('d \<Rightarrow> view) \<times> json_codec \<times> store_env"

type_synonym 'd stores = "'d FjallBackend store_node list"

abbreviation node_part :: "'d FjallBackend store_node \<Rightarrow> u32" where
  "node_part n \<equiv> fb_partition (sn_backend n)"

definition stores_valid :: "'d stores_env \<Rightarrow> 'd stores \<Rightarrow> bool" where
  "stores_valid = (\<lambda>(ops, vw, js, sv) nodes. fjall_ok ops vw \<and> distinct (map node_part nodes)
     \<and> (\<forall>n \<in> set nodes. offsets_ok (vw (fb_db (sn_backend n))))
     \<and> codec_ok (sv_offset_codec sv) \<and> CHR ''?'' \<notin> set (sv_key_prefix sv) \<and> (\<forall>x. utf8 (sv_display sv x)))"

definition stores_committed :: "'d stores_env \<Rightarrow> 'd stores \<Rightarrow> u32 \<Rightarrow> string \<Rightarrow> PublisherId \<Rightarrow> (u64 \<times> u64) option" where
  "stores_committed = (\<lambda>(ops, vw, js, sv) nodes q g p.
     case find (\<lambda>n. node_part n = q) nodes of Some n \<Rightarrow> offset_of (vw (fb_db (sn_backend n))) g p | None \<Rightarrow> None)"

definition group_ok :: "string \<Rightarrow> bool" where
  "group_ok g \<longleftrightarrow> CHR ''?'' \<notin> set g \<and> CHR ''&'' \<notin> set g"

lemma below_strip [simp]: "below (a @ x) (a @ y) = below x y"
  by (auto simp: below_def starts_with_iff)

lemma below_chunk:
  assumes "CHR ''/'' \<notin> set a" and "CHR ''/'' \<notin> set b"
  shows "below a (b @ CHR ''/'' # g) \<longleftrightarrow> a = b"
proof
  assume "below a (b @ CHR ''/'' # g)"
  then obtain t where "b @ CHR ''/'' # g = a @ CHR ''/'' # t" using assms by (auto simp: below_def starts_with_iff)
  then have "split_once (CHR ''/'') (b @ CHR ''/'' # g) = Some (a, t)" using split_once_append[OF assms(1)] by metis
  then show "a = b" using split_once_append[OF assms(2)] by simp
qed (auto simp: below_def starts_with_iff)

lemma show_word_inj: "show_word (a :: u32) = show_word b \<longleftrightarrow> a = b"
  by (metis parse_show_u32 option.inject)

lemma show_word_not_key: "show_word (a :: u32) \<noteq> ''key''"
proof
  assume "show_word a = ''key''"
  moreover have "CHR ''k'' \<notin> set (show_word a)" unfolding show_word_def by (rule show_nat_notin) simp
  ultimately show False by simp
qed

lemma commit_key_below:
  "below (offset_base kp q') (commit_key kp q g) \<longleftrightarrow> q' = q"
  "\<not> below (keyed_offset_base kp) (commit_key kp q g)"
  "\<not> below (replay_offset_base kp) (commit_key kp q g)"
proof -
  have c: "commit_key kp q g = (kp @ ''/_offsets/'') @ show_word q @ CHR ''/'' # g" by (simp add: commit_key_def)
  have b: "offset_base kp q' = (kp @ ''/_offsets/'') @ show_word q'" "keyed_offset_base kp = (kp @ ''/_offsets/'') @ ''key''"
    by (simp_all add: offset_base_def keyed_offset_base_def)
  show "below (offset_base kp q') (commit_key kp q g) \<longleftrightarrow> q' = q"
    unfolding b c below_strip by (simp add: below_chunk show_word_inj)
  show "\<not> below (keyed_offset_base kp) (commit_key kp q g)"
    unfolding b c below_strip using below_chunk[of "''key''" "show_word q" g] show_word_not_key[of q] by simp
  show "\<not> below (replay_offset_base kp) (commit_key kp q g)"
    by (simp add: replay_offset_base_def commit_key_def below_def starts_with_iff)
qed

lemma selector_parts_fetch:
  assumes "CHR ''?'' \<notin> set kp" and "group_ok g"
  shows "selector_parts (commit_key kp q g) = (commit_key kp q g, [])"
    and "selector_parts (fetch_selector kp q g) = (commit_key kp q g, ''fetch=true&group_id='' @ g)"
proof -
  have "CHR ''?'' \<notin> set (show_word q)" unfolding show_word_def by (rule show_nat_notin) simp
  then have no: "CHR ''?'' \<notin> set (commit_key kp q g)" using assms by (simp add: commit_key_def group_ok_def)
  then show "selector_parts (commit_key kp q g) = (commit_key kp q g, [])"
    by (simp add: selector_parts_def split_once_def find_char_None[THEN iffD2])
  have "fetch_selector kp q g = commit_key kp q g @ CHR ''?'' # ''fetch=true&group_id='' @ g"
    by (simp add: fetch_selector_def commit_key_def)
  then show "selector_parts (fetch_selector kp q g) = (commit_key kp q g, ''fetch=true&group_id='' @ g)"
    using split_once_append[OF no, of "''fetch=true&group_id='' @ g"] by (simp add: selector_parts_def)
qed

lemma fetch_params:
  assumes "group_ok g"
  shows "str_contains ''fetch=true'' (''fetch=true&group_id='' @ g)"
    and "extract_param (''fetch=true&group_id='' @ g) ''group_id'' = Some g"
proof -
  show "str_contains ''fetch=true'' (''fetch=true&group_id='' @ g)"
    using str_contains_prefix[of "''fetch=true''" "''&group_id='' @ g"] by simp
  have "CHR ''&'' \<notin> set t \<Longrightarrow> split_on (\<lambda>c. c = CHR ''&'') t = [t]" for t by (induction t) auto
  then have "split_on (\<lambda>c. c = CHR ''&'') g = [g]" using assms by (simp add: group_ok_def)
  then have "split_on (\<lambda>c. c = CHR ''&'') (''fetch=true&group_id='' @ g) = [''fetch=true'', ''group_id='' @ g]"
    by simp
  then show "extract_param (''fetch=true&group_id='' @ g) ''group_id'' = Some g"
    using split_once_append[of "CHR ''=''" "''group_id''" g] split_once_append[of "CHR ''=''" "''fetch''" "''true''"]
    by (simp add: extract_param_def)
qed

lemma node_get_offsets:
  assumes "selector_parts sel = (commit_key (sv_key_prefix sv) q g, params)"
  shows "node_get (fjall_backend ops js) sv sel payload n =
    (if node_part n = q
     then let (b, r) = offset_query (fjall_backend ops js) (sv_offset_codec sv) (sv_display sv) True (sv_now sv) params payload (sn_backend n)
          in (n\<lparr>sn_backend := b\<rparr>, if r = None then [] else [r])
     else (n, []))"
proof -
  have "bo_partition (fjall_backend ops js) = fb_partition" by (simp add: fjall_backend_def)
  then show ?thesis by (simp add: node_get_def assms commit_key_below split_beta Let_def)
qed

lemma nodes_get_others:
  assumes "selector_parts sel = (commit_key (sv_key_prefix sv) q g, params)" and "\<forall>n \<in> set ns. node_part n \<noteq> q"
  shows "nodes_get (fjall_backend ops js) sv sel payload ns = (ns, [])"
  using assms(2) by (induction ns) (simp_all add: node_get_offsets[OF assms(1)])

lemma nodes_get_append:
  "nodes_get bo sv sel payload (xs @ ys) =
     (let (xs', rs) = nodes_get bo sv sel payload xs; (ys', rs') = nodes_get bo sv sel payload ys in (xs' @ ys', rs @ rs'))"
  by (induction xs) (simp_all add: split_beta Let_def)

lemma nodes_get_offsets:
  assumes "selector_parts sel = (commit_key (sv_key_prefix sv) q g, params)"
    and "\<forall>n \<in> set (xs @ ys). node_part n \<noteq> q" and "node_part n = q"
    and "offset_query (fjall_backend ops js) (sv_offset_codec sv) (sv_display sv) True (sv_now sv) params payload (sn_backend n) = (b, r)"
  shows "io_get (store_io (fjall_backend ops js) sv) sel payload (xs @ n # ys) =
    (xs @ n\<lparr>sn_backend := b\<rparr> # ys, Ok (if r = None then [] else [r]))"
  using assms(2-4) nodes_get_others[OF assms(1), of xs] nodes_get_others[OF assms(1), of ys]
  by (simp add: store_io_def nodes_get_append node_get_offsets[OF assms(1)])


lemma find_distinct:
  assumes "distinct (map node_part (xs @ n # ys))"
  shows "find (\<lambda>m. node_part m = node_part n) (xs @ n # ys) = Some n"
    and "\<forall>m \<in> set (xs @ ys). node_part m \<noteq> node_part n"
  using assms by (induction xs) (auto simp: image_iff)

lemma commit_offsets_partition [simp]: "fb_partition (fst (commit_offsets ops c b)) = fb_partition b"
  by (auto simp: commit_offsets_def split_beta Let_def split: sum.splits)

lemma commit_offsets_keeps_ok:
  assumes ok: "fjall_ok ops vw" and "offsets_ok (vw (fb_db b))"
  shows "offsets_ok (vw (fb_db (fst (commit_offsets ops c b))))"
proof (cases "offset_batch ops (fb_db b) c (oc_offsets c)")
  case (Inr bs)
  obtain d r where d: "kv_commit ops (fb_db b) bs = (d, r)" by (cases "kv_commit ops (fb_db b) bs")
  have "vw d = vw (fb_db b) \<or> vw d = fold apply_op (map (offset_op c) (oc_offsets c)) (vw (fb_db b))"
    using d offset_batch_Ok[OF ok Inr] ok by (cases r) (auto simp: fjall_ok_def)
  moreover have "offsets_ok (fold apply_op (map (offset_op c) (oc_offsets c)) (vw (fb_db b)))"
    using assms(2) by (auto simp: offsets_ok_def fold_offset_ops split: option.splits dest!: map_of_SomeD)
  ultimately show ?thesis using Inr d assms(2) by (auto simp: commit_offsets_def)
qed (use assms(2) in \<open>simp add: commit_offsets_def\<close>)

lemma fetch_loop_wf: "fetch_loop es m = Ok m' \<Longrightarrow> hm_wf m \<Longrightarrow> hm_wf m'"
  by (induction es m rule: fetch_loop.induct) (auto split: if_splits option.splits)

lemma stores_commit_law:
  assumes v: "stores_valid (ops, vw, js, sv) nodes" and q: "q \<in> node_part ` set nodes" and g: "group_ok (oc_group_id c)"
    and wf: "hm_wf (oc_offsets c)" and bs: "cc_to_vec (sv_offset_codec sv) c = Ok bs"
    and get: "io_get (store_io (fjall_backend ops js) sv) (commit_key (sv_key_prefix sv) q (oc_group_id c)) (Some bs) nodes = (nodes', Ok rs)"
  shows "stores_valid (ops, vw, js, sv) nodes' \<and> node_part ` set nodes' = node_part ` set nodes
    \<and> (\<forall>q'. q' \<noteq> q \<longrightarrow> stores_committed (ops, vw, js, sv) nodes' q' = stores_committed (ops, vw, js, sv) nodes q')
    \<and> (\<exists>r. rs = [Some (commit_reply (sv_display sv) r)]
       \<and> (r = Ok () \<longrightarrow> stores_committed (ops, vw, js, sv) nodes' q (oc_group_id c) = (\<lambda>p. case hm_get (oc_offsets c) p of
             Some s \<Rightarrow> Some (s, oc_generation c) | None \<Rightarrow> stores_committed (ops, vw, js, sv) nodes q (oc_group_id c) p))
       \<and> (fenced (stores_committed (ops, vw, js, sv) nodes q (oc_group_id c)) c \<longrightarrow> nodes' = nodes \<and> r \<noteq> Ok ()))"
proof -
  obtain n xs ys where n: "nodes = xs @ n # ys" "node_part n = q" using q by (metis imageE in_set_conv_decomp)
  have ok: "fjall_ok ops vw" and ds: "distinct (map node_part (xs @ n # ys))" and kp: "CHR ''?'' \<notin> set (sv_key_prefix sv)"
    and oo: "offsets_ok (vw (fb_db (sn_backend n)))" and cd: "cc_from_slice (sv_offset_codec sv) bs = Ok c"
    using v n(1) bs by (auto simp: stores_valid_def codec_ok_def)
  note fd = find_distinct[OF ds]
  obtain b r where co: "commit_offsets ops c (sn_backend n) = (b, r)" by (cases "commit_offsets ops c (sn_backend n)")
  have oq: "offset_query (fjall_backend ops js) (sv_offset_codec sv) (sv_display sv) True (sv_now sv) [] (Some bs) (sn_backend n)
      = (b, Some (commit_reply (sv_display sv) r))"
    using cd co by (simp add: offset_query_def str_contains_def handle_commit_offsets_def ask_mut_def fjall_backend_def)
  have nodes': "nodes' = xs @ n\<lparr>sn_backend := b\<rparr> # ys" and rs: "rs = [Some (commit_reply (sv_display sv) r)]"
    using nodes_get_offsets[OF selector_parts_fetch(1)[OF kp g] _ n(2) oq] fd(2) n get by auto
  have part: "fb_partition b = q" using commit_offsets_partition[of ops c "sn_backend n"] co n(2) by simp
  have ds': "distinct (map node_part (xs @ n\<lparr>sn_backend := b\<rparr> # ys))" using ds part n(2) by simp
  have fd': "find (\<lambda>m. node_part m = q) nodes' = Some (n\<lparr>sn_backend := b\<rparr>)"
    using find_distinct(1)[OF ds'] nodes' part by simp
  have others: "find (\<lambda>m. node_part m = q') nodes' = find (\<lambda>m. node_part m = q') nodes" if "q' \<noteq> q" for q'
    unfolding nodes' n(1) using part n(2) that by (induction xs) auto
  have ok': "offsets_ok (vw (fb_db b))" using commit_offsets_keeps_ok[OF ok oo, of c] co by simp
  let ?E = "(ops, vw, js, sv)"
  have cm: "stores_committed ?E nodes q = offset_of (vw (fb_db (sn_backend n)))" "stores_committed ?E nodes' q = offset_of (vw (fb_db b))"
    using fd(1) fd' n by (simp_all add: stores_committed_def fun_eq_iff)
  have "nodes' = nodes \<and> r \<noteq> Ok ()" if f: "fenced (offset_of (vw (fb_db (sn_backend n))) (oc_group_id c)) c"
  proof -
    obtain p s where "(p, s) \<in> set (oc_offsets c)" "stale (vw (fb_db (sn_backend n))) c p"
      using f by (fastforce simp: fenced_def stale_def dest: map_of_SomeD)
    then obtain e where "offset_batch ops (fb_db (sn_backend n)) c (oc_offsets c) = Err e"
      using offset_batch_stale[OF ok] by blast
    then show ?thesis using co n(1) nodes' by (auto simp: commit_offsets_def)
  qed
  moreover have "stores_committed ?E nodes' q (oc_group_id c) = (\<lambda>p. case hm_get (oc_offsets c) p of
      Some s \<Rightarrow> Some (s, oc_generation c) | None \<Rightarrow> offset_of (vw (fb_db (sn_backend n))) (oc_group_id c) p)" if "r = Ok ()"
    using commit_offsets_view(1)[OF ok wf, of "sn_backend n" b] co that by (simp add: cm fun_eq_iff)
  moreover have "stores_valid ?E nodes'" "node_part ` set nodes' = node_part ` set nodes"
    using v ok' ds' part n(2) by (auto simp: stores_valid_def nodes' n(1))
  moreover have "stores_committed ?E nodes' q' = stores_committed ?E nodes q'" if "q' \<noteq> q" for q'
    using others[OF that] by (simp add: stores_committed_def fun_eq_iff)
  ultimately show ?thesis unfolding rs cm(1) by blast
qed

lemma stores_fetch_law:
  assumes v: "stores_valid (ops, vw, js, sv) nodes" and q: "q \<in> node_part ` set nodes" and g: "group_ok g"
    and get: "io_get (store_io (fjall_backend ops js) sv) (fetch_selector (sv_key_prefix sv) q g) None nodes = (nodes', Ok rs)"
  shows "nodes' = nodes \<and> (rs = [] \<or> (\<exists>bs c. rs = [Some bs] \<and> cc_from_slice (sv_offset_codec sv) bs = Ok c \<and> hm_wf (oc_offsets c)
    \<and> (\<forall>p. hm_get (oc_offsets c) p = map_option fst (stores_committed (ops, vw, js, sv) nodes q g p))))"
proof -
  obtain n xs ys where n: "nodes = xs @ n # ys" "node_part n = q" using q by (metis imageE in_set_conv_decomp)
  have ok: "fjall_ok ops vw" and ds: "distinct (map node_part (xs @ n # ys))" and kp: "CHR ''?'' \<notin> set (sv_key_prefix sv)"
    and oo: "offsets_ok (vw (fb_db (sn_backend n)))" and cd: "codec_ok (sv_offset_codec sv)"
    using v n(1) by (auto simp: stores_valid_def)
  note fd = find_distinct[OF ds]
  let ?q = "offset_query (fjall_backend ops js) (sv_offset_codec sv) (sv_display sv) True (sv_now sv) (''fetch=true&group_id='' @ g) None (sn_backend n)"
  let ?c = "\<lambda>m. \<lparr>oc_group_id = g, oc_member_id = [], oc_partition = fb_partition (sn_backend n), oc_offsets = m, oc_generation = 0,
      oc_timestamp = sv_now sv\<rparr>"
  have st: "?q = (sn_backend n, snd ?q)"
    using fetch_params[OF g] by (simp add: offset_query_def del: append_Cons)
  have sn: "snd ?q = (case fetch_offsets ops g (sn_backend n) of Err _ \<Rightarrow> None
      | Ok m \<Rightarrow> (case cc_to_vec (sv_offset_codec sv) (?c m) of Ok bs \<Rightarrow> Some bs | Err _ \<Rightarrow> None))"
    using fetch_params[OF g] by (simp add: offset_query_def handle_fetch_offsets_def ask_def fjall_backend_def split: sum.split del: append_Cons)
  have get': "nodes' = nodes" "rs = (if snd ?q = None then [] else [snd ?q])"
    using nodes_get_offsets[OF selector_parts_fetch(2)[OF kp g] _ n(2) st] fd(2) n get by (auto split: if_splits)
  have "\<exists>bs c. snd ?q = Some bs \<and> cc_from_slice (sv_offset_codec sv) bs = Ok c \<and> hm_wf (oc_offsets c)
      \<and> (\<forall>p. hm_get (oc_offsets c) p = map_option fst (stores_committed (ops, vw, js, sv) nodes q g p))" if some: "snd ?q \<noteq> None"
  proof -
    obtain m bs where m: "fetch_offsets ops g (sn_backend n) = Ok m" "cc_to_vec (sv_offset_codec sv) (?c m) = Ok bs"
      using some sn by (auto split: sum.splits)
    have "hm_wf m" using m(1) fetch_loop_wf[of _ "[]" m] by (simp add: fetch_offsets_def)
    moreover have "hm_get m p = map_option fst (stores_committed (ops, vw, js, sv) nodes q g p)" for p
      using fetch_offsets_abs[OF ok oo m(1), of p] fd(1) n by (simp add: stores_committed_def)
    moreover have "cc_from_slice (sv_offset_codec sv) bs = Ok (?c m)" using cd m(2) by (simp add: codec_ok_def)
    ultimately show ?thesis using sn m by (intro exI[of _ bs] exI[of _ "?c m"]) simp
  qed
  then show ?thesis using get' by (cases "snd ?q") auto
qed

interpretation os: offset_service
  "\<lambda>(ops, vw, js, sv). store_io (fjall_backend ops js) sv" "\<lambda>(ops, vw, js, sv). sv_offset_codec sv"
  "\<lambda>(ops, vw, js, sv). sv_key_prefix sv" "\<lambda>(ops, vw, js, sv). sv_display sv" stores_committed
  "\<lambda>e nodes q. q \<in> node_part ` set nodes" stores_valid group_ok
proof (unfold_locales, goal_cases)
  case (1 e st q c bs st' rs)
  then show ?case using stores_commit_law[of _ _ _ _ st q c bs st' rs] by (cases e) auto
next
  case (2 e st q g st' rs)
  then show ?case using stores_fetch_law[of _ _ _ _ st q g st' rs] by (cases e) auto
next
  case (3 e st x)
  then show ?case by (cases e) (simp add: stores_valid_def)
qed


section \<open>Runs of a member\<close>

fun cg_run :: "event_tx \<Rightarrow> (Instant \<times> DecodedSample) list \<Rightarrow> consumer_group \<Rightarrow> consumer_group" where
  "cg_run tx [] cg = cg"
| "cg_run tx ((now, d) # xs) cg = cg_run tx xs (cg_sample tx now d cg)"

abbreviation cg_cursor :: "consumer_group \<Rightarrow> stream \<Rightarrow> u64 option" where
  "cg_cursor cg \<equiv> hm_get (gd_last_seen (pl_gd (cg_pipe cg)))"

abbreviation sample_seq :: "Instant \<times> DecodedSample \<Rightarrow> u64" where
  "sample_seq x \<equiv> em_seq (fst (snd x))"

lemma cg_sample_facts:
  fixes tx now meta key payload cg
  defines "k \<equiv> (em_pub_id meta, extract_partition key)" and "cg' \<equiv> cg_sample tx now (meta, key, payload) cg"
  defines "e \<equiv> expected_seq (cg_cursor cg k)"
  shows "cg_cursor cg' = (if e \<le> em_seq meta then (cg_cursor cg)(k \<mapsto> em_seq meta) else cg_cursor cg)"
    and "map fst (pl_log (cg_pipe cg')) = map fst (pl_log (cg_pipe cg)) @ (if e \<le> em_seq meta then [raw_of meta key payload] else [])"
    and "pl_spawned (cg_pipe cg') = pl_spawned (cg_pipe cg) @ (if e < em_seq meta
        then [\<lparr>mi_source = fst k, mi_partition = snd k, mi_missed = (e, em_seq meta)\<rparr>] else [])"
    and "cg_positions cg' = track_position k (em_seq meta) (cg_positions cg)"
proof -
  let ?s = "on_sample (pl_gd (cg_pipe cg)) now (fst k) (snd k) (em_seq meta)"
  obtain gd r where g: "?s = (gd, r)" by (cases ?s)
  have c: "hm_get (gd_last_seen gd) = (if e \<le> em_seq meta then (cg_cursor cg)(k \<mapsto> em_seq meta) else cg_cursor cg)"
    using gd.sample_cursor[of "pl_gd (cg_pipe cg)" now "fst k" "snd k" "em_seq meta"] g by (simp add: e_def)
  have r: "r = (if em_seq meta = e then Deliver else if e < em_seq meta
      then Gap \<lparr>mi_source = fst k, mi_partition = snd k, mi_missed = (e, em_seq meta)\<rparr> else Duplicate)"
    using gd.sample_verdict[of "pl_gd (cg_pipe cg)" now "fst k" "snd k" "em_seq meta"] g by (simp add: e_def)
  have cg': "cg' = cg\<lparr>cg_pipe := handle_sample_result tx r meta key payload ((cg_pipe cg)\<lparr>pl_gd := gd\<rparr>),
      cg_positions := track_position k (em_seq meta) (cg_positions cg)\<rparr>"
    using g by (simp add: cg'_def cg_sample_def k_def)
  consider "em_seq meta < e" "\<not> e < em_seq meta" "em_seq meta \<noteq> e" "\<not> e \<le> em_seq meta"
    | "em_seq meta = e" | "e < em_seq meta" "em_seq meta \<noteq> e" "e \<le> em_seq meta" by fastforce
  then show "cg_cursor cg' = (if e \<le> em_seq meta then (cg_cursor cg)(k \<mapsto> em_seq meta) else cg_cursor cg)"
    "map fst (pl_log (cg_pipe cg')) = map fst (pl_log (cg_pipe cg)) @ (if e \<le> em_seq meta then [raw_of meta key payload] else [])"
    "pl_spawned (cg_pipe cg') = pl_spawned (cg_pipe cg) @ (if e < em_seq meta
        then [\<lparr>mi_source = fst k, mi_partition = snd k, mi_missed = (e, em_seq meta)\<rparr>] else [])"
    "cg_positions cg' = track_position k (em_seq meta) (cg_positions cg)"
    unfolding cg' by (cases; simp add: handle_sample_result_def c r)+
qed


text \<open>
  The invariant of a member that started with the cursors \<open>c0\<close>: positions are the cursors; what it
  offered lies between the first expected sequence and the cursor, in strictly increasing order; and
  everything between them is offered or in the range of a recovery.
\<close>

definition cg_inv :: "(stream \<Rightarrow> u64 option) \<Rightarrow> consumer_group \<Rightarrow> bool" where
  "cg_inv c0 cg \<longleftrightarrow> hm_wf (cg_positions cg) \<and> (\<forall>k. hm_get (cg_positions cg) k = cg_cursor cg k
     \<and> sorted_wrt (<) (offered_on k (cg_pipe cg)) \<and> expected_seq (c0 k) \<le> expected_seq (cg_cursor cg k)
     \<and> (cg_cursor cg k \<noteq> c0 k \<longrightarrow> cg_cursor cg k \<noteq> Some u64_MAX)
     \<and> (\<forall>s \<in> set (offered_on k (cg_pipe cg)). expected_seq (c0 k) \<le> s \<and> s < expected_seq (cg_cursor cg k))
     \<and> (\<forall>s. expected_seq (c0 k) \<le> s \<and> s < expected_seq (cg_cursor cg k) \<longrightarrow> accounted k s (cg_pipe cg)))"

lemma cg_invD:
  assumes "cg_inv c0 cg"
  shows "hm_wf (cg_positions cg)" and "hm_get (cg_positions cg) k = cg_cursor cg k" and "sorted_wrt (<) (offered_on k (cg_pipe cg))"
    and "s \<in> set (offered_on k (cg_pipe cg)) \<Longrightarrow> expected_seq (c0 k) \<le> s"
    and "expected_seq (c0 k) \<le> s \<Longrightarrow> s < expected_seq (cg_cursor cg k) \<Longrightarrow> accounted k s (cg_pipe cg)"
  using assms unfolding cg_inv_def by blast+

lemma track_position_cursor:
  assumes "hm_get pos = cur" and "cur k \<noteq> Some u64_MAX"
  shows "hm_get (track_position k s pos) = (if expected_seq (cur k) \<le> s then cur(k \<mapsto> s) else cur)"
proof (cases "cur k")
  case None
  then show ?thesis using assms(1) by (auto simp: track_position_def expected_seq_def word_gt_0)
next
  case (Some x)
  then have "expected_seq (cur k) \<le> s \<longleftrightarrow> x < s" using assms(2) by (simp add: expected_seq_def word_succ_le_iff)
  then show ?thesis using assms(1) Some by (auto simp: track_position_def Let_def)
qed

lemma cg_inv_sample:
  assumes "cg_inv c0 cg" and "em_seq meta \<noteq> u64_MAX" and "\<forall>k. c0 k \<noteq> Some u64_MAX"
  shows "cg_inv c0 (cg_sample tx now (meta, key, payload) cg)"
proof -
  let ?k = "(em_pub_id meta, extract_partition key)" and ?cg' = "cg_sample tx now (meta, key, payload) cg"
  let ?e = "expected_seq (cg_cursor cg ?k)" and ?s = "em_seq meta"
  note F = cg_sample_facts[where tx = tx and now = now and meta = meta and key = key and payload = payload and cg = cg]
  have inv: "hm_wf (cg_positions cg)" "hm_get (cg_positions cg) = cg_cursor cg" "\<And>k. sorted_wrt (<) (offered_on k (cg_pipe cg))"
    "\<And>k. expected_seq (c0 k) \<le> expected_seq (cg_cursor cg k)" "\<And>k. cg_cursor cg k \<noteq> Some u64_MAX"
    "\<And>k s. s \<in> set (offered_on k (cg_pipe cg)) \<Longrightarrow> expected_seq (c0 k) \<le> s \<and> s < expected_seq (cg_cursor cg k)"
    "\<And>k s. expected_seq (c0 k) \<le> s \<Longrightarrow> s < expected_seq (cg_cursor cg k) \<Longrightarrow> accounted k s (cg_pipe cg)"
    using assms(1,3) unfolding cg_inv_def by (blast, blast, blast, blast, metis, blast, blast)
  have wf: "hm_wf (cg_positions ?cg')" using inv(1) unfolding F(4) by (simp add: track_position_def Let_def)
  have pos: "hm_get (cg_positions ?cg') = cg_cursor ?cg'"
    unfolding F(1,4) using track_position_cursor[OF inv(2) inv(5)] by simp
  have off: "offered_on k (cg_pipe ?cg') = offered_on k (cg_pipe cg) @ (if k = ?k \<and> ?e \<le> ?s then [?s] else [])" for k
    unfolding offered_on_def F(2) by (auto simp: seqs_of_def stream_of_def)
  have nx: "expected_seq (cg_cursor ?cg' k) = (if k = ?k \<and> ?e \<le> ?s then ?s + 1 else expected_seq (cg_cursor cg k))" for k
    unfolding F(1) by (auto simp: expected_seq_def)
  have mono: "accounted k s (cg_pipe ?cg')" if "accounted k s (cg_pipe cg)" for k s
    using that unfolding accounted_def off F(3) by auto
  have new: "accounted ?k s (cg_pipe ?cg')" if "?e \<le> s" "s \<le> ?s" for s
  proof (cases "s = ?s")
    case True
    then show ?thesis using that off by (simp add: accounted_def)
  next
    case False
    then have "?e < ?s" "s < ?s" using that by auto
    then show ?thesis using that(1) unfolding accounted_def F(3) by auto
  qed
  show ?thesis
    unfolding cg_inv_def
  proof (intro conjI allI ballI impI)
    fix k
    show "hm_wf (cg_positions ?cg')" by (rule wf)
    show "hm_get (cg_positions ?cg') k = cg_cursor ?cg' k" by (simp add: pos)
    show "sorted_wrt (<) (offered_on k (cg_pipe ?cg'))"
      using inv(3)[of k] inv(6)[of _ k] by (fastforce simp: off sorted_wrt_append)
    show "expected_seq (c0 k) \<le> expected_seq (cg_cursor ?cg' k)"
      using inv(4)[of k] assms(2) by (cases "k = ?k \<and> ?e \<le> ?s") (auto simp: nx word_less_succ_iff intro: order_trans less_imp_le)
    show "cg_cursor ?cg' k \<noteq> Some u64_MAX" using inv(5)[of k] assms(2) unfolding F(1) by auto
    show "expected_seq (c0 k) \<le> s" if "s \<in> set (offered_on k (cg_pipe ?cg'))" for s
      using that inv(6)[of s k] inv(4)[of k] by (auto simp: off split: if_splits)
    show "s < expected_seq (cg_cursor ?cg' k)" if "s \<in> set (offered_on k (cg_pipe ?cg'))" for s
      using that inv(6)[of s k] assms(2) by (auto simp: off nx word_less_succ_iff split: if_splits)
    show "accounted k s (cg_pipe ?cg')" if "expected_seq (c0 k) \<le> s \<and> s < expected_seq (cg_cursor ?cg' k)" for s
      using that inv(7)[of k s] new[of s] mono[of k s] assms(2)
      by (cases "k = ?k"; cases "s < ?e") (auto simp: nx word_less_succ_iff split: if_splits)
  qed
qed

lemma cg_inv_run:
  assumes "\<forall>k. c0 k \<noteq> Some u64_MAX"
  shows "cg_inv c0 cg \<Longrightarrow> \<forall>x \<in> set xs. sample_seq x \<noteq> u64_MAX \<Longrightarrow> cg_inv c0 (cg_run tx xs cg)"
proof (induction xs arbitrary: cg)
  case (Cons x xs)
  obtain now meta key payload where x: "x = (now, meta, key, payload)" by (cases x)
  then show ?case using Cons.IH[OF cg_inv_sample[OF Cons.prems(1) _ assms]] Cons.prems(2) by simp
qed simp

lemma load_offsets_wf: "hm_wf m \<Longrightarrow> hm_wf (snd (load_offsets_for io codec kp g qs st m))"
  by (induction qs arbitrary: st m) (simp_all add: split_beta Let_def fold_insert_wf)

lemma cg_inv_join:
  assumes "cg_join io codec decl kp g m mode pm st = (st', Ok cg)"
  shows "cg_inv (cg_cursor cg) cg"
proof -
  have "cg_positions cg = snd (load_offsets_for io codec kp g (my_partitions pm) st [])"
    "cg_pipe cg = bare_pipeline (with_checkpoints (cg_positions cg))"
    using assms by (auto simp: cg_join_def split_beta Let_def)
  then show ?thesis using load_offsets_wf[of "[]"]
    by (auto simp: cg_inv_def bare_pipeline_def with_checkpoints_def offered_on_def seqs_of_def)
qed

text \<open>
  What a group member may commit: after any run of samples from the moment it joins, the position
  of every (publisher, partition) stream is the cursor of its gap detector, and every sequence number
  from the offset it joined at up to that position has been offered to the application or lies in the
  range of a recovery task that was started; offers of a stream are strictly increasing and never go
  below the offset it joined at.
\<close>

theorem group_positions_accounted:
  assumes "cg_join io codec decl kp g m mode pm st = (st', Ok cg0)" and "\<forall>k. cg_cursor cg0 k \<noteq> Some u64_MAX"
    and "\<forall>x \<in> set xs. sample_seq x \<noteq> u64_MAX" and "cg = cg_run tx xs cg0"
  shows "hm_get (cg_positions cg) k = cg_cursor cg k \<and> sorted_wrt (<) (offered_on k (cg_pipe cg))
    \<and> (\<forall>s \<in> set (offered_on k (cg_pipe cg)). expected_seq (cg_cursor cg0 k) \<le> s)
    \<and> (\<forall>s. expected_seq (cg_cursor cg0 k) \<le> s \<and> s < expected_seq (hm_get (cg_positions cg) k) \<longrightarrow> accounted k s (cg_pipe cg))"
  using cg_invD[OF cg_inv_run[OF assms(2) cg_inv_join[OF assms(1)] assms(3), of tx]] unfolding assms(4) by metis


text \<open>
  C32. Handover of a partition through the stores, when one running store holds each partition (no replicas) and every
  offset query of the joining member gets exactly one reply: after a member's synchronous commit has returned
  without error, whoever joins the group with one of its partitions (the same member after a crash or
  another one) starts at the committed positions.  It never offers an event of such a stream at or
  below the committed position, whatever arrives, and it offers the next one.  (Where no store answers, the commit returns without
  error and stores nothing: \<open>unanswered_commit_succeeds\<close>.)
\<close>

theorem committed_group_resumes:
  fixes ops :: "'d fjall_ops"
  defines "io \<equiv> \<lambda>js sv. store_io (fjall_backend ops js) sv"
  assumes "stores_valid (ops, vw, js, sv) nodes"
    and "cg_key_prefix cg = sv_key_prefix sv" and "group_ok (cg_group_id cg)" and "hm_wf (cg_positions cg)"
    and "set (cg_assigned cg) \<union> set (my_partitions pm) \<subseteq> node_part ` set nodes"
    and "commit_sync (io js sv) (sv_offset_codec sv) now cg nodes = (nodes1, Ok ())"
    and "\<forall>q \<in> set (my_partitions pm). \<exists>r. snd (io_get (io js sv) (fetch_selector (sv_key_prefix sv) q (cg_group_id cg)) None nodes1) = Ok [r]"
    and "cg_join (io js sv) (sv_offset_codec sv) decl (sv_key_prefix sv) (cg_group_id cg) m mode pm nodes1 = (nodes2, Ok cg')"
    and "q \<in> set (cg_assigned cg)" and "q \<in> set (my_partitions pm)"
    and "hm_get (cg_positions cg) (p, q) = Some s" and "\<forall>k. cg_cursor cg' k \<noteq> Some u64_MAX"
  shows "(\<forall>tx xs. (\<forall>x \<in> set xs. sample_seq x \<noteq> u64_MAX) \<longrightarrow> (\<forall>s' \<in> set (offered_on (p, q) (cg_pipe (cg_run tx xs cg'))). s < s'))
    \<and> (\<forall>tx t meta key payload. em_pub_id meta = p \<and> extract_partition key = q \<and> em_seq meta = s + 1 \<longrightarrow>
         s + 1 \<in> set (offered_on (p, q) (cg_pipe (cg_sample tx t (meta, key, payload) cg'))))"
proof -
  let ?e = "(ops, vw, js, sv)"
  have mem: "os.member ?e cg" using assms(3-5) by (simp add: os.member_def)
  have run: "each_partition (commit_partition_sync (store_io (fjall_backend ops js) sv) (sv_offset_codec sv) now cg) (cg_assigned cg) nodes = (nodes1, Ok ())"
    using assms(7) by (simp add: commit_sync_def io_def)
  have C: "stores_valid ?e nodes1" "node_part ` set nodes1 = node_part ` set nodes" "os.holds ?e cg nodes1 q"
    using os.commit_all_hold[OF mem assms(2), of "cg_assigned cg" now nodes1] run assms(6,10) by (auto simp: fun_eq_iff)
  have ans: "\<forall>q \<in> set (my_partitions pm). q \<in> node_part ` set nodes1 \<and> os.answered ?e nodes1 (cg_group_id cg) q"
    using assms(6,8) C(2) by (auto simp: os.answered_def io_def)
  have com: "stores_committed ?e nodes1 q (cg_group_id cg) p = Some (s, cg_generation cg)"
    using C(3) assms(12) by (simp add: os.holds_def)
  have cur: "cg_cursor cg' (p, q) = Some s"
    using os.join_starts_at_committed(1)[OF C(1) assms(4) ans, of decl m mode nodes2 cg' p q] assms(9,11) com by (simp add: io_def)
  then have s: "s \<noteq> u64_MAX" "expected_seq (cg_cursor cg' (p, q)) = s + 1" using assms(13) by (auto simp: expected_seq_def)
  note inv = cg_inv_join[OF assms(9)]
  have "s < s'" if "\<forall>x \<in> set xs. sample_seq x \<noteq> u64_MAX" "s' \<in> set (offered_on (p, q) (cg_pipe (cg_run tx xs cg')))" for tx xs s'
    using cg_invD(4)[OF cg_inv_run[OF assms(13) inv that(1)] that(2)] s by (simp add: word_succ_le_iff)
  moreover have "s + 1 \<in> set (offered_on (p, q) (cg_pipe (cg_sample tx t (meta, key, payload) cg')))"
    if "em_pub_id meta = p \<and> extract_partition key = q \<and> em_seq meta = s + 1" for tx t meta key payload
    using cg_sample_facts(2)[of tx t meta key payload cg'] that s(2)
    by (simp add: offered_on_def seqs_of_def stream_of_def)
  ultimately show ?thesis by blast
qed

lemma cg_sample_frame [simp]:
  "cg_generation (cg_sample tx now d cg) = cg_generation cg" "cg_group_id (cg_sample tx now d cg) = cg_group_id cg"
  "cg_key_prefix (cg_sample tx now d cg) = cg_key_prefix cg" "cg_member_id (cg_sample tx now d cg) = cg_member_id cg"
  by (cases d; simp add: cg_sample_def split_beta Let_def)+

lemma cg_run_frame [simp]:
  "cg_generation (cg_run tx xs cg) = cg_generation cg" "cg_group_id (cg_run tx xs cg) = cg_group_id cg"
  "cg_key_prefix (cg_run tx xs cg) = cg_key_prefix cg"
  by (induction tx xs cg rule: cg_run.induct) simp_all

lemma cg_run_wf: "hm_wf (cg_positions cg) \<Longrightarrow> hm_wf (cg_positions (cg_run tx xs cg))"
proof (induction tx xs cg rule: cg_run.induct)
  case (2 tx now d xs cg)
  then show ?case by (cases d) (simp add: cg_sample_def track_position_def split_beta Let_def)
qed simp

text \<open>
  C33. A stale member cannot move the group back: once the synchronous commit of a member has returned without error, a commit of the
  same partition by a member of the same group at an earlier generation, for a publisher the first one committed,
  fails as a whole and leaves the stores unchanged, so the first member's position stays the committed one.
  One running store holds each partition, the stores of the assigned partitions run, and the commit can be encoded.
\<close>

theorem stale_member_is_fenced:
  fixes ops :: "'d fjall_ops"
  defines "io \<equiv> \<lambda>js sv. store_io (fjall_backend ops js) sv"
  assumes "stores_valid (ops, vw, js, sv) nodes"
    and "cg_key_prefix cg = sv_key_prefix sv" and "group_ok (cg_group_id cg)" and "hm_wf (cg_positions cg)"
    and "set (cg_assigned cg) \<subseteq> node_part ` set nodes" and "q \<in> set (cg_assigned cg)"
    and "commit_sync (io js sv) (sv_offset_codec sv) now cg nodes = (nodes1, Ok ())"
    and "hm_get (cg_positions cg) (p, q) = Some s"
    and "cg_key_prefix old = sv_key_prefix sv" and "cg_group_id old = cg_group_id cg" and "hm_wf (cg_positions old)"
    and "cg_generation old < cg_generation cg" and "hm_get (cg_positions old) (p, q) = Some s'"
    and "cc_to_vec (sv_offset_codec sv) (commit_of later q old) = Ok bs"
    and "commit_partition_sync (io js sv) (sv_offset_codec sv) later old q nodes1 = (nodes2, r)"
  shows "nodes2 = nodes1 \<and> r \<noteq> Ok () \<and> stores_committed (ops, vw, js, sv) nodes2 q (cg_group_id cg) p = Some (s, cg_generation cg)"
proof -
  let ?e = "(ops, vw, js, sv)"
  have mem: "os.member ?e cg" "os.member ?e old" using assms(3-5,10-12) by (simp_all add: os.member_def)
  have run: "each_partition (commit_partition_sync (store_io (fjall_backend ops js) sv) (sv_offset_codec sv) now cg) (cg_assigned cg) nodes = (nodes1, Ok ())"
    using assms(8) by (simp add: commit_sync_def io_def)
  have C: "stores_valid ?e nodes1" "node_part ` set nodes1 = node_part ` set nodes" "os.holds ?e cg nodes1 q"
    using os.commit_all_hold[OF mem(1) assms(2), of "cg_assigned cg" now nodes1] run assms(6,7) by (auto simp: fun_eq_iff)
  have com: "stores_committed ?e nodes1 q (cg_group_id cg) p = Some (s, cg_generation cg)"
    using C(3) assms(9) by (simp add: os.holds_def)
  obtain st rs where get: "io_get (io js sv) (commit_key (sv_key_prefix sv) q (cg_group_id cg)) (Some bs) nodes1 = (st, Ok rs)"
    by (cases "nodes_get (fjall_backend ops js) sv (commit_key (sv_key_prefix sv) q (cg_group_id cg)) (Some bs) nodes1") (simp add: io_def store_io_def)
  have "nodes2 = nodes1 \<and> r \<noteq> Ok ()"
    using os.fenced_commit_refused[OF C(1) _ mem(2) assms(14), of s "cg_generation cg" later nodes2 r bs st rs] C(2) com get assms(6,7,10-16)
    by (auto simp: io_def)
  then show ?thesis using com by simp
qed

text \<open>
  A member that has just joined is locked out by the generations of its predecessors: it
  starts at generation 1, so as long as the offset of some publisher of its partition was committed
  at a later generation, every synchronous commit that includes the publisher fails and leaves the
  stores unchanged, for all publishers of the partition, whatever the member has consumed.
\<close>

theorem new_member_is_fenced:
  fixes ops :: "'d fjall_ops"
  defines "io \<equiv> \<lambda>js sv. store_io (fjall_backend ops js) sv"
  assumes "stores_valid (ops, vw, js, sv) nodes" and "group_ok g" and "q \<in> node_part ` set nodes"
    and "cg_new (io js sv) (sv_offset_codec sv) H decl token live [] (sv_key_prefix sv) n g m mode nodes0 = (nodes1, Ok (cg, pm))"
    and "hm_get (cg_positions (cg_run tx xs cg)) (p, q) = Some s"
    and "stores_committed (ops, vw, js, sv) nodes q g p = Some (s', gen)" and "1 < gen"
    and "cc_to_vec (sv_offset_codec sv) (commit_of now q (cg_run tx xs cg)) = Ok bs"
    and "commit_partition_sync (io js sv) (sv_offset_codec sv) now (cg_run tx xs cg) q nodes = (nodes', r)"
  shows "nodes' = nodes \<and> r \<noteq> Ok ()"
proof -
  let ?e = "(ops, vw, js, sv)" and ?cg = "cg_run tx xs cg"
  obtain pm0 st where pm0: "pm_new H (Some m) n (group_liveliness (sv_key_prefix sv) g) token live = Ok pm0"
    and j: "cg_join (io js sv) (sv_offset_codec sv) decl (sv_key_prefix sv) g m mode pm0 nodes0 = (st, Ok cg)"
    using assms(5) by (auto simp: cg_new_def Let_def split: sum.splits prod.splits)
  have "generation pm0 = 1" using pm0 by (auto simp: pm_new_def Let_def)
  then have cg: "cg_generation cg = 1" "cg_group_id cg = g" "cg_key_prefix cg = sv_key_prefix sv"
    using j by (auto simp: cg_join_def split_beta Let_def)
  have mem: "os.member ?e ?cg"
    using cg assms(3) cg_run_wf[OF cg_invD(1)[OF cg_inv_join[OF j]]] by (simp add: os.member_def)
  obtain nodes2 rs where get: "io_get (io js sv) (commit_key (sv_key_prefix sv) q g) (Some bs) nodes = (nodes2, Ok rs)"
    by (cases "nodes_get (fjall_backend ops js) sv (commit_key (sv_key_prefix sv) q g) (Some bs) nodes") (simp add: io_def store_io_def)
  show ?thesis
    using os.fenced_commit_refused[OF assms(2) _ mem assms(6), of s' gen now nodes' r bs nodes2 rs] assms(4,7-10) cg get
    by (simp add: io_def)
qed

text \<open>A synchronous commit that no store answers reports success.\<close>

theorem unanswered_commit_succeeds:
  "commit_sync (store_io bo sv) codec now cg [] = ([], r) \<Longrightarrow> (\<And>c. \<exists>bs. cc_to_vec codec c = Ok bs) \<Longrightarrow> r = Ok ()"
proof -
  assume a: "commit_sync (store_io bo sv) codec now cg [] = ([], r)" "\<And>c. \<exists>bs. cc_to_vec codec c = Ok bs"
  have "commit_partition_sync (store_io bo sv) codec now cg q [] = ([], Ok ())" for q
    using a(2)[of "commit_of now q cg"] by (auto simp: commit_partition_sync_def store_io_def Let_def)
  then have "each_partition (commit_partition_sync (store_io bo sv) codec now cg) qs [] = ([], Ok ())" for qs
    by (induction qs) simp_all
  then show "r = Ok ()" using a(1) by (simp add: commit_sync_def)
qed


section \<open>Concrete stores\<close>

definition put_offsets :: "(PublisherId, u64) hmap \<Rightarrow> bytes" where
  "put_offsets offs = put_nat (length offs) @ concat (map (\<lambda>(p, s). put_nat (unat p) @ put_nat (unat s)) offs)"

fun get_offsets_n :: "nat \<Rightarrow> bytes \<Rightarrow> (PublisherId, u64) hmap \<times> bytes" where
  "get_offsets_n 0 bs = ([], bs)"
| "get_offsets_n (Suc n) bs =
     (case get_nat bs of (p, bs) \<Rightarrow> case get_nat bs of (s, bs) \<Rightarrow> case get_offsets_n n bs of (offs, bs) \<Rightarrow>
        ((word_of_nat p, word_of_nat s) # offs, bs))"

definition get_offsets :: "bytes \<Rightarrow> (PublisherId, u64) hmap \<times> bytes" where
  "get_offsets bs = (case get_nat bs of (n, bs) \<Rightarrow> get_offsets_n n bs)"

lemma get_put_offsets [simp]: "get_offsets (put_offsets offs @ r) = (offs, r)"
proof -
  have "get_offsets_n (length offs) (concat (map (\<lambda>(p, s). put_nat (unat p) @ put_nat (unat s)) offs) @ r) = (offs, r)"
    by (induction offs) auto
  then show ?thesis by (simp add: get_offsets_def put_offsets_def)
qed

definition unary_commit :: "OffsetCommit commit_codec" where
  "unary_commit = \<lparr>
     cc_to_vec = (\<lambda>c. Ok (put_str (oc_group_id c) @ put_str (oc_member_id c) @ put_nat (unat (oc_partition c))
        @ put_offsets (oc_offsets c) @ put_nat (unat (oc_generation c)) @ put_int (oc_timestamp c) @ [])),
     cc_from_slice = (\<lambda>bs. case get_str bs of (g, bs) \<Rightarrow> case get_str bs of (m, bs) \<Rightarrow> case get_nat bs of (q, bs) \<Rightarrow>
        case get_offsets bs of (offs, bs) \<Rightarrow> case get_nat bs of (gen, bs) \<Rightarrow> case get_int bs of (t, bs) \<Rightarrow>
        Ok \<lparr>oc_group_id = g, oc_member_id = m, oc_partition = word_of_nat q, oc_offsets = offs,
            oc_generation = word_of_nat gen, oc_timestamp = t\<rparr>)\<rparr>"

lemma unary_commit_ok: "codec_ok unary_commit"
  unfolding codec_ok_def
proof (intro allI impI)
  fix c :: OffsetCommit and bs
  assume "cc_to_vec unary_commit c = Ok bs"
  then show "cc_from_slice unary_commit bs = Ok c"
    by (cases c) (auto simp: unary_commit_def simp del: append_Nil2)
qed

definition plain_display :: "error \<Rightarrow> string" where
  "plain_display e = (let s = error_display (\<lambda>_. ''publisher'') e in if utf8 s then s else [])"

definition demo_sv :: store_env where
  "demo_sv = \<lparr>sv_key_prefix = ''t'', sv_offset_codec = unary_commit,
     sv_keyed_codec = \<lparr>cc_to_vec = \<lambda>_. Err ChannelClosed, cc_from_slice = \<lambda>_. Err ChannelClosed\<rparr>,
     sv_hlc_to_vec = \<lambda>_. Ok [], sv_display = plain_display, sv_now = 0\<rparr>"

definition demo_node :: "mem_db FjallBackend \<Rightarrow> mem_db FjallBackend store_node" where
  "demo_node b = \<lparr>sn_backend = b, sn_replay_offsets = []\<rparr>"

lemma plain_display_utf8 [simp]: "utf8 (plain_display x)"
  by (simp add: plain_display_def Let_def as_bytes_def[of "[]"])

lemma demo_valid:
  "offsets_ok (mem_view (fb_db b)) \<Longrightarrow> stores_valid (mem_ops, mem_view, unary_json, demo_sv) [demo_node b]"
  by (simp add: stores_valid_def demo_node_def demo_sv_def mem_fjall_ok unary_commit_ok)

lemma demo_empty_ok: "offsets_ok (mem_view (fb_db (backend_empty mem_empty 0)))"
  by (simp add: offsets_ok_def mem_view_def backend_empty_def mem_empty_def)

lemma fetch_loop_mem: "\<exists>m'. fetch_loop (map Inr es) m = Ok m'"
proof (induction es arbitrary: m)
  case (Cons x es)
  then show ?case by (cases x) (auto split: option.splits)
qed simp

lemma demo_fetch_answers:
  assumes "group_ok g"
  shows "\<exists>r. snd (io_get (store_io (fjall_backend mem_ops unary_json) demo_sv) (fetch_selector ''t'' (node_part n) g) None [n]) = Ok [r]"
proof -
  obtain m where m: "fetch_offsets mem_ops g (sn_backend n) = Ok m"
    using fetch_loop_mem by (fastforce simp: fetch_offsets_def mem_ops_def)
  let ?oq = "offset_query (fjall_backend mem_ops unary_json) (sv_offset_codec demo_sv) (sv_display demo_sv) True (sv_now demo_sv)
      (''fetch=true&group_id='' @ g) None (sn_backend n)"
  have "\<exists>bs. ?oq = (sn_backend n, Some bs)"
    using fetch_params[OF assms] m
    by (simp add: offset_query_def handle_fetch_offsets_def ask_def fjall_backend_def demo_sv_def unary_commit_def del: append_Cons)
  then obtain bs where oq: "?oq = (sn_backend n, Some bs)" ..
  have sel: "selector_parts (fetch_selector ''t'' (node_part n) g) = (commit_key (sv_key_prefix demo_sv) (node_part n) g, ''fetch=true&group_id='' @ g)"
    using selector_parts_fetch(2)[OF _ assms, of "''t''" "node_part n"] by (simp add: demo_sv_def)
  show ?thesis using nodes_get_offsets[OF sel _ refl oq, of "[]" "[]"] by simp
qed

definition demo_cg :: consumer_group where
  "demo_cg = \<lparr>cg_key_prefix = ''t'', cg_group_id = ''g'', cg_member_id = ''m'', cg_commit_mode = Manual, cg_generation = 5,
     cg_assigned = [0], cg_positions = [((1, 0), 10)], cg_pipe = bare_pipeline (with_checkpoints []), cg_key_exprs = [],
     cg_cancelled = False\<rparr>"

lemma demo_commits:
  "\<exists>b. commit_sync (store_io (fjall_backend mem_ops unary_json) demo_sv) unary_commit 0 demo_cg [demo_node (backend_empty mem_empty 0)]
     = ([demo_node b], Ok ()) \<and> fb_partition b = 0 \<and> commit_offsets mem_ops (commit_of 0 0 demo_cg) (backend_empty mem_empty 0) = (b, Ok ())"
proof -
  let ?c = "commit_of 0 0 demo_cg" and ?n = "demo_node (backend_empty mem_empty 0)"
  have pz: "fb_partition (backend_empty mem_empty 0) = 0" by (simp add: backend_empty_def)
  have "snd (commit_offsets mem_ops ?c (backend_empty mem_empty 0)) = Ok ()"
    by (simp add: commit_offsets_def mem_ops_def backend_empty_def mem_empty_def demo_cg_def commit_of_def partition_offsets_def store_err_def)
  then obtain b where b: "commit_offsets mem_ops ?c (backend_empty mem_empty 0) = (b, Ok ())" by (metis prod.collapse)
  then have p: "fb_partition b = 0" using commit_offsets_partition[of mem_ops ?c "backend_empty mem_empty 0"] pz by simp
  obtain bs where bs: "cc_to_vec unary_commit ?c = Ok bs" by (simp add: unary_commit_def)
  have oq: "offset_query (fjall_backend mem_ops unary_json) (sv_offset_codec demo_sv) (sv_display demo_sv) True (sv_now demo_sv)
      [] (Some bs) (sn_backend ?n) = (b, Some (as_bytes ''ok''))"
    using unary_commit_ok bs b by (simp add: offset_query_def str_contains_def handle_commit_offsets_def ask_mut_def fjall_backend_def
        demo_sv_def codec_ok_def demo_node_def commit_reply_def)
  have sel: "selector_parts (commit_key ''t'' 0 ''g'') = (commit_key (sv_key_prefix demo_sv) 0 ''g'', [])"
    using selector_parts_fetch(1)[of "''t''" "''g''" 0] by (simp add: demo_sv_def group_ok_def)
  have "io_get (store_io (fjall_backend mem_ops unary_json) demo_sv) (commit_key ''t'' 0 ''g'') (Some bs) [?n] = ([demo_node b], Ok [Some (as_bytes ''ok'')])"
    using nodes_get_offsets[OF sel _ _ oq, of "[]" "[]"] pz by (simp add: demo_node_def)
  moreover have "ack_replies ''g'' 5 [Some (as_bytes ''ok'')] = Ok ()"
    using ack_single[of plain_display "''g''" 5 "Ok ()"] by (simp add: commit_reply_def)
  moreover have "oc_offsets ?c \<noteq> []" by (simp add: commit_of_def demo_cg_def partition_offsets_def)
  ultimately show ?thesis using bs p b
    by (intro exI[of _ b]) (simp add: commit_sync_def demo_cg_def commit_partition_sync_def Let_def commit_of_def)
qed


definition demo_committed :: "mem_db FjallBackend" where
  "demo_committed = fst (commit_offsets mem_ops (commit_of 0 0 demo_cg) (backend_empty mem_empty 0))"

abbreviation demo_io :: "mem_db FjallBackend store_node list session_io" where
  "demo_io \<equiv> store_io (fjall_backend mem_ops unary_json) demo_sv"

lemma demo_committed_facts:
  "commit_sync demo_io unary_commit 0 demo_cg [demo_node (backend_empty mem_empty 0)] = ([demo_node demo_committed], Ok ())"
  "fb_partition demo_committed = 0"
  "stores_valid (mem_ops, mem_view, unary_json, demo_sv) [demo_node demo_committed]"
  "stores_committed (mem_ops, mem_view, unary_json, demo_sv) [demo_node demo_committed] 0 ''g'' p = (if p = 1 then Some (10, 5) else None)"
proof -
  obtain b where b: "commit_sync demo_io unary_commit 0 demo_cg [demo_node (backend_empty mem_empty 0)] = ([demo_node b], Ok ())"
    "fb_partition b = 0" "commit_offsets mem_ops (commit_of 0 0 demo_cg) (backend_empty mem_empty 0) = (b, Ok ())"
    using demo_commits by blast
  then have eq: "demo_committed = b" by (simp add: demo_committed_def)
  show "commit_sync demo_io unary_commit 0 demo_cg [demo_node (backend_empty mem_empty 0)] = ([demo_node demo_committed], Ok ())"
    "fb_partition demo_committed = 0" using b eq by simp_all
  have c: "oc_group_id (commit_of 0 0 demo_cg) = ''g''" "oc_offsets (commit_of 0 0 demo_cg) = [(1, 10)]" "oc_generation (commit_of 0 0 demo_cg) = 5"
    by (simp_all add: commit_of_def demo_cg_def partition_offsets_def)
  have wf: "hm_wf (oc_offsets (commit_of 0 0 demo_cg))" by (simp add: c)
  note V = commit_offsets_view[OF mem_fjall_ok wf b(3)]
  show "stores_valid (mem_ops, mem_view, unary_json, demo_sv) [demo_node demo_committed]"
    using V(3)[OF demo_empty_ok] eq by (simp add: demo_valid)
  have "offset_of (mem_view (fb_db (backend_empty mem_empty 0))) ''g'' p = None"
    by (simp add: offset_of_def mem_view_def backend_empty_def mem_empty_def)
  then show "stores_committed (mem_ops, mem_view, unary_json, demo_sv) [demo_node demo_committed] 0 ''g'' p = (if p = 1 then Some (10, 5) else None)"
    using V(1)[of p] b(2) eq by (simp add: stores_committed_def demo_node_def c)
qed

definition demo_joiner :: PartitionManager where
  "demo_joiner = \<lparr>pm_worker_id = ''n'', pm_num_partitions = 1, my_partitions = [0], known_workers = [''n''], has_rebalance_cb = False, generation = 1\<rparr>"

lemma minus_one_neq_ten: "(10 :: u64) \<noteq> u64_MAX"
  by simp

lemma join_ok: "\<exists>st' cg. cg_join io codec (\<lambda>_. Ok ()) kp g m mode pm st = (st', Ok cg)"
proof -
  have "declare_all (\<lambda>_. Ok ()) kes = Ok ()" for kes by (induction kes) simp_all
  then show ?thesis by (simp add: cg_join_def split_beta Let_def)
qed

theorem committed_group_resumes_witness:
  "\<exists>nodes1 nodes2 cg'. commit_sync demo_io unary_commit 0 demo_cg [demo_node (backend_empty mem_empty 0)] = (nodes1, Ok ())
    \<and> cg_join demo_io unary_commit (\<lambda>_. Ok ()) ''t'' ''g'' ''n'' Manual demo_joiner nodes1 = (nodes2, Ok cg')
    \<and> (\<forall>tx xs. (\<forall>x \<in> set xs. sample_seq x \<noteq> u64_MAX) \<longrightarrow> (\<forall>s' \<in> set (offered_on (1, 0) (cg_pipe (cg_run tx xs cg'))). 10 < s'))"
proof -
  let ?e = "(mem_ops, mem_view, unary_json, demo_sv)" and ?n1 = "[demo_node demo_committed]"
  note D = demo_committed_facts
  obtain n2 cg' where j: "cg_join demo_io unary_commit (\<lambda>_. Ok ()) ''t'' ''g'' ''n'' Manual demo_joiner ?n1 = (n2, Ok cg')"
    using join_ok[of demo_io unary_commit "''t''" "''g''" "''n''" Manual demo_joiner ?n1] by auto
  have g: "group_ok ''g''" by (simp add: group_ok_def)
  have parts: "node_part (demo_node demo_committed) = 0" "my_partitions demo_joiner = [0]" using D(2) by (simp_all add: demo_node_def demo_joiner_def)
  have ans: "\<exists>r. snd (io_get demo_io (fetch_selector ''t'' 0 ''g'') None ?n1) = Ok [r]"
    using demo_fetch_answers[OF g, of "demo_node demo_committed"] parts by simp
  have sv: "sv_key_prefix demo_sv = ''t''" "sv_offset_codec demo_sv = unary_commit" by (simp_all add: demo_sv_def)
  have "\<forall>q \<in> set (my_partitions demo_joiner). q \<in> node_part ` set ?n1 \<and> os.answered ?e ?n1 ''g'' q"
    using ans parts sv by (simp add: os.answered_def)
  note J = os.join_starts_at_committed(1)[OF D(3) g this, of "\<lambda>_. Ok ()" "''n''" Manual n2 cg']
  have "cg_cursor cg' (p, q) = (if q = 0 \<and> p = 1 then Some 10 else None)" for p q
    using J[of p q] j parts sv D(4)[of p] by (cases "q = 0"; cases "p = 1") simp_all
  then have m: "\<forall>k. cg_cursor cg' k \<noteq> Some u64_MAX" by (metis (mono_tags) surj_pair option.inject option.discI minus_one_neq_ten)
  have "stores_valid ?e [demo_node (backend_empty mem_empty 0)]" by (rule demo_valid[OF demo_empty_ok])
  from committed_group_resumes[OF this, of demo_cg demo_joiner 0 ?n1 "\<lambda>_. Ok ()" "''n''" Manual n2 cg' 0 1 10]
  show ?thesis using D(1) j ans m g parts sv
    by (auto simp: demo_cg_def demo_node_def backend_empty_def)
qed


theorem stale_member_is_fenced_witness:
  "\<exists>nodes2 r. commit_sync demo_io unary_commit 0 demo_cg [demo_node (backend_empty mem_empty 0)] = ([demo_node demo_committed], Ok ())
     \<and> commit_partition_sync demo_io unary_commit 1 (demo_cg\<lparr>cg_generation := 4, cg_positions := [((1, 0), 8)]\<rparr>) 0 [demo_node demo_committed] = (nodes2, r)
     \<and> nodes2 = [demo_node demo_committed] \<and> r \<noteq> Ok ()
     \<and> stores_committed (mem_ops, mem_view, unary_json, demo_sv) nodes2 0 ''g'' 1 = Some (10, 5)"
proof -
  let ?old = "demo_cg\<lparr>cg_generation := 4, cg_positions := [((1, 0), 8)]\<rparr>" and ?n = "[demo_node demo_committed]"
  note D = demo_committed_facts
  obtain nodes2 r where c: "commit_partition_sync demo_io unary_commit 1 ?old 0 ?n = (nodes2, r)"
    by (cases "commit_partition_sync demo_io unary_commit 1 ?old 0 ?n")
  obtain bs where bs: "cc_to_vec unary_commit (commit_of 1 0 ?old) = Ok bs" by (simp add: unary_commit_def)
  have sv: "sv_key_prefix demo_sv = ''t''" "sv_offset_codec demo_sv = unary_commit" by (simp_all add: demo_sv_def)
  have cg: "cg_key_prefix demo_cg = ''t''" "cg_group_id demo_cg = ''g''" "cg_generation demo_cg = 5" "cg_assigned demo_cg = [0]"
    "cg_positions demo_cg = [((1, 0), 10)]"
    by (simp_all add: demo_cg_def)
  have "stores_valid (mem_ops, mem_view, unary_json, demo_sv) [demo_node (backend_empty mem_empty 0)]" by (rule demo_valid[OF demo_empty_ok])
  then have "nodes2 = ?n \<and> r \<noteq> Ok () \<and> stores_committed (mem_ops, mem_view, unary_json, demo_sv) nodes2 0 ''g'' 1 = Some (10, 5)"
    using stale_member_is_fenced[of mem_ops mem_view unary_json demo_sv "[demo_node (backend_empty mem_empty 0)]" demo_cg 0 0 ?n 1 10 ?old 8 1 bs nodes2 r]
      D(1) c bs sv cg by (auto simp: group_ok_def demo_node_def backend_empty_def)
  then show ?thesis using D(1) c by blast
qed

theorem new_member_is_fenced_witness:
  "\<exists>nodes1 cg pm nodes' r.
     cg_new demo_io unary_commit (\<lambda>_. 0) (\<lambda>_. Ok ()) (Ok ()) (Ok []) [] ''t'' 1 ''g'' ''n'' Manual [demo_node demo_committed] = (nodes1, Ok (cg, pm))
     \<and> commit_partition_sync demo_io unary_commit 0 (cg_run (\<lambda>_ _. Sent) [(0, wire_meta (event_reply (stored_event (demo_md 1 11) [])), ''t/p/'' @ show_word (0 :: u32) @ ''/x'', [])] cg) 0 [demo_node demo_committed] = (nodes', r)
     \<and> nodes' = [demo_node demo_committed] \<and> r \<noteq> Ok ()"
proof -
  let ?key = "''t/p/'' @ show_word (0 :: u32) @ ''/x''" and ?meta = "wire_meta (event_reply (stored_event (demo_md 1 11) []))"
  let ?xs = "[(0, ?meta, ?key, [])] :: (Instant \<times> DecodedSample) list" and ?n = "[demo_node demo_committed]"
  note D = demo_committed_facts
  let ?pm0 = "pm_new (\<lambda>_. 0) (Some ''n'') 1 (group_liveliness ''t'' ''g'') (Ok ()) (Ok [])"
  obtain pm0 where pm0: "?pm0 = Ok pm0" by (simp add: pm_new_def Let_def)
  obtain n1 cg where j: "cg_join demo_io unary_commit (\<lambda>_. Ok ()) ''t'' ''g'' ''n'' Manual pm0 ?n = (n1, Ok cg)"
    using join_ok[of demo_io unary_commit "''t''" "''g''" "''n''" Manual pm0 ?n] by auto
  have new: "cg_new demo_io unary_commit (\<lambda>_. 0) (\<lambda>_. Ok ()) (Ok ()) (Ok []) [] ''t'' 1 ''g'' ''n'' Manual ?n = (n1, Ok (cg, on_rebalance pm0))"
    using pm0 j by (simp add: cg_new_def Let_def)
  have "extract_partition ?key = 0"
    using extract_partition_layout[of "''t''" 0 "''x''"] by (simp add: prefix_free_def str_contains_def)
  moreover have "em_pub_id ?meta = 1" by (simp add: event_reply_decodes stored_event_def demo_md_def)
  ultimately obtain s where s: "hm_get (cg_positions (cg_run (\<lambda>_ _. Sent) ?xs cg)) (1, 0) = Some s"
    using cg_sample_facts(4)[of "\<lambda>_ _. Sent" 0 ?meta ?key "[]" cg] by (simp add: track_position_def Let_def)
  obtain nodes' r where c: "commit_partition_sync demo_io unary_commit 0 (cg_run (\<lambda>_ _. Sent) ?xs cg) 0 ?n = (nodes', r)"
    by (cases "commit_partition_sync demo_io unary_commit 0 (cg_run (\<lambda>_ _. Sent) ?xs cg) 0 ?n")
  obtain bs where bs: "cc_to_vec unary_commit (commit_of 0 0 (cg_run (\<lambda>_ _. Sent) ?xs cg)) = Ok bs" by (simp add: unary_commit_def)
  have sv: "sv_key_prefix demo_sv = ''t''" "sv_offset_codec demo_sv = unary_commit" by (simp_all add: demo_sv_def)
  have "nodes' = ?n \<and> r \<noteq> Ok ()"
    using new_member_is_fenced[OF D(3), of "''g''" 0 "\<lambda>_. 0" "\<lambda>_. Ok ()" "Ok ()" "Ok []" 1 "''n''" Manual ?n n1 cg "on_rebalance pm0"
        "\<lambda>_ _. Sent" ?xs 1 s 10 5 0 bs nodes' r] new s c bs D(2,4) sv
    by (simp add: group_ok_def demo_node_def)
  then show ?thesis using new c by blast
qed

theorem group_positions_accounted_witness:
  "\<exists>st' cg0. cg_join demo_io unary_commit (\<lambda>_. Ok ()) ''t'' ''g'' ''n'' Manual demo_joiner [] = (st', Ok cg0)
    \<and> (let cg = cg_run (\<lambda>_ _. Sent) [(0, wire_meta (event_reply (stored_event (demo_md 1 3) [])), ''x'', [])] cg0 in
       hm_get (cg_positions cg) (1, 0) = Some 3 \<and> accounted (1, 0) 2 (cg_pipe cg))"
proof -
  let ?meta = "wire_meta (event_reply (stored_event (demo_md 1 3) []))"
  let ?xs = "[(0, ?meta, ''x'', [])] :: (Instant \<times> DecodedSample) list"
  obtain st' cg0 where j: "cg_join demo_io unary_commit (\<lambda>_. Ok ()) ''t'' ''g'' ''n'' Manual demo_joiner [] = (st', Ok cg0)"
    using join_ok[of demo_io unary_commit "''t''" "''g''" "''n''" Manual demo_joiner "[]"] by auto
  have "fetch_offsets_from_store demo_io unary_commit ''t'' q ''g'' [] = ([], [])" for q
    by (simp add: fetch_offsets_from_store_def store_io_def)
  then have none: "cg_cursor cg0 k = None" for k
    using j by (auto simp: cg_join_def demo_joiner_def bare_pipeline_def with_checkpoints_def split_beta Let_def)
  have ex: "extract_partition ''x'' = 0" by (simp add: extract_partition_def)
  have m: "em_pub_id ?meta = 1" "em_seq ?meta = 3" by (simp_all add: event_reply_decodes stored_event_def demo_md_def)
  let ?cg = "cg_run (\<lambda>_ _. Sent) ?xs cg0"
  have cur: "cg_cursor ?cg (1, 0) = Some 3"
    using cg_sample_facts(1)[of "\<lambda>_ _. Sent" 0 ?meta "''x''" "[]" cg0] none by (simp add: m ex expected_seq_def)
  note G = group_positions_accounted[OF j, of ?xs ?cg "\<lambda>_ _. Sent" "(1, 0)"]
  have "hm_get (cg_positions ?cg) (1, 0) = Some 3" "accounted (1, 0) 2 (cg_pipe ?cg)"
    using G cur none by (auto simp: m expected_seq_def)
  then show ?thesis using j by (simp add: Let_def)
qed

end
