(* ===== verification/Store_Reader.thy ===== *)
theory Store_Reader
  imports Session_Io
begin

text \<open>
  Reading events back from running stores, as the replayer and the keyed consumer do
  (\<^verbatim>\<open>mitiflow/src/subscriber/replay.rs\<close>,
  \<^verbatim>\<open>mitiflow/src/subscriber/keyed_consumer.rs\<close>): what the stores answer to a selector on
  the store keys, and how a reply becomes a stored event again.
\<close>

section \<open>Replies\<close>

definition reply_event :: "query_reply \<Rightarrow> StoredEvent option" where
  "reply_event r =
     (case r of
        ReplyErr \<Rightarrow> None
      | ReplySample key payload att \<Rightarrow>
          (case Option.bind att (\<lambda>a. case decode_metadata a of Ok m \<Rightarrow> Some m | Err _ \<Rightarrow> None) of
             None \<Rightarrow> None
           | Some meta \<Rightarrow>
               let hlc = (case (em_hlc_physical_ns meta, em_hlc_logical meta) of
                            (Some phys, Some log) \<Rightarrow> Hlc phys log
                          | _ \<Rightarrow> Hlc (word_of_int (nanos_or 0 (em_timestamp meta))) 0) in
               Some \<lparr>se_key = key, se_payload = payload,
                     se_metadata = \<lparr>md_seq = em_seq meta, md_publisher_id = em_pub_id meta, md_event_id = em_event_id meta,
                       md_timestamp = em_timestamp meta, md_key_expr = key, md_key = extract_key key, md_hlc_timestamp = Some hlc\<rparr>\<rparr>))"

section \<open>Answers of the stores\<close>

text \<open>
  Each store has a queryable on its own partition key; \<open>prefix/*\<close> reaches all of them.
\<close>

definition serves_key :: "string \<Rightarrow> u32 \<Rightarrow> string \<Rightarrow> bool" where
  "serves_key store_prefix part key \<longleftrightarrow> key = store_prefix @ ''/*'' \<or> key = store_prefix @ ''/'' @ show_word part"

definition stores_answer ::
  "'b StorageBackend \<Rightarrow> (string \<Rightarrow> DateTime option) \<Rightarrow> (string \<Rightarrow> u128 option) \<Rightarrow> string \<Rightarrow> 'b list \<Rightarrow> string \<Rightarrow> query_reply list"
where
  "stores_answer bo parse_time parse_uuid store_prefix bs selector =
     (let (key, params) = selector_parts selector in
      concat (map (\<lambda>b. if serves_key store_prefix (bo_partition bo b) key
                       then map wire_reply (store_query bo parse_time parse_uuid True params b) else []) bs))"

section \<open>Round trip of a stored event\<close>

text \<open>
  An event as the store writes it from a received sample: its key is its key expression, the
  application key is taken from it, and the timestamp has the precision of the wire.
\<close>

definition wire_event :: "StoredEvent \<Rightarrow> bool" where
  "wire_event e \<longleftrightarrow> (let md = se_metadata e in se_key e = md_key_expr md \<and> md_key md = extract_key (md_key_expr md)
     \<and> nanos_or 0 (md_timestamp md) = md_timestamp md \<and> md_hlc_timestamp md \<noteq> None)"

lemma store_decode_wire_event:
  assumes "store_decode_sample (Some ns) s = Some ds"
  shows "wire_event (stored_event (sr_metadata (ds_request ds)) payload)"
  using assms
  by (auto simp: store_decode_sample_def wire_event_def stored_event_def Let_def decode_metadata_def
      split: if_splits option.splits sum.splits)

lemma reply_event_roundtrip:
  assumes "wire_event e"
  shows "reply_event (wire_reply (event_reply e)) = Some e"
proof -
  obtain md where md: "se_metadata e = md" by blast
  obtain h where h: "md_hlc_timestamp md = Some h" using assms md by (auto simp: wire_event_def Let_def)
  show ?thesis
    using assms md h by (cases e; cases md; cases h) (simp add: reply_event_def wire_reply_def event_reply_def wire_event_def Let_def)
qed

end
