(* ===== verification/Replay.thy ===== *)
theory Replay
  imports Store_Reader
begin

text \<open>
  The event replayer (\<^verbatim>\<open>mitiflow/src/subscriber/replay.rs\<close>): scopes, start positions and
  ends, the builder, polling a local backend or remote stores with an HLC cursor, the receive loop,
  seeking and replay offsets, and the transition to live events.  The answers of the session and the
  state of a local backend are arguments of a poll.  The live channel is the list of events that the
  live task has put there; \<open>live_sample\<close> is one turn of that task.
\<close>

section \<open>State\<close>

datatype ReplayScope = ScopeAll | ScopePartition u32 | ScopeKey string | ScopeKeyPrefix string | ScopePublisher PublisherId

datatype ReplayPosition = Earliest | AfterHlc HlcTimestamp | AfterTime DateTime | CommittedOffset string

datatype ReplayEnd = Bounded nat | AtHlc HlcTimestamp | AtTime DateTime | Tailing Duration | ThenLive

definition usize_MAX :: nat where
  "usize_MAX = 2 ^ 64 - 1"

definition replay_end_default :: ReplayEnd where
  "replay_end_default = Bounded usize_MAX"

record replayer =
  rp_key_prefix :: string
  rp_scope :: ReplayScope
  rp_end :: ReplayEnd
  rp_cursor :: HlcTimestamp
  rp_batch_size :: nat
  rp_selector_base :: string
  rp_buffer :: "StoredEvent list"
  rp_delivered :: nat
  rp_exhausted :: bool
  rp_cancelled :: bool
  rp_local :: bool
  rp_live_rx :: "RawEvent list option"
  rp_overlap :: "RawEvent list"
  rp_seen :: "(PublisherId \<times> u64) set"
  rp_live_active :: bool

record replay_builder =
  rb_key_prefix :: string
  rb_store_prefix :: string
  rb_scope :: ReplayScope
  rb_position :: ReplayPosition
  rb_end :: ReplayEnd
  rb_batch_size :: nat
  rb_local :: bool

section \<open>Building\<close>

definition replay_builder_new :: "string \<Rightarrow> string \<Rightarrow> replay_builder" where
  "replay_builder_new key_prefix store_prefix = \<lparr>rb_key_prefix = key_prefix, rb_store_prefix = store_prefix, rb_scope = ScopeAll,
     rb_position = Earliest, rb_end = replay_end_default, rb_batch_size = 500, rb_local = False\<rparr>"

definition rb_set_batch_size :: "nat \<Rightarrow> replay_builder \<Rightarrow> replay_builder" where
  "rb_set_batch_size n rb = rb\<lparr>rb_batch_size := max n 1\<rparr>"

definition replay_selector_base :: "string \<Rightarrow> ReplayScope \<Rightarrow> string" where
  "replay_selector_base store_prefix scope =
     (case scope of ScopePartition p \<Rightarrow> store_prefix @ ''/'' @ show_word p | _ \<Rightarrow> store_prefix @ ''/*'')"

definition replay_offset_key :: "string \<Rightarrow> string \<Rightarrow> string" where
  "replay_offset_key key_prefix group_id = key_prefix @ ''/_replay_offsets/'' @ group_id"

definition merge_hlc :: "(bytes \<Rightarrow> HlcTimestamp result) \<Rightarrow> bytes option \<Rightarrow> HlcTimestamp option \<Rightarrow> HlcTimestamp option" where
  "merge_hlc from_slice reply r =
     (case reply of Some bs \<Rightarrow> (case from_slice bs of Ok hlc \<Rightarrow> Some hlc | Err _ \<Rightarrow> r) | None \<Rightarrow> r)"

definition fetch_replay_offset ::
  "'s session_io \<Rightarrow> (bytes \<Rightarrow> HlcTimestamp result) \<Rightarrow> string \<Rightarrow> string \<Rightarrow> 's \<Rightarrow> 's \<times> HlcTimestamp option result"
where
  "fetch_replay_offset io from_slice key_prefix group_id st =
     (case io_get io (replay_offset_key key_prefix group_id) None st of
        (st', Err e) \<Rightarrow> (st', Err e)
      | (st', Ok replies) \<Rightarrow> (st', Ok (fold (merge_hlc from_slice) replies None)))"

definition start_cursor ::
  "'s session_io \<Rightarrow> (bytes \<Rightarrow> HlcTimestamp result) \<Rightarrow> string \<Rightarrow> ReplayPosition \<Rightarrow> 's \<Rightarrow> 's \<times> HlcTimestamp result"
where
  "start_cursor io from_slice key_prefix position st =
     (case position of
        Earliest \<Rightarrow> (st, Ok hlc_default)
      | AfterHlc hlc \<Rightarrow> (st, Ok hlc)
      | AfterTime t \<Rightarrow> (st, Ok (Hlc (word_of_int (nanos_or 0 t)) 0))
      | CommittedOffset group_id \<Rightarrow>
          (let (st', r) = fetch_replay_offset io from_slice key_prefix group_id st in
           (st', rbind r (\<lambda>o'. case o' of Some hlc \<Rightarrow> Ok hlc | None \<Rightarrow> Err (OffsetNotFound group_id)))))"

definition replay_build ::
  "'s session_io \<Rightarrow> (bytes \<Rightarrow> HlcTimestamp result) \<Rightarrow> replay_builder \<Rightarrow> 's \<Rightarrow> 's \<times> replayer result"
where
  "replay_build io from_slice rb st =
     (let (st', c) = start_cursor io from_slice (rb_key_prefix rb) (rb_position rb) st in
      (st', rbind c (\<lambda>cursor. Ok \<lparr>rp_key_prefix = rb_key_prefix rb, rp_scope = rb_scope rb, rp_end = rb_end rb, rp_cursor = cursor,
         rp_batch_size = rb_batch_size rb, rp_selector_base = replay_selector_base (rb_store_prefix rb) (rb_scope rb), rp_buffer = [],
         rp_delivered = 0, rp_exhausted = False, rp_cancelled = False, rp_local = rb_local rb, rp_live_rx = None, rp_overlap = [],
         rp_seen = {}, rp_live_active = False\<rparr>)))"

section \<open>Polling\<close>

definition scope_filters :: "ReplayScope \<Rightarrow> HlcTimestamp \<Rightarrow> nat \<Rightarrow> HlcTimestamp option \<Rightarrow> ReplayFilters" where
  "scope_filters scope cursor limit before =
     (let filters = rf_default\<lparr>rf_after_hlc := Some cursor, rf_before_hlc := before, rf_limit := Some limit\<rparr> in
      case scope of
        ScopeKey k \<Rightarrow> filters\<lparr>rf_key := Some k\<rparr>
      | ScopeKeyPrefix p \<Rightarrow> filters\<lparr>rf_key_prefix := Some p\<rparr>
      | ScopePublisher i \<Rightarrow> filters\<lparr>rf_publisher_id := Some i\<rparr>
      | _ \<Rightarrow> filters)"

definition poll_local ::
  "'b StorageBackend \<Rightarrow> 'b \<Rightarrow> ReplayScope \<Rightarrow> HlcTimestamp \<Rightarrow> nat \<Rightarrow> HlcTimestamp option \<Rightarrow> StoredEvent list result"
where
  "poll_local bo b scope cursor limit before = bo_query_replay bo (scope_filters scope cursor limit before) b"

definition hlc_text :: "HlcTimestamp \<Rightarrow> string" where
  "hlc_text h = show_word (physical_ns h) @ '':'' @ show_word (logical h)"

definition poll_params :: "(PublisherId \<Rightarrow> string) \<Rightarrow> ReplayScope \<Rightarrow> HlcTimestamp \<Rightarrow> nat \<Rightarrow> HlcTimestamp option \<Rightarrow> string" where
  "poll_params show_id scope cursor limit before =
     ''after_hlc='' @ hlc_text cursor @ ''&limit='' @ show_nat limit
     @ (case scope of
          ScopeKey k \<Rightarrow> ''&key='' @ k
        | ScopeKeyPrefix p \<Rightarrow> ''&key_prefix='' @ p
        | ScopePublisher i \<Rightarrow> ''&publisher_id='' @ show_id i
        | _ \<Rightarrow> [])
     @ (case before of Some b \<Rightarrow> ''&before_hlc='' @ hlc_text b | None \<Rightarrow> [])"

definition poll_remote ::
  "(PublisherId \<Rightarrow> string) \<Rightarrow> (string \<Rightarrow> query_reply list result) \<Rightarrow> string \<Rightarrow> ReplayScope \<Rightarrow> HlcTimestamp \<Rightarrow> nat
    \<Rightarrow> HlcTimestamp option \<Rightarrow> StoredEvent list result"
where
  "poll_remote show_id get selector_base scope cursor limit before =
     rbind (get (selector_base @ ''?'' @ poll_params show_id scope cursor limit before)) (\<lambda>replies.
       Ok (sort_key hlc_pos (List.map_filter reply_event replies)))"

text \<open>What a poll reads from: the state of a local backend, or the session.\<close>

record 'b replay_env =
  rv_backend :: "'b StorageBackend"
  rv_state :: 'b
  rv_get :: "string \<Rightarrow> query_reply list result"
  rv_show_id :: "PublisherId \<Rightarrow> string"

definition poll_source :: "'b replay_env \<Rightarrow> replayer \<Rightarrow> nat \<Rightarrow> HlcTimestamp option \<Rightarrow> StoredEvent list result" where
  "poll_source env rp limit before =
     (if rp_local rp then poll_local (rv_backend env) (rv_state env) (rp_scope rp) (rp_cursor rp) limit before
      else poll_remote (rv_show_id env) (rv_get env) (rp_selector_base rp) (rp_scope rp) (rp_cursor rp) limit before)"

definition before_of :: "ReplayEnd \<Rightarrow> HlcTimestamp option" where
  "before_of e =
     (case e of
        AtHlc hlc \<Rightarrow> Some hlc
      | AtTime t \<Rightarrow> Some (Hlc (word_of_int (nanos_or 0 t)) u32_MAX)
      | _ \<Rightarrow> None)"

text \<open>The bookkeeping after a batch has been fetched.\<close>

definition after_batch :: "StoredEvent list \<Rightarrow> replayer \<Rightarrow> replayer" where
  "after_batch events rp =
     (let cursor = (if events = [] then rp_cursor rp
                    else case md_hlc_timestamp (se_metadata (List.last events)) of Some hlc \<Rightarrow> hlc | None \<Rightarrow> rp_cursor rp);
          delivered = rp_delivered rp + length events;
          exhausted = (if events = [] then
                         (case rp_end rp of Bounded _ \<Rightarrow> True | AtHlc _ \<Rightarrow> True | AtTime _ \<Rightarrow> True | _ \<Rightarrow> rp_exhausted rp)
                       else rp_exhausted rp)
      in rp\<lparr>rp_cursor := cursor, rp_delivered := delivered,
            rp_exhausted := (case rp_end rp of Bounded limit \<Rightarrow> exhausted \<or> delivered \<ge> limit | _ \<Rightarrow> exhausted)\<rparr>)"

definition poll :: "'b replay_env \<Rightarrow> replayer \<Rightarrow> replayer \<times> StoredEvent list result" where
  "poll env rp =
     (if rp_exhausted rp then (rp, Err EndOfReplay)
      else
        let fetch = (\<lambda>limit. case poll_source env rp limit (before_of (rp_end rp)) of
                       Err e \<Rightarrow> (rp, Err e)
                     | Ok events \<Rightarrow> (after_batch events rp, Ok events)) in
        (case rp_end rp of
           Bounded limit \<Rightarrow>
             let remaining = limit - rp_delivered rp in
             if remaining = 0 then (rp\<lparr>rp_exhausted := True\<rparr>, Err EndOfReplay) else fetch (min remaining (rp_batch_size rp))
         | _ \<Rightarrow> fetch (rp_batch_size rp)))"

section \<open>Live events\<close>

definition live_key_expr :: "replayer \<Rightarrow> string" where
  "live_key_expr rp =
     (case rp_scope rp of
        ScopePartition p \<Rightarrow> rp_key_prefix rp @ ''/p/'' @ show_word p @ ''/**''
      | ScopeKey k \<Rightarrow> rp_key_prefix rp @ ''/p/*/k/'' @ k @ ''/*''
      | ScopeKeyPrefix p \<Rightarrow> rp_key_prefix rp @ ''/p/*/k/'' @ p @ ''/**''
      | _ \<Rightarrow> rp_key_prefix rp @ ''/**'')"

definition start_live_subscriber :: "replayer \<Rightarrow> replayer" where
  "start_live_subscriber rp = (if rp_live_rx rp \<noteq> None then rp else rp\<lparr>rp_live_rx := Some []\<rparr>)"

text \<open>One sample in the live task; the channel has room.\<close>

definition live_raw :: "ReplayScope \<Rightarrow> zenoh_sample \<Rightarrow> RawEvent option" where
  "live_raw scope s =
     (if str_contains ''/_'' (zs_key_expr s) then None
      else case Option.bind (zs_attachment s) (\<lambda>a. case decode_metadata a of Ok m \<Rightarrow> Some m | Err _ \<Rightarrow> None) of
          None \<Rightarrow> None
        | Some meta \<Rightarrow>
            if (case scope of ScopePublisher i \<Rightarrow> em_pub_id meta \<noteq> i | _ \<Rightarrow> False) then None
            else Some \<lparr>re_id = em_event_id meta, re_seq = em_seq meta, re_publisher_id = em_pub_id meta,
                       re_key_expr = zs_key_expr s, re_payload = zs_payload s, re_timestamp = em_timestamp meta\<rparr>)"

definition live_sample :: "zenoh_sample \<Rightarrow> replayer \<Rightarrow> replayer" where
  "live_sample s rp =
     (case (rp_live_rx rp, live_raw (rp_scope rp) s) of
        (Some q, Some raw) \<Rightarrow> if rp_cancelled rp then rp else rp\<lparr>rp_live_rx := Some (q @ [raw])\<rparr>
      | _ \<Rightarrow> rp)"

definition flush_overlap_buffer :: "replayer \<Rightarrow> replayer" where
  "flush_overlap_buffer rp =
     (case rp_live_rx rp of
        None \<Rightarrow> rp
      | Some q \<Rightarrow> rp\<lparr>rp_live_rx := Some [],
                    rp_overlap := rp_overlap rp @ filter (\<lambda>raw. (re_publisher_id raw, re_seq raw) \<notin> rp_seen rp) q\<rparr>)"

section \<open>Receiving\<close>

definition stored_to_raw :: "StoredEvent \<Rightarrow> RawEvent" where
  "stored_to_raw stored = \<lparr>re_id = md_event_id (se_metadata stored), re_seq = md_seq (se_metadata stored),
     re_publisher_id = md_publisher_id (se_metadata stored), re_key_expr = md_key_expr (se_metadata stored),
     re_payload = se_payload stored, re_timestamp = md_timestamp (se_metadata stored)\<rparr>"

text \<open>The outcome of one turn of the loop: a result, another turn, or waiting on the live channel.\<close>

datatype turn_result = Return "RawEvent result" | Again | WaitLive

definition live_recv :: "replayer \<Rightarrow> replayer \<times> turn_result" where
  "live_recv rp =
     (case rp_live_rx rp of
        Some (raw # q) \<Rightarrow> (rp\<lparr>rp_live_rx := Some q\<rparr>, Return (Ok raw))
      | Some [] \<Rightarrow> (rp, WaitLive)
      | None \<Rightarrow> (rp, Return (Err ChannelClosed)))"

definition go_live :: "replayer \<Rightarrow> replayer \<times> turn_result" where
  "go_live rp = live_recv ((flush_overlap_buffer (start_live_subscriber rp))\<lparr>rp_live_active := True, rp_seen := {}\<rparr>)"

definition recv_turn :: "'b replay_env \<Rightarrow> replayer \<Rightarrow> replayer \<times> turn_result" where
  "recv_turn env rp =
     (case rp_buffer rp of
        stored # buffer \<Rightarrow>
          let raw = stored_to_raw stored in
          (rp\<lparr>rp_buffer := buffer,
              rp_seen := (if rp_end rp = ThenLive then insert (re_publisher_id raw, re_seq raw) (rp_seen rp) else rp_seen rp)\<rparr>,
           Return (Ok raw))
      | [] \<Rightarrow>
        (case rp_overlap rp of
           raw # overlap \<Rightarrow> (rp\<lparr>rp_overlap := overlap\<rparr>, Return (Ok raw))
         | [] \<Rightarrow>
           if rp_live_active rp then live_recv rp
           else if rp_exhausted rp \<and> rp_end rp \<noteq> ThenLive then (rp, Return (Err EndOfReplay))
           else
             (case poll env rp of
                (rp1, Ok []) \<Rightarrow>
                  (case rp_end rp1 of
                     Tailing _ \<Rightarrow> (rp1, Again)
                   | ThenLive \<Rightarrow> go_live rp1
                   | _ \<Rightarrow> if rp_exhausted rp1 then (rp1, Return (Err EndOfReplay)) else (rp1, Again))
              | (rp1, Ok events) \<Rightarrow>
                  ((if rp_end rp1 = ThenLive then start_live_subscriber rp1 else rp1)\<lparr>rp_buffer := rp_buffer rp1 @ events\<rparr>, Again)
              | (rp1, Err EndOfReplay) \<Rightarrow>
                  if rp_end rp1 = ThenLive then go_live rp1 else (rp1, Return (Err EndOfReplay))
              | (rp1, Err e) \<Rightarrow> (rp1, Return (Err e)))))"

text \<open>
  The receive loop for a number of turns, in an environment that may change between them;
  \<^const>\<open>Again\<close> when it is still looping by then.
\<close>

fun recv_raw :: "'b replay_env list \<Rightarrow> replayer \<Rightarrow> replayer \<times> turn_result" where
  "recv_raw [] rp = (rp, Again)"
| "recv_raw (env # envs) rp =
     (case recv_turn env rp of
        (rp1, Again) \<Rightarrow> recv_raw envs rp1
      | (rp1, r) \<Rightarrow> (rp1, r))"

text \<open>A call that waits on the live channel continues with the next sample.\<close>

definition recv_resume :: "zenoh_sample \<Rightarrow> replayer \<Rightarrow> replayer \<times> turn_result" where
  "recv_resume s rp = live_recv (live_sample s rp)"

text \<open>
  Receiving decodes what the loop returned; a stream item is an event or an error, and the stream ends
  with the replay or a closed channel.
\<close>

definition replay_recv :: "(bytes \<Rightarrow> 't result) \<Rightarrow> 'b replay_env list \<Rightarrow> replayer \<Rightarrow> replayer \<times> 't Event result option" where
  "replay_recv decode envs rp =
     (case recv_raw envs rp of
        (rp1, Return r) \<Rightarrow> (rp1, Some (rbind r (deserialize_with decode)))
      | (rp1, _) \<Rightarrow> (rp1, None))"

definition stream_item :: "'t Event result \<Rightarrow> 't Event result option" where
  "stream_item r = (case r of Ok e \<Rightarrow> Some (Ok e) | Err EndOfReplay \<Rightarrow> None | Err ChannelClosed \<Rightarrow> None | Err e \<Rightarrow> Some (Err e))"

section \<open>Seeking and offsets\<close>

definition seek :: "HlcTimestamp \<Rightarrow> replayer \<Rightarrow> replayer" where
  "seek hlc rp = rp\<lparr>rp_cursor := hlc, rp_buffer := [], rp_exhausted := False\<rparr>"

definition replay_commit ::
  "'s session_io \<Rightarrow> (HlcTimestamp \<Rightarrow> bytes result) \<Rightarrow> replayer \<Rightarrow> string \<Rightarrow> 's \<Rightarrow> 's \<times> unit result"
where
  "replay_commit io to_vec rp group_id st =
     (case to_vec (rp_cursor rp) of
        Err e \<Rightarrow> (st, Err e)
      | Ok payload \<Rightarrow> io_put io (replay_offset_key (rp_key_prefix rp) group_id) payload st)"

definition seek_to_committed ::
  "'s session_io \<Rightarrow> (bytes \<Rightarrow> HlcTimestamp result) \<Rightarrow> string \<Rightarrow> replayer \<Rightarrow> 's \<Rightarrow> 's \<times> replayer \<times> bool result"
where
  "seek_to_committed io from_slice group_id rp st =
     (case fetch_replay_offset io from_slice (rp_key_prefix rp) group_id st of
        (st', Err e) \<Rightarrow> (st', rp, Err e)
      | (st', Ok (Some hlc)) \<Rightarrow> (st', seek hlc rp, Ok True)
      | (st', Ok None) \<Rightarrow> (st', rp, Ok False))"

definition replay_shutdown :: "replayer \<Rightarrow> replayer" where
  "replay_shutdown rp = rp\<lparr>rp_cancelled := True\<rparr>"

section \<open>Paging\<close>

abbreviation hlc_of :: "StoredEvent \<Rightarrow> HlcTimestamp" where
  "hlc_of e \<equiv> fst (hlc_pos e)"

text \<open>The events of a log that a replay from a cursor has yet to return.\<close>

definition pending :: "StoredEvent list \<Rightarrow> ReplayScope \<Rightarrow> HlcTimestamp option \<Rightarrow> HlcTimestamp \<Rightarrow> StoredEvent list" where
  "pending log scope before cursor = filter (replay_match (scope_filters scope cursor 0 before)) log"

definition hlc_sorted :: "StoredEvent list \<Rightarrow> bool" where
  "hlc_sorted log \<longleftrightarrow> sorted_wrt (\<lambda>x y. hlc_of x < hlc_of y) log"

lemma scope_filters_limit:
  "replay_match (scope_filters scope cursor n before) = replay_match (scope_filters scope cursor 0 before)"
  by (rule ext, cases scope)
    (simp_all add: scope_filters_def replay_match_def matches_publisher_def matches_key_def split: option.splits)

lemma scope_filters_cursor:
  "replay_match (scope_filters scope cursor n before) e \<longleftrightarrow>
     cursor < hlc_of e \<and> replay_match ((scope_filters scope cursor n before)\<lparr>rf_after_hlc := None\<rparr>) e"
  by (cases scope) (auto simp: scope_filters_def replay_match_def matches_publisher_def matches_key_def hlc_pos_def split: option.splits)

lemma scope_filters_no_cursor:
  "(scope_filters scope cursor n before)\<lparr>rf_after_hlc := None\<rparr> = (scope_filters scope cursor' n before)\<lparr>rf_after_hlc := None\<rparr>"
  by (cases scope) (simp_all add: scope_filters_def)

lemma pending_advance:
  assumes "c \<le> c'"
  shows "pending log scope before c' = filter (\<lambda>e. c' < hlc_of e) (pending log scope before c)"
proof -
  have "replay_match (scope_filters scope c' 0 before) e \<longleftrightarrow> c' < hlc_of e \<and> replay_match (scope_filters scope c 0 before) e" for e
    using scope_filters_cursor[of scope c' 0 before e] scope_filters_cursor[of scope c 0 before e]
      scope_filters_no_cursor[of scope c' 0 before c] assms by auto
  then show ?thesis by (auto simp: pending_def filter_filter intro: filter_cong)
qed

lemma pending_sorted: "hlc_sorted log \<Longrightarrow> hlc_sorted (pending log scope before c)"
  by (simp add: hlc_sorted_def pending_def sorted_wrt_filter)

lemma sorted_after_last:
  assumes "hlc_sorted xs" and "take n xs \<noteq> []"
  shows "filter (\<lambda>e. hlc_of (List.last (take n xs)) < hlc_of e) xs = drop n xs"
proof -
  let ?c = "hlc_of (List.last (take n xs))"
  have app: "sorted_wrt (\<lambda>x y. hlc_of x < hlc_of y) (take n xs @ drop n xs)" using assms(1) by (simp add: hlc_sorted_def)
  have "?c < hlc_of e" if "e \<in> set (drop n xs)" for e
    using app[unfolded sorted_wrt_append] that last_in_set[OF assms(2)] by blast
  moreover have "\<not> ?c < hlc_of e" if "e \<in> set (take n xs)" for e
  proof -
    have "take n xs = butlast (take n xs) @ [List.last (take n xs)]" using assms(2) by simp
    then have "sorted_wrt (\<lambda>x y. hlc_of x < hlc_of y) (butlast (take n xs) @ [List.last (take n xs)])"
      using app by (metis sorted_wrt_append)
    then show ?thesis using that append_butlast_last_id[OF assms(2)]
      by (metis (no_types, lifting) Un_iff empty_iff empty_set less_asym less_irrefl list.set_intros(1) set_ConsD set_append sorted_wrt_append)
  qed
  ultimately have "filter (\<lambda>e. ?c < hlc_of e) (take n xs @ drop n xs) = drop n xs"
    by (simp add: filter_empty_conv del: append_take_drop_id)
  then show ?thesis by simp
qed

lemma pending_page:
  assumes "hlc_sorted log" and "ys = take n (pending log scope before c)" and "ys \<noteq> []"
  shows "pending log scope before (hlc_of (List.last ys)) = drop n (pending log scope before c)"
proof -
  have "List.last ys \<in> set (pending log scope before c)" using assms(2,3) last_in_set in_set_takeD by metis
  then have "c < hlc_of (List.last ys)" using scope_filters_cursor[of scope c 0 before] by (simp add: pending_def)
  then show ?thesis
    using pending_advance[of c "hlc_of (List.last ys)"] sorted_after_last[OF pending_sorted[OF assms(1)]] assms(2,3) by simp
qed

section \<open>Sources\<close>

text \<open>What a replayer relies on: a poll returns the next events of a log in HLC order, up to the limit.\<close>

definition finite_end :: "ReplayEnd \<Rightarrow> bool" where
  "finite_end e = (case e of Bounded _ \<Rightarrow> True | AtHlc _ \<Rightarrow> True | AtTime _ \<Rightarrow> True | _ \<Rightarrow> False)"

text \<open>The events a replayer with a finite end is still to hand out.\<close>

definition to_come :: "StoredEvent list \<Rightarrow> replayer \<Rightarrow> StoredEvent list" where
  "to_come log rp = rp_buffer rp @ (if rp_exhausted rp then []
     else let xs = pending log (rp_scope rp) (before_of (rp_end rp)) (rp_cursor rp) in
          case rp_end rp of Bounded l \<Rightarrow> take (l - rp_delivered rp) xs | _ \<Rightarrow> xs)"

definition replaying :: "replayer \<Rightarrow> bool" where
  "replaying rp \<longleftrightarrow> finite_end (rp_end rp) \<and> rp_overlap rp = [] \<and> \<not> rp_live_active rp \<and> 0 < rp_batch_size rp \<and> rp_batch_size rp \<le> usize_MAX"

fun recv_all :: "nat \<Rightarrow> 'b replay_env \<Rightarrow> replayer \<Rightarrow> RawEvent list \<times> error option" where
  "recv_all 0 env rp = ([], None)"
| "recv_all (Suc n) env rp =
     (case recv_raw [env, env] rp of
        (rp1, Return (Ok raw)) \<Rightarrow> (case recv_all n env rp1 of (rs, e) \<Rightarrow> (raw # rs, e))
      | (rp1, Return (Err e)) \<Rightarrow> ([], Some e)
      | (rp1, _) \<Rightarrow> ([], None))"

locale replay_source =
  fixes env :: "'e \<Rightarrow> 'b replay_env"
    and log :: "'e \<Rightarrow> StoredEvent list"
    and ready :: "'e \<Rightarrow> bool \<Rightarrow> ReplayScope \<Rightarrow> string \<Rightarrow> bool"
  assumes poll_law: "ready e (rp_local rp) (rp_scope rp) (rp_selector_base rp) \<Longrightarrow> 0 < n \<Longrightarrow> n \<le> usize_MAX \<Longrightarrow>
      poll_source (env e) rp n before = Ok (take n (pending (log e) (rp_scope rp) before (rp_cursor rp)))"
    and log_sorted: "ready e l scope base \<Longrightarrow> hlc_sorted (log e)"
begin

abbreviation rp_ready :: "'e \<Rightarrow> replayer \<Rightarrow> bool" where
  "rp_ready e rp \<equiv> ready e (rp_local rp) (rp_scope rp) (rp_selector_base rp)"

lemma poll_finite:
  assumes "rp_ready e rp" and "replaying rp" and "rp_buffer rp = []" and "\<not> rp_exhausted rp"
  shows "(to_come (log e) rp = [] \<and> (\<exists>rp1. (poll (env e) rp = (rp1, Err EndOfReplay) \<or> poll (env e) rp = (rp1, Ok []) \<and> rp_exhausted rp1)
            \<and> rp_end rp1 = rp_end rp))
       \<or> (\<exists>rp1 x xs. poll (env e) rp = (rp1, Ok (x # xs)) \<and> rp_ready e rp1 \<and> replaying rp1 \<and> rp_buffer rp1 = [] \<and> rp_end rp1 = rp_end rp
            \<and> to_come (log e) rp = (x # xs) @ to_come (log e) rp1)"
proof -
  let ?before = "before_of (rp_end rp)"
  let ?xs = "pending (log e) (rp_scope rp) ?before (rp_cursor rp)"
  define n where "n = (case rp_end rp of Bounded l \<Rightarrow> min (l - rp_delivered rp) (rp_batch_size rp) | _ \<Rightarrow> rp_batch_size rp)"
  let ?left = "case rp_end rp of Bounded l \<Rightarrow> Some (l - rp_delivered rp) | _ \<Rightarrow> None"
  have tc: "to_come (log e) rp = (case ?left of Some k \<Rightarrow> take k ?xs | None \<Rightarrow> ?xs)"
    using assms(3,4) by (simp add: to_come_def split: ReplayEnd.splits)
  show ?thesis
  proof (cases "?left = Some 0")
    case True
    then have "poll (env e) rp = (rp\<lparr>rp_exhausted := True\<rparr>, Err EndOfReplay)"
      using assms(4) by (simp add: poll_def split: ReplayEnd.splits)
    then show ?thesis using tc True by simp
  next
    case False
    have n: "0 < n" "n \<le> usize_MAX" using False assms(2) by (auto simp: n_def replaying_def split: ReplayEnd.splits)
    define ys where "ys = take n ?xs"
    have po: "poll (env e) rp = (after_batch ys rp, Ok ys)"
      using assms(4) False poll_law[OF assms(1) n, of ?before]
      by (simp add: poll_def n_def ys_def split: ReplayEnd.splits)
    show ?thesis
    proof (cases "ys = []")
      case True
      then have "?xs = []" using n(1) by (simp add: ys_def)
      moreover have "rp_exhausted (after_batch ys rp)" "rp_end (after_batch ys rp) = rp_end rp"
        using True assms(2) by (auto simp: after_batch_def replaying_def finite_end_def split: ReplayEnd.splits)
      ultimately show ?thesis using tc po True by (auto split: option.splits)
    next
      case ne: False
      have h: "md_hlc_timestamp (se_metadata (List.last ys)) = Some (hlc_of (List.last ys))"
      proof -
        have "List.last ys \<in> set ?xs" using ne last_in_set in_set_takeD unfolding ys_def by metis
        then show ?thesis by (auto simp: pending_def replay_match_def hlc_pos_def split: option.splits)
      qed
      let ?rp1 = "after_batch ys rp"
      have f: "rp_scope ?rp1 = rp_scope rp" "rp_end ?rp1 = rp_end rp" "rp_local ?rp1 = rp_local rp" "rp_selector_base ?rp1 = rp_selector_base rp"
        "rp_overlap ?rp1 = rp_overlap rp" "rp_live_active ?rp1 = rp_live_active rp" "rp_batch_size ?rp1 = rp_batch_size rp" "rp_buffer ?rp1 = []"
        "rp_cursor ?rp1 = hlc_of (List.last ys)" "rp_delivered ?rp1 = rp_delivered rp + length ys"
        using ne h assms(3) by (simp_all add: after_batch_def Let_def)
      have ex: "rp_exhausted ?rp1 = (case rp_end rp of Bounded l \<Rightarrow> l \<le> rp_delivered rp + length ys | _ \<Rightarrow> False)"
        using ne assms(4) by (simp add: after_batch_def Let_def split: ReplayEnd.splits)
      have pg: "pending (log e) (rp_scope rp) ?before (hlc_of (List.last ys)) = drop n ?xs"
        by (rule pending_page[OF log_sorted[OF assms(1)] ys_def ne])
      have "to_come (log e) rp = ys @ to_come (log e) ?rp1"
      proof (cases "rp_end rp")
        case (Bounded l)
        have "n \<le> l - rp_delivered rp" using Bounded by (simp add: n_def)
        then have "take (l - rp_delivered rp) ?xs = ys @ take (l - rp_delivered rp - n) (drop n ?xs)"
          by (metis append_take_drop_id le_add_diff_inverse take_add ys_def)
        moreover have "take (l - (rp_delivered rp + length ys)) (drop n ?xs) = take (l - rp_delivered rp - n) (drop n ?xs)"
          by (cases "n \<le> length ?xs") (simp_all add: ys_def)
        moreover have "length ys \<le> n" by (simp add: ys_def)
        ultimately show ?thesis using tc Bounded f ex pg by (auto simp: to_come_def Let_def)
      qed (use tc f ex pg in \<open>simp_all add: to_come_def Let_def ys_def\<close>)
      moreover obtain x zs where "ys = x # zs" using ne by (cases ys) auto
      moreover have "replaying ?rp1" using assms(2) f by (simp add: replaying_def)
      ultimately show ?thesis using po f assms(1) by (intro disjI2 exI[of _ ?rp1] exI[of _ x] exI[of _ zs]) simp
    qed
  qed
qed

lemma recv_next:
  assumes "rp_ready e rp" and "replaying rp"
  shows "(to_come (log e) rp = [] \<and> (\<exists>rp1. recv_raw [env e, env e] rp = (rp1, Return (Err EndOfReplay))))
    \<or> (\<exists>rp1 x xs. to_come (log e) rp = x # xs \<and> recv_raw [env e, env e] rp = (rp1, Return (Ok (stored_to_raw x)))
         \<and> rp_ready e rp1 \<and> replaying rp1 \<and> to_come (log e) rp1 = xs)"
proof -
  have fe: "rp_end rp \<noteq> ThenLive" "\<And>d. rp_end rp \<noteq> Tailing d" using assms(2) by (auto simp: replaying_def finite_end_def)
  have quiet: "rp_overlap rp = []" "\<not> rp_live_active rp" using assms(2) by (simp_all add: replaying_def)
  show ?thesis
  proof (cases "rp_buffer rp")
    case (Cons x buffer)
    let ?rp1 = "rp\<lparr>rp_buffer := buffer\<rparr>"
    have "recv_raw [env e, env e] rp = (?rp1, Return (Ok (stored_to_raw x)))"
      using Cons fe(1) by (simp add: recv_turn_def Let_def)
    moreover have "to_come (log e) rp = x # to_come (log e) ?rp1" using Cons by (simp add: to_come_def Let_def split: ReplayEnd.split)
    moreover have "replaying ?rp1" using assms(2) by (simp add: replaying_def)
    ultimately show ?thesis using assms(1)
      by (intro disjI2 exI[of _ ?rp1] exI[of _ x] exI[of _ "to_come (log e) ?rp1"]) (simp del: recv_raw.simps)
  next
    case Nil
    show ?thesis
    proof (cases "rp_exhausted rp")
      case True
      then have "recv_raw [env e, env e] rp = (rp, Return (Err EndOfReplay))" using Nil quiet fe by (simp add: recv_turn_def)
      then show ?thesis using Nil True by (simp add: to_come_def)
    next
      case False
      from poll_finite[OF assms Nil False] show ?thesis
      proof (elim disjE conjE exE)
        fix rp1 assume "to_come (log e) rp = []" "rp_end rp1 = rp_end rp" and "poll (env e) rp = (rp1, Err EndOfReplay)"
        then show ?thesis using Nil quiet fe False by (simp add: recv_turn_def)
      next
        fix rp1 assume a: "to_come (log e) rp = []" "rp_end rp1 = rp_end rp" "poll (env e) rp = (rp1, Ok [])" "rp_exhausted rp1"
        then have "recv_turn (env e) rp = (rp1, Return (Err EndOfReplay))"
          using Nil quiet fe False by (simp add: recv_turn_def split: ReplayEnd.splits)
        then show ?thesis using a by simp
      next
        fix rp1 x xs
        assume p: "poll (env e) rp = (rp1, Ok (x # xs))" "rp_ready e rp1" "replaying rp1" "rp_buffer rp1 = []" "rp_end rp1 = rp_end rp"
          and tc: "to_come (log e) rp = (x # xs) @ to_come (log e) rp1"
        let ?rp2 = "rp1\<lparr>rp_buffer := xs\<rparr>"
        have "recv_turn (env e) rp = (rp1\<lparr>rp_buffer := x # xs\<rparr>, Again)" using Nil quiet fe False p by (simp add: recv_turn_def)
        then have "recv_raw [env e, env e] rp = (?rp2, Return (Ok (stored_to_raw x)))"
          using p(5) fe(1) by (simp add: recv_turn_def Let_def)
        moreover have "to_come (log e) ?rp2 = xs @ to_come (log e) rp1" using p(4) by (simp add: to_come_def Let_def split: ReplayEnd.split)
        moreover have "replaying ?rp2" using p(3) by (simp add: replaying_def)
        moreover have "rp_ready e ?rp2" using p(2) by simp
        ultimately show ?thesis using tc by auto
      qed
    qed
  qed
qed

lemma recv_all_complete:
  "rp_ready e rp \<Longrightarrow> replaying rp \<Longrightarrow> length (to_come (log e) rp) < n \<Longrightarrow>
   recv_all n (env e) rp = (map stored_to_raw (to_come (log e) rp), Some EndOfReplay)"
proof (induction n arbitrary: rp)
  case (Suc n)
  from recv_next[OF Suc.prems(1,2)] show ?case
  proof (elim disjE conjE exE)
    fix rp1 assume "to_come (log e) rp = []" "recv_raw [env e, env e] rp = (rp1, Return (Err EndOfReplay))"
    then show ?thesis by (simp del: recv_raw.simps)
  next
    fix rp1 x xs
    assume r: "to_come (log e) rp = x # xs" "recv_raw [env e, env e] rp = (rp1, Return (Ok (stored_to_raw x)))"
      "rp_ready e rp1" "replaying rp1" "to_come (log e) rp1 = xs"
    then show ?thesis using Suc.IH[OF r(3,4)] Suc.prems(3) by (simp del: recv_raw.simps)
  qed
qed simp

end

section \<open>The local backend as a source\<close>

definition replay_log :: "json_codec \<Rightarrow> view \<Rightarrow> StoredEvent list" where
  "replay_log js w = replay_list js w"

text \<open>A backend that answers replay queries and holds no two events with the same HLC timestamp.\<close>

definition log_ready :: "'d fjall_ops \<Rightarrow> ('d \<Rightarrow> view) \<Rightarrow> json_codec \<Rightarrow> 'd FjallBackend \<Rightarrow> bool" where
  "log_ready ops vw js b \<longleftrightarrow> fjall_ok ops vw \<and> events_ok js (vw (fb_db b)) \<and> replay_ok js (vw (fb_db b))
     \<and> (\<forall>f. \<exists>rs. query_replay ops js f b = Ok rs) \<and> hlc_sorted (replay_log js (vw (fb_db b)))"

lemma log_query:
  assumes "log_ready ops vw js b" and "0 < n"
  shows "query_replay ops js (scope_filters scope cursor n before) b = Ok (take n (pending (replay_log js (vw (fb_db b))) scope before cursor))"
proof -
  let ?f = "scope_filters scope cursor n before"
  obtain rs where rs: "query_replay ops js ?f b = Ok rs" using assms(1) by (auto simp: log_ready_def)
  have "rf_limit ?f = Some n" by (cases scope) (simp_all add: scope_filters_def)
  then have "rs = take n (filter (replay_match ?f) (replay_list js (vw (fb_db b))))"
    using replay_result[OF _ _ rs, of vw] assms by (simp add: log_ready_def upto_def room_def)
  then show ?thesis using rs by (simp add: pending_def replay_log_def scope_filters_limit[of scope cursor n before])
qed

definition local_env :: "'d fjall_ops \<times> ('d \<Rightarrow> view) \<times> json_codec \<times> 'd FjallBackend \<Rightarrow> 'd FjallBackend replay_env" where
  "local_env = (\<lambda>(ops, vw, js, b). \<lparr>rv_backend = fjall_backend ops js, rv_state = b, rv_get = \<lambda>_. Err ChannelClosed, rv_show_id = \<lambda>_. []\<rparr>)"

interpretation lo: replay_source local_env "\<lambda>(ops, vw, js, b). replay_log js (vw (fb_db b))"
  "\<lambda>(ops, vw, js, b) l scope base. l \<and> log_ready ops vw js b"
proof (unfold_locales, goal_cases)
  case (1 e rp n before)
  obtain ops vw js b where e: "e = (ops, vw, js, b)" by (cases e)
  then show ?case using 1 log_query[of ops vw js b n "rp_scope rp" "rp_cursor rp" before]
    by (simp add: poll_source_def poll_local_def local_env_def fjall_backend_def)
next
  case (2 e l scope base)
  then show ?case by (cases e) (simp add: log_ready_def)
qed

section \<open>A remote store as a source\<close>

text \<open>Scopes whose text survives the selector syntax.\<close>

definition scope_text_ok :: "(PublisherId \<Rightarrow> string) \<Rightarrow> (string \<Rightarrow> u128 option) \<Rightarrow> ReplayScope \<Rightarrow> bool" where
  "scope_text_ok show_id parse_uuid scope =
     (case scope of
        ScopeKey k \<Rightarrow> plain k
      | ScopeKeyPrefix p \<Rightarrow> plain p
      | ScopePublisher i \<Rightarrow> plain (show_id i) \<and> parse_uuid (show_id i) = Some i
      | _ \<Rightarrow> True)"

definition poll_pairs :: "(PublisherId \<Rightarrow> string) \<Rightarrow> ReplayScope \<Rightarrow> HlcTimestamp \<Rightarrow> nat \<Rightarrow> HlcTimestamp option \<Rightarrow> (string \<times> string) list" where
  "poll_pairs show_id scope cursor n before =
     [(''after_hlc'', hlc_text cursor), (''limit'', show_nat n)]
     @ (case scope of
          ScopeKey k \<Rightarrow> [(''key'', k)]
        | ScopeKeyPrefix p \<Rightarrow> [(''key_prefix'', p)]
        | ScopePublisher i \<Rightarrow> [(''publisher_id'', show_id i)]
        | _ \<Rightarrow> [])
     @ (case before of Some b \<Rightarrow> [(''before_hlc'', hlc_text b)] | None \<Rightarrow> [])"

lemma poll_params_pairs:
  "poll_params show_id scope cursor n before = join_params (CHR ''&'') (map param_text (poll_pairs show_id scope cursor n before))"
  by (cases scope; cases before) (simp_all add: poll_params_def poll_pairs_def param_text_def)

lemma plain_hlc_text [simp]: "plain (hlc_text h)"
proof -
  have "plain (a @ b)" if "plain a" "plain b" for a b using that by (auto simp: plain_def)
  moreover have "plain '':''" by (simp add: plain_def is_sep_def is_space_def)
  ultimately show ?thesis unfolding hlc_text_def by (metis plain_show_word)
qed

lemma replay_plain_names: "plain ''after_hlc''" "plain ''before_hlc''" "plain ''key''" "plain ''key_prefix''"
  by (simp_all add: plain_def is_sep_def is_space_def)

lemma poll_pairs_ok:
  "scope_text_ok show_id parse_uuid scope \<Longrightarrow> \<forall>kv \<in> set (poll_pairs show_id scope cursor n before). param_ok kv"
  by (cases scope; cases before) (simp_all add: poll_pairs_def param_ok_def scope_text_ok_def plain_names replay_plain_names)

lemma parse_hlc_text [simp]: "parse_hlc (hlc_text h) = Ok h"
  using parse_hlc_show[of "physical_ns h" "logical h"] by (cases h) (simp add: hlc_text_def)

lemma poll_params_filters:
  assumes "scope_text_ok show_id parse_uuid scope" and "n \<le> usize_MAX"
  shows "rf_from_selector parse_uuid (poll_params show_id scope cursor n before) = Ok (scope_filters scope cursor n before)"
proof -
  have "parse_usize (show_nat n) = Some n" using assms(2) by (simp add: parse_usize_def usize_MAX_def)
  then have "params_fold (rf_param parse_uuid) (poll_pairs show_id scope cursor n before) rf_default = Ok (scope_filters scope cursor n before)"
    using assms(1)
    by (cases scope; cases before) (simp_all add: poll_pairs_def rf_param_def config_err_def scope_filters_def scope_text_ok_def rf_default_def)
  then show ?thesis
    using parse_selector[OF _ poll_pairs_ok[OF assms(1)], of "CHR ''&''" cursor n before "rf_param parse_uuid" rf_default]
    by (simp add: rf_from_selector_def poll_params_pairs is_sep_def poll_pairs_def)
qed


lemma store_answers_poll:
  assumes "log_ready ops vw js b" and "0 < n" and "n \<le> usize_MAX" and "scope_text_ok show_id parse_uuid scope"
  shows "store_query (fjall_backend ops js) parse_time parse_uuid True (poll_params show_id scope cursor n before) b
    = map event_reply (take n (pending (replay_log js (vw (fb_db b))) scope before cursor))"
proof -
  have "str_contains ''after_hlc'' (poll_params show_id scope cursor n before)"
    using str_contains_prefix[of "''after_hlc''"] by (simp add: poll_params_def)
  then show ?thesis
    using poll_params_filters[OF assms(4,3)] log_query[OF assms(1,2)]
    by (simp add: store_query_def handle_query_replay_def ask_def fjall_backend_def)
qed

lemma map_filter_reply:
  "\<forall>e \<in> set es. wire_event e \<Longrightarrow> List.map_filter reply_event (map wire_reply (map event_reply es)) = es"
  by (induction es) (simp_all add: List.map_filter_simps reply_event_roundtrip)

lemma sort_sorted_log:
  assumes "hlc_sorted es"
  shows "sort_key hlc_pos es = es"
proof -
  have "sorted_wrt (\<lambda>x y. hlc_pos x \<le> hlc_pos y) es"
    using assms unfolding hlc_sorted_def
    by (rule sorted_wrt_mono_rel[rotated]) (simp add: less_eq_prod_def)
  then have "sorted (map hlc_pos es)" by (simp add: sorted_wrt_map)
  then show ?thesis by (rule sort_key_id_if_sorted)
qed


type_synonym 'd remote = "'d fjall_ops \<times> ('d \<Rightarrow> view) \<times> json_codec \<times> 'd FjallBackend \<times> (PublisherId \<Rightarrow> string)
    \<times> (string \<Rightarrow> DateTime option) \<times> (string \<Rightarrow> u128 option) \<times> string"

definition remote_env :: "'d remote \<Rightarrow> 'd FjallBackend replay_env" where
  "remote_env = (\<lambda>(ops, vw, js, b, show_id, parse_time, parse_uuid, sp).
     \<lparr>rv_backend = fjall_backend ops js, rv_state = b,
      rv_get = \<lambda>sel. Ok (stores_answer (fjall_backend ops js) parse_time parse_uuid sp [b] sel), rv_show_id = show_id\<rparr>)"

definition remote_ready :: "'d remote \<Rightarrow> bool \<Rightarrow> ReplayScope \<Rightarrow> string \<Rightarrow> bool" where
  "remote_ready = (\<lambda>(ops, vw, js, b, show_id, parse_time, parse_uuid, sp) l scope base.
     \<not> l \<and> log_ready ops vw js b \<and> (\<forall>e \<in> set (replay_log js (vw (fb_db b))). wire_event e) \<and> CHR ''?'' \<notin> set sp
     \<and> base = replay_selector_base sp scope \<and> scope_text_ok show_id parse_uuid scope
     \<and> (\<forall>q. scope = ScopePartition q \<longrightarrow> q = fb_partition b))"

lemma selector_parts_base:
  assumes "CHR ''?'' \<notin> set sp"
  shows "selector_parts (replay_selector_base sp scope @ ''?'' @ params) = (replay_selector_base sp scope, params)"
proof -
  have "CHR ''?'' \<notin> set (show_word (q :: u32))" for q unfolding show_word_def by (rule show_nat_notin) simp
  then have "CHR ''?'' \<notin> set (replay_selector_base sp scope)" using assms by (cases scope) (simp_all add: replay_selector_base_def)
  from split_once_append[OF this, of params] show ?thesis by (simp add: selector_parts_def)
qed

lemma serves_base:
  "(\<forall>q. scope = ScopePartition q \<longrightarrow> q = p) \<Longrightarrow> serves_key sp p (replay_selector_base sp scope)"
  by (cases scope) (simp_all add: serves_key_def replay_selector_base_def)

lemma pending_wire: "\<forall>e \<in> set log. wire_event e \<Longrightarrow> \<forall>e \<in> set (take n (pending log scope before c)). wire_event e"
  using in_set_takeD by (fastforce simp: pending_def)

lemma take_pending_sorted: "hlc_sorted log \<Longrightarrow> hlc_sorted (take n (pending log scope before c))"
  using pending_sorted[of log scope before c] by (simp add: hlc_sorted_def sorted_wrt_take)

interpretation re: replay_source remote_env "\<lambda>(ops, vw, js, b, show_id, parse_time, parse_uuid, sp). replay_log js (vw (fb_db b))" remote_ready
proof (unfold_locales, goal_cases)
  case (1 e rp n before)
  obtain ops vw js b show_id parse_time parse_uuid sp where e: "e = (ops, vw, js, b, show_id, parse_time, parse_uuid, sp)"
    by (metis surj_pair)
  let ?log = "replay_log js (vw (fb_db b))" and ?base = "replay_selector_base sp (rp_scope rp)"
  have r: "\<not> rp_local rp" "log_ready ops vw js b" "\<forall>e \<in> set ?log. wire_event e" "CHR ''?'' \<notin> set sp" "rp_selector_base rp = ?base"
    "scope_text_ok show_id parse_uuid (rp_scope rp)" "serves_key sp (fb_partition b) ?base"
    using 1(1) serves_base[of "rp_scope rp" "fb_partition b" sp] by (auto simp: e remote_ready_def)
  have bp: "bo_partition (fjall_backend ops js) b = fb_partition b" by (simp add: fjall_backend_def)
  have "hlc_sorted ?log" using r(2) by (simp add: log_ready_def)
  then show ?case
    using r store_answers_poll[OF r(2) 1(2,3) r(6), of parse_time "rp_cursor rp" before] selector_parts_base[OF r(4)]
      map_filter_reply[OF pending_wire[OF r(3)]] sort_sorted_log[OF take_pending_sorted]
    by (simp add: poll_source_def poll_remote_def remote_env_def e stores_answer_def bp)
next
  case (2 e l scope base)
  then show ?case by (cases e) (auto simp: remote_ready_def log_ready_def)
qed


section \<open>Replays of one store\<close>

lemma log_sorted_if_distinct:
  assumes "fjall_ok ops vw" and "replay_ok js (vw (fb_db b))" and "inj_on hlc_of (set (replay_log js (vw (fb_db b))))"
  shows "hlc_sorted (replay_log js (vw (fb_db b)))"
proof -
  let ?xs = "replay_log js (vw (fb_db b))"
  have s: "sorted_wrt (\<lambda>x y. hlc_pos x < hlc_pos y) ?xs"
    using replay_list_sorted[OF assms(2) fjall_finite[OF assms(1)]] by (simp add: replay_log_def)
  have "hlc_of x < hlc_of y" if "x \<in> set ?xs" "y \<in> set ?xs" "hlc_pos x < hlc_pos y" for x y
  proof (rule ccontr)
    assume "\<not> hlc_of x < hlc_of y"
    then have "hlc_of x = hlc_of y" using that(3) by (simp add: less_prod_def)
    then have "x = y" using assms(3) that(1,2) by (meson inj_onD)
    then show False using that(3) by simp
  qed
  then show ?thesis unfolding hlc_sorted_def by (rule sorted_wrt_mono_rel[OF _ s])
qed

text \<open>
  C9. A replay of one remote store with a finite end is complete and ends: against a store that answers its
  queries, whose replay index agrees with its events and whose events with an HLC timestamp carry pairwise distinct ones,
  calling \<^verbatim>\<open>recv_raw\<close> over and
  over returns, as they were stored, exactly the stored events with an HLC timestamp in scope after the start cursor and
  before the end, in HLC order and cut to the limit, each once, and then reports the end of the
  replay, whatever the batch size.  (With several stores it does not hold: \<open>replay_skips_across_stores\<close>.)
\<close>

theorem replay_complete:
  assumes "fjall_ok ops vw" and "events_ok js (vw (fb_db b))" and "replay_ok js (vw (fb_db b))"
    and "\<forall>f. \<exists>rs. query_replay ops js f b = Ok rs" and "inj_on hlc_of (set (replay_log js (vw (fb_db b))))"
    and "\<forall>e \<in> set (replay_log js (vw (fb_db b))). wire_event e" and "CHR ''?'' \<notin> set (rb_store_prefix rb)"
    and "scope_text_ok show_id parse_uuid (rb_scope rb)" and "\<forall>q. rb_scope rb = ScopePartition q \<longrightarrow> q = fb_partition b"
    and "finite_end (rb_end rb)" and "0 < rb_batch_size rb" and "rb_batch_size rb \<le> usize_MAX" and "\<not> rb_local rb"
    and "replay_build io from_slice rb st = (st', Ok rp)"
  shows "\<exists>xs. set xs = {e \<in> stored_events js (vw (fb_db b)). replay_match (scope_filters (rb_scope rb) (rp_cursor rp) 0 (before_of (rb_end rb))) e}
      \<and> hlc_sorted xs
      \<and> (\<forall>n > length xs. recv_all n (remote_env (ops, vw, js, b, show_id, parse_time, parse_uuid, rb_store_prefix rb)) rp
           = (map stored_to_raw (case rb_end rb of Bounded l \<Rightarrow> take l xs | _ \<Rightarrow> xs), Some EndOfReplay))"
proof -
  let ?e = "(ops, vw, js, b, show_id, parse_time, parse_uuid, rb_store_prefix rb)" and ?log = "replay_log js (vw (fb_db b))"
  let ?xs = "pending ?log (rb_scope rb) (before_of (rb_end rb)) (rp_cursor rp)"
  have rp: "rp_local rp = rb_local rb" "rp_scope rp = rb_scope rb" "rp_end rp = rb_end rb" "rp_batch_size rp = rb_batch_size rb"
    "rp_selector_base rp = replay_selector_base (rb_store_prefix rb) (rb_scope rb)" "rp_buffer rp = []" "\<not> rp_exhausted rp" "rp_delivered rp = 0"
    "rp_overlap rp = []" "\<not> rp_live_active rp"
    using assms(14) by (auto simp: replay_build_def Let_def split: prod.splits)
  have ready: "log_ready ops vw js b"
    using assms(1-4) log_sorted_if_distinct[OF assms(1,3,5)] by (simp add: log_ready_def)
  have rr: "remote_ready ?e (rp_local rp) (rp_scope rp) (rp_selector_base rp)"
    using ready assms(6-9,13) rp by (simp add: remote_ready_def)
  have pl: "replaying rp" using assms(10-12) rp by (simp add: replaying_def)
  have tc: "to_come ?log rp = (case rb_end rb of Bounded l \<Rightarrow> take l ?xs | _ \<Rightarrow> ?xs)"
    using rp by (simp add: to_come_def Let_def split: ReplayEnd.split)
  obtain rs where "query_replay ops js (scope_filters (rb_scope rb) (rp_cursor rp) 0 (before_of (rb_end rb))) b = Ok rs" using assms(4) by blast
  then have "set ?xs = {e \<in> stored_events js (vw (fb_db b)). replay_match (scope_filters (rb_scope rb) (rp_cursor rp) 0 (before_of (rb_end rb))) e}"
    using replay_full(1)[OF assms(1-3)] by (simp add: pending_def replay_log_def)
  moreover have "hlc_sorted ?xs" using ready by (simp add: pending_sorted log_ready_def)
  moreover have "recv_all n (remote_env ?e) rp = (map stored_to_raw (to_come ?log rp), Some EndOfReplay)" if "length ?xs < n" for n
  proof -
    have "length (to_come ?log rp) \<le> length ?xs" using tc by (simp split: ReplayEnd.split)
    then show ?thesis using re.recv_all_complete[OF rr pl, of n] that by simp
  qed
  ultimately show ?thesis using tc by (intro exI[of _ ?xs]) simp
qed

section \<open>Replays over several stores\<close>

definition multi_env ::
  "'d fjall_ops \<Rightarrow> json_codec \<Rightarrow> 'd FjallBackend list \<Rightarrow> (PublisherId \<Rightarrow> string) \<Rightarrow> (string \<Rightarrow> DateTime option) \<Rightarrow> (string \<Rightarrow> u128 option) \<Rightarrow> string
    \<Rightarrow> 'd FjallBackend replay_env"
where
  "multi_env ops js bs show_id parse_time parse_uuid sp =
     \<lparr>rv_backend = fjall_backend ops js, rv_state = hd bs,
      rv_get = \<lambda>sel. Ok (stores_answer (fjall_backend ops js) parse_time parse_uuid sp bs sel), rv_show_id = show_id\<rparr>"

lemma map_filter_concat: "List.map_filter f (concat xss) = concat (map (List.map_filter f) xss)"
  by (induction xss) (simp_all add: List.map_filter_simps map_filter_append)

lemma poll_several:
  assumes "\<forall>b \<in> set bs. log_ready ops vw js b \<and> (\<forall>e \<in> set (replay_log js (vw (fb_db b))). wire_event e)"
    and "CHR ''?'' \<notin> set sp" and "0 < n" and "n \<le> usize_MAX" and "\<not> rp_local rp"
    and "rp_scope rp = ScopeAll" and "rp_selector_base rp = sp @ ''/*''"
  shows "poll_source (multi_env ops js bs show_id parse_time parse_uuid sp) rp n before
    = Ok (sort_key hlc_pos (concat (map (\<lambda>b. take n (pending (replay_log js (vw (fb_db b))) ScopeAll before (rp_cursor rp))) bs)))"
proof -
  let ?params = "poll_params show_id ScopeAll (rp_cursor rp) n before"
  have sel: "selector_parts ((sp @ ''/*'') @ ''?'' @ ?params) = (sp @ ''/*'', ?params)"
    using selector_parts_base[OF assms(2), of ScopeAll ?params] by (simp add: replay_selector_base_def)
  have one: "List.map_filter reply_event (map wire_reply (store_query (fjall_backend ops js) parse_time parse_uuid True ?params b))
      = take n (pending (replay_log js (vw (fb_db b))) ScopeAll before (rp_cursor rp))" if "b \<in> set bs" for b
    using that assms(1) store_answers_poll[OF _ assms(3,4), of ops vw js b show_id parse_uuid ScopeAll parse_time "rp_cursor rp" before]
      map_filter_reply[OF pending_wire] by (simp add: scope_text_ok_def)
  have "List.map_filter reply_event (stores_answer (fjall_backend ops js) parse_time parse_uuid sp bs ((sp @ ''/*'') @ ''?'' @ ?params))
      = concat (map (\<lambda>b. take n (pending (replay_log js (vw (fb_db b))) ScopeAll before (rp_cursor rp))) bs)"
    using one sel by (simp add: stores_answer_def serves_key_def map_filter_concat comp_def cong: map_cong)
  then show ?thesis using assms(5-7) by (simp add: poll_source_def poll_remote_def multi_env_def)
qed


fun poll_n :: "nat \<Rightarrow> 'b replay_env \<Rightarrow> replayer \<Rightarrow> StoredEvent list" where
  "poll_n 0 env rp = []"
| "poll_n (Suc k) env rp = (case poll env rp of (rp1, Ok es) \<Rightarrow> es @ poll_n k env rp1 | (rp1, Err _) \<Rightarrow> [])"

definition wide :: "string \<Rightarrow> replayer \<Rightarrow> bool" where
  "wide sp rp \<longleftrightarrow> \<not> rp_local rp \<and> rp_scope rp = ScopeAll \<and> rp_selector_base rp = sp @ ''/*'' \<and> 0 < rp_batch_size rp \<and> rp_batch_size rp \<le> usize_MAX"

lemma after_batch_frame [simp]: "wide sp (after_batch es rp) = wide sp rp" "rp_end (after_batch es rp) = rp_end rp"
  by (simp_all add: wide_def after_batch_def Let_def)

text \<open>A poll fetches a batch of a positive size, or there is nothing left to poll for.\<close>

lemma poll_cases:
  assumes "poll env rp = (rp1, Ok es)" and "0 < rp_batch_size rp"
  obtains n where "0 < n" and "n \<le> rp_batch_size rp" and "poll_source env rp n (before_of (rp_end rp)) = Ok es" and "rp1 = after_batch es rp"
proof (cases "rp_end rp")
  case (Bounded l)
  let ?n = "min (l - rp_delivered rp) (rp_batch_size rp)"
  have "0 < ?n" "poll_source env rp ?n (before_of (rp_end rp)) = Ok es" "rp1 = after_batch es rp"
    using assms Bounded by (auto simp: poll_def Let_def split: if_splits sum.splits)
  then show thesis using that[of ?n] by simp
qed (use assms that in \<open>auto simp: poll_def Let_def split: if_splits sum.splits\<close>)

lemma cursor_after_batch:
  assumes "es \<noteq> []" and "md_hlc_timestamp (se_metadata (List.last es)) \<noteq> None"
  shows "rp_cursor (after_batch es rp) = hlc_of (List.last es)"
  using assms by (auto simp: after_batch_def Let_def hlc_pos_def)

lemma sorted_last_max: "sorted (map f xs) \<Longrightarrow> x \<in> set xs \<Longrightarrow> f x \<le> f (List.last xs)"
  by (induction xs) auto

lemma passed_never_returned:
  assumes bs: "\<forall>b \<in> set bs. log_ready ops vw js b \<and> (\<forall>e \<in> set (replay_log js (vw (fb_db b))). wire_event e)" and sp: "CHR ''?'' \<notin> set sp"
  shows "wide sp rp \<Longrightarrow> hlc_of e \<le> rp_cursor rp \<Longrightarrow> e \<notin> set (poll_n k (multi_env ops js bs show_id parse_time parse_uuid sp) rp)"
proof (induction k arbitrary: rp)
  case (Suc k)
  let ?env = "multi_env ops js bs show_id parse_time parse_uuid sp"
  show ?case
  proof (cases "poll ?env rp")
    case (Pair rp1 r)
    show ?thesis
    proof (cases r)
      case (Inr es)
      obtain n where n: "0 < n" "n \<le> rp_batch_size rp" "poll_source ?env rp n (before_of (rp_end rp)) = Ok es" "rp1 = after_batch es rp"
        using poll_cases[of ?env rp rp1 es] Pair Inr Suc.prems(1) by (auto simp: wide_def)
      have es: "es = sort_key hlc_pos (concat (map (\<lambda>b. take n (pending (replay_log js (vw (fb_db b))) ScopeAll (before_of (rp_end rp)) (rp_cursor rp))) bs))"
        using poll_several[OF bs sp n(1), of rp show_id parse_time parse_uuid "before_of (rp_end rp)"] Suc.prems(1) n(2,3)
        by (simp add: wide_def)
      have above: "rp_cursor rp < hlc_of x \<and> md_hlc_timestamp (se_metadata x) \<noteq> None" if x: "x \<in> set es" for x
      proof -
        obtain b where "b \<in> set bs" "x \<in> set (take n (pending (replay_log js (vw (fb_db b))) ScopeAll (before_of (rp_end rp)) (rp_cursor rp)))"
          using x by (auto simp: es)
        then have m: "replay_match (scope_filters ScopeAll (rp_cursor rp) 0 (before_of (rp_end rp))) x"
          using in_set_takeD by (fastforce simp: pending_def)
        then show ?thesis using scope_filters_cursor[of ScopeAll "rp_cursor rp" 0 "before_of (rp_end rp)" x]
          by (auto simp: replay_match_def split: option.splits)
      qed
      have "rp_cursor rp \<le> rp_cursor rp1"
      proof (cases "es = []")
        case True
        then show ?thesis using n(4) by (simp add: after_batch_def Let_def)
      next
        case False
        then show ?thesis using cursor_after_batch[of es rp] above[OF last_in_set[OF False]] n(4) by (simp add: less_imp_le)
      qed
      then have "e \<notin> set (poll_n k ?env rp1)" using Suc.IH[of rp1] Suc.prems n(4) by simp
      moreover have "e \<notin> set es" using above Suc.prems(2) by force
      ultimately show ?thesis using Pair Inr by simp
    qed (simp add: Pair)
  qed
qed simp

text \<open>
  A replay of all partitions skips events: every store cuts its own answer to the batch size,
  but the cursor moves to the latest event of the merged answers.  An event that its store cut off
  and that is not later than some event in the batch of another store is returned by no poll of the
  replay, however often it polls.
\<close>

theorem replay_skips_across_stores:
  fixes vw :: "'d \<Rightarrow> view" and js :: json_codec and e' :: StoredEvent
  defines "log \<equiv> \<lambda>b. replay_log js (vw (fb_db b))"
  defines "batch \<equiv> \<lambda>b rp. take (rp_batch_size rp) (pending (log b) ScopeAll (before_of (rp_end rp)) (rp_cursor rp))"
  assumes "\<forall>b \<in> set bs. log_ready ops vw js b \<and> (\<forall>e \<in> set (log b). wire_event e)" and "CHR ''?'' \<notin> set sp"
    and "wide sp rp" and "\<forall>l. rp_end rp = Bounded l \<longrightarrow> rp_batch_size rp \<le> l - rp_delivered rp"
    and "b2 \<in> set bs" and "\<forall>b \<in> set bs. e \<notin> set (batch b rp)" and "e' \<in> set (batch b2 rp)" and "hlc_of e \<le> hlc_of e'"
  shows "e \<notin> set (poll_n k (multi_env ops js bs show_id parse_time parse_uuid sp) rp)"
proof (cases k)
  case (Suc k')
  let ?env = "multi_env ops js bs show_id parse_time parse_uuid sp" and ?before = "before_of (rp_end rp)"
  have bs: "\<forall>b \<in> set bs. log_ready ops vw js b \<and> (\<forall>e \<in> set (replay_log js (vw (fb_db b))). wire_event e)"
    using assms(3) by (simp add: log_def)
  define es where "es = sort_key hlc_pos (concat (map (\<lambda>b. batch b rp) bs))"
  have src: "poll_source ?env rp (rp_batch_size rp) ?before = Ok es"
    using poll_several[OF bs assms(4), of "rp_batch_size rp" rp show_id parse_time parse_uuid ?before] assms(5)
    by (simp add: wide_def es_def batch_def log_def)
  show ?thesis
  proof (cases "rp_exhausted rp")
    case True
    then show ?thesis using Suc by (simp add: poll_def)
  next
    case False
    have po: "poll ?env rp = (after_batch es rp, Ok es)"
      using assms(5,6) src False by (auto simp: poll_def Let_def wide_def min_absorb2 split: ReplayEnd.splits)
    have e': "e' \<in> set es" using assms(7,9) by (auto simp: es_def)
    have srt: "sorted (map hlc_pos es)" by (simp add: es_def)
    have ne: "es \<noteq> []" using e' by auto
    have "hlc_pos e' \<le> hlc_pos (List.last es)" by (rule sorted_last_max[OF srt e'])
    then have "hlc_of e' \<le> hlc_of (List.last es)" using e' by (auto simp: less_eq_prod_def)
    moreover have "md_hlc_timestamp (se_metadata (List.last es)) \<noteq> None"
      using last_in_set[OF ne] in_set_takeD
      by (fastforce simp: es_def batch_def pending_def replay_match_def split: option.splits)
    ultimately have "hlc_of e \<le> rp_cursor (after_batch es rp)" using cursor_after_batch[OF ne] assms(10) by simp
    then have "e \<notin> set (poll_n k' ?env (after_batch es rp))"
      using passed_never_returned[OF bs assms(4), of "after_batch es rp"] assms(5) by simp
    moreover have "e \<notin> set es" using assms(8) by (auto simp: es_def)
    ultimately show ?thesis using Suc po by simp
  qed
qed simp


section \<open>Going live\<close>

text \<open>
  The transition to live events reorders: the events that arrived during the replay wait in the
  overlap buffer, but the call that goes live waits for the live channel, which the flush has just
  emptied.  It returns the next event that arrives, ahead of all the buffered ones.
\<close>

theorem live_event_overtakes:
  assumes "rp_live_rx rp = Some q" and "r # rs = filter (\<lambda>raw. (re_publisher_id raw, re_seq raw) \<notin> rp_seen rp) q"
    and "rp_overlap rp = []" and "\<not> rp_cancelled rp" and "live_raw (rp_scope rp) s = Some raw"
  shows "\<exists>rp1 rp2. go_live rp = (rp1, WaitLive) \<and> rp_overlap rp1 = r # rs
    \<and> recv_resume s rp1 = (rp2, Return (Ok raw)) \<and> rp_overlap rp2 = r # rs"
  using assms by (simp add: go_live_def start_live_subscriber_def flush_overlap_buffer_def live_recv_def recv_resume_def live_sample_def)

text \<open>
  The overlap is deduplicated by publisher and sequence number only, although sequence numbers are
  counted per partition: a live event of one partition is dropped when the replay has returned the
  event of another partition with the same number.
\<close>

theorem overlap_drops_other_partition:
  assumes "rp_buffer rp = stored # rest" and "rp_end rp = ThenLive" and "rp_live_rx rp = Some [raw]" and "rp_overlap rp = []"
    and "re_publisher_id raw = md_publisher_id (se_metadata stored)" and "re_seq raw = md_seq (se_metadata stored)"
  shows "rp_overlap (fst (go_live (fst (recv_turn env rp)))) = [] \<and> rp_live_rx (fst (go_live (fst (recv_turn env rp)))) = Some []"
  using assms
  by (simp add: recv_turn_def Let_def go_live_def start_live_subscriber_def flush_overlap_buffer_def live_recv_def stored_to_raw_def)

section \<open>Replay offsets\<close>

lemma not_contains_short: "length s < length pat \<Longrightarrow> \<not> str_contains pat s"
proof (induction s)
  case (Cons c cs)
  have "\<not> starts_with pat (c # cs)"
    using Cons.prems by (metis length_append not_add_less1 starts_with_iff)
  then show ?case using Cons by (simp add: str_contains_def)
qed (auto simp: str_contains_def)

lemma not_contains_without_head:
  assumes "c \<notin> set pre"
  shows "\<not> str_contains (c # pat) (pre @ butlast (c # pat))"
  using assms
proof (induction pre)
  case Nil
  then show ?case using not_contains_short[of "butlast (c # pat)" "c # pat"] by simp
next
  case (Cons x pre)
  then show ?case by (simp add: str_contains_def)
qed

lemma replay_group_of_key:
  assumes "CHR ''/'' \<notin> set g"
  shows "extract_replay_group_id (replay_offset_key kp g) = Some g"
proof -
  let ?pat = "rev ''/_replay_offsets/''"
  have "\<not> str_contains ?pat (rev g @ butlast ?pat)"
    using not_contains_without_head[of "CHR ''/''" "rev g" "tl ?pat"] assms by simp
  then have "str_find ?pat (rev g @ ?pat @ rev kp) = Some (length g)"
    using str_find_append[of ?pat "rev g" "rev kp"] by simp
  then show ?thesis by (simp add: extract_replay_group_id_def rsplit_once_def replay_offset_key_def)
qed

lemma replay_key_below:
  "below (replay_offset_base kp) (replay_offset_key kp g)" "\<not> below (keyed_offset_base kp) (replay_offset_key kp g)"
  "\<not> below (offset_base kp q) (replay_offset_key kp g)"
  by (simp_all add: below_def starts_with_iff replay_offset_base_def keyed_offset_base_def offset_base_def replay_offset_key_def)

lemma replay_nodes_get:
  assumes "CHR ''?'' \<notin> set (sv_key_prefix sv)" and "CHR ''?'' \<notin> set g" and "CHR ''/'' \<notin> set g"
    and "\<forall>n \<in> set nodes. hm_get (sn_replay_offsets n) g = Some bs"
  shows "nodes_get bo sv (replay_offset_key (sv_key_prefix sv) g) None nodes = (nodes, replicate (length nodes) (Some bs))"
proof -
  have "CHR ''?'' \<notin> set (replay_offset_key (sv_key_prefix sv) g)" using assms(1,2) by (simp add: replay_offset_key_def)
  then have sel: "selector_parts (replay_offset_key (sv_key_prefix sv) g) = (replay_offset_key (sv_key_prefix sv) g, [])"
    by (simp add: selector_parts_def split_once_def find_char_None[THEN iffD2])
  show ?thesis using assms(4)
    by (induction nodes) (simp_all add: node_get_def sel replay_key_below replay_offset_query_def replay_group_of_key[OF assms(3)])
qed

lemma replay_nodes_put:
  assumes "CHR ''/'' \<notin> set g" and "n \<in> set (map (node_put bo sv (replay_offset_key (sv_key_prefix sv) g) bs) nodes)"
  shows "hm_get (sn_replay_offsets n) g = Some bs"
  using assms(2) by (auto simp: node_put_def Let_def replay_key_below replay_offset_put_def replay_group_of_key[OF assms(1)])

lemma fold_merge_replicate:
  "from_slice bs = Ok h \<Longrightarrow> 0 < n \<Longrightarrow> fold (merge_hlc from_slice) (replicate n (Some bs)) r = Some h"
proof (induction n arbitrary: r)
  case (Suc n)
  then show ?case by (cases n) (simp_all add: merge_hlc_def)
qed simp

text \<open>
  A committed replay position is where the next replay of the group starts: after a commit that
  reached at least one running store, a replayer built at the committed offset of the group has the
  cursor that was committed, and seeking to the committed offset sets it.
\<close>

theorem replay_offset_roundtrip:
  assumes "nodes \<noteq> []" and "CHR ''?'' \<notin> set (sv_key_prefix sv)" and "CHR ''?'' \<notin> set g" and "CHR ''/'' \<notin> set g"
    and "\<forall>h bs. to_vec h = Ok bs \<longrightarrow> from_slice bs = Ok h"
    and "rp_key_prefix rp = sv_key_prefix sv" and "replay_commit (store_io bo sv) to_vec rp g nodes = (nodes', Ok ())"
    and "rb_key_prefix rb = sv_key_prefix sv" and "rb_position rb = CommittedOffset g" and "rp_key_prefix rp2 = sv_key_prefix sv"
  shows "(\<exists>rp'. replay_build (store_io bo sv) from_slice rb nodes' = (nodes', Ok rp') \<and> rp_cursor rp' = rp_cursor rp)
    \<and> seek_to_committed (store_io bo sv) from_slice g rp2 nodes' = (nodes', seek (rp_cursor rp) rp2, Ok True)"
proof -
  obtain bs where bs: "to_vec (rp_cursor rp) = Ok bs"
    and n': "nodes' = map (node_put bo sv (replay_offset_key (sv_key_prefix sv) g) bs) nodes"
    using assms(6,7) by (auto simp: replay_commit_def store_io_def split: sum.splits)
  have "\<forall>n \<in> set nodes'. hm_get (sn_replay_offsets n) g = Some bs" using replay_nodes_put[OF assms(4)] n' by blast
  from replay_nodes_get[OF assms(2-4) this]
  have "fetch_replay_offset (store_io bo sv) from_slice (sv_key_prefix sv) g nodes' = (nodes', Ok (Some (rp_cursor rp)))"
    using fold_merge_replicate[of from_slice bs "rp_cursor rp" "length nodes'"] assms(1,5) bs n'
    by (simp add: fetch_replay_offset_def store_io_def)
  then show ?thesis using assms(8-10) by (simp add: replay_build_def start_cursor_def seek_to_committed_def)
qed


section \<open>Concrete logs\<close>

definition mem_log :: "mem_db FjallBackend \<Rightarrow> StoredEvent set \<Rightarrow> bool" where
  "mem_log b E \<longleftrightarrow> \<not> mem_failing (fb_db b) \<and> backend_inv mem_view b \<and> events_ok unary_json (mem_view (fb_db b))
     \<and> replay_ok unary_json (mem_view (fb_db b)) \<and> stored_events unary_json (mem_view (fb_db b)) = E"

lemma mem_log_empty: "mem_log (backend_empty mem_empty q) {}"
  using mem_events_ok mem_backend_inv[of q]
  by (simp add: mem_log_def backend_empty_def replay_ok_def) (simp add: mem_view_def mem_empty_def)

lemma mem_log_store:
  assumes "mem_log b E" and "fits unary_json md" and "\<forall>e \<in> E. event_pos e \<noteq> (md_publisher_id md, md_seq md)"
  shows "mem_log (fst (store mem_ops unary_json key pl md b)) (insert (stored_event md pl) E)"
proof -
  let ?b' = "fst (store mem_ops unary_json key pl md b)"
  have a: "\<not> mem_failing (fb_db b)" "backend_inv mem_view b" "events_ok unary_json (mem_view (fb_db b))"
    "replay_ok unary_json (mem_view (fb_db b))" "stored_events unary_json (mem_view (fb_db b)) = E"
    using assms(1) by (simp_all add: mem_log_def)
  have st: "store mem_ops unary_json key pl md b = (?b', Ok ())" and nf: "\<not> mem_failing (fb_db ?b')"
    using a(1) by (simp_all add: store_def mem_ops_def Let_def store_err_def)
  have none: "mem_view (fb_db b) Events (encode_event_key (md_publisher_id md) (md_seq md)) = None"
  proof (rule ccontr)
    assume "mem_view (fb_db b) Events (encode_event_key (md_publisher_id md) (md_seq md)) \<noteq> None"
    then obtain v m p where v: "mem_view (fb_db b) Events (encode_event_key (md_publisher_id md) (md_seq md)) = Some v"
      "decode_event_value unary_json v = Ok (m, p)" using a(3) by (fastforce simp: events_ok_def)
    then have "stored_event m p \<in> E" using a(5) by (auto simp: stored_events_def)
    moreover have "event_pos (stored_event m p) = (md_publisher_id md, md_seq md)"
      using stored_events_pos[OF a(3) v] by (simp add: event_pos_def stored_event_def)
    ultimately show False using assms(3) by blast
  qed
  have I: "backend_inv mem_view ?b'" "mem_view (fb_db ?b') Events = put_event unary_json (key, pl, md) (mem_view (fb_db b) Events)"
    using store_inv[OF mem_fjall_ok a(2) st] by blast+
  have R: "replay_ok unary_json (mem_view (fb_db ?b'))"
    using store_replay_ok[OF mem_fjall_ok unary_json_ok assms(2) a(3,4) st] none by simp
  show ?thesis
    using put_event_events[OF unary_json_ok assms(2) a(3), where w' = "mem_view (fb_db ?b')", OF I(2)] I(1) R nf a(5) assms(3)
    by (auto simp: mem_log_def)
qed

lemma mem_replay_answers:
  assumes "replay_ok unary_json (mem_view (fb_db b))"
  shows "\<exists>rs. query_replay mem_ops unary_json f b = Ok rs"
proof -
  let ?w = "mem_view (fb_db b)" and ?es = "mem_entries (fb_db b) Replay"
  have fin: "finite (dom (?w Replay))" using fjall_finite[OF mem_fjall_ok] .
  have ok: "\<exists>y. replay_step mem_ops unary_json (fb_db b) f x = Ok y" if m: "x \<in> set ?es" for x
  proof -
    obtain rk ek where x: "x = (rk, ek)" by (cases x)
    then have "?w Replay rk = Some ek" using m entries_mem[OF fin] by (simp add: mem_entries)
    then obtain v md pl where "?w Events ek = Some v" "decode_event_value unary_json v = Ok (md, pl)"
      using assms by (fastforce simp: replay_ok_def)
    then show ?thesis
      by (cases "decode_replay_key rk") (auto simp: replay_step_def x mem_ops_def mem_view_def store_err_def)
  qed
  have cut: "cut_scan P (map Inr es) = map Inr (takeWhile (\<lambda>x. \<not> P x) es)" for P :: "bytes \<times> bytes \<Rightarrow> bool" and es
    by (induction es) simp_all
  have it: "kv_iter mem_ops (fb_db b) Replay = map Inr ?es" by (simp add: mem_ops_def)
  have "\<forall>x \<in> set (takeWhile (\<lambda>x. \<not> replay_stops f x) ?es). \<exists>y. replay_step mem_ops unary_json (fb_db b) f x = Ok y"
    using ok set_takeWhileD by metis
  from scan_loop_total[OF this] show ?thesis
    unfolding query_replay_def replay_loop_scan it cut .
qed

lemma mem_log_ready:
  assumes "mem_log b E" and "inj_on hlc_of E" and "\<forall>e \<in> E. wire_event e"
  shows "log_ready mem_ops mem_view unary_json b \<and> (\<forall>e \<in> set (replay_log unary_json (mem_view (fb_db b))). wire_event e)"
    and "inj_on hlc_of (set (replay_log unary_json (mem_view (fb_db b))))"
proof -
  have a: "events_ok unary_json (mem_view (fb_db b))" "replay_ok unary_json (mem_view (fb_db b))" "stored_events unary_json (mem_view (fb_db b)) = E"
    using assms(1) by (simp_all add: mem_log_def)
  have set: "set (replay_log unary_json (mem_view (fb_db b))) \<subseteq> E"
    using replay_list_set[OF a(2,1) fjall_finite[OF mem_fjall_ok]] a(3) by (auto simp: replay_log_def)
  then show i: "inj_on hlc_of (set (replay_log unary_json (mem_view (fb_db b))))" using assms(2) inj_on_subset by blast
  show "log_ready mem_ops mem_view unary_json b \<and> (\<forall>e \<in> set (replay_log unary_json (mem_view (fb_db b))). wire_event e)"
    using set assms(3) a mem_replay_answers[OF a(2)] log_sorted_if_distinct[OF mem_fjall_ok a(2) i] mem_fjall_ok
    by (auto simp: log_ready_def)
qed

definition at_hlc :: "PublisherId \<Rightarrow> u64 \<Rightarrow> u64 \<Rightarrow> EventMetadata" where
  "at_hlc p s h = (demo_md p s)\<lparr>md_hlc_timestamp := Some (Hlc h 0)\<rparr>"

lemma at_hlc_facts [simp]:
  "wire_event (stored_event (at_hlc p s h) pl)" "hlc_of (stored_event (at_hlc p s h) pl) = Hlc h 0"
  "event_pos (stored_event (at_hlc p s h) pl) = (p, s)" "md_publisher_id (at_hlc p s h) = p" "md_seq (at_hlc p s h) = s"
  by (simp_all add: at_hlc_def demo_md_def stored_event_def wire_event_def Let_def hlc_pos_def event_pos_def extract_key_def nanos_or_def
      timestamp_nanos_opt_def)

lemma fits_at_hlc: "fits unary_json (at_hlc 1 0 1)" "fits unary_json (at_hlc 1 1 2)" "fits unary_json (at_hlc 2 0 5)"
  by (simp_all add: fits_def unary_json_def unary_enc_def at_hlc_def demo_md_def put_str_def as_bytes_def put_int_def)

definition demo_b1 :: "mem_db FjallBackend" where
  "demo_b1 = fst (store mem_ops unary_json ''a'' [] (at_hlc 1 1 2)
     (fst (store mem_ops unary_json ''a'' [] (at_hlc 1 0 1) (backend_empty mem_empty 0))))"

definition demo_b2 :: "mem_db FjallBackend" where
  "demo_b2 = fst (store mem_ops unary_json ''a'' [] (at_hlc 2 0 5) (backend_empty mem_empty 1))"

lemma demo_logs:
  "mem_log demo_b1 {stored_event (at_hlc 1 1 2) [], stored_event (at_hlc 1 0 1) []}"
  "mem_log demo_b2 {stored_event (at_hlc 2 0 5) []}"
  using mem_log_store[OF mem_log_store[OF mem_log_empty fits_at_hlc(1)] fits_at_hlc(2)]
    mem_log_store[OF mem_log_empty fits_at_hlc(3)]
  by (simp_all add: demo_b1_def demo_b2_def)

lemma demo_logs_ready:
  "log_ready mem_ops mem_view unary_json demo_b1 \<and> (\<forall>e \<in> set (replay_log unary_json (mem_view (fb_db demo_b1))). wire_event e)"
  "log_ready mem_ops mem_view unary_json demo_b2 \<and> (\<forall>e \<in> set (replay_log unary_json (mem_view (fb_db demo_b2))). wire_event e)"
  using mem_log_ready(1)[OF demo_logs(1)] mem_log_ready(1)[OF demo_logs(2)] by (simp_all add: inj_on_def)

definition unary_hlc :: "HlcTimestamp \<Rightarrow> bytes result" where
  "unary_hlc h = Ok (put_nat (unat (physical_ns h)) @ put_nat (unat (logical h)))"

definition read_hlc :: "bytes \<Rightarrow> HlcTimestamp result" where
  "read_hlc bs = (case get_nat bs of (p, rest) \<Rightarrow> case get_nat rest of (l, _) \<Rightarrow> Ok (Hlc (word_of_nat p) (word_of_nat l)))"

lemma read_unary_hlc: "unary_hlc h = Ok bs \<Longrightarrow> read_hlc bs = Ok h"
  using get_put_nat[of "unat (logical h)" "[]"] by (cases h) (auto simp: unary_hlc_def read_hlc_def)

definition replay_sv :: store_env where
  "replay_sv = \<lparr>sv_key_prefix = ''t'', sv_offset_codec = \<lparr>cc_to_vec = \<lambda>_. Err ChannelClosed, cc_from_slice = \<lambda>_. Err ChannelClosed\<rparr>,
     sv_keyed_codec = \<lparr>cc_to_vec = \<lambda>_. Err ChannelClosed, cc_from_slice = \<lambda>_. Err ChannelClosed\<rparr>,
     sv_hlc_to_vec = \<lambda>_. Ok [], sv_display = \<lambda>_. [], sv_now = 0\<rparr>"

abbreviation demo_io :: "mem_db FjallBackend store_node list session_io" where
  "demo_io \<equiv> store_io (fjall_backend mem_ops unary_json) replay_sv"

abbreviation demo_rb :: "replay_builder" where
  "demo_rb \<equiv> rb_set_batch_size 1 (replay_builder_new ''t'' ''s'')"

definition demo_rp :: replayer where
  "demo_rp = \<lparr>rp_key_prefix = ''t'', rp_scope = ScopeAll, rp_end = Bounded usize_MAX, rp_cursor = hlc_default, rp_batch_size = 1,
     rp_selector_base = ''s/*'', rp_buffer = [], rp_delivered = 0, rp_exhausted = False, rp_cancelled = False, rp_local = False,
     rp_live_rx = None, rp_overlap = [], rp_seen = {}, rp_live_active = False\<rparr>"

lemma demo_build: "replay_build demo_io read_hlc demo_rb st = (st, Ok demo_rp)"
  by (simp add: replay_build_def rb_set_batch_size_def replay_builder_new_def start_cursor_def demo_rp_def replay_selector_base_def
      replay_end_default_def)

lemma demo_rb_facts: "CHR ''?'' \<notin> set (rb_store_prefix demo_rb)" "scope_text_ok (\<lambda>_. ''p'') (\<lambda>_. None) (rb_scope demo_rb)"
  "\<forall>q. rb_scope demo_rb = ScopePartition q \<longrightarrow> q = fb_partition demo_b1" "finite_end (rb_end demo_rb)" "0 < rb_batch_size demo_rb"
  "rb_batch_size demo_rb \<le> usize_MAX" "\<not> rb_local demo_rb"
  by (simp_all add: rb_set_batch_size_def replay_builder_new_def scope_text_ok_def finite_end_def replay_end_default_def usize_MAX_def)

lemma demo_inj: "inj_on hlc_of (set (replay_log unary_json (mem_view (fb_db demo_b1))))"
  using mem_log_ready(2)[OF demo_logs(1)] by (simp add: inj_on_def)

theorem replay_complete_witness:
  "\<exists>xs. set xs = {e \<in> stored_events unary_json (mem_view (fb_db demo_b1)).
        replay_match (scope_filters (rb_scope demo_rb) (rp_cursor demo_rp) 0 (before_of (rb_end demo_rb))) e}
      \<and> hlc_sorted xs
      \<and> (\<forall>n > length xs. recv_all n (remote_env (mem_ops, mem_view, unary_json, demo_b1, \<lambda>_. ''p'', \<lambda>_. None, \<lambda>_. None, rb_store_prefix demo_rb)) demo_rp
           = (map stored_to_raw (case rb_end demo_rb of Bounded l \<Rightarrow> take l xs | _ \<Rightarrow> xs), Some EndOfReplay))"
proof -
  have r: "events_ok unary_json (mem_view (fb_db demo_b1))" "replay_ok unary_json (mem_view (fb_db demo_b1))"
    "\<forall>f. \<exists>rs. query_replay mem_ops unary_json f demo_b1 = Ok rs" "\<forall>e \<in> set (replay_log unary_json (mem_view (fb_db demo_b1))). wire_event e"
    using demo_logs_ready(1) by (simp_all add: log_ready_def)
  show ?thesis
    by (rule replay_complete[OF mem_fjall_ok r(1,2,3) demo_inj r(4) demo_rb_facts demo_build[of "[]"]])
qed

lemma demo_batches:
  "set (take 1 (pending (replay_log unary_json (mem_view (fb_db demo_b1))) ScopeAll None hlc_default)) = {stored_event (at_hlc 1 0 1) []}"
  "set (take 1 (pending (replay_log unary_json (mem_view (fb_db demo_b2))) ScopeAll None hlc_default)) = {stored_event (at_hlc 2 0 5) []}"
proof -
  let ?f = "scope_filters ScopeAll hlc_default 1 None"
  have q: "query_replay mem_ops unary_json ?f demo_b1 = Ok [stored_event (at_hlc 1 0 1) []]"
    "query_replay mem_ops unary_json ?f demo_b2 = Ok [stored_event (at_hlc 2 0 5) []]"
    by code_simp+
  show "set (take 1 (pending (replay_log unary_json (mem_view (fb_db demo_b1))) ScopeAll None hlc_default)) = {stored_event (at_hlc 1 0 1) []}"
    using log_query[of mem_ops mem_view unary_json demo_b1 1 ScopeAll hlc_default None] q(1) demo_logs_ready(1) by simp
  show "set (take 1 (pending (replay_log unary_json (mem_view (fb_db demo_b2))) ScopeAll None hlc_default)) = {stored_event (at_hlc 2 0 5) []}"
    using log_query[of mem_ops mem_view unary_json demo_b2 1 ScopeAll hlc_default None] q(2) demo_logs_ready(2) by simp
qed

theorem replay_skips_across_stores_witness:
  "stored_event (at_hlc 1 1 2) [] \<in> stored_events unary_json (mem_view (fb_db demo_b1))
   \<and> stored_event (at_hlc 1 1 2) [] \<notin> set (poll_n 7 (multi_env mem_ops unary_json [demo_b1, demo_b2] (\<lambda>_. ''p'') (\<lambda>_. None) (\<lambda>_. None) ''s'') demo_rp)"
proof
  show "stored_event (at_hlc 1 1 2) [] \<in> stored_events unary_json (mem_view (fb_db demo_b1))" using demo_logs(1) by (simp add: mem_log_def)
  have d: "stored_event (at_hlc 1 1 2) [] \<noteq> stored_event (at_hlc p s h) []" if "s \<noteq> 1 \<or> h \<noteq> 2" for p s h
    using that by (metis at_hlc_facts(2,3) HlcTimestamp.inject prod.inject)
  have f: "rp_batch_size demo_rp = 1" "rp_end demo_rp = Bounded usize_MAX" "rp_cursor demo_rp = hlc_default" "rp_delivered demo_rp = 0"
    "wide ''s'' demo_rp" by (simp_all add: demo_rp_def wide_def usize_MAX_def)
  show "stored_event (at_hlc 1 1 2) [] \<notin> set (poll_n 7 (multi_env mem_ops unary_json [demo_b1, demo_b2] (\<lambda>_. ''p'') (\<lambda>_. None) (\<lambda>_. None) ''s'') demo_rp)"
    by (rule replay_skips_across_stores[where ?b2.0 = demo_b2 and e' = "stored_event (at_hlc 2 0 5) []" and vw = mem_view])
      (use demo_logs_ready demo_batches f d in \<open>auto simp: before_of_def usize_MAX_def less_eq_HlcTimestamp_def\<close>)
qed

theorem replay_offset_roundtrip_witness:
  "(\<exists>rp'. replay_build demo_io read_hlc (demo_rb\<lparr>rb_position := CommittedOffset ''g''\<rparr>)
        (fst (replay_commit demo_io unary_hlc (seek (Hlc 3 1) demo_rp) ''g'' [\<lparr>sn_backend = demo_b1, sn_replay_offsets = []\<rparr>]))
      = (fst (replay_commit demo_io unary_hlc (seek (Hlc 3 1) demo_rp) ''g'' [\<lparr>sn_backend = demo_b1, sn_replay_offsets = []\<rparr>]), Ok rp')
      \<and> rp_cursor rp' = Hlc 3 1)"
proof -
  let ?n = "[\<lparr>sn_backend = demo_b1, sn_replay_offsets = []\<rparr>]" and ?rb = "demo_rb\<lparr>rb_position := CommittedOffset ''g''\<rparr>"
  let ?c = "replay_commit demo_io unary_hlc (seek (Hlc 3 1) demo_rp) ''g'' ?n"
  have c: "?c = (fst ?c, Ok ())" by (simp add: replay_commit_def unary_hlc_def store_io_def)
  have k: "rp_key_prefix (seek (Hlc 3 1) demo_rp) = sv_key_prefix replay_sv" "rb_key_prefix ?rb = sv_key_prefix replay_sv"
    "rb_position ?rb = CommittedOffset ''g''" "rp_key_prefix demo_rp = sv_key_prefix replay_sv" "rp_cursor (seek (Hlc 3 1) demo_rp) = Hlc 3 1"
    "CHR ''?'' \<notin> set (sv_key_prefix replay_sv)"
    by (simp_all add: seek_def demo_rp_def replay_sv_def rb_set_batch_size_def replay_builder_new_def)
  have "\<forall>h bs. unary_hlc h = Ok bs \<longrightarrow> read_hlc bs = Ok h" using read_unary_hlc by blast
  from replay_offset_roundtrip[OF _ k(6) _ _ this k(1) c k(2,3,4)] show ?thesis using k(5) by simp
qed

end
