(* ===== verification/Keyed_Consumer.thy ===== *)
theory Keyed_Consumer
  imports Replay Consumer_Group
begin

text \<open>
  The key-scoped consumer (\<^verbatim>\<open>mitiflow/src/subscriber/keyed_consumer.rs\<close>): the builder,
  polling the stores with a key filter and an HLC cursor, seeking, and the offsets that a group keeps
  for a key filter.  Committed offsets travel through the sessions of \<^verbatim>\<open>Session_Io\<close>; the
  answers of the stores to a poll are a function of the selector.
\<close>

section \<open>State\<close>

record keyed_consumer =
  ky_key_prefix :: string
  ky_filter :: KeyFilter
  ky_cursor :: HlcTimestamp
  ky_batch_size :: nat
  ky_selector_base :: string

record keyed_builder =
  kb_key_prefix :: string
  kb_store_prefix :: string
  kb_filter :: "KeyFilter option"
  kb_partition :: "u32 option"
  kb_batch_size :: nat

definition keyed_builder_new :: "string \<Rightarrow> string \<Rightarrow> keyed_builder" where
  "keyed_builder_new key_prefix store_prefix = \<lparr>kb_key_prefix = key_prefix, kb_store_prefix = store_prefix, kb_filter = None,
     kb_partition = None, kb_batch_size = 500\<rparr>"

definition keyed_build :: "keyed_builder \<Rightarrow> keyed_consumer result" where
  "keyed_build kb =
     (case kb_filter kb of
        None \<Rightarrow> Err (InvalidConfig ''KeyedConsumer requires key() or key_prefix()'')
      | Some f \<Rightarrow> Ok \<lparr>ky_key_prefix = kb_key_prefix kb, ky_filter = f, ky_cursor = hlc_default, ky_batch_size = kb_batch_size kb,
          ky_selector_base = (case kb_partition kb of
              Some p \<Rightarrow> kb_store_prefix kb @ ''/'' @ show_word p
            | None \<Rightarrow> kb_store_prefix kb @ ''/*'')\<rparr>)"

section \<open>Polling\<close>

definition to_selector_param :: "KeyFilter \<Rightarrow> string" where
  "to_selector_param f = (case f of Exact k \<Rightarrow> ''key='' @ k | Prefix p \<Rightarrow> ''key_prefix='' @ p)"

definition keyed_selector :: "keyed_consumer \<Rightarrow> string" where
  "keyed_selector kc = ky_selector_base kc @ ''?'' @ to_selector_param (ky_filter kc) @ ''&after_hlc='' @ show_word (physical_ns (ky_cursor kc))
     @ '':'' @ show_word (logical (ky_cursor kc)) @ ''&limit='' @ show_nat (ky_batch_size kc)"

definition keyed_order :: "StoredEvent \<Rightarrow> HlcTimestamp \<times> u64" where
  "keyed_order e = (case md_hlc_timestamp (se_metadata e) of Some h \<Rightarrow> h | None \<Rightarrow> hlc_default, md_seq (se_metadata e))"

definition keyed_poll :: "(string \<Rightarrow> query_reply list result) \<Rightarrow> keyed_consumer \<Rightarrow> keyed_consumer \<times> StoredEvent list result" where
  "keyed_poll get kc =
     (case get (keyed_selector kc) of
        Err e \<Rightarrow> (kc, Err e)
      | Ok replies \<Rightarrow>
          (let events = sort_key keyed_order (List.map_filter reply_event replies) in
           (if events = [] then kc
            else case md_hlc_timestamp (se_metadata (List.last events)) of
                   Some hlc \<Rightarrow> kc\<lparr>ky_cursor := hlc\<rparr>
                 | None \<Rightarrow> kc,
            Ok events)))"

definition keyed_seek :: "HlcTimestamp \<Rightarrow> keyed_consumer \<Rightarrow> keyed_consumer" where
  "keyed_seek hlc kc = kc\<lparr>ky_cursor := hlc\<rparr>"

section \<open>Offsets\<close>

definition keyed_offset_path :: "keyed_consumer \<Rightarrow> string \<Rightarrow> string" where
  "keyed_offset_path kc group_id = ky_key_prefix kc @ ''/_offsets/key/'' @ group_id @ ''/'' @ show_word (key_filter_hash (ky_filter kc))"

definition keyed_commit_of :: "DateTime \<Rightarrow> keyed_consumer \<Rightarrow> string \<Rightarrow> KeyedOffsetCommit" where
  "keyed_commit_of now kc group_id = \<lparr>kc_group_id = group_id, kc_member_id = [], kc_key_filter = ky_filter kc, kc_last_hlc = ky_cursor kc,
     kc_generation = 0, kc_timestamp = now\<rparr>"

definition keyed_commit ::
  "'s session_io \<Rightarrow> KeyedOffsetCommit commit_codec \<Rightarrow> DateTime \<Rightarrow> keyed_consumer \<Rightarrow> string \<Rightarrow> 's \<Rightarrow> 's \<times> unit result"
where
  "keyed_commit io codec now kc group_id st =
     (case cc_to_vec codec (keyed_commit_of now kc group_id) of
        Err e \<Rightarrow> (st, Err e)
      | Ok payload \<Rightarrow> io_put io (keyed_offset_path kc group_id) payload st)"

definition keyed_fetch_selector :: "keyed_consumer \<Rightarrow> string \<Rightarrow> string" where
  "keyed_fetch_selector kc group_id = keyed_offset_path kc group_id @ ''?fetch=true&group_id='' @ group_id
     @ ''&key_filter_hash='' @ show_word (key_filter_hash (ky_filter kc))"

definition merge_keyed :: "(bytes \<Rightarrow> HlcTimestamp option result) \<Rightarrow> bytes option \<Rightarrow> HlcTimestamp option \<Rightarrow> HlcTimestamp option" where
  "merge_keyed from_slice reply r =
     (case reply of Some bs \<Rightarrow> (case from_slice bs of Ok (Some hlc) \<Rightarrow> Some hlc | _ \<Rightarrow> r) | None \<Rightarrow> r)"

definition keyed_fetch_offset ::
  "'s session_io \<Rightarrow> (bytes \<Rightarrow> HlcTimestamp option result) \<Rightarrow> keyed_consumer \<Rightarrow> string \<Rightarrow> 's \<Rightarrow> 's \<times> HlcTimestamp option result"
where
  "keyed_fetch_offset io from_slice kc group_id st =
     (case io_get io (keyed_fetch_selector kc group_id) None st of
        (st', Err e) \<Rightarrow> (st', Err e)
      | (st', Ok replies) \<Rightarrow> (st', Ok (fold (merge_keyed from_slice) replies None)))"

section \<open>The filters a store reads\<close>

definition filter_scope :: "KeyFilter \<Rightarrow> ReplayScope" where
  "filter_scope f = (case f of Exact k \<Rightarrow> ScopeKey k | Prefix p \<Rightarrow> ScopeKeyPrefix p)"

definition filter_text :: "KeyFilter \<Rightarrow> string" where
  "filter_text f = (case f of Exact k \<Rightarrow> k | Prefix p \<Rightarrow> p)"

definition keyed_pairs :: "keyed_consumer \<Rightarrow> (string \<times> string) list" where
  "keyed_pairs kc = [(case ky_filter kc of Exact _ \<Rightarrow> ''key'' | Prefix _ \<Rightarrow> ''key_prefix'', filter_text (ky_filter kc)),
     (''after_hlc'', hlc_text (ky_cursor kc)), (''limit'', show_nat (ky_batch_size kc))]"

lemma keyed_selector_pairs:
  "keyed_selector kc = ky_selector_base kc @ ''?'' @ join_params (CHR ''&'') (map param_text (keyed_pairs kc))"
  by (cases "ky_filter kc") (simp_all add: keyed_selector_def keyed_pairs_def to_selector_param_def param_text_def hlc_text_def filter_text_def)

lemma keyed_filters:
  assumes "plain (filter_text (ky_filter kc))" and "ky_batch_size kc \<le> usize_MAX"
  shows "rf_from_selector parse_uuid (join_params (CHR ''&'') (map param_text (keyed_pairs kc)))
    = Ok (scope_filters (filter_scope (ky_filter kc)) (ky_cursor kc) (ky_batch_size kc) None)"
proof -
  have ok: "\<forall>kv \<in> set (keyed_pairs kc). param_ok kv"
    using assms(1) by (cases "ky_filter kc") (simp_all add: keyed_pairs_def param_ok_def plain_names replay_plain_names filter_text_def)
  have "parse_usize (show_nat (ky_batch_size kc)) = Some (ky_batch_size kc)" using assms(2) by (simp add: parse_usize_def usize_MAX_def)
  then have "params_fold (rf_param parse_uuid) (keyed_pairs kc) rf_default
      = Ok (scope_filters (filter_scope (ky_filter kc)) (ky_cursor kc) (ky_batch_size kc) None)"
    by (cases "ky_filter kc") (simp_all add: keyed_pairs_def rf_param_def config_err_def scope_filters_def filter_scope_def rf_default_def filter_text_def)
  then show ?thesis
    using parse_selector[OF _ ok, of "CHR ''&''" "rf_param parse_uuid" rf_default] by (simp add: rf_from_selector_def is_sep_def keyed_pairs_def)
qed

lemma keyed_store_query:
  assumes "plain (filter_text (ky_filter kc))" and "ky_batch_size kc \<le> usize_MAX"
  shows "store_query (fjall_backend ops js) parse_time parse_uuid True (join_params (CHR ''&'') (map param_text (keyed_pairs kc))) b
    = (case query_replay ops js (scope_filters (filter_scope (ky_filter kc)) (ky_cursor kc) (ky_batch_size kc) None) b of
         Err _ \<Rightarrow> [] | Ok es \<Rightarrow> map event_reply es)"
proof -
  let ?p = "join_params (CHR ''&'') (map param_text (keyed_pairs kc))"
  have "str_contains ''key='' ?p \<or> str_contains ''key_prefix='' ?p"
    using str_contains_prefix[of "''key=''"] str_contains_prefix[of "''key_prefix=''"]
    by (cases "ky_filter kc") (simp_all add: keyed_pairs_def param_text_def)
  then show ?thesis
    by (elim disjE) (simp_all add: keyed_filters[OF assms] store_query_def handle_query_replay_def ask_def fjall_backend_def split: sum.split)
qed

section \<open>Polls of running stores\<close>

definition keyed_get ::
  "'d fjall_ops \<Rightarrow> json_codec \<Rightarrow> (string \<Rightarrow> DateTime option) \<Rightarrow> (string \<Rightarrow> u128 option) \<Rightarrow> string \<Rightarrow> 'd FjallBackend list
    \<Rightarrow> string \<Rightarrow> query_reply list result"
where
  "keyed_get ops js parse_time parse_uuid sp bs selector = Ok (stores_answer (fjall_backend ops js) parse_time parse_uuid sp bs selector)"

fun keyed_poll_n :: "nat \<Rightarrow> (string \<Rightarrow> query_reply list result) \<Rightarrow> keyed_consumer \<Rightarrow> StoredEvent list" where
  "keyed_poll_n 0 get kc = []"
| "keyed_poll_n (Suc k) get kc = (case keyed_poll get kc of (kc1, Ok es) \<Rightarrow> es @ keyed_poll_n k get kc1 | (kc1, Err _) \<Rightarrow> [])"

definition key_matches :: "KeyFilter \<Rightarrow> StoredEvent \<Rightarrow> bool" where
  "key_matches f e = (case (f, md_key (se_metadata e)) of
      (Exact k, Some k') \<Rightarrow> k' = k | (Prefix p, Some k') \<Rightarrow> starts_with p k' | (_, None) \<Rightarrow> False)"

text \<open>The stores a consumer asks, and the requirements on it for its selector to be read back.\<close>

definition stores_sound :: "'d fjall_ops \<Rightarrow> ('d \<Rightarrow> view) \<Rightarrow> json_codec \<Rightarrow> 'd FjallBackend list \<Rightarrow> bool" where
  "stores_sound ops vw js bs \<longleftrightarrow> fjall_ok ops vw
     \<and> (\<forall>b \<in> set bs. replay_ok js (vw (fb_db b)) \<and> (\<forall>e \<in> set (replay_log js (vw (fb_db b))). wire_event e))"

definition keyed_ok :: "keyed_consumer \<Rightarrow> bool" where
  "keyed_ok kc \<longleftrightarrow> plain (filter_text (ky_filter kc)) \<and> ky_batch_size kc \<le> usize_MAX \<and> CHR ''?'' \<notin> set (ky_selector_base kc)"

lemma keyed_match:
  "replay_match (scope_filters (filter_scope f) c n None) e \<longleftrightarrow> has_hlc e \<and> c < hlc_of e \<and> key_matches f e"
  by (cases f)
    (auto simp: replay_match_def scope_filters_def filter_scope_def rf_default_def matches_publisher_def matches_key_def key_matches_def
      has_hlc_def hlc_pos_def split: option.splits)

definition store_page :: "'d fjall_ops \<Rightarrow> json_codec \<Rightarrow> keyed_consumer \<Rightarrow> 'd FjallBackend \<Rightarrow> StoredEvent list" where
  "store_page ops js kc b =
     (case query_replay ops js (scope_filters (filter_scope (ky_filter kc)) (ky_cursor kc) (ky_batch_size kc) None) b of
        Err _ \<Rightarrow> [] | Ok es \<Rightarrow> es)"

lemma store_page_mem:
  assumes "stores_sound ops vw js bs" and "b \<in> set bs" and "e \<in> set (store_page ops js kc b)"
  shows "wire_event e" and "has_hlc e" and "ky_cursor kc < hlc_of e"
proof -
  let ?f = "scope_filters (filter_scope (ky_filter kc)) (ky_cursor kc) (ky_batch_size kc) None"
  obtain rs where rs: "query_replay ops js ?f b = Ok rs" "e \<in> set rs"
    using assms(3) by (cases "query_replay ops js ?f b") (simp_all add: store_page_def)
  have "set rs \<subseteq> set (filter (replay_match ?f) (replay_list js (vw (fb_db b))))"
    using replay_result[OF _ _ rs(1), of vw] assms(1,2) set_take_subset
    by (fastforce simp: stores_sound_def upto_def room_def split: option.splits)
  then have "e \<in> set (replay_log js (vw (fb_db b)))" "replay_match ?f e" using rs(2) by (auto simp: replay_log_def)
  then show "wire_event e" "has_hlc e" "ky_cursor kc < hlc_of e" using assms(1,2) by (auto simp: stores_sound_def keyed_match)
qed

lemma keyed_replies:
  assumes "stores_sound ops vw js bs" and "keyed_ok kc"
  shows "List.map_filter reply_event (stores_answer (fjall_backend ops js) parse_time parse_uuid sp bs (keyed_selector kc))
    = concat (map (\<lambda>b. if serves_key sp (fb_partition b) (ky_selector_base kc) then store_page ops js kc b else []) bs)"
proof -
  have sel: "selector_parts (keyed_selector kc) = (ky_selector_base kc, join_params (CHR ''&'') (map param_text (keyed_pairs kc)))"
    using assms(2) split_once_append[of "CHR ''?''" "ky_selector_base kc"] by (simp add: selector_parts_def keyed_selector_pairs keyed_ok_def)
  have page: "store_query (fjall_backend ops js) parse_time parse_uuid True (join_params (CHR ''&'') (map param_text (keyed_pairs kc))) b
      = map event_reply (store_page ops js kc b)" for b
    using assms(2) by (subst keyed_store_query) (auto simp: keyed_ok_def store_page_def split: sum.split)
  have bp: "bo_partition (fjall_backend ops js) = fb_partition" by (simp add: fjall_backend_def)
  have "List.map_filter reply_event (map wire_reply (map event_reply (store_page ops js kc b))) = store_page ops js kc b" if "b \<in> set bs" for b
    by (rule map_filter_reply) (use store_page_mem(1)[OF assms(1) that] in blast)
  then show ?thesis
    by (auto simp: stores_answer_def sel page bp map_filter_concat List.map_filter_simps intro!: arg_cong[of _ _ concat])
qed

text \<open>One poll: a sorted batch of events above the cursor, which then stands at the last of them.\<close>

lemma keyed_poll_result:
  assumes "stores_sound ops vw js bs" and "keyed_ok kc"
  obtains es where "keyed_poll (keyed_get ops js parse_time parse_uuid sp bs) kc = (kc\<lparr>ky_cursor := if es = [] then ky_cursor kc else hlc_of (List.last es)\<rparr>, Ok es)"
    and "es = sort_key keyed_order (concat (map (\<lambda>b. if serves_key sp (fb_partition b) (ky_selector_base kc) then store_page ops js kc b else []) bs))"
    and "\<forall>e \<in> set es. has_hlc e \<and> ky_cursor kc < hlc_of e"
proof -
  let ?es = "sort_key keyed_order (concat (map (\<lambda>b. if serves_key sp (fb_partition b) (ky_selector_base kc) then store_page ops js kc b else []) bs))"
  have m: "\<forall>e \<in> set ?es. has_hlc e \<and> ky_cursor kc < hlc_of e" using store_page_mem(2,3)[OF assms(1)] by auto
  have "keyed_poll (keyed_get ops js parse_time parse_uuid sp bs) kc = (kc\<lparr>ky_cursor := if ?es = [] then ky_cursor kc else hlc_of (List.last ?es)\<rparr>, Ok ?es)"
  proof (cases "?es = []")
    case True
    then show ?thesis using keyed_replies[OF assms] by (simp add: keyed_poll_def keyed_get_def)
  next
    case False
    then have "List.last ?es \<in> set ?es" by (rule last_in_set)
    then obtain h where "md_hlc_timestamp (se_metadata (List.last ?es)) = Some h" using m by (auto simp: has_hlc_def)
    then show ?thesis using keyed_replies[OF assms] False by (simp add: keyed_poll_def keyed_get_def Let_def hlc_pos_def)
  qed
  then show thesis using that m by blast
qed

lemma keyed_poll_frame [simp]:
  "ky_selector_base (kc\<lparr>ky_cursor := c\<rparr>) = ky_selector_base kc" "keyed_ok (kc\<lparr>ky_cursor := c\<rparr>) = keyed_ok kc"
  by (simp_all add: keyed_ok_def)

section \<open>Polling one store\<close>

lemma keyed_page_log:
  assumes "log_ready ops vw js b" and "0 < ky_batch_size kc"
  shows "store_page ops js kc b = take (ky_batch_size kc) (pending (replay_log js (vw (fb_db b))) (filter_scope (ky_filter kc)) None (ky_cursor kc))"
  using log_query[OF assms] by (simp add: store_page_def)

lemma sort_keyed_log:
  assumes "hlc_sorted es" and "\<forall>e \<in> set es. has_hlc e"
  shows "sort_key keyed_order es = es"
proof -
  have "keyed_order x \<le> keyed_order y" if "x \<in> set es" "y \<in> set es" "hlc_of x < hlc_of y" for x y
    using that assms(2) by (auto simp: keyed_order_def has_hlc_def hlc_pos_def less_eq_prod_def)
  from sorted_wrt_mono_rel[OF this] have "sorted (map keyed_order es)"
    using assms(1) by (simp add: sorted_wrt_map hlc_sorted_def)
  then show ?thesis by (rule sort_key_id_if_sorted)
qed

lemma keyed_polls_log:
  assumes "log_ready ops vw js b" and "\<forall>e \<in> set (replay_log js (vw (fb_db b))). wire_event e"
  shows "keyed_ok kc \<Longrightarrow> 0 < ky_batch_size kc \<Longrightarrow> serves_key sp (fb_partition b) (ky_selector_base kc) \<Longrightarrow>
    keyed_poll_n k (keyed_get ops js parse_time parse_uuid sp [b]) kc
      = take (k * ky_batch_size kc) (pending (replay_log js (vw (fb_db b))) (filter_scope (ky_filter kc)) None (ky_cursor kc))"
proof (induction k arbitrary: kc)
  case (Suc k)
  let ?log = "replay_log js (vw (fb_db b))" and ?sc = "filter_scope (ky_filter kc)" and ?n = "ky_batch_size kc"
  let ?xs = "pending ?log ?sc None (ky_cursor kc)" and ?get = "keyed_get ops js parse_time parse_uuid sp [b]"
  have s: "stores_sound ops vw js [b]" "hlc_sorted ?log" using assms by (simp_all add: stores_sound_def log_ready_def)
  obtain es where es: "keyed_poll ?get kc = (kc\<lparr>ky_cursor := if es = [] then ky_cursor kc else hlc_of (List.last es)\<rparr>, Ok es)"
    "es = sort_key keyed_order (concat (map (\<lambda>b. if serves_key sp (fb_partition b) (ky_selector_base kc) then store_page ops js kc b else []) [b]))"
    by (rule keyed_poll_result[OF s(1) Suc.prems(1), of parse_time parse_uuid sp])
  have "\<forall>e \<in> set (store_page ops js kc b). has_hlc e" using store_page_mem(2)[OF s(1)] by simp
  then have es': "es = take ?n ?xs"
    using es(2) Suc.prems(3) keyed_page_log[OF assms(1) Suc.prems(2)] sort_keyed_log[OF take_pending_sorted[OF s(2)]] by simp
  let ?kc = "kc\<lparr>ky_cursor := if es = [] then ky_cursor kc else hlc_of (List.last es)\<rparr>"
  have rest: "pending ?log ?sc None (ky_cursor ?kc) = drop ?n ?xs"
  proof (cases "es = []")
    case True
    then show ?thesis using es' Suc.prems(2) by simp
  next
    case False
    then show ?thesis using pending_page[OF s(2) es' False] by simp
  qed
  have fr: "keyed_ok ?kc" "ky_batch_size ?kc = ?n" "ky_filter ?kc = ky_filter kc" "ky_selector_base ?kc = ky_selector_base kc"
    using Suc.prems(1) by (simp_all add: keyed_ok_def)
  have "keyed_poll_n k ?get ?kc = take (k * ?n) (drop ?n ?xs)"
    using Suc.IH[OF fr(1), unfolded fr(2,3,4) rest] Suc.prems(2,3) by blast
  then have "keyed_poll_n (Suc k) ?get kc = take ?n ?xs @ take (k * ?n) (drop ?n ?xs)" using es(1) es' by simp
  then show ?case by (simp add: take_add)
qed simp

text \<open>
  C10. Polling one store for a key or a key prefix is complete: against a store that answers its
  queries, whose replay index agrees with its events and whose events with an HLC timestamp carry pairwise distinct
  ones, the first \<open>k\<close> polls of a freshly built
  consumer return together the first \<open>k\<close> batches of the stored events with an HLC timestamp above zero that match
  the filter, in HLC order, each once and none left out.  (With equal timestamps or several stores events are
  skipped: \<open>keyed_poll_skips\<close>.)
\<close>

theorem keyed_polls_complete:
  assumes "fjall_ok ops vw" and "events_ok js (vw (fb_db b))" and "replay_ok js (vw (fb_db b))"
    and "\<forall>f. \<exists>rs. query_replay ops js f b = Ok rs" and "inj_on hlc_of (set (replay_log js (vw (fb_db b))))"
    and "\<forall>e \<in> set (replay_log js (vw (fb_db b))). wire_event e" and "keyed_build kb = Ok kc" and "plain (filter_text (ky_filter kc))"
    and "CHR ''?'' \<notin> set (kb_store_prefix kb)" and "kb_partition kb \<in> {None, Some (fb_partition b)}"
    and "0 < kb_batch_size kb" and "kb_batch_size kb \<le> usize_MAX"
  shows "\<exists>xs. set xs = {e \<in> stored_events js (vw (fb_db b)). has_hlc e \<and> hlc_default < hlc_of e \<and> key_matches (ky_filter kc) e}
      \<and> hlc_sorted xs
      \<and> (\<forall>k. keyed_poll_n k (keyed_get ops js parse_time parse_uuid (kb_store_prefix kb) [b]) kc = take (k * kb_batch_size kb) xs)"
proof -
  let ?log = "replay_log js (vw (fb_db b))" and ?f = "scope_filters (filter_scope (ky_filter kc)) hlc_default 0 None"
  let ?xs = "pending ?log (filter_scope (ky_filter kc)) None hlc_default"
  have kc: "ky_cursor kc = hlc_default" "ky_batch_size kc = kb_batch_size kb"
    "ky_selector_base kc = (case kb_partition kb of Some p \<Rightarrow> kb_store_prefix kb @ ''/'' @ show_word p | None \<Rightarrow> kb_store_prefix kb @ ''/*'')"
    using assms(7) by (auto simp: keyed_build_def split: option.splits)
  have "CHR ''?'' \<notin> set (show_word p)" for p :: u32 unfolding show_word_def by (rule show_nat_notin) simp
  then have ok: "keyed_ok kc" "serves_key (kb_store_prefix kb) (fb_partition b) (ky_selector_base kc)"
    using assms(8-12) kc by (auto simp: keyed_ok_def serves_key_def)
  have ready: "log_ready ops vw js b" using assms(1-4) log_sorted_if_distinct[OF assms(1,3,5)] by (simp add: log_ready_def)
  obtain rs where "query_replay ops js ?f b = Ok rs" using assms(4) by blast
  then have "set ?xs = {e \<in> stored_events js (vw (fb_db b)). has_hlc e \<and> hlc_default < hlc_of e \<and> key_matches (ky_filter kc) e}"
    using replay_full(1)[OF assms(1-3), of ?f] by (simp add: pending_def replay_log_def keyed_match)
  moreover have "hlc_sorted ?xs" using ready by (simp add: pending_sorted log_ready_def)
  ultimately show ?thesis
    using keyed_polls_log[OF ready assms(6) ok(1) _ ok(2)] kc assms(11) by (intro exI[of _ ?xs]) simp
qed

section \<open>Events that polls skip\<close>

lemma keyed_passed:
  assumes "stores_sound ops vw js bs"
  shows "keyed_ok kc \<Longrightarrow> hlc_of e \<le> ky_cursor kc \<Longrightarrow> e \<notin> set (keyed_poll_n k (keyed_get ops js parse_time parse_uuid sp bs) kc)"
proof (induction k arbitrary: kc)
  case (Suc k)
  obtain es where es: "keyed_poll (keyed_get ops js parse_time parse_uuid sp bs) kc
      = (kc\<lparr>ky_cursor := if es = [] then ky_cursor kc else hlc_of (List.last es)\<rparr>, Ok es)"
    "\<forall>e \<in> set es. has_hlc e \<and> ky_cursor kc < hlc_of e"
    by (rule keyed_poll_result[OF assms Suc.prems(1), of parse_time parse_uuid sp])
  have "e \<notin> set es" using es(2) Suc.prems(2) by force
  moreover have "ky_cursor kc \<le> (if es = [] then ky_cursor kc else hlc_of (List.last es))"
    using es(2) last_in_set[of es] by (auto simp: less_imp_le)
  ultimately show ?case
    using es(1) Suc.IH[of "kc\<lparr>ky_cursor := if es = [] then ky_cursor kc else hlc_of (List.last es)\<rparr>"] Suc.prems by simp
qed simp

text \<open>
  Polls are not exactly-once: an event that a poll leaves out although its HLC timestamp is not
  above that of the last event of the batch is never returned by any later poll.  This happens when the
  batch limit cuts between two events with the same timestamp, and when one store cuts its answer while
  another one has later events.
\<close>

theorem keyed_poll_skips:
  assumes "fjall_ok ops vw" and "\<forall>b \<in> set bs. replay_ok js (vw (fb_db b)) \<and> (\<forall>e \<in> set (replay_log js (vw (fb_db b))). wire_event e)"
    and "keyed_ok kc" and "keyed_poll (keyed_get ops js parse_time parse_uuid sp bs) kc = (kc1, Ok es)"
    and "es \<noteq> []" and "e \<notin> set es" and "hlc_of e \<le> hlc_of (List.last es)"
  shows "e \<notin> set (keyed_poll_n k (keyed_get ops js parse_time parse_uuid sp bs) kc)"
proof (cases k)
  case (Suc k')
  have s: "stores_sound ops vw js bs" using assms(1,2) by (simp add: stores_sound_def)
  obtain es' where "keyed_poll (keyed_get ops js parse_time parse_uuid sp bs) kc
      = (kc\<lparr>ky_cursor := if es' = [] then ky_cursor kc else hlc_of (List.last es')\<rparr>, Ok es')"
    by (rule keyed_poll_result[OF s assms(3), of parse_time parse_uuid sp])
  then have "kc1 = kc\<lparr>ky_cursor := hlc_of (List.last es)\<rparr>" using assms(4,5) by simp
  then show ?thesis using keyed_passed[OF s, of kc1 e k'] assms(3,4,6,7) Suc by simp
qed simp

section \<open>Offsets of a key filter\<close>

lemma keyed_path_below:
  "below (keyed_offset_base (ky_key_prefix kc)) (keyed_offset_path kc g)"
  "\<not> below (offset_base (ky_key_prefix kc) q) (keyed_offset_path kc g)"
  "\<not> below (replay_offset_base (ky_key_prefix kc)) (keyed_offset_path kc g)"
proof -
  let ?kp = "ky_key_prefix kc" and ?t = "g @ CHR ''/'' # show_word (key_filter_hash (ky_filter kc))"
  have c: "keyed_offset_path kc g = (?kp @ ''/_offsets/'') @ ''key'' @ CHR ''/'' # ?t" by (simp add: keyed_offset_path_def)
  have b: "offset_base ?kp q = (?kp @ ''/_offsets/'') @ show_word q" "keyed_offset_base ?kp = (?kp @ ''/_offsets/'') @ ''key''"
    by (simp_all add: offset_base_def keyed_offset_base_def)
  show "below (keyed_offset_base ?kp) (keyed_offset_path kc g)"
    unfolding b c below_strip using below_chunk[of "''key''" "''key''" ?t] by simp
  show "\<not> below (offset_base ?kp q) (keyed_offset_path kc g)"
    unfolding b c below_strip using below_chunk[of "show_word q" "''key''" ?t] show_word_not_key[of q] by simp
  show "\<not> below (replay_offset_base ?kp) (keyed_offset_path kc g)"
    by (simp add: replay_offset_base_def keyed_offset_path_def below_def starts_with_iff)
qed

definition keyed_params :: "keyed_consumer \<Rightarrow> string \<Rightarrow> string" where
  "keyed_params kc g = ''fetch=true&group_id='' @ g @ ''&key_filter_hash='' @ show_word (key_filter_hash (ky_filter kc))"

lemma keyed_fetch_parts:
  assumes "CHR ''?'' \<notin> set (ky_key_prefix kc)" and "group_ok g"
  shows "selector_parts (keyed_fetch_selector kc g) = (keyed_offset_path kc g, keyed_params kc g)"
proof -
  have "CHR ''?'' \<notin> set (show_word h)" for h :: u64 unfolding show_word_def by (rule show_nat_notin) simp
  then have no: "CHR ''?'' \<notin> set (keyed_offset_path kc g)" using assms by (simp add: keyed_offset_path_def group_ok_def)
  have "keyed_fetch_selector kc g = keyed_offset_path kc g @ CHR ''?'' # keyed_params kc g"
    by (simp add: keyed_fetch_selector_def keyed_params_def)
  then show ?thesis using split_once_append[OF no] by (simp add: selector_parts_def)
qed

lemma split_on_amp: "CHR ''&'' \<notin> set t \<Longrightarrow> split_on (\<lambda>c. c = CHR ''&'') (t @ CHR ''&'' # u) = t # split_on (\<lambda>c. c = CHR ''&'') u"
  "CHR ''&'' \<notin> set t \<Longrightarrow> split_on (\<lambda>c. c = CHR ''&'') t = [t]"
  by (induction t) auto

lemma keyed_fetch_params:
  assumes "group_ok g"
  shows "str_contains ''fetch=true'' (keyed_params kc g)" and "extract_param (keyed_params kc g) ''group_id'' = Some g"
    and "Option.bind (extract_param (keyed_params kc g) ''key_filter_hash'') parse_u64 = Some (key_filter_hash (ky_filter kc))"
proof -
  let ?h = "show_word (key_filter_hash (ky_filter kc))"
  show "str_contains ''fetch=true'' (keyed_params kc g)"
    using str_contains_prefix[of "''fetch=true''"] by (simp add: keyed_params_def)
  have "CHR ''&'' \<notin> set ?h" unfolding show_word_def by (rule show_nat_notin) simp
  then have "split_on (\<lambda>c. c = CHR ''&'') (keyed_params kc g) = [''fetch=true'', ''group_id='' @ g, ''key_filter_hash='' @ ?h]"
    using split_on_amp(1)[of "''fetch=true''"] split_on_amp(1)[of "''group_id='' @ g"] split_on_amp(2)[of "''key_filter_hash='' @ ?h"] assms
    by (simp add: keyed_params_def group_ok_def)
  then show "extract_param (keyed_params kc g) ''group_id'' = Some g"
    "Option.bind (extract_param (keyed_params kc g) ''key_filter_hash'') parse_u64 = Some (key_filter_hash (ky_filter kc))"
    using split_once_append[of "CHR ''=''" "''group_id''" g] split_once_append[of "CHR ''=''" "''fetch''" "''true''"]
      split_once_append[of "CHR ''=''" "''key_filter_hash''" ?h]
    by (simp_all add: extract_param_def)
qed

text \<open>A store that has accepted a keyed commit answers a fetch of the group and filter with it, or not at all.\<close>

lemma keyed_commit_fetch:
  assumes "fjall_ok ops vw" and "commit_keyed_offset ops c b = (b', Ok ())"
    and "fetch_keyed_offset ops (kc_group_id c) (key_filter_hash (kc_key_filter c)) b' = Ok r"
  shows "r = Some (kc_last_hlc c)"
proof -
  let ?k = "keyed_offset_key (kc_group_id c) (key_filter_hash (kc_key_filter c))"
  let ?v = "encode_keyed_offset_value (kc_last_hlc c) (kc_generation c) (kc_timestamp c)"
  obtain d where d: "kv_insert ops (fb_db b) Offsets ?k ?v = (d, Ok ())" "b' = b\<lparr>fb_db := d\<rparr>"
    using assms(2)
    by (auto simp: commit_keyed_offset_def Let_def store_err_def split: sum.splits option.splits if_splits prod.splits)
  have "vw d Offsets ?k = Some ?v" using fjall_commit[OF assms(1)] d(1) by (simp add: kv_insert_def)
  moreover obtain v where "kv_get ops d Offsets ?k = Ok v" "r = map_option fst (Option.bind v decode_keyed_offset_value)"
    using assms(3) d(2) by (cases "kv_get ops d Offsets ?k") (auto simp: fetch_keyed_offset_def store_err_def)
  ultimately show ?thesis using fjall_get[OF assms(1)] by fastforce
qed

lemma keyed_node_put:
  assumes "cc_from_slice (sv_keyed_codec sv) bs = Ok c" and "ky_key_prefix kc = sv_key_prefix sv"
  shows "node_put (fjall_backend ops js) sv (keyed_offset_path kc g) bs n = n\<lparr>sn_backend := fst (commit_keyed_offset ops c (sn_backend n))\<rparr>"
  using assms keyed_path_below[of kc]
  by (simp add: node_put_def Let_def keyed_offset_put_def handle_commit_keyed_offset_def ask_mut_def fjall_backend_def)

lemma keyed_node_get:
  assumes "CHR ''?'' \<notin> set (ky_key_prefix kc)" and "group_ok g" and "ky_key_prefix kc = sv_key_prefix sv"
  shows "node_get (fjall_backend ops js) sv (keyed_fetch_selector kc g) None n
    = (n, case fetch_keyed_offset ops g (key_filter_hash (ky_filter kc)) (sn_backend n) of
         Err _ \<Rightarrow> [] | Ok r \<Rightarrow> [Some (case sv_hlc_to_vec sv r of Ok bs \<Rightarrow> bs | Err _ \<Rightarrow> as_bytes ''null'')])"
  using keyed_path_below[of kc] keyed_fetch_params[OF assms(2), of kc] assms(3)
  by (simp add: node_get_def keyed_fetch_parts[OF assms(1,2)] keyed_offset_query_def handle_fetch_keyed_offset_def ask_def fjall_backend_def
      split: sum.split)

lemma keyed_nodes_get:
  assumes "CHR ''?'' \<notin> set (ky_key_prefix kc)" and "group_ok g" and "ky_key_prefix kc = sv_key_prefix sv"
    and "\<forall>n \<in> set nodes. \<forall>r. fetch_keyed_offset ops g (key_filter_hash (ky_filter kc)) (sn_backend n) = Ok r \<longrightarrow> r = Some h"
    and "sv_hlc_to_vec sv (Some h) = Ok bs"
  shows "\<exists>m. nodes_get (fjall_backend ops js) sv (keyed_fetch_selector kc g) None nodes = (nodes, replicate m (Some bs))
    \<and> (m = 0 \<longleftrightarrow> (\<forall>n \<in> set nodes. \<forall>r. fetch_keyed_offset ops g (key_filter_hash (ky_filter kc)) (sn_backend n) \<noteq> Ok r))"
  using assms(4)
proof (induction nodes)
  case (Cons n nodes)
  then obtain m where m: "nodes_get (fjall_backend ops js) sv (keyed_fetch_selector kc g) None nodes = (nodes, replicate m (Some bs))"
    "m = 0 \<longleftrightarrow> (\<forall>n \<in> set nodes. \<forall>r. fetch_keyed_offset ops g (key_filter_hash (ky_filter kc)) (sn_backend n) \<noteq> Ok r)" by auto
  show ?case
  proof (cases "fetch_keyed_offset ops g (key_filter_hash (ky_filter kc)) (sn_backend n)")
    case (Inl e)
    then show ?thesis using m keyed_node_get[OF assms(1-3), of ops js n] by (intro exI[of _ m]) simp
  next
    case (Inr r)
    then have "r = Some h" using Cons.prems by simp
    then show ?thesis using Inr m keyed_node_get[OF assms(1-3), of ops js n] assms(5) by (intro exI[of _ "Suc m"]) simp
  qed
qed simp

lemma fold_merge_keyed: "from_slice bs = Ok (Some h) \<Longrightarrow> 0 < m \<Longrightarrow> fold (merge_keyed from_slice) (replicate m (Some bs)) r = Some h"
proof (induction m arbitrary: r)
  case (Suc m)
  then show ?case by (cases m) (simp_all add: merge_keyed_def)
qed simp

text \<open>
  C31. A committed cursor of a key filter comes back: after a keyed commit that every running store accepts,
  a consumer of the same group and filter fetches exactly the committed cursor, whichever cursors the stores held before.
  At least one of the stores can read its offsets, the group name has no \<^verbatim>\<open>?\<close> or \<^verbatim>\<open>&\<close>, and the coders read back what they wrote.
\<close>

theorem keyed_offset_roundtrip:
  assumes "fjall_ok ops vw" and "CHR ''?'' \<notin> set (sv_key_prefix sv)" and "group_ok g" and "codec_ok (sv_keyed_codec sv)"
    and "\<forall>h bs. sv_hlc_to_vec sv h = Ok bs \<longrightarrow> from_slice bs = Ok h" and "\<forall>h. \<exists>bs. sv_hlc_to_vec sv h = Ok bs"
    and "ky_key_prefix kc = sv_key_prefix sv" and "\<forall>n \<in> set nodes. snd (commit_keyed_offset ops (keyed_commit_of now kc g) (sn_backend n)) = Ok ()"
    and "keyed_commit (store_io (fjall_backend ops js) sv) (sv_keyed_codec sv) now kc g nodes = (nodes', Ok ())"
    and "ky_key_prefix kc2 = sv_key_prefix sv" and "ky_filter kc2 = ky_filter kc"
    and "\<exists>n \<in> set nodes'. \<exists>r. fetch_keyed_offset ops g (key_filter_hash (ky_filter kc)) (sn_backend n) = Ok r"
  shows "keyed_fetch_offset (store_io (fjall_backend ops js) sv) from_slice kc2 g nodes' = (nodes', Ok (Some (ky_cursor kc)))"
proof -
  let ?c = "keyed_commit_of now kc g"
  obtain bs where bs: "cc_to_vec (sv_keyed_codec sv) ?c = Ok bs"
    and n': "nodes' = map (node_put (fjall_backend ops js) sv (keyed_offset_path kc g) bs) nodes"
    using assms(9) by (auto simp: keyed_commit_def store_io_def split: sum.splits)
  have "cc_from_slice (sv_keyed_codec sv) bs = Ok ?c" using assms(4) bs by (simp add: codec_ok_def)
  from keyed_node_put[OF this assms(7), of ops js g]
  have n'': "nodes' = map (\<lambda>n. n\<lparr>sn_backend := fst (commit_keyed_offset ops ?c (sn_backend n))\<rparr>) nodes" using n' by simp
  have stored: "\<forall>n \<in> set nodes'. \<forall>r. fetch_keyed_offset ops g (key_filter_hash (ky_filter kc2)) (sn_backend n) = Ok r \<longrightarrow> r = Some (ky_cursor kc)"
  proof (intro ballI allI impI)
    fix n r assume "n \<in> set nodes'" and r: "fetch_keyed_offset ops g (key_filter_hash (ky_filter kc2)) (sn_backend n) = Ok r"
    then obtain n0 where n0: "n0 \<in> set nodes" "sn_backend n = fst (commit_keyed_offset ops ?c (sn_backend n0))" by (auto simp: n'')
    then have "commit_keyed_offset ops ?c (sn_backend n0) = (sn_backend n, Ok ())" using assms(8) by (simp add: prod_eq_iff)
    from keyed_commit_fetch[OF assms(1) this, of r] r show "r = Some (ky_cursor kc)" using assms(11) by (simp add: keyed_commit_of_def)
  qed
  obtain hb where hb: "sv_hlc_to_vec sv (Some (ky_cursor kc)) = Ok hb" using assms(6) by blast
  have "CHR ''?'' \<notin> set (ky_key_prefix kc2)" using assms(2,10) by simp
  from keyed_nodes_get[OF this assms(3,10) stored hb] obtain m where m: "0 < m"
    "nodes_get (fjall_backend ops js) sv (keyed_fetch_selector kc2 g) None nodes' = (nodes', replicate m (Some hb))"
    using assms(11,12) by (metis neq0_conv)
  have "from_slice hb = Ok (Some (ky_cursor kc))" using assms(5) hb by blast
  from fold_merge_keyed[of from_slice, OF this m(1)] show ?thesis using m(2) by (simp add: keyed_fetch_offset_def store_io_def)
qed

section \<open>Concrete runs\<close>

definition keyed_md :: "u64 \<Rightarrow> u64 \<Rightarrow> EventMetadata" where
  "keyed_md s h = (at_hlc 1 s h)\<lparr>md_key_expr := ''t/k/x/0'', md_key := Some ''x''\<rparr>"

lemma keyed_md_facts [simp]:
  "wire_event (stored_event (keyed_md s h) pl)" "hlc_of (stored_event (keyed_md s h) pl) = Hlc h 0"
  "event_pos (stored_event (keyed_md s h) pl) = (1, s)" "md_publisher_id (keyed_md s h) = 1" "md_seq (keyed_md s h) = s"
proof -
  have "extract_key ''t/k/x/0'' = Some ''x''" by code_simp
  then show "wire_event (stored_event (keyed_md s h) pl)"
    by (simp add: keyed_md_def at_hlc_def demo_md_def stored_event_def wire_event_def Let_def nanos_or_def timestamp_nanos_opt_def)
qed (simp_all add: keyed_md_def at_hlc_def demo_md_def stored_event_def hlc_pos_def event_pos_def)

lemma fits_keyed: "fits unary_json (keyed_md 0 1)" "fits unary_json (keyed_md 0 2)" "fits unary_json (keyed_md 1 2)"
  by (simp_all add: fits_def unary_json_def unary_enc_def keyed_md_def at_hlc_def demo_md_def put_str_def as_bytes_def put_int_def)

definition keyed_store :: "u64 \<Rightarrow> mem_db FjallBackend" where
  "keyed_store h = fst (store mem_ops unary_json ''t/k/x/0'' [] (keyed_md 1 2)
     (fst (store mem_ops unary_json ''t/k/x/0'' [] (keyed_md 0 h) (backend_empty mem_empty 0))))"

lemma keyed_store_log:
  "mem_log (keyed_store 1) {stored_event (keyed_md 1 2) [], stored_event (keyed_md 0 1) []}"
  "mem_log (keyed_store 2) {stored_event (keyed_md 1 2) [], stored_event (keyed_md 0 2) []}"
  using mem_log_store[OF mem_log_store[OF mem_log_empty fits_keyed(1)] fits_keyed(3)]
    mem_log_store[OF mem_log_store[OF mem_log_empty fits_keyed(2)] fits_keyed(3)]
  by (simp_all add: keyed_store_def)

definition demo_kb :: keyed_builder where
  "demo_kb = (keyed_builder_new ''t'' ''s'')\<lparr>kb_filter := Some (Exact ''x''), kb_batch_size := 1\<rparr>"

definition demo_kc :: keyed_consumer where
  "demo_kc = \<lparr>ky_key_prefix = ''t'', ky_filter = Exact ''x'', ky_cursor = hlc_default, ky_batch_size = 1, ky_selector_base = ''s/*''\<rparr>"

lemma demo_kc_built: "keyed_build demo_kb = Ok demo_kc"
  by (simp add: keyed_build_def demo_kb_def keyed_builder_new_def demo_kc_def)

lemma demo_kc_ok: "keyed_ok demo_kc" "plain (filter_text (ky_filter demo_kc))"
  by (simp_all add: keyed_ok_def demo_kc_def filter_text_def plain_def is_sep_def is_space_def usize_MAX_def)

theorem keyed_polls_complete_witness:
  "\<exists>xs. set xs = {e \<in> stored_events unary_json (mem_view (fb_db (keyed_store 1))). has_hlc e \<and> hlc_default < hlc_of e \<and> key_matches (ky_filter demo_kc) e}
      \<and> hlc_sorted xs
      \<and> (\<forall>k. keyed_poll_n k (keyed_get mem_ops unary_json (\<lambda>_. None) (\<lambda>_. None) (kb_store_prefix demo_kb) [keyed_store 1]) demo_kc
            = take (k * kb_batch_size demo_kb) xs)"
proof -
  have i: "inj_on hlc_of {stored_event (keyed_md 1 2) [], stored_event (keyed_md 0 1) []}"
    "\<forall>e \<in> {stored_event (keyed_md 1 2) [], stored_event (keyed_md 0 1) []}. wire_event e" by (simp_all add: inj_on_def)
  note m = mem_log_ready[OF keyed_store_log(1) i]
  have k: "CHR ''?'' \<notin> set (kb_store_prefix demo_kb)" "kb_partition demo_kb \<in> {None, Some (fb_partition (keyed_store 1))}" "0 < kb_batch_size demo_kb"
    "kb_batch_size demo_kb \<le> usize_MAX" by (simp_all add: demo_kb_def keyed_builder_new_def usize_MAX_def)
  show ?thesis
    by (rule keyed_polls_complete[OF mem_fjall_ok _ _ _ m(2) _ demo_kc_built demo_kc_ok(2) k]) (use m(1) in \<open>simp_all add: log_ready_def\<close>)
qed

lemma keyed_store_sound: "stores_sound mem_ops mem_view unary_json [keyed_store 2]"
proof -
  have a: "events_ok unary_json (mem_view (fb_db (keyed_store 2)))" "replay_ok unary_json (mem_view (fb_db (keyed_store 2)))"
    "stored_events unary_json (mem_view (fb_db (keyed_store 2))) = {stored_event (keyed_md 1 2) [], stored_event (keyed_md 0 2) []}"
    using keyed_store_log(2) by (simp_all add: mem_log_def)
  have "set (replay_log unary_json (mem_view (fb_db (keyed_store 2)))) \<subseteq> {stored_event (keyed_md 1 2) [], stored_event (keyed_md 0 2) []}"
    using replay_list_set[OF a(2,1) fjall_finite[OF mem_fjall_ok]] a(3) by (auto simp: replay_log_def)
  then show ?thesis using a(2) mem_fjall_ok by (auto simp: stores_sound_def)
qed

lemma demo_kc_poll:
  "\<exists>kc1. keyed_poll (keyed_get mem_ops unary_json (\<lambda>_. None) (\<lambda>_. None) ''s'' [keyed_store 2]) demo_kc = (kc1, Ok [stored_event (keyed_md 0 2) []])"
proof -
  have "query_replay mem_ops unary_json (scope_filters (ScopeKey ''x'') hlc_default 1 None) (keyed_store 2) = Ok [stored_event (keyed_md 0 2) []]"
    by code_simp
  then have page: "store_page mem_ops unary_json demo_kc (keyed_store 2) = [stored_event (keyed_md 0 2) []]"
    by (simp add: store_page_def demo_kc_def filter_scope_def)
  have sv: "serves_key ''s'' (fb_partition (keyed_store 2)) (ky_selector_base demo_kc)" by (simp add: serves_key_def demo_kc_def)
  show ?thesis
    by (rule keyed_poll_result[OF keyed_store_sound demo_kc_ok(1), of "\<lambda>_. None" "\<lambda>_. None" "''s''"]) (simp add: page sv)
qed

theorem keyed_poll_skips_witness:
  "stored_event (keyed_md 1 2) [] \<in> stored_events unary_json (mem_view (fb_db (keyed_store 2)))
   \<and> stored_event (keyed_md 1 2) [] \<notin> set (keyed_poll_n 9 (keyed_get mem_ops unary_json (\<lambda>_. None) (\<lambda>_. None) ''s'' [keyed_store 2]) demo_kc)"
proof
  show "stored_event (keyed_md 1 2) [] \<in> stored_events unary_json (mem_view (fb_db (keyed_store 2)))"
    using keyed_store_log(2) by (simp add: mem_log_def)
  obtain kc1 where p: "keyed_poll (keyed_get mem_ops unary_json (\<lambda>_. None) (\<lambda>_. None) ''s'' [keyed_store 2]) demo_kc = (kc1, Ok [stored_event (keyed_md 0 2) []])"
    using demo_kc_poll by blast
  have "stored_event (keyed_md 1 2) [] \<noteq> stored_event (keyed_md 0 2) []" using keyed_md_facts(3) by (metis prod.inject zero_neq_one)
  then show "stored_event (keyed_md 1 2) [] \<notin> set (keyed_poll_n 9 (keyed_get mem_ops unary_json (\<lambda>_. None) (\<lambda>_. None) ''s'' [keyed_store 2]) demo_kc)"
    using keyed_poll_skips[OF mem_fjall_ok _ demo_kc_ok(1) p, of "stored_event (keyed_md 1 2) []" 9] keyed_store_sound
    by (simp add: stores_sound_def)
qed

definition unary_keyed :: "KeyedOffsetCommit commit_codec" where
  "unary_keyed = \<lparr>
     cc_to_vec = (\<lambda>c. Ok (put_str (kc_group_id c) @ put_str (kc_member_id c)
        @ (case kc_key_filter c of Exact k \<Rightarrow> put_nat 0 @ put_str k | Prefix k \<Rightarrow> put_nat 1 @ put_str k)
        @ put_nat (unat (physical_ns (kc_last_hlc c))) @ put_nat (unat (logical (kc_last_hlc c)))
        @ put_nat (unat (kc_generation c)) @ put_int (kc_timestamp c) @ [])),
     cc_from_slice = (\<lambda>bs. case get_str bs of (g, bs) \<Rightarrow> case get_str bs of (m, bs) \<Rightarrow> case get_nat bs of (t, bs) \<Rightarrow>
        case get_str bs of (k, bs) \<Rightarrow> case get_nat bs of (p, bs) \<Rightarrow> case get_nat bs of (l, bs) \<Rightarrow>
        case get_nat bs of (gen, bs) \<Rightarrow> case get_int bs of (ts, bs) \<Rightarrow>
        Ok \<lparr>kc_group_id = g, kc_member_id = m, kc_key_filter = (if t = 0 then Exact k else Prefix k),
            kc_last_hlc = Hlc (word_of_nat p) (word_of_nat l), kc_generation = word_of_nat gen, kc_timestamp = ts\<rparr>)\<rparr>"

lemma unary_keyed_ok: "codec_ok unary_keyed"
  unfolding codec_ok_def
proof (intro allI impI)
  fix c :: KeyedOffsetCommit and bs
  assume "cc_to_vec unary_keyed c = Ok bs"
  then show "cc_from_slice unary_keyed bs = Ok c"
    by (cases c; cases "kc_last_hlc c"; cases "kc_key_filter c") (auto simp: unary_keyed_def simp del: append_Nil2)
qed

definition unary_opt_hlc :: "HlcTimestamp option \<Rightarrow> bytes result" where
  "unary_opt_hlc r = (case r of None \<Rightarrow> Ok [0] | Some h \<Rightarrow> rbind (unary_hlc h) (\<lambda>bs. Ok (1 # bs)))"

definition read_opt_hlc :: "bytes \<Rightarrow> HlcTimestamp option result" where
  "read_opt_hlc bs = (case bs of [] \<Rightarrow> Ok None | t # rest \<Rightarrow> if t = 0 then Ok None else rbind (read_hlc rest) (\<lambda>h. Ok (Some h)))"

lemma unary_opt_hlc_total: "\<forall>h. \<exists>bs. unary_opt_hlc h = Ok bs"
  by (simp add: unary_opt_hlc_def unary_hlc_def split: option.split)

lemma read_unary_opt_hlc: "\<forall>h bs. unary_opt_hlc h = Ok bs \<longrightarrow> read_opt_hlc bs = Ok h"
proof (intro allI impI)
  fix h bs assume u: "unary_opt_hlc h = Ok bs"
  show "read_opt_hlc bs = Ok h"
  proof (cases h)
    case None
    then show ?thesis using u by (auto simp: unary_opt_hlc_def read_opt_hlc_def)
  next
    case (Some x)
    obtain c where c: "unary_hlc x = Ok c" by (simp add: unary_hlc_def)
    then show ?thesis using u Some read_unary_hlc[OF c] by (auto simp: unary_opt_hlc_def read_opt_hlc_def)
  qed
qed

definition keyed_sv :: store_env where
  "keyed_sv = replay_sv\<lparr>sv_keyed_codec := unary_keyed, sv_hlc_to_vec := unary_opt_hlc\<rparr>"

abbreviation keyed_io :: "mem_db FjallBackend store_node list session_io" where
  "keyed_io \<equiv> store_io (fjall_backend mem_ops unary_json) keyed_sv"

definition keyed_nodes :: "mem_db FjallBackend store_node list" where
  "keyed_nodes = [\<lparr>sn_backend = backend_empty mem_empty 0, sn_replay_offsets = []\<rparr>]"

theorem keyed_offset_roundtrip_witness:
  "snd (keyed_fetch_offset keyed_io read_opt_hlc demo_kc ''g'' (fst (keyed_commit keyed_io unary_keyed 0 (keyed_seek (Hlc 4 0) demo_kc) ''g'' keyed_nodes)))
     = Ok (Some (Hlc 4 0))"
proof -
  let ?kc = "keyed_seek (Hlc 4 0) demo_kc" and ?b = "backend_empty mem_empty 0"
  let ?c = "keyed_commit keyed_io unary_keyed 0 ?kc ''g'' keyed_nodes"
  have sv: "sv_key_prefix keyed_sv = ''t''" "sv_keyed_codec keyed_sv = unary_keyed" "sv_hlc_to_vec keyed_sv = unary_opt_hlc"
    by (simp_all add: keyed_sv_def replay_sv_def)
  have kc: "ky_key_prefix ?kc = ''t''" "ky_filter ?kc = ky_filter demo_kc" "ky_cursor ?kc = Hlc 4 0" "ky_key_prefix demo_kc = ''t''"
    by (simp_all add: keyed_seek_def demo_kc_def)
  have c: "snd (commit_keyed_offset mem_ops cm ?b) = Ok ()" for cm
    by (simp add: commit_keyed_offset_def Let_def mem_ops_def backend_empty_def mem_empty_def kv_insert_def store_err_def)
  have f: "\<exists>r. fetch_keyed_offset mem_ops g h b = Ok r" for g h b by (simp add: fetch_keyed_offset_def mem_ops_def store_err_def)
  have cm: "?c = (fst ?c, Ok ())" and ne: "fst ?c \<noteq> []"
    by (simp_all add: keyed_commit_def unary_keyed_def store_io_def keyed_nodes_def)
  have "keyed_fetch_offset keyed_io read_opt_hlc demo_kc ''g'' (fst ?c) = (fst ?c, Ok (Some (ky_cursor ?kc)))"
  proof (rule keyed_offset_roundtrip[OF mem_fjall_ok, where nodes = keyed_nodes and now = 0])
    show "keyed_commit keyed_io (sv_keyed_codec keyed_sv) 0 ?kc ''g'' keyed_nodes = (fst ?c, Ok ())" using cm sv(2) by simp
    show "\<exists>n \<in> set (fst ?c). \<exists>r. fetch_keyed_offset mem_ops ''g'' (key_filter_hash (ky_filter ?kc)) (sn_backend n) = Ok r"
      using f list.set_sel(1)[OF ne] by blast
  qed (use sv kc c read_unary_opt_hlc unary_opt_hlc_total unary_keyed_ok in \<open>simp_all add: group_ok_def keyed_nodes_def\<close>)
  then show ?thesis using kc(3) by simp
qed

end
