(* ===== verification/Storage_Agent.thy ===== *)
theory Storage_Agent
  imports Partition_Manager "HOL-Library.Multiset"
begin

text \<open>
  Placement of partition replicas on storage agents: the membership tracker
  (\<^verbatim>\<open>mitiflow-storage/src/membership.rs\<close>), override tables
  (\<^verbatim>\<open>mitiflow-storage/src/types.rs\<close>) and the computation of the replicas an agent should
  run (\<^verbatim>\<open>mitiflow-storage/src/topic_worker.rs\<close>).  The answer to a metadata query is an
  argument; an agent that does not answer gets a default descriptor.
\<close>

section \<open>Membership\<close>

record NodeMetadata =
  nm_node_id :: string
  nm_capacity :: u32
  nm_labels :: "(string, string) hmap"
  nm_started_at :: DateTime

datatype MembershipEvent = Joined string | Left string

record tracker =
  mt_self :: NodeDescriptor
  mt_nodes :: "(string, NodeDescriptor) hmap"

text \<open>The replies to a metadata query, decoded: the first readable one counts.\<close>

definition fetch_node_descriptor :: "(string \<Rightarrow> NodeMetadata option list) \<Rightarrow> string \<Rightarrow> NodeDescriptor" where
  "fetch_node_descriptor meta nid =
     (case List.map_filter id (meta nid) of
        m # _ \<Rightarrow> \<lparr>node_id = nm_node_id m, capacity = nm_capacity m, labels = nm_labels m\<rparr>
      | [] \<Rightarrow> node_new nid)"

text \<open>The identifier in a liveliness key, unless it is the agent itself or a key below an agent.\<close>

definition peer_of_key :: "string \<Rightarrow> string \<Rightarrow> string \<Rightarrow> string option" where
  "peer_of_key agents_prefix self_id key =
     (case strip_prefix (agents_prefix @ ''/'') key of
        None \<Rightarrow> None
      | Some nid \<Rightarrow> if nid = self_id \<or> CHR ''/'' \<in> set nid then None else Some nid)"

definition tracker_new :: "(string \<Rightarrow> NodeMetadata option list) \<Rightarrow> string \<Rightarrow> NodeDescriptor \<Rightarrow> string list \<Rightarrow> tracker" where
  "tracker_new meta agents_prefix self_node keys =
     \<lparr>mt_self = self_node,
      mt_nodes = fold (\<lambda>key m. case peer_of_key agents_prefix (node_id self_node) key of
                          None \<Rightarrow> m | Some nid \<Rightarrow> hm_insert nid (fetch_node_descriptor meta nid) m) keys []\<rparr>"

text \<open>One liveliness sample; the second component is the call of the change callback, if any.\<close>

definition watch_step ::
  "(string \<Rightarrow> NodeMetadata option list) \<Rightarrow> string \<Rightarrow> string \<times> SampleKind \<Rightarrow> tracker \<Rightarrow> tracker \<times> (NodeDescriptor list \<times> MembershipEvent) option"
where
  "watch_step meta agents_prefix sample tr =
     (case peer_of_key agents_prefix (node_id (mt_self tr)) (fst sample) of
        None \<Rightarrow> (tr, None)
      | Some nid \<Rightarrow>
          if snd sample = Put then
            let tr1 = tr\<lparr>mt_nodes := hm_insert nid (fetch_node_descriptor meta nid) (mt_nodes tr)\<rparr>
            in (tr1, Some (map snd (mt_nodes tr1), Joined nid))
          else
            let tr1 = tr\<lparr>mt_nodes := hm_remove nid (mt_nodes tr)\<rparr>
            in (tr1, Some (map snd (mt_nodes tr1), Left nid)))"

definition peer_nodes :: "tracker \<Rightarrow> NodeDescriptor list" where
  "peer_nodes tr = map snd (mt_nodes tr)"

definition current_nodes :: "tracker \<Rightarrow> NodeDescriptor list" where
  "current_nodes tr = mt_self tr # peer_nodes tr"

section \<open>Overrides\<close>

record OverrideEntry =
  oe_partition :: u32
  oe_replica :: u32
  oe_node_id :: string
  oe_reason :: string

record OverrideTable =
  ot_entries :: "OverrideEntry list"
  ot_epoch :: u64
  ot_expires_at :: "DateTime option"

definition override_default :: OverrideTable where
  "override_default = \<lparr>ot_entries = [], ot_epoch = 0, ot_expires_at = None\<rparr>"

definition override_received :: "(bytes \<Rightarrow> OverrideTable option) \<Rightarrow> bytes \<Rightarrow> OverrideTable \<Rightarrow> OverrideTable" where
  "override_received from_slice payload guard =
     (case from_slice payload of
        Some table \<Rightarrow> if ot_epoch guard < ot_epoch table then table else guard
      | None \<Rightarrow> guard)"

definition override_for :: "OverrideTable \<Rightarrow> u32 \<Rightarrow> u32 \<Rightarrow> OverrideEntry option" where
  "override_for t p r = List.find (\<lambda>e. oe_partition e = p \<and> oe_replica e = r) (ot_entries t)"

section \<open>Desired replicas\<close>

definition placed ::
  "(hash_input list \<Rightarrow> u64) \<Rightarrow> (u32 \<Rightarrow> u64 \<Rightarrow> 'f::linorder) \<Rightarrow> u32 \<Rightarrow> u32 \<Rightarrow> NodeDescriptor list \<Rightarrow> string list"
where
  "placed H F p rf nodes =
     (if \<exists>n \<in> set nodes. hm_get (labels n) ''rack'' \<noteq> None
      then assign_replicas_rack_aware H F p rf nodes else assign_replicas H F p rf nodes)"

definition compute_desired_assignment ::
  "(hash_input list \<Rightarrow> u64) \<Rightarrow> (u32 \<Rightarrow> u64 \<Rightarrow> 'f::linorder) \<Rightarrow> string \<Rightarrow> u32 \<Rightarrow> u32 \<Rightarrow> NodeDescriptor list \<Rightarrow> OverrideTable \<Rightarrow> (u32 \<times> u32) list"
where
  "compute_desired_assignment H F self_node_id num_partitions replication_factor nodes overrides =
     concat (map (\<lambda>p. concat (map (\<lambda>r.
       case override_for overrides p r of
         Some entry \<Rightarrow> if oe_node_id entry = self_node_id then [(p, r)] else []
       | None \<Rightarrow>
           let replicas = placed H F p replication_factor nodes in
           if unat r < length replicas \<and> replicas ! unat r = self_node_id then [(p, r)] else [])
       (word_range 0 replication_factor))) (word_range 0 num_partitions))"

section \<open>What a tracker knows\<close>

text \<open>The peers that are alive after a sequence of liveliness samples, and the trackers after it.\<close>

fun live_after :: "string \<Rightarrow> string \<Rightarrow> (string \<times> SampleKind) list \<Rightarrow> string set \<Rightarrow> string set" where
  "live_after agents_prefix self_id [] live = live"
| "live_after agents_prefix self_id (s # ss) live =
     live_after agents_prefix self_id ss
       (case peer_of_key agents_prefix self_id (fst s) of
          None \<Rightarrow> live | Some nid \<Rightarrow> if snd s = Put then insert nid live else live - {nid})"

definition watch_run :: "(string \<Rightarrow> NodeMetadata option list) \<Rightarrow> string \<Rightarrow> (string \<times> SampleKind) list \<Rightarrow> tracker \<Rightarrow> tracker" where
  "watch_run meta agents_prefix ss tr = fold (\<lambda>s tr. fst (watch_step meta agents_prefix s tr)) ss tr"

definition tracks_peers :: "(string \<Rightarrow> NodeMetadata option list) \<Rightarrow> string set \<Rightarrow> tracker \<Rightarrow> bool" where
  "tracks_peers meta live tr \<longleftrightarrow> hm_wf (mt_nodes tr)
     \<and> hm_get (mt_nodes tr) = (\<lambda>nid. if nid \<in> live then Some (fetch_node_descriptor meta nid) else None)"

lemma tracks_insert:
  "tracks_peers meta live tr \<Longrightarrow>
     tracks_peers meta (insert nid live) (tr\<lparr>mt_nodes := hm_insert nid (fetch_node_descriptor meta nid) (mt_nodes tr)\<rparr>)"
  by (simp add: tracks_peers_def fun_eq_iff)

lemma tracks_remove: "tracks_peers meta live tr \<Longrightarrow> tracks_peers meta (live - {nid}) (tr\<lparr>mt_nodes := hm_remove nid (mt_nodes tr)\<rparr>)"
  by (simp add: tracks_peers_def fun_eq_iff)

lemma watch_step_self: "mt_self (fst (watch_step meta agents_prefix s tr)) = mt_self tr"
  by (simp add: watch_step_def Let_def split: option.split)

lemma watch_step_tracks:
  assumes "tracks_peers meta live tr"
  shows "tracks_peers meta (live_after agents_prefix (node_id (mt_self tr)) [s] live) (fst (watch_step meta agents_prefix s tr))"
  using assms tracks_insert tracks_remove by (simp add: watch_step_def Let_def split: option.split)

lemma watch_run_tracks:
  "tracks_peers meta live tr \<Longrightarrow>
     tracks_peers meta (live_after agents_prefix (node_id (mt_self tr)) ss live) (watch_run meta agents_prefix ss tr)
     \<and> mt_self (watch_run meta agents_prefix ss tr) = mt_self tr"
proof (induction ss arbitrary: live tr)
  case (Cons s ss)
  note w = watch_step_tracks[OF Cons.prems, where agents_prefix = agents_prefix and s = s]
  show ?case using Cons.IH[OF w] watch_step_self[of meta agents_prefix s tr] by (simp add: watch_run_def)
qed (simp add: watch_run_def)

lemma tracker_new_tracks:
  "tracks_peers meta (live_after agents_prefix (node_id n) (map (\<lambda>k. (k, Put)) keys) {}) (tracker_new meta agents_prefix n keys)"
proof -
  have "tracks_peers meta (live_after agents_prefix (node_id n) (map (\<lambda>k. (k, Put)) keys) live)
      \<lparr>mt_self = n, mt_nodes = fold (\<lambda>key m. case peer_of_key agents_prefix (node_id n) key of
          None \<Rightarrow> m | Some nid \<Rightarrow> hm_insert nid (fetch_node_descriptor meta nid) m) keys m\<rparr>"
    if "tracks_peers meta live \<lparr>mt_self = n, mt_nodes = m\<rparr>" for live m
    using that
  proof (induction keys arbitrary: live m)
    case (Cons k ks)
    show ?case
    proof (cases "peer_of_key agents_prefix (node_id n) k")
      case None
      then show ?thesis using Cons by simp
    next
      case (Some nid)
      have "tracks_peers meta (insert nid live) \<lparr>mt_self = n, mt_nodes = hm_insert nid (fetch_node_descriptor meta nid) m\<rparr>"
        using tracks_insert[OF Cons.prems, of nid] by simp
      from Cons.IH[OF this] show ?thesis using Some by simp
    qed
  qed simp
  from this[of "{}" "[]"] show ?thesis by (simp add: tracker_new_def tracks_peers_def)
qed

section \<open>Placement does not depend on the order of the nodes\<close>

lemma sort_key_mset:
  assumes "mset xs = mset ys" and "inj_on f (set xs)"
  shows "sort_key f xs = sort_key f ys"
proof -
  have "map f (sort_key f zs) = sort (map f zs)" for zs
    by (rule properties_for_sort[symmetric]) simp_all
  then have "map f (sort_key f xs) = map f (sort_key f ys)"
    using assms(1) by (metis mset_map properties_for_sort mset_sort sorted_sort)
  moreover have "set xs = set ys" using assms(1) by (rule mset_eq_setD)
  ultimately show ?thesis using assms(2) by (auto intro: map_inj_on)
qed

lemma sort_desc_mset: "mset xs = mset ys \<Longrightarrow> inj_on f (set xs) \<Longrightarrow> sort_desc f xs = sort_desc f ys"
  using sort_key_mset[of "rev xs" "rev ys" f] by (simp add: sort_desc_def)

definition scores_distinct :: "(hash_input list \<Rightarrow> u64) \<Rightarrow> (u32 \<Rightarrow> u64 \<Rightarrow> 'f::linorder) \<Rightarrow> u32 \<Rightarrow> NodeDescriptor list \<Rightarrow> bool" where
  "scores_distinct H F p nodes \<longleftrightarrow> inj_on (score_of H F p) (set nodes)"

lemma placed_mset:
  assumes "mset xs = mset ys" and "scores_distinct H F p xs"
  shows "placed H F p rf xs = placed H F p rf ys"
proof -
  have "scored H F p xs = scored H F p ys"
    using sort_desc_mset[OF assms(1)] assms(2) by (simp add: scored_def scores_distinct_def)
  moreover have "set xs = set ys" using assms(1) by (rule mset_eq_setD)
  ultimately show ?thesis by (simp add: placed_def assign_replicas_def assign_replicas_rack_aware_def)
qed

text \<open>Placement names distinct nodes of the cluster, as many as there can be.\<close>

lemma placed_shape:
  assumes "distinct (map node_id nodes)"
  shows "distinct (placed H F p rf nodes)" and "set (placed H F p rf nodes) \<subseteq> node_id ` set nodes"
    and "length (placed H F p rf nodes) = min (unat rf) (length nodes)"
proof -
  have "distinct (placed H F p rf nodes) \<and> set (placed H F p rf nodes) \<subseteq> node_id ` set nodes
      \<and> length (placed H F p rf nodes) = min (unat rf) (length nodes)"
  proof (cases "\<exists>n \<in> set nodes. hm_get (labels n) ''rack'' \<noteq> None")
    case True
    then show ?thesis using rack_aware_picks[OF assms] by (simp add: placed_def)
  next
    case False
    then have pl: "placed H F p rf nodes = map node_id (take (unat rf) (scored H F p nodes))"
      by (simp add: placed_def assign_replicas_def)
    have "distinct (map node_id (take (unat rf) (scored H F p nodes)))" using assms by (simp add: take_map[symmetric])
    moreover have "set (take (unat rf) (scored H F p nodes)) \<subseteq> set nodes" using set_take_subset[of "unat rf" "scored H F p nodes"] by simp
    ultimately show ?thesis by (auto simp: pl)
  qed
  then show "distinct (placed H F p rf nodes)" "set (placed H F p rf nodes) \<subseteq> node_id ` set nodes"
    "length (placed H F p rf nodes) = min (unat rf) (length nodes)" by blast+
qed

section \<open>Ownership in a converged cluster\<close>

lemma desired_iff:
  "(p, r) \<in> set (compute_desired_assignment H F self n rf nodes ov) \<longleftrightarrow> p < n \<and> r < rf
     \<and> (case override_for ov p r of
          Some e \<Rightarrow> oe_node_id e = self
        | None \<Rightarrow> unat r < length (placed H F p rf nodes) \<and> placed H F p rf nodes ! unat r = self)"
proof -
  define C where "C p r \<longleftrightarrow> (case override_for ov p r of
      Some e \<Rightarrow> oe_node_id e = self
    | None \<Rightarrow> unat r < length (placed H F p rf nodes) \<and> placed H F p rf nodes ! unat r = self)" for p r
  have "compute_desired_assignment H F self n rf nodes ov
      = concat (map (\<lambda>p. concat (map (\<lambda>r. if C p r then [(p, r)] else []) (word_range 0 rf))) (word_range 0 n))"
    unfolding compute_desired_assignment_def Let_def C_def
    by (intro arg_cong[of _ _ concat] map_cong refl) (simp split: option.split)
  moreover have "(p, r) \<in> set (concat (map (\<lambda>p. concat (map (\<lambda>r. if C p r then [(p, r)] else []) (word_range 0 rf))) (word_range 0 n)))
      \<longleftrightarrow> p < n \<and> r < rf \<and> C p r"
    by (auto split: if_splits)
  ultimately show ?thesis by (simp add: C_def)
qed

text \<open>
  An agent of a cluster: its descriptor, the liveliness keys it found when it started and the
  liveliness samples it has received since.
\<close>

type_synonym agent = "NodeDescriptor \<times> string list \<times> (string \<times> SampleKind) list"

definition agent_tracker :: "(string \<Rightarrow> NodeMetadata option list) \<Rightarrow> string \<Rightarrow> agent \<Rightarrow> tracker" where
  "agent_tracker meta agents_prefix a = (case a of (n, keys, ss) \<Rightarrow> watch_run meta agents_prefix ss (tracker_new meta agents_prefix n keys))"

definition agent_live :: "string \<Rightarrow> agent \<Rightarrow> string set" where
  "agent_live agents_prefix a = (case a of (n, keys, ss) \<Rightarrow> live_after agents_prefix (node_id n) (map (\<lambda>k. (k, Put)) keys @ ss) {})"

lemma live_after_append: "live_after ap self (xs @ ys) live = live_after ap self ys (live_after ap self xs live)"
  by (induction xs arbitrary: live) simp_all

lemma agent_tracks:
  "tracks_peers meta (agent_live ap a) (agent_tracker meta ap a) \<and> mt_self (agent_tracker meta ap a) = fst a"
proof -
  obtain n keys ss where a: "a = (n, keys, ss)" by (cases a)
  have "mt_self (tracker_new meta ap n keys) = n" by (simp add: tracker_new_def)
  then show ?thesis
    using watch_run_tracks[OF tracker_new_tracks[of meta ap n keys], of ap ss]
    by (simp add: a agent_tracker_def agent_live_def live_after_append)
qed

lemma agent_sees_cluster:
  assumes "distinct (map node_id ns)" and "fst a \<in> set ns" and "agent_live ap a = node_id ` set ns - {node_id (fst a)}"
    and "\<forall>n \<in> set ns. fetch_node_descriptor meta (node_id n) = n"
  shows "mset (current_nodes (agent_tracker meta ap a)) = mset ns"
proof -
  let ?tr = "agent_tracker meta ap a"
  let ?m = "mt_nodes ?tr"
  have t: "hm_wf ?m" "hm_get ?m = (\<lambda>nid. if nid \<in> node_id ` set ns - {node_id (fst a)} then Some (fetch_node_descriptor meta nid) else None)"
    "mt_self ?tr = fst a"
    using agent_tracks[of meta ap a] assms(3) by (simp_all add: tracks_peers_def)
  have el: "x = (node_id (snd x), snd x) \<and> snd x \<in> set ns \<and> snd x \<noteq> fst a" if "x \<in> set ?m" for x
  proof -
    have "hm_get ?m (fst x) = Some (snd x)" using that map_of_eq_Some_iff[OF t(1), of "fst x" "snd x"] by simp
    then obtain n where n: "n \<in> set ns" "fst x = node_id n" "node_id n \<noteq> node_id (fst a)" "snd x = fetch_node_descriptor meta (node_id n)"
      using t(2) by (auto split: if_splits)
    then have "snd x = n" using assms(4) by simp
    then show ?thesis using n by (cases x) auto
  qed
  have "map node_id (map snd ?m) = map fst ?m" using el by (auto intro!: map_cong)
  then have d: "distinct (map node_id (map snd ?m))" using t(1) by (simp only:)
  have "set (map snd ?m) = set ns - {fst a}"
  proof
    show "set (map snd ?m) \<subseteq> set ns - {fst a}" using el by auto
    show "set ns - {fst a} \<subseteq> set (map snd ?m)"
    proof
      fix n assume n: "n \<in> set ns - {fst a}"
      then have "node_id n \<noteq> node_id (fst a)" using assms(1,2) by (auto simp: distinct_map inj_on_def)
      then have "hm_get ?m (node_id n) = Some n" using n t(2) assms(4) by simp
      then show "n \<in> set (map snd ?m)" by (force dest: map_of_SomeD)
    qed
  qed
  then have "set (current_nodes ?tr) = set ns" "distinct (current_nodes ?tr)"
    using assms(2) t(3) d[unfolded distinct_map[of node_id]] by (auto simp: current_nodes_def peer_nodes_def)
  moreover have "distinct ns" using assms(1) by (simp add: distinct_map)
  ultimately show ?thesis using set_eq_iff_mset_eq_distinct by blast
qed

text \<open>
  In a converged cluster every replica has one owner: when each agent's tracker has processed
  liveliness samples that leave exactly the other agents alive, whatever else it saw before and in
  whatever order, then the agents that want to run replica \<open>r\<close> of partition \<open>p\<close> are exactly the
  placed node, or exactly the node an override names, and nobody for a replica beyond the size of the
  cluster; without overrides no agent runs two replicas of one partition.
\<close>

theorem replicas_owned_once:
  fixes H F meta ap n rf ov and cluster :: "agent list"
  defines "ns \<equiv> map fst cluster"
  defines "wants \<equiv> \<lambda>a. set (compute_desired_assignment H F (node_id (fst a)) n rf (current_nodes (agent_tracker meta ap a)) ov)"
  assumes "distinct (map node_id ns)" and "\<forall>m \<in> set ns. fetch_node_descriptor meta (node_id m) = m"
    and "\<forall>a \<in> set cluster. agent_live ap a = node_id ` set ns - {node_id (fst a)}"
    and "scores_distinct H F p ns" and "p < n" and "r < rf"
  shows "node_id ` fst ` {a \<in> set cluster. (p, r) \<in> wants a}
      = (case override_for ov p r of
           Some e \<Rightarrow> {oe_node_id e} \<inter> node_id ` set ns
         | None \<Rightarrow> if unat r < length ns then {placed H F p rf ns ! unat r} else {})
    \<and> (\<forall>a \<in> set cluster. \<forall>r'. override_for ov p r = None \<longrightarrow> override_for ov p r' = None \<longrightarrow> (p, r) \<in> wants a \<longrightarrow> (p, r') \<in> wants a \<longrightarrow> r' = r)"
proof
  have pl: "placed H F p rf (current_nodes (agent_tracker meta ap a)) = placed H F p rf ns" if a: "a \<in> set cluster" for a
  proof (rule placed_mset)
    show m: "mset (current_nodes (agent_tracker meta ap a)) = mset ns"
      using agent_sees_cluster[OF assms(3) _ _ assms(4)] assms(5) a by (simp add: ns_def)
    show "scores_distinct H F p (current_nodes (agent_tracker meta ap a))"
      using assms(6) mset_eq_setD[OF m] by (simp add: scores_distinct_def)
  qed
  have w: "(p, r') \<in> wants a \<longleftrightarrow> r' < rf \<and> (case override_for ov p r' of
      Some e \<Rightarrow> oe_node_id e = node_id (fst a)
    | None \<Rightarrow> unat r' < length (placed H F p rf ns) \<and> placed H F p rf ns ! unat r' = node_id (fst a))" if "a \<in> set cluster" for a r'
    unfolding wants_def desired_iff pl[OF that] using assms(7) by simp
  note sh = placed_shape[OF assms(3), of H F p rf]
  have len: "unat r < length (placed H F p rf ns) \<longleftrightarrow> unat r < length ns" using sh(3) assms(8) by (simp add: word_less_nat_alt)
  have im: "node_id ` fst ` {a \<in> set cluster. node_id (fst a) = x} = {x} \<inter> node_id ` set ns" for x
    unfolding ns_def by (force simp: image_iff)
  show "node_id ` fst ` {a \<in> set cluster. (p, r) \<in> wants a}
      = (case override_for ov p r of
           Some e \<Rightarrow> {oe_node_id e} \<inter> node_id ` set ns
         | None \<Rightarrow> if unat r < length ns then {placed H F p rf ns ! unat r} else {})"
  proof (cases "override_for ov p r")
    case (Some e)
    then have "{a \<in> set cluster. (p, r) \<in> wants a} = {a \<in> set cluster. node_id (fst a) = oe_node_id e}" using w assms(8) by auto
    then show ?thesis using Some im by simp
  next
    case None
    then have s: "{a \<in> set cluster. (p, r) \<in> wants a} = {a \<in> set cluster. unat r < length ns \<and> node_id (fst a) = placed H F p rf ns ! unat r}"
      using w assms(8) len by auto
    show ?thesis
    proof (cases "unat r < length ns")
      case True
      then have "placed H F p rf ns ! unat r \<in> node_id ` set ns" using sh(2) len nth_mem by blast
      then show ?thesis using None s True im by simp
    qed (use None s in simp)
  qed
  show "\<forall>a \<in> set cluster. \<forall>r'. override_for ov p r = None \<longrightarrow> override_for ov p r' = None \<longrightarrow> (p, r) \<in> wants a \<longrightarrow> (p, r') \<in> wants a \<longrightarrow> r' = r"
  proof (intro ballI allI impI)
    fix a r' assume a: "a \<in> set cluster" "override_for ov p r = None" "override_for ov p r' = None" "(p, r) \<in> wants a" "(p, r') \<in> wants a"
    then have "unat r' = unat r" using w[OF a(1), of r] w[OF a(1), of r'] nth_eq_iff_index_eq[OF sh(1), of "unat r'" "unat r"] by simp
    then show "r' = r" by (simp add: word_unat_eq_iff)
  qed
qed

definition demo_cluster :: "agent list" where
  "demo_cluster = [(node_new ''a'', [''t/b'', ''t/c''], [(''t/c'', Delete)]), (node_new ''b'', [], [(''t/a'', Put)])]"

lemma demo_cluster_facts:
  "map fst demo_cluster = [node_new ''a'', node_new ''b'']"
  "\<forall>a \<in> set demo_cluster. agent_live ''t'' a = node_id ` set (map fst demo_cluster) - {node_id (fst a)}"
  "scores_distinct demo_hash (\<lambda>w h. h) 1 (map fst demo_cluster)"
proof -
  show c: "map fst demo_cluster = [node_new ''a'', node_new ''b'']" by (simp add: demo_cluster_def)
  have "peer_of_key ''t'' ''a'' ''t/b'' = Some ''b''" "peer_of_key ''t'' ''a'' ''t/c'' = Some ''c''" "peer_of_key ''t'' ''b'' ''t/a'' = Some ''a''"
    by code_simp+
  then show "\<forall>a \<in> set demo_cluster. agent_live ''t'' a = node_id ` set (map fst demo_cluster) - {node_id (fst a)}"
    by (auto simp: c demo_cluster_def agent_live_def node_new_def)
  have "score_of demo_hash (\<lambda>w h. h) 1 (node_new ''a'') \<noteq> score_of demo_hash (\<lambda>w h. h) 1 (node_new ''b'')" by code_simp
  then show "scores_distinct demo_hash (\<lambda>w h. h) 1 (map fst demo_cluster)" by (auto simp: c scores_distinct_def)
qed

theorem replicas_owned_once_witness:
  "node_id ` fst ` {a \<in> set demo_cluster. (1, 0) \<in> set (compute_desired_assignment demo_hash (\<lambda>w h. h) (node_id (fst a)) 4 1
       (current_nodes (agent_tracker (\<lambda>_. []) ''t'' a)) override_default)}
   = {placed demo_hash (\<lambda>w h. h) 1 1 [node_new ''a'', node_new ''b''] ! 0}"
proof -
  have m: "\<forall>m \<in> set (map fst demo_cluster). fetch_node_descriptor (\<lambda>_. []) (node_id m) = m"
    unfolding demo_cluster_facts(1) by (simp add: fetch_node_descriptor_def node_new_def List.map_filter_simps)
  have d: "distinct (map node_id (map fst demo_cluster))" unfolding demo_cluster_facts(1) by (simp add: node_new_def)
  show ?thesis
    using replicas_owned_once[OF d m demo_cluster_facts(2,3), of 4 0 1 override_default]
    by (simp add: demo_cluster_facts(1) override_for_def override_default_def)
qed

end
