(* ===== verification/Config.thy ===== *)
theory Config
  imports Pipeline Publisher Event_Dedup
begin

text \<open>
  The configuration of the event bus (\<^verbatim>\<open>mitiflow/src/config.rs\<close>): the settings, the
  builder with its defaults and clamping setters, validation, and the keys derived from a
  configuration.  The fullness threshold of the offload is a floating-point number and the congestion
  control is a type of Zenoh; both are type parameters.  A file path is a string.
\<close>

section \<open>Settings\<close>

datatype CodecFormat = Json | MsgPack | Postcard

definition codec_default :: CodecFormat where
  "codec_default = Postcard"

datatype TopicSchemaMode = SchemaDisabled | Validate | AutoConfig | RegisterOrValidate

definition schema_mode_default :: TopicSchemaMode where
  "schema_mode_default = SchemaDisabled"

datatype OffsetReset = ResetEarliest | ResetLatest

record ('f, 'q) EventBusConfig =
  bc_key_prefix :: string
  bc_codec :: CodecFormat
  bc_cache_size :: nat
  bc_heartbeat :: HeartbeatMode
  bc_congestion_control :: 'q
  bc_recovery_mode :: RecoveryMode
  bc_history_on_subscribe :: bool
  bc_num_processing_shards :: nat
  bc_publisher_ttl :: "Duration option"
  bc_recovery_delay :: Duration
  bc_max_recovery_attempts :: u32
  bc_event_channel_capacity :: nat
  bc_dedup_capacity :: nat
  bc_store_key_prefix :: "string option"
  bc_store_path :: "string option"
  bc_watermark_key :: "string option"
  bc_watermark_interval :: Duration
  bc_durable_timeout :: Duration
  bc_durable_urgency :: Duration
  bc_store_workers :: nat
  bc_compaction_interval :: "Duration option"
  bc_tombstone_retention :: "Duration option"
  bc_offload :: "'f OffloadConfig"
  bc_num_partitions :: u32
  bc_worker_id :: "string option"
  bc_worker_liveliness_prefix :: "string option"
  bc_schema_mode :: TopicSchemaMode

text \<open>The builder holds the same fields as the configuration it builds.\<close>

type_synonym ('f, 'q) EventBusConfigBuilder = "('f, 'q) EventBusConfig"

abbreviation millis :: "nat \<Rightarrow> Duration" where
  "millis n \<equiv> n * 1000000"

abbreviation secs :: "nat \<Rightarrow> Duration" where
  "secs n \<equiv> n * 1000000000"

definition builder_new :: "'f \<Rightarrow> 'q \<Rightarrow> string \<Rightarrow> ('f, 'q) EventBusConfigBuilder" where
  "builder_new threshold_0_8 block key_prefix = \<lparr>bc_key_prefix = key_prefix, bc_codec = codec_default, bc_cache_size = 256,
     bc_heartbeat = Sporadic (secs 1), bc_congestion_control = block, bc_recovery_mode = Both, bc_history_on_subscribe = True,
     bc_num_processing_shards = 1, bc_publisher_ttl = None, bc_recovery_delay = millis 50, bc_max_recovery_attempts = 3,
     bc_event_channel_capacity = 1024, bc_dedup_capacity = 10000, bc_store_key_prefix = None, bc_store_path = None,
     bc_watermark_key = None, bc_watermark_interval = secs 1, bc_durable_timeout = secs 5, bc_durable_urgency = millis 100,
     bc_store_workers = 1, bc_compaction_interval = None, bc_tombstone_retention = None,
     bc_offload = offload_config_default threshold_0_8, bc_num_partitions = 64, bc_worker_id = None,
     bc_worker_liveliness_prefix = None, bc_schema_mode = schema_mode_default\<rparr>"

section \<open>Setters\<close>

datatype ('f, 'q) setting =
    SetCacheSize nat | SetCodec CodecFormat | SetHeartbeat HeartbeatMode | SetCongestionControl 'q | SetRecoveryMode RecoveryMode
  | SetHistoryOnSubscribe bool | SetNumProcessingShards nat | SetPublisherTtl Duration | SetRecoveryDelay Duration
  | SetMaxRecoveryAttempts u32 | SetEventChannelCapacity nat | SetDedupCapacity nat | SetStoreKeyPrefix string | SetStorePath string
  | SetWatermarkKey string | SetWatermarkInterval Duration | SetDurableTimeout Duration | SetDurableUrgency Duration
  | SetStoreWorkers nat | SetCompactionInterval Duration | SetTombstoneRetention Duration | SetOffload "'f OffloadConfig"
  | SetNumPartitions u32 | SetWorkerId string | SetWorkerLivelinessPrefix string | SetSchemaMode TopicSchemaMode

text \<open>One call of a setter of the builder.\<close>

fun apply_setting :: "('f, 'q) setting \<Rightarrow> ('f, 'q) EventBusConfigBuilder \<Rightarrow> ('f, 'q) EventBusConfigBuilder" where
  "apply_setting (SetCacheSize n) b = b\<lparr>bc_cache_size := n\<rparr>"
| "apply_setting (SetCodec c) b = b\<lparr>bc_codec := c\<rparr>"
| "apply_setting (SetHeartbeat m) b = b\<lparr>bc_heartbeat := m\<rparr>"
| "apply_setting (SetCongestionControl c) b = b\<lparr>bc_congestion_control := c\<rparr>"
| "apply_setting (SetRecoveryMode m) b = b\<lparr>bc_recovery_mode := m\<rparr>"
| "apply_setting (SetHistoryOnSubscribe e) b = b\<lparr>bc_history_on_subscribe := e\<rparr>"
| "apply_setting (SetNumProcessingShards n) b = b\<lparr>bc_num_processing_shards := max n 1\<rparr>"
| "apply_setting (SetPublisherTtl d) b = b\<lparr>bc_publisher_ttl := Some d\<rparr>"
| "apply_setting (SetRecoveryDelay d) b = b\<lparr>bc_recovery_delay := d\<rparr>"
| "apply_setting (SetMaxRecoveryAttempts n) b = b\<lparr>bc_max_recovery_attempts := n\<rparr>"
| "apply_setting (SetEventChannelCapacity n) b = b\<lparr>bc_event_channel_capacity := max n 1\<rparr>"
| "apply_setting (SetDedupCapacity n) b = b\<lparr>bc_dedup_capacity := max n 1\<rparr>"
| "apply_setting (SetStoreKeyPrefix p) b = b\<lparr>bc_store_key_prefix := Some p\<rparr>"
| "apply_setting (SetStorePath p) b = b\<lparr>bc_store_path := Some p\<rparr>"
| "apply_setting (SetWatermarkKey k) b = b\<lparr>bc_watermark_key := Some k\<rparr>"
| "apply_setting (SetWatermarkInterval d) b = b\<lparr>bc_watermark_interval := d\<rparr>"
| "apply_setting (SetDurableTimeout d) b = b\<lparr>bc_durable_timeout := d\<rparr>"
| "apply_setting (SetDurableUrgency d) b = b\<lparr>bc_durable_urgency := d\<rparr>"
| "apply_setting (SetStoreWorkers n) b = b\<lparr>bc_store_workers := max n 1\<rparr>"
| "apply_setting (SetCompactionInterval d) b = b\<lparr>bc_compaction_interval := Some d\<rparr>"
| "apply_setting (SetTombstoneRetention d) b = b\<lparr>bc_tombstone_retention := Some d\<rparr>"
| "apply_setting (SetOffload c) b = b\<lparr>bc_offload := c\<rparr>"
| "apply_setting (SetNumPartitions n) b = b\<lparr>bc_num_partitions := n\<rparr>"
| "apply_setting (SetWorkerId i) b = b\<lparr>bc_worker_id := Some i\<rparr>"
| "apply_setting (SetWorkerLivelinessPrefix p) b = b\<lparr>bc_worker_liveliness_prefix := Some p\<rparr>"
| "apply_setting (SetSchemaMode m) b = b\<lparr>bc_schema_mode := m\<rparr>"

definition config_build :: "('f, 'q) EventBusConfigBuilder \<Rightarrow> ('f, 'q) EventBusConfig result" where
  "config_build b = (if bc_key_prefix b = [] then Err (InvalidConfig ''key_prefix must not be empty'') else Ok b)"

definition configure :: "'f \<Rightarrow> 'q \<Rightarrow> string \<Rightarrow> ('f, 'q) setting list \<Rightarrow> ('f, 'q) EventBusConfig result" where
  "configure threshold_0_8 block key_prefix ss = config_build (fold apply_setting ss (builder_new threshold_0_8 block key_prefix))"

section \<open>Derived keys\<close>

definition resolve_key :: "('f, 'q) EventBusConfig \<Rightarrow> string option \<Rightarrow> string \<Rightarrow> string" where
  "resolve_key c specific suffix = (case specific of Some k \<Rightarrow> k | None \<Rightarrow> bc_key_prefix c @ ''/'' @ suffix)"

definition resolved_store_key_prefix :: "('f, 'q) EventBusConfig \<Rightarrow> string" where
  "resolved_store_key_prefix c = resolve_key c (bc_store_key_prefix c) ''_store''"

definition resolved_watermark_key :: "('f, 'q) EventBusConfig \<Rightarrow> string" where
  "resolved_watermark_key c = resolve_key c (bc_watermark_key c) ''_watermark''"

definition resolved_worker_liveliness_prefix :: "('f, 'q) EventBusConfig \<Rightarrow> string" where
  "resolved_worker_liveliness_prefix c = resolve_key c (bc_worker_liveliness_prefix c) ''_workers''"

definition key_expr_for_key :: "('f, 'q) EventBusConfig \<Rightarrow> string \<Rightarrow> string" where
  "key_expr_for_key c key = bc_key_prefix c @ ''/p/*/k/'' @ key @ ''/*''"

definition key_expr_for_key_prefix :: "('f, 'q) EventBusConfig \<Rightarrow> string \<Rightarrow> string" where
  "key_expr_for_key_prefix c key_prefix = bc_key_prefix c @ ''/p/*/k/'' @ key_prefix @ ''/**''"

section \<open>Well-formed configurations\<close>

text \<open>
  What the rest of the bus relies on: a key prefix, at least one shard, and room for at least one
  element in every bounded structure.
\<close>

definition config_wf :: "('f, 'q) EventBusConfig \<Rightarrow> bool" where
  "config_wf c \<longleftrightarrow> bc_key_prefix c \<noteq> [] \<and> 1 \<le> bc_num_processing_shards c \<and> 1 \<le> bc_event_channel_capacity c
     \<and> 1 \<le> bc_dedup_capacity c \<and> 1 \<le> bc_store_workers c"

lemma apply_setting_frame: "bc_key_prefix (apply_setting s b) = bc_key_prefix b"
  by (cases s) simp_all

lemma apply_setting_wf: "config_wf b \<Longrightarrow> config_wf (apply_setting s b)"
  by (cases s) (simp_all add: config_wf_def)

lemma fold_settings_prefix: "bc_key_prefix (fold apply_setting ss b) = bc_key_prefix b"
  by (induction ss arbitrary: b) (simp_all add: apply_setting_frame)

lemma fold_settings_wf: "config_wf b \<Longrightarrow> config_wf (fold apply_setting ss b)"
  by (induction ss arbitrary: b) (simp_all add: apply_setting_wf)

lemma configure_cases:
  "case configure threshold block kp ss of
     Err e \<Rightarrow> kp = [] \<and> e = InvalidConfig ''key_prefix must not be empty''
   | Ok c \<Rightarrow> kp \<noteq> [] \<and> bc_key_prefix c = kp \<and> config_wf c"
proof -
  have "kp \<noteq> [] \<Longrightarrow> config_wf (builder_new threshold block kp)" by (simp add: config_wf_def builder_new_def)
  moreover have "bc_key_prefix (builder_new threshold block kp) = kp" by (simp add: builder_new_def)
  ultimately show ?thesis
    using fold_settings_prefix[of ss "builder_new threshold block kp"] fold_settings_wf[of "builder_new threshold block kp" ss]
    by (simp add: configure_def config_build_def)
qed

text \<open>
  What the setters and the builder guarantee: whatever setters are called, in whatever
  order and with whatever values, the result is an error exactly when the key prefix is empty, and
  otherwise a configuration with that prefix, at least one shard and store worker, and channel and
  deduplication capacities of at least one.
\<close>

theorem configured_is_well_formed:
  "case configure threshold block kp ss of
     Err e \<Rightarrow> kp = [] \<and> e = InvalidConfig ''key_prefix must not be empty''
   | Ok c \<Rightarrow> kp \<noteq> [] \<and> bc_key_prefix c = kp \<and> config_wf c"
  by (rule configure_cases)

section \<open>Routing bounds\<close>

text \<open>The part of a configuration that a publisher reads.\<close>

definition publisher_config :: "('f, 'q) EventBusConfig \<Rightarrow> PublisherConfig" where
  "publisher_config c = \<lparr>pc_key_prefix = bc_key_prefix c, pc_cache_size = bc_cache_size c, pc_num_partitions = bc_num_partitions c,
     pc_durable_urgency = bc_durable_urgency c\<rparr>"

lemma unat_bound: "unat (n :: u32) < 4294967296"
  using unsigned_less[of n] by simp

lemma ucast_mod_less:
  fixes x :: u64 and n :: u32
  assumes "0 < n"
  shows "(ucast (x mod ucast n) :: u32) < n"
proof -
  have u: "unat (ucast n :: u64) = unat n" using unat_bound[of n] by (simp add: unsigned_ucast_eq take_bit_nat_eq_self)
  have "unat (x mod ucast n) = unat x mod unat n" by (simp add: unat_mod u)
  moreover have "unat x mod unat n < unat n" using assms by (simp add: word_less_nat_alt)
  ultimately have "unat (ucast (x mod ucast n) :: u32) = unat x mod unat n" "unat x mod unat n < unat n"
    using unat_bound[of n] by (simp_all add: unsigned_ucast_eq take_bit_nat_eq_self)
  then show ?thesis by (simp add: word_less_nat_alt)
qed


definition demo_config :: "(nat, nat) EventBusConfig" where
  "demo_config = apply_setting (SetDurableUrgency (millis 100000)) (apply_setting (SetNumProcessingShards 0) (builder_new 0 0 ''t''))"


text \<open>
  The builder accepts zero partitions although it is documented to validate all fields; a keyed publish
  with such a configuration divides by zero.
\<close>

theorem zero_partitions_accepted:
  "\<exists>c. configure threshold block ''t'' [SetNumPartitions 0] = Ok c \<and> partition_for H key (bc_num_partitions c) = None"
  by (simp add: configure_def config_build_def builder_new_def partition_for_def)

end
