(* ===== verification/Schema.thy ===== *)
theory Schema
  imports Config Session_Io
begin

text \<open>
  The topic schema registry: schemas, validation and the resolution protocol of publishers and
  subscribers (\<^verbatim>\<open>mitiflow/src/schema.rs\<close>), the persistent schema store of a storage agent
  (\<^verbatim>\<open>mitiflow-storage/src/schema_store.rs\<close>) and the schema tasks of its topic workers
  (\<^verbatim>\<open>mitiflow-storage/src/topic_worker.rs\<close>).  JSON and the storage engine are parameters.
\<close>

section \<open>Schemas\<close>

datatype KeyFormat = Unkeyed | Keyed | KeyPrefixed

record TopicSchema =
  ts_name :: string
  ts_key_prefix :: string
  ts_codec :: CodecFormat
  ts_num_partitions :: u32
  ts_key_format :: KeyFormat
  ts_schema_version :: u32
  ts_created_at :: DateTime
  ts_updated_at :: DateTime

definition codec_debug :: "CodecFormat \<Rightarrow> string" where
  "codec_debug c = (case c of Json \<Rightarrow> ''Json'' | MsgPack \<Rightarrow> ''MsgPack'' | Postcard \<Rightarrow> ''Postcard'')"

definition schema_from_config :: "DateTime \<Rightarrow> ('f, 'q) EventBusConfig \<Rightarrow> string \<Rightarrow> KeyFormat \<Rightarrow> TopicSchema" where
  "schema_from_config now config name key_format = \<lparr>ts_name = name, ts_key_prefix = bc_key_prefix config, ts_codec = bc_codec config,
     ts_num_partitions = bc_num_partitions config, ts_key_format = key_format, ts_schema_version = 1, ts_created_at = now, ts_updated_at = now\<rparr>"

definition schema_new :: "DateTime \<Rightarrow> string \<Rightarrow> string \<Rightarrow> u32 \<Rightarrow> CodecFormat \<Rightarrow> KeyFormat \<Rightarrow> u32 \<Rightarrow> TopicSchema" where
  "schema_new now key_prefix name num_partitions codec key_format schema_version = \<lparr>ts_name = name, ts_key_prefix = key_prefix,
     ts_codec = codec, ts_num_partitions = num_partitions, ts_key_format = key_format, ts_schema_version = schema_version,
     ts_created_at = now, ts_updated_at = now\<rparr>"

definition schema_validate :: "TopicSchema \<Rightarrow> ('f, 'q) EventBusConfig \<Rightarrow> unit result" where
  "schema_validate s config =
     (if bc_codec config \<noteq> ts_codec s
      then Err (TopicSchemaMismatch ''codec'' (codec_debug (bc_codec config)) (codec_debug (ts_codec s)))
      else if bc_num_partitions config \<noteq> ts_num_partitions s
      then Err (TopicSchemaMismatch ''num_partitions'' (show_word (bc_num_partitions config)) (show_word (ts_num_partitions s)))
      else Ok ())"

definition apply_to_config :: "TopicSchema \<Rightarrow> ('f, 'q) EventBusConfig \<Rightarrow> ('f, 'q) EventBusConfig" where
  "apply_to_config s config = config\<lparr>bc_codec := ts_codec s, bc_num_partitions := ts_num_partitions s, bc_key_prefix := ts_key_prefix s\<rparr>"

definition schema_key :: "string \<Rightarrow> string" where
  "schema_key key_prefix = key_prefix @ ''/_schema''"

section \<open>Resolution\<close>

fun first_schema :: "TopicSchema commit_codec \<Rightarrow> string \<Rightarrow> bytes option list \<Rightarrow> TopicSchema result" where
  "first_schema js key_prefix [] = Err (TopicSchemaNotFound key_prefix)"
| "first_schema js key_prefix (Some bytes # _) = cc_from_slice js bytes"
| "first_schema js key_prefix (None # replies) = first_schema js key_prefix replies"

definition fetch_schema :: "'s session_io \<Rightarrow> TopicSchema commit_codec \<Rightarrow> string \<Rightarrow> 's \<Rightarrow> 's \<times> TopicSchema result" where
  "fetch_schema io js key_prefix st =
     (case io_get io (schema_key key_prefix) None st of
        (st', Err e) \<Rightarrow> (st', Err e)
      | (st', Ok replies) \<Rightarrow> (st', first_schema js key_prefix replies))"

definition register_schema :: "'s session_io \<Rightarrow> TopicSchema commit_codec \<Rightarrow> TopicSchema \<Rightarrow> 's \<Rightarrow> 's \<times> unit result" where
  "register_schema io js s st =
     (case cc_to_vec js s of
        Err e \<Rightarrow> (st, Err e)
      | Ok bytes \<Rightarrow> io_put io (schema_key (ts_key_prefix s)) bytes st)"

text \<open>
  The result holds the resolved configuration and, when this participant has registered a schema of
  its own, that schema.
\<close>

definition resolve_schema ::
  "'s session_io \<Rightarrow> TopicSchema commit_codec \<Rightarrow> DateTime \<Rightarrow> ('f, 'q) EventBusConfig \<Rightarrow> 's
    \<Rightarrow> 's \<times> (('f, 'q) EventBusConfig \<times> TopicSchema option) result"
where
  "resolve_schema io js now config st =
     (case bc_schema_mode config of
        SchemaDisabled \<Rightarrow> (st, Ok (config, None))
      | Validate \<Rightarrow>
          (let (st1, r) = fetch_schema io js (bc_key_prefix config) st in
           (st1, rbind r (\<lambda>s. rbind (schema_validate s config) (\<lambda>_. Ok (config, None)))))
      | AutoConfig \<Rightarrow>
          (let (st1, r) = fetch_schema io js (bc_key_prefix config) st in
           (st1, rbind r (\<lambda>s. Ok (apply_to_config s config, None))))
      | RegisterOrValidate \<Rightarrow>
          (case fetch_schema io js (bc_key_prefix config) st of
             (st1, Ok s) \<Rightarrow> (st1, rbind (schema_validate s config) (\<lambda>_. Ok (config, None)))
           | (st1, Err (TopicSchemaNotFound _)) \<Rightarrow>
               (let s = schema_from_config now config (bc_key_prefix config) Unkeyed;
                    (st2, r) = register_schema io js s st1 in
                (st2, rbind r (\<lambda>_. Ok (config, Some s))))
           | (st1, Err e) \<Rightarrow> (st1, Err e)))"

definition config_from_topic ::
  "'s session_io \<Rightarrow> TopicSchema commit_codec \<Rightarrow> 'f \<Rightarrow> 'q \<Rightarrow> string \<Rightarrow> 's \<Rightarrow> 's \<times> ('f, 'q) EventBusConfig result"
where
  "config_from_topic io js threshold_0_8 block key_prefix st =
     (let (st1, r) = fetch_schema io js key_prefix st in
      (st1, rbind r (\<lambda>s. rbind (configure threshold_0_8 block key_prefix []) (\<lambda>config. Ok (apply_to_config s config)))))"

section \<open>The schema store of an agent\<close>

datatype AgentError = AgentZenoh string | AgentStore string | AgentRecovery string | AgentConfig string | AgentJson string

definition agent_store :: "(error \<Rightarrow> string) \<Rightarrow> error + 'a \<Rightarrow> AgentError + 'a" where
  "agent_store display r = (case r of Ok x \<Rightarrow> Ok x | Err e \<Rightarrow> Err (AgentStore (display e)))"

definition schema_get ::
  "'d fjall_ops \<Rightarrow> TopicSchema commit_codec \<Rightarrow> (error \<Rightarrow> string) \<Rightarrow> string \<Rightarrow> 'd \<Rightarrow> AgentError + TopicSchema option"
where
  "schema_get ops js display key_prefix d =
     (case kv_get ops d Schemas (as_bytes key_prefix) of
        Err e \<Rightarrow> Err (AgentStore e)
      | Ok (Some bytes) \<Rightarrow> rbind (agent_store display (cc_from_slice js bytes)) (\<lambda>s. Ok (Some s))
      | Ok None \<Rightarrow> Ok None)"

definition schema_put ::
  "'d fjall_ops \<Rightarrow> TopicSchema commit_codec \<Rightarrow> (error \<Rightarrow> string) \<Rightarrow> TopicSchema \<Rightarrow> 'd \<Rightarrow> 'd \<times> (AgentError + unit)"
where
  "schema_put ops js display s d =
     (case agent_store display (cc_to_vec js s) of
        Err e \<Rightarrow> (d, Err e)
      | Ok bytes \<Rightarrow>
          (let (d', r) = kv_insert ops d Schemas (as_bytes (ts_key_prefix s)) bytes in
           (d', case r of Err e \<Rightarrow> Err (AgentStore e) | Ok _ \<Rightarrow> Ok ())))"

definition same_contract :: "TopicSchema \<Rightarrow> TopicSchema \<Rightarrow> bool" where
  "same_contract s t \<longleftrightarrow> ts_codec s = ts_codec t \<and> ts_num_partitions s = ts_num_partitions t \<and> ts_key_format s = ts_key_format t"

definition put_if_newer ::
  "'d fjall_ops \<Rightarrow> TopicSchema commit_codec \<Rightarrow> (error \<Rightarrow> string) \<Rightarrow> TopicSchema \<Rightarrow> 'd \<Rightarrow> 'd \<times> (AgentError + bool)"
where
  "put_if_newer ops js display s d =
     (case schema_get ops js display (ts_key_prefix s) d of
        Err e \<Rightarrow> (d, Err e)
      | Ok (Some existing) \<Rightarrow>
          if ts_schema_version s < ts_schema_version existing then (d, Ok False)
          else if ts_schema_version s = ts_schema_version existing then (d, Ok (same_contract s existing))
          else (let (d', r) = schema_put ops js display s d in (d', rbind r (\<lambda>_. Ok True)))
      | Ok None \<Rightarrow> (let (d', r) = schema_put ops js display s d in (d', rbind r (\<lambda>_. Ok True))))"

section \<open>Schema tasks of the topic workers\<close>

text \<open>An agent runs a worker for each of its topics; they share one schema store.\<close>

record 'd schema_agent =
  sa_topics :: "string list"
  sa_db :: 'd

definition strip_suffix :: "string \<Rightarrow> string \<Rightarrow> string option" where
  "strip_suffix p s = map_option rev (strip_prefix (rev p) (rev s))"

definition schema_received ::
  "'d fjall_ops \<Rightarrow> TopicSchema commit_codec \<Rightarrow> (error \<Rightarrow> string) \<Rightarrow> bytes \<Rightarrow> 'd \<Rightarrow> 'd"
where
  "schema_received ops js display payload d =
     (case cc_from_slice js payload of Ok s \<Rightarrow> fst (put_if_newer ops js display s d) | Err _ \<Rightarrow> d)"

definition schema_reply ::
  "'d fjall_ops \<Rightarrow> TopicSchema commit_codec \<Rightarrow> (error \<Rightarrow> string) \<Rightarrow> string \<Rightarrow> 'd \<Rightarrow> bytes option list"
where
  "schema_reply ops js display key d =
     (case schema_get ops js display (case strip_suffix ''/_schema'' key of Some p \<Rightarrow> p | None \<Rightarrow> key) d of
        Ok (Some s) \<Rightarrow> (case cc_to_vec js s of Ok bytes \<Rightarrow> [Some bytes] | Err _ \<Rightarrow> [])
      | _ \<Rightarrow> [])"

text \<open>What a worker does when it starts: without a schema of its own it asks the network for one.\<close>

definition schema_bootstrap ::
  "'d fjall_ops \<Rightarrow> TopicSchema commit_codec \<Rightarrow> (error \<Rightarrow> string) \<Rightarrow> string \<Rightarrow> TopicSchema result \<Rightarrow> 'd \<Rightarrow> 'd"
where
  "schema_bootstrap ops js display key_prefix fetched d =
     (case schema_get ops js display key_prefix d of
        Ok (Some _) \<Rightarrow> d
      | _ \<Rightarrow> (case fetched of Ok s \<Rightarrow> fst (put_if_newer ops js display s d) | Err _ \<Rightarrow> d))"

text \<open>The schema keys of running agents as a session.\<close>

definition agents_io ::
  "'d fjall_ops \<Rightarrow> TopicSchema commit_codec \<Rightarrow> (error \<Rightarrow> string) \<Rightarrow> 'd schema_agent list session_io"
where
  "agents_io ops js display = \<lparr>
     io_get = \<lambda>key payload agents.
       (agents, Ok (concat (map (\<lambda>a. concat (map (\<lambda>t. if schema_key t = key then schema_reply ops js display key (sa_db a) else []) (sa_topics a))) agents))),
     io_put = \<lambda>key payload agents.
       (map (\<lambda>a. a\<lparr>sa_db := fold (\<lambda>t d. if schema_key t = key then schema_received ops js display payload d else d) (sa_topics a) (sa_db a)\<rparr>) agents, Ok ())\<rparr>"

section \<open>Versions and contracts\<close>

definition stored_schema :: "TopicSchema commit_codec \<Rightarrow> view \<Rightarrow> string \<Rightarrow> TopicSchema option" where
  "stored_schema js w key_prefix =
     Option.bind (w Schemas (as_bytes key_prefix)) (\<lambda>bytes. case cc_from_slice js bytes of Ok s \<Rightarrow> Some s | Err _ \<Rightarrow> None)"

definition schemas_ok :: "TopicSchema commit_codec \<Rightarrow> view \<Rightarrow> bool" where
  "schemas_ok js w \<longleftrightarrow> (\<forall>kp bytes. w Schemas (as_bytes kp) = Some bytes \<longrightarrow> (\<exists>s. cc_from_slice js bytes = Ok s \<and> ts_key_prefix s = kp))"

text \<open>The schema \<open>t\<close> may follow \<open>s\<close>: a higher version, or the same version with the same contract.\<close>

definition follows :: "TopicSchema \<Rightarrow> TopicSchema \<Rightarrow> bool" where
  "follows t s \<longleftrightarrow> ts_schema_version s < ts_schema_version t \<or> ts_schema_version s = ts_schema_version t \<and> same_contract t s"

lemma follows_refl [simp]: "follows s s"
  by (simp add: follows_def same_contract_def)

lemma follows_trans: "follows u t \<Longrightarrow> follows t s \<Longrightarrow> follows u s"
  by (auto simp: follows_def same_contract_def)

lemma schema_get_stored:
  assumes "fjall_ok ops vw" and "schema_get ops js display kp d = Ok r"
  shows "r = stored_schema js (vw d) kp"
  using assms fjall_get[OF assms(1), of d Schemas "as_bytes kp"]
  by (cases "kv_get ops d Schemas (as_bytes kp)")
    (auto simp: schema_get_def stored_schema_def agent_store_def split: option.splits sum.splits)

lemma fjall_commit_either:
  assumes "fjall_ok ops vw" and "kv_commit ops d b = (d', q)"
  shows "vw d' = vw d \<or> vw d' = fold apply_op b (vw d)"
proof (cases q)
  case (Inl e)
  then show ?thesis using assms unfolding fjall_ok_def by blast
next
  case (Inr u)
  then show ?thesis using fjall_commit[OF assms(1), of d b d'] assms(2) by simp
qed

text \<open>A received schema is stored, or nothing changes; it is stored only over an older version.\<close>

lemma schema_put_view:
  assumes "fjall_ok ops vw" and "schema_put ops js display s d = (d', r)"
  shows "vw d' Schemas = vw d Schemas
    \<or> (\<exists>bytes. cc_to_vec js s = Ok bytes \<and> vw d' Schemas = (vw d Schemas)(as_bytes (ts_key_prefix s) \<mapsto> bytes))"
proof (cases "cc_to_vec js s")
  case (Inr bytes)
  obtain q where c: "kv_commit ops d [BInsert Schemas (as_bytes (ts_key_prefix s)) bytes] = (d', q)"
    using assms(2) Inr by (auto simp: schema_put_def agent_store_def kv_insert_def Let_def split: prod.splits)
  have "vw d' = vw d \<or> vw d' = fold apply_op [BInsert Schemas (as_bytes (ts_key_prefix s)) bytes] (vw d)"
    using fjall_commit_either[OF assms(1) c] .
  then show ?thesis using Inr by auto
qed (use assms(2) in \<open>simp add: schema_put_def agent_store_def\<close>)

lemma put_if_newer_view:
  assumes "fjall_ok ops vw" and "codec_ok js"
  shows "vw (fst (put_if_newer ops js display s d)) Schemas = vw d Schemas
    \<or> (\<exists>bytes. cc_from_slice js bytes = Ok s
        \<and> vw (fst (put_if_newer ops js display s d)) Schemas = (vw d Schemas)(as_bytes (ts_key_prefix s) \<mapsto> bytes)
        \<and> (\<forall>t. stored_schema js (vw d) (ts_key_prefix s) = Some t \<longrightarrow> ts_schema_version t < ts_schema_version s))"
    (is "?same (put_if_newer ops js display s d) \<or> ?stored (put_if_newer ops js display s d)")
proof (cases "schema_get ops js display (ts_key_prefix s) d")
  case (Inr g)
  have g: "g = stored_schema js (vw d) (ts_key_prefix s)" by (rule schema_get_stored[OF assms(1) Inr])
  obtain d' q where p: "schema_put ops js display s d = (d', q)" by (cases "schema_put ops js display s d")
  have put: "vw d' Schemas = vw d Schemas
      \<or> (\<exists>bytes. cc_from_slice js bytes = Ok s \<and> vw d' Schemas = (vw d Schemas)(as_bytes (ts_key_prefix s) \<mapsto> bytes))"
    using schema_put_view[OF assms(1) p] assms(2) unfolding codec_ok_def by blast
  show ?thesis
  proof (cases g)
    case None
    then show ?thesis using put g Inr p by (simp add: put_if_newer_def)
  next
    case (Some t)
    have "put_if_newer ops js display s d = (d, Ok False) \<or> put_if_newer ops js display s d = (d, Ok (same_contract s t))
        \<or> ts_schema_version t < ts_schema_version s \<and> fst (put_if_newer ops js display s d) = d'"
      using Inr Some p by (auto simp: put_if_newer_def)
    then show ?thesis using put g Some by auto
  qed
qed (simp add: put_if_newer_def)

lemma stored_schema_upd:
  assumes "w' Schemas = (w Schemas)(as_bytes (ts_key_prefix s) \<mapsto> bytes)" and "cc_from_slice js bytes = Ok s"
  shows "stored_schema js w' kp = (if kp = ts_key_prefix s then Some s else stored_schema js w kp)"
  using assms by (simp add: stored_schema_def as_bytes_inj)

lemma received_cases:
  assumes "fjall_ok ops vw" and "codec_ok js"
  shows "vw (schema_received ops js display payload d) Schemas = vw d Schemas
    \<or> (\<exists>s bytes. cc_from_slice js payload = Ok s \<and> cc_from_slice js bytes = Ok s
         \<and> vw (schema_received ops js display payload d) Schemas = (vw d Schemas)(as_bytes (ts_key_prefix s) \<mapsto> bytes)
         \<and> (\<forall>t. stored_schema js (vw d) (ts_key_prefix s) = Some t \<longrightarrow> ts_schema_version t < ts_schema_version s))"
proof (cases "cc_from_slice js payload")
  case (Inr s)
  have e: "schema_received ops js display payload d = fst (put_if_newer ops js display s d)" using Inr by (simp add: schema_received_def)
  show ?thesis using put_if_newer_view[OF assms, of display s d] Inr unfolding e by blast
qed (simp add: schema_received_def)

lemma received_follows:
  assumes "fjall_ok ops vw" and "codec_ok js" and "stored_schema js (vw d) kp = Some s"
  shows "\<exists>t. stored_schema js (vw (schema_received ops js display payload d)) kp = Some t \<and> follows t s"
  using received_cases[OF assms(1,2), of display payload d]
proof (elim disjE exE conjE)
  assume "vw (schema_received ops js display payload d) Schemas = vw d Schemas"
  then show ?thesis using assms(3) by (simp add: stored_schema_def)
next
  fix u bytes
  assume "cc_from_slice js bytes = Ok u" "vw (schema_received ops js display payload d) Schemas = (vw d Schemas)(as_bytes (ts_key_prefix u) \<mapsto> bytes)"
    "\<forall>t. stored_schema js (vw d) (ts_key_prefix u) = Some t \<longrightarrow> ts_schema_version t < ts_schema_version u"
  then show ?thesis using assms(3) stored_schema_upd[of "vw (schema_received ops js display payload d)" "vw d" u bytes js kp]
    by (cases "kp = ts_key_prefix u") (auto simp: follows_def same_contract_def)
qed

text \<open>
  C28. The contract of a topic version never changes: through any sequence of received schemas, readable
  or not and with failing writes among them, an agent that has a schema for a topic keeps one, its
  version never goes down, and as long as the version is the same so are codec, number of partitions
  and key format.
\<close>

theorem schema_contract_stable:
  assumes "fjall_ok ops vw" and "codec_ok js" and "stored_schema js (vw d) kp = Some s"
  shows "\<exists>t. stored_schema js (vw (fold (schema_received ops js display) payloads d)) kp = Some t
    \<and> ts_schema_version s \<le> ts_schema_version t \<and> (ts_schema_version t = ts_schema_version s \<longrightarrow> same_contract t s)"
proof -
  have "\<exists>t. stored_schema js (vw (fold (schema_received ops js display) payloads d)) kp = Some t \<and> follows t s"
    using assms(3)
  proof (induction payloads arbitrary: d s)
    case (Cons p ps)
    obtain t where "stored_schema js (vw (schema_received ops js display p d)) kp = Some t" "follows t s"
      using received_follows[OF assms(1,2) Cons.prems] by blast
    with Cons.IH[OF this(1)] follows_trans show ?case by fastforce
  qed simp
  then show ?thesis by (auto simp: follows_def)
qed

section \<open>Agreement of participants\<close>

lemma strip_schema_key [simp]: "strip_suffix ''/_schema'' (schema_key kp) = Some kp"
proof -
  have "rev (schema_key kp) = rev ''/_schema'' @ rev kp" by (simp add: schema_key_def)
  then show ?thesis unfolding strip_suffix_def by (simp only: strip_prefix_append option.map rev_rev_ident)
qed

lemma schema_key_inj [simp]: "schema_key a = schema_key b \<longleftrightarrow> a = b"
  by (simp add: schema_key_def)

text \<open>What an agent stores for a topic before and after a registration of a schema that it did not have.\<close>

definition knows_only :: "TopicSchema commit_codec \<Rightarrow> view \<Rightarrow> TopicSchema \<Rightarrow> bool" where
  "knows_only js w s \<longleftrightarrow> (\<forall>t. stored_schema js w (ts_key_prefix s) = Some t \<longrightarrow> t = s)"

lemma received_knows_only:
  assumes "fjall_ok ops vw" and "codec_ok js" and "cc_from_slice js payload = Ok s" and "knows_only js (vw d) s"
  shows "knows_only js (vw (schema_received ops js display payload d)) s"
  using received_cases[OF assms(1,2), of display payload d]
proof (elim disjE exE conjE)
  assume "vw (schema_received ops js display payload d) Schemas = vw d Schemas"
  then show ?thesis using assms(4) by (simp add: knows_only_def stored_schema_def)
next
  fix u bytes
  assume "cc_from_slice js payload = Ok u" "cc_from_slice js bytes = Ok u"
    "vw (schema_received ops js display payload d) Schemas = (vw d Schemas)(as_bytes (ts_key_prefix u) \<mapsto> bytes)"
  then show ?thesis using assms(3) stored_schema_upd[of "vw (schema_received ops js display payload d)" "vw d" u bytes js]
    by (simp add: knows_only_def)
qed

lemma received_fold_knows_only:
  assumes "fjall_ok ops vw" and "codec_ok js" and "cc_from_slice js payload = Ok s"
  shows "knows_only js (vw d) s \<Longrightarrow>
    knows_only js (vw (fold (\<lambda>t d. if schema_key t = key then schema_received ops js display payload d else d) ts d)) s"
  by (induction ts arbitrary: d) (simp_all add: received_knows_only[OF assms])

lemma schema_reply_cases:
  assumes "fjall_ok ops vw" and "codec_ok js" and "reply \<in> set (schema_reply ops js display (schema_key kp) d)"
  obtains s bytes where "stored_schema js (vw d) kp = Some s" and "reply = Some bytes" and "cc_from_slice js bytes = Ok s"
proof -
  obtain s where s: "schema_get ops js display kp d = Ok (Some s)"
    using assms(3) by (cases "schema_get ops js display kp d") (auto simp: schema_reply_def split: option.splits)
  obtain bytes where "cc_to_vec js s = Ok bytes" "reply = Some bytes"
    using assms(3) s by (cases "cc_to_vec js s") (auto simp: schema_reply_def)
  then show thesis using that[of s bytes] schema_get_stored[OF assms(1) s] assms(2) by (simp add: codec_ok_def)
qed

lemma first_schema_result:
  assumes "\<forall>r \<in> set replies. \<exists>bytes. r = Some bytes \<and> cc_from_slice js bytes = Ok s"
  shows "first_schema js kp replies = (if replies = [] then Err (TopicSchemaNotFound kp) else Ok s)"
  using assms by (cases replies) auto

lemma first_schema_not_found:
  assumes "\<forall>r \<in> set replies. \<exists>bytes s. r = Some bytes \<and> cc_from_slice js bytes = Ok s" and "first_schema js kp replies = Err e"
  shows "replies = []"
  using assms by (cases replies) auto

definition agent_replies ::
  "'d fjall_ops \<Rightarrow> TopicSchema commit_codec \<Rightarrow> (error \<Rightarrow> string) \<Rightarrow> string \<Rightarrow> 'd schema_agent list \<Rightarrow> bytes option list"
where
  "agent_replies ops js display kp agents =
     concat (map (\<lambda>a. concat (map (\<lambda>t. if t = kp then schema_reply ops js display (schema_key kp) (sa_db a) else []) (sa_topics a))) agents)"

lemma fetch_agents:
  "fetch_schema (agents_io ops js display) js kp agents = (agents, first_schema js kp (agent_replies ops js display kp agents))"
  by (simp add: fetch_schema_def agents_io_def agent_replies_def)

lemma agent_replies_mem:
  "r \<in> set (agent_replies ops js display kp agents)
    \<longleftrightarrow> (\<exists>a \<in> set agents. kp \<in> set (sa_topics a) \<and> r \<in> set (schema_reply ops js display (schema_key kp) (sa_db a)))"
  by (auto simp: agent_replies_def)

text \<open>After a registration on topics that had no schema, every answer is the registered schema.\<close>

lemma registered_replies:
  assumes "fjall_ok ops vw" and "codec_ok js" and "\<forall>d k. \<exists>r. kv_get ops d Schemas k = Ok r" and "\<forall>s. \<exists>bytes. cc_to_vec js s = Ok bytes"
    and "\<forall>a \<in> set agents. schemas_ok js (vw (sa_db a))"
    and "agent_replies ops js display (ts_key_prefix s) agents = []"
    and "register_schema (agents_io ops js display) js s agents = (agents', Ok ())"
    and "r \<in> set (agent_replies ops js display (ts_key_prefix s) agents')"
  shows "\<exists>bytes. r = Some bytes \<and> cc_from_slice js bytes = Ok s"
proof -
  let ?kp = "ts_key_prefix s"
  obtain payload where p: "cc_to_vec js s = Ok payload"
    and a': "agents' = map (\<lambda>a. a\<lparr>sa_db := fold (\<lambda>t d. if schema_key t = schema_key ?kp then schema_received ops js display payload d else d)
        (sa_topics a) (sa_db a)\<rparr>) agents"
    using assms(7) by (auto simp: register_schema_def agents_io_def split: sum.splits)
  have fs: "cc_from_slice js payload = Ok s" using assms(2) p by (simp add: codec_ok_def)
  obtain a where a: "a \<in> set agents" "?kp \<in> set (sa_topics a)"
    "r \<in> set (schema_reply ops js display (schema_key ?kp)
       (fold (\<lambda>t d. if schema_key t = schema_key ?kp then schema_received ops js display payload d else d) (sa_topics a) (sa_db a)))"
    using assms(8) by (auto simp: agent_replies_mem a')
  have "stored_schema js (vw (sa_db a)) ?kp = None"
  proof (rule ccontr)
    assume "stored_schema js (vw (sa_db a)) ?kp \<noteq> None"
    then obtain t where t: "stored_schema js (vw (sa_db a)) ?kp = Some t" by blast
    obtain g where g: "kv_get ops (sa_db a) Schemas (as_bytes ?kp) = Ok g" using assms(3) by blast
    then have "g = vw (sa_db a) Schemas (as_bytes ?kp)" using fjall_get[OF assms(1)] by blast
    moreover obtain bs where bs: "vw (sa_db a) Schemas (as_bytes ?kp) = Some bs" "cc_from_slice js bs = Ok t"
      using t by (cases "vw (sa_db a) Schemas (as_bytes ?kp)") (auto simp: stored_schema_def split: sum.splits)
    ultimately have "schema_get ops js display ?kp (sa_db a) = Ok (Some t)"
      using g by (simp add: schema_get_def agent_store_def)
    moreover obtain out where "cc_to_vec js t = Ok out" using assms(4) by blast
    ultimately have "schema_reply ops js display (schema_key ?kp) (sa_db a) \<noteq> []" by (simp add: schema_reply_def)
    then obtain x where "x \<in> set (schema_reply ops js display (schema_key ?kp) (sa_db a))" using list.set_sel(1) by blast
    then have "x \<in> set (agent_replies ops js display ?kp agents)" using a(1,2) by (auto simp: agent_replies_mem)
    then show False using assms(6) by simp
  qed
  then have "knows_only js (vw (sa_db a)) s" by (simp add: knows_only_def)
  note k = received_fold_knows_only[OF assms(1,2) fs this, of "schema_key ?kp" display "sa_topics a"]
  show ?thesis
    by (rule schema_reply_cases[OF assms(1,2) a(3)]) (use k in \<open>auto simp: knows_only_def\<close>)
qed

text \<open>
  C29. Participants of a topic agree on its contract: once a publisher has registered the schema of a
  topic that none of the running agents knew, every later participant that resolves its configuration
  through an agent, by validation or by automatic configuration, ends up with the codec, the number of
  partitions and the key prefix of that publisher, or is refused.
\<close>

theorem resolved_participants_agree:
  assumes "fjall_ok ops vw" and "codec_ok js" and "\<forall>d k. \<exists>r. kv_get ops d Schemas k = Ok r" and "\<forall>s. \<exists>bytes. cc_to_vec js s = Ok bytes"
    and "\<forall>a \<in> set agents. schemas_ok js (vw (sa_db a))"
    and "resolve_schema (agents_io ops js display) js now c1 agents = (agents', Ok (c1', Some s))"
    and "bc_schema_mode c2 \<noteq> SchemaDisabled" and "bc_key_prefix c2 = bc_key_prefix c1"
    and "resolve_schema (agents_io ops js display) js now' c2 agents' = (agents2, Ok (c2', None))"
  shows "c1' = c1 \<and> bc_codec c2' = bc_codec c1 \<and> bc_num_partitions c2' = bc_num_partitions c1 \<and> bc_key_prefix c2' = bc_key_prefix c1"
proof -
  let ?kp = "bc_key_prefix c1" and ?io = "agents_io ops js display"
  let ?s = "schema_from_config now c1 ?kp Unkeyed"
  have mode: "bc_schema_mode c1 = RegisterOrValidate"
    using assms(6) by (cases "bc_schema_mode c1") (auto simp: resolve_schema_def Let_def split: prod.splits)
  obtain e where nf: "first_schema js ?kp (agent_replies ops js display ?kp agents) = Err (TopicSchemaNotFound e)"
    and reg: "register_schema ?io js ?s agents = (agents', Ok ())" and eq: "c1' = c1" "s = ?s"
    using assms(6) mode
    by (auto simp: resolve_schema_def fetch_agents Let_def split: sum.splits error.splits prod.splits)
  have kp: "ts_key_prefix ?s = ?kp" by (simp add: schema_from_config_def)
  have "\<forall>r \<in> set (agent_replies ops js display ?kp agents). \<exists>bytes s. r = Some bytes \<and> cc_from_slice js bytes = Ok s"
    using schema_reply_cases[OF assms(1,2)] by (metis agent_replies_mem)
  from first_schema_not_found[OF this nf] have none: "agent_replies ops js display (ts_key_prefix ?s) agents = []" using kp by simp
  have "first_schema js ?kp (agent_replies ops js display ?kp agents')
      = (if agent_replies ops js display ?kp agents' = [] then Err (TopicSchemaNotFound ?kp) else Ok ?s)"
    by (rule first_schema_result) (use registered_replies[OF assms(1-5) none reg] kp in simp)
  then have f: "fetch_schema ?io js (bc_key_prefix c2) agents' = (agents', Err (TopicSchemaNotFound ?kp))
      \<or> fetch_schema ?io js (bc_key_prefix c2) agents' = (agents', Ok ?s)"
    using assms(8) by (simp add: fetch_agents)
  show ?thesis using f assms(7,8,9) eq
    by (cases "bc_schema_mode c2")
      (auto simp: resolve_schema_def Let_def apply_to_config_def schema_validate_def schema_from_config_def
        split: prod.splits if_splits)
qed

text \<open>
  Two publishers that both found no schema register in turn; the later one is told that its schema was
  registered although an agent that already has another contract under the same version keeps that one.
\<close>

theorem late_registration_ignored:
  assumes "fjall_ok ops vw" and "codec_ok js" and "cc_to_vec js s = Ok payload" and "stored_schema js (vw d) (ts_key_prefix s) = Some t"
    and "ts_schema_version t = ts_schema_version s" and "\<not> same_contract s t"
  shows "\<exists>agents'. register_schema (agents_io ops js display) js s [\<lparr>sa_topics = [ts_key_prefix s], sa_db = d\<rparr>] = (agents', Ok ())
    \<and> (\<forall>a \<in> set agents'. stored_schema js (vw (sa_db a)) (ts_key_prefix s) = Some t)"
proof -
  have fs: "cc_from_slice js payload = Ok s" using assms(2,3) by (simp add: codec_ok_def)
  have "stored_schema js (vw (schema_received ops js display payload d)) (ts_key_prefix s) = Some t"
    using received_cases[OF assms(1,2), of display payload d] assms(4,5) fs by (auto simp: stored_schema_def)
  then show ?thesis using assms(3) by (simp add: register_schema_def agents_io_def)
qed

text \<open>A subscriber in this mode registers a schema as well when it finds none.\<close>

theorem subscriber_registers_schema:
  assumes "bc_schema_mode config = RegisterOrValidate" and "io_get io (schema_key (bc_key_prefix config)) None st = (st, Ok [])"
    and "cc_to_vec js (schema_from_config now config (bc_key_prefix config) Unkeyed) = Ok bytes"
    and "io_put io (schema_key (bc_key_prefix config)) bytes st = (st', Ok ())"
  shows "resolve_schema io js now config st = (st', Ok (config, Some (schema_from_config now config (bc_key_prefix config) Unkeyed)))"
  using assms by (simp add: resolve_schema_def fetch_schema_def register_schema_def Let_def schema_from_config_def)

section \<open>Concrete agents\<close>

definition codec_nat :: "CodecFormat \<Rightarrow> nat" where
  "codec_nat c = (case c of Json \<Rightarrow> 0 | MsgPack \<Rightarrow> 1 | Postcard \<Rightarrow> 2)"

definition key_format_nat :: "KeyFormat \<Rightarrow> nat" where
  "key_format_nat k = (case k of Unkeyed \<Rightarrow> 0 | Keyed \<Rightarrow> 1 | KeyPrefixed \<Rightarrow> 2)"

definition unary_schema :: "TopicSchema commit_codec" where
  "unary_schema = \<lparr>
     cc_to_vec = (\<lambda>s. Ok (put_str (ts_name s) @ put_str (ts_key_prefix s) @ put_nat (codec_nat (ts_codec s)) @ put_nat (unat (ts_num_partitions s))
        @ put_nat (key_format_nat (ts_key_format s)) @ put_nat (unat (ts_schema_version s)) @ put_int (ts_created_at s) @ put_int (ts_updated_at s) @ [])),
     cc_from_slice = (\<lambda>bs. case get_str bs of (n, bs) \<Rightarrow> case get_str bs of (kp, bs) \<Rightarrow> case get_nat bs of (c, bs) \<Rightarrow>
        case get_nat bs of (np, bs) \<Rightarrow> case get_nat bs of (kf, bs) \<Rightarrow> case get_nat bs of (v, bs) \<Rightarrow>
        case get_int bs of (ca, bs) \<Rightarrow> case get_int bs of (ua, bs) \<Rightarrow>
        Ok \<lparr>ts_name = n, ts_key_prefix = kp, ts_codec = (if c = 0 then Json else if c = 1 then MsgPack else Postcard),
            ts_num_partitions = word_of_nat np, ts_key_format = (if kf = 0 then Unkeyed else if kf = 1 then Keyed else KeyPrefixed),
            ts_schema_version = word_of_nat v, ts_created_at = ca, ts_updated_at = ua\<rparr>)\<rparr>"

lemma unary_schema_ok: "codec_ok unary_schema"
  unfolding codec_ok_def
proof (intro allI impI)
  fix s :: TopicSchema and bs
  assume "cc_to_vec unary_schema s = Ok bs"
  then show "cc_from_slice unary_schema bs = Ok s"
    by (cases s; cases "ts_codec s"; cases "ts_key_format s")
      (auto simp: unary_schema_def codec_nat_def key_format_nat_def simp del: append_Nil2)
qed

definition demo_schema :: "u32 \<Rightarrow> u32 \<Rightarrow> TopicSchema" where
  "demo_schema n v = schema_new 0 ''t'' ''t'' n Json Unkeyed v"

definition schema_db :: mem_db where
  "schema_db = fst (schema_put mem_ops unary_schema (\<lambda>_. []) (demo_schema 4 1) mem_empty)"

definition schema_bytes :: "TopicSchema \<Rightarrow> bytes" where
  "schema_bytes s = (case cc_to_vec unary_schema s of Ok bs \<Rightarrow> bs | Err _ \<Rightarrow> [])"

lemma schema_bytes [simp]: "cc_to_vec unary_schema s = Ok (schema_bytes s)" "cc_from_slice unary_schema (schema_bytes s) = Ok s"
proof -
  show t: "cc_to_vec unary_schema s = Ok (schema_bytes s)" by (simp add: schema_bytes_def unary_schema_def)
  then show "cc_from_slice unary_schema (schema_bytes s) = Ok s" using unary_schema_ok by (simp add: codec_ok_def)
qed

lemma schema_db_stored: "stored_schema unary_schema (mem_view schema_db) ''t'' = Some (demo_schema 4 1)"
proof -
  have k: "ts_key_prefix (demo_schema 4 1) = ''t''" by (simp add: demo_schema_def schema_new_def)
  have "vw' Schemas (as_bytes ''t'') = Some (schema_bytes (demo_schema 4 1))" if "vw' = mem_view schema_db" for vw'
    unfolding that by (simp add: schema_db_def schema_put_def agent_store_def kv_insert_def mem_ops_def mem_empty_def mem_view_def k)
  then show ?thesis by (simp add: stored_schema_def)
qed

theorem schema_contract_stable_witness:
  "\<exists>t. stored_schema unary_schema (mem_view (fold (schema_received mem_ops unary_schema (\<lambda>_. []))
        [schema_bytes (demo_schema 8 1), schema_bytes (demo_schema 8 2)] schema_db)) ''t'' = Some t
    \<and> (1 :: u32) \<le> ts_schema_version t \<and> (ts_schema_version t = 1 \<longrightarrow> same_contract t (demo_schema 4 1))"
proof -
  have "ts_schema_version (demo_schema 4 1) = 1" by (simp add: demo_schema_def schema_new_def)
  then show ?thesis
    using schema_contract_stable[OF mem_fjall_ok unary_schema_ok schema_db_stored,
        of "\<lambda>_. []" "[schema_bytes (demo_schema 8 1), schema_bytes (demo_schema 8 2)]"] by simp
qed

definition reg_config :: "TopicSchemaMode \<Rightarrow> (nat, nat) EventBusConfig" where
  "reg_config m = apply_setting (SetSchemaMode m) (builder_new 0 0 ''t'')"

abbreviation demo_agents :: "mem_db schema_agent list" where
  "demo_agents \<equiv> [\<lparr>sa_topics = [''t''], sa_db = mem_empty\<rparr>]"

abbreviation demo_agents_io :: "mem_db schema_agent list session_io" where
  "demo_agents_io \<equiv> agents_io mem_ops unary_schema (\<lambda>_. [])"

definition registered_agents :: "mem_db schema_agent list" where
  "registered_agents = fst (register_schema demo_agents_io unary_schema (schema_from_config 0 (reg_config RegisterOrValidate) ''t'' Unkeyed) demo_agents)"

lemma mem_schema_get:
  "schema_get mem_ops unary_schema display kp d
     = (case hm_get (mem_data d Schemas) (as_bytes kp) of None \<Rightarrow> Ok None | Some bs \<Rightarrow> rbind (agent_store display (cc_from_slice unary_schema bs)) (\<lambda>s. Ok (Some s)))"
  by (simp add: schema_get_def mem_ops_def split: option.split)

lemma reg_config_facts [simp]: "bc_key_prefix (reg_config m) = ''t''" "bc_schema_mode (reg_config m) = m"
  by (simp_all add: reg_config_def builder_new_def)

lemma registered_agents_eq:
  "registered_agents = [\<lparr>sa_topics = [''t''],
     sa_db = fst (schema_put mem_ops unary_schema (\<lambda>_. []) (schema_from_config 0 (reg_config RegisterOrValidate) ''t'' Unkeyed) mem_empty)\<rparr>]"
  by (simp add: registered_agents_def register_schema_def agents_io_def schema_received_def put_if_newer_def mem_schema_get mem_empty_def
      schema_from_config_def split: prod.split)

lemma registered_schema:
  "schema_get mem_ops unary_schema display ''t''
     (fst (schema_put mem_ops unary_schema (\<lambda>_. []) (schema_from_config 0 (reg_config RegisterOrValidate) ''t'' Unkeyed) mem_empty))
   = Ok (Some (schema_from_config 0 (reg_config RegisterOrValidate) ''t'' Unkeyed))"
proof -
  have "ts_key_prefix (schema_from_config 0 (reg_config RegisterOrValidate) ''t'' Unkeyed) = ''t''" by (simp add: schema_from_config_def)
  then show ?thesis unfolding mem_schema_get
    by (simp add: schema_put_def agent_store_def kv_insert_def) (simp add: mem_ops_def mem_empty_def agent_store_def)
qed

theorem resolved_participants_agree_witness:
  "\<exists>c2'. resolve_schema demo_agents_io unary_schema 7 (apply_setting (SetNumPartitions 3) (reg_config AutoConfig)) registered_agents
       = (registered_agents, Ok (c2', None)) \<and> bc_num_partitions c2' = 64"
proof -
  let ?c1 = "reg_config RegisterOrValidate" and ?c2 = "apply_setting (SetNumPartitions 3) (reg_config AutoConfig)"
  let ?s = "schema_from_config 0 ?c1 ''t'' Unkeyed"
  have r0: "agent_replies mem_ops unary_schema (\<lambda>_. []) ''t'' demo_agents = []"
    by (simp add: agent_replies_def schema_reply_def mem_schema_get mem_empty_def)
  have reg: "register_schema demo_agents_io unary_schema ?s demo_agents = (registered_agents, Ok ())"
    by (simp add: registered_agents_def register_schema_def agents_io_def)
  have 1: "resolve_schema demo_agents_io unary_schema 0 ?c1 demo_agents = (registered_agents, Ok (?c1, Some ?s))"
    by (simp add: resolve_schema_def fetch_agents r0 reg Let_def)
  have "agent_replies mem_ops unary_schema (\<lambda>_. []) ''t'' registered_agents = [Some (schema_bytes ?s)]"
    by (simp add: agent_replies_def registered_agents_eq schema_reply_def registered_schema)
  then have 2: "resolve_schema demo_agents_io unary_schema 7 ?c2 registered_agents = (registered_agents, Ok (apply_to_config ?s ?c2, None))"
    by (simp add: resolve_schema_def fetch_agents)
  have g: "\<forall>d k. \<exists>r. kv_get mem_ops d Schemas k = Ok r" by (simp add: mem_ops_def)
  have "bc_num_partitions (apply_to_config ?s ?c2) = bc_num_partitions ?c1"
    using resolved_participants_agree[OF mem_fjall_ok unary_schema_ok g _ _ 1 _ _ 2]
    by (simp add: schemas_ok_def mem_view_def mem_empty_def)
  moreover have "bc_num_partitions ?c1 = 64" by (simp add: reg_config_def builder_new_def)
  ultimately show ?thesis using 2 by simp
qed

end
