(* ===== verification/Reconciler.thy ===== *)
theory Reconciler
  imports Storage_Agent Schema
begin

text \<open>
  The reconciler of a storage agent (\<^verbatim>\<open>mitiflow-storage/src/reconciler.rs\<close>): the stores it
  runs, the actions it derives from a desired assignment, and the tasks it spawns.  A spawned recovery
  is two pending steps, before and after the recovery itself; a drain is a pending timer with a
  cancellation token.  Whether a store can be opened is an argument.
\<close>

section \<open>State\<close>

datatype StoreState = Starting | Recovering | Active | Draining | Stopped

datatype ReconcileAction = Start "u32 \<times> u32" | Drain "u32 \<times> u32" | Stop "u32 \<times> u32"

record ManagedStore =
  ms_state :: StoreState
  ms_event_count :: u64
  ms_drain_cancel :: "nat option"

record PartitionStatus =
  ps_partition :: u32
  ps_replica :: u32
  ps_state :: StoreState
  ps_event_count :: u64
  ps_watermark_seq :: "(PublisherId, u64) hmap"

record reconciler =
  rc_recovery :: bool
  rc_stores :: "(u32 \<times> u32, ManagedStore) hmap"
  rc_begin :: "(u32 \<times> u32) list"
  rc_end :: "(u32 \<times> u32) list"
  rc_timers :: "((u32 \<times> u32) \<times> nat) list"
  rc_cancelled :: "nat set"
  rc_next_token :: nat

definition reconciler_new :: "bool \<Rightarrow> reconciler" where
  "reconciler_new recovery = \<lparr>rc_recovery = recovery, rc_stores = [], rc_begin = [], rc_end = [], rc_timers = [], rc_cancelled = {},
     rc_next_token = 0\<rparr>"

definition set_state :: "u32 \<times> u32 \<Rightarrow> StoreState \<Rightarrow> (u32 \<times> u32, ManagedStore) hmap \<Rightarrow> (u32 \<times> u32, ManagedStore) hmap" where
  "set_state k st m = (case hm_get m k of Some ms \<Rightarrow> hm_insert k (ms\<lparr>ms_state := st\<rparr>) m | None \<Rightarrow> m)"

section \<open>Actions\<close>

definition compute_actions :: "reconciler \<Rightarrow> (u32 \<times> u32) list \<Rightarrow> ReconcileAction list" where
  "compute_actions rc desired =
     (let actual = map fst (filter (\<lambda>(k, ms). ms_state ms \<noteq> Stopped) (rc_stores rc)) in
      map Start (filter (\<lambda>k. k \<notin> set actual) desired)
      @ map Drain (filter (\<lambda>k. k \<notin> set desired
          \<and> (case hm_get (rc_stores rc) k of
               Some ms \<Rightarrow> ms_state ms \<noteq> Draining \<and> ms_state ms \<noteq> Stopped
             | None \<Rightarrow> False)) actual))"

definition start_store :: "(u32 \<times> u32 \<Rightarrow> AgentError + unit) \<Rightarrow> u32 \<times> u32 \<Rightarrow> reconciler \<Rightarrow> reconciler \<times> (AgentError + unit)" where
  "start_store open_store k rc =
     (case open_store k of
        Err e \<Rightarrow> (rc, Err e)
      | Ok _ \<Rightarrow>
          let rc1 = rc\<lparr>rc_stores := hm_insert k \<lparr>ms_state = Starting, ms_event_count = 0, ms_drain_cancel = None\<rparr> (rc_stores rc)\<rparr> in
          (if rc_recovery rc then rc1\<lparr>rc_begin := k # rc_begin rc1\<rparr>
           else rc1\<lparr>rc_stores := set_state k Active (rc_stores rc1)\<rparr>, Ok ()))"

definition drain_store :: "u32 \<times> u32 \<Rightarrow> reconciler \<Rightarrow> reconciler" where
  "drain_store k rc =
     (case hm_get (rc_stores rc) k of
        None \<Rightarrow> rc
      | Some ms \<Rightarrow>
          if ms_state ms = Draining then rc
          else let t = rc_next_token rc in
            rc\<lparr>rc_stores := hm_insert k (ms\<lparr>ms_state := Draining, ms_drain_cancel := Some t\<rparr>) (rc_stores rc),
               rc_timers := (k, t) # rc_timers rc, rc_next_token := Suc t\<rparr>)"

definition stop_store :: "u32 \<times> u32 \<Rightarrow> reconciler \<Rightarrow> reconciler" where
  "stop_store k rc =
     (case hm_get (rc_stores rc) k of
        None \<Rightarrow> rc
      | Some ms \<Rightarrow>
          rc\<lparr>rc_stores := hm_remove k (rc_stores rc),
             rc_cancelled := (case ms_drain_cancel ms of Some t \<Rightarrow> insert t (rc_cancelled rc) | None \<Rightarrow> rc_cancelled rc)\<rparr>)"

fun apply_actions :: "(u32 \<times> u32 \<Rightarrow> AgentError + unit) \<Rightarrow> ReconcileAction list \<Rightarrow> reconciler \<Rightarrow> reconciler \<times> (AgentError + unit)" where
  "apply_actions open_store [] rc = (rc, Ok ())"
| "apply_actions open_store (Start k # as) rc =
     (case start_store open_store k rc of
        (rc1, Err e) \<Rightarrow> (rc1, Err e)
      | (rc1, Ok _) \<Rightarrow> apply_actions open_store as rc1)"
| "apply_actions open_store (Drain k # as) rc = apply_actions open_store as (drain_store k rc)"
| "apply_actions open_store (Stop k # as) rc = apply_actions open_store as (stop_store k rc)"

definition reconcile ::
  "(u32 \<times> u32 \<Rightarrow> AgentError + unit) \<Rightarrow> (u32 \<times> u32) list \<Rightarrow> reconciler \<Rightarrow> reconciler \<times> (AgentError + ReconcileAction list)"
where
  "reconcile open_store desired rc =
     (let actions = compute_actions rc desired; (rc1, r) = apply_actions open_store actions rc in
      (rc1, rbind r (\<lambda>_. Ok actions)))"

definition active_stores :: "reconciler \<Rightarrow> (u32 \<times> u32) list" where
  "active_stores rc = map fst (filter (\<lambda>(k, ms). ms_state ms \<in> {Active, Starting, Recovering}) (rc_stores rc))"

definition partition_statuses :: "reconciler \<Rightarrow> PartitionStatus list" where
  "partition_statuses rc = map (\<lambda>(k, ms). \<lparr>ps_partition = fst k, ps_replica = snd k, ps_state = ms_state ms,
       ps_event_count = ms_event_count ms, ps_watermark_seq = []\<rparr>)
     (filter (\<lambda>(k, ms). ms_state ms \<noteq> Stopped) (rc_stores rc))"

definition shutdown_all :: "reconciler \<Rightarrow> reconciler" where
  "shutdown_all rc = fold stop_store (map fst (rc_stores rc)) rc"

section \<open>Spawned tasks\<close>

definition recovery_begins :: "u32 \<times> u32 \<Rightarrow> reconciler \<Rightarrow> reconciler" where
  "recovery_begins k rc = rc\<lparr>rc_begin := remove1 k (rc_begin rc), rc_end := k # rc_end rc, rc_stores := set_state k Recovering (rc_stores rc)\<rparr>"

definition recovery_ends :: "u32 \<times> u32 \<Rightarrow> reconciler \<Rightarrow> reconciler" where
  "recovery_ends k rc = rc\<lparr>rc_end := remove1 k (rc_end rc), rc_stores := set_state k Active (rc_stores rc)\<rparr>"

text \<open>
  A timer that has elapsed removes the store that is now under its key.  A cancelled timer ends
  silently, or still fires when its time had elapsed before it saw the cancellation.
\<close>

definition timer_fires :: "(u32 \<times> u32) \<times> nat \<Rightarrow> reconciler \<Rightarrow> reconciler" where
  "timer_fires x rc = rc\<lparr>rc_timers := remove1 x (rc_timers rc), rc_stores := hm_remove (fst x) (rc_stores rc)\<rparr>"

definition timer_cancelled :: "(u32 \<times> u32) \<times> nat \<Rightarrow> reconciler \<Rightarrow> reconciler" where
  "timer_cancelled x rc = rc\<lparr>rc_timers := remove1 x (rc_timers rc)\<rparr>"

inductive task_step :: "reconciler \<Rightarrow> reconciler \<Rightarrow> bool" where
  begins: "k \<in> set (rc_begin rc) \<Longrightarrow> task_step rc (recovery_begins k rc)"
| ends: "k \<in> set (rc_end rc) \<Longrightarrow> task_step rc (recovery_ends k rc)"
| fires: "x \<in> set (rc_timers rc) \<Longrightarrow> task_step rc (timer_fires x rc)"
| cancelled: "x \<in> set (rc_timers rc) \<Longrightarrow> snd x \<in> rc_cancelled rc \<Longrightarrow> task_step rc (timer_cancelled x rc)"

text \<open>Everything that happens to a reconciler after its creation.\<close>

inductive reachable :: "reconciler \<Rightarrow> bool" where
  new: "reachable (reconciler_new recovery)"
| reconciled: "reachable rc \<Longrightarrow> reachable (fst (reconcile open_store desired rc))"
| task: "reachable rc \<Longrightarrow> task_step rc rc' \<Longrightarrow> reachable rc'"
| shut: "reachable rc \<Longrightarrow> reachable (shutdown_all rc)"

definition quiet :: "reconciler \<Rightarrow> bool" where
  "quiet rc \<longleftrightarrow> rc_begin rc = [] \<and> rc_end rc = [] \<and> rc_timers rc = []"

section \<open>The tasks end\<close>

definition tasks_left :: "reconciler \<Rightarrow> nat" where
  "tasks_left rc = 2 * length (rc_begin rc) + length (rc_end rc) + length (rc_timers rc)"

lemma task_step_decreases: "task_step rc rc' \<Longrightarrow> tasks_left rc' < tasks_left rc"
proof (induction rule: task_step.induct)
  case (begins k rc)
  then have "0 < length (rc_begin rc)" by (cases "rc_begin rc") auto
  then show ?case using begins by (cases "length (rc_begin rc)") (simp_all add: tasks_left_def recovery_begins_def length_remove1)
next
  case (ends k rc)
  then have "0 < length (rc_end rc)" by (cases "rc_end rc") auto
  then show ?case using ends by (simp add: tasks_left_def recovery_ends_def length_remove1)
next
  case (fires x rc)
  then have "0 < length (rc_timers rc)" by (cases "rc_timers rc") auto
  then show ?case using fires by (simp add: tasks_left_def timer_fires_def length_remove1)
next
  case (cancelled x rc)
  then have "0 < length (rc_timers rc)" by (cases "rc_timers rc") auto
  then show ?case using cancelled by (simp add: tasks_left_def timer_cancelled_def length_remove1)
qed

lemma tasks_settle: "\<exists>rc'. task_step\<^sup>*\<^sup>* rc rc' \<and> quiet rc'"
proof (induction "tasks_left rc" arbitrary: rc rule: less_induct)
  case less
  show ?case
  proof (cases "quiet rc")
    case False
    then have "\<exists>rc1. task_step rc rc1"
      unfolding quiet_def by (metis task_step.intros list.set_intros(1) neq_Nil_conv)
    then obtain rc1 where rc1: "task_step rc rc1" by blast
    from less[OF task_step_decreases[OF rc1]] rc1 show ?thesis by (meson converse_rtranclp_into_rtranclp)
  qed blast
qed

section \<open>The states of running stores\<close>

lemma set_state_get [simp]:
  "hm_get (set_state k st m) k' = (if k' = k then map_option (\<lambda>ms. ms\<lparr>ms_state := st\<rparr>) (hm_get m k) else hm_get m k')"
  by (simp add: set_state_def split: option.split)

lemma set_state_wf [simp]: "hm_wf m \<Longrightarrow> hm_wf (set_state k st m)"
  by (simp add: set_state_def split: option.split)

text \<open>
  A store that is not active is about to change: a pending recovery task will finish its recovery, or
  a pending timer of its own, not cancelled, will stop it.  Tokens are fresh and belong to one store.
  The event count of a store stays 0.
\<close>

definition store_ok :: "reconciler \<Rightarrow> u32 \<times> u32 \<Rightarrow> ManagedStore \<Rightarrow> bool" where
  "store_ok rc k ms \<longleftrightarrow>
     (case ms_state ms of
        Starting \<Rightarrow> k \<in> set (rc_begin rc)
      | Recovering \<Rightarrow> k \<in> set (rc_end rc)
      | Active \<Rightarrow> True
      | Draining \<Rightarrow> (\<exists>t. ms_drain_cancel ms = Some t \<and> (k, t) \<in> set (rc_timers rc) \<and> t \<notin> rc_cancelled rc)
      | Stopped \<Rightarrow> False)
     \<and> (\<forall>t. ms_drain_cancel ms = Some t \<longrightarrow> t < rc_next_token rc) \<and> ms_event_count ms = 0"

definition tokens_apart :: "reconciler \<Rightarrow> bool" where
  "tokens_apart rc \<longleftrightarrow> (\<forall>k k' ms ms' t. hm_get (rc_stores rc) k = Some ms \<longrightarrow> hm_get (rc_stores rc) k' = Some ms'
     \<longrightarrow> ms_drain_cancel ms = Some t \<longrightarrow> ms_drain_cancel ms' = Some t \<longrightarrow> k' = k)
   \<and> (\<forall>t \<in> rc_cancelled rc. t < rc_next_token rc)"

definition rc_inv :: "reconciler \<Rightarrow> bool" where
  "rc_inv rc \<longleftrightarrow> hm_wf (rc_stores rc) \<and> (\<forall>k ms. hm_get (rc_stores rc) k = Some ms \<longrightarrow> store_ok rc k ms) \<and> tokens_apart rc"

lemma rc_inv_new: "rc_inv (reconciler_new recovery)"
  by (simp add: rc_inv_def reconciler_new_def tokens_apart_def)

lemma rc_invD: "rc_inv rc \<Longrightarrow> hm_get (rc_stores rc) k = Some ms \<Longrightarrow> store_ok rc k ms"
  unfolding rc_inv_def by blast

lemma token_owner:
  "rc_inv rc \<Longrightarrow> hm_get (rc_stores rc) k = Some ms \<Longrightarrow> hm_get (rc_stores rc) k' = Some ms'
     \<Longrightarrow> ms_drain_cancel ms = Some t \<Longrightarrow> ms_drain_cancel ms' = Some t \<Longrightarrow> k' = k"
  unfolding rc_inv_def tokens_apart_def by blast

lemma rc_invI:
  assumes "hm_wf (rc_stores rc)" and "\<And>k ms. hm_get (rc_stores rc) k = Some ms \<Longrightarrow> store_ok rc k ms"
    and "\<And>k k' ms ms' t. hm_get (rc_stores rc) k = Some ms \<Longrightarrow> hm_get (rc_stores rc) k' = Some ms'
      \<Longrightarrow> ms_drain_cancel ms = Some t \<Longrightarrow> ms_drain_cancel ms' = Some t \<Longrightarrow> k' = k"
    and "\<And>t. t \<in> rc_cancelled rc \<Longrightarrow> t < rc_next_token rc"
  shows "rc_inv rc"
  unfolding rc_inv_def tokens_apart_def using assms by blast

lemma token_bound: "rc_inv rc \<Longrightarrow> t \<in> rc_cancelled rc \<Longrightarrow> t < rc_next_token rc"
  unfolding rc_inv_def tokens_apart_def by blast

lemma store_ok_frame:
  assumes "store_ok rc k ms" and "k \<in> set (rc_begin rc) \<Longrightarrow> k \<in> set (rc_begin rc')" and "k \<in> set (rc_end rc) \<Longrightarrow> k \<in> set (rc_end rc')"
    and "\<And>t. ms_drain_cancel ms = Some t \<Longrightarrow> (k, t) \<in> set (rc_timers rc) \<Longrightarrow> t \<notin> rc_cancelled rc \<Longrightarrow> (k, t) \<in> set (rc_timers rc') \<and> t \<notin> rc_cancelled rc'"
    and "rc_next_token rc \<le> rc_next_token rc'"
  shows "store_ok rc' k ms"
  using assms by (cases "ms_state ms") (auto simp: store_ok_def intro: less_le_trans)

lemma start_store_get:
  "open_store k = Ok v \<Longrightarrow> hm_get (rc_stores (fst (start_store open_store k rc)))
     = (hm_get (rc_stores rc))(k \<mapsto> \<lparr>ms_state = if rc_recovery rc then Starting else Active, ms_event_count = 0, ms_drain_cancel = None\<rparr>)"
  by (simp add: start_store_def Let_def fun_eq_iff)

lemma start_store_begin:
  "open_store k = Ok v \<Longrightarrow> set (rc_begin (fst (start_store open_store k rc))) = (if rc_recovery rc then {k} else {}) \<union> set (rc_begin rc)"
  by (simp add: start_store_def Let_def)

lemma start_store_frame:
  "rc_timers (fst (start_store open_store k rc)) = rc_timers rc"
  "rc_cancelled (fst (start_store open_store k rc)) = rc_cancelled rc"
  "rc_next_token (fst (start_store open_store k rc)) = rc_next_token rc"
  "rc_end (fst (start_store open_store k rc)) = rc_end rc"
  "hm_wf (rc_stores rc) \<Longrightarrow> hm_wf (rc_stores (fst (start_store open_store k rc)))"
  by (simp_all add: start_store_def Let_def split: sum.split)

lemma start_store_inv:
  assumes "rc_inv rc"
  shows "rc_inv (fst (start_store open_store k rc))"
proof (cases "open_store k")
  case (Inr u)
  let ?rc = "fst (start_store open_store k rc)"
  note f = start_store_frame[where rc = rc and open_store = open_store and k = k] and g = start_store_get[where open_store = open_store and k = k, OF Inr]
    and h = start_store_begin[where open_store = open_store and k = k, OF Inr]
  show ?thesis
  proof (rule rc_invI)
    fix k' ms assume m: "hm_get (rc_stores ?rc) k' = Some ms"
    show "store_ok ?rc k' ms"
    proof (cases "k' = k")
      case True
      then show ?thesis using m h unfolding g by (auto simp: store_ok_def split: if_splits)
    next
      case False
      then have "store_ok rc k' ms" using m rc_invD[OF assms] unfolding g by simp
      then show ?thesis by (rule store_ok_frame) (use f h in auto)
    qed
  next
    fix k1 k2 ms ms' t
    assume "hm_get (rc_stores ?rc) k1 = Some ms" "hm_get (rc_stores ?rc) k2 = Some ms'" "ms_drain_cancel ms = Some t" "ms_drain_cancel ms' = Some t"
    then show "k2 = k1" using token_owner[OF assms] unfolding g by (auto split: if_splits)
  qed (use f(2,3,5) token_bound[OF assms] assms in \<open>auto simp: rc_inv_def\<close>)
qed (use assms in \<open>simp add: start_store_def\<close>)

lemma drain_store_inv:
  assumes "rc_inv rc"
  shows "rc_inv (drain_store k rc)"
proof -
  { fix ms assume m: "hm_get (rc_stores rc) k = Some ms" "ms_state ms \<noteq> Draining"
    let ?rc = "drain_store k rc" and ?t = "rc_next_token rc"
    have d: "?rc = rc\<lparr>rc_stores := hm_insert k (ms\<lparr>ms_state := Draining, ms_drain_cancel := Some ?t\<rparr>) (rc_stores rc),
         rc_timers := (k, ?t) # rc_timers rc, rc_next_token := Suc ?t\<rparr>"
      using m by (simp add: drain_store_def Let_def)
    have fresh: "?t \<notin> rc_cancelled rc" using assms by (auto simp: rc_inv_def tokens_apart_def)
    have lt: "t < ?t" if "hm_get (rc_stores rc) k' = Some ms'" "ms_drain_cancel ms' = Some t" for k' ms' t
      using rc_invD[OF assms that(1)] that(2) by (simp add: store_ok_def)
    have ok: "store_ok ?rc k' ms'" if "hm_get (rc_stores ?rc) k' = Some ms'" for k' ms'
    proof (cases "k' = k")
      case True
      then show ?thesis using that fresh rc_invD[OF assms m(1)] by (auto simp: d store_ok_def)
    next
      case False
      then have "store_ok rc k' ms'" using that rc_invD[OF assms] by (simp add: d)
      then show ?thesis by (rule store_ok_frame) (auto simp: d)
    qed
    have apart: "k2 = k1"
      if "hm_get (rc_stores ?rc) k1 = Some ms1" "hm_get (rc_stores ?rc) k2 = Some ms2" "ms_drain_cancel ms1 = Some t" "ms_drain_cancel ms2 = Some t"
      for k1 k2 ms1 ms2 t
      using that lt[of k1 ms1 t] lt[of k2 ms2 t] token_owner[OF assms, of k1 ms1 k2 ms2 t] by (auto simp: d split: if_splits)
    have "t < rc_next_token ?rc" if "t \<in> rc_cancelled ?rc" for t using that token_bound[OF assms, of t] by (simp add: d less_Suc_eq)
    moreover have "hm_wf (rc_stores ?rc)" using assms by (simp add: rc_inv_def d)
    ultimately have "rc_inv ?rc" unfolding rc_inv_def tokens_apart_def using ok apart by blast }
  then show ?thesis using assms by (fastforce simp: drain_store_def split: option.split)
qed

lemma stop_store_inv:
  assumes "rc_inv rc"
  shows "rc_inv (stop_store k rc)"
proof (cases "hm_get (rc_stores rc) k")
  case (Some ms)
  let ?rc = "stop_store k rc"
  have d: "?rc = rc\<lparr>rc_stores := hm_remove k (rc_stores rc), rc_cancelled := set_option (ms_drain_cancel ms) \<union> rc_cancelled rc\<rparr>"
    using Some by (simp add: stop_store_def split: option.split)
  have ok: "store_ok ?rc k' ms'" if m: "hm_get (rc_stores ?rc) k' = Some ms'" for k' ms'
  proof -
    have k': "k' \<noteq> k" "hm_get (rc_stores rc) k' = Some ms'" using m by (auto simp: d split: if_splits)
    show ?thesis
      by (rule store_ok_frame[OF rc_invD[OF assms k'(2)]])
        (use token_owner[OF assms Some k'(2)] k'(1) in \<open>auto simp: d\<close>)
  qed
  have apart: "k2 = k1"
    if "hm_get (rc_stores ?rc) k1 = Some ms1" "hm_get (rc_stores ?rc) k2 = Some ms2" "ms_drain_cancel ms1 = Some t" "ms_drain_cancel ms2 = Some t"
    for k1 k2 ms1 ms2 t
    using that token_owner[OF assms, of k1 ms1 k2 ms2 t] by (simp add: d split: if_splits)
  have "t < rc_next_token ?rc" if "t \<in> rc_cancelled ?rc" for t
    using that token_bound[OF assms, of t] rc_invD[OF assms Some] by (auto simp: d store_ok_def)
  moreover have "hm_wf (rc_stores ?rc)" using assms by (simp add: rc_inv_def d)
  ultimately show ?thesis unfolding rc_inv_def tokens_apart_def using ok apart by blast
qed (use assms in \<open>simp add: stop_store_def\<close>)

text \<open>A task only changes the store of its key, and keeps its token.\<close>

lemma task_inv:
  assumes "rc_inv rc" and "task_step rc rc'"
  shows "rc_inv rc'"
proof -
  have keep: "\<exists>ms0. hm_get (rc_stores rc) k = Some ms0 \<and> ms_drain_cancel ms0 = ms_drain_cancel ms"
    if "hm_get (rc_stores rc') k = Some ms" for k ms
    using assms(2) that
    by (cases rule: task_step.cases) (auto simp: recovery_begins_def recovery_ends_def timer_fires_def timer_cancelled_def split: if_splits)
  have same: "rc_cancelled rc' = rc_cancelled rc" "rc_next_token rc' = rc_next_token rc"
    using assms(2) by (cases rule: task_step.cases; simp add: recovery_begins_def recovery_ends_def timer_fires_def timer_cancelled_def)+
  have wf: "hm_wf (rc_stores rc')"
    using assms(2,1) by (cases rule: task_step.cases) (simp_all add: rc_inv_def recovery_begins_def recovery_ends_def timer_fires_def timer_cancelled_def)
  have ok: "store_ok rc' k ms" if m: "hm_get (rc_stores rc') k = Some ms" for k ms
    using assms(2)
  proof (cases rule: task_step.cases)
    case (begins k0)
    show ?thesis
    proof (cases "k = k0")
      case True
      then show ?thesis using m rc_invD[OF assms(1), of k] by (auto simp: begins recovery_begins_def store_ok_def)
    next
      case False
      then have "store_ok rc k ms" using m rc_invD[OF assms(1)] by (simp add: begins recovery_begins_def)
      then show ?thesis by (rule store_ok_frame) (use False in \<open>auto simp: begins recovery_begins_def in_set_remove1\<close>)
    qed
  next
    case (ends k0)
    show ?thesis
    proof (cases "k = k0")
      case True
      then show ?thesis using m rc_invD[OF assms(1), of k] by (auto simp: ends recovery_ends_def store_ok_def)
    next
      case False
      then have "store_ok rc k ms" using m rc_invD[OF assms(1)] by (simp add: ends recovery_ends_def)
      then show ?thesis by (rule store_ok_frame) (use False in \<open>auto simp: ends recovery_ends_def in_set_remove1\<close>)
    qed
  next
    case (fires x)
    obtain kx tx where x: "x = (kx, tx)" by (cases x)
    have n: "k \<noteq> fst x" "store_ok rc k ms" using m rc_invD[OF assms(1)] fires by (auto simp: timer_fires_def split: if_splits)
    show ?thesis by (rule store_ok_frame[OF n(2)]) (use n(1) in \<open>auto simp: fires x timer_fires_def in_set_remove1\<close>)
  next
    case (cancelled x)
    obtain kx tx where x: "x = (kx, tx)" by (cases x)
    have n: "store_ok rc k ms" using m rc_invD[OF assms(1)] cancelled by (simp add: timer_cancelled_def)
    have ne: "(k, t) \<noteq> x" if "t \<notin> rc_cancelled rc" for t using that cancelled by (auto simp: x)
    show ?thesis by (rule store_ok_frame[OF n]) (use ne in \<open>simp_all add: cancelled timer_cancelled_def in_set_remove1\<close>)
  qed
  have apart: "k2 = k1"
    if "hm_get (rc_stores rc') k1 = Some ms1" "hm_get (rc_stores rc') k2 = Some ms2" "ms_drain_cancel ms1 = Some t" "ms_drain_cancel ms2 = Some t"
    for k1 k2 ms1 ms2 t
    using that keep token_owner[OF assms(1)] by metis
  have "t < rc_next_token rc'" if "t \<in> rc_cancelled rc'" for t using that token_bound[OF assms(1), of t] by (simp add: same)
  then show ?thesis unfolding rc_inv_def tokens_apart_def using wf ok apart by blast
qed

lemma apply_actions_inv: "rc_inv rc \<Longrightarrow> rc_inv (fst (apply_actions open_store as rc))"
proof (induction open_store as rc rule: apply_actions.induct)
  case (2 open_store k as rc)
  then show ?case using start_store_inv[of rc open_store k] by (auto split: prod.split sum.split)
qed (simp_all add: drain_store_inv stop_store_inv)

lemma fold_stop_inv: "rc_inv rc \<Longrightarrow> rc_inv (fold stop_store ks rc)"
  by (induction ks arbitrary: rc) (simp_all add: stop_store_inv)

lemma reachable_inv: "reachable rc \<Longrightarrow> rc_inv rc"
proof (induction rule: reachable.induct)
  case (reconciled rc open_store desired)
  then show ?case by (simp add: reconcile_def Let_def apply_actions_inv split: prod.split) (metis apply_actions_inv fst_conv)
qed (simp_all add: rc_inv_new task_inv shutdown_all_def fold_stop_inv)

lemma quiet_all_active:
  assumes "rc_inv rc" "quiet rc" "hm_get (rc_stores rc) k = Some ms"
  shows "ms_state ms = Active"
  using rc_invD[OF assms(1,3)] assms(2) by (cases "ms_state ms") (auto simp: store_ok_def quiet_def)

section \<open>A reconciliation converges\<close>

text \<open>
  While the tasks of a reconciliation run: the desired stores are there and no timer aims at them,
  the other stores are draining, and no recovery is pending for those.
\<close>

lemma remove1_avoids: "fst ` set xs \<inter> D = {} \<Longrightarrow> fst ` set (remove1 x xs) \<inter> D = {}"
  using set_remove1_subset[of x xs] by blast

definition converging :: "(u32 \<times> u32) set \<Rightarrow> reconciler \<Rightarrow> bool" where
  "converging D rc \<longleftrightarrow> D \<subseteq> dom (hm_get (rc_stores rc))
     \<and> (\<forall>k ms. hm_get (rc_stores rc) k = Some ms \<longrightarrow> (k \<in> D \<longleftrightarrow> ms_state ms \<noteq> Draining))
     \<and> set (rc_begin rc) \<union> set (rc_end rc) \<subseteq> D \<and> fst ` set (rc_timers rc) \<inter> D = {}"

lemma task_converging:
  assumes "converging D rc" and "task_step rc rc'"
  shows "converging D rc'"
  using assms(2)
proof (cases rule: task_step.cases)
  case (begins k)
  then have "k \<in> D" using assms(1) by (auto simp: converging_def)
  then show ?thesis
    using assms(1) unfolding begins converging_def recovery_begins_def
    by (auto simp del: split_paired_All split: if_splits dest: notin_set_remove1)
next
  case (ends k)
  then have "k \<in> D" using assms(1) by (auto simp: converging_def)
  then show ?thesis
    using assms(1) unfolding ends converging_def recovery_ends_def
    by (auto simp del: split_paired_All split: if_splits dest: notin_set_remove1)
next
  case (fires x)
  then have "fst x \<notin> D" using assms(1) by (auto simp: converging_def)
  then show ?thesis
    using assms(1) remove1_avoids[of "rc_timers rc" D x] unfolding fires converging_def timer_fires_def
    by (auto simp del: split_paired_All split: if_splits)
next
  case (cancelled x)
  then show ?thesis
    using assms(1) remove1_avoids[of "rc_timers rc" D x] unfolding cancelled converging_def timer_cancelled_def
    by (auto simp del: split_paired_All)
qed

lemma tasks_converging: "task_step\<^sup>*\<^sup>* rc rc' \<Longrightarrow> converging D rc \<Longrightarrow> rc_inv rc \<Longrightarrow> converging D rc' \<and> rc_inv rc'"
  by (induction rule: rtranclp_induct) (auto intro: task_converging task_inv)

text \<open>Applying the starts and then the drains of a reconciliation.\<close>

lemma apply_starts:
  assumes "snd (apply_actions open_store (map Start ks @ as) rc) = Ok u"
  shows "\<exists>rc1. fst (apply_actions open_store (map Start ks @ as) rc) = fst (apply_actions open_store as rc1)
      \<and> dom (hm_get (rc_stores rc1)) = set ks \<union> dom (hm_get (rc_stores rc))
      \<and> (\<forall>k ms. hm_get (rc_stores rc1) k = Some ms \<longrightarrow> k \<notin> set ks \<longrightarrow> hm_get (rc_stores rc) k = Some ms)
      \<and> (\<forall>k ms. hm_get (rc_stores rc1) k = Some ms \<longrightarrow> k \<in> set ks \<longrightarrow> ms_state ms \<noteq> Draining)
      \<and> set (rc_begin rc1) \<subseteq> set ks \<union> set (rc_begin rc) \<and> rc_end rc1 = rc_end rc \<and> rc_timers rc1 = rc_timers rc"
  using assms
proof (induction ks arbitrary: rc)
  case (Cons k ks)
  from Cons.prems obtain v where o: "open_store k = Ok v"
    by (cases "open_store k") (simp_all add: start_store_def)
  define rc0 where "rc0 = fst (start_store open_store k rc)"
  have s: "start_store open_store k rc = (rc0, Ok ())" by (simp add: rc0_def start_store_def o Let_def)
  have g: "hm_get (rc_stores rc0) = (hm_get (rc_stores rc))(k \<mapsto> \<lparr>ms_state = if rc_recovery rc then Starting else Active, ms_event_count = 0, ms_drain_cancel = None\<rparr>)"
      "set (rc_begin rc0) \<subseteq> insert k (set (rc_begin rc))" "rc_end rc0 = rc_end rc" "rc_timers rc0 = rc_timers rc"
    by (auto simp: rc0_def start_store_get[where open_store = open_store and k = k, OF o] start_store_begin[where open_store = open_store and k = k, OF o] start_store_frame)
  have "snd (apply_actions open_store (map Start ks @ as) rc0) = Ok u" using Cons.prems by (simp add: s)
  from Cons.IH[OF this] obtain rc1 where rc1:
    "fst (apply_actions open_store (map Start ks @ as) rc0) = fst (apply_actions open_store as rc1)"
    "dom (hm_get (rc_stores rc1)) = set ks \<union> dom (hm_get (rc_stores rc0))"
    "\<forall>k ms. hm_get (rc_stores rc1) k = Some ms \<longrightarrow> k \<notin> set ks \<longrightarrow> hm_get (rc_stores rc0) k = Some ms"
    "\<forall>k ms. hm_get (rc_stores rc1) k = Some ms \<longrightarrow> k \<in> set ks \<longrightarrow> ms_state ms \<noteq> Draining"
    "set (rc_begin rc1) \<subseteq> set ks \<union> set (rc_begin rc0)" "rc_end rc1 = rc_end rc0" "rc_timers rc1 = rc_timers rc0" by blast
  have "ms_state ms \<noteq> Draining" if "hm_get (rc_stores rc1) k' = Some ms" "k' \<in> set (k # ks)" for k' ms
    using that rc1(3,4) g(1) by (cases "k' \<in> set ks") (auto simp del: split_paired_All split: if_splits)
  moreover have "hm_get (rc_stores rc) k' = Some ms" if "hm_get (rc_stores rc1) k' = Some ms" "k' \<notin> set (k # ks)" for k' ms
    using that rc1(3)[rule_format, OF that(1)] g(1) by simp
  moreover have "dom (hm_get (rc_stores rc1)) = set (k # ks) \<union> dom (hm_get (rc_stores rc))" using rc1(2) g(1) by auto
  moreover have "set (rc_begin rc1) \<subseteq> set (k # ks) \<union> set (rc_begin rc)" using rc1(5) g(2) by auto
  ultimately show ?case using rc1(1,6,7) g(3,4) s by (intro exI[of _ rc1]) (simp del: split_paired_All)
qed auto

lemma drain_store_effect:
  assumes "rc' = drain_store k rc"
  shows "rc_begin rc' = rc_begin rc" "rc_end rc' = rc_end rc" "fst ` set (rc_timers rc') \<subseteq> insert k (fst ` set (rc_timers rc))"
    "dom (hm_get (rc_stores rc')) = dom (hm_get (rc_stores rc))"
    "k' \<noteq> k \<Longrightarrow> hm_get (rc_stores rc') k' = hm_get (rc_stores rc) k'"
    "hm_get (rc_stores rc') k = Some ms \<Longrightarrow> ms_state ms = Draining"
  by (auto simp: assms drain_store_def Let_def split: option.splits if_splits)

lemma apply_drains:
  "\<exists>rc'. apply_actions open_store (map Drain ks) rc = (rc', Ok ()) \<and> rc_begin rc' = rc_begin rc \<and> rc_end rc' = rc_end rc
     \<and> fst ` set (rc_timers rc') \<subseteq> set ks \<union> fst ` set (rc_timers rc) \<and> dom (hm_get (rc_stores rc')) = dom (hm_get (rc_stores rc))
     \<and> (\<forall>k. k \<notin> set ks \<longrightarrow> hm_get (rc_stores rc') k = hm_get (rc_stores rc) k)
     \<and> (\<forall>k ms. k \<in> set ks \<longrightarrow> hm_get (rc_stores rc') k = Some ms \<longrightarrow> ms_state ms = Draining)"
proof (induction ks arbitrary: rc)
  case (Cons k ks)
  let ?rc = "drain_store k rc"
  note e = drain_store_effect[where rc = rc and k = k, OF refl]
  obtain rc' where rc': "apply_actions open_store (map Drain ks) ?rc = (rc', Ok ())" "rc_begin rc' = rc_begin ?rc" "rc_end rc' = rc_end ?rc"
    "fst ` set (rc_timers rc') \<subseteq> set ks \<union> fst ` set (rc_timers ?rc)" "dom (hm_get (rc_stores rc')) = dom (hm_get (rc_stores ?rc))"
    "\<And>k. k \<notin> set ks \<Longrightarrow> hm_get (rc_stores rc') k = hm_get (rc_stores ?rc) k"
    "\<And>k ms. k \<in> set ks \<Longrightarrow> hm_get (rc_stores rc') k = Some ms \<Longrightarrow> ms_state ms = Draining"
    using Cons.IH[of ?rc] by blast
  have "ms_state ms = Draining" if "k' \<in> set (k # ks)" "hm_get (rc_stores rc') k' = Some ms" for k' ms
    using that rc'(6,7) e(6) by (cases "k' \<in> set ks") auto
  moreover have "hm_get (rc_stores rc') k' = hm_get (rc_stores rc) k'" if "k' \<notin> set (k # ks)" for k'
    using that rc'(6) e(5) by simp
  moreover have "fst ` set (rc_timers rc') \<subseteq> set (k # ks) \<union> fst ` set (rc_timers rc)" using rc'(4) e(3) by auto
  ultimately show ?case using rc'(1-3,5) e(1,2,4) by (intro exI[of _ rc']) (simp del: split_paired_All)
qed auto

lemma reconcile_converging:
  assumes "rc_inv rc" and "quiet rc" and "reconcile open_store desired rc = (rc1, Ok actions)"
  shows "converging (set desired) rc1 \<and> rc_inv rc1"
proof -
  let ?D = "set desired"
  define st where "st = filter (\<lambda>k. k \<notin> fst ` set (rc_stores rc)) desired"
  define dr where "dr = filter (\<lambda>k. k \<notin> ?D) (map fst (rc_stores rc))"
  have act: "ms_state ms = Active" if "(k, ms) \<in> set (rc_stores rc)" for k ms
    using quiet_all_active[OF assms(1,2)] assms(1) that by (simp add: rc_inv_def)
  then have "filter (\<lambda>(k, ms). ms_state ms \<noteq> Stopped) (rc_stores rc) = rc_stores rc" by (auto intro: filter_True)
  moreover have "filter (\<lambda>k. k \<notin> ?D \<and> (case hm_get (rc_stores rc) k of Some ms \<Rightarrow> ms_state ms \<noteq> Draining \<and> ms_state ms \<noteq> Stopped | None \<Rightarrow> False))
      (map fst (rc_stores rc)) = dr"
    unfolding dr_def by (rule filter_cong[OF refl]) (use act assms(1) in \<open>force simp: rc_inv_def\<close>)
  ultimately have ca: "compute_actions rc desired = map Start st @ map Drain dr"
    by (simp add: compute_actions_def st_def)
  obtain u where run: "apply_actions open_store (map Start st @ map Drain dr) rc = (rc1, Ok u)"
    using assms(3) by (auto simp: reconcile_def ca Let_def split: prod.splits)
  obtain rc0 where rc0: "fst (apply_actions open_store (map Start st @ map Drain dr) rc) = fst (apply_actions open_store (map Drain dr) rc0)"
    "dom (hm_get (rc_stores rc0)) = set st \<union> dom (hm_get (rc_stores rc))"
    "\<And>k ms. hm_get (rc_stores rc0) k = Some ms \<Longrightarrow> k \<notin> set st \<Longrightarrow> hm_get (rc_stores rc) k = Some ms"
    "\<And>k ms. hm_get (rc_stores rc0) k = Some ms \<Longrightarrow> k \<in> set st \<Longrightarrow> ms_state ms \<noteq> Draining"
    "set (rc_begin rc0) \<subseteq> set st \<union> set (rc_begin rc)" "rc_end rc0 = rc_end rc" "rc_timers rc0 = rc_timers rc"
    using apply_starts[of open_store st "map Drain dr" rc u] run by auto
  obtain rc' where rc': "apply_actions open_store (map Drain dr) rc0 = (rc', Ok ())" "rc_begin rc' = rc_begin rc0" "rc_end rc' = rc_end rc0"
    "fst ` set (rc_timers rc') \<subseteq> set dr \<union> fst ` set (rc_timers rc0)" "dom (hm_get (rc_stores rc')) = dom (hm_get (rc_stores rc0))"
    "\<And>k. k \<notin> set dr \<Longrightarrow> hm_get (rc_stores rc') k = hm_get (rc_stores rc0) k"
    "\<And>k ms. k \<in> set dr \<Longrightarrow> hm_get (rc_stores rc') k = Some ms \<Longrightarrow> ms_state ms = Draining"
    using apply_drains[of open_store dr rc0] by blast
  have [simp]: "rc' = rc1" using run rc0(1) rc'(1) by simp
  have "k \<in> ?D \<longleftrightarrow> ms_state ms \<noteq> Draining" if m: "hm_get (rc_stores rc1) k = Some ms" for k ms
  proof (cases "k \<in> set dr")
    case True
    then show ?thesis using rc'(7)[OF True] m by (simp add: dr_def)
  next
    case False
    then have m0: "hm_get (rc_stores rc0) k = Some ms" using rc'(6) m by simp
    show ?thesis
    proof (cases "k \<in> set st")
      case True
      then show ?thesis using rc0(4)[OF m0] by (simp add: st_def)
    next
      case ns: False
      then have "hm_get (rc_stores rc) k = Some ms" using rc0(3)[OF m0] by simp
      then have "(k, ms) \<in> set (rc_stores rc)" by (rule map_of_SomeD)
      then show ?thesis using False act[of k ms] by (force simp: dr_def)
    qed
  qed
  moreover have "?D \<subseteq> dom (hm_get (rc_stores rc1))"
    using rc'(5) rc0(2) by (auto simp: st_def dom_map_of_conv_image_fst)
  moreover have "set (rc_begin rc1) \<union> set (rc_end rc1) \<subseteq> ?D" "fst ` set (rc_timers rc1) \<inter> ?D = {}"
    using rc0(5-7) rc'(2-4) assms(2) by (auto simp: quiet_def st_def dr_def)
  moreover have "rc_inv rc1" using apply_actions_inv[OF assms(1), of open_store "map Start st @ map Drain dr"] run by simp
  ultimately show ?thesis unfolding converging_def by blast
qed

lemma converging_active:
  assumes "converging D rc" "rc_inv rc"
  shows "set (active_stores rc) = D"
proof -
  have "ms_state ms \<in> {Active, Starting, Recovering} \<longleftrightarrow> ms_state ms \<noteq> Draining" if "hm_get (rc_stores rc) k = Some ms" for k ms
    using rc_invD[OF assms(2) that] by (cases "ms_state ms") (auto simp: store_ok_def)
  moreover have "k \<in> set (active_stores rc) \<longleftrightarrow> (\<exists>ms. hm_get (rc_stores rc) k = Some ms \<and> ms_state ms \<in> {Active, Starting, Recovering})" for k
  proof -
    have wf: "hm_wf (rc_stores rc)" using assms(2) by (simp add: rc_inv_def)
    have "k \<in> set (active_stores rc) \<longleftrightarrow> (\<exists>ms. (k, ms) \<in> set (rc_stores rc) \<and> ms_state ms \<in> {Active, Starting, Recovering})"
      by (force simp: active_stores_def)
    then show ?thesis unfolding map_of_eq_Some_iff[OF wf] .
  qed
  ultimately have "k \<in> set (active_stores rc) \<longleftrightarrow> (\<exists>ms. hm_get (rc_stores rc) k = Some ms \<and> ms_state ms \<noteq> Draining)" for k by metis
  then have "k \<in> set (active_stores rc) \<longleftrightarrow> k \<in> D" for k
    using assms(1) unfolding converging_def by (meson domD subsetD)
  then show ?thesis by blast
qed

lemma reconcile_settles:
  assumes "reachable rc" and "quiet rc" and "reconcile open_store desired rc = (rc1, Ok actions)" and "task_step\<^sup>*\<^sup>* rc1 rc2"
  shows "set (active_stores rc2) = set desired \<and> rc_inv rc2"
  using tasks_converging[OF assms(4)] reconcile_converging[OF reachable_inv[OF assms(1)] assms(2,3)] converging_active by blast

text \<open>
  C22. A reconciliation converges: started when no task is pending, in any state the reconciler can have
  reached, and without a store that fails to open, it makes the running stores the desired ones, and
  they stay so while its tasks run, in whatever order; the tasks end; and then every desired store is
  active, no other store is left, and the same desired assignment asks for no action.
\<close>

theorem reconcile_converges:
  assumes "reachable rc" and "quiet rc" and "reconcile open_store desired rc = (rc1, Ok actions)"
  shows "(\<exists>rc2. task_step\<^sup>*\<^sup>* rc1 rc2 \<and> quiet rc2)
    \<and> (\<forall>rc2. task_step\<^sup>*\<^sup>* rc1 rc2 \<longrightarrow> set (active_stores rc2) = set desired
        \<and> (quiet rc2 \<longrightarrow> (\<forall>k. map_option ms_state (hm_get (rc_stores rc2) k) = (if k \<in> set desired then Some Active else None))
             \<and> compute_actions rc2 desired = []))"
proof (intro conjI allI impI)
  show "\<exists>rc2. task_step\<^sup>*\<^sup>* rc1 rc2 \<and> quiet rc2" by (rule tasks_settle)
  fix rc2 assume run: "task_step\<^sup>*\<^sup>* rc1 rc2"
  note s = reconcile_settles[OF assms run]
  show "set (active_stores rc2) = set desired" using s by blast
  assume q: "quiet rc2"
  have wf: "hm_wf (rc_stores rc2)" using s by (simp add: rc_inv_def)
  have act: "ms_state ms = Active" if "(k, ms) \<in> set (rc_stores rc2)" for k ms
    using quiet_all_active[OF conjunct2[OF s] q] wf that by simp
  then have f: "filter (\<lambda>(k, ms). ms_state ms \<noteq> Stopped) (rc_stores rc2) = rc_stores rc2"
    "filter (\<lambda>(k, ms). ms_state ms \<in> {Active, Starting, Recovering}) (rc_stores rc2) = rc_stores rc2"
    by (auto intro!: filter_True)
  have D: "fst ` set (rc_stores rc2) = set desired" using s by (simp only: active_stores_def f set_map)
  then show "compute_actions rc2 desired = []" by (auto simp: compute_actions_def f)
  fix k
  show "map_option ms_state (hm_get (rc_stores rc2) k) = (if k \<in> set desired then Some Active else None)"
  proof (cases "hm_get (rc_stores rc2) k")
    case (Some ms)
    then show ?thesis using act[OF map_of_SomeD[OF Some]] D by (force dest: map_of_SomeD)
  qed (use D in \<open>simp add: map_of_eq_None_iff\<close>)
qed

theorem reconcile_converges_witness:
  "let rc0 = fst (reconcile (\<lambda>_. Ok ()) [(0, 0), (1, 0)] (reconciler_new False)) in
   \<forall>rc2. task_step\<^sup>*\<^sup>* (fst (reconcile (\<lambda>_. Ok ()) [(1, 0), (2, 1)] rc0)) rc2 \<longrightarrow> set (active_stores rc2) = {(1, 0), (2, 1)}"
proof -
  let ?rc0 = "fst (reconcile (\<lambda>_. Ok ()) [(0, 0), (1, 0)] (reconciler_new False))"
  have r: "reachable ?rc0" by (intro reachable.intros)
  have q: "quiet ?rc0" by code_simp
  have "snd (reconcile (\<lambda>_. Ok ()) [(1, 0), (2, 1)] ?rc0) = Ok [Start (2, 1), Drain (0, 0)]" by code_simp
  then have "reconcile (\<lambda>_. Ok ()) [(1, 0), (2, 1)] ?rc0 = (fst (reconcile (\<lambda>_. Ok ()) [(1, 0), (2, 1)] ?rc0), Ok [Start (2, 1), Drain (0, 0)])"
    by (metis prod.collapse)
  from reconcile_converges[OF r q this] show ?thesis unfolding Let_def by (simp only: list.set) blast
qed

text \<open>
  A store that drains is not taken back: a reconciliation that wants it again finds it among the actual
  stores, leaves it draining, and its timer, which nothing cancels, stops it although it is desired.
\<close>

theorem drained_store_not_revived:
  assumes "reachable rc" and "hm_get (rc_stores rc) k = Some ms" and "ms_state ms = Draining" and "k \<in> set desired"
  shows "Start k \<notin> set (compute_actions rc desired)
    \<and> (\<exists>t. (k, t) \<in> set (rc_timers rc) \<and> t \<notin> rc_cancelled rc \<and> hm_get (rc_stores (timer_fires (k, t) rc)) k = None)"
proof
  have "k \<in> fst ` set (filter (\<lambda>(k, ms). ms_state ms \<noteq> Stopped) (rc_stores rc))"
    using map_of_SomeD[OF assms(2)] assms(3) by force
  then show "Start k \<notin> set (compute_actions rc desired)" by (simp add: compute_actions_def image_iff)
  show "\<exists>t. (k, t) \<in> set (rc_timers rc) \<and> t \<notin> rc_cancelled rc \<and> hm_get (rc_stores (timer_fires (k, t) rc)) k = None"
    using rc_invD[OF reachable_inv[OF assms(1)] assms(2)] assms(3) by (auto simp: store_ok_def timer_fires_def)
qed

text \<open>The stores report no events: the count of a managed store is never updated.\<close>

theorem status_counts_nothing:
  "reachable rc \<Longrightarrow> \<forall>ps \<in> set (partition_statuses rc). ps_event_count ps = 0 \<and> ps_watermark_seq ps = []"
proof -
  assume r: "reachable rc"
  have "ms_event_count ms = 0" if "(k, ms) \<in> set (rc_stores rc)" for k ms
    using reachable_inv[OF r] that rc_invD[OF reachable_inv[OF r], of k ms] by (simp add: rc_inv_def store_ok_def)
  then show ?thesis by (auto simp: partition_statuses_def)
qed

text \<open>
  A recovery that ends while its store drains makes the store active again, but the timer stays: a
  reconciliation that wants the store then has nothing to do, and the timer stops an active, desired store.
\<close>

theorem recovery_hides_drain:
  "let k = (0, 0); ok = (\<lambda>_. Ok ());
       rc1 = fst (reconcile ok [] (fst (reconcile ok [k] (reconciler_new True))));
       rc2 = recovery_ends k (recovery_begins k rc1);
       rc3 = timer_fires (k, 0) rc2
   in active_stores rc1 = [] \<and> active_stores rc2 = [k] \<and> reconcile ok [k] rc2 = (rc2, Ok [])
     \<and> (k, 0) \<in> set (rc_timers rc2) \<and> rc_cancelled rc2 = {} \<and> active_stores rc3 = []"
  unfolding Let_def
  by (simp add: reconcile_def compute_actions_def reconciler_new_def start_store_def drain_store_def set_state_def Let_def
      recovery_begins_def recovery_ends_def timer_fires_def active_stores_def)

end
