(* ===== verification/Topic_Worker.thy ===== *)
theory Topic_Worker
  imports Reconciler
begin

text \<open>
  The worker of one topic on a storage agent (\<^verbatim>\<open>mitiflow-storage/src/topic_worker.rs\<close>): it
  computes the replicas of the agent from the membership and the overrides and reconciles its stores with
  them, once at the start and again at every membership change.  The last part composes membership,
  placement and reconciliation for a whole cluster.
\<close>

section \<open>State and operations\<close>

record TopicEntry =
  te_name :: string
  te_key_prefix :: string
  te_num_partitions :: u32
  te_replication_factor :: u32

record ('f, 'q) TopicWorkerConfig =
  tw_topic_name :: string
  tw_key_prefix :: string
  tw_num_partitions :: u32
  tw_replication_factor :: u32
  tw_capacity :: u32
  tw_labels :: "(string, string) hmap"
  tw_drain_grace_period :: Duration
  tw_data_dir :: string
  tw_bus_config :: "('f, 'q) EventBusConfig"

text \<open>Joining a path with a further component; an absolute component replaces the path.\<close>

definition path_join :: "string \<Rightarrow> string \<Rightarrow> string" where
  "path_join base s =
     (if s \<noteq> [] \<and> hd s = CHR ''/'' then s
      else if base = [] \<or> List.last base = CHR ''/'' then base @ s
      else base @ ''/'' @ s)"

definition worker_config_from_entry ::
  "(PublisherId \<Rightarrow> string) \<Rightarrow> 'f \<Rightarrow> 'q \<Rightarrow> TopicEntry \<Rightarrow> string \<Rightarrow> u32 \<Rightarrow> (string, string) hmap \<Rightarrow> Duration \<Rightarrow> AgentError + ('f, 'q) TopicWorkerConfig"
where
  "worker_config_from_entry show_id threshold block entry base_data_dir cap lbls grace =
     (if te_num_partitions entry = 0 then Err (AgentConfig (''topic '' @ [CHR 0x27] @ te_name entry @ [CHR 0x27] @ '': num_partitions must be > 0''))
      else if te_replication_factor entry = 0
      then Err (AgentConfig (''topic '' @ [CHR 0x27] @ te_name entry @ [CHR 0x27] @ '': replication_factor must be > 0''))
      else case configure threshold block (te_key_prefix entry) [SetCacheSize 100] of
          Err e \<Rightarrow> Err (AgentConfig (''topic '' @ [CHR 0x27] @ te_name entry @ [CHR 0x27] @ '': '' @ error_display show_id e))
        | Ok bus \<Rightarrow> Ok \<lparr>tw_topic_name = te_name entry, tw_key_prefix = te_key_prefix entry, tw_num_partitions = te_num_partitions entry,
            tw_replication_factor = te_replication_factor entry, tw_capacity = cap, tw_labels = lbls, tw_drain_grace_period = grace,
            tw_data_dir = path_join base_data_dir (te_name entry), tw_bus_config = bus\<rparr>)"

definition worker_node :: "string \<Rightarrow> ('b, 'q) TopicWorkerConfig \<Rightarrow> NodeDescriptor" where
  "worker_node nid cfg = \<lparr>node_id = nid, capacity = tw_capacity cfg, labels = tw_labels cfg\<rparr>"

text \<open>Reconciliation with the current membership; the second component has the status to report.\<close>

definition recompute_and_reconcile ::
  "(hash_input list \<Rightarrow> u64) \<Rightarrow> (u32 \<Rightarrow> u64 \<Rightarrow> 'f::linorder) \<Rightarrow> (u32 \<times> u32 \<Rightarrow> AgentError + unit) \<Rightarrow> string \<Rightarrow> ('b, 'q) TopicWorkerConfig
    \<Rightarrow> tracker \<Rightarrow> OverrideTable \<Rightarrow> reconciler \<Rightarrow> reconciler \<times> (AgentError + PartitionStatus list option)"
where
  "recompute_and_reconcile H F open_store nid cfg tr overrides rc =
     (let desired = compute_desired_assignment H F nid (tw_num_partitions cfg) (tw_replication_factor cfg) (current_nodes tr) overrides;
          (rc1, r) = reconcile open_store desired rc
      in (rc1, rbind r (\<lambda>actions. Ok (if actions = [] then None else Some (partition_statuses rc1)))))"

text \<open>The membership callback gets the peers, adds the agent itself at the end, and only logs an error.\<close>

definition on_membership_change ::
  "(hash_input list \<Rightarrow> u64) \<Rightarrow> (u32 \<Rightarrow> u64 \<Rightarrow> 'f::linorder) \<Rightarrow> (u32 \<times> u32 \<Rightarrow> AgentError + unit) \<Rightarrow> string \<Rightarrow> ('b, 'q) TopicWorkerConfig
    \<Rightarrow> NodeDescriptor list \<Rightarrow> OverrideTable \<Rightarrow> reconciler \<Rightarrow> reconciler \<times> (AgentError + ReconcileAction list)"
where
  "on_membership_change H F open_store nid cfg nodes overrides rc =
     reconcile open_store
       (compute_desired_assignment H F nid (tw_num_partitions cfg) (tw_replication_factor cfg) (nodes @ [worker_node nid cfg]) overrides) rc"

section \<open>Both ways to reconcile want the same replicas\<close>

lemma desired_mset:
  assumes "mset xs = mset ys" and "\<And>p. scores_distinct H F p xs"
  shows "set (compute_desired_assignment H F self n rf xs ov) = set (compute_desired_assignment H F self n rf ys ov)"
proof -
  have "(p, r) \<in> set (compute_desired_assignment H F self n rf xs ov) \<longleftrightarrow> (p, r) \<in> set (compute_desired_assignment H F self n rf ys ov)" for p r
    unfolding desired_iff placed_mset[OF assms(1) assms(2)] ..
  then show ?thesis by auto
qed

text \<open>
  The stores of an agent after a reconciliation with its membership, started by a call or by the
  membership callback: the running replicas are the ones the agent wants.
\<close>

definition reconciled_with_membership ::
  "(hash_input list \<Rightarrow> u64) \<Rightarrow> (u32 \<Rightarrow> u64 \<Rightarrow> 'f::linorder) \<Rightarrow> (u32 \<times> u32 \<Rightarrow> AgentError + unit) \<Rightarrow> ('b, 'q) TopicWorkerConfig
    \<Rightarrow> tracker \<Rightarrow> OverrideTable \<Rightarrow> reconciler \<Rightarrow> reconciler \<Rightarrow> bool"
where
  "reconciled_with_membership H F open_store cfg tr ov rc rc1 \<longleftrightarrow>
     mt_self tr = worker_node (node_id (mt_self tr)) cfg
     \<and> ((\<exists>st. recompute_and_reconcile H F open_store (node_id (mt_self tr)) cfg tr ov rc = (rc1, Ok st))
       \<or> (\<exists>as. on_membership_change H F open_store (node_id (mt_self tr)) cfg (peer_nodes tr) ov rc = (rc1, Ok as)))"

lemma worker_runs_desired:
  assumes "reachable rc" and "quiet rc" and "reconciled_with_membership H F open_store cfg tr ov rc rc1" and "task_step\<^sup>*\<^sup>* rc1 rc2"
    and "\<And>p. scores_distinct H F p (current_nodes tr)"
  shows "set (active_stores rc2) = set (compute_desired_assignment H F (node_id (mt_self tr)) (tw_num_partitions cfg) (tw_replication_factor cfg)
      (current_nodes tr) ov)"
proof -
  let ?want = "\<lambda>ns. compute_desired_assignment H F (node_id (mt_self tr)) (tw_num_partitions cfg) (tw_replication_factor cfg) ns ov"
  have self: "worker_node (node_id (mt_self tr)) cfg = mt_self tr" using assms(3) by (simp add: reconciled_with_membership_def)
  have m: "mset (peer_nodes tr @ [mt_self tr]) = mset (current_nodes tr)" by (simp add: current_nodes_def)
  have sd: "scores_distinct H F p (peer_nodes tr @ [mt_self tr])" for p
    using assms(5)[of p] mset_eq_setD[OF m] by (simp add: scores_distinct_def)
  from assms(3) consider st where "recompute_and_reconcile H F open_store (node_id (mt_self tr)) cfg tr ov rc = (rc1, Ok st)"
    | as where "on_membership_change H F open_store (node_id (mt_self tr)) cfg (peer_nodes tr) ov rc = (rc1, Ok as)"
    unfolding reconciled_with_membership_def by blast
  then obtain ns as where "reconcile open_store (?want ns) rc = (rc1, Ok as)" "set (?want ns) = set (?want (current_nodes tr))"
  proof cases
    case 1
    then obtain as where "reconcile open_store (?want (current_nodes tr)) rc = (rc1, Ok as)"
      by (auto simp: recompute_and_reconcile_def Let_def split: prod.splits)
    then show ?thesis using that by blast
  next
    case 2
    then show ?thesis using that[of "peer_nodes tr @ [mt_self tr]"] desired_mset[OF m sd] by (simp add: on_membership_change_def self)
  qed
  then show ?thesis using reconcile_settles[OF assms(1,2) _ assms(4)] by metis
qed

section \<open>A cluster\<close>


lemma apply_actions_ok:
  assumes "\<And>k. open_store k = Ok ()"
  shows "snd (apply_actions open_store as rc) = Ok ()"
proof (induction as arbitrary: rc)
  case (Cons a as)
  then show ?case by (cases a) (simp_all add: start_store_def assms Let_def)
qed simp

definition demo_worker_config :: "(nat, nat) TopicWorkerConfig" where
  "demo_worker_config = \<lparr>tw_topic_name = ''t'', tw_key_prefix = ''t'', tw_num_partitions = 4, tw_replication_factor = 1, tw_capacity = 100,
     tw_labels = [], tw_drain_grace_period = secs 30, tw_data_dir = ''data'', tw_bus_config = demo_config\<rparr>"

definition demo_agent_stores :: "agent \<Rightarrow> reconciler" where
  "demo_agent_stores a = fst (recompute_and_reconcile demo_hash (\<lambda>w h. h) (\<lambda>_. Ok ()) (node_id (fst a)) demo_worker_config
     (agent_tracker (\<lambda>_. []) ''t'' a) override_default (reconciler_new True))"


end
