(* ===== verification/Cluster_View.thy ===== *)
theory Cluster_View
  imports Topic_Worker
begin

text \<open>
  The orchestrator's view of the cluster (\<^verbatim>\<open>mitiflow-orchestrator/src/cluster_view.rs\<close>): the
  nodes with their last status and health reports and their liveliness, the table of assignments, and
  the eviction of nodes that stay offline.  Every subscriber task of the view is a step on the map of
  nodes; the clock is an argument of each step.
\<close>

section \<open>State\<close>

record NodeHealth =
  nh_node_id :: string
  nh_partitions_owned :: u32
  nh_events_stored :: u64
  nh_disk_usage_bytes :: u64
  nh_store_latency_p99_us :: u64
  nh_error_count :: u64
  nh_timestamp :: DateTime

record NodeStatus =
  ns_node_id :: string
  ns_partitions :: "PartitionStatus list"
  ns_timestamp :: DateTime

record NodeInfo =
  ni_metadata :: "NodeMetadata option"
  ni_health :: "NodeHealth option"
  ni_status :: "NodeStatus option"
  ni_online :: bool
  ni_last_seen :: DateTime

datatype AssignmentSource = Computed | Override

record AssignmentInfo =
  ai_partition :: u32
  ai_replica :: u32
  ai_node_id :: string
  ai_state :: StoreState
  ai_source :: AssignmentSource

type_synonym cluster_nodes = "(string, NodeInfo) hmap"

definition DEFAULT_EVICTION_TIMEOUT :: Duration where
  "DEFAULT_EVICTION_TIMEOUT = secs 300"

section \<open>Steps\<close>

definition node_info_new :: "bool \<Rightarrow> DateTime \<Rightarrow> NodeInfo" where
  "node_info_new up now = \<lparr>ni_metadata = None, ni_health = None, ni_status = None, ni_online = up, ni_last_seen = now\<rparr>"

definition or_insert_node :: "bool \<Rightarrow> DateTime \<Rightarrow> string \<Rightarrow> cluster_nodes \<Rightarrow> NodeInfo" where
  "or_insert_node up now nid m = (case hm_get m nid of Some info \<Rightarrow> info | None \<Rightarrow> node_info_new up now)"

definition on_status :: "DateTime \<Rightarrow> NodeStatus \<Rightarrow> cluster_nodes \<Rightarrow> cluster_nodes" where
  "on_status now status m =
     hm_insert (ns_node_id status) ((or_insert_node True now (ns_node_id status) m)\<lparr>ni_status := Some status, ni_last_seen := now\<rparr>) m"

definition on_health :: "DateTime \<Rightarrow> NodeHealth \<Rightarrow> cluster_nodes \<Rightarrow> cluster_nodes" where
  "on_health now health m =
     hm_insert (nh_node_id health) ((or_insert_node True now (nh_node_id health) m)\<lparr>ni_health := Some health, ni_last_seen := now\<rparr>) m"

text \<open>A liveliness token found when the view starts; the node is the last chunk of its key.\<close>

definition discovered :: "DateTime \<Rightarrow> string \<Rightarrow> cluster_nodes \<Rightarrow> cluster_nodes" where
  "discovered now key m =
     (let nid = List.last (split_on (\<lambda>c. c = CHR ''/'') key) in
      hm_insert nid ((or_insert_node True now nid m)\<lparr>ni_online := True, ni_last_seen := now\<rparr>) m)"

definition on_liveliness :: "string \<Rightarrow> DateTime \<Rightarrow> string \<times> SampleKind \<Rightarrow> cluster_nodes \<Rightarrow> cluster_nodes" where
  "on_liveliness key_prefix now sample m =
     (case strip_prefix (key_prefix @ ''/_agents/'') (fst sample) of
        None \<Rightarrow> m
      | Some nid \<Rightarrow>
          if CHR ''/'' \<in> set nid then m
          else let up = (snd sample = Put) in
            hm_insert nid ((or_insert_node up now nid m)\<lparr>ni_online := up, ni_last_seen := now\<rparr>) m)"

text \<open>One eviction sweep; the second component is the nodes the eviction callback is called with.\<close>

definition evictable :: "Duration \<Rightarrow> DateTime \<Rightarrow> NodeInfo \<Rightarrow> bool" where
  "evictable timeout now info \<longleftrightarrow> \<not> ni_online info \<and> int timeout < now - ni_last_seen info"

definition evict_sweep :: "Duration \<Rightarrow> DateTime \<Rightarrow> cluster_nodes \<Rightarrow> cluster_nodes \<times> string list" where
  "evict_sweep timeout now m =
     (let evicted = map fst (filter (\<lambda>(nid, info). evictable timeout now info) m) in
      (fold hm_remove evicted m, evicted))"

definition evict_node :: "string \<Rightarrow> cluster_nodes \<Rightarrow> cluster_nodes \<times> bool" where
  "evict_node nid m = (hm_remove nid m, hm_get m nid \<noteq> None)"

section \<open>Queries\<close>

definition assignment_of :: "string \<Rightarrow> PartitionStatus \<Rightarrow> AssignmentInfo" where
  "assignment_of nid ps = \<lparr>ai_partition = ps_partition ps, ai_replica = ps_replica ps, ai_node_id = nid, ai_state = ps_state ps, ai_source = Computed\<rparr>"

definition view_assignments :: "cluster_nodes \<Rightarrow> (u32 \<times> u32, AssignmentInfo) hmap" where
  "view_assignments m =
     fold (\<lambda>(nid, info) res. case ni_status info of
         None \<Rightarrow> res
       | Some status \<Rightarrow> fold (\<lambda>ps. hm_insert (ps_partition ps, ps_replica ps) (assignment_of nid ps)) (ns_partitions status) res)
       m []"

definition online_nodes :: "cluster_nodes \<Rightarrow> string list" where
  "online_nodes m = map fst (filter (\<lambda>(nid, info). ni_online info) m)"

definition is_node_online :: "cluster_nodes \<Rightarrow> string \<Rightarrow> bool" where
  "is_node_online m nid = (case hm_get m nid of Some info \<Rightarrow> ni_online info | None \<Rightarrow> False)"

definition online_count :: "cluster_nodes \<Rightarrow> nat" where
  "online_count m = length (filter ni_online (map snd m))"

section \<open>Runs of the view\<close>

datatype view_event =
    StatusSeen NodeStatus
  | HealthSeen NodeHealth
  | LivelinessSeen "string \<times> SampleKind"
  | SweepDue
  | ManualEviction string

definition view_step :: "string \<Rightarrow> Duration \<Rightarrow> DateTime \<times> view_event \<Rightarrow> cluster_nodes \<Rightarrow> cluster_nodes" where
  "view_step key_prefix timeout e m =
     (case snd e of
        StatusSeen s \<Rightarrow> on_status (fst e) s m
      | HealthSeen h \<Rightarrow> on_health (fst e) h m
      | LivelinessSeen s \<Rightarrow> on_liveliness key_prefix (fst e) s m
      | SweepDue \<Rightarrow> if 0 < timeout then fst (evict_sweep timeout (fst e) m) else m
      | ManualEviction nid \<Rightarrow> fst (evict_node nid m))"

definition view_start :: "DateTime \<Rightarrow> string list \<Rightarrow> NodeStatus list \<Rightarrow> cluster_nodes" where
  "view_start now keys statuses = fold (on_status now) statuses (fold (discovered now) keys [])"

definition view_run :: "string \<Rightarrow> Duration \<Rightarrow> (DateTime \<times> view_event) list \<Rightarrow> cluster_nodes \<Rightarrow> cluster_nodes" where
  "view_run key_prefix timeout es m = fold (view_step key_prefix timeout) es m"

lemma view_step_wf: "hm_wf m \<Longrightarrow> hm_wf (view_step key_prefix timeout e m)"
proof -
  assume wf: "hm_wf m"
  have "hm_wf (fold hm_remove ks m)" for ks using wf by (induction ks arbitrary: m) simp_all
  then show ?thesis using wf
    by (cases "snd e") (simp_all add: view_step_def on_status_def on_health_def on_liveliness_def evict_sweep_def evict_node_def Let_def split: option.split)
qed

lemma view_start_wf: "hm_wf (view_start now keys statuses)"
proof -
  have "hm_wf (fold (discovered now) keys m)" if "hm_wf m" for m
    using that by (induction keys arbitrary: m) (simp_all add: discovered_def Let_def)
  moreover have "hm_wf (fold (on_status now) statuses m)" if "hm_wf m" for m
    using that by (induction statuses arbitrary: m) (simp_all add: on_status_def)
  ultimately show ?thesis by (simp add: view_start_def)
qed

text \<open>An eviction sweep removes the evictable nodes and nothing else.\<close>

lemma evict_sweep_exact:
  assumes "hm_wf m"
  shows "hm_get (fst (evict_sweep timeout now m)) nid
    = (case hm_get m nid of Some info \<Rightarrow> if evictable timeout now info then None else Some info | None \<Rightarrow> None)"
proof -
  have "nid \<in> set (snd (evict_sweep timeout now m)) \<longleftrightarrow> (\<exists>info. (nid, info) \<in> set m \<and> evictable timeout now info)"
    by (force simp: evict_sweep_def Let_def)
  then have "nid \<in> set (snd (evict_sweep timeout now m)) \<longleftrightarrow> (\<exists>info. hm_get m nid = Some info \<and> evictable timeout now info)"
    using assms by simp
  then show ?thesis by (auto simp: evict_sweep_def Let_def fold_hm_remove_get split: option.split)
qed

section \<open>What an event says about a node\<close>

definition liveliness_of :: "string \<Rightarrow> string \<Rightarrow> view_event \<Rightarrow> SampleKind option" where
  "liveliness_of key_prefix nid e =
     (case e of
        LivelinessSeen s \<Rightarrow> (if strip_prefix (key_prefix @ ''/_agents/'') (fst s) = Some nid \<and> CHR ''/'' \<notin> set nid then Some (snd s) else None)
      | _ \<Rightarrow> None)"

definition reports :: "string \<Rightarrow> view_event \<Rightarrow> bool" where
  "reports nid e \<longleftrightarrow> (case e of StatusSeen s \<Rightarrow> ns_node_id s = nid | HealthSeen h \<Rightarrow> nh_node_id h = nid | _ \<Rightarrow> False)"

definition about :: "string \<Rightarrow> string \<Rightarrow> view_event \<Rightarrow> bool" where
  "about key_prefix nid e \<longleftrightarrow> reports nid e \<or> liveliness_of key_prefix nid e \<noteq> None"

text \<open>
  A step seen from one node: what is known about it is a function of the event and of what was known
  before; events about other nodes do not matter.
\<close>

definition node_step :: "string \<Rightarrow> Duration \<Rightarrow> string \<Rightarrow> DateTime \<times> view_event \<Rightarrow> (bool \<times> DateTime) option \<Rightarrow> (bool \<times> DateTime) option" where
  "node_step key_prefix timeout nid e st =
     (case liveliness_of key_prefix nid (snd e) of
        Some k \<Rightarrow> Some (k = Put, fst e)
      | None \<Rightarrow>
          if reports nid (snd e) then Some (case st of Some (up, _) \<Rightarrow> up | None \<Rightarrow> True, fst e)
          else if snd e = ManualEviction nid then None
          else case st of
              Some (up, t) \<Rightarrow> if snd e = SweepDue \<and> 0 < timeout \<and> \<not> up \<and> int timeout < fst e - t then None else st
            | None \<Rightarrow> None)"

definition seen_as :: "cluster_nodes \<Rightarrow> string \<Rightarrow> (bool \<times> DateTime) option" where
  "seen_as m nid = map_option (\<lambda>info. (ni_online info, ni_last_seen info)) (hm_get m nid)"

lemma view_step_node:
  assumes "hm_wf m"
  shows "seen_as (view_step key_prefix timeout e m) nid = node_step key_prefix timeout nid e (seen_as m nid)"
proof (cases "snd e")
  case (StatusSeen s)
  then show ?thesis
    by (auto simp: view_step_def seen_as_def node_step_def liveliness_of_def reports_def on_status_def or_insert_node_def node_info_new_def split: option.split)
next
  case (HealthSeen h)
  then show ?thesis
    by (auto simp: view_step_def seen_as_def node_step_def liveliness_of_def reports_def on_health_def or_insert_node_def node_info_new_def split: option.split)
next
  case (LivelinessSeen s)
  then show ?thesis
    by (cases "strip_prefix (key_prefix @ ''/_agents/'') (fst s)")
      (auto simp: view_step_def seen_as_def node_step_def liveliness_of_def reports_def on_liveliness_def Let_def split: option.split)
next
  case SweepDue
  then show ?thesis
    using evict_sweep_exact[OF assms, of timeout "fst e" nid]
    by (auto simp: view_step_def seen_as_def node_step_def liveliness_of_def reports_def evictable_def split: option.split)
next
  case (ManualEviction n)
  then show ?thesis
    by (auto simp: view_step_def seen_as_def node_step_def liveliness_of_def reports_def evict_node_def split: option.split)
qed

lemma view_run_node:
  "hm_wf m \<Longrightarrow> seen_as (view_run key_prefix timeout es m) nid = fold (node_step key_prefix timeout nid) es (seen_as m nid)"
  by (induction es arbitrary: m) (simp_all add: view_run_def view_step_node view_step_wf)

lemma view_run_wf: "hm_wf m \<Longrightarrow> hm_wf (view_run key_prefix timeout es m)"
  unfolding view_run_def by (induction es arbitrary: m) (simp_all add: view_step_wf)

text \<open>What a known node owes to the past: the time of the last event about it, and a deletion if it is offline.\<close>

definition owed :: "string \<Rightarrow> string \<Rightarrow> (DateTime \<times> view_event) list \<Rightarrow> bool \<times> DateTime \<Rightarrow> bool" where
  "owed key_prefix nid es st \<longleftrightarrow>
     (\<exists>xs e ys. es = xs @ (snd st, e) # ys \<and> about key_prefix nid e \<and> \<not> (\<exists>y \<in> set ys. about key_prefix nid (snd y)))
   \<and> (\<not> fst st \<longrightarrow> (\<exists>xs e ys. es = xs @ e # ys \<and> liveliness_of key_prefix nid (snd e) = Some Delete
          \<and> \<not> (\<exists>y \<in> set ys. liveliness_of key_prefix nid (snd y) = Some Put)))"

lemma owed_mono:
  assumes "owed key_prefix nid es st" "\<not> about key_prefix nid (snd e)"
  shows "owed key_prefix nid (es @ [e]) st"
proof -
  have "liveliness_of key_prefix nid (snd e) = None" using assms(2) by (simp add: about_def)
  moreover obtain xs a ys where "es = xs @ (snd st, a) # ys" "about key_prefix nid a" "\<not> (\<exists>y \<in> set ys. about key_prefix nid (snd y))"
    using assms(1) unfolding owed_def by blast
  then have "es @ [e] = xs @ (snd st, a) # (ys @ [e])" "about key_prefix nid a" "\<not> (\<exists>y \<in> set (ys @ [e]). about key_prefix nid (snd y))"
    using assms(2) by auto
  moreover have "\<exists>xs a ys. es @ [e] = xs @ a # ys \<and> liveliness_of key_prefix nid (snd a) = Some Delete
      \<and> \<not> (\<exists>y \<in> set ys. liveliness_of key_prefix nid (snd y) = Some Put)" if off: "\<not> fst st"
  proof -
    obtain xs a ys where "es = xs @ a # ys" "liveliness_of key_prefix nid (snd a) = Some Delete"
      "\<not> (\<exists>y \<in> set ys. liveliness_of key_prefix nid (snd y) = Some Put)"
      using assms(1) off unfolding owed_def by blast
    then show ?thesis using calculation(1) by (intro exI[of _ xs] exI[of _ a] exI[of _ "ys @ [e]"]) auto
  qed
  ultimately show ?thesis unfolding owed_def by blast
qed

lemma node_run_owed:
  "fold (node_step key_prefix timeout nid) es None = Some st \<Longrightarrow> owed key_prefix nid es st"
proof (induction es arbitrary: st rule: rev_induct)
  case (snoc e es)
  define s0 where "s0 = fold (node_step key_prefix timeout nid) es None"
  have step: "node_step key_prefix timeout nid e s0 = Some st" using snoc.prems by (simp add: s0_def)
  have now: "\<exists>xs a ys. es @ [e] = xs @ (fst e, a) # ys \<and> about key_prefix nid a \<and> \<not> (\<exists>y \<in> set ys. about key_prefix nid (snd y))"
    if "about key_prefix nid (snd e)"
    using that by (intro exI[of _ es] exI[of _ "snd e"] exI[of _ "[]"]) simp
  consider (live) k where "liveliness_of key_prefix nid (snd e) = Some k"
    | (report) "liveliness_of key_prefix nid (snd e) = None" "reports nid (snd e)"
    | (other) "\<not> about key_prefix nid (snd e)"
    by (cases "liveliness_of key_prefix nid (snd e)") (auto simp: about_def)
  then show ?case
  proof cases
    case live
    then have st: "st = (k = Put, fst e)" using step by (simp add: node_step_def)
    have "\<exists>xs a ys. es @ [e] = xs @ a # ys \<and> liveliness_of key_prefix nid (snd a) = Some Delete
        \<and> \<not> (\<exists>y \<in> set ys. liveliness_of key_prefix nid (snd y) = Some Put)" if "k \<noteq> Put"
      using that live by (intro exI[of _ es] exI[of _ e] exI[of _ "[]"]) (cases k, simp_all)
    then show ?thesis using now live st by (auto simp: owed_def about_def)
  next
    case report
    then have st: "st = (case s0 of Some (up, _) \<Rightarrow> up | None \<Rightarrow> True, fst e)" using step by (simp add: node_step_def)
    have "\<exists>xs a ys. es @ [e] = xs @ a # ys \<and> liveliness_of key_prefix nid (snd a) = Some Delete
        \<and> \<not> (\<exists>y \<in> set ys. liveliness_of key_prefix nid (snd y) = Some Put)" if off: "\<not> fst st"
    proof -
      obtain t where "s0 = Some (False, t)" using off st by (auto split: option.splits)
      from snoc.IH[OF this[unfolded s0_def]] obtain xs a ys where "es = xs @ a # ys" "liveliness_of key_prefix nid (snd a) = Some Delete"
        "\<not> (\<exists>y \<in> set ys. liveliness_of key_prefix nid (snd y) = Some Put)" by (auto simp: owed_def)
      then show ?thesis using report(1) by (intro exI[of _ xs] exI[of _ a] exI[of _ "ys @ [e]"]) auto
    qed
    then show ?thesis using now report st by (auto simp: owed_def about_def)
  next
    case other
    then have "s0 = Some st" using step by (auto simp: node_step_def about_def split: option.splits if_splits)
    then show ?thesis using snoc.IH owed_mono[OF _ other] unfolding s0_def by blast
  qed
qed simp

section \<open>Eviction\<close>

text \<open>
  A node is evicted only when it has left and been silent: when a sweep at time \<open>now\<close> evicts a node,
  the last status report, health report or liveliness sample about it is older than the eviction
  timeout, and its liveliness token was deleted and not declared again since.
\<close>

theorem eviction_only_after_silence:
  assumes "nid \<in> set (snd (evict_sweep timeout now (view_run key_prefix timeout es [])))"
  shows "(\<exists>xs t e ys. es = xs @ (t, e) # ys \<and> about key_prefix nid e \<and> \<not> (\<exists>y \<in> set ys. about key_prefix nid (snd y))
        \<and> int timeout < now - t)
    \<and> (\<exists>xs e ys. es = xs @ e # ys \<and> liveliness_of key_prefix nid (snd e) = Some Delete
        \<and> \<not> (\<exists>y \<in> set ys. liveliness_of key_prefix nid (snd y) = Some Put))"
proof -
  let ?m = "view_run key_prefix timeout es []"
  have wf: "hm_wf ?m" by (rule view_run_wf) simp
  obtain info where info: "(nid, info) \<in> set ?m" "evictable timeout now info"
    using assms by (auto simp: evict_sweep_def Let_def)
  then have "hm_get ?m nid = Some info" using wf by simp
  then have "fold (node_step key_prefix timeout nid) es None = Some (ni_online info, ni_last_seen info)"
    using view_run_node[of "[]" key_prefix timeout es nid] by (simp add: seen_as_def)
  from node_run_owed[OF this] show ?thesis using info(2) by (auto simp: owed_def evictable_def)
qed

theorem eviction_only_after_silence_witness:
  "\<exists>xs t e ys. [(0, LivelinessSeen (''t/_agents/a'', Put)), (1, LivelinessSeen (''t/_agents/a'', Delete))] = xs @ (t, e) # ys \<and> 300 < 400 - (t::int)"
proof -
  have "''a'' \<in> set (snd (evict_sweep 300 400
      (view_run ''t'' 300 [(0, LivelinessSeen (''t/_agents/a'', Put)), (1, LivelinessSeen (''t/_agents/a'', Delete))] [])))"
    by code_simp
  from eviction_only_after_silence[OF this] show ?thesis by (metis of_nat_numeral)
qed

text \<open>
  A node the view knows from its reports only is online for ever: nothing marks it offline, so no sweep
  evicts it.  This is every agent whose liveliness token is under the prefix of its topic and whose
  health reports are under the prefix the view watches.
\<close>

theorem report_only_node_stays_online:
  assumes "\<forall>e \<in> set es. liveliness_of key_prefix nid (snd e) = None \<and> snd e \<noteq> ManualEviction nid" and "\<exists>e \<in> set es. reports nid (snd e)"
  shows "is_node_online (view_run key_prefix timeout es []) nid"
proof -
  have "case fold (node_step key_prefix timeout nid) es None of Some (up, t) \<Rightarrow> up | None \<Rightarrow> \<not> (\<exists>e \<in> set es. reports nid (snd e))"
    using assms(1)
  proof (induction es rule: rev_induct)
    case (snoc e es)
    define s0 where "s0 = fold (node_step key_prefix timeout nid) es None"
    have "case s0 of Some (up, t) \<Rightarrow> up | None \<Rightarrow> \<not> (\<exists>e \<in> set es. reports nid (snd e))" using snoc by (simp add: s0_def)
    then have "case node_step key_prefix timeout nid e s0 of Some (up, t) \<Rightarrow> up | None \<Rightarrow> \<not> (\<exists>e \<in> set (es @ [e]). reports nid (snd e))"
      using snoc.prems by (cases s0) (auto simp: node_step_def)
    then show ?case by (simp add: s0_def)
  qed simp
  then obtain t where "seen_as (view_run key_prefix timeout es []) nid = Some (True, t)"
    using assms(2) view_run_node[of "[]" key_prefix timeout es nid] by (auto simp: seen_as_def split: option.splits)
  then show ?thesis by (auto simp: is_node_online_def seen_as_def)
qed

end
