(* ===== verification/Overrides.thy ===== *)
theory Overrides
  imports Cluster_View
begin

text \<open>
  Placement overrides of the orchestrator: the override manager
  (\<^verbatim>\<open>mitiflow-orchestrator/src/override_manager.rs\<close>) and the drain and undrain operations
  (\<^verbatim>\<open>mitiflow-orchestrator/src/drain.rs\<close>), together with the tables the agents make of what is
  published.  JSON is a parameter; the answer of the session to a put is an argument.
\<close>

section \<open>The override manager\<close>

text \<open>
  An operation on the current table yields the new table, the payloads it put on the overrides key, and
  its result.
\<close>

type_synonym om_step = "OverrideTable \<times> bytes list \<times> unit result"

definition chrono_from_std :: "Duration \<Rightarrow> int" where
  "chrono_from_std d = (if d \<le> (2 ^ 63 - 1) * 1000000 then int d else 0)"

definition publish_entries ::
  "OverrideTable commit_codec \<Rightarrow> unit result \<Rightarrow> DateTime \<Rightarrow> OverrideEntry list \<Rightarrow> Duration option \<Rightarrow> OverrideTable \<Rightarrow> om_step"
where
  "publish_entries js put now es ttl current =
     (let table = \<lparr>ot_entries = es, ot_epoch = ot_epoch current + 1, ot_expires_at = map_option (\<lambda>d. now + chrono_from_std d) ttl\<rparr> in
      case cc_to_vec js table of
        Err e \<Rightarrow> (current, [], Err e)
      | Ok bytes \<Rightarrow> (case put of Err e \<Rightarrow> (current, [], Err e) | Ok _ \<Rightarrow> (table, [bytes], Ok ())))"

definition clear_overrides :: "OverrideTable commit_codec \<Rightarrow> unit result \<Rightarrow> DateTime \<Rightarrow> OverrideTable \<Rightarrow> om_step" where
  "clear_overrides js put now current = publish_entries js put now [] None current"

definition remove_entries_for_node :: "OverrideTable commit_codec \<Rightarrow> unit result \<Rightarrow> DateTime \<Rightarrow> string \<Rightarrow> OverrideTable \<Rightarrow> om_step" where
  "remove_entries_for_node js put now nid current =
     publish_entries js put now (filter (\<lambda>e. oe_node_id e \<noteq> nid) (ot_entries current)) None current"

definition merge_entries :: "OverrideEntry list \<Rightarrow> OverrideEntry list \<Rightarrow> OverrideEntry list" where
  "merge_entries new_entries es =
     fold (\<lambda>new merged. filter (\<lambda>e. \<not> (oe_partition e = oe_partition new \<and> oe_replica e = oe_replica new)) merged @ [new]) new_entries es"

definition add_entries ::
  "OverrideTable commit_codec \<Rightarrow> unit result \<Rightarrow> DateTime \<Rightarrow> OverrideEntry list \<Rightarrow> Duration option \<Rightarrow> OverrideTable \<Rightarrow> om_step"
where
  "add_entries js put now new_entries ttl current = publish_entries js put now (merge_entries new_entries (ot_entries current)) ttl current"

section \<open>Drain and undrain\<close>

definition drain_reason :: "string \<Rightarrow> string" where
  "drain_reason nid = ''drain '' @ nid"

definition compute_drain_overrides ::
  "(hash_input list \<Rightarrow> u64) \<Rightarrow> (u32 \<Rightarrow> u64 \<Rightarrow> 'f::linorder) \<Rightarrow> string \<Rightarrow> (u32 \<times> u32, AssignmentInfo) hmap
    \<Rightarrow> NodeDescriptor list \<Rightarrow> u32 \<Rightarrow> OverrideEntry list"
where
  "compute_drain_overrides H F nid assigned all_nodes rf =
     (let owned = map fst (filter (\<lambda>(k, info). ai_node_id info = nid) assigned);
          alternatives = filter (\<lambda>n. node_id n \<noteq> nid) all_nodes in
      if owned = [] then []
      else if alternatives = [] then []
      else map (\<lambda>(p, r). \<lparr>oe_partition = p, oe_replica = r,
             oe_node_id = (case assign_replicas_rack_aware H F p rf alternatives of [] \<Rightarrow> node_id (hd alternatives) | x # _ \<Rightarrow> x),
             oe_reason = drain_reason nid\<rparr>) owned)"

text \<open>The descriptors of the online nodes of a view; a node without metadata gets the default capacity.\<close>

definition online_descriptors :: "cluster_nodes \<Rightarrow> NodeDescriptor list" where
  "online_descriptors m = map (\<lambda>(nid, info). case ni_metadata info of
       Some md \<Rightarrow> \<lparr>node_id = nid, capacity = nm_capacity md, labels = nm_labels md\<rparr>
     | None \<Rightarrow> \<lparr>node_id = nid, capacity = 100, labels = []\<rparr>) (filter (\<lambda>(nid, info). ni_online info) m)"

definition drain_node ::
  "(hash_input list \<Rightarrow> u64) \<Rightarrow> (u32 \<Rightarrow> u64 \<Rightarrow> 'f::linorder) \<Rightarrow> OverrideTable commit_codec \<Rightarrow> unit result \<Rightarrow> DateTime \<Rightarrow> string \<Rightarrow> cluster_nodes
    \<Rightarrow> u32 \<Rightarrow> OverrideTable \<Rightarrow> OverrideTable \<times> bytes list \<times> OverrideEntry list result"
where
  "drain_node H F js put now nid view rf current =
     (let overrides = compute_drain_overrides H F nid (view_assignments view) (online_descriptors view) rf in
      if overrides = [] then (current, [], Ok [])
      else let (current', sent, r) = add_entries js put now overrides None current in (current', sent, rbind r (\<lambda>_. Ok overrides)))"

definition undrain_node :: "OverrideTable commit_codec \<Rightarrow> unit result \<Rightarrow> DateTime \<Rightarrow> string \<Rightarrow> OverrideTable \<Rightarrow> om_step" where
  "undrain_node js put now nid current =
     publish_entries js put now (filter (\<lambda>e. oe_reason e \<noteq> drain_reason nid) (ot_entries current)) None current"

section \<open>Looking up merged overrides\<close>

lemma find_append: "List.find P (xs @ ys) = (case List.find P xs of Some x \<Rightarrow> Some x | None \<Rightarrow> List.find P ys)"
  by (induction xs) simp_all

lemma find_filter_imp: "(\<And>x. P x \<Longrightarrow> Q x) \<Longrightarrow> List.find P (filter Q xs) = List.find P xs"
  by (induction xs) auto

abbreviation entry_at :: "u32 \<Rightarrow> u32 \<Rightarrow> OverrideEntry \<Rightarrow> bool" where
  "entry_at p r \<equiv> \<lambda>e. oe_partition e = p \<and> oe_replica e = r"

lemma find_none_filter_out: "List.find P (filter (\<lambda>x. \<not> P x) xs) = None"
  by (induction xs) auto

text \<open>The last new entry for a replica wins; without one the old entry stays.\<close>

lemma find_merge:
  "List.find (entry_at p r) (merge_entries new_entries es)
   = (case List.find (entry_at p r) (rev new_entries) of Some e \<Rightarrow> Some e | None \<Rightarrow> List.find (entry_at p r) es)"
  unfolding merge_entries_def
proof (induction new_entries arbitrary: es)
  case (Cons new news)
  let ?kept = "filter (\<lambda>e. \<not> (oe_partition e = oe_partition new \<and> oe_replica e = oe_replica new)) es"
  have "List.find (entry_at p r) (?kept @ [new]) = (if entry_at p r new then Some new else List.find (entry_at p r) es)"
  proof (cases "entry_at p r new")
    case True
    then have "List.find (entry_at p r) ?kept = None" using find_none_filter_out[of "entry_at p r" es] by simp
    then show ?thesis using True by (simp add: find_append)
  next
    case False
    then have "List.find (entry_at p r) ?kept = List.find (entry_at p r) es" by (intro find_filter_imp) auto
    moreover have "\<not> entry_at p r new" using False .
    ultimately show ?thesis by (simp only: find_append list.simps find.simps if_False) (simp split: option.split)
  qed
  then show ?case using Cons.IH[of "?kept @ [new]"] by (simp add: find_append split: option.split)
qed simp

lemma find_in_rev: "List.find P (rev xs) = Some x \<Longrightarrow> x \<in> set xs"
  by (metis find_Some_iff nth_mem set_rev)

section \<open>The tables of the agents\<close>

datatype om_op =
    OmPublish "OverrideEntry list" "Duration option"
  | OmClear
  | OmRemoveNode string
  | OmAdd "OverrideEntry list" "Duration option"
  | OmUndrain string

fun om_apply :: "OverrideTable commit_codec \<Rightarrow> unit result \<times> DateTime \<times> om_op \<Rightarrow> OverrideTable \<Rightarrow> om_step" where
  "om_apply js (put, now, OmPublish es ttl) t = publish_entries js put now es ttl t"
| "om_apply js (put, now, OmClear) t = clear_overrides js put now t"
| "om_apply js (put, now, OmRemoveNode nid) t = remove_entries_for_node js put now nid t"
| "om_apply js (put, now, OmAdd es ttl) t = add_entries js put now es ttl t"
| "om_apply js (put, now, OmUndrain nid) t = undrain_node js put now nid t"

text \<open>A run of operations: the final table and everything that was put, in order.\<close>

fun om_run :: "OverrideTable commit_codec \<Rightarrow> (unit result \<times> DateTime \<times> om_op) list \<Rightarrow> OverrideTable \<Rightarrow> OverrideTable \<times> bytes list" where
  "om_run js [] t = (t, [])"
| "om_run js (x # xs) t =
     (let (t1, sent, _) = om_apply js x t; (t2, sent') = om_run js xs t1 in (t2, sent @ sent'))"

definition decode_table :: "OverrideTable commit_codec \<Rightarrow> bytes \<Rightarrow> OverrideTable option" where
  "decode_table js bs = (case cc_from_slice js bs of Ok t \<Rightarrow> Some t | Err _ \<Rightarrow> None)"

lemma publish_cases:
  assumes "codec_ok js" and "publish_entries js put now es ttl t = (t1, sent, r)"
  shows "(t1 = t \<and> sent = [] \<and> (\<exists>e. r = Err e))
    \<or> (\<exists>bs. sent = [bs] \<and> decode_table js bs = Some t1 \<and> ot_epoch t1 = ot_epoch t + 1 \<and> ot_entries t1 = es \<and> r = Ok ())"
proof -
  let ?table = "\<lparr>ot_entries = es, ot_epoch = ot_epoch t + 1, ot_expires_at = map_option (\<lambda>d. now + chrono_from_std d) ttl\<rparr>"
  show ?thesis
  proof (cases "cc_to_vec js ?table")
    case (Inr bs)
    then have "decode_table js bs = Some ?table" using assms(1) by (simp add: decode_table_def codec_ok_def)
    then show ?thesis using assms(2) Inr by (cases put) (auto simp: publish_entries_def Let_def)
  qed (use assms(2) in \<open>auto simp: publish_entries_def Let_def\<close>)
qed

lemma om_apply_cases:
  assumes "codec_ok js" and "om_apply js x t = (t1, sent, r)"
  shows "(t1 = t \<and> sent = []) \<or> (\<exists>bs. sent = [bs] \<and> decode_table js bs = Some t1 \<and> ot_epoch t1 = ot_epoch t + 1)"
proof -
  obtain put now opn where x: "x = (put, now, opn)" by (cases x) auto
  show ?thesis
    using assms(2) publish_cases[OF assms(1)] unfolding x
    by (cases opn) (simp add: clear_overrides_def remove_entries_for_node_def add_entries_def undrain_node_def, blast)+
qed

text \<open>Every payload decodes to a table with an epoch above the first; the last one is the current table.\<close>

lemma om_run_epochs:
  assumes "codec_ok js" and "om_run js xs t = (t', sent)" and "unat (ot_epoch t) + length xs < 2 ^ 64"
  shows "ot_epoch t \<le> ot_epoch t' \<and> (sent = [] \<longrightarrow> t' = t)
    \<and> (sent \<noteq> [] \<longrightarrow> decode_table js (List.last sent) = Some t' \<and> ot_epoch t < ot_epoch t')
    \<and> (\<forall>bs \<in> set sent. \<exists>tb. decode_table js bs = Some tb \<and> ot_epoch t < ot_epoch tb \<and> (ot_epoch tb < ot_epoch t' \<or> tb = t'))"
  using assms(2,3)
proof (induction xs arbitrary: t t' sent)
  case (Cons x xs)
  obtain t1 s1 r where a: "om_apply js x t = (t1, s1, r)" by (cases "om_apply js x t")
  obtain t2 s2 where b: "om_run js xs t1 = (t2, s2)" by (cases "om_run js xs t1")
  have res: "t' = t2" "sent = s1 @ s2" using Cons.prems(1) a b by auto
  from om_apply_cases[OF assms(1) a] show ?case
  proof
    assume "t1 = t \<and> s1 = []"
    then show ?thesis using Cons.IH[OF b] Cons.prems(2) res by simp
  next
    assume "\<exists>bs. s1 = [bs] \<and> decode_table js bs = Some t1 \<and> ot_epoch t1 = ot_epoch t + 1"
    then obtain bs where bs: "s1 = [bs]" "decode_table js bs = Some t1" "ot_epoch t1 = ot_epoch t + 1" by blast
    have u: "unat (ot_epoch t1) = Suc (unat (ot_epoch t))" using bs(3) Cons.prems(2) by (simp add: unat_word_ariths)
    then have lt: "ot_epoch t < ot_epoch t1" by (simp add: word_less_nat_alt)
    have "unat (ot_epoch t1) + length xs < 2 ^ 64" using u Cons.prems(2) by simp
    note ih = Cons.IH[OF b this]
    have "s2 = [] \<longrightarrow> t2 = t1" "s2 \<noteq> [] \<longrightarrow> decode_table js (List.last s2) = Some t2 \<and> ot_epoch t1 < ot_epoch t2"
      "ot_epoch t1 \<le> ot_epoch t2" using ih by blast+
    then show ?thesis unfolding res bs(1)
      using ih lt bs(2) by (cases "s2 = []") (auto intro: less_le_trans less_trans)
  qed
qed simp

lemma received_highest:
  assumes "\<forall>bs \<in> set ps. \<exists>tb. decode_table js bs = Some tb \<and> ot_epoch g < ot_epoch tb \<and> (ot_epoch tb < ot_epoch t \<or> tb = t)"
    and "g = t \<or> ot_epoch g < ot_epoch t" and "g \<noteq> t \<longrightarrow> (\<exists>bs \<in> set ps. decode_table js bs = Some t)"
  shows "fold (override_received (decode_table js)) ps g = t"
proof -
  have "(ot_epoch (fold (override_received (decode_table js)) ps h) < ot_epoch t \<or> fold (override_received (decode_table js)) ps h = t)
      \<and> ((\<exists>bs \<in> set ps. decode_table js bs = Some t) \<or> h = t \<longrightarrow> fold (override_received (decode_table js)) ps h = t)"
    if "\<forall>bs \<in> set ps. \<exists>tb. decode_table js bs = Some tb \<and> (ot_epoch tb < ot_epoch t \<or> tb = t)" "ot_epoch h < ot_epoch t \<or> h = t" for h
    using that
  proof (induction ps arbitrary: h)
    case (Cons bs ps)
    obtain tb where tb: "decode_table js bs = Some tb" "ot_epoch tb < ot_epoch t \<or> tb = t" using Cons.prems(1) by auto
    define h1 where "h1 = override_received (decode_table js) bs h"
    have h1: "ot_epoch h1 < ot_epoch t \<or> h1 = t" "tb = t \<or> h = t \<longrightarrow> h1 = t"
      using Cons.prems(2) tb by (auto simp: h1_def override_received_def)
    have "\<forall>bs \<in> set ps. \<exists>tb. decode_table js bs = Some tb \<and> (ot_epoch tb < ot_epoch t \<or> tb = t)" using Cons.prems(1) by simp
    from Cons.IH[OF this h1(1)] show ?case using h1(2) tb(1) by (auto simp: h1_def[symmetric])
  qed auto
  from this[of g] assms show ?thesis by blast
qed

text \<open>
  C25. Agents end up with the orchestrator's override table: whatever the operations on the override
  manager, an agent that starts with the empty table and receives published tables in any order, any
  number of times, some not at all, ends with the manager's current table as soon as the last published
  one is among them.  Which key a table travels on is not part of it.
\<close>

theorem overrides_reach_agents:
  assumes "codec_ok js" and "om_run js ops override_default = (t, sent)" and "length ops < 2 ^ 64"
    and "set received \<subseteq> set sent" and "sent \<noteq> [] \<longrightarrow> List.last sent \<in> set received"
  shows "fold (override_received (decode_table js)) received override_default = t"
proof -
  have e: "unat (ot_epoch override_default) + length ops < 2 ^ 64" using assms(3) by (simp add: override_default_def)
  note r = om_run_epochs[OF assms(1,2) e]
  show ?thesis
  proof (rule received_highest)
    show "\<forall>bs \<in> set received. \<exists>tb. decode_table js bs = Some tb \<and> ot_epoch override_default < ot_epoch tb \<and> (ot_epoch tb < ot_epoch t \<or> tb = t)"
      using r assms(4) by blast
    show "override_default = t \<or> ot_epoch override_default < ot_epoch t" using r by blast
    show "override_default \<noteq> t \<longrightarrow> (\<exists>bs \<in> set received. decode_table js bs = Some t)" using r assms(5) by blast
  qed
qed

lemma unat_next_le: "unat (x + 1 :: u64) \<le> Suc (unat x)"
  by (simp add: unat_word_ariths mod_less_eq_dividend)

text \<open>
  The current table is in memory only: an orchestrator that restarts counts its epochs from 0 again, and
  an agent that has seen a table ignores every new one until the count has passed the old epoch.
\<close>

theorem restarted_orchestrator_ignored:
  assumes "codec_ok js" and "om_run js ops override_default = (t, sent)" and "length ops < 2 ^ 64"
    and "length ops \<le> unat (ot_epoch g)"
  shows "fold (override_received (decode_table js)) sent g = g"
proof -
  have bound: "unat (ot_epoch t') \<le> unat (ot_epoch t0) + length xs"
    if "om_run js xs t0 = (t', s)" "unat (ot_epoch t0) + length xs < 2 ^ 64" for xs t0 t' s
    using that
  proof (induction xs arbitrary: t0 t' s)
    case (Cons x xs)
    obtain t1 s1 r where a: "om_apply js x t0 = (t1, s1, r)" by (cases "om_apply js x t0")
    obtain t2 s2 where b: "om_run js xs t1 = (t2, s2)" by (cases "om_run js xs t1")
    have "ot_epoch t1 = ot_epoch t0 \<or> ot_epoch t1 = ot_epoch t0 + 1" using om_apply_cases[OF assms(1) a] by blast
    then have "unat (ot_epoch t1) \<le> Suc (unat (ot_epoch t0))" using unat_next_le[of "ot_epoch t0"] by (elim disjE) simp_all
    moreover have t2: "t' = t2" using Cons.prems(1) a b by simp
    moreover have "unat (ot_epoch t2) \<le> unat (ot_epoch t1) + length xs"
      using Cons.IH[OF b] calculation(1) Cons.prems(2) unfolding list.size by linarith
    ultimately show ?case unfolding list.size t2 by linarith
  qed simp
  have e: "unat (ot_epoch override_default) + length ops < 2 ^ 64" using assms(3) by (simp add: override_default_def)
  have le: "\<exists>tb. decode_table js bs = Some tb \<and> ot_epoch tb \<le> ot_epoch g" if "bs \<in> set sent" for bs
  proof -
    from bspec[OF conjunct2[OF conjunct2[OF conjunct2[OF om_run_epochs[OF assms(1,2) e]]]] that]
    obtain tb where tb: "decode_table js bs = Some tb" "ot_epoch tb < ot_epoch t \<or> tb = t" by blast
    have "unat (ot_epoch override_default) = 0" by (simp add: override_default_def)
    then have "ot_epoch t \<le> ot_epoch g" using bound[OF assms(2) e] assms(4) unfolding word_le_nat_alt by linarith
    then show ?thesis using tb by (meson less_imp_le order.trans order.refl)
  qed
  have "fold (override_received (decode_table js)) ps g = g" if "set ps \<subseteq> set sent" for ps
    using that
  proof (induction ps)
    case (Cons bs ps)
    then show ?case using le[of bs] by (auto simp: override_received_def)
  qed simp
  then show ?thesis by blast
qed

section \<open>Draining a node\<close>

lemma drain_target:
  assumes "alternatives \<noteq> []" and "distinct (map node_id alternatives)"
  shows "(case assign_replicas_rack_aware H F p rf alternatives of [] \<Rightarrow> node_id (hd alternatives) | x # _ \<Rightarrow> x) \<in> node_id ` set alternatives"
  using assms(1) rack_aware_picks[OF assms(2), of H F p rf]
  by (cases "assign_replicas_rack_aware H F p rf alternatives") auto

lemma online_descriptors_ids: "map node_id (online_descriptors m) = online_nodes m"
  unfolding online_descriptors_def online_nodes_def by (induction m) (auto split: option.split)

lemma online_nodes_distinct: "hm_wf m \<Longrightarrow> distinct (online_nodes m)"
  unfolding online_nodes_def by (induction m) auto

text \<open>What a drain publishes: one entry for every replica the view assigns to the node, and only those.\<close>

lemma drain_overrides_exact:
  fixes H F nid assigned nodes rf
  defines "ovs \<equiv> compute_drain_overrides H F nid assigned nodes rf"
  assumes "hm_wf assigned" and "distinct (map node_id nodes)" and "\<exists>n \<in> set nodes. node_id n \<noteq> nid"
  shows "\<forall>e \<in> set ovs. oe_reason e = drain_reason nid \<and> oe_node_id e \<noteq> nid \<and> oe_node_id e \<in> node_id ` set nodes
      \<and> map_option ai_node_id (hm_get assigned (oe_partition e, oe_replica e)) = Some nid"
    and "map_option ai_node_id (hm_get assigned (p, r)) = Some nid \<Longrightarrow> \<exists>e \<in> set ovs. entry_at p r e"
proof -
  let ?alt = "filter (\<lambda>n. node_id n \<noteq> nid) nodes"
  let ?owned = "map fst (filter (\<lambda>(k, info). ai_node_id info = nid) assigned)"
  let ?entry = "\<lambda>(p, r). \<lparr>oe_partition = p, oe_replica = r,
      oe_node_id = (case assign_replicas_rack_aware H F p rf ?alt of [] \<Rightarrow> node_id (hd ?alt) | x # _ \<Rightarrow> x), oe_reason = drain_reason nid\<rparr>"
  have alt: "?alt \<noteq> []" "distinct (map node_id ?alt)" using assms(3,4) by (auto simp: filter_empty_conv distinct_map inj_on_def)
  have "ovs = map ?entry ?owned"
    using alt(1) unfolding ovs_def compute_drain_overrides_def Let_def by (cases "?owned = []") (simp_all only: if_True if_False list.map refl)
  then have ovs: "set ovs = set (map ?entry ?owned)" by (simp only:)
  have owned: "k \<in> set ?owned \<longleftrightarrow> map_option ai_node_id (hm_get assigned k) = Some nid" for k
  proof -
    have "k \<in> set ?owned \<longleftrightarrow> (\<exists>info. (k, info) \<in> set assigned \<and> ai_node_id info = nid)" by force
    then show ?thesis using assms(2) by auto
  qed
  have target: "oe_node_id (?entry k) \<noteq> nid \<and> oe_node_id (?entry k) \<in> node_id ` set nodes" for k
    using drain_target[OF alt, of H F "fst k" rf] by (cases k) auto
  show "\<forall>e \<in> set ovs. oe_reason e = drain_reason nid \<and> oe_node_id e \<noteq> nid \<and> oe_node_id e \<in> node_id ` set nodes
      \<and> map_option ai_node_id (hm_get assigned (oe_partition e, oe_replica e)) = Some nid"
  proof
    fix e assume "e \<in> set ovs"
    then obtain k where k: "k \<in> set ?owned" "e = ?entry k" unfolding ovs set_map[of ?entry] by blast
    have "(oe_partition e, oe_replica e) = k" "oe_reason e = drain_reason nid" unfolding k(2) by (cases k, simp)+
    then show "oe_reason e = drain_reason nid \<and> oe_node_id e \<noteq> nid \<and> oe_node_id e \<in> node_id ` set nodes
        \<and> map_option ai_node_id (hm_get assigned (oe_partition e, oe_replica e)) = Some nid"
      using target[of k] k owned[of k] by simp
  qed
  show "\<exists>e \<in> set ovs. entry_at p r e" if "map_option ai_node_id (hm_get assigned (p, r)) = Some nid"
  proof -
    have "?entry (p, r) \<in> set ovs" using that owned[of "(p, r)"] unfolding ovs set_map[of ?entry] by blast
    then show ?thesis by (auto intro: bexI[of _ "?entry (p, r)"])
  qed
qed

lemma view_assignments_wf: "hm_wf (view_assignments m)"
proof -
  have "hm_wf (fold (\<lambda>ps. hm_insert (ps_partition ps, ps_replica ps) (assignment_of nid ps)) pss res)" if "hm_wf res" for nid pss res
    using that by (induction pss arbitrary: res) simp_all
  then have "hm_wf (fold (\<lambda>(nid, info) res. case ni_status info of
         None \<Rightarrow> res
       | Some status \<Rightarrow> fold (\<lambda>ps. hm_insert (ps_partition ps, ps_replica ps) (assignment_of nid ps)) (ns_partitions status) res) m res)"
    if "hm_wf res" for res
    using that by (induction m arbitrary: res) (auto split: option.split)
  then show ?thesis by (simp add: view_assignments_def)
qed

abbreviation assigned_to :: "cluster_nodes \<Rightarrow> string \<Rightarrow> u32 \<Rightarrow> u32 \<Rightarrow> bool" where
  "assigned_to m nid p r \<equiv> map_option ai_node_id (hm_get (view_assignments m) (p, r)) = Some nid"

text \<open>The table after a successful drain.\<close>

lemma drain_table:
  assumes "codec_ok js" and "hm_wf m" and "\<exists>other \<in> set (online_nodes m). other \<noteq> nid"
    and "drain_node H F js put now nid m rf t = (t', sent, Ok ovs)"
  shows "ot_entries t' = merge_entries ovs (ot_entries t)"
    and "\<forall>e \<in> set ovs. oe_reason e = drain_reason nid \<and> oe_node_id e \<noteq> nid \<and> oe_node_id e \<in> set (online_nodes m) \<and> assigned_to m nid (oe_partition e) (oe_replica e)"
    and "assigned_to m nid p r \<Longrightarrow> \<exists>e \<in> set ovs. entry_at p r e"
proof -
  let ?ovs = "compute_drain_overrides H F nid (view_assignments m) (online_descriptors m) rf"
  have d: "distinct (map node_id (online_descriptors m))" using online_nodes_distinct[OF assms(2)] by (simp only: online_descriptors_ids)
  have ids: "node_id ` set (online_descriptors m) = set (online_nodes m)" by (metis online_descriptors_ids set_map)
  have alt: "\<exists>n \<in> set (online_descriptors m). node_id n \<noteq> nid" using assms(3) unfolding ids[symmetric] by blast
  have res: "ovs = ?ovs \<and> ot_entries t' = merge_entries ovs (ot_entries t)"
  proof (cases "?ovs = []")
    case True
    then show ?thesis using assms(4) by (simp add: drain_node_def merge_entries_def)
  next
    case False
    obtain t1 s1 r where a: "add_entries js put now ?ovs None t = (t1, s1, r)" by (cases "add_entries js put now ?ovs None t")
    then have "t' = t1" "rbind r (\<lambda>_. Ok ?ovs) = Ok ovs" using assms(4) False by (auto simp: drain_node_def Let_def)
    then have "r = Ok () \<and> ovs = ?ovs" by (cases r) auto
    then show ?thesis using publish_cases[OF assms(1) a[unfolded add_entries_def]] \<open>t' = t1\<close> by auto
  qed
  then show "ot_entries t' = merge_entries ovs (ot_entries t)" by blast
  show "\<forall>e \<in> set ovs. oe_reason e = drain_reason nid \<and> oe_node_id e \<noteq> nid \<and> oe_node_id e \<in> set (online_nodes m) \<and> assigned_to m nid (oe_partition e) (oe_replica e)"
    using drain_overrides_exact(1)[OF view_assignments_wf d alt, where H = H and F = F and rf = rf] unfolding ids conjunct1[OF res] .
  show "\<exists>e \<in> set ovs. entry_at p r e" if "assigned_to m nid p r"
    using drain_overrides_exact(2)[OF view_assignments_wf d alt that, where H = H and F = F and rf = rf] unfolding conjunct1[OF res] .
qed

text \<open>
  C26. A drained node keeps nothing: when the view knows every replica the node wants to run and another
  node is online, then after a successful drain an agent that uses the new table on the drained node
  wants no replica; every replica the node had goes to an online node, and no other override changes.
\<close>

theorem drained_node_is_empty:
  assumes "codec_ok js" and "hm_wf m" and "\<exists>other \<in> set (online_nodes m). other \<noteq> nid"
    and "drain_node H F js put now nid m rf t = (t', sent, Ok ovs)"
    and "\<forall>(p, r) \<in> set (compute_desired_assignment H F nid n rf nodes t). assigned_to m nid p r"
  shows "compute_desired_assignment H F nid n rf nodes t' = []
    \<and> (\<forall>p r. assigned_to m nid p r \<longrightarrow> (\<exists>e. override_for t' p r = Some e \<and> oe_node_id e \<in> set (online_nodes m) - {nid}))
    \<and> (\<forall>p r. \<not> assigned_to m nid p r \<longrightarrow> override_for t' p r = override_for t p r)"
proof (intro conjI allI impI)
  note d = drain_table[OF assms(1-4)]
  have new: "\<exists>e. override_for t' p r = Some e \<and> oe_node_id e \<in> set (online_nodes m) - {nid}" if a: "assigned_to m nid p r" for p r
  proof -
    obtain e where "List.find (entry_at p r) (rev ovs) = Some e"
      using d(3)[OF a] by (cases "List.find (entry_at p r) (rev ovs)") (auto simp: find_None_iff)
    moreover from this have "e \<in> set ovs" by (rule find_in_rev)
    ultimately show ?thesis using d(2) by (simp add: override_for_def d(1) find_merge)
  qed
  have old: "override_for t' p r = override_for t p r" if a: "\<not> assigned_to m nid p r" for p r
  proof -
    have "List.find (entry_at p r) (rev ovs) = None" using d(2) a by (auto simp: find_None_iff)
    then show ?thesis by (simp add: override_for_def d(1) find_merge)
  qed
  have "x \<notin> set (compute_desired_assignment H F nid n rf nodes t')" for x
  proof (cases x)
    case (Pair p r)
    show ?thesis
    proof (cases "assigned_to m nid p r")
      case True
      then show ?thesis using new[OF True] unfolding Pair desired_iff by auto
    next
      case False
      then have "(p, r) \<notin> set (compute_desired_assignment H F nid n rf nodes t)" using assms(5) by blast
      then show ?thesis using old[OF False] unfolding Pair desired_iff by simp
    qed
  qed
  then have "set (compute_desired_assignment H F nid n rf nodes t') = {}" by (meson equals0I)
  then show "compute_desired_assignment H F nid n rf nodes t' = []" by simp
  show "\<exists>e. override_for t' p r = Some e \<and> oe_node_id e \<in> set (online_nodes m) - {nid}" if "assigned_to m nid p r" for p r
    by (rule new[OF that])
  show "override_for t' p r = override_for t p r" if "\<not> assigned_to m nid p r" for p r
    by (rule old[OF that])
qed

lemma merge_Cons:
  "merge_entries (new # news) es = merge_entries news (filter (\<lambda>e. \<not> entry_at (oe_partition new) (oe_replica new) e) es @ [new])"
  by (simp add: merge_entries_def)

lemma filter_merge:
  assumes "\<forall>new \<in> set news. \<not> P new" and "\<forall>e \<in> set es. \<forall>new \<in> set news. P e \<longrightarrow> \<not> entry_at (oe_partition new) (oe_replica new) e"
  shows "filter P (merge_entries news es) = filter P es"
  using assms
proof (induction news arbitrary: es)
  case (Cons new news)
  let ?es = "filter (\<lambda>e. \<not> entry_at (oe_partition new) (oe_replica new) e) es"
  have "filter P ?es = filter P es" unfolding filter_filter by (rule filter_cong[OF refl]) (use Cons.prems(2) in auto)
  moreover have "filter P (merge_entries news (?es @ [new])) = filter P (?es @ [new])"
  proof (rule Cons.IH)
    show "\<forall>new \<in> set news. \<not> P new" using Cons.prems(1) by simp
    show "\<forall>e \<in> set (?es @ [new]). \<forall>new \<in> set news. P e \<longrightarrow> \<not> entry_at (oe_partition new) (oe_replica new) e"
      using Cons.prems by (intro ballI impI) (auto simp del: de_Morgan_conj)
  qed
  moreover have "\<not> P new" using Cons.prems(1) by simp
  ultimately show ?case by (simp add: merge_Cons)
qed (simp add: merge_entries_def)

text \<open>
  Undrain takes a drain back: when no override was in place for the replicas of the node, draining
  and undraining it leaves the entries of the table as they were.
\<close>

theorem undrain_restores_overrides:
  assumes "codec_ok js" and "hm_wf m" and "\<exists>other \<in> set (online_nodes m). other \<noteq> nid"
    and "drain_node H F js put now nid m rf t = (t', sent, Ok ovs)"
    and "undrain_node js put' now' nid t' = (t'', sent', Ok ())"
    and "\<forall>e \<in> set (ot_entries t). oe_reason e \<noteq> drain_reason nid \<and> \<not> assigned_to m nid (oe_partition e) (oe_replica e)"
  shows "ot_entries t'' = ot_entries t"
proof -
  note d = drain_table[OF assms(1-4)]
  have "ot_entries t'' = filter (\<lambda>e. oe_reason e \<noteq> drain_reason nid) (ot_entries t')"
    using publish_cases[OF assms(1) assms(5)[unfolded undrain_node_def]] by auto
  also have "\<dots> = filter (\<lambda>e. oe_reason e \<noteq> drain_reason nid) (ot_entries t)"
    unfolding d(1)
  proof (rule filter_merge, safe)
    fix e new assume "e \<in> set (ot_entries t)" "new \<in> set ovs" "oe_partition e = oe_partition new" "oe_replica e = oe_replica new"
    then show False using d(2) assms(6) by metis
  qed (use d(2) in blast)
  also have "\<dots> = ot_entries t" using assms(6) by (simp add: filter_id_conv)
  finally show ?thesis .
qed

section \<open>Where a drain goes wrong\<close>

lemma rack_aware_first:
  assumes "scored H F p nodes = x # rest" and "0 < rf"
  shows "\<exists>xs. assign_replicas_rack_aware H F p rf nodes = node_id x # xs"
proof -
  have rf: "0 < unat rf" using assms(2) by (simp add: unat_gt_0 word_neq_0_conv)
  have "rack_pass k ns sel used = sel @ drop (length sel) (rack_pass k ns sel used)" for k ns sel used
    by (induction k ns sel used rule: rack_pass.induct) (auto, metis append.assoc append_eq_conv_conj)
  moreover have "fill_pass k ns sel = sel @ drop (length sel) (fill_pass k ns sel)" for k ns sel
    by (induction k ns sel rule: fill_pass.induct) (auto, metis append.assoc append_eq_conv_conj)
  moreover have "rack_pass (unat rf) (x # rest) [] {} = rack_pass (unat rf) rest [node_id x] {node_rack x}" using rf by simp
  ultimately show ?thesis
    unfolding assign_replicas_rack_aware_def assms(1) Let_def by (metis append_Cons append_Nil)
qed

text \<open>
  A drain of a node that holds a later replica of a partition sends that replica to the node that already
  holds the first one: the target is the head of the chain of the remaining nodes, which is the head of
  the whole chain unless the drained node is the head itself.
\<close>

theorem drain_stacks_replicas:
  assumes "codec_ok js" and "hm_wf m" and "drain_node H F js put now nid m rf t = (t', sent, Ok ovs)"
    and "assigned_to m nid p r" and "scored H F p (online_descriptors m) = x # rest" and "node_id x \<noteq> nid" and "0 < rf"
  shows "assign_replicas_rack_aware H F p rf (online_descriptors m) ! 0 = node_id x
    \<and> (\<exists>e. override_for t' p r = Some e \<and> oe_node_id e = node_id x)"
proof
  show "assign_replicas_rack_aware H F p rf (online_descriptors m) ! 0 = node_id x"
    using rack_aware_first[OF assms(5,7)] by auto
  let ?alt = "filter (\<lambda>n. node_id n \<noteq> nid) (online_descriptors m)"
  have "x \<in> set (online_descriptors m)" using scored_simps(1)[of H F p "online_descriptors m"] assms(5) by (metis list.set_intros(1))
  then have other: "\<exists>other \<in> set (online_nodes m). other \<noteq> nid"
    using assms(6) by (metis imageI list.set_map online_descriptors_ids)
  have "scored H F p ?alt = x # filter (\<lambda>n. node_id n \<noteq> nid) rest"
    using scored_filter[of H F p "\<lambda>n. node_id n \<noteq> nid" "online_descriptors m"] assms(5,6) by simp
  from rack_aware_first[OF this assms(7)] obtain xs where chain: "assign_replicas_rack_aware H F p rf ?alt = node_id x # xs" by blast
  note d = drain_table[OF assms(1,2) other assms(3)]
  obtain e where e: "List.find (entry_at p r) (rev ovs) = Some e"
    using d(3)[OF assms(4)] by (cases "List.find (entry_at p r) (rev ovs)") (auto simp: find_None_iff)
  then have "e \<in> set ovs" "oe_partition e = p" by (simp_all add: find_in_rev) (metis (mono_tags) find_Some_iff)
  moreover have "ovs = compute_drain_overrides H F nid (view_assignments m) (online_descriptors m) rf"
    using assms(3) by (auto simp: drain_node_def Let_def split: if_splits prod.splits)
  ultimately have "oe_node_id e = node_id x"
    using chain by (auto simp: compute_drain_overrides_def Let_def split: if_splits)
  then show "\<exists>e. override_for t' p r = Some e \<and> oe_node_id e = node_id x" using e by (simp add: override_for_def d(1) find_merge)
qed

text \<open>
  Adding entries reads the table and publishes it under separate locks: of two calls that both read
  before either publishes, the first one's entries are lost.
\<close>

theorem concurrent_add_loses_entries:
  assumes "codec_ok js" and "publish_entries js put now (merge_entries xs (ot_entries t)) ttl t = (t1, sent, Ok ())"
    and "publish_entries js put' now' (merge_entries ys (ot_entries t)) ttl' t1 = (t2, sent', Ok ())"
    and "\<forall>y \<in> set ys. \<not> entry_at p r y"
  shows "override_for t2 p r = override_for t p r"
proof -
  have "List.find (entry_at p r) (rev ys) = None" using assms(4) by (auto simp: find_None_iff)
  then show ?thesis using publish_cases[OF assms(1,3)] by (auto simp: override_for_def find_merge)
qed

section \<open>Witnesses\<close>

definition put_entry :: "OverrideEntry \<Rightarrow> bytes" where
  "put_entry e = put_nat (unat (oe_partition e)) @ put_nat (unat (oe_replica e)) @ put_str (oe_node_id e) @ put_str (oe_reason e)"

fun get_entries_n :: "nat \<Rightarrow> bytes \<Rightarrow> OverrideEntry list \<times> bytes" where
  "get_entries_n 0 bs = ([], bs)"
| "get_entries_n (Suc n) bs =
     (case get_nat bs of (p, bs) \<Rightarrow> case get_nat bs of (r, bs) \<Rightarrow> case get_str bs of (nid, bs) \<Rightarrow> case get_str bs of (why, bs) \<Rightarrow>
        case get_entries_n n bs of (es, bs) \<Rightarrow>
        (\<lparr>oe_partition = word_of_nat p, oe_replica = word_of_nat r, oe_node_id = nid, oe_reason = why\<rparr> # es, bs))"

lemma get_put_entries: "get_entries_n (length es) (concat (map put_entry es) @ bs) = (es, bs)"
  by (induction es) (simp_all add: put_entry_def)

definition unary_table :: "OverrideTable commit_codec" where
  "unary_table = \<lparr>
     cc_to_vec = (\<lambda>t. Ok (put_nat (unat (ot_epoch t)) @ put_nat (case ot_expires_at t of None \<Rightarrow> 0 | Some _ \<Rightarrow> 1)
        @ put_int (case ot_expires_at t of None \<Rightarrow> 0 | Some d \<Rightarrow> d) @ put_nat (length (ot_entries t)) @ concat (map put_entry (ot_entries t)) @ [])),
     cc_from_slice = (\<lambda>bs. case get_nat bs of (ep, bs) \<Rightarrow> case get_nat bs of (b, bs) \<Rightarrow> case get_int bs of (d, bs) \<Rightarrow>
        case get_nat bs of (n, bs) \<Rightarrow>
        Ok \<lparr>ot_entries = fst (get_entries_n n bs), ot_epoch = word_of_nat ep, ot_expires_at = (if b = 0 then None else Some d)\<rparr>)\<rparr>"

lemma unary_table_ok: "codec_ok unary_table"
  unfolding codec_ok_def
proof (intro allI impI)
  fix t :: OverrideTable and bs
  assume "cc_to_vec unary_table t = Ok bs"
  then show "cc_from_slice unary_table bs = Ok t"
    by (cases t; cases "ot_expires_at t") (auto simp: unary_table_def get_put_entries simp del: append_Nil2)
qed

lemma drain_succeeds:
  "\<exists>t' sent ovs. drain_node H F unary_table (Ok ()) now nid m rf t = (t', sent, Ok ovs)"
  by (simp add: drain_node_def add_entries_def publish_entries_def unary_table_def Let_def)

definition demo_view :: cluster_nodes where
  "demo_view = [(''a'', node_info_new True 0),
     (''b'', (node_info_new True 0)\<lparr>ni_status := Some \<lparr>ns_node_id = ''b'', ns_partitions =
        [\<lparr>ps_partition = 0, ps_replica = 0, ps_state = Active, ps_event_count = 0, ps_watermark_seq = []\<rparr>,
         \<lparr>ps_partition = 1, ps_replica = 0, ps_state = Active, ps_event_count = 0, ps_watermark_seq = []\<rparr>], ns_timestamp = 0\<rparr>\<rparr>)]"

lemma demo_view_facts:
  "hm_wf demo_view" "\<exists>other \<in> set (online_nodes demo_view). other \<noteq> ''b''"
  "\<forall>(p, r) \<in> set (compute_desired_assignment demo_hash (\<lambda>w h. h) ''b'' 2 1 [node_new ''a'', node_new ''b''] override_default). assigned_to demo_view ''b'' p r"
proof -
  show "hm_wf demo_view" "\<exists>other \<in> set (online_nodes demo_view). other \<noteq> ''b''" by code_simp+
  show "\<forall>(p, r) \<in> set (compute_desired_assignment demo_hash (\<lambda>w h. h) ''b'' 2 1 [node_new ''a'', node_new ''b''] override_default). assigned_to demo_view ''b'' p r"
    by code_simp
qed

theorem drained_node_is_empty_witness:
  "\<exists>t' sent ovs. drain_node demo_hash (\<lambda>w h. h) unary_table (Ok ()) 0 ''b'' demo_view 1 override_default = (t', sent, Ok ovs)
    \<and> compute_desired_assignment demo_hash (\<lambda>w h. h) ''b'' 2 1 [node_new ''a'', node_new ''b''] t' = []"
proof -
  obtain t' sent ovs where d: "drain_node demo_hash (\<lambda>w h. h) unary_table (Ok ()) 0 ''b'' demo_view 1 override_default = (t', sent, Ok ovs)"
    using drain_succeeds by blast
  from drained_node_is_empty[OF unary_table_ok demo_view_facts(1,2) d demo_view_facts(3)] d show ?thesis by blast
qed

theorem undrain_restores_overrides_witness:
  "\<exists>t' t'' sent sent' ovs. drain_node demo_hash (\<lambda>w h. h) unary_table (Ok ()) 0 ''b'' demo_view 1 override_default = (t', sent, Ok ovs)
    \<and> undrain_node unary_table (Ok ()) 0 ''b'' t' = (t'', sent', Ok ()) \<and> ot_entries t'' = []"
proof -
  obtain t' sent ovs where d: "drain_node demo_hash (\<lambda>w h. h) unary_table (Ok ()) 0 ''b'' demo_view 1 override_default = (t', sent, Ok ovs)"
    using drain_succeeds by blast
  obtain t'' sent' where u: "undrain_node unary_table (Ok ()) 0 ''b'' t' = (t'', sent', Ok ())"
    by (simp add: undrain_node_def publish_entries_def unary_table_def Let_def)
  have "ot_entries t'' = ot_entries override_default"
    by (rule undrain_restores_overrides[OF unary_table_ok demo_view_facts(1,2) d u]) (simp add: override_default_def)
  then show ?thesis using d u by (auto simp: override_default_def)
qed

theorem overrides_reach_agents_witness:
  "let e = \<lparr>oe_partition = 1, oe_replica = 0, oe_node_id = ''a'', oe_reason = ''x''\<rparr>;
       (t, sent) = om_run unary_table [(Ok (), 0, OmAdd [e] None), (Ok (), 5, OmClear)] override_default
   in fold (override_received (decode_table unary_table)) (rev sent) override_default = t \<and> ot_epoch t = 2"
proof -
  let ?e = "\<lparr>oe_partition = 1, oe_replica = 0, oe_node_id = ''a'', oe_reason = ''x''\<rparr> :: OverrideEntry"
  let ?ops = "[(Ok (), 0, OmAdd [?e] None), (Ok (), 5, OmClear)] :: (unit result \<times> DateTime \<times> om_op) list"
  obtain t sent where run: "om_run unary_table ?ops override_default = (t, sent)" by (cases "om_run unary_table ?ops override_default")
  have "fold (override_received (decode_table unary_table)) (rev sent) override_default = t"
    by (rule overrides_reach_agents[OF unary_table_ok run]) auto
  moreover have "ot_epoch t = 2"
    using run by (auto simp: add_entries_def clear_overrides_def publish_entries_def override_default_def unary_table_def Let_def)
  ultimately show ?thesis using run by simp
qed

end
