(* ===== verification/Orchestrator.thy ===== *)
theory Orchestrator
  imports Schema
begin

text \<open>
  Topic administration of the orchestrator: the persistent topic configurations
  (\<^verbatim>\<open>mitiflow-orchestrator/src/config.rs\<close>), the per-topic views
  (\<^verbatim>\<open>topic_manager.rs\<close>), and creation, deletion, bootstrap and publication of topics with the
  queryables that serve them (\<^verbatim>\<open>orchestrator.rs\<close>).  JSON and the storage engine are parameters,
  and so are the answers of the session to puts, deletes and declarations.
\<close>

section \<open>Topic configurations\<close>

record RetentionPolicy =
  rp_max_age :: "Duration option"
  rp_max_bytes :: "u64 option"
  rp_max_events :: "u64 option"

record CompactionPolicy =
  cp_enabled :: bool
  cp_interval :: "Duration option"

record TopicConfig =
  tc_name :: string
  tc_key_prefix :: string
  tc_num_partitions :: u32
  tc_replication_factor :: u32
  tc_retention :: RetentionPolicy
  tc_compaction :: CompactionPolicy
  tc_required_labels :: "(string, string) hmap"
  tc_excluded_labels :: "(string, string) hmap"
  tc_codec :: CodecFormat
  tc_key_format :: KeyFormat
  tc_schema_version :: u32

record BootstrapTopicEntry =
  bt_name :: string
  bt_key_prefix :: string
  bt_num_partitions :: u32
  bt_replication_factor :: u32
  bt_codec :: CodecFormat
  bt_key_format :: KeyFormat
  bt_schema_version :: u32

definition into_topic_config :: "BootstrapTopicEntry \<Rightarrow> TopicConfig" where
  "into_topic_config b = \<lparr>tc_name = bt_name b, tc_key_prefix = bt_key_prefix b, tc_num_partitions = bt_num_partitions b,
     tc_replication_factor = bt_replication_factor b, tc_retention = \<lparr>rp_max_age = None, rp_max_bytes = None, rp_max_events = None\<rparr>,
     tc_compaction = \<lparr>cp_enabled = False, cp_interval = None\<rparr>, tc_required_labels = [], tc_excluded_labels = [],
     tc_codec = bt_codec b, tc_key_format = bt_key_format b, tc_schema_version = bt_schema_version b\<rparr>"

section \<open>The config store\<close>

datatype orch_error = OrchJson error | OrchStore string | OrchZenoh string

definition orch_json :: "error + 'a \<Rightarrow> orch_error + 'a" where
  "orch_json r = (case r of Ok x \<Rightarrow> Ok x | Err e \<Rightarrow> Err (OrchJson e))"

definition orch_store :: "string + 'a \<Rightarrow> orch_error + 'a" where
  "orch_store r = (case r of Ok x \<Rightarrow> Ok x | Err e \<Rightarrow> Err (OrchStore e))"

definition orch_zenoh :: "string + 'a \<Rightarrow> orch_error + 'a" where
  "orch_zenoh r = (case r of Ok x \<Rightarrow> Ok x | Err e \<Rightarrow> Err (OrchZenoh e))"

definition put_topic :: "'d fjall_ops \<Rightarrow> TopicConfig commit_codec \<Rightarrow> TopicConfig \<Rightarrow> 'd \<Rightarrow> 'd \<times> (orch_error + unit)" where
  "put_topic ops js config d =
     (case orch_json (cc_to_vec js config) of
        Err e \<Rightarrow> (d, Err e)
      | Ok value \<Rightarrow> (let (d', r) = kv_insert ops d Topics (as_bytes (tc_name config)) value in (d', orch_store r)))"

definition get_topic :: "'d fjall_ops \<Rightarrow> TopicConfig commit_codec \<Rightarrow> string \<Rightarrow> 'd \<Rightarrow> orch_error + TopicConfig option" where
  "get_topic ops js name d =
     rbind (orch_store (kv_get ops d Topics (as_bytes name))) (\<lambda>v. case v of
       None \<Rightarrow> Ok None
     | Some bytes \<Rightarrow> rbind (orch_json (cc_from_slice js bytes)) (\<lambda>c. Ok (Some c)))"

fun collect_topics :: "TopicConfig commit_codec \<Rightarrow> (bytes \<times> bytes) scan \<Rightarrow> orch_error + TopicConfig list" where
  "collect_topics js [] = Ok []"
| "collect_topics js (Inl e # _) = Err (OrchStore (''iter error: '' @ e))"
| "collect_topics js (Inr kv # rest) =
     rbind (orch_json (cc_from_slice js (snd kv))) (\<lambda>c. rbind (collect_topics js rest) (\<lambda>cs. Ok (c # cs)))"

definition list_topics :: "'d fjall_ops \<Rightarrow> TopicConfig commit_codec \<Rightarrow> 'd \<Rightarrow> orch_error + TopicConfig list" where
  "list_topics ops js d = collect_topics js (kv_iter ops d Topics)"

definition delete_topic_entry :: "'d fjall_ops \<Rightarrow> string \<Rightarrow> 'd \<Rightarrow> 'd \<times> (orch_error + bool)" where
  "delete_topic_entry ops name d =
     (case kv_get ops d Topics (as_bytes name) of
        Err e \<Rightarrow> (d, Err (OrchStore e))
      | Ok None \<Rightarrow> (d, Ok False)
      | Ok (Some _) \<Rightarrow> (let (d', r) = kv_remove ops d Topics (as_bytes name) in (d', rbind (orch_store r) (\<lambda>_. Ok True))))"

section \<open>Per-topic views\<close>

text \<open>The views and lag monitors of the topics that have a prefix of their own, by topic.\<close>

record topic_manager =
  tm_views :: "(string, string) hmap"
  tm_lag_monitors :: "(string, string) hmap"

record session_answers =
  sa_put :: "string \<Rightarrow> string + unit"
  sa_delete :: "string \<Rightarrow> string + unit"
  sa_declare :: "string \<Rightarrow> string + unit"
  sa_view :: "string \<Rightarrow> string + unit"
  sa_lag :: "string \<Rightarrow> string + unit"

definition tm_add_topic :: "session_answers \<Rightarrow> string \<Rightarrow> string \<Rightarrow> topic_manager \<Rightarrow> topic_manager \<times> (orch_error + bool)" where
  "tm_add_topic net name key_prefix tm =
     (if key_prefix = [] then (tm, Ok False)
      else if hm_get (tm_views tm) name \<noteq> None then (tm, Ok False)
      else case sa_view net key_prefix of
          Err e \<Rightarrow> (tm, Err (OrchZenoh e))
        | Ok _ \<Rightarrow>
            let tm1 = tm\<lparr>tm_views := hm_insert name key_prefix (tm_views tm)\<rparr> in
            (case sa_lag net key_prefix of
               Ok _ \<Rightarrow> tm1\<lparr>tm_lag_monitors := hm_insert name key_prefix (tm_lag_monitors tm1)\<rparr>
             | Err _ \<Rightarrow> tm1, Ok True))"

definition tm_remove_topic :: "string \<Rightarrow> topic_manager \<Rightarrow> topic_manager \<times> bool" where
  "tm_remove_topic name tm =
     (tm\<lparr>tm_views := hm_remove name (tm_views tm), tm_lag_monitors := hm_remove name (tm_lag_monitors tm)\<rparr>, hm_get (tm_views tm) name \<noteq> None)"

section \<open>The orchestrator\<close>

text \<open>A running orchestrator: its prefix, its store, the prefixes with a schema queryable, and the views.\<close>

record 'd orchestrator =
  or_key_prefix :: string
  or_db :: 'd
  or_schema_queryables :: "string set"
  or_topics :: topic_manager

text \<open>Messages on the configuration and schema keys; a deletion carries no payload.\<close>

type_synonym topic_msg = "string \<times> bytes option"

definition topic_prefix :: "'d orchestrator \<Rightarrow> TopicConfig \<Rightarrow> string" where
  "topic_prefix orch c = (if tc_key_prefix c = [] then or_key_prefix orch else tc_key_prefix c)"

definition config_key :: "'d orchestrator \<Rightarrow> string \<Rightarrow> string" where
  "config_key orch name = or_key_prefix orch @ ''/_config/'' @ name"

definition topic_schema :: "DateTime \<Rightarrow> string \<Rightarrow> TopicConfig \<Rightarrow> TopicSchema" where
  "topic_schema now kp c = schema_new now kp (tc_name c) (tc_num_partitions c) (tc_codec c) (tc_key_format c)
     (if tc_schema_version c = 0 then 1 else tc_schema_version c)"

definition sm_add_topic :: "session_answers \<Rightarrow> string \<Rightarrow> string set \<Rightarrow> string set \<times> (orch_error + unit)" where
  "sm_add_topic net kp qs =
     (if kp \<in> qs then (qs, Ok ())
      else case sa_declare net (kp @ ''/_schema'') of Err e \<Rightarrow> (qs, Err (OrchZenoh e)) | Ok _ \<Rightarrow> (insert kp qs, Ok ()))"

definition create_topic ::
  "'d fjall_ops \<Rightarrow> TopicConfig commit_codec \<Rightarrow> TopicSchema commit_codec \<Rightarrow> session_answers \<Rightarrow> DateTime \<Rightarrow> TopicConfig \<Rightarrow> 'd orchestrator
    \<Rightarrow> 'd orchestrator \<times> topic_msg list \<times> (orch_error + unit)"
where
  "create_topic ops js sjs net now config0 orch =
     (let config = (if tc_schema_version config0 = 0 then config0\<lparr>tc_schema_version := 1\<rparr> else config0);
          (d, r1) = put_topic ops js config (or_db orch); o1 = orch\<lparr>or_db := d\<rparr>;
          key = config_key orch (tc_name config); kp = topic_prefix orch config; skey = kp @ ''/_schema''
      in case rbind r1 (\<lambda>_. rbind (orch_json (cc_to_vec js config)) (\<lambda>bytes. rbind (orch_zenoh (sa_put net key)) (\<lambda>_. Ok bytes))) of
           Err e \<Rightarrow> (o1, [], Err e)
         | Ok bytes \<Rightarrow>
             (case rbind (orch_json (cc_to_vec sjs (topic_schema now kp config))) (\<lambda>sb. rbind (orch_zenoh (sa_put net skey)) (\<lambda>_. Ok sb)) of
                Err e \<Rightarrow> (o1, [(key, Some bytes)], Err e)
              | Ok sb \<Rightarrow>
                  let msgs = [(key, Some bytes), (skey, Some sb)];
                      (qs, r2) = sm_add_topic net kp (or_schema_queryables o1); o2 = o1\<lparr>or_schema_queryables := qs\<rparr>
                  in case r2 of
                       Err e \<Rightarrow> (o2, msgs, Err e)
                     | Ok _ \<Rightarrow>
                         if tc_key_prefix config = [] then (o2, msgs, Ok ())
                         else let (tm, r3) = tm_add_topic net (tc_name config) (tc_key_prefix config) (or_topics o2) in
                           (o2\<lparr>or_topics := tm\<rparr>, msgs, rbind r3 (\<lambda>_. Ok ()))))"

definition delete_topic ::
  "'d fjall_ops \<Rightarrow> TopicConfig commit_codec \<Rightarrow> session_answers \<Rightarrow> string \<Rightarrow> 'd orchestrator
    \<Rightarrow> 'd orchestrator \<times> topic_msg list \<times> (orch_error + bool)"
where
  "delete_topic ops js net name orch =
     (case get_topic ops js name (or_db orch) of
        Err e \<Rightarrow> (orch, [], Err e)
      | Ok found \<Rightarrow>
          let kp = map_option (topic_prefix orch) found;
              (d, r) = delete_topic_entry ops name (or_db orch); o1 = orch\<lparr>or_db := d\<rparr>
          in case r of
               Err e \<Rightarrow> (o1, [], Err e)
             | Ok False \<Rightarrow> (o1, [], Ok False)
             | Ok True \<Rightarrow>
                 (case sa_delete net (config_key orch name) of
                    Err e \<Rightarrow> (o1, [], Err (OrchZenoh e))
                  | Ok _ \<Rightarrow>
                      (o1\<lparr>or_schema_queryables := (case kp of Some k \<Rightarrow> or_schema_queryables o1 - {k} | None \<Rightarrow> or_schema_queryables o1),
                          or_topics := fst (tm_remove_topic name (or_topics o1))\<rparr>,
                       [(config_key orch name, None)], Ok True)))"

text \<open>Bootstrap creates the listed topics that are not stored yet and goes on after an error.\<close>

fun bootstrap_topics ::
  "'d fjall_ops \<Rightarrow> TopicConfig commit_codec \<Rightarrow> TopicSchema commit_codec \<Rightarrow> session_answers \<Rightarrow> DateTime \<Rightarrow> BootstrapTopicEntry list \<Rightarrow> 'd orchestrator
    \<Rightarrow> 'd orchestrator \<times> topic_msg list"
where
  "bootstrap_topics ops js sjs net now [] orch = (orch, [])"
| "bootstrap_topics ops js sjs net now (b # bs) orch =
     (case get_topic ops js (bt_name b) (or_db orch) of
        Ok None \<Rightarrow>
          (let (o1, m1, _) = create_topic ops js sjs net now (into_topic_config b) orch;
               (o2, m2) = bootstrap_topics ops js sjs net now bs o1 in (o2, m1 @ m2))
      | _ \<Rightarrow> bootstrap_topics ops js sjs net now bs orch)"

section \<open>What the orchestrator serves\<close>

definition publish_all_configs :: "'d fjall_ops \<Rightarrow> TopicConfig commit_codec \<Rightarrow> session_answers \<Rightarrow> 'd orchestrator \<Rightarrow> topic_msg list" where
  "publish_all_configs ops js net orch =
     (case list_topics ops js (or_db orch) of
        Err _ \<Rightarrow> []
      | Ok topics \<Rightarrow> concat (map (\<lambda>c. case cc_to_vec js c of
            Ok bytes \<Rightarrow> (case sa_put net (config_key orch (tc_name c)) of Ok _ \<Rightarrow> [(config_key orch (tc_name c), Some bytes)] | Err _ \<Rightarrow> [])
          | Err _ \<Rightarrow> []) topics))"

definition publish_all_schemas ::
  "'d fjall_ops \<Rightarrow> TopicConfig commit_codec \<Rightarrow> TopicSchema commit_codec \<Rightarrow> session_answers \<Rightarrow> DateTime \<Rightarrow> 'd orchestrator \<Rightarrow> topic_msg list"
where
  "publish_all_schemas ops js sjs net now orch =
     (case list_topics ops js (or_db orch) of
        Err _ \<Rightarrow> []
      | Ok topics \<Rightarrow> concat (map (\<lambda>c. let kp = topic_prefix orch c in case cc_to_vec sjs (topic_schema now kp c) of
            Ok bytes \<Rightarrow> (case sa_put net (kp @ ''/_schema'') of Ok _ \<Rightarrow> [(kp @ ''/_schema'', Some bytes)] | Err _ \<Rightarrow> [])
          | Err _ \<Rightarrow> []) topics))"

text \<open>The part of a queried key below a prefix, without leading slashes.\<close>

definition key_suffix :: "string \<Rightarrow> string \<Rightarrow> string" where
  "key_suffix p key = dropWhile (\<lambda>c. c = CHR ''/'') (case strip_prefix p key of Some s \<Rightarrow> s | None \<Rightarrow> [])"

definition config_replies :: "'d fjall_ops \<Rightarrow> TopicConfig commit_codec \<Rightarrow> string \<Rightarrow> 'd orchestrator \<Rightarrow> (string \<times> bytes) list" where
  "config_replies ops js key orch =
     (let config_prefix = or_key_prefix orch @ ''/_config''; suffix = key_suffix config_prefix key in
      if suffix = [] \<or> suffix = ''*'' \<or> suffix = ''**'' then
        (case list_topics ops js (or_db orch) of
           Err _ \<Rightarrow> []
         | Ok topics \<Rightarrow> concat (map (\<lambda>c. case cc_to_vec js c of Ok bytes \<Rightarrow> [(config_prefix @ ''/'' @ tc_name c, bytes)] | Err _ \<Rightarrow> []) topics))
      else
        (case get_topic ops js suffix (or_db orch) of
           Ok (Some c) \<Rightarrow> (case cc_to_vec js c of Ok bytes \<Rightarrow> [(key, bytes)] | Err _ \<Rightarrow> [])
         | _ \<Rightarrow> []))"

definition schema_replies ::
  "'d fjall_ops \<Rightarrow> TopicConfig commit_codec \<Rightarrow> TopicSchema commit_codec \<Rightarrow> DateTime \<Rightarrow> string \<Rightarrow> 'd orchestrator \<Rightarrow> bytes list"
where
  "schema_replies ops js sjs now kp orch =
     (if kp \<notin> or_schema_queryables orch then []
      else case list_topics ops js (or_db orch) of
          Err _ \<Rightarrow> []
        | Ok topics \<Rightarrow> (case List.find (\<lambda>c. topic_prefix orch c = kp) topics of
            None \<Rightarrow> []
          | Some c \<Rightarrow> (case cc_to_vec sjs (topic_schema now kp c) of Ok bytes \<Rightarrow> [bytes] | Err _ \<Rightarrow> [])))"

definition schema_bootstrap_all :: "'d fjall_ops \<Rightarrow> TopicConfig commit_codec \<Rightarrow> session_answers \<Rightarrow> 'd orchestrator \<Rightarrow> 'd orchestrator \<times> (orch_error + unit)" where
  "schema_bootstrap_all ops js net orch =
     (case list_topics ops js (or_db orch) of
        Err _ \<Rightarrow> (orch, Ok ())
      | Ok topics \<Rightarrow>
          (let (qs, r) = fold (\<lambda>c (qs, r). case r of Err e \<Rightarrow> (qs, Err e) | Ok _ \<Rightarrow> sm_add_topic net (topic_prefix orch c) qs)
                topics (or_schema_queryables orch, Ok ())
           in (orch\<lparr>or_schema_queryables := qs\<rparr>, r)))"

section \<open>The config store as a map\<close>

definition stored_topic :: "TopicConfig commit_codec \<Rightarrow> view \<Rightarrow> string \<Rightarrow> TopicConfig option" where
  "stored_topic js w name =
     Option.bind (w Topics (as_bytes name)) (\<lambda>bytes. case cc_from_slice js bytes of Ok c \<Rightarrow> Some c | Err _ \<Rightarrow> None)"

text \<open>Every stored value is readable and stored under its own name.\<close>

definition topics_ok :: "TopicConfig commit_codec \<Rightarrow> view \<Rightarrow> bool" where
  "topics_ok js w \<longleftrightarrow> (\<forall>k bytes. w Topics k = Some bytes \<longrightarrow> (\<exists>c. cc_from_slice js bytes = Ok c \<and> k = as_bytes (tc_name c)))"

lemma put_topic_stored:
  assumes "fjall_ok ops vw" and "codec_ok js" and "put_topic ops js c d = (d', Ok ())"
  shows "stored_topic js (vw d') name = (if name = tc_name c then Some c else stored_topic js (vw d) name)"
    and "topics_ok js (vw d) \<Longrightarrow> topics_ok js (vw d')"
proof -
  obtain bytes where b: "cc_to_vec js c = Ok bytes" "kv_commit ops d [BInsert Topics (as_bytes (tc_name c)) bytes] = (d', Ok ())"
    using assms(3) by (auto simp: put_topic_def orch_json_def orch_store_def kv_insert_def Let_def split: sum.splits prod.splits)
  have v: "vw d' Topics = (vw d Topics)(as_bytes (tc_name c) \<mapsto> bytes)" using fjall_commit[OF assms(1) b(2)] by simp
  have r: "cc_from_slice js bytes = Ok c" using assms(2) b(1) by (simp add: codec_ok_def)
  show "stored_topic js (vw d') name = (if name = tc_name c then Some c else stored_topic js (vw d) name)"
    using v r by (auto simp: stored_topic_def as_bytes_inj)
  show "topics_ok js (vw d')" if "topics_ok js (vw d)" using that v r by (auto simp: topics_ok_def)
qed

lemma get_topic_stored:
  assumes "fjall_ok ops vw" and "get_topic ops js name d = Ok r"
  shows "r = stored_topic js (vw d) name"
  using assms(2) fjall_get[OF assms(1), of d Topics "as_bytes name"]
  by (cases "kv_get ops d Topics (as_bytes name)") (auto simp: get_topic_def stored_topic_def orch_store_def orch_json_def split: option.splits sum.splits)

lemma delete_entry_stored:
  assumes "fjall_ok ops vw" and "delete_topic_entry ops name d = (d', Ok b)"
  shows "stored_topic js (vw d') n = (if b \<and> n = name then None else stored_topic js (vw d) n)"
    and "topics_ok js (vw d) \<Longrightarrow> topics_ok js (vw d')" and "\<not> b \<Longrightarrow> stored_topic js (vw d) name = None"
proof -
  have get: "kv_get ops d Topics (as_bytes name) = Ok v \<Longrightarrow> v = vw d Topics (as_bytes name)" for v
    by (rule fjall_get[OF assms(1)])
  have "(\<not> b \<and> d' = d \<and> vw d Topics (as_bytes name) = None) \<or> (b \<and> vw d' Topics = (vw d Topics)(as_bytes name := None))"
  proof (cases "kv_get ops d Topics (as_bytes name)")
    case (Inr v)
    show ?thesis
    proof (cases v)
      case None
      then show ?thesis using assms(2) Inr get by (auto simp: delete_topic_entry_def)
    next
      case (Some x)
      then have "kv_commit ops d [BRemove Topics (as_bytes name)] = (d', Ok ()) \<and> b"
        using assms(2) Inr by (auto simp: delete_topic_entry_def kv_remove_def orch_store_def Let_def split: prod.splits sum.splits)
      then show ?thesis using fjall_commit[OF assms(1), of d _ d'] by auto
    qed
  qed (use assms(2) in \<open>simp add: delete_topic_entry_def\<close>)
  then show "stored_topic js (vw d') n = (if b \<and> n = name then None else stored_topic js (vw d) n)"
    "topics_ok js (vw d) \<Longrightarrow> topics_ok js (vw d')" "\<not> b \<Longrightarrow> stored_topic js (vw d) name = None"
    by (auto simp: stored_topic_def topics_ok_def as_bytes_inj split: if_splits)
qed

text \<open>A successful listing has exactly the stored topics, each once.\<close>

lemma list_topics_stored:
  assumes "fjall_ok ops vw" and "topics_ok js (vw d)" and "list_topics ops js d = Ok cs"
  shows "c \<in> set cs \<longleftrightarrow> stored_topic js (vw d) (tc_name c) = Some c" and "distinct (map tc_name cs)"
proof -
  have all: "\<exists>kvs. xs = map Inr kvs \<and> map (\<lambda>kv. cc_from_slice js (snd kv)) kvs = map Ok cs" if "collect_topics js xs = Ok cs" for xs cs
    using that
  proof (induction xs arbitrary: cs)
    case (Cons x xs)
    obtain kv c cs' where x: "x = Inr kv" "cc_from_slice js (snd kv) = Ok c" "collect_topics js xs = Ok cs'" "cs = c # cs'"
      using Cons.prems by (cases x) (auto simp: orch_json_def split: sum.splits)
    from Cons.IH[OF x(3)] obtain kvs where "xs = map Inr kvs" "map (\<lambda>kv. cc_from_slice js (snd kv)) kvs = map Ok cs'" by blast
    then show ?case using x by (intro exI[of _ "kv # kvs"]) simp
  qed simp
  obtain kvs where kvs: "kv_iter ops d Topics = map Inr kvs" "map (\<lambda>kv. cc_from_slice js (snd kv)) kvs = map Ok cs"
    using all assms(3) unfolding list_topics_def by blast
  have "scan_of (map Inr kvs) (entries (vw d Topics))" using fjall_iter[OF assms(1), of d Topics] by (simp only: kvs(1))
  moreover have "map Inr kvs \<noteq> map Inr pre @ Inl x # post" for pre :: "(bytes \<times> bytes) list" and x :: string and post
  proof
    assume "map Inr kvs = map Inr pre @ Inl x # post"
    then have "Inl x \<in> set (map Inr kvs)" by simp
    then show False by auto
  qed
  ultimately have e: "kvs = entries (vw d Topics)" unfolding scan_of_def by (metis inj_map_eq_map inj_Inr)
  have mem: "(k, v) \<in> set kvs \<longleftrightarrow> vw d Topics k = Some v" for k v
    unfolding e by (rule entries_mem) (rule fjall_finite[OF assms(1)])
  show "c \<in> set cs \<longleftrightarrow> stored_topic js (vw d) (tc_name c) = Some c"
  proof -
    have "c \<in> set cs \<longleftrightarrow> Ok c \<in> set (map (\<lambda>kv. cc_from_slice js (snd kv)) kvs)" unfolding kvs(2) by auto
    also have "\<dots> \<longleftrightarrow> (\<exists>k v. vw d Topics k = Some v \<and> cc_from_slice js v = Ok c)" using mem by force
    also have "\<dots> \<longleftrightarrow> stored_topic js (vw d) (tc_name c) = Some c"
    proof
      assume "\<exists>k v. vw d Topics k = Some v \<and> cc_from_slice js v = Ok c"
      then obtain k v where kv: "vw d Topics k = Some v" "cc_from_slice js v = Ok c" by blast
      then have "k = as_bytes (tc_name c)" using assms(2) unfolding topics_ok_def by (metis Inr_inject)
      then show "stored_topic js (vw d) (tc_name c) = Some c" using kv by (simp add: stored_topic_def)
    next
      assume "stored_topic js (vw d) (tc_name c) = Some c"
      then show "\<exists>k v. vw d Topics k = Some v \<and> cc_from_slice js v = Ok c"
        by (cases "vw d Topics (as_bytes (tc_name c))") (auto simp: stored_topic_def split: sum.splits)
    qed
    finally show ?thesis .
  qed
  have names: "map (\<lambda>c. as_bytes (tc_name c)) cs = map fst kvs"
  proof (rule nth_equalityI)
    show len: "length (map (\<lambda>c. as_bytes (tc_name c)) cs) = length (map fst kvs)" using arg_cong[OF kvs(2), of length] by simp
    fix i assume i: "i < length (map (\<lambda>c. as_bytes (tc_name c)) cs)"
    then have "cc_from_slice js (snd (kvs ! i)) = Ok (cs ! i)" using arg_cong[OF kvs(2), of "\<lambda>xs. xs ! i"] len by simp
    moreover have "vw d Topics (fst (kvs ! i)) = Some (snd (kvs ! i))" using mem[of "fst (kvs ! i)" "snd (kvs ! i)"] i len by simp
    ultimately show "map (\<lambda>c. as_bytes (tc_name c)) cs ! i = map fst kvs ! i" using assms(2) i len by (fastforce simp: topics_ok_def)
  qed
  have "distinct (map as_bytes (map tc_name cs))" using entries_distinct[of "vw d Topics"] names e by (simp add: comp_def)
  then show "distinct (map tc_name cs)" by (rule distinct_map[THEN iffD1, THEN conjunct1])
qed

section \<open>Creation and deletion\<close>

definition normal_config :: "TopicConfig \<Rightarrow> TopicConfig" where
  "normal_config c = (if tc_schema_version c = 0 then c\<lparr>tc_schema_version := 1\<rparr> else c)"

lemma normal_config_name [simp]: "tc_name (normal_config c) = tc_name c"
  by (simp add: normal_config_def)

lemma create_topic_ok:
  assumes "create_topic ops js sjs net now c orch = (orch', msgs, Ok ())"
  shows "\<exists>d bytes sb. put_topic ops js (normal_config c) (or_db orch) = (d, Ok ()) \<and> or_db orch' = d
    \<and> cc_to_vec js (normal_config c) = Ok bytes \<and> cc_to_vec sjs (topic_schema now (topic_prefix orch c) (normal_config c)) = Ok sb
    \<and> msgs = [(config_key orch (tc_name c), Some bytes), (topic_prefix orch c @ ''/_schema'', Some sb)]
    \<and> or_key_prefix orch' = or_key_prefix orch \<and> or_schema_queryables orch' = insert (topic_prefix orch c) (or_schema_queryables orch)"
proof -
  define cf where "cf = normal_config c"
  have kp: "topic_prefix orch cf = topic_prefix orch c" "tc_name cf = tc_name c" by (simp_all add: cf_def normal_config_def topic_prefix_def)
  obtain d r1 where p: "put_topic ops js cf (or_db orch) = (d, r1)" by (cases "put_topic ops js cf (or_db orch)")
  have run: "create_topic ops js sjs net now c orch =
    (let o1 = orch\<lparr>or_db := d\<rparr>; key = config_key orch (tc_name c); kp = topic_prefix orch c; skey = kp @ ''/_schema''
      in case rbind r1 (\<lambda>_. rbind (orch_json (cc_to_vec js cf)) (\<lambda>bytes. rbind (orch_zenoh (sa_put net key)) (\<lambda>_. Ok bytes))) of
           Err e \<Rightarrow> (o1, [], Err e)
         | Ok bytes \<Rightarrow>
             (case rbind (orch_json (cc_to_vec sjs (topic_schema now kp cf))) (\<lambda>sb. rbind (orch_zenoh (sa_put net skey)) (\<lambda>_. Ok sb)) of
                Err e \<Rightarrow> (o1, [(key, Some bytes)], Err e)
              | Ok sb \<Rightarrow>
                  let msgs = [(key, Some bytes), (skey, Some sb)];
                      (qs, r2) = sm_add_topic net kp (or_schema_queryables o1); o2 = o1\<lparr>or_schema_queryables := qs\<rparr>
                  in case r2 of
                       Err e \<Rightarrow> (o2, msgs, Err e)
                     | Ok _ \<Rightarrow>
                         if tc_key_prefix cf = [] then (o2, msgs, Ok ())
                         else let (tm, r3) = tm_add_topic net (tc_name c) (tc_key_prefix cf) (or_topics o2) in
                           (o2\<lparr>or_topics := tm\<rparr>, msgs, rbind r3 (\<lambda>_. Ok ()))))"
    unfolding create_topic_def Let_def cf_def[unfolded normal_config_def, symmetric] p kp by simp
  obtain u bytes where b: "r1 = Ok u" "cc_to_vec js cf = Ok bytes" "orch_zenoh (sa_put net (config_key orch (tc_name c))) = Ok ()"
  proof -
    have "rbind r1 (\<lambda>_. rbind (orch_json (cc_to_vec js cf)) (\<lambda>bytes. rbind (orch_zenoh (sa_put net (config_key orch (tc_name c)))) (\<lambda>_. Ok bytes))) \<noteq> Err e" for e
      using assms unfolding run Let_def by auto
    then show ?thesis using that
      by (cases r1; cases "cc_to_vec js cf"; cases "sa_put net (config_key orch (tc_name c))") (auto simp: orch_json_def orch_zenoh_def)
  qed
  obtain sb where sb: "cc_to_vec sjs (topic_schema now (topic_prefix orch c) cf) = Ok sb" "orch_zenoh (sa_put net (topic_prefix orch c @ ''/_schema'')) = Ok ()"
  proof -
    have "rbind (orch_json (cc_to_vec sjs (topic_schema now (topic_prefix orch c) cf))) (\<lambda>sb. rbind (orch_zenoh (sa_put net (topic_prefix orch c @ ''/_schema''))) (\<lambda>_. Ok sb)) \<noteq> Err e" for e
      using assms b unfolding run Let_def by (auto simp: orch_json_def)
    then show ?thesis using that
      by (cases "cc_to_vec sjs (topic_schema now (topic_prefix orch c) cf)"; cases "sa_put net (topic_prefix orch c @ ''/_schema'')") (auto simp: orch_json_def orch_zenoh_def)
  qed
  have jb: "orch_json (cc_to_vec js cf) = Ok bytes" "orch_json (cc_to_vec sjs (topic_schema now (topic_prefix orch c) cf)) = Ok sb"
    using b(2) sb(1) by (simp_all add: orch_json_def)
  obtain qs r2 where q: "sm_add_topic net (topic_prefix orch c) (or_schema_queryables orch) = (qs, r2)"
    by (cases "sm_add_topic net (topic_prefix orch c) (or_schema_queryables orch)")
  have r2: "r2 = Ok ()" using assms unfolding run Let_def b(1,3) sb(2) jb by (cases r2) (auto simp: q)
  then have qs: "qs = insert (topic_prefix orch c) (or_schema_queryables orch)"
    using q by (auto simp: sm_add_topic_def split: if_splits sum.splits)
  show ?thesis
    using assms p b(2) sb(1) qs r2 unfolding run Let_def b(1,3) sb(2) jb
    by (auto simp: q cf_def[symmetric] split: if_splits prod.splits)
qed

lemma delete_topic_ok:
  assumes "delete_topic ops js net name orch = (orch', msgs, Ok b)"
  shows "\<exists>found d. get_topic ops js name (or_db orch) = Ok found \<and> delete_topic_entry ops name (or_db orch) = (d, Ok b) \<and> or_db orch' = d
    \<and> or_key_prefix orch' = or_key_prefix orch
    \<and> (if b then msgs = [(config_key orch name, None)]
          \<and> or_schema_queryables orch' = or_schema_queryables orch - topic_prefix orch ` set_option found
       else msgs = [] \<and> or_schema_queryables orch' = or_schema_queryables orch)"
proof -
  obtain found where f: "get_topic ops js name (or_db orch) = Ok found"
    using assms by (cases "get_topic ops js name (or_db orch)") (auto simp: delete_topic_def)
  obtain d r where d: "delete_topic_entry ops name (or_db orch) = (d, r)" by (cases "delete_topic_entry ops name (or_db orch)")
  show ?thesis
    using assms f d unfolding delete_topic_def
    by (cases r; cases "sa_delete net (config_key orch name)"; cases found) (auto simp: Let_def split: bool.splits)
qed

text \<open>A name the config queryable reads as a name: it is not taken for a wildcard, and loses no leading slash.\<close>

definition addressable :: "string \<Rightarrow> bool" where
  "addressable name \<longleftrightarrow> name \<noteq> [] \<and> name \<noteq> ''*'' \<and> name \<noteq> ''**'' \<and> hd name \<noteq> CHR ''/''"

lemma config_suffix: "key_suffix (or_key_prefix orch @ ''/_config'') (config_key orch name) = dropWhile (\<lambda>c. c = CHR ''/'') name"
  using strip_prefix_append[of "or_key_prefix orch @ ''/_config''" "CHR ''/'' # name"] by (simp add: key_suffix_def config_key_def)

lemma config_key_join: "(or_key_prefix orch @ ''/_config'') @ ''/'' @ name = config_key orch name"
  by (simp add: config_key_def)

lemma inj_config_key: "inj (config_key orch)"
  by (simp add: inj_def config_key_def)

lemma addressable_suffix: "addressable name \<Longrightarrow> dropWhile (\<lambda>c. c = CHR ''/'') name = name"
  by (cases name) (simp_all add: addressable_def)

text \<open>A query for one name is answered with the topic of that name, a query for all with each topic once.\<close>

lemma config_replies_one:
  assumes "addressable name" and "get_topic ops js name (or_db orch) = Ok (Some c)" and "cc_to_vec js c = Ok bytes"
  shows "config_replies ops js (config_key orch name) orch = [(config_key orch name, bytes)]"
  using assms unfolding config_replies_def Let_def config_suffix addressable_suffix[OF assms(1)] by (simp add: addressable_def)

lemma filter_named_replies:
  assumes "distinct (map tc_name cs)" and "c \<in> set cs" and "f c = [(k (tc_name c), bytes)]" and "\<And>x r. r \<in> set (f x) \<Longrightarrow> fst r = k (tc_name x)"
    and "inj k"
  shows "filter (\<lambda>r. fst r = k (tc_name c)) (concat (map f cs)) = [(k (tc_name c), bytes)]"
  using assms(1,2)
proof (induction cs)
  case (Cons x cs)
  have other: "filter (\<lambda>r. fst r = k (tc_name c)) (f y) = []" if "tc_name y \<noteq> tc_name c" for y
    using that assms(4,5) by (auto simp: filter_empty_conv inj_eq)
  have "filter (\<lambda>r. fst r = k (tc_name c)) (concat (map f ys)) = []" if "\<forall>y \<in> set ys. tc_name y \<noteq> tc_name c" for ys
    using that other by (induction ys) auto
  note rest = this[of cs]
  show ?case
  proof (cases "x = c")
    case True
    then have "\<forall>y \<in> set cs. tc_name y \<noteq> tc_name c" using Cons.prems(1) by (auto dest: image_eqI[of _ tc_name, OF sym])
    then show ?thesis using rest assms(3) True by simp
  next
    case False
    then have "c \<in> set cs" "tc_name x \<noteq> tc_name c" using Cons.prems by auto
    then show ?thesis using Cons other by simp
  qed
qed simp

lemma config_replies_all:
  assumes "list_topics ops js (or_db orch) = Ok cs" and "distinct (map tc_name cs)" and "c \<in> set cs" and "cc_to_vec js c = Ok bytes"
  shows "filter (\<lambda>r. fst r = config_key orch (tc_name c)) (config_replies ops js (config_key orch ''**'') orch) = [(config_key orch (tc_name c), bytes)]"
proof -
  have all: "config_replies ops js (config_key orch ''**'') orch
    = concat (map (\<lambda>c. case cc_to_vec js c of Ok bytes \<Rightarrow> [(config_key orch (tc_name c), bytes)] | Err _ \<Rightarrow> []) cs)"
    unfolding config_replies_def Let_def config_suffix config_key_join by (simp add: assms(1))
  show ?thesis unfolding all
    by (rule filter_named_replies[OF assms(2,3) _ _ inj_config_key]) (auto simp: assms(4) split: sum.splits)
qed

text \<open>
  C24. A created topic is served: after a successful creation the configuration is stored under its name
  and every other topic is as before.  The config queryable then answers with exactly this configuration: to a query
  for its name (a name that is no wildcard and has no leading slash, when the store can be read), and once in the answer to a query for all topics
  (when the topics can be listed).  And when no other topic uses the prefix and the topics can be listed, a query for the schema of
  the prefix is answered with the schema of the new topic, whose version is never 0.
\<close>

theorem created_topic_is_served:
  assumes "fjall_ok ops vw" and "codec_ok js" and "topics_ok js (vw (or_db orch))"
    and "create_topic ops js sjs net now c orch = (orch', msgs, Ok ())" and "codec_ok sjs"
  defines "kp \<equiv> topic_prefix orch c" and "key \<equiv> config_key orch (tc_name c)"
  shows "stored_topic js (vw (or_db orch')) name = (if name = tc_name c then Some (normal_config c) else stored_topic js (vw (or_db orch)) name)
    \<and> (\<exists>bytes. cc_from_slice js bytes = Ok (normal_config c)
        \<and> (addressable (tc_name c) \<longrightarrow> get_topic ops js (tc_name c) (or_db orch') \<in> range Inr
            \<longrightarrow> config_replies ops js key orch' = [(key, bytes)])
        \<and> (list_topics ops js (or_db orch') \<in> range Inr
            \<longrightarrow> filter (\<lambda>r. fst r = key) (config_replies ops js (config_key orch ''**'') orch') = [(key, bytes)]))
    \<and> ((\<forall>n c'. stored_topic js (vw (or_db orch)) n = Some c' \<longrightarrow> n \<noteq> tc_name c \<longrightarrow> topic_prefix orch c' \<noteq> kp)
       \<longrightarrow> list_topics ops js (or_db orch') \<in> range Inr
       \<longrightarrow> (\<exists>sb s. schema_replies ops js sjs now kp orch' = [sb] \<and> cc_from_slice sjs sb = Ok s \<and> ts_key_prefix s = kp \<and> ts_name s = tc_name c
             \<and> ts_num_partitions s = tc_num_partitions c \<and> ts_codec s = tc_codec c \<and> ts_key_format s = tc_key_format c \<and> ts_schema_version s \<noteq> 0))"
proof -
  obtain d bytes sb where ok: "put_topic ops js (normal_config c) (or_db orch) = (d, Ok ())" "or_db orch' = d"
    "cc_to_vec sjs (topic_schema now kp (normal_config c)) = Ok sb"
    "or_key_prefix orch' = or_key_prefix orch" "kp \<in> or_schema_queryables orch'" and bytes: "cc_to_vec js (normal_config c) = Ok bytes"
    using create_topic_ok[OF assms(4)] unfolding kp_def by blast
  note st = put_topic_stored[OF assms(1,2) ok(1), folded ok(2)]
  have tp: "topic_prefix orch' = topic_prefix orch" "topic_prefix orch (normal_config c) = kp"
    using ok(4) by (auto simp: fun_eq_iff topic_prefix_def normal_config_def kp_def)
  have ck: "config_key orch' = config_key orch" using ok(4) by (simp add: fun_eq_iff config_key_def)
  have dec: "cc_from_slice js bytes = Ok (normal_config c)" using assms(2) bytes by (simp add: codec_ok_def)
  have one: "config_replies ops js key orch' = [(key, bytes)]"
    if name: "addressable (tc_name c)" and readable: "get_topic ops js (tc_name c) (or_db orch') \<in> range Inr"
  proof -
    obtain r where r: "get_topic ops js (tc_name c) (or_db orch') = Ok r" using readable by blast
    have "r = Some (normal_config c)" using get_topic_stored[OF assms(1) r] st(1)[of "tc_name c"] by simp
    then show ?thesis using config_replies_one[OF name _ bytes, of ops orch'] r by (simp add: key_def ck)
  qed
  have all: "filter (\<lambda>r. fst r = key) (config_replies ops js (config_key orch ''**'') orch') = [(key, bytes)]"
    if listed: "list_topics ops js (or_db orch') \<in> range Inr"
  proof -
    obtain cs where cs: "list_topics ops js (or_db orch') = Ok cs" using listed by blast
    note ls = list_topics_stored[OF assms(1) st(2)[OF assms(3)] cs]
    have "normal_config c \<in> set cs" using ls(1)[of "normal_config c"] st(1)[of "tc_name c"] by simp
    from config_replies_all[OF cs ls(2) this bytes] show ?thesis by (simp add: key_def ck)
  qed
  have schema: "\<exists>sb s. schema_replies ops js sjs now kp orch' = [sb] \<and> cc_from_slice sjs sb = Ok s \<and> ts_key_prefix s = kp \<and> ts_name s = tc_name c
      \<and> ts_num_partitions s = tc_num_partitions c \<and> ts_codec s = tc_codec c \<and> ts_key_format s = tc_key_format c \<and> ts_schema_version s \<noteq> 0"
    if others: "\<forall>n c'. stored_topic js (vw (or_db orch)) n = Some c' \<longrightarrow> n \<noteq> tc_name c \<longrightarrow> topic_prefix orch c' \<noteq> kp"
      and lt: "list_topics ops js (or_db orch') = Ok cs" for cs
  proof -
    note ls = list_topics_stored[OF assms(1) st(2)[OF assms(3)] lt]
    have only: "x = normal_config c" if "x \<in> set cs" "topic_prefix orch x = kp" for x
      using that ls(1)[of x] others st(1)[of "tc_name x"] by (metis normal_config_name option.inject)
    have "normal_config c \<in> set cs" using ls(1)[of "normal_config c"] st(1)[of "tc_name c"] by simp
    then obtain y where y: "List.find (\<lambda>x. topic_prefix orch x = kp) cs = Some y"
      using tp(2) by (cases "List.find (\<lambda>x. topic_prefix orch x = kp) cs") (auto simp: find_None_iff)
    then have "y = normal_config c" using only by (metis (mono_tags, lifting) find_Some_iff nth_mem)
    then have "schema_replies ops js sjs now kp orch' = [sb]" using ok(3,5) lt y by (simp add: schema_replies_def tp)
    moreover have "cc_from_slice sjs sb = Ok (topic_schema now kp (normal_config c))" using assms(5) ok(3) by (simp add: codec_ok_def)
    ultimately show ?thesis by (auto simp: topic_schema_def schema_new_def normal_config_def)
  qed
  have config: "\<exists>bytes. cc_from_slice js bytes = Ok (normal_config c)
        \<and> (addressable (tc_name c) \<longrightarrow> get_topic ops js (tc_name c) (or_db orch') \<in> range Inr
            \<longrightarrow> config_replies ops js key orch' = [(key, bytes)])
        \<and> (list_topics ops js (or_db orch') \<in> range Inr
            \<longrightarrow> filter (\<lambda>r. fst r = key) (config_replies ops js (config_key orch ''**'') orch') = [(key, bytes)])"
    by (intro conjI impI exI[of _ bytes] dec one all)
  show ?thesis by (rule conjI[OF st(1)[unfolded normal_config_name]], rule conjI[OF config]) (use schema in blast)
qed

text \<open>
  Topics may share a prefix, and the topics without a prefix of their own all do; deleting one of them
  removes the schema queryable of the others.
\<close>

theorem delete_silences_shared_prefix:
  assumes "delete_topic ops js net name orch = (orch', msgs, Ok True)" and "fjall_ok ops vw"
    and "stored_topic js (vw (or_db orch)) name = Some c" and "stored_topic js (vw (or_db orch)) other = Some c'"
    and "other \<noteq> name" and "topic_prefix orch c' = topic_prefix orch c"
  shows "stored_topic js (vw (or_db orch')) other = Some c' \<and> schema_replies ops js sjs now (topic_prefix orch c') orch' = []"
proof -
  obtain found d where ok: "get_topic ops js name (or_db orch) = Ok found" "delete_topic_entry ops name (or_db orch) = (d, Ok True)" "or_db orch' = d"
    "or_schema_queryables orch' = or_schema_queryables orch - topic_prefix orch ` set_option found"
    using delete_topic_ok[OF assms(1)] by auto
  have "found = Some c" using get_topic_stored[OF assms(2) ok(1)] assms(3) by simp
  then show ?thesis
    using ok(4) delete_entry_stored(1)[OF assms(2) ok(2), of js other] assms(4-6) ok(3) by (simp add: schema_replies_def)
qed

section \<open>Witnesses\<close>

text \<open>A codec for a table of values: a value is its number.\<close>

definition table_codec :: "'c list \<Rightarrow> 'c commit_codec" where
  "table_codec cs = \<lparr>
     cc_to_vec = (\<lambda>c. if c \<in> set cs then Ok (put_nat (length (takeWhile (\<lambda>x. x \<noteq> c) cs))) else Err (Serialization ''unknown'')),
     cc_from_slice = (\<lambda>bs. if fst (get_nat bs) < length cs then Ok (cs ! fst (get_nat bs)) else Err (Serialization ''unknown''))\<rparr>"

lemma table_index:
  assumes "c \<in> set cs"
  shows "length (takeWhile (\<lambda>x. x \<noteq> c) cs) < length cs" "cs ! length (takeWhile (\<lambda>x. x \<noteq> c) cs) = c"
proof -
  show l: "length (takeWhile (\<lambda>x. x \<noteq> c) cs) < length cs" using assms by (induction cs) auto
  show "cs ! length (takeWhile (\<lambda>x. x \<noteq> c) cs) = c" using nth_length_takeWhile[OF l] by simp
qed

lemma table_codec_ok: "codec_ok (table_codec cs)"
  by (auto simp: codec_ok_def table_codec_def table_index split: if_splits)

definition demo_topic :: TopicConfig where
  "demo_topic = into_topic_config \<lparr>bt_name = ''orders'', bt_key_prefix = ''app/orders'', bt_num_partitions = 4, bt_replication_factor = 1,
     bt_codec = Json, bt_key_format = Unkeyed, bt_schema_version = 0\<rparr>"

definition demo_configs :: "TopicConfig commit_codec" where
  "demo_configs = table_codec [normal_config demo_topic]"

definition demo_schemas :: "TopicSchema commit_codec" where
  "demo_schemas = table_codec [topic_schema 0 ''app/orders'' (normal_config demo_topic)]"

definition demo_net :: session_answers where
  "demo_net = \<lparr>sa_put = (\<lambda>_. Ok ()), sa_delete = (\<lambda>_. Ok ()), sa_declare = (\<lambda>_. Ok ()), sa_view = (\<lambda>_. Ok ()), sa_lag = (\<lambda>_. Ok ())\<rparr>"

definition demo_orch :: "mem_db orchestrator" where
  "demo_orch = \<lparr>or_key_prefix = ''mitiflow'', or_db = mem_empty, or_schema_queryables = {}, or_topics = \<lparr>tm_views = [], tm_lag_monitors = []\<rparr>\<rparr>"

lemma demo_topic_prefix: "topic_prefix demo_orch demo_topic = ''app/orders''" "tc_key_prefix (normal_config demo_topic) = ''app/orders''"
  by (simp_all add: topic_prefix_def demo_topic_def into_topic_config_def normal_config_def)

lemma demo_create: "\<exists>orch' msgs. create_topic mem_ops demo_configs demo_schemas demo_net 0 demo_topic demo_orch = (orch', msgs, Ok ())"
proof -
  have n: "(if tc_schema_version demo_topic = 0 then demo_topic\<lparr>tc_schema_version := 1\<rparr> else demo_topic) = normal_config demo_topic"
    by (simp add: normal_config_def)
  have v: "cc_to_vec demo_configs (normal_config demo_topic) = Ok (put_nat 0)"
    "cc_to_vec demo_schemas (topic_schema 0 ''app/orders'' (normal_config demo_topic)) = Ok (put_nat 0)"
    by (simp_all add: demo_configs_def demo_schemas_def table_codec_def)
  have p: "snd (put_topic mem_ops demo_configs (normal_config demo_topic) mem_empty) = Ok ()"
    by (simp add: put_topic_def v orch_json_def orch_store_def kv_insert_def mem_ops_def mem_empty_def)
  have kp: "topic_prefix demo_orch (normal_config demo_topic) = ''app/orders''" by (simp add: topic_prefix_def demo_topic_prefix)
  have db: "or_db demo_orch = mem_empty" "or_schema_queryables demo_orch = {}" "or_topics demo_orch = \<lparr>tm_views = [], tm_lag_monitors = []\<rparr>"
    by (simp_all add: demo_orch_def)
  show ?thesis
    unfolding create_topic_def n Let_def
    using p by (simp add: split_beta v kp db demo_topic_prefix orch_json_def orch_zenoh_def demo_net_def sm_add_topic_def tm_add_topic_def)
qed

lemma mem_topics_readable:
  assumes "topics_ok js (mem_view d)"
  shows "get_topic mem_ops js name d \<in> range Inr" "list_topics mem_ops js d \<in> range Inr"
proof -
  have collect: "collect_topics js (map Inr kvs) \<in> range Inr" if "\<forall>kv \<in> set kvs. mem_view d Topics (fst kv) = Some (snd kv)" for kvs
    using that
  proof (induction kvs)
    case (Cons kv kvs)
    obtain c where "cc_from_slice js (snd kv) = Ok c" using Cons.prems assms unfolding topics_ok_def by (meson list.set_intros(1))
    moreover obtain cs where "collect_topics js (map Inr kvs) = Ok cs" using Cons by auto
    ultimately show ?case by (simp add: orch_json_def)
  qed simp
  have "\<forall>kv \<in> set (mem_entries d Topics). mem_view d Topics (fst kv) = Some (snd kv)"
    using fjall_finite[OF mem_fjall_ok, of d Topics] by (auto simp: mem_entries entries_def)
  then show "list_topics mem_ops js d \<in> range Inr" using collect[of "mem_entries d Topics"] by (simp add: list_topics_def mem_ops_def)
  have "kv_get mem_ops d Topics (as_bytes name) = Ok (mem_view d Topics (as_bytes name))" by (simp add: mem_ops_def mem_view_def)
  then show "get_topic mem_ops js name d \<in> range Inr"
    using assms unfolding topics_ok_def
    by (cases "mem_view d Topics (as_bytes name)") (force simp: get_topic_def orch_store_def orch_json_def)+
qed

theorem created_topic_is_served_witness:
  "\<exists>orch' msgs bytes. create_topic mem_ops demo_configs demo_schemas demo_net 0 demo_topic demo_orch = (orch', msgs, Ok ())
    \<and> stored_topic demo_configs (mem_view (or_db orch')) ''orders'' = Some (normal_config demo_topic)
    \<and> config_replies mem_ops demo_configs ''mitiflow/_config/orders'' orch' = [(''mitiflow/_config/orders'', bytes)]
    \<and> cc_from_slice demo_configs bytes = Ok (normal_config demo_topic)
    \<and> (\<exists>sb s. schema_replies mem_ops demo_configs demo_schemas 0 ''app/orders'' orch' = [sb] \<and> cc_from_slice demo_schemas sb = Ok s \<and> ts_name s = ''orders'')"
proof -
  obtain orch' msgs where c: "create_topic mem_ops demo_configs demo_schemas demo_net 0 demo_topic demo_orch = (orch', msgs, Ok ())"
    using demo_create by blast
  have empty: "topics_ok demo_configs (mem_view (or_db demo_orch))" "\<And>n. stored_topic demo_configs (mem_view (or_db demo_orch)) n = None"
    by (simp_all add: topics_ok_def stored_topic_def demo_orch_def mem_view_def mem_empty_def)
  have codecs: "codec_ok demo_configs" "codec_ok demo_schemas" by (simp_all add: demo_configs_def demo_schemas_def table_codec_ok)
  have name: "tc_name demo_topic = ''orders''" "config_key demo_orch ''orders'' = ''mitiflow/_config/orders''" "addressable ''orders''"
    by (simp_all add: demo_topic_def into_topic_config_def config_key_def demo_orch_def addressable_def)
  obtain d where "put_topic mem_ops demo_configs (normal_config demo_topic) (or_db demo_orch) = (d, Ok ())" "or_db orch' = d"
    using create_topic_ok[OF c] by blast
  then have db: "topics_ok demo_configs (mem_view (or_db orch'))" using put_topic_stored(2)[OF mem_fjall_ok codecs(1)] empty(1) by blast
  have readable: "get_topic mem_ops demo_configs ''orders'' (or_db orch') \<in> range Inr" "list_topics mem_ops demo_configs (or_db orch') \<in> range Inr"
    by (rule mem_topics_readable[OF db])+
  note served = created_topic_is_served[OF mem_fjall_ok codecs(1) empty(1) c codecs(2), of "''orders''", unfolded name demo_topic_prefix]
  obtain bytes where "cc_from_slice demo_configs bytes = Ok (normal_config demo_topic)"
    "config_replies mem_ops demo_configs ''mitiflow/_config/orders'' orch' = [(''mitiflow/_config/orders'', bytes)]"
    using served name(3) readable(1) by blast
  moreover have "\<exists>sb s. schema_replies mem_ops demo_configs demo_schemas 0 ''app/orders'' orch' = [sb] \<and> cc_from_slice demo_schemas sb = Ok s \<and> ts_name s = ''orders''"
    using served empty(2) readable(2) by fastforce
  moreover have "stored_topic demo_configs (mem_view (or_db orch')) ''orders'' = Some (normal_config demo_topic)" using served by simp
  ultimately show ?thesis using c by blast
qed

end
