(* ===== verification/Topic_Supervisor.thy ===== *)
theory Topic_Supervisor
  imports Topic_Worker Orchestrator
begin

text \<open>
  The topics of a storage agent: the supervisor that runs one worker per topic
  (\<^verbatim>\<open>mitiflow-storage/src/topic_supervisor.rs\<close>), the watcher that follows the orchestrator's
  configurations (\<^verbatim>\<open>topic_watcher.rs\<close>), and the agent configuration
  (\<^verbatim>\<open>config.rs\<close>).  Whether a worker can be started is an argument.  The last part composes the
  watcher with the orchestrator.
\<close>

section \<open>Agent configuration\<close>

record agent_config =
  ac_node_id :: string
  ac_data_dir :: string
  ac_capacity :: u32
  ac_labels :: "(string, string) hmap"
  ac_health_interval :: Duration
  ac_drain_grace_period :: Duration
  ac_global_prefix :: string
  ac_auto_discover_topics :: bool
  ac_topics :: "TopicEntry list"

record agent_config_builder =
  ab_node_id :: "string option"
  ab_data_dir :: string
  ab_capacity :: u32
  ab_labels :: "(string, string) hmap"
  ab_health_interval :: Duration
  ab_drain_grace_period :: Duration
  ab_global_prefix :: string
  ab_auto_discover_topics :: bool
  ab_topics :: "TopicEntry list"

definition agent_builder_new :: "string \<Rightarrow> agent_config_builder" where
  "agent_builder_new data_dir = \<lparr>ab_node_id = None, ab_data_dir = data_dir, ab_capacity = 100, ab_labels = [],
     ab_health_interval = secs 10, ab_drain_grace_period = secs 30, ab_global_prefix = ''mitiflow'',
     ab_auto_discover_topics = False, ab_topics = []\<rparr>"

text \<open>
  The identity of a node: the environment, then the file in the data directory, then a new identifier
  that is written to the file when it can be.  The result carries the new content of the file.
\<close>

definition resolve_or_persist_node_id :: "string option \<Rightarrow> string option \<Rightarrow> string \<Rightarrow> bool \<Rightarrow> string \<times> string option" where
  "resolve_or_persist_node_id env_id file fresh writable =
     (case env_id of
        Some (c # cs) \<Rightarrow> (c # cs, file)
      | _ \<Rightarrow>
          (case map_option trim file of
             Some (c # cs) \<Rightarrow> (c # cs, file)
           | _ \<Rightarrow> (fresh, if writable then Some fresh else file)))"

definition agent_build :: "(string \<Rightarrow> string) \<Rightarrow> agent_config_builder \<Rightarrow> AgentError + agent_config" where
  "agent_build resolve b =
     (let nid = (case ab_node_id b of Some i \<Rightarrow> i | None \<Rightarrow> resolve (ab_data_dir b)) in
      if ab_topics b = [] \<and> \<not> ab_auto_discover_topics b
      then Err (AgentConfig ''at least one topic or auto_discover_topics must be set'')
      else Ok \<lparr>ac_node_id = nid, ac_data_dir = ab_data_dir b, ac_capacity = ab_capacity b, ac_labels = ab_labels b,
        ac_health_interval = ab_health_interval b, ac_drain_grace_period = ab_drain_grace_period b,
        ac_global_prefix = ab_global_prefix b, ac_auto_discover_topics = ab_auto_discover_topics b, ac_topics = ab_topics b\<rparr>)"

section \<open>The supervisor\<close>

record ('f, 'q) supervisor =
  tsv_node_id :: string
  tsv_base_data_dir :: string
  tsv_capacity :: u32
  tsv_labels :: "(string, string) hmap"
  tsv_drain_grace_period :: Duration
  tsv_workers :: "(string, ('f, 'q) TopicWorkerConfig) hmap"

record ('f, 'q) worker_env =
  we_threshold :: 'f
  we_block :: 'q
  we_show_id :: "PublisherId \<Rightarrow> string"
  we_start :: "('f, 'q) TopicWorkerConfig \<Rightarrow> AgentError + unit"

definition sup_add_topic ::
  "('f, 'q) worker_env \<Rightarrow> string \<Rightarrow> ('f, 'q) TopicWorkerConfig \<Rightarrow> ('f, 'q) supervisor \<Rightarrow> ('f, 'q) supervisor \<times> (AgentError + unit)"
where
  "sup_add_topic env name cfg sv =
     (if hm_get (tsv_workers sv) name \<noteq> None then (sv, Err (AgentConfig (''topic '' @ [CHR 0x27] @ name @ [CHR 0x27] @ '' already exists'')))
      else case we_start env cfg of
          Err e \<Rightarrow> (sv, Err e)
        | Ok _ \<Rightarrow> (sv\<lparr>tsv_workers := hm_insert name cfg (tsv_workers sv)\<rparr>, Ok ()))"

definition sup_worker_config :: "('f, 'q) worker_env \<Rightarrow> TopicEntry \<Rightarrow> ('f, 'q) supervisor \<Rightarrow> AgentError + ('f, 'q) TopicWorkerConfig" where
  "sup_worker_config env entry sv =
     worker_config_from_entry (we_show_id env) (we_threshold env) (we_block env) entry (tsv_base_data_dir sv) (tsv_capacity sv) (tsv_labels sv)
       (tsv_drain_grace_period sv)"

definition add_topic_from_entry ::
  "('f, 'q) worker_env \<Rightarrow> TopicEntry \<Rightarrow> ('f, 'q) supervisor \<Rightarrow> ('f, 'q) supervisor \<times> (AgentError + unit)"
where
  "add_topic_from_entry env entry sv =
     (case sup_worker_config env entry sv of
        Err e \<Rightarrow> (sv, Err e)
      | Ok cfg \<Rightarrow> sup_add_topic env (te_name entry) cfg sv)"

definition sup_remove_topic :: "string \<Rightarrow> ('f, 'q) supervisor \<Rightarrow> ('f, 'q) supervisor \<times> bool" where
  "sup_remove_topic name sv = (sv\<lparr>tsv_workers := hm_remove name (tsv_workers sv)\<rparr>, hm_get (tsv_workers sv) name \<noteq> None)"

definition sup_start :: "('f, 'q) worker_env \<Rightarrow> agent_config \<Rightarrow> ('f, 'q) supervisor" where
  "sup_start env c = fold (\<lambda>entry sv. fst (add_topic_from_entry env entry sv)) (ac_topics c)
     \<lparr>tsv_node_id = ac_node_id c, tsv_base_data_dir = ac_data_dir c, tsv_capacity = ac_capacity c, tsv_labels = ac_labels c,
      tsv_drain_grace_period = ac_drain_grace_period c, tsv_workers = []\<rparr>"

definition sup_topics :: "('f, 'q) supervisor \<Rightarrow> string list" where
  "sup_topics sv = map fst (tsv_workers sv)"

definition has_topic :: "('f, 'q) supervisor \<Rightarrow> string \<Rightarrow> bool" where
  "has_topic sv name \<longleftrightarrow> hm_get (tsv_workers sv) name \<noteq> None"

section \<open>The watcher\<close>

record RemoteTopicConfig =
  rt_name :: string
  rt_key_prefix :: string
  rt_num_partitions :: u32
  rt_replication_factor :: u32
  rt_required_labels :: "(string, string) hmap"
  rt_excluded_labels :: "(string, string) hmap"

definition should_serve_topic :: "RemoteTopicConfig \<Rightarrow> (string, string) hmap \<Rightarrow> bool" where
  "should_serve_topic config agent_labels \<longleftrightarrow>
     (\<forall>(k, v) \<in> set (rt_required_labels config). hm_get agent_labels k = Some v)
   \<and> (\<forall>(k, v) \<in> set (rt_excluded_labels config). hm_get agent_labels k \<noteq> Some v)"

definition to_topic_entry :: "RemoteTopicConfig \<Rightarrow> TopicEntry" where
  "to_topic_entry remote = \<lparr>te_name = rt_name remote, te_key_prefix = rt_key_prefix remote,
     te_num_partitions = rt_num_partitions remote, te_replication_factor = rt_replication_factor remote\<rparr>"

text \<open>The topics found when the watcher starts.\<close>

definition discovered_topic :: "('f, 'q) worker_env \<Rightarrow> (string, string) hmap \<Rightarrow> RemoteTopicConfig \<Rightarrow> ('f, 'q) supervisor \<Rightarrow> ('f, 'q) supervisor" where
  "discovered_topic env agent_labels remote sv =
     (if \<not> should_serve_topic remote agent_labels then sv
      else if has_topic sv (rt_name remote) then sv
      else fst (add_topic_from_entry env (to_topic_entry remote) sv))"

definition watcher_start :: "('f, 'q) worker_env \<Rightarrow> (string, string) hmap \<Rightarrow> RemoteTopicConfig option list \<Rightarrow> ('f, 'q) supervisor \<Rightarrow> ('f, 'q) supervisor" where
  "watcher_start env agent_labels replies sv = fold (discovered_topic env agent_labels) (List.map_filter id replies) sv"

text \<open>One message on a configuration key.\<close>

definition topic_message ::
  "('f, 'q) worker_env \<Rightarrow> (bytes \<Rightarrow> RemoteTopicConfig option) \<Rightarrow> string \<Rightarrow> (string, string) hmap \<Rightarrow> topic_msg
    \<Rightarrow> ('f, 'q) supervisor \<Rightarrow> ('f, 'q) supervisor"
where
  "topic_message env from_slice global_prefix agent_labels msg sv =
     (case strip_prefix (global_prefix @ ''/_config/'') (fst msg) of
        None \<Rightarrow> sv
      | Some topic_name \<Rightarrow>
          (case snd msg of
             Some payload \<Rightarrow>
               (case from_slice payload of
                  None \<Rightarrow> sv
                | Some remote \<Rightarrow>
                    if \<not> should_serve_topic remote agent_labels then sv
                    else if has_topic sv topic_name then sv
                    else fst (add_topic_from_entry env (to_topic_entry remote) sv))
           | None \<Rightarrow> fst (sup_remove_topic topic_name sv)))"

section \<open>The identity of a node\<close>

text \<open>
  A node keeps its identity: whatever identifier a start resolves to and could write, every later start
  without the environment variable resolves to the same one.
\<close>

theorem node_identity_persists:
  assumes "resolve_or_persist_node_id None file fresh True = (i, file')" and "trim fresh = fresh" and "fresh \<noteq> []"
  shows "resolve_or_persist_node_id None file' fresh' w = (i, file')"
  using assms by (cases fresh) (auto simp: resolve_or_persist_node_id_def split: option.splits list.splits)

section \<open>Agents follow the orchestrator\<close>

definition remote_of :: "TopicConfig \<Rightarrow> RemoteTopicConfig" where
  "remote_of c = \<lparr>rt_name = tc_name c, rt_key_prefix = tc_key_prefix c, rt_num_partitions = tc_num_partitions c,
     rt_replication_factor = tc_replication_factor c, rt_required_labels = tc_required_labels c, rt_excluded_labels = tc_excluded_labels c\<rparr>"

datatype topic_op = CreateTopic TopicConfig | DeleteTopic string

text \<open>
  A run of the orchestrator in which every operation succeeds, topics are created when they do not exist,
  with a prefix of their own that is not below the configuration keys, and with numbers other than 0.
  The result is the final state and the messages.
\<close>

definition creatable :: "TopicConfig commit_codec \<Rightarrow> ('d \<Rightarrow> view) \<Rightarrow> TopicConfig \<Rightarrow> 'd orchestrator \<Rightarrow> bool" where
  "creatable js vw c orch \<longleftrightarrow> stored_topic js (vw (or_db orch)) (tc_name c) = None \<and> tc_key_prefix c \<noteq> []
     \<and> tc_num_partitions c \<noteq> 0 \<and> tc_replication_factor c \<noteq> 0
     \<and> strip_prefix (or_key_prefix orch @ ''/_config/'') (tc_key_prefix c @ ''/_schema'') = None"

fun topic_run ::
  "'d fjall_ops \<Rightarrow> ('d \<Rightarrow> view) \<Rightarrow> TopicConfig commit_codec \<Rightarrow> TopicSchema commit_codec \<Rightarrow> session_answers \<Rightarrow> (DateTime \<times> topic_op) list
    \<Rightarrow> 'd orchestrator \<Rightarrow> ('d orchestrator \<times> topic_msg list) option"
where
  "topic_run ops vw js sjs net [] orch = Some (orch, [])"
| "topic_run ops vw js sjs net ((now, CreateTopic c) # xs) orch =
     (case create_topic ops js sjs net now c orch of
        (o1, m1, Ok _) \<Rightarrow> if creatable js vw c orch
          then map_option (\<lambda>(o2, m2). (o2, m1 @ m2)) (topic_run ops vw js sjs net xs o1) else None
      | _ \<Rightarrow> None)"
| "topic_run ops vw js sjs net ((now, DeleteTopic n) # xs) orch =
     (case delete_topic ops js net n orch of
        (o1, m1, Ok _) \<Rightarrow> map_option (\<lambda>(o2, m2). (o2, m1 @ m2)) (topic_run ops vw js sjs net xs o1)
      | _ \<Rightarrow> None)"

text \<open>The worker an agent should run for a stored topic.\<close>

definition expected_worker ::
  "('f, 'q) worker_env \<Rightarrow> (string, string) hmap \<Rightarrow> ('f, 'q) supervisor \<Rightarrow> TopicConfig option \<Rightarrow> ('f, 'q) TopicWorkerConfig option"
where
  "expected_worker env agent_labels sv stored =
     (case stored of
        None \<Rightarrow> None
      | Some c \<Rightarrow>
          if should_serve_topic (remote_of c) agent_labels
          then (case sup_worker_config env (to_topic_entry (remote_of c)) sv of Ok cfg \<Rightarrow> Some cfg | Err _ \<Rightarrow> None)
          else None)"

lemma expected_worker_same:
  "expected_worker env agent_labels (sv\<lparr>tsv_workers := w\<rparr>) stored = expected_worker env agent_labels sv stored"
  by (simp add: expected_worker_def sup_worker_config_def split: option.split)

lemma sup_config_same: "sup_worker_config env entry (sv\<lparr>tsv_workers := w\<rparr>) = sup_worker_config env entry sv"
  by (simp add: sup_worker_config_def)

lemma sup_config_ok:
  assumes "tc_num_partitions c \<noteq> 0" "tc_replication_factor c \<noteq> 0" "tc_key_prefix c \<noteq> []"
  shows "\<exists>cfg. sup_worker_config env (to_topic_entry (remote_of c)) sv = Ok cfg"
  using assms by (simp add: sup_worker_config_def worker_config_from_entry_def to_topic_entry_def remote_of_def configure_def config_build_def builder_new_def)

lemma remote_normal [simp]: "remote_of (normal_config c) = remote_of c"
  by (simp add: remote_of_def normal_config_def)

abbreviation serves ::
  "('f, 'q) worker_env \<Rightarrow> (string, string) hmap \<Rightarrow> TopicConfig commit_codec \<Rightarrow> ('d \<Rightarrow> view) \<Rightarrow> 'd orchestrator \<Rightarrow> ('f, 'q) supervisor \<Rightarrow> bool"
where
  "serves env agent_labels js vw orch sv \<equiv>
     \<forall>name. hm_get (tsv_workers sv) name = expected_worker env agent_labels sv (stored_topic js (vw (or_db orch)) name)"

lemma follow_create:
  assumes "fjall_ok ops vw" and "codec_ok js" and "\<forall>c bs. cc_to_vec js c = Ok bs \<longrightarrow> from_slice bs = Some (remote_of c)"
    and "\<forall>cfg. we_start env cfg = Ok ()" and "create_topic ops js sjs net now c orch = (o1, m1, Ok ())" and "creatable js vw c orch"
    and "serves env labs js vw orch sv"
  shows "\<exists>w. fold (topic_message env from_slice (or_key_prefix orch) labs) m1 sv = sv\<lparr>tsv_workers := w\<rparr>
      \<and> serves env labs js vw o1 (sv\<lparr>tsv_workers := w\<rparr>) \<and> or_key_prefix o1 = or_key_prefix orch"
proof -
  let ?sv1 = "fold (topic_message env from_slice (or_key_prefix orch) labs) m1 sv"
  obtain d bytes sb where ok: "put_topic ops js (normal_config c) (or_db orch) = (d, Ok ())" "or_db o1 = d" "cc_to_vec js (normal_config c) = Ok bytes"
    "m1 = [(config_key orch (tc_name c), Some bytes), (topic_prefix orch c @ ''/_schema'', Some sb)]" "or_key_prefix o1 = or_key_prefix orch"
    using create_topic_ok[OF assms(5)] by blast
  note st = put_topic_stored(1)[OF assms(1,2) ok(1), folded ok(2)]
  have cr: "tc_key_prefix c \<noteq> []" "tc_num_partitions c \<noteq> 0" "tc_replication_factor c \<noteq> 0" "stored_topic js (vw (or_db orch)) (tc_name c) = None"
    "strip_prefix (or_key_prefix orch @ ''/_config/'') (topic_prefix orch c @ ''/_schema'') = None"
    using assms(6) by (simp_all add: creatable_def topic_prefix_def)
  have key: "strip_prefix (or_key_prefix orch @ ''/_config/'') (config_key orch (tc_name c)) = Some (tc_name c)"
    using strip_prefix_append[of "or_key_prefix orch @ ''/_config/''" "tc_name c"] by (simp add: config_key_def)
  have rem: "from_slice bytes = Some (remote_of c)" using assms(3) ok(3) by fastforce
  obtain cfg where cfg: "sup_worker_config env (to_topic_entry (remote_of c)) sv = Ok cfg" using sup_config_ok[OF cr(2,3,1)] by blast
  have fresh: "hm_get (tsv_workers sv) (tc_name c) = None" using assms(7) cr(4) by (simp add: expected_worker_def)
  have name: "te_name (to_topic_entry (remote_of c)) = tc_name c" by (simp add: to_topic_entry_def remote_of_def)
  have sv1: "?sv1 = (if should_serve_topic (remote_of c) labs then sv\<lparr>tsv_workers := hm_insert (tc_name c) cfg (tsv_workers sv)\<rparr> else sv)"
    unfolding ok(4) using key cr(5) rem cfg fresh assms(4) name
    by (simp add: topic_message_def has_topic_def add_topic_from_entry_def sup_add_topic_def)
  define w where "w = (if should_serve_topic (remote_of c) labs then hm_insert (tc_name c) cfg (tsv_workers sv) else tsv_workers sv)"
  have "?sv1 = sv\<lparr>tsv_workers := w\<rparr>" unfolding sv1 w_def by simp
  moreover have "serves env labs js vw o1 (sv\<lparr>tsv_workers := w\<rparr>)"
  proof
    fix n
    show "hm_get (tsv_workers (sv\<lparr>tsv_workers := w\<rparr>)) n = expected_worker env labs (sv\<lparr>tsv_workers := w\<rparr>) (stored_topic js (vw (or_db o1)) n)"
      unfolding expected_worker_same
      using st[of n] assms(7) fresh cfg by (cases "n = tc_name c") (simp_all add: w_def expected_worker_def)
  qed
  ultimately show ?thesis using ok(5) by blast
qed

lemma follow_delete:
  assumes "fjall_ok ops vw" and "delete_topic ops js net name orch = (o1, m1, Ok b)" and "serves env labs js vw orch sv"
  shows "\<exists>w. fold (topic_message env from_slice (or_key_prefix orch) labs) m1 sv = sv\<lparr>tsv_workers := w\<rparr>
      \<and> serves env labs js vw o1 (sv\<lparr>tsv_workers := w\<rparr>) \<and> or_key_prefix o1 = or_key_prefix orch"
proof -
  obtain d where ok: "delete_topic_entry ops name (or_db orch) = (d, Ok b)" "or_db o1 = d" "or_key_prefix o1 = or_key_prefix orch"
    "m1 = (if b then [(config_key orch name, None)] else [])"
    using delete_topic_ok[OF assms(2)] by (auto split: if_splits)
  note st = delete_entry_stored(1)[OF assms(1) ok(1), of js, folded ok(2)]
  have key: "strip_prefix (or_key_prefix orch @ ''/_config/'') (config_key orch name) = Some name"
    using strip_prefix_append[of "or_key_prefix orch @ ''/_config/''" name] by (simp add: config_key_def)
  define w where "w = (if b then hm_remove name (tsv_workers sv) else tsv_workers sv)"
  have "fold (topic_message env from_slice (or_key_prefix orch) labs) m1 sv = sv\<lparr>tsv_workers := w\<rparr>"
    using key by (simp add: ok(4) w_def topic_message_def sup_remove_topic_def)
  moreover have "serves env labs js vw o1 (sv\<lparr>tsv_workers := w\<rparr>)"
    unfolding expected_worker_same using st assms(3) by (auto simp: w_def expected_worker_def)
  ultimately show ?thesis using ok(3) by blast
qed

text \<open>
  C23. Agents follow creations and deletions: an agent that starts in step with the stored topics
  and receives, in order, the configuration messages of a run of successful operations, each the creation of a topic
  that does not exist, with a prefix of its own and numbers other than 0, or a deletion, runs at the end exactly
  one worker for every stored topic that its labels admit and whose worker configuration is valid, with the parameters of
  the topic, and no other.  Workers that are started start.  (Updates are not covered, the agent ignores them:
  \<open>topic_update_ignored\<close>; a topic without a prefix gets no worker: \<open>topic_without_prefix_not_served\<close>.)
\<close>

theorem agents_follow_topics:
  assumes "fjall_ok ops vw" and "codec_ok js" and "\<forall>c bs. cc_to_vec js c = Ok bs \<longrightarrow> from_slice bs = Some (remote_of c)"
    and "\<forall>cfg. we_start env cfg = Ok ()"
    and "topic_run ops vw js sjs net xs orch = Some (orch', msgs)"
    and "\<forall>name. hm_get (tsv_workers sv) name = expected_worker env labs sv (stored_topic js (vw (or_db orch)) name)"
  shows "hm_get (tsv_workers (fold (topic_message env from_slice (or_key_prefix orch) labs) msgs sv)) name
    = expected_worker env labs sv (stored_topic js (vw (or_db orch')) name)"
proof -
  have "\<exists>w. fold (topic_message env from_slice (or_key_prefix orch) labs) msgs sv = sv\<lparr>tsv_workers := w\<rparr> \<and> serves env labs js vw orch' (sv\<lparr>tsv_workers := w\<rparr>)"
    using assms(5,6)
  proof (induction xs arbitrary: orch sv msgs)
    case Nil
    then show ?case by (intro exI[of _ "tsv_workers sv"]) simp
  next
    case (Cons x xs)
    obtain o1 m1 msgs2 where step: "\<exists>w. fold (topic_message env from_slice (or_key_prefix orch) labs) m1 sv = sv\<lparr>tsv_workers := w\<rparr>
        \<and> serves env labs js vw o1 (sv\<lparr>tsv_workers := w\<rparr>) \<and> or_key_prefix o1 = or_key_prefix orch"
      and rest: "topic_run ops vw js sjs net xs o1 = Some (orch', msgs2)" "msgs = m1 @ msgs2"
    proof -
      obtain now opn where x: "x = (now, opn)" by (cases x)
      show ?thesis
      proof (cases opn)
        case (CreateTopic c)
        obtain o1 m1 r where c: "create_topic ops js sjs net now c orch = (o1, m1, r)" by (cases "create_topic ops js sjs net now c orch")
        have r: "r = Ok ()" "creatable js vw c orch" using Cons.prems(1) by (cases r; simp add: x CreateTopic c split: if_splits)+
        then obtain m2 where "topic_run ops vw js sjs net xs o1 = Some (orch', m2)" "msgs = m1 @ m2"
          using Cons.prems(1) by (auto simp: x CreateTopic c)
        then show ?thesis using that follow_create[OF assms(1-4) c[unfolded r(1)] r(2) Cons.prems(2)] by blast
      next
        case (DeleteTopic n)
        obtain o1 m1 r where d: "delete_topic ops js net n orch = (o1, m1, r)" by (cases "delete_topic ops js net n orch")
        obtain b where r: "r = Ok b" using Cons.prems(1) by (cases r) (simp_all add: x DeleteTopic d)
        then obtain m2 where "topic_run ops vw js sjs net xs o1 = Some (orch', m2)" "msgs = m1 @ m2"
          using Cons.prems(1) by (auto simp: x DeleteTopic d)
        then show ?thesis using that follow_delete[OF assms(1) d[unfolded r] Cons.prems(2)] by blast
      qed
    qed
    from step obtain w where w: "fold (topic_message env from_slice (or_key_prefix orch) labs) m1 sv = sv\<lparr>tsv_workers := w\<rparr>"
      "serves env labs js vw o1 (sv\<lparr>tsv_workers := w\<rparr>)" "or_key_prefix o1 = or_key_prefix orch" by blast
    from Cons.IH[OF rest(1) w(2)] show ?case using rest(2) w(1,3) by auto
  qed
  then show ?thesis by (auto simp: expected_worker_same)
qed

text \<open>
  A topic without a prefix of its own, which the orchestrator accepts and serves under its own prefix, is
  served by no agent: the agents build a configuration from the empty prefix, which is refused.
\<close>

theorem topic_without_prefix_not_served:
  assumes "rt_key_prefix remote = []" and "from_slice payload = Some remote"
  shows "topic_message env from_slice gp labs (gp @ ''/_config/'' @ name, Some payload) sv = sv"
proof -
  have "strip_prefix (gp @ ''/_config/'') (gp @ ''/_config/'' @ name) = Some name" using strip_prefix_append[of "gp @ ''/_config/''" name] by simp
  moreover have "\<exists>e. sup_worker_config env (to_topic_entry remote) sv = Err e"
    using assms(1) by (simp add: sup_worker_config_def worker_config_from_entry_def to_topic_entry_def configure_def config_build_def builder_new_def)
  ultimately show ?thesis using assms(2) by (auto simp: topic_message_def add_topic_from_entry_def)
qed

text \<open>A changed configuration of a topic that is served, or a change of its labels, has no effect on the agent.\<close>

theorem topic_update_ignored:
  assumes "has_topic sv name"
  shows "topic_message env from_slice gp labs (gp @ ''/_config/'' @ name, Some payload) sv = sv"
  using assms strip_prefix_append[of "gp @ ''/_config/''" name] by (simp add: topic_message_def split: option.split)

definition demo_worker_env :: "(nat, nat) worker_env" where
  "demo_worker_env = \<lparr>we_threshold = 0, we_block = 0, we_show_id = (\<lambda>_. []), we_start = (\<lambda>_. Ok ())\<rparr>"

definition demo_supervisor :: "(nat, nat) supervisor" where
  "demo_supervisor = \<lparr>tsv_node_id = ''n'', tsv_base_data_dir = ''data'', tsv_capacity = 100, tsv_labels = [],
     tsv_drain_grace_period = secs 30, tsv_workers = []\<rparr>"

theorem agents_follow_topics_witness:
  "\<exists>orch' msgs cfg. topic_run mem_ops mem_view demo_configs demo_schemas demo_net [(0, CreateTopic demo_topic)] demo_orch = Some (orch', msgs)
    \<and> hm_get (tsv_workers (fold (topic_message demo_worker_env (\<lambda>bs. Some (remote_of demo_topic)) ''mitiflow'' []) msgs demo_supervisor)) ''orders''
      = Some cfg \<and> tw_num_partitions cfg = 4"
proof -
  obtain orch' msgs where c: "create_topic mem_ops demo_configs demo_schemas demo_net 0 demo_topic demo_orch = (orch', msgs, Ok ())"
    using demo_create by blast
  have t: "tc_name demo_topic = ''orders''" "tc_key_prefix demo_topic = ''app/orders''" "tc_num_partitions demo_topic = 4" "tc_replication_factor demo_topic = 1"
    "tc_required_labels demo_topic = []" "tc_excluded_labels demo_topic = []"
    by (simp_all add: demo_topic_def into_topic_config_def)
  have st: "stored_topic demo_configs (mem_view (or_db demo_orch)) n = None" for n
    by (simp add: stored_topic_def demo_orch_def mem_view_def mem_empty_def)
  have "strip_prefix ''mitiflow/_config/'' ''app/orders/_schema'' = None" by code_simp
  then have "creatable demo_configs mem_view demo_topic demo_orch" using st[of "''orders''"] by (simp add: creatable_def t demo_orch_def)
  then have run: "topic_run mem_ops mem_view demo_configs demo_schemas demo_net [(0, CreateTopic demo_topic)] demo_orch = Some (orch', msgs)"
    using c by simp
  have js: "codec_ok demo_configs" by (simp add: demo_configs_def table_codec_ok)
  have dec: "\<forall>c bs. cc_to_vec demo_configs c = Ok bs \<longrightarrow> Some (remote_of demo_topic) = Some (remote_of c)"
    by (auto simp: demo_configs_def table_codec_def split: if_splits)
  have start: "\<forall>cfg. we_start demo_worker_env cfg = Ok ()" by (simp add: demo_worker_env_def)
  have sv: "\<forall>name. hm_get (tsv_workers demo_supervisor) name
      = expected_worker demo_worker_env [] demo_supervisor (stored_topic demo_configs (mem_view (or_db demo_orch)) name)"
    by (simp add: st expected_worker_def demo_supervisor_def)
  have stored: "stored_topic demo_configs (mem_view (or_db orch')) ''orders'' = Some (normal_config demo_topic)"
    using create_topic_ok[OF c] put_topic_stored(1)[OF mem_fjall_ok js] t(1) by (metis normal_config_name)
  obtain cfg where cfg: "sup_worker_config demo_worker_env (to_topic_entry (remote_of demo_topic)) demo_supervisor = Ok cfg"
    using sup_config_ok[of demo_topic] t by fastforce
  then have "tw_num_partitions cfg = 4"
    by (auto simp: sup_worker_config_def worker_config_from_entry_def to_topic_entry_def remote_of_def t split: if_splits sum.splits)
  moreover have "should_serve_topic (remote_of demo_topic) []" by (simp add: should_serve_topic_def remote_of_def t)
  moreover note agents_follow_topics[OF mem_fjall_ok js dec start run sv, of "''orders''"]
  ultimately show ?thesis using run cfg stored by (simp add: expected_worker_def demo_orch_def)
qed

end
