(* ===== verification/Lag.thy ===== *)
theory Lag
  imports Config Watermark Backend_Codec
begin

text \<open>
  The lag monitor of the orchestrator (\<^verbatim>\<open>mitiflow-orchestrator/src/lag.rs\<close>): the highest
  watermark per partition and publisher, the highest committed offset per group, partition and publisher,
  and the reports computed from them.  The clocks are arguments.  Sums of lags are 64-bit and wrap.
\<close>

section \<open>State\<close>

record TimestampedValue =
  tv_value :: u64
  tv_last_updated :: Instant

record LagReport =
  lr_group_id :: string
  lr_partition :: u32
  lr_publishers :: "(PublisherId, u64) hmap"
  lr_total :: u64
  lr_timestamp :: DateTime
  lr_is_stale :: bool

record lag_monitor =
  lm_watermarks :: "(u32 \<times> PublisherId, TimestampedValue) hmap"
  lm_offsets :: "(string \<times> u32 \<times> PublisherId, TimestampedValue) hmap"

definition lag_monitor_new :: lag_monitor where
  "lag_monitor_new = \<lparr>lm_watermarks = [], lm_offsets = []\<rparr>"

definition DEFAULT_STALENESS_THRESHOLD :: Duration where
  "DEFAULT_STALENESS_THRESHOLD = secs 120"

section \<open>Subscribers\<close>

text \<open>Values only grow; the time of the last update always moves.\<close>

definition raise_value :: "Instant \<Rightarrow> 'k \<Rightarrow> u64 \<Rightarrow> ('k, TimestampedValue) hmap \<Rightarrow> ('k, TimestampedValue) hmap" where
  "raise_value now k v m =
     (let old = (case hm_get m k of Some tsv \<Rightarrow> tv_value tsv | None \<Rightarrow> 0) in
      hm_insert k \<lparr>tv_value = (if old < v then v else old), tv_last_updated = now\<rparr> m)"

definition lag_on_watermark :: "Instant \<Rightarrow> CommitWatermark \<Rightarrow> lag_monitor \<Rightarrow> lag_monitor" where
  "lag_on_watermark now wm lm = lm\<lparr>lm_watermarks :=
     fold (\<lambda>(i, pw). raise_value now (cw_partition wm, i) (pw_committed_seq pw)) (cw_publishers wm) (lm_watermarks lm)\<rparr>"

definition lag_on_commit :: "Instant \<Rightarrow> OffsetCommit \<Rightarrow> lag_monitor \<Rightarrow> lag_monitor" where
  "lag_on_commit now commit lm = lm\<lparr>lm_offsets :=
     fold (\<lambda>(i, seq). raise_value now (oc_group_id commit, oc_partition commit, i) seq) (oc_offsets commit) (lm_offsets lm)\<rparr>"

section \<open>Reports\<close>

definition lag_behind :: "lag_monitor \<Rightarrow> u32 \<Rightarrow> PublisherId \<Rightarrow> u64 \<Rightarrow> u64" where
  "lag_behind lm p i offset = saturating_sub (case hm_get (lm_watermarks lm) (p, i) of Some tsv \<Rightarrow> tv_value tsv | None \<Rightarrow> 0) offset"

definition lag_is_stale :: "Instant \<Rightarrow> Duration \<Rightarrow> u32 \<Rightarrow> lag_monitor \<Rightarrow> bool" where
  "lag_is_stale now threshold p lm \<longleftrightarrow> (\<exists>((q, i), tsv) \<in> set (lm_watermarks lm). q = p \<and> threshold < now - tv_last_updated tsv)"

definition lag_report :: "Instant \<Rightarrow> DateTime \<Rightarrow> Duration \<Rightarrow> lag_monitor \<Rightarrow> string \<Rightarrow> u32 \<Rightarrow> (PublisherId, u64) hmap \<Rightarrow> LagReport" where
  "lag_report now wall threshold lm g p publishers = \<lparr>lr_group_id = g, lr_partition = p, lr_publishers = publishers,
     lr_total = sum_list (map snd publishers), lr_timestamp = wall, lr_is_stale = lag_is_stale now threshold p lm\<rparr>"

definition add_lag :: "'k \<Rightarrow> PublisherId \<Rightarrow> u64 \<Rightarrow> ('k, (PublisherId, u64) hmap) hmap \<Rightarrow> ('k, (PublisherId, u64) hmap) hmap" where
  "add_lag k i v m = hm_insert k (hm_insert i v (case hm_get m k of Some x \<Rightarrow> x | None \<Rightarrow> [])) m"

text \<open>The reports of all groups at a tick, and of one group on demand.\<close>

definition lag_tick :: "Instant \<Rightarrow> DateTime \<Rightarrow> lag_monitor \<Rightarrow> LagReport list" where
  "lag_tick now wall lm =
     map (\<lambda>((g, p), publishers). lag_report now wall DEFAULT_STALENESS_THRESHOLD lm g p publishers)
       (fold (\<lambda>((g, p, i), tsv). add_lag (g, p) i (lag_behind lm p i (tv_value tsv))) (lm_offsets lm) [])"

definition get_group_lag :: "Instant \<Rightarrow> DateTime \<Rightarrow> Duration \<Rightarrow> string \<Rightarrow> lag_monitor \<Rightarrow> LagReport list" where
  "get_group_lag now wall threshold group_id lm =
     map (\<lambda>(p, publishers). lag_report now wall threshold lm group_id p publishers)
       (fold (\<lambda>((g, p, i), tsv) m. if g \<noteq> group_id then m else add_lag p i (lag_behind lm p i (tv_value tsv)) m) (lm_offsets lm) [])"

definition known_groups :: "lag_monitor \<Rightarrow> string list" where
  "known_groups lm = sort_key as_bytes (remdups (map (fst \<circ> fst) (lm_offsets lm)))"

definition clear_stale_entries :: "Instant \<Rightarrow> Duration \<Rightarrow> lag_monitor \<Rightarrow> lag_monitor \<times> nat" where
  "clear_stale_entries now max_age lm =
     (let wm = filter (\<lambda>(_, tsv). now - tv_last_updated tsv \<le> max_age) (lm_watermarks lm);
          os = filter (\<lambda>(_, tsv). now - tv_last_updated tsv \<le> max_age) (lm_offsets lm) in
      (lm\<lparr>lm_watermarks := wm, lm_offsets := os\<rparr>,
       (length (lm_watermarks lm) - length wm) + (length (lm_offsets lm) - length os)))"

definition get_publishers :: "lag_monitor \<Rightarrow> (PublisherId, u32 list) hmap" where
  "get_publishers lm =
     map (\<lambda>(i, ps). (i, remdups_adj (sort ps)))
       (fold (\<lambda>((p, i), _) m. hm_insert i ((case hm_get m i of Some ps \<Rightarrow> ps | None \<Rightarrow> []) @ [p]) m) (lm_watermarks lm) [])"

section \<open>What a monitor has seen\<close>

datatype lag_event = WatermarkSeen CommitWatermark | CommitSeen OffsetCommit

definition lag_step :: "Instant \<times> lag_event \<Rightarrow> lag_monitor \<Rightarrow> lag_monitor" where
  "lag_step e lm = (case snd e of WatermarkSeen wm \<Rightarrow> lag_on_watermark (fst e) wm lm | CommitSeen c \<Rightarrow> lag_on_commit (fst e) c lm)"

fun announced_seqs :: "u32 \<Rightarrow> PublisherId \<Rightarrow> (Instant \<times> lag_event) list \<Rightarrow> u64 list" where
  "announced_seqs p i [] = []"
| "announced_seqs p i ((_, WatermarkSeen wm) # es) =
     (if cw_partition wm = p then map (pw_committed_seq \<circ> snd) (filter (\<lambda>(j, _). j = i) (cw_publishers wm)) else []) @ announced_seqs p i es"
| "announced_seqs p i (_ # es) = announced_seqs p i es"

fun committed_seqs :: "string \<Rightarrow> u32 \<Rightarrow> PublisherId \<Rightarrow> (Instant \<times> lag_event) list \<Rightarrow> u64 list" where
  "committed_seqs g p i [] = []"
| "committed_seqs g p i ((_, CommitSeen c) # es) =
     (if oc_group_id c = g \<and> oc_partition c = p then map snd (filter (\<lambda>(j, _). j = i) (oc_offsets c)) else []) @ committed_seqs g p i es"
| "committed_seqs g p i (_ # es) = committed_seqs g p i es"

text \<open>The value of a key after raising it to a list of values.\<close>

definition peak :: "u64 option \<Rightarrow> u64 list \<Rightarrow> u64 option" where
  "peak start vs = (if vs = [] then start else Some (fold max vs (case start of Some v \<Rightarrow> v | None \<Rightarrow> 0)))"

lemma peak_append: "peak (peak s xs) ys = peak s (xs @ ys)"
  by (auto simp: peak_def split: option.split)

abbreviation value_at :: "('k, TimestampedValue) hmap \<Rightarrow> 'k \<Rightarrow> u64 option" where
  "value_at m k \<equiv> map_option tv_value (hm_get m k)"

lemma raise_value_get: "value_at (raise_value now k v m) k' = (if k' = k then peak (value_at m k) [v] else value_at m k')"
  by (auto simp: raise_value_def peak_def Let_def max_def word_neq_0_conv split: option.split)

lemma raise_fold_get:
  "value_at (fold (\<lambda>(i, x). raise_value now (key i) (val x)) xs m) (key i)
   = peak (value_at m (key i)) (map (val \<circ> snd) (filter (\<lambda>(j, _). j = i) xs))" if "inj key"
proof (induction xs arbitrary: m)
  case Nil
  then show ?case by (simp add: peak_def)
next
  case (Cons x xs)
  obtain j y where x: "x = (j, y)" by (cases x)
  have "value_at (raise_value now (key j) (val y) m) (key i) = (if i = j then peak (value_at m (key i)) [val y] else value_at m (key i))"
    using that by (auto simp: raise_value_get dest: injD)
  then show ?case using Cons.IH[of "raise_value now (key j) (val y) m"] by (auto simp: x peak_append simp del: fold_simps(1))
qed

lemma raise_fold_other:
  "k \<notin> range key \<Longrightarrow> value_at (fold (\<lambda>(i, x). raise_value now (key i) (val x)) xs m) k = value_at m k"
  by (induction xs arbitrary: m) (auto simp: raise_value_get)

lemma lag_step_values:
  "value_at (lm_watermarks (lag_step e lm)) (p, i) = peak (value_at (lm_watermarks lm) (p, i)) (announced_seqs p i [e])"
  "value_at (lm_offsets (lag_step e lm)) (g, p, i) = peak (value_at (lm_offsets lm) (g, p, i)) (committed_seqs g p i [e])"
proof -
  obtain now x where e: "e = (now, x)" by (cases e)
  show "value_at (lm_watermarks (lag_step e lm)) (p, i) = peak (value_at (lm_watermarks lm) (p, i)) (announced_seqs p i [e])"
  proof (cases x)
    case (WatermarkSeen wm)
    have inj: "inj (Pair (cw_partition wm) :: PublisherId \<Rightarrow> _)" by (simp add: inj_on_def)
    show ?thesis
    proof (cases "cw_partition wm = p")
      case True
      then show ?thesis using raise_fold_get[OF inj, of now pw_committed_seq "cw_publishers wm" "lm_watermarks lm" i]
        by (simp add: e WatermarkSeen lag_step_def lag_on_watermark_def)
    next
      case False
      then have "(p, i) \<notin> range (Pair (cw_partition wm))" by auto
      then show ?thesis using False raise_fold_other[of "(p, i)" "Pair (cw_partition wm)" now pw_committed_seq "cw_publishers wm" "lm_watermarks lm"]
        by (simp add: e WatermarkSeen lag_step_def lag_on_watermark_def peak_def)
    qed
  qed (simp add: e lag_step_def lag_on_commit_def peak_def)
  show "value_at (lm_offsets (lag_step e lm)) (g, p, i) = peak (value_at (lm_offsets lm) (g, p, i)) (committed_seqs g p i [e])"
  proof (cases x)
    case (CommitSeen c)
    let ?key = "\<lambda>i. (oc_group_id c, oc_partition c, i)"
    have inj: "inj ?key" by (simp add: inj_on_def)
    show ?thesis
    proof (cases "oc_group_id c = g \<and> oc_partition c = p")
      case True
      then show ?thesis using raise_fold_get[OF inj, of now "\<lambda>x. x" "oc_offsets c" "lm_offsets lm" i]
        by (simp add: e CommitSeen lag_step_def lag_on_commit_def comp_def)
    next
      case False
      then have "(g, p, i) \<notin> range ?key" by auto
      then show ?thesis using False raise_fold_other[of "(g, p, i)" ?key now "\<lambda>x. x" "oc_offsets c" "lm_offsets lm"]
        by (auto simp: e CommitSeen lag_step_def lag_on_commit_def peak_def)
    qed
  qed (simp add: e lag_step_def lag_on_watermark_def peak_def)
qed

lemma seqs_Cons: "announced_seqs p i (e # es) = announced_seqs p i [e] @ announced_seqs p i es"
  "committed_seqs g p i (e # es) = committed_seqs g p i [e] @ committed_seqs g p i es"
  by (cases e; cases "snd e"; simp)+

lemma lag_run_values:
  "value_at (lm_watermarks (fold lag_step es lm)) (p, i) = peak (value_at (lm_watermarks lm) (p, i)) (announced_seqs p i es)"
  "value_at (lm_offsets (fold lag_step es lm)) (g, p, i) = peak (value_at (lm_offsets lm) (g, p, i)) (committed_seqs g p i es)"
proof (induction es arbitrary: lm)
  case Nil
  { case 1 show ?case by (simp add: peak_def) }
  { case 2 show ?case by (simp add: peak_def) }
next
  case (Cons e es)
  { case 1 show ?case using Cons(1)[of "lag_step e lm"] unfolding seqs_Cons(1)[of p i e es] by (simp add: lag_step_values peak_append) }
  { case 2 show ?case using Cons(2)[of "lag_step e lm"] unfolding seqs_Cons(2)[of g p i e es] by (simp add: lag_step_values peak_append) }
qed

lemma lag_run_wf: "hm_wf (lm_offsets lm) \<Longrightarrow> hm_wf (lm_offsets (fold lag_step es lm))"
proof (induction es arbitrary: lm)
  case (Cons e es)
  have "hm_wf (fold (\<lambda>(i, x). raise_value now (key i) (val x)) xs m)" if "hm_wf m" for now :: Instant and key :: "PublisherId \<Rightarrow> string \<times> u32 \<times> PublisherId" and val xs m
    using that by (induction xs arbitrary: m) (auto simp: raise_value_def Let_def)
  then have "hm_wf (lm_offsets (lag_step e lm))" using Cons.prems
    by (cases "snd e") (simp_all add: lag_step_def lag_on_watermark_def lag_on_commit_def)
  then show ?case using Cons.IH by simp
qed simp

section \<open>Grouping\<close>

definition lag_at :: "('k, (PublisherId, u64) hmap) hmap \<Rightarrow> 'k \<Rightarrow> PublisherId \<Rightarrow> u64 option" where
  "lag_at m k i = Option.bind (hm_get m k) (\<lambda>x. hm_get x i)"

definition groups_ok :: "('k, (PublisherId, u64) hmap) hmap \<Rightarrow> bool" where
  "groups_ok m \<longleftrightarrow> hm_wf m \<and> (\<forall>k x. hm_get m k = Some x \<longrightarrow> hm_wf x \<and> x \<noteq> [])"

lemma add_lag_at [simp]: "lag_at (add_lag k i v m) k' j = (if k' = k \<and> j = i then Some v else lag_at m k' j)"
  by (auto simp: add_lag_def lag_at_def split: option.split)

lemma update_nonempty [simp]: "hm_insert i v m \<noteq> []"
  by (cases m) (auto split: prod.split)

lemma add_lag_ok: "groups_ok m \<Longrightarrow> groups_ok (add_lag k i v m)"
  by (auto simp: add_lag_def groups_ok_def split: option.split)

lemma group_fold:
  fixes os :: "(string \<times> u32 \<times> PublisherId, TimestampedValue) hmap" and L gid
  defines "f \<equiv> (\<lambda>((g, p, i), tsv) m. if g \<noteq> gid then m else add_lag p i (L p i (tv_value tsv)) m)"
  assumes "hm_wf os" and "groups_ok m"
  shows "groups_ok (fold f os m) \<and> lag_at (fold f os m) p i
    = (case hm_get os (gid, p, i) of Some tsv \<Rightarrow> Some (L p i (tv_value tsv)) | None \<Rightarrow> lag_at m p i)"
  using assms(2,3)
proof (induction os arbitrary: m)
  case (Cons x os)
  obtain g q j tsv where x: "x = ((g, q, j), tsv)" by (cases x) auto
  have ok: "groups_ok (f x m)" using Cons.prems(2) by (auto simp: f_def x intro: add_lag_ok)
  have new: "hm_get os (g, q, j) = None" using Cons.prems(1) by (simp add: x map_of_eq_None_iff)
  have "lag_at (f x m) p i = (if (g, q, j) = (gid, p, i) then Some (L p i (tv_value tsv)) else lag_at m p i)"
    by (auto simp: f_def x)
  then show ?case using Cons.IH[OF _ ok] Cons.prems(1) new by (auto simp: x split: option.split)
qed simp

text \<open>
  C27. Lag reports are exact: after any sequence of watermarks and offset commits, in any order and with
  repetitions, the report of a group has one entry per partition the group has committed on; it lists
  exactly the publishers the group has a committed offset for, each with the highest sequence a watermark
  announced as committed less the highest offset the group committed, or 0; and the total is their sum.
\<close>

theorem lag_reports_exact:
  fixes es g now wall threshold
  defines "rs \<equiv> get_group_lag now wall threshold g (fold lag_step es lag_monitor_new)"
  shows "distinct (map lr_partition rs)
    \<and> (\<forall>r \<in> set rs. lr_group_id r = g \<and> hm_wf (lr_publishers r) \<and> lr_total r = sum_list (map snd (lr_publishers r))
        \<and> (\<forall>i. hm_get (lr_publishers r) i =
             (if committed_seqs g (lr_partition r) i es = [] then None
              else Some (saturating_sub (fold max (announced_seqs (lr_partition r) i es) 0) (fold max (committed_seqs g (lr_partition r) i es) 0)))))
    \<and> (\<forall>p. p \<in> lr_partition ` set rs \<longleftrightarrow> (\<exists>i. committed_seqs g p i es \<noteq> []))"
proof -
  let ?lm = "fold lag_step es lag_monitor_new"
  define f where "f = (\<lambda>((g', p, i), tsv :: TimestampedValue) m. if g' \<noteq> g then m else add_lag p i (lag_behind ?lm p i (tv_value tsv)) m)"
  define grp where "grp = fold f (lm_offsets ?lm) []"
  have rs: "rs = map (\<lambda>(p, x). lag_report now wall threshold ?lm g p x) grp" by (simp add: rs_def get_group_lag_def grp_def f_def)
  have wf: "hm_wf (lm_offsets ?lm)" by (rule lag_run_wf) (simp add: lag_monitor_new_def)
  have os: "value_at (lm_offsets ?lm) (g, p, i) = (if committed_seqs g p i es = [] then None else Some (fold max (committed_seqs g p i es) 0))" for p i
    using lag_run_values(2)[of es lag_monitor_new g p i] by (simp add: lag_monitor_new_def peak_def)
  have wm: "(case hm_get (lm_watermarks ?lm) (p, i) of Some tsv \<Rightarrow> tv_value tsv | None \<Rightarrow> 0) = fold max (announced_seqs p i es) 0" for p i
    using lag_run_values(1)[of es lag_monitor_new p i] by (auto simp: lag_monitor_new_def peak_def split: option.splits if_splits)
  note gf = group_fold[OF wf, where m = "[]" and gid = g and L = "lag_behind ?lm", folded f_def, folded grp_def]
  have ok: "groups_ok grp" using gf by (simp add: groups_ok_def)
  have at: "lag_at grp p i = (if committed_seqs g p i es = [] then None
      else Some (saturating_sub (fold max (announced_seqs p i es) 0) (fold max (committed_seqs g p i es) 0)))" for p i
    using gf[of p i] os[of p i] by (auto simp: groups_ok_def lag_at_def lag_behind_def wm split: option.splits if_splits)
  have get: "hm_get grp p = Some x \<longleftrightarrow> (p, x) \<in> set grp" for p x using ok by (simp add: groups_ok_def)
  have each: "hm_wf x \<and> (\<forall>i. hm_get x i = lag_at grp p i) \<and> x \<noteq> []" if "(p, x) \<in> set grp" for p x
    using that ok get[of p x] by (auto simp: groups_ok_def lag_at_def)
  have "p \<in> fst ` set grp \<longleftrightarrow> (\<exists>i. committed_seqs g p i es \<noteq> [])" for p
  proof
    assume "p \<in> fst ` set grp"
    then obtain x where x: "(p, x) \<in> set grp" by force
    then obtain i v xs where "x = (i, v) # xs" using each[OF x] by (metis neq_Nil_conv surj_pair)
    then have "hm_get x i = Some v" by simp
    then show "\<exists>i. committed_seqs g p i es \<noteq> []" using each[OF x] at[of p i] by (metis option.distinct(1))
  next
    assume "\<exists>i. committed_seqs g p i es \<noteq> []"
    then obtain i where "lag_at grp p i \<noteq> None" using at by (metis option.distinct(1))
    then show "p \<in> fst ` set grp" using get by (cases "hm_get grp p") (force simp: lag_at_def)+
  qed
  moreover have "map lr_partition rs = map fst grp" by (simp add: rs lag_report_def split_beta)
  moreover have "distinct (map fst grp)" using ok by (simp add: groups_ok_def)
  moreover have "lr_partition ` set rs = fst ` set grp" using calculation(2) by (metis list.set_map)
  moreover have "\<forall>r \<in> set rs. lr_group_id r = g \<and> hm_wf (lr_publishers r) \<and> lr_total r = sum_list (map snd (lr_publishers r))
      \<and> (\<forall>i. hm_get (lr_publishers r) i = lag_at grp (lr_partition r) i)"
    using each by (auto simp: rs lag_report_def)
  ultimately show ?thesis unfolding at[symmetric] by simp
qed

definition lag_commit :: "u64 \<Rightarrow> OffsetCommit" where
  "lag_commit s = \<lparr>oc_group_id = ''g'', oc_member_id = ''m'', oc_partition = 0, oc_offsets = [(1, s)], oc_generation = 1, oc_timestamp = 0\<rparr>"

definition demo_lag_events :: "(Instant \<times> lag_event) list" where
  "demo_lag_events =
     [(0, WatermarkSeen \<lparr>cw_partition = 0, cw_publishers = [(1, \<lparr>pw_committed_seq = 7, pw_gaps = []\<rparr>)], cw_timestamp = 0, cw_epoch = 0\<rparr>),
      (1, CommitSeen (lag_commit 5)), (2, CommitSeen (lag_commit 3))]"

theorem lag_reports_exact_witness:
  "let rs = get_group_lag 3 0 DEFAULT_STALENESS_THRESHOLD ''g'' (fold lag_step demo_lag_events lag_monitor_new)
   in lr_partition ` set rs = {0} \<and> hm_get (lr_publishers (hd rs)) 1 = Some 2"
proof -
  define rs where "rs = get_group_lag 3 0 DEFAULT_STALENESS_THRESHOLD ''g'' (fold lag_step demo_lag_events lag_monitor_new)"
  have seqs: "committed_seqs ''g'' p i demo_lag_events = (if p = 0 \<and> i = 1 then [5, 3] else [])"
    "announced_seqs 0 1 demo_lag_events = [7]" for p i
    by (simp_all add: demo_lag_events_def lag_commit_def)
  note exact = lag_reports_exact[of 3 0 DEFAULT_STALENESS_THRESHOLD "''g''" demo_lag_events, folded rs_def]
  have "p \<in> lr_partition ` set rs \<longleftrightarrow> p = 0" for p using exact seqs by auto
  then have parts: "lr_partition ` set rs = {0}" by blast
  then have "rs \<noteq> []" by auto
  then have "hd rs \<in> set rs" by simp
  moreover from this parts have "lr_partition (hd rs) = 0" by auto
  ultimately have "hm_get (lr_publishers (hd rs)) 1 = Some (saturating_sub (fold max [7] 0) (fold max [5, 3] 0))"
    using exact seqs by auto
  then show ?thesis using parts by (simp add: rs_def[symmetric] saturating_sub_def)
qed

text \<open>
  The monitor subscribes to keys one chunk below the watermark key, while the stores publish on the
  watermark key itself, unless one is configured below it: no watermark reaches it.
\<close>

definition watermark_subscription_matches :: "string \<Rightarrow> string \<Rightarrow> bool" where
  "watermark_subscription_matches key_prefix key \<longleftrightarrow>
     (case strip_prefix (key_prefix @ ''/_watermark/'') key of Some chunk \<Rightarrow> chunk \<noteq> [] \<and> CHR ''/'' \<notin> set chunk | None \<Rightarrow> False)"

theorem lag_monitor_misses_watermarks:
  assumes "bc_watermark_key cfg = None"
  shows "\<not> watermark_subscription_matches (bc_key_prefix cfg) (resolved_watermark_key cfg)"
proof -
  have "resolved_watermark_key cfg = bc_key_prefix cfg @ ''/_watermark''" using assms by (simp add: resolved_watermark_key_def resolve_key_def)
  moreover have "starts_with (p @ a) (p @ b) = starts_with a b" for p a b by (induction p) simp_all
  ultimately show ?thesis by (simp add: watermark_subscription_matches_def strip_prefix_def)
qed

end
