(* ===== verification/Topology.thy ===== *)
theory Topology
  imports Prelude
begin

text \<open>
  Topologies of the emulator: the configuration (\<^verbatim>\<open>mitiflow-emulator/src/config.rs\<close>) and its
  validation (\<^verbatim>\<open>validation.rs\<close>), with the detection of cycles in the processor pipeline by
  Kahn's algorithm.  A 64-bit float is a type parameter; the operations the validation uses on it are the
  fields of a record.  Paths are strings.  A set of names is a list without repetitions.
\<close>

section \<open>Configuration\<close>

datatype EmulatorError =
    ConfigErr string | Validation string | Process string | NetworkFault string | Invariant string | Manifest string
  | Privilege string string | IoErr string | ChaosErr string | Yaml string | JsonErr string | Base64 string
  | Container string | FileNotFound string

datatype ZenohMode = Peer | Client | Router

record ZenohConfig =
  zc_mode :: ZenohMode
  zc_listen :: "string list"
  zc_connect :: "string list"
  zc_auto_router :: bool
  zc_timestamping_enabled :: bool

definition zenoh_config_default :: ZenohConfig where
  "zenoh_config_default = \<lparr>zc_mode = Peer, zc_listen = [], zc_connect = [], zc_auto_router = False, zc_timestamping_enabled = False\<rparr>"

datatype CodecConfig = CodecJson | CodecMsgpack | CodecPostcard

datatype RecoveryModeConfig = RmHeartbeat | RmPeriodicQuery | RmBoth

datatype IsolationMode = IsoProcess | IsoContainer

record DefaultsConfig =
  df_codec :: CodecConfig
  df_isolation :: IsolationMode
  df_cache_size :: nat
  df_heartbeat_ms :: u64
  df_recovery_mode :: RecoveryModeConfig

definition defaults_config_default :: DefaultsConfig where
  "defaults_config_default = \<lparr>df_codec = CodecJson, df_isolation = IsoProcess, df_cache_size = 256, df_heartbeat_ms = 1000, df_recovery_mode = RmBoth\<rparr>"

datatype LogMode = LogStdout | LogFile | LogBoth

datatype LogFormat = LogText | LogJson

datatype LogLevel = LvTrace | LvDebug | LvInfo | LvWarn | LvError

record LoggingConfig =
  lg_mode :: LogMode
  lg_directory :: string
  lg_format :: LogFormat
  lg_level :: LogLevel
  lg_per_component :: bool

definition logging_config_default :: LoggingConfig where
  "logging_config_default = \<lparr>lg_mode = LogStdout, lg_directory = ''./logs'', lg_format = LogText, lg_level = LvInfo, lg_per_component = False\<rparr>"

record ManifestConfig =
  mf_enabled :: bool
  mf_directory :: string

definition manifest_config_default :: ManifestConfig where
  "manifest_config_default = \<lparr>mf_enabled = False, mf_directory = ''./manifests''\<rparr>"

record RetentionConfig =
  rt_max_age :: "Duration option"
  rt_max_bytes :: "u64 option"

record CompactionConfig =
  cc_enabled :: bool

record TopicDef =
  td_name :: string
  td_key_prefix :: string
  td_codec :: "CodecConfig option"
  td_num_partitions :: u32
  td_replication_factor :: u32
  td_retention :: "RetentionConfig option"
  td_compaction :: "CompactionConfig option"

datatype ComponentKind = Producer | Consumer | Processor | StorageAgent | Agent | Orchestrator

text \<open>Startup tier: a lower tier starts first.\<close>

fun tier :: "ComponentKind \<Rightarrow> u8" where
  "tier Orchestrator = 1"
| "tier StorageAgent = 2"
| "tier Agent = 2"
| "tier Producer = 3"
| "tier Processor = 4"
| "tier Consumer = 5"

datatype GeneratorType = RandomJson | FixedContent | Counter | SchemaDriven

datatype SchemaFieldType = FtFloat | FtInt | FtString | FtUuid | FtDatetime | FtBool | FtEnum

record 'f SchemaFieldDef =
  sf_field_type :: SchemaFieldType
  sf_min :: "'f option"
  sf_max :: "'f option"
  sf_pattern :: "string option"
  sf_probability :: "'f option"
  sf_values :: "string list option"

record 'f PayloadConfig =
  py_generator :: GeneratorType
  py_size_bytes :: nat
  py_schema :: "(string, 'f SchemaFieldDef) hmap"
  py_content :: "string option"
  py_prefix :: "string option"

datatype ProcessingMode = Passthrough | DelayMode | FilterMode | MapMode

record 'f ProcessingConfig =
  pg_mode :: ProcessingMode
  pg_delay_ms :: "u64 option"
  pg_drop_probability :: "'f option"

datatype CommitModeDef = CmManual | CmAuto

record ConsumerGroupDef =
  cgd_group_id :: string
  cgd_commit_mode :: CommitModeDef
  cgd_auto_commit_interval_ms :: u64

datatype OutputMode = OutCount | OutLog | OutDiscard | OutFile

record OutputConfig =
  ou_mode :: OutputMode
  ou_report_interval_sec :: u64
  ou_file_path :: "string option"

record 'f ComponentDef =
  cd_name :: string
  cd_kind :: ComponentKind
  cd_instances :: u32
  cd_topic :: "string option"
  cd_input_topic :: "string option"
  cd_output_topic :: "string option"
  cd_rate :: "'f option"
  cd_durable :: bool
  cd_urgency_ms :: "u64 option"
  cd_cache_size :: "nat option"
  cd_heartbeat_ms :: "u64 option"
  cd_payload :: "'f PayloadConfig option"
  cd_rate_per_instance :: "'f option"
  cd_ramp_up_sec :: "'f option"
  cd_ramp_start_rate :: "'f option"
  cd_burst_factor :: "'f option"
  cd_processing :: "'f ProcessingConfig option"
  cd_consumer_group :: "ConsumerGroupDef option"
  cd_output :: "OutputConfig option"
  cd_processing_delay_ms :: "u64 option"
  cd_offload_enabled :: bool
  cd_num_processing_shards :: "nat option"
  cd_data_dir :: "string option"
  cd_capacity :: "u32 option"
  cd_managed_topics :: "string list"
  cd_labels :: "(string, string) hmap option"
  cd_global_prefix :: "string option"
  cd_auto_discover_topics :: "bool option"
  cd_lag_interval_ms :: "u64 option"
  cd_http_port :: "u16 option"
  cd_log_level :: "string option"
  cd_depends_on :: "string list"
  cd_isolation :: "IsolationMode option"
  cd_codec :: "CodecConfig option"

datatype ChaosAction = Kill | Pause | Restart | Slow | NetworkPartition | KillRandom

record 'f ChaosEventDef =
  ce_at :: "Duration option"
  ce_every :: "Duration option"
  ce_action :: ChaosAction
  ce_target :: "string option"
  ce_instance :: "nat option"
  ce_restart_after :: "Duration option"
  ce_duration :: "Duration option"
  ce_delay_ms :: "u64 option"
  ce_partition_from :: "string list"
  ce_heal_after :: "Duration option"
  ce_loss_percent :: "'f option"
  ce_bandwidth :: "string option"
  ce_jitter_ms :: "u64 option"
  ce_pool :: "string list"

record 'f RandomActionConfig =
  ra_probability :: 'f
  ra_pool :: "string list"
  ra_restart_after :: "(Duration \<times> Duration) option"
  ra_delay_ms :: "(u64 \<times> u64) option"
  ra_heal_after :: "(Duration \<times> Duration) option"
  ra_pause_duration :: "(Duration \<times> Duration) option"

record 'f RandomChaosConfig =
  rc_fault_rate :: 'f
  rc_duration :: Duration
  rc_max_concurrent_faults :: nat
  rc_min_interval :: Duration
  rc_actions :: "(string, 'f RandomActionConfig) hmap"

record 'f ChaosConfig =
  ch_enabled :: bool
  ch_seed :: "u64 option"
  ch_schedule :: "'f ChaosEventDef list"
  ch_random :: "'f RandomChaosConfig option"

record 'f TopologyConfig =
  tc_zenoh :: ZenohConfig
  tc_defaults :: DefaultsConfig
  tc_logging :: LoggingConfig
  tc_topics :: "TopicDef list"
  tc_components :: "'f ComponentDef list"
  tc_chaos :: "'f ChaosConfig"
  tc_manifest :: ManifestConfig

section \<open>Validation\<close>

text \<open>\<^verbatim>\<open>?\<close> in a loop: the first error ends it.\<close>

fun each_ok :: "('a \<Rightarrow> 'e + unit) \<Rightarrow> 'a list \<Rightarrow> 'e + unit" where
  "each_ok f [] = Ok ()"
| "each_ok f (x # xs) = rbind (f x) (\<lambda>_. each_ok f xs)"

lemma each_ok_iff: "each_ok f xs = Ok () \<longleftrightarrow> (\<forall>x \<in> set xs. f x = Ok ())"
  by (induction xs) auto

abbreviation quoted :: "string \<Rightarrow> string" where
  "quoted s \<equiv> [CHR 0x22] @ s @ [CHR 0x22]"

fun join_with :: "string \<Rightarrow> string list \<Rightarrow> string" where
  "join_with sep [] = []"
| "join_with sep [x] = x"
| "join_with sep (x # xs) = x @ sep @ join_with sep xs"

fun build_topic_registry_from :: "(string, TopicDef) hmap \<Rightarrow> TopicDef list \<Rightarrow> EmulatorError + (string, TopicDef) hmap" where
  "build_topic_registry_from registry [] = Ok registry"
| "build_topic_registry_from registry (topic # topics) =
     (if hm_get registry (td_name topic) \<noteq> None then Err (Validation (''duplicate topic name: '' @ quoted (td_name topic)))
      else build_topic_registry_from (hm_insert (td_name topic) topic registry) topics)"

definition build_topic_registry :: "TopicDef list \<Rightarrow> EmulatorError + (string, TopicDef) hmap" where
  "build_topic_registry topics = build_topic_registry_from [] topics"

fun unique_names_from :: "string set \<Rightarrow> 'f ComponentDef list \<Rightarrow> EmulatorError + unit" where
  "unique_names_from seen [] = Ok ()"
| "unique_names_from seen (cmp # comps) =
     (if cd_name cmp \<in> seen then Err (Validation (''duplicate component name: '' @ quoted (cd_name cmp)))
      else unique_names_from (insert (cd_name cmp) seen) comps)"

definition validate_unique_names :: "'f ComponentDef list \<Rightarrow> EmulatorError + unit" where
  "validate_unique_names components = unique_names_from {} components"

fun kind_debug :: "ComponentKind \<Rightarrow> string" where
  "kind_debug Producer = ''Producer''"
| "kind_debug Consumer = ''Consumer''"
| "kind_debug Processor = ''Processor''"
| "kind_debug StorageAgent = ''StorageAgent''"
| "kind_debug Agent = ''Agent''"
| "kind_debug Orchestrator = ''Orchestrator''"

definition known_topic :: "string \<Rightarrow> string \<Rightarrow> (string, TopicDef) hmap \<Rightarrow> string \<Rightarrow> EmulatorError + unit" where
  "known_topic what name registry topic =
     (if hm_get registry topic \<noteq> None then Ok ()
      else Err (Validation (what @ '' '' @ quoted name @ '' references unknown topic '' @ quoted topic @ [CHR 0x0A]
        @ ''Available topics: '' @ join_with '', '' (map fst registry))))"

definition required_topic :: "string \<Rightarrow> string \<Rightarrow> string \<Rightarrow> string option \<Rightarrow> EmulatorError + string" where
  "required_topic what name field topic =
     (case topic of Some t \<Rightarrow> Ok t
      | None \<Rightarrow> Err (Validation (what @ '' '' @ quoted name @ '' missing required field '' @ quoted field)))"

definition topic_reference :: "(string, TopicDef) hmap \<Rightarrow> 'f ComponentDef \<Rightarrow> EmulatorError + unit" where
  "topic_reference registry cmp =
     (case cd_kind cmp of
        Orchestrator \<Rightarrow> Ok ()
      | Processor \<Rightarrow>
          rbind (required_topic ''processor'' (cd_name cmp) ''input_topic'' (cd_input_topic cmp)) (\<lambda>i.
          rbind (known_topic ''component'' (cd_name cmp) registry i) (\<lambda>_.
          rbind (required_topic ''processor'' (cd_name cmp) ''output_topic'' (cd_output_topic cmp)) (\<lambda>out.
          known_topic ''component'' (cd_name cmp) registry out)))
      | Agent \<Rightarrow>
          if cd_managed_topics cmp = [] \<and> cd_auto_discover_topics cmp \<noteq> Some True
          then Err (Validation (''agent '' @ quoted (cd_name cmp) @ '' must have at least one topic in '' @ quoted ''topics''
            @ '' or enable '' @ quoted ''auto_discover_topics''))
          else each_ok (known_topic ''agent'' (cd_name cmp) registry) (cd_managed_topics cmp)
      | kind \<Rightarrow>
          rbind (required_topic (kind_debug kind) (cd_name cmp) ''topic'' (cd_topic cmp)) (known_topic ''component'' (cd_name cmp) registry))"

definition validate_topic_references :: "'f ComponentDef list \<Rightarrow> (string, TopicDef) hmap \<Rightarrow> EmulatorError + unit" where
  "validate_topic_references components registry = each_ok (topic_reference registry) components"

section \<open>Cycles\<close>

text \<open>
  The edges are grouped by their source; a node is added once.  The work list of the source is a vector
  used at its end; here its end is the head of the list.  A missing node (\<^verbatim>\<open>expect\<close>) and a decrement of
  zero panic: no result.
\<close>

definition add_edge :: "string \<Rightarrow> string \<Rightarrow> (string, string list) hmap \<Rightarrow> (string, string list) hmap" where
  "add_edge i out edges = hm_insert i ((case hm_get edges i of Some ts \<Rightarrow> ts | None \<Rightarrow> []) @ [out]) edges"

fun pipeline_graph :: "'f ComponentDef list \<Rightarrow> (string, string list) hmap \<times> string list \<Rightarrow> (string, string list) hmap \<times> string list" where
  "pipeline_graph [] g = g"
| "pipeline_graph (cmp # comps) (edges, nodes) =
     pipeline_graph comps
       (case (cd_kind cmp, cd_input_topic cmp, cd_output_topic cmp) of
          (Processor, Some i, Some out) \<Rightarrow> (add_edge i out edges, List.insert out (List.insert i nodes))
        | _ \<Rightarrow> (edges, nodes))"

definition count_degree :: "string \<Rightarrow> (string, nat) hmap \<Rightarrow> (string, nat) hmap" where
  "count_degree t deg = hm_insert t ((case hm_get deg t of Some d \<Rightarrow> d | None \<Rightarrow> 0) + 1) deg"

definition in_degrees :: "(string, string list) hmap \<Rightarrow> string list \<Rightarrow> (string, nat) hmap" where
  "in_degrees edges nodes = fold (\<lambda>(_, targets). fold count_degree targets) edges (map (\<lambda>n. (n, 0)) nodes)"

fun relax_targets :: "string list \<Rightarrow> (string, nat) hmap \<Rightarrow> string list \<Rightarrow> ((string, nat) hmap \<times> string list) option" where
  "relax_targets [] deg queue = Some (deg, queue)"
| "relax_targets (t # ts) deg queue =
     (case hm_get deg t of
        Some (Suc d) \<Rightarrow> relax_targets ts (hm_insert t d deg) (if d = 0 then t # queue else queue)
      | _ \<Rightarrow> None)"

lemma sum_update: "hm_get m k = Some (Suc d) \<Longrightarrow> Suc (sum_list (map snd (hm_insert k d m))) = sum_list (map snd m)"
  by (induction m) (auto split: if_splits)

lemma relax_measure:
  "relax_targets ts deg queue = Some (deg', queue') \<Longrightarrow>
   2 * sum_list (map snd deg') + length queue' \<le> 2 * sum_list (map snd deg) + length queue"
proof (induction ts arbitrary: deg queue)
  case (Cons t ts)
  then obtain d where d: "hm_get deg t = Some (Suc d)" by (auto split: option.splits nat.splits)
  have "2 * sum_list (map snd deg') + length queue'
      \<le> 2 * sum_list (map snd (hm_insert t d deg)) + length (if d = 0 then t # queue else queue)"
    using Cons.IH Cons.prems d by simp
  then show ?case using sum_update[OF d] by (simp split: if_splits)
qed simp

function kahn_loop :: "(string, string list) hmap \<Rightarrow> (string, nat) hmap \<Rightarrow> string list \<Rightarrow> nat \<Rightarrow> ((string, nat) hmap \<times> nat) option" where
  "kahn_loop edges deg [] visited = Some (deg, visited)"
| "kahn_loop edges deg (node # queue) visited =
     (case relax_targets (case hm_get edges node of Some ts \<Rightarrow> ts | None \<Rightarrow> []) deg queue of
        None \<Rightarrow> None
      | Some (deg', queue') \<Rightarrow> kahn_loop edges deg' queue' (visited + 1))"
  by pat_completeness auto
termination
  by (relation "measure (\<lambda>(_, deg, queue, _). 2 * sum_list (map snd deg) + length queue)") (auto dest: relax_measure)

text \<open>The arrow of the message is the three bytes of its UTF-8 form.\<close>

definition validate_no_cycles :: "'f ComponentDef list \<Rightarrow> (EmulatorError + unit) option" where
  "validate_no_cycles components =
     (let (edges, nodes) = pipeline_graph components ([], []) in
      if nodes = [] then Some (Ok ())
      else let deg = in_degrees edges nodes in
        (case kahn_loop edges deg (rev (map fst (filter (\<lambda>(_, d). d = 0) deg))) 0 of
           None \<Rightarrow> None
         | Some (deg', visited) \<Rightarrow>
             if visited \<noteq> length nodes
             then Some (Err (Validation (''cycle detected in processor pipeline involving topics: ''
               @ join_with [CHR 0x20, CHR 0xE2, CHR 0x86, CHR 0x92, CHR 0x20] (map fst (filter (\<lambda>(_, d). 0 < d) deg')))))
             else Some (Ok ())))"

section \<open>Coverage and chaos\<close>

definition produced_topics :: "'f ComponentDef list \<Rightarrow> string set" where
  "produced_topics components = fold (\<lambda>cmp produced.
     case cd_kind cmp of
       Producer \<Rightarrow> (case cd_topic cmp of Some t \<Rightarrow> insert t produced | None \<Rightarrow> produced)
     | Processor \<Rightarrow> (case cd_output_topic cmp of Some t \<Rightarrow> insert t produced | None \<Rightarrow> produced)
     | _ \<Rightarrow> produced) components {}"

definition covered_source :: "string set \<Rightarrow> string \<Rightarrow> string \<Rightarrow> string option \<Rightarrow> EmulatorError + unit" where
  "covered_source produced what name topic =
     (case topic of
        Some t \<Rightarrow>
          if t \<notin> produced
          then Err (Validation (what @ '' '' @ quoted name @ '' subscribes to topic '' @ quoted t @ '' which has no producer or processor writing to it''))
          else Ok ()
      | None \<Rightarrow> Ok ())"

definition validate_source_coverage :: "'f ComponentDef list \<Rightarrow> EmulatorError + unit" where
  "validate_source_coverage components =
     each_ok (\<lambda>cmp. case cd_kind cmp of
         Consumer \<Rightarrow> covered_source (produced_topics components) ''consumer'' (cd_name cmp) (cd_topic cmp)
       | Processor \<Rightarrow> covered_source (produced_topics components) ''processor'' (cd_name cmp) (cd_input_topic cmp)
       | _ \<Rightarrow> Ok ()) components"

definition stored_topics :: "'f ComponentDef list \<Rightarrow> string set" where
  "stored_topics components =
     set (List.map_filter cd_topic (filter (\<lambda>c. cd_kind c = StorageAgent) components))
     \<union> set (concat (map cd_managed_topics (filter (\<lambda>c. cd_kind c = Agent) components)))"

definition check_storage_coverage :: "'f ComponentDef list \<Rightarrow> TopicDef list \<Rightarrow> string list" where
  "check_storage_coverage components topics =
     map (\<lambda>topic. ''topic '' @ quoted (td_name topic) @ '' has no storage_agent '' @ [CHR 0xE2, CHR 0x80, CHR 0x94]
         @ '' events will not be persisted'')
       (filter (\<lambda>topic. td_name topic \<notin> stored_topics components) topics)"

record 'f float_ops =
  fl_zero :: 'f
  fl_add :: "'f \<Rightarrow> 'f \<Rightarrow> 'f"
  fl_less :: "'f \<Rightarrow> 'f \<Rightarrow> bool"
  fl_le :: "'f \<Rightarrow> 'f \<Rightarrow> bool"
  fl_is_finite :: "'f \<Rightarrow> bool"

definition VALID_ACTION_NAMES :: "string list" where
  "VALID_ACTION_NAMES = [''kill'', ''pause'', ''restart'', ''slow'', ''network_partition'', ''kill_random'']"

definition in_order :: "string \<Rightarrow> string \<Rightarrow> ('a::linorder \<times> 'a) option \<Rightarrow> EmulatorError + unit" where
  "in_order name field rng =
     (case rng of
        Some (lo, hi) \<Rightarrow>
          if hi < lo then Err (Validation (''chaos.random.actions['' @ quoted name @ ''].'' @ field @ '': min must be <= max'')) else Ok ()
      | None \<Rightarrow> Ok ())"

definition validate_random_action :: "'f float_ops \<Rightarrow> string \<times> 'f RandomActionConfig \<Rightarrow> EmulatorError + unit" where
  "validate_random_action fl na =
     (let name = fst na; action = snd na in
      if name \<notin> set VALID_ACTION_NAMES
      then Err (Validation (''chaos.random.actions['' @ quoted name @ '']: unknown action type '' @ quoted name))
      else if \<not> fl_is_finite fl (ra_probability action) \<or> fl_less fl (ra_probability action) (fl_zero fl)
      then Err (Validation (''chaos.random.actions['' @ quoted name @ '']: probability must be finite and >= 0''))
      else if ra_pool action = []
      then Err (Validation (''chaos.random.actions['' @ quoted name @ '']: pool must not be empty for action type '' @ quoted name))
      else rbind (in_order name ''restart_after'' (ra_restart_after action)) (\<lambda>_.
           rbind (in_order name ''delay_ms'' (ra_delay_ms action)) (\<lambda>_.
           rbind (in_order name ''heal_after'' (ra_heal_after action)) (\<lambda>_.
           in_order name ''pause_duration'' (ra_pause_duration action)))))"

definition validate_random_chaos :: "'f float_ops \<Rightarrow> 'f RandomChaosConfig \<Rightarrow> EmulatorError + unit" where
  "validate_random_chaos fl random =
     (if \<not> fl_is_finite fl (rc_fault_rate random) \<or> fl_le fl (rc_fault_rate random) (fl_zero fl)
      then Err (Validation ''chaos.random.fault_rate must be finite and > 0'')
      else if rc_duration random = 0 then Err (Validation ''chaos.random.duration must be > 0'')
      else if rc_actions random = [] then Err (Validation ''chaos.random.actions must not be empty'')
      else let prob_sum = foldl (fl_add fl) (fl_zero fl) (map (ra_probability \<circ> snd) (rc_actions random)) in
        if \<not> fl_is_finite fl prob_sum \<or> fl_le fl prob_sum (fl_zero fl)
        then Err (Validation ''chaos.random.actions: probability values must sum to > 0'')
        else each_ok (validate_random_action fl) (rc_actions random))"

definition known_component :: "string \<Rightarrow> 'f ComponentDef list \<Rightarrow> string \<Rightarrow> EmulatorError + unit" where
  "known_component what components target =
     (if target \<in> cd_name ` set components then Ok ()
      else Err (Validation (what @ '' unknown component: '' @ quoted target)))"

definition validate_random_chaos_targets :: "'f RandomChaosConfig \<Rightarrow> 'f ComponentDef list \<Rightarrow> EmulatorError + unit" where
  "validate_random_chaos_targets random components =
     each_ok (\<lambda>(_, action). each_ok (known_component ''chaos.random.actions pool contains'' components) (ra_pool action)) (rc_actions random)"

definition validate_chaos_event :: "'f ComponentDef list \<Rightarrow> 'f ChaosEventDef \<Rightarrow> EmulatorError + unit" where
  "validate_chaos_event components event =
     (if ce_action event = NetworkPartition \<and> ce_partition_from event = []
      then Err (Validation ''chaos event action network_partition requires non-empty partition_from'')
      else rbind (case ce_target event of Some target \<Rightarrow> known_component ''chaos event targets'' components target | None \<Rightarrow> Ok ()) (\<lambda>_.
           each_ok (known_component ''chaos event pool contains'' components) (ce_pool event)))"

definition validate_chaos_targets :: "'f ChaosEventDef list \<Rightarrow> 'f ComponentDef list \<Rightarrow> EmulatorError + unit" where
  "validate_chaos_targets schedule components = each_ok (validate_chaos_event components) schedule"

text \<open>The whole validation; \<open>None\<close> is a panic in the search for cycles.\<close>

definition validate :: "'f float_ops \<Rightarrow> 'f TopologyConfig \<Rightarrow> (EmulatorError + string list) option" where
  "validate fl config =
     (if tc_components config = [] then Some (Err (Validation ''components list is empty''))
      else case build_topic_registry (tc_topics config) of
        Err e \<Rightarrow> Some (Err e)
      | Ok registry \<Rightarrow>
          (case rbind (validate_unique_names (tc_components config)) (\<lambda>_. validate_topic_references (tc_components config) registry) of
             Err e \<Rightarrow> Some (Err e)
           | Ok _ \<Rightarrow>
               (case validate_no_cycles (tc_components config) of
                  None \<Rightarrow> None
                | Some (Err e) \<Rightarrow> Some (Err e)
                | Some (Ok _) \<Rightarrow> Some (
                    rbind (validate_source_coverage (tc_components config)) (\<lambda>_.
                    rbind (if ch_enabled (tc_chaos config) then validate_chaos_targets (ch_schedule (tc_chaos config)) (tc_components config) else Ok ()) (\<lambda>_.
                    rbind (case ch_random (tc_chaos config) of
                             Some random \<Rightarrow> rbind (validate_random_chaos fl random) (\<lambda>_. validate_random_chaos_targets random (tc_components config))
                           | None \<Rightarrow> Ok ()) (\<lambda>_.
                    Ok (check_storage_coverage (tc_components config) (tc_topics config))))))))) "

text \<open>The effective configuration of a component: its own field, then the topic, then the defaults.\<close>

record ResolvedComponentConfig =
  rs_key_prefix :: string
  rs_codec :: CodecConfig
  rs_num_partitions :: u32
  rs_replication_factor :: u32
  rs_cache_size :: nat
  rs_heartbeat_ms :: u64

definition resolve_component_config :: "'f ComponentDef \<Rightarrow> TopicDef option \<Rightarrow> DefaultsConfig \<Rightarrow> ResolvedComponentConfig" where
  "resolve_component_config cmp topic defaults =
     \<lparr>rs_key_prefix = (case topic of Some t \<Rightarrow> td_key_prefix t | None \<Rightarrow> []),
      rs_codec = (case cd_codec cmp of Some c \<Rightarrow> c
        | None \<Rightarrow> (case Option.bind topic td_codec of Some c \<Rightarrow> c | None \<Rightarrow> df_codec defaults)),
      rs_num_partitions = (case topic of Some t \<Rightarrow> td_num_partitions t | None \<Rightarrow> 16),
      rs_replication_factor = (case topic of Some t \<Rightarrow> td_replication_factor t | None \<Rightarrow> 1),
      rs_cache_size = (case cd_cache_size cmp of Some n \<Rightarrow> n | None \<Rightarrow> df_cache_size defaults),
      rs_heartbeat_ms = (case cd_heartbeat_ms cmp of Some n \<Rightarrow> n | None \<Rightarrow> df_heartbeat_ms defaults)\<rparr>"

section \<open>Kahn's algorithm finds exactly the cycles\<close>

abbreviation targets_of :: "(string, string list) hmap \<Rightarrow> string \<Rightarrow> string list" where
  "targets_of edges u \<equiv> (case hm_get edges u of Some ts \<Rightarrow> ts | None \<Rightarrow> [])"

definition edge_list :: "(string, string list) hmap \<Rightarrow> (string \<times> string) list" where
  "edge_list edges = concat (map (\<lambda>(u, ts). map (Pair u) ts) edges)"

text \<open>The edges into a node whose source has not been visited.\<close>

definition waiting :: "(string, string list) hmap \<Rightarrow> string set \<Rightarrow> string \<Rightarrow> nat" where
  "waiting edges D v = length (filter (\<lambda>(u, w). w = v \<and> u \<notin> D) (edge_list edges))"

lemma edge_list_simps [simp]: "edge_list [] = []" "edge_list ((u, ts) # edges) = map (Pair u) ts @ edge_list edges"
  by (simp_all add: edge_list_def)

lemma edge_list_iff: "hm_wf edges \<Longrightarrow> (u, v) \<in> set (edge_list edges) \<longleftrightarrow> v \<in> set (targets_of edges u)"
proof (induction edges)
  case (Cons e edges)
  obtain a ts where e: "e = (a, ts)" by (cases e)
  have "a = u \<Longrightarrow> hm_get edges u = None" using Cons.prems by (auto simp: e map_of_eq_None_iff)
  then show ?case using Cons by (auto simp: e)
qed simp

lemma waiting_simps [simp]: "waiting [] D v = 0"
  "waiting ((u, ts) # edges) D v = (if u \<in> D then 0 else count_list ts v) + waiting edges D v"
proof -
  have "length (filter (\<lambda>(a, w). w = v \<and> a \<notin> D) (map (Pair u) ts)) = (if u \<in> D then 0 else count_list ts v)"
    by (induction ts) auto
  then show "waiting ((u, ts) # edges) D v = (if u \<in> D then 0 else count_list ts v) + waiting edges D v"
    by (simp add: waiting_def)
qed (simp add: waiting_def)

lemma waiting_cong: "(\<And>u. u \<in> fst ` set edges \<Longrightarrow> u \<in> D \<longleftrightarrow> u \<in> D') \<Longrightarrow> waiting edges D v = waiting edges D' v"
  by (induction edges) auto

lemma waiting_insert:
  "hm_wf edges \<Longrightarrow> x \<notin> D \<Longrightarrow> waiting edges D v = count_list (targets_of edges x) v + waiting edges (insert x D) v"
proof (induction edges)
  case (Cons e edges)
  obtain u ts where e: "e = (u, ts)" by (cases e)
  show ?case
  proof (cases "u = x")
    case True
    then have "waiting edges D v = waiting edges (insert x D) v" using Cons.prems by (intro waiting_cong) (auto simp: e)
    then show ?thesis using True Cons.prems(2) by (simp add: e)
  next
    case False
    have ih: "waiting edges D v = count_list (targets_of edges x) v + waiting edges (insert x D) v"
      by (rule Cons.IH) (use Cons.prems in \<open>auto simp: e\<close>)
    have ts: "targets_of (e # edges) x = targets_of edges x" using False by (simp add: e)
    have w: "waiting (e # edges) D' v = (if u \<in> D' then 0 else count_list ts v) + waiting edges D' v" for D'
      by (simp only: e waiting_simps)
    have same: "u \<in> insert x D \<longleftrightarrow> u \<in> D" using False by simp
    have "i + a = c + (i + b)" if "a = c + b" for i a b c :: nat using that by simp
    then show ?thesis unfolding ts w[of D] w[of "insert x D"] same using ih by blast
  qed
qed simp

lemma waiting_zero: "waiting edges D v = 0 \<longleftrightarrow> (\<forall>u. (u, v) \<in> set (edge_list edges) \<longrightarrow> u \<in> D)"
  by (auto simp: waiting_def filter_empty_conv)

lemma relax_targets_result:
  assumes "\<And>t. t \<in> set ts \<Longrightarrow> \<exists>d. hm_get deg t = Some d \<and> count_list ts t \<le> d"
  shows "\<exists>deg' queue'. relax_targets ts deg queue = Some (deg', queue')
    \<and> (\<forall>t. hm_get deg' t = map_option (\<lambda>d. d - count_list ts t) (hm_get deg t))
    \<and> set queue' = set queue \<union> {t \<in> set ts. hm_get deg t = Some (count_list ts t)}
    \<and> (distinct queue \<longrightarrow> (\<forall>t \<in> set queue. t \<in> set ts \<longrightarrow> hm_get deg t \<noteq> Some (count_list ts t)) \<longrightarrow> distinct queue')"
  using assms
proof (induction ts arbitrary: deg queue)
  case Nil
  then show ?case by (auto simp: option.map_id0[unfolded id_def, THEN fun_cong])
next
  case (Cons t ts)
  obtain d where d: "hm_get deg t = Some (Suc d)" "count_list ts t \<le> d"
    using Cons.prems[of t] Suc_le_D by fastforce
  let ?deg = "hm_insert t d deg" and ?queue = "if d = 0 then t # queue else queue"
  have "\<exists>d'. hm_get ?deg x = Some d' \<and> count_list ts x \<le> d'" if "x \<in> set ts" for x
    using Cons.prems[of x] that d by (auto split: if_splits)
  then obtain deg' queue' where r: "relax_targets ts ?deg ?queue = Some (deg', queue')"
    "\<forall>x. hm_get deg' x = map_option (\<lambda>d. d - count_list ts x) (hm_get ?deg x)"
    "set queue' = set ?queue \<union> {x \<in> set ts. hm_get ?deg x = Some (count_list ts x)}"
    "distinct ?queue \<longrightarrow> (\<forall>x \<in> set ?queue. x \<in> set ts \<longrightarrow> hm_get ?deg x \<noteq> Some (count_list ts x)) \<longrightarrow> distinct queue'"
    using Cons.IH[of ?deg ?queue] by blast
  have zero: "d = 0 \<Longrightarrow> t \<notin> set ts" using d(2) by (metis count_list_0_iff le_zero_eq)
  have "\<forall>x. hm_get deg' x = map_option (\<lambda>d. d - count_list (t # ts) x) (hm_get deg x)"
    using r(2) d by (auto simp: option.map_comp)
  moreover have "set queue' = set queue \<union> {x \<in> set (t # ts). hm_get deg x = Some (count_list (t # ts) x)}"
  proof (intro set_eqI)
    fix x
    show "x \<in> set queue' \<longleftrightarrow> x \<in> set queue \<union> {x \<in> set (t # ts). hm_get deg x = Some (count_list (t # ts) x)}"
    proof (cases "x = t")
      case True
      have "d = count_list ts t \<longleftrightarrow> d = 0 \<or> t \<in> set ts \<and> d = count_list ts t" using d(2) by (metis count_list_0_iff le_zero_eq)
      then show ?thesis using r(3) d(1) True zero by auto
    qed (use r(3) in auto)
  qed
  moreover have "distinct queue'" if "distinct queue" "\<forall>x \<in> set queue. x \<in> set (t # ts) \<longrightarrow> hm_get deg x \<noteq> Some (count_list (t # ts) x)"
  proof -
    have "distinct ?queue" using that d zero by (auto simp: count_notin)
    moreover have "\<forall>x \<in> set ?queue. x \<in> set ts \<longrightarrow> hm_get ?deg x \<noteq> Some (count_list ts x)"
      using that d zero by (auto split: if_splits)
    ultimately show ?thesis using r(4) by blast
  qed
  ultimately show ?case using r(1) d(1) by auto
qed

text \<open>
  The state of the loop after visiting \<open>D\<close>: degrees count the edges from unvisited nodes, the queue holds
  the unvisited nodes without such edges, and visited nodes can be ranked along the edges.
\<close>

definition kahn_inv :: "(string, string list) hmap \<Rightarrow> string set \<Rightarrow> string set \<Rightarrow> (string, nat) hmap \<Rightarrow> string list \<Rightarrow> bool" where
  "kahn_inv edges V D deg queue \<longleftrightarrow> D \<subseteq> V \<and> distinct queue \<and> set queue \<subseteq> V \<and> set queue \<inter> D = {}
   \<and> (\<forall>v. hm_get deg v = (if v \<in> V then Some (waiting edges D v) else None))
   \<and> (\<forall>v \<in> V. waiting edges D v = 0 \<longleftrightarrow> v \<in> D \<union> set queue)
   \<and> (\<exists>r :: string \<Rightarrow> nat. \<forall>u v. (u, v) \<in> set (edge_list edges) \<longrightarrow> v \<in> D \<longrightarrow> u \<in> D \<and> r u < r v)"

lemma kahn_step:
  assumes inv: "kahn_inv edges V D deg (x # queue)" and wf: "hm_wf edges" and fin: "finite V"
    and inside: "\<And>u v. (u, v) \<in> set (edge_list edges) \<Longrightarrow> v \<in> V"
  obtains deg' queue' where "relax_targets (targets_of edges x) deg queue = Some (deg', queue')"
    and "kahn_inv edges V (insert x D) deg' queue'"
proof -
  define ts where "ts = targets_of edges x"
  have x: "x \<in> V" "x \<notin> D" "x \<notin> set queue" "waiting edges D x = 0" using inv by (auto simp: kahn_inv_def)
  have deg: "hm_get deg v = (if v \<in> V then Some (waiting edges D v) else None)" for v using inv by (simp add: kahn_inv_def)
  have w: "waiting edges D v = count_list ts v + waiting edges (insert x D) v" for v unfolding ts_def by (rule waiting_insert[OF wf x(2)])
  have tsV: "t \<in> V" if "t \<in> set ts" for t using inside edge_list_iff[OF wf] that unfolding ts_def by blast
  have zero: "waiting edges D v = 0 \<longleftrightarrow> v \<in> D \<or> v = x \<or> v \<in> set queue" if "v \<in> V" for v
    using inv that by (auto simp: kahn_inv_def)
  have pre: "\<exists>d. hm_get deg t = Some d \<and> count_list ts t \<le> d" if "t \<in> set ts" for t
    using deg[of t] tsV[OF that] w[of t] by simp
  obtain deg' queue' where r: "relax_targets ts deg queue = Some (deg', queue')"
    "\<forall>t. hm_get deg' t = map_option (\<lambda>d. d - count_list ts t) (hm_get deg t)"
    "set queue' = set queue \<union> {t \<in> set ts. hm_get deg t = Some (count_list ts t)}"
    "distinct queue \<longrightarrow> (\<forall>t \<in> set queue. t \<in> set ts \<longrightarrow> hm_get deg t \<noteq> Some (count_list ts t)) \<longrightarrow> distinct queue'"
    using relax_targets_result[OF pre, of queue] by blast
  have pos: "0 < waiting edges D t" if "t \<in> set ts" for t using w[of t] count_list_0_iff[of ts t] that by (metis add_is_0 gr0I)
  have new: "set queue' = set queue \<union> {t \<in> set ts. waiting edges (insert x D) t = 0}"
    using r(3) deg w tsV by (auto split: if_splits)
  have ready: "waiting edges (insert x D) v = 0 \<longleftrightarrow> v \<in> insert x D \<union> set queue'" if "v \<in> V" for v
    using zero[OF that] w[of v] pos[of v] count_list_0_iff[of ts v] unfolding new by auto
  have qV: "distinct queue" "set queue \<subseteq> V" "set queue \<inter> D = {}" using inv by (auto simp: kahn_inv_def)
  have fresh: "t \<notin> insert x D \<union> set queue" if "t \<in> set ts" for t using zero[OF tsV[OF that]] pos[OF that] by simp
  have "distinct queue'" using r(4) qV(1) fresh by blast
  moreover have "set queue' \<subseteq> V" using new qV(2) tsV by blast
  moreover have "set queue' \<inter> insert x D = {}" using new qV(3) x(3) fresh by blast
  moreover have "\<exists>r :: string \<Rightarrow> nat. \<forall>u v. (u, v) \<in> set (edge_list edges) \<longrightarrow> v \<in> insert x D \<longrightarrow> u \<in> insert x D \<and> r u < r v"
  proof -
    obtain r :: "string \<Rightarrow> nat" where rank: "\<And>u v. (u, v) \<in> set (edge_list edges) \<Longrightarrow> v \<in> D \<Longrightarrow> u \<in> D \<and> r u < r v"
      using inv by (auto simp: kahn_inv_def)
    have "finite D" using inv fin finite_subset by (auto simp: kahn_inv_def)
    then have "\<exists>m. \<forall>u \<in> D. r u < m" using finite_nat_set_iff_bounded[of "r ` D"] by auto
    then obtain m where m: "\<forall>u \<in> D. r u < m" by blast
    have "u \<in> D" if "(u, x) \<in> set (edge_list edges)" for u using x(4) that by (simp add: waiting_zero)
    then have "\<forall>u v. (u, v) \<in> set (edge_list edges) \<longrightarrow> v \<in> insert x D \<longrightarrow> u \<in> insert x D \<and> (r(x := m)) u < (r(x := m)) v"
      using rank m x(2) by fastforce
    then show ?thesis by blast
  qed
  moreover have "hm_get deg' v = (if v \<in> V then Some (waiting edges (insert x D) v) else None)" for v
    using r(2) deg w by simp
  ultimately have "kahn_inv edges V (insert x D) deg' queue'" using inv x(1) ready by (simp add: kahn_inv_def)
  then show thesis using that r(1) by (simp add: ts_def)
qed

lemma kahn_loop_result:
  assumes "kahn_inv edges V D deg queue" and wf: "hm_wf edges" and fin: "finite V"
    and inside: "\<And>u v. (u, v) \<in> set (edge_list edges) \<Longrightarrow> v \<in> V"
  shows "\<exists>deg' D'. kahn_loop edges deg queue (card D) = Some (deg', card D') \<and> kahn_inv edges V D' deg' []"
  using assms(1)
proof (induction "card (V - D)" arbitrary: D deg queue rule: less_induct)
  case less
  show ?case
  proof (cases queue)
    case Nil
    then show ?thesis using less.prems by auto
  next
    case (Cons x q)
    obtain deg' q' where step: "relax_targets (targets_of edges x) deg q = Some (deg', q')" "kahn_inv edges V (insert x D) deg' q'"
      using kahn_step[of edges V D deg x q] less.prems Cons wf fin inside by blast
    have x: "x \<in> V" "x \<notin> D" "D \<subseteq> V" using less.prems Cons by (auto simp: kahn_inv_def)
    have "card (V - insert x D) < card (V - D)" using x fin by (intro psubset_card_mono) auto
    moreover have "card (insert x D) = card D + 1" using x finite_subset[OF x(3) fin] by simp
    ultimately show ?thesis using less.hyps[OF _ step(2)] step(1) Cons by auto
  qed
qed

text \<open>At the end of the loop all nodes are visited exactly if the edges have no cycle.\<close>

lemma kahn_end:
  assumes inv: "kahn_inv edges V D deg []" and fin: "finite V"
    and inside: "\<And>u v. (u, v) \<in> set (edge_list edges) \<Longrightarrow> u \<in> V \<and> v \<in> V"
  shows "card D = card V \<longleftrightarrow> acyclic (set (edge_list edges))"
proof
  assume "card D = card V"
  then have all: "D = V" using inv fin card_subset_eq by (auto simp: kahn_inv_def)
  obtain r :: "string \<Rightarrow> nat" where "\<And>u v. (u, v) \<in> set (edge_list edges) \<Longrightarrow> v \<in> D \<Longrightarrow> r u < r v"
    using inv unfolding kahn_inv_def by metis
  then have "set (edge_list edges) \<subseteq> measure r" using inside all by auto
  then show "acyclic (set (edge_list edges))" using acyclic_subset wf_acyclic wf_measure by blast
next
  assume "acyclic (set (edge_list edges))"
  then have wf: "wf (set (edge_list edges))" by (simp add: finite_acyclic_wf)
  have "V - D = {}"
  proof (rule ccontr)
    assume "V - D \<noteq> {}"
    then obtain v where v: "v \<in> V - D" "\<forall>u. (u, v) \<in> set (edge_list edges) \<longrightarrow> u \<notin> V - D"
      using wf by (metis ex_in_conv wf_eq_minimal)
    then have "waiting edges D v = 0" using inside by (auto simp: waiting_zero)
    then show False using inv v(1) by (auto simp: kahn_inv_def)
  qed
  then have "D = V" using inv by (auto simp: kahn_inv_def)
  then show "card D = card V" by simp
qed

section \<open>The graph of a topology\<close>

definition pipeline_edges :: "'f ComponentDef list \<Rightarrow> (string \<times> string) set" where
  "pipeline_edges cs = {(i, out). \<exists>c \<in> set cs. cd_kind c = Processor \<and> cd_input_topic c = Some i \<and> cd_output_topic c = Some out}"

definition graph_ok :: "(string, string list) hmap \<times> string list \<Rightarrow> bool" where
  "graph_ok g \<longleftrightarrow> hm_wf (fst g) \<and> distinct (snd g)
     \<and> set (snd g) = fst ` set (edge_list (fst g)) \<union> snd ` set (edge_list (fst g))"

lemma add_edge_set: "hm_wf edges \<Longrightarrow> hm_wf (add_edge i out edges) \<and> set (edge_list (add_edge i out edges)) = insert (i, out) (set (edge_list edges))"
proof -
  assume wf: "hm_wf edges"
  then have wf': "hm_wf (add_edge i out edges)" by (simp add: add_edge_def)
  have "(u, v) \<in> set (edge_list (add_edge i out edges)) \<longleftrightarrow> (u, v) \<in> insert (i, out) (set (edge_list edges))" for u v
    unfolding edge_list_iff[OF wf'] insert_iff edge_list_iff[OF wf] by (auto simp: add_edge_def)
  then show ?thesis using wf' by auto
qed

lemma pipeline_graph_ok:
  "graph_ok g \<Longrightarrow> graph_ok (pipeline_graph cs g) \<and> set (edge_list (fst (pipeline_graph cs g))) = set (edge_list (fst g)) \<union> pipeline_edges cs"
proof (induction cs g rule: pipeline_graph.induct)
  case (2 c cs edges nodes)
  let ?g = "case (cd_kind c, cd_input_topic c, cd_output_topic c) of
          (Processor, Some i, Some out) \<Rightarrow> (add_edge i out edges, List.insert out (List.insert i nodes))
        | _ \<Rightarrow> (edges, nodes)"
  have "graph_ok ?g \<and> set (edge_list (fst ?g)) = set (edge_list edges) \<union> pipeline_edges [c]"
    using 2(2) add_edge_set[of edges] by (auto simp: graph_ok_def pipeline_edges_def split: ComponentKind.split option.split)
  moreover have "pipeline_edges (c # cs) = pipeline_edges [c] \<union> pipeline_edges cs" by (auto simp: pipeline_edges_def)
  ultimately show ?case using 2(1) by auto
qed (simp add: pipeline_edges_def)

lemma count_degree_fold:
  "v \<in> dom (hm_get deg) \<Longrightarrow> hm_get (fold count_degree ts deg) v = Some (the (hm_get deg v) + count_list ts v)"
  by (induction ts arbitrary: deg) (auto simp: count_degree_def dom_def split: option.splits)

lemma count_degree_other: "v \<notin> set ts \<Longrightarrow> hm_get (fold count_degree ts deg) v = hm_get deg v"
  by (induction ts arbitrary: deg) (auto simp: count_degree_def)

lemma in_degrees_fold:
  assumes "\<And>u ts t. (u, ts) \<in> set es \<Longrightarrow> t \<in> set ts \<Longrightarrow> t \<in> dom (hm_get deg)"
  shows "hm_get (fold (\<lambda>(_, targets). fold count_degree targets) es deg) v = map_option (\<lambda>d. d + waiting es {} v) (hm_get deg v)"
  using assms
proof (induction es arbitrary: deg)
  case Nil
  then show ?case by (cases "hm_get deg v") simp_all
next
  case (Cons e es)
  obtain u ts where e: "e = (u, ts)" by (cases e)
  have get: "hm_get (fold count_degree ts deg) w = map_option (\<lambda>d. d + count_list ts w) (hm_get deg w)" for w
    using count_degree_fold[of w deg ts] count_degree_other[of w ts deg] Cons.prems[of u ts w]
    by (cases "hm_get deg w") (auto simp: e dom_def)
  have "hm_get (fold (\<lambda>(_, targets). fold count_degree targets) es (fold count_degree ts deg)) v
      = map_option (\<lambda>d. d + waiting es {} v) (hm_get (fold count_degree ts deg) v)"
    by (rule Cons.IH) (use Cons.prems get in \<open>auto simp: dom_def\<close>)
  then show ?case by (simp add: e get option.map_comp comp_def add.assoc del: fold_simps(1))
qed

lemma in_degrees_wf: "hm_wf deg \<Longrightarrow> hm_wf (fold (\<lambda>(_, targets). fold count_degree targets) es deg)"
proof (induction es arbitrary: deg)
  case (Cons e es)
  have "hm_wf d \<Longrightarrow> hm_wf (fold count_degree ts d)" for ts d by (induction ts arbitrary: d) (simp_all add: count_degree_def)
  then show ?case using Cons by (cases e) simp
qed simp

lemma in_degrees_get:
  assumes "graph_ok (edges, nodes)"
  shows "hm_get (in_degrees edges nodes) v = (if v \<in> set nodes then Some (waiting edges {} v) else None)"
proof -
  have init: "hm_get (map (\<lambda>n. (n, 0)) nodes) w = (if w \<in> set nodes then Some (0::nat) else None)" for w
    by (induction nodes) auto
  have "t \<in> set nodes" if "(u, ts) \<in> set edges" "t \<in> set ts" for u ts t
    using assms that edge_list_iff[of edges u t] by (force simp: graph_ok_def)
  then show ?thesis unfolding in_degrees_def by (subst in_degrees_fold) (auto simp: init dom_def)
qed

lemma zero_keys:
  assumes "hm_wf m"
  shows "distinct (map fst (filter (\<lambda>(_, d). d = 0) m))" "set (map fst (filter (\<lambda>(_, d). d = 0) m)) = {v. hm_get m v = Some 0}"
  using assms by (auto simp: distinct_map_filter image_iff)

lemma validate_no_cycles_result:
  "if acyclic (pipeline_edges cs) then validate_no_cycles cs = Some (Ok ()) else \<exists>msg. validate_no_cycles cs = Some (Err (Validation msg))"
proof -
  obtain edges nodes where g: "pipeline_graph cs ([], []) = (edges, nodes)" by (cases "pipeline_graph cs ([], [])")
  have ok: "graph_ok (edges, nodes)" and es: "set (edge_list edges) = pipeline_edges cs"
    using pipeline_graph_ok[of "([], [])" cs] by (simp_all add: g graph_ok_def)
  have wf: "hm_wf edges" and nodes: "distinct nodes" and inside: "\<And>u v. (u, v) \<in> set (edge_list edges) \<Longrightarrow> u \<in> set nodes \<and> v \<in> set nodes"
    using ok by (force simp: graph_ok_def)+
  let ?deg = "in_degrees edges nodes"
  let ?queue = "rev (map fst (filter (\<lambda>(_, d). d = 0) ?deg))"
  note deg = in_degrees_get[OF ok]
  have "hm_wf ?deg" unfolding in_degrees_def by (rule in_degrees_wf) (use nodes in \<open>simp add: comp_def\<close>)
  then have queue: "distinct ?queue" "set ?queue = {v \<in> set nodes. waiting edges {} v = 0}"
    using zero_keys[of ?deg] deg by (auto split: if_splits)
  then have "kahn_inv edges (set nodes) {} ?deg ?queue" using deg by (auto simp: kahn_inv_def)
  then obtain deg' D where run: "kahn_loop edges ?deg ?queue 0 = Some (deg', card D)" "kahn_inv edges (set nodes) D deg' []"
    using kahn_loop_result[OF _ wf, of "set nodes" "{}" ?deg ?queue] inside unfolding card.empty by blast
  have "card D = length nodes \<longleftrightarrow> acyclic (pipeline_edges cs)"
    using kahn_end[OF run(2) _ inside] nodes by (simp add: es distinct_card)
  moreover have "pipeline_edges cs = {}" if "nodes = []" using ok es that by (simp add: graph_ok_def)
  ultimately show ?thesis using run(1) by (auto simp: validate_no_cycles_def g Let_def acyclic_def)
qed

section \<open>Accepted topologies\<close>

text \<open>What a valid topology is, without the order of the checks and their messages.\<close>

definition references_ok :: "string set \<Rightarrow> 'f ComponentDef \<Rightarrow> bool" where
  "references_ok names c \<longleftrightarrow>
     (case cd_kind c of
        Orchestrator \<Rightarrow> True
      | Processor \<Rightarrow> (\<exists>i out. cd_input_topic c = Some i \<and> cd_output_topic c = Some out \<and> {i, out} \<subseteq> names)
      | Agent \<Rightarrow> (cd_managed_topics c \<noteq> [] \<or> cd_auto_discover_topics c = Some True) \<and> set (cd_managed_topics c) \<subseteq> names
      | _ \<Rightarrow> (\<exists>t. cd_topic c = Some t \<and> t \<in> names))"

definition consumes :: "'f ComponentDef \<Rightarrow> string \<Rightarrow> bool" where
  "consumes c t \<longleftrightarrow> (cd_kind c = Consumer \<and> cd_topic c = Some t) \<or> (cd_kind c = Processor \<and> cd_input_topic c = Some t)"

definition produces :: "'f ComponentDef \<Rightarrow> string \<Rightarrow> bool" where
  "produces c t \<longleftrightarrow> (cd_kind c = Producer \<and> cd_topic c = Some t) \<or> (cd_kind c = Processor \<and> cd_output_topic c = Some t)"

definition keeps :: "'f ComponentDef \<Rightarrow> string \<Rightarrow> bool" where
  "keeps c t \<longleftrightarrow> (cd_kind c = StorageAgent \<and> cd_topic c = Some t) \<or> (cd_kind c = Agent \<and> t \<in> set (cd_managed_topics c))"

definition chaos_event_ok :: "string set \<Rightarrow> 'f ChaosEventDef \<Rightarrow> bool" where
  "chaos_event_ok names ev \<longleftrightarrow> (ce_action ev = NetworkPartition \<longrightarrow> ce_partition_from ev \<noteq> [])
     \<and> set_option (ce_target ev) \<subseteq> names \<and> set (ce_pool ev) \<subseteq> names"

definition range_ok :: "('a::linorder \<times> 'a) option \<Rightarrow> bool" where
  "range_ok r \<longleftrightarrow> (case r of Some (lo, hi) \<Rightarrow> lo \<le> hi | None \<Rightarrow> True)"

definition random_action_ok :: "'f float_ops \<Rightarrow> string set \<Rightarrow> string \<times> 'f RandomActionConfig \<Rightarrow> bool" where
  "random_action_ok fl names na \<longleftrightarrow> fst na \<in> set VALID_ACTION_NAMES
     \<and> fl_is_finite fl (ra_probability (snd na)) \<and> \<not> fl_less fl (ra_probability (snd na)) (fl_zero fl)
     \<and> ra_pool (snd na) \<noteq> [] \<and> set (ra_pool (snd na)) \<subseteq> names
     \<and> range_ok (ra_restart_after (snd na)) \<and> range_ok (ra_delay_ms (snd na)) \<and> range_ok (ra_heal_after (snd na)) \<and> range_ok (ra_pause_duration (snd na))"

definition random_chaos_ok :: "'f float_ops \<Rightarrow> string set \<Rightarrow> 'f RandomChaosConfig \<Rightarrow> bool" where
  "random_chaos_ok fl names random \<longleftrightarrow>
     fl_is_finite fl (rc_fault_rate random) \<and> \<not> fl_le fl (rc_fault_rate random) (fl_zero fl) \<and> rc_duration random \<noteq> 0 \<and> rc_actions random \<noteq> []
   \<and> (let total = foldl (fl_add fl) (fl_zero fl) (map (ra_probability \<circ> snd) (rc_actions random))
      in fl_is_finite fl total \<and> \<not> fl_le fl total (fl_zero fl))
   \<and> (\<forall>na \<in> set (rc_actions random). random_action_ok fl names na)"

definition topology_ok :: "'f float_ops \<Rightarrow> 'f TopologyConfig \<Rightarrow> bool" where
  "topology_ok fl config \<longleftrightarrow>
     (let cs = tc_components config; names = cd_name ` set cs in
      cs \<noteq> [] \<and> distinct (map td_name (tc_topics config)) \<and> distinct (map cd_name cs)
    \<and> (\<forall>c \<in> set cs. references_ok (td_name ` set (tc_topics config)) c)
    \<and> acyclic (pipeline_edges cs)
    \<and> (\<forall>c \<in> set cs. \<forall>t. consumes c t \<longrightarrow> (\<exists>d \<in> set cs. produces d t))
    \<and> (ch_enabled (tc_chaos config) \<longrightarrow> (\<forall>ev \<in> set (ch_schedule (tc_chaos config)). chaos_event_ok names ev))
    \<and> (\<forall>random. ch_random (tc_chaos config) = Some random \<longrightarrow> random_chaos_ok fl names random))"

lemma registry_result:
  "hm_wf reg \<Longrightarrow> case build_topic_registry_from reg ts of
     Ok reg' \<Rightarrow> distinct (map td_name ts) \<and> fst ` set reg \<inter> td_name ` set ts = {} \<and> fst ` set reg' = fst ` set reg \<union> td_name ` set ts
   | Err _ \<Rightarrow> \<not> (distinct (map td_name ts) \<and> fst ` set reg \<inter> td_name ` set ts = {})"
proof (induction ts arbitrary: reg)
  case (Cons t ts)
  have dom: "fst ` set (hm_insert (td_name t) t reg) = insert (td_name t) (fst ` set reg)" by (simp add: dom_update)
  show ?case
  proof (cases "hm_get reg (td_name t)")
    case None
    then show ?thesis using Cons.IH[of "hm_insert (td_name t) t reg"] Cons.prems
      by (auto simp: dom map_of_eq_None_iff split: sum.splits)
  next
    case (Some y)
    then show ?thesis by (force dest: map_of_SomeD)
  qed
qed simp

lemma unique_names_result: "unique_names_from seen cs = Ok () \<longleftrightarrow> distinct (map cd_name cs) \<and> seen \<inter> cd_name ` set cs = {}"
  by (induction cs arbitrary: seen) auto

lemma known_topic_ok [simp]: "known_topic what name reg t = Ok () \<longleftrightarrow> t \<in> fst ` set reg"
  by (auto simp: known_topic_def map_of_eq_None_iff)

lemma required_topic_ok [simp]: "required_topic what name field topic = Ok t \<longleftrightarrow> topic = Some t"
  by (auto simp: required_topic_def split: option.split)

lemma topic_reference_ok: "topic_reference reg c = Ok () \<longleftrightarrow> references_ok (fst ` set reg) c"
  by (cases "cd_kind c") (auto simp: topic_reference_def references_ok_def each_ok_iff)

lemma produced_topics_iff: "t \<in> produced_topics cs \<longleftrightarrow> (\<exists>c \<in> set cs. produces c t)"
proof -
  have "t \<in> fold (\<lambda>cmp produced.
     case cd_kind cmp of
       Producer \<Rightarrow> (case cd_topic cmp of Some t \<Rightarrow> insert t produced | None \<Rightarrow> produced)
     | Processor \<Rightarrow> (case cd_output_topic cmp of Some t \<Rightarrow> insert t produced | None \<Rightarrow> produced)
     | _ \<Rightarrow> produced) cs A \<longleftrightarrow> t \<in> A \<or> (\<exists>c \<in> set cs. produces c t)" for A
    by (induction cs arbitrary: A) (auto simp: produces_def split: ComponentKind.split option.split)
  then show ?thesis by (simp add: produced_topics_def)
qed

lemma source_coverage_ok:
  "validate_source_coverage cs = Ok () \<longleftrightarrow> (\<forall>c \<in> set cs. \<forall>t. consumes c t \<longrightarrow> (\<exists>d \<in> set cs. produces d t))"
  unfolding validate_source_coverage_def each_ok_iff
  by (intro ball_cong refl) (auto simp: covered_source_def consumes_def produced_topics_iff split: ComponentKind.split option.split)

lemma known_component_ok [simp]: "known_component what cs t = Ok () \<longleftrightarrow> t \<in> cd_name ` set cs"
  by (simp add: known_component_def)

lemma chaos_targets_ok: "validate_chaos_targets evs cs = Ok () \<longleftrightarrow> (\<forall>ev \<in> set evs. chaos_event_ok (cd_name ` set cs) ev)"
  unfolding validate_chaos_targets_def each_ok_iff
  by (intro ball_cong refl) (auto simp: validate_chaos_event_def chaos_event_ok_def each_ok_iff split: option.split)

lemma in_order_ok [simp]: "in_order name field r = Ok () \<longleftrightarrow> range_ok r"
  by (auto simp: in_order_def range_ok_def split: option.split)

lemma random_chaos_result:
  "rbind (validate_random_chaos fl random) (\<lambda>_. validate_random_chaos_targets random cs) = Ok () \<longleftrightarrow> random_chaos_ok fl (cd_name ` set cs) random"
proof -
  have "validate_random_action fl na = Ok () \<and> (case na of (_, a) \<Rightarrow> each_ok (known_component what cs) (ra_pool a)) = Ok ()
      \<longleftrightarrow> random_action_ok fl (cd_name ` set cs) na" for na what
    by (cases na) (auto simp: validate_random_action_def random_action_ok_def Let_def each_ok_iff)
  then have "(\<forall>na \<in> A. validate_random_action fl na = Ok ())
        \<and> (\<forall>na \<in> A. (case na of (_, a) \<Rightarrow> each_ok (known_component ''chaos.random.actions pool contains'' cs) (ra_pool a)) = Ok ())
      \<longleftrightarrow> (\<forall>na \<in> A. random_action_ok fl (cd_name ` set cs) na)" for A
    by blast
  then show ?thesis unfolding random_chaos_ok_def Let_def validate_random_chaos_def validate_random_chaos_targets_def
    by (simp add: each_ok_iff; blast)
qed

lemma stored_topics_iff: "t \<in> stored_topics cs \<longleftrightarrow> (\<exists>c \<in> set cs. keeps c t)"
  by (induction cs) (auto simp: stored_topics_def keeps_def List.map_filter_simps split: option.splits)

lemma storage_coverage_empty: "check_storage_coverage cs ts = [] \<longleftrightarrow> td_name ` set ts \<subseteq> {t. \<exists>c \<in> set cs. keeps c t}"
  by (auto simp: check_storage_coverage_def filter_empty_conv stored_topics_iff)

text \<open>
  C35. The validation of a topology accepts exactly the valid ones: at least one component, unique names,
  every referenced topic defined, no cycle in the graph of the processors (which Kahn's algorithm decides),
  a producer for everything that is consumed, and chaos settings that are consistent and name existing
  components.  It always returns, and it returns without a warning exactly if every topic is stored.
\<close>

theorem topology_accepted_iff:
  "validate fl config \<noteq> None
   \<and> ((\<exists>ws. validate fl config = Some (Ok ws)) \<longleftrightarrow> topology_ok fl config)
   \<and> (validate fl config = Some (Ok []) \<longleftrightarrow>
        topology_ok fl config \<and> td_name ` set (tc_topics config) \<subseteq> {t. \<exists>c \<in> set (tc_components config). keeps c t})"
proof -
  define cs where "cs = tc_components config"
  let ?checks = "rbind (validate_source_coverage cs) (\<lambda>_.
    rbind (if ch_enabled (tc_chaos config) then validate_chaos_targets (ch_schedule (tc_chaos config)) cs else Ok ()) (\<lambda>_.
    rbind (case ch_random (tc_chaos config) of
             Some random \<Rightarrow> rbind (validate_random_chaos fl random) (\<lambda>_. validate_random_chaos_targets random cs)
           | None \<Rightarrow> Ok ()) (\<lambda>_. Ok (check_storage_coverage cs (tc_topics config)))))"
  have checks: "?checks = Ok ws \<longleftrightarrow> (\<forall>c \<in> set cs. \<forall>t. consumes c t \<longrightarrow> (\<exists>d \<in> set cs. produces d t))
      \<and> (ch_enabled (tc_chaos config) \<longrightarrow> (\<forall>ev \<in> set (ch_schedule (tc_chaos config)). chaos_event_ok (cd_name ` set cs) ev))
      \<and> (\<forall>random. ch_random (tc_chaos config) = Some random \<longrightarrow> random_chaos_ok fl (cd_name ` set cs) random)
      \<and> ws = check_storage_coverage cs (tc_topics config)" for ws
    unfolding source_coverage_ok[symmetric] chaos_targets_ok[symmetric] random_chaos_result[symmetric]
    by (auto split: option.split)
  have "validate fl config \<noteq> None \<and> (validate fl config = Some (Ok ws) \<longleftrightarrow> topology_ok fl config \<and> ws = check_storage_coverage cs (tc_topics config))" for ws
  proof (cases "build_topic_registry (tc_topics config)")
    case (Inl e)
    then have "\<not> distinct (map td_name (tc_topics config))"
      using registry_result[of "[]" "tc_topics config"] by (simp add: build_topic_registry_def)
    then show ?thesis using Inl by (simp add: validate_def topology_ok_def Let_def)
  next
    case (Inr reg)
    then have reg: "distinct (map td_name (tc_topics config))" "fst ` set reg = td_name ` set (tc_topics config)"
      using registry_result[of "[]" "tc_topics config"] by (simp_all add: build_topic_registry_def)
    have names: "rbind (validate_unique_names cs) (\<lambda>_. validate_topic_references cs reg) = Ok ()
        \<longleftrightarrow> distinct (map cd_name cs) \<and> (\<forall>c \<in> set cs. references_ok (td_name ` set (tc_topics config)) c)"
      by (simp add: validate_unique_names_def unique_names_result validate_topic_references_def each_ok_iff topic_reference_ok reg(2))
    show ?thesis
    proof (cases "rbind (validate_unique_names cs) (\<lambda>_. validate_topic_references cs reg)")
      case (Inl e)
      then show ?thesis using names Inr unfolding cs_def by (auto simp: validate_def topology_ok_def Let_def)
    next
      case (Inr u)
      have "validate fl config = (if cs = [] then Some (Err (Validation ''components list is empty''))
          else case validate_no_cycles cs of None \<Rightarrow> None | Some (Err e) \<Rightarrow> Some (Err e) | Some (Ok _) \<Rightarrow> Some ?checks)"
        using Inr \<open>build_topic_registry (tc_topics config) = Ok reg\<close> unfolding cs_def by (simp add: validate_def)
      moreover have "topology_ok fl config \<longleftrightarrow> cs \<noteq> [] \<and> acyclic (pipeline_edges cs) \<and> ?checks = Ok (check_storage_coverage cs (tc_topics config))"
        using names Inr reg(1) unfolding checks by (auto simp: topology_ok_def Let_def cs_def)
      ultimately show ?thesis using validate_no_cycles_result[of cs] checks[of ws] by (auto split: if_splits)
    qed
  qed
  then show ?thesis using storage_coverage_empty[of cs "tc_topics config"] unfolding cs_def by auto
qed

end
