(* ===== verification/Chaos.thy ===== *)
theory Chaos
  imports Topology "HOL-Library.Multiset"
begin

text \<open>
  Fault injection of the emulator (\<^verbatim>\<open>mitiflow-emulator/src/chaos.rs\<close>): the generation of a random
  schedule from a seeded generator, and the scheduler that fires the events of a schedule.  What the random
  number generators return in one iteration is a record of draws; a run of the generation has a list of them.
  A draw from a range gets the range as its argument.
\<close>

section \<open>Random schedules\<close>

definition dur_saturating_add :: "Duration \<Rightarrow> Duration \<Rightarrow> Duration" where
  "dur_saturating_add a b = min DURATION_MAX (a + b)"

record param_draws =
  pd_restart :: "Duration \<Rightarrow> Duration \<Rightarrow> Duration"
  pd_delay :: "u64 \<Rightarrow> u64 \<Rightarrow> u64"
  pd_heal :: "Duration \<Rightarrow> Duration \<Rightarrow> Duration"
  pd_pause :: "Duration \<Rightarrow> Duration \<Rightarrow> Duration"

record draws =
  dw_dt :: Duration
  dw_action :: "nat \<Rightarrow> nat"
  dw_target :: "nat \<Rightarrow> nat"
  dw_params :: param_draws
  dw_params_again :: param_draws

definition action_of_name :: "string \<Rightarrow> ChaosAction option" where
  "action_of_name name =
     (if name = ''kill'' then Some Kill
      else if name = ''pause'' then Some Pause
      else if name = ''restart'' then Some Restart
      else if name = ''slow'' then Some Slow
      else if name = ''network_partition'' then Some NetworkPartition
      else if name = ''kill_random'' then Some Kill
      else None)"

definition random_actions :: "'f RandomChaosConfig \<Rightarrow> (ChaosAction \<times> 'f RandomActionConfig) list" where
  "random_actions config =
     List.map_filter (\<lambda>name. case (action_of_name name, hm_get (rc_actions config) name) of
         (Some a, Some cfg) \<Rightarrow> Some (a, cfg) | _ \<Rightarrow> None)
       (sort_key as_bytes (map fst (rc_actions config)))"

definition build_event_def :: "ChaosAction \<Rightarrow> Duration \<Rightarrow> string option \<Rightarrow> 'f RandomActionConfig \<Rightarrow> param_draws \<Rightarrow> 'f ChaosEventDef" where
  "build_event_def action t target config rng =
     \<lparr>ce_at = Some t, ce_every = None, ce_action = action, ce_target = target, ce_instance = None,
      ce_restart_after = map_option (\<lambda>(lo, hi). pd_restart rng lo hi) (ra_restart_after config),
      ce_duration = map_option (\<lambda>(lo, hi). pd_pause rng lo hi) (ra_pause_duration config),
      ce_delay_ms = map_option (\<lambda>(lo, hi). pd_delay rng lo hi) (ra_delay_ms config),
      ce_partition_from = (if action = NetworkPartition then filter (\<lambda>p. target \<noteq> Some p) (ra_pool config) else []),
      ce_heal_after = map_option (\<lambda>(lo, hi). pd_heal rng lo hi) (ra_heal_after config),
      ce_loss_percent = None, ce_bandwidth = None, ce_jitter_ms = None, ce_pool = ra_pool config\<rparr>"

definition fault_active_duration :: "'f ChaosEventDef \<Rightarrow> Duration" where
  "fault_active_duration event =
     (case ce_restart_after event of Some d \<Rightarrow> d
      | None \<Rightarrow> (case ce_duration event of Some d \<Rightarrow> d
      | None \<Rightarrow> (case ce_heal_after event of Some d \<Rightarrow> d | None \<Rightarrow> 0)))"

abbreviation event_at :: "'f ChaosEventDef \<Rightarrow> Duration" where
  "event_at e \<equiv> (case ce_at e of Some t \<Rightarrow> t | None \<Rightarrow> 0)"

text \<open>At least the minimum interval after the last event.\<close>

definition spaced_time :: "'f RandomChaosConfig \<Rightarrow> 'f ChaosEventDef list \<Rightarrow> Duration \<Rightarrow> Duration" where
  "spaced_time config events t =
     (if events = [] then t
      else let last_at = event_at (last events) in
        if t - last_at < rc_min_interval config then dur_saturating_add last_at (rc_min_interval config) else t)"

text \<open>The generation loop; without a result when the draws end before the loop does.\<close>

fun generate_loop ::
  "'f RandomChaosConfig \<Rightarrow> (ChaosAction \<times> 'f RandomActionConfig) list \<Rightarrow> draws list \<Rightarrow> Duration \<Rightarrow> 'f ChaosEventDef list \<Rightarrow> Duration list
    \<Rightarrow> 'f ChaosEventDef list option"
where
  "generate_loop config actions [] t events active_until = None"
| "generate_loop config actions (w # ws) t0 events active_until =
     (let t1 = dur_saturating_add t0 (dw_dt w) in
      if rc_duration config < t1 then Some events
      else let t = spaced_time config events t1 in
      if rc_duration config < t then Some events
      else let (action, ac) = actions ! dw_action w (length actions) in
      if action = NetworkPartition \<and> length (ra_pool ac) < 2 then generate_loop config actions ws t events active_until
      else let target = (if ra_pool ac \<noteq> [] then Some (ra_pool ac ! dw_target w (length (ra_pool ac))) else None);
               event = build_event_def action t target ac (dw_params w);
               active = filter (\<lambda>e. t < e) active_until in
      if rc_max_concurrent_faults config \<le> length active
      then (if active = [] then generate_loop config actions ws t events active
            else let earliest = Min (set active) in
              if rc_duration config < earliest then Some events
              else let event = build_event_def action earliest target ac (dw_params_again w) in
                generate_loop config actions ws earliest (events @ [event])
                  (filter (\<lambda>e. earliest < e) active @ [dur_saturating_add earliest (fault_active_duration event)]))
      else generate_loop config actions ws t (events @ [event]) (active @ [dur_saturating_add t (fault_active_duration event)]))"

text \<open>The outcomes of building the two distributions are arguments.\<close>

definition generate_random_events ::
  "'f RandomChaosConfig \<Rightarrow> ('f list \<Rightarrow> string + unit) \<Rightarrow> ('f \<Rightarrow> string + unit) \<Rightarrow> draws list \<Rightarrow> (EmulatorError + 'f ChaosEventDef list) option"
where
  "generate_random_events config weighted_index exp_new ws =
     (let actions = random_actions config in
      if actions = [] then Some (Err (ChaosErr ''no valid actions in random chaos config''))
      else case weighted_index (map (ra_probability \<circ> snd) actions) of
        Err e \<Rightarrow> Some (Err (ChaosErr (''invalid weights: '' @ e)))
      | Ok _ \<Rightarrow> (case exp_new (rc_fault_rate config) of
          Err e \<Rightarrow> Some (Err (ChaosErr (''invalid fault_rate: '' @ e)))
        | Ok _ \<Rightarrow> map_option Ok (generate_loop config actions ws 0 [] [])))"

section \<open>The scheduler\<close>

datatype ChaosEventSource = Fixed | Random

record 'f ScheduledEvent =
  sc_def :: "'f ChaosEventDef"
  sc_next_fire :: Duration
  sc_fired :: bool
  sc_source :: ChaosEventSource

definition first_fire :: "'f ChaosEventDef \<Rightarrow> Duration" where
  "first_fire def = (case ce_at def of Some t \<Rightarrow> t | None \<Rightarrow> (case ce_every def of Some t \<Rightarrow> t | None \<Rightarrow> 0))"

definition scheduler_new :: "'f ChaosEventDef list \<Rightarrow> 'f ScheduledEvent list" where
  "scheduler_new defs = map (\<lambda>def. \<lparr>sc_def = def, sc_next_fire = first_fire def, sc_fired = False, sc_source = Fixed\<rparr>) defs"

definition scheduler_new_unified :: "'f ChaosEventDef list \<Rightarrow> 'f ChaosEventDef list \<Rightarrow> 'f ScheduledEvent list" where
  "scheduler_new_unified fixed_schedule random_events =
     sort_key sc_next_fire
       (map (\<lambda>(i, def). \<lparr>sc_def = def, sc_next_fire = first_fire def, sc_fired = False,
            sc_source = (if i < length fixed_schedule then Fixed else Random)\<rparr>)
         (enumerate 0 (fixed_schedule @ random_events)))"

definition pending_event :: "'f ScheduledEvent \<Rightarrow> bool" where
  "pending_event e \<longleftrightarrow> \<not> (sc_fired e \<and> ce_every (sc_def e) = None)"

text \<open>\<^verbatim>\<open>min_by_key\<close> returns the first of several minimal elements.\<close>

fun next_event :: "nat \<Rightarrow> 'f ScheduledEvent list \<Rightarrow> (nat \<times> Duration) option" where
  "next_event i [] = None"
| "next_event i (e # es) =
     (case next_event (Suc i) es of
        None \<Rightarrow> if pending_event e then Some (i, sc_next_fire e) else None
      | Some (j, t) \<Rightarrow> if pending_event e \<and> sc_next_fire e \<le> t then Some (i, sc_next_fire e) else Some (j, t))"

definition mark_fired :: "'f ScheduledEvent \<Rightarrow> 'f ScheduledEvent" where
  "mark_fired e = e\<lparr>sc_fired := True, sc_next_fire := (case ce_every (sc_def e) of Some interval \<Rightarrow> sc_next_fire e + interval | None \<Rightarrow> sc_next_fire e)\<rparr>"

text \<open>One turn of the loop: the event fired with its time, or the end of the schedule.\<close>

definition scheduler_turn :: "'f ScheduledEvent list \<Rightarrow> ('f ScheduledEvent list \<times> Duration \<times> 'f ChaosEventDef) option" where
  "scheduler_turn events =
     (case next_event 0 events of
        None \<Rightarrow> None
      | Some (idx, t) \<Rightarrow> Some (events[idx := mark_fired (events ! idx)], t, sc_def (events ! idx)))"

text \<open>The firings of at most \<open>n\<close> turns, and whether the schedule has ended.\<close>

fun scheduler_run :: "nat \<Rightarrow> 'f ScheduledEvent list \<Rightarrow> (Duration \<times> 'f ChaosEventDef) list \<times> bool" where
  "scheduler_run 0 events = ([], scheduler_turn events = None)"
| "scheduler_run (Suc n) events =
     (case scheduler_turn events of
        None \<Rightarrow> ([], True)
      | Some (events', t, def) \<Rightarrow> (let (log, ended) = scheduler_run n events' in ((t, def) # log, ended)))"

section \<open>Actions\<close>

datatype 'f chaos_effect =
    DoKill string "nat option"
  | RestartRequest string "nat option" Duration
  | DoPause string "nat option"
  | ResumeAfter string "nat option" Duration
  | DoStop string "nat option"
  | AddLatency string u32 "'f option"
  | Partition string "string list"
  | RemoveFaultAfter Duration
  | KeepFault

text \<open>
  What an action does: the effects in order and the target it reports.  Whether a handle exists, whether a
  fault injector is attached and succeeds, and the index of the generator are arguments.
\<close>

record chaos_env =
  cx_lookup :: "string \<Rightarrow> nat option \<Rightarrow> bool"
  cx_injector :: "bool option"
  cx_index :: "nat option"

definition execute_action :: "chaos_env \<Rightarrow> 'f ChaosEventDef \<Rightarrow> 'f chaos_effect list \<times> string option" where
  "execute_action env def =
     (case ce_action def of
        Kill \<Rightarrow>
          (case ce_target def of
             Some target \<Rightarrow>
               if cx_lookup env target (ce_instance def)
               then DoKill target (ce_instance def) # (case ce_restart_after def of Some d \<Rightarrow> [RestartRequest target (ce_instance def) d] | None \<Rightarrow> [])
               else []
           | None \<Rightarrow> [], ce_target def)
      | Pause \<Rightarrow>
          (case ce_target def of
             Some target \<Rightarrow>
               if cx_lookup env target (ce_instance def)
               then DoPause target (ce_instance def) # (case ce_duration def of Some d \<Rightarrow> [ResumeAfter target (ce_instance def) d] | None \<Rightarrow> [])
               else []
           | None \<Rightarrow> [], ce_target def)
      | Restart \<Rightarrow>
          (case ce_target def of
             Some target \<Rightarrow> if cx_lookup env target (ce_instance def) then [DoStop target (ce_instance def)] else []
           | None \<Rightarrow> [], ce_target def)
      | Slow \<Rightarrow>
          (case ce_target def of
             Some target \<Rightarrow>
               (case cx_injector env of
                  None \<Rightarrow> ([], None)
                | Some ok \<Rightarrow>
                    (AddLatency target (ucast (case ce_delay_ms def of Some d \<Rightarrow> d | None \<Rightarrow> 100)) (ce_loss_percent def)
                       # (if ok then [case ce_duration def of Some d \<Rightarrow> RemoveFaultAfter d | None \<Rightarrow> KeepFault] else []), ce_target def))
           | None \<Rightarrow> ([], ce_target def))
      | KillRandom \<Rightarrow>
          (if ce_pool def \<noteq> []
           then let target = ce_pool def ! (case cx_index env of Some i \<Rightarrow> i | None \<Rightarrow> 0) in
             (if cx_lookup env target None then [DoKill target None] else [], Some target)
           else ([], None))
      | NetworkPartition \<Rightarrow>
          (case ce_target def of
             Some target \<Rightarrow>
               if ce_partition_from def = [] then ([], None)
               else (case cx_injector env of
                  None \<Rightarrow> ([], None)
                | Some ok \<Rightarrow>
                    (Partition target (ce_partition_from def)
                       # (if ok then [case ce_heal_after def of Some d \<Rightarrow> RemoveFaultAfter d | None \<Rightarrow> KeepFault] else []), ce_target def))
           | None \<Rightarrow> ([], ce_target def)))"

section \<open>Random schedules respect their limits\<close>

text \<open>The contract of the random number generators: a draw lies in its range.\<close>

definition param_draws_ok :: "param_draws \<Rightarrow> bool" where
  "param_draws_ok p \<longleftrightarrow> (\<forall>lo hi. lo \<le> hi \<longrightarrow> pd_restart p lo hi \<in> {lo..hi} \<and> pd_heal p lo hi \<in> {lo..hi} \<and> pd_pause p lo hi \<in> {lo..hi})
   \<and> (\<forall>lo hi. lo \<le> hi \<longrightarrow> pd_delay p lo hi \<in> {lo..hi})"

definition draws_ok :: "draws \<Rightarrow> bool" where
  "draws_ok w \<longleftrightarrow> (\<forall>n > 0. dw_action w n < n \<and> dw_target w n < n) \<and> param_draws_ok (dw_params w) \<and> param_draws_ok (dw_params_again w)"

text \<open>A fault is active from its start until it is undone.\<close>

definition active_at :: "Duration \<Rightarrow> 'f ChaosEventDef \<Rightarrow> bool" where
  "active_at \<tau> e \<longleftrightarrow> event_at e \<le> \<tau> \<and> \<tau> < event_at e + fault_active_duration e"

definition within :: "('a::linorder \<times> 'a) option \<Rightarrow> 'a option \<Rightarrow> bool" where
  "within r v \<longleftrightarrow> (case r of None \<Rightarrow> v = None | Some (lo, hi) \<Rightarrow> \<exists>x. v = Some x \<and> lo \<le> x \<and> x \<le> hi)"

text \<open>An event of the schedule comes from a configured action and stays in its ranges.\<close>

definition drawn_from :: "'f RandomChaosConfig \<Rightarrow> (ChaosAction \<times> 'f RandomActionConfig) list \<Rightarrow> 'f ChaosEventDef \<Rightarrow> bool" where
  "drawn_from config actions e \<longleftrightarrow> (\<exists>t \<le> rc_duration config. ce_at e = Some t) \<and> ce_every e = None
     \<and> (\<exists>(a, ac) \<in> set actions. ce_action e = a \<and> ce_target e \<in> Some ` set (ra_pool ac) \<and> ce_pool e = ra_pool ac
          \<and> within (ra_restart_after ac) (ce_restart_after e) \<and> within (ra_heal_after ac) (ce_heal_after e)
          \<and> within (ra_pause_duration ac) (ce_duration e) \<and> within (ra_delay_ms ac) (ce_delay_ms e))"

definition action_ok :: "ChaosAction \<times> 'f RandomActionConfig \<Rightarrow> bool" where
  "action_ok aa \<longleftrightarrow> ra_pool (snd aa) \<noteq> [] \<and> range_ok (ra_restart_after (snd aa)) \<and> range_ok (ra_delay_ms (snd aa))
     \<and> range_ok (ra_heal_after (snd aa)) \<and> range_ok (ra_pause_duration (snd aa))"

definition gen_inv :: "'f RandomChaosConfig \<Rightarrow> Duration \<Rightarrow> 'f ChaosEventDef list \<Rightarrow> Duration list \<Rightarrow> bool" where
  "gen_inv config t events act \<longleftrightarrow>
     (\<forall>e \<in> set events. event_at e \<le> t)
   \<and> sorted_wrt (\<lambda>e f. event_at e + rc_min_interval config \<le> event_at f) events
   \<and> length act \<le> rc_max_concurrent_faults config
   \<and> (\<forall>\<tau>. t \<le> \<tau> \<longrightarrow> \<tau> \<le> rc_duration config \<longrightarrow> length (filter (active_at \<tau>) events) = length (filter ((<) \<tau>) act))
   \<and> (\<forall>\<tau> \<le> rc_duration config. length (filter (active_at \<tau>) events) \<le> rc_max_concurrent_faults config)"

lemma gen_inv_later:
  assumes "gen_inv config t0 events act" and "t0 \<le> t"
  shows "gen_inv config t events (filter ((<) t) act)" "gen_inv config t events act"
proof -
  have "filter ((<) \<tau>) (filter ((<) t) act) = filter ((<) \<tau>) act" if "t \<le> \<tau>" for \<tau>
    using that by (auto intro: filter_cong)
  then show "gen_inv config t events (filter ((<) t) act)" "gen_inv config t events act"
    using assms length_filter_le[of "(<) t" act] unfolding gen_inv_def by (auto intro: order_trans simp del: length_filter_le)
qed

lemma gen_inv_push:
  assumes inv: "gen_inv config t0 events act" and t: "t0 \<le> t" "t \<le> rc_duration config" and max: "rc_duration config < DURATION_MAX"
    and room: "length (filter ((<) t) act) < rc_max_concurrent_faults config"
    and spaced: "\<And>e. e \<in> set events \<Longrightarrow> event_at e + rc_min_interval config \<le> t" and e: "ce_at e = Some t"
  shows "gen_inv config t (events @ [e]) (filter ((<) t) act @ [dur_saturating_add t (fault_active_duration e)])"
proof -
  let ?act = "filter ((<) t) act"
  have later: "gen_inv config t events ?act" by (rule gen_inv_later(1)[OF inv t(1)])
  have new: "\<tau> < dur_saturating_add t (fault_active_duration e) \<longleftrightarrow> active_at \<tau> e" if "t \<le> \<tau>" "\<tau> \<le> rc_duration config" for \<tau>
    using that max e by (auto simp: dur_saturating_add_def active_at_def)
  have count: "length (filter (active_at \<tau>) (events @ [e])) = length (filter ((<) \<tau>) (?act @ [dur_saturating_add t (fault_active_duration e)]))"
    if "t \<le> \<tau>" "\<tau> \<le> rc_duration config" for \<tau>
    using later new[OF that] that by (simp add: gen_inv_def)
  have "length (filter (active_at \<tau>) (events @ [e])) \<le> rc_max_concurrent_faults config" if "\<tau> \<le> rc_duration config" for \<tau>
  proof (cases "t \<le> \<tau>")
    case True
    then show ?thesis using count[OF True that] room length_filter_le[of "(<) \<tau>" ?act] by (simp del: filter_filter length_filter_le)
  next
    case False
    then show ?thesis using inv that e by (simp add: gen_inv_def active_at_def)
  qed
  then show ?thesis using later spaced e room count by (simp add: gen_inv_def sorted_wrt_append Suc_le_eq)
qed

lemma drawn_within: "range_ok r \<Longrightarrow> (\<And>lo hi. lo \<le> hi \<Longrightarrow> f lo hi \<in> {lo..hi}) \<Longrightarrow> within r (map_option (\<lambda>(lo, hi). f lo hi) r)"
  by (auto simp: range_ok_def within_def split: option.splits)

lemma built_event:
  assumes "(a, ac) \<in> set actions" "action_ok (a, ac)" "param_draws_ok p" "t \<le> rc_duration config" "i < length (ra_pool ac)"
  shows "drawn_from config actions (build_event_def a t (Some (ra_pool ac ! i)) ac p)"
  using assms unfolding drawn_from_def
  by (intro conjI bexI[of _ "(a, ac)"]) (auto simp: build_event_def_def action_ok_def param_draws_ok_def intro!: drawn_within)

lemma spaced_time_ok:
  assumes inv: "gen_inv config t0 events act" and "t0 \<le> t1" and "spaced_time config events t1 \<le> rc_duration config"
    and "rc_duration config < DURATION_MAX" and "e \<in> set events"
  shows "event_at e + rc_min_interval config \<le> spaced_time config events t1" and "t1 \<le> spaced_time config events t1"
proof -
  have "event_at e \<le> event_at (last events)"
  proof (cases "e = last events")
    case False
    then have "e \<in> set (butlast events)" using assms(5) by (metis append_butlast_last_id in_set_butlastD list.set_cases append_Nil set_ConsD Un_iff set_append empty_iff list.set(1) butlast.simps(1))
    moreover have "sorted_wrt (\<lambda>e f. event_at e + rc_min_interval config \<le> event_at f) (butlast events @ [last events])"
      using inv assms(5) by (metis append_butlast_last_id gen_inv_def empty_iff list.set(1))
    ultimately show ?thesis by (auto simp: sorted_wrt_append)
  qed simp
  moreover have "events \<noteq> []" using assms(5) by auto
  moreover have "event_at (last events) \<le> t1" using inv assms(2) \<open>events \<noteq> []\<close> by (auto simp: gen_inv_def intro: order_trans)
  ultimately show "event_at e + rc_min_interval config \<le> spaced_time config events t1" "t1 \<le> spaced_time config events t1"
    using assms(3,4) by (auto simp: spaced_time_def Let_def dur_saturating_add_def split: if_splits)
qed

lemma generate_loop_result:
  assumes "\<forall>w \<in> set ws. draws_ok w" and actions: "\<forall>aa \<in> set actions. action_ok aa" "actions \<noteq> []"
    and max: "rc_duration config < DURATION_MAX"
    and "gen_inv config t events act" and "\<forall>e \<in> set events. drawn_from config actions e"
    and "t \<le> rc_duration config" and "rc_duration config < t + sum_list (map dw_dt ws)"
  shows "\<exists>evs t' act'. generate_loop config actions ws t events act = Some evs \<and> gen_inv config t' evs act' \<and> (\<forall>e \<in> set evs. drawn_from config actions e)"
  using assms(1,5-8)
proof (induction ws arbitrary: t events act)
  case (Cons w ws)
  define t1 where "t1 = dur_saturating_add t (dw_dt w)"
  define t2 where "t2 = spaced_time config events t1"
  note inv = Cons.prems(2)
  show ?case
  proof (cases "rc_duration config < t1 \<or> rc_duration config < t2")
    case True
    then show ?thesis using Cons.prems by (auto simp: t1_def[symmetric] t2_def[symmetric] Let_def)
  next
    case False
    then have D: "t1 \<le> rc_duration config" "t2 \<le> rc_duration config" by auto
    have t1: "t1 = t + dw_dt w" using D(1) max by (auto simp: t1_def dur_saturating_add_def min_def split: if_splits)
    have t2: "t1 \<le> t2"
    proof (cases "events = []")
      case False
      then show ?thesis using spaced_time_ok(2)[OF inv, of t1 "hd events"] D(2) max t1 by (simp add: t2_def)
    qed (simp add: t2_def spaced_time_def)
    have spaced: "event_at e + rc_min_interval config \<le> t2" if "e \<in> set events" for e
      using spaced_time_ok(1)[OF inv, of t1 e] D(2) max t1 that by (simp add: t2_def)
    have left: "rc_duration config < t' + sum_list (map dw_dt ws)" if "t2 \<le> t'" for t' using Cons.prems(5) t1 t2 that by simp
    have draws: "draws_ok w" "\<forall>w \<in> set ws. draws_ok w" using Cons.prems(1) by auto
    obtain a ac where aa: "actions ! dw_action w (length actions) = (a, ac)" by (cases "actions ! dw_action w (length actions)")
    have mem: "(a, ac) \<in> set actions" using draws(1) actions(2) aa by (metis draws_ok_def length_greater_0_conv nth_mem)
    then have ok: "action_ok (a, ac)" using actions(1) by blast
    then have pool: "ra_pool ac \<noteq> []" by (simp add: action_ok_def)
    then have idx: "dw_target w (length (ra_pool ac)) < length (ra_pool ac)" using draws(1) by (simp add: draws_ok_def)
    define target where "target = Some (ra_pool ac ! dw_target w (length (ra_pool ac)))"
    have built: "drawn_from config actions (build_event_def a t' target ac p)" if "t' \<le> rc_duration config" "p \<in> {dw_params w, dw_params_again w}" for t' p
      using built_event[OF mem ok _ that(1) idx] that(2) draws(1) by (auto simp: target_def draws_ok_def)
    define act2 where "act2 = filter (\<lambda>e. t2 < e) act"
    have later: "gen_inv config t2 events act" "gen_inv config t2 events act2"
      using gen_inv_later[OF inv, of t2] t1 t2 by (simp_all add: act2_def)
    have unfolded: "generate_loop config actions (w # ws) t events act =
      (if a = NetworkPartition \<and> length (ra_pool ac) < 2 then generate_loop config actions ws t2 events act
       else if rc_max_concurrent_faults config \<le> length act2
       then (if act2 = [] then generate_loop config actions ws t2 events act2
             else if rc_duration config < Min (set act2) then Some events
             else let event = build_event_def a (Min (set act2)) target ac (dw_params_again w) in
               generate_loop config actions ws (Min (set act2)) (events @ [event])
                 (filter (\<lambda>e. Min (set act2) < e) act2 @ [dur_saturating_add (Min (set act2)) (fault_active_duration event)]))
       else let event = build_event_def a t2 target ac (dw_params w) in
         generate_loop config actions ws t2 (events @ [event]) (act2 @ [dur_saturating_add t2 (fault_active_duration event)]))"
      using False pool by (simp add: Let_def aa t1_def[symmetric] t2_def[symmetric] act2_def[symmetric] target_def[symmetric])
    show ?thesis
    proof (cases "a = NetworkPartition \<and> length (ra_pool ac) < 2")
      case True
      then show ?thesis using unfolded Cons.IH[OF draws(2) later(1) Cons.prems(3) D(2) left] by simp
    next
      case go: False
      show ?thesis
      proof (cases "rc_max_concurrent_faults config \<le> length act2")
        case False
        let ?e = "build_event_def a t2 target ac (dw_params w)"
        have "gen_inv config t2 (events @ [?e]) (act2 @ [dur_saturating_add t2 (fault_active_duration ?e)])"
          using gen_inv_push[OF later(1) order_refl D(2) max _ spaced, of ?e] False by (simp add: act2_def build_event_def_def)
        from Cons.IH[OF draws(2) this _ D(2) left] show ?thesis
          using unfolded go False built[OF D(2)] Cons.prems(3) by (simp add: Let_def)
      next
        case full: True
        show ?thesis
        proof (cases "act2 = [] \<or> rc_duration config < Min (set act2)")
          case True
          then show ?thesis using unfolded go full Cons.IH[OF draws(2) later(2) Cons.prems(3) D(2) left] Cons.prems later(2) by auto
        next
          case False
          define m where "m = Min (set act2)"
          have m: "m \<in> set act2" "m \<le> rc_duration config" using False Min_in[of "set act2"] by (simp_all add: m_def)
          then have "t2 \<le> m" by (simp add: act2_def)
          note m = m(1) this m(2)
          let ?e = "build_event_def a m target ac (dw_params_again w)"
          have "length (filter ((<) m) act2) < length act2" using m(1) by (simp add: length_filter_less)
          moreover have "length act2 \<le> rc_max_concurrent_faults config" using later(2) by (simp add: gen_inv_def)
          ultimately have "gen_inv config m (events @ [?e]) (filter ((<) m) act2 @ [dur_saturating_add m (fault_active_duration ?e)])"
            using m spaced by (intro gen_inv_push[OF later(2) m(2,3) max]) (auto simp: build_event_def_def intro: order_trans)
          from Cons.IH[OF draws(2) this _ m(3) left[OF m(2)]] show ?thesis
            using unfolded go full False built[OF m(3)] Cons.prems(3) by (simp add: Let_def m_def[symmetric])
        qed
      qed
    qed
  qed
qed simp

lemma random_actions_from:
  "aa \<in> set (random_actions config) \<Longrightarrow> \<exists>name. action_of_name name = Some (fst aa) \<and> (name, snd aa) \<in> set (rc_actions config)"
  by (auto simp: random_actions_def map_filter_def split: option.splits) (blast dest: map_of_SomeD)

lemma random_actions_nonempty:
  assumes "\<forall>na \<in> set (rc_actions config). fst na \<in> set VALID_ACTION_NAMES" and "rc_actions config \<noteq> []"
  shows "random_actions config \<noteq> []"
proof -
  obtain name cfg rest where na: "rc_actions config = (name, cfg) # rest" using assms(2) by (metis neq_Nil_conv surj_pair)
  obtain a where "action_of_name name = Some a" using assms(1) by (auto simp: na VALID_ACTION_NAMES_def action_of_name_def)
  then have "(a, cfg) \<in> set (random_actions config)"
    by (auto simp: random_actions_def map_filter_def na image_iff set_insort_key intro!: exI[of _ name])
  then show ?thesis by auto
qed

text \<open>
  C36. A validated random chaos configuration yields a schedule within its limits, whatever the random number
  generators return: once the inter-arrival times add up to more than the duration, the generation ends; the
  events are one-shot, inside the duration, at least the minimum interval apart, each from a configured action
  with a target of its pool (an existing component) and parameters in the configured ranges; and at no time
  are more than the permitted number of faults active.
\<close>

theorem random_chaos_respects_limits:
  assumes valid: "random_chaos_ok fl names config" and max: "rc_duration config < DURATION_MAX"
    and dist: "weighted_index (map (ra_probability \<circ> snd) (random_actions config)) = Ok ()" "exp_new (rc_fault_rate config) = Ok ()"
    and draws: "\<forall>w \<in> set ws. draws_ok w" "rc_duration config < sum_list (map dw_dt ws)"
  shows "\<exists>events. generate_random_events config weighted_index exp_new ws = Some (Ok events)
    \<and> sorted_wrt (\<lambda>e f. event_at e + rc_min_interval config \<le> event_at f) events
    \<and> (\<forall>e \<in> set events. drawn_from config (random_actions config) e \<and> ce_target e \<in> Some ` names)
    \<and> (\<forall>\<tau> \<le> rc_duration config. length (filter (active_at \<tau>) events) \<le> rc_max_concurrent_faults config)"
proof -
  have na: "random_action_ok fl names na" if "na \<in> set (rc_actions config)" for na using valid that by (simp add: random_chaos_ok_def)
  then have actions: "\<forall>aa \<in> set (random_actions config). action_ok aa"
    using random_actions_from by (force simp: random_action_ok_def action_ok_def)
  have "random_actions config \<noteq> []"
    using random_actions_nonempty valid na by (auto simp: random_chaos_ok_def random_action_ok_def)
  moreover have "gen_inv config 0 [] []" by (simp add: gen_inv_def)
  ultimately obtain events t act where run: "generate_loop config (random_actions config) ws 0 [] [] = Some events"
    "gen_inv config t events act" "\<forall>e \<in> set events. drawn_from config (random_actions config) e"
    using generate_loop_result[OF draws(1) actions _ max, of 0 "[]" "[]"] draws(2) by auto
  have "ce_target e \<in> Some ` names" if e: "drawn_from config (random_actions config) e" for e
  proof -
    obtain a ac where aa: "(a, ac) \<in> set (random_actions config)" "ce_target e \<in> Some ` set (ra_pool ac)"
      using e by (auto simp: drawn_from_def)
    then obtain name where "(name, ac) \<in> set (rc_actions config)" using random_actions_from by fastforce
    then have "set (ra_pool ac) \<subseteq> names" using na by (force simp: random_action_ok_def)
    then show ?thesis using aa(2) by blast
  qed
  then show ?thesis using run dist \<open>random_actions config \<noteq> []\<close>
    by (auto simp: generate_random_events_def Let_def gen_inv_def)
qed

section \<open>The scheduler fires in order\<close>

lemma next_event_None: "next_event i es = None \<longleftrightarrow> filter pending_event es = []"
  by (induction es arbitrary: i) (auto split: option.splits)

lemma next_event_Some:
  "next_event i es = Some (j, t) \<Longrightarrow> \<exists>xs e ys. es = xs @ e # ys \<and> j = i + length xs \<and> pending_event e \<and> t = sc_next_fire e
     \<and> (\<forall>x \<in> set xs. pending_event x \<longrightarrow> t < sc_next_fire x) \<and> (\<forall>y \<in> set ys. pending_event y \<longrightarrow> t \<le> sc_next_fire y)"
proof (induction es arbitrary: i j t)
  case (Cons a es)
  show ?case
  proof (cases "next_event (Suc i) es")
    case None
    then have "\<forall>y \<in> set es. \<not> pending_event y" using next_event_None[of "Suc i" es] by (simp add: filter_empty_conv)
    then show ?thesis using Cons.prems None by (intro exI[of _ "[]"]) (auto split: if_splits)
  next
    case (Some r)
    obtain j' t' where r: "r = (j', t')" by (cases r)
    obtain xs e ys where d: "es = xs @ e # ys" "j' = Suc i + length xs" "pending_event e" "t' = sc_next_fire e"
      "\<forall>x \<in> set xs. pending_event x \<longrightarrow> t' < sc_next_fire x" "\<forall>y \<in> set ys. pending_event y \<longrightarrow> t' \<le> sc_next_fire y"
      using Cons.IH[of "Suc i" j' t'] Some r by blast
    show ?thesis
    proof (cases "pending_event a \<and> sc_next_fire a \<le> t'")
      case True
      then have "j = i" "t = sc_next_fire a" using Cons.prems Some r by auto
      moreover have "\<forall>y \<in> set es. pending_event y \<longrightarrow> sc_next_fire a \<le> sc_next_fire y"
        using d True by (auto intro: order_trans less_imp_le)
      ultimately show ?thesis using True by (intro exI[of _ "[]"]) auto
    next
      case False
      then have "j = j'" "t = t'" using Cons.prems Some r by auto
      then show ?thesis using d False by (intro exI[of _ "a # xs"] exI[of _ e] exI[of _ ys]) auto
    qed
  qed
qed simp

lemma sort_key_first:
  assumes "\<forall>x \<in> set xs. f e < (f x :: 'b::linorder)" and "\<forall>y \<in> set ys. f e \<le> f y"
  shows "sort_key f (xs @ e # ys) = e # sort_key f (xs @ ys)"
proof (rule properties_for_sort_key)
  fix k
  have "filter (\<lambda>x. f k = f x) xs = []" if "f k = f e" using assms(1) that by (auto simp: filter_empty_conv)
  then show "filter (\<lambda>x. f k = f x) (e # sort_key f (xs @ ys)) = filter (\<lambda>x. f k = f x) (xs @ e # ys)"
    using sort_key_stable[of f "f k" "xs @ ys"] by (auto simp: eq_commute[of "f k"])
qed (use assms in \<open>auto intro: less_imp_le\<close>)

text \<open>
  The scheduler fires the one-shot events of a schedule each exactly once, in the order of their times
  and, at equal times, in the order of the schedule; then the schedule has ended.
\<close>

theorem one_shot_schedule_fires_once:
  assumes "\<forall>e \<in> set events. ce_every (sc_def e) = None \<and> \<not> sc_fired e"
  shows "scheduler_run (length events) events = (map (\<lambda>e. (sc_next_fire e, sc_def e)) (sort_key sc_next_fire events), True)"
proof -
  have "scheduler_run n events = (map (\<lambda>e. (sc_next_fire e, sc_def e)) (sort_key sc_next_fire (filter pending_event events)), True)"
    if "n = length (filter pending_event events)" "\<forall>e \<in> set events. ce_every (sc_def e) = None" for n events
    using that
  proof (induction n arbitrary: events)
    case 0
    then show ?case by (simp add: scheduler_turn_def next_event_None[THEN iffD2])
  next
    case (Suc n)
    then have "next_event 0 events \<noteq> None" using next_event_None[of 0 events] by auto
    then obtain j t where nx: "next_event 0 events = Some (j, t)" by auto
    obtain xs e ys where d: "events = xs @ e # ys" "j = length xs" "pending_event e" "t = sc_next_fire e"
      "\<forall>x \<in> set xs. pending_event x \<longrightarrow> t < sc_next_fire x" "\<forall>y \<in> set ys. pending_event y \<longrightarrow> t \<le> sc_next_fire y"
      using next_event_Some[OF nx] by auto
    let ?events = "xs @ mark_fired e # ys"
    have turn: "scheduler_turn events = Some (?events, t, sc_def e)" using nx d(1,2) by (simp add: scheduler_turn_def)
    have left: "filter pending_event ?events = filter pending_event xs @ filter pending_event ys"
      using Suc.prems(2) d(1) by (simp add: pending_event_def mark_fired_def)
    have "scheduler_run n ?events = (map (\<lambda>e. (sc_next_fire e, sc_def e)) (sort_key sc_next_fire (filter pending_event ?events)), True)"
    proof (rule Suc.IH)
      show "n = length (filter pending_event ?events)" unfolding left using Suc.prems(1) d(1,3) by simp
    qed (use Suc.prems(2) d(1) in \<open>auto simp: mark_fired_def\<close>)
    moreover have "sort_key sc_next_fire (filter pending_event events) = e # sort_key sc_next_fire (filter pending_event ?events)"
      unfolding left using d sort_key_first[of "filter pending_event xs" sc_next_fire e "filter pending_event ys"] by simp
    ultimately show ?case using turn d(4) by simp
  qed
  moreover have "filter pending_event events = events" using assms by (auto simp: pending_event_def filter_id_conv)
  ultimately show ?thesis using assms by metis
qed

section \<open>Concrete runs\<close>

definition demo_float :: "nat float_ops" where
  "demo_float = \<lparr>fl_zero = 0, fl_add = (+), fl_less = (<), fl_le = (\<le>), fl_is_finite = (\<lambda>_. True)\<rparr>"

definition demo_chaos :: "nat RandomChaosConfig" where
  "demo_chaos = \<lparr>rc_fault_rate = 1, rc_duration = 10, rc_max_concurrent_faults = 1, rc_min_interval = 1,
     rc_actions = [(''kill'', \<lparr>ra_probability = 1, ra_pool = [''a''], ra_restart_after = Some (2, 5), ra_delay_ms = None,
       ra_heal_after = None, ra_pause_duration = None\<rparr>)]\<rparr>"

definition demo_draws :: "Duration \<Rightarrow> draws" where
  "demo_draws dt = \<lparr>dw_dt = dt, dw_action = (\<lambda>_. 0), dw_target = (\<lambda>_. 0),
     dw_params = \<lparr>pd_restart = (\<lambda>lo hi. hi), pd_delay = (\<lambda>lo hi. lo), pd_heal = (\<lambda>lo hi. lo), pd_pause = (\<lambda>lo hi. lo)\<rparr>,
     dw_params_again = \<lparr>pd_restart = (\<lambda>lo hi. lo), pd_delay = (\<lambda>lo hi. lo), pd_heal = (\<lambda>lo hi. lo), pd_pause = (\<lambda>lo hi. lo)\<rparr>\<rparr>"

lemma demo_schedule:
  "map_option (map_sum id (map event_at)) (generate_random_events demo_chaos (\<lambda>_. Ok ()) (\<lambda>_. Ok ()) (map demo_draws [2, 1, 8])) = Some (Ok [2, 7])"
  by (simp add: generate_random_events_def random_actions_def action_of_name_def demo_chaos_def demo_draws_def List.map_filter_def
      dur_saturating_add_def DURATION_MAX_def spaced_time_def build_event_def_def fault_active_duration_def Let_def)

theorem random_chaos_respects_limits_witness:
  "\<exists>events. generate_random_events demo_chaos (\<lambda>_. Ok ()) (\<lambda>_. Ok ()) (map demo_draws [2, 1, 8]) = Some (Ok events)
     \<and> map event_at events = [2, 7] \<and> length (filter (active_at 6) events) \<le> 1"
proof -
  have valid: "random_chaos_ok demo_float {''a''} demo_chaos"
    by (simp add: random_chaos_ok_def random_action_ok_def demo_float_def demo_chaos_def VALID_ACTION_NAMES_def range_ok_def)
  have bounds: "rc_duration demo_chaos < DURATION_MAX" "rc_duration demo_chaos < sum_list (map dw_dt (map demo_draws [2, 1, 8]))"
    by (simp_all add: demo_chaos_def demo_draws_def DURATION_MAX_def)
  have draws: "\<forall>w \<in> set (map demo_draws [2, 1, 8]). draws_ok w" by (simp add: draws_ok_def param_draws_ok_def demo_draws_def)
  obtain events where run: "generate_random_events demo_chaos (\<lambda>_. Ok ()) (\<lambda>_. Ok ()) (map demo_draws [2, 1, 8]) = Some (Ok events)"
    "\<forall>\<tau> \<le> rc_duration demo_chaos. length (filter (active_at \<tau>) events) \<le> rc_max_concurrent_faults demo_chaos"
    using random_chaos_respects_limits[OF valid bounds(1) _ _ draws bounds(2), of "\<lambda>_. Ok ()" "\<lambda>_. Ok ()"] by blast
  have "map event_at events = [2, 7]" using demo_schedule run(1) by simp
  moreover have "length (filter (active_at 6) events) \<le> 1" using run(2)[rule_format, of 6] by (simp add: demo_chaos_def)
  ultimately show ?thesis using run(1) by (intro exI[of _ events] conjI)
qed

definition kill_at :: "Duration \<Rightarrow> nat ScheduledEvent" where
  "kill_at t = \<lparr>sc_def = build_event_def Kill t (Some ''a'') (snd (hd (rc_actions demo_chaos))) (dw_params (demo_draws 0)),
     sc_next_fire = t, sc_fired = False, sc_source = Fixed\<rparr>"

theorem one_shot_schedule_fires_once_witness:
  "map fst (fst (scheduler_run 3 (map kill_at [5, 2, 9]))) = [2, 5, 9] \<and> snd (scheduler_run 3 (map kill_at [5, 2, 9]))"
proof -
  have "scheduler_run (length (map kill_at [5, 2, 9])) (map kill_at [5, 2, 9])
      = (map (\<lambda>e. (sc_next_fire e, sc_def e)) (sort_key sc_next_fire (map kill_at [5, 2, 9])), True)"
    by (rule one_shot_schedule_fires_once) (simp add: kill_at_def build_event_def_def)
  moreover have "length (map kill_at [5, 2, 9]) = 3" by simp
  moreover have "map sc_next_fire (sort_key sc_next_fire (map kill_at [5, 2, 9])) = [2, 5, 9]" by (simp add: kill_at_def)
  ultimately show ?thesis by (simp only: fst_conv snd_conv map_map comp_def)
qed

end
