(* ===== verification/Manifest_Check.thy ===== *)
theory Manifest_Check
  imports Topology
begin

text \<open>
  The end-to-end check of an emulator run (\<^verbatim>\<open>mitiflow-emulator/src/invariant_checker.rs\<close>, the
  manifest entries in \<^verbatim>\<open>metrics.rs\<close>): what was published is compared with what was received.  The
  file system and the JSON parser are functions; a line that cannot be read or parsed is an error.
\<close>

section \<open>Manifests\<close>

datatype ManifestRole = Published | Received

record EventManifestEntry =
  em_event_id :: string
  em_seq :: u64
  em_publisher_id :: string
  em_partition :: u32
  em_timestamp :: string
  em_payload_checksum :: u32
  em_role :: ManifestRole

record manifest_fs =
  fs_read_dir :: "string \<Rightarrow> string + (string + string) list"
  fs_open :: "string \<Rightarrow> string + (string + string) list"
  fs_parse :: "string \<Rightarrow> string + EventManifestEntry"

text \<open>\<^verbatim>\<open>Path::extension\<close> of the last component.\<close>

definition path_extension :: "string \<Rightarrow> string option" where
  "path_extension path =
     (let name = rev (takeWhile (\<lambda>c. c \<noteq> CHR ''/'') (rev path)) in
      case rfind_char CHR ''.'' name of
        None \<Rightarrow> None
      | Some 0 \<Rightarrow> None
      | Some i \<Rightarrow> Some (drop (Suc i) name))"

fun manifest_files :: "string \<Rightarrow> (string + string) list \<Rightarrow> EmulatorError + string list" where
  "manifest_files dir [] = Ok []"
| "manifest_files dir (Inl e # entries) = Err (Invariant (''failed to iterate manifest directory '' @ [CHR 0x27] @ dir @ [CHR 0x27] @ '': '' @ e))"
| "manifest_files dir (Inr path # entries) =
     rbind (manifest_files dir entries) (\<lambda>files. Ok (if path_extension path = Some ''jsonl'' then path # files else files))"

fun manifest_lines :: "manifest_fs \<Rightarrow> ManifestRole \<Rightarrow> string \<Rightarrow> nat \<Rightarrow> (string + string) list \<Rightarrow> EmulatorError + EventManifestEntry list" where
  "manifest_lines fs role path index [] = Ok []"
| "manifest_lines fs role path index (Inl e # lines) =
     Err (Invariant (''failed to read line '' @ show_nat (index + 1) @ '' in '' @ [CHR 0x27] @ path @ [CHR 0x27] @ '': '' @ e))"
| "manifest_lines fs role path index (Inr line # lines) =
     (if trim line = [] then manifest_lines fs role path (index + 1) lines
      else case fs_parse fs line of
        Err e \<Rightarrow> Err (Invariant (''failed to parse line '' @ show_nat (index + 1) @ '' in '' @ [CHR 0x27] @ path @ [CHR 0x27] @ '': '' @ e))
      | Ok entry \<Rightarrow> rbind (manifest_lines fs role path (index + 1) lines) (\<lambda>es. Ok (if em_role entry = role then entry # es else es)))"

fun manifest_entries :: "manifest_fs \<Rightarrow> ManifestRole \<Rightarrow> string list \<Rightarrow> EmulatorError + EventManifestEntry list" where
  "manifest_entries fs role [] = Ok []"
| "manifest_entries fs role (path # paths) =
     (case fs_open fs path of
        Err e \<Rightarrow> Err (Invariant (''failed to open manifest '' @ [CHR 0x27] @ path @ [CHR 0x27] @ '': '' @ e))
      | Ok lines \<Rightarrow> rbind (manifest_lines fs role path 0 lines) (\<lambda>es. rbind (manifest_entries fs role paths) (\<lambda>rest. Ok (es @ rest))))"

definition load_manifests :: "manifest_fs \<Rightarrow> string \<Rightarrow> ManifestRole \<Rightarrow> EmulatorError + EventManifestEntry list" where
  "load_manifests fs dir role =
     (case fs_read_dir fs dir of
        Err e \<Rightarrow> Err (Invariant (''failed to read manifest directory '' @ [CHR 0x27] @ dir @ [CHR 0x27] @ '': '' @ e))
      | Ok entries \<Rightarrow> rbind (manifest_files dir entries) (\<lambda>files. manifest_entries fs role (sort_key as_bytes files)))"

section \<open>The check\<close>

datatype InvariantVerdict = Pass | Fail

record MissingEvent =
  mv_event_id :: string
  mv_publisher_id :: string
  mv_seq :: u64

record DuplicateEvent =
  du_event_id :: string
  du_occurrences :: nat

record OrderingViolation =
  ov_publisher_id :: string
  ov_previous_seq :: u64
  ov_current_seq :: u64
  ov_event_id :: string

record ChecksumMismatch =
  cm_event_id :: string
  cm_published_checksum :: u32
  cm_received_checksum :: u32

record InvariantReport =
  ir_total_published :: nat
  ir_total_received :: nat
  ir_missing_events :: "MissingEvent list"
  ir_duplicate_events :: "DuplicateEvent list"
  ir_ordering_violations :: "OrderingViolation list"
  ir_checksum_mismatches :: "ChecksumMismatch list"
  ir_verdict :: InvariantVerdict

text \<open>The first published entry of an identifier counts.\<close>

definition published_by_id :: "EventManifestEntry list \<Rightarrow> (string, EventManifestEntry) hmap" where
  "published_by_id published =
     fold (\<lambda>ev m. if hm_get m (em_event_id ev) \<noteq> None then m else hm_insert (em_event_id ev) ev m) published []"

record received_state =
  rv_ids :: "string set"
  rv_counts :: "(string, nat) hmap"
  rv_mismatches :: "ChecksumMismatch list"
  rv_violations :: "OrderingViolation list"
  rv_last_seq :: "(string, u64) hmap"

definition received_step :: "(string, EventManifestEntry) hmap \<Rightarrow> EventManifestEntry \<Rightarrow> received_state \<Rightarrow> received_state" where
  "received_step published ev st =
     \<lparr>rv_ids = insert (em_event_id ev) (rv_ids st),
      rv_counts = hm_insert (em_event_id ev) ((case hm_get (rv_counts st) (em_event_id ev) of Some n \<Rightarrow> n | None \<Rightarrow> 0) + 1) (rv_counts st),
      rv_mismatches = rv_mismatches st
        @ (case hm_get published (em_event_id ev) of
             Some p \<Rightarrow> if em_payload_checksum p \<noteq> em_payload_checksum ev
               then [\<lparr>cm_event_id = em_event_id ev, cm_published_checksum = em_payload_checksum p, cm_received_checksum = em_payload_checksum ev\<rparr>] else []
           | None \<Rightarrow> []),
      rv_violations = rv_violations st
        @ (case hm_get (rv_last_seq st) (em_publisher_id ev) of
             Some prev \<Rightarrow> if em_seq ev < prev
               then [\<lparr>ov_publisher_id = em_publisher_id ev, ov_previous_seq = prev, ov_current_seq = em_seq ev, ov_event_id = em_event_id ev\<rparr>] else []
           | None \<Rightarrow> []),
      rv_last_seq = hm_insert (em_publisher_id ev) (em_seq ev) (rv_last_seq st)\<rparr>"

definition check_manifests :: "EventManifestEntry list \<Rightarrow> EventManifestEntry list \<Rightarrow> InvariantReport" where
  "check_manifests published received =
     (let by_id = published_by_id published;
          st = fold (received_step by_id) received \<lparr>rv_ids = {}, rv_counts = [], rv_mismatches = [], rv_violations = [], rv_last_seq = []\<rparr>;
          missing = map (\<lambda>(_, ev). \<lparr>mv_event_id = em_event_id ev, mv_publisher_id = em_publisher_id ev, mv_seq = em_seq ev\<rparr>)
            (filter (\<lambda>(_, ev). em_event_id ev \<notin> rv_ids st) by_id);
          duplicates = map (\<lambda>(i, n). \<lparr>du_event_id = i, du_occurrences = n\<rparr>) (filter (\<lambda>(_, n). 1 < n) (rv_counts st)) in
      \<lparr>ir_total_published = length published,
       ir_total_received = length received,
       ir_missing_events = sort_key (as_bytes \<circ> mv_event_id) missing,
       ir_duplicate_events = sort_key (as_bytes \<circ> du_event_id) duplicates,
       ir_ordering_violations = sort_key (\<lambda>v. (as_bytes (ov_publisher_id v), ov_current_seq v)) (rv_violations st),
       ir_checksum_mismatches = sort_key (as_bytes \<circ> cm_event_id) (rv_mismatches st),
       ir_verdict = (if missing = [] \<and> duplicates = [] \<and> rv_mismatches st = [] then Pass else Fail)\<rparr>)"

definition check :: "manifest_fs \<Rightarrow> string \<Rightarrow> EmulatorError + InvariantReport" where
  "check fs dir =
     rbind (load_manifests fs dir Published) (\<lambda>published.
     rbind (load_manifests fs dir Received) (\<lambda>received. Ok (check_manifests published received)))"

section \<open>What a verdict means\<close>

lemma published_by_id_get:
  "hm_get (published_by_id es) i = find (\<lambda>ev. em_event_id ev = i) es" "hm_wf (published_by_id es)"
proof -
  have "hm_get (fold (\<lambda>ev m. if hm_get m (em_event_id ev) \<noteq> None then m else hm_insert (em_event_id ev) ev m) es m) i
      = (case hm_get m i of Some ev \<Rightarrow> Some ev | None \<Rightarrow> find (\<lambda>ev. em_event_id ev = i) es)" for m
    by (induction es arbitrary: m) (auto split: option.splits)
  then show "hm_get (published_by_id es) i = find (\<lambda>ev. em_event_id ev = i) es" by (simp add: published_by_id_def)
  have "hm_wf m \<Longrightarrow> hm_wf (fold (\<lambda>ev m. if hm_get m (em_event_id ev) \<noteq> None then m else hm_insert (em_event_id ev) ev m) es m)" for m
    by (induction es arbitrary: m) auto
  then show "hm_wf (published_by_id es)" by (simp add: published_by_id_def)
qed

lemma received_fold:
  "rv_ids (fold (received_step pub) rs st) = rv_ids st \<union> em_event_id ` set rs"
  "hm_wf (rv_counts st) \<Longrightarrow> hm_wf (rv_counts (fold (received_step pub) rs st))"
  by (induction rs arbitrary: st) (auto simp: received_step_def)

lemma received_counts:
  "hm_get (rv_counts (fold (received_step pub) rs st)) i =
     (let n = length (filter (\<lambda>ev. em_event_id ev = i) rs) in
      if n = 0 then hm_get (rv_counts st) i else Some ((case hm_get (rv_counts st) i of Some k \<Rightarrow> k | None \<Rightarrow> 0) + n))"
  by (induction rs arbitrary: st) (auto simp: received_step_def Let_def)

lemma mismatch_fold:
  "rv_mismatches (fold (received_step pub) rs st) = rv_mismatches st @ concat (map (\<lambda>ev. case hm_get pub (em_event_id ev) of
     Some p \<Rightarrow> if em_payload_checksum p \<noteq> em_payload_checksum ev
       then [\<lparr>cm_event_id = em_event_id ev, cm_published_checksum = em_payload_checksum p, cm_received_checksum = em_payload_checksum ev\<rparr>] else []
   | None \<Rightarrow> []) rs)"
  by (induction rs arbitrary: st) (simp_all add: received_step_def)

text \<open>
  The verdict of the end-to-end check is Pass exactly if every published event was received, no event was
  received twice, and every received event carries the payload checksum it was published with; the report
  lists exactly the missing identifiers, the repeated ones with their number of occurrences, and the wrong
  checksums.
\<close>

theorem verdict_exact:
  fixes published received
  defines "r \<equiv> check_manifests published received"
    and "occurs \<equiv> (\<lambda>i. length (filter (\<lambda>ev. em_event_id ev = i) received))"
    and "original \<equiv> (\<lambda>i. find (\<lambda>ev. em_event_id ev = i) published)"
  shows "(ir_verdict r = Pass \<longleftrightarrow>
        em_event_id ` set published \<subseteq> em_event_id ` set received \<and> distinct (map em_event_id received)
        \<and> {ev \<in> set received. \<exists>p. original (em_event_id ev) = Some p \<and> em_payload_checksum p \<noteq> em_payload_checksum ev} = {})
    \<and> mv_event_id ` set (ir_missing_events r) = em_event_id ` set published - em_event_id ` set received
    \<and> (\<lambda>d. (du_event_id d, du_occurrences d)) ` set (ir_duplicate_events r) = {(i, occurs i) | i. 1 < occurs i}
    \<and> (\<lambda>c. (cm_event_id c, cm_published_checksum c, cm_received_checksum c)) ` set (ir_checksum_mismatches r)
      = {(em_event_id ev, em_payload_checksum p, em_payload_checksum ev) | ev p.
          ev \<in> set received \<and> original (em_event_id ev) = Some p \<and> em_payload_checksum p \<noteq> em_payload_checksum ev}"
proof -
  define by_id where "by_id = published_by_id published"
  define st where "st = fold (received_step by_id) received \<lparr>rv_ids = {}, rv_counts = [], rv_mismatches = [], rv_violations = [], rv_last_seq = []\<rparr>"
  define missing where "missing = map (\<lambda>(_, ev). \<lparr>mv_event_id = em_event_id ev, mv_publisher_id = em_publisher_id ev, mv_seq = em_seq ev\<rparr>)
    (filter (\<lambda>(_, ev). em_event_id ev \<notin> rv_ids st) by_id)"
  define dups where "dups = map (\<lambda>(i, n). \<lparr>du_event_id = i, du_occurrences = n\<rparr>) (filter (\<lambda>(_, n). 1 < n) (rv_counts st))"
  have r: "ir_missing_events r = sort_key (as_bytes \<circ> mv_event_id) missing" "ir_duplicate_events r = sort_key (as_bytes \<circ> du_event_id) dups"
    "ir_checksum_mismatches r = sort_key (as_bytes \<circ> cm_event_id) (rv_mismatches st)"
    "ir_verdict r = Pass \<longleftrightarrow> missing = [] \<and> dups = [] \<and> rv_mismatches st = []"
    by (simp_all add: r_def check_manifests_def Let_def by_id_def st_def missing_def dups_def)
  have ids: "rv_ids st = em_event_id ` set received" and counts: "hm_get (rv_counts st) i = (if occurs i = 0 then None else Some (occurs i))" and wf: "hm_wf (rv_counts st)" for i
    by (simp_all add: st_def occurs_def received_fold received_counts)
  have orig: "(i, ev) \<in> set by_id \<longleftrightarrow> original i = Some ev" for i ev
    unfolding by_id_def original_def by (simp add: published_by_id_get(1)[symmetric] published_by_id_get(2))
  have orig_iff: "(\<exists>ev. original i = Some ev) \<longleftrightarrow> i \<in> em_event_id ` set published" for i
    unfolding original_def by (induction published) auto
  have orig_id: "em_event_id ev = i" if "original i = Some ev" for i ev using that by (auto simp: original_def find_Some_iff)
  have m: "mv_event_id ` set missing = em_event_id ` set published - em_event_id ` set received"
  proof -
    have "i \<in> mv_event_id ` set missing \<longleftrightarrow> (\<exists>ev. original i = Some ev) \<and> i \<notin> rv_ids st" for i
      using orig orig_id by (force simp: missing_def image_iff)
    then show ?thesis unfolding orig_iff ids by blast
  qed
  have c: "(i, n) \<in> set (rv_counts st) \<longleftrightarrow> n = occurs i \<and> occurs i \<noteq> 0" for i n
    unfolding map_of_eq_Some_iff[OF wf, symmetric] counts by auto
  then have d: "(\<lambda>d. (du_event_id d, du_occurrences d)) ` set dups = {(i, occurs i) | i. 1 < occurs i}"
    by (force simp: dups_def image_iff)
  have mm: "(\<lambda>c. (cm_event_id c, cm_published_checksum c, cm_received_checksum c)) ` set (rv_mismatches st)
      = {(em_event_id ev, em_payload_checksum p, em_payload_checksum ev) | ev p.
          ev \<in> set received \<and> original (em_event_id ev) = Some p \<and> em_payload_checksum p \<noteq> em_payload_checksum ev}"
    unfolding st_def mismatch_fold by_id_def published_by_id_get(1) original_def set_append set_concat set_map image_Un image_UN
    by (auto split: option.splits if_splits) force
  have "distinct (map em_event_id received) \<longleftrightarrow> (\<forall>i. \<not> 1 < occurs i)"
    unfolding occurs_def by (induction received, simp, auto simp: filter_empty_conv Suc_le_eq not_less le_Suc_eq length_0_conv, metis image_eqI)
  then have "dups = [] \<longleftrightarrow> distinct (map em_event_id received)" using d by auto
  moreover have "missing = [] \<longleftrightarrow> em_event_id ` set published \<subseteq> em_event_id ` set received"
    using m by (metis Diff_eq_empty_iff image_is_empty set_empty)
  moreover have "rv_mismatches st = [] \<longleftrightarrow> {ev \<in> set received. \<exists>p. original (em_event_id ev) = Some p \<and> em_payload_checksum p \<noteq> em_payload_checksum ev} = {}"
  proof -
    have "rv_mismatches st = [] \<longleftrightarrow> {(em_event_id ev, em_payload_checksum p, em_payload_checksum ev) | ev p.
          ev \<in> set received \<and> original (em_event_id ev) = Some p \<and> em_payload_checksum p \<noteq> em_payload_checksum ev} = {}"
      unfolding mm[symmetric] by simp
    then show ?thesis by blast
  qed
  ultimately show ?thesis using r m d mm by simp
qed

end
