(* ===== verification/Peer_Recovery.thy ===== *)
theory Peer_Recovery
  imports Store_Reader
begin

text \<open>
  Recovery of a gained partition on a storage agent (\<^verbatim>\<open>mitiflow-storage/src/recovery.rs\<close>): the
  history is read from the stores of the peers, or from the caches of the publishers, and written into the
  local backend.  The answers of the session are a function of the number of the query and its selector, as
  in the recovery of subscribers.  The last part composes it with the running stores of the peers.
\<close>

section \<open>Operations\<close>

text \<open>A reply becomes an event without its hybrid logical timestamp.\<close>

definition recovered_event :: "query_reply \<Rightarrow> (string \<times> bytes \<times> EventMetadata) option" where
  "recovered_event r =
     (case r of
        ReplyErr \<Rightarrow> None
      | ReplySample key payload att \<Rightarrow>
          Option.bind att (\<lambda>a. case decode_metadata a of
            Err _ \<Rightarrow> None
          | Ok meta \<Rightarrow> Some (key, payload, \<lparr>md_seq = em_seq meta, md_publisher_id = em_pub_id meta, md_event_id = em_event_id meta,
              md_timestamp = em_timestamp meta, md_key_expr = key, md_key = extract_key key, md_hlc_timestamp = None\<rparr>)))"

definition ingest_sample :: "'d fjall_ops \<Rightarrow> json_codec \<Rightarrow> query_reply \<Rightarrow> 'd FjallBackend \<Rightarrow> 'd FjallBackend \<times> nat option" where
  "ingest_sample ops js r b =
     (case recovered_event r of
        None \<Rightarrow> (b, None)
      | Some (key, payload, md) \<Rightarrow>
          (case store ops js key payload md b of (b', Ok _) \<Rightarrow> (b', Some 1) | (b', Err _) \<Rightarrow> (b', None)))"

fun ingest_replies :: "'d fjall_ops \<Rightarrow> json_codec \<Rightarrow> query_reply list \<Rightarrow> 'd FjallBackend \<times> nat \<Rightarrow> 'd FjallBackend \<times> nat" where
  "ingest_replies ops js [] st = st"
| "ingest_replies ops js (r # rs) (b, n) =
     (case ingest_sample ops js r b of (b', k) \<Rightarrow> ingest_replies ops js rs (b', n + (case k of Some c \<Rightarrow> c | None \<Rightarrow> 0)))"

definition recovery_key :: "string \<Rightarrow> u32 \<Rightarrow> string" where
  "recovery_key key_prefix part = key_prefix @ ''/_store'' @ ''/'' @ show_word part"

text \<open>One query per peer; the identifier of the peer is only logged.  A failed query is skipped.\<close>

fun recover_from :: "'d fjall_ops \<Rightarrow> json_codec \<Rightarrow> session_get \<Rightarrow> string \<Rightarrow> u32 \<Rightarrow> nat \<Rightarrow> string list \<Rightarrow> 'd FjallBackend \<times> nat \<Rightarrow> 'd FjallBackend \<times> nat" where
  "recover_from ops js get key_prefix part i [] st = st"
| "recover_from ops js get key_prefix part i (peer # peers) st =
     recover_from ops js get key_prefix part (i + 1) peers
       (case get i (recovery_key key_prefix part) of Ok replies \<Rightarrow> ingest_replies ops js replies st | Err _ \<Rightarrow> st)"

definition recover :: "'d fjall_ops \<Rightarrow> json_codec \<Rightarrow> session_get \<Rightarrow> string \<Rightarrow> u32 \<Rightarrow> string list \<Rightarrow> 'd FjallBackend \<Rightarrow> 'd FjallBackend \<times> nat" where
  "recover ops js get key_prefix part peers b = recover_from ops js get key_prefix part 0 peers (b, 0)"

definition recover_from_cache :: "'d fjall_ops \<Rightarrow> json_codec \<Rightarrow> session_get \<Rightarrow> string \<Rightarrow> 'd FjallBackend \<Rightarrow> 'd FjallBackend \<times> nat" where
  "recover_from_cache ops js get key_prefix b =
     (case get 0 (key_prefix @ ''/_cache'') of Ok replies \<Rightarrow> ingest_replies ops js replies (b, 0) | Err _ \<Rightarrow> (b, 0))"

section \<open>What a recovery stores\<close>

text \<open>The databases of \<open>S\<close> accept every commit and stay in \<open>S\<close>.\<close>

definition commits_succeed :: "'d fjall_ops \<Rightarrow> 'd set \<Rightarrow> bool" where
  "commits_succeed ops S \<longleftrightarrow> (\<forall>d \<in> S. \<forall>batch. \<exists>d' \<in> S. kv_commit ops d batch = (d', Ok ()))"

lemma store_succeeds:
  assumes "commits_succeed ops S" and "fb_db b \<in> S"
  shows "\<exists>b'. store ops js k e md b = (b', Ok ()) \<and> fb_db b' \<in> S"
proof -
  let ?state = "store_seq (md_seq md) (state_or_default (fb_publisher_states b) (md_publisher_id md))"
  obtain d where "d \<in> S" "kv_commit ops (fb_db b) (event_batch js k e md @ [committed_op (md_publisher_id md) ?state]) = (d, Ok ())"
    using assms unfolding commits_succeed_def by blast
  then show ?thesis by (simp add: store_def store_err_def Let_def)
qed

lemma ingest_replies_seqs:
  assumes ok: "fjall_ok ops vw" "commits_succeed ops S" and "backend_inv vw b" and "fb_db b \<in> S"
  shows "\<exists>b' m. ingest_replies ops js rs (b, n) = (b', m) \<and> backend_inv vw b' \<and> fb_db b' \<in> S
    \<and> stored_seqs (vw (fb_db b')) = (\<lambda>p. stored_seqs (vw (fb_db b)) p \<union> event_seqs (List.map_filter recovered_event rs) p)"
  using assms(3,4)
proof (induction rs arbitrary: b n)
  case Nil
  then show ?case by (simp add: event_seqs_def List.map_filter_simps)
next
  case (Cons r rs)
  show ?case
  proof (cases "recovered_event r")
    case None
    then show ?thesis using Cons.IH[OF Cons.prems, of n] by (simp add: ingest_sample_def List.map_filter_simps)
  next
    case (Some ev)
    obtain k e md where ev: "ev = (k, e, md)" by (cases ev)
    obtain b1 where b1: "store ops js k e md b = (b1, Ok ())" and S: "fb_db b1 \<in> S" using store_succeeds[OF ok(2) Cons.prems(2)] by blast
    have inv: "backend_inv vw b1" "stored_seqs (vw (fb_db b1)) = (\<lambda>p. stored_seqs (vw (fb_db b)) p \<union> event_seqs [(k, e, md)] p)"
      using store_inv[OF ok(1) Cons.prems(1) b1] by auto
    have "List.map_filter recovered_event (r # rs) = (k, e, md) # List.map_filter recovered_event rs"
      using Some ev by (simp add: List.map_filter_simps)
    then show ?thesis using Cons.IH[OF inv(1) S, of "n + 1"] inv(2) b1 Some event_seqs_Cons[of "(k, e, md)" "List.map_filter recovered_event rs"]
      by (simp add: ingest_sample_def ev Un_assoc)
  qed
qed

lemma recover_from_seqs:
  assumes ok: "fjall_ok ops vw" "commits_succeed ops S" and "backend_inv vw b" and "fb_db b \<in> S" and get: "\<And>i. get i (recovery_key key_prefix part) = Ok rs"
  shows "\<exists>b' m. recover_from ops js get key_prefix part i peers (b, n) = (b', m) \<and> backend_inv vw b'
    \<and> stored_seqs (vw (fb_db b')) = (\<lambda>p. stored_seqs (vw (fb_db b)) p \<union> (if peers = [] then {} else event_seqs (List.map_filter recovered_event rs) p))"
  using assms(3,4)
proof (induction peers arbitrary: b n i)
  case (Cons peer peers)
  obtain b1 m where b1: "ingest_replies ops js rs (b, n) = (b1, m)" "backend_inv vw b1" "fb_db b1 \<in> S"
    "stored_seqs (vw (fb_db b1)) = (\<lambda>p. stored_seqs (vw (fb_db b)) p \<union> event_seqs (List.map_filter recovered_event rs) p)"
    using ingest_replies_seqs[OF ok Cons.prems] by blast
  show ?case using Cons.IH[OF b1(2,3), of "i + 1" m] b1 get by (cases "peers = []") (simp_all add: fun_eq_iff Un_assoc)
qed simp

text \<open>The answers of the peers to a query without parameters.\<close>

lemma stored_seqs_events:
  assumes "events_ok js w"
  shows "s \<in> stored_seqs w p \<longleftrightarrow> (\<exists>e \<in> stored_events js w. event_pos e = (p, s))"
proof
  assume "s \<in> stored_seqs w p"
  then obtain v where v: "w Events (encode_event_key p s) = Some v" by (auto simp: stored_seqs_def)
  then obtain md pl where d: "decode_event_value js v = Ok (md, pl)" using assms by (fastforce simp: events_ok_def)
  then have "event_pos (stored_event md pl) = (p, s)"
    using stored_events_pos[OF assms v] by (auto simp: event_pos_def stored_event_def)
  then show "\<exists>e \<in> stored_events js w. event_pos e = (p, s)" using v d by (intro bexI[of _ "stored_event md pl"]) (auto simp: stored_events_def)
next
  assume "\<exists>e \<in> stored_events js w. event_pos e = (p, s)"
  then show "s \<in> stored_seqs w p" using assms
    by (fastforce simp: stored_events_def stored_seqs_def events_ok_def event_pos_def stored_event_def)
qed

lemma recovered_reply:
  "\<exists>md. recovered_event (wire_reply (event_reply e)) = Some (se_key e, se_payload e, md)
    \<and> (md_publisher_id md, md_seq md) = event_pos e \<and> md_hlc_timestamp md = None"
  by (simp add: recovered_event_def wire_reply_def event_reply_def event_pos_def Let_def split: option.splits)

lemma event_seqs_replies:
  "event_seqs (List.map_filter recovered_event (map wire_reply (map event_reply es))) p = {s. \<exists>e \<in> set es. event_pos e = (p, s)}"
proof (induction es)
  case (Cons e es)
  obtain md where "recovered_event (wire_reply (event_reply e)) = Some (se_key e, se_payload e, md)" "(md_publisher_id md, md_seq md) = event_pos e"
    using recovered_reply by blast
  then have "event_seqs (List.map_filter recovered_event (map wire_reply (map event_reply (e # es)))) p
      = {s. event_pos e = (p, s)} \<union> event_seqs (List.map_filter recovered_event (map wire_reply (map event_reply es))) p"
    by (cases "event_pos e") (auto simp: List.map_filter_simps event_seqs_def)
  then show ?case unfolding Cons by auto
qed (simp add: event_seqs_def List.map_filter_simps)

text \<open>A store answers a query without parameters with everything it holds.\<close>

lemma query_all:
  assumes "fjall_ok ops vw" and "events_ok js (vw (fb_db b))" and "query ops js qf_default b = Ok es"
  shows "{s. \<exists>e \<in> set es. event_pos e = (p, s)} = stored_seqs (vw (fb_db b)) p"
proof -
  have "range_safe qf_default" by (simp add: range_safe_def qf_default_def)
  from query_result[OF assms(1,2) this assms(3)]
  have "es = events_list js (vw (fb_db b))" by (simp add: upto_def room_def qf_default_def query_match_def)
  then have "set es = stored_events js (vw (fb_db b))"
    using events_list_set fjall_finite[OF assms(1)] by blast
  then show ?thesis using stored_seqs_events[OF assms(2)] by auto
qed

lemma show_word_not_star: "show_word (part :: u32) \<noteq> ''*''"
  using show_nat_range[of _ "unat part"] by (force simp: show_word_def)

lemma peer_answers:
  assumes "CHR ''?'' \<notin> set key_prefix"
  shows "stores_answer bo parse_time parse_uuid (key_prefix @ ''/_store'') bs (recovery_key key_prefix part) =
    concat (map (\<lambda>c. if bo_partition bo c = part
      then (case bo_query bo qf_default c of Ok es \<Rightarrow> map wire_reply (map event_reply es) | Err _ \<Rightarrow> []) else []) bs)"
proof -
  have parts: "selector_parts (recovery_key key_prefix part) = (recovery_key key_prefix part, [])"
  proof -
    have "CHR ''?'' \<notin> set (recovery_key key_prefix part)"
      using assms show_nat_range[of "CHR ''?''" "unat part"] by (auto simp: recovery_key_def show_word_def)
    then have "find_char (CHR ''?'') (recovery_key key_prefix part) = None" unfolding find_char_None .
    then show ?thesis unfolding selector_parts_def split_once_def by (simp only: option.simps)
  qed
  have serves: "serves_key (key_prefix @ ''/_store'') q (recovery_key key_prefix part) \<longleftrightarrow> q = part" for q
  proof -
    have "show_word part = show_word q \<longleftrightarrow> q = part" by (metis parse_show_u32 option.inject)
    then show ?thesis using show_word_not_star[of part] by (simp add: serves_key_def recovery_key_def)
  qed
  have "qf_from_selector parse_time parse_uuid [] = Ok qf_default" by (simp add: qf_from_selector_def Let_def trim_def)
  then have "store_query bo parse_time parse_uuid True [] c = (case bo_query bo qf_default c of Ok es \<Rightarrow> map event_reply es | Err _ \<Rightarrow> [])" for c
    by (simp add: store_query_def str_contains_def handle_query_def ask_def)
  then show ?thesis unfolding stores_answer_def parts Let_def prod.case serves
    by (intro arg_cong[where f = concat] map_cong refl) (simp split: sum.splits)
qed

text \<open>The answers to a recovery hold the sequences of the peers that serve the partition.\<close>

lemma peer_answers_seqs:
  assumes "fjall_ok ops vw"
    and "\<And>c. c \<in> set bs \<Longrightarrow> events_ok js (vw (fb_db c)) \<and> (\<exists>es. query ops js qf_default c = Ok es)"
  shows "event_seqs (List.map_filter recovered_event (concat (map (\<lambda>c. if fb_partition c = part
      then (case query ops js qf_default c of Ok es \<Rightarrow> map wire_reply (map event_reply es) | Err _ \<Rightarrow> []) else []) bs))) p
    = (\<Union>c \<in> {c \<in> set bs. fb_partition c = part}. stored_seqs (vw (fb_db c)) p)"
  using assms(2)
proof (induction bs)
  case (Cons c bs)
  obtain es where es: "query ops js qf_default c = Ok es" and ev: "events_ok js (vw (fb_db c))" using Cons.prems[of c] by auto
  note one = event_seqs_replies[of es p] query_all[OF assms(1) ev es, of p]
  have rest: "event_seqs (List.map_filter recovered_event (concat (map (\<lambda>c. if fb_partition c = part
      then (case query ops js qf_default c of Ok es \<Rightarrow> map wire_reply (map event_reply es) | Err _ \<Rightarrow> []) else []) bs))) p
    = (\<Union>c \<in> {c \<in> set bs. fb_partition c = part}. stored_seqs (vw (fb_db c)) p)"
    using Cons.IH Cons.prems by simp
  show ?case
    by (cases "fb_partition c = part") (use rest one es in \<open>auto simp del: map_map simp: map_filter_append event_seqs_append\<close>)
qed (simp add: event_seqs_def List.map_filter_simps)

section \<open>A gained partition\<close>



text \<open>
  The timestamps do not survive: whatever a store held at the position of a recovered event, afterwards
  it holds an event without a timestamp there, which is not in the replay index.
\<close>

theorem recovered_event_has_no_hlc:
  assumes "fjall_ok ops vw" and "json_ok js" and "backend_inv vw b" and "events_ok js (vw (fb_db b))"
    and "recovered_event r = Some (k, e, md)" and "fits js md" and "ingest_sample ops js r b = (b', Some n)"
  shows "\<forall>ev \<in> stored_events js (vw (fb_db b')). event_pos ev = (md_publisher_id md, md_seq md) \<longrightarrow> \<not> has_hlc ev"
proof -
  have st: "store ops js k e md b = (b', Ok ())"
    using assms(5,7) by (auto simp: ingest_sample_def split: prod.splits sum.splits)
  have "md_hlc_timestamp md = None"
  proof (cases r)
    case (ReplySample key payload att)
    then obtain a where "att = Some a" using assms(5) by (cases att) (simp_all add: recovered_event_def)
    then show ?thesis using assms(5) ReplySample by (cases "decode_metadata a") (auto simp: recovered_event_def)
  qed (use assms(5) in \<open>simp add: recovered_event_def\<close>)
  moreover have "vw (fb_db b') Events = put_event js (k, e, md) (vw (fb_db b) Events)"
    using store_inv[OF assms(1,3) st] by blast
  ultimately show ?thesis
    using put_event_events[OF assms(2,6,4), of "vw (fb_db b')"] by (auto simp: has_hlc_def stored_event_def)
qed

text \<open>The reported count grows with the number of peers: each query is answered by all stores.\<close>

theorem recovered_count_per_peer:
  assumes "commits_succeed ops S" and "fb_db b \<in> S" and "\<And>i. get i (recovery_key key_prefix part) = Ok rs"
  shows "snd (recover ops js get key_prefix part peers b) = length peers * length (List.map_filter recovered_event rs)"
proof -
  have one: "\<exists>b'. ingest_replies ops js rs (b, n) = (b', n + length (List.map_filter recovered_event rs)) \<and> fb_db b' \<in> S"
    if "fb_db b \<in> S" for b n
    using that
  proof (induction rs arbitrary: b n)
    case (Cons r rs)
    show ?case
    proof (cases "recovered_event r")
      case None
      then show ?thesis using Cons by (simp add: ingest_sample_def List.map_filter_simps)
    next
      case (Some ev)
      obtain b1 where "store ops js (fst ev) (fst (snd ev)) (snd (snd ev)) b = (b1, Ok ())" "fb_db b1 \<in> S"
        using store_succeeds[OF assms(1) Cons.prems] by blast
      then show ?thesis using Cons.IH[of b1 "n + 1"] Some by (cases ev) (simp add: ingest_sample_def List.map_filter_simps)
    qed
  qed (simp add: List.map_filter_simps)
  have "snd (recover_from ops js get key_prefix part i peers (b, n)) = n + length peers * length (List.map_filter recovered_event rs)"
    if "fb_db b \<in> S" for i n b
    using that
  proof (induction peers arbitrary: b n i)
    case (Cons q peers)
    then show ?case using one[OF Cons.prems, of n] by (auto simp: assms(3) Cons.IH)
  qed simp
  then show ?thesis using assms(2) by (simp add: recover_def)
qed

end
