(* ===== verification/Domain.thy ===== *)
theory Domain
  imports Config Session_Io
begin

text \<open>
  Domains (\<^verbatim>\<open>mitiflow/src/domain/\<close>): identifiers, namespaces, transport profiles and the
  settings they are read from.  Strings are their UTF-8 bytes; \<open>chars_of\<close> gives the Unicode scalars.
  The configuration object and the session of Zenoh, the JSON of string lists and the sockets are the
  operations of a record; the Unicode tables of letters and of lower case are arguments.
\<close>

section \<open>Unicode scalars\<close>

definition is_cont :: "char \<Rightarrow> bool" where
  "is_cont c \<longleftrightarrow> (128 :: nat) \<le> of_char c \<and> of_char c < (192 :: nat)"

function chars_of :: "string \<Rightarrow> string list" where
  "chars_of [] = []"
| "chars_of (c # cs) = (c # takeWhile is_cont cs) # chars_of (dropWhile is_cont cs)"
  by pat_completeness auto
termination
  by (relation "measure length") (simp_all add: le_imp_less_Suc length_dropWhile_le)

text \<open>The scalars with the property \<^verbatim>\<open>White_Space\<close>, encoded.\<close>

definition whitespaces :: "string list" where
  "whitespaces = map (map char_of) ([[9], [10], [11], [12], [13], [32], [0xC2, 0x85], [0xC2, 0xA0], [0xE1, 0x9A, 0x80]]
     @ map (\<lambda>b. [0xE2, 0x80, b]) [0x80, 0x81, 0x82, 0x83, 0x84, 0x85, 0x86, 0x87, 0x88, 0x89, 0x8A, 0xA8, 0xA9, 0xAF]
     @ [[0xE2, 0x81, 0x9F], [0xE3, 0x80, 0x80 :: nat]])"

definition is_whitespace :: "string \<Rightarrow> bool" where
  "is_whitespace ch \<longleftrightarrow> ch \<in> set whitespaces"

definition has_whitespace :: "string \<Rightarrow> bool" where
  "has_whitespace s \<longleftrightarrow> list_ex is_whitespace (chars_of s)"

definition uni_trim :: "string \<Rightarrow> string" where
  "uni_trim s = concat (rev (dropWhile is_whitespace (rev (dropWhile is_whitespace (chars_of s)))))"

fun replace_all :: "string \<Rightarrow> string \<Rightarrow> string \<Rightarrow> string" where
  "replace_all pat rep [] = []"
| "replace_all pat rep (c # cs) =
     (if pat \<noteq> [] \<and> starts_with pat (c # cs) then rep @ replace_all pat rep (drop (length pat - 1) cs) else c # replace_all pat rep cs)"

definition ends_with :: "char \<Rightarrow> string \<Rightarrow> bool" where
  "ends_with c s \<longleftrightarrow> s \<noteq> [] \<and> last s = c"

section \<open>Identifiers\<close>

datatype DomainId = DomainId (as_str: string)

definition MAX_LEN :: nat where "MAX_LEN = 64"

abbreviation invalid :: "string \<Rightarrow> 'a result" where
  "invalid msg \<equiv> Err (DomainE (DomainInvalid msg))"

definition validate_domain_id :: "string \<Rightarrow> unit result" where
  "validate_domain_id s =
     (if s = [] then invalid ''domain id must not be empty''
      else if MAX_LEN < length (chars_of s) then invalid (''domain id must not exceed '' @ show_nat MAX_LEN @ '' characters'')
      else if CHR ''*'' \<in> set s then invalid (''domain id must not contain '' @ [CHR 0x27] @ ''*'' @ [CHR 0x27])
      else if CHR ''$'' \<in> set s then invalid (''domain id must not contain '' @ [CHR 0x27] @ ''$'' @ [CHR 0x27])
      else if starts_with ''_'' s then invalid (''domain id must not start with '' @ [CHR 0x27] @ ''_'' @ [CHR 0x27])
      else if has_whitespace s then invalid ''domain id must not contain whitespace''
      else Ok ())"

definition domain_id_new :: "string \<Rightarrow> DomainId result" where
  "domain_id_new s = rbind (validate_domain_id s) (\<lambda>_. Ok (DomainId s))"

section \<open>Namespaces\<close>

record Namespace =
  ns_root :: string

definition validate_namespace_root :: "string \<Rightarrow> unit result" where
  "validate_namespace_root s =
     (if s = [] then invalid ''namespace root must not be empty''
      else if starts_with ''/'' s then invalid ''namespace root must not have leading slash''
      else if ends_with (CHR ''/'') s then invalid ''namespace root must not have trailing slash''
      else if str_contains ''//'' s then invalid ''namespace root must not contain empty segments''
      else if CHR ''*'' \<in> set s then invalid (''namespace root must not contain '' @ [CHR 0x27] @ ''*'' @ [CHR 0x27])
      else if CHR ''$'' \<in> set s then invalid (''namespace root must not contain '' @ [CHR 0x27] @ ''$'' @ [CHR 0x27])
      else if starts_with ''_'' s then invalid (''namespace root must not start with '' @ [CHR 0x27] @ ''_'' @ [CHR 0x27])
      else if has_whitespace s then invalid ''namespace root must not contain whitespace''
      else Ok ())"

definition validate_suffix :: "string \<Rightarrow> unit result" where
  "validate_suffix s =
     (if s = [] then invalid ''suffix must not be empty''
      else if str_contains ''//'' s then invalid ''suffix must not contain empty segments''
      else if CHR ''*'' \<in> set s then invalid (''suffix must not contain '' @ [CHR 0x27] @ ''*'' @ [CHR 0x27])
      else if CHR ''$'' \<in> set s then invalid (''suffix must not contain '' @ [CHR 0x27] @ ''$'' @ [CHR 0x27])
      else if has_whitespace s then invalid ''suffix must not contain whitespace''
      else Ok ())"

definition DEFAULT_ROOT_TEMPLATE :: string where
  "DEFAULT_ROOT_TEMPLATE = ''mitiflow/{domain_id}''"

definition from_root :: "string \<Rightarrow> Namespace result" where
  "from_root s = rbind (validate_namespace_root s) (\<lambda>_. Ok \<lparr>ns_root = s\<rparr>)"

definition namespace_new :: "DomainId \<Rightarrow> Namespace result" where
  "namespace_new i = from_root (replace_all ''{domain_id}'' (as_str i) DEFAULT_ROOT_TEMPLATE)"

definition derive :: "Namespace \<Rightarrow> string \<Rightarrow> string result" where
  "derive ns suff =
     rbind (validate_suffix suff) (\<lambda>_.
       if starts_with ''/'' suff then invalid (''suffix must not start with '' @ [CHR 0x27] @ ''/'' @ [CHR 0x27])
       else if ends_with (CHR ''/'') suff then invalid (''suffix must not end with '' @ [CHR 0x27] @ ''/'' @ [CHR 0x27])
       else Ok (ns_root ns @ ''/'' @ suff))"

section \<open>Transport\<close>

datatype TransportProfile = LocalIsolated | TClient (connect: "string list") | PeerMesh (connect: "string list") | Ambient

text \<open>
  What the code calls of Zenoh, serde and the sockets: a configuration object with failing insertions, the
  session, lists of strings as JSON, and the address of a listener on a free local port (binding and reading
  the address fail separately).
\<close>

record ('z, 's) zenoh_api =
  zc_default :: 'z
  insert_json5 :: "'z \<Rightarrow> string \<Rightarrow> string \<Rightarrow> 'z result"
  get_json :: "'z \<Rightarrow> string \<Rightarrow> string option"
  zenoh_open :: "'z \<Rightarrow> 's result"
  to_json :: "string list \<Rightarrow> string result"
  from_json :: "string \<Rightarrow> string list option"
  tcp_bind :: "string + (string + string)"

definition local_ephemeral_tcp_endpoint :: "('z, 's) zenoh_api \<Rightarrow> string result" where
  "local_ephemeral_tcp_endpoint api =
     (case tcp_bind api of
        Err e \<Rightarrow> invalid (''failed to reserve local endpoint: '' @ e)
      | Ok (Err e) \<Rightarrow> invalid (''failed to read local endpoint: '' @ e)
      | Ok (Ok addr) \<Rightarrow> Ok (''tcp/'' @ addr))"

definition quoted_json :: "string \<Rightarrow> string" where
  "quoted_json s = CHR 0x22 # s @ [CHR 0x22]"

text \<open>The four insertions that close every profile but the ambient one.\<close>

definition close_scouting :: "('z, 's) zenoh_api \<Rightarrow> 'z \<Rightarrow> 'z result" where
  "close_scouting api c =
     rbind (insert_json5 api c ''scouting/multicast/enabled'' ''false'') (\<lambda>c.
     rbind (insert_json5 api c ''scouting/gossip/enabled'' ''false'') (\<lambda>c.
     insert_json5 api c ''timestamping/enabled'' ''true''))"

definition insert_endpoints :: "('z, 's) zenoh_api \<Rightarrow> string \<Rightarrow> string list \<Rightarrow> 'z \<Rightarrow> 'z result" where
  "insert_endpoints api key eps c = rbind (to_json api eps) (\<lambda>j. insert_json5 api c key j)"

definition local_isolated_config :: "('z, 's) zenoh_api \<Rightarrow> 'z result" where
  "local_isolated_config api =
     rbind (local_ephemeral_tcp_endpoint api) (\<lambda>ep.
     rbind (insert_json5 api (zc_default api) ''mode'' (quoted_json ''peer'')) (\<lambda>c.
     rbind (insert_endpoints api ''listen/endpoints'' [ep] c) (\<lambda>c.
     close_scouting api c)))"

definition client_config :: "('z, 's) zenoh_api \<Rightarrow> string list \<Rightarrow> 'z result" where
  "client_config api eps =
     (if eps = [] then Err (DomainE (EmptyEndpoints ''Client''))
      else rbind (insert_json5 api (zc_default api) ''mode'' (quoted_json ''client'')) (\<lambda>c.
           rbind (insert_endpoints api ''connect/endpoints'' eps c) (\<lambda>c.
           close_scouting api c)))"

definition peer_mesh_config :: "('z, 's) zenoh_api \<Rightarrow> string list \<Rightarrow> 'z result" where
  "peer_mesh_config api eps =
     (if eps = [] then Err (DomainE (EmptyEndpoints ''PeerMesh''))
      else rbind (local_ephemeral_tcp_endpoint api) (\<lambda>ep.
           rbind (insert_json5 api (zc_default api) ''mode'' (quoted_json ''peer'')) (\<lambda>c.
           rbind (insert_endpoints api ''listen/endpoints'' [ep] c) (\<lambda>c.
           rbind (insert_endpoints api ''connect/endpoints'' eps c) (\<lambda>c.
           close_scouting api c)))))"

definition ambient_config :: "('z, 's) zenoh_api \<Rightarrow> 'z result" where
  "ambient_config api = insert_json5 api (zc_default api) ''timestamping/enabled'' ''true''"

fun to_zenoh_config :: "('z, 's) zenoh_api \<Rightarrow> TransportProfile \<Rightarrow> 'z result" where
  "to_zenoh_config api LocalIsolated = local_isolated_config api"
| "to_zenoh_config api (TClient eps) = client_config api eps"
| "to_zenoh_config api (PeerMesh eps) = peer_mesh_config api eps"
| "to_zenoh_config api Ambient = ambient_config api"

section \<open>Opening a domain\<close>

record 's MitiflowDomain =
  dom_id :: DomainId
  dom_namespace :: Namespace
  dom_transport :: TransportProfile
  dom_session :: 's
  dom_local_endpoint :: "string option"

record MitiflowDomainBuilder =
  db_id :: "DomainId result"
  db_namespace :: "Namespace option"
  db_transport :: TransportProfile

definition domain_builder :: "string \<Rightarrow> MitiflowDomainBuilder" where
  "domain_builder i = \<lparr>db_id = domain_id_new i, db_namespace = None, db_transport = LocalIsolated\<rparr>"

definition resolve_local_endpoint :: "('z, 's) zenoh_api \<Rightarrow> 'z \<Rightarrow> TransportProfile \<Rightarrow> string option" where
  "resolve_local_endpoint api c t =
     (let listening = Option.bind (get_json api c ''listen/endpoints'') (\<lambda>j. Option.bind (from_json api j)
            (\<lambda>eps. case eps of [] \<Rightarrow> None | e # _ \<Rightarrow> Some e)) in
      case t of LocalIsolated \<Rightarrow> listening | PeerMesh _ \<Rightarrow> listening | TClient _ \<Rightarrow> None | Ambient \<Rightarrow> None)"

definition open_domain :: "('z, 's) zenoh_api \<Rightarrow> MitiflowDomainBuilder \<Rightarrow> 's MitiflowDomain result" where
  "open_domain api b =
     rbind (db_id b) (\<lambda>i.
     rbind (case db_namespace b of Some ns \<Rightarrow> Ok ns | None \<Rightarrow> namespace_new i) (\<lambda>ns.
     rbind (to_zenoh_config api (db_transport b)) (\<lambda>c.
     rbind (zenoh_open api c) (\<lambda>s.
     Ok \<lparr>dom_id = i, dom_namespace = ns, dom_transport = db_transport b, dom_session = s,
         dom_local_endpoint = resolve_local_endpoint api c (db_transport b)\<rparr>))))"

definition event_bus_config :: "'f \<Rightarrow> 'q \<Rightarrow> 's MitiflowDomain \<Rightarrow> string \<Rightarrow> ('f, 'q) EventBusConfigBuilder result" where
  "event_bus_config threshold_0_8 block dmn topic =
     rbind (derive (dom_namespace dmn) (''topics/'' @ topic)) (\<lambda>p. Ok (builder_new threshold_0_8 block p))"

text \<open>Names of test domains: every run of other scalars becomes one dash.\<close>

fun component_loop :: "(string \<Rightarrow> bool) \<Rightarrow> nat \<Rightarrow> bool \<Rightarrow> string list \<Rightarrow> string list \<Rightarrow> string list" where
  "component_loop alnum max_chars last_dash res [] = res"
| "component_loop alnum max_chars last_dash res (c # cs) =
     (let (res, last_dash) =
        (if alnum c then (res @ [c], False) else if \<not> last_dash \<and> res \<noteq> [] then (res @ [''-''], True) else (res, last_dash)) in
      if max_chars \<le> length res then res else component_loop alnum max_chars last_dash res cs)"

definition bounded_domain_component :: "(string \<Rightarrow> bool) \<Rightarrow> string \<Rightarrow> nat \<Rightarrow> string" where
  "bounded_domain_component alnum value max_chars =
     (let res = rev (dropWhile (\<lambda>c. c = ''-'') (rev (component_loop alnum max_chars False [] (chars_of value)))) in
      if res = [] then ''test'' else concat res)"

definition sanitize_test_name :: "(string \<Rightarrow> bool) \<Rightarrow> string \<Rightarrow> string" where
  "sanitize_test_name alnum name =
     bounded_domain_component alnum (concat (component_loop alnum 31 False [] (chars_of name))) 31"

definition isolated_for_test :: "('z, 's) zenoh_api \<Rightarrow> (string \<Rightarrow> bool) \<Rightarrow> string \<Rightarrow> string \<Rightarrow> 's MitiflowDomain result" where
  "isolated_for_test api alnum uuid test_name =
     open_domain api ((domain_builder (sanitize_test_name alnum test_name @ ''-'' @ uuid))\<lparr>db_transport := LocalIsolated\<rparr>)"

definition join_isolated :: "('z, 's) zenoh_api \<Rightarrow> (string \<Rightarrow> bool) \<Rightarrow> string \<Rightarrow> 's MitiflowDomain \<Rightarrow> 's MitiflowDomain result" where
  "join_isolated api alnum uuid dmn =
     (case dom_local_endpoint dmn of
        None \<Rightarrow> invalid ''parent domain has no local endpoint (Client/Ambient transport)''
      | Some ep \<Rightarrow>
          open_domain api ((domain_builder (bounded_domain_component alnum (as_str (dom_id dmn)) 24 @ ''-child-'' @ uuid))
            \<lparr>db_namespace := Some (dom_namespace dmn), db_transport := TClient [ep]\<rparr>))"

section \<open>Settings of the binaries\<close>

record DomainYamlConfig =
  dy_id :: "string option"
  dy_namespace :: "string option"

record TransportYamlConfig =
  ty_profile :: "string option"
  ty_connect :: "string list"

record DomainRuntimeConfig =
  drc_id :: string
  drc_namespace :: "string option"
  drc_transport :: TransportProfile

definition env_non_empty :: "(string \<Rightarrow> string option) \<Rightarrow> string \<Rightarrow> string option" where
  "env_non_empty env name = Option.bind (env name) (\<lambda>v. if uni_trim v = [] then None else Some (uni_trim v))"

definition or_else :: "'a option \<Rightarrow> 'a option \<Rightarrow> 'a option" where
  "or_else x y = (case x of None \<Rightarrow> y | Some _ \<Rightarrow> x)"

definition unwrap_or :: "'a \<Rightarrow> 'a option \<Rightarrow> 'a" where
  "unwrap_or d x = (case x of None \<Rightarrow> d | Some y \<Rightarrow> y)"

definition normalize_connect :: "string list \<Rightarrow> string list" where
  "normalize_connect eps = filter (\<lambda>e. e \<noteq> []) (map uni_trim eps)"

definition split_connect :: "string \<Rightarrow> string list" where
  "split_connect s = filter (\<lambda>e. e \<noteq> []) (map uni_trim (split_on (\<lambda>c. c = CHR '','') s))"

definition normalize_profile :: "(string \<Rightarrow> string) \<Rightarrow> string \<Rightarrow> string" where
  "normalize_profile lower profile = concat (map lower (filter (\<lambda>ch. ch \<noteq> ''-'' \<and> ch \<noteq> ''_'') (chars_of profile)))"

definition require_connect :: "string \<Rightarrow> string list \<Rightarrow> string list result" where
  "require_connect profile eps = (if eps = [] then Err (DomainE (EmptyEndpoints profile)) else Ok eps)"

definition resolve_transport_profile ::
  "(string \<Rightarrow> string option) \<Rightarrow> (string \<Rightarrow> string) \<Rightarrow> TransportYamlConfig option \<Rightarrow> TransportProfile result"
where
  "resolve_transport_profile env lower transport =
     (let profile = unwrap_or ''local-isolated'' (or_else (env_non_empty env ''MITIFLOW_TRANSPORT_PROFILE'')
            (Option.bind transport (\<lambda>t. map_option uni_trim (ty_profile t))));
          eps = (case env ''MITIFLOW_TRANSPORT_CONNECT'' of
                   Some s \<Rightarrow> split_connect s
                 | None \<Rightarrow> (case transport of Some t \<Rightarrow> normalize_connect (ty_connect t) | None \<Rightarrow> []));
          normalized = normalize_profile lower profile in
      if normalized = ''localisolated'' then Ok LocalIsolated
      else if normalized = ''client'' then rbind (require_connect ''client'' eps) (\<lambda>c. Ok (TClient c))
      else if normalized = ''peermesh'' then rbind (require_connect ''peer-mesh'' eps) (\<lambda>c. Ok (PeerMesh c))
      else if normalized = ''ambient'' then Ok Ambient
      else invalid (''unknown transport profile '' @ [CHR 0x27] @ profile @ [CHR 0x27] @ '' (normalized '' @ [CHR 0x27] @ normalized
             @ [CHR 0x27] @ ''; expected local-isolated, client, peer-mesh, or ambient)''))"

definition from_sources_with_transport ::
  "(string \<Rightarrow> string option) \<Rightarrow> (string \<Rightarrow> string) \<Rightarrow> string \<Rightarrow> DomainYamlConfig option \<Rightarrow> TransportYamlConfig option
     \<Rightarrow> TransportProfile option \<Rightarrow> DomainRuntimeConfig result"
where
  "from_sources_with_transport env lower default_id domain transport transport_override =
     (let i = unwrap_or default_id (or_else (env_non_empty env ''MITIFLOW_DOMAIN_ID'')
                (Option.bind domain (\<lambda>d. map_option uni_trim (dy_id d))));
          ns = or_else (env_non_empty env ''MITIFLOW_DOMAIN_NAMESPACE'') (Option.bind domain (\<lambda>d. map_option uni_trim (dy_namespace d))) in
      rbind (case transport_override of Some t \<Rightarrow> Ok t | None \<Rightarrow> resolve_transport_profile env lower transport) (\<lambda>t.
      Ok \<lparr>drc_id = i, drc_namespace = ns, drc_transport = t\<rparr>))"

definition from_sources where
  "from_sources env lower default_id domain transport = from_sources_with_transport env lower default_id domain transport None"

definition open_runtime :: "('z, 's) zenoh_api \<Rightarrow> DomainRuntimeConfig \<Rightarrow> 's MitiflowDomain result" where
  "open_runtime api rc =
     (let b = (domain_builder (drc_id rc))\<lparr>db_transport := drc_transport rc\<rparr> in
      case drc_namespace rc of
        None \<Rightarrow> open_domain api b
      | Some ns \<Rightarrow> rbind (from_root ns) (\<lambda>n. open_domain api (b\<lparr>db_namespace := Some n\<rparr>)))"

section \<open>Valid identifiers\<close>

text \<open>A scalar as bytes, and the scalars an identifier may be made of.\<close>

definition scalar :: "string \<Rightarrow> bool" where
  "scalar c \<longleftrightarrow> c \<noteq> [] \<and> \<not> is_cont (hd c) \<and> list_all is_cont (tl c)"

definition clean :: "string \<Rightarrow> bool" where
  "clean c \<longleftrightarrow> scalar c \<and> \<not> is_whitespace c \<and> hd c \<noteq> CHR ''_'' \<and> CHR ''*'' \<notin> set c \<and> CHR ''$'' \<notin> set c \<and> CHR ''/'' \<notin> set c"

definition hex :: "string \<Rightarrow> bool" where
  "hex u \<longleftrightarrow> set u \<subseteq> set ''0123456789abcdef''"

text \<open>What the code relies on of \<^verbatim>\<open>char::is_alphanumeric\<close>.\<close>

definition alnum_ok :: "(string \<Rightarrow> bool) \<Rightarrow> bool" where
  "alnum_ok alnum \<longleftrightarrow> (\<forall>c. alnum c \<longrightarrow> clean c) \<and> \<not> alnum ''-''"

lemma is_whitespace_single: "is_whitespace [c] \<longleftrightarrow> c \<in> set [CHR 9, CHR 10, CHR 11, CHR 12, CHR 13, CHR 32]"
  by (simp add: is_whitespace_def whitespaces_def char_of_def bit_0)

lemma clean_single:
  "clean [c] \<longleftrightarrow> \<not> is_cont c \<and> c \<notin> set [CHR 9, CHR 10, CHR 11, CHR 12, CHR 13, CHR 32, CHR ''_'', CHR ''*'', CHR ''$'', CHR ''/'']"
  by (auto simp: clean_def scalar_def is_whitespace_single)

lemma takeWhile_cont: "list_all is_cont t \<Longrightarrow> rest = [] \<or> \<not> is_cont (hd rest) \<Longrightarrow>
    takeWhile is_cont (t @ rest) = t \<and> dropWhile is_cont (t @ rest) = rest"
  by (induction t) (auto, (cases rest; simp)+)

lemma chars_of_scalar:
  assumes "scalar c" and "rest = [] \<or> \<not> is_cont (hd rest)"
  shows "chars_of (c @ rest) = c # chars_of rest"
  using assms takeWhile_cont[of "tl c" rest] by (cases c) (auto simp: scalar_def)

lemma hd_concat_scalar: "\<forall>c \<in> set cs. scalar c \<Longrightarrow> concat cs = [] \<or> \<not> is_cont (hd (concat cs))"
  by (cases cs) (auto simp: scalar_def hd_append)

lemma chars_of_concat: "\<forall>c \<in> set cs. scalar c \<Longrightarrow> chars_of (concat cs) = cs"
proof (induction cs)
  case (Cons c cs)
  then show ?case using chars_of_scalar[of c "concat cs"] hd_concat_scalar[of cs] by simp
qed simp

lemma clean_id_valid:
  assumes "cs \<noteq> []" and "\<forall>c \<in> set cs. clean c" and "length cs \<le> 64"
  shows "domain_id_new (concat cs) = Ok (DomainId (concat cs))"
proof -
  have sc: "\<forall>c \<in> set cs. scalar c" using assms(2) by (simp add: clean_def)
  obtain c cs' where cs: "cs = c # cs'" using assms(1) by (cases cs) auto
  then obtain h t where c: "c = h # t" "h \<noteq> CHR ''_''" using assms(2) by (cases c) (auto simp: clean_def scalar_def)
  have "concat cs \<noteq> []" "\<not> starts_with ''_'' (concat cs)" using cs c by simp_all
  moreover have "CHR ''*'' \<notin> set (concat cs)" "CHR ''$'' \<notin> set (concat cs)" using assms(2) by (auto simp: clean_def)
  moreover have "\<not> has_whitespace (concat cs)"
    using assms(2) by (auto simp: has_whitespace_def chars_of_concat[OF sc] list_ex_iff clean_def)
  ultimately show ?thesis
    using assms(3) by (simp add: domain_id_new_def validate_domain_id_def MAX_LEN_def chars_of_concat[OF sc])
qed

lemma component_loop_clean:
  assumes "alnum_ok alnum"
  shows "\<forall>c \<in> set res. clean c \<Longrightarrow> length res < n \<Longrightarrow>
    (\<forall>c \<in> set (component_loop alnum n ld res cs). clean c) \<and> length (component_loop alnum n ld res cs) \<le> n"
proof (induction cs arbitrary: ld res)
  case (Cons c cs)
  have dash: "clean ''-''" by (simp add: clean_single is_cont_def)
  have c: "alnum c \<Longrightarrow> clean c" using assms by (simp add: alnum_ok_def)
  consider "alnum c" | "\<not> alnum c" "\<not> ld \<and> res \<noteq> []" | "\<not> alnum c" "\<not> (\<not> ld \<and> res \<noteq> [])" by blast
  then show ?case
  proof cases
    case 1
    then show ?thesis using Cons.IH[of "res @ [c]" False] Cons.prems c by (cases "n \<le> Suc (length res)") (simp_all add: Let_def)
  next
    case 2
    then show ?thesis using Cons.IH[of "res @ [''-'']" True] Cons.prems dash by (cases "n \<le> Suc (length res)") (simp_all add: Let_def)
  next
    case 3
    then have "component_loop alnum n ld res (c # cs) = component_loop alnum n ld res cs"
      using Cons.prems(2) by (auto simp: Let_def not_le)
    then show ?thesis using Cons.IH[OF Cons.prems] by simp
  qed
qed auto

lemma bounded_component_clean:
  assumes "alnum_ok alnum" and "4 \<le> n"
  shows "\<exists>cs. bounded_domain_component alnum v n = concat cs \<and> cs \<noteq> [] \<and> (\<forall>c \<in> set cs. clean c) \<and> length cs \<le> n"
proof -
  let ?loop = "component_loop alnum n False [] (chars_of v)"
  let ?res = "rev (dropWhile (\<lambda>c. c = ''-'') (rev ?loop))"
  have loop: "\<forall>c \<in> set ?loop. clean c" "length ?loop \<le> n"
    using component_loop_clean[OF assms(1), of "[]" n] assms(2) by auto
  have "\<forall>c \<in> set ?res. clean c" using loop(1) set_dropWhileD by fastforce
  moreover have "length ?res \<le> n" using loop(2) length_dropWhile_le[of "\<lambda>c. c = ''-''" "rev ?loop"] by simp
  moreover have "\<forall>c \<in> set [''t'', ''e'', ''s'', ''t'']. clean c" by (simp add: clean_single is_cont_def)
  ultimately show ?thesis using assms(2)
    by (cases "?res = []") (auto simp: bounded_domain_component_def Let_def intro: exI[of _ "[''t'', ''e'', ''s'', ''t'']"] exI[of _ ?res])
qed

lemma hex_clean: "hex u \<Longrightarrow> \<forall>c \<in> set (map (\<lambda>c. [c]) u). clean c"
proof -
  have "\<forall>c \<in> set ''0123456789abcdef''. clean [c]" by (simp add: clean_single is_cont_def)
  then show "hex u \<Longrightarrow> ?thesis" by (auto simp: hex_def)
qed

lemma concat_chars: "concat (map (\<lambda>c. [c]) u) = u"
  by (induction u) simp_all

lemma generated_id:
  assumes "\<forall>c \<in> set cs. clean c" "cs \<noteq> []" and "\<forall>c \<in> set sep. clean [c]" and "hex u" and "length cs + length sep + length u \<le> 64"
  shows "domain_id_new (concat cs @ sep @ u) = Ok (DomainId (concat cs @ sep @ u)) \<and> CHR ''/'' \<notin> set (concat cs @ sep @ u)
    \<and> \<not> has_whitespace (''mitiflow/'' @ concat cs @ sep @ u)"
proof -
  let ?cs = "cs @ map (\<lambda>c. [c]) sep @ map (\<lambda>c. [c]) u"
  let ?root = "map (\<lambda>c. [c]) ''mitiflow/'' @ ?cs"
  have cl: "\<forall>c \<in> set ?cs. clean c" using assms(1,3) hex_clean[OF assms(4)] by auto
  have eq: "concat ?cs = concat cs @ sep @ u" by (simp add: concat_chars)
  have "\<forall>c \<in> set (map (\<lambda>c. [c]) ''mitiflow/''). scalar c \<and> \<not> is_whitespace c"
    by (simp add: scalar_def is_cont_def is_whitespace_single)
  then have root: "\<forall>c \<in> set ?root. scalar c \<and> \<not> is_whitespace c" using cl by (auto simp: clean_def)
  then have "chars_of (concat ?root) = ?root" by (intro chars_of_concat) blast
  then have "\<not> has_whitespace (''mitiflow/'' @ concat cs @ sep @ u)"
    using root by (simp add: has_whitespace_def concat_chars list_ex_iff)
  moreover have "CHR ''/'' \<notin> set (concat ?cs)"
  proof -
    have "\<forall>c \<in> set ?cs. CHR ''/'' \<notin> set c" using cl clean_def by blast
    then show ?thesis by (simp only: set_concat) blast
  qed
  ultimately show ?thesis using clean_id_valid[of ?cs] cl assms(2,5) by (simp add: eq)
qed

section \<open>Isolation of domains\<close>

lemma default_root: "replace_all ''{domain_id}'' i DEFAULT_ROOT_TEMPLATE = ''mitiflow/'' @ i"
  by (simp add: DEFAULT_ROOT_TEMPLATE_def)

lemma takeWhile_until: "c \<notin> set xs \<Longrightarrow> takeWhile (\<lambda>x. x \<noteq> c) (xs @ c # ys) = xs"
  by (induction xs) auto

lemma no_whitespace_single:
  assumes "\<forall>c \<in> set s. \<not> is_cont c \<and> c \<notin> set [CHR 9, CHR 10, CHR 11, CHR 12, CHR 13, CHR 32]"
  shows "\<not> has_whitespace s"
proof -
  have "\<forall>c \<in> set (map (\<lambda>c. [c]) s). scalar c" using assms by (auto simp: scalar_def)
  from chars_of_concat[OF this] show ?thesis
    using assms by (auto simp: has_whitespace_def concat_chars list_ex_iff is_whitespace_single)
qed

lemma derived_below:
  assumes "namespace_new i = Ok ns" and "derive ns s = Ok p" and "below p k"
  shows "\<exists>r. k = ''mitiflow/'' @ as_str i @ CHR ''/'' # r"
proof -
  have "ns_root ns = ''mitiflow/'' @ as_str i"
    using assms(1) by (auto simp: namespace_new_def from_root_def default_root)
  then have p: "p = ''mitiflow/'' @ as_str i @ CHR ''/'' # s" using assms(2) by (auto simp: derive_def split: if_splits)
  from assms(3) consider "k = p" | "starts_with (p @ ''/'') k" by (auto simp: below_def)
  then show ?thesis
  proof cases
    case 2
    then have "\<exists>r. k = p @ ''/'' @ r" by (auto simp: starts_with_iff)
    then show ?thesis using p by auto
  qed (use p in blast)
qed

text \<open>
  C37. Domains are isolated by their keys: with identifiers without a slash and default namespaces, no key
  expression is below prefixes that two different domains derive, whatever the topics and suffixes.
\<close>

theorem domain_isolation:
  assumes "namespace_new i = Ok n1" and "namespace_new j = Ok n2" and "i \<noteq> j"
    and "CHR ''/'' \<notin> set (as_str i)" and "CHR ''/'' \<notin> set (as_str j)"
    and "derive n1 s = Ok p" and "derive n2 t = Ok q"
  shows "\<not> (below p k \<and> below q k)"
proof
  assume "below p k \<and> below q k"
  then obtain r r' where k: "k = ''mitiflow/'' @ as_str i @ CHR ''/'' # r" "k = ''mitiflow/'' @ as_str j @ CHR ''/'' # r'"
    using derived_below assms by metis
  have "takeWhile (\<lambda>c. c \<noteq> CHR ''/'') (as_str i @ CHR ''/'' # r) = takeWhile (\<lambda>c. c \<noteq> CHR ''/'') (as_str j @ CHR ''/'' # r')"
    using k by simp
  then have "as_str i = as_str j" using assms(4,5) by (simp add: takeWhile_until)
  then show False using assms(3) by (simp add: DomainId.expand)
qed

text \<open>Identifiers with a slash are accepted, and two domains then share keys.\<close>

theorem slash_ids_collide:
  "\<exists>i j n1 n2 p. domain_id_new ''a'' = Ok i \<and> domain_id_new ''a/topics/b'' = Ok j \<and> i \<noteq> j
     \<and> namespace_new i = Ok n1 \<and> namespace_new j = Ok n2
     \<and> derive n1 (''topics/'' @ ''b/topics/c'') = Ok p \<and> derive n2 (''topics/'' @ ''c'') = Ok p"
proof -
  have ws: "\<not> has_whitespace ''a''" "\<not> has_whitespace ''a/topics/b''" "\<not> has_whitespace ''mitiflow/a''" "\<not> has_whitespace ''mitiflow/a/topics/b''"
    "\<not> has_whitespace ''topics/c''" "\<not> has_whitespace ''topics/b/topics/c''"
    by (rule no_whitespace_single, simp add: is_cont_def)+
  have "length (chars_of ''a'') \<le> 64" "length (chars_of ''a/topics/b'') \<le> 64" by code_simp+
  then have ids: "domain_id_new ''a'' = Ok (DomainId ''a'')" "domain_id_new ''a/topics/b'' = Ok (DomainId ''a/topics/b'')"
    using ws(1,2) by (simp_all add: domain_id_new_def validate_domain_id_def MAX_LEN_def not_less)
  have ns: "namespace_new (DomainId ''a'') = Ok \<lparr>ns_root = ''mitiflow/a''\<rparr>"
    "namespace_new (DomainId ''a/topics/b'') = Ok \<lparr>ns_root = ''mitiflow/a/topics/b''\<rparr>"
    using ws(3,4) by (simp_all add: namespace_new_def default_root from_root_def validate_namespace_root_def ends_with_def str_contains_def)
  have "derive \<lparr>ns_root = ''mitiflow/a''\<rparr> (''topics/'' @ ''b/topics/c'') = Ok ''mitiflow/a/topics/b/topics/c''"
    "derive \<lparr>ns_root = ''mitiflow/a/topics/b''\<rparr> (''topics/'' @ ''c'') = Ok ''mitiflow/a/topics/b/topics/c''"
    using ws(5,6) by (simp_all add: derive_def validate_suffix_def ends_with_def str_contains_def)
  then show ?thesis using ids ns by (intro exI conjI) (assumption | simp)+
qed

theorem domain_isolation_witness:
  "namespace_new (DomainId ''a'') = Ok \<lparr>ns_root = ''mitiflow/a''\<rparr> \<and> namespace_new (DomainId ''b'') = Ok \<lparr>ns_root = ''mitiflow/b''\<rparr>
   \<and> \<not> (below ''mitiflow/a/t'' ''mitiflow/a/t/k'' \<and> below ''mitiflow/b/t'' ''mitiflow/a/t/k'')"
proof -
  have ws: "\<not> has_whitespace ''t''" "\<not> has_whitespace ''mitiflow/a''" "\<not> has_whitespace ''mitiflow/b''"
    by (rule no_whitespace_single, simp add: is_cont_def)+
  have ns: "namespace_new (DomainId ''a'') = Ok \<lparr>ns_root = ''mitiflow/a''\<rparr>" "namespace_new (DomainId ''b'') = Ok \<lparr>ns_root = ''mitiflow/b''\<rparr>"
    using ws(2,3) by (simp_all add: namespace_new_def default_root from_root_def validate_namespace_root_def ends_with_def str_contains_def)
  have "derive \<lparr>ns_root = ''mitiflow/a''\<rparr> ''t'' = Ok ''mitiflow/a/t''" "derive \<lparr>ns_root = ''mitiflow/b''\<rparr> ''t'' = Ok ''mitiflow/b/t''"
    using ws(1) by (simp_all add: derive_def validate_suffix_def ends_with_def str_contains_def)
  from domain_isolation[OF ns _ _ _ this, of "''mitiflow/a/t/k''"] show ?thesis using ns by simp
qed

section \<open>Test domains\<close>

text \<open>
  What the code relies on of the configuration object: an insertion of one of these settings succeeds, is
  read back and changes no other setting; endpoint lists accepted by \<open>valid\<close> survive as JSON.
\<close>

definition setting_ok :: "('z, 's) zenoh_api \<Rightarrow> string \<Rightarrow> bool" where
  "setting_ok api k \<longleftrightarrow> (\<forall>c v. \<exists>c'. insert_json5 api c k v = Ok c' \<and> get_json api c' k = Some v
     \<and> (\<forall>k'. k' \<noteq> k \<longrightarrow> get_json api c' k' = get_json api c k'))"

definition endpoints_ok :: "('z, 's) zenoh_api \<Rightarrow> (string list \<Rightarrow> bool) \<Rightarrow> string \<Rightarrow> bool" where
  "endpoints_ok api valid k \<longleftrightarrow> (\<forall>c eps. valid eps \<longrightarrow> (\<exists>j j' c'. to_json api eps = Ok j \<and> insert_json5 api c k j = Ok c'
     \<and> get_json api c' k = Some j' \<and> from_json api j' = Some eps \<and> (\<forall>k'. k' \<noteq> k \<longrightarrow> get_json api c' k' = get_json api c k')))"

definition zenoh_ok :: "('z, 's) zenoh_api \<Rightarrow> (string list \<Rightarrow> bool) \<Rightarrow> bool" where
  "zenoh_ok api valid \<longleftrightarrow>
     (\<forall>k \<in> {''mode'', ''scouting/multicast/enabled'', ''scouting/gossip/enabled'', ''timestamping/enabled''}. setting_ok api k)
   \<and> (\<forall>k \<in> {''listen/endpoints'', ''connect/endpoints''}. endpoints_ok api valid k)"

text \<open>No scouting, so the session meets only the endpoints it is given.\<close>

definition closed_config :: "('z, 's) zenoh_api \<Rightarrow> 'z \<Rightarrow> bool" where
  "closed_config api c \<longleftrightarrow>
     get_json api c ''scouting/multicast/enabled'' = Some ''false'' \<and> get_json api c ''scouting/gossip/enabled'' = Some ''false''"

definition endpoints :: "('z, 's) zenoh_api \<Rightarrow> 'z \<Rightarrow> string \<Rightarrow> string list option" where
  "endpoints api c k = Option.bind (get_json api c k) (from_json api)"

lemma insert_setting:
  assumes "zenoh_ok api valid" and "k \<in> {''mode'', ''scouting/multicast/enabled'', ''scouting/gossip/enabled'', ''timestamping/enabled''}"
  shows "\<exists>c'. insert_json5 api c k v = Ok c' \<and> get_json api c' k = Some v \<and> (\<forall>k'. k' \<noteq> k \<longrightarrow> get_json api c' k' = get_json api c k')"
proof -
  have "setting_ok api k" using assms unfolding zenoh_ok_def by blast
  then show ?thesis unfolding setting_ok_def by blast
qed

lemma insert_endpoints_ok:
  assumes "zenoh_ok api valid" and "k \<in> {''listen/endpoints'', ''connect/endpoints''}" and "valid eps"
  shows "\<exists>c'. insert_endpoints api k eps c = Ok c' \<and> endpoints api c' k = Some eps
    \<and> (\<forall>k'. k' \<noteq> k \<longrightarrow> get_json api c' k' = get_json api c k')"
proof -
  have "endpoints_ok api valid k" using assms(1,2) unfolding zenoh_ok_def by blast
  then obtain j j' c' where "to_json api eps = Ok j" "insert_json5 api c k j = Ok c'" "get_json api c' k = Some j'" "from_json api j' = Some eps"
    "\<forall>k'. k' \<noteq> k \<longrightarrow> get_json api c' k' = get_json api c k'"
    using assms(3) unfolding endpoints_ok_def by blast
  then show ?thesis by (simp add: insert_endpoints_def endpoints_def)
qed

lemma close_scouting_ok:
  assumes "zenoh_ok api valid"
  obtains c' where "close_scouting api c = Ok c'" "closed_config api c'"
    "\<And>k. k \<notin> {''scouting/multicast/enabled'', ''scouting/gossip/enabled'', ''timestamping/enabled''} \<Longrightarrow> get_json api c' k = get_json api c k"
proof -
  obtain c1 where c1: "insert_json5 api c ''scouting/multicast/enabled'' ''false'' = Ok c1"
    "get_json api c1 ''scouting/multicast/enabled'' = Some ''false''"
    "\<And>k'. k' \<noteq> ''scouting/multicast/enabled'' \<Longrightarrow> get_json api c1 k' = get_json api c k'"
    using insert_setting[OF assms, of "''scouting/multicast/enabled''" c "''false''"] by auto
  obtain c2 where c2: "insert_json5 api c1 ''scouting/gossip/enabled'' ''false'' = Ok c2"
    "get_json api c2 ''scouting/gossip/enabled'' = Some ''false''"
    "\<And>k'. k' \<noteq> ''scouting/gossip/enabled'' \<Longrightarrow> get_json api c2 k' = get_json api c1 k'"
    using insert_setting[OF assms, of "''scouting/gossip/enabled''" c1 "''false''"] by auto
  obtain c3 where c3: "insert_json5 api c2 ''timestamping/enabled'' ''true'' = Ok c3"
    "\<And>k'. k' \<noteq> ''timestamping/enabled'' \<Longrightarrow> get_json api c3 k' = get_json api c2 k'"
    using insert_setting[OF assms, of "''timestamping/enabled''" c2 "''true''"] by auto
  show ?thesis
    by (rule that[of c3]) (simp_all add: close_scouting_def closed_config_def c1 c2 c3)
qed

lemma local_isolated_config_ok:
  assumes "zenoh_ok api valid" and "tcp_bind api = Ok (Ok addr)" and "valid [''tcp/'' @ addr]"
  obtains c where "local_isolated_config api = Ok c" "closed_config api c" "endpoints api c ''listen/endpoints'' = Some [''tcp/'' @ addr]"
proof -
  obtain c1 where c1: "insert_json5 api (zc_default api) ''mode'' (quoted_json ''peer'') = Ok c1"
    using insert_setting[OF assms(1), of "''mode''" "zc_default api" "quoted_json ''peer''"] by auto
  obtain c2 where c2: "insert_endpoints api ''listen/endpoints'' [''tcp/'' @ addr] c1 = Ok c2"
    "endpoints api c2 ''listen/endpoints'' = Some [''tcp/'' @ addr]"
    using insert_endpoints_ok[OF assms(1) _ assms(3), of "''listen/endpoints''" c1] by auto
  obtain c3 where c3: "close_scouting api c2 = Ok c3" "closed_config api c3"
    "\<And>k. k \<notin> {''scouting/multicast/enabled'', ''scouting/gossip/enabled'', ''timestamping/enabled''} \<Longrightarrow> get_json api c3 k = get_json api c2 k"
    by (rule close_scouting_ok[OF assms(1)]) blast
  show ?thesis
    by (rule that[of c3]) (use c1 c2 c3 in \<open>simp_all add: local_isolated_config_def local_ephemeral_tcp_endpoint_def assms(2) endpoints_def\<close>)
qed

lemma client_config_ok:
  assumes "zenoh_ok api valid" and "valid eps" and "eps \<noteq> []"
  obtains c where "client_config api eps = Ok c" "closed_config api c" "endpoints api c ''connect/endpoints'' = Some eps"
proof -
  obtain c1 where c1: "insert_json5 api (zc_default api) ''mode'' (quoted_json ''client'') = Ok c1"
    using insert_setting[OF assms(1), of "''mode''" "zc_default api" "quoted_json ''client''"] by auto
  obtain c2 where c2: "insert_endpoints api ''connect/endpoints'' eps c1 = Ok c2" "endpoints api c2 ''connect/endpoints'' = Some eps"
    using insert_endpoints_ok[OF assms(1) _ assms(2), of "''connect/endpoints''" c1] by auto
  obtain c3 where c3: "close_scouting api c2 = Ok c3" "closed_config api c3"
    "\<And>k. k \<notin> {''scouting/multicast/enabled'', ''scouting/gossip/enabled'', ''timestamping/enabled''} \<Longrightarrow> get_json api c3 k = get_json api c2 k"
    by (rule close_scouting_ok[OF assms(1)]) blast
  show ?thesis
    by (rule that[of c3]) (use c1 c2 c3 assms(3) in \<open>simp_all add: client_config_def endpoints_def\<close>)
qed

lemma generated_namespace:
  assumes "CHR ''/'' \<notin> set i" and "i \<noteq> []" and "CHR ''*'' \<notin> set i" "CHR ''$'' \<notin> set i" and "\<not> has_whitespace (''mitiflow/'' @ i)"
  shows "namespace_new (DomainId i) = Ok \<lparr>ns_root = ''mitiflow/'' @ i\<rparr>"
proof -
  have "\<not> str_contains ''//'' s" if "CHR ''/'' \<notin> set s" for s
    using that by (induction s) (auto simp: str_contains_def)
  then have "\<not> str_contains ''//'' (''mitiflow/'' @ i)"
    using assms(1,2) by (cases i) (auto simp: str_contains_def)
  moreover have "last (''mitiflow/'' @ i) \<noteq> CHR ''/''" using assms(1,2) by (metis last_appendR last_in_set)
  ultimately show ?thesis using assms(3-5) by (simp add: namespace_new_def default_root from_root_def validate_namespace_root_def ends_with_def)
qed

lemma generated_clean:
  assumes "domain_id_new i = Ok d" shows "i \<noteq> [] \<and> CHR ''*'' \<notin> set i \<and> CHR ''$'' \<notin> set i"
  using assms by (auto simp: domain_id_new_def validate_domain_id_def split: if_splits)

lemma sanitized_id:
  assumes "alnum_ok alnum" and "hex u" and "length u = 32"
  shows "\<exists>i. i = sanitize_test_name alnum name @ ''-'' @ u \<and> domain_id_new i = Ok (DomainId i) \<and> CHR ''/'' \<notin> set i
    \<and> namespace_new (DomainId i) = Ok \<lparr>ns_root = ''mitiflow/'' @ i\<rparr>"
proof -
  obtain cs where cs: "sanitize_test_name alnum name = concat cs" "cs \<noteq> []" "\<forall>c \<in> set cs. clean c" "length cs \<le> 31"
    using bounded_component_clean[OF assms(1), of 31] unfolding sanitize_test_name_def by auto
  have "\<forall>c \<in> set ''-''. clean [c]" by (simp add: clean_single is_cont_def)
  note g = generated_id[OF cs(3,2) this assms(2)]
  have g: "domain_id_new (concat cs @ ''-'' @ u) = Ok (DomainId (concat cs @ ''-'' @ u))" "CHR ''/'' \<notin> set (concat cs @ ''-'' @ u)"
    "\<not> has_whitespace (''mitiflow/'' @ concat cs @ ''-'' @ u)"
    using g cs(4) assms(3) by simp_all
  show ?thesis using g(1,2) generated_namespace[OF g(2) _ _ _ g(3)] generated_clean[OF g(1)] unfolding cs(1) by blast
qed

lemma child_id:
  assumes "alnum_ok alnum" and "hex u" and "length u = 32"
  shows "\<exists>i. i = bounded_domain_component alnum parent 24 @ ''-child-'' @ u \<and> domain_id_new i = Ok (DomainId i)"
proof -
  obtain cs where cs: "bounded_domain_component alnum parent 24 = concat cs" "cs \<noteq> []" "\<forall>c \<in> set cs. clean c" "length cs \<le> 24"
    using bounded_component_clean[OF assms(1), of 24] by auto
  have "\<forall>c \<in> set ''-child-''. clean [c]" by (simp add: clean_single is_cont_def)
  from generated_id[OF cs(3,2) this assms(2)] show ?thesis using cs(4) assms(3) unfolding cs(1) by simp
qed

text \<open>
  A test domain opens under every test name when the socket and the session do: its generated identifier
  is valid (at most 64 characters, no reserved or white-space character), it has the namespace of that
  identifier, and it listens on the reserved port only.  A second participant that joins it with any
  identifier of its own opens too, shares the namespace and connects to exactly that endpoint; neither
  session scouts for others.
\<close>

theorem test_domains_open_and_join:
  assumes "alnum_ok alnum" and "hex u" "length u = 32" and "hex v" "length v = 32"
    and "zenoh_ok api valid" and "tcp_bind api = Ok (Ok addr)" and "valid [''tcp/'' @ addr]" and "\<And>c. \<exists>s. zenoh_open api c = Ok s"
  shows "\<exists>d child c1 c2. isolated_for_test api alnum u test_name = Ok d \<and> join_isolated api alnum v d = Ok child
    \<and> as_str (dom_id d) = sanitize_test_name alnum test_name @ ''-'' @ u
    \<and> dom_namespace d = \<lparr>ns_root = ''mitiflow/'' @ as_str (dom_id d)\<rparr> \<and> CHR ''/'' \<notin> set (as_str (dom_id d))
    \<and> dom_namespace child = dom_namespace d
    \<and> to_zenoh_config api (dom_transport d) = Ok c1 \<and> closed_config api c1 \<and> endpoints api c1 ''listen/endpoints'' = Some [''tcp/'' @ addr]
    \<and> to_zenoh_config api (dom_transport child) = Ok c2 \<and> closed_config api c2
    \<and> endpoints api c2 ''connect/endpoints'' = Some [''tcp/'' @ addr]"
proof -
  obtain i where i: "i = sanitize_test_name alnum test_name @ ''-'' @ u" "domain_id_new i = Ok (DomainId i)" "CHR ''/'' \<notin> set i"
    "namespace_new (DomainId i) = Ok \<lparr>ns_root = ''mitiflow/'' @ i\<rparr>" using sanitized_id[OF assms(1-3)] by blast
  obtain k where k: "k = bounded_domain_component alnum i 24 @ ''-child-'' @ v" "domain_id_new k = Ok (DomainId k)"
    using child_id[OF assms(1,4,5)] by blast
  obtain c1 where c1: "local_isolated_config api = Ok c1" "closed_config api c1" "endpoints api c1 ''listen/endpoints'' = Some [''tcp/'' @ addr]"
    by (rule local_isolated_config_ok[OF assms(6-8)])
  obtain c2 where c2: "client_config api [''tcp/'' @ addr] = Ok c2" "closed_config api c2" "endpoints api c2 ''connect/endpoints'' = Some [''tcp/'' @ addr]"
    by (rule client_config_ok[OF assms(6,8)]) auto
  obtain s1 s2 where s: "zenoh_open api c1 = Ok s1" "zenoh_open api c2 = Ok s2" using assms(9) by meson
  let ?d = "\<lparr>dom_id = DomainId i, dom_namespace = \<lparr>ns_root = ''mitiflow/'' @ i\<rparr>, dom_transport = LocalIsolated, dom_session = s1,
    dom_local_endpoint = Some (''tcp/'' @ addr)\<rparr>"
  let ?child = "\<lparr>dom_id = DomainId k, dom_namespace = \<lparr>ns_root = ''mitiflow/'' @ i\<rparr>, dom_transport = TClient [''tcp/'' @ addr], dom_session = s2,
    dom_local_endpoint = None\<rparr>"
  have listen: "resolve_local_endpoint api c1 LocalIsolated = Some (''tcp/'' @ addr)"
    using c1(3) by (auto simp: resolve_local_endpoint_def endpoints_def bind_eq_Some_conv)
  have "isolated_for_test api alnum u test_name = Ok ?d"
    unfolding isolated_for_test_def i(1)[symmetric] using i(2,4) c1(1) s(1) listen by (simp add: open_domain_def domain_builder_def)
  moreover have "join_isolated api alnum v ?d = Ok ?child"
    using k(2)[unfolded k(1)] c2(1) s(2) by (simp add: join_isolated_def k(1) open_domain_def domain_builder_def resolve_local_endpoint_def)
  ultimately show ?thesis
    using i(1,3) c1 c2 by (intro exI[of _ ?d] exI[of _ ?child] exI[of _ c1] exI[of _ c2]) simp
qed

text \<open>A configuration object in memory, for endpoint lists of one element.\<close>

definition demo_api :: "(string \<Rightarrow> string option, unit) zenoh_api" where
  "demo_api = \<lparr>zc_default = (\<lambda>_. None), insert_json5 = (\<lambda>c k v. Ok (c(k := Some v))), get_json = (\<lambda>c k. c k),
     zenoh_open = (\<lambda>_. Ok ()), to_json = (\<lambda>eps. Ok (concat eps)), from_json = (\<lambda>s. Some [s]), tcp_bind = Ok (Ok ''127.0.0.1:7'')\<rparr>"

definition ascii_alnum :: "string \<Rightarrow> bool" where
  "ascii_alnum c \<longleftrightarrow> (\<exists>x \<in> set ''0123456789abcdefghijklmnopqrstuvwxyzABCDEFGHIJKLMNOPQRSTUVWXYZ''. c = [x])"

theorem test_domains_open_and_join_witness:
  "\<exists>d child. isolated_for_test demo_api ascii_alnum (replicate 32 (CHR ''0'')) ''my test!'' = Ok d
     \<and> join_isolated demo_api ascii_alnum (replicate 32 (CHR ''1'')) d = Ok child \<and> dom_namespace child = dom_namespace d"
proof -
  have a: "alnum_ok ascii_alnum"
  proof -
    have "\<forall>x \<in> set ''0123456789abcdefghijklmnopqrstuvwxyzABCDEFGHIJKLMNOPQRSTUVWXYZ''. clean [x]" by (simp add: clean_single is_cont_def)
    then show ?thesis by (auto simp: alnum_ok_def ascii_alnum_def)
  qed
  have h: "hex (replicate 32 (CHR ''0''))" "length (replicate 32 (CHR ''0'')) = 32" "hex (replicate 32 (CHR ''1''))" "length (replicate 32 (CHR ''1'')) = 32"
    by (simp_all add: hex_def)
  have s: "setting_ok demo_api k" for k by (simp add: setting_ok_def demo_api_def)
  have e: "endpoints_ok demo_api (\<lambda>eps. length eps = 1) k" for k
    by (auto simp: endpoints_ok_def demo_api_def length_Suc_conv)
  have z: "zenoh_ok demo_api (\<lambda>eps. length eps = 1)" unfolding zenoh_ok_def using s e by blast
  have t: "tcp_bind demo_api = Ok (Ok ''127.0.0.1:7'')" by (simp add: demo_api_def)
  have opens: "\<exists>s. zenoh_open demo_api c = Ok s" for c by (simp add: demo_api_def)
  show ?thesis using test_domains_open_and_join[OF a h z t _ opens, of "''my test!''"] by auto
qed

section \<open>Resolved settings\<close>

lemma require_connect_ok: "require_connect p eps = Ok c \<Longrightarrow> c = eps \<and> eps \<noteq> []"
  by (auto simp: require_connect_def split: if_splits)

text \<open>
  A resolved transport profile names only non-blank endpoints, and at least one where the profile needs
  one: opening it never fails for missing endpoints.
\<close>

theorem resolved_transport_has_endpoints:
  assumes "resolve_transport_profile env lower transport = Ok t"
  shows "t = LocalIsolated \<or> t = Ambient \<or> (\<exists>eps. (t = TClient eps \<or> t = PeerMesh eps) \<and> eps \<noteq> [] \<and> [] \<notin> set eps)"
proof -
  have "[] \<notin> set (split_connect s)" "[] \<notin> set (normalize_connect l)" for s l
    by (simp_all add: split_connect_def normalize_connect_def)
  then show ?thesis
    using assms by (auto simp: resolve_transport_profile_def Let_def dest!: require_connect_ok split: if_splits option.splits)
qed

end
