(* ===== verification/Alerts.thy ===== *)
theory Alerts
  imports Overrides Orchestrator
begin

text \<open>
  Health of the cluster as the orchestrator reports it: the alert manager
  (\<^verbatim>\<open>mitiflow-orchestrator/src/alert_manager.rs\<close>) over the cluster view and the stored topics, and
  the tracker of live stores (\<^verbatim>\<open>mitiflow-orchestrator/src/lifecycle.rs\<close>).  The rendering of a
  time, the JSON of an alert and the type of the unused disk threshold are parameters.
\<close>

section \<open>Alerts\<close>

datatype AlertSeverity = Warning | Critical

datatype AlertCategory = UnderReplicated | NodeOffline | HighDiskUsage | HighEventBacklog

record Alert =
  al_id :: string
  al_severity :: AlertSeverity
  al_category :: AlertCategory
  al_message :: string
  al_timestamp :: DateTime
  al_subject :: string

record 'f AlertManagerConfig =
  am_check_interval :: Duration
  am_disk_usage_threshold :: 'f
  am_backlog_threshold :: u64
  am_offline_grace_period :: Duration

definition alert_config_default :: "'f \<Rightarrow> 'f AlertManagerConfig" where
  "alert_config_default threshold_0_8 = \<lparr>am_check_interval = secs 10, am_disk_usage_threshold = threshold_0_8,
     am_backlog_threshold = 100000, am_offline_grace_period = secs 60\<rparr>"

definition grace_period :: "Duration \<Rightarrow> int" where
  "grace_period d = (if d \<le> (2 ^ 63 - 1) * 1000000 then int d else int (secs 60))"

definition offline_alert :: "(DateTime \<Rightarrow> string) \<Rightarrow> 'f AlertManagerConfig \<Rightarrow> DateTime \<Rightarrow> string \<Rightarrow> NodeInfo \<Rightarrow> Alert" where
  "offline_alert fmt config now nid info =
     \<lparr>al_id = ''node-offline-'' @ nid,
      al_severity = (if grace_period (am_offline_grace_period config) < now - ni_last_seen info then Critical else Warning),
      al_category = NodeOffline,
      al_message = ''Node '' @ [CHR 0x27] @ nid @ [CHR 0x27] @ '' has been offline since '' @ fmt (ni_last_seen info),
      al_timestamp = now, al_subject = nid\<rparr>"

text \<open>Entries of the status reports of online nodes, counted per partition below \<open>num\<close>.\<close>

definition count_entry :: "u32 \<Rightarrow> PartitionStatus \<Rightarrow> (u32, u32) hmap \<Rightarrow> (u32, u32) hmap" where
  "count_entry num ps counts =
     (if ps_partition ps < num
      then hm_insert (ps_partition ps) ((case hm_get counts (ps_partition ps) of Some n \<Rightarrow> n | None \<Rightarrow> 0) + 1) counts else counts)"

definition partition_replicas :: "u32 \<Rightarrow> cluster_nodes \<Rightarrow> (u32, u32) hmap" where
  "partition_replicas num nodes =
     fold (\<lambda>(nid, info) counts.
       if \<not> ni_online info then counts
       else case ni_status info of None \<Rightarrow> counts | Some status \<Rightarrow> fold (count_entry num) (ns_partitions status) counts)
       nodes []"

definition replica_alert :: "DateTime \<Rightarrow> TopicConfig \<Rightarrow> u32 \<Rightarrow> u32 \<Rightarrow> Alert" where
  "replica_alert now topic p actual =
     \<lparr>al_id = ''under-replicated-'' @ tc_name topic @ ''-p'' @ show_word p,
      al_severity = (if actual = 0 then Critical else Warning),
      al_category = UnderReplicated,
      al_message = ''Topic '' @ [CHR 0x27] @ tc_name topic @ [CHR 0x27] @ '' partition '' @ show_word p @ '': '' @ show_word actual
        @ ''/'' @ show_word (tc_replication_factor topic) @ '' replicas online'',
      al_timestamp = now, al_subject = tc_name topic\<rparr>"

definition topic_alerts :: "DateTime \<Rightarrow> cluster_nodes \<Rightarrow> TopicConfig \<Rightarrow> Alert list" where
  "topic_alerts now nodes topic =
     (if tc_replication_factor topic \<le> 1 then []
      else let counts = partition_replicas (tc_num_partitions topic) nodes in
        concat (map (\<lambda>p. let actual = (case hm_get counts p of Some n \<Rightarrow> n | None \<Rightarrow> 0) in
            if actual < tc_replication_factor topic then [replica_alert now topic p actual] else [])
          (map of_nat [0..<unat (tc_num_partitions topic)])))"

definition check_cluster_health ::
  "(DateTime \<Rightarrow> string) \<Rightarrow> DateTime \<Rightarrow> 'd fjall_ops \<Rightarrow> TopicConfig commit_codec \<Rightarrow> 'd \<Rightarrow> 'f AlertManagerConfig \<Rightarrow> cluster_nodes \<Rightarrow> Alert list"
where
  "check_cluster_health fmt now ops js d config nodes =
     concat (map (\<lambda>(nid, info). if \<not> ni_online info then [offline_alert fmt config now nid info] else []) nodes)
     @ (case list_topics ops js d of Ok topics \<Rightarrow> concat (map (topic_alerts now nodes) topics) | Err _ \<Rightarrow> [])"

section \<open>The alert manager\<close>

fun severity_debug :: "AlertSeverity \<Rightarrow> string" where
  "severity_debug Warning = ''Warning''"
| "severity_debug Critical = ''Critical''"

definition alert_key :: "string \<Rightarrow> Alert \<Rightarrow> string" where
  "alert_key key_prefix alert = key_prefix @ ''/_cluster/alerts/'' @ severity_debug (al_severity alert) @ ''/'' @ al_id alert"

text \<open>One tick: the alerts put on the session and the stored ones.\<close>

definition alert_tick ::
  "(Alert \<Rightarrow> bytes result) \<Rightarrow> string \<Rightarrow> Alert list \<Rightarrow> Alert list \<Rightarrow> Alert list \<times> (string \<times> bytes) list"
where
  "alert_tick to_vec key_prefix new_alerts kept =
     (if new_alerts = [] then (kept, [])
      else let kept = kept @ new_alerts in
        (if 1000 < length kept then drop (length kept - 1000) kept else kept,
         concat (map (\<lambda>a. case to_vec a of Ok bytes \<Rightarrow> [(alert_key key_prefix a, bytes)] | Err _ \<Rightarrow> []) new_alerts)))"

definition alerts_by_severity :: "AlertSeverity \<Rightarrow> Alert list \<Rightarrow> Alert list" where
  "alerts_by_severity severity kept = filter (\<lambda>a. al_severity a = severity) kept"

definition clear_alerts :: "Alert list \<Rightarrow> Alert list" where
  "clear_alerts kept = []"

section \<open>The tracker of stores\<close>

record StoreInfo =
  si_partition :: u32
  si_first_seen :: DateTime
  si_last_seen :: DateTime
  si_online :: bool

type_synonym tracked_stores = "(u32, StoreInfo) hmap"

definition extract_store_partition :: "string \<Rightarrow> string \<Rightarrow> u32 option" where
  "extract_store_partition key key_prefix = Option.bind (strip_prefix (key_prefix @ ''/_store/'') key) parse_u32"

definition store_info_new :: "u32 \<Rightarrow> DateTime \<Rightarrow> StoreInfo" where
  "store_info_new part now = \<lparr>si_partition = part, si_first_seen = now, si_last_seen = now, si_online = True\<rparr>"

definition stores_discovered :: "string \<Rightarrow> (DateTime \<times> string) list \<Rightarrow> tracked_stores" where
  "stores_discovered key_prefix tokens =
     fold (\<lambda>(now, key) m. case extract_store_partition key key_prefix of
         Some part \<Rightarrow> hm_insert part (store_info_new part now) m | None \<Rightarrow> m) tokens []"

definition store_liveliness :: "string \<Rightarrow> DateTime \<times> string \<times> SampleKind \<Rightarrow> tracked_stores \<Rightarrow> tracked_stores" where
  "store_liveliness key_prefix ev m =
     (case ev of (now, key, kind) \<Rightarrow>
        case extract_store_partition key key_prefix of
          None \<Rightarrow> m
        | Some part \<Rightarrow>
            (case kind of
               Put \<Rightarrow>
                 let info = (case hm_get m part of Some i \<Rightarrow> i | None \<Rightarrow> store_info_new part now) in
                 hm_insert part (info\<lparr>si_last_seen := now, si_online := True\<rparr>) m
             | Delete \<Rightarrow> (case hm_get m part of Some info \<Rightarrow> hm_insert part (info\<lparr>si_online := False\<rparr>) m | None \<Rightarrow> m)))"

definition online_stores :: "tracked_stores \<Rightarrow> StoreInfo list" where
  "online_stores m = filter si_online (map snd m)"

definition offline_stores :: "tracked_stores \<Rightarrow> StoreInfo list" where
  "offline_stores m = filter (\<lambda>i. \<not> si_online i) (map snd m)"

definition is_partition_online :: "tracked_stores \<Rightarrow> u32 \<Rightarrow> bool" where
  "is_partition_online m part = (case hm_get m part of Some i \<Rightarrow> si_online i | None \<Rightarrow> False)"

section \<open>What the alerts say\<close>

definition status_entries :: "cluster_nodes \<Rightarrow> PartitionStatus list" where
  "status_entries nodes = concat (map (\<lambda>(nid, info).
     if ni_online info then (case ni_status info of Some status \<Rightarrow> ns_partitions status | None \<Rightarrow> []) else []) nodes)"

definition replicas_online :: "cluster_nodes \<Rightarrow> u32 \<Rightarrow> nat" where
  "replicas_online nodes p = length (filter (\<lambda>ps. ps_partition ps = p) (status_entries nodes))"

abbreviation count_of :: "(u32, u32) hmap \<Rightarrow> u32 \<Rightarrow> u32" where
  "count_of counts p \<equiv> (case hm_get counts p of Some n \<Rightarrow> n | None \<Rightarrow> 0)"

lemma partition_replicas_entries: "partition_replicas num nodes = fold (count_entry num) (status_entries nodes) []"
proof -
  have "fold (\<lambda>(nid, info) counts. if \<not> ni_online info then counts
       else case ni_status info of None \<Rightarrow> counts | Some status \<Rightarrow> fold (count_entry num) (ns_partitions status) counts) nodes acc
    = fold (count_entry num) (status_entries nodes) acc" for acc
    by (induction nodes arbitrary: acc) (auto simp: status_entries_def split: option.splits)
  then show ?thesis by (simp add: partition_replicas_def)
qed

lemma count_fold:
  "p < num \<Longrightarrow> count_of (fold (count_entry num) es counts) p = count_of counts p + of_nat (length (filter (\<lambda>ps. ps_partition ps = p) es))"
  by (induction es arbitrary: counts) (auto simp: count_entry_def)

lemma counted_replicas:
  assumes "p < num" and "length (status_entries nodes) < 2 ^ 32"
  shows "unat (count_of (partition_replicas num nodes) p) = replicas_online nodes p"
proof -
  have "replicas_online nodes p < 2 ^ 32"
    using assms(2) length_filter_le le_less_trans unfolding replicas_online_def by blast
  then show ?thesis using count_fold[OF assms(1), of "status_entries nodes" "[]"]
    by (simp add: partition_replicas_entries replicas_online_def unat_of_nat take_bit_nat_eq_self)
qed

lemma show_word_eq: "show_word (a :: u32) = show_word b \<longleftrightarrow> a = b"
  by (metis parse_show_u32 option.inject)

lemma distinct_pairs: "distinct cs \<Longrightarrow> (\<And>c. distinct (f c)) \<Longrightarrow> distinct (concat (map (\<lambda>c. map (Pair c) (f c)) cs))"
  by (induction cs) (auto simp: distinct_map inj_on_def)

text \<open>The partitions of a topic that miss a replica, in order.\<close>

definition short_partitions :: "cluster_nodes \<Rightarrow> TopicConfig \<Rightarrow> u32 list" where
  "short_partitions nodes c = filter (\<lambda>p. 1 < tc_replication_factor c \<and> replicas_online nodes p < unat (tc_replication_factor c))
     (map of_nat [0..<unat (tc_num_partitions c)])"

lemma partition_numbers:
  "set (map of_nat [0..<unat n]) = {p :: u32. p < n}" "distinct (map (of_nat :: nat \<Rightarrow> u32) [0..<unat n])"
proof -
  have unat_small: "unat (of_nat k :: u32) = k" if "k < unat n" for k
  proof -
    have "k < 2 ^ len_of TYPE(32)" using that unsigned_less[of n, where 'a = nat] by (rule less_trans)
    then show ?thesis by (simp add: unat_of_nat take_bit_nat_eq_self)
  qed
  have "p \<in> of_nat ` {0..<unat n} \<longleftrightarrow> p < n" for p :: u32
  proof
    assume "p \<in> of_nat ` {0..<unat n}"
    then obtain k where "k < unat n" "p = of_nat k" by auto
    then show "p < n" using unat_small by (simp add: word_less_nat_alt)
  next
    assume "p < n"
    then show "p \<in> of_nat ` {0..<unat n}" by (intro image_eqI[of _ _ "unat p"]) (simp_all add: word_less_nat_alt)
  qed
  then show "set (map of_nat [0..<unat n]) = {p :: u32. p < n}" by auto
  have "inj_on (of_nat :: nat \<Rightarrow> u32) {0..<unat n}"
    by (rule inj_on_inverseI[of _ unat]) (simp add: unat_small)
  then show "distinct (map (of_nat :: nat \<Rightarrow> u32) [0..<unat n])" by (simp add: distinct_map)
qed

lemma short_partitions_spec:
  "p \<in> set (short_partitions nodes c) \<longleftrightarrow>
     p < tc_num_partitions c \<and> 1 < tc_replication_factor c \<and> replicas_online nodes p < unat (tc_replication_factor c)"
  "distinct (short_partitions nodes c)"
  using partition_numbers[of "tc_num_partitions c"] by (auto simp: short_partitions_def simp del: set_map)

lemma concat_map_guard: "concat (map (\<lambda>x. if P x then [f x] else []) xs) = map f (filter P xs)"
  by (induction xs) auto

lemma topic_alerts_list:
  assumes "length (status_entries nodes) < 2 ^ 32"
  shows "topic_alerts now nodes c = map (\<lambda>p. replica_alert now c p (of_nat (replicas_online nodes p))) (short_partitions nodes c)"
proof -
  let ?n = "tc_num_partitions c" and ?rf = "tc_replication_factor c"
  let ?counts = "partition_replicas ?n nodes"
  define ps where "ps = map (of_nat :: nat \<Rightarrow> u32) [0..<unat ?n]"
  have count: "count_of ?counts p = of_nat (replicas_online nodes p)" "count_of ?counts p < ?rf \<longleftrightarrow> replicas_online nodes p < unat ?rf"
    if "p \<in> set ps" for p
  proof -
    have "p < ?n" using that partition_numbers(1)[of ?n] unfolding ps_def by blast
    note c = counted_replicas[OF this assms]
    have "of_nat (unat (count_of ?counts p)) = count_of ?counts p" by simp
    then show "count_of ?counts p = of_nat (replicas_online nodes p)" unfolding c by simp
    show "count_of ?counts p < ?rf \<longleftrightarrow> replicas_online nodes p < unat ?rf" unfolding word_less_nat_alt c ..
  qed
  have "topic_alerts now nodes c = (if ?rf \<le> 1 then [] else map (\<lambda>p. replica_alert now c p (count_of ?counts p)) (filter (\<lambda>p. count_of ?counts p < ?rf) ps))"
    unfolding topic_alerts_def Let_def ps_def[symmetric] concat_map_guard ..
  also have "\<dots> = map (\<lambda>p. replica_alert now c p (of_nat (replicas_online nodes p))) (filter (\<lambda>p. 1 < ?rf \<and> replicas_online nodes p < unat ?rf) ps)"
    using count by (auto simp: not_le[symmetric] intro!: map_cong filter_cong)
  finally show ?thesis by (simp add: short_partitions_def ps_def)
qed

text \<open>
  C39. A health check reports exactly what is wrong, in order and without repetition: one alert for every known node
  that is offline, then one for every partition of a stored replicated topic with fewer entries in the status reports of online
  nodes than replicas, critical if there is none; nothing else.  The topics can be listed, and the status reports
  have fewer than 2^32 entries.
\<close>

theorem alerts_exact:
  assumes "fjall_ok ops vw" and "topics_ok js (vw d)" and "list_topics ops js d = Ok cs" and "hm_wf nodes"
    and "length (status_entries nodes) < 2 ^ 32"
  shows "\<exists>offline short. distinct offline \<and> distinct short
    \<and> set offline = {(nid, info). hm_get nodes nid = Some info \<and> \<not> ni_online info}
    \<and> set short = {(c, p). stored_topic js (vw d) (tc_name c) = Some c \<and> p < tc_num_partitions c
         \<and> 1 < tc_replication_factor c \<and> replicas_online nodes p < unat (tc_replication_factor c)}
    \<and> check_cluster_health fmt now ops js d config nodes =
        map (\<lambda>(nid, info). offline_alert fmt config now nid info) offline
        @ map (\<lambda>(c, p). replica_alert now c p (of_nat (replicas_online nodes p))) short"
proof -
  define offline where "offline = filter (\<lambda>(nid, info). \<not> ni_online info) nodes"
  define short where "short = concat (map (\<lambda>c. map (Pair c) (short_partitions nodes c)) cs)"
  note ls = list_topics_stored[OF assms(1-3)]
  have "distinct offline" using assms(4) unfolding offline_def by (simp add: distinct_map)
  moreover have "distinct short" unfolding short_def
  proof (rule distinct_pairs)
    show "distinct cs" using ls(2) by (simp add: distinct_map)
  qed (rule short_partitions_spec(2))
  moreover have "set offline = {(nid, info). hm_get nodes nid = Some info \<and> \<not> ni_online info}"
    unfolding map_of_eq_Some_iff[OF assms(4)] offline_def by auto
  moreover have "set short = {(c, p). stored_topic js (vw d) (tc_name c) = Some c \<and> p < tc_num_partitions c
         \<and> 1 < tc_replication_factor c \<and> replicas_online nodes p < unat (tc_replication_factor c)}"
    unfolding short_def using ls(1) by (auto simp: short_partitions_spec(1))
  moreover have "check_cluster_health fmt now ops js d config nodes =
        map (\<lambda>(nid, info). offline_alert fmt config now nid info) offline
        @ map (\<lambda>(c, p). replica_alert now c p (of_nat (replicas_online nodes p))) short"
  proof -
    have "concat (map (\<lambda>(nid, info). if \<not> ni_online info then [offline_alert fmt config now nid info] else []) nodes)
      = map (\<lambda>(nid, info). offline_alert fmt config now nid info) offline"
      unfolding offline_def split_beta by (rule concat_map_guard)
    moreover have "concat (map (topic_alerts now nodes) cs) = map (\<lambda>(c, p). replica_alert now c p (of_nat (replicas_online nodes p))) short"
      unfolding short_def topic_alerts_list[OF assms(5)] by (simp add: map_concat comp_def)
    ultimately show ?thesis unfolding check_cluster_health_def assms(3) by simp
  qed
  ultimately show ?thesis by (intro exI conjI)
qed

lemma distinct_singleton_set: "distinct xs \<Longrightarrow> set xs = {a} \<Longrightarrow> xs = [a]"
  by (cases xs) (auto, metis empty_iff insertE list.set_intros(1) neq_Nil_conv subset_singletonD)

definition demo_replicated :: TopicConfig where
  "demo_replicated = demo_topic\<lparr>tc_num_partitions := 1, tc_replication_factor := 2\<rparr>"

definition demo_offline :: cluster_nodes where
  "demo_offline = [(''n1'', node_info_new False 5)]"

theorem alerts_exact_witness:
  "\<exists>d. check_cluster_health (\<lambda>_. []) 7 mem_ops (table_codec [demo_replicated]) d (alert_config_default ()) demo_offline =
     [offline_alert (\<lambda>_. []) (alert_config_default ()) 7 ''n1'' (node_info_new False 5), replica_alert 7 demo_replicated 0 0]"
proof -
  let ?js = "table_codec [demo_replicated]"
  define d where "d = mem_empty\<lparr>mem_data := (\<lambda>_. [])(Topics := [(as_bytes ''orders'', put_nat 0)])\<rparr>"
  have name: "tc_name demo_replicated = ''orders''" "tc_num_partitions demo_replicated = 1" "tc_replication_factor demo_replicated = 2"
    by (simp_all add: demo_replicated_def demo_topic_def into_topic_config_def)
  have dec: "cc_from_slice ?js (put_nat 0) = Ok demo_replicated" by (simp add: table_codec_def)
  have topics: "topics_ok ?js (mem_view d)" using dec name by (simp add: topics_ok_def mem_view_def d_def)
  have stored: "stored_topic ?js (mem_view d) n = (if n = ''orders'' then Some demo_replicated else None)" for n
    using dec by (simp add: stored_topic_def mem_view_def as_bytes_inj d_def)
  have l: "list_topics mem_ops ?js d = Ok [demo_replicated]" using dec by (simp add: list_topics_def mem_ops_def mem_entries_def orch_json_def d_def)
  have wf: "hm_wf demo_offline" "length (status_entries demo_offline) < 2 ^ 32" and none: "replicas_online demo_offline p = 0" for p
    by (simp_all add: demo_offline_def status_entries_def replicas_online_def node_info_new_def)
  obtain offline short where e: "distinct offline" "distinct short"
    "set offline = {(nid, info). hm_get demo_offline nid = Some info \<and> \<not> ni_online info}"
    "set short = {(c, p). stored_topic ?js (mem_view d) (tc_name c) = Some c \<and> p < tc_num_partitions c
         \<and> 1 < tc_replication_factor c \<and> replicas_online demo_offline p < unat (tc_replication_factor c)}"
    "check_cluster_health (\<lambda>_. []) 7 mem_ops ?js d (alert_config_default ()) demo_offline =
        map (\<lambda>(nid, info). offline_alert (\<lambda>_. []) (alert_config_default ()) 7 nid info) offline
        @ map (\<lambda>(c, p). replica_alert 7 c p (of_nat (replicas_online demo_offline p))) short"
    using alerts_exact[OF mem_fjall_ok topics l wf] by blast
  have "set offline = {(''n1'', node_info_new False 5)}" unfolding e(3) by (auto simp: demo_offline_def node_info_new_def split: if_splits)
  then have "offline = [(''n1'', node_info_new False 5)]" by (rule distinct_singleton_set[OF e(1)])
  moreover have "set short = {(demo_replicated, 0)}" unfolding e(4) none stored using name by (auto split: if_splits)
  then have "short = [(demo_replicated, 0)]" by (rule distinct_singleton_set[OF e(2)])
  ultimately show ?thesis using e(5) none by (intro exI[of _ d]) simp
qed

text \<open>The manager keeps the latest thousand alerts.\<close>

theorem alerts_bounded:
  assumes "length kept \<le> 1000"
  shows "length (fst (alert_tick to_vec key_prefix new_alerts kept)) \<le> 1000
    \<and> (\<exists>old. kept @ new_alerts = old @ fst (alert_tick to_vec key_prefix new_alerts kept))"
proof -
  let ?all = "kept @ new_alerts"
  have "?all = take (length ?all - 1000) ?all @ drop (length ?all - 1000) ?all" by (rule append_take_drop_id[symmetric])
  then have "\<exists>old. ?all = old @ drop (length ?all - 1000) ?all" by blast
  moreover have "\<exists>old. ?all = old @ ?all" by (rule exI[of _ "[]"]) simp
  ultimately show ?thesis
    using assms unfolding alert_tick_def Let_def by (cases "new_alerts = []"; cases "1000 < length ?all") (simp_all del: drop_append)
qed

section \<open>What the tracker knows\<close>

text \<open>A partition counts as online exactly if the last token seen for it appeared.\<close>

definition last_token :: "string \<Rightarrow> u32 \<Rightarrow> (DateTime \<times> string \<times> SampleKind) list \<Rightarrow> SampleKind option" where
  "last_token key_prefix part evs =
     map_option (snd \<circ> snd) (List.find (\<lambda>(now, key, kind). extract_store_partition key key_prefix = Some part) (rev evs))"

lemma store_liveliness_online:
  "is_partition_online (store_liveliness key_prefix (now, key, kind) m) part =
     (if extract_store_partition key key_prefix = Some part then kind = Put else is_partition_online m part)"
  by (cases kind) (auto simp: store_liveliness_def is_partition_online_def Let_def split: option.splits)

theorem tracked_store_follows_tokens:
  "is_partition_online (fold (store_liveliness key_prefix) evs m) part =
     (case last_token key_prefix part evs of Some kind \<Rightarrow> kind = Put | None \<Rightarrow> is_partition_online m part)"
proof (induction evs rule: rev_induct)
  case (snoc ev evs)
  obtain now key kind where ev: "ev = (now, key, kind)" by (cases ev)
  show ?case
    by (cases "extract_store_partition key key_prefix = Some part")
      (use snoc in \<open>simp_all add: ev store_liveliness_online last_token_def\<close>)
qed (simp add: last_token_def)

end
