(* ===== verification/Emulator_Supervisor.thy ===== *)
theory Emulator_Supervisor
  imports Topology Domain Topic_Worker
begin

text \<open>
  The supervisor of the emulator (\<^verbatim>\<open>mitiflow-emulator/src/supervisor.rs\<close>): the role configurations
  it hands to the processes (\<^verbatim>\<open>role_config.rs\<close>), how it starts a topology tier by tier, answers
  restart requests and shuts down.  Spawning a process, encoding a role configuration (JSON in base64) and the
  lookup of a binary are parameters; log streams and delays are left out.
\<close>

section \<open>Sessions of the roles\<close>

fun zenoh_mode_name :: "ZenohMode \<Rightarrow> string" where
  "zenoh_mode_name Peer = ''peer''"
| "zenoh_mode_name Client = ''client''"
| "zenoh_mode_name Router = ''router''"

definition transport_profile :: "ZenohConfig \<Rightarrow> TransportProfile" where
  "transport_profile zc =
     (if zc_mode zc = Client \<and> zc_connect zc \<noteq> [] then TClient (zc_connect zc)
      else if zc_mode zc = Peer \<and> zc_connect zc \<noteq> [] then PeerMesh (zc_connect zc)
      else Ambient)"

definition config_error :: "(error \<Rightarrow> string) \<Rightarrow> 'a result \<Rightarrow> EmulatorError + 'a" where
  "config_error display r = (case r of Err e \<Rightarrow> Err (ConfigErr (display e)) | Ok x \<Rightarrow> Ok x)"

text \<open>Lists of endpoints are encoded with the emulator's own error for JSON.\<close>

definition json_list :: "('z, 's) zenoh_api \<Rightarrow> (error \<Rightarrow> string) \<Rightarrow> string list \<Rightarrow> EmulatorError + string" where
  "json_list api display l = (case to_json api l of Err e \<Rightarrow> Err (JsonErr (display e)) | Ok j \<Rightarrow> Ok j)"

definition emu_zenoh_config :: "('z, 's) zenoh_api \<Rightarrow> (error \<Rightarrow> string) \<Rightarrow> ZenohConfig \<Rightarrow> EmulatorError + 'z" where
  "emu_zenoh_config api display zc =
     rbind (config_error display (to_zenoh_config api (transport_profile zc))) (\<lambda>c.
     rbind (config_error display (insert_json5 api c ''mode'' (quoted_json (zenoh_mode_name (zc_mode zc))))) (\<lambda>c.
     rbind (if zc_listen zc \<noteq> []
            then rbind (json_list api display (zc_listen zc)) (\<lambda>j. config_error display (insert_json5 api c ''listen/endpoints'' j)) else Ok c) (\<lambda>c.
     rbind (if zc_connect zc \<noteq> [] \<and> zc_mode zc = Router
            then rbind (json_list api display (zc_connect zc)) (\<lambda>j. config_error display (insert_json5 api c ''connect/endpoints'' j)) else Ok c) (\<lambda>c.
     config_error display (insert_json5 api c ''timestamping/enabled'' (if zc_timestamping_enabled zc then ''true'' else ''false''))))))"

record ZenohRoleConfig =
  zr_mode :: string
  zr_listen :: "string list"
  zr_connect :: "string list"
  zr_timestamping_enabled :: bool

definition zenoh_role_from :: "ZenohConfig \<Rightarrow> ZenohRoleConfig" where
  "zenoh_role_from zc = \<lparr>zr_mode = zenoh_mode_name (zc_mode zc), zr_listen = zc_listen zc, zr_connect = zc_connect zc,
     zr_timestamping_enabled = zc_timestamping_enabled zc\<rparr>"

definition ascii_lower :: "char \<Rightarrow> char" where
  "ascii_lower c = (if (65 :: nat) \<le> of_char c \<and> of_char c \<le> (90 :: nat) then char_of ((of_char c :: nat) + 32) else c)"

definition eq_ignore_ascii_case :: "string \<Rightarrow> string \<Rightarrow> bool" where
  "eq_ignore_ascii_case a b \<longleftrightarrow> map ascii_lower a = map ascii_lower b"

definition role_zenoh :: "ZenohRoleConfig \<Rightarrow> ZenohConfig" where
  "role_zenoh zr = \<lparr>zc_mode = (if eq_ignore_ascii_case (zr_mode zr) ''client'' then Client
       else if eq_ignore_ascii_case (zr_mode zr) ''router'' then Router else Peer),
     zc_listen = zr_listen zr, zc_connect = zr_connect zr, zc_auto_router = False, zc_timestamping_enabled = zr_timestamping_enabled zr\<rparr>"

definition role_to_zenoh_config :: "('z, 's) zenoh_api \<Rightarrow> (error \<Rightarrow> string) \<Rightarrow> ZenohRoleConfig \<Rightarrow> EmulatorError + 'z" where
  "role_to_zenoh_config api display zr = emu_zenoh_config api display (role_zenoh zr)"

section \<open>Role configurations\<close>

record 'f PayloadRoleConfig =
  pr_generator :: GeneratorType
  pr_size_bytes :: nat
  pr_schema :: "(string, 'f SchemaFieldDef) hmap"
  pr_content :: "string option"
  pr_prefix :: "string option"

definition payload_role_from :: "'f PayloadConfig \<Rightarrow> 'f PayloadRoleConfig" where
  "payload_role_from p = \<lparr>pr_generator = py_generator p, pr_size_bytes = py_size_bytes p, pr_schema = py_schema p,
     pr_content = py_content p, pr_prefix = py_prefix p\<rparr>"

definition payload_from_role :: "'f PayloadRoleConfig \<Rightarrow> 'f PayloadConfig" where
  "payload_from_role p = \<lparr>py_generator = pr_generator p, py_size_bytes = pr_size_bytes p, py_schema = pr_schema p,
     py_content = pr_content p, py_prefix = pr_prefix p\<rparr>"

record ConsumerGroupRoleConfig =
  cgr_group_id :: string
  cgr_commit_mode :: CommitModeDef
  cgr_auto_commit_interval_ms :: u64

definition group_role_from :: "ConsumerGroupDef \<Rightarrow> ConsumerGroupRoleConfig" where
  "group_role_from g = \<lparr>cgr_group_id = cgd_group_id g, cgr_commit_mode = cgd_commit_mode g,
     cgr_auto_commit_interval_ms = cgd_auto_commit_interval_ms g\<rparr>"

record OutputRoleConfig =
  our_mode :: OutputMode
  our_report_interval_sec :: u64
  our_file_path :: "string option"

definition output_role_from :: "OutputConfig option \<Rightarrow> OutputRoleConfig" where
  "output_role_from ou = (case ou of
     Some c \<Rightarrow> \<lparr>our_mode = ou_mode c, our_report_interval_sec = ou_report_interval_sec c, our_file_path = ou_file_path c\<rparr>
   | None \<Rightarrow> \<lparr>our_mode = OutCount, our_report_interval_sec = 5, our_file_path = None\<rparr>)"

record 'f ProducerRoleConfig =
  prc_key_prefix :: string
  prc_codec :: CodecConfig
  prc_cache_size :: nat
  prc_heartbeat_ms :: u64
  prc_recovery_mode :: RecoveryModeConfig
  prc_durable :: bool
  prc_urgency_ms :: "u64 option"
  prc_rate :: "'f option"
  prc_rate_per_instance :: "'f option"
  prc_ramp_up_sec :: "'f option"
  prc_ramp_start_rate :: "'f option"
  prc_burst_factor :: "'f option"
  prc_payload :: "'f PayloadRoleConfig"
  prc_num_partitions :: u32

record ConsumerRoleConfig =
  crc_key_prefix :: string
  crc_codec :: CodecConfig
  crc_cache_size :: nat
  crc_heartbeat_ms :: u64
  crc_recovery_mode :: RecoveryModeConfig
  crc_num_partitions :: u32
  crc_consumer_group :: "ConsumerGroupRoleConfig option"
  crc_output :: OutputRoleConfig
  crc_processing_delay_ms :: "u64 option"
  crc_offload_enabled :: bool
  crc_num_processing_shards :: nat

record 'f ProcessorRoleConfig =
  por_input_key_prefix :: string
  por_output_key_prefix :: string
  por_codec :: CodecConfig
  por_cache_size :: nat
  por_heartbeat_ms :: u64
  por_recovery_mode :: RecoveryModeConfig
  por_num_partitions :: u32
  por_processing_mode :: ProcessingMode
  por_delay_ms :: "u64 option"
  por_drop_probability :: "'f option"
  por_consumer_group :: "ConsumerGroupRoleConfig option"

record StorageAgentRoleConfig =
  sar_key_prefix :: string
  sar_data_dir :: string
  sar_num_partitions :: u32
  sar_replication_factor :: u32
  sar_capacity :: u32
  sar_node_id :: "string option"
  sar_codec :: CodecConfig
  sar_cache_size :: nat
  sar_heartbeat_ms :: u64
  sar_recovery_mode :: RecoveryModeConfig
  sar_log_level :: "string option"

text \<open>A topic as agents and orchestrators are told of it; the two structs have the same fields.\<close>

record topic_role_entry =
  tr_name :: string
  tr_key_prefix :: string
  tr_num_partitions :: u32
  tr_replication_factor :: u32

record OrchestratorRoleConfig =
  orr_key_prefix :: string
  orr_data_dir :: string
  orr_lag_interval_ms :: u64
  orr_topics :: "topic_role_entry list"
  orr_http_port :: "u16 option"

record AgentRoleConfig =
  agr_node_id :: "string option"
  agr_data_dir :: string
  agr_capacity :: u32
  agr_labels :: "(string, string) hmap"
  agr_global_prefix :: string
  agr_auto_discover_topics :: bool
  agr_topics :: "topic_role_entry list"
  agr_log_level :: "string option"

datatype 'f role_config =
    ProducerRole "'f ProducerRoleConfig"
  | ConsumerRole ConsumerRoleConfig
  | ProcessorRole "'f ProcessorRoleConfig"
  | StorageAgentRole StorageAgentRoleConfig
  | AgentRole AgentRoleConfig
  | OrchestratorRole OrchestratorRoleConfig

section \<open>The configuration of one instance\<close>

type_synonym topic_map = "(string, TopicDef) hmap"

definition topic_map_of :: "TopicDef list \<Rightarrow> topic_map" where
  "topic_map_of ts = fold (\<lambda>t m. hm_insert (td_name t) t m) ts []"

definition lookup_topic :: "topic_map \<Rightarrow> string option \<Rightarrow> TopicDef option" where
  "lookup_topic m name = Option.bind name (hm_get m)"

definition component_topic :: "topic_map \<Rightarrow> 'f ComponentDef \<Rightarrow> TopicDef option" where
  "component_topic m cmp =
     (case cd_kind cmp of
        Orchestrator \<Rightarrow> None | Agent \<Rightarrow> None
      | Processor \<Rightarrow> lookup_topic m (cd_input_topic cmp)
      | _ \<Rightarrow> lookup_topic m (cd_topic cmp))"

definition topic_entry :: "TopicDef \<Rightarrow> topic_role_entry" where
  "topic_entry t = \<lparr>tr_name = td_name t, tr_key_prefix = td_key_prefix t, tr_num_partitions = td_num_partitions t,
     tr_replication_factor = td_replication_factor t\<rparr>"

definition instance_name :: "'f ComponentDef \<Rightarrow> nat \<Rightarrow> string" where
  "instance_name cmp inst = cd_name cmp @ ''-'' @ show_nat inst"

definition default_payload :: "'f PayloadRoleConfig" where
  "default_payload = \<lparr>pr_generator = RandomJson, pr_size_bytes = 256, pr_schema = [], pr_content = None, pr_prefix = None\<rparr>"

definition instance_dir :: "string \<Rightarrow> 'f ComponentDef \<Rightarrow> nat \<Rightarrow> string" where
  "instance_dir base cmp inst = path_join (unwrap_or base (cd_data_dir cmp)) (instance_name cmp inst)"

text \<open>The parent of the first managed topic's prefix, unless a global prefix is given.\<close>

definition agent_global_prefix :: "'f ComponentDef \<Rightarrow> topic_role_entry list \<Rightarrow> string" where
  "agent_global_prefix cmp topics =
     unwrap_or ''mitiflow'' (or_else (cd_global_prefix cmp)
       (case topics of [] \<Rightarrow> None
        | t # _ \<Rightarrow> Some (case rsplit_once ''/'' (tr_key_prefix t) of Some (parent, _) \<Rightarrow> parent | None \<Rightarrow> tr_key_prefix t)))"

definition role_of :: "'f TopologyConfig \<Rightarrow> topic_map \<Rightarrow> 'f ComponentDef \<Rightarrow> nat \<Rightarrow> ResolvedComponentConfig \<Rightarrow> 'f role_config" where
  "role_of config m cmp inst rs =
     (case cd_kind cmp of
        Producer \<Rightarrow> ProducerRole
          \<lparr>prc_key_prefix = rs_key_prefix rs, prc_codec = rs_codec rs, prc_cache_size = rs_cache_size rs, prc_heartbeat_ms = rs_heartbeat_ms rs,
           prc_recovery_mode = df_recovery_mode (tc_defaults config), prc_durable = cd_durable cmp, prc_urgency_ms = cd_urgency_ms cmp,
           prc_rate = cd_rate cmp, prc_rate_per_instance = cd_rate_per_instance cmp, prc_ramp_up_sec = cd_ramp_up_sec cmp,
           prc_ramp_start_rate = cd_ramp_start_rate cmp, prc_burst_factor = cd_burst_factor cmp,
           prc_payload = (case cd_payload cmp of Some p \<Rightarrow> payload_role_from p | None \<Rightarrow> default_payload), prc_num_partitions = rs_num_partitions rs\<rparr>
      | Consumer \<Rightarrow> ConsumerRole
          \<lparr>crc_key_prefix = rs_key_prefix rs, crc_codec = rs_codec rs, crc_cache_size = rs_cache_size rs, crc_heartbeat_ms = rs_heartbeat_ms rs,
           crc_recovery_mode = df_recovery_mode (tc_defaults config), crc_num_partitions = rs_num_partitions rs,
           crc_consumer_group = map_option group_role_from (cd_consumer_group cmp), crc_output = output_role_from (cd_output cmp),
           crc_processing_delay_ms = cd_processing_delay_ms cmp, crc_offload_enabled = cd_offload_enabled cmp,
           crc_num_processing_shards = unwrap_or 1 (cd_num_processing_shards cmp)\<rparr>
      | Processor \<Rightarrow>
          (let out = resolve_component_config cmp (lookup_topic m (cd_output_topic cmp)) (tc_defaults config) in
           ProcessorRole
            \<lparr>por_input_key_prefix = rs_key_prefix rs, por_output_key_prefix = rs_key_prefix out, por_codec = rs_codec rs,
             por_cache_size = rs_cache_size rs, por_heartbeat_ms = rs_heartbeat_ms rs, por_recovery_mode = df_recovery_mode (tc_defaults config),
             por_num_partitions = rs_num_partitions rs, por_processing_mode = (case cd_processing cmp of Some p \<Rightarrow> pg_mode p | None \<Rightarrow> Passthrough),
             por_delay_ms = Option.bind (cd_processing cmp) pg_delay_ms, por_drop_probability = Option.bind (cd_processing cmp) pg_drop_probability,
             por_consumer_group = map_option group_role_from (cd_consumer_group cmp)\<rparr>)
      | StorageAgent \<Rightarrow> StorageAgentRole
          \<lparr>sar_key_prefix = rs_key_prefix rs, sar_data_dir = instance_dir ''/tmp/mitiflow-emu'' cmp inst, sar_num_partitions = rs_num_partitions rs,
           sar_replication_factor = rs_replication_factor rs, sar_capacity = unwrap_or 100 (cd_capacity cmp), sar_node_id = Some (instance_name cmp inst),
           sar_codec = rs_codec rs, sar_cache_size = rs_cache_size rs, sar_heartbeat_ms = rs_heartbeat_ms rs,
           sar_recovery_mode = df_recovery_mode (tc_defaults config), sar_log_level = cd_log_level cmp\<rparr>
      | Agent \<Rightarrow>
          (let topics = List.map_filter (\<lambda>name. map_option topic_entry (hm_get m name)) (cd_managed_topics cmp) in
           AgentRole
            \<lparr>agr_node_id = Some (instance_name cmp inst), agr_data_dir = instance_dir ''/tmp/mitiflow-emu'' cmp inst,
             agr_capacity = unwrap_or 100 (cd_capacity cmp), agr_labels = unwrap_or [] (cd_labels cmp),
             agr_global_prefix = agent_global_prefix cmp topics, agr_auto_discover_topics = unwrap_or False (cd_auto_discover_topics cmp),
             agr_topics = topics, agr_log_level = cd_log_level cmp\<rparr>)
      | Orchestrator \<Rightarrow> OrchestratorRole
          \<lparr>orr_key_prefix = (case tc_topics config of [] \<Rightarrow> ''mitiflow'' | t # _ \<Rightarrow> td_key_prefix t),
           orr_data_dir = instance_dir ''/tmp/mitiflow-emu-orchestrator'' cmp inst, orr_lag_interval_ms = unwrap_or 1000 (cd_lag_interval_ms cmp),
           orr_topics = map topic_entry (tc_topics config), orr_http_port = cd_http_port cmp\<rparr>)"

record ComponentSpec =
  sp_name :: string
  sp_instance :: nat
  sp_binary :: string
  sp_env :: "(string, string) hmap"
  sp_work_dir :: "string option"

fun binary_name :: "ComponentKind \<Rightarrow> string" where
  "binary_name Producer = ''mitiflow-emulator-producer''"
| "binary_name Consumer = ''mitiflow-emulator-consumer''"
| "binary_name Processor = ''mitiflow-emulator-processor''"
| "binary_name StorageAgent = ''mitiflow-emulator-storage-agent''"
| "binary_name Agent = ''mitiflow-emulator-agent''"
| "binary_name Orchestrator = ''mitiflow-emulator-orchestrator''"

fun log_level_name :: "LogLevel \<Rightarrow> string" where
  "log_level_name LvTrace = ''trace''"
| "log_level_name LvDebug = ''debug''"
| "log_level_name LvInfo = ''info''"
| "log_level_name LvWarn = ''warn''"
| "log_level_name LvError = ''error''"

text \<open>
  Encoding of the two configurations, the binary that lies beside the running executable, and starting a
  process: the first argument is the number of the call, the second whether the container backend is asked.
\<close>

record ('f, 'h) emu_env =
  ee_zenoh :: "ZenohRoleConfig \<Rightarrow> EmulatorError + string"
  ee_role :: "'f role_config \<Rightarrow> EmulatorError + string"
  ee_sibling :: "string \<Rightarrow> string option"
  ee_containers :: bool
  ee_spawn :: "nat \<Rightarrow> bool \<Rightarrow> ComponentSpec \<Rightarrow> EmulatorError + 'h"

definition build_spec :: "('f, 'h) emu_env \<Rightarrow> 'f TopologyConfig \<Rightarrow> topic_map \<Rightarrow> 'f ComponentDef \<Rightarrow> nat \<Rightarrow> ResolvedComponentConfig
    \<Rightarrow> EmulatorError + ComponentSpec" where
  "build_spec env config m cmp inst rs =
     rbind (ee_zenoh env (zenoh_role_from (tc_zenoh config))) (\<lambda>z.
     rbind (ee_role env (role_of config m cmp inst rs)) (\<lambda>r.
     let vars = hm_insert ''MITIFLOW_EMU_CONFIG'' r (hm_insert ''MITIFLOW_ZENOH_CONFIG'' z []);
         vars = (if mf_enabled (tc_manifest config)
                 then hm_insert ''MITIFLOW_INSTANCE_INDEX'' (show_nat inst) (hm_insert ''MITIFLOW_COMPONENT_NAME'' (cd_name cmp)
                        (hm_insert ''MITIFLOW_MANIFEST_DIR'' (mf_directory (tc_manifest config)) vars))
                 else vars);
         vars = hm_insert ''RUST_LOG'' (unwrap_or (log_level_name (lg_level (tc_logging config))) (cd_log_level cmp)) vars
     in Ok \<lparr>sp_name = cd_name cmp, sp_instance = inst, sp_binary = unwrap_or (binary_name (cd_kind cmp)) (ee_sibling env (binary_name (cd_kind cmp))),
            sp_env = vars, sp_work_dir = None\<rparr>))"

section \<open>Starting, restarting, stopping\<close>

text \<open>The processes started so far and the handles the supervisor keeps, by component.\<close>

record ('f, 'h) supervisor_state =
  ss_spawned :: "(bool \<times> ComponentSpec) list"
  ss_handles :: "('f ComponentDef \<times> 'h list) list"

fun add_handle :: "'f ComponentDef \<Rightarrow> 'h \<Rightarrow> ('f ComponentDef \<times> 'h list) list \<Rightarrow> ('f ComponentDef \<times> 'h list) list" where
  "add_handle cmp h [] = [(cmp, [h])]"
| "add_handle cmp h ((c, hs) # rest) = (if cd_name c = cd_name cmp then (c, hs @ [h]) # rest else (c, hs) # add_handle cmp h rest)"

definition spawn_one :: "('f, 'h) emu_env \<Rightarrow> 'f TopologyConfig \<Rightarrow> topic_map \<Rightarrow> 'f ComponentDef \<times> nat
    \<Rightarrow> ('f, 'h) supervisor_state \<Rightarrow> ('f, 'h) supervisor_state \<times> (EmulatorError + unit)" where
  "spawn_one env config m ci st =
     (let (cmp, inst) = ci;
          rs = resolve_component_config cmp (component_topic m cmp) (tc_defaults config) in
      case build_spec env config m cmp inst rs of
        Err e \<Rightarrow> (st, Err e)
      | Ok spec \<Rightarrow>
          let container = (unwrap_or (df_isolation (tc_defaults config)) (cd_isolation cmp) = IsoContainer \<and> ee_containers env) in
          (case ee_spawn env (length (ss_spawned st)) container spec of
             Err e \<Rightarrow> (st, Err e)
           | Ok h \<Rightarrow> (\<lparr>ss_spawned = ss_spawned st @ [(container, spec)], ss_handles = add_handle cmp h (ss_handles st)\<rparr>, Ok ())))"

fun spawn_each :: "('f, 'h) emu_env \<Rightarrow> 'f TopologyConfig \<Rightarrow> topic_map \<Rightarrow> ('f ComponentDef \<times> nat) list
    \<Rightarrow> ('f, 'h) supervisor_state \<Rightarrow> ('f, 'h) supervisor_state \<times> (EmulatorError + unit)" where
  "spawn_each env config m [] st = (st, Ok ())"
| "spawn_each env config m (ci # cis) st =
     (case spawn_one env config m ci st of (st', Ok _) \<Rightarrow> spawn_each env config m cis st' | (st', Err e) \<Rightarrow> (st', Err e))"

definition by_tiers :: "'f ComponentDef list \<Rightarrow> 'f ComponentDef list" where
  "by_tiers cs = concat (map (\<lambda>t. filter (\<lambda>c. unat (tier (cd_kind c)) = t) cs) [0..<6])"

definition spawn_plan :: "'f ComponentDef list \<Rightarrow> ('f ComponentDef \<times> nat) list" where
  "spawn_plan cs = concat (map (\<lambda>c. map (Pair c) [0..<unat (cd_instances c)]) (by_tiers cs))"

text \<open>From the validation to the running topology; a dry run only prints the plan.\<close>

definition supervisor_start :: "('f, 'h) emu_env \<Rightarrow> 'f float_ops \<Rightarrow> bool \<Rightarrow> 'f TopologyConfig
    \<Rightarrow> (('f, 'h) supervisor_state \<times> (EmulatorError + unit)) option" where
  "supervisor_start env fl dry_run config =
     (let st = \<lparr>ss_spawned = [], ss_handles = []\<rparr> in
      case validate fl config of
        None \<Rightarrow> None
      | Some (Err e) \<Rightarrow> Some (st, Err e)
      | Some (Ok _) \<Rightarrow>
          if dry_run then Some (st, Ok ())
          else Some (spawn_each env config (topic_map_of (tc_topics config)) (spawn_plan (tc_components config)) st))"

record RestartRequest =
  rr_component :: string
  rr_instance :: "nat option"
  rr_delay :: Duration

text \<open>The handle a restart request reaches.\<close>

definition restart_target :: "RestartRequest \<Rightarrow> ('f ComponentDef \<times> 'h list) list \<Rightarrow> 'h option" where
  "restart_target req handles =
     (let inst = unwrap_or 0 (rr_instance req) in
      case List.find (\<lambda>(c, hs). cd_name c = rr_component req) handles of
        None \<Rightarrow> None
      | Some (c, hs) \<Rightarrow> if inst < length hs then Some (hs ! inst) else None)"

datatype 'h stop_call = StopCall 'h | KillCall 'h

definition shutdown_calls :: "('f ComponentDef \<times> 'h list) list \<Rightarrow> 'h stop_call list" where
  "shutdown_calls handles =
     concat (map (\<lambda>(c, hs). map StopCall hs) (sort_key (\<lambda>(c, hs). - int (unat (tier (cd_kind c)))) handles))
     @ concat (map (\<lambda>(c, hs). map KillCall hs) handles)"

section \<open>Started topologies\<close>

lemma validated_facts:
  assumes "validate fl config = Some (Ok ws)"
  shows "distinct (map cd_name (tc_components config))" and "distinct (map td_name (tc_topics config))"
    and "\<forall>c \<in> set (tc_components config). references_ok (td_name ` set (tc_topics config)) c"
proof -
  obtain reg where reg: "build_topic_registry (tc_topics config) = Ok reg"
    and ok: "validate_unique_names (tc_components config) = Ok ()" "validate_topic_references (tc_components config) reg = Ok ()"
    using assms by (auto simp: validate_def split: if_splits sum.splits)
  show "distinct (map cd_name (tc_components config))"
    using ok(1) by (simp add: validate_unique_names_def unique_names_result)
  have r: "distinct (map td_name (tc_topics config)) \<and> fst ` set reg = td_name ` set (tc_topics config)"
    using registry_result[of "[]" "tc_topics config"] reg by (simp add: build_topic_registry_def)
  then show "distinct (map td_name (tc_topics config))" ..
  show "\<forall>c \<in> set (tc_components config). references_ok (td_name ` set (tc_topics config)) c"
    using ok(2) r by (simp add: validate_topic_references_def each_ok_iff topic_reference_ok)
qed

definition handles_at :: "string \<Rightarrow> ('f ComponentDef \<times> 'h list) list \<Rightarrow> 'h list" where
  "handles_at n handles = (case List.find (\<lambda>(c, hs). cd_name c = n) handles of Some (c, hs) \<Rightarrow> hs | None \<Rightarrow> [])"

lemma add_handle_at: "handles_at n (add_handle c h handles) = (if n = cd_name c then handles_at n handles @ [h] else handles_at n handles)"
  by (induction c h handles rule: add_handle.induct) (auto simp: handles_at_def)

lemma add_handle_mset: "mset (concat (map snd (add_handle c h handles))) = add_mset h (mset (concat (map snd handles)))"
  by (induction c h handles rule: add_handle.induct) auto

lemma add_handle_components: "fst ` set (add_handle c h handles) \<subseteq> insert c (fst ` set handles)"
  by (induction c h handles rule: add_handle.induct) auto

lemma mset_concat_map: "mset (concat (map f xs)) = (\<Sum>x \<in># mset xs. mset (f x))"
  by (induction xs) simp_all

lemma restart_target_at:
  "restart_target req handles = (let l = handles_at (rr_component req) handles; i = unwrap_or 0 (rr_instance req) in if i < length l then Some (l ! i) else None)"
  by (auto simp: restart_target_def handles_at_def Let_def split: option.splits)

abbreviation pair_id :: "'f ComponentDef \<times> nat \<Rightarrow> string \<times> nat" where
  "pair_id ci \<equiv> (cd_name (fst ci), snd ci)"

abbreviation spec_id :: "ComponentSpec \<Rightarrow> string \<times> nat" where
  "spec_id s \<equiv> (sp_name s, sp_instance s)"

lemma build_spec_id: "build_spec env config m c i rs = Ok s \<Longrightarrow> spec_id s = (cd_name c, i)"
  by (auto simp: build_spec_def Let_def)

text \<open>After the pairs \<open>done\<close>: the processes, and the handles of every component in order.\<close>

definition started :: "('h \<Rightarrow> string \<times> nat) \<Rightarrow> ('f ComponentDef \<times> nat) list \<Rightarrow> ('f, 'h) supervisor_state \<Rightarrow> bool" where
  "started hid pairs st \<longleftrightarrow> map (spec_id \<circ> snd) (ss_spawned st) = map pair_id pairs
     \<and> (\<forall>n. map hid (handles_at n (ss_handles st)) = map pair_id (filter (\<lambda>ci. cd_name (fst ci) = n) pairs))
     \<and> image_mset hid (mset (concat (map snd (ss_handles st)))) = mset (map pair_id pairs)
     \<and> fst ` set (ss_handles st) \<subseteq> fst ` set pairs"

lemma spawn_one_started:
  assumes ids: "\<And>k b s h. ee_spawn env k b s = Ok h \<Longrightarrow> hid h = spec_id s"
    and "started hid pairs st" and "spawn_one env config m ci st = (st', Ok ())"
  shows "started hid (pairs @ [ci]) st'"
proof -
  obtain c i where ci: "ci = (c, i)" by (cases ci)
  obtain s b h where s: "build_spec env config m c i (resolve_component_config c (component_topic m c) (tc_defaults config)) = Ok s"
    and h: "ee_spawn env (length (ss_spawned st)) b s = Ok h"
    and st': "st' = \<lparr>ss_spawned = ss_spawned st @ [(b, s)], ss_handles = add_handle c h (ss_handles st)\<rparr>"
    using assms(3) by (auto simp: spawn_one_def ci Let_def split: sum.splits)
  have "hid h = (cd_name c, i)" "spec_id s = (cd_name c, i)" using ids[OF h] build_spec_id[OF s] by simp_all
  moreover have "fst ` set (add_handle c h (ss_handles st)) \<subseteq> fst ` set (pairs @ [ci])"
  proof -
    have "fst ` set (ss_handles st) \<subseteq> fst ` set pairs" using assms(2) by (simp add: started_def)
    then have "fst ` set (add_handle c h (ss_handles st)) \<subseteq> insert c (fst ` set pairs)" using add_handle_components[of c h "ss_handles st"] by blast
    then show ?thesis by (simp add: ci)
  qed
  ultimately show ?thesis using assms(2) unfolding started_def by (simp add: st' ci add_handle_at add_handle_mset)
qed

lemma spawn_each_started:
  assumes ids: "\<And>k b s h. ee_spawn env k b s = Ok h \<Longrightarrow> hid h = spec_id s"
    and "started hid pairs st" and "spawn_each env config m cis st = (st', Ok ())"
  shows "started hid (pairs @ cis) st'"
  using assms(2,3)
proof (induction cis arbitrary: pairs st)
  case (Cons ci cis)
  obtain st1 where st1: "spawn_one env config m ci st = (st1, Ok ())" "spawn_each env config m cis st1 = (st', Ok ())"
    using Cons.prems(2) by (auto split: prod.splits sum.splits)
  from Cons.IH[OF spawn_one_started[OF ids Cons.prems(1) st1(1)] st1(2)] show ?case by simp
qed simp

text \<open>The plan has the instances of every component, tier by tier.\<close>

lemma tier_bound: "unat (tier k) < 6"
  by (cases k) simp_all

lemma set_by_tiers: "set (by_tiers cs) = set cs"
  using tier_bound by (fastforce simp: by_tiers_def)

lemma plan_sorted: "sorted (map (\<lambda>ci. unat (tier (cd_kind (fst ci)))) (spawn_plan cs))"
proof -
  have tiers: "sorted (map (\<lambda>c. unat (tier (cd_kind c))) (concat (map (\<lambda>t. filter (\<lambda>c. unat (tier (cd_kind c)) = t) cs) [a..<b])))" for a b
  proof (induction "b - a" arbitrary: a)
    case (Suc n)
    then have "[a..<b] = a # [Suc a..<b]" by (simp add: upt_conv_Cons)
    moreover have "sorted (map (\<lambda>c. unat (tier (cd_kind c))) (filter (\<lambda>c. unat (tier (cd_kind c)) = a) cs))"
      by (induction cs) (auto simp: sorted_append)
    ultimately show ?case using Suc(1)[of "Suc a"] Suc(2) by (auto simp: sorted_append)
  qed simp
  have "sorted (map (\<lambda>ci. unat (tier (cd_kind (fst ci)))) (concat (map (\<lambda>c. map (Pair c) [0..<unat (cd_instances c)]) ds)))"
    if "sorted (map (\<lambda>c. unat (tier (cd_kind c))) ds)" for ds :: "'a ComponentDef list"
    using that by (induction ds) (auto simp: sorted_append comp_def map_replicate_const)
  then show ?thesis using tiers unfolding spawn_plan_def by_tiers_def by blast
qed

lemma filter_plan:
  assumes "distinct (map cd_name cs)" and "c \<in> set cs"
  shows "filter (\<lambda>ci. cd_name (fst ci) = cd_name c) (spawn_plan cs) = map (Pair c) [0..<unat (cd_instances c)]"
proof -
  have other: "filter (\<lambda>ci. cd_name (fst ci) = cd_name c) (concat (map (\<lambda>c. map (Pair c) [0..<unat (cd_instances c)]) ds)) = []"
    if "c \<notin> set ds" "set ds \<subseteq> set cs" for ds
    using that assms by (auto simp: filter_empty_conv distinct_map inj_on_def)
  have "distinct (concat (map (\<lambda>t. filter (\<lambda>c. unat (tier (cd_kind c)) = t) cs) [a..<b]))" for a b
  proof (induction "b - a" arbitrary: a)
    case (Suc n)
    then have "[a..<b] = a # [Suc a..<b]" by (simp add: upt_conv_Cons)
    then show ?case using Suc(1)[of "Suc a"] Suc(2) assms(1) by (auto simp: distinct_map)
  qed simp
  then have "distinct (by_tiers cs)" unfolding by_tiers_def .
  then obtain ds es where split: "by_tiers cs = ds @ c # es" "c \<notin> set ds" "c \<notin> set es"
    using split_list_first[of c "by_tiers cs"] assms(2) set_by_tiers[of cs] by (metis distinct.simps(2) distinct_append)
  have "set ds \<subseteq> set cs" "set es \<subseteq> set cs" using split(1) set_by_tiers[of cs] by auto
  then show ?thesis using other split by (simp add: spawn_plan_def comp_def)
qed

text \<open>
  C40. A topology that the supervisor starts runs as configured: one process per instance of every component,
  orchestrators first, then storage, producers, processors and consumers.  A restart request for an instance
  reaches the handle of that instance and no other, and one beyond the instances reaches none.  The shutdown
  stops every process once, the consumers first and the orchestrators last, and then kills whatever is left.
\<close>

theorem topology_runs_as_planned:
  assumes "supervisor_start env fl False config = Some (st, Ok ())"
    and ids: "\<And>k b s h. ee_spawn env k b s = Ok h \<Longrightarrow> hid h = (sp_name s, sp_instance s)"
  defines "plan \<equiv> spawn_plan (tc_components config)"
  shows "map (\<lambda>s. (sp_name (snd s), sp_instance (snd s))) (ss_spawned st) = map (\<lambda>(c, i). (cd_name c, i)) plan
    \<and> sorted (map (\<lambda>(c, i). unat (tier (cd_kind c))) plan)
    \<and> (\<forall>c \<in> set (tc_components config). \<forall>i d. map_option hid (restart_target \<lparr>rr_component = cd_name c, rr_instance = Some i, rr_delay = d\<rparr> (ss_handles st))
         = (if i < unat (cd_instances c) then Some (cd_name c, i) else None))
    \<and> (\<exists>es. shutdown_calls (ss_handles st) = concat (map (\<lambda>(c, hs). map StopCall hs) es) @ map KillCall (concat (map snd (ss_handles st)))
         \<and> mset es = mset (ss_handles st) \<and> sorted_wrt (\<lambda>(c, _) (d, _). tier (cd_kind d) \<le> tier (cd_kind c)) es
         \<and> image_mset hid (mset (concat (map snd es))) = mset (map (\<lambda>(c, i). (cd_name c, i)) plan))"
proof -
  obtain ws where v: "validate fl config = Some (Ok ws)"
    and sp: "spawn_each env config (topic_map_of (tc_topics config)) plan \<lparr>ss_spawned = [], ss_handles = []\<rparr> = (st, Ok ())"
    using assms(1) by (auto simp: supervisor_start_def plan_def Let_def split: option.splits sum.splits)
  have pid: "pair_id = (\<lambda>(c, i). (cd_name c, i))" by (simp add: fun_eq_iff)
  have "started hid [] \<lparr>ss_spawned = [], ss_handles = [] :: ('a ComponentDef \<times> 'b list) list\<rparr>" by (simp add: started_def handles_at_def)
  from spawn_each_started[OF ids this sp] have st: "started hid plan st" by simp
  have restart: "map_option hid (restart_target \<lparr>rr_component = cd_name c, rr_instance = Some i, rr_delay = d\<rparr> (ss_handles st))
      = (if i < unat (cd_instances c) then Some (cd_name c, i) else None)" if "c \<in> set (tc_components config)" for c i d
  proof -
    have "map hid (handles_at (cd_name c) (ss_handles st)) = map (Pair (cd_name c)) [0..<unat (cd_instances c)]"
      using st filter_plan[OF validated_facts(1)[OF v] that] by (simp add: started_def plan_def)
    then have "length (handles_at (cd_name c) (ss_handles st)) = unat (cd_instances c)"
      "\<And>i. i < unat (cd_instances c) \<Longrightarrow> hid (handles_at (cd_name c) (ss_handles st) ! i) = (cd_name c, i)"
      by (metis diff_zero length_map length_upt, metis add_0 diff_zero length_map length_upt nth_map nth_upt)
    then show ?thesis by (simp add: restart_target_at Let_def unwrap_or_def)
  qed
  let ?es = "sort_key (\<lambda>(c, hs). - int (unat (tier (cd_kind c)))) (ss_handles st)"
  have "mset (concat (map snd ?es)) = mset (concat (map snd (ss_handles st)))"
    unfolding mset_concat_map by simp
  then have stops: "image_mset hid (mset (concat (map snd ?es))) = mset (map pair_id plan)" using st by (simp add: started_def)
  have "sorted (map (\<lambda>(c, hs). - int (unat (tier (cd_kind c)))) ?es)" by simp
  then have order: "sorted_wrt (\<lambda>(c, _) (d, _). tier (cd_kind d) \<le> tier (cd_kind c)) ?es"
    unfolding sorted_map by (rule sorted_wrt_mono_rel[rotated]) (auto simp: word_le_def)
  have "concat (map (\<lambda>(c, hs). map KillCall hs) (ss_handles st)) = map KillCall (concat (map snd (ss_handles st)))"
    unfolding map_concat map_map by (intro arg_cong[where f = concat] map_cong) auto
  then have calls: "shutdown_calls (ss_handles st) = concat (map (\<lambda>(c, hs). map StopCall hs) ?es) @ map KillCall (concat (map snd (ss_handles st)))"
    unfolding shutdown_calls_def by (rule arg_cong)
  have s1: "map (\<lambda>s. (sp_name (snd s), sp_instance (snd s))) (ss_spawned st) = map (\<lambda>(c, i). (cd_name c, i)) plan"
    using st unfolding started_def comp_def pid by blast
  have "(\<lambda>ci :: 'a ComponentDef \<times> nat. unat (tier (cd_kind (fst ci)))) = (\<lambda>(c, i). unat (tier (cd_kind c)))" by (simp add: fun_eq_iff)
  then have s2: "sorted (map (\<lambda>(c, i). unat (tier (cd_kind c))) plan)" using plan_sorted[of "tc_components config"] unfolding plan_def by metis
  show ?thesis
    using s1 s2 restart calls order stops[unfolded pid] by (intro conjI exI[of _ ?es] ballI allI) (simp_all only: mset_sort)
qed

text \<open>A failed start returns its error with the processes it has started still running.\<close>

theorem failed_start_leaves_processes:
  assumes "spawn_one env config m ci st = (st1, Ok ())" and "spawn_one env config m cj st1 = (st2, Err e)"
  shows "spawn_each env config m (ci # cj # cis) st = (st1, Err e) \<and> length (ss_spawned st1) = Suc (length (ss_spawned st))"
  using assms by (auto simp: spawn_one_def Let_def split: sum.splits prod.splits)

section \<open>Agreement on a topic\<close>

definition instance_role :: "'f TopologyConfig \<Rightarrow> 'f ComponentDef \<Rightarrow> nat \<Rightarrow> 'f role_config" where
  "instance_role config c i =
     (let m = topic_map_of (tc_topics config) in role_of config m c i (resolve_component_config c (component_topic m c) (tc_defaults config)))"

lemma topic_map_get:
  assumes "distinct (map td_name ts)" and "t \<in> set ts"
  shows "hm_get (topic_map_of ts) (td_name t) = Some t"
proof -
  have "hm_get (fold (\<lambda>t m. hm_insert (td_name t) t m) ts m) (td_name t) = Some t" for m
    using assms
  proof (induction ts arbitrary: m)
    case (Cons u ts)
    have other: "td_name t \<notin> td_name ` set us \<Longrightarrow> hm_get (fold (\<lambda>t m. hm_insert (td_name t) t m) us m) (td_name t) = hm_get m (td_name t)" for us m
      by (induction us arbitrary: m) auto
    show ?case
    proof (cases "t \<in> set ts")
      case False
      then show ?thesis using Cons.prems other[of ts] by auto
    qed (use Cons in simp)
  qed simp
  then show ?thesis by (simp add: topic_map_of_def)
qed

text \<open>
  In a validated topology the components on a topic are configured alike, whatever the order of the file:
  a producer, a consumer, a processor that reads the topic and a storage agent of the topic, none of them with
  a codec of its own, get the key prefix, the codec and the number of partitions of the topic (or the default
  codec), and so every instance of them speaks the same protocol.
\<close>

theorem topic_roles_agree:
  assumes "validate fl config = Some (Ok ws)" and "c \<in> set (tc_components config)" and "cd_codec c = None"
    and "cd_kind c \<in> {Producer, Consumer, StorageAgent} \<and> cd_topic c = Some n \<or> cd_kind c = Processor \<and> cd_input_topic c = Some n"
  shows "\<exists>t \<in> set (tc_topics config). td_name t = n \<and>
    (let cod = (case td_codec t of Some x \<Rightarrow> x | None \<Rightarrow> df_codec (tc_defaults config)) in
     case instance_role config c i of
       ProducerRole r \<Rightarrow> prc_key_prefix r = td_key_prefix t \<and> prc_codec r = cod \<and> prc_num_partitions r = td_num_partitions t
     | ConsumerRole r \<Rightarrow> crc_key_prefix r = td_key_prefix t \<and> crc_codec r = cod \<and> crc_num_partitions r = td_num_partitions t
     | ProcessorRole r \<Rightarrow> por_input_key_prefix r = td_key_prefix t \<and> por_codec r = cod \<and> por_num_partitions r = td_num_partitions t
     | StorageAgentRole r \<Rightarrow> sar_key_prefix r = td_key_prefix t \<and> sar_codec r = cod \<and> sar_num_partitions r = td_num_partitions t
         \<and> sar_replication_factor r = td_replication_factor t
     | _ \<Rightarrow> False)"
proof -
  have "references_ok (td_name ` set (tc_topics config)) c" using validated_facts(3)[OF assms(1)] assms(2) by blast
  then have "n \<in> td_name ` set (tc_topics config)" using assms(4) by (auto simp: references_ok_def)
  then obtain t where t: "t \<in> set (tc_topics config)" "td_name t = n" by auto
  then have get: "hm_get (topic_map_of (tc_topics config)) n = Some t" using topic_map_get[OF validated_facts(2)[OF assms(1)] t(1)] by simp
  show ?thesis
    by (rule bexI[OF _ t(1)])
      (use assms(3,4) t(2) get in \<open>auto simp: instance_role_def role_of_def component_topic_def lookup_topic_def resolve_component_config_def Let_def split: option.splits\<close>)
qed

text \<open>
  On its output a processor uses the codec of its input topic, so a consumer of an output topic with another
  codec cannot decode what it publishes.
\<close>

theorem processor_publishes_input_codec:
  assumes "distinct (map td_name (tc_topics config))" and "a \<in> set (tc_topics config)" and "b \<in> set (tc_topics config)"
    and "cd_kind q = Processor" "cd_input_topic q = Some (td_name a)" "cd_output_topic q = Some (td_name b)" "cd_codec q = None"
    and "cd_kind c = Consumer" "cd_topic c = Some (td_name b)" "cd_codec c = None" and "td_codec a = Some x" "td_codec b = Some y"
  shows "\<exists>r s. instance_role config q i = ProcessorRole r \<and> instance_role config c j = ConsumerRole s
    \<and> por_output_key_prefix r = crc_key_prefix s \<and> por_codec r = x \<and> crc_codec s = y"
  using assms topic_map_get[OF assms(1,2)] topic_map_get[OF assms(1,3)]
  by (simp add: instance_role_def role_of_def component_topic_def lookup_topic_def resolve_component_config_def Let_def)

text \<open>What a started instance finds in its environment.\<close>

lemma spawned_environment:
  assumes "spawn_one env config (topic_map_of (tc_topics config)) (c, i) st = (st', Ok ())"
  shows "\<exists>b s r. ss_spawned st' = ss_spawned st @ [(b, s)] \<and> ee_role env (instance_role config c i) = Ok r
    \<and> hm_get (sp_env s) ''MITIFLOW_EMU_CONFIG'' = Some r"
  using assms by (auto simp: spawn_one_def build_spec_def instance_role_def Let_def split: sum.splits)

section \<open>A small topology\<close>

definition demo_component :: "string \<Rightarrow> ComponentKind \<Rightarrow> u32 \<Rightarrow> nat ComponentDef" where
  "demo_component name kind n = \<lparr>cd_name = name, cd_kind = kind, cd_instances = n, cd_topic = Some ''t'', cd_input_topic = None,
     cd_output_topic = None, cd_rate = None, cd_durable = False, cd_urgency_ms = None, cd_cache_size = None, cd_heartbeat_ms = None,
     cd_payload = None, cd_rate_per_instance = None, cd_ramp_up_sec = None, cd_ramp_start_rate = None, cd_burst_factor = None,
     cd_processing = None, cd_consumer_group = None, cd_output = None, cd_processing_delay_ms = None, cd_offload_enabled = False,
     cd_num_processing_shards = None, cd_data_dir = None, cd_capacity = None, cd_managed_topics = [], cd_labels = None,
     cd_global_prefix = None, cd_auto_discover_topics = None, cd_lag_interval_ms = None, cd_http_port = None, cd_log_level = None,
     cd_depends_on = [], cd_isolation = None, cd_codec = None\<rparr>"

definition demo_topology :: "nat TopologyConfig" where
  "demo_topology = \<lparr>tc_zenoh = zenoh_config_default, tc_defaults = defaults_config_default, tc_logging = logging_config_default,
     tc_topics = [\<lparr>td_name = ''t'', td_key_prefix = ''app/t'', td_codec = None, td_num_partitions = 4, td_replication_factor = 1,
       td_retention = None, td_compaction = None\<rparr>],
     tc_components = [demo_component ''c'' Consumer 1, demo_component ''p'' Producer 2],
     tc_chaos = \<lparr>ch_enabled = False, ch_seed = None, ch_schedule = [], ch_random = None\<rparr>, tc_manifest = manifest_config_default\<rparr>"

definition demo_rates :: "nat float_ops" where
  "demo_rates = \<lparr>fl_zero = 0, fl_add = (+), fl_less = (<), fl_le = (\<le>), fl_is_finite = (\<lambda>_. True)\<rparr>"

definition demo_emu :: "(nat, string \<times> nat) emu_env" where
  "demo_emu = \<lparr>ee_zenoh = (\<lambda>_. Ok []), ee_role = (\<lambda>_. Ok []), ee_sibling = (\<lambda>_. None), ee_containers = False,
     ee_spawn = (\<lambda>_ _ s. Ok (sp_name s, sp_instance s))\<rparr>"

lemma demo_validated: "\<exists>ws. validate (fl :: nat float_ops) demo_topology = Some (Ok ws)"
proof -
  have "validate_no_cycles (tc_components demo_topology) = Some (Ok ())" by code_simp
  then show ?thesis
    by (simp add: validate_def demo_topology_def demo_component_def build_topic_registry_def validate_unique_names_def validate_topic_references_def
        topic_reference_def required_topic_def known_topic_def validate_source_coverage_def produced_topics_def covered_source_def)
qed

theorem topology_runs_as_planned_witness:
  "\<exists>st. supervisor_start demo_emu demo_rates False demo_topology = Some (st, Ok ())
     \<and> map (\<lambda>s. (sp_name (snd s), sp_instance (snd s))) (ss_spawned st) = [(''p'', 0), (''p'', 1), (''c'', 0)]"
proof -
  obtain ws where v: "validate demo_rates demo_topology = Some (Ok ws)" using demo_validated by blast
  have one: "\<exists>st'. spawn_one demo_emu demo_topology m ci st = (st', Ok ())" for m ci st
    by (cases ci) (simp add: spawn_one_def build_spec_def demo_emu_def Let_def)
  have "\<exists>st'. spawn_each demo_emu demo_topology m cis st = (st', Ok ())" for m cis st
  proof (induction cis arbitrary: st)
    case (Cons ci cis)
    then show ?case using one[of m ci st] by auto
  qed simp
  then obtain st where "supervisor_start demo_emu demo_rates False demo_topology = Some (st, Ok ())"
    using v unfolding supervisor_start_def Let_def by (simp, meson)
  moreover have "\<And>k b s h. ee_spawn demo_emu k b s = Ok h \<Longrightarrow> id h = (sp_name s, sp_instance s)" by (simp add: demo_emu_def)
  moreover have "spawn_plan (tc_components demo_topology) = [(demo_component ''p'' Producer 2, 0), (demo_component ''p'' Producer 2, 1), (demo_component ''c'' Consumer 1, 0)]"
    by (simp add: spawn_plan_def by_tiers_def demo_topology_def demo_component_def upt_rec)
  moreover have "cd_name (demo_component n k i) = n" for n k i by (simp add: demo_component_def)
  ultimately show ?thesis using topology_runs_as_planned[of demo_emu demo_rates demo_topology st id] by auto
qed

theorem topic_roles_agree_witness:
  "\<exists>r. instance_role demo_topology (demo_component ''p'' Producer 2) 0 = ProducerRole r \<and> prc_key_prefix r = ''app/t'' \<and> prc_num_partitions r = 4"
proof -
  let ?p = "demo_component ''p'' Producer 2"
  obtain ws where v: "validate demo_rates demo_topology = Some (Ok ws)" using demo_validated by blast
  have p: "?p \<in> set (tc_components demo_topology)" "cd_codec ?p = None" "cd_kind ?p = Producer" "cd_topic ?p = Some ''t''"
    by (simp_all add: demo_topology_def demo_component_def)
  have topic: "td_key_prefix t = ''app/t''" "td_num_partitions t = 4" if "t \<in> set (tc_topics demo_topology)" for t
    using that by (auto simp: demo_topology_def)
  obtain r where "instance_role demo_topology ?p 0 = ProducerRole r" using p(3) by (simp add: instance_role_def role_of_def Let_def)
  then show ?thesis using topic_roles_agree[OF v p(1,2), of "''t''" 0] p(3,4) topic by (auto simp: Let_def)
qed

end
