(* ===== verification/Http_Api.thy ===== *)
theory Http_Api
  imports Overrides Orchestrator Lag Session_Io
begin

text \<open>
  The web interface of the orchestrator (\<^verbatim>\<open>mitiflow-orchestrator/src/http\<close>): its bearer
  token, the handlers for topics, cluster, consumer groups and events, and the event streams; and the admin
  queryable and token sources of \<^verbatim>\<open>orchestrator.rs\<close>.  Routing by path and method, the reading of
  request bodies and the printing of responses are those of axum and serde: a request is a value of a
  datatype with one constructor per route, a response the value that is printed.
\<close>

section \<open>Requests, responses, errors\<close>

datatype AppError = Internal string | NotFound string | BadRequest string

record CreateTopicRequest =
  cr_name :: string
  cr_key_prefix :: string
  cr_num_partitions :: u32
  cr_replication_factor :: u32
  cr_required_labels :: "(string, string) hmap"
  cr_excluded_labels :: "(string, string) hmap"
  cr_codec :: CodecFormat
  cr_key_format :: KeyFormat
  cr_schema_version :: u32

definition default_partitions :: u32 where
  "default_partitions = 16"

definition default_rf :: u32 where
  "default_rf = 1"

record UpdateTopicRequest =
  ur_replication_factor :: "u32 option"
  ur_retention :: "RetentionPolicy option"
  ur_compaction :: "CompactionPolicy option"
  ur_required_labels :: "(string, string) hmap option"
  ur_excluded_labels :: "(string, string) hmap option"
  ur_codec :: "CodecFormat option"
  ur_key_format :: "KeyFormat option"
  ur_schema_version :: "u32 option"

record ClusterStatus =
  cs_total_nodes :: nat
  cs_online_nodes :: nat
  cs_total_partitions :: nat

record ReplicaInfo =
  ri_replica :: u32
  ri_node_id :: string
  ri_state :: string
  ri_source :: string

record PartitionInfo =
  pi_partition :: u32
  pi_replicas :: "ReplicaInfo list"

record NodePartitionEntry =
  np_partition :: u32
  np_replica :: u32
  np_state :: string
  np_source :: string

record NodeTopicPartitions =
  nt_topic :: string
  nt_partitions :: "NodePartitionEntry list"

record PublisherInfo =
  pb_publisher_id :: string
  pb_partitions :: "(u32, u64) hmap"

datatype ClientRole = PublisherRole | ConsumerRole

record LiveClient =
  lc_id :: string
  lc_role :: ClientRole
  lc_group_id :: "string option"

record TopicClients =
  tl_topic :: string
  tl_publishers :: "LiveClient list"
  tl_consumers :: "LiveClient list"

record TopicLagSummary =
  sl_group_id :: string
  sl_partitions :: "LagReport list"
  sl_total_lag :: u64

record ConsumerGroupSummary =
  gs_group_id :: string
  gs_total_lag :: u64

record ConsumerGroupDetail =
  gd_group_id :: string
  gd_lag :: "LagReport list"
  gd_total_lag :: u64
  gd_members :: "LiveClient list"

record DrainResponse =
  dr_node_id :: string
  dr_overrides :: "OverrideEntry list"

record OverrideEntryRequest =
  oq_partition :: u32
  oq_replica :: u32
  oq_node_id :: string
  oq_reason :: string

record AddOverridesRequest =
  aq_entries :: "OverrideEntryRequest list"
  aq_ttl_seconds :: "u64 option"

record EventQueryParams =
  eq_topic :: "string option"
  eq_partition :: "u32 option"
  eq_after_seq :: "u64 option"
  eq_before_seq :: "u64 option"
  eq_after_time :: "string option"
  eq_before_time :: "string option"
  eq_publisher_id :: "string option"
  eq_key :: "string option"
  eq_limit :: "nat option"

datatype ResetStrategy = Earliest | Latest | ToSeq u64

record ResetOffsetsRequest =
  rr_topic :: string
  rr_partition :: u32
  rr_strategy :: ResetStrategy

record ResetResponse =
  rs_group_id :: string
  rs_topic :: string
  rs_partition :: u32
  rs_offset :: u64

record event_json =
  ej_seq :: u64
  ej_partition :: u32
  ej_publisher_id :: string
  ej_event_id :: string
  ej_timestamp :: string
  ej_key :: "string option"
  ej_key_expr :: string
  ej_payload_size :: nat
  ej_payload_base64 :: string
  ej_payload_text :: "string option"

record events_page =
  ep_events :: "event_json list"
  ep_total :: nat
  ep_has_more :: bool

section \<open>State and surroundings\<close>

text \<open>
  The shared state.  The nodes handle and the cluster view are one table; the views and monitors of the
  topics are named by the topic manager and their current content is part of the surroundings.
\<close>

record 'd http_state =
  hs_config_store :: 'd
  hs_nodes :: "cluster_nodes option"
  hs_lag_monitor :: "lag_monitor option"
  hs_session :: bool
  hs_topic_manager :: "topic_manager option"
  hs_overrides :: "OverrideTable option"
  hs_key_prefix :: string

text \<open>
  What a handler finds while it runs: the answers of the session (a failed liveliness or store query is
  \<^const>\<open>None\<close>, an error reply is \<^const>\<open>None\<close> in the list), the content of views and monitors, the clocks, and
  the printers of the libraries.
\<close>

record http_env =
  he_net :: session_answers
  he_put_overrides :: "unit result"
  he_liveliness :: "string \<Rightarrow> string option list option"
  he_store :: "string \<Rightarrow> zenoh_sample option list option"
  he_view :: "string \<Rightarrow> cluster_nodes"
  he_lag :: "string \<Rightarrow> lag_monitor"
  he_now :: Instant
  he_wall :: DateTime
  he_threshold :: Duration
  he_uuid :: "u128 \<Rightarrow> string"
  he_rfc3339 :: "DateTime \<Rightarrow> string"
  he_base64 :: "bytes \<Rightarrow> string"
  he_orch_display :: "orch_error \<Rightarrow> string"
  he_display :: "error \<Rightarrow> string"

text \<open>\<^verbatim>\<open>From\<close> for the errors of the store and of the override manager.\<close>

definition app_orch :: "http_env \<Rightarrow> orch_error + 'a \<Rightarrow> AppError + 'a" where
  "app_orch env r = (case r of Ok x \<Rightarrow> Ok x | Err e \<Rightarrow> Err (Internal (he_orch_display env e)))"

definition app_err :: "http_env \<Rightarrow> 'a result \<Rightarrow> AppError + 'a" where
  "app_err env r = (case r of Ok x \<Rightarrow> Ok x | Err e \<Rightarrow> Err (Internal (he_display env e)))"

definition topic_not_found :: "string \<Rightarrow> AppError" where
  "topic_not_found name = NotFound (''topic '' @ [CHR 0x27] @ name @ [CHR 0x27] @ '' not found'')"

definition state_debug :: "StoreState \<Rightarrow> string" where
  "state_debug s = (case s of Starting \<Rightarrow> ''Starting'' | Recovering \<Rightarrow> ''Recovering'' | Active \<Rightarrow> ''Active''
     | Draining \<Rightarrow> ''Draining'' | Stopped \<Rightarrow> ''Stopped'')"

definition source_debug :: "AssignmentSource \<Rightarrow> string" where
  "source_debug s = (case s of Computed \<Rightarrow> ''Computed'' | Override \<Rightarrow> ''Override'')"

section \<open>Topics: reading\<close>

definition http_list_topics :: "'d fjall_ops \<Rightarrow> TopicConfig commit_codec \<Rightarrow> http_env \<Rightarrow> 'd http_state \<Rightarrow> AppError + TopicConfig list" where
  "http_list_topics ops js env st = app_orch env (list_topics ops js (hs_config_store st))"

text \<open>The lookup every topic handler starts with, and the handler that returns just that.\<close>

definition find_topic :: "'d fjall_ops \<Rightarrow> TopicConfig commit_codec \<Rightarrow> http_env \<Rightarrow> string \<Rightarrow> 'd http_state \<Rightarrow> AppError + TopicConfig" where
  "find_topic ops js env name st =
     rbind (app_orch env (get_topic ops js name (hs_config_store st)))
       (\<lambda>r. case r of Some cfg \<Rightarrow> Ok cfg | None \<Rightarrow> Err (topic_not_found name))"

definition topic_assignments :: "http_env \<Rightarrow> string \<Rightarrow> 'd http_state \<Rightarrow> (u32 \<times> u32, AssignmentInfo) hmap" where
  "topic_assignments env name st =
     (let fallback = (case hs_nodes st of Some m \<Rightarrow> view_assignments m | None \<Rightarrow> []) in
      case hs_topic_manager st of
        Some tm \<Rightarrow> (if hm_get (tm_views tm) name \<noteq> None then view_assignments (he_view env name) else fallback)
      | None \<Rightarrow> fallback)"

definition replica_info :: "AssignmentInfo \<Rightarrow> ReplicaInfo" where
  "replica_info a = \<lparr>ri_replica = ai_replica a, ri_node_id = ai_node_id a, ri_state = state_debug (ai_state a), ri_source = source_debug (ai_source a)\<rparr>"

definition group_by_partition :: "(u32 \<times> u32, AssignmentInfo) hmap \<Rightarrow> (u32, ReplicaInfo list) hmap" where
  "group_by_partition asg =
     fold (\<lambda>(_, a) m. hm_insert (ai_partition a) ((case hm_get m (ai_partition a) of Some rs \<Rightarrow> rs | None \<Rightarrow> []) @ [replica_info a]) m) asg []"

fun take_partitions :: "u32 list \<Rightarrow> (u32, ReplicaInfo list) hmap \<Rightarrow> PartitionInfo list" where
  "take_partitions [] m = []"
| "take_partitions (p # ps) m =
     \<lparr>pi_partition = p, pi_replicas = (case hm_get m p of Some rs \<Rightarrow> rs | None \<Rightarrow> [])\<rparr> # take_partitions ps (hm_remove p m)"

definition partition_range :: "u32 \<Rightarrow> u32 list" where
  "partition_range n = map of_nat [0..<unat n]"

definition topic_partitions :: "'d fjall_ops \<Rightarrow> TopicConfig commit_codec \<Rightarrow> http_env \<Rightarrow> string \<Rightarrow> 'd http_state \<Rightarrow> AppError + PartitionInfo list" where
  "topic_partitions ops js env name st =
     rbind (find_topic ops js env name st) (\<lambda>topic.
       Ok (sort_key pi_partition (take_partitions (partition_range (tc_num_partitions topic)) (group_by_partition (topic_assignments env name st)))))"

definition topic_monitor :: "http_env \<Rightarrow> string \<Rightarrow> 'd http_state \<Rightarrow> lag_monitor option" where
  "topic_monitor env name st =
     (case (case hs_topic_manager st of Some tm \<Rightarrow> map_option (\<lambda>_. he_lag env name) (hm_get (tm_lag_monitors tm) name) | None \<Rightarrow> None) of
        Some lm \<Rightarrow> Some lm
      | None \<Rightarrow> hs_lag_monitor st)"

definition group_lag :: "http_env \<Rightarrow> string \<Rightarrow> lag_monitor \<Rightarrow> LagReport list" where
  "group_lag env g lm = get_group_lag (he_now env) (he_wall env) (he_threshold env) g lm"

definition topic_lag :: "'d fjall_ops \<Rightarrow> TopicConfig commit_codec \<Rightarrow> http_env \<Rightarrow> string \<Rightarrow> 'd http_state \<Rightarrow> AppError + TopicLagSummary list" where
  "topic_lag ops js env name st =
     rbind (find_topic ops js env name st) (\<lambda>topic. case topic_monitor env name st of
         None \<Rightarrow> Ok []
       | Some lm \<Rightarrow> Ok (concat (map (\<lambda>g.
            let rs = filter (\<lambda>r. lr_partition r < tc_num_partitions topic) (group_lag env g lm) in
            if rs = [] then [] else [\<lparr>sl_group_id = g, sl_partitions = rs, sl_total_lag = sum_list (map lr_total rs)\<rparr>])
            (known_groups lm))))"

definition topic_publishers :: "'d fjall_ops \<Rightarrow> TopicConfig commit_codec \<Rightarrow> http_env \<Rightarrow> string \<Rightarrow> 'd http_state \<Rightarrow> AppError + PublisherInfo list" where
  "topic_publishers ops js env name st =
     rbind (find_topic ops js env name st) (\<lambda>topic. case topic_monitor env name st of
         None \<Rightarrow> Ok []
       | Some lm \<Rightarrow> Ok (filter (\<lambda>p. pb_partitions p \<noteq> []) (map (\<lambda>(i, ps).
            \<lparr>pb_publisher_id = he_uuid env i,
             pb_partitions = fold (\<lambda>p. hm_insert p 0) (filter (\<lambda>p. p < tc_num_partitions topic) ps) []\<rparr>) (get_publishers lm))))"

section \<open>Live clients\<close>

definition live_publisher :: "string \<Rightarrow> string \<Rightarrow> LiveClient option" where
  "live_publisher kp key = map_option (\<lambda>i. \<lparr>lc_id = i, lc_role = PublisherRole, lc_group_id = None\<rparr>) (strip_prefix (kp @ ''/_publishers/'') key)"

definition live_consumer :: "string \<Rightarrow> string \<Rightarrow> LiveClient option" where
  "live_consumer kp key = map_option (\<lambda>s. case split_once (CHR ''/'') s of
       Some (g, member) \<Rightarrow> \<lparr>lc_id = member, lc_role = ConsumerRole, lc_group_id = Some g\<rparr>
     | None \<Rightarrow> \<lparr>lc_id = s, lc_role = ConsumerRole, lc_group_id = None\<rparr>) (strip_prefix (kp @ ''/_workers/'') key)"

definition tokens :: "http_env \<Rightarrow> string \<Rightarrow> string list" where
  "tokens env selector = (case he_liveliness env selector of Some rs \<Rightarrow> List.map_filter (\<lambda>r. r) rs | None \<Rightarrow> [])"

definition query_liveliness_clients :: "http_env \<Rightarrow> string \<Rightarrow> LiveClient list \<times> LiveClient list" where
  "query_liveliness_clients env kp =
     (sort_key (as_bytes \<circ> lc_id) (List.map_filter (live_publisher kp) (tokens env (kp @ ''/_publishers/*''))),
      sort_key (as_bytes \<circ> lc_id) (List.map_filter (live_consumer kp) (tokens env (kp @ ''/_workers/**''))))"

definition http_topic_prefix :: "'d http_state \<Rightarrow> TopicConfig \<Rightarrow> string" where
  "http_topic_prefix st c = (if tc_key_prefix c = [] then hs_key_prefix st else tc_key_prefix c)"

definition clients_of :: "http_env \<Rightarrow> 'd http_state \<Rightarrow> string \<Rightarrow> TopicConfig \<Rightarrow> TopicClients" where
  "clients_of env st name c =
     (case query_liveliness_clients env (http_topic_prefix st c) of (ps, cs) \<Rightarrow> \<lparr>tl_topic = name, tl_publishers = ps, tl_consumers = cs\<rparr>)"

definition topic_clients :: "'d fjall_ops \<Rightarrow> TopicConfig commit_codec \<Rightarrow> http_env \<Rightarrow> string \<Rightarrow> 'd http_state \<Rightarrow> AppError + TopicClients" where
  "topic_clients ops js env name st =
     rbind (find_topic ops js env name st) (\<lambda>topic.
       if \<not> hs_session st then Ok \<lparr>tl_topic = name, tl_publishers = [], tl_consumers = []\<rparr>
       else Ok (clients_of env st name topic))"

definition all_clients :: "'d fjall_ops \<Rightarrow> TopicConfig commit_codec \<Rightarrow> http_env \<Rightarrow> 'd http_state \<Rightarrow> AppError + TopicClients list" where
  "all_clients ops js env st =
     (if \<not> hs_session st then Ok []
      else rbind (app_orch env (list_topics ops js (hs_config_store st))) (\<lambda>topics.
        Ok (sort_key (as_bytes \<circ> tl_topic) (map (\<lambda>t. clients_of env st (tc_name t) t) topics))))"

section \<open>Topics: writing\<close>

type_synonym ('d, 'a) http_step = "'d http_state \<times> topic_msg list \<times> (AppError + 'a)"

definition http_config_key :: "'d http_state \<Rightarrow> string \<Rightarrow> string" where
  "http_config_key st name = hs_key_prefix st @ ''/_config/'' @ name"

definition created_config :: "CreateTopicRequest \<Rightarrow> TopicConfig" where
  "created_config req = \<lparr>tc_name = cr_name req, tc_key_prefix = cr_key_prefix req, tc_num_partitions = cr_num_partitions req,
     tc_replication_factor = cr_replication_factor req, tc_retention = \<lparr>rp_max_age = None, rp_max_bytes = None, rp_max_events = None\<rparr>,
     tc_compaction = \<lparr>cp_enabled = False, cp_interval = None\<rparr>, tc_required_labels = cr_required_labels req,
     tc_excluded_labels = cr_excluded_labels req, tc_codec = cr_codec req, tc_key_format = cr_key_format req,
     tc_schema_version = cr_schema_version req\<rparr>"

text \<open>The configuration on its key, when there is a session; a failure is only logged.\<close>

definition announce_config :: "TopicConfig commit_codec \<Rightarrow> http_env \<Rightarrow> TopicConfig \<Rightarrow> 'd http_state \<Rightarrow> topic_msg list" where
  "announce_config js env cfg st =
     (if \<not> hs_session st then []
      else case cc_to_vec js cfg of
          Err _ \<Rightarrow> []
        | Ok bytes \<Rightarrow> (case sa_put (he_net env) (http_config_key st (tc_name cfg)) of
            Ok _ \<Rightarrow> [(http_config_key st (tc_name cfg), Some bytes)] | Err _ \<Rightarrow> []))"

definition http_create_topic ::
  "'d fjall_ops \<Rightarrow> TopicConfig commit_codec \<Rightarrow> http_env \<Rightarrow> CreateTopicRequest \<Rightarrow> 'd http_state \<Rightarrow> ('d, TopicConfig) http_step"
where
  "http_create_topic ops js env req st =
     (let cfg = created_config req; (d, r) = put_topic ops js cfg (hs_config_store st); st1 = st\<lparr>hs_config_store := d\<rparr> in
      case app_orch env r of
        Err e \<Rightarrow> (st1, [], Err e)
      | Ok _ \<Rightarrow>
          let msgs = announce_config js env cfg st1;
              st2 = (case hs_topic_manager st1 of
                  None \<Rightarrow> st1
                | Some tm \<Rightarrow> if tc_key_prefix cfg = [] then st1
                    else st1\<lparr>hs_topic_manager := Some (fst (tm_add_topic (he_net env) (tc_name cfg) (tc_key_prefix cfg) tm))\<rparr>)
          in (st2, msgs, Ok cfg))"

definition set_opt :: "'a option \<Rightarrow> 'a \<Rightarrow> 'a" where
  "set_opt r old = (case r of Some new \<Rightarrow> new | None \<Rightarrow> old)"

definition updated_config :: "UpdateTopicRequest \<Rightarrow> TopicConfig \<Rightarrow> TopicConfig" where
  "updated_config req cfg = cfg\<lparr>
     tc_replication_factor := set_opt (ur_replication_factor req) (tc_replication_factor cfg),
     tc_retention := set_opt (ur_retention req) (tc_retention cfg),
     tc_compaction := set_opt (ur_compaction req) (tc_compaction cfg),
     tc_required_labels := set_opt (ur_required_labels req) (tc_required_labels cfg),
     tc_excluded_labels := set_opt (ur_excluded_labels req) (tc_excluded_labels cfg),
     tc_codec := set_opt (ur_codec req) (tc_codec cfg),
     tc_key_format := set_opt (ur_key_format req) (tc_key_format cfg),
     tc_schema_version := set_opt (ur_schema_version req) (tc_schema_version cfg)\<rparr>"

definition http_update_topic ::
  "'d fjall_ops \<Rightarrow> TopicConfig commit_codec \<Rightarrow> http_env \<Rightarrow> string \<Rightarrow> UpdateTopicRequest \<Rightarrow> 'd http_state \<Rightarrow> ('d, TopicConfig) http_step"
where
  "http_update_topic ops js env name req st =
     (case find_topic ops js env name st of
        Err e \<Rightarrow> (st, [], Err e)
      | Ok cfg0 \<Rightarrow>
          let cfg = updated_config req cfg0; (d, r) = put_topic ops js cfg (hs_config_store st); st1 = st\<lparr>hs_config_store := d\<rparr> in
          case app_orch env r of
            Err e \<Rightarrow> (st1, [], Err e)
          | Ok _ \<Rightarrow> (st1, announce_config js env cfg st1, Ok cfg))"

definition http_delete_topic :: "'d fjall_ops \<Rightarrow> http_env \<Rightarrow> string \<Rightarrow> 'd http_state \<Rightarrow> ('d, unit) http_step" where
  "http_delete_topic ops env name st =
     (let (d, r) = delete_topic_entry ops name (hs_config_store st); st1 = st\<lparr>hs_config_store := d\<rparr> in
      case app_orch env r of
        Err e \<Rightarrow> (st1, [], Err e)
      | Ok False \<Rightarrow> (st1, [], Err (topic_not_found name))
      | Ok True \<Rightarrow>
          let key = http_config_key st1 name;
              msgs = (if hs_session st1 then (case sa_delete (he_net env) key of Ok _ \<Rightarrow> [(key, None)] | Err _ \<Rightarrow> []) else [])
          in (st1\<lparr>hs_topic_manager := map_option (\<lambda>tm. fst (tm_remove_topic name tm)) (hs_topic_manager st1)\<rparr>, msgs, Ok ()))"

section \<open>Cluster\<close>

definition node_partition_entry :: "AssignmentInfo \<Rightarrow> NodePartitionEntry" where
  "node_partition_entry a = \<lparr>np_partition = ai_partition a, np_replica = ai_replica a, np_state = state_debug (ai_state a), np_source = source_debug (ai_source a)\<rparr>"

definition node_partitions :: "'d fjall_ops \<Rightarrow> TopicConfig commit_codec \<Rightarrow> http_env \<Rightarrow> string \<Rightarrow> 'd http_state \<Rightarrow> AppError + NodeTopicPartitions list" where
  "node_partitions ops js env nid st =
     (case hs_topic_manager st of
        None \<Rightarrow> Ok []
      | Some tm \<Rightarrow> rbind (app_orch env (list_topics ops js (hs_config_store st))) (\<lambda>topics.
          Ok (sort_key (as_bytes \<circ> nt_topic) (concat (map (\<lambda>t.
            if hm_get (tm_views tm) (tc_name t) = None then []
            else let ps = map (node_partition_entry \<circ> snd) (filter (\<lambda>(_, a). ai_node_id a = nid \<or> starts_with nid (ai_node_id a))
                            (view_assignments (he_view env (tc_name t)))) in
              if ps = [] then []
              else [\<lparr>nt_topic = tc_name t, nt_partitions = sort_key (\<lambda>p. (np_partition p, np_replica p)) ps\<rparr>]) topics)))))"

definition status_of_nodes :: "cluster_nodes \<Rightarrow> ClusterStatus" where
  "status_of_nodes m = \<lparr>cs_total_nodes = length m, cs_online_nodes = length (filter (ni_online \<circ> snd) m),
     cs_total_partitions = sum_list (map (length \<circ> ns_partitions) (List.map_filter (ni_status \<circ> snd) m))\<rparr>"

definition cluster_status :: "'d http_state \<Rightarrow> ClusterStatus" where
  "cluster_status st = (case hs_nodes st of
      Some m \<Rightarrow> status_of_nodes m
    | None \<Rightarrow> \<lparr>cs_total_nodes = 0, cs_online_nodes = 0, cs_total_partitions = 0\<rparr>)"

definition overrides_key :: "'d http_state \<Rightarrow> string" where
  "overrides_key st = hs_key_prefix st @ ''/_cluster/overrides''"

text \<open>A call of the override manager: without one an internal error, else its effect on the table.\<close>

definition with_overrides ::
  "http_env \<Rightarrow> 'd http_state \<Rightarrow> (OverrideTable \<Rightarrow> OverrideTable \<times> bytes list \<times> 'a result) \<Rightarrow> ('d, 'a) http_step"
where
  "with_overrides env st f =
     (case hs_overrides st of
        None \<Rightarrow> (st, [], Err (Internal ''override manager not available''))
      | Some table \<Rightarrow> (case f table of (table', sent, r) \<Rightarrow>
          (st\<lparr>hs_overrides := Some table'\<rparr>, map (\<lambda>bs. (overrides_key st, Some bs)) sent, app_err env r)))"

definition http_drain_node ::
  "(hash_input list \<Rightarrow> u64) \<Rightarrow> (u32 \<Rightarrow> u64 \<Rightarrow> 'f::linorder) \<Rightarrow> OverrideTable commit_codec \<Rightarrow> http_env \<Rightarrow> string \<Rightarrow> u32 \<Rightarrow> 'd http_state
    \<Rightarrow> ('d, DrainResponse) http_step"
where
  "http_drain_node H F ojs env nid rf st =
     (case hs_nodes st of
        None \<Rightarrow> (st, [], Err (Internal ''cluster view not available''))
      | Some view \<Rightarrow> (case with_overrides env st (drain_node H F ojs (he_put_overrides env) (he_wall env) nid view rf) of (st', msgs, r) \<Rightarrow>
          (st', msgs, rbind r (\<lambda>es. Ok \<lparr>dr_node_id = nid, dr_overrides = es\<rparr>))))"

definition http_undrain_node :: "OverrideTable commit_codec \<Rightarrow> http_env \<Rightarrow> string \<Rightarrow> 'd http_state \<Rightarrow> ('d, unit) http_step" where
  "http_undrain_node ojs env nid st = with_overrides env st (undrain_node ojs (he_put_overrides env) (he_wall env) nid)"

definition override_entry :: "OverrideEntryRequest \<Rightarrow> OverrideEntry" where
  "override_entry e = \<lparr>oe_partition = oq_partition e, oe_replica = oq_replica e, oe_node_id = oq_node_id e, oe_reason = oq_reason e\<rparr>"

definition http_add_overrides :: "OverrideTable commit_codec \<Rightarrow> http_env \<Rightarrow> AddOverridesRequest \<Rightarrow> 'd http_state \<Rightarrow> ('d, unit) http_step" where
  "http_add_overrides ojs env req st =
     with_overrides env st (add_entries ojs (he_put_overrides env) (he_wall env) (map override_entry (aq_entries req))
       (map_option (\<lambda>s. unat s * 1000000000) (aq_ttl_seconds req)))"

definition http_clear_overrides :: "OverrideTable commit_codec \<Rightarrow> http_env \<Rightarrow> 'd http_state \<Rightarrow> ('d, unit) http_step" where
  "http_clear_overrides ojs env st = with_overrides env st (clear_overrides ojs (he_put_overrides env) (he_wall env))"

section \<open>Consumer groups\<close>

definition add_group_lag :: "http_env \<Rightarrow> lag_monitor \<Rightarrow> (string, u64) hmap \<Rightarrow> (string, u64) hmap" where
  "add_group_lag env lm m =
     fold (\<lambda>g m. hm_insert g ((case hm_get m g of Some v \<Rightarrow> v | None \<Rightarrow> 0) + sum_list (map lr_total (group_lag env g lm))) m) (known_groups lm) m"

text \<open>The monitors that are asked: the global one, then those of the stored topics.\<close>

definition http_stored_topics :: "'d fjall_ops \<Rightarrow> TopicConfig commit_codec \<Rightarrow> 'd http_state \<Rightarrow> TopicConfig list" where
  "http_stored_topics ops js st = (case list_topics ops js (hs_config_store st) of Ok ts \<Rightarrow> ts | Err _ \<Rightarrow> [])"

definition monitors_of :: "http_env \<Rightarrow> TopicConfig list \<Rightarrow> 'd http_state \<Rightarrow> lag_monitor list" where
  "monitors_of env topics st =
     (case hs_lag_monitor st of Some lm \<Rightarrow> [lm] | None \<Rightarrow> []) @
     (case hs_topic_manager st of None \<Rightarrow> []
      | Some tm \<Rightarrow> List.map_filter (\<lambda>t. map_option (\<lambda>_. he_lag env (tc_name t)) (hm_get (tm_lag_monitors tm) (tc_name t))) topics)"

definition live_consumers :: "http_env \<Rightarrow> TopicConfig list \<Rightarrow> 'd http_state \<Rightarrow> LiveClient list" where
  "live_consumers env topics st =
     (if \<not> hs_session st then [] else concat (map (\<lambda>t. snd (query_liveliness_clients env (http_topic_prefix st t))) topics))"

definition list_consumer_groups :: "'d fjall_ops \<Rightarrow> TopicConfig commit_codec \<Rightarrow> http_env \<Rightarrow> 'd http_state \<Rightarrow> ConsumerGroupSummary list" where
  "list_consumer_groups ops js env st =
     (let topics = http_stored_topics ops js st;
          m1 = fold (add_group_lag env) (monitors_of env topics st) [];
          m2 = fold (\<lambda>g m. if hm_get m g = None then hm_insert g 0 m else m) (List.map_filter lc_group_id (live_consumers env topics st)) m1
      in sort_key (as_bytes \<circ> gs_group_id) (map (\<lambda>(g, v). \<lparr>gs_group_id = g, gs_total_lag = v\<rparr>) m2))"

definition get_consumer_group :: "'d fjall_ops \<Rightarrow> TopicConfig commit_codec \<Rightarrow> http_env \<Rightarrow> string \<Rightarrow> 'd http_state \<Rightarrow> ConsumerGroupDetail" where
  "get_consumer_group ops js env g st =
     (let topics = http_stored_topics ops js st; rs = concat (map (group_lag env g) (monitors_of env topics st)) in
      \<lparr>gd_group_id = g, gd_lag = rs, gd_total_lag = sum_list (map lr_total rs),
       gd_members = filter (\<lambda>c. lc_group_id c = Some g) (live_consumers env topics st)\<rparr>)"

definition target_seq :: "ResetStrategy \<Rightarrow> u64" where
  "target_seq s = (case s of Earliest \<Rightarrow> 0 | Latest \<Rightarrow> - 1 | ToSeq seq \<Rightarrow> seq)"

definition reset_key :: "string \<Rightarrow> u32 \<Rightarrow> string \<Rightarrow> string" where
  "reset_key kp part g = kp @ ''/_offsets/'' @ show_word part @ ''/'' @ g"

definition reset_consumer_group ::
  "'d fjall_ops \<Rightarrow> TopicConfig commit_codec \<Rightarrow> http_env \<Rightarrow> string \<Rightarrow> ResetOffsetsRequest \<Rightarrow> 'd http_state \<Rightarrow> ('d, ResetResponse) http_step"
where
  "reset_consumer_group ops js env g body st =
     (if \<not> hs_session st then (st, [], Err (Internal ''Zenoh session not available''))
      else case find_topic ops js env (rr_topic body) st of
          Err e \<Rightarrow> (st, [], Err e)
        | Ok topic \<Rightarrow>
            let seq = target_seq (rr_strategy body); key = reset_key (tc_key_prefix topic) (rr_partition body) g in
            (case sa_put (he_net env) key of
               Err e \<Rightarrow> (st, [], Err (Internal (''failed to publish offset reset: '' @ e)))
             | Ok _ \<Rightarrow> (st, [(key, Some (to_be_bytes seq))],
                 Ok \<lparr>rs_group_id = g, rs_topic = rr_topic body, rs_partition = rr_partition body, rs_offset = seq\<rparr>)))"

section \<open>Events\<close>

definition selector_params :: "EventQueryParams \<Rightarrow> nat \<Rightarrow> string list" where
  "selector_params q limit =
     (case eq_after_seq q of Some s \<Rightarrow> [''after_seq='' @ show_word s] | None \<Rightarrow> []) @
     (case eq_before_seq q of Some s \<Rightarrow> [''before_seq='' @ show_word s] | None \<Rightarrow> []) @
     (case eq_after_time q of Some t \<Rightarrow> [''after_time='' @ t] | None \<Rightarrow> []) @
     (case eq_before_time q of Some t \<Rightarrow> [''before_time='' @ t] | None \<Rightarrow> []) @
     (case eq_publisher_id q of Some i \<Rightarrow> [''publisher_id='' @ i] | None \<Rightarrow> []) @
     [''limit='' @ show_nat limit]"

definition page_limit :: "EventQueryParams \<Rightarrow> nat" where
  "page_limit q = min (case eq_limit q of Some n \<Rightarrow> n | None \<Rightarrow> 50) 1000"

definition store_selector :: "EventQueryParams \<Rightarrow> TopicConfig \<Rightarrow> u32 \<Rightarrow> string" where
  "store_selector q topic part =
     tc_key_prefix topic @ ''/_store/'' @ show_word part @ ''?'' @ join_params (CHR ''&'') (selector_params q (page_limit q))"

definition event_of_sample :: "http_env \<Rightarrow> u32 \<Rightarrow> zenoh_sample \<Rightarrow> event_json" where
  "event_of_sample env part s =
     (let meta = Option.bind (zs_attachment s) (\<lambda>a. case decode_metadata a of Ok m \<Rightarrow> Some m | Err _ \<Rightarrow> None) in
      \<lparr>ej_seq = (case meta of Some m \<Rightarrow> em_seq m | None \<Rightarrow> 0), ej_partition = part,
       ej_publisher_id = (case meta of Some m \<Rightarrow> he_uuid env (em_pub_id m) | None \<Rightarrow> []),
       ej_event_id = (case meta of Some m \<Rightarrow> he_uuid env (em_event_id m) | None \<Rightarrow> []),
       ej_timestamp = (case meta of Some m \<Rightarrow> he_rfc3339 env (em_timestamp m) | None \<Rightarrow> []),
       ej_key = extract_key (zs_key_expr s), ej_key_expr = zs_key_expr s, ej_payload_size = length (zs_payload s),
       ej_payload_base64 = he_base64 env (zs_payload s), ej_payload_text = from_utf8 (zs_payload s)\<rparr>)"

definition key_wanted :: "EventQueryParams \<Rightarrow> zenoh_sample \<Rightarrow> bool" where
  "key_wanted q s = (case eq_key q of Some k \<Rightarrow> extract_key (zs_key_expr s) = Some k | None \<Rightarrow> True)"

definition partition_events :: "http_env \<Rightarrow> EventQueryParams \<Rightarrow> TopicConfig \<Rightarrow> u32 \<Rightarrow> event_json list" where
  "partition_events env q topic part =
     (case he_store env (store_selector q topic part) of
        None \<Rightarrow> []
      | Some replies \<Rightarrow> map (event_of_sample env part) (filter (key_wanted q) (List.map_filter (\<lambda>r. r) replies)))"

definition queried_partitions :: "EventQueryParams \<Rightarrow> TopicConfig \<Rightarrow> u32 list" where
  "queried_partitions q topic = (case eq_partition q of Some p \<Rightarrow> [p] | None \<Rightarrow> partition_range (tc_num_partitions topic))"

definition query_events :: "'d fjall_ops \<Rightarrow> TopicConfig commit_codec \<Rightarrow> http_env \<Rightarrow> EventQueryParams \<Rightarrow> 'd http_state \<Rightarrow> AppError + events_page" where
  "query_events ops js env q st =
     (case eq_topic q of
        None \<Rightarrow> Err (BadRequest ([CHR 0x27] @ ''topic'' @ [CHR 0x27] @ '' parameter is required''))
      | Some name \<Rightarrow> rbind (find_topic ops js env name st) (\<lambda>topic.
          if \<not> hs_session st then Err (Internal ''Zenoh session not available'')
          else let limit = page_limit q;
                   es = sort_key (\<lambda>e. (ej_partition e, ej_seq e)) (concat (map (partition_events env q topic) (queried_partitions q topic)))
               in Ok \<lparr>ep_events = take limit es, ep_total = min (length es) limit, ep_has_more = (limit < length es)\<rparr>))"

section \<open>Streams\<close>

record EventSummary =
  es_seq :: u64
  es_partition :: u32
  es_publisher_id :: string
  es_timestamp :: string
  es_key :: "string option"
  es_key_expr :: string
  es_payload_size :: nat

definition event_summary :: "http_env \<Rightarrow> zenoh_sample \<Rightarrow> EventSummary option" where
  "event_summary env s =
     Option.bind (zs_attachment s) (\<lambda>a. case decode_metadata a of
         Err _ \<Rightarrow> None
       | Ok m \<Rightarrow> Some \<lparr>es_seq = em_seq m, es_partition = extract_partition (zs_key_expr s), es_publisher_id = he_uuid env (em_pub_id m),
           es_timestamp = he_rfc3339 env (em_timestamp m), es_key = extract_key (zs_key_expr s), es_key_expr = zs_key_expr s,
           es_payload_size = length (zs_payload s)\<rparr>)"

text \<open>
  A stream turns what its broadcast receiver yields (\<^const>\<open>None\<close> when it lagged) into named events with the
  printed value as data.
\<close>

datatype 'v ClusterEvent = NodeOnline string string | NodeOffline string string | NodeHealthEvent string 'v | NodeStatusEvent string 'v

definition cluster_event_type :: "'v ClusterEvent \<Rightarrow> string" where
  "cluster_event_type e = (case e of NodeOnline _ _ \<Rightarrow> ''node_online'' | NodeOffline _ _ \<Rightarrow> ''node_offline''
     | NodeHealthEvent _ _ \<Rightarrow> ''node_health'' | NodeStatusEvent _ _ \<Rightarrow> ''node_status'')"

definition sse_item :: "('a \<Rightarrow> bool) \<Rightarrow> ('a \<Rightarrow> string) \<Rightarrow> ('a \<Rightarrow> string option) \<Rightarrow> 'a option \<Rightarrow> (string \<times> string) option" where
  "sse_item wanted name to_string result =
     Option.bind result (\<lambda>x. if wanted x then map_option (\<lambda>data. (name x, data)) (to_string x) else None)"

definition sse_cluster :: "('v ClusterEvent \<Rightarrow> string option) \<Rightarrow> 'v ClusterEvent option \<Rightarrow> (string \<times> string) option" where
  "sse_cluster to_string = sse_item (\<lambda>_. True) cluster_event_type to_string"

definition sse_lag :: "string option \<Rightarrow> (LagReport \<Rightarrow> string option) \<Rightarrow> LagReport option \<Rightarrow> (string \<times> string) option" where
  "sse_lag g to_string = sse_item (\<lambda>r. case g of Some x \<Rightarrow> lr_group_id r = x | None \<Rightarrow> True) (\<lambda>_. ''lag'') to_string"

record EventStreamParams =
  sp_topic :: "string option"
  sp_partition :: "u32 option"

definition sse_events :: "EventStreamParams \<Rightarrow> (EventSummary \<Rightarrow> string option) \<Rightarrow> EventSummary option \<Rightarrow> (string \<times> string) option" where
  "sse_events params to_string =
     sse_item (\<lambda>s. case sp_partition params of Some p \<Rightarrow> es_partition s = p | None \<Rightarrow> True) (\<lambda>_. ''message'') to_string"

section \<open>The router\<close>

datatype http_request =
    Health
  | ListTopics | CreateTopic CreateTopicRequest
  | GetTopic string | UpdateTopic string UpdateTopicRequest | DeleteTopic string
  | TopicPartitions string | TopicLag string | TopicPublishers string | GetTopicClients string | AllClients
  | ClusterNodes | NodePartitions string | GetClusterStatus
  | GetOverrides | AddOverrides AddOverridesRequest | ClearOverrides
  | DrainNode string u32 | UndrainNode string
  | ListConsumerGroups | GetConsumerGroup string | ResetConsumerGroup string ResetOffsetsRequest
  | QueryEvents EventQueryParams
  | StreamCluster | StreamLag "string option" | StreamEvents EventStreamParams

datatype http_body =
    TopicsBody "TopicConfig list" | TopicBody TopicConfig | PartitionsBody "PartitionInfo list" | LagBody "TopicLagSummary list"
  | PublishersBody "PublisherInfo list" | ClientsBody TopicClients | AllClientsBody "TopicClients list"
  | NodesBody cluster_nodes | NodePartitionsBody "NodeTopicPartitions list" | StatusBody ClusterStatus
  | OverridesBody "OverrideTable option" | DrainBody DrainResponse
  | GroupsBody "ConsumerGroupSummary list" | GroupBody ConsumerGroupDetail | ResetBody ResetResponse | EventsBody events_page
  | StreamBody | ErrorBody string | NoBody

type_synonym http_reply = "nat \<times> http_body"

definition into_response :: "AppError \<Rightarrow> http_reply" where
  "into_response e = (case e of Internal msg \<Rightarrow> (500, ErrorBody msg) | NotFound msg \<Rightarrow> (404, ErrorBody msg) | BadRequest msg \<Rightarrow> (400, ErrorBody msg))"

definition reply :: "nat \<Rightarrow> ('a \<Rightarrow> http_body) \<Rightarrow> AppError + 'a \<Rightarrow> http_reply" where
  "reply code body r = (case r of Ok x \<Rightarrow> (code, body x) | Err e \<Rightarrow> into_response e)"

definition reply_step :: "nat \<Rightarrow> ('a \<Rightarrow> http_body) \<Rightarrow> ('d, 'a) http_step \<Rightarrow> 'd http_state \<times> topic_msg list \<times> http_reply" where
  "reply_step code body r = (case r of (st, msgs, x) \<Rightarrow> (st, msgs, reply code body x))"

text \<open>The handlers by route; a handler that only reads leaves the state and sends nothing.\<close>

fun handle ::
  "'d fjall_ops \<Rightarrow> TopicConfig commit_codec \<Rightarrow> OverrideTable commit_codec \<Rightarrow> (hash_input list \<Rightarrow> u64) \<Rightarrow> (u32 \<Rightarrow> u64 \<Rightarrow> 'f::linorder)
    \<Rightarrow> http_env \<Rightarrow> http_request \<Rightarrow> 'd http_state \<Rightarrow> 'd http_state \<times> topic_msg list \<times> http_reply"
where
  "handle ops js ojs H F env Health st = (st, [], 200, NoBody)"
| "handle ops js ojs H F env ListTopics st = (st, [], reply 200 TopicsBody (http_list_topics ops js env st))"
| "handle ops js ojs H F env (CreateTopic req) st = reply_step 201 TopicBody (http_create_topic ops js env req st)"
| "handle ops js ojs H F env (GetTopic name) st = (st, [], reply 200 TopicBody (find_topic ops js env name st))"
| "handle ops js ojs H F env (UpdateTopic name req) st = reply_step 200 TopicBody (http_update_topic ops js env name req st)"
| "handle ops js ojs H F env (DeleteTopic name) st = reply_step 204 (\<lambda>_. NoBody) (http_delete_topic ops env name st)"
| "handle ops js ojs H F env (TopicPartitions name) st = (st, [], reply 200 PartitionsBody (topic_partitions ops js env name st))"
| "handle ops js ojs H F env (TopicLag name) st = (st, [], reply 200 LagBody (topic_lag ops js env name st))"
| "handle ops js ojs H F env (TopicPublishers name) st = (st, [], reply 200 PublishersBody (topic_publishers ops js env name st))"
| "handle ops js ojs H F env (GetTopicClients name) st = (st, [], reply 200 ClientsBody (topic_clients ops js env name st))"
| "handle ops js ojs H F env AllClients st = (st, [], reply 200 AllClientsBody (all_clients ops js env st))"
| "handle ops js ojs H F env ClusterNodes st = (st, [], 200, NodesBody (case hs_nodes st of Some m \<Rightarrow> m | None \<Rightarrow> []))"
| "handle ops js ojs H F env (NodePartitions nid) st = (st, [], reply 200 NodePartitionsBody (node_partitions ops js env nid st))"
| "handle ops js ojs H F env GetClusterStatus st = (st, [], 200, StatusBody (cluster_status st))"
| "handle ops js ojs H F env GetOverrides st = (st, [], 200, OverridesBody (hs_overrides st))"
| "handle ops js ojs H F env (AddOverrides req) st = reply_step 201 (\<lambda>_. NoBody) (http_add_overrides ojs env req st)"
| "handle ops js ojs H F env ClearOverrides st = reply_step 204 (\<lambda>_. NoBody) (http_clear_overrides ojs env st)"
| "handle ops js ojs H F env (DrainNode nid rf) st = reply_step 200 DrainBody (http_drain_node H F ojs env nid rf st)"
| "handle ops js ojs H F env (UndrainNode nid) st = reply_step 204 (\<lambda>_. NoBody) (http_undrain_node ojs env nid st)"
| "handle ops js ojs H F env ListConsumerGroups st = (st, [], 200, GroupsBody (list_consumer_groups ops js env st))"
| "handle ops js ojs H F env (GetConsumerGroup g) st = (st, [], 200, GroupBody (get_consumer_group ops js env g st))"
| "handle ops js ojs H F env (ResetConsumerGroup g body) st = reply_step 200 ResetBody (reset_consumer_group ops js env g body st)"
| "handle ops js ojs H F env (QueryEvents q) st = (st, [], reply 200 EventsBody (query_events ops js env q st))"
| "handle ops js ojs H F env StreamCluster st = (st, [], 200, StreamBody)"
| "handle ops js ojs H F env (StreamLag g) st = (st, [], 200, StreamBody)"
| "handle ops js ojs H F env (StreamEvents params) st = (st, [], 200, StreamBody)"

text \<open>The token of the router; an empty one is a panic, here \<^const>\<open>None\<close>.\<close>

definition router_token :: "string option \<Rightarrow> string option option" where
  "router_token t = (case t of Some token \<Rightarrow> if trim token = [] then None else Some (Some token) | None \<Rightarrow> Some None)"

text \<open>The authorization layer is around every route but the health check.\<close>

definition authorized :: "string option \<Rightarrow> bytes option \<Rightarrow> http_request \<Rightarrow> bool" where
  "authorized token header req \<longleftrightarrow>
     req = Health \<or> (case token of Some t \<Rightarrow> header = Some (as_bytes (''Bearer '' @ t)) | None \<Rightarrow> True)"

definition serve ::
  "'d fjall_ops \<Rightarrow> TopicConfig commit_codec \<Rightarrow> OverrideTable commit_codec \<Rightarrow> (hash_input list \<Rightarrow> u64) \<Rightarrow> (u32 \<Rightarrow> u64 \<Rightarrow> 'f::linorder)
    \<Rightarrow> string option \<Rightarrow> http_env \<Rightarrow> bytes option \<Rightarrow> http_request \<Rightarrow> 'd http_state \<Rightarrow> 'd http_state \<times> topic_msg list \<times> http_reply"
where
  "serve ops js ojs H F token env header req st =
     (if authorized token header req then handle ops js ojs H F env req st else (st, [], 401, NoBody))"

section \<open>The tokens of the orchestrator\<close>

definition normalize_auth_token :: "string option \<Rightarrow> string \<Rightarrow> string + string option" where
  "normalize_auth_token token source =
     (case token of
        Some t \<Rightarrow> if trim t = [] then Err (source @ '' must not be empty'') else Ok (Some t)
      | None \<Rightarrow> Ok None)"

definition auth_token_from_primary_env :: "(string \<Rightarrow> string option) \<Rightarrow> string + string option" where
  "auth_token_from_primary_env var =
     (case var ''MITIFLOW_AUTH_TOKEN'' of Some t \<Rightarrow> normalize_auth_token (Some t) ''MITIFLOW_AUTH_TOKEN'' | None \<Rightarrow> Ok None)"

definition auth_token_from_legacy_env :: "(string \<Rightarrow> string option) \<Rightarrow> string + string option" where
  "auth_token_from_legacy_env var =
     (case var ''MITIFLOW_UI_TOKEN'' of Some t \<Rightarrow> normalize_auth_token (Some t) ''MITIFLOW_UI_TOKEN'' | None \<Rightarrow> Ok None)"

definition or_option :: "'a option \<Rightarrow> 'a option \<Rightarrow> 'a option" where
  "or_option x y = (case x of Some _ \<Rightarrow> x | None \<Rightarrow> y)"

definition http_auth_token :: "(string \<Rightarrow> string option) \<Rightarrow> string option \<Rightarrow> string + string option" where
  "http_auth_token var configured =
     rbind (auth_token_from_primary_env var) (\<lambda>primary.
     rbind (case configured of Some t \<Rightarrow> normalize_auth_token (Some t) ''OrchestratorConfig.auth_token'' | None \<Rightarrow> Ok None) (\<lambda>config.
     rbind (auth_token_from_legacy_env var) (\<lambda>legacy. Ok (or_option (or_option primary config) legacy))))"

section \<open>The admin queryable\<close>

record admin_printers =
  ap_topics :: "TopicConfig list \<Rightarrow> bytes result"
  ap_topic :: "TopicConfig \<Rightarrow> bytes result"
  ap_nodes :: "cluster_nodes \<Rightarrow> bytes result"
  ap_assignments :: "AssignmentInfo list \<Rightarrow> bytes result"
  ap_status :: "ClusterStatus \<Rightarrow> bytes result"
  ap_error :: "orch_error \<Rightarrow> string"

definition printed :: "bytes result \<Rightarrow> bytes option" where
  "printed r = (case r of Ok bs \<Rightarrow> Some bs | Err _ \<Rightarrow> None)"

definition all_assignments :: "cluster_nodes \<Rightarrow> AssignmentInfo list" where
  "all_assignments m = concat (map (\<lambda>(nid, info). case ni_status info of
     Some status \<Rightarrow> map (assignment_of nid) (ns_partitions status) | None \<Rightarrow> []) m)"

text \<open>The reply to a query, if there is one.\<close>

definition admin_reply ::
  "'d fjall_ops \<Rightarrow> TopicConfig commit_codec \<Rightarrow> admin_printers \<Rightarrow> string \<Rightarrow> string \<Rightarrow> cluster_nodes \<Rightarrow> 'd \<Rightarrow> bytes option"
where
  "admin_reply ops js ap admin_prefix key nodes d =
     (let suffix = key_suffix admin_prefix key in
      if suffix = ''topics'' then
        (case list_topics ops js d of Ok topics \<Rightarrow> printed (ap_topics ap topics) | Err e \<Rightarrow> Some (as_bytes (''error:'' @ ap_error ap e)))
      else if starts_with ''topics/'' suffix then
        (case get_topic ops js (drop (length ''topics/'') suffix) d of
           Ok (Some topic) \<Rightarrow> printed (ap_topic ap topic)
         | Ok None \<Rightarrow> Some (as_bytes ''error:topic not found'')
         | Err e \<Rightarrow> Some (as_bytes (''error:'' @ ap_error ap e)))
      else if suffix = ''cluster/nodes'' then printed (ap_nodes ap nodes)
      else if suffix = ''cluster/assignments'' then printed (ap_assignments ap (all_assignments nodes))
      else if suffix = ''cluster/status'' then printed (ap_status ap (status_of_nodes nodes))
      else Some (as_bytes ''error:unknown endpoint''))"

end
