(* ===== verification/Http_Contract.thy ===== *)
theory Http_Contract
  imports Http_Api
begin

text \<open>
  What the web interface of the orchestrator promises: without the token nothing is read or changed, the
  stored topics follow the requests, pages of events are ordered and bounded, and the partitions of a topic are
  listed completely.
\<close>

section \<open>Topics as a map\<close>

text \<open>The effect of a request on the topics, and the answer it must get.\<close>

type_synonym topic_map = "string \<Rightarrow> TopicConfig option"

fun topic_effect :: "http_request \<Rightarrow> topic_map \<Rightarrow> topic_map" where
  "topic_effect (CreateTopic req) m = m(cr_name req \<mapsto> created_config req)"
| "topic_effect (UpdateTopic name req) m = m(name := map_option (updated_config req) (m name))"
| "topic_effect (DeleteTopic name) m = m(name := None)"
| "topic_effect _ m = m"

definition topic_reply :: "nat \<Rightarrow> string \<Rightarrow> ('a \<Rightarrow> http_body) \<Rightarrow> 'a option \<Rightarrow> http_reply" where
  "topic_reply code name body c = (case c of Some x \<Rightarrow> (code, body x) | None \<Rightarrow> into_response (topic_not_found name))"

fun topic_answer :: "http_request \<Rightarrow> topic_map \<Rightarrow> http_reply \<Rightarrow> bool" where
  "topic_answer (CreateTopic req) m r = (r = (201, TopicBody (created_config req)))"
| "topic_answer (UpdateTopic name req) m r = (r = topic_reply 200 name (\<lambda>c. TopicBody (updated_config req c)) (m name))"
| "topic_answer (DeleteTopic name) m r = (r = topic_reply 204 name (\<lambda>_. NoBody) (m name))"
| "topic_answer (GetTopic name) m r = (r = topic_reply 200 name TopicBody (m name))"
| "topic_answer ListTopics m r = (\<exists>cs. r = (200, TopicsBody cs) \<and> set cs = ran m \<and> distinct (map tc_name cs))"
| "topic_answer _ m r = True"

text \<open>A session of requests, each with what its handler finds and its authorization header.\<close>

type_synonym arrival = "http_env \<times> bytes option \<times> http_request"

fun serve_all ::
  "'d fjall_ops \<Rightarrow> TopicConfig commit_codec \<Rightarrow> OverrideTable commit_codec \<Rightarrow> (hash_input list \<Rightarrow> u64) \<Rightarrow> (u32 \<Rightarrow> u64 \<Rightarrow> 'f::linorder)
    \<Rightarrow> string option \<Rightarrow> arrival list \<Rightarrow> 'd http_state \<Rightarrow> 'd http_state \<times> http_reply list"
where
  "serve_all ops js ojs H F token [] st = (st, [])"
| "serve_all ops js ojs H F token ((env, header, req) # as) st =
     (let (st1, _, r) = serve ops js ojs H F token env header req st; (st2, rs) = serve_all ops js ojs H F token as st1 in (st2, r # rs))"

fun topics_run :: "string option \<Rightarrow> arrival list \<Rightarrow> topic_map \<Rightarrow> topic_map \<times> (http_reply \<Rightarrow> bool) list" where
  "topics_run token [] m = (m, [])"
| "topics_run token ((env, header, req) # as) m =
     (if authorized token header req
      then let (m', qs) = topics_run token as (topic_effect req m) in (m', topic_answer req m # qs)
      else let (m', qs) = topics_run token as m in (m', (\<lambda>r. r = (401, NoBody)) # qs))"

section \<open>One request\<close>

lemma app_orch_ok: "app_orch env r = Ok x \<longleftrightarrow> r = Ok x"
  by (simp add: app_orch_def split: sum.splits)

lemma app_orch_err: "app_orch env r = Err e \<Longrightarrow> fst (into_response e) = 500"
  by (auto simp: app_orch_def into_response_def split: sum.splits)

lemma into_response_not_found [simp]: "fst (into_response (topic_not_found name)) = 404"
  by (simp add: into_response_def topic_not_found_def)

lemma find_topic_reply:
  assumes "fjall_ok ops vw" and "fst (reply 200 body (find_topic ops js env name st)) \<noteq> 500"
  shows "find_topic ops js env name st =
    (case stored_topic js (vw (hs_config_store st)) name of Some c \<Rightarrow> Ok c | None \<Rightarrow> Err (topic_not_found name))"
proof (cases "get_topic ops js name (hs_config_store st)")
  case (Inl e)
  then show ?thesis using assms(2) by (simp add: find_topic_def app_orch_def reply_def into_response_def)
next
  case (Inr r)
  then show ?thesis using get_topic_stored[OF assms(1) Inr] by (simp add: find_topic_def app_orch_def split: option.splits)
qed

lemma updated_config_name [simp]: "tc_name (updated_config req c) = tc_name c"
  by (simp add: updated_config_def)

lemma created_config_name [simp]: "tc_name (created_config req) = cr_name req"
  by (simp add: created_config_def)

lemma stored_name: "topics_ok js w \<Longrightarrow> stored_topic js w name = Some c \<Longrightarrow> tc_name c = name"
  by (fastforce simp: topics_ok_def stored_topic_def as_bytes_inj split: sum.splits bind_splits)

text \<open>The invariant and what a step does to the map, for the handlers that write topics.\<close>

definition follows :: "TopicConfig commit_codec \<Rightarrow> ('d \<Rightarrow> view) \<Rightarrow> http_request \<Rightarrow> 'd http_state \<Rightarrow> 'd http_state \<Rightarrow> http_reply \<Rightarrow> bool" where
  "follows js vw req st st' r \<longleftrightarrow> topics_ok js (vw (hs_config_store st')) \<and>
     stored_topic js (vw (hs_config_store st')) = topic_effect req (stored_topic js (vw (hs_config_store st))) \<and>
     topic_answer req (stored_topic js (vw (hs_config_store st))) r"

lemma create_follows:
  assumes "fjall_ok ops vw" and "codec_ok js" and "topics_ok js (vw (hs_config_store st))"
    and "reply_step 201 TopicBody (http_create_topic ops js env req st) = (st', msgs, r)" and "fst r \<noteq> 500"
  shows "follows js vw (CreateTopic req) st st' r"
proof -
  obtain d pr where p: "put_topic ops js (created_config req) (hs_config_store st) = (d, pr)" by fastforce
  have "pr = Ok ()"
    using assms(4,5) p app_orch_err[of env pr]
    by (cases pr) (auto simp: http_create_topic_def reply_step_def reply_def app_orch_def into_response_def Let_def)
  moreover from this have "hs_config_store st' = d \<and> r = (201, TopicBody (created_config req))"
    using assms(4) p by (auto simp: http_create_topic_def reply_step_def reply_def app_orch_def Let_def split: option.splits if_splits)
  ultimately show ?thesis
    using put_topic_stored[OF assms(1,2), of "created_config req" "hs_config_store st" d] p assms(3)
    by (auto simp: follows_def fun_eq_iff)
qed

lemma update_follows:
  assumes "fjall_ok ops vw" and "codec_ok js" and "topics_ok js (vw (hs_config_store st))"
    and "reply_step 200 TopicBody (http_update_topic ops js env name req st) = (st', msgs, r)" and "fst r \<noteq> 500"
  shows "follows js vw (UpdateTopic name req) st st' r"
proof -
  have "fst (reply 200 TopicBody (find_topic ops js env name st)) \<noteq> 500"
    using assms(4,5) by (auto simp: http_update_topic_def reply_step_def reply_def split: sum.splits)
  note f = find_topic_reply[OF assms(1) this]
  show ?thesis
  proof (cases "stored_topic js (vw (hs_config_store st)) name")
    case None
    then have "st' = st \<and> r = into_response (topic_not_found name)"
      using assms(4) f by (simp add: http_update_topic_def reply_step_def reply_def)
    then show ?thesis using None assms(3) by (auto simp: follows_def topic_reply_def)
  next
    case (Some c)
    have n: "tc_name c = name" by (rule stored_name[OF assms(3) Some])
    obtain d pr where p: "put_topic ops js (updated_config req c) (hs_config_store st) = (d, pr)" by fastforce
    have "pr = Ok ()"
      using assms(4,5) p f Some
      by (cases pr) (auto simp: http_update_topic_def reply_step_def reply_def app_orch_def into_response_def Let_def)
    moreover from this have "hs_config_store st' = d \<and> r = (200, TopicBody (updated_config req c))"
      using assms(4) p f Some by (auto simp: http_update_topic_def reply_step_def reply_def app_orch_def Let_def)
    ultimately show ?thesis
      using put_topic_stored[OF assms(1,2), of "updated_config req c" "hs_config_store st" d] p assms(3) Some n
      by (auto simp: follows_def fun_eq_iff topic_reply_def)
  qed
qed

lemma delete_found:
  assumes "fjall_ok ops vw" and "topics_ok js (vw d)" and "delete_topic_entry ops name d = (d', Ok True)"
  shows "stored_topic js (vw d) name \<noteq> None"
proof -
  obtain bytes where "kv_get ops d Topics (as_bytes name) = Ok (Some bytes)"
    using assms(3) by (auto simp: delete_topic_entry_def split: sum.splits option.splits)
  then have "vw d Topics (as_bytes name) = Some bytes" using fjall_get[OF assms(1)] by fastforce
  then show ?thesis using assms(2) by (fastforce simp: topics_ok_def stored_topic_def)
qed

lemma delete_follows:
  assumes "fjall_ok ops vw" and "topics_ok js (vw (hs_config_store st))"
    and "reply_step 204 (\<lambda>_. NoBody) (http_delete_topic ops env name st) = (st', msgs, r)" and "fst r \<noteq> 500"
  shows "follows js vw (DeleteTopic name) st st' r"
proof -
  obtain d pr where p: "delete_topic_entry ops name (hs_config_store st) = (d, pr)" by fastforce
  obtain b where b: "pr = Ok b"
    using assms(3,4) p
    by (cases pr) (auto simp: http_delete_topic_def reply_step_def reply_def app_orch_def into_response_def Let_def)
  note del = delete_entry_stored[OF assms(1) p[unfolded b], of js]
  have st': "hs_config_store st' = d" and r: "r = (if b then (204, NoBody) else into_response (topic_not_found name))"
    using assms(3) by (cases b; simp add: http_delete_topic_def reply_step_def reply_def app_orch_def Let_def p b; clarsimp)+
  have found: "b \<longleftrightarrow> stored_topic js (vw (hs_config_store st)) name \<noteq> None"
    using del(3) delete_found[OF assms(1,2)] p b by (cases b) auto
  have ok: "topics_ok js (vw d)" using del(2) assms(2) by blast
  have m: "stored_topic js (vw d) = (stored_topic js (vw (hs_config_store st)))(name := None)"
    using del(1) found by (auto simp: fun_eq_iff)
  show ?thesis unfolding follows_def st' using ok m r found by (cases b) (auto simp: topic_reply_def)
qed


lemma list_follows:
  assumes "fjall_ok ops vw" and "topics_ok js (vw (hs_config_store st))" and "fst (reply 200 TopicsBody (http_list_topics ops js env st)) \<noteq> 500"
  shows "topic_answer ListTopics (stored_topic js (vw (hs_config_store st))) (reply 200 TopicsBody (http_list_topics ops js env st))"
proof -
  obtain cs where cs: "list_topics ops js (hs_config_store st) = Ok cs"
    using assms(3) by (cases "list_topics ops js (hs_config_store st)") (auto simp: http_list_topics_def app_orch_def reply_def into_response_def)
  note l = list_topics_stored[OF assms(1,2) cs]
  have "set cs = ran (stored_topic js (vw (hs_config_store st)))"
    using l(1) stored_name[OF assms(2)] by (auto simp: ran_def)
  then show ?thesis using l(2) cs by (simp add: http_list_topics_def app_orch_def reply_def)
qed

lemma get_follows:
  assumes "fjall_ok ops vw" and "fst (reply 200 TopicBody (find_topic ops js env name st)) \<noteq> 500"
  shows "topic_answer (GetTopic name) (stored_topic js (vw (hs_config_store st))) (reply 200 TopicBody (find_topic ops js env name st))"
  using find_topic_reply[OF assms] by (simp add: reply_def topic_reply_def split: option.splits)

text \<open>The handlers of overrides and of resets leave the store alone.\<close>

lemma with_overrides_store: "with_overrides env st f = (st', msgs, r) \<Longrightarrow> hs_config_store st' = hs_config_store st"
  by (auto simp: with_overrides_def split: option.splits prod.splits)

lemma drain_store: "http_drain_node H F ojs env nid rf st = (st', msgs, r) \<Longrightarrow> hs_config_store st' = hs_config_store st"
  by (auto simp: http_drain_node_def dest: with_overrides_store split: option.splits prod.splits)

lemma reset_store: "reset_consumer_group ops js env g body st = (st', msgs, r) \<Longrightarrow> st' = st"
  by (auto simp: reset_consumer_group_def Let_def split: if_splits sum.splits)

lemma handle_follows:
  assumes "fjall_ok ops vw" and "codec_ok js" and "topics_ok js (vw (hs_config_store st))"
    and "handle ops js ojs H F env req st = (st', msgs, r)" and "fst r \<noteq> 500"
  shows "follows js vw req st st' r"
proof (cases req)
  case (CreateTopic c)
  then show ?thesis using create_follows[OF assms(1-3)] assms(4,5) by simp
next
  case (UpdateTopic name u)
  then show ?thesis using update_follows[OF assms(1-3)] assms(4,5) by simp
next
  case (DeleteTopic name)
  then show ?thesis using delete_follows[OF assms(1,3)] assms(4,5) by simp
next
  case ListTopics
  then show ?thesis using list_follows[OF assms(1,3), of env] assms(3-5) by (auto simp: follows_def)
next
  case (GetTopic name)
  then show ?thesis using get_follows[OF assms(1), of js env name st] assms(3-5) by (auto simp: follows_def)
next
  case (DrainNode nid rf)
  then show ?thesis using assms(3,4) by (auto simp: follows_def reply_step_def dest: drain_store split: prod.splits)
next
  case (ResetConsumerGroup g body)
  then show ?thesis using assms(3,4) by (auto simp: follows_def reply_step_def dest: reset_store split: prod.splits)
next
  case (AddOverrides a)
  then show ?thesis using assms(3,4) by (auto simp: follows_def reply_step_def http_add_overrides_def dest: with_overrides_store split: prod.splits)
next
  case ClearOverrides
  then show ?thesis using assms(3,4) by (auto simp: follows_def reply_step_def http_clear_overrides_def dest: with_overrides_store split: prod.splits)
next
  case (UndrainNode nid)
  then show ?thesis using assms(3,4) by (auto simp: follows_def reply_step_def http_undrain_node_def dest: with_overrides_store split: prod.splits)
qed (use assms(3,4) in \<open>auto simp: follows_def\<close>)

section \<open>Sessions of requests\<close>

text \<open>
  C38. The stored topics follow the requests.  For any sequence of requests that is served without an internal
  error, on a database that keeps what it commits and with a JSON codec that reads back what it wrote, the stored
  topics at the end are those of the abstract map on which every authorized create, update and delete acts in
  turn; and every reply to one of the topic requests (create, read, list, update, delete) is what the map says at that moment: the created or updated configuration, the
  topic or its absence, the exact list of topics, and 401 for a request without the token.
\<close>

theorem http_topics_follow_requests:
  assumes "fjall_ok ops vw" and "codec_ok js" and "topics_ok js (vw (hs_config_store st))"
    and "serve_all ops js ojs H F token as st = (st', rs)" and "500 \<notin> fst ` set rs"
  shows "stored_topic js (vw (hs_config_store st')) = fst (topics_run token as (stored_topic js (vw (hs_config_store st))))
    \<and> list_all2 (\<lambda>q r. q r) (snd (topics_run token as (stored_topic js (vw (hs_config_store st))))) rs"
  using assms(3-5)
proof (induction as arbitrary: st rs)
  case Nil
  then show ?case by simp
next
  case (Cons a as)
  obtain env header req where a: "a = (env, header, req)" by (cases a) auto
  obtain st1 msgs r where s1: "serve ops js ojs H F token env header req st = (st1, msgs, r)" by (metis prod_cases3)
  obtain rs1 where s2: "serve_all ops js ojs H F token as st1 = (st', rs1)" and rs: "rs = r # rs1"
    using Cons.prems(2) by (auto simp: a s1 split: prod.splits)
  show ?case
  proof (cases "authorized token header req")
    case True
    have "follows js vw req st st1 r"
      by (rule handle_follows[OF assms(1,2) Cons.prems(1)]) (use s1 True rs Cons.prems(3) in \<open>auto simp: serve_def\<close>)
    then show ?thesis using Cons.IH[OF _ s2] True Cons.prems(3) by (auto simp: a rs follows_def split_beta)
  next
    case False
    then have "st1 = st \<and> r = (401, NoBody)" using s1 by (simp add: serve_def)
    then show ?thesis using Cons.IH[OF _ s2] False Cons.prems(1,3) by (auto simp: a rs split_beta)
  qed
qed

definition demo_create_request :: CreateTopicRequest where
  "demo_create_request = \<lparr>cr_name = ''orders'', cr_key_prefix = [], cr_num_partitions = default_partitions, cr_replication_factor = default_rf,
     cr_required_labels = [], cr_excluded_labels = [], cr_codec = Json, cr_key_format = Unkeyed, cr_schema_version = 0\<rparr>"

definition demo_http_configs :: "TopicConfig commit_codec" where
  "demo_http_configs = table_codec [created_config demo_create_request]"

definition demo_http_env :: http_env where
  "demo_http_env = \<lparr>he_net = demo_net, he_put_overrides = Ok (), he_liveliness = (\<lambda>_. None), he_store = (\<lambda>_. None), he_view = (\<lambda>_. []),
     he_lag = (\<lambda>_. lag_monitor_new), he_now = 0, he_wall = 0, he_threshold = 0, he_uuid = (\<lambda>_. []), he_rfc3339 = (\<lambda>_. []),
     he_base64 = (\<lambda>_. []), he_orch_display = (\<lambda>_. []), he_display = (\<lambda>_. [])\<rparr>"

definition demo_http :: "mem_db http_state" where
  "demo_http = \<lparr>hs_config_store = mem_empty, hs_nodes = None, hs_lag_monitor = None, hs_session = True, hs_topic_manager = None,
     hs_overrides = None, hs_key_prefix = ''mitiflow''\<rparr>"

definition demo_arrivals :: "arrival list" where
  "demo_arrivals = [(demo_http_env, Some (as_bytes ''Bearer s3cret''), CreateTopic demo_create_request), (demo_http_env, None, DeleteTopic ''orders'')]"

lemma demo_http_create: "\<exists>d. put_topic mem_ops demo_http_configs (created_config demo_create_request) mem_empty = (d, Ok ())"
  by (simp add: put_topic_def demo_http_configs_def table_codec_def orch_json_def orch_store_def kv_insert_def mem_ops_def mem_empty_def)

theorem http_topics_follow_requests_witness:
  "\<exists>st'. serve_all mem_ops demo_http_configs unary_table (\<lambda>_. 0) (\<lambda>_ _. 0 :: nat) (Some ''s3cret'') demo_arrivals demo_http
       = (st', [(201, TopicBody (created_config demo_create_request)), (401, NoBody)])
     \<and> stored_topic demo_http_configs (mem_view (hs_config_store st')) ''orders'' = Some (created_config demo_create_request)"
proof -
  obtain d where d: "put_topic mem_ops demo_http_configs (created_config demo_create_request) mem_empty = (d, Ok ())"
    using demo_http_create by blast
  have n: "cr_name demo_create_request = ''orders''" by (simp add: demo_create_request_def)
  have s: "serve_all mem_ops demo_http_configs unary_table (\<lambda>_. 0) (\<lambda>_ _. 0 :: nat) (Some ''s3cret'') demo_arrivals demo_http
       = (demo_http\<lparr>hs_config_store := d\<rparr>, [(201, TopicBody (created_config demo_create_request)), (401, NoBody)])"
    using d by (simp add: demo_arrivals_def serve_def authorized_def reply_step_def http_create_topic_def app_orch_def reply_def demo_http_def Let_def)
  have "topics_ok demo_http_configs (mem_view (hs_config_store demo_http))" by (simp add: topics_ok_def demo_http_def mem_view_def mem_empty_def)
  moreover have "codec_ok demo_http_configs" by (simp add: demo_http_configs_def table_codec_ok)
  ultimately show ?thesis
    using http_topics_follow_requests[OF mem_fjall_ok _ _ s] s by (simp add: demo_arrivals_def authorized_def n)
qed

section \<open>The token\<close>

lemma token_source_ok:
  "(case x of Some t \<Rightarrow> normalize_auth_token (Some t) source | None \<Rightarrow> Ok None) = Ok r \<longleftrightarrow> r = x \<and> (\<forall>t. x = Some t \<longrightarrow> trim t \<noteq> [])"
  by (auto simp: normalize_auth_token_def split: option.splits)

text \<open>
  The token guards every route.  When the orchestrator finds its token, the router accepts it without
  a panic; there is none only when no source sets one; and with a token every request but the health check
  that does not carry it is refused with 401, changes nothing and sends nothing.
\<close>

theorem token_guards_every_route:
  assumes "http_auth_token var configured = Ok t"
  shows "router_token t = Some t
    \<and> (t = None \<longleftrightarrow> var ''MITIFLOW_AUTH_TOKEN'' = None \<and> configured = None \<and> var ''MITIFLOW_UI_TOKEN'' = None)
    \<and> (t = Some tok \<longrightarrow> req \<noteq> Health \<longrightarrow> header \<noteq> Some (as_bytes (''Bearer '' @ tok)) \<longrightarrow>
       serve ops js ojs H F t env header req st = (st, [], 401, NoBody))"
proof -
  let ?a = "var ''MITIFLOW_AUTH_TOKEN''" and ?l = "var ''MITIFLOW_UI_TOKEN''"
  have t: "t = or_option (or_option ?a configured) ?l" and "\<And>x. x \<in> {?a, configured, ?l} \<Longrightarrow> x \<noteq> Some s \<or> trim s \<noteq> []" for s
    using assms by (auto simp: http_auth_token_def auth_token_from_primary_env_def auth_token_from_legacy_env_def token_source_ok)
  moreover have "t \<in> {?a, configured, ?l}" using t by (auto simp: or_option_def split: option.splits)
  ultimately have r: "router_token t = Some t" by (fastforce simp: router_token_def split: option.splits)
  have none: "t = None \<longleftrightarrow> ?a = None \<and> configured = None \<and> ?l = None" using t by (simp add: or_option_def split: option.splits)
  show ?thesis using r none by (simp add: serve_def authorized_def)
qed

section \<open>Pages of events\<close>

theorem events_page_ordered:
  assumes "query_events ops js env q st = Ok page"
  shows "sorted (map (\<lambda>e. (ej_partition e, ej_seq e)) (ep_events page))"
    and "length (ep_events page) = ep_total page" and "ep_total page \<le> page_limit q" and "page_limit q \<le> 1000"
    and "ep_has_more page \<Longrightarrow> ep_total page = page_limit q"
proof -
  obtain es :: "event_json list" where es: "page = \<lparr>ep_events = take (page_limit q) es, ep_total = min (length es) (page_limit q), ep_has_more = (page_limit q < length es)\<rparr>"
      "sorted (map (\<lambda>e. (ej_partition e, ej_seq e)) es)"
    using assms by (auto simp: query_events_def Let_def intro!: that[OF _ sorted_sort_key] split: option.splits sum.splits if_splits)
  show "sorted (map (\<lambda>e. (ej_partition e, ej_seq e)) (ep_events page))"
    using es by (simp add: sorted_wrt_take flip: take_map)
  show "length (ep_events page) = ep_total page" "ep_total page \<le> page_limit q" "ep_has_more page \<Longrightarrow> ep_total page = page_limit q"
    using es(1) by simp_all
  show "page_limit q \<le> 1000" by (simp add: page_limit_def)
qed

text \<open>
  The stores are asked for at most as many events as a page holds, so on a single partition a page never says
  that there are more, even when the store has more.
\<close>

theorem single_partition_never_has_more:
  assumes "query_events ops js env q st = Ok page" and "eq_partition q = Some p"
    and "\<And>selector replies. he_store env selector = Some replies \<Longrightarrow> length replies \<le> page_limit q"
  shows "\<not> ep_has_more page"
proof -
  have "length (partition_events env q topic p) \<le> page_limit q" for topic
  proof (cases "he_store env (store_selector q topic p)")
    case (Some replies)
    have "length (List.map_filter (\<lambda>r. r) rs) \<le> length rs" for rs :: "zenoh_sample option list"
      by (simp add: List.map_filter_def length_filter_le)
    then have "length (partition_events env q topic p) \<le> length replies"
      using Some by (auto simp: partition_events_def intro: le_trans[OF length_filter_le])
    then show ?thesis using assms(3)[OF Some] by simp
  qed (simp add: partition_events_def)
  then show ?thesis
    using assms(1,2) by (auto simp: query_events_def queried_partitions_def Let_def split: option.splits sum.splits if_splits) (meson leD)
qed

section \<open>The partitions of a topic\<close>

lemma group_by_partition_get:
  "(case hm_get (group_by_partition asg) p of Some rs \<Rightarrow> rs | None \<Rightarrow> []) = map replica_info (filter (\<lambda>a. ai_partition a = p) (map snd asg))"
proof (induction asg rule: rev_induct)
  case Nil
  then show ?case by (simp add: group_by_partition_def)
next
  case (snoc x asg)
  then show ?case by (cases x) (auto simp: group_by_partition_def update_conv')
qed

lemma take_partitions_get:
  "distinct ps \<Longrightarrow> take_partitions ps m = map (\<lambda>p. \<lparr>pi_partition = p, pi_replicas = (case hm_get m p of Some rs \<Rightarrow> rs | None \<Rightarrow> [])\<rparr>) ps"
proof (induction ps arbitrary: m)
  case (Cons p ps)
  then have "q \<in> set ps \<Longrightarrow> hm_get (hm_remove p m) q = hm_get m q" for q by (auto simp: delete_conv')
  then show ?case using Cons by simp
qed simp

lemma sorted_partition_range: "sorted (partition_range n)" and distinct_partition_range: "distinct (partition_range n)"
proof -
  have less: "i < unat n \<Longrightarrow> unat (of_nat i :: u32) = i" for i
    using less_trans[of i "unat n" "2 ^ LENGTH(32)", OF _ unsigned_less] by (simp add: unat_of_nat)
  show "sorted (partition_range n)"
    by (auto simp: partition_range_def sorted_iff_nth_mono word_le_nat_alt less)
  show "distinct (partition_range n)"
    unfolding partition_range_def distinct_map by (auto intro!: inj_onI) (metis less)
qed

text \<open>
  Every partition of the topic is listed once, in order, with exactly the replicas that the view of the topic,
  or else the view of the cluster, assigns to it.
\<close>

theorem topic_partitions_exact:
  assumes "topic_partitions ops js env name st = Ok ps"
  shows "\<exists>topic. find_topic ops js env name st = Ok topic \<and> ps = map (\<lambda>p. \<lparr>pi_partition = p,
      pi_replicas = map replica_info (filter (\<lambda>a. ai_partition a = p) (map snd (topic_assignments env name st)))\<rparr>) (partition_range (tc_num_partitions topic))"
proof -
  obtain topic where t: "find_topic ops js env name st = Ok topic"
    using assms by (cases "find_topic ops js env name st") (auto simp: topic_partitions_def)
  have "sorted (map pi_partition (map (\<lambda>p. \<lparr>pi_partition = p, pi_replicas = f p\<rparr>) (partition_range n)))" for n f
    by (simp add: comp_def sorted_partition_range)
  then show ?thesis
    using assms t by (auto simp: topic_partitions_def take_partitions_get distinct_partition_range group_by_partition_get sort_key_id_if_sorted)
qed

section \<open>Resetting a group\<close>

text \<open>
  A reset puts the eight bytes of a number on an offset key.  The stores read offset commits as JSON; when no
  eight bytes are such a commit, as holds for the commits of the library, every store of the topic ignores the
  reset, although the caller is told that it succeeded.
\<close>

theorem reset_has_no_effect:
  assumes "find_topic ops js env (rr_topic body) st = Ok topic" and "sv_key_prefix sv = tc_key_prefix topic"
    and "\<And>bs. length bs = 8 \<Longrightarrow> \<exists>e. cc_from_slice (sv_offset_codec sv) bs = Err e"
    and "\<And>bs. length bs = 8 \<Longrightarrow> \<exists>e. cc_from_slice (sv_keyed_codec sv) bs = Err e"
    and "reset_consumer_group ops js env g body st = (st', msgs, Ok resp)"
  shows "\<exists>key payload. msgs = [(key, Some payload)] \<and> node_put bo sv key payload node = node"
proof -
  let ?key = "reset_key (tc_key_prefix topic) (rr_partition body) g" and ?payload = "to_be_bytes (target_seq (rr_strategy body))"
  have msgs: "msgs = [(?key, Some ?payload)]"
    using assms(1,5) by (auto simp: reset_consumer_group_def Let_def split: if_splits sum.splits)
  have rejected: "\<exists>e. cc_from_slice (sv_offset_codec sv) ?payload = Err e" "\<exists>e. cc_from_slice (sv_keyed_codec sv) ?payload = Err e"
    using assms(3,4)[of ?payload] by simp_all
  have "\<not> below (replay_offset_base (sv_key_prefix sv)) ?key"
    by (auto simp: below_def replay_offset_base_def reset_key_def assms(2) starts_with_iff)
  then show ?thesis
    using msgs rejected by (auto simp: node_put_def Let_def offset_put_def keyed_offset_put_def)
qed

end
