(* ===== verification/Spec2Isabelle.thy ===== *)
theory Spec2Isabelle
  imports Attachment Gap_Detector Event_Dedup Watermark Query_Filters Checkpoint Backend_Gc Backend_Offsets Lifecycle Dlq Publisher Consumer_Group Keyed_Consumer Overrides Topic_Supervisor Lag Chaos Manifest_Check Peer_Recovery Domain Alerts Emulator_Supervisor Http_Contract
begin

section \<open>Mitiflow: a verified model\<close>

text \<open>
  Mitiflow is a brokerless event stream on top of Zenoh.  Publishers put events on partitioned topics,
  storage agents keep them in local databases and announce what is durable, subscribers detect and recover
  losses, consumer groups share partitions and commit offsets, and an orchestrator administers topics and
  the cluster.  This development models the library (\<^verbatim>\<open>mitiflow/src\<close>), the storage agent
  (\<^verbatim>\<open>mitiflow-storage/src\<close>), the control plane (\<^verbatim>\<open>mitiflow-orchestrator/src\<close>)
  and the planning part of the emulator (\<^verbatim>\<open>mitiflow-emulator/src\<close>) and proves what they promise.  This theory imports all of it.

  \<^bold>\<open>Conventions.\<close>  Structs are records, enums are datatypes, \<^verbatim>\<open>u8\<close> to
  \<^verbatim>\<open>u128\<close> are words that wrap as in a release build, \<^verbatim>\<open>usize\<close> lengths are naturals,
  strings are lists of bytes.  A hash map is an association list with distinct keys; its order stands for the
  unspecified iteration order.  \<^verbatim>\<open>Result\<close> is a sum with the error on the left.  A method on
  \<^verbatim>\<open>&mut self\<close> takes the state and returns it updated; a task with a \<^verbatim>\<open>select!\<close> loop is a
  step function, one input a step; spawned tasks are pending steps of a step relation.  The Zenoh session,
  the fjall engine, serde, chrono and uuid are not part of the sources: they are arguments (a function from
  selectors to replies, a record of engine operations, a pair of coder and decoder, a clock value), and what
  the code relies on is a named hypothesis (\<open>fjall_ok\<close>, \<open>json_ok\<close>, \<open>codec_ok\<close>) that a
  concrete instance satisfies (\<open>mem_ops\<close>, \<open>unary_json\<close>, \<open>table_codec\<close>).

  \<^bold>\<open>Foundations.\<close>  \<open>Prelude\<close> holds words, byte codecs, strings, results, hash maps and
  the shared lemmas.  \<open>Fjall\<close> states the storage engine: operations, laws over an abstract view of the
  keyspaces, and an in-memory instance.  \<open>Config\<close> is the bus configuration (\<^verbatim>\<open>config.rs\<close>):
  the setters keep the capacities, shards and workers they clamp at one or more (the builder does not reject zero partitions), and with
  at least one partition partitions, shards and urgencies stay in range.

  \<^bold>\<open>Events and publishers.\<close>  \<open>Attachment\<close> is the binary metadata
  (\<^verbatim>\<open>attachment.rs\<close>, \<^verbatim>\<open>types.rs\<close>) and its round trip; \<open>Events\<close> the typed and
  raw events (\<^verbatim>\<open>event.rs\<close>); \<open>Publisher\<close> partition choice, sequence counters, recovery
  cache, heartbeats and all publish operations (\<^verbatim>\<open>publisher/mod.rs\<close>): sequences of a partition
  are handed out without hole or repetition.  \<open>Dlq\<close> is the dead letter queue (\<^verbatim>\<open>dlq.rs\<close>).

  \<^bold>\<open>The store.\<close>  \<open>Watermark\<close> turns stored sequences into durability watermarks;
  \<open>Backend_Codec\<close> has the byte layouts, \<open>Backend\<close> all methods of \<^verbatim>\<open>FjallBackend\<close>
  (\<^verbatim>\<open>store/backend.rs\<close>), and \<open>Backend_Store\<close>, \<open>Backend_Query\<close>,
  \<open>Backend_Replay\<close>, \<open>Backend_Gc\<close> and \<open>Backend_Offsets\<close> prove its behaviour against the set of
  stored events: watermarks are exact, queries return exactly the matching events in order, replays of events with
  HLC timestamps are in HLC order and independent of arrival order, collection removes exactly what is expired, offset commits are
  atomic and fenced.  \<open>Query_Filters\<close> parses selectors (\<^verbatim>\<open>store/query.rs\<close>),
  \<open>Lifecycle\<close> follows publishers (\<^verbatim>\<open>store/lifecycle.rs\<close>), \<open>Runner\<close> has the tasks
  of a running store (\<^verbatim>\<open>store/runner.rs\<close>), \<open>Session_Io\<close> and \<open>Store_Reader\<close> how its
  keys answer.

  \<^bold>\<open>Subscribers.\<close>  \<open>Gap_Detector\<close> with the trait \<^verbatim>\<open>SequenceTracker\<close> as a locale,
  \<open>Event_Dedup\<close>, \<open>Checkpoint\<close>, \<open>Recovery\<close>, \<open>Forwarder\<close>, \<open>Offload\<close> and
  \<open>Pipeline\<close> model \<^verbatim>\<open>subscriber/\<close>: without offload every announced sequence is offered in order or covered by a
  started recovery and sharding changes nothing; recovery ends and offers only what was answered, an offload
  cycle replays each stored event once.  The log of a pipeline has every offer to the channel of the consumer with the
  answer of the channel; an offered event is in the channel when the answer is \<open>Sent\<close>.  \<open>Delivery\<close> and \<open>Durability\<close> compose publisher, network,
  store and subscriber: a successful durable publish is in the database as long as the engine commits what it is given,
  published events are offered with the payload, identity and key of the call that published them,
  gaps close from the cache and from the store.  \<open>Replay\<close> (locale \<open>replay_source\<close>, interpreted for
  local and remote stores) and \<open>Keyed_Consumer\<close> read the history of one store with distinct HLC timestamps completely and in order.

  \<^bold>\<open>Consumer groups.\<close>  \<open>Hash_Ring\<close> and \<open>Partition_Manager\<close>
  (\<^verbatim>\<open>partition/\<close>): members with the same view own every partition exactly once.
  \<open>Consumer_Group\<close> (\<^verbatim>\<open>subscriber/consumer_group.rs\<close>) commits through the stores; the next
  owner resumes right after the committed position, and a member at an earlier generation cannot overwrite it.

  \<^bold>\<open>Cluster.\<close>  \<open>Schema\<close> is the registry of topic schemas, \<open>Storage_Agent\<close>
  membership and placement, \<open>Reconciler\<close> the stores of an agent as a step relation, \<open>Topic_Worker\<close>
  their composition: with the same view every replica runs on exactly one agent.  \<open>Topic_Supervisor\<close>
  follows the topics of \<open>Orchestrator\<close>; \<open>Cluster_View\<close>, \<open>Overrides\<close> and \<open>Lag\<close> are the
  views, placement overrides with drain, and lag reports of the control plane, \<open>Alerts\<close> its alert
  manager: a check yields exactly one alert per offline node and one per partition with too few replicas.
  \<open>Http_Api\<close> is the web interface (\<^verbatim>\<open>mitiflow-orchestrator/src/http\<close>) and the admin
  queryable, and \<open>Http_Contract\<close> shows that the stored topics follow the authorized requests.
  \<open>Peer_Recovery\<close> (\<^verbatim>\<open>mitiflow-storage/src/recovery.rs\<close>) fills the store of a gained
  partition from its peers: it then holds what every answering store of the partition has.  \<open>Domain\<close>
  (\<^verbatim>\<open>mitiflow/src/domain\<close>) has identifiers, namespaces and transports of domains: default namespaces of
  different domains share no key.

  \<^bold>\<open>The emulator.\<close>  \<open>Topology\<close> has the topology file and its validation
  (\<^verbatim>\<open>config.rs\<close>, \<^verbatim>\<open>validation.rs\<close>): a topology is accepted exactly when its references
  resolve and its components can be ordered.  \<open>Chaos\<close> schedules faults (\<^verbatim>\<open>chaos.rs\<close>)
  within their limits, \<open>Emulator_Supervisor\<close> (\<^verbatim>\<open>supervisor.rs\<close>) starts the instances of a topology
  in order and stops them, and \<open>Manifest_Check\<close> compares what producers and consumers logged.

  \<^bold>\<open>Termination and fuel.\<close>  Loops over data are structural recursion or have a measure.  The
  retry loop of the recovery runs on the number of retries left.  The wait for a watermark, the offload cycle
  and the receive loop of the replayer may wait forever; they run over the list of observations they are given
  and have no result when it ends; the liveness properties state the observations after which they do return.
  Runs of components are lists of inputs of any length.

  \<^bold>\<open>Concurrency.\<close>  State behind a lock or written by one task is modelled by sequences of steps in any
  order; where two locks are taken one after the other, the interleaving is explicit.  Time is an argument of
  every step.  The writes of a store are one after the other, as its default single worker performs them; a watermark is read between
  two of them.  The schema bootstrap of a topic worker and its schema subscriber are steps one after the other.

  \<^bold>\<open>Not modelled.\<close>  The gateway, the command-line tools and the benchmarks are input and output around
  the modelled operations.  The back ends of the emulator start operating-system processes and containers; they
  are arguments of its supervisor.  The binaries and the start-up code of participants and agents read
  environment variables and wire the modelled parts together.  The payload codecs wrap serde.  Status and
  health reporters send values the model has as records.  Failures of the runtime are left out: the allocation that
  the recovery tracker reserves for a huge gap (\<^verbatim>\<open>recovery.rs\<close>) and the panic of
  \<^verbatim>\<open>Duration::from_secs_f64\<close> on an out-of-range sample (\<^verbatim>\<open>chaos.rs\<close>).  Whether a message on one key
  reaches a subscriber of another is modelled where stores, queryables and lag monitors answer, not for the override
  tables, which the topic workers subscribe to under the prefix of their topic.
\<close>

end
